(* ===== verification/MiniOB_Base.thy ===== *)
theory MiniOB_Base
  imports Main "HOL-Library.Word" "HOL-Library.Monad_Syntax"
begin

text \<open>
  The prelude of the development: the return codes of the program
  (src/src/observer/common/rc.h), the scalar types of
  src/src/observer/common/types.h, the convention for undefined behaviour and
  the generic lemmas that the components share.

  Convention.  A C++ routine that can read or write outside an array, that can
  fail an assertion or that can otherwise run into undefined behaviour is
  modelled with a result of type \<open>'a option\<close>: \<open>None\<close> means "undefined
  behaviour or a failed assertion", and \<open>Some x\<close> the regular outcome, error
  codes included (they are values of \<open>rc\<close>).  A theorem that a routine
  returns \<open>Some x\<close> is therefore also a theorem that it is safe to call.
\<close>

section \<open>Return codes\<close>

datatype rc =
    SUCCESS
  | INVALID_ARGUMENT
  | UNIMPLEMENTED
  | SQL_SYNTAX
  | INTERNAL
  | NOMEM
  | NOTFOUND
  | EMPTY
  | FULL
  | EXIST
  | NOT_EXIST
  | BUFFERPOOL_OPEN
  | BUFFERPOOL_NOBUF
  | BUFFERPOOL_INVALID_PAGE_NUM
  | RECORD_OPENNED
  | RECORD_INVALID_RID
  | RECORD_INVALID_KEY
  | RECORD_DUPLICATE_KEY
  | RECORD_NOMEM
  | RECORD_EOF
  | RECORD_NOT_EXIST
  | RECORD_INVISIBLE
  | SCHEMA_DB_EXIST
  | SCHEMA_DB_NOT_EXIST
  | SCHEMA_DB_NOT_OPENED
  | SCHEMA_TABLE_NOT_EXIST
  | SCHEMA_TABLE_EXIST
  | SCHEMA_FIELD_NOT_EXIST
  | SCHEMA_FIELD_MISSING
  | SCHEMA_FIELD_TYPE_MISMATCH
  | SCHEMA_INDEX_NAME_REPEAT
  | IOERR_READ
  | IOERR_WRITE
  | IOERR_ACCESS
  | IOERR_OPEN
  | IOERR_CLOSE
  | IOERR_SEEK
  | IOERR_TOO_LONG
  | IOERR_SYNC
  | LOCKED_UNLOCK
  | LOCKED_NEED_WAIT
  | LOCKED_CONCURRENCY_CONFLICT
  | FILE_EXIST
  | FILE_NOT_EXIST
  | FILE_NAME
  | FILE_BOUND
  | FILE_CREATE
  | FILE_OPEN
  | FILE_NOT_OPENED
  | FILE_CLOSE
  | FILE_REMOVE
  | VARIABLE_NOT_EXISTS
  | VARIABLE_NOT_VALID
  | LOGBUF_FULL
  | LOG_FILE_FULL
  | LOG_ENTRY_INVALID
  | UNSUPPORTED

definition OB_SUCC :: "rc \<Rightarrow> bool" where
  "OB_SUCC r \<longleftrightarrow> r = SUCCESS"

definition OB_FAIL :: "rc \<Rightarrow> bool" where
  "OB_FAIL r \<longleftrightarrow> r \<noteq> SUCCESS"

lemma OB_SUCC_FAIL [simp]: "OB_SUCC SUCCESS" "\<not> OB_FAIL SUCCESS"
  by (simp_all add: OB_SUCC_def OB_FAIL_def)

section \<open>Scalar types and constants\<close>

type_synonym byte = "8 word"
type_synonym PageNum = int
type_synonym SlotNum = int
type_synonym LSN = int

abbreviation (input) BP_INVALID_PAGE_NUM :: PageNum where
  "BP_INVALID_PAGE_NUM \<equiv> -1"

abbreviation (input) BP_HEADER_PAGE :: PageNum where
  "BP_HEADER_PAGE \<equiv> 0"

text \<open>
  \<open>BP_PAGE_SIZE\<close> is \<open>1 << 13\<close>; \<open>PageNum\<close> takes 4 bytes, \<open>LSN\<close> 8 and
  \<open>CheckSum\<close> 4.
\<close>

definition BP_PAGE_SIZE :: int where
  "BP_PAGE_SIZE = 8192"

definition BP_PAGE_DATA_SIZE :: int where
  "BP_PAGE_DATA_SIZE = BP_PAGE_SIZE - 4 - 8 - 4"

text \<open>
  The two log handlers of the program: the disk log assigns increasing LSNs, the vacuous one (also used
  while replaying) records nothing and leaves the caller's LSN at 0.
\<close>

datatype log_handler_kind = DISK_LOG | VACUOUS_LOG

text \<open>The facts that evaluate constants and the laws of the interpreted interfaces.\<close>

named_theorems layout_simps

lemma BP_PAGE_DATA_SIZE_eq [layout_simps]: "BP_PAGE_DATA_SIZE = 8176"
  by (simp add: BP_PAGE_DATA_SIZE_def BP_PAGE_SIZE_def)

section \<open>Option results\<close>

lemma bind_eq_Some_iff:
  "(m \<bind> f) = Some y \<longleftrightarrow> (\<exists>x. m = Some x \<and> f x = Some y)"
  by (cases m) auto

lemma ex_Some_bind:
  "m = Some x \<Longrightarrow> (m \<bind> f) = f x"
  by simp

section \<open>Lists\<close>

text \<open>Counting the positions below a bound that satisfy a predicate.\<close>

definition used_below :: "(nat \<Rightarrow> bool) \<Rightarrow> nat \<Rightarrow> nat set" where
  "used_below p n = {i. i < n \<and> p i}"

lemma finite_used_below [simp]: "finite (used_below p n)"
  by (simp add: used_below_def)

lemma card_used_below_le: "card (used_below p n) \<le> n"
proof -
  have "card (used_below p n) \<le> card {..<n}"
    by (rule card_mono) (auto simp: used_below_def)
  then show ?thesis by simp
qed

lemma card_used_below_full_iff: "card (used_below p n) = n \<longleftrightarrow> (\<forall>i<n. p i)"
proof
  assume "card (used_below p n) = n"
  then have "used_below p n = {..<n}"
    by (intro card_subset_eq) (auto simp: used_below_def)
  then show "\<forall>i<n. p i" by (auto simp: used_below_def)
next
  assume "\<forall>i<n. p i"
  then have "used_below p n = {..<n}" by (auto simp: used_below_def)
  then show "card (used_below p n) = n" by simp
qed

lemma card_used_below_insert:
  assumes "i < n" "\<not> p i" "\<And>j. j < n \<Longrightarrow> q j \<longleftrightarrow> j = i \<or> p j"
  shows "card (used_below q n) = Suc (card (used_below p n))"
proof -
  have "used_below q n = insert i (used_below p n)"
    using assms by (auto simp: used_below_def)
  moreover have "i \<notin> used_below p n" using assms by (simp add: used_below_def)
  ultimately show ?thesis by simp
qed

lemma card_used_below_remove:
  assumes "i < n" "p i" "\<And>j. j < n \<Longrightarrow> q j \<longleftrightarrow> j \<noteq> i \<and> p j"
  shows "Suc (card (used_below q n)) = card (used_below p n)"
proof -
  have "used_below p n = insert i (used_below q n)"
    using assms by (auto simp: used_below_def)
  moreover have "i \<notin> used_below q n" using assms by (simp add: used_below_def)
  ultimately show ?thesis by simp
qed

lemma take_drop_overwrite_nth:
  assumes "off + length d \<le> length xs" "i < length xs"
  shows "(take off xs @ d @ drop (off + length d) xs) ! i =
         (if off \<le> i \<and> i < off + length d then d ! (i - off) else xs ! i)"
  using assms by (auto simp: nth_append)

section \<open>First position from a start that satisfies a predicate\<close>

text \<open>
  What every forward search of the program promises: \<open>r\<close> is the least position
  in \<open>[s, n)\<close> that satisfies \<open>p\<close>, and -1 if there is none.
\<close>

definition first_from :: "(nat \<Rightarrow> bool) \<Rightarrow> nat \<Rightarrow> nat \<Rightarrow> int \<Rightarrow> bool" where
  "first_from p s n r \<longleftrightarrow>
     (r = -1 \<and> (\<forall>j. s \<le> j \<and> j < n \<longrightarrow> \<not> p j)) \<or>
     (int s \<le> r \<and> r < int n \<and> p (nat r) \<and> (\<forall>j. s \<le> j \<and> int j < r \<longrightarrow> \<not> p j))"

lemma first_fromI:
  assumes "s \<le> k" "k < n" "p k" "\<And>j. s \<le> j \<Longrightarrow> j < k \<Longrightarrow> \<not> p j"
  shows "first_from p s n (int k)"
  using assms by (auto simp: first_from_def)

lemma first_fromE:
  assumes "first_from p s n r"
  obtains (none) "r = -1" "\<And>j. s \<le> j \<Longrightarrow> j < n \<Longrightarrow> \<not> p j"
    | (some) k where "r = int k" "s \<le> k" "k < n" "p k" "\<And>j. s \<le> j \<Longrightarrow> j < k \<Longrightarrow> \<not> p j"
proof (cases "r = -1")
  case True
  then show ?thesis using assms none by (auto simp: first_from_def)
next
  case False
  then have "r \<ge> 0" using assms by (auto simp: first_from_def)
  then show ?thesis using False assms some[of "nat r"] by (auto simp: first_from_def)
qed

lemma first_from_here: "s < n \<Longrightarrow> p s \<Longrightarrow> first_from p s n (int s)"
  by (auto simp: first_from_def)

lemma first_from_end: "n \<le> s \<Longrightarrow> first_from p s n (-1)"
  by (auto simp: first_from_def)

lemma first_from_skip:
  assumes r: "first_from p s' n r" and le: "s \<le> s'"
    and skip: "\<And>j. s \<le> j \<Longrightarrow> j < s' \<Longrightarrow> \<not> p j"
  shows "first_from p s n r"
proof (cases "r = -1")
  case True
  then have "\<not> p j" if "s \<le> j" "j < n" for j
    using that skip[of j] r by (cases "j < s'") (auto simp: first_from_def)
  with True show ?thesis by (simp add: first_from_def)
next
  case False
  then have r': "int s' \<le> r" "r < int n" "p (nat r)"
    "\<And>j. s' \<le> j \<Longrightarrow> int j < r \<Longrightarrow> \<not> p j"
    using r by (auto simp: first_from_def)
  then have "\<not> p j" if "s \<le> j" "int j < r" for j
    using that skip[of j] by (cases "j < s'") auto
  with r' le show ?thesis by (simp add: first_from_def)
qed

lemma first_from_next: "\<not> p s \<Longrightarrow> first_from p (Suc s) n r \<Longrightarrow> first_from p s n r"
  by (rule first_from_skip[of p "Suc s"]) (auto simp: le_less_Suc_eq)

lemma first_from_nonneg:
  assumes "first_from p s n r" "r \<ge> 0"
  shows "s \<le> nat r" "nat r < n" "p (nat r)"
  using assms by (auto simp: first_from_def)

lemma first_from_neg:
  assumes "first_from p s n r" "r < 0"
  shows "r = -1" "s \<le> j \<Longrightarrow> j < n \<Longrightarrow> \<not> p j"
  using assms by (auto simp: first_from_def)

lemma first_from_nonneg_neg_one: "first_from p s n r \<Longrightarrow> r \<noteq> -1 \<Longrightarrow> r \<ge> 0"
  by (auto simp: first_from_def)

lemma first_from_widen:
  assumes "first_from p s n r" "r \<ge> 0" "n \<le> n'"
  shows "first_from p s n' r"
  using assms by (auto simp: first_from_def)

lemma first_from_cut:
  assumes "first_from p s n r" "n' \<le> n"
  shows "first_from p s n' (if r \<ge> int n' then -1 else r)"
  using assms by (auto simp: first_from_def)

lemma first_from_unique: "first_from p s n r \<Longrightarrow> first_from p s n r' \<Longrightarrow> r = r'"
  unfolding first_from_def
  by (smt (verit, best) int_nat_eq nat_0_le of_nat_0_le_iff of_nat_less_iff zle_int)

end
