(* ===== verification/Bitmap.thy ===== *)
theory Bitmap
  imports MiniOB_Base
begin

text \<open>
  The bitmap over a raw byte array (src/deps/common/lang/bitmap.h and
  bitmap.cpp), which records the used slots of a record page and the allocated
  pages of a file: its three accessors, the two searches with their byte-wise
  loops, and the slot-map interface that both clients rely on.
\<close>

unbundle bit_operations_syntax

section \<open>Model\<close>

record bitmap =
  bm_bytes :: "byte list"
  bm_size :: int

function find_first_zero :: "byte \<Rightarrow> nat \<Rightarrow> int" where
  "find_first_zero byte i =
     (if i < 8 then
        (if (byte AND push_bit i 1) = 0 then int i else find_first_zero byte (Suc i))
      else -1)"
  by pat_completeness auto
termination
  by (relation "measure (\<lambda>(byte, i). 8 - i)") auto

function find_first_setted :: "byte \<Rightarrow> nat \<Rightarrow> int" where
  "find_first_setted byte i =
     (if i < 8 then
        (if (byte AND push_bit i 1) \<noteq> 0 then int i else find_first_setted byte (Suc i))
      else -1)"
  by pat_completeness auto
termination
  by (relation "measure (\<lambda>(byte, i). 8 - i)") auto

declare find_first_zero.simps [simp del] find_first_setted.simps [simp del]

definition bytes :: "int \<Rightarrow> int" where
  "bytes sz = (if sz mod 8 = 0 then sz div 8 else sz div 8 + 1)"

text \<open>
  An access to \<open>bitmap_[index / 8]\<close> outside the array is undefined behaviour,
  hence \<open>None\<close>.
\<close>

definition in_array :: "bitmap \<Rightarrow> int \<Rightarrow> bool" where
  "in_array b index \<longleftrightarrow> 0 \<le> index \<and> index div 8 < int (length (bm_bytes b))"

definition get_bit :: "bitmap \<Rightarrow> int \<Rightarrow> bool option" where
  "get_bit b index =
     (if in_array b index
      then Some ((bm_bytes b ! nat (index div 8) AND push_bit (nat (index mod 8)) 1) \<noteq> 0)
      else None)"

definition set_bit :: "bitmap \<Rightarrow> int \<Rightarrow> bitmap option" where
  "set_bit b index =
     (if in_array b index
      then Some (b\<lparr>bm_bytes := (bm_bytes b)[nat (index div 8) :=
             bm_bytes b ! nat (index div 8) OR push_bit (nat (index mod 8)) 1]\<rparr>)
      else None)"

definition clear_bit :: "bitmap \<Rightarrow> int \<Rightarrow> bitmap option" where
  "clear_bit b index =
     (if in_array b index
      then Some (b\<lparr>bm_bytes := (bm_bytes b)[nat (index div 8) :=
             bm_bytes b ! nat (index div 8) AND NOT (push_bit (nat (index mod 8)) 1)]\<rparr>)
      else None)"

text \<open>
  The search loops: \<open>iter\<close> runs from \<open>start / 8\<close> to \<open>bytes(size_)\<close>, and
  \<open>start_in_byte\<close> is reset to 0 after the first byte.  The value is the one of
  \<open>ret\<close> when the loop ends.
\<close>

function next_unsetted_loop :: "byte list \<Rightarrow> int \<Rightarrow> int \<Rightarrow> nat \<Rightarrow> int option" where
  "next_unsetted_loop bm iter end1 start_in_byte =
     (if iter < end1 then
        if iter < 0 \<or> iter \<ge> int (length bm) then None
        else
          (let byte = bm ! nat iter;
               index_in_byte = (if byte \<noteq> -1 then find_first_zero byte start_in_byte else -1)
           in if index_in_byte \<ge> 0 then Some (iter * 8 + index_in_byte)
              else next_unsetted_loop bm (iter + 1) end1 0)
      else Some (-1))"
  by pat_completeness auto
termination
  by (relation "measure (\<lambda>(bm, iter, end1, s). nat (end1 - iter))") auto

function next_setted_loop :: "byte list \<Rightarrow> int \<Rightarrow> int \<Rightarrow> nat \<Rightarrow> int option" where
  "next_setted_loop bm iter end1 start_in_byte =
     (if iter < end1 then
        if iter < 0 \<or> iter \<ge> int (length bm) then None
        else
          (let byte = bm ! nat iter;
               index_in_byte = (if byte \<noteq> 0 then find_first_setted byte start_in_byte else -1)
           in if index_in_byte \<ge> 0 then Some (iter * 8 + index_in_byte)
              else next_setted_loop bm (iter + 1) end1 0)
      else Some (-1))"
  by pat_completeness auto
termination
  by (relation "measure (\<lambda>(bm, iter, end1, s). nat (end1 - iter))") auto

declare next_unsetted_loop.simps [simp del] next_setted_loop.simps [simp del]

definition next_unsetted_bit :: "bitmap \<Rightarrow> int \<Rightarrow> int option" where
  "next_unsetted_bit b start =
     (if start < 0 then None
      else do {
        ret \<leftarrow> next_unsetted_loop (bm_bytes b) (start div 8) (bytes (bm_size b)) (nat (start mod 8));
        Some (if ret \<ge> bm_size b then -1 else ret)
      })"

definition next_setted_bit :: "bitmap \<Rightarrow> int \<Rightarrow> int option" where
  "next_setted_bit b start =
     (if start < 0 then None
      else do {
        ret \<leftarrow> next_setted_loop (bm_bytes b) (start div 8) (bytes (bm_size b)) (nat (start mod 8));
        Some (if ret \<ge> bm_size b then -1 else ret)
      })"

section \<open>Well-formed bitmaps and the bits they hold\<close>

text \<open>The array is large enough for the declared size, as every caller arranges.\<close>

definition bm_wf :: "bitmap \<Rightarrow> bool" where
  "bm_wf b \<longleftrightarrow> 0 \<le> bm_size b \<and> bytes (bm_size b) \<le> int (length (bm_bytes b))"

text \<open>The abstract view: which positions hold a one.\<close>

definition bm_bit :: "bitmap \<Rightarrow> nat \<Rightarrow> bool" where
  "bm_bit b i \<longleftrightarrow> bit (bm_bytes b ! (i div 8)) (i mod 8)"

definition bm_cap :: "bitmap \<Rightarrow> nat" where
  "bm_cap b = nat (bm_size b)"

lemma mask_zero_iff:
  "(w AND 2 ^ n = (0::'a::len word)) \<longleftrightarrow> \<not> (bit w n \<and> n < LENGTH('a))"
proof -
  have "(w AND 2 ^ n = 0) \<longleftrightarrow> (\<forall>k. \<not> bit (w AND push_bit n 1) k)"
    by (metis bit_0_eq bot_apply bit_eqI bot_bool_def push_bit_of_1)
  also have "\<dots> \<longleftrightarrow> \<not> (bit w n \<and> n < LENGTH('a))"
    by (auto simp: bit_simps)
  finally show ?thesis .
qed

section \<open>The searches find the first bit\<close>

lemma find_first_zero_first: "first_from (\<lambda>j. \<not> bit w j) i 8 (find_first_zero w i)"
proof (induction w i rule: find_first_zero.induct)
  case (1 w i)
  show ?case
    using 1 by (auto simp: find_first_zero.simps[of w i] mask_zero_iff
        intro: first_from_here first_from_end first_from_next)
qed

lemma find_first_setted_first: "first_from (\<lambda>j. bit w j) i 8 (find_first_setted w i)"
proof (induction w i rule: find_first_setted.induct)
  case (1 w i)
  show ?case
    using 1 by (auto simp: find_first_setted.simps[of w i] mask_zero_iff
        intro: first_from_here first_from_end first_from_next)
qed

text \<open>
  Both byte loops have the same shape: a search inside the current byte, which
  is skipped for a byte that cannot match, then the following bytes.  The lemma
  states one step for any bit predicate.
\<close>

lemma first_from_byte:
  fixes p :: "nat \<Rightarrow> bool"
  assumes bytewise: "\<And>k. k < 8 \<Longrightarrow> p (8 * it + k) = q k"
    and here: "first_from q s 8 r" and "s \<le> 8" "it < n"
    and rest: "r < 0 \<Longrightarrow> first_from p (8 * Suc it) (8 * n) r'"
  shows "first_from p (8 * it + s) (8 * n) (if r \<ge> 0 then int (8 * it) + r else r')"
  using here
proof (cases rule: first_fromE)
  case (some k)
  have "first_from p (8 * it + s) (8 * n) (int (8 * it + k))"
  proof (rule first_fromI)
    show "p (8 * it + k)" using some bytewise[of k] by simp
    show "8 * it + k < 8 * n" using some \<open>it < n\<close> by simp
    show "\<not> p j" if "8 * it + s \<le> j" "j < 8 * it + k" for j
      using that some(3) some(5)[of "j - 8 * it"] bytewise[of "j - 8 * it"] by auto
  qed (use some in simp)
  then show ?thesis using some by simp
next
  case none
  have "\<not> p j" if "8 * it + s \<le> j" "j < 8 * Suc it" for j
    using that none(2)[of "j - 8 * it"] bytewise[of "j - 8 * it"] by auto
  then show ?thesis
    using none rest assms(3) by (auto intro: first_from_skip)
qed

text \<open>
  Any loop over the bytes with such a step finds the first position; the two
  loops of the code are instances.
\<close>

lemma byte_loop_first:
  fixes L :: "int \<Rightarrow> nat \<Rightarrow> int option"
  assumes step: "\<And>iter s. 0 \<le> iter \<Longrightarrow> L iter s =
      (if iter < end1 then
         if F (bm ! nat iter) s \<ge> 0 then Some (iter * 8 + F (bm ! nat iter) s) else L (iter + 1) 0
       else Some (-1))"
    and F: "\<And>w s. first_from (q w) s 8 (F w s)"
    and p: "\<And>it k. k < 8 \<Longrightarrow> p (8 * it + k) = q (bm ! it) k"
  assumes "0 \<le> iter" "s \<le> 8"
  shows "\<exists>r. L iter s = Some r \<and> first_from p (8 * nat iter + s) (8 * nat end1) r"
  using assms(4,5)
proof (induction "nat (end1 - iter)" arbitrary: iter s)
  case 0
  then show ?case by (auto simp: step intro!: first_from_end)
next
  case (Suc d)
  let ?r = "F (bm ! nat iter) s"
  have lt: "iter < end1" and nat1: "nat (iter + 1) = Suc (nat iter)"
    and d: "d = nat (end1 - (iter + 1))" using Suc by auto
  obtain r' where r': "L (iter + 1) 0 = Some r'"
      "first_from p (8 * Suc (nat iter)) (8 * nat end1) r'"
    using Suc.hyps(1)[OF d, of 0] Suc.prems nat1 by auto
  have "first_from p (8 * nat iter + s) (8 * nat end1)
      (if ?r \<ge> 0 then int (8 * nat iter) + ?r else r')"
    by (rule first_from_byte[OF _ F]) (use lt Suc.prems r' p in auto)
  moreover have "int (8 * nat iter) + ?r = iter * 8 + ?r" using Suc.prems by simp
  ultimately show ?case
    using step[OF Suc.prems(1)] lt r' by (cases "?r \<ge> 0") (simp_all del: of_nat_mult)
qed

lemma bm_bit_byte: "k < 8 \<Longrightarrow> bm_bit b (8 * it + k) = bit (bm_bytes b ! it) k"
  by (simp add: bm_bit_def)

lemma bytes_ceiling: "bytes c = (c + 7) div 8"
proof -
  have c: "c = 8 * (c div 8) + c mod 8" "0 \<le> c mod 8" "c mod 8 < 8" by simp_all
  show ?thesis
  proof (cases "c mod 8 = 0")
    case True
    have "(c + 7) div 8 = c div 8"
      by (rule int_div_pos_eq[where r = 7]) (use c True in linarith)+
    with True show ?thesis by (simp add: bytes_def)
  next
    case False
    then have r1: "1 \<le> c mod 8" using c(2) by linarith
    have "(c + 7) div 8 = c div 8 + 1"
      by (rule int_div_pos_eq[where r = "c mod 8 - 1"]) (use c r1 in auto)
    with False show ?thesis by (simp add: bytes_def)
  qed
qed

lemma bytes_cover: "0 \<le> sz \<Longrightarrow> nat sz \<le> 8 * nat (bytes sz)"
proof -
  have "sz \<le> 8 * bytes sz" unfolding bytes_def by presburger
  then show ?thesis by linarith
qed

lemma start_split: "0 \<le> (start::int) \<Longrightarrow> 8 * nat (start div 8) + nat (start mod 8) = nat start"
  by (simp add: nat_div_distrib nat_mod_distrib)

lemma start_mod_le: "nat ((start::int) mod 8) \<le> 8"
  using pos_mod_bound[of 8 start] by linarith

lemma next_unsetted_bit_first:
  assumes wf: "bm_wf b" and st: "0 \<le> start"
  obtains r where "next_unsetted_bit b start = Some r"
    "first_from (\<lambda>i. \<not> bm_bit b i) (nat start) (bm_cap b) r"
proof -
  let ?F = "\<lambda>w s. if w \<noteq> -1 then find_first_zero w s else -1"
  have F: "first_from (\<lambda>j. \<not> bit w j) s 8 (?F w s)" for w s
    using find_first_zero_first[of w s] by (auto simp: first_from_def)
  have step: "next_unsetted_loop (bm_bytes b) iter (bytes (bm_size b)) s =
      (if iter < bytes (bm_size b) then
         if ?F (bm_bytes b ! nat iter) s \<ge> 0 then Some (iter * 8 + ?F (bm_bytes b ! nat iter) s)
         else next_unsetted_loop (bm_bytes b) (iter + 1) (bytes (bm_size b)) 0
       else Some (-1))" if "0 \<le> iter" for iter s
    using that wf by (simp add: next_unsetted_loop.simps[of _ iter] bm_wf_def Let_def)
  obtain r where r: "next_unsetted_loop (bm_bytes b) (start div 8) (bytes (bm_size b)) (nat (start mod 8)) = Some r"
      "first_from (\<lambda>i. \<not> bm_bit b i) (nat start) (8 * nat (bytes (bm_size b))) r"
    using byte_loop_first[of "\<lambda>it s. next_unsetted_loop (bm_bytes b) it (bytes (bm_size b)) s",
        OF step F, of "\<lambda>i. \<not> bm_bit b i" "start div 8" "nat (start mod 8)"]
    using st start_split[OF st] start_mod_le[of start]
    by (auto simp: bm_bit_byte pos_imp_zdiv_nonneg_iff)
  have "first_from (\<lambda>i. \<not> bm_bit b i) (nat start) (bm_cap b) (if r \<ge> int (bm_cap b) then -1 else r)"
    by (rule first_from_cut[OF r(2)]) (use wf bytes_cover in \<open>simp add: bm_cap_def bm_wf_def\<close>)
  then show thesis
    using that r(1) st wf by (simp add: next_unsetted_bit_def bm_cap_def bm_wf_def)
qed

lemma next_setted_bit_first:
  assumes wf: "bm_wf b" and st: "0 \<le> start"
  obtains r where "next_setted_bit b start = Some r"
    "first_from (bm_bit b) (nat start) (bm_cap b) r"
proof -
  let ?F = "\<lambda>w s. if w \<noteq> 0 then find_first_setted w s else -1"
  have F: "first_from (\<lambda>j. bit w j) s 8 (?F w s)" for w s
    using find_first_setted_first[of w s] by (auto simp: first_from_def)
  have step: "next_setted_loop (bm_bytes b) iter (bytes (bm_size b)) s =
      (if iter < bytes (bm_size b) then
         if ?F (bm_bytes b ! nat iter) s \<ge> 0 then Some (iter * 8 + ?F (bm_bytes b ! nat iter) s)
         else next_setted_loop (bm_bytes b) (iter + 1) (bytes (bm_size b)) 0
       else Some (-1))" if "0 \<le> iter" for iter s
    using that wf by (simp add: next_setted_loop.simps[of _ iter] bm_wf_def Let_def)
  obtain r where r: "next_setted_loop (bm_bytes b) (start div 8) (bytes (bm_size b)) (nat (start mod 8)) = Some r"
      "first_from (bm_bit b) (nat start) (8 * nat (bytes (bm_size b))) r"
    using byte_loop_first[of "\<lambda>it s. next_setted_loop (bm_bytes b) it (bytes (bm_size b)) s",
        OF step F, of "bm_bit b" "start div 8" "nat (start mod 8)"]
    using st start_split[OF st] start_mod_le[of start]
    by (auto simp: bm_bit_byte pos_imp_zdiv_nonneg_iff)
  have "first_from (bm_bit b) (nat start) (bm_cap b) (if r \<ge> int (bm_cap b) then -1 else r)"
    by (rule first_from_cut[OF r(2)]) (use wf bytes_cover in \<open>simp add: bm_cap_def bm_wf_def\<close>)
  then show thesis
    using that r(1) st wf by (simp add: next_setted_bit_def bm_cap_def bm_wf_def)
qed

section \<open>Setting and clearing\<close>

lemma in_array_of_nat:
  assumes "bm_wf b" "i < bm_cap b"
  shows "in_array b (int i)" "i div 8 < length (bm_bytes b)"
proof -
  have "i < 8 * nat (bytes (bm_size b))"
    using assms bytes_cover[of "bm_size b"] by (auto simp: bm_wf_def bm_cap_def)
  then show "i div 8 < length (bm_bytes b)"
    using assms(1) by (auto simp: bm_wf_def)
  then show "in_array b (int i)" by (simp add: in_array_def zdiv_int[symmetric])
qed

lemma nat_int_div8 [simp]: "nat (int i div 8) = i div 8" "nat (int i mod 8) = i mod 8"
  by (simp_all add: nat_div_distrib nat_mod_distrib)

lemma get_bit_eq:
  assumes "bm_wf b" "i < bm_cap b"
  shows "get_bit b (int i) = Some (bm_bit b i)"
  using in_array_of_nat[OF assms] by (simp add: get_bit_def bm_bit_def mask_zero_iff)

text \<open>The updated bitmap of a successful \<open>set_bit\<close> or \<open>clear_bit\<close>.\<close>

definition bm_put :: "bitmap \<Rightarrow> nat \<Rightarrow> bool \<Rightarrow> bitmap" where
  "bm_put b i v = the (if v then set_bit b (int i) else clear_bit b (int i))"

lemma set_bit_eq:
  assumes "bm_wf b" "i < bm_cap b"
  shows "set_bit b (int i) = Some (bm_put b i True)" "clear_bit b (int i) = Some (bm_put b i False)"
  using in_array_of_nat[OF assms] by (simp_all add: bm_put_def set_bit_def clear_bit_def)

lemma bm_put_frame:
  assumes "bm_wf b" "i < bm_cap b"
  shows "bm_size (bm_put b i v) = bm_size b" "length (bm_bytes (bm_put b i v)) = length (bm_bytes b)"
    "bm_wf (bm_put b i v)"
  using in_array_of_nat[OF assms] assms(1)
  by (auto simp: bm_put_def set_bit_def clear_bit_def bm_wf_def)

lemma bm_put_bit:
  assumes "bm_wf b" "i < bm_cap b"
  shows "bm_bit (bm_put b i v) j = (if j = i then v else bm_bit b j)"
proof -
  have "j = i" if "j div 8 = i div 8" "j mod 8 = i mod 8"
    using that by (metis div_mult_mod_eq)
  moreover have "i mod 8 < 8" by simp
  ultimately show ?thesis
    using in_array_of_nat[OF assms]
    by (cases v; cases "j div 8 = i div 8")
      (auto simp: bm_put_def set_bit_def clear_bit_def bm_bit_def bit_simps)
qed

section \<open>The slot-map interface\<close>

text \<open>
  What the record page and the buffer pool rely on: a finite number of slots,
  a well-formed state, a used-flag per slot, and an update that changes one flag.
  The lemmas of the interface count the used slots.
\<close>

locale slot_map =
  fixes inv :: "'m \<Rightarrow> bool"
    and cap :: "'m \<Rightarrow> nat"
    and isset :: "'m \<Rightarrow> nat \<Rightarrow> bool"
    and put :: "'m \<Rightarrow> nat \<Rightarrow> bool \<Rightarrow> 'm"
  assumes put_inv: "inv m \<Longrightarrow> i < cap m \<Longrightarrow> inv (put m i v)"
    and put_cap: "inv m \<Longrightarrow> i < cap m \<Longrightarrow> cap (put m i v) = cap m"
    and put_isset: "inv m \<Longrightarrow> i < cap m \<Longrightarrow> isset (put m i v) j = (if j = i then v else isset m j)"
begin

definition used :: "'m \<Rightarrow> nat" where
  "used m = card (used_below (isset m) (cap m))"

lemma used_le_cap: "used m \<le> cap m"
  by (simp add: used_def card_used_below_le)

lemma used_cong:
  assumes "cap m = cap m'" "\<And>i. i < cap m \<Longrightarrow> isset m i = isset m' i"
  shows "used m = used m'"
proof -
  have "used_below (isset m) (cap m) = used_below (isset m') (cap m')"
    using assms by (auto simp: used_below_def)
  then show ?thesis by (simp add: used_def)
qed

lemma used_full_iff: "used m = cap m \<longleftrightarrow> (\<forall>i<cap m. isset m i)"
  by (simp add: used_def card_used_below_full_iff)

lemma free_slot_exists: "used m < cap m \<Longrightarrow> \<exists>i<cap m. \<not> isset m i"
  using used_full_iff[of m] by auto

lemma used_put_True:
  assumes "inv m" "i < cap m" "\<not> isset m i"
  shows "used (put m i True) = Suc (used m)"
  unfolding used_def put_cap[OF assms(1,2)]
  by (rule card_used_below_insert) (use assms in \<open>auto simp: put_isset\<close>)

lemma used_put_False:
  assumes "inv m" "i < cap m" "isset m i"
  shows "Suc (used (put m i False)) = used m"
  unfolding used_def put_cap[OF assms(1,2)]
  by (rule card_used_below_remove) (use assms in \<open>auto simp: put_isset\<close>)

lemma used_put_same:
  assumes "inv m" "i < cap m" "isset m i = v"
  shows "used (put m i v) = used m"
proof -
  have "isset (put m i v) = isset m"
    using assms by (auto simp: put_isset fun_eq_iff)
  then show ?thesis by (simp add: used_def put_cap[OF assms(1,2)])
qed

lemma used_pos: "i < cap m \<Longrightarrow> isset m i \<Longrightarrow> 0 < used m"
  by (auto simp: used_def used_below_def card_gt_0_iff)

end

interpretation bm: slot_map bm_wf bm_cap bm_bit bm_put
  by unfold_locales (simp_all add: bm_put_frame bm_put_bit bm_cap_def)

section \<open>Properties\<close>

text \<open>
  On a bitmap whose array covers its declared size, \<open>next_unsetted_bit\<close> reads only inside
  the array and returns the first clear position at or after \<open>start\<close> and below the size, or -1
  exactly when there is none.
\<close>

theorem next_unsetted_bit_correct:
  assumes "bm_wf b" and "0 \<le> start"
  shows "\<exists>r. next_unsetted_bit b start = Some r \<and>
     first_from (\<lambda>i. get_bit b (int i) = Some False) (nat start) (nat (bm_size b)) r"
proof -
  obtain r where r: "next_unsetted_bit b start = Some r"
      "first_from (\<lambda>i. \<not> bm_bit b i) (nat start) (bm_cap b) r"
    by (rule next_unsetted_bit_first[OF assms])
  from r(2) have "first_from (\<lambda>i. get_bit b (int i) = Some False) (nat start) (bm_cap b) r"
    by (cases rule: first_fromE)
      (auto simp: get_bit_eq[OF assms(1)] first_from_def)
  with r(1) show ?thesis by (simp add: bm_cap_def)
qed

theorem next_unsetted_bit_correct_witness:
  "\<exists>r. next_unsetted_bit \<lparr>bm_bytes = [255, 7], bm_size = 12\<rparr> 3 = Some r \<and>
     first_from (\<lambda>i. get_bit \<lparr>bm_bytes = [255, 7], bm_size = 12\<rparr> (int i) = Some False) 3 12 r"
  using next_unsetted_bit_correct[of "\<lparr>bm_bytes = [255, 7], bm_size = 12\<rparr>" 3]
  by (simp add: bm_wf_def bytes_def)

end
