(* ===== verification/Key_Order.thy ===== *)
theory Key_Order
  imports MiniOB_Base
begin

text \<open>
  Three-way comparison and binary search: the comparison functions of
  src/deps/common/lang/comparator.cpp, record identifiers
  (src/src/observer/storage/record/record.h), the index key comparator
  (src/src/observer/storage/index/bplus_tree.h) and the search
  \<open>lower_bound\<close> of src/deps/common/lang/lower_bound.h, which the B+ tree
  uses inside its nodes.  The interface \<open>key_order\<close> states what a comparison
  function must satisfy for the search and the tree; it is interpreted on the
  integer and the character key comparators of the program.
\<close>

section \<open>Comparison functions\<close>

definition compare_int :: "int \<Rightarrow> int \<Rightarrow> int" where
  "compare_int v1 v2 = (if v1 > v2 then 1 else if v1 < v2 then -1 else 0)"

text \<open>
  \<open>strncmp\<close> reads at most \<open>n\<close> characters of two terminated buffers; the
  terminator behind the stored bytes is the character 0.
\<close>

definition char_at :: "byte list \<Rightarrow> nat \<Rightarrow> byte" where
  "char_at s i = (if i < length s then s ! i else 0)"

function strncmp_from :: "byte list \<Rightarrow> byte list \<Rightarrow> nat \<Rightarrow> nat \<Rightarrow> int" where
  "strncmp_from s1 s2 i n =
     (if i < n then
        if char_at s1 i < char_at s2 i then -1
        else if char_at s2 i < char_at s1 i then 1
        else if char_at s1 i = 0 then 0
        else strncmp_from s1 s2 (Suc i) n
      else 0)"
  by pat_completeness auto
termination
  by (relation "measure (\<lambda>(s1, s2, i, n). n - i)") auto

declare strncmp_from.simps [simp del]

definition compare_string :: "byte list \<Rightarrow> int \<Rightarrow> byte list \<Rightarrow> int \<Rightarrow> int" where
  "compare_string s1 arg1_max_length s2 arg2_max_length =
     (let maxlen = min arg1_max_length arg2_max_length;
          result = strncmp_from s1 s2 0 (nat maxlen)
      in if result \<noteq> 0 then (if result < 0 then -1 else 1)
         else if arg1_max_length > maxlen then 1
         else if arg2_max_length > maxlen then -1
         else 0)"

section \<open>Record identifiers and index keys\<close>

record rid =
  page_num :: PageNum
  slot_num :: SlotNum

definition rid_compare :: "rid \<Rightarrow> rid \<Rightarrow> int" where
  "rid_compare rid1 rid2 =
     (let page_diff = page_num rid1 - page_num rid2
      in if page_diff \<noteq> 0 then page_diff else slot_num rid1 - slot_num rid2)"

definition rid_min :: rid where
  "rid_min = \<lparr>page_num = 0, slot_num = 0\<rparr>"

definition rid_max :: rid where
  "rid_max = \<lparr>page_num = 2 ^ 31 - 1, slot_num = 2 ^ 31 - 1\<rparr>"

text \<open>
  The comparator of an index key: the attribute first, the record identifier
  for equal attributes.  A key is the attribute bytes followed by the identifier.
\<close>

type_synonym 'a ikey = "'a \<times> rid"

definition key_compare :: "('a \<Rightarrow> 'a \<Rightarrow> int) \<Rightarrow> 'a ikey \<Rightarrow> 'a ikey \<Rightarrow> int" where
  "key_compare attr_comparator v1 v2 =
     (let result = attr_comparator (fst v1) (fst v2)
      in if result \<noteq> 0 then result else rid_compare (snd v1) (snd v2))"

text \<open>
  The attribute comparators: a value of type INTS is compared as an integer; a
  value of type CHARS is first cut at its terminator (\<open>Value::set_string\<close>) and
  then compared with its own length.
\<close>

definition cstring :: "byte list \<Rightarrow> byte list" where
  "cstring s = takeWhile (\<lambda>c. c \<noteq> 0) s"

definition chars_compare :: "byte list \<Rightarrow> byte list \<Rightarrow> int" where
  "chars_compare v1 v2 =
     compare_string (cstring v1) (int (length (cstring v1))) (cstring v2) (int (length (cstring v2)))"

section \<open>Binary search\<close>

text \<open>
  The loop of \<open>lower_bound\<close> over positions: \<open>first\<close> and \<open>last_count\<close> are the
  variables of the source; the result pairs the returned position with \<open>found\<close>.
\<close>

function lower_bound_loop ::
    "('a \<Rightarrow> 'v \<Rightarrow> int) \<Rightarrow> 'a list \<Rightarrow> 'v \<Rightarrow> nat \<Rightarrow> nat \<Rightarrow> nat \<times> bool" where
  "lower_bound_loop comp1 xs val first last_count =
     (if last_count > 0 then
        (let step = last_count div 2;
             iter = first + step;
             result = comp1 (xs ! iter) val
         in if result = 0 then (iter, True)
            else if result < 0 then lower_bound_loop comp1 xs val (iter + 1) (last_count - (step + 1))
            else lower_bound_loop comp1 xs val first step)
      else (first, False))"
  by pat_completeness auto
termination
  by (relation "measure (\<lambda>(comp1, xs, val, first, last_count). last_count)") auto

declare lower_bound_loop.simps [simp del]

definition lower_bound :: "('a \<Rightarrow> 'v \<Rightarrow> int) \<Rightarrow> 'a list \<Rightarrow> 'v \<Rightarrow> nat \<times> bool" where
  "lower_bound comp1 xs val = lower_bound_loop comp1 xs val 0 (length xs)"

section \<open>What a comparison function must satisfy\<close>

text \<open>Strictly increasing sequences, as the keys of a node are.\<close>

definition increasing :: "('k \<Rightarrow> 'k \<Rightarrow> int) \<Rightarrow> 'k list \<Rightarrow> bool" where
  "increasing cmp xs \<longleftrightarrow> sorted_wrt (\<lambda>x y. cmp x y < 0) xs"

text \<open>
  The position \<open>i\<close> separates the keys below \<open>val\<close> from the others; \<open>found\<close> tells whether
  the key at \<open>i\<close> compares equal.
\<close>

definition splits_at :: "('k \<Rightarrow> 'k \<Rightarrow> int) \<Rightarrow> 'k list \<Rightarrow> 'k \<Rightarrow> nat \<times> bool \<Rightarrow> bool" where
  "splits_at cmp xs val r \<longleftrightarrow> (case r of (i, found) \<Rightarrow>
     i \<le> length xs \<and> (\<forall>x\<in>set (take i xs). cmp x val < 0) \<and>
     (\<forall>x\<in>set (drop i xs). 0 \<le> cmp x val) \<and>
     (found \<longleftrightarrow> i < length xs \<and> cmp (xs ! i) val = 0))"

text \<open>
  A three-way comparison of a total preorder: keys that compare equal need not
  be the same bytes.
\<close>

locale key_order =
  fixes cmp :: "'k \<Rightarrow> 'k \<Rightarrow> int"
  assumes cmp_refl: "cmp x x = 0"
    and cmp_swap: "cmp x y < 0 \<longleftrightarrow> 0 < cmp y x"
    and cmp_trans: "cmp x y \<le> 0 \<Longrightarrow> cmp y z \<le> 0 \<Longrightarrow> cmp x z \<le> 0"
begin

lemma cmp_le_iff: "cmp x y \<le> 0 \<longleftrightarrow> 0 \<le> cmp y x"
  using cmp_swap[of y x] by linarith

lemma cmp_eq_sym: "cmp x y = 0 \<longleftrightarrow> cmp y x = 0"
  using cmp_swap[of x y] cmp_swap[of y x] by linarith

lemma cmp_less_le_trans: "cmp x y < 0 \<Longrightarrow> cmp y z \<le> 0 \<Longrightarrow> cmp x z < 0"
  using cmp_trans[of y z x] cmp_le_iff[of z x] cmp_le_iff[of x y] cmp_swap[of x y] by linarith

lemma cmp_le_less_trans: "cmp x y \<le> 0 \<Longrightarrow> cmp y z < 0 \<Longrightarrow> cmp x z < 0"
  using cmp_trans[of z x y] cmp_le_iff[of z x] cmp_le_iff[of y z] cmp_swap[of y z] by linarith

lemma cmp_less_trans: "cmp x y < 0 \<Longrightarrow> cmp y z < 0 \<Longrightarrow> cmp x z < 0"
  by (rule cmp_less_le_trans) auto

lemma cmp_less_not_less: "cmp x y < 0 \<Longrightarrow> \<not> cmp y x < 0"
  using cmp_swap[of x y] by linarith

lemma increasing_simps [simp]:
  "increasing cmp []" "increasing cmp [x]"
  "increasing cmp (x # xs) \<longleftrightarrow> (\<forall>y\<in>set xs. cmp x y < 0) \<and> increasing cmp xs"
  "increasing cmp (xs @ ys) \<longleftrightarrow> increasing cmp xs \<and> increasing cmp ys \<and> (\<forall>x\<in>set xs. \<forall>y\<in>set ys. cmp x y < 0)"
  by (auto simp: increasing_def sorted_wrt_append)

lemma increasing_nth: "increasing cmp xs \<Longrightarrow> i < j \<Longrightarrow> j < length xs \<Longrightarrow> cmp (xs ! i) (xs ! j) < 0"
  by (simp add: increasing_def sorted_wrt_iff_nth_less)

lemma increasing_take_drop:
  assumes "increasing cmp xs"
  shows "increasing cmp (take n xs)" "increasing cmp (drop n xs)"
    "x \<in> set (take n xs) \<Longrightarrow> y \<in> set (drop n xs) \<Longrightarrow> cmp x y < 0"
proof -
  have "increasing cmp (take n xs @ drop n xs)" using assms by simp
  then show "increasing cmp (take n xs)" "increasing cmp (drop n xs)"
    "x \<in> set (take n xs) \<Longrightarrow> y \<in> set (drop n xs) \<Longrightarrow> cmp x y < 0"
    unfolding increasing_simps by auto
qed

lemma lower_bound_loop_splits:
  assumes "increasing cmp xs" "first + last_count \<le> length xs"
    and "\<forall>x\<in>set (take first xs). cmp x val < 0"
    and "\<forall>x\<in>set (drop (first + last_count) xs). 0 < cmp x val"
  shows "splits_at cmp xs val (lower_bound_loop cmp xs val first last_count)"
  using assms
proof (induction last_count arbitrary: first rule: less_induct)
  case (less last_count)
  note inc = less.prems(1) and bound = less.prems(2) and below = less.prems(3)
    and above = less.prems(4)
  let ?step = "last_count div 2"
  let ?iter = "first + ?step"
  show ?case
  proof (cases "last_count = 0")
    case True
    then show ?thesis
      using less.prems by (fastforce simp: lower_bound_loop.simps[of cmp] splits_at_def
          in_set_conv_nth nth_append set_take_disj_set_drop_if_distinct Cons_nth_drop_Suc[symmetric])
  next
    case False
    then have lt: "?iter < length xs" "?step < last_count" using bound by auto
    have xs: "take (Suc ?iter) xs = take ?iter xs @ [xs ! ?iter]"
      "drop ?iter xs = xs ! ?iter # drop (Suc ?iter) xs"
      using lt by (simp_all add: take_Suc_conv_app_nth Cons_nth_drop_Suc)
    have left: "cmp x (xs ! ?iter) < 0" if "x \<in> set (take ?iter xs)" for x
      using increasing_take_drop(3)[OF inc that, of "xs ! ?iter"] xs(2) by simp
    have right: "cmp (xs ! ?iter) x < 0" if "x \<in> set (drop (Suc ?iter) xs)" for x
      using increasing_take_drop(3)[OF inc, of "xs ! ?iter" "Suc ?iter" x] xs(1) that by simp
    consider (eq) "cmp (xs ! ?iter) val = 0" | (lt) "cmp (xs ! ?iter) val < 0"
      | (gt) "0 < cmp (xs ! ?iter) val" by linarith
    then show ?thesis
    proof cases
      case eq
      have "0 \<le> cmp x val" if "x \<in> set (drop ?iter xs)" for x
        using that right[of x] eq cmp_swap[of "xs ! ?iter" x] xs(2)
          cmp_trans[of x val "xs ! ?iter"] cmp_eq_sym[of "xs ! ?iter" val] by fastforce
      then show ?thesis
        using False eq lt left cmp_less_le_trans[of _ "xs ! ?iter" val]
        by (auto simp: lower_bound_loop.simps[of cmp] splits_at_def Let_def)
    next
      case lt': lt
      have "splits_at cmp xs val (lower_bound_loop cmp xs val (Suc ?iter) (last_count - Suc ?step))"
      proof (rule less.IH)
        show "\<forall>x\<in>set (take (Suc ?iter) xs). cmp x val < 0"
          using lt' left cmp_less_trans[of _ "xs ! ?iter" val] by (auto simp: xs(1))
        show "\<forall>x\<in>set (drop (Suc ?iter + (last_count - Suc ?step)) xs). 0 < cmp x val"
          using above lt by simp
      qed (use lt bound inc in auto)
      then show ?thesis
        using False lt' by (simp add: lower_bound_loop.simps[of cmp xs val first] Let_def)
    next
      case gt
      have "splits_at cmp xs val (lower_bound_loop cmp xs val first ?step)"
      proof (rule less.IH)
        have "0 < cmp x val" if "x \<in> set (drop ?iter xs)" for x
          using that gt right[of x] cmp_swap[of val] cmp_less_trans[of val "xs ! ?iter" x]
          by (auto simp: xs(2))
        then show "\<forall>x\<in>set (drop ?iter xs). 0 < cmp x val" by blast
      qed (use lt bound inc below in auto)
      then show ?thesis
        using False gt by (simp add: lower_bound_loop.simps[of cmp xs val first] Let_def)
    qed
  qed
qed

lemma lower_bound_splits:
  "increasing cmp xs \<Longrightarrow> splits_at cmp xs val (lower_bound cmp xs val)"
  unfolding lower_bound_def by (rule lower_bound_loop_splits) auto

end

section \<open>The comparators of the program\<close>

lemma key_order_compare_int: "key_order compare_int"
  by unfold_locales (auto simp: compare_int_def split: if_splits)

lemma key_order_rid_compare: "key_order rid_compare"
  by unfold_locales (auto simp: rid_compare_def Let_def split: if_splits)

text \<open>Two total preorders combine lexicographically.\<close>

lemma key_order_key_compare:
  assumes "key_order acmp"
  shows "key_order (key_compare acmp)"
proof -
  note A = key_order.cmp_refl[OF assms] key_order.cmp_swap[OF assms] key_order.cmp_eq_sym[OF assms]
  note R = key_order.cmp_refl[OF key_order_rid_compare] key_order.cmp_swap[OF key_order_rid_compare]
  show ?thesis
  proof (unfold_locales, goal_cases)
    case (1 x)
    then show ?case by (simp add: key_compare_def A R)
  next
    case (2 x y)
    then show ?case
      using A(2,3)[of "fst x" "fst y"] R(2)[of "snd x" "snd y"] by (auto simp: key_compare_def Let_def)
  next
    case (3 x y z)
    have le: "acmp (fst x) (fst y) \<le> 0" "acmp (fst y) (fst z) \<le> 0"
      using 3 by (auto simp: key_compare_def Let_def split: if_splits)
    show ?case
    proof (cases "acmp (fst x) (fst z) = 0")
      case True
      have "acmp (fst x) (fst y) = 0 \<and> acmp (fst y) (fst z) = 0"
        using True le key_order.cmp_less_le_trans[OF assms, of "fst x" "fst y" "fst z"]
          key_order.cmp_le_less_trans[OF assms, of "fst x" "fst y" "fst z"] by linarith
      then show ?thesis
        using 3 True key_order.cmp_trans[OF key_order_rid_compare]
        by (auto simp: key_compare_def Let_def)
    next
      case False
      then show ?thesis
        using key_order.cmp_trans[OF assms le] by (simp add: key_compare_def)
    qed
  qed
qed

text \<open>Strings without the terminator compare lexicographically.\<close>

fun lex3 :: "byte list \<Rightarrow> byte list \<Rightarrow> int" where
  "lex3 [] [] = 0"
| "lex3 [] (y # ys) = -1"
| "lex3 (x # xs) [] = 1"
| "lex3 (x # xs) (y # ys) = (if x < y then -1 else if y < x then 1 else lex3 xs ys)"

lemma lex3_refl: "lex3 x x = 0"
  by (induction x) auto

lemma lex3_swap: "lex3 x y < 0 \<longleftrightarrow> 0 < lex3 y x"
  by (induction x y rule: lex3.induct) auto

lemma lex3_trans: "lex3 x y \<le> 0 \<Longrightarrow> lex3 y z \<le> 0 \<Longrightarrow> lex3 x z \<le> 0"
proof (induction x y arbitrary: z rule: lex3.induct)
  case (4 a as b bs)
  then show ?case by (cases z) (auto split: if_splits)
next
  case (2 y ys)
  then show ?case by (cases z) auto
qed auto

lemma strncmp_from_Cons:
  "strncmp_from (x # xs) (y # ys) (Suc i) (Suc n) = strncmp_from xs ys i n"
proof (induction "n - i" arbitrary: i)
  case 0
  then show ?case by (simp add: strncmp_from.simps)
next
  case (Suc d)
  then show ?case
    by (simp add: strncmp_from.simps[of _ _ "Suc i"] strncmp_from.simps[of _ _ i] char_at_def)
qed

lemma compare_string_nat:
  "compare_string s1 (int a) s2 (int b) =
     (let r = strncmp_from s1 s2 0 (min a b)
      in if r \<noteq> 0 then (if r < 0 then -1 else 1) else if b < a then 1 else if a < b then -1 else 0)"
  by (cases "a \<le> b") (simp_all add: compare_string_def Let_def)

lemma compare_string_lex3:
  assumes "0 \<notin> set s1" "0 \<notin> set s2"
  shows "compare_string s1 (int (length s1)) s2 (int (length s2)) = lex3 s1 s2"
  using assms unfolding compare_string_nat
proof (induction s1 s2 rule: lex3.induct)
  case (4 x xs y ys)
  let ?n = "min (length xs) (length ys)"
  have unroll: "strncmp_from (x # xs) (y # ys) 0 (Suc ?n) =
      (if x < y then -1 else if y < x then 1 else strncmp_from xs ys 0 ?n)"
    using "4.prems" strncmp_from_Cons[of x xs y ys 0 ?n]
    by (auto simp: strncmp_from.simps[of "x # xs" "y # ys" 0] char_at_def)
  have "min (length (x # xs)) (length (y # ys)) = Suc ?n" by simp
  then show ?case
    using 4 by (simp only: unroll) (auto simp: Let_def)
qed (simp_all add: strncmp_from.simps Let_def)

lemma chars_compare_lex3: "chars_compare v1 v2 = lex3 (cstring v1) (cstring v2)"
proof -
  have "0 \<notin> set (cstring v)" for v
    unfolding cstring_def using set_takeWhileD[of 0 _ v] by blast
  then show ?thesis by (simp add: chars_compare_def compare_string_lex3)
qed

lemma key_order_chars_compare: "key_order chars_compare"
  by unfold_locales (simp_all add: chars_compare_lex3 lex3_refl lex3_swap lex3_trans)

interpretation int_key: key_order "key_compare compare_int"
  by (rule key_order_key_compare[OF key_order_compare_int])

interpretation chars_key: key_order "key_compare chars_compare"
  by (rule key_order_key_compare[OF key_order_chars_compare])

end
