(* ===== verification/Record_Page.thy ===== *)
theory Record_Page
  imports Bitmap Key_Order
begin

text \<open>
  One page of a record file (src/src/observer/storage/record/record_manager.cpp and
  record_manager.h): the layout arithmetic, the row-format operations of
  \<open>RowRecordPageHandler\<close>, the page iterator and the PAX column index.  The page is modelled as the byte array of its frame:
  the slot bitmap starts behind the header and the records follow it, so an operation that
  wrote outside its slot would change the other records or the bitmap of the model too.
\<close>

section \<open>Layout arithmetic\<close>

definition PAGE_HEADER_SIZE :: int where
  "PAGE_HEADER_SIZE = 28"

definition align8 :: "int \<Rightarrow> int" where
  "align8 sz = (sz + 7) AND NOT 7"

text \<open>
  The quotient of the source is a double; its operands are far below the 53 bits of the
  mantissa and a quotient that is not an integer is further from the next integer than the
  rounding error, so the truncated result is that of the exact fraction
  \<open>n / (record_size + 1/8)\<close>.
\<close>

definition page_record_capacity :: "int \<Rightarrow> int \<Rightarrow> int \<Rightarrow> int" where
  "page_record_capacity page_size rec_size fixed_size =
     (let n = page_size - PAGE_HEADER_SIZE - fixed_size - 1
      in if n \<ge> 0 then (8 * n) div (8 * rec_size + 1) else - ((8 * - n) div (8 * rec_size + 1)))"

definition page_bitmap_size :: "int \<Rightarrow> int" where
  "page_bitmap_size cap = (cap + 7) div 8"

section \<open>State\<close>

record page_header =
  record_num :: int
  column_num :: int
  record_real_size :: int
  record_size :: int
  record_capacity :: int
  col_idx_offset :: int
  data_offset :: int

datatype read_write_mode = READ_ONLY | READ_WRITE

datatype storage_format = UNKNOWN_FORMAT | ROW_FORMAT | PAX_FORMAT

text \<open>The redo log records of a page (\<open>RecordOperation\<close> and \<open>RecordLogHeader\<close>).\<close>

datatype record_operation =
    INIT_PAGE int "int list"
  | INSERT SlotNum "byte list"
  | DELETE SlotNum
  | UPDATE SlotNum "byte list"

text \<open>
  The frame with the page and the handler that has it open: the page number and LSN of the frame,
  the access mode, the header, the bytes of the page (\<open>frame->data()\<close>, of which the first 28 hold
  the header and are represented by \<open>hdr\<close>), the column index, and the log handler: its kind, its
  current LSN and the records appended for this page.
\<close>

record rec_page =
  pg_num :: PageNum
  rw_mode :: read_write_mode
  hdr :: page_header
  pdata :: "byte list"
  col_index :: "int list"
  frame_lsn :: LSN
  log_kind :: log_handler_kind
  cur_lsn :: LSN
  wal :: "(LSN \<times> record_operation) list"

text \<open>
  Appending a log record for the page: the disk log handler assigns the next LSN, which the frame
  takes over; the vacuous handler returns LSN 0 and nothing changes.
\<close>

definition append_log :: "record_operation \<Rightarrow> rec_page \<Rightarrow> rec_page" where
  "append_log oper pg =
     (case log_kind pg of
        VACUOUS_LOG \<Rightarrow> pg
      | DISK_LOG \<Rightarrow>
          (let lsn = cur_lsn pg + 1
           in pg\<lparr>cur_lsn := lsn, wal := wal pg @ [(lsn, oper)],
                 frame_lsn := (if lsn > 0 then lsn else frame_lsn pg)\<rparr>))"

definition page_bitmap :: "rec_page \<Rightarrow> bitmap" where
  "page_bitmap pg = \<lparr>bm_bytes = drop 28 (pdata pg), bm_size = record_capacity (hdr pg)\<rparr>"

definition store_bitmap :: "rec_page \<Rightarrow> bitmap \<Rightarrow> rec_page" where
  "store_bitmap pg b = pg\<lparr>pdata := take 28 (pdata pg) @ bm_bytes b\<rparr>"

text \<open>\<open>memcpy\<close> from and to the page; an access outside the page is undefined behaviour.\<close>

definition read_bytes :: "byte list \<Rightarrow> int \<Rightarrow> int \<Rightarrow> byte list option" where
  "read_bytes xs off n =
     (if 0 \<le> off \<and> 0 \<le> n \<and> off + n \<le> int (length xs)
      then Some (take (nat n) (drop (nat off) xs)) else None)"

definition write_bytes :: "byte list \<Rightarrow> int \<Rightarrow> byte list \<Rightarrow> byte list option" where
  "write_bytes xs off d =
     (if 0 \<le> off \<and> off + int (length d) \<le> int (length xs)
      then Some (take (nat off) xs @ d @ drop (nat off + length d) xs) else None)"

text \<open>
  The functions of \<open>RecordLogHandler\<close>; the payload of an insertion or update is a copy of the
  first \<open>record_size_\<close> bytes of the record.
\<close>

definition log_init_new_page :: "rec_page \<Rightarrow> int \<Rightarrow> int list \<Rightarrow> rec_page" where
  "log_init_new_page pg rec_size idx = append_log (INIT_PAGE rec_size idx) pg"

definition log_insert_record :: "rec_page \<Rightarrow> int \<Rightarrow> SlotNum \<Rightarrow> byte list \<Rightarrow> rec_page option" where
  "log_insert_record pg rec_size slot d = do {
     payload \<leftarrow> read_bytes d 0 rec_size;
     Some (append_log (INSERT slot payload) pg)
   }"

definition log_update_record :: "rec_page \<Rightarrow> int \<Rightarrow> SlotNum \<Rightarrow> byte list \<Rightarrow> rec_page option" where
  "log_update_record pg rec_size slot d = do {
     payload \<leftarrow> read_bytes d 0 rec_size;
     Some (append_log (UPDATE slot payload) pg)
   }"

definition log_delete_record :: "rec_page \<Rightarrow> SlotNum \<Rightarrow> rec_page" where
  "log_delete_record pg slot = append_log (DELETE slot) pg"

lemmas log_record_defs [simp] =
  log_init_new_page_def log_insert_record_def log_update_record_def log_delete_record_def

definition get_record_data :: "rec_page \<Rightarrow> SlotNum \<Rightarrow> int" where
  "get_record_data pg slot = data_offset (hdr pg) + record_size (hdr pg) * slot"

definition copy_record_in :: "rec_page \<Rightarrow> SlotNum \<Rightarrow> byte list \<Rightarrow> rec_page option" where
  "copy_record_in pg slot d = do {
     src \<leftarrow> read_bytes d 0 (record_real_size (hdr pg));
     xs \<leftarrow> write_bytes (pdata pg) (get_record_data pg slot) src;
     Some (pg\<lparr>pdata := xs\<rparr>)
   }"

section \<open>Initialising a page\<close>

text \<open>
  The loop of \<open>fix_record_capacity\<close>; with a record size of 0 it would not end, which is
  \<open>None\<close> as well.
\<close>

function fix_record_capacity :: "int \<Rightarrow> int \<Rightarrow> int \<Rightarrow> int option" where
  "fix_record_capacity rec_size cap last_record_offset =
     (if last_record_offset > BP_PAGE_DATA_SIZE then
        if rec_size \<le> 0 then None
        else fix_record_capacity rec_size (cap - 1) (last_record_offset - rec_size)
      else Some cap)"
  by pat_completeness auto
termination
  by (relation "measure (\<lambda>(r, c, l). nat (l - BP_PAGE_DATA_SIZE))") auto

declare fix_record_capacity.simps [simp del]

definition init_header :: "int \<Rightarrow> int \<Rightarrow> page_header option" where
  "init_header rec_size cols =
     (let rs = align8 rec_size;
          cap = page_record_capacity BP_PAGE_DATA_SIZE rs (cols * 4);
          idx = align8 (PAGE_HEADER_SIZE + page_bitmap_size cap);
          off = align8 (PAGE_HEADER_SIZE + page_bitmap_size cap) + cols * 4
      in do {
        cap' \<leftarrow> fix_record_capacity rs cap (off + cap * rs);
        if off + cap' * rs \<le> BP_PAGE_DATA_SIZE
        then Some \<lparr>record_num = 0, column_num = cols, record_real_size = rec_size, record_size = rs,
                   record_capacity = cap', col_idx_offset = idx, data_offset = off\<rparr>
        else None
      })"

text \<open>\<open>memset(bitmap_, 0, page_bitmap_size(record_capacity))\<close>.\<close>

definition clear_bitmap :: "rec_page \<Rightarrow> rec_page option" where
  "clear_bitmap pg = do {
     xs \<leftarrow> write_bytes (pdata pg) PAGE_HEADER_SIZE
             (replicate (nat (page_bitmap_size (record_capacity (hdr pg)))) 0);
     Some (pg\<lparr>pdata := xs\<rparr>)
   }"

text \<open>The running sums of \<open>field(i)->len() * record_capacity\<close>.\<close>

fun column_ends :: "int \<Rightarrow> int \<Rightarrow> int list \<Rightarrow> int list" where
  "column_ends cap acc [] = []"
| "column_ends cap acc (l # ls) = (l * cap + acc) # column_ends cap (l * cap + acc) ls"

text \<open>
  \<open>init_empty_page\<close> with the table's metadata: \<open>field_lens\<close> is \<open>None\<close> for a null
  \<open>table_meta\<close>; the column index exists in PAX format only.
\<close>

definition init_empty_page ::
    "storage_format \<Rightarrow> rec_page \<Rightarrow> int \<Rightarrow> int list option \<Rightarrow> (rc \<times> rec_page) option" where
  "init_empty_page fmt pg rec_size field_lens =
     (let lens = (case field_lens of
                    Some ls \<Rightarrow> if fmt = PAX_FORMAT then ls else []
                  | None \<Rightarrow> [])
      in do {
        h \<leftarrow> init_header rec_size (int (length lens));
        pg1 \<leftarrow> clear_bitmap (pg\<lparr>rw_mode := READ_WRITE, hdr := h\<rparr>);
        let idx = column_ends (record_capacity h) 0 lens;
        Some (SUCCESS, log_init_new_page (pg1\<lparr>col_index := idx\<rparr>) rec_size idx)
      })"

text \<open>The second overload, used by recovery: the column index is given, nothing is logged.\<close>

definition init_empty_page_cols ::
    "rec_page \<Rightarrow> int \<Rightarrow> int list \<Rightarrow> (rc \<times> rec_page) option" where
  "init_empty_page_cols pg rec_size idx = do {
     h \<leftarrow> init_header rec_size (int (length idx));
     pg1 \<leftarrow> clear_bitmap (pg\<lparr>rw_mode := READ_WRITE, hdr := h\<rparr>);
     Some (SUCCESS, pg1\<lparr>col_index := idx\<rparr>)
   }"

section \<open>Row-format operations\<close>

definition is_full :: "rec_page \<Rightarrow> bool" where
  "is_full pg \<longleftrightarrow> record_num (hdr pg) \<ge> record_capacity (hdr pg)"

definition add_record_num :: "int \<Rightarrow> rec_page \<Rightarrow> rec_page" where
  "add_record_num n pg = pg\<lparr>hdr := (hdr pg)\<lparr>record_num := record_num (hdr pg) + n\<rparr>\<rparr>"

text \<open>
  The result of an insertion: the code, the identifier written through the pointer and the
  page.  The log record is appended before the bytes are copied; its errors are ignored.
\<close>

definition insert_record :: "rec_page \<Rightarrow> byte list \<Rightarrow> (rc \<times> rid option \<times> rec_page) option" where
  "insert_record pg d =
     (if rw_mode pg = READ_ONLY then None
      else if record_num (hdr pg) = record_capacity (hdr pg) then Some (RECORD_NOMEM, None, pg)
      else do {
        index \<leftarrow> next_unsetted_bit (page_bitmap pg) 0;
        b \<leftarrow> set_bit (page_bitmap pg) index;
        let pg1 = add_record_num 1 (store_bitmap pg b);
        pg2 \<leftarrow> log_insert_record pg1 (record_real_size (hdr pg)) index d;
        pg3 \<leftarrow> copy_record_in pg2 index d;
        Some (SUCCESS, Some \<lparr>page_num = pg_num pg, slot_num = index\<rparr>, pg3)
      })"

definition recover_insert_record :: "rec_page \<Rightarrow> byte list \<Rightarrow> rid \<Rightarrow> (rc \<times> rec_page) option" where
  "recover_insert_record pg d r =
     (if slot_num r \<ge> record_capacity (hdr pg) then Some (RECORD_INVALID_RID, pg)
      else do {
        used \<leftarrow> get_bit (page_bitmap pg) (slot_num r);
        pg1 \<leftarrow> (if \<not> used then do {
                   b \<leftarrow> set_bit (page_bitmap pg) (slot_num r);
                   Some (add_record_num 1 (store_bitmap pg b))
                 } else Some pg);
        pg2 \<leftarrow> copy_record_in pg1 (slot_num r) d;
        Some (SUCCESS, pg2)
      })"

definition delete_record :: "rec_page \<Rightarrow> rid \<Rightarrow> (rc \<times> rec_page) option" where
  "delete_record pg r =
     (if rw_mode pg = READ_ONLY then None
      else do {
        used \<leftarrow> get_bit (page_bitmap pg) (slot_num r);
        if used then do {
          b \<leftarrow> clear_bit (page_bitmap pg) (slot_num r);
          let pg1 = add_record_num (-1) (store_bitmap pg b);
          Some (SUCCESS, log_delete_record pg1 (slot_num r))
        } else Some (RECORD_NOT_EXIST, pg)
      })"

definition update_record :: "rec_page \<Rightarrow> rid \<Rightarrow> byte list \<Rightarrow> (rc \<times> rec_page) option" where
  "update_record pg r d =
     (if rw_mode pg = READ_ONLY then None
      else if slot_num r \<ge> record_capacity (hdr pg) then Some (INVALID_ARGUMENT, pg)
      else do {
        used \<leftarrow> get_bit (page_bitmap pg) (slot_num r);
        if used then do {
          pg1 \<leftarrow> copy_record_in pg (slot_num r) d;
          pg2 \<leftarrow> log_update_record pg1 (record_real_size (hdr pg)) (slot_num r) d;
          Some (SUCCESS, pg2)
        } else Some (RECORD_NOT_EXIST, pg)
      })"

definition get_record :: "rec_page \<Rightarrow> rid \<Rightarrow> (rc \<times> (rid \<times> byte list) option) option" where
  "get_record pg r =
     (if slot_num r \<ge> record_capacity (hdr pg) then Some (RECORD_INVALID_RID, None)
      else do {
        used \<leftarrow> get_bit (page_bitmap pg) (slot_num r);
        if \<not> used then Some (RECORD_NOT_EXIST, None)
        else do {
          d \<leftarrow> read_bytes (pdata pg) (get_record_data pg (slot_num r)) (record_real_size (hdr pg));
          Some (SUCCESS, Some (r, d))
        }
      })"

section \<open>The page iterator\<close>

text \<open>
  \<open>RecordPageIterator\<close> keeps the next used slot; -1 means exhausted.  \<open>next\<close> reports success
  exactly when the record it filled in has a slot number other than -1.
\<close>

definition iter_init :: "rec_page \<Rightarrow> SlotNum \<Rightarrow> SlotNum option" where
  "iter_init pg start_slot_num = next_setted_bit (page_bitmap pg) start_slot_num"

definition iter_has_next :: "SlotNum \<Rightarrow> bool" where
  "iter_has_next next_slot_num \<longleftrightarrow> next_slot_num \<noteq> -1"

definition iter_next ::
    "rec_page \<Rightarrow> SlotNum \<Rightarrow> (rid \<times> byte list) \<Rightarrow> (rc \<times> (rid \<times> byte list) \<times> SlotNum) option" where
  "iter_next pg next_slot_num rec0 = do {
     (r, got) \<leftarrow> get_record pg \<lparr>page_num = pg_num pg, slot_num = next_slot_num\<rparr>;
     let rec1 = (case got of Some x \<Rightarrow> x | None \<Rightarrow> rec0);
     nxt \<leftarrow> (if next_slot_num \<ge> 0 then next_setted_bit (page_bitmap pg) (next_slot_num + 1)
             else Some next_slot_num);
     Some (if slot_num (fst rec1) \<noteq> -1 then SUCCESS else RECORD_EOF, rec1, nxt)
   }"

text \<open>The loop \<open>while (has_next()) next(record)\<close> over a page, with fuel for the calls of \<open>next\<close>.\<close>

fun iter_drain :: "nat \<Rightarrow> rec_page \<Rightarrow> SlotNum \<Rightarrow> rid \<times> byte list \<Rightarrow> (rid \<times> byte list) list option" where
  "iter_drain 0 pg nxt rec0 = (if iter_has_next nxt then None else Some [])"
| "iter_drain (Suc n) pg nxt rec0 =
     (if iter_has_next nxt then do {
        (_, rec1, nxt') \<leftarrow> iter_next pg nxt rec0;
        rest \<leftarrow> iter_drain n pg nxt' rec1;
        Some (rec1 # rest)
      } else Some [])"

section \<open>PAX column index\<close>

text \<open>
  \<open>get_field_len\<close> and \<open>get_field_data\<close> of \<open>PaxRecordPageHandler\<close>: the length and the byte offset
  of a field, computed from the column ends.
\<close>

definition get_field_len :: "rec_page \<Rightarrow> nat \<Rightarrow> int" where
  "get_field_len pg col_id =
     (if col_id = 0 then col_index pg ! col_id div record_capacity (hdr pg)
      else (col_index pg ! col_id - col_index pg ! (col_id - 1)) div record_capacity (hdr pg))"

definition get_field_data :: "rec_page \<Rightarrow> SlotNum \<Rightarrow> nat \<Rightarrow> int" where
  "get_field_data pg slot col_id =
     (if col_id = 0 then data_offset (hdr pg) + get_field_len pg col_id * slot
      else data_offset (hdr pg) + col_index pg ! (col_id - 1) + get_field_len pg col_id * slot)"

section \<open>Invariant and abstract view\<close>

text \<open>
  The bitmap and the slots lie inside the page without overlap, and the header counts the set
  bits.
\<close>

definition page_ok :: "rec_page \<Rightarrow> bool" where
  "page_ok pg \<longleftrightarrow>
     int (length (pdata pg)) = BP_PAGE_DATA_SIZE \<and>
     0 \<le> record_capacity (hdr pg) \<and>
     0 \<le> record_real_size (hdr pg) \<and> record_real_size (hdr pg) \<le> record_size (hdr pg) \<and>
     PAGE_HEADER_SIZE + page_bitmap_size (record_capacity (hdr pg)) \<le> data_offset (hdr pg) \<and>
     data_offset (hdr pg) + record_capacity (hdr pg) * record_size (hdr pg) \<le> BP_PAGE_DATA_SIZE \<and>
     record_num (hdr pg) = int (bm.used (page_bitmap pg))"

definition pg_cap :: "rec_page \<Rightarrow> nat" where
  "pg_cap pg = nat (record_capacity (hdr pg))"

definition slot_bytes :: "rec_page \<Rightarrow> nat \<Rightarrow> byte list" where
  "slot_bytes pg i =
     take (nat (record_real_size (hdr pg))) (drop (nat (get_record_data pg (int i))) (pdata pg))"

text \<open>The abstract content of a page: the records by slot.\<close>

definition records :: "rec_page \<Rightarrow> nat \<rightharpoonup> byte list" where
  "records pg i = (if i < pg_cap pg \<and> bm_bit (page_bitmap pg) i then Some (slot_bytes pg i) else None)"

lemma page_layout:
  assumes "page_ok pg"
  shows "length (pdata pg) = 8176" "28 \<le> length (pdata pg)"
    "page_bitmap_size (record_capacity (hdr pg)) \<le> 8148"
    "28 + page_bitmap_size (record_capacity (hdr pg)) \<le> data_offset (hdr pg)"
    "bm_wf (page_bitmap pg)" "bm_cap (page_bitmap pg) = pg_cap pg"
    "int (pg_cap pg) = record_capacity (hdr pg)"
proof -
  note A = assms[unfolded page_ok_def BP_PAGE_DATA_SIZE_eq PAGE_HEADER_SIZE_def]
  have "0 \<le> record_capacity (hdr pg) * record_size (hdr pg)" using A by simp
  then show le: "page_bitmap_size (record_capacity (hdr pg)) \<le> 8148" using A by linarith
  show len: "length (pdata pg) = 8176" and "28 \<le> length (pdata pg)" using A by linarith+
  show "28 + page_bitmap_size (record_capacity (hdr pg)) \<le> data_offset (hdr pg)" using A by linarith
  have "bytes (record_capacity (hdr pg)) = page_bitmap_size (record_capacity (hdr pg))"
    by (simp add: bytes_ceiling page_bitmap_size_def)
  then show "bm_wf (page_bitmap pg)"
    using A le len by (simp add: bm_wf_def page_bitmap_def)
  show "bm_cap (page_bitmap pg) = pg_cap pg"
    by (simp add: bm_cap_def page_bitmap_def pg_cap_def)
  show "int (pg_cap pg) = record_capacity (hdr pg)" using A by (simp add: pg_cap_def)
qed

lemma slot_range:
  assumes "page_ok pg" "i < pg_cap pg"
  shows "28 + page_bitmap_size (record_capacity (hdr pg)) \<le> get_record_data pg (int i)"
    "0 \<le> get_record_data pg (int i)"
    "get_record_data pg (int i) + record_size (hdr pg) \<le> 8176"
    "0 \<le> record_real_size (hdr pg)" "record_real_size (hdr pg) \<le> record_size (hdr pg)"
proof -
  note A = assms(1)[unfolded page_ok_def BP_PAGE_DATA_SIZE_eq PAGE_HEADER_SIZE_def]
  note L = page_layout[OF assms(1)]
  have rs: "0 \<le> record_size (hdr pg)" using A by linarith
  have i: "int i + 1 \<le> record_capacity (hdr pg)" using assms(2) L(7) by linarith
  have "record_size (hdr pg) * (int i + 1) \<le> record_size (hdr pg) * record_capacity (hdr pg)"
    by (rule mult_left_mono[OF i rs])
  then show "get_record_data pg (int i) + record_size (hdr pg) \<le> 8176"
    using A by (simp add: get_record_data_def algebra_simps)
  have "0 \<le> record_size (hdr pg) * int i" using rs by simp
  then show ge: "28 + page_bitmap_size (record_capacity (hdr pg)) \<le> get_record_data pg (int i)"
    using L(4) by (simp add: get_record_data_def)
  have "0 \<le> page_bitmap_size (record_capacity (hdr pg))"
    using A by (simp add: page_bitmap_size_def pos_imp_zdiv_nonneg_iff)
  then show "0 \<le> get_record_data pg (int i)" using ge by linarith
  show "0 \<le> record_real_size (hdr pg)" "record_real_size (hdr pg) \<le> record_size (hdr pg)"
    using A by linarith+
qed

text \<open>Two slots do not overlap.\<close>

lemma slots_apart:
  assumes "page_ok pg" "i < j"
  shows "get_record_data pg (int i) + record_size (hdr pg) \<le> get_record_data pg (int j)"
proof -
  have rs: "0 \<le> record_size (hdr pg)" using assms(1) by (simp add: page_ok_def)
  have "record_size (hdr pg) * (int i + 1) \<le> record_size (hdr pg) * int j"
    by (rule mult_left_mono) (use assms(2) rs in auto)
  then show ?thesis by (simp add: get_record_data_def algebra_simps)
qed

section \<open>The two ways a page changes\<close>

text \<open>Flipping the bit of a slot leaves all record bytes alone.\<close>

lemma bm_put_bytes:
  assumes "bm_wf b" "i < bm_cap b" "k \<noteq> i div 8"
  shows "bm_bytes (bm_put b i v) ! k = bm_bytes b ! k"
  using in_array_of_nat[OF assms(1,2)] assms(3)
  by (cases v) (simp_all add: bm_put_def set_bit_def clear_bit_def)

definition put_slot :: "rec_page \<Rightarrow> nat \<Rightarrow> bool \<Rightarrow> rec_page" where
  "put_slot pg i v = add_record_num (if v then 1 else -1) (store_bitmap pg (bm_put (page_bitmap pg) i v))"

lemma put_slot_simps [simp]:
  "pg_num (put_slot pg i v) = pg_num pg" "rw_mode (put_slot pg i v) = rw_mode pg"
  "wal (put_slot pg i v) = wal pg" "col_index (put_slot pg i v) = col_index pg"
  "record_capacity (hdr (put_slot pg i v)) = record_capacity (hdr pg)"
  "record_size (hdr (put_slot pg i v)) = record_size (hdr pg)"
  "record_real_size (hdr (put_slot pg i v)) = record_real_size (hdr pg)"
  "data_offset (hdr (put_slot pg i v)) = data_offset (hdr pg)"
  "record_num (hdr (put_slot pg i v)) = record_num (hdr pg) + (if v then 1 else -1)"
  "pg_cap (put_slot pg i v) = pg_cap pg"
  "get_record_data (put_slot pg i v) k = get_record_data pg k"
  by (simp_all add: put_slot_def add_record_num_def store_bitmap_def pg_cap_def get_record_data_def)

lemma put_slot_page_bitmap:
  assumes "page_ok pg" "i < pg_cap pg"
  shows "page_bitmap (put_slot pg i v) = bm_put (page_bitmap pg) i v"
proof -
  note L = page_layout[OF assms(1)]
  have "bm_size (bm_put (page_bitmap pg) i v) = record_capacity (hdr pg)"
    using bm_put_frame(1)[of "page_bitmap pg" i v] L assms(2) by (simp add: page_bitmap_def)
  then show ?thesis
    using L(2) by (simp add: page_bitmap_def put_slot_def store_bitmap_def add_record_num_def)
qed

lemma put_slot_length:
  assumes "page_ok pg" "i < pg_cap pg"
  shows "length (pdata (put_slot pg i v)) = length (pdata pg)"
  using page_layout[OF assms(1)] assms(2) bm_put_frame(2)[of "page_bitmap pg" i v]
  by (simp add: put_slot_def store_bitmap_def add_record_num_def page_bitmap_def)

lemma put_slot_nth:
  assumes "page_ok pg" "i < pg_cap pg"
    and "28 + page_bitmap_size (record_capacity (hdr pg)) \<le> int k" "k < 8176"
  shows "pdata (put_slot pg i v) ! k = pdata pg ! k"
proof -
  note L = page_layout[OF assms(1)]
  have "int i < record_capacity (hdr pg)" using assms(2) L(7) by linarith
  then have "int i div 8 < page_bitmap_size (record_capacity (hdr pg))"
    unfolding page_bitmap_size_def by linarith
  then have ne: "k - 28 \<noteq> i div 8" and ge: "28 \<le> k"
    using assms(3) by (auto simp: zdiv_int)
  have "bm_bytes (bm_put (page_bitmap pg) i v) ! (k - 28) = bm_bytes (page_bitmap pg) ! (k - 28)"
    by (rule bm_put_bytes) (use L assms(2) ne in auto)
  then show ?thesis
    using L(1,2) ge assms(4)
    by (simp add: put_slot_def store_bitmap_def add_record_num_def nth_append page_bitmap_def)
qed

lemma put_slot_slot_bytes:
  assumes "page_ok pg" "i < pg_cap pg" "j < pg_cap pg"
  shows "slot_bytes (put_slot pg i v) j = slot_bytes pg j"
proof (rule nth_equalityI)
  note R = slot_range[OF assms(1,3)] and len = put_slot_length[OF assms(1,2), of v]
  show "length (slot_bytes (put_slot pg i v) j) = length (slot_bytes pg j)"
    using len by (simp add: slot_bytes_def)
  fix k assume "k < length (slot_bytes (put_slot pg i v) j)"
  then have k: "int k < record_real_size (hdr pg)" "nat (get_record_data pg (int j)) + k < 8176"
    using len page_layout(1)[OF assms(1)] by (auto simp: slot_bytes_def)
  then show "slot_bytes (put_slot pg i v) j ! k = slot_bytes pg j ! k"
    using R len page_layout(1)[OF assms(1)] put_slot_nth[OF assms(1,2), of "nat (get_record_data pg (int j)) + k"]
    by (simp add: slot_bytes_def)
qed

lemma put_slot_ok:
  assumes "page_ok pg" "i < pg_cap pg" "bm_bit (page_bitmap pg) i \<noteq> v"
  shows "page_ok (put_slot pg i v)"
proof -
  note L = page_layout[OF assms(1)]
  have "record_num (hdr (put_slot pg i v)) = int (bm.used (page_bitmap (put_slot pg i v)))"
  proof (cases v)
    case True
    then show ?thesis
      using assms L bm.used_put_True[of "page_bitmap pg" i]
      by (simp add: put_slot_page_bitmap page_ok_def)
  next
    case False
    then show ?thesis
      using assms L bm.used_put_False[of "page_bitmap pg" i]
      by (simp add: put_slot_page_bitmap page_ok_def)
  qed
  then show ?thesis
    using assms(1) put_slot_length[OF assms(1,2)] unfolding page_ok_def by simp
qed

lemma put_slot_records:
  assumes "page_ok pg" "i < pg_cap pg"
  shows "records (put_slot pg i v) j =
    (if j = i then (if v then Some (slot_bytes pg i) else None) else records pg j)"
  using page_layout[OF assms(1)] assms
  by (auto simp: records_def put_slot_page_bitmap bm_put_bit put_slot_slot_bytes)

text \<open>Copying a record into a slot leaves the bitmap and the other slots alone.\<close>

definition put_bytes :: "rec_page \<Rightarrow> nat \<Rightarrow> byte list \<Rightarrow> rec_page" where
  "put_bytes pg i d = the (copy_record_in pg (int i) d)"

lemma copy_record_in_eq:
  assumes "page_ok pg" "i < pg_cap pg" "int (length d) = record_real_size (hdr pg)"
  shows "copy_record_in pg (int i) d = Some (put_bytes pg i d)"
    "put_bytes pg i d = pg\<lparr>pdata := take (nat (get_record_data pg (int i))) (pdata pg) @ d @
        drop (nat (get_record_data pg (int i)) + length d) (pdata pg)\<rparr>"
  using slot_range[OF assms(1,2)] page_layout(1)[OF assms(1)] assms(3)
  by (simp_all add: put_bytes_def copy_record_in_def read_bytes_def write_bytes_def)

lemma put_bytes_frame:
  assumes "page_ok pg" "i < pg_cap pg" "int (length d) = record_real_size (hdr pg)"
  shows "hdr (put_bytes pg i d) = hdr pg" "pg_num (put_bytes pg i d) = pg_num pg"
    "rw_mode (put_bytes pg i d) = rw_mode pg" "wal (put_bytes pg i d) = wal pg"
    "col_index (put_bytes pg i d) = col_index pg"
    "length (pdata (put_bytes pg i d)) = 8176"
    "pg_cap (put_bytes pg i d) = pg_cap pg"
  using slot_range[OF assms(1,2)] page_layout(1)[OF assms(1)] assms(3)
  by (simp_all add: copy_record_in_eq[OF assms] pg_cap_def)

lemma put_bytes_nth:
  assumes "page_ok pg" "i < pg_cap pg" "int (length d) = record_real_size (hdr pg)" "k < 8176"
  shows "pdata (put_bytes pg i d) ! k =
    (if get_record_data pg (int i) \<le> int k \<and> int k < get_record_data pg (int i) + record_real_size (hdr pg)
     then d ! (k - nat (get_record_data pg (int i))) else pdata pg ! k)"
proof -
  let ?o = "nat (get_record_data pg (int i))"
  have off: "int ?o = get_record_data pg (int i)" "?o + length d \<le> length (pdata pg)"
    using slot_range[OF assms(1,2)] page_layout(1)[OF assms(1)] assms(3) by linarith+
  have range: "(get_record_data pg (int i) \<le> int k \<and>
      int k < get_record_data pg (int i) + record_real_size (hdr pg)) = (?o \<le> k \<and> k < ?o + length d)"
    using off(1) assms(3) by linarith
  show ?thesis
    unfolding copy_record_in_eq(2)[OF assms(1-3)]
    using take_drop_overwrite_nth[OF off(2), of k] page_layout(1)[OF assms(1)] assms(4) range by simp
qed

lemma put_bytes_slot_bytes:
  assumes "page_ok pg" "i < pg_cap pg" "j < pg_cap pg" "int (length d) = record_real_size (hdr pg)"
  shows "slot_bytes (put_bytes pg i d) j = (if j = i then d else slot_bytes pg j)"
proof (rule nth_equalityI)
  note F = put_bytes_frame[OF assms(1,2,4)] and len = page_layout(1)[OF assms(1)]
  note Rj = slot_range[OF assms(1,3)]
  have gj: "get_record_data (put_bytes pg i d) (int j) = get_record_data pg (int j)"
    using F by (simp add: get_record_data_def)
  have L: "length (slot_bytes q j) = nat (record_real_size (hdr pg))"
    if "hdr q = hdr pg" "length (pdata q) = 8176" for q
    using that Rj by (simp add: slot_bytes_def get_record_data_def)
  show "length (slot_bytes (put_bytes pg i d) j) = length (if j = i then d else slot_bytes pg j)"
    using L[of "put_bytes pg i d"] L[of pg] F len assms(4) by auto
  fix k assume "k < length (slot_bytes (put_bytes pg i d) j)"
  then have k: "int k < record_real_size (hdr pg)" using L[of "put_bytes pg i d"] F by auto
  let ?x = "nat (get_record_data pg (int j)) + k"
  have x: "int ?x = get_record_data pg (int j) + int k" "?x < 8176" using Rj k by auto
  have "slot_bytes (put_bytes pg i d) j ! k = pdata (put_bytes pg i d) ! ?x"
    using k x F by (simp add: slot_bytes_def gj)
  also have "\<dots> = (if j = i then d else slot_bytes pg j) ! k"
  proof (cases "j = i")
    case True
    then show ?thesis using put_bytes_nth[OF assms(1,2,4) x(2)] k x(1) Rj by auto
  next
    case False
    then have "get_record_data pg (int j) + record_size (hdr pg) \<le> get_record_data pg (int i) \<or>
        get_record_data pg (int i) + record_size (hdr pg) \<le> get_record_data pg (int j)"
      using slots_apart[OF assms(1), of i j] slots_apart[OF assms(1), of j i] by linarith
    then have "pdata (put_bytes pg i d) ! ?x = pdata pg ! ?x"
      using put_bytes_nth[OF assms(1,2,4) x(2)] k x(1) Rj by auto
    then show ?thesis using False k len x(2) by (simp add: slot_bytes_def)
  qed
  finally show "slot_bytes (put_bytes pg i d) j ! k = (if j = i then d else slot_bytes pg j) ! k" .
qed

lemma put_bytes_bit:
  assumes "page_ok pg" "i < pg_cap pg" "j < pg_cap pg" "int (length d) = record_real_size (hdr pg)"
  shows "bm_bit (page_bitmap (put_bytes pg i d)) j = bm_bit (page_bitmap pg) j"
proof -
  note L = page_layout[OF assms(1)] and F = put_bytes_frame[OF assms(1,2,4)]
  have "int j < record_capacity (hdr pg)" using assms(3) L(7) by linarith
  then have "int j div 8 < page_bitmap_size (record_capacity (hdr pg))"
    unfolding page_bitmap_size_def by linarith
  then have lt: "int (28 + j div 8) < get_record_data pg (int i)" "28 + j div 8 < 8176"
    using slot_range(1,3,4,5)[OF assms(1,2)] by (auto simp: zdiv_int)
  then have "pdata (put_bytes pg i d) ! (28 + j div 8) = pdata pg ! (28 + j div 8)"
    using put_bytes_nth[OF assms(1,2,4)] by auto
  then show ?thesis
    using L(1) F(6) lt(2) by (simp add: bm_bit_def page_bitmap_def)
qed

lemma put_bytes_ok:
  assumes "page_ok pg" "i < pg_cap pg" "int (length d) = record_real_size (hdr pg)"
  shows "page_ok (put_bytes pg i d)"
proof -
  note F = put_bytes_frame[OF assms] and L = page_layout[OF assms(1)]
  have "bm.used (page_bitmap (put_bytes pg i d)) = bm.used (page_bitmap pg)"
    by (rule bm.used_cong)
      (use F L put_bytes_bit[OF assms(1,2) _ assms(3)] in \<open>auto simp: page_bitmap_def bm_cap_def pg_cap_def\<close>)
  then show ?thesis using assms(1) F L(1) by (simp add: page_ok_def)
qed

lemma put_bytes_records:
  assumes "page_ok pg" "i < pg_cap pg" "int (length d) = record_real_size (hdr pg)"
  shows "records (put_bytes pg i d) j =
    (if j = i \<and> bm_bit (page_bitmap pg) i then Some d else records pg j)"
  using assms put_bytes_frame[OF assms]
  by (auto simp: records_def put_bytes_bit put_bytes_slot_bytes)

lemma append_log_frame [simp]:
  "pg_num (append_log oper pg) = pg_num pg" "rw_mode (append_log oper pg) = rw_mode pg"
  "hdr (append_log oper pg) = hdr pg" "pdata (append_log oper pg) = pdata pg"
  "col_index (append_log oper pg) = col_index pg" "log_kind (append_log oper pg) = log_kind pg"
  by (simp_all add: append_log_def Let_def split: log_handler_kind.split)

lemma page_content_cong:
  assumes "hdr q = hdr pg" "pdata q = pdata pg"
  shows "page_ok q = page_ok pg" "records q = records pg" "pg_cap q = pg_cap pg"
    "page_bitmap q = page_bitmap pg" "get_record_data q k = get_record_data pg k"
  using assms
  by (auto simp: page_ok_def records_def fun_eq_iff pg_cap_def page_bitmap_def slot_bytes_def
      get_record_data_def)

lemmas append_log_content [simp] =
  page_content_cong[of "append_log oper pg" pg, OF append_log_frame(3,4)] for oper pg

section \<open>The operations on the abstract content\<close>

lemma slot_bit_ops:
  assumes "page_ok pg" "i < pg_cap pg"
  shows "get_bit (page_bitmap pg) (int i) = Some (bm_bit (page_bitmap pg) i)"
    "set_bit (page_bitmap pg) (int i) = Some (bm_put (page_bitmap pg) i True)"
    "clear_bit (page_bitmap pg) (int i) = Some (bm_put (page_bitmap pg) i False)"
  using page_layout[OF assms(1)] assms(2) by (simp_all add: get_bit_eq set_bit_eq)

lemma read_bytes_all: "int (length d) = n \<Longrightarrow> read_bytes d 0 n = Some d"
  by (auto simp: read_bytes_def)

lemma records_None_iff:
  "i < pg_cap pg \<Longrightarrow> records pg i = None \<longleftrightarrow> \<not> bm_bit (page_bitmap pg) i"
  by (simp add: records_def)

text \<open>The page after a successful insertion into slot \<open>i\<close>.\<close>

definition inserted_page :: "rec_page \<Rightarrow> nat \<Rightarrow> byte list \<Rightarrow> rec_page" where
  "inserted_page pg i d = put_bytes (append_log (INSERT (int i) d) (put_slot pg i True)) i d"

lemma insert_record_full:
  assumes "page_ok pg" "rw_mode pg = READ_WRITE" "\<forall>i<pg_cap pg. records pg i \<noteq> None"
  shows "insert_record pg d = Some (RECORD_NOMEM, None, pg)"
proof -
  have "bm.used (page_bitmap pg) = pg_cap pg"
    using assms(3) page_layout(6)[OF assms(1)] bm.used_full_iff[of "page_bitmap pg"]
    by (auto simp: records_def)
  then have "record_num (hdr pg) = record_capacity (hdr pg)"
    using assms(1) page_layout(7)[OF assms(1)] by (simp add: page_ok_def)
  then show ?thesis using assms(2) by (simp add: insert_record_def)
qed

lemma insert_record_free:
  assumes ok: "page_ok pg" and rw: "rw_mode pg = READ_WRITE"
    and len: "int (length d) = record_real_size (hdr pg)"
    and free: "i < pg_cap pg" "records pg i = None" "\<And>j. j < i \<Longrightarrow> records pg j \<noteq> None"
  shows "insert_record pg d =
    Some (SUCCESS, Some \<lparr>page_num = pg_num pg, slot_num = int i\<rparr>, inserted_page pg i d)"
proof -
  note L = page_layout[OF ok]
  obtain r where r: "next_unsetted_bit (page_bitmap pg) 0 = Some r"
      "first_from (\<lambda>i. \<not> bm_bit (page_bitmap pg) i) 0 (pg_cap pg) r"
    using next_unsetted_bit_first[OF L(5), of 0] L(6) by auto
  have "first_from (\<lambda>i. \<not> bm_bit (page_bitmap pg) i) 0 (pg_cap pg) (int i)"
    by (rule first_fromI) (use free records_None_iff[of _ pg] in auto)
  then have ri: "r = int i" using r(2) first_from_unique by blast
  have "bm.used (page_bitmap pg) \<noteq> pg_cap pg"
    using free(1,2) L(6) bm.used_full_iff[of "page_bitmap pg"] by (auto simp: records_def)
  then have notfull: "record_num (hdr pg) \<noteq> record_capacity (hdr pg)"
    using ok L(7) by (simp add: page_ok_def)
  let ?pg2 = "append_log (INSERT (int i) d) (put_slot pg i True)"
  have ok2: "page_ok ?pg2" using put_slot_ok[OF ok free(1)] free records_None_iff[of i pg] by simp
  have copy: "copy_record_in ?pg2 (int i) d = Some (put_bytes ?pg2 i d)"
    by (rule copy_record_in_eq(1)[OF ok2]) (use free len in auto)
  have payload: "read_bytes d 0 (record_real_size (hdr pg)) = Some d" by (rule read_bytes_all[OF len])
  show ?thesis
    using rw notfull r(1) ri slot_bit_ops(2)[OF ok free(1)] payload copy
    by (simp add: insert_record_def inserted_page_def put_slot_def[symmetric]
        put_slot_def[of pg i True, simplified, symmetric])
qed

lemma inserted_page_facts:
  assumes ok: "page_ok pg" and len: "int (length d) = record_real_size (hdr pg)"
    and free: "i < pg_cap pg" "records pg i = None"
  shows "page_ok (inserted_page pg i d)" "records (inserted_page pg i d) = (records pg)(i \<mapsto> d)"
    "pg_num (inserted_page pg i d) = pg_num pg" "rw_mode (inserted_page pg i d) = rw_mode pg"
    "pg_cap (inserted_page pg i d) = pg_cap pg"
    "record_real_size (hdr (inserted_page pg i d)) = record_real_size (hdr pg)"
proof -
  let ?pg2 = "append_log (INSERT (int i) d) (put_slot pg i True)"
  have ok2: "page_ok ?pg2" and i2: "i < pg_cap ?pg2"
    and len2: "int (length d) = record_real_size (hdr ?pg2)"
    using put_slot_ok[OF ok free(1)] free len records_None_iff[of i pg] by auto
  have bit: "bm_bit (page_bitmap ?pg2) i"
    using page_layout[OF ok] free(1) by (simp add: put_slot_page_bitmap[OF ok] bm_put_bit)
  show "page_ok (inserted_page pg i d)"
    unfolding inserted_page_def by (rule put_bytes_ok[OF ok2 i2 len2])
  show "records (inserted_page pg i d) = (records pg)(i \<mapsto> d)"
    unfolding inserted_page_def fun_eq_iff put_bytes_records[OF ok2 i2 len2]
    using bit put_slot_records[OF ok free(1), of True] by simp
  show "pg_num (inserted_page pg i d) = pg_num pg" "rw_mode (inserted_page pg i d) = rw_mode pg"
    "pg_cap (inserted_page pg i d) = pg_cap pg"
    "record_real_size (hdr (inserted_page pg i d)) = record_real_size (hdr pg)"
    unfolding inserted_page_def using put_bytes_frame[OF ok2 i2 len2] by simp_all
qed

lemma delete_record_in_range:
  assumes "page_ok pg" "rw_mode pg = READ_WRITE" "slot_num r = int i" "i < pg_cap pg"
  shows "delete_record pg r =
    (if records pg i = None then Some (RECORD_NOT_EXIST, pg)
     else Some (SUCCESS, append_log (DELETE (int i)) (put_slot pg i False)))"
  using assms slot_bit_ops[OF assms(1,4)]
  by (simp add: delete_record_def records_def put_slot_def[of pg i False, simplified, symmetric])

lemma update_record_in_range:
  assumes "page_ok pg" "rw_mode pg = READ_WRITE" "slot_num r = int i" "i < pg_cap pg"
    and len: "int (length d) = record_real_size (hdr pg)"
  shows "update_record pg r d =
    (if records pg i = None then Some (RECORD_NOT_EXIST, pg)
     else Some (SUCCESS, append_log (UPDATE (int i) d) (put_bytes pg i d)))"
proof -
  have payload: "read_bytes d 0 (record_real_size (hdr pg)) = Some d" by (rule read_bytes_all[OF len])
  show ?thesis
    using assms slot_bit_ops[OF assms(1,4)] page_layout(7)[OF assms(1)] payload
      copy_record_in_eq(1)[OF assms(1,4) len] put_bytes_frame(4)[OF assms(1,4) len]
    by (auto simp: update_record_def records_def)
qed

lemma get_record_in_range:
  assumes "page_ok pg" "slot_num r = int i" "i < pg_cap pg"
  shows "get_record pg r = (case records pg i of
      None \<Rightarrow> Some (RECORD_NOT_EXIST, None) | Some d \<Rightarrow> Some (SUCCESS, Some (r, d)))"
  using assms slot_bit_ops[OF assms(1,3)] page_layout[OF assms(1)] slot_range[OF assms(1,3)]
  by (auto simp: get_record_def records_def read_bytes_def slot_bytes_def)

lemma out_of_range_codes:
  assumes "slot_num r \<ge> record_capacity (hdr pg)"
  shows "get_record pg r = Some (RECORD_INVALID_RID, None)"
    "rw_mode pg = READ_WRITE \<Longrightarrow> update_record pg r d = Some (INVALID_ARGUMENT, pg)"
    "recover_insert_record pg d r = Some (RECORD_INVALID_RID, pg)"
  using assms by (simp_all add: get_record_def update_record_def recover_insert_record_def)

section \<open>A freshly initialised page\<close>

lemma align8_eq: "align8 x = 8 * ((x + 7) div 8)"
proof -
  have m: "(7::int) = mask 3" by (simp add: mask_eq_exp_minus_1)
  have "(x + 7) AND NOT (mask 3) = push_bit 3 (drop_bit 3 (x + 7))"
    by (rule bit_eqI) (auto simp: bit_simps)
  then show ?thesis
    unfolding align8_def m by (simp add: push_bit_eq_mult drop_bit_eq_div flip: m)
qed

lemma align8_bounds: "x \<le> align8 x" "align8 x < x + 8"
  unfolding align8_eq by linarith+

lemma fix_record_capacity_spec:
  assumes "0 < rs" "0 \<le> cap" "off \<le> BP_PAGE_DATA_SIZE"
  shows "\<exists>cap'. fix_record_capacity rs cap (off + cap * rs) = Some cap' \<and> 0 \<le> cap' \<and> cap' \<le> cap \<and>
    off + cap' * rs \<le> BP_PAGE_DATA_SIZE"
  using assms(2)
proof (induction "nat cap" arbitrary: cap)
  case 0
  then show ?case using assms by (auto simp: fix_record_capacity.simps)
next
  case (Suc n)
  show ?case
  proof (cases "off + cap * rs > BP_PAGE_DATA_SIZE")
    case True
    have "fix_record_capacity rs cap (off + cap * rs) = fix_record_capacity rs (cap - 1) (off + (cap - 1) * rs)"
      using True assms(1) by (simp add: fix_record_capacity.simps[of rs cap] algebra_simps)
    moreover have "n = nat (cap - 1)" "0 \<le> cap - 1" using Suc.hyps(2) by linarith+
    ultimately show ?thesis using Suc.hyps(1)[of "cap - 1"] by auto
  next
    case False
    then show ?thesis using Suc.prems by (auto simp: fix_record_capacity.simps[of rs cap])
  qed
qed

lemma page_record_capacity_bounds:
  assumes "8 \<le> rs" "0 \<le> fixed" "fixed \<le> 8000"
  shows "0 \<le> page_record_capacity BP_PAGE_DATA_SIZE rs fixed"
    "page_record_capacity BP_PAGE_DATA_SIZE rs fixed \<le> 1002"
proof -
  let ?n = "8147 - fixed"
  have eq: "page_record_capacity BP_PAGE_DATA_SIZE rs fixed = (8 * ?n) div (8 * rs + 1)"
    using assms by (simp add: page_record_capacity_def BP_PAGE_DATA_SIZE_eq PAGE_HEADER_SIZE_def Let_def)
  show "0 \<le> page_record_capacity BP_PAGE_DATA_SIZE rs fixed"
    unfolding eq using assms by (simp add: pos_imp_zdiv_nonneg_iff)
  have "(8 * ?n) div (8 * rs + 1) \<le> (8 * ?n) div 65"
    by (rule zdiv_mono2) (use assms in auto)
  also have "\<dots> \<le> 65176 div 65" by (rule zdiv_mono1) (use assms in auto)
  finally show "page_record_capacity BP_PAGE_DATA_SIZE rs fixed \<le> 1002" unfolding eq by simp
qed

lemma init_header_ok:
  assumes "0 < rec_size" "0 \<le> cols" "cols \<le> 2000"
  obtains h where "init_header rec_size cols = Some h" "record_num h = 0" "column_num h = cols"
    "record_real_size h = rec_size" "rec_size \<le> record_size h" "0 \<le> record_capacity h"
    "record_capacity h \<le> 1002"
    "PAGE_HEADER_SIZE + page_bitmap_size (record_capacity h) + 4 * cols \<le> data_offset h"
    "data_offset h + record_capacity h * record_size h \<le> BP_PAGE_DATA_SIZE"
proof -
  let ?rs = "align8 rec_size"
  let ?cap = "page_record_capacity BP_PAGE_DATA_SIZE ?rs (cols * 4)"
  let ?off = "align8 (PAGE_HEADER_SIZE + page_bitmap_size ?cap) + cols * 4"
  have rs: "8 \<le> ?rs" "rec_size \<le> ?rs" using align8_bounds[of rec_size] assms(1) by (auto simp: align8_eq)
  have cap: "0 \<le> ?cap" "?cap \<le> 1002" using page_record_capacity_bounds[of ?rs "cols * 4"] rs assms by auto
  have "page_bitmap_size ?cap \<le> 126" using cap unfolding page_bitmap_size_def by linarith
  then have off: "?off \<le> BP_PAGE_DATA_SIZE"
    using align8_bounds(2)[of "PAGE_HEADER_SIZE + page_bitmap_size ?cap"] assms
    by (simp add: BP_PAGE_DATA_SIZE_eq PAGE_HEADER_SIZE_def)
  obtain cap' where c: "fix_record_capacity ?rs ?cap (?off + ?cap * ?rs) = Some cap'" "0 \<le> cap'"
      "cap' \<le> ?cap" "?off + cap' * ?rs \<le> BP_PAGE_DATA_SIZE"
    using fix_record_capacity_spec[of ?rs ?cap ?off] rs cap off by auto
  have "page_bitmap_size cap' \<le> page_bitmap_size ?cap"
    unfolding page_bitmap_size_def by (rule zdiv_mono1) (use c in auto)
  then have "PAGE_HEADER_SIZE + page_bitmap_size cap' + 4 * cols \<le> ?off"
    using align8_bounds(1)[of "PAGE_HEADER_SIZE + page_bitmap_size ?cap"] by linarith
  then show thesis
    by (intro that[of "\<lparr>record_num = 0, column_num = cols, record_real_size = rec_size, record_size = ?rs,
          record_capacity = cap', col_idx_offset = align8 (PAGE_HEADER_SIZE + page_bitmap_size ?cap),
          data_offset = ?off\<rparr>"])
      (use c rs cap in \<open>simp_all add: init_header_def Let_def\<close>)
qed

lemma cleared_bitmap:
  assumes "length (pdata pg) = 8176" "0 \<le> record_capacity (hdr pg)" "record_capacity (hdr pg) \<le> 1002"
  obtains pg1 where "clear_bitmap pg = Some pg1" "length (pdata pg1) = 8176"
    "\<And>i. i < pg_cap pg \<Longrightarrow> \<not> bm_bit (page_bitmap pg1) i" "hdr pg1 = hdr pg"
    "pg1 = pg\<lparr>pdata := pdata pg1\<rparr>"
proof -
  let ?n = "nat (page_bitmap_size (record_capacity (hdr pg)))"
  let ?xs = "take 28 (pdata pg) @ replicate ?n 0 @ drop (28 + ?n) (pdata pg)"
  have n: "?n \<le> 126" "\<And>i. i < pg_cap pg \<Longrightarrow> i div 8 < ?n"
    using assms(2,3) unfolding page_bitmap_size_def pg_cap_def by linarith+
  have c: "clear_bitmap pg = Some (pg\<lparr>pdata := ?xs\<rparr>)"
  proof -
    have "28 + int ?n \<le> int (length (pdata pg))" using n(1) assms(1) by linarith
    then show ?thesis by (simp add: clear_bitmap_def write_bytes_def PAGE_HEADER_SIZE_def)
  qed
  have bit: "\<not> bm_bit (page_bitmap (pg\<lparr>pdata := ?xs\<rparr>)) i" if "i < pg_cap pg" for i
    using n(2)[OF that] assms(1) by (simp add: bm_bit_def page_bitmap_def nth_append)
  show thesis
    by (rule that[OF c]) (use n(1) assms(1) bit in auto)
qed

lemma page_ok_init:
  assumes "length (pdata pg) = 8176" "hdr pg = h" "init_header rec_size cols = Some h"
    "0 < rec_size" "0 \<le> cols" "cols \<le> 2000"
  obtains pg1 where "clear_bitmap pg = Some pg1" "page_ok pg1" "records pg1 = Map.empty"
    "pg1 = pg\<lparr>pdata := pdata pg1\<rparr>"
proof -
  obtain h' where "init_header rec_size cols = Some h'" and h: "record_num h' = 0"
      "record_real_size h' = rec_size" "rec_size \<le> record_size h'" "0 \<le> record_capacity h'"
      "record_capacity h' \<le> 1002"
      "PAGE_HEADER_SIZE + page_bitmap_size (record_capacity h') + 4 * cols \<le> data_offset h'"
      "data_offset h' + record_capacity h' * record_size h' \<le> BP_PAGE_DATA_SIZE"
    using init_header_ok[OF assms(4-6)] by metis
  then have hh: "h' = h" using assms(3) by simp
  obtain pg1 where c: "clear_bitmap pg = Some pg1" "length (pdata pg1) = 8176"
      "\<And>i. i < pg_cap pg \<Longrightarrow> \<not> bm_bit (page_bitmap pg1) i" "hdr pg1 = hdr pg"
      "pg1 = pg\<lparr>pdata := pdata pg1\<rparr>"
    using cleared_bitmap[of pg] assms(1,2) h hh by metis
  have cap: "pg_cap pg1 = pg_cap pg" "bm_cap (page_bitmap pg1) = pg_cap pg"
    using c(4) by (simp_all add: pg_cap_def bm_cap_def page_bitmap_def)
  have "used_below (bm_bit (page_bitmap pg1)) (pg_cap pg) = {}"
    using c(3) by (auto simp: used_below_def)
  then have "bm.used (page_bitmap pg1) = 0" by (simp add: bm.used_def cap)
  then have "page_ok pg1"
    using c(2,4) h hh assms(2,4,5) by (simp add: page_ok_def BP_PAGE_DATA_SIZE_eq)
  moreover have "records pg1 = Map.empty" using c(3) cap by (auto simp: records_def)
  ultimately show thesis using that c(1,5) by blast
qed

section \<open>Iterating over a page\<close>

lemma iter_drain_from:
  assumes "page_ok pg" "first_from (bm_bit (page_bitmap pg)) start (pg_cap pg) s" "pg_cap pg - start \<le> n"
  shows "iter_drain n pg s rec0 =
    Some (map (\<lambda>i. (\<lparr>page_num = pg_num pg, slot_num = int i\<rparr>, the (records pg i)))
              (filter (\<lambda>i. records pg i \<noteq> None) [start..<pg_cap pg]))"
  using assms(2,3)
proof (induction n arbitrary: start s rec0)
  case 0
  then have "start \<ge> pg_cap pg" "s = -1" by (auto simp: first_from_def)
  then show ?case by (simp add: iter_has_next_def)
next
  case (Suc n)
  from Suc.prems(1) show ?case
  proof (cases rule: first_fromE)
    case none
    then have "filter (\<lambda>i. records pg i \<noteq> None) [start..<pg_cap pg] = []"
      by (auto simp: filter_empty_conv records_def)
    then show ?thesis using none by (simp add: iter_has_next_def)
  next
    case (some k)
    have "[start..<pg_cap pg] = [start..<k] @ k # [Suc k..<pg_cap pg]"
      using some upt_add_eq_append[of start k "pg_cap pg - k"] by (simp add: upt_conv_Cons)
    moreover have "filter (\<lambda>i. records pg i \<noteq> None) [start..<k] = []"
      using some(5) by (auto simp: filter_empty_conv records_def)
    moreover have rk: "records pg k = Some (slot_bytes pg k)" using some by (simp add: records_def)
    ultimately have list: "filter (\<lambda>i. records pg i \<noteq> None) [start..<pg_cap pg] =
        k # filter (\<lambda>i. records pg i \<noteq> None) [Suc k..<pg_cap pg]" by simp
    obtain s' where s': "next_setted_bit (page_bitmap pg) (int k + 1) = Some s'"
        "first_from (bm_bit (page_bitmap pg)) (Suc k) (pg_cap pg) s'"
      using next_setted_bit_first[of "page_bitmap pg" "int k + 1"] page_layout(5,6)[OF assms(1)]
      by (auto simp: nat_add_distrib)
    have get: "get_record pg \<lparr>page_num = pg_num pg, slot_num = int k\<rparr> =
        Some (SUCCESS, Some (\<lparr>page_num = pg_num pg, slot_num = int k\<rparr>, slot_bytes pg k))"
      using get_record_in_range[OF assms(1), of "\<lparr>page_num = pg_num pg, slot_num = int k\<rparr>" k] some rk
      by simp
    show ?thesis
      unfolding list using some(1) get s' Suc.IH[OF s'(2)] Suc.prems(2) some(2,3) rk
      by (simp add: iter_has_next_def iter_next_def)
  qed
qed

end
