(* ===== verification/Record_Page_Correct.thy ===== *)
theory Record_Page_Correct
  imports Record_Page
begin

text \<open>
  What the operations of a record page promise, over the abstract content \<open>records\<close> of a page: the
  interface \<open>slotted_store\<close>, its interpretation on the row-format page, the functional correctness of
  each operation, initialisation, iteration and the placement of the fields of a PAX page.
\<close>

section \<open>The interface of a page with slots\<close>

text \<open>
  What the record file relies on: a partial map from slots to records of a fixed length, and
  operations that change one slot and keep the well-formedness of the page.
\<close>

locale slotted_store =
  fixes inv :: "'p \<Rightarrow> bool"
    and fits :: "'p \<Rightarrow> 'd \<Rightarrow> bool"
    and cap :: "'p \<Rightarrow> nat"
    and view :: "'p \<Rightarrow> nat \<rightharpoonup> 'd"
    and ins :: "'p \<Rightarrow> 'd \<Rightarrow> (nat \<times> 'p) option"
    and del :: "'p \<Rightarrow> nat \<Rightarrow> 'p option"
    and upd :: "'p \<Rightarrow> nat \<Rightarrow> 'd \<Rightarrow> 'p option"
  assumes view_bounded: "view p i = Some d \<Longrightarrow> i < cap p"
    and ins_None: "inv p \<Longrightarrow> fits p d \<Longrightarrow> ins p d = None \<longleftrightarrow> (\<forall>i<cap p. view p i \<noteq> None)"
    and ins_Some: "inv p \<Longrightarrow> fits p d \<Longrightarrow> ins p d = Some (i, q) \<Longrightarrow>
      inv q \<and> cap q = cap p \<and> fits q = fits p \<and> i < cap p \<and> view p i = None \<and> view q = (view p)(i \<mapsto> d)"
    and del_None: "inv p \<Longrightarrow> i < cap p \<Longrightarrow> del p i = None \<longleftrightarrow> view p i = None"
    and del_Some: "inv p \<Longrightarrow> i < cap p \<Longrightarrow> del p i = Some q \<Longrightarrow>
      inv q \<and> cap q = cap p \<and> fits q = fits p \<and> view q = (view p)(i := None)"
    and upd_None: "inv p \<Longrightarrow> i < cap p \<Longrightarrow> fits p d \<Longrightarrow> upd p i d = None \<longleftrightarrow> view p i = None"
    and upd_Some: "inv p \<Longrightarrow> i < cap p \<Longrightarrow> fits p d \<Longrightarrow> upd p i d = Some q \<Longrightarrow>
      inv q \<and> cap q = cap p \<and> fits q = fits p \<and> view q = (view p)(i \<mapsto> d)"
begin

lemma ins_not_overwrite: "inv p \<Longrightarrow> fits p d \<Longrightarrow> ins p d = Some (i, q) \<Longrightarrow> view p \<subseteq>\<^sub>m view q"
  using ins_Some[of p d i q] by (auto simp: map_le_def)

lemma ins_del_restores:
  assumes "inv p" "fits p d" "ins p d = Some (i, q)"
  shows "\<exists>p'. del q i = Some p' \<and> view p' = view p"
proof -
  note I = ins_Some[OF assms]
  then obtain p' where p': "del q i = Some p'" using del_None[of q i] by auto
  then have "view p' = (view q)(i := None)" using del_Some[of q i p'] I by simp
  then have "view p' = view p" using I by (auto simp: fun_eq_iff)
  with p' show ?thesis by blast
qed

lemma del_makes_room:
  assumes "inv p" "i < cap p" "del p i = Some q" "fits p d"
  shows "ins q d \<noteq> None"
  using del_Some[OF assms(1-3)] ins_None[of q d] assms by auto

lemma del_twice: "inv p \<Longrightarrow> i < cap p \<Longrightarrow> del p i = Some q \<Longrightarrow> del q i = None"
  using del_Some[of p i q] del_None[of q i] by auto

end

section \<open>The row-format page implements it\<close>

definition page_fits :: "rec_page \<Rightarrow> byte list \<Rightarrow> bool" where
  "page_fits pg d \<longleftrightarrow> int (length d) = record_real_size (hdr pg)"

definition page_inv :: "rec_page \<Rightarrow> bool" where
  "page_inv pg \<longleftrightarrow> page_ok pg \<and> rw_mode pg = READ_WRITE"

text \<open>The operations reduced to success or failure.\<close>

definition page_ins :: "rec_page \<Rightarrow> byte list \<Rightarrow> (nat \<times> rec_page) option" where
  "page_ins pg d = (case insert_record pg d of
     Some (SUCCESS, Some r, pg') \<Rightarrow> Some (nat (slot_num r), pg') | _ \<Rightarrow> None)"

definition page_del :: "rec_page \<Rightarrow> nat \<Rightarrow> rec_page option" where
  "page_del pg i = (case delete_record pg \<lparr>page_num = pg_num pg, slot_num = int i\<rparr> of
     Some (SUCCESS, pg') \<Rightarrow> Some pg' | _ \<Rightarrow> None)"

definition page_upd :: "rec_page \<Rightarrow> nat \<Rightarrow> byte list \<Rightarrow> rec_page option" where
  "page_upd pg i d = (case update_record pg \<lparr>page_num = pg_num pg, slot_num = int i\<rparr> d of
     Some (SUCCESS, pg') \<Rightarrow> Some pg' | _ \<Rightarrow> None)"

lemma records_bounded: "records pg i = Some d \<Longrightarrow> i < pg_cap pg"
  by (simp add: records_def split: if_splits)

lemma insert_record_cases:
  assumes "page_inv pg" "page_fits pg d"
  obtains (full) "\<forall>i<pg_cap pg. records pg i \<noteq> None" "insert_record pg d = Some (RECORD_NOMEM, None, pg)"
  | (free) i where "i < pg_cap pg" "records pg i = None" "\<forall>j<i. records pg j \<noteq> None"
      "insert_record pg d =
         Some (SUCCESS, Some \<lparr>page_num = pg_num pg, slot_num = int i\<rparr>, inserted_page pg i d)"
proof (cases "\<forall>i<pg_cap pg. records pg i \<noteq> None")
  case True
  then show ?thesis using full insert_record_full[of pg d] assms by (simp add: page_inv_def)
next
  case False
  then obtain k where k: "k < pg_cap pg \<and> records pg k = None" by auto
  define i where "i = (LEAST k. k < pg_cap pg \<and> records pg k = None)"
  have i: "i < pg_cap pg" "records pg i = None"
    using LeastI[of "\<lambda>k. k < pg_cap pg \<and> records pg k = None", OF k] by (simp_all add: i_def)
  have "records pg j \<noteq> None" if "j < i" for j
    using that i(1) not_less_Least[of j "\<lambda>k. k < pg_cap pg \<and> records pg k = None"] by (auto simp: i_def)
  then show ?thesis
    using free[OF i] insert_record_free[of pg d i] i assms by (simp add: page_inv_def page_fits_def)
qed

lemma inserted_page_inv:
  assumes "page_inv pg" "page_fits pg d" "i < pg_cap pg" "records pg i = None"
  shows "page_inv (inserted_page pg i d)" "records (inserted_page pg i d) = (records pg)(i \<mapsto> d)"
    "pg_cap (inserted_page pg i d) = pg_cap pg" "page_fits (inserted_page pg i d) = page_fits pg"
    "pg_num (inserted_page pg i d) = pg_num pg"
  using inserted_page_facts[of pg d i] assms by (simp_all add: page_inv_def page_fits_def fun_eq_iff)

lemma delete_record_cases:
  assumes "page_inv pg" "slot_num r = int i" "i < pg_cap pg"
  obtains (absent) "records pg i = None" "delete_record pg r = Some (RECORD_NOT_EXIST, pg)"
  | (present) d q where "records pg i = Some d" "delete_record pg r = Some (SUCCESS, q)" "page_inv q"
      "records q = (records pg)(i := None)" "pg_cap q = pg_cap pg" "page_fits q = page_fits pg"
      "pg_num q = pg_num pg" "record_num (hdr q) = record_num (hdr pg) - 1"
      "record_capacity (hdr q) = record_capacity (hdr pg)"
proof (cases "records pg i")
  case None
  then show ?thesis
    using absent delete_record_in_range[of pg r i] assms by (simp add: page_inv_def)
next
  case (Some d)
  let ?q = "append_log (DELETE (int i)) (put_slot pg i False)"
  have ok: "page_ok pg" using assms by (simp add: page_inv_def)
  have del: "delete_record pg r = Some (SUCCESS, ?q)"
    using delete_record_in_range[of pg r i] assms Some by (simp add: page_inv_def)
  have "bm_bit (page_bitmap pg) i" using Some by (simp add: records_def split: if_splits)
  then have ok': "page_ok (put_slot pg i False)" using put_slot_ok[OF ok assms(3), of False] by simp
  show ?thesis
    by (rule present[OF Some del])
      (use assms ok' put_slot_records[OF ok assms(3), of False] in
        \<open>simp_all add: page_inv_def page_fits_def fun_eq_iff\<close>)
qed

lemma update_record_cases:
  assumes "page_inv pg" "slot_num r = int i" "i < pg_cap pg" "page_fits pg d"
  obtains (absent) "records pg i = None" "update_record pg r d = Some (RECORD_NOT_EXIST, pg)"
  | (present) d0 q where "records pg i = Some d0" "update_record pg r d = Some (SUCCESS, q)" "page_inv q"
      "records q = (records pg)(i \<mapsto> d)" "pg_cap q = pg_cap pg" "page_fits q = page_fits pg"
      "pg_num q = pg_num pg"
proof (cases "records pg i")
  case None
  then show ?thesis
    using absent update_record_in_range[of pg r i d] assms by (simp add: page_inv_def page_fits_def)
next
  case (Some d0)
  let ?q = "append_log (UPDATE (int i) d) (put_bytes pg i d)"
  have ok: "page_ok pg" and len: "int (length d) = record_real_size (hdr pg)"
    using assms by (simp_all add: page_inv_def page_fits_def)
  have upd: "update_record pg r d = Some (SUCCESS, ?q)"
    using update_record_in_range[of pg r i d] assms Some by (simp add: page_inv_def page_fits_def)
  have bit: "bm_bit (page_bitmap pg) i" using Some by (simp add: records_def split: if_splits)
  note F = put_bytes_frame[OF ok assms(3) len]
  have rec: "records (put_bytes pg i d) = (records pg)(i \<mapsto> d)"
    using put_bytes_records[OF ok assms(3) len] bit by (auto simp: fun_eq_iff)
  show ?thesis
    by (rule present[OF Some upd])
      (use assms F rec put_bytes_ok[OF ok assms(3) len] in
        \<open>simp_all add: page_inv_def page_fits_def fun_eq_iff\<close>)
qed

lemmas page_op_defs = page_ins_def page_del_def page_upd_def

interpretation page: slotted_store page_inv page_fits pg_cap records page_ins page_del page_upd
proof (unfold_locales, goal_cases)
  case (1 p i d)
  then show ?case by (rule records_bounded)
next
  case (2 p d)
  then show ?case by (rule insert_record_cases) (auto simp: page_ins_def)
next
  case (3 p d i q)
  from 3(1,2) show ?case
    by (rule insert_record_cases) (use 3 inserted_page_inv in \<open>auto simp: page_ins_def\<close>)
next
  case (4 p i)
  from 4(1) _ 4(2) show ?case
    by (rule delete_record_cases[of _ "\<lparr>page_num = pg_num p, slot_num = int i\<rparr>"]) (auto simp: page_del_def)
next
  case (5 p i q)
  from 5(1) _ 5(2) show ?case
    by (rule delete_record_cases[of _ "\<lparr>page_num = pg_num p, slot_num = int i\<rparr>"])
      (use 5(3) in \<open>auto simp: page_del_def\<close>)
next
  case (6 p i d)
  from 6(1) _ 6(2,3) show ?case
    by (rule update_record_cases[of _ "\<lparr>page_num = pg_num p, slot_num = int i\<rparr>"]) (auto simp: page_upd_def)
next
  case (7 p i d q)
  from 7(1) _ 7(2,3) show ?case
    by (rule update_record_cases[of _ "\<lparr>page_num = pg_num p, slot_num = int i\<rparr>"])
      (use 7(4) in \<open>auto simp: page_upd_def\<close>)
qed

section \<open>Fields of a PAX page\<close>

lemma column_ends_nth:
  "c < length ls \<Longrightarrow> column_ends cap acc ls ! c = acc + cap * sum_list (take (Suc c) ls)"
proof (induction ls arbitrary: acc c)
  case (Cons l ls)
  then show ?case by (cases c) (auto simp: algebra_simps)
qed simp

text \<open>The pages that \<open>init_empty_page\<close> makes in PAX format.\<close>

definition pax_page :: "rec_page \<Rightarrow> int list \<Rightarrow> bool" where
  "pax_page pg lens \<longleftrightarrow> page_ok pg \<and> 0 < record_capacity (hdr pg) \<and>
     col_index pg = column_ends (record_capacity (hdr pg)) 0 lens \<and>
     (\<forall>l\<in>set lens. 0 \<le> l) \<and> sum_list lens \<le> record_size (hdr pg)"

lemma sum_list_take_Suc: "c < length (ls :: int list) \<Longrightarrow> sum_list (take (Suc c) ls) = sum_list (take c ls) + ls ! c"
  by (simp add: take_Suc_conv_app_nth)

lemma sum_list_take_mono:
  assumes "\<forall>l\<in>set (ls :: int list). 0 \<le> l" "a \<le> b"
  shows "sum_list (take a ls) \<le> sum_list (take b ls)"
proof -
  have "take b ls = take a ls @ take (b - a) (drop a ls)"
    using assms(2) take_add[of a "b - a" ls] by simp
  moreover have "0 \<le> sum_list (take (b - a) (drop a ls))"
    using assms(1) by (intro sum_list_nonneg) (auto dest: in_set_takeD in_set_dropD)
  ultimately show ?thesis by simp
qed

lemma field_place:
  assumes "pax_page pg lens" "c < length lens"
  shows "get_field_len pg c = lens ! c"
    "get_field_data pg s c = data_offset (hdr pg) + record_capacity (hdr pg) * sum_list (take c lens) + lens ! c * s"
proof -
  have cap: "0 < record_capacity (hdr pg)" and idx: "col_index pg = column_ends (record_capacity (hdr pg)) 0 lens"
    using assms(1) by (simp_all add: pax_page_def)
  have prev: "col_index pg ! (c - 1) = record_capacity (hdr pg) * sum_list (take c lens)" if "c \<noteq> 0"
    using that assms(2) column_ends_nth[of "c - 1" lens] by (simp add: idx)
  have here: "col_index pg ! c = record_capacity (hdr pg) * sum_list (take c lens) + lens ! c * record_capacity (hdr pg)"
    using assms(2) column_ends_nth[of c lens] sum_list_take_Suc[OF assms(2)]
    by (simp add: idx algebra_simps)
  show len: "get_field_len pg c = lens ! c"
    using cap here prev by (cases "c = 0") (simp_all add: get_field_len_def)
  show "get_field_data pg s c = data_offset (hdr pg) + record_capacity (hdr pg) * sum_list (take c lens) + lens ! c * s"
    using prev len by (cases "c = 0") (simp_all add: get_field_data_def)
qed

lemma field_in_column:
  assumes "pax_page pg lens" "c < length lens" "s < pg_cap pg"
  shows "data_offset (hdr pg) + record_capacity (hdr pg) * sum_list (take c lens) \<le> get_field_data pg (int s) c"
    "get_field_data pg (int s) c + lens ! c \<le>
       data_offset (hdr pg) + record_capacity (hdr pg) * sum_list (take (Suc c) lens)"
proof -
  have l: "0 \<le> lens ! c" using assms by (simp add: pax_page_def)
  have s: "int s + 1 \<le> record_capacity (hdr pg)" using assms(3) by (simp add: pg_cap_def)
  show "data_offset (hdr pg) + record_capacity (hdr pg) * sum_list (take c lens) \<le> get_field_data pg (int s) c"
    using l by (simp add: field_place(2)[OF assms(1,2)])
  have "lens ! c * (int s + 1) \<le> lens ! c * record_capacity (hdr pg)" by (rule mult_left_mono[OF s l])
  then show "get_field_data pg (int s) c + lens ! c \<le>
       data_offset (hdr pg) + record_capacity (hdr pg) * sum_list (take (Suc c) lens)"
    by (simp add: field_place(2)[OF assms(1,2)] sum_list_take_Suc[OF assms(2)] algebra_simps)
qed

lemma field_apart:
  assumes "pax_page pg lens" "c < length lens" "c' < length lens" "s < pg_cap pg" "s' < pg_cap pg"
    and "c < c' \<or> c = c' \<and> s < s'"
  shows "get_field_data pg (int s) c + lens ! c \<le> get_field_data pg (int s') c'"
  using assms(6)
proof
  assume lt: "c < c'"
  have cap: "0 \<le> record_capacity (hdr pg)" and nn: "\<forall>l\<in>set lens. 0 \<le> l"
    using assms(1) by (simp_all add: pax_page_def)
  have "record_capacity (hdr pg) * sum_list (take (Suc c) lens) \<le> record_capacity (hdr pg) * sum_list (take c' lens)"
    by (rule mult_left_mono[OF sum_list_take_mono[OF nn] cap]) (use lt in simp)
  then show ?thesis
    using field_in_column(2)[OF assms(1,2,4)] field_in_column(1)[OF assms(1,3,5)] by linarith
next
  assume same: "c = c' \<and> s < s'"
  then have "0 \<le> lens ! c" "int s + 1 \<le> int s'" using assms(1,2) by (simp_all add: pax_page_def)
  then have "lens ! c * (int s + 1) \<le> lens ! c * int s'" by (intro mult_left_mono)
  then show ?thesis using same field_place(2)[OF assms(1,2), of "int s"] field_place(2)[OF assms(1,3), of "int s'"]
    by (simp add: algebra_simps)
qed

section \<open>Initialising a frame\<close>

lemma init_empty_page_page:
  assumes "length (pdata pg) = 8176" "0 < rec_size"
    and "\<forall>ls. field_lens = Some ls \<longrightarrow> length ls \<le> 2000"
  obtains q h where "init_empty_page fmt pg rec_size field_lens = Some (SUCCESS, q)" "page_ok q"
    "rw_mode q = READ_WRITE" "pg_num q = pg_num pg" "records q = Map.empty"
    "record_real_size (hdr q) = rec_size" "hdr q = h"
    "init_header rec_size (int (length (case field_lens of Some ls \<Rightarrow> if fmt = PAX_FORMAT then ls else [] | None \<Rightarrow> []))) = Some h"
proof -
  let ?lens = "case field_lens of Some ls \<Rightarrow> if fmt = PAX_FORMAT then ls else [] | None \<Rightarrow> []"
  have cols: "0 \<le> int (length ?lens)" "int (length ?lens) \<le> 2000"
    using assms(3) by (auto split: option.splits)
  obtain h where h: "init_header rec_size (int (length ?lens)) = Some h" "record_real_size h = rec_size"
    by (rule init_header_ok[OF assms(2) cols]) blast
  let ?pg = "pg\<lparr>rw_mode := READ_WRITE, hdr := h\<rparr>"
  obtain pg1 where pg1: "clear_bitmap ?pg = Some pg1" "page_ok pg1" "records pg1 = Map.empty"
      "pg1 = ?pg\<lparr>pdata := pdata pg1\<rparr>"
    using page_ok_init[of ?pg h, OF _ _ h(1) assms(2) cols] assms(1) by auto
  let ?idx = "column_ends (record_capacity h) 0 ?lens"
  let ?q = "append_log (INIT_PAGE rec_size ?idx) (pg1\<lparr>col_index := ?idx\<rparr>)"
  have same: "hdr ?q = hdr pg1" "pdata ?q = pdata pg1" "rw_mode ?q = READ_WRITE" "pg_num ?q = pg_num pg"
      "hdr pg1 = h"
    using arg_cong[OF pg1(4), of hdr] arg_cong[OF pg1(4), of rw_mode] arg_cong[OF pg1(4), of pg_num] by auto
  have "init_empty_page fmt pg rec_size field_lens = Some (SUCCESS, ?q)"
    using h(1) pg1(1) by (simp add: init_empty_page_def Let_def)
  moreover have "page_ok ?q \<and> records ?q = Map.empty"
    using page_content_cong(1,2)[OF same(1,2)] pg1(2,3) by simp
  moreover have "record_real_size (hdr ?q) = rec_size" using same h(2) by simp
  ultimately show thesis using that[of ?q h] same h(1) by simp
qed

section \<open>A concrete page for the witnesses\<close>

text \<open>A writable page with room for eight records of four bytes, stored eight bytes apart.\<close>

definition demo_page :: rec_page where
  "demo_page = \<lparr>pg_num = 1, rw_mode = READ_WRITE,
     hdr = \<lparr>record_num = 0, column_num = 2, record_real_size = 4, record_size = 8, record_capacity = 8,
            col_idx_offset = 32, data_offset = 40\<rparr>,
     pdata = replicate 8176 0, col_index = [8, 32], frame_lsn = 0, log_kind = DISK_LOG, cur_lsn = 0, wal = []\<rparr>"

lemma demo_page_bits: "i < 8 \<Longrightarrow> \<not> bm_bit (page_bitmap demo_page) i"
  by (simp add: bm_bit_def page_bitmap_def demo_page_def)

lemma demo_page_facts:
  "page_inv demo_page" "records demo_page = Map.empty" "pg_cap demo_page = 8"
  "page_fits demo_page [1, 2, 3, 4]" "pax_page demo_page [1, 3]" "page_ok demo_page"
  "pg_num demo_page = 1" "rw_mode demo_page = READ_WRITE" "record_real_size (hdr demo_page) = 4"
  "data_offset (hdr demo_page) = 40" "length (pdata demo_page) = 8176"
proof -
  have "used_below (bm_bit (page_bitmap demo_page)) 8 = {}"
    using demo_page_bits by (auto simp: used_below_def)
  moreover have "bm_cap (page_bitmap demo_page) = 8"
    by (simp add: bm_cap_def page_bitmap_def demo_page_def)
  ultimately have "bm.used (page_bitmap demo_page) = 0" by (simp add: bm.used_def)
  then show ok: "page_ok demo_page"
    by (simp add: page_ok_def demo_page_def BP_PAGE_DATA_SIZE_eq PAGE_HEADER_SIZE_def page_bitmap_size_def)
  then show "page_inv demo_page" by (simp add: page_inv_def demo_page_def)
  show cap: "pg_cap demo_page = 8" by (simp add: pg_cap_def demo_page_def)
  show "records demo_page = Map.empty" using demo_page_bits by (auto simp: records_def cap)
  show "page_fits demo_page [1, 2, 3, 4]" by (simp add: page_fits_def demo_page_def)
  have "page_ok demo_page \<Longrightarrow> pax_page demo_page [1, 3]"
    unfolding pax_page_def by (simp add: demo_page_def)
  with ok show "pax_page demo_page [1, 3]" by blast
  show "pg_num demo_page = 1" "rw_mode demo_page = READ_WRITE" "record_real_size (hdr demo_page) = 4"
    "data_offset (hdr demo_page) = 40" "length (pdata demo_page) = 8176" by (simp_all add: demo_page_def)
qed

section \<open>Properties\<close>

text \<open>
  C1. Inserting a record of the page's record length into a writable page.  If every slot is used the
  code is RECORD_NOMEM and the page is unchanged; otherwise the record goes into the first free slot,
  whose identifier is returned, all other records keep their bytes and the page stays well-formed.
\<close>

theorem insert_record_correct:
  assumes "page_ok pg" "rw_mode pg = READ_WRITE" "int (length d) = record_real_size (hdr pg)"
  shows "if \<forall>i<pg_cap pg. records pg i \<noteq> None
    then insert_record pg d = Some (RECORD_NOMEM, None, pg)
    else \<exists>i pg'. insert_record pg d = Some (SUCCESS, Some \<lparr>page_num = pg_num pg, slot_num = int i\<rparr>, pg') \<and>
      i < pg_cap pg \<and> records pg i = None \<and> (\<forall>j<i. records pg j \<noteq> None) \<and>
      page_ok pg' \<and> records pg' = (records pg)(i \<mapsto> d)"
proof -
  have "page_inv pg" "page_fits pg d" using assms by (simp_all add: page_inv_def page_fits_def)
  then show ?thesis
    by (rule insert_record_cases) (use assms inserted_page_facts[of pg d] in auto)
qed

theorem insert_record_correct_witness:
  "\<exists>i pg'. insert_record demo_page [1, 2, 3, 4] =
      Some (SUCCESS, Some \<lparr>page_num = 1, slot_num = int i\<rparr>, pg') \<and> records pg' = [i \<mapsto> [1, 2, 3, 4]]"
  using insert_record_correct[of demo_page "[1, 2, 3, 4]"] demo_page_facts(6)
  unfolding demo_page_facts(2-4,7-10) by (auto dest: spec[of _ 0] split: if_splits)

text \<open>
  Deleting by identifier on a writable page, for a slot number below the capacity: an unused slot
  gives RECORD_NOT_EXIST and changes nothing; a used one is freed, nothing else changes, and the page
  stays well-formed.
\<close>

theorem delete_record_correct:
  assumes "page_ok pg" "rw_mode pg = READ_WRITE" "slot_num r = int i" "i < pg_cap pg"
  shows "if records pg i = None then delete_record pg r = Some (RECORD_NOT_EXIST, pg)
    else \<exists>pg'. delete_record pg r = Some (SUCCESS, pg') \<and> page_ok pg' \<and> records pg' = (records pg)(i := None)"
proof -
  have "page_inv pg" using assms by (simp add: page_inv_def)
  then show ?thesis
    using assms(3,4) by (rule delete_record_cases) (auto simp: page_inv_def)
qed

theorem delete_record_correct_witness:
  "delete_record demo_page \<lparr>page_num = 1, slot_num = 3\<rparr> = Some (RECORD_NOT_EXIST, demo_page)"
  using delete_record_correct[of demo_page "\<lparr>page_num = 1, slot_num = 3\<rparr>" 3] demo_page_facts
  by (simp add: page_inv_def)

text \<open>
  Updating by identifier on a writable page with a record of the page's record length: beyond the
  capacity INVALID_ARGUMENT, an unused slot RECORD_NOT_EXIST (both leave the page as it is), a used
  slot is overwritten and nothing else changes.
\<close>

theorem update_record_correct:
  assumes "page_ok pg" "rw_mode pg = READ_WRITE" "slot_num r = int i"
    and "int (length d) = record_real_size (hdr pg)"
  shows "if i \<ge> pg_cap pg then update_record pg r d = Some (INVALID_ARGUMENT, pg)
    else if records pg i = None then update_record pg r d = Some (RECORD_NOT_EXIST, pg)
    else \<exists>pg'. update_record pg r d = Some (SUCCESS, pg') \<and> page_ok pg' \<and> records pg' = (records pg)(i \<mapsto> d)"
proof (cases "i < pg_cap pg")
  case True
  have "page_inv pg" "page_fits pg d" using assms by (simp_all add: page_inv_def page_fits_def)
  from this(1) assms(3) True this(2) show ?thesis
    by (rule update_record_cases) (use True in \<open>auto simp: page_inv_def\<close>)
next
  case False
  then show ?thesis
    using out_of_range_codes(2)[of pg r d] page_layout(7)[OF assms(1)] assms by simp
qed

theorem update_record_correct_witness:
  "update_record demo_page \<lparr>page_num = 1, slot_num = 3\<rparr> [1, 2, 3, 4] = Some (RECORD_NOT_EXIST, demo_page) \<and>
   update_record demo_page \<lparr>page_num = 1, slot_num = 8\<rparr> [1, 2, 3, 4] = Some (INVALID_ARGUMENT, demo_page)"
  using update_record_correct[of demo_page "\<lparr>page_num = 1, slot_num = 3\<rparr>" 3 "[1, 2, 3, 4]"]
    update_record_correct[of demo_page "\<lparr>page_num = 1, slot_num = 8\<rparr>" 8 "[1, 2, 3, 4]"] demo_page_facts
  by (simp add: page_inv_def page_fits_def)

text \<open>
  Reading by identifier returns exactly the stored record, and distinguishes a slot number beyond
  the capacity (RECORD_INVALID_RID) from an unused slot (RECORD_NOT_EXIST).
\<close>

theorem get_record_correct:
  assumes "page_ok pg" "slot_num r = int i"
  shows "get_record pg r = Some (if i \<ge> pg_cap pg then (RECORD_INVALID_RID, None)
    else case records pg i of None \<Rightarrow> (RECORD_NOT_EXIST, None) | Some d \<Rightarrow> (SUCCESS, Some (r, d)))"
proof (cases "i < pg_cap pg")
  case True
  then show ?thesis using get_record_in_range[OF assms] by (auto split: option.splits)
next
  case False
  then show ?thesis
    using out_of_range_codes(1)[of pg r] page_layout(7)[OF assms(1)] assms by simp
qed

theorem get_record_correct_witness:
  "get_record demo_page \<lparr>page_num = 1, slot_num = 3\<rparr> = Some (RECORD_NOT_EXIST, None) \<and>
   get_record demo_page \<lparr>page_num = 1, slot_num = 9\<rparr> = Some (RECORD_INVALID_RID, None)"
  using get_record_correct[of demo_page "\<lparr>page_num = 1, slot_num = 3\<rparr>" 3]
    get_record_correct[of demo_page "\<lparr>page_num = 1, slot_num = 9\<rparr>" 9] demo_page_facts by simp

text \<open>
  Initialising a fresh frame succeeds for every positive record length and every sensible number of
  columns, in row and in PAX format: the layout fits the page, so the page is well-formed and empty.
\<close>

theorem init_empty_page_correct:
  assumes "length (pdata pg) = 8176" "0 < rec_size"
    and "\<forall>ls. field_lens = Some ls \<longrightarrow> length ls \<le> 2000"
  shows "\<exists>pg'. init_empty_page fmt pg rec_size field_lens = Some (SUCCESS, pg') \<and> page_ok pg' \<and>
    rw_mode pg' = READ_WRITE \<and> pg_num pg' = pg_num pg \<and> records pg' = Map.empty \<and>
    record_real_size (hdr pg') = rec_size"
  by (rule init_empty_page_page[OF assms]) blast

theorem init_empty_page_correct_witness:
  "\<exists>pg'. init_empty_page PAX_FORMAT demo_page 12 (Some [4, 8]) = Some (SUCCESS, pg') \<and> page_ok pg' \<and>
     records pg' = Map.empty"
  using init_empty_page_correct[of demo_page 12 "Some [4, 8]" PAX_FORMAT] demo_page_facts(11) by auto

text \<open>
  Iterating over a page from slot 0 with \<open>has_next\<close> and \<open>next\<close> ends after at most one call per slot
  and yields every record of the page once, in slot order.
\<close>

theorem iter_lists_records:
  assumes "page_ok pg"
  shows "\<exists>s. iter_init pg 0 = Some s \<and> iter_drain (pg_cap pg) pg s rec0 =
    Some [(\<lparr>page_num = pg_num pg, slot_num = int i\<rparr>, the (records pg i)). i \<leftarrow> [0..<pg_cap pg], records pg i \<noteq> None]"
proof -
  obtain s where s: "next_setted_bit (page_bitmap pg) 0 = Some s"
      "first_from (bm_bit (page_bitmap pg)) 0 (pg_cap pg) s"
    using next_setted_bit_first[of "page_bitmap pg" 0] page_layout(5,6)[OF assms] by auto
  have concat: "concat (map (\<lambda>i. if P i then [f i] else []) xs) = map f (filter P xs)"
    for P and f :: "nat \<Rightarrow> rid \<times> byte list" and xs
    by (induction xs) auto
  show ?thesis
    using s(1) iter_drain_from[OF assms s(2), of "pg_cap pg" rec0] by (simp add: iter_init_def concat)
qed

theorem iter_lists_records_witness:
  "\<exists>s. iter_init demo_page 0 = Some s \<and> iter_drain 8 demo_page s (rid_min, []) = Some []"
  using iter_lists_records[OF demo_page_facts(6), of "(rid_min, [])"] demo_page_facts(2,3)
  by (simp add: upt_rec)

text \<open>
  In a PAX page every field of every slot lies inside the data area of the page, and two different
  fields (of different slots or columns) never overlap.
\<close>

theorem pax_fields_disjoint:
  assumes "pax_page pg lens" "c < length lens" "s < pg_cap pg"
  shows "get_field_len pg c = lens ! c \<and>
    data_offset (hdr pg) \<le> get_field_data pg (int s) c \<and>
    get_field_data pg (int s) c + get_field_len pg c \<le> BP_PAGE_DATA_SIZE \<and>
    (\<forall>c' s'. c' < length lens \<and> s' < pg_cap pg \<and> (c', s') \<noteq> (c, s) \<longrightarrow>
      get_field_data pg (int s) c + get_field_len pg c \<le> get_field_data pg (int s') c' \<or>
      get_field_data pg (int s') c' + get_field_len pg c' \<le> get_field_data pg (int s) c)"
proof (intro conjI)
  note P = field_place(1)[OF assms(1)]
  show "get_field_len pg c = lens ! c" by (rule P[OF assms(2)])
  have cap: "0 \<le> record_capacity (hdr pg)" and nn: "\<forall>l\<in>set lens. 0 \<le> l"
    and sum: "sum_list lens \<le> record_size (hdr pg)" and ok: "page_ok pg"
    using assms(1) by (simp_all add: pax_page_def)
  have "0 \<le> sum_list (take c lens)" "sum_list (take (Suc c) lens) \<le> sum_list lens"
    using sum_list_take_mono[OF nn, of 0 c] sum_list_take_mono[OF nn, of "Suc c" "length lens"] assms(2) by auto
  then have "0 \<le> record_capacity (hdr pg) * sum_list (take c lens)"
    "record_capacity (hdr pg) * sum_list (take (Suc c) lens) \<le> record_capacity (hdr pg) * record_size (hdr pg)"
    using cap sum by (auto intro: mult_left_mono)
  then show "data_offset (hdr pg) \<le> get_field_data pg (int s) c"
    "get_field_data pg (int s) c + get_field_len pg c \<le> BP_PAGE_DATA_SIZE"
    using field_in_column[OF assms] ok by (auto simp: P[OF assms(2)] page_ok_def)
  show "\<forall>c' s'. c' < length lens \<and> s' < pg_cap pg \<and> (c', s') \<noteq> (c, s) \<longrightarrow>
      get_field_data pg (int s) c + get_field_len pg c \<le> get_field_data pg (int s') c' \<or>
      get_field_data pg (int s') c' + get_field_len pg c' \<le> get_field_data pg (int s) c"
  proof (intro allI impI)
    fix c' s' assume h: "c' < length lens \<and> s' < pg_cap pg \<and> (c', s') \<noteq> (c, s)"
    then have "(c < c' \<or> c = c' \<and> s < s') \<or> (c' < c \<or> c' = c \<and> s' < s)" by auto
    then show "get_field_data pg (int s) c + get_field_len pg c \<le> get_field_data pg (int s') c' \<or>
      get_field_data pg (int s') c' + get_field_len pg c' \<le> get_field_data pg (int s) c"
      using field_apart[OF assms(1,2) _ assms(3), of c' s'] field_apart[OF assms(1) _ assms(2) _ assms(3), of c' s'] h
        P assms(2) by metis
  qed
qed

theorem pax_fields_disjoint_witness:
  "get_field_len demo_page 1 = 3 \<and> 40 \<le> get_field_data demo_page (int 2) 1"
  using pax_fields_disjoint[of demo_page "[1, 3]" 1 2] demo_page_facts by simp

end
