(* ===== verification/Redo_Log.thy ===== *)
theory Redo_Log
  imports MiniOB_Base
begin

text \<open>
  Redo recovery of one logged object (a record page, a file header), shared by the components that
  write their own log records.  Every change of the object appends at most one record and stamps the
  object with its LSN; a record that is not newer than the stamp is skipped on replay.  The interface
  \<open>redo_log\<close> states what an object must satisfy; its consequence is that the complete log, replayed on
  the image flushed at any moment, rebuilds the final content.
\<close>

section \<open>Replaying a log\<close>

text \<open>Replaying stops at the first record that fails.\<close>

fun replay_list :: "('e \<Rightarrow> 's \<Rightarrow> (rc \<times> 's) option) \<Rightarrow> 'e list \<Rightarrow> 's \<Rightarrow> (rc \<times> 's) option" where
  "replay_list replay [] s = Some (SUCCESS, s)"
| "replay_list replay (e # es) s = do {
     (r, s') \<leftarrow> replay e s;
     if OB_FAIL r then Some (r, s') else replay_list replay es s'
   }"

lemma replay_list_append:
  "replay_list replay xs q = Some (SUCCESS, q') \<Longrightarrow> replay_list replay (xs @ ys) q = replay_list replay ys q'"
  by (induction xs arbitrary: q) (auto simp: bind_eq_Some_iff OB_FAIL_def split: if_splits)

section \<open>The interface\<close>

locale redo_log =
  fixes step :: "'s \<Rightarrow> 's \<Rightarrow> bool"
    and inv :: "'s \<Rightarrow> bool"
    and content :: "'s \<Rightarrow> 'c"
    and stamp :: "'s \<Rightarrow> LSN"
    and cur :: "'s \<Rightarrow> LSN"
    and wal :: "'s \<Rightarrow> (LSN \<times> 'o) list"
    and replay :: "LSN \<times> 'o \<Rightarrow> 's \<Rightarrow> (rc \<times> 's) option"
  assumes step_inv: "inv s \<Longrightarrow> step s s' \<Longrightarrow> inv s'"
    and step_logs: "inv s \<Longrightarrow> step s s' \<Longrightarrow>
      (content s' = content s \<and> wal s' = wal s \<and> stamp s' = stamp s \<and> cur s \<le> cur s') \<or>
      (\<exists>oper. wal s' = wal s @ [(cur s + 1, oper)] \<and> cur s' = cur s + 1 \<and> stamp s' = cur s + 1 \<and>
        (\<forall>q. content q = content s \<and> stamp q < cur s + 1 \<longrightarrow>
          (\<exists>q'. replay (cur s + 1, oper) q = Some (SUCCESS, q') \<and> content q' = content s' \<and> stamp q' \<le> cur s + 1)))"
    and replay_skip: "lsn \<le> stamp q \<Longrightarrow> replay (lsn, oper) q = Some (SUCCESS, q)"
begin

text \<open>The stamp covers every record of the object and never runs ahead of the log.\<close>

definition log_ok :: "'s \<Rightarrow> bool" where
  "log_ok s \<longleftrightarrow> inv s \<and> stamp s \<le> cur s \<and> (\<forall>e\<in>set (wal s). fst e \<le> stamp s)"

lemma step_cases:
  assumes "inv s" "step s s'"
  obtains (quiet) "content s' = content s" "wal s' = wal s" "stamp s' = stamp s" "cur s \<le> cur s'"
  | (entry) oper where "wal s' = wal s @ [(cur s + 1, oper)]" "cur s' = cur s + 1" "stamp s' = cur s + 1"
      "\<And>q. content q = content s \<Longrightarrow> stamp q < cur s + 1 \<Longrightarrow>
        \<exists>q'. replay (cur s + 1, oper) q = Some (SUCCESS, q') \<and> content q' = content s' \<and> stamp q' \<le> cur s + 1"
  using step_logs[OF assms] by blast

lemma log_ok_step:
  assumes "log_ok s" "step s s'"
  shows "log_ok s'"
proof -
  have "inv s" using assms(1) by (simp add: log_ok_def)
  from this assms(2) show ?thesis
    by (cases rule: step_cases) (use assms step_inv[of s s'] in \<open>auto simp: log_ok_def\<close>)
qed

lemma log_ok_steps: "step\<^sup>*\<^sup>* s s' \<Longrightarrow> log_ok s \<Longrightarrow> log_ok s'"
  by (induction rule: rtranclp_induct) (auto intro: log_ok_step)

lemma replay_covered: "\<forall>e\<in>set es. fst e \<le> stamp q \<Longrightarrow> replay_list replay es q = Some (SUCCESS, q)"
  by (induction es) (auto simp: replay_skip)

lemma redo_step:
  assumes "log_ok s" "step s s'" "content q = content s" "stamp q \<le> stamp s"
  obtains es q' where "wal s' = wal s @ es" "replay_list replay es q = Some (SUCCESS, q')"
    "content q' = content s'" "stamp q' \<le> stamp s'"
proof -
  have inv: "inv s" "stamp s \<le> cur s" using assms(1) by (simp_all add: log_ok_def)
  from inv(1) assms(2) show thesis
  proof (cases rule: step_cases)
    case quiet
    then show thesis using that[of "[]" q] assms(3,4) by simp
  next
    case (entry oper)
    then obtain q' where "replay (cur s + 1, oper) q = Some (SUCCESS, q')" "content q' = content s'"
        "stamp q' \<le> cur s + 1"
      using entry(4)[OF assms(3)] assms(4) inv(2) by auto
    then show thesis using that[of "[(cur s + 1, oper)]" q'] entry by simp
  qed
qed

lemma redo_steps:
  assumes "step\<^sup>*\<^sup>* s s'" "log_ok s" "content q = content s" "stamp q \<le> stamp s"
  shows "\<exists>es q'. wal s' = wal s @ es \<and> replay_list replay es q = Some (SUCCESS, q') \<and> content q' = content s' \<and>
    stamp q' \<le> stamp s'"
  using assms(1)
proof (induction rule: rtranclp_induct)
  case base
  then show ?case using assms by auto
next
  case (step s1 s2)
  then obtain es q1 where es: "wal s1 = wal s @ es" "replay_list replay es q = Some (SUCCESS, q1)"
      "content q1 = content s1" "stamp q1 \<le> stamp s1" by blast
  have ok: "log_ok s1" by (rule log_ok_steps[OF step.hyps(1) assms(2)])
  obtain es' q2 where "wal s2 = wal s1 @ es'" "replay_list replay es' q1 = Some (SUCCESS, q2)"
      "content q2 = content s2" "stamp q2 \<le> stamp s2"
    by (rule redo_step[OF ok step.hyps(2) es(3,4)])
  then show ?case using es replay_list_append[OF es(2)] by (intro exI[of _ "es @ es'"] exI[of _ q2]) simp
qed

theorem recovery:
  assumes "log_ok s0" "step\<^sup>*\<^sup>* s0 flushed" "step\<^sup>*\<^sup>* flushed s1"
    and "content img = content flushed" "stamp img = stamp flushed"
  shows "\<exists>q. replay_list replay (wal s1) img = Some (SUCCESS, q) \<and> content q = content s1"
proof -
  have ok: "log_ok flushed" by (rule log_ok_steps[OF assms(2,1)])
  obtain es q where es: "wal s1 = wal flushed @ es" "replay_list replay es img = Some (SUCCESS, q)"
      "content q = content s1"
    using redo_steps[OF assms(3) ok assms(4)] assms(5) by auto
  have "replay_list replay (wal flushed) img = Some (SUCCESS, img)"
    by (rule replay_covered) (use ok assms(5) in \<open>simp add: log_ok_def\<close>)
  from replay_list_append[OF this] show ?thesis using es by auto
qed

text \<open>The stamp is that of a logged record, and it only grows.\<close>

lemma stamp_logged:
  assumes "step\<^sup>*\<^sup>* s s'" "log_ok s"
  shows "stamp s \<le> stamp s' \<and> set (wal s) \<subseteq> set (wal s') \<and> (stamp s' = stamp s \<or> stamp s' \<in> fst ` set (wal s'))"
  using assms(1)
proof (induction rule: rtranclp_induct)
  case (step s1 s2)
  have ok: "log_ok s1" by (rule log_ok_steps[OF step.hyps(1) assms(2)])
  then have "inv s1" "stamp s1 \<le> cur s1" by (simp_all add: log_ok_def)
  from this(1) step.hyps(2) show ?case
    by (cases rule: step_cases) (use step.IH \<open>stamp s1 \<le> cur s1\<close> in auto)
qed simp

end

text \<open>An object whose replay always stamps the image with the LSN of the record.\<close>

locale exact_redo_log = redo_log +
  assumes replay_stamps: "replay (lsn, oper) q = Some (SUCCESS, q') \<Longrightarrow> stamp q < lsn \<Longrightarrow> stamp q' = lsn"
begin

lemma replay_list_stamp:
  "replay_list replay es q = Some (SUCCESS, q') \<Longrightarrow> stamp q' = foldl max (stamp q) (map fst es)"
proof (induction es arbitrary: q)
  case (Cons e es)
  obtain lsn oper where e: "e = (lsn, oper)" by (cases e)
  obtain q1 where q1: "replay e q = Some (SUCCESS, q1)" "replay_list replay es q1 = Some (SUCCESS, q')"
    using Cons.prems by (auto simp: bind_eq_Some_iff OB_FAIL_def split: if_splits)
  have "stamp q1 = max (stamp q) lsn"
    using q1(1) replay_skip[of lsn q oper] replay_stamps[of lsn oper q q1] by (cases "stamp q < lsn") (auto simp: e)
  then show ?case using Cons.IH[OF q1(2)] by (simp add: e)
qed simp

lemma foldl_max_ge: "b \<le> foldl max b (xs :: LSN list)" "x \<in> set xs \<Longrightarrow> x \<le> foldl max b xs"
proof -
  show ge: "b \<le> foldl max b xs" for b :: LSN and xs
  proof (induction xs arbitrary: b)
    case (Cons x xs)
    from Cons.IH[of "max b x"] show ?case by simp
  qed simp
  show "x \<in> set xs \<Longrightarrow> x \<le> foldl max b xs"
  proof (induction xs arbitrary: b)
    case (Cons y ys)
    then show ?case using ge[of "max b y" ys] by auto
  qed simp
qed

lemma foldl_max_le: "b \<le> u \<Longrightarrow> \<forall>x\<in>set xs. x \<le> u \<Longrightarrow> foldl max b (xs :: LSN list) \<le> u"
  by (induction xs arbitrary: b) auto

theorem exact_recovery:
  assumes "log_ok s0" "step\<^sup>*\<^sup>* s0 flushed" "step\<^sup>*\<^sup>* flushed s1"
    and "content img = content flushed" "stamp img = stamp flushed"
  shows "\<exists>q. replay_list replay (wal s1) img = Some (SUCCESS, q) \<and> content q = content s1 \<and> stamp q = stamp s1"
proof -
  obtain q where q: "replay_list replay (wal s1) img = Some (SUCCESS, q)" "content q = content s1"
    using recovery[OF assms] by blast
  have ok: "log_ok flushed" "log_ok s1" by (rule log_ok_steps assms)+
  note S = stamp_logged[OF assms(3) ok(1)]
  have st: "stamp q = foldl max (stamp flushed) (map fst (wal s1))" using replay_list_stamp[OF q(1)] assms(5) by simp
  have "stamp q \<le> stamp s1" unfolding st using S ok(2) by (intro foldl_max_le) (auto simp: log_ok_def)
  moreover have "stamp s1 \<le> stamp q"
    unfolding st using S foldl_max_ge(1)[of "stamp flushed"] foldl_max_ge(2)[of "stamp s1" "map fst (wal s1)" "stamp flushed"] by auto
  ultimately show ?thesis using q by auto
qed

text \<open>Hence a recovered object is recovered again by the same log.\<close>

lemma replay_twice:
  assumes "replay_list replay es q = Some (SUCCESS, q')"
  shows "replay_list replay es q' = Some (SUCCESS, q')"
proof (rule replay_covered, rule ballI)
  fix e assume "e \<in> set es"
  then have "fst e \<in> set (map fst es)" by simp
  then show "fst e \<le> stamp q'" unfolding replay_list_stamp[OF assms] by (rule foldl_max_ge(2))
qed

end

end
