(* ===== verification/Record_Recovery.thy ===== *)
theory Record_Recovery
  imports Record_Page_Correct Redo_Log
begin

text \<open>
  Redo of the log records of a record page (src/src/observer/storage/record/record_log.cpp):
  \<open>RecordLogReplayer\<close> with its LSN check, and the theorem that a page image flushed at any time,
  together with the complete log of the page, recovers the page.
\<close>

section \<open>Redo of the page's log records\<close>

text \<open>
  \<open>RecordLogReplayer::replay\<close>: a record that is not newer than the frame is skipped.  The
  handlers run with the vacuous log.  \<open>replay_insert\<close> calls the ordinary \<open>insert_record\<close>, so the
  slot of the log record is not used.
\<close>

definition replay_operation :: "rec_page \<Rightarrow> record_operation \<Rightarrow> (rc \<times> rec_page) option" where
  "replay_operation pg oper =
     (case oper of
        INIT_PAGE rec_size idx \<Rightarrow> init_empty_page_cols pg rec_size idx
      | INSERT slot d \<Rightarrow> do { (r, _, pg') \<leftarrow> insert_record pg d; Some (r, pg') }
      | DELETE slot \<Rightarrow> delete_record pg \<lparr>page_num = pg_num pg, slot_num = slot\<rparr>
      | UPDATE slot d \<Rightarrow> update_record pg \<lparr>page_num = pg_num pg, slot_num = slot\<rparr> d)"

definition replay_entry :: "LSN \<times> record_operation \<Rightarrow> rec_page \<Rightarrow> (rc \<times> rec_page) option" where
  "replay_entry e pg =
     (if frame_lsn pg \<ge> fst e then Some (SUCCESS, pg)
      else do {
        (r, pg') \<leftarrow> replay_operation (pg\<lparr>rw_mode := READ_WRITE, log_kind := VACUOUS_LOG\<rparr>) (snd e);
        let pg'' = pg'\<lparr>log_kind := log_kind pg, rw_mode := rw_mode pg\<rparr>;
        Some (if OB_FAIL r then (r, pg'') else (SUCCESS, pg''\<lparr>frame_lsn := fst e\<rparr>))
      })"

section \<open>Runs of page operations\<close>

text \<open>
  One call on the page, whatever its outcome.  Between two calls the other users of the shared log
  handler may consume LSNs.
\<close>

inductive page_step :: "rec_page \<Rightarrow> rec_page \<Rightarrow> bool" where
  init: "init_empty_page fmt pg n ls = Some (r, pg') \<Longrightarrow> page_step pg pg'"
| insert: "insert_record pg d = Some (r, i, pg') \<Longrightarrow> page_step pg pg'"
| delete: "delete_record pg \<lparr>page_num = pg_num pg, slot_num = slot\<rparr> = Some (r, pg') \<Longrightarrow> page_step pg pg'"
| update: "update_record pg \<lparr>page_num = pg_num pg, slot_num = slot\<rparr> d = Some (r, pg') \<Longrightarrow> page_step pg pg'"
| other: "page_step pg (pg\<lparr>cur_lsn := cur_lsn pg + int n\<rparr>)"

section \<open>Redo reproduces the page\<close>

text \<open>What an operation reads and writes apart from the log.\<close>

definition content :: "rec_page \<Rightarrow> PageNum \<times> read_write_mode \<times> page_header \<times> byte list \<times> int list" where
  "content pg = (pg_num pg, rw_mode pg, hdr pg, pdata pg, col_index pg)"

lemma content_append_log [simp]: "content (append_log oper pg) = content pg"
  by (simp add: content_def)

lemma content_page_bitmap: "content q = content pg \<Longrightarrow> page_bitmap q = page_bitmap pg"
  by (simp add: content_def page_bitmap_def)

lemma content_store: "content q = content pg \<Longrightarrow>
    content (add_record_num n (store_bitmap q b)) = content (add_record_num n (store_bitmap pg b))"
  by (simp add: content_def add_record_num_def store_bitmap_def)

lemma copy_record_in_content:
  assumes "copy_record_in pg slot d = Some pg'" "content q = content pg"
    and "read_bytes d 0 (record_real_size (hdr pg)) = Some p"
  shows "\<exists>q'. copy_record_in q slot p = Some q' \<and> content q' = content pg' \<and>
    frame_lsn q' = frame_lsn q \<and> log_kind q' = log_kind q \<and> cur_lsn q' = cur_lsn q \<and> wal q' = wal q"
proof -
  have "read_bytes p 0 (record_real_size (hdr pg)) = Some p"
    using assms(3) by (auto simp: read_bytes_def split: if_splits)
  then show ?thesis
    using assms by (auto simp: copy_record_in_def content_def get_record_data_def bind_eq_Some_iff)
qed

lemma copy_record_in_log:
  "copy_record_in pg slot d = Some pg' \<Longrightarrow> wal pg' = wal pg \<and> cur_lsn pg' = cur_lsn pg \<and>
     frame_lsn pg' = frame_lsn pg \<and> log_kind pg' = log_kind pg"
  by (auto simp: copy_record_in_def bind_eq_Some_iff)

text \<open>The log side of an operation: nothing logged and nothing changed, or one record logged.\<close>

definition logged :: "rec_page \<Rightarrow> rec_page \<Rightarrow> record_operation \<Rightarrow> bool" where
  "logged pg pg' oper \<longleftrightarrow> wal pg' = wal pg @ [(cur_lsn pg + 1, oper)] \<and> cur_lsn pg' = cur_lsn pg + 1 \<and>
     frame_lsn pg' = cur_lsn pg + 1 \<and> log_kind pg' = DISK_LOG"

lemma logged_append_log:
  "log_kind pg = DISK_LOG \<Longrightarrow> 0 \<le> cur_lsn pg \<Longrightarrow> logged pg (append_log oper pg) oper"
  by (simp add: logged_def append_log_def Let_def)

lemma store_log [simp]:
  "wal (add_record_num n (store_bitmap pg b)) = wal pg"
  "cur_lsn (add_record_num n (store_bitmap pg b)) = cur_lsn pg"
  "frame_lsn (add_record_num n (store_bitmap pg b)) = frame_lsn pg"
  "log_kind (add_record_num n (store_bitmap pg b)) = log_kind pg"
  "rw_mode (add_record_num n (store_bitmap pg b)) = rw_mode pg"
  by (simp_all add: add_record_num_def store_bitmap_def)

lemma append_log_vacuous [simp]: "log_kind pg = VACUOUS_LOG \<Longrightarrow> append_log oper pg = pg"
  by (simp add: append_log_def)

lemma logged_same_log:
  assumes "wal p = wal q" "cur_lsn p = cur_lsn q" "log_kind q = DISK_LOG" "0 \<le> cur_lsn q"
    "log_kind p = DISK_LOG"
  shows "logged q (append_log oper p) oper"
  using assms by (simp add: logged_def append_log_def Let_def)

lemma insert_redo:
  assumes run: "insert_record pg d = Some (r, rid0, pg')" and disk: "log_kind pg = DISK_LOG" "0 \<le> cur_lsn pg"
  shows "pg' = pg \<or> (\<exists>i p. logged pg pg' (INSERT i p) \<and>
    (\<forall>q. content q = content pg \<and> log_kind q = VACUOUS_LOG \<longrightarrow>
      (\<exists>rid1 q'. insert_record q p = Some (SUCCESS, rid1, q') \<and> content q' = content pg' \<and>
         frame_lsn q' = frame_lsn q \<and> cur_lsn q' = cur_lsn q \<and> wal q' = wal q)))"
proof (cases "record_num (hdr pg) = record_capacity (hdr pg)")
  case True
  then show ?thesis using run by (auto simp: insert_record_def split: if_splits)
next
  case False
  let ?st = "\<lambda>x b. add_record_num 1 (store_bitmap x b)"
  obtain index b p pg3 where steps: "rw_mode pg \<noteq> READ_ONLY"
      "next_unsetted_bit (page_bitmap pg) 0 = Some index" "set_bit (page_bitmap pg) index = Some b"
      "read_bytes d 0 (record_real_size (hdr pg)) = Some p"
      "copy_record_in (append_log (INSERT index p) (?st pg b)) index d = Some pg3" "pg' = pg3"
    using run False by (auto simp: insert_record_def bind_eq_Some_iff Let_def split: if_splits)
  have log: "logged pg pg' (INSERT index p)"
    using logged_same_log[of "?st pg b" pg "INSERT index p"] copy_record_in_log[OF steps(5)] steps(6) disk
    by (auto simp: logged_def)
  have hd1: "hdr (?st pg b) = hdr pg \<lparr>record_num := record_num (hdr pg) + 1\<rparr>"
    by (simp add: add_record_num_def store_bitmap_def)
  have "\<exists>rid1 q'. insert_record q p = Some (SUCCESS, rid1, q') \<and> content q' = content pg' \<and>
         frame_lsn q' = frame_lsn q \<and> cur_lsn q' = cur_lsn q \<and> wal q' = wal q"
    if q: "content q = content pg" "log_kind q = VACUOUS_LOG" for q
  proof -
    have qh: "hdr q = hdr pg" "rw_mode q = rw_mode pg" using q(1) by (simp_all add: content_def)
    have pp: "read_bytes p 0 (record_real_size (hdr pg)) = Some p"
      using steps(4) by (auto simp: read_bytes_def split: if_splits)
    obtain q' where "copy_record_in (?st q b) index p = Some q'" "content q' = content pg'"
        "frame_lsn q' = frame_lsn (?st q b)" "cur_lsn q' = cur_lsn (?st q b)" "wal q' = wal (?st q b)"
      using copy_record_in_content[OF steps(5), of "?st q b" p] content_store[OF q(1), of 1 b] steps(4,6) hd1
      by auto
    then show ?thesis
      using steps(1-3) False q(2) qh pp content_page_bitmap[OF q(1)]
      by (simp add: insert_record_def)
  qed
  then show ?thesis using log by blast
qed

lemma delete_redo:
  assumes run: "delete_record pg r0 = Some (r, pg')" and disk: "log_kind pg = DISK_LOG" "0 \<le> cur_lsn pg"
  shows "pg' = pg \<or> (logged pg pg' (DELETE (slot_num r0)) \<and>
    (\<forall>q. content q = content pg \<and> log_kind q = VACUOUS_LOG \<longrightarrow>
      (\<exists>q'. delete_record q \<lparr>page_num = pg_num q, slot_num = slot_num r0\<rparr> = Some (SUCCESS, q') \<and> content q' = content pg' \<and>
         frame_lsn q' = frame_lsn q \<and> cur_lsn q' = cur_lsn q \<and> wal q' = wal q)))"
proof -
  let ?st = "\<lambda>x b. add_record_num (-1) (store_bitmap x b)"
  obtain used where used: "rw_mode pg \<noteq> READ_ONLY" "get_bit (page_bitmap pg) (slot_num r0) = Some used"
    using run by (auto simp: delete_record_def bind_eq_Some_iff split: if_splits)
  show ?thesis
  proof (cases used)
    case False
    then show ?thesis using run used by (simp add: delete_record_def)
  next
    case True
    then obtain b where b: "clear_bit (page_bitmap pg) (slot_num r0) = Some b"
        "pg' = append_log (DELETE (slot_num r0)) (?st pg b)"
      using run used by (auto simp: delete_record_def bind_eq_Some_iff Let_def)
    have "\<exists>q'. delete_record q \<lparr>page_num = pg_num q, slot_num = slot_num r0\<rparr> = Some (SUCCESS, q') \<and> content q' = content pg' \<and>
         frame_lsn q' = frame_lsn q \<and> cur_lsn q' = cur_lsn q \<and> wal q' = wal q"
      if q: "content q = content pg" "log_kind q = VACUOUS_LOG" for q
      using used True b q content_page_bitmap[OF q(1)] content_store[OF q(1), of "-1" b]
      by (simp add: delete_record_def content_def)
    moreover have "logged pg pg' (DELETE (slot_num r0))"
      using logged_same_log[of "?st pg b" pg] b disk by simp
    ultimately show ?thesis by blast
  qed
qed

lemma update_redo:
  assumes run: "update_record pg r0 d = Some (r, pg')" and disk: "log_kind pg = DISK_LOG" "0 \<le> cur_lsn pg"
  shows "pg' = pg \<or> (\<exists>p. logged pg pg' (UPDATE (slot_num r0) p) \<and>
    (\<forall>q. content q = content pg \<and> log_kind q = VACUOUS_LOG \<longrightarrow>
      (\<exists>q'. update_record q \<lparr>page_num = pg_num q, slot_num = slot_num r0\<rparr> p = Some (SUCCESS, q') \<and> content q' = content pg' \<and>
         frame_lsn q' = frame_lsn q \<and> cur_lsn q' = cur_lsn q \<and> wal q' = wal q)))"
proof (cases "slot_num r0 \<ge> record_capacity (hdr pg)")
  case True
  then show ?thesis using run by (auto simp: update_record_def split: if_splits)
next
  case False
  obtain used where used: "rw_mode pg \<noteq> READ_ONLY" "get_bit (page_bitmap pg) (slot_num r0) = Some used"
    using run False by (auto simp: update_record_def bind_eq_Some_iff split: if_splits)
  show ?thesis
  proof (cases used)
    case False
    then show ?thesis using run used \<open>\<not> slot_num r0 \<ge> _\<close> by (simp add: update_record_def)
  next
    case True
    then obtain pg1 p where c: "copy_record_in pg (slot_num r0) d = Some pg1"
        "read_bytes d 0 (record_real_size (hdr pg)) = Some p"
        "pg' = append_log (UPDATE (slot_num r0) p) pg1"
      using run used False by (auto simp: update_record_def bind_eq_Some_iff)
    have pp: "read_bytes p 0 (record_real_size (hdr pg)) = Some p"
      using c(2) by (auto simp: read_bytes_def split: if_splits)
    have "\<exists>q'. update_record q \<lparr>page_num = pg_num q, slot_num = slot_num r0\<rparr> p = Some (SUCCESS, q') \<and> content q' = content pg' \<and>
         frame_lsn q' = frame_lsn q \<and> cur_lsn q' = cur_lsn q \<and> wal q' = wal q"
      if q: "content q = content pg" "log_kind q = VACUOUS_LOG" for q
    proof -
      have qh: "hdr q = hdr pg" "rw_mode q = rw_mode pg" using q(1) by (simp_all add: content_def)
      obtain q' where "copy_record_in q (slot_num r0) p = Some q'" "content q' = content pg1"
          "frame_lsn q' = frame_lsn q" "log_kind q' = log_kind q" "cur_lsn q' = cur_lsn q" "wal q' = wal q"
        using copy_record_in_content[OF c(1) q(1) c(2)] by blast
      then show ?thesis
        using used True False q qh pp c(3) content_page_bitmap[OF q(1)] by (simp add: update_record_def)
    qed
    moreover have "logged pg pg' (UPDATE (slot_num r0) p)"
      using logged_same_log[of pg1 pg] copy_record_in_log[OF c(1)] c(3) disk by simp
    ultimately show ?thesis by blast
  qed
qed

text \<open>Initialising a page and its redo.\<close>

lemma length_column_ends [simp]: "length (column_ends cap acc ls) = length ls"
  by (induction ls arbitrary: acc) auto

lemma clear_bitmap_content:
  assumes "clear_bitmap pg = Some pg'" "content q = content pg"
  shows "\<exists>q'. clear_bitmap q = Some q' \<and> content q' = content pg'"
  using assms by (auto simp: clear_bitmap_def content_def bind_eq_Some_iff)

lemma clear_bitmap_log:
  "clear_bitmap pg = Some pg' \<Longrightarrow> wal pg' = wal pg \<and> cur_lsn pg' = cur_lsn pg \<and> log_kind pg' = log_kind pg \<and>
     rw_mode pg' = rw_mode pg"
  by (auto simp: clear_bitmap_def bind_eq_Some_iff)

lemma init_redo:
  assumes run: "init_empty_page fmt pg rec_size lens = Some (r, pg')"
    and disk: "log_kind pg = DISK_LOG" "0 \<le> cur_lsn pg"
  shows "\<exists>idx. logged pg pg' (INIT_PAGE rec_size idx) \<and>
    (\<forall>q. content q = content pg \<longrightarrow>
      (\<exists>q'. init_empty_page_cols q rec_size idx = Some (SUCCESS, q') \<and> content q' = content pg'))"
proof -
  let ?lens = "case lens of Some ls \<Rightarrow> if fmt = PAX_FORMAT then ls else [] | None \<Rightarrow> []"
  obtain h pg1 where h: "init_header rec_size (int (length ?lens)) = Some h"
      "clear_bitmap (pg\<lparr>rw_mode := READ_WRITE, hdr := h\<rparr>) = Some pg1"
    and pg': "pg' = append_log (INIT_PAGE rec_size (column_ends (record_capacity h) 0 ?lens))
        (pg1\<lparr>col_index := column_ends (record_capacity h) 0 ?lens\<rparr>)"
    using run by (auto simp: init_empty_page_def Let_def bind_eq_Some_iff)
  let ?idx = "column_ends (record_capacity h) 0 ?lens"
  have redo: "\<exists>q'. init_empty_page_cols q rec_size ?idx = Some (SUCCESS, q') \<and> content q' = content pg'"
    if q: "content q = content pg" for q
  proof -
    have "content (q\<lparr>rw_mode := READ_WRITE, hdr := h\<rparr>) = content (pg\<lparr>rw_mode := READ_WRITE, hdr := h\<rparr>)"
      using q by (simp add: content_def)
    then obtain q1 where q1: "clear_bitmap (q\<lparr>rw_mode := READ_WRITE, hdr := h\<rparr>) = Some q1" "content q1 = content pg1"
      using clear_bitmap_content[OF h(2)] by blast
    then have "init_empty_page_cols q rec_size ?idx = Some (SUCCESS, q1\<lparr>col_index := ?idx\<rparr>)"
      using h(1) by (simp add: init_empty_page_cols_def)
    moreover have "content (q1\<lparr>col_index := ?idx\<rparr>) = content pg'"
      unfolding pg' content_append_log using q1(2) by (simp add: content_def)
    ultimately show ?thesis by blast
  qed
  have "logged pg pg' (INIT_PAGE rec_size ?idx)"
    unfolding pg' by (rule logged_same_log) (use clear_bitmap_log[OF h(2)] disk in auto)
  with redo show ?thesis by blast
qed

text \<open>A page that is open for writing stays so.\<close>

lemma copy_record_in_mode: "copy_record_in pg slot d = Some pg' \<Longrightarrow> rw_mode pg' = rw_mode pg"
  by (auto simp: copy_record_in_def bind_eq_Some_iff)

lemma append_log_mode [simp]: "rw_mode (append_log oper pg) = rw_mode pg"
  by (simp add: append_log_def Let_def split: log_handler_kind.splits)

lemma init_empty_page_mode: "init_empty_page fmt pg n ls = Some (r, pg') \<Longrightarrow> rw_mode pg' = READ_WRITE"
  by (auto simp: init_empty_page_def Let_def bind_eq_Some_iff dest!: clear_bitmap_log)

lemma page_step_mode: "page_step pg pg' \<Longrightarrow> rw_mode pg = READ_WRITE \<Longrightarrow> rw_mode pg' = READ_WRITE"
  by (induction rule: page_step.induct)
    (auto simp: insert_record_def delete_record_def update_record_def Let_def bind_eq_Some_iff
      dest!: copy_record_in_mode init_empty_page_mode split: if_splits)

text \<open>What the replay of one log record must do to redo an operation.\<close>

definition redoes :: "rec_page \<Rightarrow> rec_page \<Rightarrow> record_operation \<Rightarrow> bool" where
  "redoes pg pg' oper \<longleftrightarrow> (\<forall>q. content q = content pg \<and> log_kind q = VACUOUS_LOG \<longrightarrow>
     (\<exists>q'. replay_operation q oper = Some (SUCCESS, q') \<and> content q' = content pg'))"

lemma page_step_redo:
  assumes "page_step pg pg'" and disk: "log_kind pg = DISK_LOG" "0 \<le> cur_lsn pg"
  obtains (quiet) "content pg' = content pg" "wal pg' = wal pg" "frame_lsn pg' = frame_lsn pg"
      "log_kind pg' = DISK_LOG" "cur_lsn pg \<le> cur_lsn pg'"
    | (entry) oper where "logged pg pg' oper" "redoes pg pg' oper"
  using assms(1)
proof cases
  case (init fmt n ls r)
  from init_redo[OF init disk] show thesis
    using entry by (auto simp: redoes_def replay_operation_def)
next
  case (insert d r i)
  from insert_redo[OF insert disk] show thesis
    using quiet entry disk by (fastforce simp: redoes_def replay_operation_def)
next
  case (delete slot r)
  from delete_redo[OF delete disk, simplified] show thesis
  proof
    assume "pg' = pg"
    then show thesis using quiet disk by simp
  qed (use entry in \<open>fastforce simp: redoes_def replay_operation_def\<close>)
next
  case (update slot d r)
  from update_redo[OF update disk, simplified] show thesis
  proof
    assume "pg' = pg"
    then show thesis using quiet disk by simp
  qed (use entry in \<open>fastforce simp: redoes_def replay_operation_def\<close>)
next
  case (other n)
  then show thesis using quiet disk by (auto simp: content_def)
qed

text \<open>One log record through the LSN check.\<close>

lemma replay_entry_redoes:
  assumes "redoes pg pg' oper" "content q = content pg" "rw_mode pg = READ_WRITE"
    "rw_mode pg' = READ_WRITE" "frame_lsn q < lsn"
  shows "\<exists>q'. replay_entry (lsn, oper) q = Some (SUCCESS, q') \<and> content q' = content pg' \<and> frame_lsn q' = lsn"
proof -
  let ?q = "q\<lparr>rw_mode := READ_WRITE, log_kind := VACUOUS_LOG\<rparr>"
  have "content ?q = content pg" "log_kind ?q = VACUOUS_LOG"
    using assms(2,3) by (simp_all add: content_def)
  then obtain q' where q': "replay_operation ?q oper = Some (SUCCESS, q')" "content q' = content pg'"
    using assms(1) unfolding redoes_def by blast
  moreover have "rw_mode q = READ_WRITE" using assms(2,3) by (simp add: content_def)
  ultimately show ?thesis
    using assms(4,5) by (auto simp: replay_entry_def content_def Let_def)
qed

text \<open>The pages on which the operations run: open for writing, under the disk log.\<close>

definition disk_page :: "rec_page \<Rightarrow> bool" where
  "disk_page pg \<longleftrightarrow> log_kind pg = DISK_LOG \<and> 0 \<le> cur_lsn pg \<and> rw_mode pg = READ_WRITE"

interpretation page_log: exact_redo_log page_step disk_page content frame_lsn cur_lsn wal replay_entry
proof (unfold_locales, goal_cases)
  case (1 pg pg')
  then have d: "log_kind pg = DISK_LOG" "0 \<le> cur_lsn pg" by (simp_all add: disk_page_def)
  show ?case
    using 1(2) d by (cases rule: page_step_redo)
      (use 1 page_step_mode in \<open>auto simp: disk_page_def logged_def\<close>)
next
  case (2 pg pg')
  then have d: "log_kind pg = DISK_LOG" "0 \<le> cur_lsn pg" "rw_mode pg = READ_WRITE" "rw_mode pg' = READ_WRITE"
    using page_step_mode by (auto simp: disk_page_def)
  from 2(2) d(1,2) show ?case
  proof (cases rule: page_step_redo)
    case (entry oper)
    have "\<exists>q'. replay_entry (cur_lsn pg + 1, oper) q = Some (SUCCESS, q') \<and> content q' = content pg' \<and>
        frame_lsn q' \<le> cur_lsn pg + 1" if "content q = content pg" "frame_lsn q < cur_lsn pg + 1" for q
      using replay_entry_redoes[OF entry(2) that(1) d(3,4) that(2)] by auto
    then show ?thesis using entry(1) by (auto simp: logged_def)
  qed simp
next
  case (3 lsn q oper)
  then show ?case by (simp add: replay_entry_def)
next
  case (4 lsn oper q q')
  then obtain r b where "Some (if OB_FAIL r then (r, b\<lparr>log_kind := log_kind q, rw_mode := rw_mode q\<rparr>)
      else (SUCCESS, b\<lparr>log_kind := log_kind q, rw_mode := rw_mode q, frame_lsn := fst (lsn, oper)\<rparr>)) = Some (SUCCESS, q')"
    by (auto simp: replay_entry_def bind_eq_Some_iff Let_def)
  then show ?case by (cases "OB_FAIL r") (auto simp: OB_FAIL_def)
qed

section \<open>Properties\<close>

text \<open>
  C2. Crash recovery of a record page.  A page starts with an empty log; any calls run on it, the page
  is flushed at some moment, more calls run, and the process dies.  Replaying the complete log of the
  page on the flushed image ends with \<open>SUCCESS\<close> in exactly the bytes, header and LSN the page had when
  the process died.
\<close>

theorem page_recovery:
  assumes "log_kind pg0 = DISK_LOG" "rw_mode pg0 = READ_WRITE" "wal pg0 = []"
    and "0 \<le> cur_lsn pg0" "frame_lsn pg0 \<le> cur_lsn pg0"
    and "page_step\<^sup>*\<^sup>* pg0 flushed" "page_step\<^sup>*\<^sup>* flushed pg1"
    and "pg_num img = pg_num flushed" "rw_mode img = rw_mode flushed" "hdr img = hdr flushed"
    and "pdata img = pdata flushed" "col_index img = col_index flushed" "frame_lsn img = frame_lsn flushed"
  shows "\<exists>q. replay_list replay_entry (wal pg1) img = Some (SUCCESS, q) \<and> pg_num q = pg_num pg1 \<and>
    hdr q = hdr pg1 \<and> pdata q = pdata pg1 \<and> frame_lsn q = frame_lsn pg1"
proof -
  have "page_log.log_ok pg0" using assms(1-5) by (simp add: page_log.log_ok_def disk_page_def)
  moreover have "content img = content flushed" using assms by (simp add: content_def)
  ultimately obtain q where "replay_list replay_entry (wal pg1) img = Some (SUCCESS, q)"
      "content q = content pg1" "frame_lsn q = frame_lsn pg1"
    using page_log.exact_recovery[OF _ assms(6,7) _ assms(13)] by blast
  then show ?thesis by (auto simp: content_def)
qed

text \<open>A concrete run for the witness: an insertion, a flush, a log record of another page, a deletion.\<close>

lemma demo_run:
  obtains flushed pg1 where "page_step demo_page flushed" "page_step\<^sup>*\<^sup>* flushed pg1" "wal pg1 \<noteq> []"
proof -
  note D = demo_page_facts
  have ins: "insert_record demo_page [1, 2, 3, 4] =
      Some (SUCCESS, Some \<lparr>page_num = 1, slot_num = 0\<rparr>, inserted_page demo_page 0 [1, 2, 3, 4])"
    by (rule insert_record_cases[OF D(1,4)]) (use D in \<open>auto dest: spec[of _ 0]\<close>)
  let ?f = "inserted_page demo_page 0 [1, 2, 3, 4]"
  let ?k = "?f\<lparr>cur_lsn := cur_lsn ?f + int 2\<rparr>"
  have f: "page_inv ?f" "pg_cap ?f = 8" "records ?f = [0 \<mapsto> [1, 2, 3, 4]]"
    using inserted_page_inv[OF D(1,4), of 0] D by simp_all
  have k: "page_inv ?k" "pg_cap ?k = 8" "records ?k = [0 \<mapsto> [1, 2, 3, 4]]"
    using f page_content_cong[of ?k ?f] by (simp_all add: page_inv_def)
  let ?d = "append_log (DELETE (int 0)) (put_slot ?k 0 False)"
  have del: "delete_record ?k \<lparr>page_num = pg_num ?k, slot_num = 0\<rparr> = Some (SUCCESS, ?d)"
    using delete_record_in_range[of ?k "\<lparr>page_num = pg_num ?k, slot_num = 0\<rparr>" 0] k by (simp add: page_inv_def)
  have "page_step ?f ?k" "page_step ?k ?d" by (rule page_step.other page_step.delete[OF del])+
  moreover have "wal ?d \<noteq> []"
  proof -
    have "log_kind ?k = DISK_LOG"
      using insert_redo[OF ins] by (auto simp: demo_page_def logged_def)
    then show ?thesis by (simp add: append_log_def put_slot_def Let_def)
  qed
  moreover have "page_step demo_page ?f" by (rule page_step.insert[OF ins])
  ultimately show thesis using that[of ?f ?d] by (simp add: converse_rtranclp_into_rtranclp)
qed

theorem page_recovery_witness:
  "\<exists>flushed pg1 q. page_step demo_page flushed \<and> page_step\<^sup>*\<^sup>* flushed pg1 \<and> wal pg1 \<noteq> [] \<and>
     replay_list replay_entry (wal pg1) flushed = Some (SUCCESS, q) \<and> pdata q = pdata pg1"
proof -
  obtain flushed pg1 where run: "page_step demo_page flushed" "page_step\<^sup>*\<^sup>* flushed pg1" "wal pg1 \<noteq> []"
    by (rule demo_run)
  have "log_kind demo_page = DISK_LOG" "wal demo_page = []" "0 \<le> cur_lsn demo_page"
      "frame_lsn demo_page \<le> cur_lsn demo_page" by (simp_all add: demo_page_def)
  then show ?thesis
    using page_recovery[OF _ demo_page_facts(8) _ _ _ r_into_rtranclp[of page_step, OF run(1)] run(2)
        refl refl refl refl refl refl] run by blast
qed

end
