(* ===== verification/Page_Alloc.thy ===== *)
theory Page_Alloc
  imports Bitmap Redo_Log
begin

text \<open>
  Page allocation in a paged file: the file header page of src/src/observer/storage/buffer/disk_buffer_pool.cpp
  (\<open>allocate_page\<close>, \<open>dispose_page\<close>, \<open>recover_page\<close>, \<open>redo_allocate_page\<close>, \<open>redo_deallocate_page\<close>,
  \<open>check_page_num\<close>, \<open>create_file\<close>), the log records of buffer_pool_log.cpp and the page iterator.
\<close>

section \<open>State\<close>

text \<open>
  \<open>BPFileHeader\<close>: three 32-bit fields and the bitmap, which takes the rest of the page data.
\<close>

record file_header =
  buffer_pool_id :: int
  page_count :: int
  allocated_pages :: int
  fh_bitmap :: "byte list"

text \<open>
  \<open>MAX_PAGE_NUM\<close> subtracts the sizes of \<open>page_count\<close> and \<open>allocated_pages\<close>, not that of
  \<open>buffer_pool_id\<close>.
\<close>

definition MAX_PAGE_NUM :: int where
  "MAX_PAGE_NUM = (BP_PAGE_DATA_SIZE - 4 - 4) * 8"

text \<open>The bytes that are left for the bitmap behind the three fields.\<close>

definition FH_BITMAP_BYTES :: int where
  "FH_BITMAP_BYTES = BP_PAGE_DATA_SIZE - 4 - 4 - 4"

datatype bp_operation = ALLOCATE PageNum | DEALLOCATE PageNum

text \<open>The header frame with its LSN and dirty flag, and the log as this file sees it.\<close>

record pool_header =
  fh :: file_header
  hdr_lsn :: LSN
  hdr_dirty :: bool
  hlog_kind :: log_handler_kind
  hcur_lsn :: LSN
  hwal :: "(LSN \<times> bp_operation) list"

definition file_bitmap :: "file_header \<Rightarrow> bitmap" where
  "file_bitmap h = \<lparr>bm_bytes = fh_bitmap h, bm_size = page_count h\<rparr>"

definition set_fh :: "file_header \<Rightarrow> pool_header \<Rightarrow> pool_header" where
  "set_fh h s = s\<lparr>fh := h, hdr_dirty := True\<rparr>"

section \<open>Creating a file\<close>

definition create_file_header :: "int \<Rightarrow> file_header" where
  "create_file_header bp_id =
     \<lparr>buffer_pool_id = bp_id, page_count = 1, allocated_pages = 1,
      fh_bitmap = 1 # replicate (nat FH_BITMAP_BYTES - 1) 0\<rparr>"

section \<open>Logging\<close>

text \<open>
  \<open>BufferPoolLogHandler::append_log\<close>; the result is the LSN given to the caller.
\<close>

definition append_bp_log :: "bp_operation \<Rightarrow> pool_header \<Rightarrow> LSN \<times> pool_header" where
  "append_bp_log oper s = (case hlog_kind s of
     VACUOUS_LOG \<Rightarrow> (0, s)
   | DISK_LOG \<Rightarrow> (hcur_lsn s + 1, s\<lparr>hcur_lsn := hcur_lsn s + 1, hwal := hwal s @ [(hcur_lsn s + 1, oper)]\<rparr>))"

definition log_allocate_page :: "PageNum \<Rightarrow> pool_header \<Rightarrow> pool_header" where
  "log_allocate_page p s = (let (lsn, s') = append_bp_log (ALLOCATE p) s in s'\<lparr>hdr_lsn := lsn\<rparr>)"

definition log_deallocate_page :: "PageNum \<Rightarrow> pool_header \<Rightarrow> pool_header" where
  "log_deallocate_page p s = (let (lsn, s') = append_bp_log (DEALLOCATE p) s in s'\<lparr>hdr_lsn := lsn\<rparr>)"

section \<open>Allocation\<close>

text \<open>The loop that looks for a free page below \<open>page_count\<close>.\<close>

function find_free_page :: "file_header \<Rightarrow> int \<Rightarrow> PageNum option option" where
  "find_free_page h i =
     (if i < page_count h then
        (case get_bit (file_bitmap h) i of
           None \<Rightarrow> None
         | Some used \<Rightarrow> if \<not> used then Some (Some i) else find_free_page h (i + 1))
      else Some None)"
  by pat_completeness auto
termination
  by (relation "measure (\<lambda>(h, i). nat (page_count h - i))") auto

declare find_free_page.simps [simp del]

definition mark_page :: "PageNum \<Rightarrow> pool_header \<Rightarrow> pool_header option" where
  "mark_page p s = do {
     b \<leftarrow> set_bit (file_bitmap (fh s)) p;
     Some (set_fh ((fh s)\<lparr>fh_bitmap := bm_bytes b\<rparr>) s)
   }"

definition add_allocated :: "int \<Rightarrow> pool_header \<Rightarrow> pool_header" where
  "add_allocated n s = s\<lparr>fh := (fh s)\<lparr>allocated_pages := allocated_pages (fh s) + n\<rparr>\<rparr>"

text \<open>The page number of a reused free page, if the header says there is one.\<close>

definition reuse_page :: "pool_header \<Rightarrow> (PageNum option \<times> pool_header) option" where
  "reuse_page s =
     (if allocated_pages (fh s) < page_count (fh s) then do {
        found \<leftarrow> find_free_page (fh s) 0;
        case found of
          None \<Rightarrow> Some (None, s)
        | Some i \<Rightarrow> do {
            s' \<leftarrow> mark_page i (add_allocated 1 s);
            Some (Some i, log_allocate_page i s')
          }
      } else Some (None, s))"

text \<open>Appending a page: the counters and the bit, after the frame has been allocated.\<close>

definition extend_header :: "pool_header \<Rightarrow> pool_header option" where
  "extend_header s =
     (let p = page_count (fh s);
          s1 = s\<lparr>fh := (fh s)\<lparr>allocated_pages := allocated_pages (fh s) + 1, page_count := p + 1\<rparr>\<rparr>
      in mark_page p s1)"

text \<open>
  The header side of \<open>allocate_page\<close>, for the case that a frame is available: the new page number, or
  the code BUFFERPOOL_NOBUF.
\<close>

definition header_allocate :: "pool_header \<Rightarrow> (rc \<times> PageNum option \<times> pool_header) option" where
  "header_allocate s = do {
     (found, s1) \<leftarrow> reuse_page s;
     case found of
       Some i \<Rightarrow> Some (SUCCESS, Some i, s1)
     | None \<Rightarrow>
         if page_count (fh s1) \<ge> MAX_PAGE_NUM then Some (BUFFERPOOL_NOBUF, None, s1)
         else do {
           let p = page_count (fh s1);
           s2 \<leftarrow> extend_header (log_allocate_page p s1);
           Some (SUCCESS, Some p, s2)
         }
   }"

definition header_dispose :: "PageNum \<Rightarrow> pool_header \<Rightarrow> (rc \<times> pool_header) option" where
  "header_dispose p s =
     (if p = 0 then Some (INTERNAL, s)
      else do {
        let s1 = add_allocated (-1) (log_deallocate_page p s);
        b \<leftarrow> clear_bit (file_bitmap (fh s1)) p;
        Some (SUCCESS, set_fh ((fh s1)\<lparr>fh_bitmap := bm_bytes b\<rparr>) s1)
      })"

definition recover_page :: "PageNum \<Rightarrow> pool_header \<Rightarrow> (rc \<times> pool_header) option" where
  "recover_page p s = do {
     used \<leftarrow> get_bit (file_bitmap (fh s)) p;
     if \<not> used then do {
       s1 \<leftarrow> mark_page p s;
       Some (SUCCESS, s1\<lparr>fh := (fh s1)\<lparr>allocated_pages := allocated_pages (fh s1) + 1,
                                      page_count := page_count (fh s1) + 1\<rparr>\<rparr>)
     } else Some (SUCCESS, s)
   }"

definition check_page_num :: "PageNum \<Rightarrow> pool_header \<Rightarrow> rc option" where
  "check_page_num p s =
     (if p \<ge> page_count (fh s) then Some BUFFERPOOL_INVALID_PAGE_NUM
      else do {
        used \<leftarrow> get_bit (file_bitmap (fh s)) p;
        Some (if used then SUCCESS else BUFFERPOOL_INVALID_PAGE_NUM)
      })"

section \<open>Redo\<close>

definition redo_allocate_page :: "LSN \<Rightarrow> PageNum \<Rightarrow> pool_header \<Rightarrow> (rc \<times> pool_header) option" where
  "redo_allocate_page lsn p s =
     (if hdr_lsn s \<ge> lsn then Some (SUCCESS, s)
      else if p < page_count (fh s) then do {
        used \<leftarrow> get_bit (file_bitmap (fh s)) p;
        if used then Some (SUCCESS, s)
        else do { s1 \<leftarrow> mark_page p s; Some (SUCCESS, add_allocated 1 s1) }
      }
      else if p > page_count (fh s) then Some (INTERNAL, s)
      else if page_count (fh s) \<ge> MAX_PAGE_NUM then Some (INTERNAL, s)
      else do { s1 \<leftarrow> extend_header (s\<lparr>hdr_lsn := lsn\<rparr>); Some (SUCCESS, s1) })"

definition redo_deallocate_page :: "LSN \<Rightarrow> PageNum \<Rightarrow> pool_header \<Rightarrow> (rc \<times> pool_header) option" where
  "redo_deallocate_page lsn p s =
     (if hdr_lsn s \<ge> lsn then Some (SUCCESS, s)
      else if p \<ge> page_count (fh s) then Some (INTERNAL, s)
      else do {
        used \<leftarrow> get_bit (file_bitmap (fh s)) p;
        if \<not> used then Some (INTERNAL, s)
        else do {
          b \<leftarrow> clear_bit (file_bitmap (fh s)) p;
          Some (SUCCESS, (add_allocated (-1) (set_fh ((fh s)\<lparr>fh_bitmap := bm_bytes b\<rparr>) s))\<lparr>hdr_lsn := lsn\<rparr>)
        }
      })"

text \<open>\<open>BufferPoolLogReplayer::replay\<close> for a record of this file.\<close>

definition bp_replay :: "LSN \<times> bp_operation \<Rightarrow> pool_header \<Rightarrow> (rc \<times> pool_header) option" where
  "bp_replay e s = (case snd e of
     ALLOCATE p \<Rightarrow> redo_allocate_page (fst e) p s
   | DEALLOCATE p \<Rightarrow> redo_deallocate_page (fst e) p s)"

section \<open>The page iterator\<close>

text \<open>\<open>BufferPoolIterator\<close>: the bitmap it was opened on and \<open>current_page_num_\<close>.\<close>

definition bp_iter_init :: "PageNum \<Rightarrow> PageNum" where
  "bp_iter_init start_page = (if start_page \<le> 0 then -1 else start_page - 1)"

definition bp_iter_has_next :: "bitmap \<Rightarrow> PageNum \<Rightarrow> bool option" where
  "bp_iter_has_next b cur = do { n \<leftarrow> next_setted_bit b (cur + 1); Some (n \<noteq> -1) }"

definition bp_iter_next :: "bitmap \<Rightarrow> PageNum \<Rightarrow> (PageNum \<times> PageNum) option" where
  "bp_iter_next b cur = do {
     n \<leftarrow> next_setted_bit b (cur + 1);
     Some (n, if n \<noteq> -1 then n else cur)
   }"

text \<open>The loop \<open>while (has_next()) ... next()\<close>, with fuel for the calls of \<open>next\<close>.\<close>

fun bp_iter_drain :: "nat \<Rightarrow> bitmap \<Rightarrow> PageNum \<Rightarrow> PageNum list option" where
  "bp_iter_drain 0 b cur = do { more \<leftarrow> bp_iter_has_next b cur; if more then None else Some [] }"
| "bp_iter_drain (Suc n) b cur = do {
     more \<leftarrow> bp_iter_has_next b cur;
     if more then do {
       (p, cur') \<leftarrow> bp_iter_next b cur;
       rest \<leftarrow> bp_iter_drain n b cur';
       Some (p # rest)
     } else Some []
   }"

section \<open>Invariant\<close>

definition hdr_ok :: "file_header \<Rightarrow> bool" where
  "hdr_ok h \<longleftrightarrow> int (length (fh_bitmap h)) = FH_BITMAP_BYTES \<and>
     1 \<le> page_count h \<and> page_count h \<le> 8 * FH_BITMAP_BYTES \<and>
     allocated_pages h = int (bm.used (file_bitmap h)) \<and> bm_bit (file_bitmap h) 0"

text \<open>The abstract state: the set of allocated pages.\<close>

definition live_pages :: "file_header \<Rightarrow> PageNum set" where
  "live_pages h = {p. 0 \<le> p \<and> p < page_count h \<and> bm_bit (file_bitmap h) (nat p)}"

lemma FH_BITMAP_BYTES_eq [layout_simps]: "FH_BITMAP_BYTES = 8164"
  by (simp add: FH_BITMAP_BYTES_def layout_simps)

lemma MAX_PAGE_NUM_eq [layout_simps]: "MAX_PAGE_NUM = 65344"
  by (simp add: MAX_PAGE_NUM_def layout_simps)

lemma hdr_ok_facts:
  assumes "hdr_ok h"
  shows "length (fh_bitmap h) = 8164" "bm_wf (file_bitmap h)" "bm_cap (file_bitmap h) = nat (page_count h)"
    "1 \<le> page_count h" "page_count h \<le> 65312"
proof -
  note A = assms[unfolded hdr_ok_def FH_BITMAP_BYTES_eq]
  then show len: "length (fh_bitmap h) = 8164" and pc: "1 \<le> page_count h" "page_count h \<le> 65312" by auto
  have "bytes (page_count h) \<le> 8164"
    unfolding bytes_ceiling using pc zdiv_mono1[of "page_count h + 7" 65319 8] by auto
  then show "bm_wf (file_bitmap h)" using len pc by (simp add: bm_wf_def file_bitmap_def)
  show "bm_cap (file_bitmap h) = nat (page_count h)" by (simp add: bm_cap_def file_bitmap_def)
qed

lemma live_iff:
  assumes "hdr_ok h" "p < page_count h" "0 \<le> p"
  shows "p \<in> live_pages h \<longleftrightarrow> get_bit (file_bitmap h) p = Some True"
    "get_bit (file_bitmap h) p = Some (p \<in> live_pages h)"
proof -
  note F = hdr_ok_facts[OF assms(1)]
  have "nat p < bm_cap (file_bitmap h)" using assms F by simp
  then have "get_bit (file_bitmap h) p = Some (bm_bit (file_bitmap h) (nat p))"
    using get_bit_eq[OF F(2), of "nat p"] assms(3) by simp
  then show "p \<in> live_pages h \<longleftrightarrow> get_bit (file_bitmap h) p = Some True"
    "get_bit (file_bitmap h) p = Some (p \<in> live_pages h)"
    using assms by (auto simp: live_pages_def)
qed

lemma find_free_page_spec:
  assumes "hdr_ok h" "0 \<le> i"
  shows "\<exists>r. find_free_page h i = Some r \<and>
    (case r of None \<Rightarrow> \<forall>j. i \<le> j \<and> j < page_count h \<longrightarrow> j \<in> live_pages h
     | Some j \<Rightarrow> i \<le> j \<and> j < page_count h \<and> j \<notin> live_pages h)"
  using assms(2)
proof (induction "nat (page_count h - i)" arbitrary: i)
  case 0
  then show ?case by (auto simp: find_free_page.simps)
next
  case (Suc n)
  then have lt: "i < page_count h" by linarith
  show ?case
  proof (cases "i \<in> live_pages h")
    case False
    then show ?thesis using lt live_iff(2)[OF assms(1) lt Suc.prems] by (auto simp: find_free_page.simps)
  next
    case True
    obtain r where r: "find_free_page h (i + 1) = Some r"
        "case r of None \<Rightarrow> \<forall>j. i + 1 \<le> j \<and> j < page_count h \<longrightarrow> j \<in> live_pages h
         | Some j \<Rightarrow> i + 1 \<le> j \<and> j < page_count h \<and> j \<notin> live_pages h"
    proof -
      have "n = nat (page_count h - (i + 1))" "0 \<le> i + 1" using Suc.hyps(2) Suc.prems by linarith+
      then show thesis using Suc.hyps(1) that by blast
    qed
    have "find_free_page h i = Some r"
      using True lt live_iff(2)[OF assms(1) lt Suc.prems] r(1) by (simp add: find_free_page.simps[of h i])
    moreover have "\<forall>j. i \<le> j \<and> j < page_count h \<longrightarrow> j \<in> live_pages h" if "r = None"
    proof (intro allI impI)
      fix j assume "i \<le> j \<and> j < page_count h"
      then show "j \<in> live_pages h" using r(2) that True by (cases "j = i") auto
    qed
    ultimately show ?thesis using r(2) by (auto split: option.splits)
  qed
qed

text \<open>Marking and clearing a page below \<open>page_count\<close>.\<close>

definition put_page :: "file_header \<Rightarrow> nat \<Rightarrow> bool \<Rightarrow> file_header" where
  "put_page h i v = h\<lparr>fh_bitmap := bm_bytes (bm_put (file_bitmap h) i v),
     allocated_pages := allocated_pages h + (if v then 1 else -1)\<rparr>"

lemma put_page_bitmap:
  assumes "hdr_ok h" "int i < page_count h"
  shows "file_bitmap (put_page h i v) = bm_put (file_bitmap h) i v"
proof -
  note F = hdr_ok_facts[OF assms(1)]
  have "bm_size (bm_put (file_bitmap h) i v) = page_count h"
    using bm_put_frame(1)[OF F(2), of i v] F assms(2) by (simp add: file_bitmap_def)
  then show ?thesis by (simp add: file_bitmap_def put_page_def)
qed

lemma put_page_ok:
  assumes "hdr_ok h" "int i < page_count h" "bm_bit (file_bitmap h) i \<noteq> v" "i \<noteq> 0"
  shows "hdr_ok (put_page h i v)"
    "live_pages (put_page h i v) = (if v then insert (int i) (live_pages h) else live_pages h - {int i})"
proof -
  note F = hdr_ok_facts[OF assms(1)]
  have i: "i < bm_cap (file_bitmap h)" using F assms(2) by simp
  note B = put_page_bitmap[OF assms(1,2), of v]
  have bit: "bm_bit (file_bitmap (put_page h i v)) j = (if j = i then v else bm_bit (file_bitmap h) j)" for j
    using bm_put_bit[OF F(2) i] B by simp
  have cnt: "page_count (put_page h i v) = page_count h" by (simp add: put_page_def)
  have "length (fh_bitmap (put_page h i v)) = length (fh_bitmap h)"
    using bm_put_frame(2)[OF F(2) i, of v] by (simp add: put_page_def file_bitmap_def)
  moreover have "allocated_pages (put_page h i v) = int (bm.used (file_bitmap (put_page h i v)))"
    unfolding B using assms(1,3) bm.used_put_True[OF F(2) i] bm.used_put_False[OF F(2) i]
    by (cases v) (auto simp: put_page_def hdr_ok_def)
  ultimately show "hdr_ok (put_page h i v)"
    using assms(1,4) cnt bit[of 0] by (simp add: hdr_ok_def)
  show "live_pages (put_page h i v) = (if v then insert (int i) (live_pages h) else live_pages h - {int i})"
    using assms(2) by (auto simp: live_pages_def cnt bit)
qed

text \<open>Appending a page.\<close>

definition push_page :: "file_header \<Rightarrow> file_header" where
  "push_page h = (let h1 = h\<lparr>allocated_pages := allocated_pages h + 1, page_count := page_count h + 1\<rparr>
     in h1\<lparr>fh_bitmap := bm_bytes (bm_put (file_bitmap h1) (nat (page_count h)) True)\<rparr>)"

lemma push_page_ok:
  assumes "hdr_ok h" "page_count h < 8 * FH_BITMAP_BYTES"
  shows "hdr_ok (push_page h)" "live_pages (push_page h) = insert (page_count h) (live_pages h)"
    "page_count (push_page h) = page_count h + 1"
    "set_bit (file_bitmap (h\<lparr>allocated_pages := allocated_pages h + 1, page_count := page_count h + 1\<rparr>)) (page_count h) =
       Some (file_bitmap (push_page h))"
proof -
  note F = hdr_ok_facts[OF assms(1)]
  let ?h = "h\<lparr>allocated_pages := allocated_pages h + 1, page_count := page_count h + 1\<rparr>"
  let ?p = "nat (page_count h)"
  have "bytes (page_count h + 1) \<le> 8164"
    unfolding bytes_ceiling using assms(2) zdiv_mono1[of "page_count h + 8" 65319 8] by (simp add: layout_simps)
  then have wf: "bm_wf (file_bitmap ?h)" using F by (simp add: bm_wf_def file_bitmap_def)
  have p: "?p < bm_cap (file_bitmap ?h)" using F by (simp add: bm_cap_def file_bitmap_def)
  show cnt: "page_count (push_page h) = page_count h + 1" by (simp add: push_page_def Let_def)
  have B: "file_bitmap (push_page h) = bm_put (file_bitmap ?h) ?p True"
    using bm_put_frame(1)[OF wf p, of True] by (simp add: push_page_def Let_def file_bitmap_def)
  then show "set_bit (file_bitmap ?h) (page_count h) = Some (file_bitmap (push_page h))"
    using set_bit_eq(1)[OF wf p] F by simp
  have same: "bm_bit (file_bitmap ?h) j = bm_bit (file_bitmap h) j" for j by (simp add: bm_bit_def file_bitmap_def)
  have bit: "bm_bit (file_bitmap (push_page h)) j = (j = ?p \<or> bm_bit (file_bitmap h) j)" for j
    using bm_put_bit[OF wf p, of True j] by (simp add: B same)
  have cap: "bm_cap (file_bitmap (push_page h)) = Suc ?p"
    using cnt F by (simp add: bm_cap_def file_bitmap_def)
  have "used_below (bm_bit (file_bitmap (push_page h))) (Suc ?p) = insert ?p (used_below (bm_bit (file_bitmap h)) ?p)"
    by (auto simp: used_below_def bit)
  then have "bm.used (file_bitmap (push_page h)) = Suc (bm.used (file_bitmap h))"
    by (simp add: bm.used_def cap F(3)) (simp add: used_below_def)
  then have "allocated_pages (push_page h) = int (bm.used (file_bitmap (push_page h)))"
    using assms(1) by (simp add: push_page_def Let_def hdr_ok_def)
  moreover have "length (fh_bitmap (push_page h)) = length (fh_bitmap h)"
    using bm_put_frame(2)[OF wf p, of True] by (simp add: push_page_def Let_def file_bitmap_def)
  ultimately show "hdr_ok (push_page h)"
    using assms cnt bit[of 0] by (simp add: hdr_ok_def)
  show "live_pages (push_page h) = insert (page_count h) (live_pages h)"
    using F(4) by (auto simp: live_pages_def cnt bit)
qed

section \<open>The operations\<close>

text \<open>The state after an operation that logs and then changes the header.\<close>

definition stepped :: "bp_operation \<Rightarrow> file_header \<Rightarrow> pool_header \<Rightarrow> pool_header" where
  "stepped oper h s = (let (lsn, s') = append_bp_log oper s in s'\<lparr>hdr_lsn := lsn, fh := h, hdr_dirty := True\<rparr>)"

lemma stepped_fh [simp]: "fh (stepped oper h s) = h"
  by (simp add: stepped_def append_bp_log_def split: prod.splits log_handler_kind.splits)

lemma mark_page_eq:
  assumes "hdr_ok (fh s)" "int i < page_count (fh s)"
  shows "mark_page (int i) (add_allocated 1 s) = Some (set_fh (put_page (fh s) i True) s)"
    "mark_page (int i) s \<bind> (\<lambda>t. Some (SUCCESS, add_allocated 1 t)) = Some (SUCCESS, set_fh (put_page (fh s) i True) s)"
proof -
  note F = hdr_ok_facts[OF assms(1)]
  have i: "i < bm_cap (file_bitmap (fh s))" using F assms(2) by simp
  note S = set_bit_eq(1)[OF F(2) i]
  have "file_bitmap ((fh s)\<lparr>allocated_pages := n\<rparr>) = file_bitmap (fh s)" for n by (simp add: file_bitmap_def)
  then show "mark_page (int i) (add_allocated 1 s) = Some (set_fh (put_page (fh s) i True) s)"
    "mark_page (int i) s \<bind> (\<lambda>t. Some (SUCCESS, add_allocated 1 t)) = Some (SUCCESS, set_fh (put_page (fh s) i True) s)"
    using S by (simp_all add: mark_page_def add_allocated_def set_fh_def put_page_def)
qed

lemma clear_page_eq:
  assumes "hdr_ok h" "int i < page_count h"
  shows "clear_bit (file_bitmap h) (int i) = Some (file_bitmap (put_page h i False))"
  using set_bit_eq(2)[OF hdr_ok_facts(2)[OF assms(1)], of i] hdr_ok_facts[OF assms(1)] assms
    put_page_bitmap[OF assms, of False] by simp

lemma extend_header_eq:
  assumes "hdr_ok (fh s)" "page_count (fh s) < 8 * FH_BITMAP_BYTES"
  shows "extend_header s = Some (set_fh (push_page (fh s)) s)"
  using push_page_ok(4)[OF assms]
  by (simp add: extend_header_def mark_page_def Let_def set_fh_def push_page_def file_bitmap_def)

lemma append_bp_log_fh: "append_bp_log oper s = (lsn, s') \<Longrightarrow> fh s' = fh s"
  by (auto simp: append_bp_log_def split: log_handler_kind.splits)

lemma log_page_fh [simp]:
  "fh (log_allocate_page p s) = fh s" "fh (log_deallocate_page p s) = fh s"
  by (auto simp: log_allocate_page_def log_deallocate_page_def Let_def dest: append_bp_log_fh split: prod.splits)

lemma log_stepped:
  "set_fh h (log_allocate_page p s) = stepped (ALLOCATE p) h s"
  "log_allocate_page p (set_fh h s) = stepped (ALLOCATE p) h s"
  "set_fh h (log_deallocate_page p s) = stepped (DEALLOCATE p) h s"
  by (simp_all add: set_fh_def log_allocate_page_def log_deallocate_page_def stepped_def append_bp_log_def
      split: log_handler_kind.splits)

lemma header_allocate_cases:
  assumes "hdr_ok (fh s)" "allocated_pages (fh s) < 8 * FH_BITMAP_BYTES"
  obtains (reuse) i where "i \<noteq> 0" "int i < page_count (fh s)" "int i \<notin> live_pages (fh s)"
      "header_allocate s = Some (SUCCESS, Some (int i), stepped (ALLOCATE (int i)) (put_page (fh s) i True) s)"
  | (fresh) "\<forall>p. 0 \<le> p \<and> p < page_count (fh s) \<longrightarrow> p \<in> live_pages (fh s)"
      "page_count (fh s) < 8 * FH_BITMAP_BYTES"
      "header_allocate s = Some (SUCCESS, Some (page_count (fh s)),
         stepped (ALLOCATE (page_count (fh s))) (push_page (fh s)) s)"
proof -
  note F = hdr_ok_facts[OF assms(1)]
  have alloc: "allocated_pages (fh s) = int (bm.used (file_bitmap (fh s)))" using assms(1) by (simp add: hdr_ok_def)
  have full: "(\<forall>p. 0 \<le> p \<and> p < page_count (fh s) \<longrightarrow> p \<in> live_pages (fh s)) \<longleftrightarrow>
      allocated_pages (fh s) = page_count (fh s)"
  proof -
    have "bm.used (file_bitmap (fh s)) = bm_cap (file_bitmap (fh s)) \<longleftrightarrow> (\<forall>i<nat (page_count (fh s)). bm_bit (file_bitmap (fh s)) i)"
      using bm.used_full_iff[of "file_bitmap (fh s)"] F(3) by simp
    also have "\<dots> \<longleftrightarrow> (\<forall>p. 0 \<le> p \<and> p < page_count (fh s) \<longrightarrow> p \<in> live_pages (fh s))"
      by (auto simp: live_pages_def) (metis nat_int of_nat_0_le_iff zless_nat_eq_int_zless)
    finally show ?thesis using alloc F by auto
  qed
  have le: "allocated_pages (fh s) \<le> page_count (fh s)"
    using bm.used_le_cap[of "file_bitmap (fh s)"] F alloc by simp
  obtain r where r: "find_free_page (fh s) 0 = Some r"
      "case r of None \<Rightarrow> \<forall>j. 0 \<le> j \<and> j < page_count (fh s) \<longrightarrow> j \<in> live_pages (fh s)
       | Some j \<Rightarrow> 0 \<le> j \<and> j < page_count (fh s) \<and> j \<notin> live_pages (fh s)"
    using find_free_page_spec[OF assms(1), of 0] by auto
  show thesis
  proof (cases "allocated_pages (fh s) < page_count (fh s)")
    case True
    then obtain p where p: "r = Some p" "0 \<le> p" "p < page_count (fh s)" "p \<notin> live_pages (fh s)"
      using r(2) full by (cases r) auto
    define i where "i = nat p"
    have i: "int i = p" "i \<noteq> 0" using p assms(1) by (auto simp: i_def live_pages_def hdr_ok_def)
    have "reuse_page s = Some (Some p, stepped (ALLOCATE p) (put_page (fh s) i True) s)"
      using True r(1) p(1,3) mark_page_eq(1)[OF assms(1), of i] i by (simp add: reuse_page_def log_stepped)
    then show thesis using reuse[of i] p i by (simp add: header_allocate_def)
  next
    case False
    then have eq: "allocated_pages (fh s) = page_count (fh s)" using le by simp
    have lt: "page_count (fh s) < 8 * FH_BITMAP_BYTES" using assms(2) eq by simp
    then have "\<not> page_count (fh s) \<ge> MAX_PAGE_NUM" by (simp add: layout_simps)
    then have "header_allocate s = Some (SUCCESS, Some (page_count (fh s)),
         stepped (ALLOCATE (page_count (fh s))) (push_page (fh s)) s)"
      using False extend_header_eq[of "log_allocate_page (page_count (fh s)) s"] assms(1) lt
      by (simp add: header_allocate_def reuse_page_def log_stepped Let_def)
    then show thesis using fresh lt full eq by blast
  qed
qed

lemma header_dispose_eq:
  assumes "hdr_ok (fh s)" "p \<in> live_pages (fh s)" "p \<noteq> 0"
  shows "header_dispose p s = Some (SUCCESS, stepped (DEALLOCATE p) (put_page (fh s) (nat p) False) s)"
    "hdr_ok (put_page (fh s) (nat p) False)"
    "live_pages (put_page (fh s) (nat p) False) = live_pages (fh s) - {p}"
proof -
  have p: "0 \<le> p" "p < page_count (fh s)" "bm_bit (file_bitmap (fh s)) (nat p)"
    using assms(2) by (auto simp: live_pages_def)
  have "clear_bit (file_bitmap (fh s)) p = Some (file_bitmap (put_page (fh s) (nat p) False))"
    using clear_page_eq[OF assms(1), of "nat p"] p by simp
  moreover have "file_bitmap ((fh s)\<lparr>allocated_pages := n\<rparr>) = file_bitmap (fh s)" for n by (simp add: file_bitmap_def)
  ultimately show "header_dispose p s = Some (SUCCESS, stepped (DEALLOCATE p) (put_page (fh s) (nat p) False) s)"
    using assms(3)
    by (simp add: header_dispose_def add_allocated_def set_fh_def put_page_def file_bitmap_def stepped_def
        log_deallocate_page_def append_bp_log_def split: log_handler_kind.splits)
  show "hdr_ok (put_page (fh s) (nat p) False)"
    "live_pages (put_page (fh s) (nat p) False) = live_pages (fh s) - {p}"
    using put_page_ok[OF assms(1), of "nat p" False] p assms(3) by auto
qed

section \<open>The interface of a page allocator\<close>

text \<open>
  What the record file and the index rely on: page 0 stays allocated, an allocation returns a page that
  was not allocated, a disposal frees exactly the given page.
\<close>

locale page_allocator =
  fixes inv :: "'s \<Rightarrow> bool"
    and live :: "'s \<Rightarrow> PageNum set"
    and room :: "'s \<Rightarrow> bool"
    and alloc :: "'s \<Rightarrow> (PageNum \<times> 's) option"
    and dispose :: "PageNum \<Rightarrow> 's \<Rightarrow> 's option"
  assumes header_live: "inv s \<Longrightarrow> 0 \<in> live s"
    and alloc_fresh: "inv s \<Longrightarrow> room s \<Longrightarrow> \<exists>p s'. alloc s = Some (p, s') \<and> inv s' \<and> 0 < p \<and> p \<notin> live s \<and>
      live s' = insert p (live s)"
    and dispose_live: "inv s \<Longrightarrow> p \<in> live s \<Longrightarrow> p \<noteq> 0 \<Longrightarrow>
      \<exists>s'. dispose p s = Some s' \<and> inv s' \<and> live s' = live s - {p}"
begin

text \<open>Pages of two owners stay apart: what one owner allocates never belongs to the other.\<close>

lemma alloc_not_owned:
  assumes "inv s" "room s" "alloc s = Some (p, s')" "owned \<subseteq> live s"
  shows "p \<notin> owned" "owned \<subseteq> live s'" "inv s'"
proof -
  obtain q t where q: "alloc s = Some (q, t)" "inv t" "q \<notin> live s" "live t = insert q (live s)"
    using alloc_fresh[OF assms(1,2)] by blast
  then have "q = p" "t = s'" using assms(3) by auto
  then show "p \<notin> owned" "owned \<subseteq> live s'" "inv s'" using q assms(4) by auto
qed

lemma alloc_then_dispose:
  assumes "inv s" "room s" "alloc s = Some (p, s')"
  shows "\<exists>s''. dispose p s' = Some s'' \<and> inv s'' \<and> live s'' = live s"
proof -
  obtain q t where q: "alloc s = Some (q, t)" "inv t" "0 < q" "q \<notin> live s" "live t = insert q (live s)"
    using alloc_fresh[OF assms(1,2)] by blast
  then have e: "q = p" "t = s'" using assms(3) by auto
  then obtain s'' where "dispose p s' = Some s''" "inv s''" "live s'' = live s' - {p}"
    using dispose_live[of s' p] q by auto
  then show ?thesis using q e by auto
qed

end

definition hdr_inv :: "pool_header \<Rightarrow> bool" where
  "hdr_inv s \<longleftrightarrow> hdr_ok (fh s)"

definition hdr_live :: "pool_header \<Rightarrow> PageNum set" where
  "hdr_live s = live_pages (fh s)"

definition hdr_room :: "pool_header \<Rightarrow> bool" where
  "hdr_room s \<longleftrightarrow> allocated_pages (fh s) < 8 * FH_BITMAP_BYTES"

definition hdr_alloc :: "pool_header \<Rightarrow> (PageNum \<times> pool_header) option" where
  "hdr_alloc s = (case header_allocate s of Some (SUCCESS, Some p, s') \<Rightarrow> Some (p, s') | _ \<Rightarrow> None)"

definition hdr_dispose :: "PageNum \<Rightarrow> pool_header \<Rightarrow> pool_header option" where
  "hdr_dispose p s = (case header_dispose p s of Some (SUCCESS, s') \<Rightarrow> Some s' | _ \<Rightarrow> None)"

lemma not_live_bit:
  "int i < page_count h \<Longrightarrow> int i \<notin> live_pages h \<Longrightarrow> \<not> bm_bit (file_bitmap h) i"
  by (simp add: live_pages_def)

lemma header_allocate_live:
  assumes "hdr_ok (fh s)" "allocated_pages (fh s) < 8 * FH_BITMAP_BYTES"
  obtains p s' where "header_allocate s = Some (SUCCESS, Some p, s')" "0 < p" "p \<notin> live_pages (fh s)"
    "live_pages (fh s') = insert p (live_pages (fh s))" "hdr_ok (fh s')"
    "allocated_pages (fh s') = allocated_pages (fh s) + 1"
  using assms
proof (cases rule: header_allocate_cases)
  case (reuse i)
  then show ?thesis
    using that[OF reuse(4)] put_page_ok[OF assms(1), of i True] not_live_bit[of i "fh s"] by (simp add: put_page_def)
next
  case fresh
  then show ?thesis
    using that[OF fresh(3)] push_page_ok[OF assms(1)] hdr_ok_facts[OF assms(1)]
    by (simp add: live_pages_def) (simp add: push_page_def Let_def)
qed

interpretation hdr: page_allocator hdr_inv hdr_live hdr_room hdr_alloc hdr_dispose
proof (unfold_locales, goal_cases)
  case (1 s)
  then show ?case by (auto simp: hdr_inv_def hdr_live_def live_pages_def hdr_ok_def)
next
  case (2 s)
  then have ok: "hdr_ok (fh s)" "allocated_pages (fh s) < 8 * FH_BITMAP_BYTES"
    by (simp_all add: hdr_inv_def hdr_room_def)
  then show ?case
  proof (cases rule: header_allocate_cases)
    case (reuse i)
    then show ?thesis
      using put_page_ok[OF ok(1), of i True] not_live_bit[of i "fh s"]
      by (simp add: hdr_alloc_def hdr_inv_def hdr_live_def)
  next
    case fresh
    then show ?thesis
      using push_page_ok[OF ok(1)] hdr_ok_facts[OF ok(1)]
      by (simp add: hdr_alloc_def hdr_inv_def hdr_live_def) (simp add: live_pages_def)
  qed
next
  case (3 s p)
  then show ?case
    using header_dispose_eq[of s p] by (simp add: hdr_dispose_def hdr_inv_def hdr_live_def)
qed

section \<open>The bound of the page count\<close>

lemma allocated_le_count:
  assumes "hdr_ok h"
  shows "allocated_pages h \<le> page_count h"
proof -
  have "allocated_pages h = int (bm.used (file_bitmap h))" using assms by (simp add: hdr_ok_def)
  then show ?thesis using bm.used_le_cap[of "file_bitmap h"] hdr_ok_facts(3,4)[OF assms] by linarith
qed

lemma header_allocate_no_room:
  assumes "hdr_ok (fh s)" "allocated_pages (fh s) \<ge> 8 * FH_BITMAP_BYTES"
  shows "page_count (fh s) = 65312" "header_allocate s = None"
proof -
  note F = hdr_ok_facts[OF assms(1)]
  have alloc: "allocated_pages (fh s) = 65312"
    using assms(2) allocated_le_count[OF assms(1)] F by (simp add: layout_simps)
  show pc: "page_count (fh s) = 65312" using F alloc allocated_le_count[OF assms(1)] by simp
  have "\<not> in_array (file_bitmap (h\<lparr>allocated_pages := a, page_count := n\<rparr>)) 65312"
    if "h = fh s" for h a n using F(1) that by (simp add: in_array_def file_bitmap_def)
  then have "extend_header (log_allocate_page 65312 s) = None"
    using pc by (simp add: extend_header_def mark_page_def set_bit_def Let_def)
  moreover have "reuse_page s = Some (None, s)" using alloc pc by (simp add: reuse_page_def)
  ultimately show "header_allocate s = None"
    using pc by (simp add: header_allocate_def layout_simps Let_def)
qed

section \<open>Recovery of the header\<close>

text \<open>
  One successful allocation or disposal; disposals are of allocated pages, as the callers guarantee.
  Between two calls other users of the log may consume LSNs.
\<close>

inductive header_step :: "pool_header \<Rightarrow> pool_header \<Rightarrow> bool" where
  allocate: "header_allocate s = Some (SUCCESS, Some p, s') \<Longrightarrow> header_step s s'"
| dispose: "p \<in> live_pages (fh s) \<Longrightarrow> header_dispose p s = Some (SUCCESS, s') \<Longrightarrow> header_step s s'"
| other: "header_step s (s\<lparr>hcur_lsn := hcur_lsn s + int n\<rparr>)"

definition disk_header :: "pool_header \<Rightarrow> bool" where
  "disk_header s \<longleftrightarrow> hdr_ok (fh s) \<and> hlog_kind s = DISK_LOG \<and> 0 \<le> hcur_lsn s"

text \<open>A step that changes the header logs one record whose redo makes the same change.\<close>

lemma header_step_cases:
  assumes "header_step s s'" "disk_header s"
  obtains (quiet) n where "s' = s\<lparr>hcur_lsn := hcur_lsn s + int n\<rparr>"
  | (change) oper h where "s' = stepped oper h s" "hdr_ok h"
      "\<And>q lsn. fh q = fh s \<Longrightarrow> hdr_lsn q < lsn \<Longrightarrow>
        \<exists>q'. bp_replay (lsn, oper) q = Some (SUCCESS, q') \<and> fh q' = h \<and> hdr_lsn q' \<le> lsn"
  using assms(1)
proof cases
  case (allocate p)
  have ok: "hdr_ok (fh s)" using assms(2) by (simp add: disk_header_def)
  have room: "allocated_pages (fh s) < 8 * FH_BITMAP_BYTES"
    using header_allocate_no_room[OF ok] allocate by (cases "allocated_pages (fh s) < 8 * FH_BITMAP_BYTES") auto
  from ok room show thesis
  proof (cases rule: header_allocate_cases)
    case (reuse i)
    have ok': "hdr_ok (put_page (fh s) i True)"
      using put_page_ok(1)[OF ok, of i True] reuse not_live_bit[of i "fh s"] by simp
    have "bp_replay (lsn, ALLOCATE (int i)) q = Some (SUCCESS, set_fh (put_page (fh s) i True) q)"
      if "fh q = fh s" "hdr_lsn q < lsn" for q lsn
      using that reuse ok live_iff(2)[OF ok reuse(2)] mark_page_eq(2)[of q i]
      by (simp add: bp_replay_def redo_allocate_page_def)
    then show thesis
      using change[of "ALLOCATE (int i)" "put_page (fh s) i True"] reuse(4) allocate ok' by (auto simp: set_fh_def)
  next
    case fresh
    let ?p = "page_count (fh s)"
    have "bp_replay (lsn, ALLOCATE ?p) q = Some (SUCCESS, set_fh (push_page (fh s)) (q\<lparr>hdr_lsn := lsn\<rparr>))"
      if "fh q = fh s" "hdr_lsn q < lsn" for q lsn
      using that fresh(2) extend_header_eq[of "q\<lparr>hdr_lsn := lsn\<rparr>"] ok
      by (simp add: bp_replay_def redo_allocate_page_def layout_simps)
    then show thesis
      using change[of "ALLOCATE ?p" "push_page (fh s)"] fresh allocate push_page_ok(1)[OF ok] by (auto simp: set_fh_def)
  qed
next
  case (dispose p)
  have ok: "hdr_ok (fh s)" using assms(2) by (simp add: disk_header_def)
  have p0: "p \<noteq> 0" using dispose by (auto simp: header_dispose_def)
  note E = header_dispose_eq[OF ok dispose(1) p0]
  have p: "0 \<le> p" "p < page_count (fh s)" using dispose(1) by (simp_all add: live_pages_def)
  have "\<exists>q'. bp_replay (lsn, DEALLOCATE p) q = Some (SUCCESS, q') \<and> fh q' = put_page (fh s) (nat p) False \<and> hdr_lsn q' \<le> lsn"
    if "fh q = fh s" "hdr_lsn q < lsn" for q lsn
    using that p dispose(1) live_iff(2)[OF ok p(2,1)] clear_page_eq[OF ok, of "nat p"]
    by (simp add: bp_replay_def redo_deallocate_page_def set_fh_def add_allocated_def put_page_def file_bitmap_def)
  then show thesis using change[of "DEALLOCATE p" "put_page (fh s) (nat p) False"] E dispose(2) by simp
next
  case (other n)
  then show thesis using quiet by simp
qed

interpretation header_log: redo_log header_step disk_header fh hdr_lsn hcur_lsn hwal bp_replay
proof (unfold_locales, goal_cases)
  case (1 s s')
  from 1(2,1) show ?case
    by (cases rule: header_step_cases)
      (use 1(1) in \<open>auto simp: disk_header_def stepped_def append_bp_log_def split: log_handler_kind.splits\<close>)
next
  case (2 s s')
  from 2(2,1) show ?case
  proof (cases rule: header_step_cases)
    case (change oper h)
    have "hlog_kind s = DISK_LOG" using 2(1) by (simp add: disk_header_def)
    then have "hwal s' = hwal s @ [(hcur_lsn s + 1, oper)]" "hcur_lsn s' = hcur_lsn s + 1"
        "hdr_lsn s' = hcur_lsn s + 1" "fh s' = h"
      by (simp_all add: change(1)) (simp_all add: stepped_def append_bp_log_def)
    then show ?thesis using change(3)[of _ "hcur_lsn s + 1"] by blast
  qed simp
next
  case (3 lsn q oper)
  then show ?case
    by (simp add: bp_replay_def redo_allocate_page_def redo_deallocate_page_def split: bp_operation.splits)
qed

section \<open>Iteration\<close>

lemma bp_iter_drain_from:
  assumes "bm_wf b" "-1 \<le> cur" "bm_cap b - nat (cur + 1) \<le> n"
  shows "bp_iter_drain n b cur = Some [int i. i \<leftarrow> [nat (cur + 1)..<bm_cap b], bm_bit b i]"
  using assms(2,3)
proof (induction n arbitrary: cur)
  case 0
  obtain r where r: "next_setted_bit b (cur + 1) = Some r" "first_from (bm_bit b) (nat (cur + 1)) (bm_cap b) r"
    using next_setted_bit_first[OF assms(1), of "cur + 1"] "0.prems" by auto
  then have "r = -1" using "0.prems" by (auto simp: first_from_def)
  then show ?case using r(1) "0.prems" by (simp add: bp_iter_has_next_def)
next
  case (Suc n)
  let ?s = "nat (cur + 1)"
  obtain r where r: "next_setted_bit b (cur + 1) = Some r" "first_from (bm_bit b) ?s (bm_cap b) r"
    using next_setted_bit_first[OF assms(1), of "cur + 1"] Suc.prems by auto
  from r(2) show ?case
  proof (cases rule: first_fromE)
    case none
    then have "[int i. i \<leftarrow> [?s..<bm_cap b], bm_bit b i] = []" by simp
    then show ?thesis using none(1) r(1) by (simp add: bp_iter_has_next_def)
  next
    case (some k)
    have split: "[?s..<bm_cap b] = [?s..<k] @ k # [Suc k..<bm_cap b]"
      using some upt_add_eq_append[of ?s k "bm_cap b - k"] by (simp add: upt_conv_Cons)
    have "[int i. i \<leftarrow> [?s..<k], bm_bit b i] = []" using some(5) by simp
    then have list: "[int i. i \<leftarrow> [?s..<bm_cap b], bm_bit b i] =
        int k # [int i. i \<leftarrow> [Suc k..<bm_cap b], bm_bit b i]"
      unfolding split using some(4) by simp
    have "bm_cap b - nat (int k + 1) \<le> n" using Suc.prems some by linarith
    then have "bp_iter_drain n b (int k) = Some [int i. i \<leftarrow> [Suc k..<bm_cap b], bm_bit b i]"
      using Suc.IH[of "int k"] by (simp add: nat_add_distrib)
    then show ?thesis unfolding list using r(1) some(1) by (simp add: bp_iter_has_next_def bp_iter_next_def)
  qed
qed

section \<open>Concrete headers for the witnesses\<close>

definition demo_header :: pool_header where
  "demo_header = \<lparr>fh = create_file_header 7, hdr_lsn = 0, hdr_dirty = False, hlog_kind = DISK_LOG,
     hcur_lsn = 0, hwal = []\<rparr>"

lemma create_file_header_ok: "hdr_ok (create_file_header n)" "live_pages (create_file_header n) = {0}"
proof -
  let ?h = "create_file_header n"
  have bit: "bm_bit (file_bitmap ?h) 0"
    by (simp add: bm_bit_def file_bitmap_def create_file_header_def)
  have "used_below (bm_bit (file_bitmap ?h)) 1 = {0}" using bit by (auto simp: used_below_def)
  then have "bm.used (file_bitmap ?h) = 1"
    by (simp add: bm.used_def bm_cap_def) (simp add: file_bitmap_def create_file_header_def)
  then show "hdr_ok ?h"
    using bit by (simp add: hdr_ok_def create_file_header_def FH_BITMAP_BYTES_eq)
  show "live_pages ?h = {0}"
    using bit by (auto simp: live_pages_def create_file_header_def)
qed

lemma demo_header_ok:
  "hdr_ok (fh demo_header)" "allocated_pages (fh demo_header) < 8 * FH_BITMAP_BYTES" "live_pages (fh demo_header) = {0}"
  "page_count (fh demo_header) = 1"
  using create_file_header_ok[of 7] by (simp_all add: demo_header_def create_file_header_def layout_simps)

text \<open>A file in which every page that the bitmap can describe is allocated.\<close>

definition full_header :: pool_header where
  "full_header = demo_header\<lparr>fh := \<lparr>buffer_pool_id = 7, page_count = 65312, allocated_pages = 65312,
     fh_bitmap = replicate 8164 (-1)\<rparr>\<rparr>"

lemma full_header_ok: "hdr_ok (fh full_header)"
proof -
  have bit: "bm_bit (file_bitmap (fh full_header)) i" if "i < 65312" for i
  proof -
    have "i div 8 < 8164" using that by (simp add: less_mult_imp_div_less)
    then show ?thesis by (simp add: bm_bit_def file_bitmap_def full_header_def)
  qed
  have cap: "bm_cap (file_bitmap (fh full_header)) = 65312"
    by (simp add: bm_cap_def file_bitmap_def full_header_def)
  have "bm.used (file_bitmap (fh full_header)) = 65312"
    using bm.used_full_iff[of "file_bitmap (fh full_header)"] bit cap by simp
  moreover have "fh full_header = \<lparr>buffer_pool_id = 7, page_count = 65312, allocated_pages = 65312,
     fh_bitmap = replicate 8164 (-1)\<rparr>" by (simp add: full_header_def)
  ultimately show ?thesis
    using bit[of 0] by (simp add: hdr_ok_def FH_BITMAP_BYTES_eq)
qed

section \<open>Properties\<close>

text \<open>
  C28. Allocating a page in a well-formed file that has room returns a page that was not allocated: a
  free page below the page count if there is one, else the page at the end.  Exactly that page
  becomes allocated, and the header stays well-formed (its counter is the number of set bits).
\<close>

theorem header_allocate_correct:
  assumes "hdr_ok (fh s)" "allocated_pages (fh s) < 8 * FH_BITMAP_BYTES"
  shows "\<exists>p s'. header_allocate s = Some (SUCCESS, Some p, s') \<and> 0 < p \<and> p \<le> page_count (fh s) \<and>
    p \<notin> live_pages (fh s) \<and> live_pages (fh s') = insert p (live_pages (fh s)) \<and> hdr_ok (fh s') \<and>
    (p = page_count (fh s) \<longleftrightarrow> live_pages (fh s) = {0..<page_count (fh s)}) \<and>
    page_count (fh s') = max (page_count (fh s)) (p + 1)"
  using assms
proof (cases rule: header_allocate_cases)
  case (reuse i)
  then show ?thesis
    using put_page_ok[OF assms(1), of i True] not_live_bit[of i "fh s"]
    by (intro exI[of _ "int i"]) (auto simp: put_page_def)
next
  case fresh
  have "live_pages (fh s) = {0..<page_count (fh s)}" using fresh(1) by (auto simp: live_pages_def)
  then show ?thesis
    using fresh push_page_ok[OF assms(1)] hdr_ok_facts[OF assms(1)]
    by (intro exI[of _ "page_count (fh s)"]) auto
qed

theorem header_allocate_correct_witness:
  "\<exists>s'. header_allocate demo_header = Some (SUCCESS, Some 1, s') \<and> live_pages (fh s') = {0, 1}"
  using header_allocate_correct[OF demo_header_ok(1,2)] demo_header_ok(3,4) by force

text \<open>
  Disposing of an allocated page other than the header page frees exactly that page and keeps the
  header well-formed; disposing of page 0 is refused with INTERNAL and changes nothing.
\<close>

theorem header_dispose_correct:
  assumes "hdr_ok (fh s)" "p \<in> live_pages (fh s)"
  shows "if p = 0 then header_dispose p s = Some (INTERNAL, s)
    else \<exists>s'. header_dispose p s = Some (SUCCESS, s') \<and> hdr_ok (fh s') \<and> live_pages (fh s') = live_pages (fh s) - {p}"
proof (cases "p = 0")
  case False
  then show ?thesis using header_dispose_eq[OF assms False] by simp
qed (simp add: header_dispose_def)

theorem header_dispose_correct_witness:
  "header_dispose 0 demo_header = Some (INTERNAL, demo_header)"
  using header_dispose_correct[OF demo_header_ok(1), of 0] demo_header_ok(3) by simp

text \<open>
  C29. Crash recovery of the allocation state of a file: replaying the complete log of the file on the
  header page as it was flushed at any moment rebuilds the page count, the counter and the bitmap.
\<close>

theorem header_recovery:
  assumes "hdr_ok (fh s0)" "hlog_kind s0 = DISK_LOG" "hwal s0 = []" "0 \<le> hcur_lsn s0" "hdr_lsn s0 \<le> hcur_lsn s0"
    and "header_step\<^sup>*\<^sup>* s0 flushed" "header_step\<^sup>*\<^sup>* flushed s1"
    and "fh img = fh flushed" "hdr_lsn img = hdr_lsn flushed"
  shows "\<exists>q. replay_list bp_replay (hwal s1) img = Some (SUCCESS, q) \<and> fh q = fh s1"
  by (rule header_log.recovery[OF _ assms(6-9)])
    (use assms in \<open>simp add: header_log.log_ok_def disk_header_def\<close>)

theorem header_recovery_witness:
  "\<exists>s1 q. header_step demo_header s1 \<and> live_pages (fh s1) = {0, 1} \<and>
     replay_list bp_replay (hwal s1) demo_header = Some (SUCCESS, q) \<and> fh q = fh s1"
proof -
  obtain p s1 where s1: "header_allocate demo_header = Some (SUCCESS, Some p, s1)" "live_pages (fh s1) = {0, 1}"
    using demo_header_ok push_page_ok(2)[OF demo_header_ok(1)]
    by (cases rule: header_allocate_cases[OF demo_header_ok(1,2)]) (auto simp: layout_simps)
  then have st: "header_step demo_header s1" by (auto intro: header_step.allocate)
  have "hlog_kind demo_header = DISK_LOG" "hwal demo_header = []" "0 \<le> hcur_lsn demo_header"
      "hdr_lsn demo_header \<le> hcur_lsn demo_header" by (simp_all add: demo_header_def)
  then show ?thesis
    using header_recovery[OF demo_header_ok(1) _ _ _ _ rtranclp.rtrancl_refl r_into_rtranclp[of header_step, OF st] refl refl]
      st s1(2) by blast
qed

text \<open>
  The limit \<open>MAX_PAGE_NUM\<close> is too large: in a well-formed file all of whose 65312 describable pages
  are allocated, the page count is still below the limit, and \<open>allocate_page\<close> writes the bit of the next
  page behind the end of the header page (undefined behaviour) instead of returning an error.
\<close>

theorem page_limit_overflow:
  assumes "hdr_ok (fh s)" "allocated_pages (fh s) = 8 * FH_BITMAP_BYTES"
  shows "page_count (fh s) < MAX_PAGE_NUM \<and> header_allocate s = None"
  using header_allocate_no_room[OF assms(1)] assms(2) by (simp add: layout_simps)

theorem page_limit_overflow_witness: "header_allocate full_header = None"
proof -
  have "allocated_pages (fh full_header) = 8 * FH_BITMAP_BYTES" by (simp add: full_header_def layout_simps)
  then show ?thesis using page_limit_overflow[OF full_header_ok] by simp
qed

text \<open>
  Iterating over the pages of a file from page 1 ends after at most one call per page and yields
  the allocated pages other than the header page, in ascending order.
\<close>

theorem page_iteration:
  assumes "hdr_ok h"
  shows "bp_iter_drain (nat (page_count h)) (file_bitmap h) (bp_iter_init 1) =
    Some [p. p \<leftarrow> [1..page_count h - 1], p \<in> live_pages h]"
proof -
  note F = hdr_ok_facts[OF assms]
  have "[int i. i \<leftarrow> [Suc 0..<nat (page_count h)], bm_bit (file_bitmap h) i] =
      [p. p \<leftarrow> map int [Suc 0..<nat (page_count h)], p \<in> live_pages h]"
    by (rule arg_cong[where f = concat]) (auto simp: live_pages_def)
  also have "map int [Suc 0..<nat (page_count h)] = [1..page_count h - 1]"
    by (rule nth_equalityI) (auto simp: nth_upto)
  finally show ?thesis
    using bp_iter_drain_from[OF F(2), of 0 "nat (page_count h)"] F(3) by (simp add: bp_iter_init_def)
qed

theorem page_iteration_witness:
  "bp_iter_drain 1 (file_bitmap (create_file_header 7)) 0 = Some []"
  using page_iteration[OF create_file_header_ok(1)[of 7]] by (simp add: create_file_header_def bp_iter_init_def)

end
