(* ===== verification/Record_File.thy ===== *)
theory Record_File
  imports Record_Page_Correct Page_Alloc
begin

text \<open>
  The record file of a table: \<open>RecordFileHandler\<close> and \<open>RecordFileScanner\<close> of
  src/src/observer/storage/record/record_manager.cpp, in row format, on top of the page operations of
  \<open>Record_Page\<close> and the page allocation of \<open>Page_Alloc\<close>.  A record file is a heap of pages; the
  handler keeps the set of pages that may have a free slot.
\<close>

section \<open>State\<close>

text \<open>
  The allocation header of the file (its \<open>hcur_lsn\<close> is the position of the log shared by all pages), the
  pages as the buffer pool presents them, the length of a record (\<open>TableMeta::record_size\<close>, the argument
  \<open>record_size\<close> of every insertion) and \<open>free_pages_\<close>.  The latter is an \<open>unordered_set\<close>: the list is its
  order of iteration, about which the theorems assume nothing.
\<close>

record rec_file =
  rf_hdr :: pool_header
  rf_pages :: "PageNum \<rightharpoonup> rec_page"
  rf_size :: int
  free_pages :: "PageNum list"

text \<open>\<open>free_pages_.insert\<close>.\<close>

definition add_free_page :: "PageNum \<Rightarrow> rec_file \<Rightarrow> rec_file" where
  "add_free_page p f = f\<lparr>free_pages := List.insert p (free_pages f)\<rparr>"

text \<open>
  \<open>RecordPageHandler::init\<close>: \<open>opened\<close> is the page the handler has open.  \<open>get_this_page\<close> of a page
  that the file does not have fails with IOERR_READ.  Page 0 is the file header; reading it as a record
  page is not defined.
\<close>

definition page_handler_init ::
    "PageNum option \<Rightarrow> rec_file \<Rightarrow> PageNum \<Rightarrow> read_write_mode \<Rightarrow> (rc \<times> rec_page option) option" where
  "page_handler_init opened f p mode =
     (if opened = Some p then Some (RECORD_OPENNED, None)
      else if p = BP_HEADER_PAGE then None
      else case rf_pages f p of
        None \<Rightarrow> Some (IOERR_READ, None)
      | Some pg \<Rightarrow> Some (SUCCESS, Some (pg\<lparr>rw_mode := mode, log_kind := hlog_kind (rf_hdr f),
                                           cur_lsn := hcur_lsn (rf_hdr f)\<rparr>)))"

text \<open>
  The changes a handler makes to its frame are changes of the file, and the LSNs it took are taken.
\<close>

definition store_page :: "rec_page \<Rightarrow> rec_file \<Rightarrow> rec_file" where
  "store_page pg f = f\<lparr>rf_pages := (rf_pages f)(pg_num pg \<mapsto> pg),
     rf_hdr := (rf_hdr f)\<lparr>hcur_lsn := cur_lsn pg\<rparr>\<rparr>"

text \<open>\<open>recover_init\<close> additionally marks the page as allocated; the log handler is not set up.\<close>

definition page_handler_recover_init ::
    "PageNum option \<Rightarrow> rec_file \<Rightarrow> PageNum \<Rightarrow> (rc \<times> rec_page option \<times> rec_file) option" where
  "page_handler_recover_init opened f p =
     (if opened \<noteq> None then Some (RECORD_OPENNED, None, f)
      else if p = BP_HEADER_PAGE then None
      else case rf_pages f p of
        None \<Rightarrow> Some (IOERR_READ, None, f)
      | Some pg \<Rightarrow> do {
          (_, hd') \<leftarrow> recover_page p (rf_hdr f);
          Some (SUCCESS, Some (pg\<lparr>rw_mode := READ_WRITE, cur_lsn := hcur_lsn hd'\<rparr>), f\<lparr>rf_hdr := hd'\<rparr>)
        })"

section \<open>Opening\<close>

text \<open>
  The loop of \<open>init_free_pages\<close> over the pages of the file, with fuel for the calls of \<open>next\<close>.
\<close>

fun free_pages_loop :: "nat \<Rightarrow> PageNum \<Rightarrow> rec_file \<Rightarrow> (rc \<times> rec_file) option" where
  "free_pages_loop n cur f = do {
     more \<leftarrow> bp_iter_has_next (file_bitmap (fh (rf_hdr f))) cur;
     if \<not> more then Some (SUCCESS, f)
     else case n of
       0 \<Rightarrow> None
     | Suc m \<Rightarrow> do {
         (p, cur') \<leftarrow> bp_iter_next (file_bitmap (fh (rf_hdr f))) cur;
         (r, got) \<leftarrow> page_handler_init None f p READ_ONLY;
         case got of
           None \<Rightarrow> Some (r, f)
         | Some pg \<Rightarrow> free_pages_loop m cur' (if is_full pg then f else add_free_page p f)
       }
   }"

declare free_pages_loop.simps [simp del]

definition init_free_pages :: "rec_file \<Rightarrow> (rc \<times> rec_file) option" where
  "init_free_pages f =
     free_pages_loop (nat (page_count (fh (rf_hdr f)))) (bp_iter_init 1) f"

text \<open>\<open>RecordFileHandler::init\<close> returns SUCCESS whatever \<open>init_free_pages\<close> returned.\<close>

definition file_handler_init :: "rec_file \<Rightarrow> (rc \<times> rec_file) option" where
  "file_handler_init f = do { (_, f') \<leftarrow> init_free_pages f; Some (SUCCESS, f') }"

definition file_handler_close :: "rec_file \<Rightarrow> rec_file" where
  "file_handler_close f = f\<lparr>free_pages := []\<rparr>"

section \<open>Operations\<close>

text \<open>
  The search for a page that is not full.  Full pages are dropped from the set on the way; the result
  carries the code of a failed \<open>init\<close>, the page that was found (open for writing) and the remaining set.
\<close>

fun find_room :: "rec_file \<Rightarrow> PageNum list \<Rightarrow> (rc \<times> rec_page option \<times> PageNum list) option" where
  "find_room f [] = Some (SUCCESS, None, [])"
| "find_room f (p # ps) = do {
     (r, got) \<leftarrow> page_handler_init None f p READ_WRITE;
     case got of
       None \<Rightarrow> Some (r, None, p # ps)
     | Some pg \<Rightarrow> if \<not> is_full pg then Some (SUCCESS, Some pg, p # ps) else find_room f ps
   }"

text \<open>
  A new page: \<open>allocate_page\<close> and \<open>init_empty_page\<close>.  The frame of a reused page still has its old bytes,
  that of an appended page is cleared.
\<close>

definition fresh_frame :: "PageNum \<Rightarrow> rec_file \<Rightarrow> rec_page" where
  "fresh_frame p f =
     (case rf_pages f p of
        Some pg \<Rightarrow> pg
      | None \<Rightarrow> \<lparr>pg_num = p, rw_mode = READ_WRITE, hdr = \<lparr>record_num = 0, column_num = 0,
            record_real_size = 0, record_size = 0, record_capacity = 0, col_idx_offset = 0, data_offset = 0\<rparr>,
          pdata = replicate (nat BP_PAGE_DATA_SIZE) 0, col_index = [], frame_lsn = 0,
          log_kind = hlog_kind (rf_hdr f), cur_lsn = hcur_lsn (rf_hdr f), wal = []\<rparr>)"

definition new_page :: "rec_file \<Rightarrow> (rc \<times> rec_page option \<times> rec_file) option" where
  "new_page f = do {
     (r, found, hd') \<leftarrow> header_allocate (rf_hdr f);
     case found of
       None \<Rightarrow> Some (r, None, f\<lparr>rf_hdr := hd'\<rparr>)
     | Some p \<Rightarrow> do {
         let f1 = f\<lparr>rf_hdr := hd', rf_pages := (rf_pages f)(p \<mapsto> fresh_frame p f)\<rparr>;
         (r1, got) \<leftarrow> page_handler_init None f1 p READ_WRITE;
         case got of
           None \<Rightarrow> Some (r1, None, f1)
         | Some pg \<Rightarrow> do {
             (r2, pg2) \<leftarrow> init_empty_page ROW_FORMAT pg (rf_size f) None;
             Some (r2, Some pg2, add_free_page p (store_page pg2 f1))
           }
       }
   }"

definition file_insert_record :: "rec_file \<Rightarrow> byte list \<Rightarrow> (rc \<times> rid option \<times> rec_file) option" where
  "file_insert_record f d = do {
     (r, found, ps) \<leftarrow> find_room f (free_pages f);
     let f1 = f\<lparr>free_pages := ps\<rparr>;
     if OB_FAIL r then Some (r, None, f1)
     else do {
       (r1, found1, f2) \<leftarrow> (case found of Some pg \<Rightarrow> Some (SUCCESS, Some pg, f1) | None \<Rightarrow> new_page f1);
       case found1 of
         None \<Rightarrow> Some (r1, None, f2)
       | Some pg \<Rightarrow> do {
           (r2, rid, pg2) \<leftarrow> insert_record pg d;
           Some (r2, rid, store_page pg2 f2)
         }
     }
   }"

definition file_recover_insert_record :: "rec_file \<Rightarrow> byte list \<Rightarrow> rid \<Rightarrow> (rc \<times> rec_file) option" where
  "file_recover_insert_record f d r = do {
     (c, got, f1) \<leftarrow> page_handler_recover_init None f (page_num r);
     case got of
       None \<Rightarrow> Some (c, f1)
     | Some pg \<Rightarrow> do {
         (c1, pg1) \<leftarrow> recover_insert_record pg d r;
         Some (c1, store_page pg1 f1)
       }
   }"

definition file_delete_record :: "rec_file \<Rightarrow> rid \<Rightarrow> (rc \<times> rec_file) option" where
  "file_delete_record f r = do {
     (c, got) \<leftarrow> page_handler_init None f (page_num r) READ_WRITE;
     case got of
       None \<Rightarrow> Some (c, f)
     | Some pg \<Rightarrow> do {
         (c1, pg1) \<leftarrow> delete_record pg r;
         let f1 = store_page pg1 f;
         Some (c1, if OB_SUCC c1 then add_free_page (page_num r) f1 else f1)
       }
   }"

definition file_get_record :: "rec_file \<Rightarrow> rid \<Rightarrow> (rc \<times> (rid \<times> byte list) option) option" where
  "file_get_record f r = do {
     (c, got) \<leftarrow> page_handler_init None f (page_num r) READ_WRITE;
     case got of
       None \<Rightarrow> Some (c, None)
     | Some pg \<Rightarrow> get_record pg r
   }"

text \<open>
  \<open>visit_record\<close>: the updater gets a copy of the record and says whether it changed it; then the copy
  is written back.
\<close>

definition file_visit_record ::
    "rec_file \<Rightarrow> rid \<Rightarrow> (rid \<times> byte list \<Rightarrow> bool \<times> byte list) \<Rightarrow> (rc \<times> rec_file) option" where
  "file_visit_record f r updater = do {
     (c, got) \<leftarrow> page_handler_init None f (page_num r) READ_WRITE;
     case got of
       None \<Rightarrow> Some (c, f)
     | Some pg \<Rightarrow> do {
         (c1, rec0) \<leftarrow> get_record pg r;
         case rec0 of
           None \<Rightarrow> Some (c1, f)
         | Some (_, d) \<Rightarrow>
             (let (updated, d') = updater (r, d)
              in if updated then do {
                   (c2, pg2) \<leftarrow> update_record pg r d';
                   Some (c2, store_page pg2 f)
                 } else Some (c1, f))
       }
   }"

section \<open>The scanner\<close>

text \<open>
  \<open>RecordFileScanner\<close>: the position of the page iterator, the page the handler has open, the next slot of
  the record iterator (\<open>None\<close>: the iterator has not been set up) and \<open>next_record_\<close>.
\<close>

record scanner =
  sc_mode :: read_write_mode
  sc_filter :: "(rid \<times> byte list \<Rightarrow> bool) option"
  sc_trx :: "(rid \<times> byte list \<Rightarrow> rc) option"
  sc_cur :: PageNum
  sc_page :: "rec_page option"
  sc_slot :: "SlotNum option"
  next_record :: "rid \<times> byte list"

text \<open>
  \<open>sc_filter\<close> is the condition filter and \<open>sc_trx\<close> the call \<open>trx_->visit_record(table_, record, mode)\<close>; both
  may be null.
\<close>

definition open_scan ::
    "read_write_mode \<Rightarrow> (rid \<times> byte list \<Rightarrow> bool) option \<Rightarrow> (rid \<times> byte list \<Rightarrow> rc) option \<Rightarrow> scanner" where
  "open_scan mode flt trx = \<lparr>sc_mode = mode, sc_filter = flt, sc_trx = trx, sc_cur = bp_iter_init 1,
     sc_page = None, sc_slot = None, next_record = (\<lparr>page_num = -1, slot_num = -1\<rparr>, [])\<rparr>"

definition close_scan :: "scanner \<Rightarrow> scanner" where
  "close_scan sc = sc\<lparr>sc_filter := None, sc_page := None\<rparr>"

definition no_record :: "scanner \<Rightarrow> scanner" where
  "no_record sc = sc\<lparr>next_record := ((fst (next_record sc))\<lparr>slot_num := -1\<rparr>, snd (next_record sc))\<rparr>"

text \<open>
  The loop over the open page; the fuel counts the calls of \<open>next\<close> of the record iterator.
\<close>

fun fetch_in_page :: "nat \<Rightarrow> rec_page \<Rightarrow> SlotNum \<Rightarrow> scanner \<Rightarrow> (rc \<times> scanner) option" where
  "fetch_in_page n pg s sc =
     (if \<not> iter_has_next s then Some (RECORD_EOF, no_record (sc\<lparr>sc_slot := Some s\<rparr>))
      else case n of
        0 \<Rightarrow> None
      | Suc m \<Rightarrow> do {
          (r, rec1, s') \<leftarrow> iter_next pg s (next_record sc);
          let sc1 = sc\<lparr>sc_slot := Some s', next_record := rec1\<rparr>;
          if r \<noteq> SUCCESS then Some (r, sc1)
          else if (case sc_filter sc of Some flt \<Rightarrow> \<not> flt rec1 | None \<Rightarrow> False)
          then fetch_in_page m pg s' sc1
          else case sc_trx sc of
            None \<Rightarrow> Some (r, sc1)
          | Some visit \<Rightarrow> if visit rec1 = RECORD_INVISIBLE then fetch_in_page m pg s' sc1
                          else Some (visit rec1, sc1)
        })"

declare fetch_in_page.simps [simp del]

definition fetch_next_record_in_page :: "scanner \<Rightarrow> (rc \<times> scanner) option" where
  "fetch_next_record_in_page sc =
     (case sc_slot sc of
        None \<Rightarrow> None
      | Some s \<Rightarrow>
          if \<not> iter_has_next s then Some (RECORD_EOF, no_record sc)
          else case sc_page sc of
            None \<Rightarrow> None
          | Some pg \<Rightarrow> fetch_in_page (pg_cap pg) pg s sc)"

text \<open>The loop over the remaining pages; the fuel counts the calls of \<open>next\<close> of the page iterator.\<close>

fun fetch_pages :: "nat \<Rightarrow> rec_file \<Rightarrow> scanner \<Rightarrow> (rc \<times> scanner) option" where
  "fetch_pages n f sc = do {
     more \<leftarrow> bp_iter_has_next (file_bitmap (fh (rf_hdr f))) (sc_cur sc);
     if \<not> more then Some (RECORD_EOF, (no_record sc)\<lparr>sc_page := None\<rparr>)
     else case n of
       0 \<Rightarrow> None
     | Suc m \<Rightarrow> do {
         (p, cur') \<leftarrow> bp_iter_next (file_bitmap (fh (rf_hdr f))) (sc_cur sc);
         let sc1 = sc\<lparr>sc_cur := cur', sc_page := None\<rparr>;
         (r, got) \<leftarrow> page_handler_init None f p (sc_mode sc);
         case got of
           None \<Rightarrow> Some (r, sc1)
         | Some pg \<Rightarrow> do {
             s \<leftarrow> iter_init pg 0;
             (r1, sc2) \<leftarrow> fetch_next_record_in_page (sc1\<lparr>sc_page := Some pg, sc_slot := Some s\<rparr>);
             if r1 \<noteq> RECORD_EOF then Some (r1, sc2) else fetch_pages m f sc2
           }
       }
   }"

declare fetch_pages.simps [simp del]

definition fetch_next_record :: "rec_file \<Rightarrow> scanner \<Rightarrow> (rc \<times> scanner) option" where
  "fetch_next_record f sc = do {
     (r, sc1) \<leftarrow> (if sc_slot sc \<noteq> None then fetch_next_record_in_page sc else Some (RECORD_EOF, sc));
     if r \<noteq> RECORD_EOF then Some (r, sc1)
     else fetch_pages (nat (page_count (fh (rf_hdr f)))) f sc1
   }"

definition scan_next :: "rec_file \<Rightarrow> scanner \<Rightarrow> (rc \<times> (rid \<times> byte list) option \<times> scanner) option" where
  "scan_next f sc = do {
     (r, sc1) \<leftarrow> fetch_next_record f sc;
     Some (if OB_FAIL r then (r, None, sc1) else (SUCCESS, Some (next_record sc1), sc1))
   }"

definition update_current :: "rec_file \<Rightarrow> scanner \<Rightarrow> rid \<times> byte list \<Rightarrow> (rc \<times> scanner \<times> rec_file) option" where
  "update_current f sc rec0 =
     (if fst rec0 \<noteq> fst (next_record sc) then Some (INVALID_ARGUMENT, sc, f)
      else case sc_page sc of
        None \<Rightarrow> None
      | Some pg \<Rightarrow> do {
          (r, pg1) \<leftarrow> update_record pg (fst rec0) (snd rec0);
          Some (r, sc\<lparr>sc_page := Some pg1\<rparr>, store_page pg1 f)
        })"

text \<open>The loop of the table scan over \<open>next\<close> until RECORD_EOF, with fuel for the records returned.\<close>

fun scan_all :: "nat \<Rightarrow> rec_file \<Rightarrow> scanner \<Rightarrow> (rc \<times> (rid \<times> byte list) list) option" where
  "scan_all n f sc = do {
     (r, got, sc1) \<leftarrow> scan_next f sc;
     case got of
       None \<Rightarrow> Some (r, [])
     | Some x \<Rightarrow> (case n of
           0 \<Rightarrow> None
         | Suc m \<Rightarrow> do { (r1, xs) \<leftarrow> scan_all m f sc1; Some (r1, x # xs) })
   }"

declare scan_all.simps [simp del]

section \<open>Invariant and abstract view\<close>

text \<open>The data pages of the file.\<close>

definition data_pages :: "rec_file \<Rightarrow> PageNum set" where
  "data_pages f = live_pages (fh (rf_hdr f)) - {0}"

text \<open>
  Every data page is a well-formed record page for records of the file's length; \<open>free_pages\<close> are
  data pages, and every data page with an unused slot is among them.
\<close>

definition rf_page_ok :: "rec_file \<Rightarrow> PageNum \<Rightarrow> bool" where
  "rf_page_ok f p \<longleftrightarrow> (\<exists>pg. rf_pages f p = Some pg \<and> page_ok pg \<and> record_real_size (hdr pg) = rf_size f)"

definition rf_ok :: "rec_file \<Rightarrow> bool" where
  "rf_ok f \<longleftrightarrow> hdr_ok (fh (rf_hdr f)) \<and> 0 < rf_size f \<and>
     (\<forall>p pg. rf_pages f p = Some pg \<longrightarrow> pg_num pg = p \<and> length (pdata pg) = 8176) \<and>
     (\<forall>p\<in>data_pages f. rf_page_ok f p)"

definition free_ok :: "rec_file \<Rightarrow> bool" where
  "free_ok f \<longleftrightarrow> set (free_pages f) \<subseteq> data_pages f \<and>
     (\<forall>p\<in>data_pages f. \<not> is_full (the (rf_pages f p)) \<longrightarrow> p \<in> set (free_pages f))"

definition rf_inv :: "rec_file \<Rightarrow> bool" where
  "rf_inv f \<longleftrightarrow> rf_ok f \<and> free_ok f"

text \<open>The content of the file: the records by identifier.\<close>

definition rf_records :: "rec_file \<Rightarrow> rid \<rightharpoonup> byte list" where
  "rf_records f r =
     (if page_num r \<in> data_pages f \<and> 0 \<le> slot_num r
      then records (the (rf_pages f (page_num r))) (nat (slot_num r)) else None)"

definition rf_fits :: "rec_file \<Rightarrow> byte list \<Rightarrow> bool" where
  "rf_fits f d \<longleftrightarrow> int (length d) = rf_size f"

end
