(* ===== verification/Record_File_Correct.thy ===== *)
theory Record_File_Correct
  imports Record_File
begin

text \<open>
  What the record file promises, over its abstract content \<open>rf_records\<close>: the interface \<open>record_store\<close>, which
  a page provides too, its interpretation on the file, the correctness of each operation, the reuse of
  free slots and the scan.
\<close>

section \<open>The interface of a store of records\<close>

text \<open>
  What a table and a transaction rely on: a partial map from identifiers to records and operations that
  change the record of one identifier.  A client names only identifiers it has seen (\<open>valid\<close>).
\<close>

locale record_store =
  fixes inv :: "'s \<Rightarrow> bool"
    and fits :: "'s \<Rightarrow> 'd \<Rightarrow> bool"
    and valid :: "'s \<Rightarrow> 'r \<Rightarrow> bool"
    and view :: "'s \<Rightarrow> 'r \<rightharpoonup> 'd"
    and ins :: "'s \<Rightarrow> 'd \<Rightarrow> ('r \<times> 's) option"
    and del :: "'s \<Rightarrow> 'r \<Rightarrow> 's option"
    and upd :: "'s \<Rightarrow> 'r \<Rightarrow> 'd \<Rightarrow> 's option"
  assumes view_valid: "view s r = Some d \<Longrightarrow> valid s r"
    and ins_law: "inv s \<Longrightarrow> fits s d \<Longrightarrow> ins s d = Some (r, t) \<Longrightarrow>
      inv t \<and> fits t = fits s \<and> (\<forall>x. valid s x \<longrightarrow> valid t x) \<and> view s r = None \<and> view t = (view s)(r \<mapsto> d)"
    and del_law: "inv s \<Longrightarrow> valid s r \<Longrightarrow> (case del s r of
      None \<Rightarrow> view s r = None
    | Some t \<Rightarrow> view s r \<noteq> None \<and> inv t \<and> fits t = fits s \<and> valid t = valid s \<and> view t = (view s)(r := None))"
    and upd_law: "inv s \<Longrightarrow> valid s r \<Longrightarrow> fits s d \<Longrightarrow> (case upd s r d of
      None \<Rightarrow> view s r = None
    | Some t \<Rightarrow> view s r \<noteq> None \<and> inv t \<and> fits t = fits s \<and> valid t = valid s \<and> view t = (view s)(r \<mapsto> d))"
begin

text \<open>Inserting and then deleting gives back the old content; the inserted record can be updated.\<close>

lemma ins_del:
  assumes "inv s" "fits s d" "ins s d = Some (r, t)"
  shows "\<exists>u. del t r = Some u \<and> inv u \<and> view u = view s"
proof -
  note I = ins_law[OF assms]
  then have "valid t r" using view_valid[of t r d] by simp
  then show ?thesis using del_law[of t r] I by (auto split: option.splits)
qed

lemma ins_upd:
  assumes "inv s" "fits s d" "fits s d'" "ins s d = Some (r, t)"
  shows "\<exists>u. upd t r d' = Some u \<and> inv u \<and> view u = (view s)(r \<mapsto> d')"
proof -
  note I = ins_law[OF assms(1,2,4)]
  then have "valid t r" using view_valid[of t r d] by simp
  then show ?thesis using upd_law[of t r d'] I assms(3) by (auto split: option.splits)
qed

lemma del_reinsert:
  assumes "inv s" "valid s r" "del s r = Some t" "fits s d" "ins t d = Some (r', u)" "x \<noteq> r" "x \<noteq> r'"
  shows "view u x = view s x"
  using del_law[OF assms(1,2)] ins_law[of t d r' u] assms by simp

end

sublocale slotted_store \<subseteq> rows: record_store inv fits "\<lambda>p i. i < cap p" view ins del upd
proof (unfold_locales, goal_cases)
  case (1 s r d)
  then show ?case by (rule view_bounded)
next
  case (2 s d r t)
  then show ?case using ins_Some[of s d r t] by simp
next
  case (3 s r)
  then show ?case using del_None[of s r] del_Some[of s r "the (del s r)"] by (cases "del s r") simp_all
next
  case (4 s r d)
  then show ?case using upd_None[of s r d] upd_Some[of s r d "the (upd s r d)"] by (cases "upd s r d") simp_all
qed

section \<open>Opening and storing a page\<close>

definition opened :: "rec_file \<Rightarrow> PageNum \<Rightarrow> read_write_mode \<Rightarrow> rec_page" where
  "opened f p mode = (the (rf_pages f p))\<lparr>rw_mode := mode, log_kind := hlog_kind (rf_hdr f),
     cur_lsn := hcur_lsn (rf_hdr f)\<rparr>"

lemma rf_okD:
  assumes "rf_ok f"
  shows "hdr_ok (fh (rf_hdr f))" "0 < rf_size f"
    "rf_pages f p = Some pg \<Longrightarrow> pg_num pg = p" "rf_pages f p = Some pg \<Longrightarrow> length (pdata pg) = 8176"
    "p \<in> data_pages f \<Longrightarrow> rf_page_ok f p"
  using assms by (auto simp: rf_ok_def)

lemma opened_data_page:
  assumes "rf_ok f" "p \<in> data_pages f"
  shows "page_handler_init None f p mode = Some (SUCCESS, Some (opened f p mode))"
    "page_ok (opened f p mode)" "pg_num (opened f p mode) = p" "rw_mode (opened f p mode) = mode"
    "record_real_size (hdr (opened f p mode)) = rf_size f"
    "records (opened f p mode) = records (the (rf_pages f p))"
    "is_full (opened f p mode) = is_full (the (rf_pages f p))"
    "pg_cap (opened f p mode) = pg_cap (the (rf_pages f p))"
proof -
  obtain pg where pg: "rf_pages f p = Some pg" "page_ok pg" "record_real_size (hdr pg) = rf_size f"
    using rf_okD(5)[OF assms] by (auto simp: rf_page_ok_def)
  have q: "hdr (opened f p mode) = hdr pg" "pdata (opened f p mode) = pdata pg"
    using pg by (simp_all add: opened_def)
  have "p \<noteq> 0" using assms(2) by (simp add: data_pages_def)
  then show "page_handler_init None f p mode = Some (SUCCESS, Some (opened f p mode))"
    using pg by (simp add: page_handler_init_def opened_def)
  show "pg_num (opened f p mode) = p" using rf_okD(3)[OF assms(1) pg(1)] pg by (simp add: opened_def)
  show "rw_mode (opened f p mode) = mode" by (simp add: opened_def)
  show "page_ok (opened f p mode)" "records (opened f p mode) = records (the (rf_pages f p))"
    "is_full (opened f p mode) = is_full (the (rf_pages f p))"
    "record_real_size (hdr (opened f p mode)) = rf_size f"
    "pg_cap (opened f p mode) = pg_cap (the (rf_pages f p))"
    using page_content_cong[OF q] pg q by (simp_all add: is_full_def)
qed

lemma opened_inv:
  assumes "rf_ok f" "p \<in> data_pages f" "rf_fits f d"
  shows "page_inv (opened f p READ_WRITE)" "page_fits (opened f p READ_WRITE) d"
  using opened_data_page[OF assms(1,2), of READ_WRITE] assms(3) by (simp_all add: page_inv_def page_fits_def rf_fits_def)

lemma rf_records_page:
  "p \<in> data_pages f \<Longrightarrow> rf_records f \<lparr>page_num = p, slot_num = int i\<rparr> = records (the (rf_pages f p)) i"
  by (simp add: rf_records_def)

lemma is_full_iff:
  assumes "page_ok pg"
  shows "is_full pg \<longleftrightarrow> (\<forall>i<pg_cap pg. records pg i \<noteq> None)"
proof -
  note L = page_layout[OF assms]
  have "is_full pg \<longleftrightarrow> bm.used (page_bitmap pg) = bm_cap (page_bitmap pg)"
    using assms L(6,7) bm.used_le_cap[of "page_bitmap pg"] by (auto simp: is_full_def page_ok_def)
  also have "\<dots> \<longleftrightarrow> (\<forall>i<pg_cap pg. bm_bit (page_bitmap pg) i)"
    using bm.used_full_iff[of "page_bitmap pg"] L(6) by simp
  finally show ?thesis by (auto simp: records_def)
qed

lemma store_page_simps [simp]:
  "data_pages (store_page q f) = data_pages f" "rf_size (store_page q f) = rf_size f"
  "free_pages (store_page q f) = free_pages f" "fh (rf_hdr (store_page q f)) = fh (rf_hdr f)"
  "rf_pages (store_page q f) = (rf_pages f)(pg_num q \<mapsto> q)"
  by (simp_all add: store_page_def data_pages_def)

lemma add_free_page_simps [simp]:
  "data_pages (add_free_page p f) = data_pages f" "rf_size (add_free_page p f) = rf_size f"
  "set (free_pages (add_free_page p f)) = insert p (set (free_pages f))" "rf_hdr (add_free_page p f) = rf_hdr f"
  "rf_pages (add_free_page p f) = rf_pages f" "rf_records (add_free_page p f) = rf_records f"
  "rf_ok (add_free_page p f) = rf_ok f" "rf_fits (add_free_page p f) = rf_fits f"
  by (simp_all add: add_free_page_def data_pages_def rf_records_def fun_eq_iff rf_ok_def rf_page_ok_def rf_fits_def)

lemma store_page_ok:
  assumes "rf_ok f" "page_ok q" "record_real_size (hdr q) = rf_size f"
  shows "rf_ok (store_page q f)"
  using assms page_layout(1)[OF assms(2)] by (simp add: rf_ok_def rf_page_ok_def)

lemma store_page_records:
  assumes "pg_num q \<in> data_pages f" "i < pg_cap q \<or> v = None"
    and "records q = (records (the (rf_pages f (pg_num q))))(i := v)"
  shows "rf_records (store_page q f) = (rf_records f)(\<lparr>page_num = pg_num q, slot_num = int i\<rparr> := v)"
proof
  fix r :: rid
  show "rf_records (store_page q f) r = ((rf_records f)(\<lparr>page_num = pg_num q, slot_num = int i\<rparr> := v)) r"
    using assms(1,3) by (cases r) (auto simp: rf_records_def)
qed

lemma rf_fits_store [simp]: "rf_fits (store_page q f) = rf_fits f"
  by (simp add: rf_fits_def fun_eq_iff)

section \<open>The capacity of a page\<close>

lemma fix_record_capacity_pos:
  assumes "0 < rs" "1 \<le> cap" "off + rs \<le> BP_PAGE_DATA_SIZE"
    and "fix_record_capacity rs cap (off + cap * rs) = Some cap'"
  shows "1 \<le> cap'"
  using assms(2,4)
proof (induction "nat (cap - 1)" arbitrary: cap)
  case 0
  then show ?case using assms(3) by (simp add: fix_record_capacity.simps split: if_splits)
next
  case (Suc n)
  show ?case
  proof (cases "off + cap * rs > BP_PAGE_DATA_SIZE")
    case True
    have "fix_record_capacity rs cap (off + cap * rs) = fix_record_capacity rs (cap - 1) (off + (cap - 1) * rs)"
      using True assms(1) by (simp add: fix_record_capacity.simps[of rs cap] algebra_simps)
    moreover have "n = nat (cap - 1 - 1)" "1 \<le> cap - 1" using Suc.hyps(2) by linarith+
    ultimately show ?thesis using Suc.hyps(1)[of "cap - 1"] Suc.prems(2) by simp
  next
    case False
    then show ?thesis using Suc.prems by (simp add: fix_record_capacity.simps[of rs cap])
  qed
qed

text \<open>A page holds at least one record of up to 8144 bytes.\<close>

lemma row_capacity_pos:
  assumes "0 < rec_size" "rec_size \<le> 8144" "init_header rec_size 0 = Some h"
  shows "0 < record_capacity h"
proof -
  let ?rs = "align8 rec_size"
  let ?cap = "page_record_capacity BP_PAGE_DATA_SIZE ?rs 0"
  let ?off = "align8 (PAGE_HEADER_SIZE + page_bitmap_size ?cap)"
  have "1 \<le> (rec_size + 7) div 8" "(rec_size + 7) div 8 \<le> 1018" using assms(1,2) by linarith+
  then have rs: "8 \<le> ?rs" "?rs \<le> 8144" unfolding align8_eq by linarith+
  have cap: "?cap = 65176 div (8 * ?rs + 1)"
    by (simp add: page_record_capacity_def BP_PAGE_DATA_SIZE_eq PAGE_HEADER_SIZE_def Let_def)
  have one: "1 \<le> ?cap"
    unfolding cap using zdiv_mono2[of 65176 "8 * ?rs + 1" 65153] rs by simp
  have "?off + ?rs \<le> BP_PAGE_DATA_SIZE"
  proof (cases "?cap \<le> 32")
    case True
    then have "page_bitmap_size ?cap \<le> 4" unfolding page_bitmap_size_def by linarith
    then have "(28 + page_bitmap_size ?cap + 7) div 8 \<le> 4" by linarith
    then have "?off \<le> 32" by (simp add: align8_eq[of "28 + page_bitmap_size ?cap"] PAGE_HEADER_SIZE_def)
    then show ?thesis using rs by (simp add: BP_PAGE_DATA_SIZE_eq)
  next
    case False
    have "?cap * (8 * ?rs + 1) \<le> 65176" unfolding cap using rs div_mult_mod_eq[of 65176 "8 * ?rs + 1"]
      by (smt (verit) pos_mod_sign)
    moreover have "33 * (8 * ?rs + 1) \<le> ?cap * (8 * ?rs + 1)" using False rs by (intro mult_right_mono) auto
    ultimately have "33 * (8 * ?rs + 1) \<le> 65176" by (meson order_trans)
    then have small: "?rs \<le> 300" by (simp add: distrib_left)
    have "page_bitmap_size ?cap \<le> 126"
      using page_record_capacity_bounds(2)[of ?rs 0] rs unfolding page_bitmap_size_def by linarith
    then show ?thesis
      using small align8_bounds(2)[of "PAGE_HEADER_SIZE + page_bitmap_size ?cap"]
      by (simp add: BP_PAGE_DATA_SIZE_eq PAGE_HEADER_SIZE_def)
  qed
  moreover obtain c where c: "fix_record_capacity ?rs ?cap (?off + ?cap * ?rs) = Some c" "record_capacity h = c"
    using assms(3) by (auto simp: init_header_def Let_def bind_eq_Some_iff split: if_splits)
  ultimately have "1 \<le> c" using fix_record_capacity_pos[OF _ one _ c(1)] rs by linarith
  then show ?thesis using c(2) by simp
qed

section \<open>Finding a page\<close>

lemma find_room_cases:
  assumes "rf_ok f" "set ps \<subseteq> data_pages f"
  obtains (none) "find_room f ps = Some (SUCCESS, None, [])" "\<forall>p\<in>set ps. is_full (the (rf_pages f p))"
  | (found) p ps' where "find_room f ps = Some (SUCCESS, Some (opened f p READ_WRITE), ps')" "p \<in> data_pages f"
      "\<not> is_full (the (rf_pages f p))" "set ps' \<subseteq> set ps" "p \<in> set ps'"
      "\<forall>x\<in>set ps. x \<notin> set ps' \<longrightarrow> is_full (the (rf_pages f x))"
  using assms(2)
proof (induction ps arbitrary: thesis)
  case Nil
  then show ?case by simp
next
  case (Cons p ps)
  have p: "p \<in> data_pages f" using Cons.prems(3) by simp
  note O = opened_data_page[OF assms(1) p, of READ_WRITE]
  show ?case
  proof (cases "is_full (the (rf_pages f p))")
    case False
    then show ?thesis using Cons.prems(2)[of p "p # ps"] O p by simp
  next
    case True
    then have step: "find_room f (p # ps) = find_room f ps" using O by simp
    have sub: "set ps \<subseteq> data_pages f" using Cons.prems(3) by simp
    show ?thesis
    proof (rule Cons.IH[OF _ _ sub], goal_cases)
      case 1
      then show ?case using Cons.prems(1) step True by simp
    next
      case (2 q ps')
      then show ?case using Cons.prems(2)[of q ps'] step True by auto
    qed
  qed
qed

lemma new_page_room:
  assumes "rf_ok f" "hdr_room (rf_hdr f)"
  obtains p q f' h where "new_page f = Some (SUCCESS, Some q, f')" "p \<notin> data_pages f" "pg_num q = p"
    "data_pages f' = insert p (data_pages f)" "rf_ok f'" "rf_pages f' = (rf_pages f)(p \<mapsto> q)" "page_inv q"
    "records q = Map.empty" "record_real_size (hdr q) = rf_size f" "rf_size f' = rf_size f"
    "rf_records f' = rf_records f" "set (free_pages f') = insert p (set (free_pages f))"
    "hdr q = h" "init_header (rf_size f) 0 = Some h"
proof -
  note K = rf_okD[OF assms(1)]
  obtain p s' where a: "header_allocate (rf_hdr f) = Some (SUCCESS, Some p, s')" "0 < p"
      "p \<notin> live_pages (fh (rf_hdr f))" "live_pages (fh s') = insert p (live_pages (fh (rf_hdr f)))" "hdr_ok (fh s')"
    by (rule header_allocate_live[OF K(1)]) (use assms(2) in \<open>auto simp: hdr_room_def\<close>)
  let ?f1 = "f\<lparr>rf_hdr := s', rf_pages := (rf_pages f)(p \<mapsto> fresh_frame p f)\<rparr>"
  let ?pg = "(fresh_frame p f)\<lparr>rw_mode := READ_WRITE, log_kind := hlog_kind s', cur_lsn := hcur_lsn s'\<rparr>"
  have len: "length (pdata ?pg) = 8176" and num: "pg_num ?pg = p"
    using K(3,4)[of p] by (auto simp: fresh_frame_def layout_simps split: option.splits)
  obtain q h where q: "init_empty_page ROW_FORMAT ?pg (rf_size f) None = Some (SUCCESS, q)" "page_ok q"
      "rw_mode q = READ_WRITE" "pg_num q = p" "records q = Map.empty" "record_real_size (hdr q) = rf_size f"
      "hdr q = h" "init_header (rf_size f) 0 = Some h"
    by (rule init_empty_page_page[OF len K(2), of None ROW_FORMAT]) (use num in auto)
  let ?f2 = "add_free_page p (store_page q ?f1)"
  have new: "new_page f = Some (SUCCESS, Some q, ?f2)"
    using a(1,2) q(1) by (simp add: new_page_def page_handler_init_def Let_def)
  have dp: "data_pages ?f2 = insert p (data_pages f)"
    using a(2,4) by (auto simp: data_pages_def)
  have pg: "rf_pages ?f2 = (rf_pages f)(p \<mapsto> q)" using q(4) by simp
  have "rf_ok ?f2"
    using assms(1) a(5) q page_layout(1)[OF q(2)] dp pg
    by (auto simp: rf_ok_def rf_page_ok_def)
  moreover have "rf_records ?f2 = rf_records f"
    unfolding rf_records_def dp pg using a(3) q(5) by (auto simp: fun_eq_iff data_pages_def)
  moreover have "page_inv q" using q by (simp add: page_inv_def)
  ultimately show thesis
    using that[OF new _ q(4) dp _ pg] q a(3) by (simp add: data_pages_def)
qed

section \<open>Insertion\<close>

definition rf_valid :: "rec_file \<Rightarrow> rid \<Rightarrow> bool" where
  "rf_valid f r \<longleftrightarrow> page_num r \<in> data_pages f \<and> 0 \<le> slot_num r \<and>
     nat (slot_num r) < pg_cap (the (rf_pages f (page_num r)))"

lemma insert_into_page:
  assumes "rf_ok g" "rf_fits g d" "pg_num q \<in> data_pages g" "page_inv q"
    and "records q = records (the (rf_pages g (pg_num q)))" "record_real_size (hdr q) = rf_size g" "\<not> is_full q"
  obtains i q' where "insert_record q d = Some (SUCCESS, Some \<lparr>page_num = pg_num q, slot_num = int i\<rparr>, q')"
    "pg_num q' = pg_num q" "pg_cap q' = pg_cap q" "rf_ok (store_page q' g)"
    "rf_records g \<lparr>page_num = pg_num q, slot_num = int i\<rparr> = None"
    "rf_records (store_page q' g) = (rf_records g)(\<lparr>page_num = pg_num q, slot_num = int i\<rparr> \<mapsto> d)"
proof -
  have fit: "page_fits q d" using assms(2,6) by (simp add: page_fits_def rf_fits_def)
  have ok: "page_ok q" using assms(4) by (simp add: page_inv_def)
  from assms(4) fit show thesis
  proof (cases rule: insert_record_cases)
    case full
    then show ?thesis using assms(7) is_full_iff[OF ok] by blast
  next
    case (free i)
    let ?q = "inserted_page q i d"
    have len: "int (length d) = record_real_size (hdr q)" using fit by (simp add: page_fits_def)
    note I = inserted_page_facts[OF ok len free(1,2)]
    have "rf_records (store_page ?q g) = (rf_records g)(\<lparr>page_num = pg_num ?q, slot_num = int i\<rparr> := Some d)"
      by (rule store_page_records) (use I free assms(3,5) in auto)
    moreover have "rf_ok (store_page ?q g)" using store_page_ok[OF assms(1) I(1)] I(6) assms(6) by simp
    ultimately show ?thesis
      using that[OF free(4)] I(3,5) rf_records_page[OF assms(3), of i] free(2) assms(5) by simp
  qed
qed

definition inserted :: "rec_file \<Rightarrow> byte list \<Rightarrow> rid \<Rightarrow> rec_file \<Rightarrow> bool" where
  "inserted f d r f' \<longleftrightarrow> file_insert_record f d = Some (SUCCESS, Some r, f') \<and> rf_inv f' \<and> rf_size f' = rf_size f \<and>
     (\<forall>x. rf_valid f x \<longrightarrow> rf_valid f' x) \<and> rf_records f r = None \<and> rf_records f' = (rf_records f)(r \<mapsto> d)"

lemma free_list_simps [simp]:
  "data_pages (f\<lparr>free_pages := ps\<rparr>) = data_pages f" "rf_ok (f\<lparr>free_pages := ps\<rparr>) = rf_ok f"
  "rf_records (f\<lparr>free_pages := ps\<rparr>) = rf_records f" "rf_fits (f\<lparr>free_pages := ps\<rparr>) = rf_fits f"
  by (simp_all add: data_pages_def rf_ok_def rf_page_ok_def rf_records_def fun_eq_iff rf_fits_def)

text \<open>Storing a page that is in the set of free pages keeps the set complete.\<close>

lemma free_ok_store:
  assumes "free_ok f" "pg_num q \<in> set (free_pages f)"
  shows "free_ok (store_page q f)"
  using assms by (auto simp: free_ok_def)

definition has_free_slot :: "rec_file \<Rightarrow> bool" where
  "has_free_slot f \<longleftrightarrow> (\<exists>p\<in>data_pages f. \<not> is_full (the (rf_pages f p)))"

definition file_page_capacity :: "rec_file \<Rightarrow> int" where
  "file_page_capacity f = record_capacity (the (init_header (rf_size f) 0))"

lemma file_insert_reuse:
  assumes "rf_inv f" "rf_fits f d" "has_free_slot f"
  obtains r f' where "inserted f d r f'" "data_pages f' = data_pages f"
proof -
  have ok: "rf_ok f" "free_ok f" using assms(1) by (simp_all add: rf_inv_def)
  then have sub: "set (free_pages f) \<subseteq> data_pages f" by (simp add: free_ok_def)
  from ok(1) sub show thesis
  proof (cases rule: find_room_cases)
    case none
    then show ?thesis using assms(3) ok(2) by (auto simp: has_free_slot_def free_ok_def)
  next
    case (found p ps')
    let ?f1 = "f\<lparr>free_pages := ps'\<rparr>"
    note O = opened_data_page[OF ok(1) found(2), of READ_WRITE]
    obtain i q' where q': "insert_record (opened f p READ_WRITE) d =
          Some (SUCCESS, Some \<lparr>page_num = p, slot_num = int i\<rparr>, q')" "pg_num q' = p" "pg_cap q' = pg_cap (the (rf_pages f p))" "rf_ok (store_page q' ?f1)"
        "rf_records f \<lparr>page_num = p, slot_num = int i\<rparr> = None"
        "rf_records (store_page q' ?f1) = (rf_records f)(\<lparr>page_num = p, slot_num = int i\<rparr> \<mapsto> d)"
      by (rule insert_into_page[of ?f1 d "opened f p READ_WRITE"])
        (use O ok assms(2) found(2,3) opened_inv(1)[OF ok(1) found(2) assms(2)] in auto)
    have "free_ok ?f1" using ok(2) found(4,6) by (auto simp: free_ok_def)
    then have "free_ok (store_page q' ?f1)" using free_ok_store[of ?f1 q'] q'(2) found(5) by simp
    then show ?thesis
      using that[of "\<lparr>page_num = p, slot_num = int i\<rparr>" "store_page q' ?f1"] found(1) q'
      by (simp add: inserted_def file_insert_record_def Let_def rf_inv_def rf_valid_def)
  qed
qed

lemma no_free_slot_room:
  assumes "rf_inv f" "\<not> has_free_slot f"
  shows "find_room f (free_pages f) = Some (SUCCESS, None, [])" "free_ok (f\<lparr>free_pages := []\<rparr>)"
proof -
  have ok: "rf_ok f" "set (free_pages f) \<subseteq> data_pages f" using assms(1) by (simp_all add: rf_inv_def free_ok_def)
  from ok show "find_room f (free_pages f) = Some (SUCCESS, None, [])"
    by (cases rule: find_room_cases) (use assms(2) in \<open>auto simp: has_free_slot_def\<close>)
  show "free_ok (f\<lparr>free_pages := []\<rparr>)" using assms(2) by (auto simp: has_free_slot_def free_ok_def)
qed

lemma file_insert_grow:
  assumes "rf_inv f" "rf_fits f d" "\<not> has_free_slot f" "hdr_room (rf_hdr f)"
  obtains (stored) r f' where "0 < file_page_capacity f" "inserted f d r f'" "page_num r \<notin> data_pages f"
      "data_pages f' = insert (page_num r) (data_pages f)"
  | (too_long) p f' where "file_page_capacity f = 0" "p \<notin> data_pages f"
      "file_insert_record f d = Some (RECORD_NOMEM, None, f')" "rf_inv f'" "rf_records f' = rf_records f"
      "data_pages f' = insert p (data_pages f)"
proof -
  note R = no_free_slot_room[OF assms(1,3)]
  let ?f1 = "f\<lparr>free_pages := []\<rparr>"
  obtain p q f2 h where n: "new_page ?f1 = Some (SUCCESS, Some q, f2)" "p \<notin> data_pages f" "pg_num q = p"
      "data_pages f2 = insert p (data_pages f)" "rf_ok f2" "rf_pages f2 = (rf_pages f)(p \<mapsto> q)" "page_inv q"
      "records q = Map.empty" "record_real_size (hdr q) = rf_size f" "rf_size f2 = rf_size f"
      "rf_records f2 = rf_records f" "set (free_pages f2) = insert p {}"
      "hdr q = h" "init_header (rf_size f) 0 = Some h"
    by (rule new_page_room[of ?f1]) (use assms(1,4) in \<open>auto simp: rf_inv_def\<close>)
  have ok: "page_ok q" using n(7) by (simp add: page_inv_def)
  have fits: "rf_fits f2 d" using assms(2) n(10) by (simp add: rf_fits_def)
  have free: "free_ok f2"
    using R(2) n(2,4,6,12) by (auto simp: free_ok_def)
  have cap: "file_page_capacity f = int (pg_cap q)"
    using n(13,14) page_layout(7)[OF ok] by (simp add: file_page_capacity_def)
  show thesis
  proof (cases "pg_cap q = 0")
    case True
    have "insert_record q d = Some (RECORD_NOMEM, None, q)"
      using insert_record_full[OF ok, of d] n(7) True by (simp add: page_inv_def)
    then have "file_insert_record f d = Some (RECORD_NOMEM, None, store_page q f2)"
      using R(1) n(1) by (simp add: file_insert_record_def)
    moreover have "rf_ok (store_page q f2)" using store_page_ok[OF n(5) ok] n(9,10) by simp
    moreover have "rf_records (store_page q f2) = rf_records f2"
      using n(3,6) by (simp add: rf_records_def fun_eq_iff)
    moreover have "free_ok (store_page q f2)" using free_ok_store[OF free] n(3,12) by simp
    ultimately show ?thesis using too_long[of p "store_page q f2"] n cap True by (simp add: rf_inv_def)
  next
    case False
    then have "\<not> is_full q" using is_full_iff[OF ok] n(8) by auto
    then obtain i q' where q': "insert_record q d = Some (SUCCESS, Some \<lparr>page_num = p, slot_num = int i\<rparr>, q')"
        "pg_num q' = p" "pg_cap q' = pg_cap q" "rf_ok (store_page q' f2)" "rf_records f2 \<lparr>page_num = p, slot_num = int i\<rparr> = None"
        "rf_records (store_page q' f2) = (rf_records f2)(\<lparr>page_num = p, slot_num = int i\<rparr> \<mapsto> d)"
      using insert_into_page[OF n(5) fits, of q] n by auto
    have "file_insert_record f d = Some (SUCCESS, Some \<lparr>page_num = p, slot_num = int i\<rparr>, store_page q' f2)"
      using R(1) n(1) q'(1) by (simp add: file_insert_record_def)
    moreover have "free_ok (store_page q' f2)" using free_ok_store[OF free] q'(2) n(12) by simp
    ultimately show ?thesis
      using stored[of "\<lparr>page_num = p, slot_num = int i\<rparr>" "store_page q' f2"] q' n cap False
      by (auto simp: inserted_def rf_inv_def rf_valid_def)
  qed
qed

lemma file_insert_no_room:
  assumes "rf_inv f" "\<not> has_free_slot f" "\<not> hdr_room (rf_hdr f)"
  shows "file_insert_record f d = None"
proof -
  have "hdr_ok (fh (rf_hdr f))" using assms(1) by (simp add: rf_inv_def rf_ok_def)
  then have "header_allocate (rf_hdr f) = None"
    using header_allocate_no_room(2)[of "rf_hdr f"] assms(3) by (simp add: hdr_room_def)
  then show ?thesis
    using no_free_slot_room(1)[OF assms(1,2)] by (simp add: file_insert_record_def new_page_def)
qed

lemma file_page_capacity_pos: "rf_ok f \<Longrightarrow> rf_size f \<le> 8144 \<Longrightarrow> 0 < file_page_capacity f"
  using init_header_ok[of "rf_size f" 0] row_capacity_pos[of "rf_size f"]
  by (force simp: file_page_capacity_def rf_ok_def)

text \<open>
  A record that is too long for an empty page is refused, but each attempt leaves an allocated page behind.
\<close>

lemma oversized_insert_leaks_page:
  assumes "rf_inv f" "rf_fits f d" "\<not> has_free_slot f" "hdr_room (rf_hdr f)" "file_page_capacity f = 0"
  shows "\<exists>p f'. file_insert_record f d = Some (RECORD_NOMEM, None, f') \<and> rf_records f' = rf_records f \<and>
    p \<notin> data_pages f \<and> data_pages f' = insert p (data_pages f)"
  using assms(1-4) by (cases rule: file_insert_grow) (use assms(5) in auto)

section \<open>Deletion, reading and updating\<close>

lemma rf_validE:
  assumes "rf_valid f r"
  obtains i where "slot_num r = int i" "i < pg_cap (the (rf_pages f (page_num r)))" "page_num r \<in> data_pages f"
    "r = \<lparr>page_num = page_num r, slot_num = int i\<rparr>"
  using assms that[of "nat (slot_num r)"] by (simp add: rf_valid_def)

text \<open>A page is stored with the changed content of one slot.\<close>

lemma store_slot:
  assumes "rf_inv f" "p \<in> data_pages f" "page_ok q" "pg_num q = p" "record_real_size (hdr q) = rf_size f"
    and "pg_cap q = pg_cap (the (rf_pages f p))" "i < pg_cap q"
    and "records q = (records (the (rf_pages f p)))(i := v)"
    and "p \<in> set (free_pages f) \<or> is_full q"
  shows "rf_inv (store_page q f)" "rf_valid (store_page q f) = rf_valid f"
    "rf_records (store_page q f) = (rf_records f)(\<lparr>page_num = p, slot_num = int i\<rparr> := v)"
proof -
  have ok: "rf_ok f" "free_ok f" using assms(1) by (simp_all add: rf_inv_def)
  have "free_ok (store_page q f)" using ok(2) assms(4,9) by (auto simp: free_ok_def)
  then show "rf_inv (store_page q f)"
    using store_page_ok[OF ok(1) assms(3,5)] by (simp add: rf_inv_def)
  show "rf_valid (store_page q f) = rf_valid f"
    using assms(4,6) by (auto simp: rf_valid_def fun_eq_iff)
  show "rf_records (store_page q f) = (rf_records f)(\<lparr>page_num = p, slot_num = int i\<rparr> := v)"
    using store_page_records[of q f i v] assms by simp
qed

lemma rf_inv_add_free:
  assumes "rf_ok f" "set (free_pages f) \<subseteq> data_pages f" "p \<in> data_pages f"
    and "\<forall>x\<in>data_pages f. \<not> is_full (the (rf_pages f x)) \<longrightarrow> x \<in> insert p (set (free_pages f))"
  shows "rf_inv (add_free_page p f)"
  using assms by (auto simp: rf_inv_def free_ok_def)

lemma rf_valid_add_free [simp]: "rf_valid (add_free_page p f) = rf_valid f"
  by (simp add: rf_valid_def fun_eq_iff)

lemma is_full_opened_eq:
  assumes "rf_inv f" "p \<in> data_pages f"
  shows "p \<in> set (free_pages f) \<or> is_full (opened f p mode)"
  using assms opened_data_page(7)[of f p mode] by (auto simp: rf_inv_def free_ok_def)

lemma file_delete_cases:
  assumes "rf_inv f" "rf_valid f r"
  obtains (absent) f' where "rf_records f r = None" "file_delete_record f r = Some (RECORD_NOT_EXIST, f')"
      "rf_inv f'" "rf_records f' = rf_records f" "rf_valid f' = rf_valid f" "rf_size f' = rf_size f"
  | (present) f' where "rf_records f r \<noteq> None" "file_delete_record f r = Some (SUCCESS, f')" "rf_inv f'"
      "rf_records f' = (rf_records f)(r := None)" "rf_valid f' = rf_valid f" "rf_size f' = rf_size f"
proof -
  obtain i where i: "slot_num r = int i" "i < pg_cap (the (rf_pages f (page_num r)))" "page_num r \<in> data_pages f"
    "r = \<lparr>page_num = page_num r, slot_num = int i\<rparr>" by (rule rf_validE[OF assms(2)])
  have ok: "rf_ok f" "free_ok f" using assms(1) by (simp_all add: rf_inv_def)
  let ?p = "page_num r" and ?pg = "opened f (page_num r) READ_WRITE"
  note O = opened_data_page[OF ok(1) i(3), of READ_WRITE]
  have inv: "page_inv ?pg" using O(2,4) by (simp add: page_inv_def)
  have view: "rf_records f r = records (the (rf_pages f ?p)) i" using i by (simp add: rf_records_def)
  have "i < pg_cap ?pg" using i(2) O(8) by simp
  from inv i(1) this show thesis
  proof (cases rule: delete_record_cases)
    case absent': absent
    have cut: "records ?pg = (records (the (rf_pages f ?p)))(i := records (the (rf_pages f ?p)) i)"
      using O(6) by simp
    note S = store_slot[OF assms(1) i(3) O(2) O(3) O(5) O(8) _ cut is_full_opened_eq[OF assms(1) i(3)]]
    have "rf_records (store_page ?pg f) = rf_records f"
      using S(3) i(2,4) O(8) view by (metis fun_upd_triv)
    then show ?thesis
      using absent(1)[of "store_page ?pg f"] absent' O i(2) S(1,2) view
      by (simp add: file_delete_record_def OB_SUCC_def)
  next
    case (present d q)
    have real: "record_real_size (hdr q) = rf_size f"
      using present(6) O(5) by (auto simp: page_fits_def fun_eq_iff)
        (metis O(5) Ex_list_of_length nat_0_le order_less_imp_le rf_okD(2)[OF ok(1)])
    let ?f1 = "add_free_page ?p (store_page q f)"
    have q: "page_ok q" "pg_num q = ?p" "pg_cap q = pg_cap (the (rf_pages f ?p))"
      using present O by (simp_all add: page_inv_def)
    have "rf_ok (store_page q f)" by (rule store_page_ok[OF ok(1) q(1) real])
    then have inv': "rf_inv ?f1"
      by (rule rf_inv_add_free) (use ok(2) i(3) q(2) in \<open>auto simp: free_ok_def\<close>)
    have "rf_records (store_page q f) = (rf_records f)(\<lparr>page_num = pg_num q, slot_num = int i\<rparr> := None)"
      by (rule store_page_records) (use i(3) q(2) present(4) O(6) in auto)
    then have rec: "rf_records ?f1 = (rf_records f)(r := None)" using q(2) i(4) by simp
    have val: "rf_valid ?f1 = rf_valid f" using q(2,3) by (auto simp: rf_valid_def fun_eq_iff)
    have "file_delete_record f r = Some (SUCCESS, ?f1)"
      using O(1) present(2) by (simp add: file_delete_record_def)
    then show ?thesis
      using that(2)[of ?f1] inv' rec val present(1) O(6) view by simp
  qed
qed

lemma file_get_eq:
  assumes "rf_ok f" "rf_valid f r"
  shows "file_get_record f r = Some (case rf_records f r of
    None \<Rightarrow> (RECORD_NOT_EXIST, None) | Some d \<Rightarrow> (SUCCESS, Some (r, d)))"
proof -
  obtain i where i: "slot_num r = int i" "i < pg_cap (the (rf_pages f (page_num r)))" "page_num r \<in> data_pages f"
    by (rule rf_validE[OF assms(2)])
  note O = opened_data_page[OF assms(1) i(3), of READ_WRITE]
  show ?thesis
    using O(1,6,8) i get_record_in_range[OF O(2) i(1)]
    by (simp add: file_get_record_def rf_records_def split: option.split)
qed

text \<open>A present record is visited: the updater decides whether the copy is written back.\<close>

lemma file_visit_cases:
  assumes "rf_inv f" "rf_valid f r" "\<And>d. rf_records f r = Some d \<Longrightarrow> fst (u (r, d)) \<Longrightarrow> rf_fits f (snd (u (r, d)))"
  obtains (absent) "rf_records f r = None" "file_visit_record f r u = Some (RECORD_NOT_EXIST, f)"
  | (kept) d where "rf_records f r = Some d" "\<not> fst (u (r, d))" "file_visit_record f r u = Some (SUCCESS, f)"
  | (updated) d f' where "rf_records f r = Some d" "fst (u (r, d))" "file_visit_record f r u = Some (SUCCESS, f')"
      "rf_inv f'" "rf_records f' = (rf_records f)(r \<mapsto> snd (u (r, d)))" "rf_valid f' = rf_valid f" "rf_size f' = rf_size f"
proof -
  obtain i where i: "slot_num r = int i" "i < pg_cap (the (rf_pages f (page_num r)))" "page_num r \<in> data_pages f"
    "r = \<lparr>page_num = page_num r, slot_num = int i\<rparr>" by (rule rf_validE[OF assms(2)])
  have ok: "rf_ok f" using assms(1) by (simp add: rf_inv_def)
  let ?p = "page_num r" and ?pg = "opened f (page_num r) READ_WRITE"
  note O = opened_data_page[OF ok i(3), of READ_WRITE]
  have iq: "i < pg_cap ?pg" using i(2) O(8) by simp
  have view: "rf_records f r = records ?pg i" using i O(6) by (simp add: rf_records_def)
  note G = get_record_in_range[OF O(2) i(1) iq]
  show thesis
  proof (cases "records ?pg i")
    case None
    then show ?thesis using absent view O(1) G by (simp add: file_visit_record_def)
  next
    case d: (Some d)
    show ?thesis
    proof (cases "fst (u (r, d))")
      case False
      then show ?thesis using kept[of d] d view O(1) G by (simp add: file_visit_record_def split_def)
    next
      case True
      let ?d = "snd (u (r, d))"
      have fits: "page_fits ?pg ?d" using assms(3)[of d] d view True O(5) by (simp add: page_fits_def rf_fits_def)
      have inv: "page_inv ?pg" using O(2,4) by (simp add: page_inv_def)
      from inv i(1) iq fits show ?thesis
      proof (cases rule: update_record_cases)
        case absent
        then show ?thesis using d by simp
      next
        case (present d0 q)
        have q: "page_ok q" "pg_num q = ?p" "pg_cap q = pg_cap (the (rf_pages f ?p))"
          "record_real_size (hdr q) = rf_size f"
          using present O fits by (auto simp: page_inv_def page_fits_def dest: fun_cong[of _ _ ?d])
        have "is_full q = is_full ?pg"
          unfolding is_full_iff[OF q(1)] is_full_iff[OF O(2)] using present(4,5) d by simp metis
        then have fr: "?p \<in> set (free_pages f) \<or> is_full q" using is_full_opened_eq[OF assms(1) i(3)] by simp
        note S = store_slot[OF assms(1) i(3) q(1,2,4,3) _ present(4)[unfolded O(6)] fr]
        show ?thesis
          using updated[of d "store_page q f"] True d view O(1) G present(2) S i(2,4) q(3)
          by (simp add: file_visit_record_def split_def)
      qed
    qed
  qed
qed

section \<open>The record file implements the interface\<close>

definition rf_ins :: "rec_file \<Rightarrow> byte list \<Rightarrow> (rid \<times> rec_file) option" where
  "rf_ins f d = (case file_insert_record f d of Some (SUCCESS, Some r, f') \<Rightarrow> Some (r, f') | _ \<Rightarrow> None)"

definition rf_del :: "rec_file \<Rightarrow> rid \<Rightarrow> rec_file option" where
  "rf_del f r = (case file_delete_record f r of Some (SUCCESS, f') \<Rightarrow> Some f' | _ \<Rightarrow> None)"

definition rf_upd :: "rec_file \<Rightarrow> rid \<Rightarrow> byte list \<Rightarrow> rec_file option" where
  "rf_upd f r d = (case file_visit_record f r (\<lambda>_. (True, d)) of Some (SUCCESS, f') \<Rightarrow> Some f' | _ \<Rightarrow> None)"

lemma rf_records_valid:
  assumes "rf_records f r = Some d"
  shows "rf_valid f r"
  using assms records_bounded[of "the (rf_pages f (page_num r))" "nat (slot_num r)" d]
  by (simp add: rf_records_def rf_valid_def split: if_splits)

interpretation heap: record_store rf_inv rf_fits rf_valid rf_records rf_ins rf_del rf_upd
proof (unfold_locales, goal_cases)
  case (1 s r d)
  then show ?case by (rule rf_records_valid)
next
  case (2 s d r t)
  have ins: "file_insert_record s d = Some (SUCCESS, Some r, t)"
    using 2(3) by (simp add: rf_ins_def split: option.splits prod.splits rc.splits)
  have "inserted s d r t"
  proof (cases "has_free_slot s")
    case True
    obtain r' t' where "inserted s d r' t'" by (rule file_insert_reuse[OF 2(1,2) True])
    then show ?thesis using ins by (simp add: inserted_def)
  next
    case False
    then have room: "hdr_room (rf_hdr s)" using file_insert_no_room[OF 2(1)] ins by fastforce
    from 2(1,2) False room show ?thesis
      by (cases rule: file_insert_grow) (use ins in \<open>auto simp: inserted_def\<close>)
  qed
  then show ?case by (simp add: inserted_def rf_fits_def fun_eq_iff)
next
  case (3 s r)
  then show ?case
    by (cases rule: file_delete_cases) (simp_all add: rf_del_def rf_fits_def fun_eq_iff)
next
  case (4 s r d)
  have "\<And>x. rf_records s r = Some x \<Longrightarrow> fst (True, d) \<Longrightarrow> rf_fits s (snd (True, d))" using 4(3) by simp
  then show ?case
    by (rule file_visit_cases[OF 4(1,2), of "\<lambda>_. (True, d)"])
      (simp_all add: rf_upd_def rf_fits_def fun_eq_iff)
qed

section \<open>Iterating over the pages\<close>

lemma bp_iter_cases:
  assumes "hdr_ok h" "0 \<le> cur"
  obtains (finished) "bp_iter_has_next (file_bitmap h) cur = Some False" "\<forall>p\<in>live_pages h. p \<le> cur"
  | (more) p where "bp_iter_has_next (file_bitmap h) cur = Some True" "bp_iter_next (file_bitmap h) cur = Some (p, p)"
      "p \<in> live_pages h" "cur < p" "p < page_count h" "\<forall>x\<in>live_pages h. x \<le> cur \<or> p \<le> x"
proof -
  note F = hdr_ok_facts[OF assms(1)]
  let ?b = "file_bitmap h" and ?s = "nat (cur + 1)"
  obtain r where r: "next_setted_bit ?b (cur + 1) = Some r" "first_from (bm_bit ?b) ?s (bm_cap ?b) r"
    using next_setted_bit_first[OF F(2), of "cur + 1"] assms(2) by auto
  from r(2) show thesis
  proof (cases rule: first_fromE)
    case none
    have "p \<le> cur" if "p \<in> live_pages h" for p
      using that none(2)[of "nat p"] F(3) by (force simp: live_pages_def nat_le_iff)
    then show ?thesis using finished r(1) none(1) by (simp add: bp_iter_has_next_def)
  next
    case (some k)
    have "x \<le> cur \<or> int k \<le> x" if "x \<in> live_pages h" for x
      using that some(5)[of "nat x"] by (force simp: live_pages_def nat_le_iff)
    moreover have "int k \<in> live_pages h" "int k < page_count h" "cur < int k"
      using some F(3,4) assms(2) by (auto simp: live_pages_def nat_le_iff)
    ultimately show ?thesis
      using more[of "int k"] r(1) some(1) by (simp add: bp_iter_has_next_def bp_iter_next_def)
  qed
qed

text \<open>The data pages behind a position, in order.\<close>

definition pages_after :: "rec_file \<Rightarrow> PageNum \<Rightarrow> PageNum list" where
  "pages_after f cur = filter (\<lambda>p. p \<in> data_pages f) [cur + 1..page_count (fh (rf_hdr f)) - 1]"

lemma set_pages_after: "0 \<le> cur \<Longrightarrow> set (pages_after f cur) = {p \<in> data_pages f. cur < p}"
  by (auto simp: pages_after_def data_pages_def live_pages_def)

lemma pages_after_step:
  assumes "0 \<le> cur"
  shows "\<forall>p\<in>live_pages (fh (rf_hdr f)). p \<le> cur \<Longrightarrow> pages_after f cur = []"
    and "p \<in> live_pages (fh (rf_hdr f)) \<Longrightarrow> cur < p \<Longrightarrow> \<forall>x\<in>live_pages (fh (rf_hdr f)). x \<le> cur \<or> p \<le> x \<Longrightarrow>
      pages_after f cur = p # pages_after f p"
proof -
  show "pages_after f cur = []" if "\<forall>p\<in>live_pages (fh (rf_hdr f)). p \<le> cur"
    using that by (force simp: pages_after_def filter_empty_conv data_pages_def)
  assume p: "p \<in> live_pages (fh (rf_hdr f))" "cur < p" "\<forall>x\<in>live_pages (fh (rf_hdr f)). x \<le> cur \<or> p \<le> x"
  then have lt: "p < page_count (fh (rf_hdr f))" by (simp add: live_pages_def)
  have "[cur + 1..page_count (fh (rf_hdr f)) - 1] = [cur + 1..p - 1] @ p # [p + 1..page_count (fh (rf_hdr f)) - 1]"
    by (rule upto_split3) (use p lt in auto)
  moreover have "filter (\<lambda>p. p \<in> data_pages f) [cur + 1..p - 1] = []"
    using p(3) by (force simp: filter_empty_conv data_pages_def)
  moreover have "p \<in> data_pages f" using p assms by (simp add: data_pages_def)
  ultimately show "pages_after f cur = p # pages_after f p" by (simp add: pages_after_def)
qed

lemma free_pages_loop_eq:
  assumes "rf_ok f" "0 \<le> cur" "length (pages_after f cur) \<le> n"
  shows "\<exists>ps. free_pages_loop n cur f = Some (SUCCESS, f\<lparr>free_pages := ps\<rparr>) \<and>
    set ps = set (free_pages f) \<union> {p \<in> set (pages_after f cur). \<not> is_full (the (rf_pages f p))}"
  using assms
proof (induction n arbitrary: cur f)
  case 0
  from rf_okD(1)[OF 0(1)] 0(2) show ?case
  proof (cases rule: bp_iter_cases)
    case finished
    then show ?thesis using pages_after_step(1)[OF 0(2)] by (intro exI[of _ "free_pages f"]) (simp add: free_pages_loop.simps)
  next
    case (more p)
    then show ?thesis using pages_after_step(2)[OF 0(2) more(3,4,6)] 0(3) by simp
  qed
next
  case (Suc n)
  from rf_okD(1)[OF Suc.prems(1)] Suc.prems(2) show ?case
  proof (cases rule: bp_iter_cases)
    case finished
    then show ?thesis
      using pages_after_step(1)[OF Suc.prems(2)] by (intro exI[of _ "free_pages f"]) (simp add: free_pages_loop.simps)
  next
    case (more p)
    let ?f = "if is_full (the (rf_pages f p)) then f else add_free_page p f"
    note P = pages_after_step(2)[OF Suc.prems(2) more(3,4,6)]
    have p: "p \<in> data_pages f" "0 \<le> p" using more Suc.prems(2) by (simp_all add: data_pages_def)
    note O = opened_data_page[OF Suc.prems(1) p(1), of READ_ONLY]
    have same: "pages_after ?f p = pages_after f p" by (simp add: pages_after_def)
    have ok': "rf_ok ?f" using Suc.prems(1) by simp
    obtain ps where ps: "free_pages_loop n p ?f = Some (SUCCESS, ?f\<lparr>free_pages := ps\<rparr>)"
      "set ps = set (free_pages ?f) \<union> {x \<in> set (pages_after f p). \<not> is_full (the (rf_pages ?f x))}"
      using Suc.IH[OF ok' p(2)] Suc.prems(3) P same by auto
    have "free_pages_loop (Suc n) cur f = free_pages_loop n p ?f"
      using more(1,2) O(1,7) by (simp add: free_pages_loop.simps[of "Suc n"])
    moreover have "?f\<lparr>free_pages := ps\<rparr> = f\<lparr>free_pages := ps\<rparr>" by (simp add: add_free_page_def)
    ultimately show ?thesis using ps P by (intro exI[of _ ps]) auto
  qed
qed

section \<open>The scan\<close>

definition rows_from :: "rec_page \<Rightarrow> nat \<Rightarrow> (rid \<times> byte list) list" where
  "rows_from pg start = map (\<lambda>i. (\<lparr>page_num = pg_num pg, slot_num = int i\<rparr>, the (records pg i)))
     (filter (\<lambda>i. records pg i \<noteq> None) [start..<pg_cap pg])"

text \<open>The specification of a scan: all records of the file, by page and slot.\<close>

definition rows_after :: "rec_file \<Rightarrow> PageNum \<Rightarrow> (rid \<times> byte list) list" where
  "rows_after f cur = concat (map (\<lambda>p. rows_from (the (rf_pages f p)) 0) (pages_after f cur))"

definition file_rows :: "rec_file \<Rightarrow> (rid \<times> byte list) list" where
  "file_rows f = rows_after f 0"

text \<open>The records a scanner returns, and the code with which it returns them.\<close>

definition wanted :: "scanner \<Rightarrow> rid \<times> byte list \<Rightarrow> bool" where
  "wanted sc x \<longleftrightarrow> (case sc_filter sc of Some flt \<Rightarrow> flt x | None \<Rightarrow> True) \<and>
     (case sc_trx sc of Some visit \<Rightarrow> visit x \<noteq> RECORD_INVISIBLE | None \<Rightarrow> True)"

definition visit_code :: "scanner \<Rightarrow> rid \<times> byte list \<Rightarrow> rc" where
  "visit_code sc x = (case sc_trx sc of Some visit \<Rightarrow> visit x | None \<Rightarrow> SUCCESS)"

text \<open>The records from the first one that is returned.\<close>

definition skip :: "scanner \<Rightarrow> (rid \<times> byte list) list \<Rightarrow> (rid \<times> byte list) list" where
  "skip sc rows = dropWhile (\<lambda>x. \<not> wanted sc x) rows"

lemma skip_simps [simp]:
  "skip sc [] = []" "skip sc (x # xs) = (if wanted sc x then x # xs else skip sc xs)"
  by (simp_all add: skip_def)

lemma skip_append: "skip sc (xs @ ys) = (if skip sc xs = [] then skip sc ys else skip sc xs @ ys)"
  by (induction xs) auto

lemma wanted_cong:
  assumes "sc_filter sc' = sc_filter sc" "sc_trx sc' = sc_trx sc"
  shows "wanted sc' = wanted sc" "visit_code sc' = visit_code sc" "skip sc' = skip sc"
  using assms by (simp_all add: wanted_def visit_code_def skip_def fun_eq_iff)

lemma rows_from_step:
  assumes "page_ok pg" "first_from (bm_bit (page_bitmap pg)) start (pg_cap pg) s"
  obtains (finished) "s = -1" "rows_from pg start = []"
  | (row) k s' x where "s = int k" "start \<le> k" "k < pg_cap pg"
      "iter_next pg s prev = Some (SUCCESS, x, s')" "rows_from pg start = x # rows_from pg (Suc k)"
      "first_from (bm_bit (page_bitmap pg)) (Suc k) (pg_cap pg) s'"
  using assms(2)
proof (cases rule: first_fromE)
  case none
  then have "rows_from pg start = []" by (auto simp: rows_from_def filter_empty_conv records_def)
  then show ?thesis using finished none(1) by simp
next
  case (some k)
  have "[start..<pg_cap pg] = [start..<k] @ k # [Suc k..<pg_cap pg]"
    using some upt_add_eq_append[of start k "pg_cap pg - k"] by (simp add: upt_conv_Cons)
  moreover have "filter (\<lambda>i. records pg i \<noteq> None) [start..<k] = []"
    using some(5) by (auto simp: filter_empty_conv records_def)
  moreover have rk: "records pg k = Some (slot_bytes pg k)" using some by (simp add: records_def)
  ultimately have list: "rows_from pg start =
      (\<lparr>page_num = pg_num pg, slot_num = int k\<rparr>, slot_bytes pg k) # rows_from pg (Suc k)" by (simp add: rows_from_def)
  obtain s' where s': "next_setted_bit (page_bitmap pg) (int k + 1) = Some s'"
      "first_from (bm_bit (page_bitmap pg)) (Suc k) (pg_cap pg) s'"
    using next_setted_bit_first[of "page_bitmap pg" "int k + 1"] page_layout(5,6)[OF assms(1)]
    by (auto simp: nat_add_distrib)
  have "get_record pg \<lparr>page_num = pg_num pg, slot_num = int k\<rparr> =
      Some (SUCCESS, Some (\<lparr>page_num = pg_num pg, slot_num = int k\<rparr>, slot_bytes pg k))"
    using get_record_in_range[OF assms(1), of "\<lparr>page_num = pg_num pg, slot_num = int k\<rparr>" k] some rk by simp
  then have "iter_next pg s prev = Some (SUCCESS, (\<lparr>page_num = pg_num pg, slot_num = int k\<rparr>, slot_bytes pg k), s')"
    using some(1) s'(1) by (simp add: iter_next_def)
  then show ?thesis using row[of k] some list s'(2) by blast
qed

lemma fetch_in_page_eq:
  assumes "page_ok pg" "first_from (bm_bit (page_bitmap pg)) start (pg_cap pg) s" "pg_cap pg - start \<le> n"
  shows "case skip sc (rows_from pg start) of
      [] \<Rightarrow> \<exists>nr. fetch_in_page n pg s sc = Some (RECORD_EOF, sc\<lparr>sc_slot := Some (-1), next_record := nr\<rparr>)
    | x # xs \<Rightarrow> \<exists>s' st. fetch_in_page n pg s sc = Some (visit_code sc x, sc\<lparr>sc_slot := Some s', next_record := x\<rparr>) \<and>
        first_from (bm_bit (page_bitmap pg)) st (pg_cap pg) s' \<and> rows_from pg st = xs"
  using assms(2,3)
proof (induction n arbitrary: start s sc)
  case 0
  then have "s = -1" "rows_from pg start = []" by (auto simp: first_from_def rows_from_def)
  then show ?case by (auto simp: fetch_in_page.simps iter_has_next_def no_record_def)
next
  case (Suc n)
  from assms(1) Suc.prems(1) show ?case
  proof (cases rule: rows_from_step[where prev = "next_record sc"])
    case finished
    then show ?thesis by (auto simp: fetch_in_page.simps iter_has_next_def no_record_def)
  next
    case (row k s' x)
    let ?sc = "sc\<lparr>sc_slot := Some s', next_record := x\<rparr>"
    have step: "fetch_in_page (Suc n) pg s sc =
        (if wanted sc x then Some (visit_code sc x, ?sc) else fetch_in_page n pg s' ?sc)"
      using row(1,4) by (simp add: fetch_in_page.simps[of "Suc n"] iter_has_next_def wanted_def visit_code_def Let_def
          split: option.splits)
    show ?thesis
    proof (cases "wanted sc x")
      case True
      then show ?thesis using step row(5,6) by auto
    next
      case False
      have w: "wanted ?sc = wanted sc" "visit_code ?sc = visit_code sc" "skip ?sc = skip sc" by (rule wanted_cong; simp)+
      have le: "pg_cap pg - Suc k \<le> n" using Suc.prems(2) row(2,3) by linarith
      show ?thesis
        using Suc.IH[OF row(6) le, of ?sc] False step row(5) w by (simp split: list.splits del: split_paired_All split_paired_Ex)
    qed
  qed
qed

text \<open>The position of a scanner between two calls: the records it has not passed yet.\<close>

definition scans :: "rec_file \<Rightarrow> scanner \<Rightarrow> (rid \<times> byte list) list \<Rightarrow> bool" where
  "scans f sc rows \<longleftrightarrow> 0 \<le> sc_cur sc \<and> (\<exists>here. rows = here @ rows_after f (sc_cur sc) \<and>
     (case sc_slot sc of
        None \<Rightarrow> here = []
      | Some s \<Rightarrow> s = -1 \<and> here = [] \<or>
          (\<exists>pg st. sc_page sc = Some pg \<and> page_ok pg \<and>
             first_from (bm_bit (page_bitmap pg)) st (pg_cap pg) s \<and> here = rows_from pg st)))"

definition same_scan :: "scanner \<Rightarrow> scanner \<Rightarrow> bool" where
  "same_scan sc sc' \<longleftrightarrow> sc_filter sc' = sc_filter sc \<and> sc_trx sc' = sc_trx sc \<and> sc_mode sc' = sc_mode sc"

lemma same_scan_wanted:
  "same_scan sc sc' \<Longrightarrow> wanted sc' = wanted sc \<and> visit_code sc' = visit_code sc \<and> skip sc' = skip sc"
  using wanted_cong[of sc' sc] by (simp add: same_scan_def)

text \<open>What a call that looks for the next record in \<open>rows\<close> returns.\<close>

definition fetched :: "rec_file \<Rightarrow> scanner \<Rightarrow> (rid \<times> byte list) list \<Rightarrow> (rc \<times> scanner) option \<Rightarrow> bool" where
  "fetched f sc rows res \<longleftrightarrow> (case skip sc rows of
      [] \<Rightarrow> \<exists>sc'. res = Some (RECORD_EOF, sc') \<and> same_scan sc sc' \<and> scans f sc' []
    | x # xs \<Rightarrow> \<exists>sc'. res = Some (visit_code sc x, sc') \<and> same_scan sc sc' \<and> next_record sc' = x \<and> scans f sc' xs)"

lemma fetched_cong:
  assumes "same_scan sc sc'"
  shows "fetched f sc' rows res = fetched f sc rows res"
proof -
  have "same_scan sc' x \<longleftrightarrow> same_scan sc x" for x using assms by (auto simp: same_scan_def)
  moreover have "skip sc' = skip sc" "visit_code sc' = visit_code sc" using same_scan_wanted[OF assms] by auto
  ultimately show ?thesis unfolding fetched_def by presburger
qed

lemma rows_opened:
  assumes "rf_ok f" "p \<in> data_pages f"
  shows "rows_from (opened f p mode) st = rows_from (the (rf_pages f p)) st"
proof -
  obtain pg where "rf_pages f p = Some pg" using rf_okD(5)[OF assms] by (auto simp: rf_page_ok_def)
  then show ?thesis
    using opened_data_page[OF assms, of mode] rf_okD(3)[OF assms(1), of p pg] by (simp add: rows_from_def)
qed

text \<open>The part of \<open>fetch_next_record_in_page\<close> that both callers use.\<close>

lemma fetch_next_record_in_page_eq:
  assumes "page_ok pg" "first_from (bm_bit (page_bitmap pg)) st (pg_cap pg) s" "0 \<le> sc_cur sc"
    and "sc_page sc = Some pg" "sc_slot sc = Some s"
  shows "case skip sc (rows_from pg st) of
      [] \<Rightarrow> \<exists>sc'. fetch_next_record_in_page sc = Some (RECORD_EOF, sc') \<and> same_scan sc sc' \<and>
              sc_cur sc' = sc_cur sc \<and> sc_slot sc' = Some (-1)
    | x # xs \<Rightarrow> \<exists>sc'. fetch_next_record_in_page sc = Some (visit_code sc x, sc') \<and> same_scan sc sc' \<and>
              next_record sc' = x \<and> scans f sc' (xs @ rows_after f (sc_cur sc))"
proof (cases "s = -1")
  case True
  then have "rows_from pg st = []"
    using assms(2) by (auto simp: first_from_def rows_from_def filter_empty_conv records_def)
  then show ?thesis
    using True assms(3,5) by (simp add: fetch_next_record_in_page_def iter_has_next_def no_record_def same_scan_def scans_def)
next
  case False
  have start: "pg_cap pg - st \<le> pg_cap pg" by simp
  have "fetch_next_record_in_page sc = fetch_in_page (pg_cap pg) pg s sc"
    using False assms(4,5) by (simp add: fetch_next_record_in_page_def iter_has_next_def)
  note F = this fetch_in_page_eq[OF assms(1,2) start, of sc]
  show ?thesis
  proof (cases "skip sc (rows_from pg st)")
    case Nil
    then obtain nr where "fetch_next_record_in_page sc = Some (RECORD_EOF, sc\<lparr>sc_slot := Some (-1), next_record := nr\<rparr>)"
      using F by auto
    then show ?thesis using Nil assms(3) by (simp add: same_scan_def scans_def)
  next
    case (Cons x xs)
    then obtain s' st' where "fetch_next_record_in_page sc = Some (visit_code sc x, sc\<lparr>sc_slot := Some s', next_record := x\<rparr>)"
        "first_from (bm_bit (page_bitmap pg)) st' (pg_cap pg) s'" "rows_from pg st' = xs"
      using F by auto
    then show ?thesis using Cons assms(1,3,4) by (auto simp: same_scan_def scans_def)
  qed
qed

lemma fetch_pages_eq:
  assumes "rf_ok f" "\<forall>x. visit_code sc x \<noteq> RECORD_EOF" "0 \<le> sc_cur sc" "length (pages_after f (sc_cur sc)) \<le> n"
    and "\<exists>s. sc_slot sc = Some s \<and> s = -1 \<or> sc_slot sc = None"
  shows "fetched f sc (rows_after f (sc_cur sc)) (fetch_pages n f sc)"
  using assms(2-)
proof (induction n arbitrary: sc)
  case 0
  from rf_okD(1)[OF assms(1)] 0(2) show ?case
  proof (cases rule: bp_iter_cases)
    case finished
    then show ?thesis
      using pages_after_step(1)[OF 0(2)] 0(2,4)
      by (auto simp: fetch_pages.simps fetched_def rows_after_def same_scan_def scans_def no_record_def)
  next
    case (more p)
    then show ?thesis using pages_after_step(2)[OF 0(2) more(3,4,6)] 0(3) by simp
  qed
next
  case (Suc n)
  from rf_okD(1)[OF assms(1)] Suc.prems(2) show ?case
  proof (cases rule: bp_iter_cases)
    case finished
    then show ?thesis
      using pages_after_step(1)[OF Suc.prems(2)] Suc.prems(2,4)
      by (auto simp: fetch_pages.simps fetched_def rows_after_def same_scan_def scans_def no_record_def)
  next
    case (more p)
    note P = pages_after_step(2)[OF Suc.prems(2) more(3,4,6)]
    have p: "p \<in> data_pages f" "0 \<le> p" using more Suc.prems(2) by (simp_all add: data_pages_def)
    let ?pg = "opened f p (sc_mode sc)"
    note O = opened_data_page[OF assms(1) p(1), of "sc_mode sc"]
    obtain s where s: "iter_init ?pg 0 = Some s" "first_from (bm_bit (page_bitmap ?pg)) 0 (pg_cap ?pg) s"
      using next_setted_bit_first[of "page_bitmap ?pg" 0] page_layout(5,6)[OF O(2)] by (auto simp: iter_init_def)
    let ?sc = "sc\<lparr>sc_cur := p, sc_page := Some ?pg, sc_slot := Some s\<rparr>"
    have same: "same_scan sc ?sc" by (simp add: same_scan_def)
    note W = same_scan_wanted[OF same]
    have rows: "rows_after f (sc_cur sc) = rows_from ?pg 0 @ rows_after f p"
      using P rows_opened[OF assms(1) p(1)] by (simp add: rows_after_def)
    have step: "fetch_pages (Suc n) f sc = do {
        (r1, sc2) \<leftarrow> fetch_next_record_in_page ?sc;
        if r1 \<noteq> RECORD_EOF then Some (r1, sc2) else fetch_pages n f sc2 }"
      using more(1,2) O(1) s(1) by (simp add: fetch_pages.simps[of "Suc n"])
    note Q = fetch_next_record_in_page_eq[OF O(2) s(2), of ?sc f, simplified]
    show ?thesis
    proof (cases "skip sc (rows_from ?pg 0)")
      case Nil
      then obtain sc' where sc': "fetch_next_record_in_page ?sc = Some (RECORD_EOF, sc')" "same_scan ?sc sc'"
          "sc_cur sc' = p" "sc_slot sc' = Some (-1)" using Q W p(2) by auto
      have "same_scan sc sc'" using sc'(2) same by (simp add: same_scan_def)
      have "fetch_pages (Suc n) f sc = fetch_pages n f sc'" using step sc'(1) by simp
      moreover have "fetched f sc' (rows_after f p) (fetch_pages n f sc')"
        using Suc.IH[of sc'] sc' Suc.prems(1,3) P p(2) W same_scan_wanted[OF sc'(2)] by simp
      moreover have "skip sc (rows_after f (sc_cur sc)) = skip sc (rows_after f p)"
        using rows Nil by (simp add: skip_append)
      ultimately show ?thesis using fetched_cong[OF \<open>same_scan sc sc'\<close>] by (simp add: fetched_def)
    next
      case (Cons x xs)
      then obtain sc' where sc': "fetch_next_record_in_page ?sc = Some (visit_code sc x, sc')" "same_scan ?sc sc'"
          "next_record sc' = x" "scans f sc' (xs @ rows_after f p)" using Q W p(2) by auto
      then have "same_scan sc sc'" using same by (simp add: same_scan_def)
      moreover have "skip sc (rows_after f (sc_cur sc)) = x # xs @ rows_after f p"
        using rows Cons by (simp add: skip_append)
      ultimately show ?thesis using step sc' Suc.prems(1) by (simp add: fetched_def)
    qed
  qed
qed

lemma pages_after_length: "0 \<le> cur \<Longrightarrow> length (pages_after f cur) \<le> nat (page_count (fh (rf_hdr f)))"
proof -
  assume "0 \<le> cur"
  have "length (pages_after f cur) \<le> length [cur + 1..page_count (fh (rf_hdr f)) - 1]"
    unfolding pages_after_def by (rule length_filter_le)
  then show ?thesis using \<open>0 \<le> cur\<close> by simp
qed

lemma fetch_next_record_eq:
  assumes "rf_ok f" "\<forall>x. visit_code sc x \<noteq> RECORD_EOF" "scans f sc rows"
  shows "fetched f sc rows (fetch_next_record f sc)"
proof -
  let ?n = "nat (page_count (fh (rf_hdr f)))"
  have cur: "0 \<le> sc_cur sc" using assms(3) by (simp add: scans_def)
  note L = pages_after_length[OF cur]
  consider (before) "sc_slot sc = None" "rows = rows_after f (sc_cur sc)"
    | (between) "sc_slot sc = Some (-1)" "rows = rows_after f (sc_cur sc)"
    | (inside) pg st s where "sc_slot sc = Some s" "sc_page sc = Some pg" "page_ok pg"
        "first_from (bm_bit (page_bitmap pg)) st (pg_cap pg) s" "rows = rows_from pg st @ rows_after f (sc_cur sc)"
    using assms(3) by (cases "sc_slot sc") (auto simp: scans_def)
  then show ?thesis
  proof cases
    case before
    then show ?thesis
      using fetch_pages_eq[OF assms(1,2) cur L] by (simp add: fetch_next_record_def)
  next
    case between
    let ?sc = "no_record sc"
    have same: "same_scan sc ?sc" "sc_cur ?sc = sc_cur sc" "sc_slot ?sc = Some (-1)"
      using between by (simp_all add: same_scan_def no_record_def)
    have "fetch_next_record f sc = fetch_pages ?n f ?sc"
      using between by (simp add: fetch_next_record_def fetch_next_record_in_page_def iter_has_next_def)
    then show ?thesis
      using fetch_pages_eq[OF assms(1), of ?sc ?n] assms(2) cur L same same_scan_wanted[OF same(1)] between(2)
        fetched_cong[OF same(1)] by simp
  next
    case (inside pg st s)
    note Q = fetch_next_record_in_page_eq[OF inside(3,4) cur inside(2,1), of f]
    show ?thesis
    proof (cases "skip sc (rows_from pg st)")
      case Nil
      then obtain sc' where sc': "fetch_next_record_in_page sc = Some (RECORD_EOF, sc')" "same_scan sc sc'"
          "sc_cur sc' = sc_cur sc" "sc_slot sc' = Some (-1)" using Q by auto
      then have "fetched f sc' (rows_after f (sc_cur sc)) (fetch_pages ?n f sc')"
        using fetch_pages_eq[OF assms(1), of sc' ?n] assms(2) cur L same_scan_wanted[OF sc'(2)] by simp
      moreover have "fetch_next_record f sc = fetch_pages ?n f sc'"
        using inside(1) sc'(1) by (simp add: fetch_next_record_def)
      moreover have "skip sc rows = skip sc (rows_after f (sc_cur sc))"
        using Nil inside(5) by (simp add: skip_append)
      ultimately show ?thesis using fetched_cong[OF sc'(2)] by (simp add: fetched_def)
    next
      case (Cons x xs)
      then obtain sc' where sc': "fetch_next_record_in_page sc = Some (visit_code sc x, sc')" "same_scan sc sc'"
          "next_record sc' = x" "scans f sc' (xs @ rows_after f (sc_cur sc))" using Q by auto
      moreover have "skip sc rows = x # xs @ rows_after f (sc_cur sc)"
        using Cons inside(5) by (simp add: skip_append)
      moreover have "visit_code sc x \<noteq> RECORD_EOF" using assms(2) by blast
      ultimately show ?thesis using inside(1) by (simp add: fetched_def fetch_next_record_def)
    qed
  qed
qed

lemma filter_skip: "filter (wanted sc) rows = filter (wanted sc) (skip sc rows)"
  by (induction rows) auto

lemma skip_head: "skip sc rows = x # xs \<Longrightarrow> wanted sc x"
  by (induction rows) (auto split: if_splits)

lemma scan_all_eq:
  assumes "rf_ok f" "\<forall>x. wanted sc x \<longrightarrow> visit_code sc x = SUCCESS" "\<forall>x. visit_code sc x \<noteq> RECORD_EOF"
    and "scans f sc rows" "length rows \<le> n"
  shows "scan_all n f sc = Some (RECORD_EOF, filter (wanted sc) rows)"
  using assms(2-)
proof (induction n arbitrary: sc rows)
  case 0
  then have "fetched f sc [] (fetch_next_record f sc)" using fetch_next_record_eq[OF assms(1)] by simp
  then show ?case using 0(4) by (auto simp: fetched_def scan_all.simps scan_next_def OB_FAIL_def)
next
  case (Suc n)
  have F: "fetched f sc rows (fetch_next_record f sc)" by (rule fetch_next_record_eq[OF assms(1) Suc.prems(2,3)])
  show ?case
  proof (cases "skip sc rows")
    case Nil
    then show ?thesis
      using F filter_skip[of sc rows] by (auto simp: fetched_def scan_all.simps scan_next_def OB_FAIL_def)
  next
    case (Cons x xs)
    have x: "visit_code sc x = SUCCESS" "wanted sc x" using skip_head[OF Cons] Suc.prems(1) by blast+
    obtain sc' where sc': "fetch_next_record f sc = Some (SUCCESS, sc')" "same_scan sc sc'" "next_record sc' = x"
        "scans f sc' xs" using F Cons x(1) by (auto simp: fetched_def)
    have "length (skip sc rows) \<le> length rows" unfolding skip_def by (rule length_dropWhile_le)
    then have "length xs \<le> n" using Cons Suc.prems(4) by simp
    then have "scan_all n f sc' = Some (RECORD_EOF, filter (wanted sc) xs)"
      using Suc.IH[of sc' xs] sc'(4) same_scan_wanted[OF sc'(2)] Suc.prems(1,2) by simp
    moreover have "filter (wanted sc) rows = x # filter (wanted sc) xs"
      using filter_skip[of sc rows] Cons x(2) by simp
    ultimately show ?thesis
      using sc'(1,3) by (simp add: scan_all.simps[of "Suc n"] scan_next_def)
  qed
qed

text \<open>The specification lists every record of the file once.\<close>

lemma set_rows_from:
  "set (rows_from pg 0) = {(r, d). page_num r = pg_num pg \<and> 0 \<le> slot_num r \<and> records pg (nat (slot_num r)) = Some d}"
proof -
  have "(r, d) \<in> set (rows_from pg 0)"
    if "page_num r = pg_num pg" "0 \<le> slot_num r" "records pg (nat (slot_num r)) = Some d" for r :: rid and d
    unfolding rows_from_def set_map
    by (rule image_eqI[of _ _ "nat (slot_num r)"]) (use that records_bounded[OF that(3)] in auto)
  then show ?thesis by (auto simp: rows_from_def)
qed

lemma set_file_rows:
  assumes "rf_ok f"
  shows "set (file_rows f) = {(r, d). rf_records f r = Some d}"
proof -
  have pos: "p \<in> data_pages f \<Longrightarrow> 0 < p" for p by (auto simp: data_pages_def live_pages_def)
  have num: "p \<in> data_pages f \<Longrightarrow> pg_num (the (rf_pages f p)) = p" for p
    using rf_okD(5)[OF assms] rf_okD(3)[OF assms] by (force simp: rf_page_ok_def)
  show ?thesis
    using pos num
    by (auto simp: file_rows_def rows_after_def set_pages_after set_rows_from rf_records_def split: if_splits)
qed

text \<open>The order of pages and slots.\<close>

definition rid_before :: "rid \<Rightarrow> rid \<Rightarrow> bool" where
  "rid_before a b \<longleftrightarrow> page_num a < page_num b \<or> page_num a = page_num b \<and> slot_num a < slot_num b"

lemma sorted_pages_after: "sorted_wrt (<) (pages_after f cur)"
proof -
  have "sorted_wrt (<) [i..j]" for i j :: int
    by (induction i j rule: upto.induct) (subst upto.simps, auto)
  then show ?thesis by (simp add: pages_after_def sorted_wrt_filter)
qed

lemma sorted_file_rows:
  assumes "rf_ok f"
  shows "sorted_wrt rid_before (map fst (file_rows f))"
proof -
  have page: "sorted_wrt rid_before (map fst (rows_from pg 0))" for pg
  proof -
    have "sorted_wrt (<) (filter (\<lambda>i. records pg i \<noteq> None) [0..<pg_cap pg])" by (rule sorted_wrt_filter) simp
    then show ?thesis
      by (simp add: rows_from_def sorted_wrt_map rid_before_def)
  qed
  have num: "page_num (fst x) = p" if "x \<in> set (rows_from (the (rf_pages f p)) 0)" "p \<in> data_pages f" for x p
    using that rf_okD(5)[OF assms that(2)] rf_okD(3)[OF assms, of p] by (auto simp: rf_page_ok_def rows_from_def)
  have "sorted_wrt rid_before (map fst (concat (map (\<lambda>p. rows_from (the (rf_pages f p)) 0) ps)))"
    if "sorted_wrt (<) ps" "set ps \<subseteq> data_pages f" for ps
    using that
  proof (induction ps)
    case (Cons p ps)
    have "rid_before (fst x) (fst y)"
      if "x \<in> set (rows_from (the (rf_pages f p)) 0)" "y \<in> set (rows_from (the (rf_pages f q)) 0)" "q \<in> set ps" for x y q
      using num[OF that(1)] num[OF that(2)] that(3) Cons.prems by (auto simp: rid_before_def)
    then show ?case using Cons page by (fastforce simp: sorted_wrt_append simp del: split_paired_All split_paired_Ex)
  qed simp
  moreover have "set (pages_after f 0) \<subseteq> data_pages f" by (auto simp: pages_after_def)
  ultimately show ?thesis using sorted_pages_after[of f 0] by (simp add: file_rows_def rows_after_def)
qed

lemma distinct_file_rows:
  assumes "rf_ok f"
  shows "distinct (map fst (file_rows f))"
proof -
  have "distinct xs" if "sorted_wrt rid_before xs" for xs
    using that by (induction xs) (auto simp: rid_before_def)
  then show ?thesis using sorted_file_rows[OF assms] by blast
qed

lemma length_file_rows:
  assumes "rf_ok f"
  shows "length (file_rows f) = card (dom (rf_records f))"
proof -
  have "dom (rf_records f) = fst ` set (file_rows f)" using set_file_rows[OF assms] by (force simp: dom_def)
  then have "card (dom (rf_records f)) = card (set (map fst (file_rows f)))" by simp
  then show ?thesis using distinct_card[OF distinct_file_rows[OF assms]] by simp
qed

section \<open>A concrete file for the witnesses\<close>

text \<open>A file that has no data page yet, for records of four bytes.\<close>

definition demo_file :: rec_file where
  "demo_file = \<lparr>rf_hdr = demo_header, rf_pages = Map.empty, rf_size = 4, free_pages = []\<rparr>"

lemma demo_file_facts:
  "rf_inv demo_file" "rf_ok demo_file" "rf_fits demo_file [1, 2, 3, 4]" "hdr_room (rf_hdr demo_file)"
  "\<not> has_free_slot demo_file" "data_pages demo_file = {}" "rf_records demo_file = Map.empty" "rf_size demo_file = 4"
proof -
  show dp: "data_pages demo_file = {}" using demo_header_ok(3) by (simp add: data_pages_def demo_file_def)
  show ok: "rf_ok demo_file" using demo_header_ok dp by (simp add: rf_ok_def) (simp add: demo_file_def)
  show "rf_inv demo_file" using ok dp by (simp add: rf_inv_def free_ok_def) (simp add: demo_file_def)
  show "rf_fits demo_file [1, 2, 3, 4]" by (simp add: rf_fits_def demo_file_def)
  show "hdr_room (rf_hdr demo_file)" using demo_header_ok(2) by (simp add: hdr_room_def demo_file_def)
  show "\<not> has_free_slot demo_file" "rf_records demo_file = Map.empty"
    using dp by (auto simp: has_free_slot_def rf_records_def)
  show "rf_size demo_file = 4" by (simp add: demo_file_def)
qed

lemma demo_file_insert:
  obtains r f where "inserted demo_file [1, 2, 3, 4] r f" "rf_inv f" "rf_records f = [r \<mapsto> [1, 2, 3, 4]]" "rf_valid f r"
    "rf_size f = 4"
proof -
  have cap: "0 < file_page_capacity demo_file"
    by (rule file_page_capacity_pos[OF demo_file_facts(2)]) (simp add: demo_file_def)
  from demo_file_facts(1,3,5,4) show thesis
  proof (cases rule: file_insert_grow)
    case (stored r f')
    then show ?thesis
      using that[of r f'] rf_records_valid[of f' r] demo_file_facts(7,8) by (simp add: inserted_def)
  qed (use cap in simp)
qed

section \<open>Properties\<close>

text \<open>
  C24. Inserting a record into a table's file.  A record of the table's length (at most 8144 bytes) is always
  stored while the file can grow: the returned identifier was unused, exactly that identifier now has the
  record, and the invariant holds again.  A new page is taken only when no page has a free slot.
\<close>

theorem file_insert_correct:
  assumes "rf_inv f" "int (length d) = rf_size f" "rf_size f \<le> 8144"
    and "has_free_slot f \<or> allocated_pages (fh (rf_hdr f)) < 8 * FH_BITMAP_BYTES"
  shows "\<exists>r f'. file_insert_record f d = Some (SUCCESS, Some r, f') \<and> rf_inv f' \<and>
    rf_records f r = None \<and> rf_records f' = (rf_records f)(r \<mapsto> d) \<and>
    data_pages f' = (if has_free_slot f then data_pages f else insert (page_num r) (data_pages f))"
proof (cases "has_free_slot f")
  case True
  have "rf_fits f d" using assms(2) by (simp add: rf_fits_def)
  from assms(1) this True show ?thesis
    by (rule file_insert_reuse) (use True in \<open>auto simp: inserted_def\<close>)
next
  case False
  have *: "rf_fits f d" "hdr_room (rf_hdr f)" "0 < file_page_capacity f"
    using assms False file_page_capacity_pos[of f] by (simp_all add: rf_fits_def hdr_room_def rf_inv_def)
  from assms(1) *(1) False *(2) show ?thesis
    by (cases rule: file_insert_grow) (use False *(3) in \<open>auto simp: inserted_def\<close>)
qed

theorem file_insert_correct_witness:
  "\<exists>r f'. file_insert_record demo_file [1, 2, 3, 4] = Some (SUCCESS, Some r, f') \<and> rf_inv f' \<and>
     rf_records f' = [r \<mapsto> [1, 2, 3, 4]] \<and> data_pages f' = {page_num r}"
  using file_insert_correct[OF demo_file_facts(1), of "[1, 2, 3, 4]"] demo_file_facts demo_header_ok(2)
  by (auto simp: demo_file_def)

text \<open>
  Deleting and reading back: for an identifier inside a data page, a present record is removed and
  nothing else changes, an absent one gives RECORD_NOT_EXIST and the content stays; in both cases the
  invariant holds afterwards, so the page of a deleted record is found again by later insertions.
\<close>

theorem file_delete_correct:
  assumes "rf_inv f" "rf_valid f r"
  shows "\<exists>f'. file_delete_record f r = Some (if rf_records f r = None then RECORD_NOT_EXIST else SUCCESS, f') \<and>
    rf_inv f' \<and> rf_records f' = (rf_records f)(r := None) \<and>
    file_get_record f' r = Some (RECORD_NOT_EXIST, None)"
  using assms
proof (cases rule: file_delete_cases)
  case (absent f')
  then show ?thesis using file_get_eq[of f' r] assms(2) by (auto simp: rf_inv_def)
next
  case (present f')
  then show ?thesis using file_get_eq[of f' r] assms(2) by (auto simp: rf_inv_def)
qed

theorem file_delete_correct_witness:
  "\<exists>f r f'. rf_records f r = Some [1, 2, 3, 4] \<and> file_delete_record f r = Some (SUCCESS, f') \<and> rf_records f' = Map.empty"
proof -
  obtain r f where f: "rf_inv f" "rf_records f = [r \<mapsto> [1, 2, 3, 4]]" "rf_valid f r" by (rule demo_file_insert)
  then show ?thesis using file_delete_correct[OF f(1,3)] by - (rule exI[of _ f], rule exI[of _ r], auto)
qed

text \<open>
  Updating through \<open>visit_record\<close>: the updater sees the stored record; if it reports a change the new
  bytes replace the record, otherwise the file stays as it is; an unused slot gives RECORD_NOT_EXIST and
  the updater is not called.
\<close>

theorem file_visit_correct:
  assumes "rf_inv f" "rf_valid f r" "\<And>x. int (length (snd (updater x))) = rf_size f"
  shows "case rf_records f r of
      None \<Rightarrow> file_visit_record f r updater = Some (RECORD_NOT_EXIST, f)
    | Some d \<Rightarrow> \<exists>f'. file_visit_record f r updater = Some (SUCCESS, f') \<and> rf_inv f' \<and>
        rf_records f' = (if fst (updater (r, d)) then (rf_records f)(r \<mapsto> snd (updater (r, d))) else rf_records f)"
  by (rule file_visit_cases[OF assms(1,2), of updater]) (use assms in \<open>auto simp: rf_fits_def\<close>)

theorem file_visit_correct_witness:
  "\<exists>f r f'. rf_records f r = Some [1, 2, 3, 4] \<and> file_visit_record f r (\<lambda>x. (True, [5, 6, 7, 8])) = Some (SUCCESS, f') \<and>
     rf_records f' = [r \<mapsto> [5, 6, 7, 8]]"
proof -
  obtain r f where f: "rf_inv f" "rf_records f = [r \<mapsto> [1, 2, 3, 4]]" "rf_valid f r" "rf_size f = 4"
    by (rule demo_file_insert)
  then show ?thesis using file_visit_correct[OF f(1,3), of "\<lambda>x. (True, [5, 6, 7, 8])"]
    by - (rule exI[of _ f], rule exI[of _ r], auto)
qed

text \<open>
  C25. A table scan ends and returns each record of the file that passes the filter and that the transaction
  sees, once, in the order of pages and slots; then it reports RECORD_EOF.  The transaction answers
  SUCCESS or RECORD_INVISIBLE, as it does for a read-only scan.
\<close>

theorem scan_lists_records:
  assumes "rf_inv f" "\<And>x v. trx = Some v \<Longrightarrow> v x \<in> {SUCCESS, RECORD_INVISIBLE}"
    and "card (dom (rf_records f)) \<le> n"
  shows "\<exists>xs. scan_all n f (open_scan mode flt trx) = Some (RECORD_EOF, xs) \<and> sorted_wrt rid_before (map fst xs) \<and>
    set xs = {(r, d). rf_records f r = Some d \<and> (case flt of None \<Rightarrow> True | Some g \<Rightarrow> g (r, d)) \<and>
                      (case trx of None \<Rightarrow> True | Some v \<Rightarrow> v (r, d) = SUCCESS)}"
proof -
  let ?sc = "open_scan mode flt trx"
  have ok: "rf_ok f" using assms(1) by (simp add: rf_inv_def)
  have sc: "sc_filter ?sc = flt" "sc_trx ?sc = trx" by (simp_all add: open_scan_def)
  have codes: "visit_code ?sc x \<noteq> RECORD_EOF \<and> (wanted ?sc x \<longrightarrow> visit_code ?sc x = SUCCESS)" for x
    using assms(2)[of _ x] by (cases trx) (auto simp: visit_code_def wanted_def open_scan_def)
  have "scans f ?sc (file_rows f)"
    by (simp add: scans_def open_scan_def bp_iter_init_def file_rows_def)
  then have "scan_all n f ?sc = Some (RECORD_EOF, filter (wanted ?sc) (file_rows f))"
    using scan_all_eq[OF ok, of ?sc "file_rows f" n] codes length_file_rows[OF ok] assms(3) by simp
  moreover have "sorted_wrt rid_before (map fst (filter (wanted ?sc) (file_rows f)))"
    using sorted_file_rows[OF ok] by (simp add: sorted_wrt_map sorted_wrt_filter)
  moreover have "wanted ?sc x \<longleftrightarrow> (case flt of None \<Rightarrow> True | Some g \<Rightarrow> g x) \<and>
      (case trx of None \<Rightarrow> True | Some v \<Rightarrow> v x = SUCCESS)" for x
    using assms(2)[of _ x] by (auto simp: wanted_def sc split: option.splits)
  ultimately show ?thesis
    using set_file_rows[OF ok] by (intro exI[of _ "filter (wanted ?sc) (file_rows f)"]) auto
qed

theorem scan_lists_records_witness:
  "\<exists>f r. rf_records f = [r \<mapsto> [1, 2, 3, 4]] \<and>
     (\<exists>xs. scan_all 1 f (open_scan READ_ONLY None (Some (\<lambda>x. SUCCESS))) = Some (RECORD_EOF, xs) \<and>
        set xs = {(r, [1, 2, 3, 4])})"
proof -
  obtain r f where f: "rf_inv f" "rf_records f = [r \<mapsto> [1, 2, 3, 4]]" by (rule demo_file_insert)
  have "{(q, d). rf_records f q = Some d} = {(r, [1, 2, 3, 4])}" using f(2) by (auto split: if_splits)
  then show ?thesis
    using scan_lists_records[OF f(1), of "Some (\<lambda>x. SUCCESS)" 1 READ_ONLY None] f(2)
    by (intro exI[of _ f] exI[of _ r]) auto
qed

text \<open>
  Opening a file rebuilds the set of free pages: whatever the closed handler had, afterwards it holds
  exactly the data pages that are not full, so that no free slot is ever lost by a restart.
\<close>

theorem reopen_finds_free_pages:
  assumes "rf_ok f"
  shows "\<exists>f'. file_handler_init (file_handler_close f) = Some (SUCCESS, f') \<and> rf_inv f' \<and>
    rf_records f' = rf_records f \<and>
    set (free_pages f') = {p \<in> data_pages f. \<not> (\<forall>i<pg_cap (the (rf_pages f p)). rf_records f \<lparr>page_num = p, slot_num = int i\<rparr> \<noteq> None)}"
proof -
  let ?g = "file_handler_close f"
  have g: "rf_ok ?g" "data_pages ?g = data_pages f" "rf_pages ?g = rf_pages f"
    using assms by (simp_all add: file_handler_close_def)
  obtain ps where ps: "init_free_pages ?g = Some (SUCCESS, ?g\<lparr>free_pages := ps\<rparr>)"
      "set ps = {p \<in> set (pages_after ?g 0). \<not> is_full (the (rf_pages ?g p))}"
    using free_pages_loop_eq[OF g(1), of 0] pages_after_length[of 0 ?g]
    by (auto simp: init_free_pages_def bp_iter_init_def file_handler_close_def)
  have pos: "p \<in> data_pages f \<Longrightarrow> 0 < p" for p by (auto simp: data_pages_def live_pages_def)
  have set: "set ps = {p \<in> data_pages f. \<not> is_full (the (rf_pages f p))}"
    using ps(2) pos g set_pages_after[of 0 ?g] by auto
  have full: "is_full (the (rf_pages f p)) \<longleftrightarrow>
      (\<forall>i<pg_cap (the (rf_pages f p)). rf_records f \<lparr>page_num = p, slot_num = int i\<rparr> \<noteq> None)" if "p \<in> data_pages f" for p
  proof -
    have "page_ok (the (rf_pages f p))" using rf_okD(5)[OF assms that] by (auto simp: rf_page_ok_def)
    then show ?thesis using is_full_iff rf_records_page[OF that] by simp
  qed
  have "rf_inv (?g\<lparr>free_pages := ps\<rparr>)" using g set by (auto simp: rf_inv_def free_ok_def)
  moreover have "set ps = {p \<in> data_pages f.
      \<not> (\<forall>i<pg_cap (the (rf_pages f p)). rf_records f \<lparr>page_num = p, slot_num = int i\<rparr> \<noteq> None)}"
    unfolding set by (rule Collect_cong) (use full in blast)
  ultimately show ?thesis
    using ps(1) by (intro exI[of _ "?g\<lparr>free_pages := ps\<rparr>"]) (simp add: file_handler_init_def file_handler_close_def)
qed

theorem reopen_finds_free_pages_witness:
  "\<exists>f'. file_handler_init (file_handler_close demo_file) = Some (SUCCESS, f') \<and> free_pages f' = []"
  using reopen_finds_free_pages[OF demo_file_facts(2)] demo_file_facts(6) by auto

end
