(* ===== verification/Crc32.thy ===== *)
theory Crc32
  imports MiniOB_Base
begin

text \<open>
  The page checksum (src/deps/common/math/crc.cpp): the 256-entry table and the byte-wise update.  The
  table-driven routine is proved equal to the bit-serial one, and two pages that differ in exactly one
  byte have different checksums.
\<close>

unbundle bit_operations_syntax

section \<open>Model\<close>

text \<open>The initialiser of the table, and the table of \<open>unsigned int\<close> it makes.\<close>

definition crc_constants :: "int list" where
  "crc_constants = [
      0x00000000, 0x77073096, 0xEE0E612C, 0x990951BA, 0x076DC419, 0x706AF48F, 0xE963A535, 0x9E6495A3,
      0x0EDB8832, 0x79DCB8A4, 0xE0D5E91E, 0x97D2D988, 0x09B64C2B, 0x7EB17CBD, 0xE7B82D07, 0x90BF1D91,
      0x1DB71064, 0x6AB020F2, 0xF3B97148, 0x84BE41DE, 0x1ADAD47D, 0x6DDDE4EB, 0xF4D4B551, 0x83D385C7,
      0x136C9856, 0x646BA8C0, 0xFD62F97A, 0x8A65C9EC, 0x14015C4F, 0x63066CD9, 0xFA0F3D63, 0x8D080DF5,
      0x3B6E20C8, 0x4C69105E, 0xD56041E4, 0xA2677172, 0x3C03E4D1, 0x4B04D447, 0xD20D85FD, 0xA50AB56B,
      0x35B5A8FA, 0x42B2986C, 0xDBBBC9D6, 0xACBCF940, 0x32D86CE3, 0x45DF5C75, 0xDCD60DCF, 0xABD13D59,
      0x26D930AC, 0x51DE003A, 0xC8D75180, 0xBFD06116, 0x21B4F4B5, 0x56B3C423, 0xCFBA9599, 0xB8BDA50F,
      0x2802B89E, 0x5F058808, 0xC60CD9B2, 0xB10BE924, 0x2F6F7C87, 0x58684C11, 0xC1611DAB, 0xB6662D3D,
      0x76DC4190, 0x01DB7106, 0x98D220BC, 0xEFD5102A, 0x71B18589, 0x06B6B51F, 0x9FBFE4A5, 0xE8B8D433,
      0x7807C9A2, 0x0F00F934, 0x9609A88E, 0xE10E9818, 0x7F6A0DBB, 0x086D3D2D, 0x91646C97, 0xE6635C01,
      0x6B6B51F4, 0x1C6C6162, 0x856530D8, 0xF262004E, 0x6C0695ED, 0x1B01A57B, 0x8208F4C1, 0xF50FC457,
      0x65B0D9C6, 0x12B7E950, 0x8BBEB8EA, 0xFCB9887C, 0x62DD1DDF, 0x15DA2D49, 0x8CD37CF3, 0xFBD44C65,
      0x4DB26158, 0x3AB551CE, 0xA3BC0074, 0xD4BB30E2, 0x4ADFA541, 0x3DD895D7, 0xA4D1C46D, 0xD3D6F4FB,
      0x4369E96A, 0x346ED9FC, 0xAD678846, 0xDA60B8D0, 0x44042D73, 0x33031DE5, 0xAA0A4C5F, 0xDD0D7CC9,
      0x5005713C, 0x270241AA, 0xBE0B1010, 0xC90C2086, 0x5768B525, 0x206F85B3, 0xB966D409, 0xCE61E49F,
      0x5EDEF90E, 0x29D9C998, 0xB0D09822, 0xC7D7A8B4, 0x59B33D17, 0x2EB40D81, 0xB7BD5C3B, 0xC0BA6CAD,
      0xEDB88320, 0x9ABFB3B6, 0x03B6E20C, 0x74B1D29A, 0xEAD54739, 0x9DD277AF, 0x04DB2615, 0x73DC1683,
      0xE3630B12, 0x94643B84, 0x0D6D6A3E, 0x7A6A5AA8, 0xE40ECF0B, 0x9309FF9D, 0x0A00AE27, 0x7D079EB1,
      0xF00F9344, 0x8708A3D2, 0x1E01F268, 0x6906C2FE, 0xF762575D, 0x806567CB, 0x196C3671, 0x6E6B06E7,
      0xFED41B76, 0x89D32BE0, 0x10DA7A5A, 0x67DD4ACC, 0xF9B9DF6F, 0x8EBEEFF9, 0x17B7BE43, 0x60B08ED5,
      0xD6D6A3E8, 0xA1D1937E, 0x38D8C2C4, 0x4FDFF252, 0xD1BB67F1, 0xA6BC5767, 0x3FB506DD, 0x48B2364B,
      0xD80D2BDA, 0xAF0A1B4C, 0x36034AF6, 0x41047A60, 0xDF60EFC3, 0xA867DF55, 0x316E8EEF, 0x4669BE79,
      0xCB61B38C, 0xBC66831A, 0x256FD2A0, 0x5268E236, 0xCC0C7795, 0xBB0B4703, 0x220216B9, 0x5505262F,
      0xC5BA3BBE, 0xB2BD0B28, 0x2BB45A92, 0x5CB36A04, 0xC2D7FFA7, 0xB5D0CF31, 0x2CD99E8B, 0x5BDEAE1D,
      0x9B64C2B0, 0xEC63F226, 0x756AA39C, 0x026D930A, 0x9C0906A9, 0xEB0E363F, 0x72076785, 0x05005713,
      0x95BF4A82, 0xE2B87A14, 0x7BB12BAE, 0x0CB61B38, 0x92D28E9B, 0xE5D5BE0D, 0x7CDCEFB7, 0x0BDBDF21,
      0x86D3D2D4, 0xF1D4E242, 0x68DDB3F8, 0x1FDA836E, 0x81BE16CD, 0xF6B9265B, 0x6FB077E1, 0x18B74777,
      0x88085AE6, 0xFF0F6A70, 0x66063BCA, 0x11010B5C, 0x8F659EFF, 0xF862AE69, 0x616BFFD3, 0x166CCF45,
      0xA00AE278, 0xD70DD2EE, 0x4E048354, 0x3903B3C2, 0xA7672661, 0xD06016F7, 0x4969474D, 0x3E6E77DB,
      0xAED16A4A, 0xD9D65ADC, 0x40DF0B66, 0x37D83BF0, 0xA9BCAE53, 0xDEBB9EC5, 0x47B2CF7F, 0x30B5FFE9,
      0xBDBDF21C, 0xCABAC28A, 0x53B39330, 0x24B4A3A6, 0xBAD03605, 0xCDD70693, 0x54DE5729, 0x23D967BF,
      0xB3667A2E, 0xC4614AB8, 0x5D681B02, 0x2A6F2B94, 0xB40BBE37, 0xC30C8EA1, 0x5A05DF1B, 0x2D02EF8D]"

definition crc_table :: "32 word list" where
  "crc_table = map word_of_int crc_constants"

definition crc_step :: "32 word \<Rightarrow> byte \<Rightarrow> 32 word" where
  "crc_step crc c = crc_table ! unat ((crc XOR ucast c) AND 0xff) XOR drop_bit 8 crc"

definition crc32 :: "byte list \<Rightarrow> 32 word" where
  "crc32 buffer = foldl crc_step 0xffffffff buffer"

text \<open>
  The source adds the signed \<open>char\<close> to the register before masking with 0xff; the sign extension does
  not reach the masked bits.
\<close>

section \<open>The bit-serial reference\<close>

text \<open>One bit of polynomial division by 0xEDB88320 (the reflected CRC-32 polynomial).\<close>

definition crc_bit :: "32 word \<Rightarrow> 32 word" where
  "crc_bit x = (if bit x 0 then drop_bit 1 x XOR 0xEDB88320 else drop_bit 1 x)"

definition crc_bits :: "32 word \<Rightarrow> 32 word" where
  "crc_bits x = (crc_bit ^^ 8) x"

definition crc32_ref :: "byte list \<Rightarrow> 32 word" where
  "crc32_ref buffer = foldl (\<lambda>crc c. crc_bits (crc XOR ucast c)) 0xffffffff buffer"

section \<open>The table holds the remainders\<close>

text \<open>The bit-serial step on integers, for the evaluation of the 256 entries.\<close>

definition crc_bit_int :: "int \<Rightarrow> int" where
  "crc_bit_int n = (if n mod 2 = 1 then (n div 2) XOR 0xEDB88320 else n div 2)"

definition crc_bits_int :: "int \<Rightarrow> int" where
  "crc_bits_int n = crc_bit_int (crc_bit_int (crc_bit_int (crc_bit_int
     (crc_bit_int (crc_bit_int (crc_bit_int (crc_bit_int n)))))))"

lemma crc_constants_eq: "map crc_bits_int [0..255] = crc_constants"
  by code_simp

lemma uint_drop_bit_1: "uint (drop_bit 1 (x :: 32 word)) = uint x div 2"
proof -
  have "uint (drop_bit 1 x) = drop_bit 1 (uint x)"
    by (rule bit_eqI) (auto simp: bit_simps dest: bit_imp_le_length)
  then show ?thesis by (simp add: drop_bit_eq_div)
qed

lemma uint_crc_bit: "uint (crc_bit x) = crc_bit_int (uint x)"
proof -
  have "bit x 0 \<longleftrightarrow> uint x mod 2 = 1"
    using bit_uint_iff[of x 0] by (simp add: bit_0 odd_iff_mod_2_eq_one)
  moreover have "uint (0xEDB88320 :: 32 word) = 0xEDB88320" by simp
  ultimately show ?thesis
    by (simp add: crc_bit_def crc_bit_int_def unsigned_xor_eq uint_drop_bit_1 del: drop_bit_Suc One_nat_def)
qed

lemma uint_crc_bits: "uint (crc_bits x) = crc_bits_int (uint x)"
  by (simp add: crc_bits_def crc_bits_int_def uint_crc_bit eval_nat_numeral)

lemma crc_table_nth:
  assumes "i < 256"
  shows "crc_table ! i = crc_bits (word_of_nat i)"
proof -
  have "crc_constants ! i = crc_bits_int (int i)"
    using assms by (simp add: nth_upto flip: crc_constants_eq)
  moreover have "length crc_constants = 256" by (simp flip: crc_constants_eq)
  ultimately have "crc_table ! i = word_of_int (crc_bits_int (int i))"
    using assms by (simp add: crc_table_def)
  also have "int i = uint (word_of_nat i :: 32 word)"
    using assms by (simp add: unsigned_of_nat take_bit_nat_eq_self)
  finally show ?thesis by (simp flip: uint_crc_bits)
qed

section \<open>Linearity and injectivity\<close>

lemma xor_cancel: "(x XOR z = y XOR z) = (x = (y :: 'a::len word))" "(z XOR x = z XOR y) = (x = (y :: 'a::len word))"
  by (auto simp: bit_eq_iff bit_simps)

lemma unat_low_byte: "unat ((y :: 32 word) AND 0xff) < 256"
proof -
  have "y AND 0xff = take_bit 8 y" by (simp add: take_bit_eq_mask mask_eq_exp_minus_1)
  then show ?thesis using take_bit_nat_less_exp[of 8 "unat y"] by (simp add: unsigned_take_bit_eq)
qed

lemma crc_bit_xor: "crc_bit (x XOR y) = crc_bit x XOR crc_bit y"
  by (auto simp: crc_bit_def bit_simps drop_bit_xor ac_simps xor.left_commute)

lemma crc_bits_xor: "crc_bits (x XOR y) = crc_bits x XOR crc_bits y"
proof -
  have "(crc_bit ^^ n) (x XOR y) = (crc_bit ^^ n) x XOR (crc_bit ^^ n) y" for n
    by (induction n) (simp_all add: crc_bit_xor)
  then show ?thesis by (simp add: crc_bits_def)
qed

lemma crc_bit_shift: "(\<And>k. k < n \<Longrightarrow> \<not> bit x k) \<Longrightarrow> (crc_bit ^^ n) x = drop_bit n x"
proof (induction n)
  case (Suc n)
  then have "(crc_bit ^^ n) x = drop_bit n x" by simp
  moreover have "\<not> bit (drop_bit n x) 0" using Suc.prems[of n] by (simp add: bit_drop_bit_eq)
  ultimately show ?case by (auto simp: crc_bit_def[of "drop_bit n x"] drop_bit_drop_bit)
qed simp

lemma crc_bits_split: "crc_bits x = crc_bits (x AND 0xff) XOR drop_bit 8 x"
proof -
  have m: "(0xff :: 32 word) = mask 8" by (simp add: mask_eq_exp_minus_1)
  have "x = (x AND mask 8) XOR (x AND NOT (mask 8))"
    by (rule bit_eqI) (auto simp: bit_simps)
  then have "crc_bits x = crc_bits (x AND mask 8) XOR crc_bits (x AND NOT (mask 8))"
    by (metis crc_bits_xor)
  moreover have "crc_bits (x AND NOT (mask 8)) = drop_bit 8 (x AND NOT (mask 8))"
    unfolding crc_bits_def by (rule crc_bit_shift) (simp add: bit_simps)
  moreover have "drop_bit 8 (x AND NOT (mask 8)) = drop_bit 8 x"
    by (rule bit_eqI) (auto simp: bit_simps dest: bit_imp_le_length)
  ultimately show ?thesis by (simp add: m)
qed

lemma crc_step_bits: "crc_step crc c = crc_bits (crc XOR ucast c)"
proof -
  let ?y = "crc XOR ucast c"
  note lt = unat_low_byte[of ?y]
  have "drop_bit 8 ?y = drop_bit 8 crc"
    by (rule bit_eqI) (auto simp: bit_simps dest: bit_imp_le_length)
  then show ?thesis
    using crc_bits_split[of ?y] crc_table_nth[OF lt] by (simp add: crc_step_def)
qed

lemma crc_bit_inj: "crc_bit x = crc_bit y \<Longrightarrow> x = y"
proof -
  assume eq: "crc_bit x = crc_bit y"
  have top: "bit (crc_bit z) 31 = bit z 0" for z
    by (auto simp: crc_bit_def bit_simps dest: bit_imp_le_length)
  have b0: "bit x 0 = bit y 0" using eq top by metis
  then have "drop_bit 1 x = drop_bit 1 y"
    using eq by (auto simp: crc_bit_def xor_cancel split: if_splits)
  then have "bit x (Suc k) = bit y (Suc k)" for k
    by (metis bit_drop_bit_eq comp_apply plus_1_eq_Suc)
  with b0 have "bit x k = bit y k" for k by (cases k) auto
  then show "x = y" by (simp add: bit_eq_iff)
qed

lemma crc_bits_inj: "crc_bits x = crc_bits y \<longleftrightarrow> x = y"
proof -
  have "(crc_bit ^^ n) x = (crc_bit ^^ n) y \<longleftrightarrow> x = y" for n
    by (induction n) (auto dest: crc_bit_inj)
  then show ?thesis by (simp add: crc_bits_def)
qed

lemma crc_fold_inj: "foldl crc_step s xs = foldl crc_step t xs \<longleftrightarrow> s = t"
proof (induction xs arbitrary: s t)
  case (Cons c xs)
  then show ?case by (simp add: crc_step_bits crc_bits_inj xor_cancel)
qed simp

section \<open>Properties\<close>

text \<open>
  C26. The table-driven checksum of the program is the bit-serial CRC-32 with polynomial 0xEDB88320
  and initial value 0xffffffff (without the final inversion), on every input.
\<close>

theorem crc32_eq_ref: "crc32 buffer = crc32_ref buffer"
proof -
  have "crc_step = (\<lambda>crc c. crc_bits (crc XOR ucast c))" by (intro ext crc_step_bits)
  then show ?thesis by (simp add: crc32_def crc32_ref_def)
qed

text \<open>
  A page whose content differs from the checksummed one in exactly one byte (wherever, and by
  whatever value) has a different checksum.
\<close>

theorem crc32_detects_one_byte: "c \<noteq> d \<Longrightarrow> crc32 (xs @ c # ys) \<noteq> crc32 (xs @ d # ys)"
proof -
  assume "c \<noteq> d"
  then have "ucast c \<noteq> (ucast d :: 32 word)" by (fastforce simp: bit_eq_iff bit_simps)
  then show ?thesis
    by (simp add: crc32_def crc_fold_inj crc_step_bits crc_bits_inj xor_cancel)
qed

theorem crc32_detects_one_byte_witness: "crc32 [1, 2, 3] \<noteq> crc32 [1, 7, 3]"
  using crc32_detects_one_byte[of 2 7 "[1]" "[3]"] by simp

end
