(* ===== verification/Double_Write.thy ===== *)
theory Double_Write
  imports Crc32
begin

text \<open>
  The double-write buffer of src/src/observer/storage/buffer/double_write_buffer.cpp: pages are first
  written to slots of a shared file and only later, in batches, to their own files, so that a page whose
  write was torn by a crash can be repaired from its slot.  The model has the in-memory table, the slots
  and the header of the shared file, and the contents of the data files.
\<close>

section \<open>State\<close>

text \<open>\<open>Page\<close> of src/src/observer/storage/buffer/page.h.\<close>

record page =
  p_lsn :: LSN
  p_sum :: "32 word"
  p_data :: "byte list"

type_synonym page_key = "int \<times> PageNum"

record dblwr_page =
  dw_key :: page_key
  dw_index :: nat
  dw_valid :: bool
  dw_page :: page

text \<open>
  The table \<open>dblwr_pages_\<close> is an association list in some iteration order; an entry whose page object has
  been deleted but is still in the table (a dangling pointer) has the value \<open>None\<close>.  \<open>dw_slots\<close> and
  \<open>dw_file_cnt\<close> are the shared file, \<open>dw_cnt\<close> the header in memory.  \<open>data_files\<close> are the pages on disk by
  file and number, \<open>open_pools\<close> the identifiers known to the buffer pool manager.  Write errors are
  inputs: \<open>slot_error\<close> for the shared file, \<open>page_error\<close> for the pages of the data files.
\<close>

record dblwr =
  dw_table :: "(page_key \<times> dblwr_page option) list"
  dw_slots :: "nat \<rightharpoonup> dblwr_page"
  dw_cnt :: nat
  dw_file_cnt :: nat
  dw_max :: nat
  data_files :: "page_key \<rightharpoonup> page"
  open_pools :: "int set"
  slot_error :: "rc option"
  page_error :: "page_key \<Rightarrow> rc option"

section \<open>Operations\<close>

text \<open>\<open>DiskBufferPool::write_page\<close>.\<close>

definition data_write :: "page_key \<Rightarrow> page \<Rightarrow> dblwr \<Rightarrow> rc \<times> dblwr" where
  "data_write k p s = (case page_error s k of
     Some e \<Rightarrow> (e, s)
   | None \<Rightarrow> (SUCCESS, s\<lparr>data_files := (data_files s)(k \<mapsto> p)\<rparr>))"

definition write_page_internal :: "dblwr_page \<Rightarrow> dblwr \<Rightarrow> rc \<times> dblwr" where
  "write_page_internal p s = (case slot_error s of
     Some e \<Rightarrow> (e, s)
   | None \<Rightarrow> (SUCCESS, s\<lparr>dw_slots := (dw_slots s)(dw_index p \<mapsto> p)\<rparr>))"

definition dw_write_page :: "dblwr_page \<Rightarrow> dblwr \<Rightarrow> (rc \<times> dblwr) option" where
  "dw_write_page p s =
     (if \<not> dw_valid p then Some (SUCCESS, s)
      else if fst (dw_key p) \<notin> open_pools s then None
      else Some (data_write (dw_key p) (dw_page p) s))"

definition free_entry :: "page_key \<Rightarrow> dblwr \<Rightarrow> dblwr" where
  "free_entry k s = s\<lparr>dw_table := map (\<lambda>(k', v). (k', if k' = k then None else v)) (dw_table s)\<rparr>"

fun flush_entries :: "(page_key \<times> dblwr_page option) list \<Rightarrow> dblwr \<Rightarrow> (rc \<times> dblwr) option" where
  "flush_entries [] s = Some (SUCCESS, s)"
| "flush_entries ((k, None) # es) s = None"
| "flush_entries ((k, Some p) # es) s = do {
     (r, s1) \<leftarrow> dw_write_page p s;
     if r \<noteq> SUCCESS then Some (r, s1)
     else flush_entries es (free_entry k (snd (write_page_internal (p\<lparr>dw_valid := False\<rparr>) s1)))
   }"

definition dw_flush_page :: "dblwr \<Rightarrow> (rc \<times> dblwr) option" where
  "dw_flush_page s = do {
     (r, s1) \<leftarrow> flush_entries (dw_table s) s;
     if r \<noteq> SUCCESS then Some (r, s1)
     else Some (SUCCESS, s1\<lparr>dw_table := [], dw_cnt := 0\<rparr>)
   }"

definition set_entry :: "page_key \<Rightarrow> dblwr_page \<Rightarrow> dblwr \<Rightarrow> dblwr" where
  "set_entry k p s = s\<lparr>dw_table := map (\<lambda>(k', v). (k', if k' = k then Some p else v)) (dw_table s)\<rparr>"

text \<open>The steps behind a successful write of the slot: the header of the shared file, then the limit.\<close>

definition dw_after_insert :: "nat \<Rightarrow> dblwr \<Rightarrow> (rc \<times> dblwr) option" where
  "dw_after_insert page_cnt s =
     (let s1 = (if page_cnt + 1 > dw_cnt s then s\<lparr>dw_cnt := page_cnt + 1\<rparr> else s)
      in if page_cnt + 1 > dw_cnt s \<and> slot_error s \<noteq> None then Some (the (slot_error s), s1)
         else
           (let s2 = (if page_cnt + 1 > dw_cnt s then s1\<lparr>dw_file_cnt := page_cnt + 1\<rparr> else s1)
            in if length (dw_table s2) \<ge> dw_max s2 then dw_flush_page s2 else Some (SUCCESS, s2)))"

definition add_page :: "page_key \<Rightarrow> page \<Rightarrow> dblwr \<Rightarrow> (rc \<times> dblwr) option" where
  "add_page k p s = (case map_of (dw_table s) k of
     Some None \<Rightarrow> None
   | Some (Some e) \<Rightarrow>
       (let e' = e\<lparr>dw_page := p\<rparr> in Some (write_page_internal e' (set_entry k e' s)))
   | None \<Rightarrow>
       (let page_cnt = length (dw_table s);
            e = \<lparr>dw_key = k, dw_index = page_cnt, dw_valid = True, dw_page = p\<rparr>;
            s1 = s\<lparr>dw_table := dw_table s @ [(k, Some e)]\<rparr>
        in case write_page_internal e s1 of (r, s2) \<Rightarrow>
             if OB_FAIL r then Some (r, s2) else dw_after_insert page_cnt s2))"

definition dw_read_page :: "page_key \<Rightarrow> dblwr \<Rightarrow> (rc \<times> page option) option" where
  "dw_read_page k s = (case map_of (dw_table s) k of
     Some (Some e) \<Rightarrow> Some (SUCCESS, Some (dw_page e))
   | Some None \<Rightarrow> None
   | None \<Rightarrow> Some (BUFFERPOOL_INVALID_PAGE_NUM, None))"

text \<open>\<open>clear_pages\<close>: the pages of one file leave the table, are sorted by number and written.\<close>

fun clear_write :: "dblwr_page list \<Rightarrow> dblwr \<Rightarrow> dblwr" where
  "clear_write [] s = s"
| "clear_write (p # ps) s = (case data_write (dw_key p) (dw_page p) s of (r, s1) \<Rightarrow>
     if OB_FAIL r then s1
     else clear_write ps (snd (write_page_internal (p\<lparr>dw_valid := False\<rparr>) s1)))"

definition clear_pages :: "int \<Rightarrow> dblwr \<Rightarrow> (rc \<times> dblwr) option" where
  "clear_pages bp s =
     (let spec = [v. (k, v) \<leftarrow> dw_table s, fst k = bp]
      in if None \<in> set spec then None
         else Some (SUCCESS, clear_write (sort_key (\<lambda>p. snd (dw_key p)) (map the spec))
                (s\<lparr>dw_table := filter (\<lambda>e. fst (fst e) \<noteq> bp) (dw_table s)\<rparr>)))"

text \<open>\<open>load_pages\<close> when the server starts; a slot that cannot be read ends it.\<close>

fun load_slots :: "nat list \<Rightarrow> dblwr \<Rightarrow> rc \<times> dblwr" where
  "load_slots [] s = (SUCCESS, s)"
| "load_slots (i # is) s = (case dw_slots s i of
     None \<Rightarrow> (IOERR_READ, s)
   | Some p \<Rightarrow>
       load_slots is (if crc32 (p_data (dw_page p)) = p_sum (dw_page p) \<and> map_of (dw_table s) (dw_key p) = None
                      then s\<lparr>dw_table := dw_table s @ [(dw_key p, Some p)]\<rparr> else s))"

definition load_pages :: "dblwr \<Rightarrow> rc \<times> dblwr" where
  "load_pages s =
     (if dw_table s \<noteq> [] then (BUFFERPOOL_OPEN, s)
      else load_slots [0..<dw_file_cnt s] (s\<lparr>dw_cnt := dw_file_cnt s\<rparr>))"

definition dw_recover :: "dblwr \<Rightarrow> (rc \<times> dblwr) option" where
  "dw_recover s = dw_flush_page s"

section \<open>The current version of a page\<close>

text \<open>The page as a reader sees it: the table first, then the data file.\<close>

definition dw_view :: "dblwr \<Rightarrow> page_key \<rightharpoonup> page" where
  "dw_view s k = (case map_of (dw_table s) k of Some (Some e) \<Rightarrow> Some (dw_page e) | _ \<Rightarrow> data_files s k)"

text \<open>
  The slots of the shared file mirror the table: entry number \<open>i\<close> of the table is in slot \<open>i\<close>, and the
  remaining slots that a restart would read are marked invalid.
\<close>

definition entry_ok :: "dblwr \<Rightarrow> nat \<Rightarrow> bool" where
  "entry_ok s i \<longleftrightarrow> (\<exists>e. dw_table s ! i = (dw_key e, Some e) \<and> dw_index e = i \<and> dw_valid e \<and>
     fst (dw_key e) \<in> open_pools s \<and> crc32 (p_data (dw_page e)) = p_sum (dw_page e) \<and> dw_slots s i = Some e)"

definition dw_mirror :: "dblwr \<Rightarrow> bool" where
  "dw_mirror s \<longleftrightarrow> distinct (map fst (dw_table s)) \<and> dw_cnt s = length (dw_table s) \<and>
     length (dw_table s) \<le> dw_file_cnt s \<and> slot_error s = None \<and> page_error s = (\<lambda>_. None) \<and> 0 < dw_max s \<and>
     (\<forall>i<length (dw_table s). entry_ok s i) \<and>
     (\<forall>i. length (dw_table s) \<le> i \<and> i < dw_file_cnt s \<longrightarrow> (\<exists>e. dw_slots s i = Some e \<and> \<not> dw_valid e))"

section \<open>Flushing\<close>

text \<open>Tables without dangling entries whose valid pages belong to open files.\<close>

definition entries_ok :: "int set \<Rightarrow> (page_key \<times> dblwr_page option) list \<Rightarrow> bool" where
  "entries_ok pools es \<longleftrightarrow> distinct (map fst es) \<and>
     (\<forall>x\<in>set es. \<exists>e. x = (dw_key e, Some e) \<and> (dw_valid e \<longrightarrow> fst (dw_key e) \<in> pools))"

text \<open>The data files after the valid pages of a table have been written.\<close>

definition written :: "(page_key \<times> dblwr_page option) list \<Rightarrow> (page_key \<rightharpoonup> page) \<Rightarrow> page_key \<rightharpoonup> page" where
  "written es files k = (case map_of es k of
     Some (Some e) \<Rightarrow> if dw_valid e then Some (dw_page e) else files k | _ \<Rightarrow> files k)"

definition invalid_slot :: "dblwr \<Rightarrow> nat \<Rightarrow> bool" where
  "invalid_slot s i \<longleftrightarrow> (\<exists>e. dw_slots s i = Some e \<and> \<not> dw_valid e)"

lemma flush_entries_effect:
  assumes "entries_ok (open_pools s) es" "slot_error s = None" "page_error s = (\<lambda>_. None)"
  shows "\<exists>s'. flush_entries es s = Some (SUCCESS, s') \<and> data_files s' = written es (data_files s) \<and>
    open_pools s' = open_pools s \<and> slot_error s' = None \<and> page_error s' = page_error s \<and> dw_max s' = dw_max s \<and>
    dw_file_cnt s' = dw_file_cnt s \<and>
    (\<forall>i. invalid_slot s i \<or> (\<exists>e. (dw_key e, Some e) \<in> set es \<and> dw_index e = i) \<longrightarrow> invalid_slot s' i)"
  using assms
proof (induction es arbitrary: s)
  case (Cons x es)
  then obtain e where e: "x = (dw_key e, Some e)" "dw_valid e \<longrightarrow> fst (dw_key e) \<in> open_pools s"
    by (auto simp: entries_ok_def)
  let ?files = "if dw_valid e then (data_files s)(dw_key e \<mapsto> dw_page e) else data_files s"
  let ?s1 = "s\<lparr>data_files := ?files\<rparr>"
  let ?s2 = "free_entry (dw_key e) (?s1\<lparr>dw_slots := (dw_slots s)(dw_index e \<mapsto> e\<lparr>dw_valid := False\<rparr>)\<rparr>)"
  have ok: "entries_ok (open_pools ?s2) es" "slot_error ?s2 = None" "page_error ?s2 = (\<lambda>_. None)"
    using Cons.prems by (auto simp: entries_ok_def free_entry_def)
  obtain s' where s': "flush_entries es ?s2 = Some (SUCCESS, s')" "data_files s' = written es (data_files ?s2)"
      "open_pools s' = open_pools ?s2" "slot_error s' = None" "page_error s' = page_error ?s2"
      "dw_max s' = dw_max ?s2" "dw_file_cnt s' = dw_file_cnt ?s2"
      "\<forall>i. invalid_slot ?s2 i \<or> (\<exists>d. (dw_key d, Some d) \<in> set es \<and> dw_index d = i) \<longrightarrow> invalid_slot s' i"
    using Cons.IH[OF ok] by blast
  have "flush_entries (x # es) s = Some (SUCCESS, s')"
    using s'(1) e Cons.prems(2,3)
    by (cases "dw_valid e") (simp_all add: dw_write_page_def data_write_def write_page_internal_def)
  moreover have "data_files s' = written (x # es) (data_files s)"
  proof
    fix k
    have "map_of es (dw_key e) = None"
      using Cons.prems(1) e(1) by (simp add: entries_ok_def map_of_eq_None_iff)
    then show "data_files s' k = written (x # es) (data_files s) k"
      by (cases "k = dw_key e") (simp_all add: s'(2) e(1) written_def free_entry_def split: option.splits)
  qed
  moreover have "invalid_slot ?s2 i" if "invalid_slot s i \<or> dw_index e = i" for i
    using that by (auto simp: invalid_slot_def free_entry_def)
  ultimately show ?case
    using s'(3-8) e by (auto simp: free_entry_def)
qed (auto simp: written_def)

lemma dw_flush_effect:
  assumes "entries_ok (open_pools s) (dw_table s)" "slot_error s = None" "page_error s = (\<lambda>_. None)"
  obtains s' where "dw_flush_page s = Some (SUCCESS, s')" "dw_table s' = []" "dw_cnt s' = 0"
    "data_files s' = written (dw_table s) (data_files s)" "open_pools s' = open_pools s"
    "slot_error s' = None" "page_error s' = (\<lambda>_. None)" "dw_max s' = dw_max s" "dw_file_cnt s' = dw_file_cnt s"
    "\<And>i. invalid_slot s i \<Longrightarrow> invalid_slot s' i"
    "\<And>e. (dw_key e, Some e) \<in> set (dw_table s) \<Longrightarrow> invalid_slot s' (dw_index e)"
proof -
  obtain t where t: "flush_entries (dw_table s) s = Some (SUCCESS, t)" "data_files t = written (dw_table s) (data_files s)"
      "open_pools t = open_pools s" "slot_error t = None" "page_error t = page_error s" "dw_max t = dw_max s"
      "dw_file_cnt t = dw_file_cnt s"
      "\<And>i. invalid_slot s i \<or> (\<exists>e. (dw_key e, Some e) \<in> set (dw_table s) \<and> dw_index e = i) \<Longrightarrow> invalid_slot t i"
    using flush_entries_effect[OF assms] by blast
  have same: "invalid_slot (t\<lparr>dw_table := [], dw_cnt := 0\<rparr>) i = invalid_slot t i" for i by (simp add: invalid_slot_def)
  show thesis
    by (rule that[of "t\<lparr>dw_table := [], dw_cnt := 0\<rparr>"])
      (use t assms(3) in \<open>auto simp: dw_flush_page_def same\<close>)
qed

text \<open>Flushing a mirrored table keeps the current version of every page.\<close>

lemma mirror_entries_ok:
  assumes "dw_mirror s"
  shows "entries_ok (open_pools s) (dw_table s)"
    "\<forall>x\<in>set (dw_table s). \<exists>e. x = (dw_key e, Some e) \<and> dw_valid e"
proof -
  have "\<exists>e. x = (dw_key e, Some e) \<and> dw_valid e \<and> fst (dw_key e) \<in> open_pools s" if "x \<in> set (dw_table s)" for x
    using that assms unfolding dw_mirror_def entry_ok_def in_set_conv_nth by metis
  then show "entries_ok (open_pools s) (dw_table s)"
    "\<forall>x\<in>set (dw_table s). \<exists>e. x = (dw_key e, Some e) \<and> dw_valid e"
    using assms unfolding entries_ok_def dw_mirror_def by blast+
qed

lemma written_view:
  assumes "\<forall>x\<in>set (dw_table s). \<exists>e. x = (dw_key e, Some e) \<and> dw_valid e"
  shows "written (dw_table s) (data_files s) = dw_view s"
proof
  fix k
  show "written (dw_table s) (data_files s) k = dw_view s k"
    using assms map_of_SomeD[of "dw_table s" k] by (fastforce simp: written_def dw_view_def split: option.splits)
qed

section \<open>Adding a page\<close>

lemma map_of_set_key:
  "map_of (map (\<lambda>(k', v). (k', if k' = k then w else v)) xs) k' =
     (if k' = k \<and> map_of xs k \<noteq> None then Some w else map_of xs k')"
  by (induction xs) auto

text \<open>Overwriting the page of an entry that is already in the table.\<close>

lemma add_page_hit:
  assumes "dw_mirror s" "map_of (dw_table s) k = Some v" "crc32 (p_data p) = p_sum p"
  obtains s' where "add_page k p s = Some (SUCCESS, s')" "dw_mirror s'" "dw_view s' = (dw_view s)(k \<mapsto> p)"
    "open_pools s' = open_pools s"
proof -
  have M: "distinct (map fst (dw_table s))" "\<And>i. i < length (dw_table s) \<Longrightarrow> entry_ok s i" "slot_error s = None"
    using assms(1) by (simp_all add: dw_mirror_def)
  obtain i where i: "i < length (dw_table s)" "dw_table s ! i = (k, v)"
    using map_of_SomeD[OF assms(2)] by (auto simp: in_set_conv_nth)
  obtain e where e: "v = Some e" "dw_key e = k" "dw_index e = i" "dw_valid e" "fst k \<in> open_pools s" "dw_slots s i = Some e"
    using M(2)[OF i(1)] i(2) by (auto simp: entry_ok_def)
  let ?e = "e\<lparr>dw_page := p\<rparr>"
  let ?t = "map (\<lambda>(k', v). (k', if k' = k then Some ?e else v)) (dw_table s)"
  let ?s = "s\<lparr>dw_table := ?t, dw_slots := (dw_slots s)(i \<mapsto> ?e)\<rparr>"
  have run: "add_page k p s = Some (SUCCESS, ?s)"
    using assms(2) e M(3) by (simp add: add_page_def set_entry_def write_page_internal_def Let_def)
  have keys: "map fst ?t = map fst (dw_table s)" by (auto simp: comp_def case_prod_beta)
  have ne: "fst (dw_table s ! j) \<noteq> k" if "j < length (dw_table s)" "j \<noteq> i" for j
    using that i nth_eq_iff_index_eq[OF M(1), of j i] by auto
  have "entry_ok ?s j" if "j < length (dw_table s)" for j
  proof (cases "j = i")
    case True
    then show ?thesis using i e assms(3) by (auto simp: entry_ok_def intro!: exI[of _ ?e])
  next
    case False
    then show ?thesis
      using M(2)[OF that] ne[OF that] that by (auto simp: entry_ok_def split: prod.splits)
  qed
  moreover have "\<exists>d. dw_slots ?s j = Some d \<and> \<not> dw_valid d"
    if "length (dw_table s) \<le> j" "j < dw_file_cnt s" for j
    using that assms(1) i(1) by (auto simp: dw_mirror_def)
  moreover have "distinct (map fst ?t)" unfolding keys by (rule M(1))
  ultimately have "dw_mirror ?s" using assms(1) by (simp add: dw_mirror_def)
  moreover have "dw_view ?s = (dw_view s)(k \<mapsto> p)"
  proof
    fix k'
    show "dw_view ?s k' = ((dw_view s)(k \<mapsto> p)) k'"
      using assms(2) by (cases "map_of (dw_table s) k'") (auto simp: dw_view_def map_of_set_key split: option.splits)
  qed
  ultimately show thesis using that[OF run] by simp
qed

text \<open>Appending an entry, with or without the flush that the limit triggers.\<close>

lemma add_page_miss:
  assumes "dw_mirror s" "map_of (dw_table s) k = None" "crc32 (p_data p) = p_sum p" "fst k \<in> open_pools s"
  obtains s' where "add_page k p s = Some (SUCCESS, s')" "dw_mirror s'" "dw_view s' = (dw_view s)(k \<mapsto> p)"
    "open_pools s' = open_pools s"
proof -
  have M: "distinct (map fst (dw_table s))" "\<And>i. i < length (dw_table s) \<Longrightarrow> entry_ok s i" "slot_error s = None"
      "page_error s = (\<lambda>_. None)" "dw_cnt s = length (dw_table s)" "length (dw_table s) \<le> dw_file_cnt s" "0 < dw_max s"
    using assms(1) by (simp_all add: dw_mirror_def)
  let ?n = "length (dw_table s)"
  let ?e = "\<lparr>dw_key = k, dw_index = ?n, dw_valid = True, dw_page = p\<rparr>"
  let ?t = "s\<lparr>dw_table := dw_table s @ [(k, Some ?e)], dw_slots := (dw_slots s)(?n \<mapsto> ?e),
      dw_cnt := Suc ?n, dw_file_cnt := Suc ?n\<rparr>"
  have run: "add_page k p s =
      (if length (dw_table ?t) \<ge> dw_max ?t then dw_flush_page ?t else Some (SUCCESS, ?t))"
    using assms(2) M(3,5) by (simp add: add_page_def write_page_internal_def dw_after_insert_def Let_def)
  have "entry_ok ?t j" if "j < Suc ?n" for j
  proof (cases "j = ?n")
    case True
    then show ?thesis using assms(3,4) by (auto simp: entry_ok_def intro!: exI[of _ ?e])
  next
    case False
    then show ?thesis using that M(2)[of j] by (auto simp: entry_ok_def nth_append)
  qed
  moreover have "k \<notin> fst ` set (dw_table s)" using assms(2) by (simp add: map_of_eq_None_iff)
  ultimately have mir: "dw_mirror ?t" using M by (auto simp: dw_mirror_def)
  have view: "dw_view ?t = (dw_view s)(k \<mapsto> p)"
    using assms(2) by (auto simp: dw_view_def fun_eq_iff map_add_def split: option.splits)
  show thesis
  proof (cases "length (dw_table ?t) \<ge> dw_max ?t")
    case False
    then show thesis using that[OF _ mir view] run by simp
  next
    case True
    note E = mirror_entries_ok[OF mir]
    obtain s' where s': "dw_flush_page ?t = Some (SUCCESS, s')" "dw_table s' = []" "dw_cnt s' = 0"
        "data_files s' = written (dw_table ?t) (data_files ?t)" "open_pools s' = open_pools ?t"
        "slot_error s' = None" "page_error s' = (\<lambda>_. None)" "dw_max s' = dw_max ?t" "dw_file_cnt s' = dw_file_cnt ?t"
        "\<And>i. invalid_slot ?t i \<Longrightarrow> invalid_slot s' i"
        "\<And>e. (dw_key e, Some e) \<in> set (dw_table ?t) \<Longrightarrow> invalid_slot s' (dw_index e)"
      by (rule dw_flush_effect[OF E(1)]) (use M in auto)
    have "invalid_slot s' i" if "i < Suc ?n" for i
    proof -
      have "entry_ok ?t i" using mir that by (simp add: dw_mirror_def)
      then obtain d where "dw_table ?t ! i = (dw_key d, Some d)" "dw_index d = i" by (auto simp: entry_ok_def)
      moreover have "dw_table ?t ! i \<in> set (dw_table ?t)" using that by (intro nth_mem) simp
      ultimately show ?thesis using s'(11)[of d] by simp
    qed
    then have "dw_mirror s'" using s' M(7) by (auto simp: dw_mirror_def invalid_slot_def)
    moreover have "dw_view s' = dw_view ?t"
      using written_view[OF E(2)] s'(2,4) by (simp add: dw_view_def fun_eq_iff)
    ultimately show thesis using that[OF _ _ view[folded \<open>dw_view s' = dw_view ?t\<close>]] run True s'(1,5) by simp
  qed
qed

lemma add_page_effect:
  assumes "dw_mirror s" "crc32 (p_data p) = p_sum p" "fst k \<in> open_pools s"
  obtains s' where "add_page k p s = Some (SUCCESS, s')" "dw_mirror s'" "dw_view s' = (dw_view s)(k \<mapsto> p)"
    "open_pools s' = open_pools s"
proof (cases "map_of (dw_table s) k")
  case None
  then show thesis using add_page_miss[OF assms(1) None assms(2,3)] that by metis
next
  case (Some v)
  then show thesis using add_page_hit[OF assms(1) Some assms(2)] that by metis
qed

section \<open>Restart\<close>

text \<open>
  A crash loses the memory of the process.  The shared file is intact; a page of a data file may be
  torn only while it was being written, that is while it was in the table.
\<close>

definition crashed :: "dblwr \<Rightarrow> dblwr \<Rightarrow> bool" where
  "crashed s c \<longleftrightarrow> dw_table c = [] \<and> dw_slots c = dw_slots s \<and> dw_file_cnt c = dw_file_cnt s \<and>
     open_pools c = open_pools s \<and> slot_error c = None \<and> page_error c = (\<lambda>_. None) \<and>
     (\<forall>k. map_of (dw_table s) k = None \<longrightarrow> data_files c k = data_files s k)"

text \<open>Loading the slots of the table reproduces it.\<close>

lemma load_slots_table:
  assumes "dw_mirror s" "i \<le> length (dw_table s)" "dw_slots c = dw_slots s" "dw_table c = take i (dw_table s)"
  shows "load_slots ([i..<length (dw_table s)] @ js) c = load_slots js (c\<lparr>dw_table := dw_table s\<rparr>)"
  using assms(2-4)
proof (induction "length (dw_table s) - i" arbitrary: i c)
  case 0
  then have "dw_table s = dw_table c" "i = length (dw_table c)" by simp_all
  then show ?case by simp
next
  case (Suc n)
  then have i: "i < length (dw_table s)" by simp
  obtain e where e: "dw_table s ! i = (dw_key e, Some e)" "crc32 (p_data (dw_page e)) = p_sum (dw_page e)" "dw_slots s i = Some e"
    using assms(1) i by (auto simp: dw_mirror_def entry_ok_def)
  have "distinct (map fst (dw_table s))" using assms(1) by (simp add: dw_mirror_def)
  then have "fst (dw_table s ! j) \<noteq> dw_key e" if "j < i" for j
    using that i e(1) nth_eq_iff_index_eq[of "map fst (dw_table s)" j i] by auto
  then have "dw_key e \<notin> fst ` set (take i (dw_table s))"
    using i by (fastforce simp: in_set_conv_nth)
  then have "map_of (dw_table c) (dw_key e) = None" using Suc.prems(3) by (simp add: map_of_eq_None_iff)
  then have step: "load_slots (i # is) c = load_slots is (c\<lparr>dw_table := dw_table c @ [(dw_key e, Some e)]\<rparr>)" for "is"
    using e Suc.prems(2) by simp
  have "load_slots ([Suc i..<length (dw_table s)] @ js) (c\<lparr>dw_table := dw_table c @ [(dw_key e, Some e)]\<rparr>) =
      load_slots js (c\<lparr>dw_table := dw_table s\<rparr>)"
    using Suc.hyps(1)[of "Suc i" "c\<lparr>dw_table := dw_table c @ [(dw_key e, Some e)]\<rparr>"] Suc.hyps(2) Suc.prems i e(1)
    by (simp add: take_Suc_conv_app_nth)
  then show ?case using i by (simp only: upt_conv_Cons append_Cons step)
qed

text \<open>The remaining slots add only invalid entries.\<close>

lemma load_slots_invalid:
  assumes "\<forall>j\<in>set js. \<exists>e. dw_slots c j = Some e \<and> \<not> dw_valid e"
  shows "\<exists>extra. load_slots js c = (SUCCESS, c\<lparr>dw_table := dw_table c @ extra\<rparr>) \<and>
    (\<forall>x\<in>set extra. \<exists>e. x = (dw_key e, Some e) \<and> \<not> dw_valid e) \<and> distinct (map fst extra) \<and>
    fst ` set extra \<inter> fst ` set (dw_table c) = {}"
  using assms
proof (induction js arbitrary: c)
  case (Cons j js)
  then obtain e where e: "dw_slots c j = Some e" "\<not> dw_valid e" by auto
  show ?case
  proof (cases "crc32 (p_data (dw_page e)) = p_sum (dw_page e) \<and> map_of (dw_table c) (dw_key e) = None")
    case True
    let ?c = "c\<lparr>dw_table := dw_table c @ [(dw_key e, Some e)]\<rparr>"
    obtain extra where ex: "load_slots js ?c = (SUCCESS, ?c\<lparr>dw_table := dw_table ?c @ extra\<rparr>)"
        "\<forall>x\<in>set extra. \<exists>e. x = (dw_key e, Some e) \<and> \<not> dw_valid e" "distinct (map fst extra)"
        "fst ` set extra \<inter> fst ` set (dw_table ?c) = {}"
      using Cons.IH[of ?c] Cons.prems by auto
    show ?thesis
      by (rule exI[of _ "(dw_key e, Some e) # extra"])
        (use True e ex in \<open>auto simp: map_of_eq_None_iff\<close>)
  next
    case False
    then have "load_slots (j # js) c = load_slots js c" using e(1) by auto
    then show ?thesis using Cons.IH[of c] Cons.prems by simp
  qed
qed (auto intro!: exI[of _ "[]"])

lemma recover_view:
  assumes "dw_mirror s" "crashed s c"
  obtains c1 c2 where "load_pages c = (SUCCESS, c1)" "dw_recover c1 = Some (SUCCESS, c2)"
    "data_files c2 = dw_view s" "dw_table c2 = []"
proof -
  have M: "length (dw_table s) \<le> dw_file_cnt s"
      "\<forall>i. length (dw_table s) \<le> i \<and> i < dw_file_cnt s \<longrightarrow> (\<exists>e. dw_slots s i = Some e \<and> \<not> dw_valid e)"
      "distinct (map fst (dw_table s))"
    using assms(1) by (simp_all add: dw_mirror_def)
  have C: "dw_table c = []" "dw_slots c = dw_slots s" "dw_file_cnt c = dw_file_cnt s" "open_pools c = open_pools s"
      "slot_error c = None" "page_error c = (\<lambda>_. None)"
      "\<And>k. map_of (dw_table s) k = None \<Longrightarrow> data_files c k = data_files s k"
    using assms(2) unfolding crashed_def by blast+
  let ?n = "length (dw_table s)" and ?c = "c\<lparr>dw_cnt := dw_file_cnt c\<rparr>"
  let ?c' = "?c\<lparr>dw_table := dw_table s\<rparr>"
  have "[0..<dw_file_cnt c] = [0..<?n] @ [?n..<dw_file_cnt s]"
    using M(1) C(3) upt_add_eq_append[of 0 ?n "dw_file_cnt s - ?n"] by simp
  then have load: "load_pages c = load_slots [?n..<dw_file_cnt s] ?c'"
    using load_slots_table[OF assms(1), of 0 ?c] C(1,2) by (simp add: load_pages_def)
  obtain extra where ex: "load_slots [?n..<dw_file_cnt s] ?c' = (SUCCESS, ?c'\<lparr>dw_table := dw_table ?c' @ extra\<rparr>)"
      "\<forall>x\<in>set extra. \<exists>e. x = (dw_key e, Some e) \<and> \<not> dw_valid e" "distinct (map fst extra)"
      "fst ` set extra \<inter> fst ` set (dw_table ?c') = {}"
    using load_slots_invalid[of "[?n..<dw_file_cnt s]" ?c'] M(2) C(2) by auto
  let ?d = "?c'\<lparr>dw_table := dw_table s @ extra\<rparr>"
  note E = mirror_entries_ok[OF assms(1)]
  have "distinct (map fst (dw_table s @ extra))" using M(3) ex(3,4) by auto
  then have ok: "entries_ok (open_pools ?d) (dw_table ?d)"
    using E ex(2) C(4) unfolding entries_ok_def by (auto simp: Ball_def) blast+
  obtain c2 where c2: "dw_flush_page ?d = Some (SUCCESS, c2)" "dw_table c2 = []"
      "data_files c2 = written (dw_table ?d) (data_files ?d)"
    by (rule dw_flush_effect[OF ok]) (use C in auto)
  have "written (dw_table s @ extra) (data_files c) k = dw_view s k" for k
  proof (cases "map_of (dw_table s) k")
    case None
    have "written (dw_table s @ extra) (data_files c) k = data_files c k"
      using None ex(2) map_of_SomeD[of extra k]
      by (fastforce simp: written_def map_add_def split: option.splits)
    then show ?thesis using None C(7) by (simp add: dw_view_def)
  next
    case (Some v)
    moreover have "k \<notin> fst ` set extra" using Some ex(4) map_of_SomeD[OF Some] by (force simp: image_iff)
    then have "map_of extra k = None" by (simp add: map_of_eq_None_iff)
    moreover obtain e where "v = Some e" "dw_valid e" using map_of_SomeD[OF Some] E(2) by fastforce
    ultimately show ?thesis by (simp add: written_def dw_view_def map_add_def)
  qed
  then have "data_files c2 = dw_view s" using c2(3) by (auto simp: fun_eq_iff)
  then show thesis using that load ex(1) c2(1,2) by (simp add: dw_recover_def)
qed

section \<open>Properties\<close>

text \<open>A new buffer for the given files, as a concrete state.\<close>

definition new_dblwr :: "nat \<Rightarrow> int set \<Rightarrow> (page_key \<rightharpoonup> page) \<Rightarrow> dblwr" where
  "new_dblwr limit pools files = \<lparr>dw_table = [], dw_slots = Map.empty, dw_cnt = 0, dw_file_cnt = 0, dw_max = limit,
     data_files = files, open_pools = pools, slot_error = None, page_error = (\<lambda>_. None)\<rparr>"

lemma new_dblwr_mirror: "0 < limit \<Longrightarrow> dw_mirror (new_dblwr limit pools files)"
  by (simp add: dw_mirror_def new_dblwr_def)

text \<open>A page with its checksum, as \<open>flush_page_internal\<close> hands it over.\<close>

definition summed :: "byte list \<Rightarrow> page" where
  "summed d = \<lparr>p_lsn = 1, p_sum = crc32 d, p_data = d\<rparr>"

text \<open>
  C30. Adding a page with its checksum makes it the current version of that page and of no other,
  whether the page was already buffered, is appended, or triggers the flush of a full buffer; the
  shared file keeps mirroring the table.
\<close>

theorem add_page_correct:
  assumes "dw_mirror s" "crc32 (p_data p) = p_sum p" "fst k \<in> open_pools s"
  shows "\<exists>s'. add_page k p s = Some (SUCCESS, s') \<and> dw_view s' = (dw_view s)(k \<mapsto> p) \<and> dw_mirror s'"
  using add_page_effect[OF assms] by metis

theorem add_page_correct_witness:
  "\<exists>s'. add_page (3, 5) (summed [1, 2]) (new_dblwr 1 {3} Map.empty) = Some (SUCCESS, s') \<and>
     dw_view s' = [(3, 5) \<mapsto> summed [1, 2]]"
proof -
  have "dw_view (new_dblwr 1 {3} Map.empty) = Map.empty" by (auto simp: dw_view_def new_dblwr_def)
  then show ?thesis
    using add_page_correct[of "new_dblwr 1 {3} Map.empty" "summed [1, 2]" "(3, 5)"] new_dblwr_mirror[of 1 "{3}" Map.empty]
    by (auto simp: summed_def new_dblwr_def)
qed

text \<open>
  C31. Repair of torn pages.  After a crash in a state whose shared file mirrors the table, the pages
  that were still buffered may have any content in their data files.  Loading the shared file and
  recovering succeeds and leaves in the data files the current version of every page.
\<close>

theorem double_write_recovery:
  assumes "dw_mirror s" "crashed s c"
  shows "\<exists>c1 c2. load_pages c = (SUCCESS, c1) \<and> dw_recover c1 = Some (SUCCESS, c2) \<and> data_files c2 = dw_view s"
  using recover_view[OF assms] by metis

theorem double_write_recovery_witness:
  "\<exists>s torn c1 c2. add_page (3, 5) (summed [1, 2]) (new_dblwr 4 {3} Map.empty) = Some (SUCCESS, s) \<and>
     load_pages torn = (SUCCESS, c1) \<and> dw_recover c1 = Some (SUCCESS, c2) \<and>
     data_files torn (3, 5) = Some \<lparr>p_lsn = 9, p_sum = 0, p_data = [7]\<rparr> \<and>
     data_files c2 = [(3, 5) \<mapsto> summed [1, 2]]"
proof -
  let ?s0 = "new_dblwr 4 {3} Map.empty"
  obtain s where s: "add_page (3, 5) (summed [1, 2]) ?s0 = Some (SUCCESS, s)" "dw_mirror s"
      "dw_view s = (dw_view ?s0)((3, 5) \<mapsto> summed [1, 2])"
    by (rule add_page_miss[of ?s0 "(3, 5)" "summed [1, 2]"])
      (auto simp: new_dblwr_mirror, auto simp: new_dblwr_def summed_def)
  have v: "dw_view s = [(3, 5) \<mapsto> summed [1, 2]]" using s(3) by (auto simp: dw_view_def new_dblwr_def)
  let ?c = "(new_dblwr 4 {3} [(3, 5) \<mapsto> \<lparr>p_lsn = 9, p_sum = 0, p_data = [7]\<rparr>])\<lparr>
      dw_slots := dw_slots s, dw_file_cnt := dw_file_cnt s\<rparr>"
  have "crashed s ?c"
    using s(1) by (auto simp: crashed_def add_page_def new_dblwr_def write_page_internal_def dw_after_insert_def Let_def)
  then show ?thesis using double_write_recovery[OF s(2)] s(1) v by (fastforce simp: new_dblwr_def)
qed

text \<open>
  Closing a file breaks the mirror.  The slot of a new page is the current size of the table, and
  \<open>clear_pages\<close> shrinks the table without renumbering the pages that stay: after two files have buffered
  a page each, closing the first and buffering another page writes that page over the slot of the
  second file's page, which the shared file no longer holds although it is still buffered.
\<close>

theorem clear_pages_loses_slot:
  assumes "new_dblwr 16 {1, 2} files = s0"
    and "add_page (1, 5) p s0 = Some (SUCCESS, s1)" and "add_page (2, 6) q s1 = Some (SUCCESS, s2)"
    and "clear_pages 1 s2 = Some (SUCCESS, s3)" and "add_page (1, 7) r s3 = Some (SUCCESS, s4)"
  shows "dw_read_page (2, 6) s4 = Some (SUCCESS, Some q) \<and> data_files s4 (2, 6) = files (2, 6) \<and>
    (\<forall>i e. dw_slots s4 i = Some e \<longrightarrow> dw_key e \<noteq> (2, 6))"
proof -
  let ?e = "\<lambda>k i p. \<lparr>dw_key = k, dw_index = i, dw_valid = True, dw_page = p\<rparr>"
  note defs = add_page_def write_page_internal_def dw_after_insert_def Let_def
  have s1: "s1 = s0\<lparr>dw_table := [((1, 5), Some (?e (1, 5) 0 p))], dw_slots := [0 \<mapsto> ?e (1, 5) 0 p],
      dw_cnt := 1, dw_file_cnt := 1\<rparr>"
    using assms(1,2) by (auto simp: new_dblwr_def defs)
  have s2: "s2 = s1\<lparr>dw_table := [((1, 5), Some (?e (1, 5) 0 p)), ((2, 6), Some (?e (2, 6) 1 q))],
      dw_slots := [0 \<mapsto> ?e (1, 5) 0 p, 1 \<mapsto> ?e (2, 6) 1 q], dw_cnt := 2, dw_file_cnt := 2\<rparr>"
    using assms(1,3) s1 by (auto simp: new_dblwr_def defs numeral_2_eq_2)
  let ?old = "(?e (1, 5) 0 p)\<lparr>dw_valid := False\<rparr>"
  have s3: "s3 = s2\<lparr>dw_table := [((2, 6), Some (?e (2, 6) 1 q))], data_files := files((1, 5) \<mapsto> p),
      dw_slots := [0 \<mapsto> ?old, 1 \<mapsto> ?e (2, 6) 1 q]\<rparr>"
    using assms(1,4) s1 s2
    by (auto simp: new_dblwr_def clear_pages_def data_write_def write_page_internal_def fun_upd_twist)
  have "s4 = s3\<lparr>dw_table := [((2, 6), Some (?e (2, 6) 1 q)), ((1, 7), Some (?e (1, 7) 1 r))],
      dw_slots := [0 \<mapsto> ?old, 1 \<mapsto> ?e (1, 7) 1 r]\<rparr>"
    using assms(1,5) s1 s2 s3 by (auto simp: new_dblwr_def defs)
  then show ?thesis
    using assms(1) s1 s2 s3 by (auto simp: dw_read_page_def new_dblwr_def)
qed

theorem clear_pages_loses_slot_witness:
  "\<exists>s1 s2 s3 s4. add_page (1, 5) (summed [1]) (new_dblwr 16 {1, 2} Map.empty) = Some (SUCCESS, s1) \<and>
     add_page (2, 6) (summed [2]) s1 = Some (SUCCESS, s2) \<and> clear_pages 1 s2 = Some (SUCCESS, s3) \<and>
     add_page (1, 7) (summed [3]) s3 = Some (SUCCESS, s4) \<and>
     dw_read_page (2, 6) s4 = Some (SUCCESS, Some (summed [2])) \<and> data_files s4 (2, 6) = None \<and>
     (\<forall>i e. dw_slots s4 i = Some e \<longrightarrow> dw_key e \<noteq> (2, 6))"
proof -
  note defs = add_page_def write_page_internal_def dw_after_insert_def Let_def
  obtain s1 s2 s3 s4 where run: "add_page (1, 5) (summed [1]) (new_dblwr 16 {1, 2} Map.empty) = Some (SUCCESS, s1)"
      "add_page (2, 6) (summed [2]) s1 = Some (SUCCESS, s2)" "clear_pages 1 s2 = Some (SUCCESS, s3)"
      "add_page (1, 7) (summed [3]) s3 = Some (SUCCESS, s4)"
    by (simp add: new_dblwr_def defs clear_pages_def data_write_def)
  from clear_pages_loses_slot[OF refl run] show ?thesis using run by auto
qed

end
