(* ===== verification/Lru_Cache.thy ===== *)
theory Lru_Cache
  imports MiniOB_Base
begin

text \<open>
  The LRU cache of src/deps/common/lang/lru_cache.h, at the level of its pointers: nodes in a heap,
  linked in both directions from \<open>lru_front_\<close> to \<open>lru_tail_\<close>, and the hash set \<open>searcher_\<close> of node
  pointers.  The refinement relation \<open>lru_rep\<close> ties it to the list of its entries, most recently used
  first.  A dereference of a null or freed pointer is undefined behaviour, hence \<open>None\<close>.
\<close>

section \<open>Model\<close>

type_synonym addr = nat

record ('k, 'v) lru_node =
  nd_key :: 'k
  nd_value :: 'v
  nd_prev :: "addr option"
  nd_next :: "addr option"

text \<open>
  \<open>new_addr\<close> is the address that the next \<open>new\<close> returns.  The set \<open>searcher\<close> is a list without
  regard to its order; its hash and equality are those of the keys.
\<close>

record ('k, 'v) lru_cache =
  heap :: "addr \<rightharpoonup> ('k, 'v) lru_node"
  searcher :: "addr list"
  lru_front :: "addr option"
  lru_tail :: "addr option"
  new_addr :: addr

definition lru_empty :: "('k, 'v) lru_cache" where
  "lru_empty = \<lparr>heap = Map.empty, searcher = [], lru_front = None, lru_tail = None, new_addr = 0\<rparr>"

definition has_key :: "('k, 'v) lru_cache \<Rightarrow> 'k \<Rightarrow> addr \<Rightarrow> bool" where
  "has_key c k a \<longleftrightarrow> (case heap c a of Some n \<Rightarrow> nd_key n = k | None \<Rightarrow> False)"

definition searcher_find :: "('k, 'v) lru_cache \<Rightarrow> 'k \<Rightarrow> addr option" where
  "searcher_find c k = List.find (has_key c k) (searcher c)"

text \<open>Writing a field of a node through a pointer.\<close>

definition at_node ::
    "(('k, 'v) lru_node \<Rightarrow> ('k, 'v) lru_node) \<Rightarrow> addr \<Rightarrow> ('k, 'v) lru_cache \<Rightarrow> ('k, 'v) lru_cache option" where
  "at_node f a c = (case heap c a of
     Some n \<Rightarrow> Some (c\<lparr>heap := (heap c)(a \<mapsto> f n)\<rparr>) | None \<Rightarrow> None)"

definition set_prev :: "addr option \<Rightarrow> addr \<Rightarrow> ('k, 'v) lru_cache \<Rightarrow> ('k, 'v) lru_cache option" where
  "set_prev p = at_node (\<lambda>n. n\<lparr>nd_prev := p\<rparr>)"

definition set_next :: "addr option \<Rightarrow> addr \<Rightarrow> ('k, 'v) lru_cache \<Rightarrow> ('k, 'v) lru_cache option" where
  "set_next p = at_node (\<lambda>n. n\<lparr>nd_next := p\<rparr>)"

text \<open>Doing something through a pointer unless it is null.\<close>

definition unless_null :: "addr option \<Rightarrow> (addr \<Rightarrow> 'c \<Rightarrow> 'c option) \<Rightarrow> 'c \<Rightarrow> 'c option" where
  "unless_null p f c = (case p of Some a \<Rightarrow> f a c | None \<Rightarrow> Some c)"

definition lru_touch :: "addr \<Rightarrow> ('k, 'v) lru_cache \<Rightarrow> ('k, 'v) lru_cache option" where
  "lru_touch node c = do {
     n \<leftarrow> heap c node;
     case nd_prev n of
       None \<Rightarrow> Some c
     | Some prv \<Rightarrow> do {
         c1 \<leftarrow> set_next (nd_next n) prv c;
         c2 \<leftarrow> (case nd_next n of
                  Some nxt \<Rightarrow> set_prev (Some prv) nxt c1
                | None \<Rightarrow> Some (c1\<lparr>lru_tail := Some prv\<rparr>));
         c3 \<leftarrow> set_prev None node c2;
         c4 \<leftarrow> set_next (lru_front c3) node c3;
         c5 \<leftarrow> unless_null (lru_front c4) (set_prev (Some node)) c4;
         Some (c5\<lparr>lru_front := Some node\<rparr>)
       }
   }"

definition lru_push :: "addr \<Rightarrow> ('k, 'v) lru_cache \<Rightarrow> ('k, 'v) lru_cache option" where
  "lru_push node c = do {
     let c1 = (if lru_tail c = None then c\<lparr>lru_tail := Some node\<rparr> else c);
     c2 \<leftarrow> set_prev None node c1;
     c3 \<leftarrow> set_next (lru_front c2) node c2;
     c4 \<leftarrow> unless_null (lru_front c3) (set_prev (Some node)) c3;
     Some (c4\<lparr>lru_front := Some node, searcher := node # searcher c4\<rparr>)
   }"

definition lru_remove :: "addr \<Rightarrow> ('k, 'v) lru_cache \<Rightarrow> ('k, 'v) lru_cache option" where
  "lru_remove node c = do {
     n \<leftarrow> heap c node;
     c1 \<leftarrow> unless_null (nd_prev n) (set_next (nd_next n)) c;
     c2 \<leftarrow> unless_null (nd_next n) (set_prev (nd_prev n)) c1;
     let c3 = (if lru_front c2 = Some node then c2\<lparr>lru_front := nd_next n\<rparr> else c2);
     let c4 = (if lru_tail c3 = Some node then c3\<lparr>lru_tail := nd_prev n\<rparr> else c3);
     Some (c4\<lparr>searcher := removeAll node (searcher c4), heap := (heap c4)(node := None)\<rparr>)
   }"

definition lru_get :: "'k \<Rightarrow> ('k, 'v) lru_cache \<Rightarrow> ('v option \<times> ('k, 'v) lru_cache) option" where
  "lru_get k c = (case searcher_find c k of
     None \<Rightarrow> Some (None, c)
   | Some a \<Rightarrow> do {
       c' \<leftarrow> lru_touch a c;
       n \<leftarrow> heap c' a;
       Some (Some (nd_value n), c')
     })"

definition lru_put :: "'k \<Rightarrow> 'v \<Rightarrow> ('k, 'v) lru_cache \<Rightarrow> ('k, 'v) lru_cache option" where
  "lru_put k v c = (case searcher_find c k of
     Some a \<Rightarrow> do { c' \<leftarrow> at_node (\<lambda>n. n\<lparr>nd_value := v\<rparr>) a c; lru_touch a c' }
   | None \<Rightarrow>
       (let a = new_addr c;
            ln = \<lparr>nd_key = k, nd_value = v, nd_prev = None, nd_next = None\<rparr>
        in lru_push a (c\<lparr>heap := (heap c)(a \<mapsto> ln), new_addr := Suc a\<rparr>)))"

definition lru_erase :: "'k \<Rightarrow> ('k, 'v) lru_cache \<Rightarrow> ('k, 'v) lru_cache option" where
  "lru_erase k c = (case searcher_find c k of Some a \<Rightarrow> lru_remove a c | None \<Rightarrow> Some c)"

definition lru_count :: "('k, 'v) lru_cache \<Rightarrow> nat" where
  "lru_count c = length (searcher c)"

text \<open>
  \<open>foreach\<close> and \<open>foreach_reverse\<close>: the callback threads a state and answers whether to go on.  The
  fuel bounds the number of nodes visited; a heap with a cycle of links would run out of it.
\<close>

fun lru_walk :: "nat \<Rightarrow> (('k, 'v) lru_node \<Rightarrow> addr option) \<Rightarrow> addr option \<Rightarrow>
    ('k \<Rightarrow> 'v \<Rightarrow> 's \<Rightarrow> bool \<times> 's) \<Rightarrow> ('k, 'v) lru_cache \<Rightarrow> 's \<Rightarrow> 's option" where
  "lru_walk fuel dir None func c s = Some s"
| "lru_walk 0 dir (Some a) func c s = None"
| "lru_walk (Suc fuel) dir (Some a) func c s = do {
     n \<leftarrow> heap c a;
     case func (nd_key n) (nd_value n) s of
       (ret, s') \<Rightarrow> if ret then lru_walk fuel dir (dir n) func c s' else Some s'
   }"

definition lru_foreach :: "('k \<Rightarrow> 'v \<Rightarrow> 's \<Rightarrow> bool \<times> 's) \<Rightarrow> ('k, 'v) lru_cache \<Rightarrow> 's \<Rightarrow> 's option" where
  "lru_foreach func c s = lru_walk (lru_count c) nd_next (lru_front c) func c s"

definition lru_foreach_reverse :: "('k \<Rightarrow> 'v \<Rightarrow> 's \<Rightarrow> bool \<times> 's) \<Rightarrow> ('k, 'v) lru_cache \<Rightarrow> 's \<Rightarrow> 's option" where
  "lru_foreach_reverse func c s = lru_walk (lru_count c) nd_prev (lru_tail c) func c s"

section \<open>Doubly linked chains\<close>

text \<open>
  \<open>chain h p xs q\<close>: the nodes at \<open>xs\<close> are linked in both directions, the first one has predecessor \<open>p\<close>
  and the last one successor \<open>q\<close>.
\<close>

definition first_or :: "'a list \<Rightarrow> 'a option \<Rightarrow> 'a option" where
  "first_or xs q = (case xs of [] \<Rightarrow> q | x # _ \<Rightarrow> Some x)"

definition last_or :: "'a option \<Rightarrow> 'a list \<Rightarrow> 'a option" where
  "last_or p xs = (if xs = [] then p else Some (last xs))"

lemma first_last_or_simps [simp]:
  "first_or [] q = q" "first_or (x # xs) q = Some x" "last_or p [] = p"
  "last_or p (x # xs) = last_or (Some x) xs" "last_or p (xs @ [x]) = Some x"
  by (auto simp: first_or_def last_or_def)

lemma first_or_append: "first_or (xs @ ys) q = first_or xs (first_or ys q)"
  by (cases xs) auto

lemma last_or_append: "last_or p (xs @ ys) = last_or (last_or p xs) ys"
  by (induction xs arbitrary: p) auto

fun chain :: "(addr \<rightharpoonup> ('k, 'v) lru_node) \<Rightarrow> addr option \<Rightarrow> addr list \<Rightarrow> addr option \<Rightarrow> bool" where
  "chain h p [] q = True"
| "chain h p (a # xs) q = ((\<exists>n. h a = Some n \<and> nd_prev n = p \<and> nd_next n = first_or xs q) \<and> chain h (Some a) xs q)"

lemma chain_append:
  "chain h p (xs @ ys) q \<longleftrightarrow> chain h p xs (first_or ys q) \<and> chain h (last_or p xs) ys q"
  by (induction xs arbitrary: p) (auto simp: first_or_append)

lemma chain_upd_other [simp]: "a \<notin> set xs \<Longrightarrow> chain (h(a := y)) p xs q = chain h p xs q"
  by (induction xs arbitrary: p) auto

lemma chain_dom: "chain h p xs q \<Longrightarrow> a \<in> set xs \<Longrightarrow> h a \<noteq> None"
  by (induction xs arbitrary: p) auto

text \<open>Redirecting the back link of the first node, if there is one.\<close>

definition relink_prev ::
    "addr option \<Rightarrow> addr option \<Rightarrow> (addr \<rightharpoonup> ('k, 'v) lru_node) \<Rightarrow> (addr \<rightharpoonup> ('k, 'v) lru_node)" where
  "relink_prev a p h = (case a of None \<Rightarrow> h | Some y \<Rightarrow> h(y \<mapsto> (the (h y))\<lparr>nd_prev := p\<rparr>))"

definition relink_next ::
    "addr option \<Rightarrow> addr option \<Rightarrow> (addr \<rightharpoonup> ('k, 'v) lru_node) \<Rightarrow> (addr \<rightharpoonup> ('k, 'v) lru_node)" where
  "relink_next a p h = (case a of None \<Rightarrow> h | Some y \<Rightarrow> h(y \<mapsto> (the (h y))\<lparr>nd_next := p\<rparr>))"

lemma chain_relink_prev:
  "chain h p ys q \<Longrightarrow> distinct ys \<Longrightarrow> chain (relink_prev (first_or ys None) p' h) p' ys q"
  by (cases ys) (auto simp: relink_prev_def)

lemma chain_relink_next:
  "chain h p xs q \<Longrightarrow> distinct xs \<Longrightarrow> chain (relink_next (last_or None xs) q' h) p xs q'"
  by (cases xs rule: rev_cases) (auto simp: relink_next_def chain_append)

lemma chain_relink_other:
  "set xs \<inter> set_option a = {} \<Longrightarrow> chain (relink_prev a p' h) p xs q = chain h p xs q"
  "set xs \<inter> set_option a = {} \<Longrightarrow> chain (relink_next a p' h) p xs q = chain h p xs q"
  by (auto simp: relink_prev_def relink_next_def split: option.splits)

lemma first_last_in: "set_option (first_or xs None) \<subseteq> set xs" "set_option (last_or None xs) \<subseteq> set xs"
  by (cases xs; auto simp: last_or_def)+

text \<open>Unlinking a node closes the gap.\<close>

lemma chain_unlink:
  assumes "chain h None (xs @ a # ys) None" "distinct (xs @ a # ys)"
  shows "chain (relink_prev (first_or ys None) (last_or None xs) (relink_next (last_or None xs) (first_or ys None) h))
           None (xs @ ys) None"
proof -
  have c: "chain h None xs (Some a)" "chain h (Some a) ys None" using assms(1) by (auto simp: chain_append)
  have d: "distinct xs" "distinct ys" "set xs \<inter> set ys = {}" using assms(2) by auto
  have apart: "set ys \<inter> set_option (last_or None xs) = {}" "set xs \<inter> set_option (first_or ys None) = {}"
    using d first_last_in(2)[of xs] first_last_in(1)[of ys] by blast+
  let ?h1 = "relink_next (last_or None xs) (first_or ys None) h"
  have "chain ?h1 None xs (first_or ys None)" "chain ?h1 (Some a) ys None"
    using c d apart by (auto simp: chain_relink_next chain_relink_other)
  then show ?thesis
    using d apart by (auto simp: chain_append chain_relink_prev chain_relink_other)
qed

text \<open>Linking a node in front.\<close>

lemma chain_push:
  assumes "chain h None zs None" "distinct zs" "a \<notin> set zs"
  shows "chain (relink_prev (first_or zs None) (Some a) (h(a \<mapsto> n\<lparr>nd_prev := None, nd_next := first_or zs None\<rparr>)))
           None (a # zs) None"
  using assms chain_relink_prev[of "h(a \<mapsto> n\<lparr>nd_prev := None, nd_next := first_or zs None\<rparr>)" None zs None "Some a"]
  by (cases zs) (auto simp: relink_prev_def)

section \<open>Refinement relation\<close>

definition data_of :: "('k, 'v) lru_node \<Rightarrow> 'k \<times> 'v" where
  "data_of n = (nd_key n, nd_value n)"

definition lru_rep :: "('k, 'v) lru_cache \<Rightarrow> addr list \<Rightarrow> bool" where
  "lru_rep c xs \<longleftrightarrow> chain (heap c) None xs None \<and> distinct xs \<and>
     lru_front c = first_or xs None \<and> lru_tail c = last_or None xs \<and>
     distinct (searcher c) \<and> set (searcher c) = set xs \<and> dom (heap c) = set xs \<and>
     (\<forall>a\<in>set xs. a < new_addr c)"

definition entries_at :: "(addr \<rightharpoonup> ('k, 'v) lru_node) \<Rightarrow> addr list \<Rightarrow> ('k \<times> 'v) list" where
  "entries_at h xs = map (\<lambda>a. data_of (the (h a))) xs"

text \<open>The cache holds exactly these entries, most recently used first, with distinct keys.\<close>

definition lru_abs :: "('k, 'v) lru_cache \<Rightarrow> ('k \<times> 'v) list \<Rightarrow> bool" where
  "lru_abs c es \<longleftrightarrow> (\<exists>xs. lru_rep c xs \<and> es = entries_at (heap c) xs \<and> distinct (map fst es))"

lemma relink_data [simp]:
  assumes "set_option a \<subseteq> dom h"
  shows "map_option data_of (relink_prev a p h b) = map_option data_of (h b)"
    "map_option data_of (relink_next a p h b) = map_option data_of (h b)"
    "dom (relink_prev a p h) = dom h" "dom (relink_next a p h) = dom h"
  using assms by (auto simp: relink_prev_def relink_next_def data_of_def split: option.splits)

lemma entries_at_cong:
  assumes "\<And>a. a \<in> set xs \<Longrightarrow> map_option data_of (h' a) = map_option data_of (h a)" "set xs \<subseteq> dom h"
  shows "entries_at h' xs = entries_at h xs"
  unfolding entries_at_def
proof (rule map_cong[OF refl])
  fix a assume a: "a \<in> set xs"
  then obtain n where "h a = Some n" using assms(2) by auto
  with assms(1)[OF a] show "data_of (the (h' a)) = data_of (the (h a))" by auto
qed

section \<open>The pointer operations\<close>

lemma set_link_eq:
  "a \<in> dom (heap c) \<Longrightarrow> set_prev p a c = Some (c\<lparr>heap := relink_prev (Some a) p (heap c)\<rparr>)"
  "a \<in> dom (heap c) \<Longrightarrow> set_next p a c = Some (c\<lparr>heap := relink_next (Some a) p (heap c)\<rparr>)"
  by (auto simp: set_prev_def set_next_def at_node_def relink_prev_def relink_next_def)

lemma unless_null_eq:
  assumes "set_option o1 \<subseteq> dom (heap c)"
  shows "unless_null o1 (set_prev p) c = Some (c\<lparr>heap := relink_prev o1 p (heap c)\<rparr>)"
    "unless_null o1 (set_next p) c = Some (c\<lparr>heap := relink_next o1 p (heap c)\<rparr>)"
  using assms
  by (auto simp: unless_null_def set_link_eq split: option.splits)
    (auto simp: relink_prev_def relink_next_def)

lemma chain_links:
  assumes "chain h None (xs @ a # ys) None"
  obtains n where "h a = Some n" "nd_prev n = last_or None xs" "nd_next n = first_or ys None"
  using assms by (auto simp: chain_append)

lemma rep_dom:
  assumes "lru_rep c (xs @ a # ys)"
  shows "set_option (last_or None xs) \<subseteq> dom (heap c)" "set_option (first_or ys None) \<subseteq> dom (heap c)"
    "a \<in> dom (heap c)" "a \<notin> set xs" "a \<notin> set ys"
proof -
  have d: "dom (heap c) = set (xs @ a # ys)" "distinct (xs @ a # ys)" using assms by (simp_all add: lru_rep_def)
  show "set_option (last_or None xs) \<subseteq> dom (heap c)" "set_option (first_or ys None) \<subseteq> dom (heap c)"
    using d first_last_in(2)[of xs] first_last_in(1)[of ys] by auto
  show "a \<in> dom (heap c)" "a \<notin> set xs" "a \<notin> set ys" using d by auto
qed

text \<open>The heap after taking a node out of the chain.\<close>

definition unlinked :: "addr list \<Rightarrow> addr list \<Rightarrow> (addr \<rightharpoonup> ('k, 'v) lru_node) \<Rightarrow> (addr \<rightharpoonup> ('k, 'v) lru_node)" where
  "unlinked xs ys h = relink_prev (first_or ys None) (last_or None xs) (relink_next (last_or None xs) (first_or ys None) h)"

lemma unlinked_facts:
  assumes "lru_rep c (xs @ a # ys)"
  shows "chain (unlinked xs ys (heap c)) None (xs @ ys) None"
    "map_option data_of (unlinked xs ys (heap c) b) = map_option data_of (heap c b)"
    "dom (unlinked xs ys (heap c)) = dom (heap c)"
    "unlinked xs ys (heap c) a = heap c a"
proof -
  note D = rep_dom[OF assms]
  show "chain (unlinked xs ys (heap c)) None (xs @ ys) None"
    unfolding unlinked_def by (rule chain_unlink[of _ _ a]) (use assms in \<open>simp_all add: lru_rep_def\<close>)
  show "map_option data_of (unlinked xs ys (heap c) b) = map_option data_of (heap c b)"
    "dom (unlinked xs ys (heap c)) = dom (heap c)"
    using D by (simp_all add: unlinked_def)
  show "unlinked xs ys (heap c) a = heap c a"
    using D(4,5) first_last_in(2)[of xs] first_last_in(1)[of ys]
    by (auto simp: unlinked_def relink_prev_def relink_next_def split: option.splits)
qed

lemma lru_remove_rep:
  assumes "lru_rep c (xs @ a # ys)"
  obtains c' where "lru_remove a c = Some c'" "lru_rep c' (xs @ ys)"
    "entries_at (heap c') (xs @ ys) = entries_at (heap c) (xs @ ys)"
proof -
  note D = rep_dom[OF assms] and U = unlinked_facts[OF assms]
  have R: "chain (heap c) None (xs @ a # ys) None" "lru_front c = first_or (xs @ a # ys) None"
      "lru_tail c = last_or None (xs @ a # ys)" "distinct (xs @ a # ys)" "set (searcher c) = set (xs @ a # ys)"
      "distinct (searcher c)" "dom (heap c) = set (xs @ a # ys)" "\<forall>b\<in>set (xs @ a # ys). b < new_addr c"
    using assms by (simp_all add: lru_rep_def)
  obtain n where n: "heap c a = Some n" "nd_prev n = last_or None xs" "nd_next n = first_or ys None"
    by (rule chain_links[OF R(1)])
  have front: "(lru_front c = Some a) = (xs = [])" using R(2) D(4) by (cases xs) (auto simp: first_or_def)
  have tail: "(lru_tail c = Some a) = (ys = [])" using R(3) D(5) by (cases ys rule: rev_cases) (auto simp: last_or_append)
  let ?c' = "c\<lparr>heap := (unlinked xs ys (heap c))(a := None), lru_front := first_or (xs @ ys) None,
      lru_tail := last_or None (xs @ ys), searcher := removeAll a (searcher c)\<rparr>"
  have run: "lru_remove a c = Some ?c'"
    using n D R(2,3) front tail
    by (cases xs; cases ys) (auto simp: lru_remove_def unless_null_eq unlinked_def Let_def first_or_append last_or_append)
  have rep: "lru_rep ?c' (xs @ ys)"
    using U(1,3) R D(4,5) by (auto simp: lru_rep_def distinct_removeAll)
  have "entries_at (heap ?c') (xs @ ys) = entries_at (heap c) (xs @ ys)"
    by (rule entries_at_cong) (use U(2) D(4,5) R(7) in auto)
  then show thesis using that run rep by blast
qed

lemma lru_push_rep:
  assumes "lru_rep (c\<lparr>heap := (heap c)(a := None), searcher := zs0\<rparr>) zs" "heap c a = Some n" "a \<notin> set zs" "a < new_addr c"
    "searcher c = zs0"
  obtains c' where "lru_push a c = Some c'" "lru_rep c' (a # zs)"
    "\<And>b. map_option data_of (heap c' b) = map_option data_of (heap c b)"
proof -
  have R: "chain (heap c) None zs None" "lru_front c = first_or zs None" "lru_tail c = last_or None zs"
      "distinct zs" "set (searcher c) = set zs" "distinct (searcher c)" "dom (heap c) = insert a (set zs)"
      "\<forall>b\<in>set zs. b < new_addr c"
    using assms by (auto simp: lru_rep_def)
  let ?g = "(heap c)(a \<mapsto> n\<lparr>nd_prev := None, nd_next := first_or zs None\<rparr>)"
  let ?h = "relink_prev (first_or zs None) (Some a) ?g"
  let ?c' = "c\<lparr>heap := ?h, lru_front := Some a, lru_tail := last_or None (a # zs), searcher := a # searcher c\<rparr>"
  have sub: "set_option (first_or zs None) \<subseteq> dom ?g" using R(7) first_last_in(1)[of zs] by auto
  have tail: "last_or None (a # zs) = (if lru_tail c = None then Some a else lru_tail c)"
    using R(3) by (cases zs rule: rev_cases) (auto simp: last_or_append)
  have h0: "relink_next (Some a) (first_or zs None) (relink_prev (Some a) None (heap c)) = ?g"
    using assms(2) by (simp add: relink_prev_def relink_next_def)
  have dom: "a \<in> dom (heap c)" "a \<in> dom (relink_prev (Some a) None (heap c))"
    using assms(2) by (auto simp: relink_prev_def)
  have "lru_push a c = Some ?c'"
  proof (cases "lru_tail c = None")
    case True
    then show ?thesis
      using R(2) dom sub tail h0 unless_null_eq(1)[of "first_or zs None" "c\<lparr>lru_tail := Some a, heap := ?g\<rparr>" "Some a"]
      by (simp add: lru_push_def set_link_eq)
  next
    case False
    then have t: "last_or None (a # zs) = lru_tail c" using tail by simp
    show ?thesis
      unfolding t using False R(2) dom sub h0 unless_null_eq(1)[of "first_or zs None" "c\<lparr>heap := ?g\<rparr>" "Some a"]
      by (auto simp: lru_push_def set_link_eq)
  qed
  moreover have "lru_rep ?c' (a # zs)"
  proof -
    have "dom ?h = set (a # zs)" using relink_data(3)[OF sub, of "Some a"] R(7) by auto
    then show ?thesis
      using chain_push[OF R(1,4) assms(3), of n] R(4-8) assms(3,4) by (simp add: lru_rep_def)
  qed
  moreover have "map_option data_of (heap ?c' b) = map_option data_of (heap c b)" for b
    using relink_data(1)[OF sub, of "Some a" b] assms(2) by (auto simp: data_of_def)
  ultimately show thesis using that by blast
qed

text \<open>Moving a node to the front.\<close>

lemma lru_touch_rep:
  assumes "lru_rep c (xs @ a # ys)"
  obtains c' where "lru_touch a c = Some c'" "lru_rep c' (a # xs @ ys)"
    "\<And>b. map_option data_of (heap c' b) = map_option data_of (heap c b)"
proof (cases xs rule: rev_cases)
  case Nil
  then obtain n where "heap c a = Some n" "nd_prev n = None"
    using assms by (auto simp: lru_rep_def)
  then show thesis using that[of c] assms Nil by (simp add: lru_touch_def)
next
  case (snoc zs b)
  note D = rep_dom[OF assms] and U = unlinked_facts[OF assms]
  have R: "chain (heap c) None (xs @ a # ys) None" "lru_front c = first_or (xs @ a # ys) None"
      "lru_tail c = last_or None (xs @ a # ys)" "distinct (xs @ a # ys)" "set (searcher c) = set (xs @ a # ys)"
      "distinct (searcher c)" "dom (heap c) = set (xs @ a # ys)" "\<forall>b\<in>set (xs @ a # ys). b < new_addr c"
    using assms by (simp_all add: lru_rep_def)
  obtain n where n: "heap c a = Some n" "nd_prev n = Some b" "nd_next n = first_or ys None"
    by (rule chain_links[OF R(1)]) (simp add: snoc)
  have front: "lru_front c = first_or (xs @ ys) None" "first_or (xs @ ys) None \<noteq> None"
    using R(2) by (cases zs; simp add: snoc)+
  let ?u = "unlinked xs ys (heap c)"
  let ?g = "?u(a \<mapsto> n\<lparr>nd_prev := None, nd_next := first_or (xs @ ys) None\<rparr>)"
  let ?h = "relink_prev (first_or (xs @ ys) None) (Some a) ?g"
  let ?c' = "c\<lparr>heap := ?h, lru_front := Some a, lru_tail := last_or None (xs @ ys)\<rparr>"
  have sub: "set_option (first_or (xs @ ys) None) \<subseteq> dom ?g"
    using U(3) R(7) first_last_in(1)[of "xs @ ys"] by auto
  have ua: "?u a = Some n" using U(4) n(1) by simp
  then have g: "relink_next (Some a) (first_or (xs @ ys) None) (relink_prev (Some a) None ?u) = ?g"
    by (simp add: relink_prev_def relink_next_def)
  have mid: "(do { c1 \<leftarrow> set_next (nd_next n) b c;
        case nd_next n of Some nxt \<Rightarrow> set_prev (Some b) nxt c1 | None \<Rightarrow> Some (c1\<lparr>lru_tail := Some b\<rparr>) }) =
      Some (c\<lparr>heap := ?u, lru_tail := last_or None (xs @ ys)\<rparr>)"
  proof (cases ys)
    case Nil
    then show ?thesis
      using D n(3) snoc by (simp add: set_link_eq unlinked_def relink_prev_def)
  next
    case (Cons y ys')
    then have "lru_tail c = last_or None (xs @ ys)" using R(3) by (simp add: last_or_append)
    then have "c\<lparr>heap := ?u, lru_tail := last_or None (xs @ ys)\<rparr> = c\<lparr>heap := ?u\<rparr>" by simp
    moreover have "y \<in> dom (relink_next (Some b) (Some y) (heap c))"
      using D(1,2) Cons snoc by simp
    ultimately show ?thesis
      using D n(3) snoc Cons by (simp add: set_link_eq unlinked_def)
  qed
  have dom: "a \<in> dom ?u" "a \<in> dom (relink_prev (Some a) None ?u)" using ua by (auto simp: relink_prev_def)
  have run: "lru_touch a c = Some ?c'"
    unfolding lru_touch_def using n mid dom g front
      unless_null_eq(1)[of "first_or (xs @ ys) None" "c\<lparr>lru_tail := last_or None (xs @ ys), heap := ?g\<rparr>" "Some a"] sub
    by (simp add: set_link_eq flip: bind_assoc)
  have "chain ?u None (xs @ ys) None" using U(1) .
  then have ch: "chain ?h None (a # xs @ ys) None"
    using chain_push[of ?u "xs @ ys" a n] R(4) D(4,5) by auto
  have domh: "dom ?h = set (a # xs @ ys)" using relink_data(3)[OF sub, of "Some a"] U(3) R(7) by auto
  have tl: "last_or None (xs @ ys) = last_or None (a # xs @ ys)" by (simp add: snoc last_or_append)
  have rep: "lru_rep ?c' (a # xs @ ys)"
    using ch domh R(4-8) tl by (auto simp: lru_rep_def)
  have "map_option data_of (heap ?c' k) = map_option data_of (heap c k)" for k
    using relink_data(1)[OF sub, of "Some a" k] U(2)[of k] n(1) by (auto simp: data_of_def)
  with that run rep show thesis by blast
qed

section \<open>The cache operations on the abstract list\<close>

definition touch :: "'k \<Rightarrow> 'v \<Rightarrow> ('k \<times> 'v) list \<Rightarrow> ('k \<times> 'v) list" where
  "touch k v es = (k, v) # filter (\<lambda>e. fst e \<noteq> k) es"

lemma entries_at_simps [simp]:
  "entries_at h [] = []" "entries_at h (a # xs) = data_of (the (h a)) # entries_at h xs"
  "entries_at h (xs @ ys) = entries_at h xs @ entries_at h ys"
  by (simp_all add: entries_at_def)

lemma entries_at_data: "a \<in> set xs \<Longrightarrow> data_of (the (h a)) \<in> set (entries_at h xs)"
  by (simp add: entries_at_def)

lemma has_key_iff:
  assumes "lru_rep c xs" "a \<in> set xs"
  shows "has_key c k a \<longleftrightarrow> fst (data_of (the (heap c a))) = k"
  using assms chain_dom[of "heap c" None xs None a] by (auto simp: lru_rep_def has_key_def data_of_def)

text \<open>Looking a key up finds its node, or the key is absent.\<close>

lemma searcher_find_cases:
  assumes "lru_rep c zs" "distinct (map fst (entries_at (heap c) zs))"
  obtains (absent) "searcher_find c k = None" "k \<notin> fst ` set (entries_at (heap c) zs)"
  | (present) xs a ys v where "searcher_find c k = Some a" "zs = xs @ a # ys" "data_of (the (heap c a)) = (k, v)"
      "k \<notin> fst ` set (entries_at (heap c) xs)" "k \<notin> fst ` set (entries_at (heap c) ys)"
proof (cases "searcher_find c k")
  case None
  have "fst (data_of (the (heap c a))) \<noteq> k" if "a \<in> set zs" for a
    using None that assms(1) has_key_iff[OF assms(1) that]
    by (auto simp: searcher_find_def find_None_iff lru_rep_def)
  then show thesis using absent[OF None] by (auto simp: entries_at_def)
next
  case (Some a)
  have a: "a \<in> set (searcher c)" "has_key c k a"
    using Some by (auto simp: searcher_find_def find_Some_iff)
  then have mem: "a \<in> set zs" using assms(1) by (simp add: lru_rep_def)
  then obtain xs ys where zs: "zs = xs @ a # ys" using split_list by fast
  have key: "fst (data_of (the (heap c a))) = k" using has_key_iff[OF assms(1) mem] a(2) by simp
  then obtain v where v: "data_of (the (heap c a)) = (k, v)" by (metis prod.collapse)
  have "k \<notin> fst ` set (entries_at (heap c) xs)" "k \<notin> fst ` set (entries_at (heap c) ys)"
    using assms(2) v by (auto simp: zs)
  then show thesis using present Some zs v by blast
qed

lemma filter_other_keys: "k \<notin> fst ` set es \<Longrightarrow> filter (\<lambda>e. fst e \<noteq> k) es = es"
  by (auto simp: filter_id_conv)

lemma touch_split:
  assumes "k \<notin> fst ` set xs" "k \<notin> fst ` set ys"
  shows "touch k v (xs @ (k, w) # ys) = (k, v) # xs @ ys"
  using assms by (simp add: touch_def filter_other_keys)

lemma rep_in_dom: "lru_rep c zs \<Longrightarrow> set zs \<subseteq> dom (heap c)"
  by (simp add: lru_rep_def)

lemma lru_get_abs:
  assumes "lru_abs c es"
  shows "\<exists>c'. lru_get k c = Some (map_of es k, c') \<and>
    lru_abs c' (case map_of es k of None \<Rightarrow> es | Some v \<Rightarrow> touch k v es)"
proof -
  obtain zs where zs: "lru_rep c zs" "es = entries_at (heap c) zs" "distinct (map fst es)"
    using assms by (auto simp: lru_abs_def)
  from zs(1) zs(3)[unfolded zs(2)] show ?thesis
  proof (cases rule: searcher_find_cases[where k = k])
    case absent
    then have "map_of es k = None" by (simp add: map_of_eq_None_iff zs(2))
    then show ?thesis using absent assms by (simp add: lru_get_def)
  next
    case (present xs a ys v)
    have es: "es = entries_at (heap c) xs @ (k, v) # entries_at (heap c) ys"
      using present by (simp add: zs(2))
    then have m: "map_of es k = Some v"
      using zs(3) by (simp add: map_add_def map_of_eq_None_iff[THEN iffD2, OF present(4)] image_iff)
    obtain c' where c': "lru_touch a c = Some c'" "lru_rep c' (a # xs @ ys)"
        "\<And>b. map_option data_of (heap c' b) = map_option data_of (heap c b)"
      using lru_touch_rep[OF zs(1)[unfolded present(2)]] by blast
    have dom: "set (a # xs @ ys) \<subseteq> dom (heap c)" using rep_in_dom[OF zs(1)] present(2) by auto
    have en: "entries_at (heap c') (a # xs @ ys) = entries_at (heap c) (a # xs @ ys)"
      by (rule entries_at_cong) (use c'(3) dom in auto)
    then have "entries_at (heap c') (a # xs @ ys) = touch k v es"
      using present(3-5) by (simp add: es touch_split)
    moreover obtain n where n: "heap c' a = Some n" using c'(2) by (auto simp: lru_rep_def)
    moreover have "nd_value n = v" using n en present(3) by (simp add: data_of_def)
    moreover have "distinct (map fst (touch k v es))"
      using zs(3) present(4,5) by (auto simp: es touch_split)
    ultimately have "lru_abs c' (touch k v es)" "nd_value n = v" "heap c' a = Some n"
      using c'(2) by (auto simp: lru_abs_def)
    then show ?thesis using m present(1) c'(1) by (simp add: lru_get_def)
  qed
qed

lemma lru_put_abs:
  assumes "lru_abs c es"
  shows "\<exists>c'. lru_put k v c = Some c' \<and> lru_abs c' (touch k v es)"
proof -
  obtain zs where zs: "lru_rep c zs" "es = entries_at (heap c) zs" "distinct (map fst es)"
    using assms by (auto simp: lru_abs_def)
  from zs(1) zs(3)[unfolded zs(2)] show ?thesis
  proof (cases rule: searcher_find_cases[where k = k])
    case absent
    let ?a = "new_addr c"
    let ?ln = "\<lparr>nd_key = k, nd_value = v, nd_prev = None, nd_next = None\<rparr>"
    let ?c = "c\<lparr>heap := (heap c)(?a \<mapsto> ?ln), new_addr := Suc ?a\<rparr>"
    have fresh: "?a \<notin> set zs" "heap c ?a = None" "(heap c)(?a := None) = heap c"
      using zs(1) by (auto simp: lru_rep_def)
    have rep0: "lru_rep (?c\<lparr>heap := (heap ?c)(?a := None), searcher := searcher c\<rparr>) zs"
      using zs(1) fresh by (auto simp: lru_rep_def)
    obtain c' where c': "lru_push ?a ?c = Some c'" "lru_rep c' (?a # zs)"
        "\<And>b. map_option data_of (heap c' b) = map_option data_of (heap ?c b)"
      using lru_push_rep[OF rep0, of ?ln] fresh by auto
    have "entries_at (heap c') (?a # zs) = entries_at (heap ?c) (?a # zs)"
      by (rule entries_at_cong) (use c'(3) rep_in_dom[OF zs(1)] in auto)
    also have "\<dots> = (k, v) # es"
      using fresh by (auto simp: data_of_def zs(2) entries_at_def)
    finally have en: "entries_at (heap c') (?a # zs) = touch k v es"
      using absent(2) by (simp add: touch_def filter_other_keys zs(2))
    moreover have "distinct (map fst (touch k v es))"
      using zs absent(2) by (auto simp: touch_def filter_other_keys)
    ultimately show ?thesis
      using absent(1) c'(1,2) by (auto simp: lru_put_def Let_def lru_abs_def)
  next
    case (present xs a ys w)
    have es: "es = entries_at (heap c) xs @ (k, w) # entries_at (heap c) ys"
      using present by (simp add: zs(2))
    obtain n where n: "heap c a = Some n" "nd_key n = k"
      using zs(1) present(2,3) by (auto simp: lru_rep_def chain_append data_of_def)
    let ?c = "c\<lparr>heap := (heap c)(a \<mapsto> n\<lparr>nd_value := v\<rparr>)\<rparr>"
    have ap: "a \<notin> set xs" "a \<notin> set ys" using zs(1) present(2) by (auto simp: lru_rep_def)
    have "lru_rep ?c (xs @ a # ys)"
      using zs(1) present(2) n ap by (auto simp: lru_rep_def chain_append)
    then obtain c' where c': "lru_touch a ?c = Some c'" "lru_rep c' (a # xs @ ys)"
        "\<And>b. map_option data_of (heap c' b) = map_option data_of (heap ?c b)"
      using lru_touch_rep by blast
    have "entries_at (heap c') (a # xs @ ys) = entries_at (heap ?c) (a # xs @ ys)"
      by (rule entries_at_cong) (use c'(3) rep_in_dom[OF zs(1)] present(2) in auto)
    also have "\<dots> = (k, v) # entries_at (heap c) (xs @ ys)"
      using ap n(2) by (auto simp: data_of_def entries_at_def)
    finally have en: "entries_at (heap c') (a # xs @ ys) = touch k v es"
      using present(4,5) by (simp add: es touch_split)
    moreover have "distinct (map fst (touch k v es))"
      using zs(3) present(4,5) by (auto simp: es touch_split)
    ultimately show ?thesis
      using present(1) n(1) c'(1,2) by (auto simp: lru_put_def at_node_def lru_abs_def)
  qed
qed

lemma lru_erase_abs:
  assumes "lru_abs c es"
  shows "\<exists>c'. lru_erase k c = Some c' \<and> lru_abs c' (filter (\<lambda>e. fst e \<noteq> k) es)"
proof -
  obtain zs where zs: "lru_rep c zs" "es = entries_at (heap c) zs" "distinct (map fst es)"
    using assms by (auto simp: lru_abs_def)
  from zs(1) zs(3)[unfolded zs(2)] show ?thesis
  proof (cases rule: searcher_find_cases[where k = k])
    case absent
    then show ?thesis using assms by (simp add: lru_erase_def filter_other_keys zs(2))
  next
    case (present xs a ys w)
    obtain c' where c': "lru_remove a c = Some c'" "lru_rep c' (xs @ ys)"
        "entries_at (heap c') (xs @ ys) = entries_at (heap c) (xs @ ys)"
      using lru_remove_rep[OF zs(1)[unfolded present(2)]] by blast
    have "filter (\<lambda>e. fst e \<noteq> k) es = entries_at (heap c) (xs @ ys)"
      using present by (simp add: zs(2) filter_other_keys)
    then have "lru_abs c' (filter (\<lambda>e. fst e \<noteq> k) es)"
      using c' zs(3) distinct_map_filter[of fst es] unfolding lru_abs_def by metis
    then show ?thesis using present(1) c'(1) by (simp add: lru_erase_def)
  qed
qed

lemma lru_count_abs: "lru_abs c es \<Longrightarrow> lru_count c = length es"
  unfolding lru_abs_def lru_rep_def lru_count_def entries_at_def
  by (metis distinct_card length_map)

lemma lru_abs_distinct: "lru_abs c es \<Longrightarrow> distinct (map fst es)"
  by (auto simp: lru_abs_def)

lemma lru_empty_abs: "lru_abs lru_empty []"
  by (auto simp: lru_abs_def lru_rep_def lru_empty_def intro!: exI[of _ "[]"])

section \<open>Walks\<close>

text \<open>A callback over the entries in order, stopping when it says so.\<close>

fun fold_while :: "('k \<Rightarrow> 'v \<Rightarrow> 's \<Rightarrow> bool \<times> 's) \<Rightarrow> ('k \<times> 'v) list \<Rightarrow> 's \<Rightarrow> 's" where
  "fold_while func [] s = s"
| "fold_while func ((k, v) # es) s = (case func k v s of (ret, s') \<Rightarrow> if ret then fold_while func es s' else s')"

lemma lru_walk_forward:
  assumes "chain (heap c) p xs None" "length xs \<le> fuel"
  shows "lru_walk fuel nd_next (first_or xs None) func c s = Some (fold_while func (entries_at (heap c) xs) s)"
  using assms
proof (induction xs arbitrary: p s fuel)
  case (Cons a xs)
  then show ?case by (cases fuel) (auto simp: data_of_def split: prod.splits)
qed simp

lemma lru_walk_backward:
  assumes "chain (heap c) None xs q" "length xs \<le> fuel"
  shows "lru_walk fuel nd_prev (last_or None xs) func c s = Some (fold_while func (rev (entries_at (heap c) xs)) s)"
  using assms
proof (induction xs arbitrary: q s fuel rule: rev_induct)
  case (snoc a xs)
  then show ?case by (cases fuel) (auto simp: data_of_def chain_append split: prod.splits)
qed simp

lemma lru_foreach_abs:
  assumes "lru_abs c es"
  shows "lru_foreach func c s = Some (fold_while func es s)"
    "lru_foreach_reverse func c s = Some (fold_while func (rev es) s)"
proof -
  obtain zs where zs: "lru_rep c zs" "es = entries_at (heap c) zs" using assms by (auto simp: lru_abs_def)
  have n: "length zs \<le> lru_count c" using lru_count_abs[OF assms] by (simp add: zs(2) entries_at_def)
  have "chain (heap c) None zs None" "lru_front c = first_or zs None" "lru_tail c = last_or None zs"
    using zs(1) by (simp_all add: lru_rep_def)
  then show "lru_foreach func c s = Some (fold_while func es s)"
    "lru_foreach_reverse func c s = Some (fold_while func (rev es) s)"
    using lru_walk_forward[OF _ n] lru_walk_backward[OF _ n] by (simp_all add: lru_foreach_def lru_foreach_reverse_def zs(2))
qed

section \<open>The interface of a recency-ordered map\<close>

text \<open>
  What the frame manager relies on.  A state represents a list of entries with distinct keys; a hit and
  a put bring the entry to the front, erasing drops it.
\<close>

locale recency_map =
  fixes abs :: "'c \<Rightarrow> ('k \<times> 'v) list \<Rightarrow> bool"
    and get :: "'k \<Rightarrow> 'c \<Rightarrow> ('v option \<times> 'c) option"
    and put :: "'k \<Rightarrow> 'v \<Rightarrow> 'c \<Rightarrow> 'c option"
    and erase :: "'k \<Rightarrow> 'c \<Rightarrow> 'c option"
  assumes abs_distinct: "abs c es \<Longrightarrow> distinct (map fst es)"
    and get_law: "abs c es \<Longrightarrow> \<exists>c'. get k c = Some (map_of es k, c') \<and>
      abs c' (case map_of es k of None \<Rightarrow> es | Some v \<Rightarrow> touch k v es)"
    and put_law: "abs c es \<Longrightarrow> \<exists>c'. put k v c = Some c' \<and> abs c' (touch k v es)"
    and erase_law: "abs c es \<Longrightarrow> \<exists>c'. erase k c = Some c' \<and> abs c' (filter (\<lambda>e. fst e \<noteq> k) es)"
begin

lemma map_of_filter_key: "map_of (filter (\<lambda>e. fst e \<noteq> k) es) k' = (if k' = k then None else map_of es k')"
  by (induction es) auto

lemma map_of_touch: "map_of (touch k v es) = (map_of es)(k \<mapsto> v)"
  by (auto simp: touch_def map_of_filter_key)

lemma get_keeps:
  assumes "abs c es"
  obtains c' es' where "get k c = Some (map_of es k, c')" "abs c' es'" "map_of es' = map_of es"
  using get_law[OF assms, of k] that
  by (cases "map_of es k") (auto simp: map_of_touch fun_upd_idem)

lemma get_after_put:
  assumes "abs c es"
  obtains c' c'' where "put k v c = Some c'"
    "get k' c' = Some (if k' = k then Some v else map_of es k', c'')"
proof -
  obtain c' where c': "put k v c = Some c'" "abs c' (touch k v es)" using put_law[OF assms] by blast
  then obtain c'' where "get k' c' = Some (map_of (touch k v es) k', c'')" using get_law by blast
  then show thesis using that c'(1) by (auto simp: map_of_touch)
qed

lemma get_after_erase:
  assumes "abs c es"
  obtains c' c'' where "erase k c = Some c'"
    "get k' c' = Some (if k' = k then None else map_of es k', c'')"
proof -
  obtain c' where c': "erase k c = Some c'" "abs c' (filter (\<lambda>e. fst e \<noteq> k) es)" using erase_law[OF assms] by blast
  then obtain c'' where "get k' c' = Some (map_of (filter (\<lambda>e. fst e \<noteq> k) es) k', c'')" using get_law by blast
  then show thesis using that c'(1) by (simp add: map_of_filter_key)
qed

end

interpretation lru: recency_map lru_abs lru_get lru_put lru_erase
  by unfold_locales (fact lru_abs_distinct lru_get_abs lru_put_abs lru_erase_abs)+

section \<open>Properties\<close>

text \<open>Sequences of operations, for the statement about every reachable cache.\<close>

datatype ('k, 'v) lru_op = Get_Op 'k | Put_Op 'k 'v | Remove_Op 'k

definition lru_step :: "('k, 'v) lru_cache \<Rightarrow> ('k, 'v) lru_op \<Rightarrow> ('k, 'v) lru_cache option" where
  "lru_step c oper = (case oper of
     Get_Op k \<Rightarrow> map_option snd (lru_get k c)
   | Put_Op k v \<Rightarrow> lru_put k v c
   | Remove_Op k \<Rightarrow> lru_erase k c)"

fun lru_run :: "('k, 'v) lru_cache \<Rightarrow> ('k, 'v) lru_op list \<Rightarrow> ('k, 'v) lru_cache option" where
  "lru_run c [] = Some c"
| "lru_run c (oper # ops) = do { c' \<leftarrow> lru_step c oper; lru_run c' ops }"

text \<open>What the operations do to a plain list of entries.\<close>

definition list_step :: "('k \<times> 'v) list \<Rightarrow> ('k, 'v) lru_op \<Rightarrow> ('k \<times> 'v) list" where
  "list_step es oper = (case oper of
     Get_Op k \<Rightarrow> (case map_of es k of None \<Rightarrow> es | Some v \<Rightarrow> touch k v es)
   | Put_Op k v \<Rightarrow> touch k v es
   | Remove_Op k \<Rightarrow> filter (\<lambda>e. fst e \<noteq> k) es)"

lemma lru_step_refines:
  assumes "lru_abs c es"
  shows "\<exists>c'. lru_step c oper = Some c' \<and> lru_abs c' (list_step es oper)"
  using lru_get_abs[OF assms] lru_put_abs[OF assms] lru_erase_abs[OF assms]
  by (cases oper) (fastforce simp: lru_step_def list_step_def)+

lemma lru_run_refines:
  "lru_abs c es \<Longrightarrow> \<exists>c'. lru_run c ops = Some c' \<and> lru_abs c' (foldl list_step es ops)"
proof (induction ops arbitrary: c es)
  case (Cons oper ops)
  obtain c1 where "lru_step c oper = Some c1" "lru_abs c1 (list_step es oper)"
    using lru_step_refines[OF Cons.prems] by blast
  then show ?case using Cons.IH by auto
qed auto

text \<open>
  C27. Every sequence of \<open>get\<close>, \<open>put\<close> and \<open>remove\<close> on a new cache runs without touching a null or
  freed node; afterwards walking the links from the front yields exactly the entries of the
  specification list (most recently used first), walking from the tail the reverse, and \<open>count\<close> is
  their number.
\<close>

theorem lru_cache_refines_list:
  "\<exists>c. lru_run lru_empty ops = Some c \<and>
     lru_foreach (\<lambda>k v acc. (True, acc @ [(k, v)])) c [] = Some (foldl list_step [] ops) \<and>
     lru_foreach_reverse (\<lambda>k v acc. (True, acc @ [(k, v)])) c [] = Some (rev (foldl list_step [] ops)) \<and>
     lru_count c = length (foldl list_step [] ops)"
proof -
  obtain c where c: "lru_run lru_empty ops = Some c" "lru_abs c (foldl list_step [] ops)"
    using lru_run_refines[OF lru_empty_abs] by blast
  have collect: "fold_while (\<lambda>k v acc. (True, acc @ [(k, v)])) es s = s @ es" for es :: "('a \<times> 'b) list" and s
    by (induction es arbitrary: s) auto
  show ?thesis using c(1) lru_count_abs[OF c(2)] by (simp add: lru_foreach_abs[OF c(2)] collect)
qed

end
