(* ===== verification/Buffer_Pool.thy ===== *)
theory Buffer_Pool
  imports Page_Alloc Double_Write Lru_Cache
begin

text \<open>
  Frames and page access: the frame manager and the page operations of
  src/src/observer/storage/buffer/disk_buffer_pool.cpp over the LRU cache, the memory pool
  (src/deps/common/mm/mem_pool.h) and the double-write buffer.  All buffer pools of the server share one
  frame manager and one double-write buffer.
\<close>

section \<open>State\<close>

record frame =
  fr_id :: page_key
  fr_dirty :: bool
  fr_pins :: int
  fr_page :: page

text \<open>
  \<open>frames\<close> is the LRU cache from frame identifiers to frame pointers; the frame objects live in \<open>fmem\<close>
  for good, \<open>fr_free\<close> is the free list of the memory pool (its \<open>dynamic\<close> flag is off).  A recycled frame
  keeps its dirty flag and page, since \<open>reinit\<close> and \<open>reset\<close> do nothing.  \<open>flushed_lsn\<close> is how far the log
  is on disk.
\<close>

record bufpool =
  frames :: "(page_key, addr) lru_cache"
  fmem :: "addr \<rightharpoonup> frame"
  fr_free :: "addr list"
  dw :: dblwr
  flushed_lsn :: LSN

section \<open>Frames\<close>

definition upd_frame :: "(frame \<Rightarrow> frame) \<Rightarrow> addr \<Rightarrow> bufpool \<Rightarrow> bufpool option" where
  "upd_frame f a s = (case fmem s a of
     Some x \<Rightarrow> Some (s\<lparr>fmem := (fmem s)(a \<mapsto> f x)\<rparr>) | None \<Rightarrow> None)"

definition pin :: "addr \<Rightarrow> bufpool \<Rightarrow> bufpool option" where
  "pin = upd_frame (\<lambda>x. x\<lparr>fr_pins := fr_pins x + 1\<rparr>)"

text \<open>\<open>unpin\<close> asserts that the pin count is positive.\<close>

definition unpin :: "addr \<Rightarrow> bufpool \<Rightarrow> bufpool option" where
  "unpin a s = do {
     x \<leftarrow> fmem s a;
     if fr_pins x > 0 then upd_frame (\<lambda>x. x\<lparr>fr_pins := fr_pins x - 1\<rparr>) a s else None
   }"

definition can_purge :: "frame \<Rightarrow> bool" where
  "can_purge x \<longleftrightarrow> fr_pins x = 0"

definition mark_dirty :: "addr \<Rightarrow> bufpool \<Rightarrow> bufpool option" where
  "mark_dirty = upd_frame (\<lambda>x. x\<lparr>fr_dirty := True\<rparr>)"

definition clear_dirty :: "addr \<Rightarrow> bufpool \<Rightarrow> bufpool option" where
  "clear_dirty = upd_frame (\<lambda>x. x\<lparr>fr_dirty := False\<rparr>)"

text \<open>What a client does with a pinned frame: change the page and mark the frame dirty.\<close>

definition write_frame :: "addr \<Rightarrow> LSN \<Rightarrow> byte list \<Rightarrow> bufpool \<Rightarrow> bufpool option" where
  "write_frame a lsn d s = do {
     s1 \<leftarrow> upd_frame (\<lambda>x. x\<lparr>fr_page := (fr_page x)\<lparr>p_lsn := lsn, p_data := d\<rparr>\<rparr>) a s;
     mark_dirty a s1
   }"

section \<open>The frame manager\<close>

definition get_internal :: "page_key \<Rightarrow> bufpool \<Rightarrow> (addr option \<times> bufpool) option" where
  "get_internal k s = do {
     (r, c) \<leftarrow> lru_get k (frames s);
     let s1 = s\<lparr>frames := c\<rparr>;
     case r of
       None \<Rightarrow> Some (None, s1)
     | Some a \<Rightarrow> do { s2 \<leftarrow> pin a s1; Some (Some a, s2) }
   }"

text \<open>The memory pool hands out the front of its free list and takes frames back at the end.\<close>

definition frame_alloc :: "page_key \<Rightarrow> bufpool \<Rightarrow> (addr option \<times> bufpool) option" where
  "frame_alloc k s = do {
     (r, s1) \<leftarrow> get_internal k s;
     case r of
       Some a \<Rightarrow> Some (Some a, s1)
     | None \<Rightarrow>
         (case fr_free s1 of
            [] \<Rightarrow> Some (None, s1)
          | a # rest \<Rightarrow> do {
              x \<leftarrow> fmem s1 a;
              if fr_pins x \<noteq> 0 then None
              else do {
                s2 \<leftarrow> upd_frame (\<lambda>x. x\<lparr>fr_id := k\<rparr>) a (s1\<lparr>fr_free := rest\<rparr>);
                s3 \<leftarrow> pin a s2;
                c \<leftarrow> lru_put k a (frames s3);
                Some (Some a, s3\<lparr>frames := c\<rparr>)
              }
            })
   }"

text \<open>\<open>free_internal\<close> asserts that the frame is the one registered and is pinned exactly once.\<close>

definition free_internal :: "page_key \<Rightarrow> addr \<Rightarrow> bufpool \<Rightarrow> (rc \<times> bufpool) option" where
  "free_internal k a s = do {
     (r, c) \<leftarrow> lru_get k (frames s);
     x \<leftarrow> fmem s a;
     if r = Some a \<and> fr_pins x = 1 then do {
       s1 \<leftarrow> upd_frame (\<lambda>x. x\<lparr>fr_id := (fst (fr_id x), -1)\<rparr>) a (s\<lparr>frames := c\<rparr>);
       s2 \<leftarrow> unpin a s1;
       c' \<leftarrow> lru_erase k (frames s2);
       Some (SUCCESS, s2\<lparr>frames := c', fr_free := fr_free s2 @ [a]\<rparr>)
     } else None
   }"

text \<open>
  \<open>purge_frames\<close>: collect up to \<open>count\<close> unpinned frames from the least recently used end, pinning them,
  then flush and free each.
\<close>

definition purge_finder ::
    "nat \<Rightarrow> page_key \<Rightarrow> addr \<Rightarrow> (addr \<rightharpoonup> frame) \<times> addr list \<Rightarrow> bool \<times> (addr \<rightharpoonup> frame) \<times> addr list" where
  "purge_finder count k a st = (case st of (m, found) \<Rightarrow>
     case m a of
       None \<Rightarrow> (True, st)
     | Some x \<Rightarrow>
         if can_purge x
         then (length found + 1 < count, m(a \<mapsto> x\<lparr>fr_pins := fr_pins x + 1\<rparr>), found @ [a])
         else (True, st))"

fun purge_each :: "(addr \<Rightarrow> bufpool \<Rightarrow> (rc \<times> bufpool) option) \<Rightarrow> addr list \<Rightarrow> bufpool \<Rightarrow> (nat \<times> bufpool) option" where
  "purge_each purger [] s = Some (0, s)"
| "purge_each purger (a # as) s = do {
     (r, s1) \<leftarrow> purger a s;
     if r = SUCCESS then do {
       x \<leftarrow> fmem s1 a;
       (_, s2) \<leftarrow> free_internal (fr_id x) a s1;
       (n, s3) \<leftarrow> purge_each purger as s2;
       Some (n + 1, s3)
     } else do {
       s2 \<leftarrow> unpin a s1;
       purge_each purger as s2
     }
   }"

definition purge_frames ::
    "nat \<Rightarrow> (addr \<Rightarrow> bufpool \<Rightarrow> (rc \<times> bufpool) option) \<Rightarrow> bufpool \<Rightarrow> (nat \<times> bufpool) option" where
  "purge_frames count purger s = do {
     (m, found) \<leftarrow> lru_foreach_reverse (purge_finder (max count 1)) (frames s) (fmem s, []);
     purge_each purger found (s\<lparr>fmem := m\<rparr>)
   }"

section \<open>Page access\<close>

text \<open>
  \<open>flush_page_internal\<close>: wait for the log up to the LSN of the page, set the checksum, hand the page to
  the double-write buffer.
\<close>

definition flush_page_internal :: "addr \<Rightarrow> bufpool \<Rightarrow> (rc \<times> bufpool) option" where
  "flush_page_internal a s = do {
     x \<leftarrow> fmem s a;
     let s1 = s\<lparr>flushed_lsn := max (flushed_lsn s) (p_lsn (fr_page x))\<rparr>;
     let pg = (fr_page x)\<lparr>p_sum := crc32 (p_data (fr_page x))\<rparr>;
     s2 \<leftarrow> upd_frame (\<lambda>x. x\<lparr>fr_page := pg\<rparr>) a s1;
     (r, d) \<leftarrow> add_page (fr_id x) pg (dw s2);
     let s3 = s2\<lparr>dw := d\<rparr>;
     if OB_FAIL r then Some (r, s3)
     else do { s4 \<leftarrow> clear_dirty a s3; Some (SUCCESS, s4) }
   }"

text \<open>
  The purger of \<open>allocate_frame\<close>: a dirty frame of this pool or of another open pool is flushed by that
  pool; the frame of an unknown pool is an error.
\<close>

definition frame_purger :: "addr \<Rightarrow> bufpool \<Rightarrow> (rc \<times> bufpool) option" where
  "frame_purger a s = do {
     x \<leftarrow> fmem s a;
     if \<not> fr_dirty x then Some (SUCCESS, s)
     else if fst (fr_id x) \<in> open_pools (dw s) then flush_page_internal a s
     else Some (INTERNAL, s)
   }"

text \<open>The loop of \<open>allocate_frame\<close>; not returning is \<open>None\<close>.\<close>

partial_function (option) allocate_frame :: "page_key \<Rightarrow> bufpool \<Rightarrow> (addr \<times> bufpool) option" where
  "allocate_frame k s = do {
     (r, s1) \<leftarrow> frame_alloc k s;
     case r of
       Some a \<Rightarrow> Some (a, s1)
     | None \<Rightarrow> do {
         (_, s2) \<leftarrow> purge_frames 1 frame_purger s1;
         allocate_frame k s2
       }
   }"

definition load_page :: "page_key \<Rightarrow> addr \<Rightarrow> bufpool \<Rightarrow> (rc \<times> bufpool) option" where
  "load_page k a s = do {
     (r, pg) \<leftarrow> dw_read_page k (dw s);
     case pg of
       Some p \<Rightarrow> do { s1 \<leftarrow> upd_frame (\<lambda>x. x\<lparr>fr_page := p\<rparr>) a s; Some (SUCCESS, s1) }
     | None \<Rightarrow>
         if snd k < 0 then Some (IOERR_SEEK, s)
         else (case data_files (dw s) k of
            None \<Rightarrow> Some (IOERR_READ, s)
          | Some p \<Rightarrow> do {
              s1 \<leftarrow> upd_frame (\<lambda>x. x\<lparr>fr_page := p, fr_id := (fst (fr_id x), snd k)\<rparr>) a s;
              Some (SUCCESS, s1)
            })
   }"

definition purge_frame :: "page_key \<Rightarrow> addr \<Rightarrow> bufpool \<Rightarrow> (rc \<times> bufpool) option" where
  "purge_frame k a s = do {
     x \<leftarrow> fmem s a;
     if fr_pins x \<noteq> 1 then Some (LOCKED_UNLOCK, s)
     else do {
       (r, s1) \<leftarrow> (if fr_dirty x then flush_page_internal a s else Some (SUCCESS, s));
       if r \<noteq> SUCCESS then Some (r, s1)
       else do { (_, s2) \<leftarrow> free_internal k a s1; Some (SUCCESS, s2) }
     }
   }"

definition get_this_page :: "page_key \<Rightarrow> bufpool \<Rightarrow> (rc \<times> addr option \<times> bufpool) option" where
  "get_this_page k s = do {
     (r, s1) \<leftarrow> get_internal k s;
     case r of
       Some a \<Rightarrow> Some (SUCCESS, Some a, s1)
     | None \<Rightarrow> do {
         (a, s2) \<leftarrow> allocate_frame k s1;
         s3 \<leftarrow> upd_frame (\<lambda>x. x\<lparr>fr_id := (fst k, snd (fr_id x))\<rparr>) a s2;
         (r, s4) \<leftarrow> load_page k a s3;
         if r \<noteq> SUCCESS then do { (_, s5) \<leftarrow> purge_frame k a s4; Some (r, None, s5) }
         else Some (SUCCESS, Some a, s4)
       }
   }"

definition purge_page :: "page_key \<Rightarrow> bufpool \<Rightarrow> (rc \<times> bufpool) option" where
  "purge_page k s = do {
     (r, s1) \<leftarrow> get_internal k s;
     case r of Some a \<Rightarrow> purge_frame k a s1 | None \<Rightarrow> Some (SUCCESS, s1)
   }"

text \<open>The frame side of \<open>dispose_page\<close>: a frame in memory is freed without being written.\<close>

definition dispose_frame :: "page_key \<Rightarrow> bufpool \<Rightarrow> (rc \<times> bufpool) option" where
  "dispose_frame k s = do {
     (r, s1) \<leftarrow> get_internal k s;
     case r of Some a \<Rightarrow> free_internal k a s1 | None \<Rightarrow> Some (SUCCESS, s1)
   }"

text \<open>
  The frame side of \<open>allocate_page\<close> for a page at the end of the file: an empty page, written at once to
  extend the file.  An error of that write is ignored.
\<close>

definition extend_frame :: "page_key \<Rightarrow> bufpool \<Rightarrow> (addr \<times> bufpool) option" where
  "extend_frame k s = do {
     (a, s1) \<leftarrow> allocate_frame k s;
     s2 \<leftarrow> upd_frame (\<lambda>x. x\<lparr>fr_id := k, fr_page := \<lparr>p_lsn = 0, p_sum = 0, p_data = replicate (nat BP_PAGE_DATA_SIZE) 0\<rparr>\<rparr>) a s1;
     (_, s3) \<leftarrow> flush_page_internal a s2;
     Some (a, s3)
   }"

text \<open>\<open>allocate_page\<close> and \<open>dispose_page\<close>: the header of the file and the frames together.\<close>

definition allocate_page ::
    "pool_header \<times> bufpool \<Rightarrow> (rc \<times> addr option \<times> pool_header \<times> bufpool) option" where
  "allocate_page hs = (case hs of (h, s) \<Rightarrow> do {
     let b = buffer_pool_id (fh h);
     (found, h1) \<leftarrow> reuse_page h;
     case found of
       Some i \<Rightarrow> do { (r, fr, s1) \<leftarrow> get_this_page (b, i) s; Some (r, fr, h1, s1) }
     | None \<Rightarrow>
         if page_count (fh h1) \<ge> MAX_PAGE_NUM then Some (BUFFERPOOL_NOBUF, None, h1, s)
         else do {
           let p = page_count (fh h1);
           (a, s1) \<leftarrow> extend_frame (b, p) s;
           h2 \<leftarrow> extend_header (log_allocate_page p h1);
           Some (SUCCESS, Some a, h2, s1)
         }
   })"

definition dispose_page ::
    "PageNum \<Rightarrow> pool_header \<times> bufpool \<Rightarrow> (rc \<times> pool_header \<times> bufpool) option" where
  "dispose_page p hs = (case hs of (h, s) \<Rightarrow>
     if p = 0 then Some (INTERNAL, h, s)
     else do {
       (_, s1) \<leftarrow> dispose_frame (buffer_pool_id (fh h), p) s;
       (r, h1) \<leftarrow> header_dispose p h;
       Some (r, h1, s1)
     })"

text \<open>\<open>flush_all_pages\<close> and \<open>purge_all_pages\<close> over the frames of one file, in LRU order.\<close>

definition find_list :: "int \<Rightarrow> bufpool \<Rightarrow> (addr list \<times> bufpool) option" where
  "find_list b s = do {
     (m, found) \<leftarrow> lru_foreach (\<lambda>k a (m, found).
        if fst k = b then (True, (case m a of Some x \<Rightarrow> m(a \<mapsto> x\<lparr>fr_pins := fr_pins x + 1\<rparr>) | None \<Rightarrow> m), found @ [a])
        else (True, m, found)) (frames s) (fmem s, []);
     Some (found, s\<lparr>fmem := m\<rparr>)
   }"

fun flush_each :: "addr list \<Rightarrow> bufpool \<Rightarrow> (rc \<times> bufpool) option" where
  "flush_each [] s = Some (SUCCESS, s)"
| "flush_each (a # as) s = do {
     (r, s1) \<leftarrow> flush_page_internal a s;
     s2 \<leftarrow> unpin a s1;
     if r \<noteq> SUCCESS then Some (r, s2) else flush_each as s2
   }"

definition flush_all_pages :: "int \<Rightarrow> bufpool \<Rightarrow> (rc \<times> bufpool) option" where
  "flush_all_pages b s = do { (found, s1) \<leftarrow> find_list b s; flush_each found s1 }"

fun purge_frame_each :: "addr list \<Rightarrow> bufpool \<Rightarrow> bufpool option" where
  "purge_frame_each [] s = Some s"
| "purge_frame_each (a # as) s = do {
     x \<leftarrow> fmem s a;
     (_, s1) \<leftarrow> purge_frame (fr_id x) a s;
     purge_frame_each as s1
   }"

definition purge_all_pages :: "int \<Rightarrow> bufpool \<Rightarrow> (rc \<times> bufpool) option" where
  "purge_all_pages b s = do {
     (found, s1) \<leftarrow> find_list b s;
     s2 \<leftarrow> purge_frame_each found s1;
     Some (SUCCESS, s2)
   }"

end
