(* ===== verification/Buffer_Pool_Correct.thy ===== *)
theory Buffer_Pool_Correct
  imports Buffer_Pool "HOL-Library.Multiset"
begin

text \<open>
  Correctness of the frames: an invariant of the cache, the free list and the double-write buffer, the
  current version of every page as the abstraction, and what each operation does to it.
\<close>

section \<open>Abstraction and invariant\<close>

text \<open>The frame that caches a page: what a lookup of the frame manager finds.\<close>

definition cached :: "bufpool \<Rightarrow> page_key \<rightharpoonup> addr" where
  "cached s k = (case lru_get k (frames s) of Some (r, _) \<Rightarrow> r | None \<Rightarrow> None)"

text \<open>The content of a page: its LSN and data; the checksum is only set when the page is written.\<close>

definition content :: "page \<Rightarrow> LSN \<times> byte list" where
  "content p = (p_lsn p, p_data p)"

text \<open>The current version of a page: that of its frame, otherwise that of the double-write buffer and disk.\<close>

definition bp_view :: "bufpool \<Rightarrow> page_key \<rightharpoonup> LSN \<times> byte list" where
  "bp_view s k = (case cached s k of
     Some a \<Rightarrow> map_option (\<lambda>x. content (fr_page x)) (fmem s a)
   | None \<Rightarrow> map_option content (dw_view (dw s) k))"

text \<open>
  A registered frame carries its identifier, has a pin count that is not negative, belongs to an open
  file, and unless it is dirty or still being loaded (\<open>X\<close>) holds the version below it.
\<close>

definition frame_ok :: "dblwr \<Rightarrow> page_key set \<Rightarrow> page_key \<Rightarrow> frame \<Rightarrow> bool" where
  "frame_ok d X k x \<longleftrightarrow> fr_id x = k \<and> 0 \<le> fr_pins x \<and> fst k \<in> open_pools d \<and>
     (fr_dirty x \<or> k \<in> X \<or> dw_view d k = Some (fr_page x))"

definition wal_ok :: "bufpool \<Rightarrow> bool" where
  "wal_ok s \<longleftrightarrow> (\<forall>k p. dw_view (dw s) k = Some p \<longrightarrow> p_lsn p \<le> flushed_lsn s)"

definition bp_inv :: "page_key set \<Rightarrow> (page_key \<times> addr) list \<Rightarrow> bufpool \<Rightarrow> bool" where
  "bp_inv X es s \<longleftrightarrow> lru_abs (frames s) es \<and> distinct (map snd es @ fr_free s) \<and>
     (\<forall>(k, a)\<in>set es. \<exists>x. fmem s a = Some x \<and> frame_ok (dw s) X k x) \<and>
     (\<forall>a\<in>set (fr_free s). \<exists>x. fmem s a = Some x \<and> fr_pins x = 0) \<and>
     dw_mirror (dw s) \<and> wal_ok s"

definition bp_ok :: "bufpool \<Rightarrow> bool" where
  "bp_ok s \<longleftrightarrow> (\<exists>es. bp_inv {} es s)"

lemma bp_invI:
  assumes "lru_abs (frames s) es" "distinct (map snd es @ fr_free s)" "dw_mirror (dw s)" "wal_ok s"
    "\<And>k a. (k, a) \<in> set es \<Longrightarrow> \<exists>x. fmem s a = Some x \<and> frame_ok (dw s) X k x"
    "\<And>a. a \<in> set (fr_free s) \<Longrightarrow> \<exists>x. fmem s a = Some x \<and> fr_pins x = 0"
  shows "bp_inv X es s"
  unfolding bp_inv_def using assms(1-4,6) by (auto simp: assms(5))

lemma bp_invD:
  assumes "bp_inv X es s"
  shows "lru_abs (frames s) es" "distinct (map fst es)" "distinct (map snd es)" "distinct (fr_free s)"
    "set (map snd es) \<inter> set (fr_free s) = {}" "dw_mirror (dw s)" "wal_ok s"
  using assms lru_abs_distinct by (auto simp: bp_inv_def)

lemma bp_inv_frame:
  assumes "bp_inv X es s" "map_of es k = Some a"
  obtains x where "fmem s a = Some x" "frame_ok (dw s) X k x" "a \<notin> set (fr_free s)"
  using assms map_of_SomeD[of es k a] by (fastforce simp: bp_inv_def)

lemma bp_inv_frame_ok:
  assumes "bp_inv X es s" "map_of es k = Some a" "fmem s a = Some x"
  shows "frame_ok (dw s) X k x" "a \<notin> set (fr_free s)" "fr_id x = k" "0 \<le> fr_pins x"
  by (rule bp_inv_frame[OF assms(1,2)], use assms(3) in \<open>simp add: frame_ok_def\<close>)+

lemma bp_inv_inj:
  assumes "bp_inv X es s" "map_of es k = Some a" "map_of es k' = Some a"
  shows "k' = k"
proof -
  have "inj_on snd (set es)" using bp_invD(3)[OF assms(1)] by (simp add: distinct_map)
  then show ?thesis using inj_onD[of snd "set es" "(k', a)" "(k, a)"] assms(2,3)[THEN map_of_SomeD] by simp
qed

lemma cached_map_of: "bp_inv X es s \<Longrightarrow> cached s = map_of es"
proof
  fix k
  assume "bp_inv X es s"
  then obtain c where "lru_get k (frames s) = Some (map_of es k, c)" using lru.get_law[OF bp_invD(1)] by blast
  then show "cached s k = map_of es k" by (simp add: cached_def)
qed

text \<open>The invariant depends on the cache only through its entries, in any order.\<close>

lemma mset_touch:
  assumes "distinct (map fst es)" "map_of es k = Some a"
  shows "mset (touch k a es) = mset es"
proof -
  obtain xs ys where es: "es = xs @ (k, a) # ys" using map_of_SomeD[OF assms(2)] split_list by fast
  then show ?thesis using assms(1) by (subst es, subst touch_split) (auto simp: es)
qed

lemma bp_inv_reorder:
  assumes "bp_inv X es s" "mset es' = mset es" "lru_abs c es'"
  shows "bp_inv X es' (s\<lparr>frames := c\<rparr>)"
proof -
  have "set es' = set es" using assms(2) by (rule mset_eq_setD)
  moreover have "distinct (map snd es' @ fr_free s)"
  proof -
    have "mset (map snd es' @ fr_free s) = mset (map snd es @ fr_free s)" using assms(2) by simp
    then show ?thesis using assms(1) mset_eq_imp_distinct_iff unfolding bp_inv_def by blast
  qed
  ultimately show ?thesis using assms(1,3) by (simp add: bp_inv_def wal_ok_def)
qed

text \<open>Changing one registered frame.\<close>

lemma bp_inv_upd:
  assumes "bp_inv X es s" "map_of es k = Some a" "frame_ok (dw s) X k x"
  shows "bp_inv X es (s\<lparr>fmem := (fmem s)(a \<mapsto> x)\<rparr>)"
proof -
  have inj: "k' = k" if "(k', a) \<in> set es" for k'
    using that bp_inv_inj[OF assms(1,2)] bp_invD(2)[OF assms(1)] by simp
  have "a \<notin> set (fr_free s)" using bp_inv_frame[OF assms(1,2)] by blast
  then show ?thesis using assms(1,3) inj by (auto simp: bp_inv_def wal_ok_def)
qed

text \<open>The view in terms of the entries.\<close>

lemma bp_view_at:
  assumes "bp_inv X es s"
  shows "bp_view s k = (case map_of es k of
     Some a \<Rightarrow> map_option (\<lambda>x. content (fr_page x)) (fmem s a)
   | None \<Rightarrow> map_option content (dw_view (dw s) k))"
  by (simp add: bp_view_def cached_map_of[OF assms])

section \<open>The frame manager\<close>

lemma get_internal_miss:
  assumes "bp_inv X es s" "map_of es k = None"
  obtains c where "get_internal k s = Some (None, s\<lparr>frames := c\<rparr>)" "bp_inv X es (s\<lparr>frames := c\<rparr>)"
proof -
  obtain c where "lru_get k (frames s) = Some (None, c)" "lru_abs c es"
    using lru.get_law[OF bp_invD(1)[OF assms(1)], of k] assms(2) by auto
  then show thesis using that bp_inv_reorder[OF assms(1) refl] by (simp add: get_internal_def)
qed

lemma get_internal_hit:
  assumes "bp_inv X es s" "map_of es k = Some a" "fmem s a = Some x"
  obtains c where
    "get_internal k s = Some (Some a, s\<lparr>frames := c, fmem := (fmem s)(a \<mapsto> x\<lparr>fr_pins := fr_pins x + 1\<rparr>)\<rparr>)"
    "bp_inv X (touch k a es) (s\<lparr>frames := c, fmem := (fmem s)(a \<mapsto> x\<lparr>fr_pins := fr_pins x + 1\<rparr>)\<rparr>)"
proof -
  obtain c where c: "lru_get k (frames s) = Some (Some a, c)" "lru_abs c (touch k a es)"
    using lru.get_law[OF bp_invD(1)[OF assms(1)], of k] assms(2) by auto
  have inv: "bp_inv X (touch k a es) (s\<lparr>frames := c\<rparr>)"
    by (rule bp_inv_reorder[OF assms(1) mset_touch[OF bp_invD(2)[OF assms(1)] assms(2)] c(2)])
  have "frame_ok (dw s) X k (x\<lparr>fr_pins := fr_pins x + 1\<rparr>)"
    using bp_inv_frame_ok[OF assms] by (simp add: frame_ok_def)
  then have "bp_inv X (touch k a es) (s\<lparr>frames := c, fmem := (fmem s)(a \<mapsto> x\<lparr>fr_pins := fr_pins x + 1\<rparr>)\<rparr>)"
    using bp_inv_upd[OF inv, of k a] by (simp add: lru.map_of_touch)
  then show thesis using that c(1) assms(3) by (simp add: get_internal_def pin_def upd_frame_def)
qed

text \<open>A frame from the free list starts pinned once, with its page still to be loaded.\<close>

lemma frame_alloc_free:
  assumes "bp_inv X es s" "map_of es k = None" "fr_free s = a # rest" "fst k \<in> open_pools (dw s)"
  obtains c x where "fmem s a = Some x"
    "frame_alloc k s = Some (Some a, s\<lparr>frames := c, fr_free := rest, fmem := (fmem s)(a \<mapsto> x\<lparr>fr_id := k, fr_pins := 1\<rparr>)\<rparr>)"
    "bp_inv (insert k X) ((k, a) # es) (s\<lparr>frames := c, fr_free := rest, fmem := (fmem s)(a \<mapsto> x\<lparr>fr_id := k, fr_pins := 1\<rparr>)\<rparr>)"
proof -
  obtain c1 where c1: "get_internal k s = Some (None, s\<lparr>frames := c1\<rparr>)" "bp_inv X es (s\<lparr>frames := c1\<rparr>)"
    by (rule get_internal_miss[OF assms(1,2)])
  have absent: "k \<notin> fst ` set es" using assms(2) by (simp add: map_of_eq_None_iff)
  obtain c where c: "lru_put k a c1 = Some c" "lru_abs c ((k, a) # es)"
    using lru.put_law[of c1 es k a] bp_invD(1)[OF c1(2)] absent by (auto simp: touch_def filter_other_keys)
  obtain x where x: "fmem s a = Some x" "fr_pins x = 0" using assms(1,3) by (auto simp: bp_inv_def)
  let ?s = "s\<lparr>frames := c, fr_free := rest, fmem := (fmem s)(a \<mapsto> x\<lparr>fr_id := k, fr_pins := 1\<rparr>)\<rparr>"
  have run: "frame_alloc k s = Some (Some a, ?s)"
    using c1(1) c(1) x assms(3) by (simp add: frame_alloc_def upd_frame_def pin_def)
  have "\<exists>y. fmem ?s b = Some y \<and> frame_ok (dw s) (insert k X) k' y" if "(k', b) \<in> set ((k, a) # es)" for k' b
  proof (cases "b = a")
    case True
    then have "k' = k" using that assms(1,3) by (force simp: bp_inv_def)
    then show ?thesis using True assms(4) by (simp add: frame_ok_def)
  next
    case False
    then have "map_of es k' = Some b" using that bp_invD(2)[OF assms(1)] by auto
    then obtain y where "fmem s b = Some y" "frame_ok (dw s) X k' y" by (rule bp_inv_frame[OF assms(1)])
    then show ?thesis using False by (auto simp: frame_ok_def)
  qed
  moreover have "\<exists>y. fmem ?s b = Some y \<and> fr_pins y = 0" if "b \<in> set rest" for b
    using that assms(1,3) by (auto simp: bp_inv_def)
  ultimately have "bp_inv (insert k X) ((k, a) # es) ?s"
    by (intro bp_invI) (use assms(1,3) c(2) in \<open>simp_all add: bp_inv_def wal_ok_def\<close>)
  then show thesis using that x(1) run by blast
qed

lemma frame_alloc_full:
  assumes "bp_inv X es s" "map_of es k = None" "fr_free s = []"
  obtains c where "frame_alloc k s = Some (None, s\<lparr>frames := c\<rparr>)" "bp_inv X es (s\<lparr>frames := c\<rparr>)"
proof -
  obtain c where "get_internal k s = Some (None, s\<lparr>frames := c\<rparr>)" "bp_inv X es (s\<lparr>frames := c\<rparr>)"
    by (rule get_internal_miss[OF assms(1,2)])
  then show thesis using that assms(3) by (simp add: frame_alloc_def)
qed

text \<open>Freeing: the page is dropped from memory and falls back to the version below.\<close>

abbreviation freed :: "bufpool \<Rightarrow> (page_key, addr) lru_cache \<Rightarrow> page_key \<Rightarrow> addr \<Rightarrow> frame \<Rightarrow> bufpool" where
  "freed s c k a x \<equiv> s\<lparr>frames := c, fmem := (fmem s)(a \<mapsto> x\<lparr>fr_id := (fst k, -1), fr_pins := 0\<rparr>),
     fr_free := fr_free s @ [a]\<rparr>"

lemma free_internal_effect:
  assumes "bp_inv X es s" "map_of es k = Some a" "fmem s a = Some x" "fr_pins x = 1"
  obtains c where
    "free_internal k a s = Some (SUCCESS, freed s c k a x)"
    "bp_inv (X - {k}) (filter (\<lambda>e. fst e \<noteq> k) es) (freed s c k a x)"
proof -
  obtain c1 where c1: "lru_get k (frames s) = Some (Some a, c1)" "lru_abs c1 (touch k a es)"
    using lru.get_law[OF bp_invD(1)[OF assms(1)], of k] assms(2) by auto
  note id = bp_inv_frame_ok(3)[OF assms(1-3)] and apart = bp_inv_frame_ok(2)[OF assms(1-3)]
  have flt: "filter (\<lambda>e. fst e \<noteq> k) (touch k a es) = filter (\<lambda>e. fst e \<noteq> k) es" by (simp add: touch_def)
  obtain c where c: "lru_erase k c1 = Some c" "lru_abs c (filter (\<lambda>e. fst e \<noteq> k) es)"
    using lru.erase_law[OF c1(2), of k] unfolding flt by blast
  let ?s = "freed s c k a x"
  have run: "free_internal k a s = Some (SUCCESS, ?s)"
    using c1(1) c(1) assms(3,4) id by (simp add: free_internal_def upd_frame_def unpin_def)
  have inj: "k' = k" if "(k', a) \<in> set es" for k'
    using that bp_inv_inj[OF assms(1,2)] bp_invD(2)[OF assms(1)] by simp
  have "distinct (map snd (filter (\<lambda>e. fst e \<noteq> k) es) @ fr_free s @ [a])"
    using assms(1) inj apart by (auto simp: bp_inv_def distinct_map_filter)
  moreover have "\<forall>(k', b)\<in>set (filter (\<lambda>e. fst e \<noteq> k) es). \<exists>y. fmem ?s b = Some y \<and> frame_ok (dw ?s) (X - {k}) k' y"
    using assms(1) inj by (fastforce simp: bp_inv_def frame_ok_def)
  ultimately have "bp_inv (X - {k}) (filter (\<lambda>e. fst e \<noteq> k) es) ?s"
    using assms(1) c(2) by (auto simp: bp_inv_def wal_ok_def)
  then show thesis using that run by blast
qed

section \<open>Writing frames back\<close>

definition with_sum :: "page \<Rightarrow> page" where
  "with_sum p = p\<lparr>p_sum := crc32 (p_data p)\<rparr>"

lemma with_sum_simps [simp]:
  "content (with_sum p) = content p" "p_lsn (with_sum p) = p_lsn p" "crc32 (p_data (with_sum p)) = p_sum (with_sum p)"
  by (simp_all add: with_sum_def content_def)

abbreviation flushed :: "bufpool \<Rightarrow> addr \<Rightarrow> frame \<Rightarrow> dblwr \<Rightarrow> bufpool" where
  "flushed s a x d \<equiv> s\<lparr>flushed_lsn := max (flushed_lsn s) (p_lsn (fr_page x)),
     fmem := (fmem s)(a \<mapsto> x\<lparr>fr_page := with_sum (fr_page x), fr_dirty := False\<rparr>), dw := d\<rparr>"

lemma flush_page_internal_effect:
  assumes "bp_inv X es s" "map_of es k = Some a" "fmem s a = Some x"
  obtains d where
    "flush_page_internal a s = Some (SUCCESS, flushed s a x d)"
    "bp_inv (X - {k}) es (flushed s a x d)"
    "dw_view d = (dw_view (dw s))(k \<mapsto> with_sum (fr_page x))" "open_pools d = open_pools (dw s)"
proof -
  let ?p = "with_sum (fr_page x)"
  note ok = bp_inv_frame_ok[OF assms]
  have pool: "fst k \<in> open_pools (dw s)" using ok(1) by (simp add: frame_ok_def)
  obtain d where d: "add_page k ?p (dw s) = Some (SUCCESS, d)" "dw_mirror d"
      "dw_view d = (dw_view (dw s))(k \<mapsto> ?p)" "open_pools d = open_pools (dw s)"
    by (rule add_page_effect[OF bp_invD(6)[OF assms(1)] _ pool, of ?p]) simp
  let ?s = "s\<lparr>flushed_lsn := max (flushed_lsn s) (p_lsn (fr_page x)),
       fmem := (fmem s)(a \<mapsto> x\<lparr>fr_page := ?p, fr_dirty := False\<rparr>), dw := d\<rparr>"
  have run: "flush_page_internal a s = Some (SUCCESS, ?s)"
    using d(1) assms(3) ok(3)
    by (simp add: flush_page_internal_def upd_frame_def clear_dirty_def with_sum_def OB_FAIL_def Let_def)
  have inj: "k' = k" if "(k', a) \<in> set es" for k'
    using that bp_inv_inj[OF assms(1,2)] bp_invD(2)[OF assms(1)] by simp
  have "\<exists>y. fmem ?s b = Some y \<and> frame_ok d (X - {k}) k' y" if "(k', b) \<in> set es" for k' b
  proof (cases "b = a")
    case True
    then have "k' = k" using that inj by simp
    then show ?thesis using True ok d(3,4) by (simp add: frame_ok_def)
  next
    case False
    have m: "map_of es k' = Some b" using that bp_invD(2)[OF assms(1)] by simp
    then obtain y where "fmem s b = Some y" "frame_ok (dw s) X k' y" by (rule bp_inv_frame[OF assms(1)])
    moreover have "k' \<noteq> k" using m assms(2) False by auto
    ultimately show ?thesis using False d(3,4) by (auto simp: frame_ok_def)
  qed
  moreover have "wal_ok ?s" using bp_invD(7)[OF assms(1)] d(3) by (fastforce simp: wal_ok_def max_def)
  ultimately have "bp_inv (X - {k}) es ?s"
    by (intro bp_invI) (use assms(1) d(2) ok(2) in \<open>auto simp: bp_inv_def\<close>)
  then show thesis using that run d(3,4) by blast
qed

text \<open>The view depends on the content of the registered frames and on the pages below the rest.\<close>

lemma bp_view_cong:
  assumes "bp_inv X es s" "bp_inv Y es' s'"
    "\<And>k. (case map_of es' k of Some a \<Rightarrow> map_option (\<lambda>x. content (fr_page x)) (fmem s' a) | None \<Rightarrow> map_option content (dw_view (dw s') k)) =
      (case map_of es k of Some a \<Rightarrow> map_option (\<lambda>x. content (fr_page x)) (fmem s a) | None \<Rightarrow> map_option content (dw_view (dw s) k))"
  shows "bp_view s' = bp_view s"
  using assms(3) by (simp add: fun_eq_iff bp_view_at[OF assms(1)] bp_view_at[OF assms(2)])

text \<open>\<open>frame_purger\<close> leaves a clean frame with the same content.\<close>

lemma frame_purger_effect:
  assumes "bp_inv X es s" "map_of es k = Some a" "fmem s a = Some x" "k \<notin> X"
  obtains s' x' where "frame_purger a s = Some (SUCCESS, s')" "bp_inv X es s'" "bp_view s' = bp_view s"
    "fmem s' = (fmem s)(a \<mapsto> x')" "fr_pins x' = fr_pins x" "content (fr_page x') = content (fr_page x)"
    "\<not> fr_dirty x'" "dw_view (dw s') k = Some (fr_page x')" "fr_free s' = fr_free s" "flushed_lsn s \<le> flushed_lsn s'"
    "open_pools (dw s') = open_pools (dw s)"
proof (cases "fr_dirty x")
  case False
  then have "dw_view (dw s) k = Some (fr_page x)"
    using bp_inv_frame_ok(1)[OF assms(1-3)] assms(4) by (simp add: frame_ok_def)
  then show thesis using that[of s x] False assms(1,3) by (simp add: frame_purger_def fun_upd_idem)
next
  case True
  obtain d where d: "flush_page_internal a s = Some (SUCCESS, flushed s a x d)"
    "bp_inv (X - {k}) es (flushed s a x d)"
    "dw_view d = (dw_view (dw s))(k \<mapsto> with_sum (fr_page x))" "open_pools d = open_pools (dw s)"
    by (rule flush_page_internal_effect[OF assms(1-3)])
  let ?s = "flushed s a x d"
  have inv: "bp_inv X es ?s" using d(2) assms(4) by simp
  have pool: "fst (fr_id x) \<in> open_pools (dw s)"
    using bp_inv_frame_ok(1)[OF assms(1-3)] by (simp add: frame_ok_def)
  have view: "bp_view ?s = bp_view s"
    by (rule bp_view_cong[OF assms(1) inv])
      (use d(3) assms(2,3) in \<open>auto split: option.splits\<close>)
  show thesis
    by (rule that[of ?s "x\<lparr>fr_page := with_sum (fr_page x), fr_dirty := False\<rparr>"])
      (use d inv view pool True assms(3) in \<open>simp_all add: frame_purger_def\<close>)
qed

section \<open>Eviction\<close>

lemma purge_finder_skips:
  assumes "\<And>k a. (k, a) \<in> set es \<Longrightarrow> \<exists>x. m a = Some x \<and> \<not> can_purge x"
  shows "fold_while (purge_finder n) (es @ fs) (m, found) = fold_while (purge_finder n) fs (m, found)"
  using assms
proof (induction es)
  case (Cons e es)
  obtain k a where e: "e = (k, a)" by fastforce
  obtain x where "m a = Some x" "\<not> can_purge x" using Cons.prems[of k a] e by auto
  then have "purge_finder n k a (m, found) = (True, m, found)" by (simp add: purge_finder_def)
  moreover have "fold_while (purge_finder n) (es @ fs) (m, found) = fold_while (purge_finder n) fs (m, found)"
    using Cons.prems by (intro Cons.IH) auto
  ultimately show ?case by (simp add: e)
qed simp

lemma purge_frames_effect:
  assumes "bp_inv X (hot @ (k, a) # cold) s" "fmem s a = Some x" "can_purge x" "k \<notin> X"
    "\<And>k' b y. (k', b) \<in> set cold \<Longrightarrow> fmem s b = Some y \<Longrightarrow> \<not> can_purge y"
  obtains s' y where "purge_frames 1 frame_purger s = Some (1, s')" "bp_inv X (hot @ cold) s'" "bp_view s' = bp_view s"
    "fmem s' = (fmem s)(a \<mapsto> y)" "fr_free s' = fr_free s @ [a]" "\<not> fr_dirty y" "flushed_lsn s \<le> flushed_lsn s'"
    "open_pools (dw s') = open_pools (dw s)"
proof -
  let ?es = "hot @ (k, a) # cold"
  have at: "map_of ?es k = Some a" using bp_invD(2)[OF assms(1)] by (intro map_of_is_SomeI) auto
  have skip: "\<exists>y. fmem s b = Some y \<and> \<not> can_purge y" if "(k', b) \<in> set (rev cold)" for k' b
  proof -
    have "map_of ?es k' = Some b" using that bp_invD(2)[OF assms(1)] by (intro map_of_is_SomeI) auto
    then obtain y where "fmem s b = Some y" by (rule bp_inv_frame[OF assms(1)])
    then show ?thesis using assms(5) that by auto
  qed
  let ?x = "x\<lparr>fr_pins := fr_pins x + 1\<rparr>"
  let ?s1 = "s\<lparr>fmem := (fmem s)(a \<mapsto> ?x)\<rparr>"
  have found: "lru_foreach_reverse (purge_finder 1) (frames s) (fmem s, []) = Some ((fmem s)(a \<mapsto> ?x), [a])"
  proof -
    have "fold_while (purge_finder 1) (rev cold @ (k, a) # rev hot) (fmem s, []) =
        fold_while (purge_finder 1) ((k, a) # rev hot) (fmem s, [])"
      by (rule purge_finder_skips[OF skip])
    also have "\<dots> = ((fmem s)(a \<mapsto> ?x), [a])" using assms(2,3) by (simp add: purge_finder_def)
    finally show ?thesis by (simp add: lru_foreach_abs(2)[OF bp_invD(1)[OF assms(1)]])
  qed
  have pins: "fr_pins ?x = 1" using assms(3) by (simp add: can_purge_def)
  have inv1: "bp_inv X ?es ?s1"
    by (rule bp_inv_upd[OF assms(1) at]) (use bp_inv_frame_ok[OF assms(1) at assms(2)] in \<open>simp add: frame_ok_def\<close>)
  have view1: "bp_view ?s1 = bp_view s"
    by (rule bp_view_cong[OF assms(1) inv1]) (use assms(2) in \<open>auto split: option.splits\<close>)
  obtain s2 x2 where s2: "frame_purger a ?s1 = Some (SUCCESS, s2)" "bp_inv X ?es s2" "bp_view s2 = bp_view ?s1"
    "fmem s2 = (fmem ?s1)(a \<mapsto> x2)" "fr_pins x2 = fr_pins ?x" "content (fr_page x2) = content (fr_page ?x)"
    "\<not> fr_dirty x2" "dw_view (dw s2) k = Some (fr_page x2)" "fr_free s2 = fr_free ?s1" "flushed_lsn ?s1 \<le> flushed_lsn s2"
    "open_pools (dw s2) = open_pools (dw ?s1)"
    by (rule frame_purger_effect[OF inv1 at _ assms(4)]) simp
  have m2: "fmem s2 a = Some x2" using s2(4) by simp
  obtain c where c: "free_internal k a s2 = Some (SUCCESS, freed s2 c k a x2)"
    "bp_inv (X - {k}) (filter (\<lambda>e. fst e \<noteq> k) ?es) (freed s2 c k a x2)"
    by (rule free_internal_effect[OF s2(2) at m2]) (use s2(5) pins in simp)
  let ?t = "freed s2 c k a x2"
  have flt: "filter (\<lambda>e. fst e \<noteq> k) ?es = hot @ cold"
    using bp_invD(2)[OF assms(1)] by (simp add: filter_other_keys)
  have inv3: "bp_inv X (hot @ cold) ?t" using c(2) assms(4) unfolding flt by simp
  have gone: "map_of (hot @ cold) k' = (if k' = k then None else map_of ?es k')" for k'
    unfolding flt[symmetric] by (rule lru.map_of_filter_key)
  have other: "b \<noteq> a" if "map_of ?es k' = Some b" "k' \<noteq> k" for k' b
    using bp_inv_inj[OF assms(1) at] that by blast
  have "bp_view ?t = bp_view s2"
    by (rule bp_view_cong[OF s2(2) inv3]) (use gone at s2(8) m2 other in \<open>auto split: option.splits\<close>)
  moreover have "purge_frames 1 frame_purger s = Some (1, ?t)"
    using found s2(1) c(1) m2 bp_inv_frame_ok(3)[OF s2(2) at m2] by (simp add: purge_frames_def)
  ultimately show thesis
    by (intro that[OF _ inv3, of "x2\<lparr>fr_id := (fst k, - 1), fr_pins := 0\<rparr>"]) (use s2 view1 in auto)
qed

section \<open>Allocating a frame\<close>

text \<open>
  What a client knows about a frame handed out for an uncached page \<open>k\<close>: it is pinned once and registered;
  all other pages and, below the frame, the page itself keep their versions; pinned frames stay.
\<close>

definition pinned_kept :: "(page_key \<times> addr) list \<Rightarrow> bufpool \<Rightarrow> (page_key \<times> addr) list \<Rightarrow> bufpool \<Rightarrow> bool" where
  "pinned_kept es s es' s' \<longleftrightarrow> (\<forall>k a x. map_of es k = Some a \<and> fmem s a = Some x \<and> fr_pins x > 0 \<longrightarrow>
     map_of es' k = Some a \<and> fmem s' a = Some x)"

lemma pinned_kept_trans:
  "pinned_kept es s es1 s1 \<Longrightarrow> pinned_kept es1 s1 es2 s2 \<Longrightarrow> pinned_kept es s es2 s2"
  unfolding pinned_kept_def by blast

lemma pinned_keptD:
  assumes "pinned_kept es s es' s'" "map_of es k = Some a" "fmem s a = Some x" "fr_pins x > 0"
  shows "map_of es' k = Some a" "fmem s' a = Some x"
  using assms unfolding pinned_kept_def by blast+

lemma pinned_kept_frames [simp]: "pinned_kept es (s\<lparr>frames := c\<rparr>) = pinned_kept es s"
  by (simp add: pinned_kept_def fun_eq_iff)

definition free_clean :: "bufpool \<Rightarrow> bool" where
  "free_clean s \<longleftrightarrow> (\<forall>a\<in>set (fr_free s). \<forall>x. fmem s a = Some x \<longrightarrow> \<not> fr_dirty x)"

definition claimed :: "page_key \<Rightarrow> (page_key \<times> addr) list \<Rightarrow> bufpool \<Rightarrow> addr \<Rightarrow> frame \<Rightarrow> (page_key \<times> addr) list \<Rightarrow> bufpool \<Rightarrow> bool" where
  "claimed k es s a x es' s' \<longleftrightarrow> bp_inv {k} ((k, a) # es') s' \<and> fmem s' a = Some x \<and> fr_pins x = 1 \<and> fr_id x = k \<and>
     (\<forall>k'. k' \<noteq> k \<longrightarrow> bp_view s' k' = bp_view s k') \<and> map_option content (dw_view (dw s') k) = bp_view s k \<and>
     pinned_kept es s ((k, a) # es') s' \<and> flushed_lsn s \<le> flushed_lsn s' \<and> open_pools (dw s') = open_pools (dw s) \<and>
     (free_clean s \<longrightarrow> \<not> fr_dirty x \<and> free_clean s')"

lemma allocate_frame_free:
  assumes "bp_inv {} es s" "map_of es k = None" "fst k \<in> open_pools (dw s)" "fr_free s \<noteq> []"
  shows "\<exists>a x s'. allocate_frame k s = Some (a, s') \<and> claimed k es s a x es s'"
proof -
  obtain a rest where free: "fr_free s = a # rest" using assms(4) by (cases "fr_free s") auto
  obtain c x where c: "fmem s a = Some x" "frame_alloc k s = Some (Some a,
      s\<lparr>frames := c, fr_free := rest, fmem := (fmem s)(a \<mapsto> x\<lparr>fr_id := k, fr_pins := 1\<rparr>)\<rparr>)"
    "bp_inv {k} ((k, a) # es) (s\<lparr>frames := c, fr_free := rest, fmem := (fmem s)(a \<mapsto> x\<lparr>fr_id := k, fr_pins := 1\<rparr>)\<rparr>)"
    by (rule frame_alloc_free[OF assms(1,2) free assms(3)])
  let ?s = "s\<lparr>frames := c, fr_free := rest, fmem := (fmem s)(a \<mapsto> x\<lparr>fr_id := k, fr_pins := 1\<rparr>)\<rparr>"
  have other: "b \<noteq> a" if "map_of es k' = Some b" for k' b
    using that free by (auto elim: bp_inv_frame[OF assms(1)])
  have "bp_view ?s k' = bp_view s k'" if "k' \<noteq> k" for k'
    using that other by (auto simp: bp_view_at[OF assms(1)] bp_view_at[OF c(3)] split: option.splits)
  moreover have "map_option content (dw_view (dw s) k) = bp_view s k"
    using assms(2) by (simp add: bp_view_at[OF assms(1)])
  moreover have "pinned_kept es s ((k, a) # es) ?s"
    using assms(2) other by (auto simp: pinned_kept_def)
  moreover have "free_clean s \<longrightarrow> \<not> fr_dirty x \<and> free_clean ?s"
    using c(1) free bp_invD(4)[OF assms(1)] by (auto simp: free_clean_def)
  moreover have "allocate_frame k s = Some (a, ?s)" by (subst allocate_frame.simps) (simp add: c(2))
  ultimately show ?thesis
    using c(3) by (intro exI[of _ a] exI[of _ "x\<lparr>fr_id := k, fr_pins := 1\<rparr>"] exI[of _ ?s]) (simp add: claimed_def)
qed

lemma allocate_frame_evict:
  assumes "bp_inv {} es s" "map_of es k = None" "fst k \<in> open_pools (dw s)" "fr_free s = []"
    "(kv, v) \<in> set es" "fmem s v = Some xv" "can_purge xv"
  shows "\<exists>a x es' s'. allocate_frame k s = Some (a, s') \<and> claimed k es s a x es' s'"
proof -
  obtain c where c: "frame_alloc k s = Some (None, s\<lparr>frames := c\<rparr>)" "bp_inv {} es (s\<lparr>frames := c\<rparr>)"
    by (rule frame_alloc_full[OF assms(1,2,4)])
  let ?s = "s\<lparr>frames := c\<rparr>"
  have "\<exists>e\<in>set es. \<exists>x. fmem s (snd e) = Some x \<and> can_purge x" using assms(5-7) by (intro bexI[of _ "(kv, v)"]) auto
  then obtain hot e cold x where split: "es = hot @ e # cold" "fmem s (snd e) = Some x" "can_purge x"
      "\<forall>e'\<in>set cold. \<not> (\<exists>y. fmem s (snd e') = Some y \<and> can_purge y)"
    using split_list_last_prop[of es "\<lambda>e. \<exists>x. fmem s (snd e) = Some x \<and> can_purge x"] by blast
  obtain kb b where e: "e = (kb, b)" by fastforce
  have vb: "fmem ?s b = Some x" using split(2) e by simp
  have cold: "\<not> can_purge y" if "(k', b') \<in> set cold" "fmem ?s b' = Some y" for k' b' y using that split(4) by fastforce
  have inv: "bp_inv {} (hot @ (kb, b) # cold) ?s" using c(2) split(1) e by simp
  obtain s2 y where s2: "purge_frames 1 frame_purger ?s = Some (1, s2)" "bp_inv {} (hot @ cold) s2"
      "bp_view s2 = bp_view ?s" "fmem s2 = (fmem ?s)(b \<mapsto> y)" "fr_free s2 = fr_free ?s @ [b]" "\<not> fr_dirty y"
      "flushed_lsn ?s \<le> flushed_lsn s2" "open_pools (dw s2) = open_pools (dw ?s)"
    by (rule purge_frames_effect[OF inv vb split(3) _ cold]) auto
  have "k \<notin> fst ` set es" using assms(2) by (simp add: map_of_eq_None_iff)
  then have gone: "map_of (hot @ cold) k = None" unfolding map_of_eq_None_iff split(1) by simp
  obtain a z s' where a: "allocate_frame k s2 = Some (a, s')" "claimed k (hot @ cold) s2 a z (hot @ cold) s'"
    using allocate_frame_free[OF s2(2) gone] assms(3) s2(5,8) by auto
  have "bp_view ?s = bp_view s" by (rule bp_view_cong[OF assms(1) c(2)]) (simp split: option.split)
  moreover have "pinned_kept es s (hot @ cold) s2"
    unfolding pinned_kept_def
  proof (intro allI impI)
    fix k' a' x' assume p: "map_of es k' = Some a' \<and> fmem s a' = Some x' \<and> fr_pins x' > 0"
    then have "a' \<noteq> b" using vb split(3) by (auto simp: can_purge_def)
    moreover have "(k', a') \<in> set es" using p map_of_SomeD by fast
    ultimately have "(k', a') \<in> set (hot @ cold)" using split(1) e by auto
    then have "map_of (hot @ cold) k' = Some a'" using bp_invD(2)[OF s2(2)] by (intro map_of_is_SomeI)
    then show "map_of (hot @ cold) k' = Some a' \<and> fmem s2 a' = Some x'" using p s2(4) \<open>a' \<noteq> b\<close> by simp
  qed
  then have "pinned_kept es s ((k, a) # hot @ cold) s'"
    by (rule pinned_kept_trans) (use a(2) in \<open>simp add: claimed_def\<close>)
  moreover have "free_clean s2" using s2(4-6) assms(4) by (simp add: free_clean_def)
  moreover have "allocate_frame k s = Some (a, s')"
    by (subst allocate_frame.simps) (use c(1) s2(1) a(1) in simp)
  ultimately show ?thesis
    using a(2) s2(3,7,8) by (intro exI[of _ a] exI[of _ z] exI[of _ "hot @ cold"] exI[of _ s']) (simp add: claimed_def)
qed

text \<open>There is room for a page: a free frame or one that nobody uses.\<close>

definition has_room :: "bufpool \<Rightarrow> bool" where
  "has_room s \<longleftrightarrow> fr_free s \<noteq> [] \<or> (\<exists>k a x. cached s k = Some a \<and> fmem s a = Some x \<and> can_purge x)"

lemma allocate_frame_effect:
  assumes "bp_inv {} es s" "map_of es k = None" "fst k \<in> open_pools (dw s)" "has_room s"
  obtains a x es' s' where "allocate_frame k s = Some (a, s')" "claimed k es s a x es' s'"
proof (cases "fr_free s = []")
  case True
  then obtain kv v xv where "map_of es kv = Some v" "fmem s v = Some xv" "can_purge xv"
    using assms(4) by (auto simp: has_room_def cached_map_of[OF assms(1)])
  then show thesis using allocate_frame_evict[OF assms(1-3) True map_of_SomeD] that by blast
qed (use allocate_frame_free[OF assms(1-3)] that in blast)

section \<open>Loading and getting pages\<close>

lemma dw_read_page_view:
  assumes "dw_mirror d"
  shows "dw_read_page k d = Some (if map_of (dw_table d) k = None then (BUFFERPOOL_INVALID_PAGE_NUM, None)
    else (SUCCESS, dw_view d k))"
proof (cases "map_of (dw_table d) k")
  case (Some v)
  then obtain e where "v = Some e" using mirror_entries_ok(2)[OF assms] map_of_SomeD[OF Some] by auto
  then show ?thesis using Some by (simp add: dw_read_page_def dw_view_def)
qed (simp add: dw_read_page_def)

lemma load_page_effect:
  assumes "dw_mirror (dw s)" "fmem s a = Some x" "fr_id x = k" "0 \<le> snd k"
  shows "load_page k a s = (case dw_view (dw s) k of
     Some p \<Rightarrow> Some (SUCCESS, s\<lparr>fmem := (fmem s)(a \<mapsto> x\<lparr>fr_page := p\<rparr>)\<rparr>)
   | None \<Rightarrow> Some (IOERR_READ, s))"
proof -
  have own: "x\<lparr>fr_id := (fst k, snd k), fr_page := p\<rparr> = x\<lparr>fr_page := p\<rparr>" for p using assms(3) by simp
  show ?thesis
  proof (cases "map_of (dw_table (dw s)) k")
    case None
    then show ?thesis
      using assms own by (auto simp: load_page_def dw_read_page_view dw_view_def upd_frame_def split: option.splits)
  next
    case (Some v)
    then obtain e where "v = Some e" using mirror_entries_ok(2)[OF assms(1)] map_of_SomeD[OF Some] by auto
    then show ?thesis
      using assms(1,2) Some by (simp add: load_page_def dw_read_page_view dw_view_def upd_frame_def)
  qed
qed

text \<open>The frame of a claimed page after its load.\<close>

lemma claimed_load:
  assumes "claimed k es s a x es' s'" "dw_view (dw s') k = Some p" "map_of es k = None"
  defines "t \<equiv> s'\<lparr>fmem := (fmem s')(a \<mapsto> x\<lparr>fr_page := p\<rparr>)\<rparr>"
  shows "bp_inv {} ((k, a) # es') t" "bp_view t = bp_view s" "bp_view s k = Some (content p)"
    "pinned_kept es s ((k, a) # es') t"
proof -
  have inv: "bp_inv {k} ((k, a) # es') s'" using assms(1) by (simp add: claimed_def)
  have x: "fmem s' a = Some x" "fr_id x = k" "fr_pins x = 1" using assms(1) by (simp_all add: claimed_def)
  have at: "map_of ((k, a) # es') k = Some a" by simp
  have ok: "frame_ok (dw s') {} k (x\<lparr>fr_page := p\<rparr>)"
    using bp_inv_frame_ok(1)[OF inv at x(1)] assms(2) by (simp add: frame_ok_def)
  have invt: "bp_inv {k} ((k, a) # es') t"
    unfolding t_def by (rule bp_inv_upd[OF inv at]) (use ok in \<open>simp add: frame_ok_def\<close>)
  have "\<exists>y. fmem t b = Some y \<and> frame_ok (dw t) {} k' y" if "(k', b) \<in> set ((k, a) # es')" for k' b
  proof (cases "k' = k")
    case True
    then have "b = a" using that bp_invD(2)[OF inv] by (auto simp: rev_image_eqI)
    then show ?thesis using True ok by (simp add: t_def)
  next
    case False
    have "map_of ((k, a) # es') k' = Some b" using that bp_invD(2)[OF inv] by (intro map_of_is_SomeI)
    then obtain y where "fmem t b = Some y" "frame_ok (dw t) {k} k' y" by (rule bp_inv_frame[OF invt])
    then show ?thesis using False by (simp add: frame_ok_def)
  qed
  then show inv0: "bp_inv {} ((k, a) # es') t"
    by (intro bp_invI) (use invt in \<open>simp_all add: bp_inv_def\<close>)
  show own: "bp_view s k = Some (content p)" using assms(1,2) by (simp add: claimed_def)
  show "bp_view t = bp_view s"
  proof
    fix k'
    have "bp_view t k' = bp_view s' k'" if "k' \<noteq> k"
    proof -
      have "b \<noteq> a" if "map_of es' k' = Some b" for b using bp_inv_inj[OF inv at, of k'] that \<open>k' \<noteq> k\<close> by auto
      then show ?thesis
        using that unfolding bp_view_at[OF inv] bp_view_at[OF inv0] by (auto simp: t_def split: option.splits)
    qed
    then show "bp_view t k' = bp_view s k'"
      using assms(1) own unfolding claimed_def bp_view_at[OF inv0]
      by (cases "k' = k") (simp_all add: t_def del: split_paired_All)
  qed
  show "pinned_kept es s ((k, a) # es') t"
    unfolding pinned_kept_def
  proof (intro allI impI)
    fix k' b y assume p: "map_of es k' = Some b \<and> fmem s b = Some y \<and> 0 < fr_pins y"
    then have q: "map_of ((k, a) # es') k' = Some b" "fmem s' b = Some y"
      using assms(1) unfolding claimed_def pinned_kept_def by blast+
    moreover have "k' \<noteq> k" using p assms(3) by auto
    ultimately have "b \<noteq> a" using bp_inv_inj[OF inv at] by blast
    then show "map_of ((k, a) # es') k' = Some b \<and> fmem t b = Some y" using q by (simp add: t_def)
  qed
qed

lemma bp_view_frames:
  assumes "bp_inv X es s" "bp_inv X es (s\<lparr>frames := c\<rparr>)"
  shows "bp_view (s\<lparr>frames := c\<rparr>) = bp_view s" "has_room (s\<lparr>frames := c\<rparr>) = has_room s"
  by (rule bp_view_cong[OF assms]) (simp_all add: has_room_def cached_map_of[OF assms(1)] cached_map_of[OF assms(2)] split: option.split)

text \<open>What \<open>get_this_page\<close> does on the three paths: a hit, a load, and a page that does not exist.\<close>

lemma get_this_page_hit:
  assumes "bp_inv {} es s" "map_of es k = Some a"
  obtains x s' where "get_this_page k s = Some (SUCCESS, Some a, s')" "bp_inv {} (touch k a es) s'"
    "bp_view s' = bp_view s" "fmem s a = Some x" "fmem s' = (fmem s)(a \<mapsto> x\<lparr>fr_pins := fr_pins x + 1\<rparr>)"
proof -
  obtain x where x: "fmem s a = Some x" "frame_ok (dw s) {} k x" by (rule bp_inv_frame[OF assms])
  obtain c where c: "get_internal k s = Some (Some a, s\<lparr>frames := c, fmem := (fmem s)(a \<mapsto> x\<lparr>fr_pins := fr_pins x + 1\<rparr>)\<rparr>)"
    "bp_inv {} (touch k a es) (s\<lparr>frames := c, fmem := (fmem s)(a \<mapsto> x\<lparr>fr_pins := fr_pins x + 1\<rparr>)\<rparr>)"
    by (rule get_internal_hit[OF assms x(1)])
  show thesis
  proof (rule that[OF _ c(2)])
    show "bp_view (s\<lparr>frames := c, fmem := (fmem s)(a \<mapsto> x\<lparr>fr_pins := fr_pins x + 1\<rparr>)\<rparr>) = bp_view s"
      by (rule bp_view_cong[OF assms(1) c(2)])
        (use x(1) assms(2) in \<open>auto simp: lru.map_of_touch split: option.splits\<close>)
  qed (use c(1) x(1) in \<open>simp_all add: get_this_page_def\<close>)
qed

lemma get_this_page_load:
  assumes "bp_inv {} es s" "map_of es k = None" "fst k \<in> open_pools (dw s)" "0 \<le> snd k" "has_room s"
    "bp_view s k = Some v"
  obtains a x es' s' where "get_this_page k s = Some (SUCCESS, Some a, s')" "bp_inv {} ((k, a) # es') s'"
    "bp_view s' = bp_view s" "fmem s' a = Some x" "fr_pins x = 1" "pinned_kept es s ((k, a) # es') s'"
proof -
  obtain c where c: "get_internal k s = Some (None, s\<lparr>frames := c\<rparr>)" "bp_inv {} es (s\<lparr>frames := c\<rparr>)"
    by (rule get_internal_miss[OF assms(1,2)])
  let ?s = "s\<lparr>frames := c\<rparr>"
  note same = bp_view_frames[OF assms(1) c(2)]
  obtain a x es' s' where a: "allocate_frame k ?s = Some (a, s')" "claimed k es ?s a x es' s'"
    by (rule allocate_frame_effect[OF c(2) assms(2)]) (use assms(3,5) same(2) in simp_all)
  have "map_option content (dw_view (dw s') k) = Some v" using a(2) assms(6) same(1) by (simp add: claimed_def)
  then obtain p where p: "dw_view (dw s') k = Some p" by auto
  have x: "fmem s' a = Some x" "fr_id x = k" "dw_mirror (dw s')" "fr_pins x = 1"
    using a(2) by (simp_all add: claimed_def bp_inv_def)
  have own: "upd_frame (\<lambda>x. x\<lparr>fr_id := (fst k, snd (fr_id x))\<rparr>) a s' = Some s'"
    using x(1,2) by (simp add: upd_frame_def fun_upd_idem)
  let ?t = "s'\<lparr>fmem := (fmem s')(a \<mapsto> x\<lparr>fr_page := p\<rparr>)\<rparr>"
  have "get_this_page k s = Some (SUCCESS, Some a, ?t)"
    using c(1) a(1) own p load_page_effect[OF x(3,1,2) assms(4)] by (simp add: get_this_page_def)
  moreover note L = claimed_load[OF a(2) p assms(2)]
  have "pinned_kept es s ((k, a) # es') ?t" using L(4) by (simp add: pinned_kept_def)
  ultimately show thesis using that[OF _ L(1)] L(2) same(1) x(4) by simp
qed

lemma get_this_page_missing:
  assumes "bp_inv {} es s" "fst k \<in> open_pools (dw s)" "0 \<le> snd k" "has_room s" "bp_view s k = None" "free_clean s"
  obtains es' s' where "get_this_page k s = Some (IOERR_READ, None, s')" "bp_inv {} es' s'" "bp_view s' = bp_view s"
    "free_clean s'" "pinned_kept es s es' s'"
proof -
  have none: "map_of es k = None"
  proof (cases "map_of es k")
    case (Some a)
    then obtain x where "fmem s a = Some x" by (rule bp_inv_frame[OF assms(1)])
    then show ?thesis using assms(5) Some by (simp add: bp_view_at[OF assms(1)])
  qed simp
  obtain c where c: "get_internal k s = Some (None, s\<lparr>frames := c\<rparr>)" "bp_inv {} es (s\<lparr>frames := c\<rparr>)"
    by (rule get_internal_miss[OF assms(1) none])
  let ?s = "s\<lparr>frames := c\<rparr>"
  note same = bp_view_frames[OF assms(1) c(2)]
  obtain a x es' s' where a: "allocate_frame k ?s = Some (a, s')" "claimed k es ?s a x es' s'"
    by (rule allocate_frame_effect[OF c(2) none]) (use assms(2,4) same(2) in simp_all)
  have clean: "free_clean ?s" using assms(6) by (simp add: free_clean_def)
  have x: "fmem s' a = Some x" "fr_id x = k" "dw_mirror (dw s')" "fr_pins x = 1" "\<not> fr_dirty x" "free_clean s'"
      "dw_view (dw s') k = None" "bp_inv {k} ((k, a) # es') s'"
    using a(2) clean same(1) assms(5) bp_invD(6) by (auto simp: claimed_def)
  have own: "upd_frame (\<lambda>x. x\<lparr>fr_id := (fst k, snd (fr_id x))\<rparr>) a s' = Some s'"
    using x(1,2) by (simp add: upd_frame_def fun_upd_idem)
  have at: "map_of ((k, a) # es') k = Some a" by simp
  obtain d where d: "free_internal k a s' = Some (SUCCESS, freed s' d k a x)"
    "bp_inv ({k} - {k}) (filter (\<lambda>e. fst e \<noteq> k) ((k, a) # es')) (freed s' d k a x)"
    by (rule free_internal_effect[OF x(8) at x(1,4)])
  let ?t = "freed s' d k a x" and ?es = "filter (\<lambda>e. fst e \<noteq> k) ((k, a) # es')"
  have inv: "bp_inv {} ?es ?t" using d(2) by simp
  have gone: "map_of ?es k' = (if k' = k then None else map_of ((k, a) # es') k')" for k'
    by (rule lru.map_of_filter_key)
  have other: "b \<noteq> a" if "map_of ((k, a) # es') k' = Some b" "k' \<noteq> k" for k' b
    using bp_inv_inj[OF x(8) at] that by blast
  have "get_this_page k s = Some (IOERR_READ, None, ?t)"
    using c(1) a(1) own x d(1) load_page_effect[OF x(3,1,2) assms(3)]
    by (simp add: get_this_page_def purge_frame_def)
  moreover have "bp_view ?t = bp_view s"
  proof
    fix k'
    have "bp_view ?t k' = bp_view s' k'" if "k' \<noteq> k"
      using that other unfolding bp_view_at[OF inv] bp_view_at[OF x(8)] gone by (auto split: option.splits)
    moreover have "bp_view s' k' = bp_view s k'" if "k' \<noteq> k"
      using that a(2) same(1) by (simp add: claimed_def del: split_paired_All)
    moreover have "bp_view ?t k = None" unfolding bp_view_at[OF inv] gone using x(7) by simp
    ultimately show "bp_view ?t k' = bp_view s k'" using assms(5) by (cases "k' = k") auto
  qed
  moreover have "free_clean ?t" using x(5,6) by (auto simp: free_clean_def)
  moreover have "pinned_kept es s ?es ?t"
    unfolding pinned_kept_def
  proof (intro allI impI)
    fix k' b y assume p: "map_of es k' = Some b \<and> fmem s b = Some y \<and> 0 < fr_pins y"
    have pk: "pinned_kept es s ((k, a) # es') s'" using a(2) by (simp add: claimed_def)
    have q: "map_of ((k, a) # es') k' = Some b" "fmem s' b = Some y" "k' \<noteq> k"
      using pinned_keptD[OF pk, of k' b y] p none by auto
    then show "map_of ?es k' = Some b \<and> fmem ?t b = Some y" unfolding gone using other by simp
  qed
  ultimately show thesis using that[OF _ inv] by blast
qed

section \<open>Clients of a frame\<close>

lemma unpin_effect:
  assumes "bp_inv {} es s" "map_of es k = Some a" "fmem s a = Some x" "fr_pins x > 0"
  obtains s' where "unpin a s = Some s'" "bp_inv {} es s'" "bp_view s' = bp_view s"
    "s' = s\<lparr>fmem := (fmem s)(a \<mapsto> x\<lparr>fr_pins := fr_pins x - 1\<rparr>)\<rparr>"
proof -
  let ?s = "s\<lparr>fmem := (fmem s)(a \<mapsto> x\<lparr>fr_pins := fr_pins x - 1\<rparr>)\<rparr>"
  have inv: "bp_inv {} es ?s"
    by (rule bp_inv_upd[OF assms(1,2)]) (use bp_inv_frame_ok(1)[OF assms(1-3)] assms(4) in \<open>simp add: frame_ok_def\<close>)
  have "bp_view ?s = bp_view s"
    by (rule bp_view_cong[OF assms(1) inv]) (use assms(3) in \<open>auto split: option.splits\<close>)
  then show thesis using that inv assms(3,4) by (simp add: unpin_def upd_frame_def)
qed

lemma write_frame_effect:
  assumes "bp_inv {} es s" "map_of es k = Some a"
  obtains s' where "write_frame a lsn d s = Some s'" "bp_inv {} es s'" "bp_view s' = (bp_view s)(k \<mapsto> (lsn, d))"
    "dw s' = dw s" "flushed_lsn s' = flushed_lsn s"
proof -
  obtain x where x: "fmem s a = Some x" "frame_ok (dw s) {} k x" by (rule bp_inv_frame[OF assms])
  let ?x = "x\<lparr>fr_page := (fr_page x)\<lparr>p_lsn := lsn, p_data := d\<rparr>, fr_dirty := True\<rparr>"
  let ?s = "s\<lparr>fmem := (fmem s)(a \<mapsto> ?x)\<rparr>"
  have inv: "bp_inv {} es ?s"
    by (rule bp_inv_upd[OF assms]) (use x(2) in \<open>simp add: frame_ok_def\<close>)
  have other: "b \<noteq> a" if "map_of es k' = Some b" "k' \<noteq> k" for k' b
    using bp_inv_inj[OF assms] that by blast
  have "bp_view ?s = (bp_view s)(k \<mapsto> (lsn, d))"
  proof
    fix k'
    show "bp_view ?s k' = ((bp_view s)(k \<mapsto> (lsn, d))) k'"
      unfolding fun_upd_apply bp_view_at[OF assms(1)] bp_view_at[OF inv]
      using assms(2) other by (auto simp: content_def split: option.splits)
  qed
  then show thesis using that[OF _ inv] x(1) by (simp add: write_frame_def upd_frame_def mark_dirty_def)
qed

text \<open>\<open>purge_page\<close> drops an unused page, after writing it back when it is dirty.\<close>

lemma purge_unused_page:
  assumes "bp_inv {} es s" "map_of es k = Some a" "fmem s a = Some x" "fr_pins x = 0"
  obtains es' s' where "purge_page k s = Some (SUCCESS, s')" "bp_inv {} es' s'" "bp_view s' = bp_view s"
    "map_of es' k = None" "map_option content (dw_view (dw s') k) = bp_view s k"
proof -
  let ?x = "x\<lparr>fr_pins := fr_pins x + 1\<rparr>" and ?es = "touch k a es"
  obtain c where c: "get_internal k s = Some (Some a, s\<lparr>frames := c, fmem := (fmem s)(a \<mapsto> ?x)\<rparr>)"
    "bp_inv {} ?es (s\<lparr>frames := c, fmem := (fmem s)(a \<mapsto> ?x)\<rparr>)"
    by (rule get_internal_hit[OF assms(1-3)])
  let ?s = "s\<lparr>frames := c, fmem := (fmem s)(a \<mapsto> ?x)\<rparr>"
  have at: "map_of ?es k = Some a" and mem: "fmem ?s a = Some ?x" and empty_not: "k \<notin> {}"
    by (simp_all add: lru.map_of_touch)
  have view: "bp_view ?s = bp_view s"
    by (rule bp_view_cong[OF assms(1) c(2)])
      (use assms(2,3) in \<open>auto simp: lru.map_of_touch split: option.splits\<close>)
  have pool: "fst k \<in> open_pools (dw s)" "fr_id ?x = k"
    using bp_inv_frame_ok(1)[OF assms(1-3)] by (simp_all add: frame_ok_def)
  obtain s2 x2 where s2: "frame_purger a ?s = Some (SUCCESS, s2)" "bp_inv {} ?es s2" "bp_view s2 = bp_view ?s"
    "fmem s2 = (fmem ?s)(a \<mapsto> x2)" "fr_pins x2 = fr_pins ?x" "content (fr_page x2) = content (fr_page ?x)"
    "\<not> fr_dirty x2" "dw_view (dw s2) k = Some (fr_page x2)" "fr_free s2 = fr_free ?s" "flushed_lsn ?s \<le> flushed_lsn s2"
    "open_pools (dw s2) = open_pools (dw ?s)"
    by (rule frame_purger_effect[OF c(2) at mem empty_not])
  have m2: "fmem s2 a = Some x2" "fr_pins x2 = 1" using s2(4,5) assms(4) by simp_all
  obtain d where d: "free_internal k a s2 = Some (SUCCESS, freed s2 d k a x2)"
    "bp_inv ({} - {k}) (filter (\<lambda>e. fst e \<noteq> k) ?es) (freed s2 d k a x2)"
    by (rule free_internal_effect[OF s2(2) at m2])
  let ?t = "freed s2 d k a x2" and ?fs = "filter (\<lambda>e. fst e \<noteq> k) ?es"
  have inv: "bp_inv {} ?fs ?t" using d(2) by simp
  have gone: "map_of ?fs k' = (if k' = k then None else map_of ?es k')" for k' by (rule lru.map_of_filter_key)
  have other: "b \<noteq> a" if "map_of ?es k' = Some b" "k' \<noteq> k" for k' b
    using bp_inv_inj[OF s2(2) at] that by blast
  have "bp_view ?t = bp_view s2"
    by (rule bp_view_cong[OF s2(2) inv]) (use gone at s2(8) m2 other in \<open>auto split: option.splits\<close>)
  moreover have "purge_page k s = Some (SUCCESS, ?t)"
    using c(1) s2(1) d(1) assms(4) pool by (simp add: purge_page_def purge_frame_def frame_purger_def split: if_splits)
  moreover have "map_option content (dw_view (dw ?t) k) = bp_view s k"
    using s2(6,8) assms(2,3) by (simp add: bp_view_at[OF assms(1)])
  ultimately show thesis using that[OF _ inv] s2(3) view gone[of k] by simp
qed

section \<open>Flushing a file\<close>

text \<open>A page is durable when the version below the frames is the current one.\<close>

definition durable :: "bufpool \<Rightarrow> page_key \<Rightarrow> bool" where
  "durable s k \<longleftrightarrow> map_option content (dw_view (dw s) k) = bp_view s k"

lemma flush_frame:
  assumes "bp_inv {} es s" "map_of es k = Some a" "fmem s a = Some x"
  obtains s' x' where "flush_page_internal a s = Some (SUCCESS, s')" "bp_inv {} es s'" "bp_view s' = bp_view s"
    "fmem s' = (fmem s)(a \<mapsto> x')" "fr_pins x' = fr_pins x"
    "\<forall>k'. k' = k \<or> durable s k' \<longrightarrow> durable s' k'"
proof -
  obtain d where d: "flush_page_internal a s = Some (SUCCESS, flushed s a x d)" "bp_inv ({} - {k}) es (flushed s a x d)"
    "dw_view d = (dw_view (dw s))(k \<mapsto> with_sum (fr_page x))" "open_pools d = open_pools (dw s)"
    by (rule flush_page_internal_effect[OF assms])
  let ?s = "flushed s a x d"
  have inv: "bp_inv {} es ?s" using d(2) by simp
  have view: "bp_view ?s = bp_view s"
    by (rule bp_view_cong[OF assms(1) inv]) (use d(3) assms(2,3) in \<open>auto split: option.splits\<close>)
  have "durable ?s k'" if "k' = k \<or> durable s k'" for k'
  proof (cases "k' = k")
    case True
    then show ?thesis unfolding durable_def view using assms(2,3) d(3) by (simp add: bp_view_at[OF assms(1)])
  next
    case False
    then show ?thesis using that d(3) unfolding durable_def view by simp
  qed
  then show thesis using that[OF d(1) inv view] by simp
qed

lemma flush_each_effect:
  assumes "bp_inv {} es s" "\<forall>a\<in>set as. \<exists>k x. map_of es k = Some a \<and> fmem s a = Some x \<and> fr_pins x > 0" "distinct as"
  shows "\<exists>s'. flush_each as s = Some (SUCCESS, s') \<and> bp_inv {} es s' \<and> bp_view s' = bp_view s \<and>
    (\<forall>k. durable s k \<or> (\<exists>a\<in>set as. map_of es k = Some a) \<longrightarrow> durable s' k) \<and>
    (\<forall>a. map_option fr_pins (fmem s' a) = map_option (\<lambda>x. fr_pins x - (if a \<in> set as then 1 else 0)) (fmem s a))"
  using assms
proof (induction as arbitrary: s)
  case Nil
  then show ?case by auto
next
  case (Cons a as)
  obtain k x where x: "map_of es k = Some a" "fmem s a = Some x" "fr_pins x > 0" using Cons.prems(2) by auto
  obtain s1 x1 where s1: "flush_page_internal a s = Some (SUCCESS, s1)" "bp_inv {} es s1" "bp_view s1 = bp_view s"
    "fmem s1 = (fmem s)(a \<mapsto> x1)" "fr_pins x1 = fr_pins x" "\<forall>k'. k' = k \<or> durable s k' \<longrightarrow> durable s1 k'"
    by (rule flush_frame[OF Cons.prems(1) x(1,2)])
  have x1: "fmem s1 a = Some x1" "fr_pins x1 > 0" using s1(4,5) x(3) by simp_all
  obtain s2 where s2: "unpin a s1 = Some s2" "bp_inv {} es s2" "bp_view s2 = bp_view s1"
    "s2 = s1\<lparr>fmem := (fmem s1)(a \<mapsto> x1\<lparr>fr_pins := fr_pins x1 - 1\<rparr>)\<rparr>"
    by (rule unpin_effect[OF s1(2) x(1) x1])
  have dur2: "durable s2 k'" if "durable s1 k'" for k' using that s2(3,4) by (simp add: durable_def)
  have "\<forall>b\<in>set as. \<exists>k x. map_of es k = Some b \<and> fmem s2 b = Some x \<and> fr_pins x > 0"
    using Cons.prems(2,3) s1(4) s2(4) by auto
  then obtain s' where s': "flush_each as s2 = Some (SUCCESS, s')" "bp_inv {} es s'" "bp_view s' = bp_view s2"
    "\<And>k. durable s2 k \<or> (\<exists>a\<in>set as. map_of es k = Some a) \<Longrightarrow> durable s' k"
    "\<And>b. map_option fr_pins (fmem s' b) = map_option (\<lambda>x. fr_pins x - (if b \<in> set as then 1 else 0)) (fmem s2 b)"
    using Cons.IH[OF s2(2) _ distinct_tl[OF Cons.prems(3), simplified]] by blast
  have "durable s' k'" if "durable s k' \<or> (\<exists>b\<in>set (a # as). map_of es k' = Some b)" for k'
    using that s1(6) dur2 s'(4) bp_inv_inj[OF Cons.prems(1) x(1), of k'] unfolding list.set by blast
  moreover have "map_option fr_pins (fmem s' b) = map_option (\<lambda>x. fr_pins x - (if b \<in> set (a # as) then 1 else 0)) (fmem s b)" for b
    using s'(5)[of b] s1(4,5) s2(4) x(2) Cons.prems(3) by auto
  ultimately show ?case using s1(1,3) s2(1,3) s'(1-3) by auto
qed

lemma find_list_fold:
  assumes "distinct (map snd es)"
  shows "fold_while (\<lambda>k a (m, found).
      if fst k = b then (True, (case m a of Some x \<Rightarrow> m(a \<mapsto> x\<lparr>fr_pins := fr_pins x + 1\<rparr>) | None \<Rightarrow> m), found @ [a])
      else (True, m, found)) es (m, found) =
    ((\<lambda>a. if a \<in> snd ` {e \<in> set es. fst (fst e) = b} then map_option (\<lambda>x. x\<lparr>fr_pins := fr_pins x + 1\<rparr>) (m a) else m a),
     found @ map snd (filter (\<lambda>e. fst (fst e) = b) es))"
  using assms
proof (induction es arbitrary: m found)
  case (Cons e es)
  obtain k a where e: "e = (k, a)" by fastforce
  have fresh: "a \<notin> snd ` set es" using Cons.prems e by simp
  show ?case
    using Cons fresh
    by (auto simp: e fun_eq_iff split: option.splits intro: rev_image_eqI)
qed (simp add: fun_eq_iff)

lemma find_list_effect:
  assumes "bp_inv {} es s"
  obtains s' where "find_list b s = Some (map snd (filter (\<lambda>e. fst (fst e) = b) es), s')" "bp_inv {} es s'"
    "bp_view s' = bp_view s" "dw s' = dw s"
    "\<forall>a. fmem s' a = (if a \<in> snd ` {e \<in> set es. fst (fst e) = b}
       then map_option (\<lambda>x. x\<lparr>fr_pins := fr_pins x + 1\<rparr>) (fmem s a) else fmem s a)"
proof -
  let ?m = "\<lambda>a. if a \<in> snd ` {e \<in> set es. fst (fst e) = b}
       then map_option (\<lambda>x. x\<lparr>fr_pins := fr_pins x + 1\<rparr>) (fmem s a) else fmem s a"
  have run: "find_list b s = Some (map snd (filter (\<lambda>e. fst (fst e) = b) es), s\<lparr>fmem := ?m\<rparr>)"
    unfolding find_list_def lru_foreach_abs(1)[OF bp_invD(1)[OF assms]] find_list_fold[OF bp_invD(3)[OF assms]] by simp
  have "\<exists>y. ?m a = Some y \<and> frame_ok (dw s) {} k y" if "(k, a) \<in> set es" for k a
  proof -
    have "map_of es k = Some a" using that bp_invD(2)[OF assms] by simp
    then obtain x where "fmem s a = Some x" "frame_ok (dw s) {} k x" by (rule bp_inv_frame[OF assms])
    then show ?thesis by (auto simp: frame_ok_def)
  qed
  moreover have "\<exists>y. ?m a = Some y \<and> fr_pins y = 0" if "a \<in> set (fr_free s)" for a
    using that assms by (force simp: bp_inv_def)
  ultimately have inv: "bp_inv {} es (s\<lparr>fmem := ?m\<rparr>)"
    by (intro bp_invI) (use assms in \<open>simp_all add: bp_inv_def wal_ok_def\<close>)
  have "bp_view (s\<lparr>fmem := ?m\<rparr>) = bp_view s"
    by (rule bp_view_cong[OF assms inv]) (auto simp: option.map_comp comp_def split: option.split)
  then show thesis using that[OF run inv] by simp
qed

lemma flush_all_pages_effect:
  assumes "bp_inv {} es s"
  obtains s' where "flush_all_pages b s = Some (SUCCESS, s')" "bp_inv {} es s'" "bp_view s' = bp_view s"
    "\<forall>k. fst k = b \<longrightarrow> durable s' k" "\<forall>a. map_option fr_pins (fmem s' a) = map_option fr_pins (fmem s a)"
proof -
  let ?as = "map snd (filter (\<lambda>e. fst (fst e) = b) es)"
  obtain s1 where s1: "find_list b s = Some (?as, s1)" "bp_inv {} es s1" "bp_view s1 = bp_view s" "dw s1 = dw s"
    "\<forall>a. fmem s1 a = (if a \<in> snd ` {e \<in> set es. fst (fst e) = b}
       then map_option (\<lambda>x. x\<lparr>fr_pins := fr_pins x + 1\<rparr>) (fmem s a) else fmem s a)"
    by (rule find_list_effect[OF assms])
  have as: "set ?as = snd ` {e \<in> set es. fst (fst e) = b}" by auto
  have "\<exists>k x. map_of es k = Some a \<and> fmem s1 a = Some x \<and> fr_pins x > 0" if "a \<in> set ?as" for a
  proof -
    from that[unfolded set_map] obtain e where "e \<in> set (filter (\<lambda>e. fst (fst e) = b) es)" "a = snd e" by blast
    then have "(fst e, a) \<in> set es" "fst (fst e) = b" by simp_all
    then obtain k where k: "(k, a) \<in> set es" "fst k = b" by blast
    then have m: "map_of es k = Some a" using bp_invD(2)[OF assms] by simp
    then obtain x where "fmem s a = Some x" "frame_ok (dw s) {} k x" by (rule bp_inv_frame[OF assms])
    then have "fmem s1 a = Some (x\<lparr>fr_pins := fr_pins x + 1\<rparr>)" "0 < fr_pins (x\<lparr>fr_pins := fr_pins x + 1\<rparr>)"
      using s1(5) that unfolding as by (simp_all add: frame_ok_def)
    then show ?thesis using m by blast
  qed
  moreover have "distinct ?as" using bp_invD(3)[OF assms] by (simp add: distinct_map_filter)
  ultimately obtain s' where s': "flush_each ?as s1 = Some (SUCCESS, s')" "bp_inv {} es s'" "bp_view s' = bp_view s1"
    "\<forall>k. durable s1 k \<or> (\<exists>a\<in>set ?as. map_of es k = Some a) \<longrightarrow> durable s' k"
    "\<forall>a. map_option fr_pins (fmem s' a) = map_option (\<lambda>x. fr_pins x - (if a \<in> set ?as then 1 else 0)) (fmem s1 a)"
    using flush_each_effect[OF s1(2), of ?as] by blast
  have "durable s' k" if "fst k = b" for k
  proof (cases "map_of es k")
    case None
    then have "durable s1 k" by (simp add: durable_def bp_view_at[OF s1(2)])
    then show ?thesis using s'(4) by blast
  next
    case (Some a)
    then have "a \<in> set ?as" using that map_of_SomeD[OF Some] by force
    then show ?thesis using s'(4) Some by blast
  qed
  moreover have "map_option fr_pins (fmem s' a) = map_option fr_pins (fmem s a)" for a
    using s'(5) s1(5) as by (auto simp: option.map_comp comp_def)
  ultimately show thesis
    using that[OF _ s'(2)] s1(1,3) s'(1,3) by (simp add: flush_all_pages_def del: split_paired_All)
qed

text \<open>A page at the end of a file: an empty frame, written at once.\<close>

lemma extend_frame_effect:
  assumes "bp_inv {} es s" "map_of es k = None" "fst k \<in> open_pools (dw s)" "has_room s"
  obtains a x es' s' where "extend_frame k s = Some (a, s')" "bp_inv {} ((k, a) # es') s'"
    "bp_view s' = (bp_view s)(k \<mapsto> (0, replicate (nat BP_PAGE_DATA_SIZE) 0))"
    "fmem s' a = Some x" "fr_pins x = 1" "durable s' k"
proof -
  obtain a x es' s1 where a: "allocate_frame k s = Some (a, s1)" "claimed k es s a x es' s1"
    by (rule allocate_frame_effect[OF assms])
  let ?p = "\<lparr>p_lsn = 0, p_sum = 0, p_data = replicate (nat BP_PAGE_DATA_SIZE) 0\<rparr>" and ?es = "(k, a) # es'"
  let ?x = "x\<lparr>fr_id := k, fr_page := ?p\<rparr>"
  let ?s = "s1\<lparr>fmem := (fmem s1)(a \<mapsto> ?x)\<rparr>"
  have inv1: "bp_inv {k} ?es s1" and x: "fmem s1 a = Some x" "fr_pins x = 1" "fr_id x = k"
    using a(2) by (simp_all add: claimed_def)
  have at: "map_of ?es k = Some a" by simp
  have inv2: "bp_inv {k} ?es ?s"
    by (rule bp_inv_upd[OF inv1 at]) (use bp_inv_frame_ok(1)[OF inv1 at x(1)] in \<open>simp add: frame_ok_def\<close>)
  have m2: "fmem ?s a = Some ?x" by simp
  obtain d where d: "flush_page_internal a ?s = Some (SUCCESS, flushed ?s a ?x d)" "bp_inv ({k} - {k}) ?es (flushed ?s a ?x d)"
    "dw_view d = (dw_view (dw ?s))(k \<mapsto> with_sum (fr_page ?x))" "open_pools d = open_pools (dw ?s)"
    by (rule flush_page_internal_effect[OF inv2 at m2])
  let ?t = "flushed ?s a ?x d"
  have inv: "bp_inv {} ?es ?t" using d(2) by simp
  have other: "b \<noteq> a" if "map_of ?es k' = Some b" "k' \<noteq> k" for k' b using bp_inv_inj[OF inv at] that by blast
  have own: "bp_view ?t k = Some (content ?p)" unfolding bp_view_at[OF inv] by simp
  have "bp_view ?t k' = bp_view s1 k'" if "k' \<noteq> k" for k'
    unfolding bp_view_at[OF inv] bp_view_at[OF inv1] using other that d(3) by (auto split: option.splits)
  moreover have "bp_view s1 k' = bp_view s k'" if "k' \<noteq> k" for k'
    using that a(2) by (simp add: claimed_def del: split_paired_All)
  ultimately have "bp_view ?t = (bp_view s)(k \<mapsto> content ?p)" using own by (auto simp: fun_eq_iff)
  moreover have "extend_frame k s = Some (a, ?t)"
    using a(1) x(1) d(1) by (simp add: extend_frame_def upd_frame_def)
  moreover have "durable ?t k" unfolding durable_def own using d(3) by simp
  ultimately show thesis using that[OF _ inv] x(2) by (simp add: content_def)
qed

section \<open>Properties\<close>

text \<open>A pool with some free frames over the given double-write buffer, as \<open>BPFrameManager::init\<close> leaves it.\<close>

definition new_bufpool :: "nat \<Rightarrow> dblwr \<Rightarrow> LSN \<Rightarrow> bufpool" where
  "new_bufpool n d lsn = \<lparr>frames = lru_empty,
     fmem = (\<lambda>a. if a < n then Some \<lparr>fr_id = (-1, -1), fr_dirty = False, fr_pins = 0, fr_page = \<lparr>p_lsn = 0, p_sum = 0, p_data = []\<rparr>\<rparr> else None),
     fr_free = [0..<n], dw = d, flushed_lsn = lsn\<rparr>"

lemma new_bufpool_inv:
  assumes "dw_mirror d" "\<forall>k p. dw_view d k = Some p \<longrightarrow> p_lsn p \<le> lsn"
  shows "bp_inv {} [] (new_bufpool n d lsn)"
  by (rule bp_invI) (use assms in \<open>simp_all add: new_bufpool_def lru_empty_abs wal_ok_def del: split_paired_All\<close>)

lemma new_bufpool_view:
  assumes "dw_mirror d" "\<forall>k p. dw_view d k = Some p \<longrightarrow> p_lsn p \<le> lsn"
  shows "bp_ok (new_bufpool n d lsn)" "cached (new_bufpool n d lsn) k = None"
    "bp_view (new_bufpool n d lsn) k = map_option content (dw_view d k)"
  using new_bufpool_inv[OF assms, of n] cached_map_of[OF new_bufpool_inv[OF assms, of n]] bp_view_at[OF new_bufpool_inv[OF assms, of n]]
  by (auto simp: bp_ok_def) (simp_all add: new_bufpool_def)

text \<open>One frame over a file with two pages.\<close>

definition two_pages :: dblwr where
  "two_pages = new_dblwr 4 {3} [(3, 1) \<mapsto> summed [1], (3, 2) \<mapsto> summed [2]]"

lemma two_pages_facts:
  "dw_mirror two_pages" "\<forall>k p. dw_view two_pages k = Some p \<longrightarrow> p_lsn p \<le> 1" "open_pools two_pages = {3}"
  "dw_view two_pages = [(3, 1) \<mapsto> summed [1], (3, 2) \<mapsto> summed [2]]"
  unfolding two_pages_def
  by (rule new_dblwr_mirror, simp) (auto simp: dw_view_def new_dblwr_def summed_def fun_eq_iff)

lemma one_frame_pool:
  assumes "0 \<le> n"
  obtains s x where "bp_inv {} [((3, 1), 0)] s" "bp_ok s" "cached s (3, 1) = Some 0" "fmem s 0 = Some x"
    "fr_pins x = n" "fr_dirty x" "fr_free s = []" "bp_view s (3, 2) = Some (1, [2])"
proof -
  let ?x = "\<lparr>fr_id = (3, 1), fr_dirty = True, fr_pins = n, fr_page = summed [5]\<rparr>"
  obtain c :: "(page_key, addr) lru_cache" where c: "lru_abs c [((3, 1), 0)]"
    using lru.put_law[OF lru_empty_abs, of "(3, 1)::page_key" "0::addr"] by (auto simp: touch_def)
  let ?s = "\<lparr>frames = c, fmem = [0 \<mapsto> ?x], fr_free = [], dw = two_pages, flushed_lsn = 1\<rparr>"
  have inv: "bp_inv {} [((3, 1), 0)] ?s"
    by (rule bp_invI) (use assms c two_pages_facts in \<open>simp_all add: frame_ok_def wal_ok_def del: split_paired_All\<close>)
  show thesis
  proof (rule that[OF inv, of ?x])
    show "bp_ok ?s" using inv by (auto simp: bp_ok_def)
    show "cached ?s (3, 1) = Some 0" by (simp add: cached_map_of[OF inv])
    show "bp_view ?s (3, 2) = Some (1, [2])"
      unfolding bp_view_at[OF inv] by (simp add: two_pages_facts(4) content_def summed_def)
  qed simp_all
qed

text \<open>
  C32. Getting a page that exists returns, on a hit as well as after an eviction and a load, a pinned
  frame registered for it that holds the current version of the page.  No page changes its current
  version, although a dirty victim is written back on the way, and every frame pinned by somebody else
  stays registered and untouched.
\<close>

theorem get_this_page_correct:
  assumes "bp_ok s" "fst k \<in> open_pools (dw s)" "0 \<le> snd k" "bp_view s k = Some v" "cached s k = None \<longrightarrow> has_room s"
  shows "\<exists>a x s'. get_this_page k s = Some (SUCCESS, Some a, s') \<and> bp_ok s' \<and> cached s' k = Some a \<and>
    fmem s' a = Some x \<and> content (fr_page x) = v \<and> 0 < fr_pins x \<and> bp_view s' = bp_view s \<and>
    (\<forall>k' b y. k' \<noteq> k \<and> cached s k' = Some b \<and> fmem s b = Some y \<and> 0 < fr_pins y \<longrightarrow>
       cached s' k' = Some b \<and> fmem s' b = Some y)"
proof -
  obtain es where inv: "bp_inv {} es s" using assms(1) by (auto simp: bp_ok_def)
  note c = cached_map_of[OF inv]
  show ?thesis
  proof (cases "map_of es k")
    case None
    then have room: "has_room s" using assms(5) by (simp add: c)
    obtain a x es' s' where g: "get_this_page k s = Some (SUCCESS, Some a, s')" "bp_inv {} ((k, a) # es') s'"
        "bp_view s' = bp_view s" "fmem s' a = Some x" "fr_pins x = 1" "pinned_kept es s ((k, a) # es') s'"
      by (rule get_this_page_load[OF inv None assms(2,3) room assms(4)])
    have "content (fr_page x) = v" using g(3,4) assms(4) bp_view_at[OF g(2), of k] by simp
    moreover have "map_of ((k, a) # es') k' = Some b \<and> fmem s' b = Some y"
      if "k' \<noteq> k \<and> map_of es k' = Some b \<and> fmem s b = Some y \<and> 0 < fr_pins y" for k' b y
      using pinned_keptD[OF g(6), of k' b y] that by blast
    ultimately show ?thesis
      unfolding c bp_ok_def
      by (intro exI[of _ a] exI[of _ x] exI[of _ s'])
        (use g in \<open>auto simp: cached_map_of[OF g(2)] simp del: split_paired_All\<close>)
  next
    case (Some a)
    obtain x s' where g: "get_this_page k s = Some (SUCCESS, Some a, s')" "bp_inv {} (touch k a es) s'"
        "bp_view s' = bp_view s" "fmem s a = Some x" "fmem s' = (fmem s)(a \<mapsto> x\<lparr>fr_pins := fr_pins x + 1\<rparr>)"
      by (rule get_this_page_hit[OF inv Some])
    have "content (fr_page x) = v" using g(4) Some assms(4) bp_view_at[OF inv, of k] by simp
    moreover have "0 \<le> fr_pins x" by (rule bp_inv_frame_ok(4)[OF inv Some g(4)])
    moreover have "b \<noteq> a" if "map_of es k' = Some b" "k' \<noteq> k" for k' b using bp_inv_inj[OF inv Some] that by blast
    ultimately show ?thesis
      unfolding c bp_ok_def
      by (intro exI[of _ a] exI[of _ "x\<lparr>fr_pins := fr_pins x + 1\<rparr>"] exI[of _ s'])
        (use g in \<open>auto simp: cached_map_of[OF g(2)] lru.map_of_touch simp del: split_paired_All\<close>)
  qed
qed

theorem get_this_page_correct_witness:
  "\<exists>a x s'. get_this_page (3, 2) (new_bufpool 1 two_pages 1) = Some (SUCCESS, Some a, s') \<and>
     fmem s' a = Some x \<and> content (fr_page x) = (1, [2])"
proof -
  note F = two_pages_facts and V = new_bufpool_view[OF two_pages_facts(1,2), of 1]
  have "has_room (new_bufpool 1 two_pages 1)" by (simp add: has_room_def new_bufpool_def)
  then show ?thesis
    using get_this_page_correct[of "new_bufpool 1 two_pages 1" "(3, 2)" "(1, [2])"] V F
    by (auto simp: new_bufpool_def summed_def content_def)
qed

text \<open>
  Getting a page that does not exist returns \<open>IOERR_READ\<close> and no frame, and leaves every page
  and every pinned frame as it was, provided that the frames on the free list are clean.
\<close>

theorem get_this_page_missing_page:
  assumes "bp_ok s" "fst k \<in> open_pools (dw s)" "0 \<le> snd k" "bp_view s k = None" "has_room s" "free_clean s"
  shows "\<exists>s'. get_this_page k s = Some (IOERR_READ, None, s') \<and> bp_ok s' \<and> bp_view s' = bp_view s \<and> free_clean s'"
proof -
  obtain es where inv: "bp_inv {} es s" using assms(1) by (auto simp: bp_ok_def)
  obtain es' s' where "get_this_page k s = Some (IOERR_READ, None, s')" "bp_inv {} es' s'" "bp_view s' = bp_view s"
      "free_clean s'" "pinned_kept es s es' s'"
    by (rule get_this_page_missing[OF inv assms(2,3,5,4,6)])
  then show ?thesis by (auto simp: bp_ok_def)
qed

theorem get_this_page_missing_page_witness:
  "\<exists>s'. get_this_page (3, 9) (new_bufpool 1 two_pages 1) = Some (IOERR_READ, None, s') \<and>
     bp_view s' = bp_view (new_bufpool 1 two_pages 1)"
proof -
  note F = two_pages_facts and V = new_bufpool_view[OF two_pages_facts(1,2), of 1]
  have "has_room (new_bufpool 1 two_pages 1)" "free_clean (new_bufpool 1 two_pages 1)"
    by (simp_all add: has_room_def free_clean_def new_bufpool_def)
  then show ?thesis
    using get_this_page_missing_page[of "new_bufpool 1 two_pages 1" "(3, 9)"] V F by (auto simp: new_bufpool_def)
qed

text \<open>Everything that happens to pages between two writes: gets, unpins, flushes and purges, in any order.\<close>

inductive quiet_step :: "bufpool \<Rightarrow> bufpool \<Rightarrow> bool" where
  Get: "get_this_page k s = Some (r, fr, s') \<Longrightarrow> fst k \<in> open_pools (dw s) \<Longrightarrow> 0 \<le> snd k \<Longrightarrow> bp_view s k \<noteq> None \<Longrightarrow>
     cached s k = None \<longrightarrow> has_room s \<Longrightarrow> quiet_step s s'"
| Unpin: "unpin a s = Some s' \<Longrightarrow> cached s k = Some a \<Longrightarrow> quiet_step s s'"
| Flush: "flush_all_pages b s = Some (r, s') \<Longrightarrow> quiet_step s s'"
| Purge: "purge_page k s = Some (r, s') \<Longrightarrow> quiet_step s s'"

lemma purge_page_view:
  assumes "bp_inv {} es s" "purge_page k s = Some (r, s')"
  shows "bp_ok s' \<and> bp_view s' = bp_view s"
proof (cases "map_of es k")
  case None
  obtain c where c: "get_internal k s = Some (None, s\<lparr>frames := c\<rparr>)" "bp_inv {} es (s\<lparr>frames := c\<rparr>)"
    by (rule get_internal_miss[OF assms(1) None])
  then show ?thesis using assms(2) bp_view_frames(1)[OF assms(1) c(2)] by (auto simp: purge_page_def bp_ok_def)
next
  case (Some a)
  obtain x where x: "fmem s a = Some x" "frame_ok (dw s) {} k x" by (rule bp_inv_frame[OF assms(1) Some])
  show ?thesis
  proof (cases "fr_pins x = 0")
    case True
    obtain es' t where "purge_page k s = Some (SUCCESS, t)" "bp_inv {} es' t" "bp_view t = bp_view s"
        "map_of es' k = None" "map_option content (dw_view (dw t) k) = bp_view s k"
      by (rule purge_unused_page[OF assms(1) Some x(1) True])
    then show ?thesis using assms(2) by (auto simp: bp_ok_def)
  next
    case False
    obtain c where c: "get_internal k s = Some (Some a, s\<lparr>frames := c, fmem := (fmem s)(a \<mapsto> x\<lparr>fr_pins := fr_pins x + 1\<rparr>)\<rparr>)"
      "bp_inv {} (touch k a es) (s\<lparr>frames := c, fmem := (fmem s)(a \<mapsto> x\<lparr>fr_pins := fr_pins x + 1\<rparr>)\<rparr>)"
      by (rule get_internal_hit[OF assms(1) Some x(1)])
    have "bp_view (s\<lparr>frames := c, fmem := (fmem s)(a \<mapsto> x\<lparr>fr_pins := fr_pins x + 1\<rparr>)\<rparr>) = bp_view s"
      by (rule bp_view_cong[OF assms(1) c(2)])
        (use x(1) Some in \<open>auto simp: lru.map_of_touch split: option.splits\<close>)
    then show ?thesis using c assms(2) False by (auto simp: purge_page_def purge_frame_def bp_ok_def)
  qed
qed

lemma quiet_step_view:
  assumes "quiet_step s s'" "bp_ok s"
  shows "bp_ok s' \<and> bp_view s' = bp_view s"
proof -
  obtain es where inv: "bp_inv {} es s" using assms(2) by (auto simp: bp_ok_def)
  note c = cached_map_of[OF inv]
  from assms(1) show ?thesis
  proof cases
    case (Get k r fr)
    show ?thesis
    proof (cases "map_of es k")
      case None
      then have room: "has_room s" using Get(5) by (simp add: c)
      obtain v where v: "bp_view s k = Some v" using Get(4) by auto
      obtain a x es' t where "get_this_page k s = Some (SUCCESS, Some a, t)" "bp_inv {} ((k, a) # es') t"
          "bp_view t = bp_view s" "fmem t a = Some x" "fr_pins x = 1" "pinned_kept es s ((k, a) # es') t"
        by (rule get_this_page_load[OF inv None Get(2,3) room v])
      then show ?thesis using Get(1) by (auto simp: bp_ok_def)
    next
      case (Some a)
      obtain x t where "get_this_page k s = Some (SUCCESS, Some a, t)" "bp_inv {} (touch k a es) t"
          "bp_view t = bp_view s" "fmem s a = Some x" "fmem t = (fmem s)(a \<mapsto> x\<lparr>fr_pins := fr_pins x + 1\<rparr>)"
        by (rule get_this_page_hit[OF inv Some])
      then show ?thesis using Get(1) by (auto simp: bp_ok_def)
    qed
  next
    case (Unpin a k)
    then have m: "map_of es k = Some a" by (simp add: c)
    obtain x where x: "fmem s a = Some x" by (rule bp_inv_frame[OF inv m])
    then have pos: "fr_pins x > 0" using Unpin(1) by (simp add: unpin_def split: if_splits)
    obtain t where "unpin a s = Some t" "bp_inv {} es t" "bp_view t = bp_view s"
        "t = s\<lparr>fmem := (fmem s)(a \<mapsto> x\<lparr>fr_pins := fr_pins x - 1\<rparr>)\<rparr>"
      by (rule unpin_effect[OF inv m x pos])
    then show ?thesis using Unpin(1) by (auto simp: bp_ok_def)
  next
    case (Flush b r)
    obtain t where "flush_all_pages b s = Some (SUCCESS, t)" "bp_inv {} es t" "bp_view t = bp_view s"
        "\<forall>k. fst k = b \<longrightarrow> durable t k" "\<forall>a. map_option fr_pins (fmem t a) = map_option fr_pins (fmem s a)"
      by (rule flush_all_pages_effect[OF inv])
    then show ?thesis using Flush(1) by (auto simp: bp_ok_def)
  next
    case (Purge k r)
    then show ?thesis by (rule purge_page_view[OF inv])
  qed
qed

lemma quiet_steps_view:
  assumes "quiet_step\<^sup>*\<^sup>* s s'" "bp_ok s"
  shows "bp_ok s' \<and> bp_view s' = bp_view s"
  using assms(1)
proof (induction rule: rtranclp_induct)
  case base
  then show ?case using assms(2) by simp
next
  case (step t u)
  then show ?case using quiet_step_view[of t u] by simp
qed

text \<open>
  C33. A page written in its frame keeps this version through any sequence of gets, unpins, flushes and
  purges, however often it is evicted and reloaded: every page reads as before, and the written page
  reads as written.
\<close>

theorem written_page_survives:
  assumes "bp_ok s" "cached s k = Some a" "write_frame a lsn d s = Some s1" "quiet_step\<^sup>*\<^sup>* s1 s2"
  shows "bp_ok s2 \<and> bp_view s2 = (bp_view s)(k \<mapsto> (lsn, d))"
proof -
  obtain es where inv: "bp_inv {} es s" using assms(1) by (auto simp: bp_ok_def)
  have m: "map_of es k = Some a" using assms(2) by (simp add: cached_map_of[OF inv])
  obtain t where "write_frame a lsn d s = Some t" "bp_inv {} es t" "bp_view t = (bp_view s)(k \<mapsto> (lsn, d))"
      "dw t = dw s" "flushed_lsn t = flushed_lsn s"
    by (rule write_frame_effect[OF inv m])
  then show ?thesis using quiet_steps_view[OF assms(4)] assms(3) by (auto simp: bp_ok_def)
qed

theorem written_page_survives_witness:
  "\<exists>s s1 s2. write_frame 0 7 [9] s = Some s1 \<and> flush_all_pages 3 s1 = Some (SUCCESS, s2) \<and>
     bp_view s2 (3, 1) = Some (7, [9]) \<and> bp_view s2 (3, 2) = Some (1, [2])"
proof -
  obtain s x where s: "bp_inv {} [((3, 1), 0)] s" "bp_ok s" "cached s (3, 1) = Some 0" "fmem s 0 = Some x"
      "fr_pins x = 0" "fr_dirty x" "fr_free s = []" "bp_view s (3, 2) = Some (1, [2])"
    by (rule one_frame_pool[of 0]) simp
  have m: "map_of [((3, 1), 0)] (3, 1) = Some 0" by simp
  obtain s1 where w: "write_frame 0 7 [9] s = Some s1" "bp_inv {} [((3, 1), 0)] s1"
      "bp_view s1 = (bp_view s)((3, 1) \<mapsto> (7, [9]))" "dw s1 = dw s" "flushed_lsn s1 = flushed_lsn s"
    by (rule write_frame_effect[OF s(1) m])
  obtain s2 where f: "flush_all_pages 3 s1 = Some (SUCCESS, s2)"
    using flush_all_pages_effect[OF w(2)] by metis
  then have "quiet_step\<^sup>*\<^sup>* s1 s2" by (intro r_into_rtranclp quiet_step.Flush)
  then have "bp_view s2 = (bp_view s)((3, 1) \<mapsto> (7, [9]))"
    using written_page_survives[OF s(2,3) w(1)] by blast
  then show ?thesis using w(1) f s(8) by (intro exI[of _ s] exI[of _ s1] exI[of _ s2]) simp
qed

text \<open>
  C34. Durability.  Flushing a file succeeds, changes no page and no pin count, and afterwards a crash
  loses nothing of that file: whatever the crash tore, loading the double-write file and recovering
  puts the current version of every page of the file into the data file.
\<close>

theorem flush_all_pages_durable:
  assumes "bp_ok s"
  shows "\<exists>s'. flush_all_pages b s = Some (SUCCESS, s') \<and> bp_ok s' \<and> bp_view s' = bp_view s \<and>
    (\<forall>a. map_option fr_pins (fmem s' a) = map_option fr_pins (fmem s a)) \<and>
    (\<forall>c. crashed (dw s') c \<longrightarrow> (\<exists>c1 c2. load_pages c = (SUCCESS, c1) \<and> dw_recover c1 = Some (SUCCESS, c2) \<and>
       (\<forall>k. fst k = b \<longrightarrow> map_option content (data_files c2 k) = bp_view s k)))"
proof -
  obtain es where inv: "bp_inv {} es s" using assms by (auto simp: bp_ok_def)
  obtain t where t: "flush_all_pages b s = Some (SUCCESS, t)" "bp_inv {} es t" "bp_view t = bp_view s"
      "\<forall>k. fst k = b \<longrightarrow> durable t k" "\<forall>a. map_option fr_pins (fmem t a) = map_option fr_pins (fmem s a)"
    by (rule flush_all_pages_effect[OF inv])
  have "\<exists>c1 c2. load_pages c = (SUCCESS, c1) \<and> dw_recover c1 = Some (SUCCESS, c2) \<and>
       (\<forall>k. fst k = b \<longrightarrow> map_option content (data_files c2 k) = bp_view s k)" if cr: "crashed (dw t) c" for c
  proof -
    obtain c1 c2 where r: "load_pages c = (SUCCESS, c1)" "dw_recover c1 = Some (SUCCESS, c2)" "data_files c2 = dw_view (dw t)"
      using recover_view[OF bp_invD(6)[OF t(2)] cr] by metis
    have "map_option content (data_files c2 k) = bp_view s k" if "fst k = b" for k
      using t(3,4) that r(3) by (simp add: durable_def del: split_paired_All)
    then show ?thesis using r by blast
  qed
  then show ?thesis using t bp_ok_def by blast
qed

theorem flush_all_pages_durable_witness:
  "\<exists>s'. flush_all_pages 3 (new_bufpool 2 two_pages 1) = Some (SUCCESS, s') \<and> bp_ok s'"
  using flush_all_pages_durable[OF new_bufpool_view(1)[OF two_pages_facts(1,2)], of 3] by blast

text \<open>
  Replacement.  When a frame has to be found, the victim is the least recently used frame that
  nobody pins: exactly this frame is flushed if dirty and freed, the order of the others and every
  current version stay, and the victim is clean on the free list.
\<close>

theorem purge_evicts_least_recent:
  assumes "bp_inv {} (hot @ (k, a) # cold) s" "fmem s a = Some x" "can_purge x"
    "\<And>k' b y. (k', b) \<in> set cold \<Longrightarrow> fmem s b = Some y \<Longrightarrow> \<not> can_purge y"
  shows "\<exists>s' y. purge_frames 1 frame_purger s = Some (1, s') \<and> bp_inv {} (hot @ cold) s' \<and> bp_view s' = bp_view s \<and>
    fr_free s' = fr_free s @ [a] \<and> fmem s' = (fmem s)(a \<mapsto> y) \<and> \<not> fr_dirty y"
proof -
  obtain s' y where "purge_frames 1 frame_purger s = Some (1, s')" "bp_inv {} (hot @ cold) s'" "bp_view s' = bp_view s"
    "fmem s' = (fmem s)(a \<mapsto> y)" "fr_free s' = fr_free s @ [a]" "\<not> fr_dirty y" "flushed_lsn s \<le> flushed_lsn s'"
    "open_pools (dw s') = open_pools (dw s)"
    by (rule purge_frames_effect[OF assms(1-3) _ assms(4)]) auto
  then show ?thesis by blast
qed

theorem purge_evicts_least_recent_witness:
  "\<exists>s s' x. fmem s 0 = Some x \<and> fr_dirty x \<and> purge_frames 1 frame_purger s = Some (1, s') \<and> fr_free s' = [0]"
proof -
  obtain s x where s: "bp_inv {} [((3, 1), 0)] s" "bp_ok s" "cached s (3, 1) = Some 0" "fmem s 0 = Some x"
      "fr_pins x = 0" "fr_dirty x" "fr_free s = []" "bp_view s (3, 2) = Some (1, [2])"
    by (rule one_frame_pool[of 0]) simp
  have "bp_inv {} ([] @ ((3, 1), 0) # []) s" "can_purge x" using s(1,5) by (simp_all add: can_purge_def)
  then obtain s' where "purge_frames 1 frame_purger s = Some (1, s')" "fr_free s' = fr_free s @ [0]"
    using purge_evicts_least_recent[of "[]" "(3, 1)" 0 "[]" s x] s(4) by auto
  then show ?thesis using s(4,6,7) by auto
qed

text \<open>
  Purging a page that somebody pins reports \<open>LOCKED_UNLOCK\<close> and leaves the pin of the lookup
  behind: the count grows by one with every attempt, so the frame can never be evicted again.
\<close>

theorem purge_page_leaks_pin:
  assumes "bp_ok s" "cached s k = Some a" "fmem s a = Some x" "0 < fr_pins x"
  shows "\<exists>s' y. purge_page k s = Some (LOCKED_UNLOCK, s') \<and> fmem s' a = Some y \<and> fr_pins y = fr_pins x + 1"
proof -
  obtain es where inv: "bp_inv {} es s" using assms(1) by (auto simp: bp_ok_def)
  have m: "map_of es k = Some a" using assms(2) by (simp add: cached_map_of[OF inv])
  obtain c where "get_internal k s = Some (Some a, s\<lparr>frames := c, fmem := (fmem s)(a \<mapsto> x\<lparr>fr_pins := fr_pins x + 1\<rparr>)\<rparr>)"
    by (rule get_internal_hit[OF inv m assms(3)])
  then show ?thesis using assms(4) by (auto simp: purge_page_def purge_frame_def)
qed

theorem purge_page_leaks_pin_witness:
  "\<exists>s s' x y. fmem s 0 = Some x \<and> fr_pins x = 1 \<and> purge_page (3, 1) s = Some (LOCKED_UNLOCK, s') \<and>
     fmem s' 0 = Some y \<and> fr_pins y = 2"
proof -
  obtain s x where s: "bp_inv {} [((3, 1), 0)] s" "bp_ok s" "cached s (3, 1) = Some 0" "fmem s 0 = Some x"
      "fr_pins x = 1" "fr_dirty x" "fr_free s = []" "bp_view s (3, 2) = Some (1, [2])"
    by (rule one_frame_pool[of 1]) simp
  then show ?thesis using purge_page_leaks_pin[OF s(2,3,4)] by auto
qed

end
