(* ===== verification/Mvcc.thy ===== *)
theory Mvcc
  imports Record_Page
begin

text \<open>
  Multi-version transactions: src/src/observer/storage/trx/mvcc_trx.cpp and mvcc_trx_log.cpp.  Every row
  carries two transaction numbers; a negative one marks a change that is not committed.  The rows of a
  table are a map from record identifiers, which is what the record files provide.
\<close>

section \<open>State\<close>

text \<open>A row: the fields \<open>__trx_xid_begin\<close> and \<open>__trx_xid_end\<close> and the rest of the record.\<close>

record row =
  xid_begin :: int
  xid_end :: int
  row_data :: "byte list"

datatype operation_type = OP_INSERT | OP_UPDATE | OP_DELETE | OP_UNDEFINED

record operation =
  op_type :: operation_type
  op_table :: int
  op_rid :: rid

datatype trx_log_entry =
    INSERT_RECORD int int rid
  | DELETE_RECORD int int rid
  | COMMIT int int
  | ROLLBACK int

record mvcc_trx =
  trx_id :: int
  started :: bool
  recovering :: bool
  operations :: "operation list"

text \<open>
  The state shared by all transactions: the tables (a table that is not in \<open>table_ids\<close> does not exist),
  the counter of the transaction kit and the transaction log.  \<open>log_error\<close> is the result of appending
  when the log cannot be written.
\<close>

record mvcc_db =
  tables :: "int \<Rightarrow> rid \<rightharpoonup> row"
  table_ids :: "int set"
  current_trx_id :: int
  trx_log :: "trx_log_entry list"
  log_error :: "rc option"

section \<open>The transaction kit\<close>

definition int32 :: "int \<Rightarrow> int" where
  "int32 x = (x + 2 ^ 31) mod 2 ^ 32 - 2 ^ 31"

definition max_trx_id :: int where
  "max_trx_id = 2 ^ 31 - 1"

definition next_trx_id :: "mvcc_db \<Rightarrow> int \<times> mvcc_db" where
  "next_trx_id db = (let i = int32 (current_trx_id db + 1) in (i, db\<lparr>current_trx_id := i\<rparr>))"

definition create_trx :: mvcc_trx where
  "create_trx = \<lparr>trx_id = -1, started = False, recovering = False, operations = []\<rparr>"

text \<open>The second constructor, for the replay of the log.\<close>

definition create_recovering_trx :: "int \<Rightarrow> mvcc_db \<Rightarrow> mvcc_trx \<times> mvcc_db" where
  "create_recovering_trx i db =
     (\<lparr>trx_id = i, started = True, recovering = True, operations = []\<rparr>,
      if current_trx_id db < i then db\<lparr>current_trx_id := i\<rparr> else db)"

section \<open>The transaction log\<close>

definition append_trx_log :: "trx_log_entry \<Rightarrow> mvcc_db \<Rightarrow> rc \<times> mvcc_db" where
  "append_trx_log e db = (case log_error db of
     Some r \<Rightarrow> (r, db) | None \<Rightarrow> (SUCCESS, db\<lparr>trx_log := trx_log db @ [e]\<rparr>))"

text \<open>The entry points of the log handler; \<open>None\<close> is a failed assertion.\<close>

definition log_trx_insert :: "int \<Rightarrow> int \<Rightarrow> rid \<Rightarrow> mvcc_db \<Rightarrow> (rc \<times> mvcc_db) option" where
  "log_trx_insert t tbl r db = (if t > 0 then Some (append_trx_log (INSERT_RECORD t tbl r) db) else None)"

definition log_trx_delete :: "int \<Rightarrow> int \<Rightarrow> rid \<Rightarrow> mvcc_db \<Rightarrow> (rc \<times> mvcc_db) option" where
  "log_trx_delete t tbl r db = (if t > 0 then Some (append_trx_log (DELETE_RECORD t tbl r) db) else None)"

definition log_trx_commit :: "int \<Rightarrow> int \<Rightarrow> mvcc_db \<Rightarrow> (rc \<times> mvcc_db) option" where
  "log_trx_commit t c db = (if t > 0 \<and> c > t then Some (append_trx_log (COMMIT t c) db) else None)"

definition log_trx_rollback :: "int \<Rightarrow> mvcc_db \<Rightarrow> (rc \<times> mvcc_db) option" where
  "log_trx_rollback t db = (if t > 0 then Some (append_trx_log (ROLLBACK t) db) else None)"

section \<open>Rows of a table\<close>

definition set_row :: "int \<Rightarrow> rid \<Rightarrow> row option \<Rightarrow> mvcc_db \<Rightarrow> mvcc_db" where
  "set_row tbl r v db = db\<lparr>tables := (tables db)(tbl := (tables db tbl)(r := v))\<rparr>"

text \<open>
  \<open>Table::visit_record\<close>: the visitor sees the row and answers with its result and, when it has changed
  the row, the new one.
\<close>

definition table_visit :: "int \<Rightarrow> rid \<Rightarrow> (row \<Rightarrow> 'a \<times> row option) \<Rightarrow> mvcc_db \<Rightarrow> (rc \<times> 'a option) \<times> mvcc_db" where
  "table_visit tbl r f db = (case tables db tbl r of
     None \<Rightarrow> ((RECORD_NOT_EXIST, None), db)
   | Some x \<Rightarrow> (case f x of
        (v, None) \<Rightarrow> ((SUCCESS, Some v), db)
      | (v, Some y) \<Rightarrow> ((SUCCESS, Some v), set_row tbl r (Some y) db)))"

definition table_delete :: "int \<Rightarrow> rid \<Rightarrow> mvcc_db \<Rightarrow> rc \<times> mvcc_db" where
  "table_delete tbl r db = (case tables db tbl r of
     None \<Rightarrow> (RECORD_NOT_EXIST, db) | Some _ \<Rightarrow> (SUCCESS, set_row tbl r None db))"

section \<open>Operations of a transaction\<close>

definition start_if_need :: "mvcc_trx \<Rightarrow> mvcc_db \<Rightarrow> (rc \<times> mvcc_trx \<times> mvcc_db) option" where
  "start_if_need T db =
     (if started T then Some (SUCCESS, T, db)
      else if operations T \<noteq> [] then None
      else case next_trx_id db of (i, db1) \<Rightarrow> Some (SUCCESS, T\<lparr>trx_id := i, started := True\<rparr>, db1))"

definition visit_record :: "int \<Rightarrow> row \<Rightarrow> read_write_mode \<Rightarrow> rc" where
  "visit_record t x mode =
     (let begin_xid = xid_begin x; end_xid = xid_end x in
      if begin_xid > 0 \<and> end_xid > 0 then
        (if t \<ge> begin_xid \<and> t \<le> end_xid then SUCCESS else RECORD_INVISIBLE)
      else if begin_xid < 0 then
        (if - begin_xid = t then SUCCESS else RECORD_INVISIBLE)
      else if end_xid < 0 then
        (if mode = READ_ONLY then
           (if - end_xid \<noteq> t then SUCCESS else RECORD_INVISIBLE)
         else
           (if - end_xid \<noteq> t then LOCKED_CONCURRENCY_CONFLICT else RECORD_INVISIBLE))
      else SUCCESS)"

text \<open>\<open>outcome\<close> is what \<open>Table::insert_record\<close> answers: an error, or the place of the new row.\<close>

definition trx_insert :: "int \<Rightarrow> byte list \<Rightarrow> rc + rid \<Rightarrow> mvcc_trx \<Rightarrow> mvcc_db \<Rightarrow> (rc \<times> mvcc_trx \<times> mvcc_db) option" where
  "trx_insert tbl d outcome T db = (case outcome of
     Inl e \<Rightarrow> Some (e, T, db)
   | Inr r \<Rightarrow> do {
       let x = \<lparr>xid_begin = - trx_id T, xid_end = max_trx_id, row_data = d\<rparr>;
       (rc, db2) \<leftarrow> log_trx_insert (trx_id T) tbl r (set_row tbl r (Some x) db);
       if rc \<noteq> SUCCESS then None
       else Some (rc, T\<lparr>operations := operations T @ [\<lparr>op_type = OP_INSERT, op_table = tbl, op_rid = r\<rparr>]\<rparr>, db2)
     })"

definition delete_visitor :: "int \<Rightarrow> row \<Rightarrow> rc \<times> row option" where
  "delete_visitor t x = (let rc = visit_record t x READ_WRITE in
     if OB_FAIL rc then (rc, None) else (SUCCESS, Some (x\<lparr>xid_end := - t\<rparr>)))"

definition trx_delete :: "int \<Rightarrow> rid \<Rightarrow> mvcc_trx \<Rightarrow> mvcc_db \<Rightarrow> (rc \<times> mvcc_trx \<times> mvcc_db) option" where
  "trx_delete tbl r T db = (case table_visit tbl r (delete_visitor (trx_id T)) db of
     ((rc, res), db1) \<Rightarrow>
       if OB_FAIL rc then Some (rc, T, db1)
       else if OB_FAIL (the res) then Some (the res, T, db1)
       else do {
         (rc2, db2) \<leftarrow> log_trx_delete (trx_id T) tbl r db1;
         if rc2 \<noteq> SUCCESS then None
         else Some (SUCCESS, T\<lparr>operations := operations T @ [\<lparr>op_type = OP_DELETE, op_table = tbl, op_rid = r\<rparr>]\<rparr>, db2)
       })"

text \<open>The loop of \<open>commit_with_trx_id\<close>; the assertions inside the visitors fail as \<open>None\<close>.\<close>

definition commit_insert :: "mvcc_trx \<Rightarrow> int \<Rightarrow> row \<Rightarrow> bool \<times> row option" where
  "commit_insert T c x =
     (if xid_begin x = - trx_id T \<and> \<not> recovering T then (True, Some (x\<lparr>xid_begin := c\<rparr>)) else (False, None))"

definition commit_delete :: "mvcc_trx \<Rightarrow> int \<Rightarrow> row \<Rightarrow> bool \<times> row option" where
  "commit_delete T c x =
     (if xid_end x = - trx_id T then (True, Some (x\<lparr>xid_end := c\<rparr>)) else (False, None))"

definition commit_op :: "mvcc_trx \<Rightarrow> int \<Rightarrow> operation \<Rightarrow> mvcc_db \<Rightarrow> mvcc_db option" where
  "commit_op T c o1 db = (case op_type o1 of
     OP_INSERT \<Rightarrow> (case table_visit (op_table o1) (op_rid o1) (commit_insert T c) db of
        ((SUCCESS, Some True), db1) \<Rightarrow> Some db1 | _ \<Rightarrow> None)
   | OP_DELETE \<Rightarrow> (case table_visit (op_table o1) (op_rid o1) (commit_delete T c) db of
        ((SUCCESS, Some True), db1) \<Rightarrow> Some db1 | _ \<Rightarrow> None)
   | _ \<Rightarrow> None)"

fun commit_ops :: "mvcc_trx \<Rightarrow> int \<Rightarrow> operation list \<Rightarrow> mvcc_db \<Rightarrow> mvcc_db option" where
  "commit_ops T c [] db = Some db"
| "commit_ops T c (o1 # os) db = do { db1 \<leftarrow> commit_op T c o1 db; commit_ops T c os db1 }"

definition commit_with_trx_id :: "int \<Rightarrow> mvcc_trx \<Rightarrow> mvcc_db \<Rightarrow> (rc \<times> mvcc_trx \<times> mvcc_db) option" where
  "commit_with_trx_id c T db = do {
     db1 \<leftarrow> commit_ops T c (operations T) db;
     (rc, db2) \<leftarrow> (if recovering T then Some (SUCCESS, db1) else log_trx_commit (trx_id T) c db1);
     Some (rc, T\<lparr>started := False, operations := []\<rparr>, db2)
   }"

definition trx_commit :: "mvcc_trx \<Rightarrow> mvcc_db \<Rightarrow> (rc \<times> mvcc_trx \<times> mvcc_db) option" where
  "trx_commit T db = (case next_trx_id db of (c, db1) \<Rightarrow> commit_with_trx_id c T db1)"

text \<open>
  The loop of \<open>rollback\<close> over the operations in reverse order.  The result code is carried along: an insert
  that is skipped during recovery leaves its code behind, and undoing a delete asserts that it is \<open>SUCCESS\<close>.
\<close>

definition rollback_delete :: "mvcc_trx \<Rightarrow> row \<Rightarrow> bool \<times> row option" where
  "rollback_delete T x =
     (if recovering T \<and> xid_end x \<noteq> - trx_id T then (True, None)
      else if xid_end x = - trx_id T then (True, Some (x\<lparr>xid_end := max_trx_id\<rparr>)) else (False, None))"

definition rollback_op :: "mvcc_trx \<Rightarrow> operation \<Rightarrow> rc \<Rightarrow> mvcc_db \<Rightarrow> (rc \<times> mvcc_db) option" where
  "rollback_op T o1 rc db = (case op_type o1 of
     OP_INSERT \<Rightarrow>
       (let skip = (if recovering T then
                 (case tables db (op_table o1) (op_rid o1) of
                    None \<Rightarrow> Some RECORD_NOT_EXIST
                  | Some x \<Rightarrow> if xid_begin x \<noteq> - trx_id T then Some SUCCESS else None)
               else None)
        in case skip of
             Some r \<Rightarrow> Some (r, db)
           | None \<Rightarrow> (case table_delete (op_table o1) (op_rid o1) db of
                (SUCCESS, db1) \<Rightarrow> Some (SUCCESS, db1) | _ \<Rightarrow> None))
   | OP_DELETE \<Rightarrow>
       (if rc \<noteq> SUCCESS then None
        else case table_visit (op_table o1) (op_rid o1) (rollback_delete T) db of
             ((SUCCESS, Some True), db1) \<Rightarrow> Some (SUCCESS, db1) | _ \<Rightarrow> None)
   | _ \<Rightarrow> None)"

fun rollback_ops :: "mvcc_trx \<Rightarrow> operation list \<Rightarrow> rc \<Rightarrow> mvcc_db \<Rightarrow> (rc \<times> mvcc_db) option" where
  "rollback_ops T [] rc db = Some (rc, db)"
| "rollback_ops T (o1 # os) rc db = do { (rc1, db1) \<leftarrow> rollback_op T o1 rc db; rollback_ops T os rc1 db1 }"

definition trx_rollback :: "mvcc_trx \<Rightarrow> mvcc_db \<Rightarrow> (rc \<times> mvcc_trx \<times> mvcc_db) option" where
  "trx_rollback T db = do {
     (rc, db1) \<leftarrow> rollback_ops T (rev (operations T)) SUCCESS db;
     (rc2, db2) \<leftarrow> (if recovering T then Some (rc, db1) else log_trx_rollback (trx_id T) db1);
     Some (rc2, T\<lparr>started := False, operations := []\<rparr>, db2)
   }"

section \<open>Replay\<close>

definition find_table :: "mvcc_db \<Rightarrow> trx_log_entry \<Rightarrow> rc" where
  "find_table db e = (case e of
     INSERT_RECORD _ tbl _ \<Rightarrow> if tbl \<in> table_ids db then SUCCESS else SCHEMA_TABLE_NOT_EXIST
   | DELETE_RECORD _ tbl _ \<Rightarrow> if tbl \<in> table_ids db then SUCCESS else SCHEMA_TABLE_NOT_EXIST
   | _ \<Rightarrow> SUCCESS)"

definition trx_redo :: "mvcc_db \<Rightarrow> trx_log_entry \<Rightarrow> mvcc_trx \<Rightarrow> rc \<times> mvcc_trx" where
  "trx_redo db e T = (let rc = find_table db e in
     if OB_FAIL rc then (rc, T)
     else case e of
       INSERT_RECORD _ tbl r \<Rightarrow> (SUCCESS, T\<lparr>operations := operations T @ [\<lparr>op_type = OP_INSERT, op_table = tbl, op_rid = r\<rparr>]\<rparr>)
     | DELETE_RECORD _ tbl r \<Rightarrow> (SUCCESS, T\<lparr>operations := operations T @ [\<lparr>op_type = OP_DELETE, op_table = tbl, op_rid = r\<rparr>]\<rparr>)
     | COMMIT _ _ \<Rightarrow> (SUCCESS, T)
     | ROLLBACK _ \<Rightarrow> (SUCCESS, T))"

fun entry_trx_id :: "trx_log_entry \<Rightarrow> int" where
  "entry_trx_id (INSERT_RECORD t _ _) = t"
| "entry_trx_id (DELETE_RECORD t _ _) = t"
| "entry_trx_id (COMMIT t _) = t"
| "entry_trx_id (ROLLBACK t) = t"

fun is_end_entry :: "trx_log_entry \<Rightarrow> bool" where
  "is_end_entry (COMMIT _ _) = True"
| "is_end_entry (ROLLBACK _) = True"
| "is_end_entry _ = False"

text \<open>
  The replayer keeps transaction objects in a heap: \<open>kit_trxes\<close> are those the kit knows, \<open>trx_map\<close> the
  replayer's own table.  A transaction that is not in the table is created for every entry.
\<close>

record replayer =
  objs :: "nat \<rightharpoonup> mvcc_trx"
  next_obj :: nat
  kit_trxes :: "nat list"
  trx_map :: "(int \<times> nat) list"

definition destroy_trx :: "nat option \<Rightarrow> replayer \<Rightarrow> replayer" where
  "destroy_trx a s = (case a of
     None \<Rightarrow> s
   | Some i \<Rightarrow> s\<lparr>kit_trxes := remove1 i (kit_trxes s), objs := (objs s)(i := None)\<rparr>)"

definition replay_trx_entry :: "trx_log_entry \<Rightarrow> replayer \<times> mvcc_db \<Rightarrow> (rc \<times> replayer \<times> mvcc_db) option" where
  "replay_trx_entry e st = (case st of (s, db) \<Rightarrow> do {
     let t = entry_trx_id e;
     let (i, s1, db1) = (case map_of (trx_map s) t of
            Some i \<Rightarrow> (i, s, db)
          | None \<Rightarrow> (let i = next_obj s in case create_recovering_trx t db of
               (T, db') \<Rightarrow> (i, s\<lparr>objs := (objs s)(i \<mapsto> T), next_obj := Suc i, kit_trxes := kit_trxes s @ [i]\<rparr>, db')));
     T \<leftarrow> objs s1 i;
     let (rc, T') = trx_redo db1 e T;
     let s2 = s1\<lparr>objs := (objs s1)(i \<mapsto> T')\<rparr>;
     let s3 = (if is_end_entry e
               then (destroy_trx (map_of (trx_map s2) t) s2)\<lparr>trx_map := filter (\<lambda>p. fst p \<noteq> t) (trx_map s2)\<rparr>
               else s2);
     Some (rc, s3, db1)
   })"

text \<open>The replay of the whole log stops at the first entry that fails.\<close>

fun replay_trx_log :: "trx_log_entry list \<Rightarrow> replayer \<times> mvcc_db \<Rightarrow> (rc \<times> replayer \<times> mvcc_db) option" where
  "replay_trx_log [] st = Some (SUCCESS, st)"
| "replay_trx_log (e # es) st = do {
     (rc, st1) \<leftarrow> replay_trx_entry e st;
     if OB_FAIL rc then Some (rc, st1) else replay_trx_log es st1
   }"

fun rollback_all :: "(int \<times> nat) list \<Rightarrow> replayer \<times> mvcc_db \<Rightarrow> (replayer \<times> mvcc_db) option" where
  "rollback_all [] st = Some st"
| "rollback_all ((t, i) # ps) (s, db) = do {
     T \<leftarrow> objs s i;
     (_, _, db1) \<leftarrow> trx_rollback T db;
     rollback_all ps (s\<lparr>objs := (objs s)(i := None)\<rparr>, db1)
   }"

definition on_done :: "replayer \<times> mvcc_db \<Rightarrow> (rc \<times> replayer \<times> mvcc_db) option" where
  "on_done st = (case st of (s, db) \<Rightarrow> do {
     (s1, db1) \<leftarrow> rollback_all (trx_map s) (s, db);
     Some (SUCCESS, s1\<lparr>trx_map := []\<rparr>, db1)
   })"

end
