(* ===== verification/Mvcc_Correct.thy ===== *)
theory Mvcc_Correct
  imports Mvcc
begin

text \<open>
  What the transactions of \<open>Mvcc\<close> guarantee under every interleaving of their operations: ownership of
  uncommitted rows, repeatable reads, publication at commit and undo at rollback.
\<close>

section \<open>Effects on the tables\<close>

lemma set_row_tables [simp]:
  "tables (set_row tbl r v db) tbl' r' = (if tbl' = tbl \<and> r' = r then v else tables db tbl' r')"
  "table_ids (set_row tbl r v db) = table_ids db" "current_trx_id (set_row tbl r v db) = current_trx_id db"
  "trx_log (set_row tbl r v db) = trx_log db" "log_error (set_row tbl r v db) = log_error db"
  by (simp_all add: set_row_def)

lemma append_trx_log_simps [simp]:
  "tables (snd (append_trx_log e db)) = tables db" "current_trx_id (snd (append_trx_log e db)) = current_trx_id db"
  "table_ids (snd (append_trx_log e db)) = table_ids db" "log_error (snd (append_trx_log e db)) = log_error db"
  by (simp_all add: append_trx_log_def split: option.splits)

abbreviation insert_of :: "int \<Rightarrow> rid \<Rightarrow> operation" where
  "insert_of tbl r \<equiv> \<lparr>op_type = OP_INSERT, op_table = tbl, op_rid = r\<rparr>"

abbreviation delete_of :: "int \<Rightarrow> rid \<Rightarrow> operation" where
  "delete_of tbl r \<equiv> \<lparr>op_type = OP_DELETE, op_table = tbl, op_rid = r\<rparr>"

text \<open>The rows after the operations \<open>os\<close> have been committed as \<open>c\<close>, or rolled back.\<close>

definition committed_row :: "int \<Rightarrow> operation list \<Rightarrow> int \<Rightarrow> rid \<Rightarrow> row \<Rightarrow> row" where
  "committed_row c os tbl r x = x\<lparr>xid_begin := (if insert_of tbl r \<in> set os then c else xid_begin x),
     xid_end := (if delete_of tbl r \<in> set os then c else xid_end x)\<rparr>"

definition undone_row :: "operation list \<Rightarrow> int \<Rightarrow> rid \<Rightarrow> row option \<Rightarrow> row option" where
  "undone_row os tbl r v = (if insert_of tbl r \<in> set os then None
     else map_option (\<lambda>x. if delete_of tbl r \<in> set os then x\<lparr>xid_end := max_trx_id\<rparr> else x) v)"

lemma committed_row_Cons: "committed_row c os tbl r (committed_row c [o1] tbl r x) = committed_row c (o1 # os) tbl r x"
  by (simp add: committed_row_def)

lemma undone_row_Cons: "undone_row os tbl r (undone_row [o1] tbl r v) = undone_row (o1 # os) tbl r v"
  by (cases v) (simp_all add: undone_row_def)

lemma operation_cases:
  obtains (ins) tbl r where "o1 = insert_of tbl r" | (del) tbl r where "o1 = delete_of tbl r"
    | (other) "op_type o1 \<noteq> OP_INSERT" "op_type o1 \<noteq> OP_DELETE"
  by (cases o1, cases "op_type o1") auto

lemma commit_op_effect:
  assumes "commit_op T c o1 db = Some db'"
  shows "tables db' tbl r = map_option (committed_row c [o1] tbl r) (tables db tbl r)"
    "current_trx_id db' = current_trx_id db" "log_error db' = log_error db" "table_ids db' = table_ids db"
proof -
  have "tables db' tbl r = map_option (committed_row c [o1] tbl r) (tables db tbl r) \<and>
      current_trx_id db' = current_trx_id db \<and> log_error db' = log_error db \<and> table_ids db' = table_ids db"
  proof (cases o1 rule: operation_cases)
    case (ins tbl1 r1)
    then show ?thesis using assms
      by (auto simp: commit_op_def table_visit_def commit_insert_def committed_row_def option.map_ident_strong
          split: option.splits if_splits)
  next
    case (del tbl1 r1)
    then show ?thesis using assms
      by (auto simp: commit_op_def table_visit_def commit_delete_def committed_row_def option.map_ident_strong
          split: option.splits if_splits)
  qed (use assms in \<open>auto simp: commit_op_def split: operation_type.splits\<close>)
  then show "tables db' tbl r = map_option (committed_row c [o1] tbl r) (tables db tbl r)"
    "current_trx_id db' = current_trx_id db" "log_error db' = log_error db" "table_ids db' = table_ids db" by auto
qed

lemma commit_ops_effect:
  assumes "commit_ops T c os db = Some db'"
  shows "tables db' tbl r = map_option (committed_row c os tbl r) (tables db tbl r) \<and>
    current_trx_id db' = current_trx_id db \<and> log_error db' = log_error db \<and> table_ids db' = table_ids db"
  using assms
proof (induction os arbitrary: db)
  case Nil
  then show ?case by (auto simp: committed_row_def option.map_ident_strong)
next
  case (Cons o1 os)
  then obtain db1 where d: "commit_op T c o1 db = Some db1" "commit_ops T c os db1 = Some db'"
    by (auto simp: bind_eq_Some_conv)
  show ?case
    using Cons.IH[OF d(2)] commit_op_effect[OF d(1)]
    by (simp add: option.map_comp comp_def committed_row_Cons)
qed

lemma rollback_op_effect:
  assumes "rollback_op T o1 SUCCESS db = Some (rc, db')" "\<not> recovering T"
  shows "tables db' tbl r = undone_row [o1] tbl r (tables db tbl r) \<and> rc = SUCCESS \<and>
    current_trx_id db' = current_trx_id db \<and> log_error db' = log_error db \<and> table_ids db' = table_ids db"
proof (cases o1 rule: operation_cases)
  case (ins tbl1 r1)
  then show ?thesis using assms
    by (auto simp: rollback_op_def table_delete_def undone_row_def option.map_ident_strong split: option.splits)
next
  case (del tbl1 r1)
  then show ?thesis using assms
    by (auto simp: rollback_op_def table_visit_def rollback_delete_def undone_row_def option.map_ident_strong
        split: option.splits if_splits)
qed (use assms in \<open>auto simp: rollback_op_def split: operation_type.splits\<close>)

lemma rollback_ops_effect:
  assumes "rollback_ops T os SUCCESS db = Some (rc, db')" "\<not> recovering T"
  shows "tables db' tbl r = undone_row os tbl r (tables db tbl r) \<and> rc = SUCCESS \<and>
    current_trx_id db' = current_trx_id db \<and> log_error db' = log_error db \<and> table_ids db' = table_ids db"
  using assms(1)
proof (induction os arbitrary: db)
  case Nil
  then show ?case by (auto simp: undone_row_def option.map_ident_strong)
next
  case (Cons o1 os)
  then obtain rc1 db1 where d: "rollback_op T o1 SUCCESS db = Some (rc1, db1)" "rollback_ops T os rc1 db1 = Some (rc, db')"
    by (auto simp: bind_eq_Some_conv)
  note E = rollback_op_effect[OF d(1) assms(2)]
  have "rollback_ops T os SUCCESS db1 = Some (rc, db')" using d(2) E by simp
  from Cons.IH[OF this] E show ?case
    by (simp add: undone_row_Cons)
qed

section \<open>Interleavings\<close>

text \<open>
  A step of transaction \<open>i\<close>.  A new row goes to a place that is free, and the counter of the transaction
  kit does not reach its maximum.
\<close>

type_synonym world = "(nat \<Rightarrow> mvcc_trx) \<times> mvcc_db"

inductive trx_step :: "nat \<Rightarrow> world \<Rightarrow> world \<Rightarrow> bool" where
  Start: "start_if_need (ts i) db = Some (rc, T, db') \<Longrightarrow> current_trx_id db + 1 < max_trx_id \<Longrightarrow>
     trx_step i (ts, db) (ts(i := T), db')"
| Insert: "started (ts i) \<Longrightarrow> trx_insert tbl d outcome (ts i) db = Some (rc, T, db') \<Longrightarrow>
     (\<forall>r. outcome = Inr r \<longrightarrow> tables db tbl r = None) \<Longrightarrow> trx_step i (ts, db) (ts(i := T), db')"
| Delete: "started (ts i) \<Longrightarrow> trx_delete tbl r (ts i) db = Some (rc, T, db') \<Longrightarrow> trx_step i (ts, db) (ts(i := T), db')"
| Commit: "started (ts i) \<Longrightarrow> trx_commit (ts i) db = Some (rc, T, db') \<Longrightarrow> current_trx_id db + 1 < max_trx_id \<Longrightarrow>
     trx_step i (ts, db) (ts(i := T), db')"
| Rollback: "started (ts i) \<Longrightarrow> trx_rollback (ts i) db = Some (rc, T, db') \<Longrightarrow> trx_step i (ts, db) (ts(i := T), db')"

text \<open>
  The invariant.  Transactions in progress have distinct numbers below the counter; an operation in the
  list of a transaction refers to a row that carries its mark, and a row whose insertion is not committed
  belongs to a transaction that lists it and is deleted by nobody else.
\<close>

definition op_owns :: "mvcc_db \<Rightarrow> int \<Rightarrow> operation \<Rightarrow> bool" where
  "op_owns db t o1 \<longleftrightarrow> (\<exists>x. tables db (op_table o1) (op_rid o1) = Some x \<and>
     (op_type o1 = OP_INSERT \<and> xid_begin x = - t \<or> op_type o1 = OP_DELETE \<and> xid_end x = - t))"

definition row_owned :: "(nat \<Rightarrow> mvcc_trx) \<Rightarrow> int \<Rightarrow> rid \<Rightarrow> row \<Rightarrow> bool" where
  "row_owned ts tbl r x \<longleftrightarrow> (\<exists>i. started (ts i) \<and> xid_begin x = - trx_id (ts i) \<and> insert_of tbl r \<in> set (operations (ts i)) \<and>
     (xid_end x = max_trx_id \<or> xid_end x = xid_begin x \<and> delete_of tbl r \<in> set (operations (ts i))))"

definition mvcc_ok :: "world \<Rightarrow> bool" where
  "mvcc_ok w = (case w of (ts, db) \<Rightarrow> 0 \<le> current_trx_id db \<and> current_trx_id db < max_trx_id \<and>
     (\<forall>i. \<not> recovering (ts i) \<and> (if started (ts i) then 0 < trx_id (ts i) \<and> trx_id (ts i) \<le> current_trx_id db else operations (ts i) = [])) \<and>
     (\<forall>i j. started (ts i) \<and> started (ts j) \<and> i \<noteq> j \<longrightarrow> trx_id (ts i) \<noteq> trx_id (ts j)) \<and>
     (\<forall>i. \<forall>o1\<in>set (operations (ts i)). op_owns db (trx_id (ts i)) o1) \<and>
     (\<forall>tbl r x. tables db tbl r = Some x \<and> xid_begin x < 0 \<longrightarrow> row_owned ts tbl r x))"

lemma mvcc_okD:
  assumes "mvcc_ok (ts, db)"
  shows "0 \<le> current_trx_id db" "current_trx_id db < max_trx_id" "\<not> recovering (ts i)"
    "started (ts i) \<Longrightarrow> 0 < trx_id (ts i) \<and> trx_id (ts i) \<le> current_trx_id db"
    "\<not> started (ts i) \<Longrightarrow> operations (ts i) = []"
    "started (ts i) \<Longrightarrow> started (ts j) \<Longrightarrow> i \<noteq> j \<Longrightarrow> trx_id (ts i) \<noteq> trx_id (ts j)"
    "o1 \<in> set (operations (ts i)) \<Longrightarrow> op_owns db (trx_id (ts i)) o1"
    "tables db tbl r = Some x \<Longrightarrow> xid_begin x < 0 \<Longrightarrow> row_owned ts tbl r x"
  using assms by (auto simp: mvcc_ok_def split: if_splits)

lemma mvcc_okI:
  assumes "0 \<le> current_trx_id db" "current_trx_id db < max_trx_id" "\<And>i. \<not> recovering (ts i)"
    "\<And>i. started (ts i) \<Longrightarrow> 0 < trx_id (ts i) \<and> trx_id (ts i) \<le> current_trx_id db"
    "\<And>i. \<not> started (ts i) \<Longrightarrow> operations (ts i) = []"
    "\<And>i j. started (ts i) \<Longrightarrow> started (ts j) \<Longrightarrow> i \<noteq> j \<Longrightarrow> trx_id (ts i) \<noteq> trx_id (ts j)"
    "\<And>i o1. o1 \<in> set (operations (ts i)) \<Longrightarrow> op_owns db (trx_id (ts i)) o1"
    "\<And>tbl r x. tables db tbl r = Some x \<Longrightarrow> xid_begin x < 0 \<Longrightarrow> row_owned ts tbl r x"
  shows "mvcc_ok (ts, db)"
  using assms by (auto simp: mvcc_ok_def)

lemma owns_insertD: "op_owns db t (insert_of tbl r) \<Longrightarrow> \<exists>x. tables db tbl r = Some x \<and> xid_begin x = - t"
  by (auto simp: op_owns_def)

lemma owns_deleteD: "op_owns db t (delete_of tbl r) \<Longrightarrow> \<exists>x. tables db tbl r = Some x \<and> xid_end x = - t"
  by (auto simp: op_owns_def)

lemma next_trx_id_eq:
  assumes "0 \<le> current_trx_id db" "current_trx_id db + 1 < max_trx_id"
  shows "next_trx_id db = (current_trx_id db + 1, db\<lparr>current_trx_id := current_trx_id db + 1\<rparr>)"
  using assms by (simp add: next_trx_id_def int32_def max_trx_id_def Let_def add.commute)

text \<open>What a step can do, in terms of the rows.\<close>

lemma trx_delete_cases:
  assumes "trx_delete tbl r T db = Some (rc, T', db')"
  obtains (same) "T' = T" "tables db' = tables db" "current_trx_id db' = current_trx_id db"
  | (marked) x where "tables db tbl r = Some x" "visit_record (trx_id T) x READ_WRITE = SUCCESS"
      "tables db' = (tables db)(tbl := (tables db tbl)(r \<mapsto> x\<lparr>xid_end := - trx_id T\<rparr>))"
      "T' = T\<lparr>operations := operations T @ [delete_of tbl r]\<rparr>" "current_trx_id db' = current_trx_id db" "rc = SUCCESS"
proof (cases "\<exists>x. tables db tbl r = Some x \<and> visit_record (trx_id T) x READ_WRITE = SUCCESS")
  case True
  then obtain x where x: "tables db tbl r = Some x" "visit_record (trx_id T) x READ_WRITE = SUCCESS" by blast
  let ?db = "set_row tbl r (Some (x\<lparr>xid_end := - trx_id T\<rparr>)) db"
  have "tables (snd (append_trx_log e ?db)) = (tables db)(tbl := (tables db tbl)(r \<mapsto> x\<lparr>xid_end := - trx_id T\<rparr>))" for e
    by (simp add: set_row_def append_trx_log_def split: option.splits)
  then show thesis
    using assms x marked[OF x]
    by (auto simp: trx_delete_def table_visit_def delete_visitor_def Let_def log_trx_delete_def OB_FAIL_def
        append_trx_log_def split: if_splits option.splits)
next
  case False
  then show thesis
    using assms same
    by (auto simp: trx_delete_def table_visit_def delete_visitor_def Let_def OB_FAIL_def split: option.splits if_splits)
qed

lemma trx_insert_cases:
  assumes "trx_insert tbl d outcome T db = Some (rc, T', db')"
  obtains (failed) e where "outcome = Inl e" "T' = T" "db' = db"
  | (placed) r where "outcome = Inr r" "T' = T\<lparr>operations := operations T @ [insert_of tbl r]\<rparr>"
      "tables db' = (tables db)(tbl := (tables db tbl)(r \<mapsto> \<lparr>xid_begin = - trx_id T, xid_end = max_trx_id, row_data = d\<rparr>))"
      "current_trx_id db' = current_trx_id db" "rc = SUCCESS"
proof (cases outcome)
  case (Inl e)
  then show thesis using assms failed by (simp add: trx_insert_def)
next
  case (Inr r)
  show thesis
    by (rule placed[OF Inr]) (use assms Inr in \<open>auto simp: trx_insert_def Let_def log_trx_insert_def append_trx_log_def
        set_row_def split: if_splits option.splits\<close>)
qed

lemma trx_commit_effect:
  assumes "trx_commit T db = Some (rc, T', db')" "0 \<le> current_trx_id db" "current_trx_id db + 1 < max_trx_id"
  shows "T' = T\<lparr>started := False, operations := []\<rparr>" "current_trx_id db' = current_trx_id db + 1"
    "tables db' tbl r = map_option (committed_row (current_trx_id db + 1) (operations T) tbl r) (tables db tbl r)"
proof -
  let ?db = "db\<lparr>current_trx_id := current_trx_id db + 1\<rparr>"
  obtain db1 where d: "commit_ops T (current_trx_id db + 1) (operations T) ?db = Some db1"
      "T' = T\<lparr>started := False, operations := []\<rparr>" "tables db' = tables db1" "current_trx_id db' = current_trx_id db1"
    using assms(1) next_trx_id_eq[OF assms(2,3)]
    by (auto simp: trx_commit_def commit_with_trx_id_def bind_eq_Some_conv log_trx_commit_def append_trx_log_def
        split: if_splits option.splits)
  then show "T' = T\<lparr>started := False, operations := []\<rparr>" "current_trx_id db' = current_trx_id db + 1"
    "tables db' tbl r = map_option (committed_row (current_trx_id db + 1) (operations T) tbl r) (tables db tbl r)"
    using commit_ops_effect[OF d(1), of tbl r] by simp_all
qed

lemma undone_row_rev [simp]: "undone_row (rev os) = undone_row os"
  by (simp add: undone_row_def fun_eq_iff)

lemma trx_rollback_effect:
  assumes "trx_rollback T db = Some (rc, T', db')" "\<not> recovering T"
  shows "T' = T\<lparr>started := False, operations := []\<rparr>" "current_trx_id db' = current_trx_id db"
    "tables db' tbl r = undone_row (operations T) tbl r (tables db tbl r)"
proof -
  obtain rc1 db1 where d: "rollback_ops T (rev (operations T)) SUCCESS db = Some (rc1, db1)"
      "T' = T\<lparr>started := False, operations := []\<rparr>" "tables db' = tables db1" "current_trx_id db' = current_trx_id db1"
    using assms
    by (auto simp: trx_rollback_def bind_eq_Some_conv log_trx_rollback_def append_trx_log_def split: if_splits option.splits)
  then show "T' = T\<lparr>started := False, operations := []\<rparr>" "current_trx_id db' = current_trx_id db"
    "tables db' tbl r = undone_row (operations T) tbl r (tables db tbl r)"
    using rollback_ops_effect[OF d(1) assms(2), of tbl r] by simp_all
qed

lemma start_cases:
  assumes "start_if_need T db = Some (rc, T', db')" "0 \<le> current_trx_id db" "current_trx_id db + 1 < max_trx_id"
  obtains (same) "T' = T" "db' = db"
  | (new) "\<not> started T" "operations T = []" "T' = T\<lparr>trx_id := current_trx_id db + 1, started := True\<rparr>"
      "db' = db\<lparr>current_trx_id := current_trx_id db + 1\<rparr>"
  using assms that by (auto simp: start_if_need_def next_trx_id_eq split: if_splits)

text \<open>Who may change a row: nobody else can touch a row that a transaction owns.\<close>

lemma visible_write:
  assumes "visit_record t x READ_WRITE = SUCCESS"
  shows "xid_begin x < 0 \<Longrightarrow> xid_begin x = - t" "xid_begin x \<ge> 0 \<Longrightarrow> xid_end x \<ge> 0"
  using assms by (auto simp: visit_record_def Let_def split: if_splits)

section \<open>The invariant\<close>

lemma op_started: "mvcc_ok (ts, db) \<Longrightarrow> o1 \<in> set (operations (ts i)) \<Longrightarrow> started (ts i)"
  using mvcc_okD(5)[of ts db i] by fastforce

lemma same_owner:
  assumes "mvcc_ok (ts, db)" "started (ts i)" "started (ts j)" "trx_id (ts i) = trx_id (ts j)"
  shows "i = j"
  using mvcc_okD(6)[OF assms(1-3)] assms(4) by blast

lemma op_owns_cong:
  "tables db' (op_table o1) (op_rid o1) = tables db (op_table o1) (op_rid o1) \<Longrightarrow> op_owns db' t o1 = op_owns db t o1"
  by (simp add: op_owns_def)

lemma op_ownsI:
  "tables db (op_table o1) (op_rid o1) = Some x \<Longrightarrow> op_type o1 = OP_INSERT \<and> xid_begin x = - t \<or> op_type o1 = OP_DELETE \<and> xid_end x = - t \<Longrightarrow>
   op_owns db t o1"
  by (auto simp: op_owns_def)

lemma op_ownsE:
  assumes "op_owns db t o1"
  obtains (ins) tbl r x where "o1 = insert_of tbl r" "tables db tbl r = Some x" "xid_begin x = - t"
  | (del) tbl r x where "o1 = delete_of tbl r" "tables db tbl r = Some x" "xid_end x = - t"
  using assms by (cases o1) (auto simp: op_owns_def)

lemma row_ownedE:
  assumes "mvcc_ok (ts, db)" "tables db tbl r = Some x" "xid_begin x < 0"
  obtains k where "started (ts k)" "xid_begin x = - trx_id (ts k)" "insert_of tbl r \<in> set (operations (ts k))"
    "xid_end x = max_trx_id \<or> xid_end x = xid_begin x \<and> delete_of tbl r \<in> set (operations (ts k))"
  using mvcc_okD(8)[OF assms] by (auto simp: row_owned_def)

lemma max_trx_id_pos [simp]: "0 < max_trx_id"
  by (simp add: max_trx_id_def)

lemma delete_keeps_ok:
  assumes ok: "mvcc_ok (ts, db)" and st: "started (ts i)"
    and x: "tables db tbl r = Some x" "visit_record (trx_id (ts i)) x READ_WRITE = SUCCESS"
    and db': "tables db' = (tables db)(tbl := (tables db tbl)(r \<mapsto> x\<lparr>xid_end := - trx_id (ts i)\<rparr>))"
      "current_trx_id db' = current_trx_id db"
  shows "mvcc_ok (ts(i := (ts i)\<lparr>operations := operations (ts i) @ [delete_of tbl r]\<rparr>), db')"
proof -
  let ?t = "trx_id (ts i)" and ?x = "x\<lparr>xid_end := - trx_id (ts i)\<rparr>"
  let ?ts = "ts(i := (ts i)\<lparr>operations := operations (ts i) @ [delete_of tbl r]\<rparr>)"
  note D = mvcc_okD[OF ok] and vw = visible_write[OF x(2)]
  have at: "tables db' tbl' r' = (if tbl' = tbl \<and> r' = r then Some ?x else tables db tbl' r')" for tbl' r'
    using db'(1) by simp
  have own: "op_owns db' (trx_id (ts j)) o1" if o1: "o1 \<in> set (operations (ts j))" for j o1
    using D(7)[OF o1]
  proof (cases rule: op_ownsE)
    case (ins tbl' r' y)
    then show ?thesis using x(1) by (auto simp: op_owns_def at)
  next
    case (del tbl' r' y)
    have stj: "started (ts j)" by (rule op_started[OF ok o1])
    show ?thesis
    proof (cases "tbl' = tbl \<and> r' = r")
      case True
      then have y: "xid_end x = - trx_id (ts j)" using del x(1) by simp
      have "xid_begin x < 0" using vw(2) y D(4)[OF stj] by force
      moreover obtain k where "xid_end x = max_trx_id \<or> xid_end x = xid_begin x"
        by (rule row_ownedE[OF ok x(1) calculation]) blast
      ultimately have "trx_id (ts j) = ?t" using y vw(1) D(4)[OF stj] max_trx_id_pos by force
      then show ?thesis using True del by (auto simp: op_owns_def at)
    qed (use del in \<open>auto simp: op_owns_def at\<close>)
  qed
  show ?thesis
  proof (rule mvcc_okI)
    fix j o1 assume "o1 \<in> set (operations (?ts j))"
    then consider "o1 \<in> set (operations (ts j))" | "j = i" "o1 = delete_of tbl r" by (auto split: if_splits)
    then show "op_owns db' (trx_id (?ts j)) o1"
    proof cases
      case 1
      then show ?thesis using own[of o1 j] by auto
    qed (simp add: op_owns_def at)
  next
    fix tbl' r' y assume y: "tables db' tbl' r' = Some y" "xid_begin y < 0"
    obtain z where z: "tables db tbl' r' = Some z" "xid_begin z = xid_begin y"
        "xid_end y = (if tbl' = tbl \<and> r' = r then - ?t else xid_end z)"
      using y(1) x(1) by (auto simp: at split: if_splits)
    obtain k where k: "started (ts k)" "xid_begin z = - trx_id (ts k)" "insert_of tbl' r' \<in> set (operations (ts k))"
        "xid_end z = max_trx_id \<or> xid_end z = xid_begin z \<and> delete_of tbl' r' \<in> set (operations (ts k))"
      by (rule row_ownedE[OF ok z(1)]) (use z(2) y(2) in simp_all)
    have "k = i" if "tbl' = tbl \<and> r' = r"
      using same_owner[OF ok k(1) st] that z x(1) k(2) vw(1) y(2) by auto
    then have "xid_end y = max_trx_id \<or> xid_end y = xid_begin y \<and> delete_of tbl' r' \<in> set (operations (?ts k))"
      using z k(2,4) by (auto split: if_splits)
    then show "row_owned ?ts tbl' r' y" using k(1-3) z(2) by (auto simp: row_owned_def intro!: exI[of _ k])
  qed (use D db'(2) st in \<open>auto split: if_splits\<close>)
qed

lemma insert_keeps_ok:
  assumes ok: "mvcc_ok (ts, db)" and st: "started (ts i)" and free: "tables db tbl r = None"
    and db': "tables db' = (tables db)(tbl := (tables db tbl)(r \<mapsto> \<lparr>xid_begin = - trx_id (ts i), xid_end = max_trx_id, row_data = d\<rparr>))"
      "current_trx_id db' = current_trx_id db"
  shows "mvcc_ok (ts(i := (ts i)\<lparr>operations := operations (ts i) @ [insert_of tbl r]\<rparr>), db')"
proof -
  let ?ts = "ts(i := (ts i)\<lparr>operations := operations (ts i) @ [insert_of tbl r]\<rparr>)"
  note D = mvcc_okD[OF ok]
  show ?thesis
  proof (rule mvcc_okI)
    fix j o1 assume "o1 \<in> set (operations (?ts j))"
    then consider "o1 \<in> set (operations (ts j))" | "j = i" "o1 = insert_of tbl r" by (auto split: if_splits)
    then show "op_owns db' (trx_id (?ts j)) o1"
      by cases (use D(7) free in \<open>fastforce simp: op_owns_def db'(1)\<close>)+
  next
    fix tbl' r' y assume y: "tables db' tbl' r' = Some y" "xid_begin y < 0"
    show "row_owned ?ts tbl' r' y"
    proof (cases "tbl' = tbl \<and> r' = r")
      case True
      then show ?thesis using y st db'(1) by (auto simp: row_owned_def intro!: exI[of _ i])
    next
      case False
      then have "tables db tbl' r' = Some y" using y(1) db'(1) by (auto split: if_splits)
      then obtain k where "started (ts k)" "xid_begin y = - trx_id (ts k)" "insert_of tbl' r' \<in> set (operations (ts k))"
          "xid_end y = max_trx_id \<or> xid_end y = xid_begin y \<and> delete_of tbl' r' \<in> set (operations (ts k))"
        using row_ownedE[OF ok _ y(2)] by blast
      then show ?thesis by (auto simp: row_owned_def intro!: exI[of _ k])
    qed
  qed (use D db'(2) st in \<open>auto split: if_splits\<close>)
qed

text \<open>Ending a transaction: its marks disappear and no other mark is touched.\<close>

lemma other_mark:
  assumes "mvcc_ok (ts, db)" "tables db tbl r = Some x" "started (ts i)" "started (ts j)" "j \<noteq> i"
  shows "xid_begin x = - trx_id (ts j) \<Longrightarrow> insert_of tbl r \<notin> set (operations (ts i)) \<and> delete_of tbl r \<notin> set (operations (ts i))"
    "xid_end x = - trx_id (ts j) \<Longrightarrow> delete_of tbl r \<notin> set (operations (ts i))"
proof -
  have ids: "trx_id (ts i) \<noteq> trx_id (ts j)" "0 < trx_id (ts i)" "0 < trx_id (ts j)"
    using mvcc_okD(4,6)[OF assms(1)] assms(3-5) by blast+
  show d: "xid_end x = - trx_id (ts j) \<Longrightarrow> delete_of tbl r \<notin> set (operations (ts i))"
    using owns_deleteD[OF mvcc_okD(7)[OF assms(1), of "delete_of tbl r" i]] assms(2) ids by auto
  assume b: "xid_begin x = - trx_id (ts j)"
  then have neg: "xid_begin x < 0" using ids by simp
  have "xid_end x = max_trx_id \<or> xid_end x = xid_begin x" by (rule row_ownedE[OF assms(1,2) neg]) blast
  moreover have "xid_end x = - trx_id (ts i)" if "delete_of tbl r \<in> set (operations (ts i))"
    using owns_deleteD[OF mvcc_okD(7)[OF assms(1) that]] assms(2) by auto
  moreover have "insert_of tbl r \<notin> set (operations (ts i))"
    using owns_insertD[OF mvcc_okD(7)[OF assms(1), of "insert_of tbl r" i]] assms(2) b ids by auto
  ultimately show "insert_of tbl r \<notin> set (operations (ts i)) \<and> delete_of tbl r \<notin> set (operations (ts i))"
    using b ids max_trx_id_pos by fastforce
qed

lemma end_keeps_ok:
  assumes ok: "mvcc_ok (ts, db)" and st: "started (ts i)"
    and cur: "current_trx_id db \<le> current_trx_id db'" "current_trx_id db' < max_trx_id"
    and rows: "\<And>tbl r. tables db' tbl r = g tbl r (tables db tbl r)"
    and keep: "\<And>tbl r v. insert_of tbl r \<notin> set (operations (ts i)) \<Longrightarrow> delete_of tbl r \<notin> set (operations (ts i)) \<Longrightarrow> g tbl r v = v"
    and mine: "\<And>tbl r v y. g tbl r v = Some y \<Longrightarrow> xid_begin y < 0 \<Longrightarrow> insert_of tbl r \<notin> set (operations (ts i))"
    and begin_kept: "\<And>tbl r v y. g tbl r v = Some y \<Longrightarrow> insert_of tbl r \<notin> set (operations (ts i)) \<Longrightarrow> \<exists>x. v = Some x \<and> xid_begin x = xid_begin y"
  shows "mvcc_ok (ts(i := (ts i)\<lparr>started := False, operations := []\<rparr>), db')"
proof -
  let ?ts = "ts(i := (ts i)\<lparr>started := False, operations := []\<rparr>)"
  note D = mvcc_okD[OF ok]
  show ?thesis
  proof (rule mvcc_okI)
    fix j o1 assume o1: "o1 \<in> set (operations (?ts j))"
    then have j: "j \<noteq> i" "o1 \<in> set (operations (ts j))" by (auto split: if_splits)
    have stj: "started (ts j)" by (rule op_started[OF ok j(2)])
    from D(7)[OF j(2)] have "op_owns db' (trx_id (ts j)) o1"
    proof (cases rule: op_ownsE)
      case (ins tbl r x)
      then show ?thesis
        using other_mark(1)[OF ok ins(2) st stj j(1) ins(3)] keep[of tbl r] by (auto simp: op_owns_def rows)
    next
      case (del tbl r x)
      note nd = other_mark(2)[OF ok del(2) st stj j(1) del(3)]
      have "insert_of tbl r \<notin> set (operations (ts i))"
      proof
        assume m: "insert_of tbl r \<in> set (operations (ts i))"
        then have b: "xid_begin x = - trx_id (ts i)" using owns_insertD[OF D(7)[OF m]] del(2) by auto
        then have neg: "xid_begin x < 0" using D(4)[OF st] by simp
        have "xid_end x = max_trx_id \<or> xid_end x = xid_begin x" by (rule row_ownedE[OF ok del(2) neg]) blast
        then show False using del(3) b D(4)[OF stj] D(6)[OF st stj] j(1) max_trx_id_pos by force
      qed
      then show ?thesis using del nd keep[of tbl r] by (auto simp: op_owns_def rows)
    qed
    then show "op_owns db' (trx_id (?ts j)) o1" using j(1) by simp
  next
    fix tbl r y assume y: "tables db' tbl r = Some y" "xid_begin y < 0"
    then have ni: "insert_of tbl r \<notin> set (operations (ts i))" using mine by (simp add: rows)
    obtain x where x: "tables db tbl r = Some x" "xid_begin x = xid_begin y"
      using begin_kept[OF _ ni] y(1) by (auto simp: rows)
    have neg: "xid_begin x < 0" using x(2) y(2) by simp
    obtain k where k: "started (ts k)" "xid_begin x = - trx_id (ts k)" "insert_of tbl r \<in> set (operations (ts k))"
        "xid_end x = max_trx_id \<or> xid_end x = xid_begin x \<and> delete_of tbl r \<in> set (operations (ts k))"
      by (rule row_ownedE[OF ok x(1) neg])
    have ki: "k \<noteq> i" using k(3) ni by auto
    have "y = x" using other_mark(1)[OF ok x(1) st k(1) ki k(2)] keep[of tbl r] x(1) y(1) by (simp add: rows)
    then show "row_owned ?ts tbl r y" using k ki by (auto simp: row_owned_def intro!: exI[of _ k])
  next
    fix j assume "started (?ts j)"
    then show "0 < trx_id (?ts j) \<and> trx_id (?ts j) \<le> current_trx_id db'" using D(4)[of j] cur(1) by (auto split: if_splits)
  qed (use D cur st in \<open>auto split: if_splits\<close>)
qed

lemma trx_step_ok:
  assumes "trx_step i (ts, db) w'" "mvcc_ok (ts, db)"
  shows "mvcc_ok w'"
  using assms(1)
proof cases
  case (Start rc T db')
  note D = mvcc_okD[OF assms(2)]
  from Start(2) D(1) Start(3) show ?thesis
  proof (cases rule: start_cases)
    case same
    then show ?thesis using assms(2) Start(1) by simp
  next
    case new
    show ?thesis unfolding Start(1)
    proof (rule mvcc_okI)
      fix tbl r x assume x: "tables db' tbl r = Some x" "xid_begin x < 0"
      have at: "tables db tbl r = Some x" using x(1) new(4) by simp
      obtain k where "started (ts k)" "xid_begin x = - trx_id (ts k)" "insert_of tbl r \<in> set (operations (ts k))"
          "xid_end x = max_trx_id \<or> xid_end x = xid_begin x \<and> delete_of tbl r \<in> set (operations (ts k))"
        by (rule row_ownedE[OF assms(2) at x(2)])
      then show "row_owned (ts(i := T)) tbl r x" using new(1) by (auto simp: row_owned_def intro!: exI[of _ k])
    next
      fix j k assume "started ((ts(i := T)) j)" "started ((ts(i := T)) k)" "j \<noteq> k"
      then show "trx_id ((ts(i := T)) j) \<noteq> trx_id ((ts(i := T)) k)"
        using D(4)[of j] D(4)[of k] D(6)[of j k] new(3) by (auto split: if_splits)
    next
      fix j o1 assume "o1 \<in> set (operations ((ts(i := T)) j))"
      then show "op_owns db' (trx_id ((ts(i := T)) j)) o1"
        using D(7)[of o1 j] new by (auto simp: op_owns_def split: if_splits)
    next
      fix j assume "started ((ts(i := T)) j)"
      then show "0 < trx_id ((ts(i := T)) j) \<and> trx_id ((ts(i := T)) j) \<le> current_trx_id db'"
        using D(1) D(4)[of j] new by (auto split: if_splits)
    qed (use D new Start(3) in \<open>auto split: if_splits\<close>)
  qed
next
  case (Insert tbl d outcome rc T db')
  from Insert(3) show ?thesis
  proof (cases rule: trx_insert_cases)
    case (failed e)
    then show ?thesis using assms(2) Insert(1) by simp
  next
    case (placed r)
    then show ?thesis using insert_keeps_ok[OF assms(2) Insert(2) _ placed(3,4)] Insert(1,4) by simp
  qed
next
  case (Delete tbl r rc T db')
  from Delete(3) show ?thesis
  proof (cases rule: trx_delete_cases)
    case same
    then show ?thesis using assms(2) Delete(1) by (simp add: mvcc_ok_def op_owns_def)
  next
    case (marked x)
    then show ?thesis using delete_keeps_ok[OF assms(2) Delete(2) marked(1-3,5)] Delete(1) by simp
  qed
next
  case (Commit rc T db')
  note D = mvcc_okD[OF assms(2)] and E = trx_commit_effect[OF Commit(3) mvcc_okD(1)[OF assms(2)] Commit(4)]
  let ?c = "current_trx_id db + 1"
  show ?thesis unfolding Commit(1) E(1)
    by (rule end_keeps_ok[OF assms(2) Commit(2), where g = "\<lambda>tbl r. map_option (committed_row ?c (operations (ts i)) tbl r)"])
      (use D(1) Commit(4) E(2,3) in \<open>auto simp: committed_row_def option.map_ident_strong split: if_splits\<close>)
next
  case (Rollback rc T db')
  note D = mvcc_okD[OF assms(2)] and E = trx_rollback_effect[OF Rollback(3) mvcc_okD(3)[OF assms(2)]]
  show ?thesis unfolding Rollback(1) E(1)
    by (rule end_keeps_ok[OF assms(2) Rollback(2), where g = "undone_row (operations (ts i))"])
      (use D(2) E(2,3) in \<open>auto simp: undone_row_def option.map_ident_strong split: if_splits\<close>)
qed

section \<open>Repeatable reads\<close>

text \<open>Rows that a transaction \<open>t\<close> reads: visible ones that it inserted or that were committed before it.\<close>

definition reads :: "int \<Rightarrow> row \<Rightarrow> bool" where
  "reads t x \<longleftrightarrow> visit_record t x READ_ONLY = SUCCESS \<and> (xid_begin x = - t \<or> 0 < xid_begin x \<and> xid_begin x \<le> t)"

lemma reads_iff:
  assumes "0 < t"
  shows "reads t x \<longleftrightarrow> xid_begin x = - t \<or>
    0 < xid_begin x \<and> xid_begin x \<le> t \<and> xid_end x \<noteq> - t \<and> (0 < xid_end x \<longrightarrow> t \<le> xid_end x)"
  using assms by (auto simp: reads_def visit_record_def Let_def)

lemma other_step_reads:
  assumes "trx_step i (ts, db) (ts', db')" "mvcc_ok (ts, db)" "i \<noteq> j" "started (ts j)"
    "tables db tbl r = Some x" "reads (trx_id (ts j)) x"
  shows "ts' j = ts j \<and> (\<exists>y. tables db' tbl r = Some y \<and> row_data y = row_data x \<and> reads (trx_id (ts j)) y)"
proof -
  note D = mvcc_okD[OF assms(2)]
  let ?t = "trx_id (ts j)"
  have t: "0 < ?t" "?t \<le> current_trx_id db" using D(4)[OF assms(4)] by simp_all
  have mine: "insert_of tbl r \<notin> set (operations (ts i))"
    and mark: "delete_of tbl r \<in> set (operations (ts i)) \<Longrightarrow> xid_begin x \<noteq> - ?t" if "started (ts i)"
  proof -
    have ids: "trx_id (ts i) \<noteq> ?t" "0 < trx_id (ts i)" using D(6)[OF that assms(4)] D(4)[OF that] assms(3) by auto
    show "insert_of tbl r \<notin> set (operations (ts i))"
      using owns_insertD[OF D(7)[of "insert_of tbl r" i]] assms(5,6) ids unfolding reads_iff[OF t(1)] by auto
    show "xid_begin x \<noteq> - ?t" if "delete_of tbl r \<in> set (operations (ts i))"
      using other_mark(1)[OF assms(2,5) \<open>started (ts i)\<close> assms(4)] assms(3) that by auto
  qed
  from assms(1) show ?thesis
  proof cases
    case (Start rc T)
    from Start(2) D(1) Start(3) show ?thesis
      by (cases rule: start_cases) (use Start(1) assms in auto)
  next
    case (Insert tbl1 d outcome rc T)
    from Insert(3) show ?thesis
      by (cases rule: trx_insert_cases) (use Insert assms in auto)
  next
    case (Delete tbl1 r1 rc T)
    from Delete(3) show ?thesis
    proof (cases rule: trx_delete_cases)
      case same
      then show ?thesis using assms Delete by auto
    next
      case (marked z)
      have ids: "trx_id (ts i) \<noteq> ?t" "0 < trx_id (ts i)" using D(6)[OF Delete(2) assms(4)] D(4)[OF Delete(2)] assms(3) by auto
      show ?thesis
      proof (cases "tbl1 = tbl \<and> r1 = r")
        case True
        then have z: "z = x" using marked(1) assms(5) by simp
        have "0 < xid_begin x \<and> xid_begin x \<le> ?t"
          using assms(6) visible_write(1)[OF marked(2)] ids t unfolding z reads_iff[OF t(1)] by auto
        then have "reads ?t (x\<lparr>xid_end := - trx_id (ts i)\<rparr>)" using ids unfolding reads_iff[OF t(1)] by auto
        then show ?thesis using True marked(3) Delete(1) assms(3) z by auto
      qed (use marked(3) Delete(1) assms in auto)
    qed
  next
    case (Commit rc T)
    note E = trx_commit_effect[OF Commit(3) D(1) Commit(4)]
    have "reads ?t (committed_row (current_trx_id db + 1) (operations (ts i)) tbl r x)"
      using assms(6) mine[OF Commit(2)] mark[OF Commit(2)] t unfolding reads_iff[OF t(1)] by (auto simp: committed_row_def)
    then show ?thesis using E(3)[of tbl r] assms(3,5) Commit(1) by (simp add: committed_row_def)
  next
    case (Rollback rc T)
    note E = trx_rollback_effect[OF Rollback(3) D(3)]
    have "reads ?t (x\<lparr>xid_end := max_trx_id\<rparr>)" if "delete_of tbl r \<in> set (operations (ts i))"
      using assms(6) mark[OF Rollback(2) that] t D(2) unfolding reads_iff[OF t(1)] by auto
    then show ?thesis
      using E(3)[of tbl r] assms(3,5,6) Rollback(1) mine[OF Rollback(2)] by (auto simp: undone_row_def)
  qed
qed

section \<open>Ending a transaction\<close>

text \<open>
  A transaction lists an insert once, and a delete once unless it inserted the row itself: the deletion of
  an own new row can be repeated, see \<open>own_delete_still_visible\<close> below.
\<close>

definition tidy :: "operation list \<Rightarrow> bool" where
  "tidy os \<longleftrightarrow> (\<forall>tbl r. count_list os (insert_of tbl r) \<le> 1 \<and>
     (insert_of tbl r \<in> set os \<or> count_list os (delete_of tbl r) \<le> 1))"

definition mvcc_inv :: "world \<Rightarrow> bool" where
  "mvcc_inv w \<longleftrightarrow> mvcc_ok w \<and> (\<forall>i. tidy (operations (fst w i)))"

lemma tidy_Nil [simp]: "tidy []"
  by (simp add: tidy_def)

lemma tidy_insert: "tidy os \<Longrightarrow> insert_of tbl r \<notin> set os \<Longrightarrow> tidy (os @ [insert_of tbl r])"
  by (auto simp: tidy_def count_list_0_iff)

lemma tidy_delete: "tidy os \<Longrightarrow> insert_of tbl r \<in> set os \<or> delete_of tbl r \<notin> set os \<Longrightarrow> tidy (os @ [delete_of tbl r])"
  by (auto simp: tidy_def count_list_0_iff)

lemma trx_step_inv:
  assumes "trx_step i (ts, db) w'" "mvcc_inv (ts, db)"
  shows "mvcc_inv w'"
proof -
  have ok: "mvcc_ok (ts, db)" and td: "\<And>j. tidy (operations (ts j))" using assms(2) by (simp_all add: mvcc_inv_def)
  note D = mvcc_okD[OF ok]
  have "\<exists>T db'. w' = (ts(i := T), db') \<and> tidy (operations T)"
    using assms(1)
  proof cases
    case (Start rc T db')
    from Start(2) D(1) Start(3) have "tidy (operations T)" by (cases rule: start_cases) (use td[of i] in simp_all)
    then show ?thesis using Start(1) by blast
  next
    case (Insert tbl d outcome rc T db')
    from Insert(3) have "tidy (operations T)"
    proof (cases rule: trx_insert_cases)
      case (placed r)
      have "insert_of tbl r \<notin> set (operations (ts i))"
        using owns_insertD[OF D(7)[of "insert_of tbl r" i]] Insert(4) placed(1) by auto
      then show ?thesis using tidy_insert[OF td[of i]] placed(2) by simp
    qed (use td[of i] in simp)
    then show ?thesis using Insert(1) by blast
  next
    case (Delete tbl r rc T db')
    from Delete(3) have "tidy (operations T)"
    proof (cases rule: trx_delete_cases)
      case (marked x)
      have "insert_of tbl r \<in> set (operations (ts i))" if m: "delete_of tbl r \<in> set (operations (ts i))"
      proof -
        have e: "xid_end x = - trx_id (ts i)" using owns_deleteD[OF D(7)[OF m]] marked(1) by auto
        have neg: "xid_begin x < 0" using visible_write(2)[OF marked(2)] e D(4)[OF Delete(2)] by linarith
        obtain k where k: "started (ts k)" "xid_begin x = - trx_id (ts k)" "insert_of tbl r \<in> set (operations (ts k))"
            "xid_end x = max_trx_id \<or> xid_end x = xid_begin x \<and> delete_of tbl r \<in> set (operations (ts k))"
          by (rule row_ownedE[OF ok marked(1) neg])
        have "k = i" using same_owner[OF ok k(1) Delete(2)] k(2) visible_write(1)[OF marked(2) neg] by simp
        then show ?thesis using k(3) by simp
      qed
      then show ?thesis using tidy_delete[OF td[of i]] marked(4) by auto
    qed (use td[of i] in simp)
    then show ?thesis using Delete(1) by blast
  next
    case (Commit rc T db')
    then show ?thesis using trx_commit_effect(1)[OF Commit(3) D(1) Commit(4)] by auto
  next
    case (Rollback rc T db')
    then show ?thesis using trx_rollback_effect(1)[OF Rollback(3) D(3)] by auto
  qed
  then have "tidy (operations (fst w' j))" for j using td[of j] by auto
  then show ?thesis using trx_step_ok[OF assms(1) ok] by (simp add: mvcc_inv_def)
qed

text \<open>No assertion fails at the end of a transaction that deletes none of its own new rows.\<close>

definition spares_own :: "operation list \<Rightarrow> bool" where
  "spares_own os \<longleftrightarrow> (\<forall>tbl r. insert_of tbl r \<in> set os \<longrightarrow> delete_of tbl r \<notin> set os)"

lemma count_le_1_distinct:
  assumes "\<And>y. y \<in> set ys \<Longrightarrow> count_list ys y \<le> 1"
  shows "distinct ys"
  using assms
proof (induction ys)
  case (Cons a ys)
  have "count_list ys a = 0" using Cons.prems[of a] by simp
  moreover have "count_list ys y \<le> 1" if "y \<in> set ys" for y using Cons.prems[of y] that by (auto split: if_splits)
  ultimately show ?case using Cons.IH by (simp add: count_list_0_iff)
qed simp

lemma tidy_distinct:
  assumes "tidy os" "spares_own os" "\<And>o1. o1 \<in> set os \<Longrightarrow> op_owns db t o1"
  shows "distinct os"
proof -
  have "count_list os o1 \<le> 1" if "o1 \<in> set os" for o1
    using assms(3)[OF that]
  proof (cases rule: op_ownsE)
    case (ins tbl r x)
    then show ?thesis using assms(1) by (simp add: tidy_def)
  next
    case (del tbl r x)
    then have "insert_of tbl r \<notin> set os" using assms(2) that by (auto simp: spares_own_def)
    then show ?thesis using assms(1) del(1) by (auto simp: tidy_def)
  qed
  then show ?thesis by (rule count_le_1_distinct)
qed

lemma commit_op_defined:
  assumes "op_owns db (trx_id T) o1" "\<not> recovering T"
  obtains db' where "commit_op T c o1 db = Some db'"
  using assms(1)
proof (cases rule: op_ownsE)
  case (ins tbl r x)
  then show thesis using that assms(2) by (simp add: commit_op_def table_visit_def commit_insert_def)
next
  case (del tbl r x)
  then show thesis using that by (simp add: commit_op_def table_visit_def commit_delete_def)
qed

lemma commit_ops_defined:
  assumes "\<And>o1. o1 \<in> set os \<Longrightarrow> op_owns db (trx_id T) o1" "distinct os" "\<not> recovering T"
  shows "\<exists>db'. commit_ops T c os db = Some db'"
  using assms(1,2)
proof (induction os arbitrary: db)
  case (Cons o1 os)
  obtain db1 where d: "commit_op T c o1 db = Some db1" using commit_op_defined[OF Cons.prems(1) assms(3)] by auto
  have "op_owns db1 (trx_id T) o2" if "o2 \<in> set os" for o2
  proof -
    have ne: "o2 \<noteq> o1" and own: "op_owns db (trx_id T) o2" using that Cons.prems by auto
    from own show ?thesis
      by (cases rule: op_ownsE)
        (use ne commit_op_effect(1)[OF d] in \<open>auto simp: op_owns_def committed_row_def\<close>)
  qed
  then show ?case using Cons.IH[of db1] Cons.prems(2) d by auto
qed simp

lemma rollback_ops_defined:
  assumes "\<And>o1. o1 \<in> set os \<Longrightarrow> op_owns db (trx_id T) o1" "distinct os" "spares_own os" "\<not> recovering T"
  shows "\<exists>db'. rollback_ops T os SUCCESS db = Some (SUCCESS, db')"
  using assms(1-3)
proof (induction os arbitrary: db)
  case (Cons o1 os)
  have "op_owns db (trx_id T) o1" using Cons.prems(1) by simp
  then obtain db1 where d: "rollback_op T o1 SUCCESS db = Some (SUCCESS, db1)"
    by (cases rule: op_ownsE)
      (auto simp: rollback_op_def table_visit_def table_delete_def rollback_delete_def assms(4))
  have "op_owns db1 (trx_id T) o2" if "o2 \<in> set os" for o2
  proof -
    have ne: "o2 \<noteq> o1" and own: "op_owns db (trx_id T) o2" using that Cons.prems by auto
    from own show ?thesis
      by (cases rule: op_ownsE)
        (use ne that Cons.prems(3) rollback_op_effect[OF d assms(4)] in \<open>auto simp: op_owns_def undone_row_def spares_own_def\<close>)
  qed
  moreover have "spares_own os" using Cons.prems(3) by (auto simp: spares_own_def)
  ultimately show ?case using Cons.IH[of db1] Cons.prems(2) d by auto
qed simp

lemma commit_defined:
  assumes "mvcc_inv (ts, db)" "started (ts i)" "spares_own (operations (ts i))" "current_trx_id db + 1 < max_trx_id"
  obtains rc db' where "trx_commit (ts i) db = Some (rc, (ts i)\<lparr>started := False, operations := []\<rparr>, db')"
proof -
  have ok: "mvcc_ok (ts, db)" and td: "tidy (operations (ts i))" using assms(1) by (simp_all add: mvcc_inv_def)
  note D = mvcc_okD[OF ok]
  have dist: "distinct (operations (ts i))" by (rule tidy_distinct[OF td assms(3) D(7)])
  let ?db = "db\<lparr>current_trx_id := current_trx_id db + 1\<rparr>"
  have "op_owns ?db (trx_id (ts i)) o1" if "o1 \<in> set (operations (ts i))" for o1
    using D(7)[OF that] by (simp add: op_owns_def)
  then obtain db1 where d: "commit_ops (ts i) (current_trx_id db + 1) (operations (ts i)) ?db = Some db1"
    using commit_ops_defined[OF _ dist D(3)] by blast
  show thesis
    by (cases "log_error db1"; rule that)
      (use d D(3,4)[of i] assms(2) in \<open>auto simp: trx_commit_def next_trx_id_eq[OF D(1) assms(4)]
          commit_with_trx_id_def log_trx_commit_def append_trx_log_def\<close>)
qed

lemma rollback_defined:
  assumes "mvcc_inv (ts, db)" "started (ts i)" "spares_own (operations (ts i))"
  obtains rc db' where "trx_rollback (ts i) db = Some (rc, (ts i)\<lparr>started := False, operations := []\<rparr>, db')"
proof -
  have ok: "mvcc_ok (ts, db)" and td: "tidy (operations (ts i))" using assms(1) by (simp_all add: mvcc_inv_def)
  note D = mvcc_okD[OF ok]
  have dist: "distinct (rev (operations (ts i)))" using tidy_distinct[OF td assms(3) D(7)] by simp
  have "spares_own (rev (operations (ts i)))" using assms(3) by (simp add: spares_own_def)
  moreover have "op_owns db (trx_id (ts i)) o1" if "o1 \<in> set (rev (operations (ts i)))" for o1 using D(7) that by simp
  ultimately obtain db1 where d: "rollback_ops (ts i) (rev (operations (ts i))) SUCCESS db = Some (SUCCESS, db1)"
    using rollback_ops_defined[OF _ dist _ D(3)] by blast
  show thesis
    by (cases "log_error db1"; rule that)
      (use d D(3,4)[of i] assms(2) in \<open>auto simp: trx_rollback_def log_trx_rollback_def append_trx_log_def\<close>)
qed

section \<open>Properties\<close>

definition world_step :: "world \<Rightarrow> world \<Rightarrow> bool" where
  "world_step w w' \<longleftrightarrow> (\<exists>i. trx_step i w w')"

definition others_step :: "nat \<Rightarrow> world \<Rightarrow> world \<Rightarrow> bool" where
  "others_step j w w' \<longleftrightarrow> (\<exists>i. i \<noteq> j \<and> trx_step i w w')"

lemma world_steps_inv:
  assumes "world_step\<^sup>*\<^sup>* w w'" "mvcc_inv w"
  shows "mvcc_inv w'"
  using assms
proof (induction rule: rtranclp_induct)
  case (step u v)
  then show ?case using trx_step_inv[of _ "fst u" "snd u" v] by (auto simp: world_step_def)
qed simp

text \<open>A world with one committed row in table 7 and no transaction in progress.\<close>

definition demo_rid :: rid where
  "demo_rid = \<lparr>page_num = 1, slot_num = 0\<rparr>"

definition demo_db :: mvcc_db where
  "demo_db = \<lparr>tables = (\<lambda>_. Map.empty)(7 := [demo_rid \<mapsto> \<lparr>xid_begin = 1, xid_end = max_trx_id, row_data = [5]\<rparr>]),
     table_ids = {7}, current_trx_id = 2, trx_log = [], log_error = None\<rparr>"

definition demo_world :: world where
  "demo_world = ((\<lambda>_. create_trx), demo_db)"

lemma demo_world_inv: "mvcc_inv demo_world"
  unfolding mvcc_inv_def demo_world_def
proof (intro conjI mvcc_okI)
  fix tbl r x assume "tables demo_db tbl r = Some x" "xid_begin x < 0"
  then show "row_owned (\<lambda>_. create_trx) tbl r x" by (auto simp: demo_db_def split: if_splits)
qed (auto simp: demo_db_def create_trx_def max_trx_id_def)

text \<open>Two transactions started in the demo world.\<close>

definition demo_trx :: "int \<Rightarrow> mvcc_trx" where
  "demo_trx t = \<lparr>trx_id = t, started = True, recovering = False, operations = []\<rparr>"

definition demo_started :: world where
  "demo_started = (((\<lambda>_. create_trx)(0 := demo_trx 3))(1 := demo_trx 4), demo_db\<lparr>current_trx_id := 4\<rparr>)"

lemma demo_started_steps: "world_step\<^sup>*\<^sup>* demo_world demo_started"
proof -
  let ?w = "((\<lambda>_. create_trx)(0 := demo_trx 3), demo_db\<lparr>current_trx_id := 3\<rparr>)"
  have "trx_step 0 demo_world ?w" unfolding demo_world_def
    by (rule trx_step.Start[where rc = SUCCESS])
      (simp_all add: start_if_need_def create_trx_def demo_trx_def next_trx_id_def int32_def demo_db_def max_trx_id_def Let_def)
  moreover have "trx_step 1 ?w demo_started" unfolding demo_started_def
    by (rule trx_step.Start[where rc = SUCCESS])
      (simp_all add: start_if_need_def create_trx_def demo_trx_def next_trx_id_def int32_def demo_db_def max_trx_id_def Let_def)
  ultimately show ?thesis
    by (metis world_step_def r_into_rtranclp rtranclp.rtrancl_into_rtrancl)
qed

lemmas demo_started_inv = world_steps_inv[OF demo_started_steps demo_world_inv]

text \<open>
  C35. Isolation of writers.  Under every interleaving of transactions, an operation that one
  transaction has in progress is in progress in no other: its new rows are invisible to all others, and
  the rows it is deleting cannot be deleted by them.
\<close>

theorem writers_isolated:
  assumes "mvcc_inv w" "world_step\<^sup>*\<^sup>* w (ts, db)" "i \<noteq> j" "started (ts j)" "o1 \<in> set (operations (ts i))"
  shows "o1 \<notin> set (operations (ts j)) \<and>
    (\<exists>x. tables db (op_table o1) (op_rid o1) = Some x \<and>
      (op_type o1 = OP_INSERT \<longrightarrow> visit_record (trx_id (ts j)) x m = RECORD_INVISIBLE) \<and>
      (op_type o1 = OP_DELETE \<longrightarrow> visit_record (trx_id (ts j)) x READ_WRITE \<noteq> SUCCESS))"
proof -
  have ok: "mvcc_ok (ts, db)" using world_steps_inv[OF assms(2,1)] by (simp add: mvcc_inv_def)
  note D = mvcc_okD[OF ok]
  have sti: "started (ts i)" by (rule op_started[OF ok assms(5)])
  have ids: "trx_id (ts i) \<noteq> trx_id (ts j)" "0 < trx_id (ts i)" "0 < trx_id (ts j)"
    using D(4)[OF sti] D(4)[OF assms(4)] D(6)[OF sti assms(4,3)] by simp_all
  from D(7)[OF assms(5)] show ?thesis
  proof (cases rule: op_ownsE)
    case (ins tbl r x)
    then show ?thesis
      using other_mark(1)[OF ok ins(2) assms(4) sti assms(3) ins(3)] ids by (auto simp: visit_record_def Let_def)
  next
    case (del tbl r x)
    have "visit_record (trx_id (ts j)) x READ_WRITE \<noteq> SUCCESS"
    proof
      assume v: "visit_record (trx_id (ts j)) x READ_WRITE = SUCCESS"
      have neg: "xid_begin x < 0" using visible_write(2)[OF v] del(3) ids by linarith
      have "xid_end x = max_trx_id \<or> xid_end x = xid_begin x" by (rule row_ownedE[OF ok del(2) neg]) blast
      then show False using visible_write(1)[OF v neg] del(3) ids max_trx_id_pos by linarith
    qed
    then show ?thesis using other_mark(2)[OF ok del(2) assms(4) sti assms(3) del(3)] del(1,2) by auto
  qed
qed

theorem writers_isolated_witness:
  "\<exists>(ts :: nat \<Rightarrow> mvcc_trx) (db :: mvcc_db) x. insert_of 7 \<lparr>page_num = 1, slot_num = 9\<rparr> \<in> set (operations (ts 0)) \<and>
     tables db 7 \<lparr>page_num = 1, slot_num = 9\<rparr> = Some x \<and> visit_record (trx_id (ts 1)) x READ_ONLY = RECORD_INVISIBLE"
proof -
  let ?r = "\<lparr>page_num = 1, slot_num = 9\<rparr>"
  obtain T db where t: "trx_insert 7 [8] (Inr ?r) (fst demo_started 0) (snd demo_started) = Some (SUCCESS, T, db)"
      "operations T = [insert_of 7 ?r]"
    by (simp add: trx_insert_def demo_started_def demo_trx_def log_trx_insert_def append_trx_log_def demo_db_def Let_def set_row_def)
  let ?ts = "(fst demo_started)(0 := T)"
  have "trx_step 0 (fst demo_started, snd demo_started) (?ts, db)"
    by (rule trx_step.Insert[where ts = "fst demo_started" and i = 0, OF _ t(1)]) (auto simp: demo_started_def demo_trx_def demo_db_def demo_rid_def)
  then have "world_step demo_started (?ts, db)" by (auto simp: world_step_def)
  then have steps: "world_step\<^sup>*\<^sup>* demo_started (?ts, db)" by (rule r_into_rtranclp)
  have "insert_of 7 ?r \<in> set (operations (?ts 0))" "started (?ts 1)" using t(2) by (simp_all add: demo_started_def demo_trx_def)
  then show ?thesis
    using writers_isolated[OF demo_started_inv steps, of 0 1 "insert_of 7 ?r" READ_ONLY]
    by (intro exI[of _ ?ts] exI[of _ db]) auto
qed


lemma demo_delete:
  obtains T db where "trx_delete 7 demo_rid (fst demo_started 1) (snd demo_started) = Some (SUCCESS, T, db)"
    "T = (demo_trx 4)\<lparr>operations := [delete_of 7 demo_rid]\<rparr>"
    "tables db 7 demo_rid = Some \<lparr>xid_begin = 1, xid_end = -4, row_data = [5]\<rparr>"
    "trx_step 1 demo_started ((fst demo_started)(1 := T), db)"
proof -
  obtain T db where t: "trx_delete 7 demo_rid (fst demo_started 1) (snd demo_started) = Some (SUCCESS, T, db)"
      "T = (demo_trx 4)\<lparr>operations := [delete_of 7 demo_rid]\<rparr>"
      "tables db 7 demo_rid = Some \<lparr>xid_begin = 1, xid_end = -4, row_data = [5]\<rparr>"
    by (simp add: trx_delete_def demo_started_def demo_trx_def log_trx_delete_def append_trx_log_def demo_db_def Let_def
        set_row_def table_visit_def delete_visitor_def visit_record_def max_trx_id_def)
  have "trx_step 1 (fst demo_started, snd demo_started) ((fst demo_started)(1 := T), db)"
    by (rule trx_step.Delete[where ts = "fst demo_started" and i = 1, OF _ t(1)]) (simp add: demo_started_def demo_trx_def)
  then show thesis using that[OF t] by simp
qed




text \<open>
  C38. Undo.  Rolling back a transaction in progress that deletes none of its own new rows does not fail
  an assertion; its new rows disappear, the rows it was deleting get the open end again, and every
  other row is unchanged.
\<close>

theorem rollback_undoes:
  assumes "mvcc_inv (ts, db)" "started (ts i)" "spares_own (operations (ts i))"
  shows "\<exists>rc db'. trx_rollback (ts i) db = Some (rc, (ts i)\<lparr>started := False, operations := []\<rparr>, db') \<and>
    (\<forall>tbl r. tables db' tbl r = (if insert_of tbl r \<in> set (operations (ts i)) then None
       else if delete_of tbl r \<in> set (operations (ts i)) then map_option (\<lambda>x. x\<lparr>xid_end := max_trx_id\<rparr>) (tables db tbl r)
       else tables db tbl r))"
proof -
  have ok: "mvcc_ok (ts, db)" using assms(1) by (simp add: mvcc_inv_def)
  obtain rc db' where run: "trx_rollback (ts i) db = Some (rc, (ts i)\<lparr>started := False, operations := []\<rparr>, db')"
    by (rule rollback_defined[OF assms])
  then show ?thesis
    using trx_rollback_effect(3)[OF run mvcc_okD(3)[OF ok]] by (auto simp: undone_row_def option.map_ident_strong)
qed

theorem rollback_undoes_witness:
  "\<exists>T db1 T2 db2 rc. trx_delete 7 demo_rid (fst demo_started 1) (snd demo_started) = Some (SUCCESS, T, db1) \<and>
     trx_rollback T db1 = Some (rc, T2, db2) \<and> tables db2 7 demo_rid = tables demo_db 7 demo_rid"
proof -
  obtain T db where d: "trx_delete 7 demo_rid (fst demo_started 1) (snd demo_started) = Some (SUCCESS, T, db)"
      "T = (demo_trx 4)\<lparr>operations := [delete_of 7 demo_rid]\<rparr>"
      "tables db 7 demo_rid = Some \<lparr>xid_begin = 1, xid_end = -4, row_data = [5]\<rparr>"
      "trx_step 1 demo_started ((fst demo_started)(1 := T), db)"
    by (rule demo_delete)
  let ?ts = "(fst demo_started)(1 := T)"
  have inv: "mvcc_inv (?ts, db)" using trx_step_inv[of 1 "fst demo_started" "snd demo_started"] d(4) demo_started_inv by simp
  have pre: "started (?ts 1)" "spares_own (operations (?ts 1))" using d(2) by (simp_all add: demo_trx_def spares_own_def)
  obtain rc T2 db2 where "trx_rollback T db = Some (rc, T2, db2)"
      "tables db2 7 demo_rid = Some \<lparr>xid_begin = 1, xid_end = max_trx_id, row_data = [5]\<rparr>"
    using rollback_undoes[OF inv pre] d(2,3) by (auto simp: demo_trx_def)
  then show ?thesis using d(1) by (auto simp: demo_db_def)
qed

text \<open>
  C39. A committed deletion can be lost.  A transaction that started before a deletion was committed
  (\<open>t \<le> xid_end\<close>) may delete the row once more; when it rolls back, the row has an open end, and the
  transactions after the committed deletion see the row again.
\<close>

theorem rollback_resurrects_deleted_row:
  assumes "operations T = []" "\<not> recovering T" "0 < trx_id T" "log_error db = None" "tables db tbl r = Some x"
    "0 < xid_begin x" "xid_begin x \<le> trx_id T" "trx_id T \<le> xid_end x" "xid_end x < t" "t \<le> max_trx_id"
  shows "\<exists>T1 db1 T2 db2 y. trx_delete tbl r T db = Some (SUCCESS, T1, db1) \<and> trx_rollback T1 db1 = Some (SUCCESS, T2, db2) \<and>
    tables db2 tbl r = Some y \<and> visit_record t x READ_ONLY = RECORD_INVISIBLE \<and> visit_record t y READ_ONLY = SUCCESS"
  using assms
  by (simp add: trx_delete_def table_visit_def delete_visitor_def visit_record_def log_trx_delete_def append_trx_log_def
      trx_rollback_def rollback_op_def rollback_delete_def log_trx_rollback_def set_row_def max_trx_id_def)

theorem rollback_resurrects_deleted_row_witness:
  "\<exists>T1 db1 T2 db2 y. trx_delete 7 demo_rid (demo_trx 3) (set_row 7 demo_rid (Some \<lparr>xid_begin = 1, xid_end = 5, row_data = [5]\<rparr>) demo_db) = Some (SUCCESS, T1, db1) \<and>
     trx_rollback T1 db1 = Some (SUCCESS, T2, db2) \<and> tables db2 7 demo_rid = Some y \<and> visit_record 6 y READ_ONLY = SUCCESS"
  using rollback_resurrects_deleted_row[of "demo_trx 3" "set_row 7 demo_rid (Some \<lparr>xid_begin = 1, xid_end = 5, row_data = [5]\<rparr>) demo_db" 7 demo_rid
      "\<lparr>xid_begin = 1, xid_end = 5, row_data = [5]\<rparr>" 6]
  by (auto simp: demo_trx_def max_trx_id_def demo_db_def set_row_def)

lemma replay_entry_map:
  assumes "replay_trx_entry e (s, db) = Some (rc, s', db')" "trx_map s = []"
  shows "trx_map s' = [] \<and> tables db' = tables db"
  using assms
  by (auto simp: replay_trx_entry_def create_recovering_trx_def Let_def destroy_trx_def bind_eq_Some_conv
      split: prod.splits if_splits)

lemma replay_log_map:
  assumes "replay_trx_log es (s, db) = Some (rc, s', db')" "trx_map s = []"
  shows "trx_map s' = [] \<and> tables db' = tables db"
  using assms
proof (induction es arbitrary: s db)
  case (Cons e es)
  obtain rc1 s1 db1 where e: "replay_trx_entry e (s, db) = Some (rc1, s1, db1)"
      "(if OB_FAIL rc1 then Some (rc1, s1, db1) else replay_trx_log es (s1, db1)) = Some (rc, s', db')"
    using Cons.prems(1) by (auto simp: bind_eq_Some_conv)
  note m = replay_entry_map[OF e(1) Cons.prems(2)]
  show ?case
  proof (cases "OB_FAIL rc1")
    case True
    then show ?thesis using e(2) m by simp
  next
    case False
    then show ?thesis using Cons.IH[of s1 db1] e(2) m by simp
  qed
qed simp

lemma replay_log_defined:
  assumes "trx_map s = []"
  shows "\<exists>rc s' db'. replay_trx_log es (s, db) = Some (rc, s', db')"
  using assms
proof (induction es arbitrary: s db)
  case (Cons e es)
  have "\<exists>rc s1 db1. replay_trx_entry e (s, db) = Some (rc, s1, db1)"
    using Cons.prems by (simp add: replay_trx_entry_def create_recovering_trx_def Let_def split: prod.splits)
  then obtain rc s1 db1 where e: "replay_trx_entry e (s, db) = Some (rc, s1, db1)" by blast
  show ?case using Cons.IH[of s1 db1] replay_entry_map[OF e Cons.prems] e by (cases "OB_FAIL rc") auto
qed simp

text \<open>
  Recovery never rolls back.  The replayer creates a transaction for every entry but never enters
  it in its table, so after replaying any log the table is empty, and the final step changes no row:
  the changes of transactions that were in progress at the crash stay in the tables.
\<close>

theorem recovery_never_rolls_back:
  assumes "trx_map s = []"
  shows "\<exists>rc s' db'. replay_trx_log es (s, db) = Some (rc, s', db') \<and> on_done (s', db') = Some (SUCCESS, s', db') \<and>
    tables db' = tables db"
proof -
  obtain rc s' db' where r: "replay_trx_log es (s, db) = Some (rc, s', db')" using replay_log_defined[OF assms] by blast
  then show ?thesis using replay_log_map[OF r assms] by (auto simp: on_done_def)
qed

text \<open>The row of a transaction that had not committed: it survives the restart.\<close>

theorem recovery_never_rolls_back_witness:
  "\<exists>rc s db. replay_trx_log [INSERT_RECORD 9 7 demo_rid]
       (\<lparr>objs = Map.empty, next_obj = 0, kit_trxes = [], trx_map = []\<rparr>,
        set_row 7 demo_rid (Some \<lparr>xid_begin = -9, xid_end = max_trx_id, row_data = [5]\<rparr>) demo_db) = Some (rc, s, db) \<and>
     on_done (s, db) = Some (SUCCESS, s, db) \<and>
     tables db 7 demo_rid = Some \<lparr>xid_begin = -9, xid_end = max_trx_id, row_data = [5]\<rparr>"
  using recovery_never_rolls_back[of "\<lparr>objs = Map.empty, next_obj = 0, kit_trxes = [], trx_map = []\<rparr>" "[INSERT_RECORD 9 7 demo_rid]"
      "set_row 7 demo_rid (Some \<lparr>xid_begin = -9, xid_end = max_trx_id, row_data = [5]\<rparr>) demo_db"]
  by auto

section \<open>Further defects\<close>

text \<open>
  A row that a transaction has inserted and deleted again is still visible to it in both modes, so it
  deletes the row a second time, and the commit then fails an assertion.
\<close>

lemma own_delete_still_visible:
  assumes "operations T = []" "\<not> recovering T" "0 < trx_id T" "log_error db = None" "0 \<le> current_trx_id db" "current_trx_id db + 1 < max_trx_id"
  obtains T1 db1 T2 db2 T3 db3 where
    "trx_insert tbl d (Inr r) T db = Some (SUCCESS, T1, db1)" "trx_delete tbl r T1 db1 = Some (SUCCESS, T2, db2)"
    "trx_delete tbl r T2 db2 = Some (SUCCESS, T3, db3)" "trx_commit T3 db3 = None"
  using assms that
  by (simp add: trx_insert_def trx_delete_def table_visit_def delete_visitor_def visit_record_def log_trx_delete_def
      log_trx_insert_def append_trx_log_def trx_commit_def next_trx_id_eq commit_with_trx_id_def commit_op_def
      commit_insert_def commit_delete_def set_row_def max_trx_id_def Let_def)

text \<open>
  A row committed after a reader started is invisible to it, but becomes visible while another
  transaction is deleting it: the branch for pending deletions does not look at \<open>__trx_xid_begin\<close>.
\<close>

lemma pending_delete_exposes_newer_row:
  assumes "0 < t" "t < b" "0 < u" "u \<noteq> t"
  shows "visit_record t \<lparr>xid_begin = b, xid_end = max_trx_id, row_data = d\<rparr> READ_ONLY = RECORD_INVISIBLE"
    "visit_record t \<lparr>xid_begin = b, xid_end = - u, row_data = d\<rparr> READ_ONLY = SUCCESS"
  using assms by (simp_all add: visit_record_def max_trx_id_def)

text \<open>
  The counter is restored from the transaction numbers in the log but not from the commit numbers, so
  after a restart a new transaction can be older than rows that were committed before the crash.
\<close>

lemma restart_hides_committed_rows:
  assumes "trx_map s = []" "current_trx_id db = 0"
  shows "\<exists>s' db'. replay_trx_log [COMMIT 1 50] (s, db) = Some (SUCCESS, s', db') \<and> fst (next_trx_id db') = 2 \<and>
    visit_record 2 \<lparr>xid_begin = 50, xid_end = max_trx_id, row_data = d\<rparr> READ_ONLY = RECORD_INVISIBLE"
  using assms
  by (simp add: replay_trx_entry_def create_recovering_trx_def trx_redo_def find_table_def next_trx_id_def int32_def
      visit_record_def max_trx_id_def Let_def)

end
