(* ===== verification/Bplus_Tree.thy ===== *)
theory Bplus_Tree
  imports Key_Order Page_Alloc
begin

text \<open>
  The B+ tree index of src/src/observer/storage/index/bplus_tree.cpp: the node handlers, descending to a
  leaf, insertion with splits and deletion with merges, as they work on the pages of the index file through
  parent and sibling page numbers.  The keys are abstract; the tree holds their comparator.  The log records
  of a mini transaction and the latches are not part of this model.
\<close>

section \<open>State\<close>

text \<open>
  \<open>LeafIndexNode\<close> and \<open>InternalIndexNode\<close>: the parent page, for a leaf the next leaf, and the array of items.
\<close>

datatype 'k index_node =
    Leaf_Node (nd_parent: PageNum) (next_brother: PageNum) (leaf_items: "('k \<times> rid) list")
  | Internal_Node (nd_parent: PageNum) (child_items: "('k \<times> PageNum) list")

text \<open>
  \<open>BplusTreeHandler\<close> with its file header: \<open>key_zero\<close> is the key of zero bytes that the first slot of a new
  root gets, \<open>disposed_pages\<close> the pages to be freed at the end of the mini transaction.
\<close>

record 'k bplus_tree =
  key_comparator :: "'k \<Rightarrow> 'k \<Rightarrow> int"
  key_zero :: 'k
  attr_length :: int
  internal_max_size :: nat
  leaf_max_size :: nat
  root_page :: PageNum
  bt_hdr :: pool_header
  bt_pages :: "PageNum \<rightharpoonup> 'k index_node"
  disposed_pages :: "PageNum list"

definition calc_internal_page_capacity :: "int \<Rightarrow> int" where
  "calc_internal_page_capacity len =
     (let item_size = len + 8 + 4 in (BP_PAGE_DATA_SIZE - 12) div item_size)"

definition calc_leaf_page_capacity :: "int \<Rightarrow> int" where
  "calc_leaf_page_capacity len =
     (let item_size = len + 8 + 8 in (BP_PAGE_DATA_SIZE - 16) div item_size)"

section \<open>Nodes\<close>

definition node_size :: "'k index_node \<Rightarrow> nat" where
  "node_size n = (case n of Leaf_Node _ _ es \<Rightarrow> length es | Internal_Node _ cs \<Rightarrow> length cs)"

definition node_max_size :: "'k bplus_tree \<Rightarrow> 'k index_node \<Rightarrow> nat" where
  "node_max_size t n = (case n of Leaf_Node _ _ _ \<Rightarrow> leaf_max_size t | Internal_Node _ _ \<Rightarrow> internal_max_size t)"

definition node_min_size :: "'k bplus_tree \<Rightarrow> 'k index_node \<Rightarrow> nat" where
  "node_min_size t n = node_max_size t n - node_max_size t n div 2"

text \<open>The last key of a node, which is looked up in the parent.\<close>

definition node_key_at :: "'k index_node \<Rightarrow> nat \<Rightarrow> 'k option" where
  "node_key_at n i = (case n of
     Leaf_Node _ _ es \<Rightarrow> if i < length es then Some (fst (es ! i)) else None
   | Internal_Node _ cs \<Rightarrow> if i < length cs then Some (fst (cs ! i)) else None)"

definition put_node :: "PageNum \<Rightarrow> 'k index_node \<Rightarrow> 'k bplus_tree \<Rightarrow> 'k bplus_tree" where
  "put_node p n t = t\<lparr>bt_pages := (bt_pages t)(p \<mapsto> n)\<rparr>"

definition with_parent :: "PageNum \<Rightarrow> 'k index_node \<Rightarrow> 'k index_node" where
  "with_parent par n = (case n of
     Leaf_Node _ nx es \<Rightarrow> Leaf_Node par nx es | Internal_Node _ cs \<Rightarrow> Internal_Node par cs)"

definition set_parent_page_num :: "PageNum \<Rightarrow> PageNum \<Rightarrow> 'k bplus_tree \<Rightarrow> 'k bplus_tree option" where
  "set_parent_page_num p par t = do { n \<leftarrow> bt_pages t p; Some (put_node p (with_parent par n) t) }"

text \<open>
  Moving items inside the array.  An index behind the end or more items than the page can hold is
  undefined behaviour.
\<close>

definition recover_insert_items :: "nat \<Rightarrow> nat \<Rightarrow> 'a list \<Rightarrow> 'a list \<Rightarrow> 'a list option" where
  "recover_insert_items cap index new items =
     (if index \<le> length items \<and> length items + length new \<le> cap
      then Some (take index items @ new @ drop index items) else None)"

definition recover_remove_items :: "nat \<Rightarrow> nat \<Rightarrow> 'a list \<Rightarrow> 'a list option" where
  "recover_remove_items index num items =
     (if index + num \<le> length items then Some (take index items @ drop (index + num) items) else None)"

subsection \<open>Leaves\<close>

definition leaf_cap :: "'k bplus_tree \<Rightarrow> nat" where
  "leaf_cap t = nat (calc_leaf_page_capacity (attr_length t))"

definition leaf_init_empty :: "PageNum \<Rightarrow> 'k bplus_tree \<Rightarrow> 'k bplus_tree" where
  "leaf_init_empty p t = put_node p (Leaf_Node BP_INVALID_PAGE_NUM BP_INVALID_PAGE_NUM []) t"

definition leaf_at :: "'k bplus_tree \<Rightarrow> PageNum \<Rightarrow> (PageNum \<times> PageNum \<times> ('k \<times> rid) list) option" where
  "leaf_at t p = (case bt_pages t p of Some (Leaf_Node par nx es) \<Rightarrow> Some (par, nx, es) | _ \<Rightarrow> None)"

definition set_next_page :: "PageNum \<Rightarrow> PageNum \<Rightarrow> 'k bplus_tree \<Rightarrow> 'k bplus_tree option" where
  "set_next_page p nx t = do { (par, _, es) \<leftarrow> leaf_at t p; Some (put_node p (Leaf_Node par nx es) t) }"

definition leaf_lookup :: "('k \<Rightarrow> 'k \<Rightarrow> int) \<Rightarrow> ('k \<times> rid) list \<Rightarrow> 'k \<Rightarrow> nat \<times> bool" where
  "leaf_lookup cmp es key = lower_bound cmp (map fst es) key"

definition leaf_insert_items :: "PageNum \<Rightarrow> nat \<Rightarrow> ('k \<times> rid) list \<Rightarrow> 'k bplus_tree \<Rightarrow> 'k bplus_tree option" where
  "leaf_insert_items p index new t = do {
     (par, nx, es) \<leftarrow> leaf_at t p;
     es' \<leftarrow> recover_insert_items (leaf_cap t) index new es;
     Some (put_node p (Leaf_Node par nx es') t)
   }"

definition leaf_remove_items :: "PageNum \<Rightarrow> nat \<Rightarrow> nat \<Rightarrow> 'k bplus_tree \<Rightarrow> 'k bplus_tree option" where
  "leaf_remove_items p index num t = do {
     (par, nx, es) \<leftarrow> leaf_at t p;
     es' \<leftarrow> recover_remove_items index num es;
     Some (put_node p (Leaf_Node par nx es') t)
   }"

definition leaf_insert :: "PageNum \<Rightarrow> nat \<Rightarrow> 'k \<Rightarrow> rid \<Rightarrow> 'k bplus_tree \<Rightarrow> 'k bplus_tree option" where
  "leaf_insert p index key r t = leaf_insert_items p index [(key, r)] t"

definition leaf_append :: "PageNum \<Rightarrow> ('k \<times> rid) list \<Rightarrow> 'k bplus_tree \<Rightarrow> 'k bplus_tree option" where
  "leaf_append p new t = do { (_, _, es) \<leftarrow> leaf_at t p; leaf_insert_items p (length es) new t }"

text \<open>The number of removed entries, 0 or 1.\<close>

definition leaf_remove :: "PageNum \<Rightarrow> 'k \<Rightarrow> 'k bplus_tree \<Rightarrow> (nat \<times> 'k bplus_tree) option" where
  "leaf_remove p key t = do {
     (_, _, es) \<leftarrow> leaf_at t p;
     let (index, found) = leaf_lookup (key_comparator t) es key;
     if found then do { t' \<leftarrow> leaf_remove_items p index 1 t; Some (1, t') } else Some (0, t)
   }"

definition leaf_move_half_to :: "PageNum \<Rightarrow> PageNum \<Rightarrow> 'k bplus_tree \<Rightarrow> 'k bplus_tree option" where
  "leaf_move_half_to p other t = do {
     (_, _, es) \<leftarrow> leaf_at t p;
     let move_index = length es div 2;
     t1 \<leftarrow> leaf_append other (drop move_index es) t;
     leaf_remove_items p move_index (length es - move_index) t1
   }"

definition leaf_move_first_to_end :: "PageNum \<Rightarrow> PageNum \<Rightarrow> 'k bplus_tree \<Rightarrow> 'k bplus_tree option" where
  "leaf_move_first_to_end p other t = do {
     (_, _, es) \<leftarrow> leaf_at t p;
     if es = [] then None
     else do { t1 \<leftarrow> leaf_append other [hd es] t; leaf_remove_items p 0 1 t1 }
   }"

definition leaf_move_last_to_front :: "PageNum \<Rightarrow> PageNum \<Rightarrow> 'k bplus_tree \<Rightarrow> 'k bplus_tree option" where
  "leaf_move_last_to_front p other t = do {
     (_, _, es) \<leftarrow> leaf_at t p;
     if es = [] then None
     else do { t1 \<leftarrow> leaf_insert_items other 0 [last es] t; leaf_remove_items p (length es - 1) 1 t1 }
   }"

definition leaf_move_to :: "PageNum \<Rightarrow> PageNum \<Rightarrow> 'k bplus_tree \<Rightarrow> 'k bplus_tree option" where
  "leaf_move_to p other t = do {
     (_, nx, es) \<leftarrow> leaf_at t p;
     t1 \<leftarrow> leaf_append other es t;
     t2 \<leftarrow> set_next_page other nx t1;
     leaf_remove_items p 0 (length es) t2
   }"

subsection \<open>Internal nodes\<close>

definition internal_cap :: "'k bplus_tree \<Rightarrow> nat" where
  "internal_cap t = nat (calc_internal_page_capacity (attr_length t))"

definition internal_init_empty :: "PageNum \<Rightarrow> 'k bplus_tree \<Rightarrow> 'k bplus_tree" where
  "internal_init_empty p t = put_node p (Internal_Node BP_INVALID_PAGE_NUM []) t"

definition internal_at :: "'k bplus_tree \<Rightarrow> PageNum \<Rightarrow> (PageNum \<times> ('k \<times> PageNum) list) option" where
  "internal_at t p = (case bt_pages t p of Some (Internal_Node par cs) \<Rightarrow> Some (par, cs) | _ \<Rightarrow> None)"

text \<open>
  The items of a new root: the first key is never looked at and is cleared.  The node is fresh; in a node
  that already has items their count would run ahead of the contents.
\<close>

definition create_new_root :: "PageNum \<Rightarrow> PageNum \<Rightarrow> 'k \<Rightarrow> PageNum \<Rightarrow> 'k bplus_tree \<Rightarrow> 'k bplus_tree option" where
  "create_new_root p first_page_num key page t = do {
     (par, cs) \<leftarrow> internal_at t p;
     if cs \<noteq> [] \<or> internal_cap t < 2 then None
     else Some (put_node p (Internal_Node par [(key_zero t, first_page_num), (key, page)]) t)
   }"

text \<open>The child to descend to and the position for an insertion.\<close>

definition internal_lookup :: "('k \<Rightarrow> 'k \<Rightarrow> int) \<Rightarrow> ('k \<times> PageNum) list \<Rightarrow> 'k \<Rightarrow> nat \<times> nat" where
  "internal_lookup cmp cs key =
     (if cs = [] then (0, 1)
      else let ret = fst (lower_bound cmp (map fst (tl cs)) key) + 1
           in (if ret \<ge> length cs \<or> cmp key (fst (cs ! ret)) < 0 then ret - 1 else ret, ret))"

definition internal_insert_at :: "PageNum \<Rightarrow> nat \<Rightarrow> ('k \<times> PageNum) list \<Rightarrow> 'k bplus_tree \<Rightarrow> 'k bplus_tree option" where
  "internal_insert_at p index new t = do {
     (par, cs) \<leftarrow> internal_at t p;
     cs' \<leftarrow> recover_insert_items (internal_cap t) index new cs;
     Some (put_node p (Internal_Node par cs') t)
   }"

definition internal_remove_items :: "PageNum \<Rightarrow> nat \<Rightarrow> nat \<Rightarrow> 'k bplus_tree \<Rightarrow> 'k bplus_tree option" where
  "internal_remove_items p index num t = do {
     (par, cs) \<leftarrow> internal_at t p;
     cs' \<leftarrow> recover_remove_items index num cs;
     Some (put_node p (Internal_Node par cs') t)
   }"

definition internal_insert :: "PageNum \<Rightarrow> 'k \<Rightarrow> PageNum \<Rightarrow> 'k bplus_tree \<Rightarrow> 'k bplus_tree option" where
  "internal_insert p key page t = do {
     (_, cs) \<leftarrow> internal_at t p;
     let insert_position = snd (internal_lookup (key_comparator t) cs key);
     internal_insert_at p insert_position [(key, page)] t
   }"

text \<open>The loop of \<open>insert_items\<close> that makes this page the parent of the moved children.\<close>

fun set_parents :: "PageNum \<Rightarrow> PageNum list \<Rightarrow> 'k bplus_tree \<Rightarrow> rc \<times> 'k bplus_tree" where
  "set_parents par [] t = (SUCCESS, t)"
| "set_parents par (c # cs) t = (case bt_pages t c of
     None \<Rightarrow> (IOERR_READ, t)
   | Some n \<Rightarrow> set_parents par cs (put_node c (with_parent par n) t))"

definition internal_insert_items ::
    "PageNum \<Rightarrow> nat \<Rightarrow> ('k \<times> PageNum) list \<Rightarrow> 'k bplus_tree \<Rightarrow> (rc \<times> 'k bplus_tree) option" where
  "internal_insert_items p index new t = do {
     t1 \<leftarrow> internal_insert_at p index new t;
     Some (set_parents p (map snd new) t1)
   }"

definition internal_append :: "PageNum \<Rightarrow> ('k \<times> PageNum) list \<Rightarrow> 'k bplus_tree \<Rightarrow> (rc \<times> 'k bplus_tree) option" where
  "internal_append p new t = do { (_, cs) \<leftarrow> internal_at t p; internal_insert_items p (length cs) new t }"

definition internal_move_half_to :: "PageNum \<Rightarrow> PageNum \<Rightarrow> 'k bplus_tree \<Rightarrow> (rc \<times> 'k bplus_tree) option" where
  "internal_move_half_to p other t = do {
     (_, cs) \<leftarrow> internal_at t p;
     let move_index = length cs div 2;
     (r, t1) \<leftarrow> internal_append other (drop move_index cs) t;
     if OB_FAIL r then Some (r, t1)
     else do { t2 \<leftarrow> internal_remove_items p move_index (length cs - move_index) t1; Some (r, t2) }
   }"

definition internal_move_first_to_end :: "PageNum \<Rightarrow> PageNum \<Rightarrow> 'k bplus_tree \<Rightarrow> (rc \<times> 'k bplus_tree) option" where
  "internal_move_first_to_end p other t = do {
     (_, cs) \<leftarrow> internal_at t p;
     if cs = [] then None
     else do {
       (r, t1) \<leftarrow> internal_append other [hd cs] t;
       if OB_FAIL r then Some (r, t1)
       else do { t2 \<leftarrow> internal_remove_items p 0 1 t1; Some (r, t2) }
     }
   }"

definition internal_move_last_to_front :: "PageNum \<Rightarrow> PageNum \<Rightarrow> 'k bplus_tree \<Rightarrow> (rc \<times> 'k bplus_tree) option" where
  "internal_move_last_to_front p other t = do {
     (_, cs) \<leftarrow> internal_at t p;
     if cs = [] then None
     else do {
       (r, t1) \<leftarrow> internal_insert_items other 0 [last cs] t;
       if OB_FAIL r then Some (r, t1)
       else do { t2 \<leftarrow> internal_remove_items p (length cs - 1) 1 t1; Some (r, t2) }
     }
   }"

definition internal_move_to :: "PageNum \<Rightarrow> PageNum \<Rightarrow> 'k bplus_tree \<Rightarrow> (rc \<times> 'k bplus_tree) option" where
  "internal_move_to p other t = do {
     (_, cs) \<leftarrow> internal_at t p;
     (r, t1) \<leftarrow> internal_append other cs t;
     if OB_FAIL r then Some (r, t1)
     else do { t2 \<leftarrow> internal_remove_items p 0 (length cs) t1; Some (SUCCESS, t2) }
   }"

definition set_key_at :: "PageNum \<Rightarrow> nat \<Rightarrow> 'k \<Rightarrow> 'k bplus_tree \<Rightarrow> 'k bplus_tree option" where
  "set_key_at p index key t = do {
     (par, cs) \<leftarrow> internal_at t p;
     if index < length cs
     then Some (put_node p (Internal_Node par (cs[index := (key, snd (cs ! index))])) t) else None
   }"

section \<open>Descending to a leaf\<close>

definition is_empty :: "'k bplus_tree \<Rightarrow> bool" where
  "is_empty t \<longleftrightarrow> root_page t = BP_INVALID_PAGE_NUM"

text \<open>
  The loop of \<open>find_leaf_internal\<close>; on pages whose child numbers form a cycle it would not end.
\<close>

partial_function (option) find_leaf_loop ::
    "(('k \<times> PageNum) list \<Rightarrow> PageNum option) \<Rightarrow> 'k bplus_tree \<Rightarrow> PageNum \<Rightarrow> (rc \<times> PageNum option) option" where
  "find_leaf_loop child_page_getter t p = (case bt_pages t p of
     None \<Rightarrow> Some (IOERR_READ, None)
   | Some n \<Rightarrow> (case n of
       Leaf_Node _ _ _ \<Rightarrow> Some (SUCCESS, Some p)
     | Internal_Node _ cs \<Rightarrow> do { c \<leftarrow> child_page_getter cs; find_leaf_loop child_page_getter t c }))"

definition find_leaf_internal ::
    "(('k \<times> PageNum) list \<Rightarrow> PageNum option) \<Rightarrow> 'k bplus_tree \<Rightarrow> (rc \<times> PageNum option) option" where
  "find_leaf_internal child_page_getter t =
     (if is_empty t then Some (EMPTY, None) else find_leaf_loop child_page_getter t (root_page t))"

text \<open>\<open>value_at\<close> asserts that the index is in range.\<close>

definition value_at :: "('k \<times> PageNum) list \<Rightarrow> nat \<Rightarrow> PageNum option" where
  "value_at cs i = (if i < length cs then Some (snd (cs ! i)) else None)"

definition find_leaf :: "'k bplus_tree \<Rightarrow> 'k \<Rightarrow> (rc \<times> PageNum option) option" where
  "find_leaf t key = find_leaf_internal (\<lambda>cs. value_at cs (fst (internal_lookup (key_comparator t) cs key))) t"

definition left_most_page :: "'k bplus_tree \<Rightarrow> (rc \<times> PageNum option) option" where
  "left_most_page t = find_leaf_internal (\<lambda>cs. value_at cs 0) t"

section \<open>Insertion\<close>

definition allocate_node :: "'k bplus_tree \<Rightarrow> (rc \<times> PageNum option \<times> 'k bplus_tree) option" where
  "allocate_node t = do {
     (r, found, h) \<leftarrow> header_allocate (bt_hdr t);
     Some (r, found, t\<lparr>bt_hdr := h\<rparr>)
   }"

definition update_root_page_num_locked :: "PageNum \<Rightarrow> 'k bplus_tree \<Rightarrow> 'k bplus_tree" where
  "update_root_page_num_locked p t = t\<lparr>root_page := p\<rparr>"

text \<open>The two instances of \<open>split\<close>; the result of \<open>move_half_to\<close> is ignored.\<close>

definition split_leaf :: "PageNum \<Rightarrow> 'k bplus_tree \<Rightarrow> (rc \<times> PageNum option \<times> 'k bplus_tree) option" where
  "split_leaf p t = do {
     (r, found, t1) \<leftarrow> allocate_node t;
     case found of
       None \<Rightarrow> Some (r, None, t1)
     | Some q \<Rightarrow> do {
         (par, _, _) \<leftarrow> leaf_at t1 p;
         t2 \<leftarrow> set_parent_page_num q par (leaf_init_empty q t1);
         t3 \<leftarrow> leaf_move_half_to p q t2;
         Some (SUCCESS, Some q, t3)
       }
   }"

definition split_internal :: "PageNum \<Rightarrow> 'k bplus_tree \<Rightarrow> (rc \<times> PageNum option \<times> 'k bplus_tree) option" where
  "split_internal p t = do {
     (r, found, t1) \<leftarrow> allocate_node t;
     case found of
       None \<Rightarrow> Some (r, None, t1)
     | Some q \<Rightarrow> do {
         (par, _) \<leftarrow> internal_at t1 p;
         t2 \<leftarrow> set_parent_page_num q par (internal_init_empty q t1);
         (_, t3) \<leftarrow> internal_move_half_to p q t2;
         Some (SUCCESS, Some q, t3)
       }
   }"

text \<open>The first branch of \<open>insert_entry_into_parent\<close>: the node that was split is the root.\<close>

definition grow_root :: "PageNum \<Rightarrow> PageNum \<Rightarrow> 'k \<Rightarrow> 'k bplus_tree \<Rightarrow> (rc \<times> 'k bplus_tree) option" where
  "grow_root p q key t = do {
     (r, found, t1) \<leftarrow> allocate_node t;
     case found of
       None \<Rightarrow> Some (r, t1)
     | Some root \<Rightarrow> do {
         t2 \<leftarrow> create_new_root root p key q (internal_init_empty root t1);
         t3 \<leftarrow> set_parent_page_num p root t2;
         t4 \<leftarrow> set_parent_page_num q root t3;
         Some (SUCCESS, update_root_page_num_locked root t4)
       }
   }"

text \<open>
  The new node is entered in the parent; a full parent is split first, and its new half is entered one
  level higher.
\<close>

partial_function (option) insert_entry_into_parent ::
    "PageNum \<Rightarrow> PageNum \<Rightarrow> 'k \<Rightarrow> 'k bplus_tree \<Rightarrow> (rc \<times> 'k bplus_tree) option" where
  "insert_entry_into_parent p q key t = do {
     n \<leftarrow> bt_pages t p;
     let parent_page_num = nd_parent n;
     if parent_page_num = BP_INVALID_PAGE_NUM then grow_root p q key t
     else (case bt_pages t parent_page_num of
       None \<Rightarrow> Some (IOERR_READ, t)
     | Some pn \<Rightarrow>
         if node_size pn < internal_max_size t then do {
           t1 \<leftarrow> internal_insert parent_page_num key q t;
           t2 \<leftarrow> set_parent_page_num q parent_page_num t1;
           Some (SUCCESS, t2)
         } else do {
           (r, found, t1) \<leftarrow> split_internal parent_page_num t;
           case found of
             None \<Rightarrow> Some (r, t1)
           | Some new_parent \<Rightarrow> do {
               (_, cs) \<leftarrow> internal_at t1 new_parent;
               first_key \<leftarrow> (case cs of [] \<Rightarrow> None | c # _ \<Rightarrow> Some (fst c));
               let target = (if key_comparator t key first_key > 0 then new_parent else parent_page_num);
               t2 \<leftarrow> internal_insert target key q t1;
               t3 \<leftarrow> set_parent_page_num q target t2;
               (_, cs') \<leftarrow> internal_at t3 new_parent;
               new_key \<leftarrow> (case cs' of [] \<Rightarrow> None | c # _ \<Rightarrow> Some (fst c));
               insert_entry_into_parent parent_page_num new_parent new_key t3
             }
         })
   }"

definition insert_entry_into_leaf_node :: "PageNum \<Rightarrow> 'k \<Rightarrow> rid \<Rightarrow> 'k bplus_tree \<Rightarrow> (rc \<times> 'k bplus_tree) option" where
  "insert_entry_into_leaf_node p key r t = do {
     (_, _, es) \<leftarrow> leaf_at t p;
     let (insert_position, exists) = leaf_lookup (key_comparator t) es key;
     if exists then Some (RECORD_DUPLICATE_KEY, t)
     else if length es < leaf_max_size t then do {
       t1 \<leftarrow> leaf_insert p insert_position key r t;
       Some (SUCCESS, t1)
     } else do {
       (rc, found, t1) \<leftarrow> split_leaf p t;
       case found of
         None \<Rightarrow> Some (rc, t1)
       | Some q \<Rightarrow> do {
           (par, nx, left) \<leftarrow> leaf_at t1 p;
           t2 \<leftarrow> set_next_page q nx t1;
           t3 \<leftarrow> set_parent_page_num q par t2;
           t4 \<leftarrow> set_next_page p q t3;
           t5 \<leftarrow> (if insert_position < length left then leaf_insert p insert_position key r t4
                  else leaf_insert q (insert_position - length left) key r t4);
           (_, _, right) \<leftarrow> leaf_at t5 q;
           first_key \<leftarrow> (case right of [] \<Rightarrow> None | e # _ \<Rightarrow> Some (fst e));
           insert_entry_into_parent p q first_key t5
         }
     }
   }"

definition create_new_tree :: "'k \<Rightarrow> rid \<Rightarrow> 'k bplus_tree \<Rightarrow> (rc \<times> 'k bplus_tree) option" where
  "create_new_tree key r t =
     (if \<not> is_empty t then Some (INTERNAL, t)
      else do {
        (rc, found, t1) \<leftarrow> allocate_node t;
        case found of
          None \<Rightarrow> Some (rc, t1)
        | Some p \<Rightarrow> do {
            t2 \<leftarrow> leaf_insert p 0 key r (leaf_init_empty p t1);
            Some (SUCCESS, update_root_page_num_locked p t2)
          }
      })"

text \<open>\<open>insert_entry\<close> for a key that has been made of the attribute and the record identifier.\<close>

definition insert_entry :: "'k \<Rightarrow> rid \<Rightarrow> 'k bplus_tree \<Rightarrow> (rc \<times> 'k bplus_tree) option" where
  "insert_entry key r t =
     (if is_empty t then create_new_tree key r t
      else do {
        (rc, found) \<leftarrow> find_leaf t key;
        case found of
          None \<Rightarrow> Some (rc, t)
        | Some p \<Rightarrow> insert_entry_into_leaf_node p key r t
      })"

section \<open>Deletion\<close>

definition dispose_page_later :: "PageNum \<Rightarrow> 'k bplus_tree \<Rightarrow> 'k bplus_tree" where
  "dispose_page_later p t = t\<lparr>disposed_pages := disposed_pages t @ [p]\<rparr>"

definition adjust_root :: "PageNum \<Rightarrow> 'k bplus_tree \<Rightarrow> (rc \<times> 'k bplus_tree) option" where
  "adjust_root p t = do {
     n \<leftarrow> bt_pages t p;
     case n of
       Leaf_Node _ _ es \<Rightarrow>
         if es \<noteq> [] then Some (SUCCESS, t)
         else Some (SUCCESS, dispose_page_later p (update_root_page_num_locked BP_INVALID_PAGE_NUM t))
     | Internal_Node _ cs \<Rightarrow> do {
         child \<leftarrow> value_at cs 0;
         case bt_pages t child of
           None \<Rightarrow> Some (IOERR_READ, t)
         | Some _ \<Rightarrow> do {
             t1 \<leftarrow> set_parent_page_num child BP_INVALID_PAGE_NUM t;
             Some (SUCCESS, dispose_page_later p (update_root_page_num_locked child t1))
           }
       }
   }"

text \<open>
  \<open>redistribute\<close> moves one item from the neighbour; \<open>index\<close> is the position of the node in its parent.
  The template is instantiated for leaves and for internal nodes; the results of the moves are ignored.
\<close>

definition move_first_to_end :: "PageNum \<Rightarrow> PageNum \<Rightarrow> 'k bplus_tree \<Rightarrow> 'k bplus_tree option" where
  "move_first_to_end p other t = do {
     n \<leftarrow> bt_pages t p;
     case n of
       Leaf_Node _ _ _ \<Rightarrow> leaf_move_first_to_end p other t
     | Internal_Node _ _ \<Rightarrow> do { (_, t1) \<leftarrow> internal_move_first_to_end p other t; Some t1 }
   }"

definition move_last_to_front :: "PageNum \<Rightarrow> PageNum \<Rightarrow> 'k bplus_tree \<Rightarrow> 'k bplus_tree option" where
  "move_last_to_front p other t = do {
     n \<leftarrow> bt_pages t p;
     case n of
       Leaf_Node _ _ _ \<Rightarrow> leaf_move_last_to_front p other t
     | Internal_Node _ _ \<Rightarrow> do { (_, t1) \<leftarrow> internal_move_last_to_front p other t; Some t1 }
   }"

definition redistribute :: "PageNum \<Rightarrow> PageNum \<Rightarrow> PageNum \<Rightarrow> nat \<Rightarrow> 'k bplus_tree \<Rightarrow> (rc \<times> 'k bplus_tree) option" where
  "redistribute neighbor p parent_page index t =
     (if index = 0 then do {
        t1 \<leftarrow> move_first_to_end neighbor p t;
        n \<leftarrow> bt_pages t1 neighbor;
        key \<leftarrow> node_key_at n 0;
        t2 \<leftarrow> set_key_at parent_page 1 key t1;
        Some (SUCCESS, t2)
      } else do {
        t1 \<leftarrow> move_last_to_front neighbor p t;
        n \<leftarrow> bt_pages t1 p;
        key \<leftarrow> node_key_at n 0;
        t2 \<leftarrow> set_key_at parent_page index key t1;
        Some (SUCCESS, t2)
      })"

text \<open>
  The part of \<open>coalesce\<close> before the recursive call: the right node is removed from the parent and its
  items go to the left node.
\<close>

definition move_to :: "PageNum \<Rightarrow> PageNum \<Rightarrow> 'k bplus_tree \<Rightarrow> (rc \<times> 'k bplus_tree) option" where
  "move_to p other t = do {
     n \<leftarrow> bt_pages t p;
     case n of
       Leaf_Node _ _ _ \<Rightarrow> do { t1 \<leftarrow> leaf_move_to p other t; Some (SUCCESS, t1) }
     | Internal_Node _ _ \<Rightarrow> internal_move_to p other t
   }"

definition link_merged :: "PageNum \<Rightarrow> PageNum \<Rightarrow> 'k bplus_tree \<Rightarrow> 'k bplus_tree option" where
  "link_merged left right t = do {
     n \<leftarrow> bt_pages t left;
     case n of
       Leaf_Node _ _ _ \<Rightarrow> do { (_, nx, _) \<leftarrow> leaf_at t right; set_next_page left nx t }
     | Internal_Node _ _ \<Rightarrow> Some t
   }"

definition coalesce_nodes :: "PageNum \<Rightarrow> PageNum \<Rightarrow> PageNum \<Rightarrow> nat \<Rightarrow> 'k bplus_tree \<Rightarrow> (rc \<times> 'k bplus_tree) option" where
  "coalesce_nodes neighbor p parent_page index t =
     (let (left, right, i) = (if index = 0 then (p, neighbor, 1) else (neighbor, p, index))
      in do {
        t1 \<leftarrow> internal_remove_items parent_page i 1 t;
        (r, t2) \<leftarrow> move_to right left t1;
        if OB_FAIL r then Some (r, t2)
        else do { t3 \<leftarrow> link_merged left right t2; Some (SUCCESS, dispose_page_later right t3) }
      })"

partial_function (option) coalesce_or_redistribute :: "PageNum \<Rightarrow> 'k bplus_tree \<Rightarrow> (rc \<times> 'k bplus_tree) option" where
  "coalesce_or_redistribute p t = do {
     n \<leftarrow> bt_pages t p;
     if node_size n \<ge> node_min_size t n then Some (SUCCESS, t)
     else if nd_parent n = BP_INVALID_PAGE_NUM then
       (if node_size n > 1 then Some (SUCCESS, t)
        else do { (_, t1) \<leftarrow> adjust_root p t; Some (SUCCESS, t1) })
     else (case bt_pages t (nd_parent n) of
       None \<Rightarrow> Some (IOERR_READ, t)
     | Some _ \<Rightarrow> do {
         let parent_page = nd_parent n;
         (_, cs) \<leftarrow> internal_at t parent_page;
         key \<leftarrow> (if node_size n = 0 then None else node_key_at n (node_size n - 1));
         let index = fst (internal_lookup (key_comparator t) cs key);
         v \<leftarrow> value_at cs index;
         if v \<noteq> p then None
         else do {
           neighbor \<leftarrow> value_at cs (if index = 0 then 1 else index - 1);
           (case bt_pages t neighbor of
              None \<Rightarrow> Some (IOERR_READ, t)
            | Some nb \<Rightarrow>
                if node_size n + node_size nb > node_max_size t n
                then redistribute neighbor p parent_page index t
                else do {
                  (r, t1) \<leftarrow> coalesce_nodes neighbor p parent_page index t;
                  if OB_FAIL r then Some (r, t1) else coalesce_or_redistribute parent_page t1
                })
         }
       })
   }"

definition delete_entry_internal :: "PageNum \<Rightarrow> 'k \<Rightarrow> 'k bplus_tree \<Rightarrow> (rc \<times> 'k bplus_tree) option" where
  "delete_entry_internal p key t = do {
     (remove_count, t1) \<leftarrow> leaf_remove p key t;
     if remove_count = 0 then Some (RECORD_NOT_EXIST, t1)
     else do {
       n \<leftarrow> bt_pages t1 p;
       if node_size n \<ge> node_min_size t1 n then Some (SUCCESS, t1) else coalesce_or_redistribute p t1
     }
   }"

text \<open>The end of the mini transaction frees the pages that were given up.\<close>

fun dispose_all :: "PageNum list \<Rightarrow> 'k bplus_tree \<Rightarrow> 'k bplus_tree option" where
  "dispose_all [] t = Some t"
| "dispose_all (p # ps) t = do {
     (_, h) \<leftarrow> header_dispose p (bt_hdr t);
     dispose_all ps (t\<lparr>bt_hdr := h\<rparr>)
   }"

definition release :: "'k bplus_tree \<Rightarrow> 'k bplus_tree option" where
  "release t = do { t1 \<leftarrow> dispose_all (disposed_pages t) t; Some (t1\<lparr>disposed_pages := []\<rparr>) }"

definition delete_entry :: "'k \<Rightarrow> 'k bplus_tree \<Rightarrow> (rc \<times> 'k bplus_tree) option" where
  "delete_entry key t = do {
     (rc, found) \<leftarrow> find_leaf t key;
     case found of
       None \<Rightarrow> Some (if rc = EMPTY then RECORD_NOT_EXIST else rc, t)
     | Some p \<Rightarrow> do {
         (rc1, t1) \<leftarrow> delete_entry_internal p key t;
         t2 \<leftarrow> release t1;
         Some (rc1, t2)
       }
   }"

end
