(* ===== verification/Bplus_Tree_Rep.thy ===== *)
theory Bplus_Tree_Rep
  imports Bplus_Tree "HOL-Library.Multiset"
begin

text \<open>
  What the pages of a B+ tree mean: the tree they represent, its order and occupancy, paths into a tree, and
  the specification of the index as a sorted list of entries.
\<close>

section \<open>Trees\<close>

datatype 'k gtree = GLeaf PageNum "('k \<times> rid) list" | GNode PageNum "('k \<times> 'k gtree) list"

lemma gtree_size [termination_simp]: "x \<in> set cs \<Longrightarrow> size (snd x) < Suc (size_list (size_prod (\<lambda>_. 0) size) cs)"
proof (induction cs)
  case (Cons y cs)
  then show ?case by (cases y) auto
qed simp

lemma gtree_induct [case_names leaf node]:
  assumes "\<And>p es. P (GLeaf p es)" "\<And>p cs. (\<And>x. x \<in> set cs \<Longrightarrow> P (snd x)) \<Longrightarrow> P (GNode p cs)"
  shows "P g"
proof (induction g)
  case (GLeaf p es)
  then show ?case by (rule assms(1))
next
  case (GNode p cs)
  show ?case
  proof (rule assms(2))
    fix x assume "x \<in> set cs"
    then show "P (snd x)" using GNode[of x "snd x"] by (cases x rule: prod.exhaust) auto
  qed
qed

fun page_of :: "'k gtree \<Rightarrow> PageNum" where
  "page_of (GLeaf p es) = p"
| "page_of (GNode p cs) = p"

fun entries :: "'k gtree \<Rightarrow> ('k \<times> rid) list" where
  "entries (GLeaf p es) = es"
| "entries (GNode p cs) = concat (map (\<lambda>x. entries (snd x)) cs)"

fun leaf_pages :: "'k gtree \<Rightarrow> PageNum list" where
  "leaf_pages (GLeaf p es) = [p]"
| "leaf_pages (GNode p cs) = concat (map (\<lambda>x. leaf_pages (snd x)) cs)"

fun pages_of :: "'k gtree \<Rightarrow> PageNum list" where
  "pages_of (GLeaf p es) = [p]"
| "pages_of (GNode p cs) = p # concat (map (\<lambda>x. pages_of (snd x)) cs)"

definition items_of :: "('k \<times> 'k gtree) list \<Rightarrow> ('k \<times> PageNum) list" where
  "items_of cs = map (\<lambda>x. (fst x, page_of (snd x))) cs"

lemma items_of_simps [simp]:
  "items_of [] = []" "items_of (x # xs) = (fst x, page_of (snd x)) # items_of xs"
  "items_of (xs @ ys) = items_of xs @ items_of ys" "length (items_of xs) = length xs"
  "map fst (items_of xs) = map fst xs"
  "take i (items_of xs) = items_of (take i xs)" "drop i (items_of xs) = items_of (drop i xs)"
  "items_of xs = [] \<longleftrightarrow> xs = []"
  by (simp_all add: items_of_def take_map drop_map)

lemma items_of_nth [simp]: "i < length xs \<Longrightarrow> items_of xs ! i = (fst (xs ! i), page_of (snd (xs ! i)))"
  by (simp add: items_of_def)

lemma page_of_in_pages: "page_of g \<in> set (pages_of g)"
  by (cases g) auto

lemma leaf_pages_sub: "set (leaf_pages g) \<subseteq> set (pages_of g)"
  by (induction g rule: gtree_induct) auto

text \<open>The tree whose root is at the page of \<open>g\<close>, with parent page \<open>par\<close>.\<close>

fun rep :: "(PageNum \<rightharpoonup> 'k index_node) \<Rightarrow> PageNum \<Rightarrow> 'k gtree \<Rightarrow> bool" where
  "rep P par (GLeaf p es) \<longleftrightarrow> (\<exists>nx. P p = Some (Leaf_Node par nx es))"
| "rep P par (GNode p cs) \<longleftrightarrow> P p = Some (Internal_Node par (items_of cs)) \<and> (\<forall>x\<in>set cs. rep P p (snd x))"

lemma rep_cong: "(\<And>x. x \<in> set (pages_of g) \<Longrightarrow> P' x = P x) \<Longrightarrow> rep P' par g = rep P par g"
proof (induction g arbitrary: par rule: gtree_induct)
  case (node p cs)
  have "rep P' p (snd x) = rep P p (snd x)" if "x \<in> set cs" for x
    using node.IH[OF that] node.prems that by force
  moreover have "P' p = P p" using node.prems by simp
  ultimately show ?case by simp
qed simp

lemma rep_page: "rep P par g \<Longrightarrow> \<exists>n. P (page_of g) = Some n \<and> nd_parent n = par"
  by (cases g) auto

lemma rep_reparent:
  assumes "rep P par g" "P (page_of g) = Some n" "distinct (pages_of g)"
    and "P' (page_of g) = Some (with_parent par' n)" "\<And>x. x \<in> set (pages_of g) \<Longrightarrow> x \<noteq> page_of g \<Longrightarrow> P' x = P x"
  shows "rep P' par' g"
proof (cases g)
  case (GLeaf p es)
  then show ?thesis using assms by (auto simp: with_parent_def)
next
  case (GNode p cs)
  have n: "n = Internal_Node par (items_of cs)" using assms(1,2) GNode by simp
  have "rep P' p (snd x)" if "x \<in> set cs" for x
  proof -
    have "P' y = P y" if "y \<in> set (pages_of (snd x))" for y
      using assms(3,5) that \<open>x \<in> set cs\<close> GNode by fastforce
    then show ?thesis using rep_cong[of "snd x" P' P p] assms(1) GNode that by auto
  qed
  then show ?thesis using assms(4) n GNode by (simp add: with_parent_def)
qed

text \<open>The chain of leaves; \<open>z\<close> follows the last one.\<close>

fun linked :: "(PageNum \<rightharpoonup> 'k index_node) \<Rightarrow> PageNum list \<Rightarrow> PageNum \<Rightarrow> bool" where
  "linked P [] z = True"
| "linked P (p # ps) z \<longleftrightarrow> (\<exists>par es. P p = Some (Leaf_Node par (hd (ps @ [z])) es)) \<and> linked P ps z"

lemma linked_append: "linked P (xs @ ys) z \<longleftrightarrow> linked P xs (hd (ys @ [z])) \<and> linked P ys z"
  by (induction xs) (auto simp: hd_append)

text \<open>Two states of the pages agree on the links and entries of the leaves in \<open>S\<close>.\<close>

definition same_leaves :: "PageNum set \<Rightarrow> (PageNum \<rightharpoonup> 'k index_node) \<Rightarrow> (PageNum \<rightharpoonup> 'k index_node) \<Rightarrow> bool" where
  "same_leaves S P P' \<longleftrightarrow> (\<forall>x\<in>S. \<forall>par nx es. P x = Some (Leaf_Node par nx es) \<longrightarrow> (\<exists>par'. P' x = Some (Leaf_Node par' nx es)))"

lemma same_leaves_refl [simp]: "same_leaves S P P"
  by (auto simp: same_leaves_def)

lemma same_leaves_trans: "same_leaves S P Q \<Longrightarrow> same_leaves S Q R \<Longrightarrow> same_leaves S P R"
  unfolding same_leaves_def by meson

lemma same_leaves_mono: "same_leaves S P Q \<Longrightarrow> S' \<subseteq> S \<Longrightarrow> same_leaves S' P Q"
  by (auto simp: same_leaves_def)

lemma linked_same_leaves: "linked P ps z \<Longrightarrow> same_leaves S P P' \<Longrightarrow> set ps \<subseteq> S \<Longrightarrow> linked P' ps z"
  by (induction ps) (fastforce simp: same_leaves_def)+

section \<open>Paths\<close>

text \<open>
  A path is the list of the nodes above a position, the nearest first: page, items to the left, the key
  of the position itself, and items to the right.
\<close>

type_synonym 'k path_frame = "PageNum \<times> ('k \<times> 'k gtree) list \<times> 'k \<times> ('k \<times> 'k gtree) list"

fun plug :: "'k path_frame list \<Rightarrow> 'k gtree \<Rightarrow> 'k gtree" where
  "plug [] g = g"
| "plug ((p, ls, k, rs) # fs) g = plug fs (GNode p (ls @ (k, g) # rs))"

fun par_of :: "'k path_frame list \<Rightarrow> PageNum" where
  "par_of [] = BP_INVALID_PAGE_NUM"
| "par_of ((p, ls, k, rs) # fs) = p"

fun ctx_pages :: "'k path_frame list \<Rightarrow> PageNum list" where
  "ctx_pages [] = []"
| "ctx_pages ((p, ls, k, rs) # fs) = p # concat (map (\<lambda>x. pages_of (snd x)) (ls @ rs)) @ ctx_pages fs"

fun rep_ctx :: "(PageNum \<rightharpoonup> 'k index_node) \<Rightarrow> 'k path_frame list \<Rightarrow> PageNum \<Rightarrow> bool" where
  "rep_ctx P [] h = True"
| "rep_ctx P ((p, ls, k, rs) # fs) h \<longleftrightarrow>
     P p = Some (Internal_Node (par_of fs) (items_of ls @ (k, h) # items_of rs)) \<and>
     (\<forall>x\<in>set ls \<union> set rs. rep P p (snd x)) \<and> rep_ctx P fs p"

fun left_entries :: "'k path_frame list \<Rightarrow> ('k \<times> rid) list" where
  "left_entries [] = []"
| "left_entries ((p, ls, k, rs) # fs) = left_entries fs @ concat (map (\<lambda>x. entries (snd x)) ls)"

fun right_entries :: "'k path_frame list \<Rightarrow> ('k \<times> rid) list" where
  "right_entries [] = []"
| "right_entries ((p, ls, k, rs) # fs) = concat (map (\<lambda>x. entries (snd x)) rs) @ right_entries fs"

fun left_leaves :: "'k path_frame list \<Rightarrow> PageNum list" where
  "left_leaves [] = []"
| "left_leaves ((p, ls, k, rs) # fs) = left_leaves fs @ concat (map (\<lambda>x. leaf_pages (snd x)) ls)"

fun right_leaves :: "'k path_frame list \<Rightarrow> PageNum list" where
  "right_leaves [] = []"
| "right_leaves ((p, ls, k, rs) # fs) = concat (map (\<lambda>x. leaf_pages (snd x)) rs) @ right_leaves fs"

lemma plug_entries: "entries (plug fs g) = left_entries fs @ entries g @ right_entries fs"
  by (induction fs g rule: plug.induct) auto

lemma plug_leaf_pages: "leaf_pages (plug fs g) = left_leaves fs @ leaf_pages g @ right_leaves fs"
  by (induction fs g rule: plug.induct) auto

lemma plug_pages: "mset (pages_of (plug fs g)) = mset (pages_of g) + mset (ctx_pages fs)"
  by (induction fs g rule: plug.induct) (auto simp: ac_simps)

lemma plug_distinct: "distinct (pages_of (plug fs g)) \<longleftrightarrow> distinct (pages_of g @ ctx_pages fs)"
  by (rule mset_eq_imp_distinct_iff) (simp add: plug_pages)

lemma plug_set: "set (pages_of (plug fs g)) = set (pages_of g) \<union> set (ctx_pages fs)"
  by (metis plug_pages set_mset_mset set_mset_union)

lemma plug_rep: "rep P BP_INVALID_PAGE_NUM (plug fs g) \<longleftrightarrow> rep P (par_of fs) g \<and> rep_ctx P fs (page_of g)"
  by (induction fs g rule: plug.induct) auto

lemma plug_page: "fs \<noteq> [] \<Longrightarrow> page_of (plug fs g) = page_of (plug fs h)"
proof (induction fs g arbitrary: h rule: plug.induct)
  case (2 p ls k rs fs g)
  then show ?case by (cases "fs = []") simp_all
qed simp

lemma rep_ctx_cong:
  "(\<And>x. x \<in> set (ctx_pages fs) \<Longrightarrow> P' x = P x) \<Longrightarrow> rep_ctx P' fs h = rep_ctx P fs h"
proof (induction P fs h rule: rep_ctx.induct)
  case (2 P p ls k rs fs h)
  have "rep P' p (snd x) = rep P p (snd x)" if "x \<in> set ls \<union> set rs" for x
    by (rule rep_cong) (use 2(2) that in auto)
  moreover have "rep_ctx P' fs p = rep_ctx P fs p" by (rule 2(1)) (use 2(2) in simp)
  moreover have "P' p = P p" using 2(2) by simp
  ultimately show ?case by simp
qed simp

section \<open>Order\<close>

text \<open>The bounds of a subtree; the lower one is inclusive, the upper one exclusive.\<close>

definition lo_le :: "('k \<Rightarrow> 'k \<Rightarrow> int) \<Rightarrow> 'k option \<Rightarrow> 'k \<Rightarrow> bool" where
  "lo_le cmp lo k = (case lo of None \<Rightarrow> True | Some l \<Rightarrow> cmp l k \<le> 0)"

definition lo_lt :: "('k \<Rightarrow> 'k \<Rightarrow> int) \<Rightarrow> 'k option \<Rightarrow> 'k \<Rightarrow> bool" where
  "lo_lt cmp lo k = (case lo of None \<Rightarrow> True | Some l \<Rightarrow> cmp l k < 0)"

definition hi_gt :: "('k \<Rightarrow> 'k \<Rightarrow> int) \<Rightarrow> 'k \<Rightarrow> 'k option \<Rightarrow> bool" where
  "hi_gt cmp k hi = (case hi of None \<Rightarrow> True | Some h \<Rightarrow> cmp k h < 0)"

lemma bound_simps [simp]:
  "lo_le cmp None k" "lo_le cmp (Some l) k \<longleftrightarrow> cmp l k \<le> 0"
  "lo_lt cmp None k" "lo_lt cmp (Some l) k \<longleftrightarrow> cmp l k < 0"
  "hi_gt cmp k None" "hi_gt cmp k (Some h) \<longleftrightarrow> cmp k h < 0"
  by (simp_all add: lo_le_def lo_lt_def hi_gt_def)

text \<open>
  A tree of height \<open>n\<close> whose keys lie between the bounds.  The key of the first item of an internal node
  is the lower bound of the node, if it has one; on the left edge of the tree it is arbitrary.
\<close>

fun ord :: "('k \<Rightarrow> 'k \<Rightarrow> int) \<Rightarrow> nat \<Rightarrow> 'k option \<Rightarrow> 'k option \<Rightarrow> 'k gtree \<Rightarrow> bool"
  and ords :: "('k \<Rightarrow> 'k \<Rightarrow> int) \<Rightarrow> nat \<Rightarrow> 'k option \<Rightarrow> 'k option \<Rightarrow> ('k \<times> 'k gtree) list \<Rightarrow> bool" where
  "ord cmp n lo hi (GLeaf p es) \<longleftrightarrow> n = 0 \<and> increasing cmp (map fst es) \<and>
     (\<forall>e\<in>set es. lo_le cmp lo (fst e) \<and> hi_gt cmp (fst e) hi)"
| "ord cmp n lo hi (GNode p cs) \<longleftrightarrow> 0 < n \<and> ords cmp (n - 1) lo hi cs"
| "ords cmp n lo hi [] = False"
| "ords cmp n lo hi [(k, c)] \<longleftrightarrow> (\<forall>l. lo = Some l \<longrightarrow> k = l) \<and> ord cmp n lo hi c"
| "ords cmp n lo hi ((k, c) # (k', c') # cs) \<longleftrightarrow> (\<forall>l. lo = Some l \<longrightarrow> k = l) \<and> ord cmp n lo (Some k') c \<and>
     lo_lt cmp lo k' \<and> hi_gt cmp k' hi \<and> ords cmp n (Some k') hi ((k', c') # cs)"

text \<open>The bounds of a child between the items \<open>ls\<close> and \<open>rs\<close>, and what its siblings satisfy.\<close>

definition lo_of :: "'k option \<Rightarrow> ('k \<times> 'k gtree) list \<Rightarrow> 'k \<Rightarrow> 'k option" where
  "lo_of lo ls k = (if ls = [] then lo else Some k)"

definition hi_of :: "'k option \<Rightarrow> ('k \<times> 'k gtree) list \<Rightarrow> 'k option" where
  "hi_of hi rs = (if rs = [] then hi else Some (fst (hd rs)))"

definition frame_ok :: "('k \<Rightarrow> 'k \<Rightarrow> int) \<Rightarrow> nat \<Rightarrow> 'k option \<Rightarrow> 'k option \<Rightarrow>
    ('k \<times> 'k gtree) list \<Rightarrow> 'k \<Rightarrow> ('k \<times> 'k gtree) list \<Rightarrow> bool" where
  "frame_ok cmp n lo hi ls k rs \<longleftrightarrow>
     (if ls = [] then \<forall>l. lo = Some l \<longrightarrow> k = l
      else ords cmp n lo (Some k) ls \<and> lo_lt cmp lo k \<and> hi_gt cmp k hi) \<and>
     (rs \<noteq> [] \<longrightarrow> lo_lt cmp (lo_of lo ls k) (fst (hd rs)) \<and> hi_gt cmp (fst (hd rs)) hi \<and>
        ords cmp n (Some (fst (hd rs))) hi rs)"

text \<open>The path leads to a position for a tree of height \<open>n\<close> between the bounds.\<close>

fun ordc :: "('k \<Rightarrow> 'k \<Rightarrow> int) \<Rightarrow> nat \<Rightarrow> 'k option \<Rightarrow> 'k option \<Rightarrow> 'k path_frame list \<Rightarrow> bool" where
  "ordc cmp n lo hi [] \<longleftrightarrow> lo = None \<and> hi = None"
| "ordc cmp n lo hi ((p, ls, k, rs) # fs) \<longleftrightarrow>
     (\<exists>lo' hi'. lo = lo_of lo' ls k \<and> hi = hi_of hi' rs \<and> frame_ok cmp n lo' hi' ls k rs \<and> ordc cmp (Suc n) lo' hi' fs)"

section \<open>Occupancy\<close>

text \<open>
  A node that is not the root has at least half of the maximal number of items, rounded down; the root has
  an entry or two children.
\<close>

fun filled :: "nat \<Rightarrow> nat \<Rightarrow> 'k gtree \<Rightarrow> bool" where
  "filled lmax imax (GLeaf p es) \<longleftrightarrow> lmax div 2 \<le> length es \<and> length es \<le> lmax"
| "filled lmax imax (GNode p cs) \<longleftrightarrow> imax div 2 \<le> length cs \<and> length cs \<le> imax \<and> (\<forall>x\<in>set cs. filled lmax imax (snd x))"

fun root_filled :: "nat \<Rightarrow> nat \<Rightarrow> 'k gtree \<Rightarrow> bool" where
  "root_filled lmax imax (GLeaf p es) \<longleftrightarrow> 1 \<le> length es \<and> length es \<le> lmax"
| "root_filled lmax imax (GNode p cs) \<longleftrightarrow> 2 \<le> length cs \<and> length cs \<le> imax \<and> (\<forall>x\<in>set cs. filled lmax imax (snd x))"

text \<open>The same along a path; the size of the nearest node is a parameter, since an operation may change it.\<close>

fun fillc :: "nat \<Rightarrow> nat \<Rightarrow> 'k path_frame list \<Rightarrow> bool" where
  "fillc lmax imax [] = True"
| "fillc lmax imax ((p, ls, k, rs) # fs) \<longleftrightarrow>
     (if fs = [] then 2 else imax div 2) \<le> length ls + 1 + length rs \<and> length ls + 1 + length rs \<le> imax \<and>
     (\<forall>x\<in>set ls \<union> set rs. filled lmax imax (snd x)) \<and> fillc lmax imax fs"

lemma plug_filled:
  assumes "fillc lmax imax fs" "if fs = [] then root_filled lmax imax g else filled lmax imax g"
  shows "root_filled lmax imax (plug fs g)"
  using assms
proof (induction fs g rule: plug.induct)
  case (2 p ls k rs fs g)
  then show ?case by (cases "fs = []") auto
qed simp

lemma filled_plug:
  assumes "root_filled lmax imax (plug fs g)"
  shows "fillc lmax imax fs" "if fs = [] then root_filled lmax imax g else filled lmax imax g"
  using assms
proof (induction fs g rule: plug.induct)
  case (2 p ls k rs fs g)
  {
    case 1
    then show ?case using 2 by (cases "fs = []") auto
  next
    case 2
    then show ?case using "2.IH"(2) by (cases "fs = []") auto
  }
qed simp_all

end
