(* ===== verification/Bplus_Tree_Order.thy ===== *)
theory Bplus_Tree_Order
  imports Bplus_Tree_Rep
begin

text \<open>
  The order of a B+ tree: how the bounds of a child follow from the items of its parent, and that the search
  in a node finds the child for a key.
\<close>

context key_order
begin

lemma bound_trans:
  "lo_lt cmp lo j \<Longrightarrow> cmp j k \<le> 0 \<Longrightarrow> lo_lt cmp lo k" "lo_le cmp lo j \<Longrightarrow> cmp j k < 0 \<Longrightarrow> lo_lt cmp lo k"
  "cmp j k \<le> 0 \<Longrightarrow> hi_gt cmp k hi \<Longrightarrow> hi_gt cmp j hi" "lo_lt cmp lo j \<Longrightarrow> lo_le cmp lo j"
  "lo_le cmp lo j \<Longrightarrow> cmp j k \<le> 0 \<Longrightarrow> lo_le cmp lo k"
  by (cases lo; cases hi; auto intro: cmp_less_le_trans cmp_le_less_trans cmp_trans)+

lemma ords_append:
  assumes "xs \<noteq> []"
  shows "ords cmp n lo hi (xs @ (k, c) # ys) \<longleftrightarrow>
    ords cmp n lo (Some k) xs \<and> lo_lt cmp lo k \<and> hi_gt cmp k hi \<and> ords cmp n (Some k) hi ((k, c) # ys)"
  using assms
proof (induction xs arbitrary: lo)
  case (Cons x xs)
  obtain j d where x: "x = (j, d)" by (cases x)
  show ?case
  proof (cases xs)
    case Nil
    then show ?thesis by (auto simp: x)
  next
    case (Cons y zs)
    obtain j' d' where y: "y = (j', d')" by (cases y)
    have IH: "ords cmp n (Some j') hi (xs @ (k, c) # ys) \<longleftrightarrow>
        ords cmp n (Some j') (Some k) xs \<and> lo_lt cmp (Some j') k \<and> hi_gt cmp k hi \<and> ords cmp n (Some k) hi ((k, c) # ys)"
      using Cons.IH Cons by simp
    have "lo_lt cmp lo j' \<Longrightarrow> cmp j' k < 0 \<Longrightarrow> lo_lt cmp lo k" "cmp j' k < 0 \<Longrightarrow> hi_gt cmp k hi \<Longrightarrow> hi_gt cmp j' hi"
      by (cases lo; cases hi; auto intro: cmp_less_trans)+
    then show ?thesis using IH unfolding x Cons y by auto
  qed
qed simp

lemma ords_mid:
  "ords cmp n lo hi (ls @ (k, c) # rs) \<longleftrightarrow> frame_ok cmp n lo hi ls k rs \<and> ord cmp n (lo_of lo ls k) (hi_of hi rs) c"
proof (cases rs)
  case Nil
  then show ?thesis using ords_append[of ls n lo hi k c rs] by (cases "ls = []") (auto simp: frame_ok_def lo_of_def hi_of_def)
next
  case (Cons y ys)
  obtain k' c' where y: "y = (k', c')" by (cases y)
  show ?thesis
    using ords_append[of ls n lo hi k c rs]
    by (cases "ls = []") (auto simp: frame_ok_def lo_of_def hi_of_def Cons y)
qed

lemma ords_two:
  assumes "frame_ok cmp n lo hi ls k rs" "ord cmp n (lo_of lo ls k) (Some k') a" "ord cmp n (Some k') (hi_of hi rs) b"
    and "lo_lt cmp (lo_of lo ls k) k'" "hi_gt cmp k' (hi_of hi rs)"
  shows "ords cmp n lo hi (ls @ (k, a) # (k', b) # rs)"
proof -
  have hi: "hi_gt cmp k' hi"
    using assms(1,5) bound_trans(3)[of k' "fst (hd rs)" hi] by (cases "rs = []") (auto simp: frame_ok_def hi_of_def)
  have "ords cmp n (Some k') hi ((k', b) # rs)"
    using ords_mid[of n "Some k'" hi "[]" k' b rs] assms by (auto simp: frame_ok_def lo_of_def hi_of_def)
  then have "frame_ok cmp n lo hi ls k ((k', b) # rs)" using assms(1,4) hi by (auto simp: frame_ok_def)
  then show ?thesis using ords_mid[of n lo hi ls k a "(k', b) # rs"] assms(2) by (simp add: hi_of_def)
qed

lemma ord_plug:
  "ordc cmp n lo hi fs \<Longrightarrow> ord cmp n lo hi g \<Longrightarrow> ord cmp (n + length fs) None None (plug fs g)"
proof (induction fs arbitrary: n lo hi g)
  case (Cons f fs)
  obtain p ls k rs where f: "f = (p, ls, k, rs)" by (cases f)
  obtain lo' hi' where b: "lo = lo_of lo' ls k" "hi = hi_of hi' rs" "frame_ok cmp n lo' hi' ls k rs"
      "ordc cmp (Suc n) lo' hi' fs" using Cons.prems(1) f by auto
  have "ord cmp (Suc n) lo' hi' (GNode p (ls @ (k, g) # rs))"
    using ords_mid[of n lo' hi' ls k g rs] b Cons.prems(2) by simp
  then show ?case using Cons.IH[OF b(4)] f by simp
qed auto

lemma ordc_push:
  assumes "ordc cmp (Suc n) lo hi fs" "ord cmp (Suc n) lo hi (GNode p (ls @ (k, c) # rs))"
  shows "ordc cmp n (lo_of lo ls k) (hi_of hi rs) ((p, ls, k, rs) # fs)" "ord cmp n (lo_of lo ls k) (hi_of hi rs) c"
  using assms ords_mid[of n lo hi ls k c rs] by auto

end

text \<open>Sorted entries within bounds.\<close>

definition within :: "('k \<Rightarrow> 'k \<Rightarrow> int) \<Rightarrow> 'k option \<Rightarrow> 'k option \<Rightarrow> ('k \<times> rid) list \<Rightarrow> bool" where
  "within cmp lo hi es \<longleftrightarrow> increasing cmp (map fst es) \<and> (\<forall>e\<in>set es. lo_le cmp lo (fst e) \<and> hi_gt cmp (fst e) hi)"

context key_order
begin

lemma within_append:
  assumes "within cmp lo (Some k) xs" "within cmp (Some k) hi ys" "lo_lt cmp lo k" "hi_gt cmp k hi"
  shows "within cmp lo hi (xs @ ys)"
proof -
  have "cmp (fst x) (fst y) < 0" if "x \<in> set xs" "y \<in> set ys" for x y
    using assms(1,2) that cmp_less_le_trans[of "fst x" k "fst y"] by (auto simp: within_def)
  moreover have "hi_gt cmp (fst x) hi" if "x \<in> set xs" for x
    using assms(1,4) that bound_trans(3)[of "fst x" k hi] by (auto simp: within_def)
  moreover have "lo_le cmp lo (fst y)" if "y \<in> set ys" for y
    using assms(2,3) that bound_trans(1)[of lo k "fst y"] bound_trans(4)[of lo "fst y"] by (auto simp: within_def)
  ultimately show ?thesis using assms(1,2) by (auto simp: within_def)
qed

lemma ords_within:
  assumes "\<And>x n lo hi. x \<in> set cs \<Longrightarrow> ord cmp n lo hi (snd x) \<Longrightarrow> within cmp lo hi (entries (snd x))"
    and "ords cmp n lo hi cs"
  shows "within cmp lo hi (concat (map (\<lambda>x. entries (snd x)) cs))"
  using assms
proof (induction cs arbitrary: lo)
  case (Cons x cs)
  obtain k c where x: "x = (k, c)" by (cases x)
  show ?case
  proof (cases cs)
    case Nil
    then show ?thesis using Cons.prems(1)[of x n lo hi] Cons.prems(2) x by simp
  next
    case c: (Cons y ys)
    obtain k' c' where y: "y = (k', c')" by (cases y)
    have o: "ord cmp n lo (Some k') (snd x)" "lo_lt cmp lo k'" "hi_gt cmp k' hi" "ords cmp n (Some k') hi cs"
      using Cons.prems(2) x c y by auto
    have "within cmp (Some k') hi (concat (map (\<lambda>x. entries (snd x)) cs))"
      using Cons.IH[OF Cons.prems(1) o(4)] by simp
    then show ?thesis using within_append[OF Cons.prems(1)[OF _ o(1)] _ o(2,3)] by simp
  qed
qed simp

lemma ord_within: "ord cmp n lo hi g \<Longrightarrow> within cmp lo hi (entries g)"
proof (induction g arbitrary: n lo hi rule: gtree_induct)
  case (node p cs)
  then show ?case using ords_within[of cs "n - 1" lo hi] by simp
qed (simp add: within_def)

lemma ords_entries: "ords cmp n lo hi cs \<Longrightarrow> within cmp lo hi (concat (map (\<lambda>x. entries (snd x)) cs))"
  using ords_within ord_within by blast

text \<open>Everything to the left of a path lies below its position, everything to the right above it.\<close>

lemma ordc_entries:
  "ordc cmp n lo hi fs \<Longrightarrow> (\<forall>e\<in>set (left_entries fs). \<exists>l. lo = Some l \<and> cmp (fst e) l < 0) \<and>
     (\<forall>e\<in>set (right_entries fs). \<exists>h. hi = Some h \<and> cmp h (fst e) \<le> 0)"
proof (induction fs arbitrary: n lo hi)
  case (Cons f fs)
  obtain p ls k rs where f: "f = (p, ls, k, rs)" by (cases f)
  obtain lo' hi' where b: "lo = lo_of lo' ls k" "hi = hi_of hi' rs" "frame_ok cmp n lo' hi' ls k rs"
      "ordc cmp (Suc n) lo' hi' fs" using Cons.prems f by auto
  note IH = Cons.IH[OF b(4)]
  have L1: "\<exists>l. lo = Some l \<and> cmp (fst e) l < 0" if "e \<in> set (left_entries fs)" for e
  proof -
    from bspec[OF conjunct1[OF IH] that] obtain l where l: "lo' = Some l" "cmp (fst e) l < 0" by (elim exE conjE)
    then show ?thesis
      using b(1,3) cmp_less_trans[of "fst e" l k] by (cases "ls = []") (auto simp: lo_of_def frame_ok_def)
  qed
  have L2: "\<exists>l. lo = Some l \<and> cmp (fst e) l < 0" if "e \<in> set (concat (map (\<lambda>x. entries (snd x)) ls))" for e
  proof -
    have "ls \<noteq> []" using that by auto
    then have "ords cmp n lo' (Some k) ls" using b(3) by (simp add: frame_ok_def)
    then have "hi_gt cmp (fst e) (Some k)" using ords_entries that unfolding within_def by blast
    then show ?thesis using b(1) \<open>ls \<noteq> []\<close> by (simp add: lo_of_def)
  qed
  have R1: "\<exists>h. hi = Some h \<and> cmp h (fst e) \<le> 0" if "e \<in> set (right_entries fs)" for e
  proof -
    from bspec[OF conjunct2[OF IH] that] obtain h where h: "hi' = Some h" "cmp h (fst e) \<le> 0" by (elim exE conjE)
    then show ?thesis
      using b(2,3) cmp_less_le_trans[of "fst (hd rs)" h "fst e"] by (cases "rs = []") (auto simp: hi_of_def frame_ok_def)
  qed
  have R2: "\<exists>h. hi = Some h \<and> cmp h (fst e) \<le> 0" if "e \<in> set (concat (map (\<lambda>x. entries (snd x)) rs))" for e
  proof -
    have "rs \<noteq> []" using that by auto
    then have "ords cmp n (Some (fst (hd rs))) hi' rs" using b(3) by (simp add: frame_ok_def)
    then have "lo_le cmp (Some (fst (hd rs))) (fst e)" using ords_entries that unfolding within_def by blast
    then show ?thesis using b(2) \<open>rs \<noteq> []\<close> by (simp add: hi_of_def)
  qed
  show ?case unfolding f left_entries.simps right_entries.simps set_append ball_Un
    by (intro conjI ballI; rule L1 L2 R1 R2; assumption)
qed simp

section \<open>Searching in a node\<close>

lemma lower_bound_pos:
  assumes "increasing cmp (xs @ ys)" "\<forall>x\<in>set xs. cmp x key < 0" "\<forall>y\<in>set ys. 0 \<le> cmp y key"
  shows "fst (lower_bound cmp (xs @ ys) key) = length xs"
    "snd (lower_bound cmp (xs @ ys) key) \<longleftrightarrow> ys \<noteq> [] \<and> cmp (hd ys) key = 0"
proof -
  obtain i found where r: "lower_bound cmp (xs @ ys) key = (i, found)" by (cases "lower_bound cmp (xs @ ys) key")
  have s: "splits_at cmp (xs @ ys) key (i, found)" using lower_bound_splits[OF assms(1), of key] r by simp
  have below: "\<And>x. x \<in> set (take i (xs @ ys)) \<Longrightarrow> cmp x key < 0"
    and above: "\<And>x. x \<in> set (drop i (xs @ ys)) \<Longrightarrow> 0 \<le> cmp x key" and le: "i \<le> length (xs @ ys)"
    using s by (simp_all add: splits_at_def)
  have i: "i = length xs"
  proof (rule ccontr)
    assume "i \<noteq> length xs"
    then consider "i < length xs" | "length xs < i" by linarith
    then show False
    proof cases
      case 1
      then have "xs ! i \<in> set (drop i (xs @ ys))" by (simp add: Cons_nth_drop_Suc[symmetric])
      from above[OF this] assms(2) nth_mem[OF 1] show False by fastforce
    next
      case 2
      then have ne: "ys \<noteq> []" using le by auto
      have "take i (xs @ ys) ! length xs \<in> set (take i (xs @ ys))" using 2 le by (intro nth_mem) simp
      moreover have "take i (xs @ ys) ! length xs = hd ys" using ne 2 by (simp add: nth_append hd_conv_nth)
      ultimately have "cmp (hd ys) key < 0" using below by metis
      then show False using assms(3) ne by (metis hd_in_set not_le)
    qed
  qed
  show "fst (lower_bound cmp (xs @ ys) key) = length xs" using r i by simp
  show "snd (lower_bound cmp (xs @ ys) key) \<longleftrightarrow> ys \<noteq> [] \<and> cmp (hd ys) key = 0"
    using s r i by (auto simp: splits_at_def nth_append hd_conv_nth)
qed

text \<open>The separators of a node.\<close>

lemma ords_keys:
  "ords cmp n lo hi cs \<Longrightarrow> increasing cmp (map fst (tl cs)) \<and> (\<forall>x\<in>set (tl cs). lo_lt cmp lo (fst x) \<and> hi_gt cmp (fst x) hi)"
proof (induction cs arbitrary: lo)
  case (Cons x cs)
  obtain k c where x: "x = (k, c)" by (cases x)
  show ?case
  proof (cases cs)
    case c: (Cons y ys)
    obtain k' c' where y: "y = (k', c')" by (cases y)
    have o: "lo_lt cmp lo k'" "hi_gt cmp k' hi" "ords cmp n (Some k') hi cs"
      using Cons.prems x c y by auto
    note IH = Cons.IH[OF o(3)]
    then have "\<forall>z\<in>set ys. cmp k' (fst z) < 0" using c by simp
    moreover have "\<forall>z\<in>set ys. lo_lt cmp lo (fst z)" using calculation bound_trans(1)[OF o(1)] by force
    ultimately show ?thesis using IH o c y by simp
  qed simp
qed simp

lemma frame_keys:
  assumes "frame_ok cmp n lo hi ls k rs"
  shows "increasing cmp (map fst (tl (ls @ (k, h) # rs)))"
    "\<forall>x\<in>set (tl ls). cmp (fst x) k < 0"
    "\<forall>x\<in>set (tl rs). cmp (fst (hd rs)) (fst x) < 0"
    "rs \<noteq> [] \<Longrightarrow> ls \<noteq> [] \<Longrightarrow> cmp k (fst (hd rs)) < 0"
    "increasing cmp (map fst (tl ls))" "increasing cmp (map fst rs)"
proof -
  have l: "increasing cmp (map fst (tl ls)) \<and> (\<forall>x\<in>set (tl ls). cmp (fst x) k < 0)"
    using assms ords_keys[of n lo "Some k" ls] by (cases "ls = []") (auto simp: frame_ok_def)
  have r: "increasing cmp (map fst (tl rs)) \<and> (\<forall>x\<in>set (tl rs). cmp (fst (hd rs)) (fst x) < 0)"
    using assms ords_keys[of n "Some (fst (hd rs))" hi rs] by (cases "rs = []") (auto simp: frame_ok_def)
  have m: "cmp k (fst (hd rs)) < 0" if "rs \<noteq> []" "ls \<noteq> []"
    using assms that by (simp add: frame_ok_def lo_of_def)
  have rr: "increasing cmp (map fst rs)" using r by (cases rs) auto
  have "cmp k (fst x) < 0" if "x \<in> set rs" "ls \<noteq> []" for x
    using that m r cmp_less_trans[of k "fst (hd rs)" "fst x"] by (cases rs) auto
  moreover have "cmp (fst y) (fst x) < 0" if "x \<in> set rs" "y \<in> set (tl ls)" for x y
    using that l calculation[of x] cmp_less_trans[of "fst y" k "fst x"] by (cases "ls = []") auto
  ultimately show "increasing cmp (map fst (tl (ls @ (k, h) # rs)))"
    using l rr by (cases ls) auto
  show "\<forall>x\<in>set (tl ls). cmp (fst x) k < 0" "\<forall>x\<in>set (tl rs). cmp (fst (hd rs)) (fst x) < 0"
    "increasing cmp (map fst (tl ls))" "increasing cmp (map fst rs)" using l r rr by auto
  show "rs \<noteq> [] \<Longrightarrow> ls \<noteq> [] \<Longrightarrow> cmp k (fst (hd rs)) < 0" by (rule m)
qed

text \<open>The search for a key in the bounds of a child leads to that child.\<close>

lemma lookup_hole:
  assumes "frame_ok cmp n lo hi ls k rs" "lo_le cmp (lo_of lo ls k) key" "hi_gt cmp key (hi_of hi rs)"
  shows "fst (internal_lookup cmp (items_of ls @ (k, h) # items_of rs) key) = length ls"
proof -
  note F = frame_keys[OF assms(1)]
  have right: "cmp key (fst x) < 0" if "x \<in> set rs" for x
    using that assms(3) F(3) cmp_less_trans[of key "fst (hd rs)" "fst x"] by (cases rs) (auto simp: hi_of_def)
  then have right': "0 \<le> cmp (fst x) key" if "x \<in> set rs" for x
    using cmp_swap[of key "fst x"] that by fastforce
  let ?cs = "items_of ls @ (k, h) # items_of rs"
  show ?thesis
  proof (cases ls)
    case Nil
    have "fst (lower_bound cmp (map fst rs) key) = 0"
      using lower_bound_pos(1)[of "[]" "map fst rs" key] F(6) right' by simp
    then show ?thesis
      using Nil right by (cases rs) (auto simp: internal_lookup_def Let_def)
  next
    case (Cons y ys)
    have inc: "increasing cmp (map fst ys @ k # map fst rs)" using F(1) Cons by simp
    have left: "\<forall>x\<in>set (map fst ys). cmp x k < 0" using F(2) Cons by simp
    have tl: "map fst (tl ?cs) = map fst ys @ k # map fst rs" using Cons by simp
    have ge: "cmp k key \<le> 0" using assms(2) Cons by (simp add: lo_of_def)
    show ?thesis
    proof (cases "cmp k key = 0")
      case True
      have "fst (lower_bound cmp (map fst ys @ (k # map fst rs)) key) = length (map fst ys)"
        by (rule lower_bound_pos(1)) (use inc left right' True cmp_less_le_trans[of _ k key] in auto)
      moreover have "\<not> cmp key k < 0" using True cmp_eq_sym[of k key] by simp
      ultimately show ?thesis
        using Cons tl by (simp add: internal_lookup_def Let_def nth_append)
    next
      case False
      then have "cmp k key < 0" using ge by simp
      then have "fst (lower_bound cmp ((map fst ys @ [k]) @ map fst rs) key) = length (map fst ys @ [k])"
        by (intro lower_bound_pos(1)) (use inc left right' cmp_less_trans[of _ k key] in auto)
      then show ?thesis
        using Cons tl right by (cases rs) (auto simp: internal_lookup_def Let_def nth_append)
    qed
  qed
qed

lemma child_for_key:
  assumes "ords cmp n lo hi cs" "lo_le cmp lo key" "hi_gt cmp key hi"
  shows "\<exists>ls k c rs. cs = ls @ (k, c) # rs \<and> lo_le cmp (lo_of lo ls k) key \<and> hi_gt cmp key (hi_of hi rs)"
  using assms
proof (induction cs arbitrary: lo)
  case (Cons x cs)
  obtain k c where x: "x = (k, c)" by (cases x)
  show ?case
  proof (cases cs)
    case Nil
    then show ?thesis using Cons.prems x by (intro exI[of _ "[]"]) (auto simp: lo_of_def hi_of_def)
  next
    case c: (Cons y ys)
    obtain k' c' where y: "y = (k', c')" by (cases y)
    show ?thesis
    proof (cases "cmp key k' < 0")
      case True
      then show ?thesis using Cons.prems x c y by (intro exI[of _ "[]"]) (auto simp: lo_of_def hi_of_def)
    next
      case False
      then have "lo_le cmp (Some k') key" using cmp_le_iff[of k' key] by simp
      moreover have "ords cmp n (Some k') hi cs" using Cons.prems(1) x c y by simp
      ultimately obtain ls j d rs where r: "cs = ls @ (j, d) # rs" "lo_le cmp (lo_of (Some k') ls j) key"
          "hi_gt cmp key (hi_of hi rs)" using Cons.IH Cons.prems(3) by blast
      have "lo_of (Some k') ls j = Some j" using r(1) c y by (cases ls) (auto simp: lo_of_def)
      then show ?thesis using r by (intro exI[of _ "x # ls"]) (auto simp: lo_of_def)
    qed
  qed
qed simp

text \<open>The position at which a new separator between the bounds of a child is entered.\<close>

lemma insert_position_hole:
  assumes "frame_ok cmp n lo hi ls k rs" "lo_lt cmp (lo_of lo ls k) key" "hi_gt cmp key (hi_of hi rs)"
  shows "snd (internal_lookup cmp (items_of ls @ (k, h) # items_of rs) key) = Suc (length ls)"
proof -
  note F = frame_keys[OF assms(1)]
  have right: "0 \<le> cmp (fst x) key" if "x \<in> set rs" for x
    using that assms(3) F(3) cmp_less_trans[of key "fst (hd rs)" "fst x"] cmp_swap[of key "fst x"]
    by (cases rs) (auto simp: hi_of_def)
  let ?cs = "items_of ls @ (k, h) # items_of rs"
  show ?thesis
  proof (cases ls)
    case Nil
    have "fst (lower_bound cmp (map fst rs) key) = 0"
      using lower_bound_pos(1)[of "[]" "map fst rs" key] F(6) right by simp
    then show ?thesis using Nil by (simp add: internal_lookup_def Let_def)
  next
    case (Cons y ys)
    have inc: "increasing cmp (map fst ys @ k # map fst rs)" using F(1) Cons by simp
    have left: "\<forall>x\<in>set (map fst ys). cmp x k < 0" using F(2) Cons by simp
    have "cmp k key < 0" using assms(2) Cons by (simp add: lo_of_def)
    then have "fst (lower_bound cmp ((map fst ys @ [k]) @ map fst rs) key) = length (map fst ys @ [k])"
      by (intro lower_bound_pos(1)) (use inc left right cmp_less_trans[of _ k key] in auto)
    then show ?thesis using Cons by (simp add: internal_lookup_def Let_def)
  qed
qed

end

end
