(* ===== verification/Bplus_Tree_Find.thy ===== *)
theory Bplus_Tree_Find
  imports Bplus_Tree_Order
begin

text \<open>
  The invariant of the B+ tree on its pages, what the primitive steps do to the pages, and the descent to
  the leaf for a key.
\<close>

section \<open>Steps on the pages\<close>

lemma with_parent_simps [simp]:
  "with_parent par (Leaf_Node par' nx es) = Leaf_Node par nx es"
  "with_parent par (Internal_Node par' cs) = Internal_Node par cs"
  "with_parent par (with_parent par' n) = with_parent par n" "nd_parent (with_parent par n) = par"
  by (cases n; simp add: with_parent_def)+

lemma node_at_simps [simp]:
  "bt_pages t p = Some (Leaf_Node par nx es) \<Longrightarrow> leaf_at t p = Some (par, nx, es)"
  "bt_pages t p = Some (Internal_Node par cs) \<Longrightarrow> internal_at t p = Some (par, cs)"
  by (simp_all add: leaf_at_def internal_at_def)

lemma set_parent_page_num_eq:
  "bt_pages t p = Some n \<Longrightarrow> set_parent_page_num p par t = Some (t\<lparr>bt_pages := (bt_pages t)(p \<mapsto> with_parent par n)\<rparr>)"
  by (simp add: set_parent_page_num_def put_node_def)

definition reparent :: "PageNum \<Rightarrow> PageNum set \<Rightarrow> (PageNum \<rightharpoonup> 'k index_node) \<Rightarrow> (PageNum \<rightharpoonup> 'k index_node)" where
  "reparent par S P = (\<lambda>x. if x \<in> S then map_option (with_parent par) (P x) else P x)"

lemma reparent_simps [simp]:
  "x \<notin> S \<Longrightarrow> reparent par S P x = P x" "x \<in> S \<Longrightarrow> reparent par S P x = map_option (with_parent par) (P x)"
  by (simp_all add: reparent_def)

lemma set_parents_eq:
  "\<forall>c\<in>set cs. bt_pages t c \<noteq> None \<Longrightarrow>
   set_parents par cs t = (SUCCESS, t\<lparr>bt_pages := reparent par (set cs) (bt_pages t)\<rparr>)"
proof (induction cs arbitrary: t)
  case Nil
  then show ?case by (simp add: reparent_def)
next
  case (Cons c cs)
  obtain n where n: "bt_pages t c = Some n" using Cons.prems by auto
  have "reparent par (set cs) ((bt_pages t)(c \<mapsto> with_parent par n)) = reparent par (set (c # cs)) (bt_pages t)"
    using n by (auto simp: reparent_def fun_eq_iff)
  moreover have "\<forall>x\<in>set cs. ((bt_pages t)(c \<mapsto> with_parent par n)) x \<noteq> None" using Cons.prems by simp
  ultimately show ?case using Cons.IH[of "t\<lparr>bt_pages := (bt_pages t)(c \<mapsto> with_parent par n)\<rparr>"] n
    by (simp add: put_node_def del: fun_upd_apply)
qed

lemma rep_reparent_in:
  assumes "rep P par g" "distinct (pages_of g)" "page_of g \<in> S" "S \<inter> set (pages_of g) \<subseteq> {page_of g}"
  shows "rep (reparent par' S P) par' g"
proof -
  obtain n where n: "P (page_of g) = Some n" using rep_page[OF assms(1)] by blast
  show ?thesis by (rule rep_reparent[OF assms(1) n assms(2)]) (use assms n in \<open>auto simp: reparent_def\<close>)
qed

section \<open>Invariant\<close>

definition FIRST_INDEX_PAGE :: PageNum where
  "FIRST_INDEX_PAGE = 1"

text \<open>
  The pages that nodes may occupy: allocated, but not the two header pages and not about to be freed.
\<close>

definition node_area :: "'k bplus_tree \<Rightarrow> PageNum set" where
  "node_area t = live_pages (fh (bt_hdr t)) - {0, FIRST_INDEX_PAGE} - set (disposed_pages t)"

definition index_ok :: "'k bplus_tree \<Rightarrow> bool" where
  "index_ok t \<longleftrightarrow> key_order (key_comparator t) \<and> hdr_ok (fh (bt_hdr t)) \<and> FIRST_INDEX_PAGE \<in> live_pages (fh (bt_hdr t)) \<and>
     4 \<le> leaf_max_size t \<and> leaf_max_size t \<le> leaf_cap t \<and>
     6 \<le> internal_max_size t \<and> internal_max_size t \<le> internal_cap t \<and> disposed_pages t = []"

definition tree_ok :: "'k bplus_tree \<Rightarrow> nat \<Rightarrow> 'k gtree \<Rightarrow> bool" where
  "tree_ok t m g \<longleftrightarrow> root_page t = page_of g \<and> rep (bt_pages t) BP_INVALID_PAGE_NUM g \<and>
     ord (key_comparator t) m None None g \<and> root_filled (leaf_max_size t) (internal_max_size t) g \<and>
     distinct (pages_of g) \<and> set (pages_of g) = node_area t \<and>
     linked (bt_pages t) (leaf_pages g) BP_INVALID_PAGE_NUM"

text \<open>
  The index has the entries \<open>es\<close>, in a tree with \<open>m\<close> levels above the leaves; every page of the file is a
  header page or a node of the tree.
\<close>

definition index_holds :: "'k bplus_tree \<Rightarrow> nat \<Rightarrow> ('k \<times> rid) list \<Rightarrow> bool" where
  "index_holds t m es \<longleftrightarrow> index_ok t \<and>
     (if is_empty t then es = [] \<and> node_area t = {} else \<exists>g. tree_ok t m g \<and> entries g = es)"

lemma node_area_pos: "p \<in> node_area t \<Longrightarrow> 0 < p"
  by (auto simp: node_area_def live_pages_def)

lemma tree_ok_not_empty:
  assumes "tree_ok t m g"
  shows "\<not> is_empty t" "0 < page_of g"
proof -
  have "page_of g \<in> node_area t" using assms page_of_in_pages[of g] by (auto simp: tree_ok_def)
  then show "0 < page_of g" by (rule node_area_pos)
  then show "\<not> is_empty t" using assms by (simp add: tree_ok_def is_empty_def)
qed

section \<open>Descending to a leaf\<close>

context key_order
begin

lemma find_leaf_loop_path:
  assumes "rep (bt_pages t) (par_of fs) g" "ordc cmp n lo hi fs" "ord cmp n lo hi g" "lo_le cmp lo key" "hi_gt cmp key hi"
  shows "\<exists>fs' p es lo' hi'. plug fs' (GLeaf p es) = plug fs g \<and> length fs' = length fs + n \<and>
    ordc cmp 0 lo' hi' fs' \<and> ord cmp 0 lo' hi' (GLeaf p es) \<and> lo_le cmp lo' key \<and> hi_gt cmp key hi' \<and>
    find_leaf_loop (\<lambda>cs. value_at cs (fst (internal_lookup cmp cs key))) t (page_of g) = Some (SUCCESS, Some p)"
  using assms
proof (induction g arbitrary: fs n lo hi rule: gtree_induct)
  case (leaf p es)
  then have "n = 0" by simp
  then show ?case using leaf by (intro exI[of _ fs] exI[of _ p] exI[of _ es] exI[of _ lo] exI[of _ hi]) (auto simp: find_leaf_loop.simps)
next
  case (node p cs)
  obtain m where m: "n = Suc m" "ords cmp m lo hi cs" using node.prems(3) by (cases n) auto
  obtain ls k c rs where c: "cs = ls @ (k, c) # rs" "lo_le cmp (lo_of lo ls k) key" "hi_gt cmp key (hi_of hi rs)"
    using child_for_key[OF m(2) node.prems(4,5)] by blast
  have f: "frame_ok cmp m lo hi ls k rs" using m(2) ords_mid c(1) by blast
  have o: "ordc cmp m (lo_of lo ls k) (hi_of hi rs) ((p, ls, k, rs) # fs)" "ord cmp m (lo_of lo ls k) (hi_of hi rs) c"
    using ordc_push[of m lo hi fs p ls k c rs] node.prems(2,3) m(1) c(1) by simp_all
  have r: "rep (bt_pages t) (par_of ((p, ls, k, rs) # fs)) (snd (k, c))" using node.prems(1) c(1) by simp
  have "(k, c) \<in> set cs" using c(1) by simp
  from node.IH[OF this r o(1) _ c(2,3)] o(2) obtain fs' q es lo' hi' where
    q: "plug fs' (GLeaf q es) = plug fs (GNode p cs)" "length fs' = length fs + n" "ordc cmp 0 lo' hi' fs'"
      "ord cmp 0 lo' hi' (GLeaf q es)" "lo_le cmp lo' key" "hi_gt cmp key hi'"
      "find_leaf_loop (\<lambda>cs. value_at cs (fst (internal_lookup cmp cs key))) t (page_of c) = Some (SUCCESS, Some q)"
    using c(1) m(1) by auto
  have "value_at (items_of cs) (fst (internal_lookup cmp (items_of cs) key)) = Some (page_of c)"
    using lookup_hole[OF f c(2,3), of "page_of c"] c(1) by (simp add: value_at_def nth_append)
  then have "find_leaf_loop (\<lambda>cs. value_at cs (fst (internal_lookup cmp cs key))) t (page_of (GNode p cs)) = Some (SUCCESS, Some q)"
    using node.prems(1) q(7) by (simp add: find_leaf_loop.simps[of _ _ p])
  then show ?case using q by blast
qed

end

text \<open>The descent ends at a leaf, and the key lies between the bounds of that leaf.\<close>

lemma find_leaf_path:
  assumes "index_ok t" "tree_ok t m g"
  obtains fs p es lo hi where "find_leaf t key = Some (SUCCESS, Some p)" "g = plug fs (GLeaf p es)" "length fs = m"
    "ordc (key_comparator t) 0 lo hi fs" "ord (key_comparator t) 0 lo hi (GLeaf p es)"
    "lo_le (key_comparator t) lo key" "hi_gt (key_comparator t) key hi"
proof -
  have K: "key_order (key_comparator t)" using assms(1) by (simp add: index_ok_def)
  have "rep (bt_pages t) (par_of []) g" "ordc (key_comparator t) m None None []" "ord (key_comparator t) m None None g"
    using assms(2) by (simp_all add: tree_ok_def)
  from key_order.find_leaf_loop_path[OF K this, of key] obtain fs p es lo hi where
    "plug fs (GLeaf p es) = plug [] g \<and> length fs = length ([] :: 'a path_frame list) + m \<and>
    ordc (key_comparator t) 0 lo hi fs \<and> ord (key_comparator t) 0 lo hi (GLeaf p es) \<and>
    lo_le (key_comparator t) lo key \<and> hi_gt (key_comparator t) key hi \<and>
    find_leaf_loop (\<lambda>cs. value_at cs (fst (internal_lookup (key_comparator t) cs key))) t (page_of g) = Some (SUCCESS, Some p)"
    by auto
  then show thesis
    using that[of p fs es lo hi] tree_ok_not_empty[OF assms(2)] assms(2)
    by (simp add: find_leaf_def find_leaf_internal_def tree_ok_def)
qed

section \<open>A concrete index\<close>

text \<open>An integer index with one leaf, at page 2, that has the keys 3 and 5.\<close>

definition demo_index :: "int bplus_tree" where
  "demo_index = \<lparr>key_comparator = compare_int, key_zero = 0, attr_length = 4, internal_max_size = 6, leaf_max_size = 4,
     root_page = 2, bt_hdr = demo_header\<lparr>fh := push_page (push_page (fh demo_header))\<rparr>,
     bt_pages = [2 \<mapsto> Leaf_Node BP_INVALID_PAGE_NUM BP_INVALID_PAGE_NUM
       [(3, \<lparr>page_num = 1, slot_num = 0\<rparr>), (5, \<lparr>page_num = 1, slot_num = 1\<rparr>)]], disposed_pages = []\<rparr>"

lemma demo_index_header:
  "hdr_ok (fh (bt_hdr demo_index))" "live_pages (fh (bt_hdr demo_index)) = {0, 1, 2}"
  "allocated_pages (fh (bt_hdr demo_index)) = 3"
proof -
  let ?h = "push_page (fh demo_header)"
  have a: "hdr_ok ?h" "live_pages ?h = {0, 1}" "page_count ?h = 2"
    using push_page_ok(1-3)[OF demo_header_ok(1)] demo_header_ok(3,4) by (auto simp: layout_simps)
  have b: "hdr_ok (push_page ?h)" "live_pages (push_page ?h) = {0, 1, 2}"
    using push_page_ok(1,2)[OF a(1)] a(2,3) by (auto simp: layout_simps)
  show "hdr_ok (fh (bt_hdr demo_index))" "live_pages (fh (bt_hdr demo_index)) = {0, 1, 2}"
    "allocated_pages (fh (bt_hdr demo_index)) = 3"
    using b by (simp_all add: demo_index_def) (simp add: push_page_def Let_def demo_header_def create_file_header_def)
qed

lemma demo_index_holds:
  "index_holds demo_index 0 [(3, \<lparr>page_num = 1, slot_num = 0\<rparr>), (5, \<lparr>page_num = 1, slot_num = 1\<rparr>)]"
proof -
  let ?es = "[(3, \<lparr>page_num = 1, slot_num = 0\<rparr>), (5, \<lparr>page_num = 1, slot_num = 1\<rparr>)]"
  have "leaf_cap demo_index = 408" "internal_cap demo_index = 510"
    by (simp_all add: leaf_cap_def internal_cap_def demo_index_def calc_leaf_page_capacity_def
        calc_internal_page_capacity_def layout_simps)
  moreover have "key_comparator demo_index = compare_int" "leaf_max_size demo_index = 4" "internal_max_size demo_index = 6"
    "root_page demo_index = 2" "disposed_pages demo_index = []"
    "bt_pages demo_index = [2 \<mapsto> Leaf_Node BP_INVALID_PAGE_NUM BP_INVALID_PAGE_NUM ?es]"
    by (simp_all add: demo_index_def)
  moreover have "increasing compare_int [3, 5]" by (simp add: increasing_def compare_int_def)
  ultimately have "tree_ok demo_index 0 (GLeaf 2 ?es)" "index_ok demo_index" "\<not> is_empty demo_index"
    using demo_index_header key_order_compare_int
    by (auto simp: tree_ok_def index_ok_def is_empty_def node_area_def FIRST_INDEX_PAGE_def)
  then show ?thesis unfolding index_holds_def by (metis entries.simps(1))
qed

end
