(* ===== verification/Bplus_Tree_Split.thy ===== *)
theory Bplus_Tree_Split
  imports Bplus_Tree_Find
begin

text \<open>
  Splitting the nodes of a B+ tree: a new right half is entered in the parent, which is split in turn when
  it is full, up to a new root.
\<close>

section \<open>Steps on the pages\<close>

lemma split_internal_eq:
  assumes "header_allocate (bt_hdr t) = Some (SUCCESS, Some q, h)" "bt_pages t p = Some (Internal_Node par cs)"
    and "q \<noteq> p" "p \<notin> snd ` set cs" "q \<notin> snd ` set cs" "\<forall>c\<in>set cs. bt_pages t (snd c) \<noteq> None" "length cs \<le> internal_cap t"
  shows "split_internal p t = Some (SUCCESS, Some q, t\<lparr>bt_hdr := h, bt_pages :=
    (reparent q (snd ` set (drop (length cs div 2) cs)) (bt_pages t))
      (p \<mapsto> Internal_Node par (take (length cs div 2) cs), q \<mapsto> Internal_Node par (drop (length cs div 2) cs))\<rparr>)"
proof -
  let ?m = "length cs div 2"
  let ?P = "(bt_pages t)(q \<mapsto> Internal_Node par (drop ?m cs))"
  have D: "set (drop ?m cs) \<subseteq> set cs" by (rule set_drop_subset)
  have cap: "internal_cap (t\<lparr>bt_hdr := h, bt_pages := P\<rparr>) = internal_cap t" for P by (simp add: internal_cap_def)
  have sp: "set_parents q (map snd (drop ?m cs)) (t\<lparr>bt_hdr := h, bt_pages := ?P\<rparr>) =
      (SUCCESS, t\<lparr>bt_hdr := h, bt_pages := reparent q (snd ` set (drop ?m cs)) ?P\<rparr>)"
    by (subst set_parents_eq) (use assms(6) D in auto)
  have pP: "reparent q (snd ` set (drop ?m cs)) ?P p = Some (Internal_Node par cs)"
    using assms(2,3,4) D by (auto simp: reparent_def)
  have "(reparent q (snd ` set (drop ?m cs)) ?P)(p \<mapsto> Internal_Node par (take ?m cs)) =
      (reparent q (snd ` set (drop ?m cs)) (bt_pages t))
        (p \<mapsto> Internal_Node par (take ?m cs), q \<mapsto> Internal_Node par (drop ?m cs))"
    using assms(3,4,5) D by (auto simp: reparent_def fun_eq_iff)
  then show ?thesis
    using assms(1,2,3,7) sp pP
    by (simp add: split_internal_def allocate_node_def internal_init_empty_def set_parent_page_num_def put_node_def
        internal_move_half_to_def internal_append_def internal_insert_items_def internal_insert_at_def
        recover_insert_items_def internal_remove_items_def recover_remove_items_def cap Let_def)
qed

lemma internal_insert_eq:
  assumes "bt_pages t p = Some (Internal_Node par cs)" "snd (internal_lookup (key_comparator t) cs key) = i"
    and "i \<le> length cs" "length cs < internal_cap t"
  shows "internal_insert p key q t =
    Some (t\<lparr>bt_pages := (bt_pages t)(p \<mapsto> Internal_Node par (take i cs @ (key, q) # drop i cs))\<rparr>)"
  using assms by (simp add: internal_insert_def internal_insert_at_def recover_insert_items_def put_node_def)

section \<open>Entering a new node in the parent\<close>

text \<open>
  The situation between a split and the update of the parent: the tree with path \<open>fs\<close> has at its position
  the left half, while the right half, which starts at \<open>key\<close>, has no parent yet.
\<close>

definition split_at :: "'k bplus_tree \<Rightarrow> 'k path_frame list \<Rightarrow> nat \<Rightarrow> 'k option \<Rightarrow> 'k option \<Rightarrow> 'k gtree \<Rightarrow> 'k \<Rightarrow> 'k gtree \<Rightarrow> bool" where
  "split_at t fs n lo hi gl key gr \<longleftrightarrow>
     root_page t = page_of (plug fs gl) \<and>
     rep (bt_pages t) (par_of fs) gl \<and> (\<exists>x. rep (bt_pages t) x gr) \<and> rep_ctx (bt_pages t) fs (page_of gl) \<and>
     ordc (key_comparator t) n lo hi fs \<and> ord (key_comparator t) n lo (Some key) gl \<and> ord (key_comparator t) n (Some key) hi gr \<and>
     lo_lt (key_comparator t) lo key \<and> hi_gt (key_comparator t) key hi \<and>
     filled (leaf_max_size t) (internal_max_size t) gl \<and> filled (leaf_max_size t) (internal_max_size t) gr \<and>
     fillc (leaf_max_size t) (internal_max_size t) fs \<and>
     distinct (pages_of gl @ pages_of gr @ ctx_pages fs) \<and> set (pages_of gl @ pages_of gr @ ctx_pages fs) = node_area t \<and>
     linked (bt_pages t) (left_leaves fs @ leaf_pages gl @ leaf_pages gr @ right_leaves fs) BP_INVALID_PAGE_NUM"

lemma split_atD:
  assumes "split_at t fs n lo hi gl key gr"
  shows "root_page t = page_of (plug fs gl)" "rep (bt_pages t) (par_of fs) gl" "\<exists>x. rep (bt_pages t) x gr"
    "rep_ctx (bt_pages t) fs (page_of gl)" "ordc (key_comparator t) n lo hi fs"
    "ord (key_comparator t) n lo (Some key) gl" "ord (key_comparator t) n (Some key) hi gr"
    "lo_lt (key_comparator t) lo key" "hi_gt (key_comparator t) key hi"
    "filled (leaf_max_size t) (internal_max_size t) gl" "filled (leaf_max_size t) (internal_max_size t) gr"
    "fillc (leaf_max_size t) (internal_max_size t) fs" "distinct (pages_of gl @ pages_of gr @ ctx_pages fs)"
    "set (pages_of gl @ pages_of gr @ ctx_pages fs) \<subseteq> node_area t"
    "linked (bt_pages t) (left_leaves fs @ leaf_pages gl @ leaf_pages gr @ right_leaves fs) BP_INVALID_PAGE_NUM"
    "set (pages_of gl @ pages_of gr @ ctx_pages fs) = node_area t"
  using assms by (auto simp: split_at_def)

lemma allocate_node_ok:
  assumes "index_ok t" "allocated_pages (fh (bt_hdr t)) < 8 * FH_BITMAP_BYTES"
  obtains p h where "header_allocate (bt_hdr t) = Some (SUCCESS, Some p, h)"
    "allocate_node t = Some (SUCCESS, Some p, t\<lparr>bt_hdr := h\<rparr>)" "0 < p"
    "p \<notin> node_area t" "\<forall>f. node_area (t\<lparr>bt_hdr := h, bt_pages := f\<rparr>) = insert p (node_area t)"
    "\<forall>f. index_ok (t\<lparr>bt_hdr := h, bt_pages := f\<rparr>)"
    "allocated_pages (fh h) = allocated_pages (fh (bt_hdr t)) + 1"
proof -
  have ok: "hdr_ok (fh (bt_hdr t))" using assms(1) by (simp add: index_ok_def)
  obtain p h where a: "header_allocate (bt_hdr t) = Some (SUCCESS, Some p, h)" "0 < p" "p \<notin> live_pages (fh (bt_hdr t))"
    "live_pages (fh h) = insert p (live_pages (fh (bt_hdr t)))" "hdr_ok (fh h)"
    "allocated_pages (fh h) = allocated_pages (fh (bt_hdr t)) + 1"
    by (rule header_allocate_live[OF ok assms(2)])
  have one: "FIRST_INDEX_PAGE \<in> live_pages (fh (bt_hdr t))" using assms(1) by (simp add: index_ok_def)
  have "node_area (t\<lparr>bt_hdr := h, bt_pages := f\<rparr>) = insert p (node_area t)" for f
    using a(2,3,4) one assms(1) by (auto simp: node_area_def index_ok_def)
  moreover have "index_ok (t\<lparr>bt_hdr := h, bt_pages := f\<rparr>)" for f
    using assms(1) a(4,5) by (simp add: index_ok_def leaf_cap_def internal_cap_def)
  ultimately show thesis
    using that[of p h] a by (simp add: allocate_node_def node_area_def)
qed

lemma leaf_pages_rep: "rep P par g \<Longrightarrow> x \<in> set (leaf_pages g) \<Longrightarrow> \<exists>par nx es. P x = Some (Leaf_Node par nx es)"
proof (induction g arbitrary: par rule: gtree_induct)
  case (node p cs)
  then show ?case by auto
qed auto

text \<open>Changing only parents keeps the chain of leaves.\<close>

lemma linked_with_parent:
  assumes "linked P ps z"
    and "\<And>x par nx es. x \<in> set ps \<Longrightarrow> P x = Some (Leaf_Node par nx es) \<Longrightarrow> \<exists>par'. Q x = Some (Leaf_Node par' nx es)"
  shows "linked Q ps z"
  by (rule linked_same_leaves[OF assms(1), of "set ps"]) (use assms(2) in \<open>auto simp: same_leaves_def\<close>)

lemma ctx_leaves_sub: "set (left_leaves fs) \<subseteq> set (ctx_pages fs)" "set (right_leaves fs) \<subseteq> set (ctx_pages fs)"
  by (induction fs rule: left_leaves.induct) (use leaf_pages_sub in \<open>fastforce+\<close>)

definition pages_of_list :: "('k \<times> 'k gtree) list \<Rightarrow> PageNum set" where
  "pages_of_list cs = (\<Union>x\<in>set cs. set (pages_of (snd x)))"

lemma reps_cong:
  assumes "\<forall>x\<in>set cs. rep P p (snd x)" "\<And>y. y \<in> pages_of_list cs \<Longrightarrow> Q y = P y"
  shows "\<forall>x\<in>set cs. rep Q p (snd x)"
proof
  fix x assume x: "x \<in> set cs"
  have "rep Q p (snd x) = rep P p (snd x)" by (rule rep_cong) (use assms(2) x in \<open>auto simp: pages_of_list_def\<close>)
  then show "rep Q p (snd x)" using assms(1) x by simp
qed

lemma grow_root_ok:
  assumes "index_ok t" "split_at t [] n lo hi gl key gr" "allocated_pages (fh (bt_hdr t)) < 8 * FH_BITMAP_BYTES"
  shows "\<exists>t' g. grow_root (page_of gl) (page_of gr) key t = Some (SUCCESS, t') \<and> index_ok t' \<and> tree_ok t' (Suc n) g \<and>
    key_comparator t' = key_comparator t \<and> entries g = entries gl @ entries gr"
proof -
  note S = split_atD[OF assms(2)]
  obtain r h where a: "header_allocate (bt_hdr t) = Some (SUCCESS, Some r, h)"
    "allocate_node t = Some (SUCCESS, Some r, t\<lparr>bt_hdr := h\<rparr>)" "0 < r"
    "r \<notin> node_area t" "\<forall>f. node_area (t\<lparr>bt_hdr := h, bt_pages := f\<rparr>) = insert r (node_area t)"
    "\<forall>f. index_ok (t\<lparr>bt_hdr := h, bt_pages := f\<rparr>)"
    "allocated_pages (fh h) = allocated_pages (fh (bt_hdr t)) + 1"
    by (rule allocate_node_ok[OF assms(1,3)])
  let ?p = "page_of gl" and ?q = "page_of gr"
  obtain np nq where n: "bt_pages t ?p = Some np" "bt_pages t ?q = Some nq" using S(2,3) rep_page by blast
  have d: "?p \<noteq> ?q" "r \<noteq> ?p" "r \<noteq> ?q" "r \<notin> set (pages_of gl)" "r \<notin> set (pages_of gr)"
    "?p \<notin> set (pages_of gr)" "?q \<notin> set (pages_of gl)"
    using S(13,14) a(4) page_of_in_pages[of gl] page_of_in_pages[of gr] by auto
  let ?Q = "(bt_pages t)(r \<mapsto> Internal_Node BP_INVALID_PAGE_NUM [(key_zero t, ?p), (key, ?q)],
      ?p \<mapsto> with_parent r np, ?q \<mapsto> with_parent r nq)"
  let ?t = "t\<lparr>bt_hdr := h, bt_pages := ?Q, root_page := r\<rparr>"
  let ?g = "GNode r [(key_zero t, gl), (key, gr)]"
  have cap: "\<not> internal_cap (t\<lparr>bt_hdr := h, bt_pages := f\<rparr>) < 2" for f
    using assms(1) by (simp add: index_ok_def internal_cap_def)
  have run: "grow_root ?p ?q key t = Some (SUCCESS, ?t)"
    using a(2) d n cap
    by (simp add: grow_root_def create_new_root_def internal_init_empty_def put_node_def set_parent_page_num_eq
        update_root_page_num_locked_def)
  obtain x where x: "rep (bt_pages t) x gr" using S(3) by blast
  have gl: "rep (bt_pages t) BP_INVALID_PAGE_NUM gl" using S by simp
  have "rep ?Q r gl" by (rule rep_reparent[OF gl n(1)]) (use S(13) d in auto)
  moreover have "rep ?Q r gr" by (rule rep_reparent[OF x n(2)]) (use S(13) d in auto)
  moreover have "linked ?Q (leaf_pages gl @ leaf_pages gr) BP_INVALID_PAGE_NUM"
    by (rule linked_with_parent[of "bt_pages t"]) (use S(14,15) n a(4) leaf_pages_sub[of gl] leaf_pages_sub[of gr] in auto)
  moreover have "node_area ?t = insert r (node_area t)" using a(5) by (simp add: node_area_def)
  ultimately have "tree_ok ?t (Suc n) ?g"
    using S d assms(1) by (auto simp: tree_ok_def index_ok_def)
  moreover have "index_ok ?t" using a(6) by (simp add: index_ok_def leaf_cap_def internal_cap_def)
  ultimately show ?thesis using run by (intro exI[of _ ?t] exI[of _ ?g]) simp
qed

text \<open>What the parts of a split at a position below a parent satisfy.\<close>

lemma split_at_parent:
  assumes "split_at t ((pp, ls, k, rs) # fs) n lo hi gl key gr"
  obtains x np nq where
    "bt_pages t pp = Some (Internal_Node (par_of fs) (items_of ls @ (k, page_of gl) # items_of rs))"
    "rep (bt_pages t) pp gl" "rep (bt_pages t) x gr" "rep_ctx (bt_pages t) fs pp" "bt_pages t (page_of gl) = Some np"
    "nd_parent np = pp" "bt_pages t (page_of gr) = Some nq" "\<forall>x\<in>set ls. rep (bt_pages t) pp (snd x)"
    "\<forall>x\<in>set rs. rep (bt_pages t) pp (snd x)" "pp \<noteq> page_of gr" "pp \<noteq> page_of gl" "page_of gr \<notin> set (pages_of gl)"
    "pp \<notin> set (pages_of gl) \<union> set (pages_of gr) \<union> set (ctx_pages fs) \<union> pages_of_list ls \<union> pages_of_list rs"
    "page_of gr \<notin> set (ctx_pages fs) \<union> pages_of_list ls \<union> pages_of_list rs" "pp \<noteq> BP_INVALID_PAGE_NUM"
proof -
  note S = split_atD[OF assms]
  obtain x where x: "rep (bt_pages t) x gr" using S(3) by blast
  obtain np where np: "bt_pages t (page_of gl) = Some np" "nd_parent np = pp" using S(2) rep_page[of "bt_pages t" pp gl] by auto
  obtain nq where nq: "bt_pages t (page_of gr) = Some nq" using x rep_page by blast
  have "page_of gl \<in> set (pages_of gl)" "page_of gr \<in> set (pages_of gr)" by (simp_all add: page_of_in_pages)
  moreover have "0 < pp" by (rule node_area_pos[of pp t]) (use S(14) in simp)
  ultimately show thesis using S(2,4,13) by (intro that[OF _ _ x _ np nq]) (auto simp: pages_of_list_def)
qed

lemma hd_pages: "hd (pages_of g) = page_of g"
  by (cases g) auto

text \<open>Children that move to another parent.\<close>

lemma reps_moved:
  assumes "\<forall>x\<in>set cs. rep P p (snd x)" "distinct (concat (map (\<lambda>x. pages_of (snd x)) cs))"
    and "\<And>y. y \<in> pages_of_list cs \<Longrightarrow> Q y = reparent r (snd ` set (items_of cs)) P y"
  shows "\<forall>x\<in>set cs. rep Q r (snd x)"
proof
  fix x assume x: "x \<in> set cs"
  let ?S = "snd ` set (items_of cs)"
  note D = assms(2)[unfolded distinct_concat_iff]
  have "page_of (snd y) = page_of (snd x)" if "y \<in> set cs" "page_of (snd y) \<in> set (pages_of (snd x))" for y
  proof -
    have "set (pages_of (snd y)) \<inter> set (pages_of (snd x)) \<noteq> {}" using that page_of_in_pages by blast
    then have "pages_of (snd y) = pages_of (snd x)" using D x that(1) by auto
    then show ?thesis by (metis hd_pages)
  qed
  then have "?S \<inter> set (pages_of (snd x)) \<subseteq> {page_of (snd x)}" by (auto simp: items_of_def)
  moreover have "page_of (snd x) \<in> ?S" using x by (auto simp: items_of_def image_iff)
  moreover have "distinct (pages_of (snd x))" using D x by auto
  ultimately have "rep (reparent r ?S P) r (snd x)" using assms(1) x by (intro rep_reparent_in[of P p]) simp_all
  moreover have "rep Q r (snd x) = rep (reparent r ?S P) r (snd x)"
    by (rule rep_cong) (use assms(3) x in \<open>auto simp: pages_of_list_def\<close>)
  ultimately show "rep Q r (snd x)" by simp
qed

lemma pages_of_list_simps [simp]:
  "pages_of_list [] = {}" "pages_of_list (x # xs) = set (pages_of (snd x)) \<union> pages_of_list xs"
  "pages_of_list (xs @ ys) = pages_of_list xs \<union> pages_of_list ys"
  by (auto simp: pages_of_list_def)

lemma set_concat_pages [simp]: "(\<Union>x\<in>set cs. set (pages_of (snd x))) = pages_of_list cs"
  by (simp add: pages_of_list_def)

lemma items_in_pages: "snd ` set (items_of cs) \<subseteq> pages_of_list cs"
  by (induction cs) (auto simp: page_of_in_pages)

lemma reparent_out: "y \<notin> pages_of_list B \<Longrightarrow> reparent r (snd ` set (items_of B)) P y = P y"
  by (rule reparent_simps(1)) (use items_in_pages[of B] in blast)

context key_order
begin

lemma parent_room:
  assumes "index_ok t" "key_comparator t = cmp" "split_at t ((pp, ls, k, rs) # fs) n lo hi gl key gr"
    and "length ls + 1 + length rs < internal_max_size t"
  shows "\<exists>t' g. insert_entry_into_parent (page_of gl) (page_of gr) key t = Some (SUCCESS, t') \<and> index_ok t' \<and>
    key_comparator t' = cmp \<and> tree_ok t' (Suc n + length fs) g \<and>
    entries g = left_entries ((pp, ls, k, rs) # fs) @ entries gl @ entries gr @ right_entries ((pp, ls, k, rs) # fs)"
proof -
  note S = split_atD[OF assms(3)]
  obtain x np nq where P:
    "bt_pages t pp = Some (Internal_Node (par_of fs) (items_of ls @ (k, page_of gl) # items_of rs))"
    "rep (bt_pages t) pp gl" "rep (bt_pages t) x gr" "rep_ctx (bt_pages t) fs pp" "bt_pages t (page_of gl) = Some np"
    "nd_parent np = pp" "bt_pages t (page_of gr) = Some nq" "\<forall>x\<in>set ls. rep (bt_pages t) pp (snd x)"
    "\<forall>x\<in>set rs. rep (bt_pages t) pp (snd x)" "pp \<noteq> page_of gr" "pp \<noteq> page_of gl" "page_of gr \<notin> set (pages_of gl)"
    "pp \<notin> set (pages_of gl) \<union> set (pages_of gr) \<union> set (ctx_pages fs) \<union> pages_of_list ls \<union> pages_of_list rs"
    "page_of gr \<notin> set (ctx_pages fs) \<union> pages_of_list ls \<union> pages_of_list rs" "pp \<noteq> BP_INVALID_PAGE_NUM"
    by (rule split_at_parent[OF assms(3)])
  let ?p = "page_of gl" and ?q = "page_of gr"
  obtain lo' hi' where O: "lo = lo_of lo' ls k" "hi = hi_of hi' rs" "frame_ok cmp n lo' hi' ls k rs"
      "ordc cmp (Suc n) lo' hi' fs" using S(5) assms(2) by auto
  have pos: "snd (internal_lookup cmp (items_of ls @ (k, ?p) # items_of rs) key) = Suc (length ls)"
    by (rule insert_position_hole[OF O(3)]) (use S(8,9) O assms(2) in auto)
  let ?Q = "(bt_pages t)(pp \<mapsto> Internal_Node (par_of fs) (items_of ls @ (k, ?p) # (key, ?q) # items_of rs), ?q \<mapsto> with_parent pp nq)"
  let ?t = "t\<lparr>bt_pages := ?Q\<rparr>" and ?n = "GNode pp (ls @ (k, gl) # (key, gr) # rs)"
  have "length ls + 1 + length rs < internal_cap t" using assms(1,4) by (simp add: index_ok_def)
  then have run: "insert_entry_into_parent ?p ?q key t = Some (SUCCESS, ?t)"
    using P assms(2,4) pos
    by (simp add: insert_entry_into_parent.simps[of ?p] node_size_def internal_insert_eq set_parent_page_num_eq)
  have "rep ?Q pp gl" using P(2,12,13) by (subst rep_cong[of gl ?Q "bt_pages t"]) auto
  moreover have "rep ?Q pp gr" by (rule rep_reparent[OF P(3,7)]) (use S(13) P(13) in auto)
  moreover have "\<forall>x\<in>set ls. rep ?Q pp (snd x)" by (rule reps_cong[OF P(8)]) (use P(13,14) in auto)
  moreover have "\<forall>x\<in>set rs. rep ?Q pp (snd x)" by (rule reps_cong[OF P(9)]) (use P(13,14) in auto)
  moreover have "rep_ctx ?Q fs pp" using P(4,13,14) by (subst rep_ctx_cong[of fs ?Q "bt_pages t"]) auto
  ultimately have "rep ?Q BP_INVALID_PAGE_NUM (plug fs ?n)" using P(10) by (auto simp: plug_rep)
  moreover have "linked ?Q (leaf_pages (plug fs ?n)) BP_INVALID_PAGE_NUM"
    by (rule linked_with_parent[of "bt_pages t"]) (use S(15) P(1,7) in \<open>auto simp: plug_leaf_pages\<close>)
  moreover have "ord cmp (Suc n) lo' hi' ?n"
    using ords_two[OF O(3), of key gl gr] S(6-9) O assms(2) by simp
  then have "ord cmp (Suc n + length fs) None None (plug fs ?n)" by (rule ord_plug[OF O(4)])
  moreover have "root_filled (leaf_max_size t) (internal_max_size t) (plug fs ?n)"
    by (rule plug_filled) (use S(10-12) assms(4) in auto)
  moreover have "distinct (pages_of (plug fs ?n))" using S(13) by (auto simp: plug_distinct)
  moreover have "set (pages_of (plug fs ?n)) = node_area t" unfolding S(16)[symmetric] by (auto simp: plug_set)
  moreover have "node_area ?t = node_area t" by (simp add: node_area_def)
  moreover have "root_page t = page_of (plug fs ?n)"
    using S(1) plug_page[of fs "GNode pp (ls @ (k, gl) # rs)" ?n] by (cases fs) auto
  ultimately have "tree_ok ?t (Suc n + length fs) (plug fs ?n)" using assms(2) by (simp add: tree_ok_def)
  moreover have "index_ok ?t" using assms(1) by (simp add: index_ok_def leaf_cap_def internal_cap_def)
  ultimately show ?thesis
    using run assms(2) by (intro exI[of _ ?t] exI[of _ "plug fs ?n"]) (simp add: plug_entries)
qed

lemma insert_position:
  assumes "increasing cmp (map fst (tl (ls @ (k, h) # rs)))" "ls \<noteq> [] \<Longrightarrow> cmp k key < 0" "\<forall>x\<in>set rs. cmp key (fst x) < 0"
  shows "snd (internal_lookup cmp (items_of ls @ (k, page_of h) # items_of rs) key) = Suc (length ls)"
proof -
  have right: "0 \<le> cmp (fst x) key" if "x \<in> set rs" for x
    using assms(3) that cmp_swap[of key "fst x"] by fastforce
  show ?thesis
  proof (cases ls)
    case Nil
    then have "fst (lower_bound cmp (map fst rs) key) = 0"
      using lower_bound_pos(1)[of "[]" "map fst rs" key] assms(1) right by simp
    then show ?thesis using Nil by (simp add: internal_lookup_def Let_def)
  next
    case (Cons y ys)
    have inc: "increasing cmp (map fst ys @ k # map fst rs)" using assms(1) Cons by simp
    have "cmp k key < 0" using assms(2) Cons by simp
    then have "fst (lower_bound cmp ((map fst ys @ [k]) @ map fst rs) key) = length (map fst ys @ [k])"
      by (intro lower_bound_pos(1)) (use inc right cmp_less_trans[of _ k key] in auto)
    then show ?thesis using Cons by (simp add: internal_lookup_def Let_def)
  qed
qed

lemma parent_split_state:
  assumes "split_at t ((pp, ls, k, rs) # fs) n lo hi gl key gr" "key_comparator t = cmp" "r \<notin> node_area t"
    and AB: "A @ B = ls @ (k, gl) # rs" "length A = internal_max_size t div 2" "length (A @ B) = internal_max_size t"
    and LR: "L @ R = ls @ (k, gl) # (key, gr) # rs" "L \<noteq> []" "R \<noteq> []" "2 \<le> internal_max_size t"
    and T: "(target = pp \<and> set L = insert (key, gr) (set A) \<and> length L = Suc (length A) \<and> R = B) \<or>
      (target = r \<and> L = A \<and> set R = insert (key, gr) (set B) \<and> length R = Suc (length B))"
    and nq: "bt_pages t (page_of gr) = Some nq"
    and t3: "bt_pages t3 = (reparent r (snd ` set (items_of B)) (bt_pages t))
        (pp \<mapsto> Internal_Node (par_of fs) (items_of L), r \<mapsto> Internal_Node (par_of fs) (items_of R), page_of gr \<mapsto> with_parent target nq)"
      "node_area t3 = insert r (node_area t)" "root_page t3 = root_page t" "key_comparator t3 = cmp"
      "leaf_max_size t3 = leaf_max_size t" "internal_max_size t3 = internal_max_size t"
  shows "\<exists>lo' hi'. split_at t3 fs (Suc n) lo' hi' (GNode pp L) (fst (hd R)) (GNode r R)"
proof -
  note S = split_atD[OF assms(1)]
  obtain x np nq' where P:
    "bt_pages t pp = Some (Internal_Node (par_of fs) (items_of ls @ (k, page_of gl) # items_of rs))"
    "rep (bt_pages t) pp gl" "rep (bt_pages t) x gr" "rep_ctx (bt_pages t) fs pp" "bt_pages t (page_of gl) = Some np"
    "nd_parent np = pp" "bt_pages t (page_of gr) = Some nq'" "\<forall>x\<in>set ls. rep (bt_pages t) pp (snd x)"
    "\<forall>x\<in>set rs. rep (bt_pages t) pp (snd x)" "pp \<noteq> page_of gr" "pp \<noteq> page_of gl" "page_of gr \<notin> set (pages_of gl)"
    "pp \<notin> set (pages_of gl) \<union> set (pages_of gr) \<union> set (ctx_pages fs) \<union> pages_of_list ls \<union> pages_of_list rs"
    "page_of gr \<notin> set (ctx_pages fs) \<union> pages_of_list ls \<union> pages_of_list rs" "pp \<noteq> BP_INVALID_PAGE_NUM"
    by (rule split_at_parent[OF assms(1)])
  have dAB: "distinct (concat (map (\<lambda>x. pages_of (snd x)) (A @ B)) @ pages_of gr @ ctx_pages fs)"
    unfolding AB(1) using S(13) by auto
  have pAB: "pages_of_list A \<union> pages_of_list B = pages_of_list ls \<union> set (pages_of gl) \<union> pages_of_list rs"
    using arg_cong[OF AB(1), of pages_of_list] by auto
  have pLR: "pages_of_list L \<union> pages_of_list R = pages_of_list ls \<union> set (pages_of gl) \<union> set (pages_of gr) \<union> pages_of_list rs"
    using arg_cong[OF LR(1), of pages_of_list] by auto
  have area: "pages_of_list A \<union> pages_of_list B \<union> set (pages_of gr) \<union> set (ctx_pages fs) \<union> {pp} \<subseteq> node_area t"
    unfolding pAB using S(14) by auto
  have dis: "pages_of_list A \<inter> pages_of_list B = {}" "set (pages_of gr) \<inter> (pages_of_list A \<union> pages_of_list B) = {}"
    "set (ctx_pages fs) \<inter> (pages_of_list A \<union> pages_of_list B \<union> set (pages_of gr)) = {}"
    using dAB by auto
  let ?P = "bt_pages t" and ?Q = "bt_pages t3"
  have rne: "r \<noteq> pp" "r \<noteq> page_of gr" using area assms(3) page_of_in_pages[of gr] by auto
  have ppB: "pp \<notin> pages_of_list A \<union> pages_of_list B" unfolding pAB using P(13) by auto
  have grB: "page_of gr \<notin> pages_of_list A \<union> pages_of_list B" unfolding pAB using P(12,14) by auto
  have "\<forall>x\<in>set (A @ B). rep ?P pp (snd x)" unfolding AB(1) using P(2,8,9) by (simp add: ball_Un)
  then have reps: "\<forall>x\<in>set A. rep ?P pp (snd x)" "\<forall>x\<in>set B. rep ?P pp (snd x)" by simp_all
  have rA: "\<forall>x\<in>set A. rep ?Q pp (snd x)"
  proof (rule reps_cong[OF reps(1)])
    fix y assume y: "y \<in> pages_of_list A"
    then have "y \<notin> pages_of_list B" using dis(1) by auto
    then show "?Q y = ?P y" using y t3(1) ppB grB area assms(3) by (auto simp: reparent_out)
  qed
  have rB: "\<forall>x\<in>set B. rep ?Q r (snd x)"
    by (rule reps_moved[OF reps(2)]) (use dAB t3(1) ppB grB area assms(3) in auto)
  have rg: "rep ?Q target gr"
  proof (rule rep_reparent[OF P(3) nq])
    fix y assume y: "y \<in> set (pages_of gr)" "y \<noteq> page_of gr"
    then have "y \<notin> pages_of_list B" using dis(2) by auto
    then show "?Q y = ?P y" using y t3(1) P(13) area assms(3) by (auto simp: reparent_out)
  qed (use S(13) t3(1) in auto)
  have rL: "rep ?Q (par_of fs) (GNode pp L)" and rR: "rep ?Q (par_of fs) (GNode r R)"
    using T rA rB rg t3(1) rne P(10) by auto
  have "?Q y = ?P y" if y: "y \<in> set (ctx_pages fs)" for y
  proof -
    have "y \<notin> pages_of_list B" using dis(3) y by auto
    then show ?thesis using y t3(1) P(13,14) area assms(3) by (auto simp: reparent_out)
  qed
  then have ctx: "rep_ctx ?Q fs pp" using P(4) rep_ctx_cong[of fs ?Q ?P pp] by simp
  obtain lo' hi' where O: "lo = lo_of lo' ls k" "hi = hi_of hi' rs" "frame_ok cmp n lo' hi' ls k rs"
      "ordc cmp (Suc n) lo' hi' fs" using S(5) assms(2) by auto
  obtain k1 c R' where R: "R = (k1, c) # R'" using LR(3) by (cases R) auto
  have "ords cmp n lo' hi' (L @ (k1, c) # R')"
    using ords_two[OF O(3), of key gl gr] S(6-9) O assms(2) LR(1) R by simp
  then have ord: "ords cmp n lo' (Some k1) L" "lo_lt cmp lo' k1" "hi_gt cmp k1 hi'" "ords cmp n (Some k1) hi' R"
    using ords_append[OF LR(2), of n lo' hi' k1 c R'] R by auto
  have fillN: "\<forall>x\<in>set (L @ R). filled (leaf_max_size t) (internal_max_size t) (snd x)"
    unfolding LR(1) using S(10-12) by (auto simp: ball_Un)
  have len: "internal_max_size t div 2 \<le> length L" "length L \<le> internal_max_size t"
    "internal_max_size t div 2 \<le> length R" "length R \<le> internal_max_size t"
    using T AB(2,3) LR(4) by auto
  have link: "linked ?Q (left_leaves fs @ leaf_pages (GNode pp L) @ leaf_pages (GNode r R) @ right_leaves fs) BP_INVALID_PAGE_NUM"
  proof -
    let ?ps = "left_leaves ((pp, ls, k, rs) # fs) @ leaf_pages gl @ leaf_pages gr @ right_leaves ((pp, ls, k, rs) # fs)"
    have eq: "left_leaves fs @ leaf_pages (GNode pp L) @ leaf_pages (GNode r R) @ right_leaves fs = ?ps"
      using arg_cong[OF LR(1), of "\<lambda>xs. concat (map (\<lambda>x. leaf_pages (snd x)) xs)"] by simp
    have "set ?ps \<subseteq> node_area t"
      using S(14) ctx_leaves_sub[of "(pp, ls, k, rs) # fs"] leaf_pages_sub[of gl] leaf_pages_sub[of gr]
      unfolding set_append by blast
    then have "r \<notin> set ?ps" using assms(3) by blast
    moreover have "\<exists>par'. ?Q y = Some (Leaf_Node par' nx es)" if "y \<noteq> r" "?P y = Some (Leaf_Node par nx es)" for y par nx es
      using that P(1) nq t3(1) by (cases "y = page_of gr") (auto simp: reparent_def)
    ultimately have "linked ?Q ?ps BP_INVALID_PAGE_NUM" by (intro linked_with_parent[OF S(15)]) metis
    then show ?thesis by (simp only: eq)
  qed
  have dist: "distinct (pages_of (GNode pp L) @ pages_of (GNode r R) @ ctx_pages fs)"
  proof -
    have "distinct (concat (map (\<lambda>x. pages_of (snd x)) (L @ R)) @ ctx_pages fs)" unfolding LR(1) using S(13) by auto
    then show ?thesis using P(13) area assms(3) pLR pAB by auto
  qed
  have "set (pages_of (GNode pp L) @ pages_of (GNode r R) @ ctx_pages fs) =
      insert r (insert pp (pages_of_list L \<union> pages_of_list R) \<union> set (ctx_pages fs))" by auto
  also have "\<dots> = insert r (set (pages_of gl @ pages_of gr @ ctx_pages ((pp, ls, k, rs) # fs)))" unfolding pLR by auto
  finally have sub: "set (pages_of (GNode pp L) @ pages_of (GNode r R) @ ctx_pages fs) = node_area t3"
    unfolding t3(2) S(16) .
  have root: "root_page t3 = page_of (plug fs (GNode pp L))"
    using S(1) t3(3) plug_page[of fs "GNode pp L" "GNode pp (ls @ (k, gl) # rs)"] by (cases fs) auto
  show ?thesis
    unfolding split_at_def t3(4,5,6)
    using root rL rR ctx O(4) ord fillN len S(12) link dist sub R by (intro exI[of _ lo'] exI[of _ hi']) auto
qed

lemma parent_split:
  assumes "index_ok t" "key_comparator t = cmp" "split_at t ((pp, ls, k, rs) # fs) n lo hi gl key gr"
    and "length ls + 1 + length rs = internal_max_size t" "allocated_pages (fh (bt_hdr t)) < 8 * FH_BITMAP_BYTES"
  shows "\<exists>t' lo' hi' L R r. insert_entry_into_parent (page_of gl) (page_of gr) key t =
      insert_entry_into_parent pp r (fst (hd R)) t' \<and> index_ok t' \<and> key_comparator t' = cmp \<and>
      allocated_pages (fh (bt_hdr t')) = allocated_pages (fh (bt_hdr t)) + 1 \<and>
      split_at t' fs (Suc n) lo' hi' (GNode pp L) (fst (hd R)) (GNode r R) \<and> L @ R = ls @ (k, gl) # (key, gr) # rs"
proof -
  note S = split_atD[OF assms(3)]
  obtain x np nq where P:
    "bt_pages t pp = Some (Internal_Node (par_of fs) (items_of ls @ (k, page_of gl) # items_of rs))"
    "rep (bt_pages t) pp gl" "rep (bt_pages t) x gr" "rep_ctx (bt_pages t) fs pp" "bt_pages t (page_of gl) = Some np"
    "nd_parent np = pp" "bt_pages t (page_of gr) = Some nq" "\<forall>x\<in>set ls. rep (bt_pages t) pp (snd x)"
    "\<forall>x\<in>set rs. rep (bt_pages t) pp (snd x)" "pp \<noteq> page_of gr" "pp \<noteq> page_of gl" "page_of gr \<notin> set (pages_of gl)"
    "pp \<notin> set (pages_of gl) \<union> set (pages_of gr) \<union> set (ctx_pages fs) \<union> pages_of_list ls \<union> pages_of_list rs"
    "page_of gr \<notin> set (ctx_pages fs) \<union> pages_of_list ls \<union> pages_of_list rs" "pp \<noteq> BP_INVALID_PAGE_NUM"
    by (rule split_at_parent[OF assms(3)])
  obtain r h where a: "header_allocate (bt_hdr t) = Some (SUCCESS, Some r, h)"
    "allocate_node t = Some (SUCCESS, Some r, t\<lparr>bt_hdr := h\<rparr>)" "0 < r"
    "r \<notin> node_area t" "\<forall>f. node_area (t\<lparr>bt_hdr := h, bt_pages := f\<rparr>) = insert r (node_area t)"
    "\<forall>f. index_ok (t\<lparr>bt_hdr := h, bt_pages := f\<rparr>)"
    "allocated_pages (fh h) = allocated_pages (fh (bt_hdr t)) + 1"
    by (rule allocate_node_ok[OF assms(1,5)])
  let ?cs = "ls @ (k, gl) # rs" and ?m = "internal_max_size t div 2" and ?p = "page_of gl" and ?q = "page_of gr"
  let ?N = "ls @ (k, gl) # (key, gr) # rs"
  define A where "A = take ?m ?cs"
  define B where "B = drop ?m ?cs"
  have sizes: "6 \<le> internal_max_size t" "internal_max_size t \<le> internal_cap t" using assms(1) by (auto simp: index_ok_def)
  have AB: "A @ B = ?cs" "length A = ?m" "length (A @ B) = internal_max_size t" "B \<noteq> []" "A \<noteq> []"
    using assms(4) sizes by (auto simp: A_def B_def simp del: take_append drop_append)
  have items: "items_of ls @ (k, ?p) # items_of rs = items_of A @ items_of B"
    using arg_cong[OF AB(1), of items_of] by simp
  have pAB: "pages_of_list A \<union> pages_of_list B = pages_of_list ls \<union> set (pages_of gl) \<union> pages_of_list rs"
    using arg_cong[OF AB(1), of pages_of_list] by auto
  have area: "pages_of_list A \<union> pages_of_list B \<subseteq> node_area t" "pp \<in> node_area t" "?q \<in> node_area t"
    unfolding pAB using S(14) page_of_in_pages[of gr] by auto
  have ne: "r \<noteq> pp" "r \<noteq> ?q" "r \<notin> snd ` set (items_of A @ items_of B)" "pp \<notin> snd ` set (items_of A @ items_of B)"
    "?q \<notin> snd ` set (items_of A @ items_of B)"
  proof -
    have sub: "snd ` set (items_of A @ items_of B) \<subseteq> pages_of_list A \<union> pages_of_list B"
      using items_in_pages[of A] items_in_pages[of B] by (auto simp: image_Un)
    show "r \<noteq> pp" "r \<noteq> ?q" "r \<notin> snd ` set (items_of A @ items_of B)" using a(4) area sub by blast+
    show "pp \<notin> snd ` set (items_of A @ items_of B)" "?q \<notin> snd ` set (items_of A @ items_of B)"
      using sub pAB P(12,13,14) by blast+
  qed
  have some: "\<forall>c\<in>set (items_of A @ items_of B). bt_pages t (snd c) \<noteq> None"
  proof -
    have "\<forall>x\<in>set ?cs. rep (bt_pages t) pp (snd x)" using P(2,8,9) by (simp add: ball_Un)
    then have "\<forall>x\<in>set ?cs. bt_pages t (page_of (snd x)) \<noteq> None" using rep_page by fast
    then show ?thesis unfolding items_of_simps(3)[symmetric] AB(1) unfolding items_of_def set_map ball_simps by simp
  qed
  let ?P = "reparent r (snd ` set (items_of B)) (bt_pages t)" and ?par = "par_of fs"
  let ?t1 = "t\<lparr>bt_hdr := h, bt_pages := ?P(pp \<mapsto> Internal_Node ?par (items_of A), r \<mapsto> Internal_Node ?par (items_of B))\<rparr>"
  have split: "split_internal pp t = Some (SUCCESS, Some r, ?t1)"
    using split_internal_eq[OF a(1) P(1)[unfolded items] ne(1,4,3) some] AB(2,3) sizes by simp
  obtain lo' hi' where O: "lo = lo_of lo' ls k" "hi = hi_of hi' rs" "frame_ok cmp n lo' hi' ls k rs" using S(5) assms(2) by auto
  note F = frame_keys[OF O(3)]
  have above: "cmp key (fst x) < 0" if "x \<in> set rs" for x
    using that S(9) O(2) assms(2) F(3) cmp_less_trans[of key "fst (hd rs)" "fst x"] by (cases rs) (auto simp: hi_of_def)
  have below: "cmp k key < 0" if "ls \<noteq> []" using that S(8) O(1) assms(2) by (simp add: lo_of_def)
  have inc: "increasing cmp (map fst (tl ?cs))" by (rule F(1))
  let ?k1 = "fst (hd B)"
  let ?t = "\<lambda>L R target. t\<lparr>bt_hdr := h, bt_pages := ?P(pp \<mapsto> Internal_Node ?par (items_of L),
        r \<mapsto> Internal_Node ?par (items_of R), ?q \<mapsto> with_parent target nq)\<rparr>"
  obtain b B' where b: "B = b # B'" using AB(4) by (cases B) auto
  have capt: "internal_cap ?t1 = internal_cap t" by (simp add: internal_cap_def)
  have q1: "?P ?q = Some nq" using ne(5) P(7) by (simp add: image_Un)
  have start: "insert_entry_into_parent ?p ?q key t =
      (let target = (if 0 < cmp key (fst b) then r else pp) in do {
         t2 \<leftarrow> internal_insert target key ?q ?t1;
         t3 \<leftarrow> set_parent_page_num ?q target t2;
         (_, cs) \<leftarrow> internal_at t3 r;
         new_key \<leftarrow> (case cs of [] \<Rightarrow> None | c # _ \<Rightarrow> Some (fst c));
         insert_entry_into_parent pp r new_key t3
       })"
    using P(1,5,6,15) split assms(2,4) b
    by (simp add: insert_entry_into_parent.simps[of ?p] node_size_def internal_at_def Let_def)
  consider (left) rl where "rs = rl @ B" "A = ls @ (k, gl) # rl" | (right) lr where "ls = A @ lr" "B = lr @ (k, gl) # rs"
    using AB(1) by (auto simp: append_eq_append_conv2 append_eq_Cons_conv)
  then have "\<exists>L R target. insert_entry_into_parent ?p ?q key t = insert_entry_into_parent pp r (fst (hd R)) (?t L R target) \<and>
      L @ R = ?N \<and> L \<noteq> [] \<and> R \<noteq> [] \<and>
      ((target = pp \<and> set L = insert (key, gr) (set A) \<and> length L = Suc (length A) \<and> R = B) \<or>
       (target = r \<and> L = A \<and> set R = insert (key, gr) (set B) \<and> length R = Suc (length B)))"
  proof cases
    case left
    have "increasing cmp (map fst (tl (ls @ (k, gl) # rl)))" using inc left(1) by (cases ls) auto
    then have pos: "snd (internal_lookup cmp (items_of A) key) = Suc (length ls)"
      using insert_position[of ls k gl rl key] below above left by simp
    have "b \<in> set rs" using left(1) b by simp
    then have "\<not> 0 < cmp key (fst b)" using above by fastforce
    moreover have "internal_insert pp key ?q ?t1 = Some (t\<lparr>bt_hdr := h, bt_pages :=
        ?P(pp \<mapsto> Internal_Node ?par (items_of (ls @ (k, gl) # (key, gr) # rl)), r \<mapsto> Internal_Node ?par (items_of B))\<rparr>)"
      by (subst internal_insert_eq[where i = "Suc (length ls)"])
        (use ne(1) pos assms(2) left(2) AB(2,3) sizes capt in \<open>auto simp: fun_upd_twist\<close>)
    ultimately have "insert_entry_into_parent ?p ?q key t =
        insert_entry_into_parent pp r (fst (hd B)) (?t (ls @ (k, gl) # (key, gr) # rl) B pp)"
      using start ne(1,2) P(10) q1 b by (simp add: set_parent_page_num_eq internal_at_def)
    then show ?thesis using left AB(4)
      by (intro exI[of _ "ls @ (k, gl) # (key, gr) # rl"] exI[of _ B] exI[of _ pp]) auto
  next
    case right
    have ls: "ls \<noteq> []" using right(1) AB(5) by auto
    have inc2: "increasing cmp (map fst (lr @ (k, gl) # rs))" using inc right(1) AB(5) by (cases A) auto
    then have "increasing cmp (map fst (tl (lr @ (k, gl) # rs)))" by (cases lr) auto
    then have pos: "snd (internal_lookup cmp (items_of B) key) = Suc (length lr)"
      using insert_position[of lr k gl rs key] below[OF ls] above right by simp
    have "cmp (fst b) k \<le> 0" using inc2 right(2) b by (cases lr) (auto simp: cmp_refl)
    then have "cmp (fst b) key < 0" using below[OF ls] cmp_le_less_trans by blast
    then have "0 < cmp key (fst b)" using cmp_swap[of "fst b" key] by simp
    moreover have "internal_insert r key ?q ?t1 = Some (t\<lparr>bt_hdr := h, bt_pages :=
        ?P(pp \<mapsto> Internal_Node ?par (items_of A), r \<mapsto> Internal_Node ?par (items_of (lr @ (k, gl) # (key, gr) # rs)))\<rparr>)"
      by (subst internal_insert_eq[where i = "Suc (length lr)"])
        (use pos assms(2) right(2) AB(2,3) sizes capt in auto)
    moreover have "(case items_of (lr @ (k, gl) # (key, gr) # rs) of [] \<Rightarrow> None | c # _ \<Rightarrow> Some (fst c)) =
        Some (fst (hd (lr @ (k, gl) # (key, gr) # rs)))" by (cases lr) auto
    ultimately have "insert_entry_into_parent ?p ?q key t =
        insert_entry_into_parent pp r (fst (hd (lr @ (k, gl) # (key, gr) # rs))) (?t A (lr @ (k, gl) # (key, gr) # rs) r)"
      using start ne(1,2) P(10) q1 by (simp add: set_parent_page_num_eq internal_at_def)
    then show ?thesis using right AB(5)
      by (intro exI[of _ A] exI[of _ "lr @ (k, gl) # (key, gr) # rs"] exI[of _ r]) auto
  qed
  then obtain L R target where L: "insert_entry_into_parent ?p ?q key t = insert_entry_into_parent pp r (fst (hd R)) (?t L R target)"
      "L @ R = ?N" "L \<noteq> []" "R \<noteq> []"
      "(target = pp \<and> set L = insert (key, gr) (set A) \<and> length L = Suc (length A) \<and> R = B) \<or>
       (target = r \<and> L = A \<and> set R = insert (key, gr) (set B) \<and> length R = Suc (length B))" by (elim exE conjE)
  have "\<exists>lo' hi'. split_at (?t L R target) fs (Suc n) lo' hi' (GNode pp L) (fst (hd R)) (GNode r R)"
    by (rule parent_split_state[OF assms(3,2) a(4) AB(1,2,3) L(2,3,4) _ L(5) P(7)]) (use a(5) assms(2) sizes in simp_all)
  then obtain lo' hi' where "split_at (?t L R target) fs (Suc n) lo' hi' (GNode pp L) (fst (hd R)) (GNode r R)" by blast
  then show ?thesis using L(1,2) a(6,7) assms(2)
    by (intro exI[of _ "?t L R target"] exI[of _ lo'] exI[of _ hi'] exI[of _ L] exI[of _ R] exI[of _ r]) simp
qed

lemma insert_entry_into_parent_ok:
  assumes "index_ok t" "key_comparator t = cmp" "split_at t fs n lo hi gl key gr"
    and "allocated_pages (fh (bt_hdr t)) + int (length fs) + 1 \<le> 8 * FH_BITMAP_BYTES"
  shows "\<exists>t' m g. insert_entry_into_parent (page_of gl) (page_of gr) key t = Some (SUCCESS, t') \<and> index_ok t' \<and>
    key_comparator t' = cmp \<and> tree_ok t' m g \<and> m \<le> Suc (n + length fs) \<and>
    entries g = left_entries fs @ entries gl @ entries gr @ right_entries fs"
  using assms
proof (induction fs arbitrary: t n lo hi gl key gr)
  case Nil
  obtain np where "bt_pages t (page_of gl) = Some np" "nd_parent np = BP_INVALID_PAGE_NUM"
    using split_atD(2)[OF Nil.prems(3)] rep_page[of "bt_pages t" "par_of []" gl] by auto
  then have "insert_entry_into_parent (page_of gl) (page_of gr) key t = grow_root (page_of gl) (page_of gr) key t"
    by (simp add: insert_entry_into_parent.simps)
  then show ?case using grow_root_ok[OF Nil.prems(1,3)] Nil.prems(2,4) by fastforce
next
  case (Cons f fs)
  obtain pp ls k rs where f: "f = (pp, ls, k, rs)" by (cases f)
  note S = Cons.prems(3)[unfolded f]
  have le: "length ls + 1 + length rs \<le> internal_max_size t" using split_atD(12)[OF S] by simp
  show ?case
  proof (cases "length ls + 1 + length rs < internal_max_size t")
    case True
    from parent_room[OF Cons.prems(1,2) S True] show ?thesis unfolding f by fastforce
  next
    case False
    then have eq: "length ls + 1 + length rs = internal_max_size t" using le by simp
    have "allocated_pages (fh (bt_hdr t)) < 8 * FH_BITMAP_BYTES" using Cons.prems(4) by simp
    from parent_split[OF Cons.prems(1,2) S eq this] obtain t' lo' hi' L R r where
      s: "insert_entry_into_parent (page_of gl) (page_of gr) key t = insert_entry_into_parent pp r (fst (hd R)) t'"
        "index_ok t'" "key_comparator t' = cmp" "allocated_pages (fh (bt_hdr t')) = allocated_pages (fh (bt_hdr t)) + 1"
        "split_at t' fs (Suc n) lo' hi' (GNode pp L) (fst (hd R)) (GNode r R)" "L @ R = ls @ (k, gl) # (key, gr) # rs"
      by (elim exE conjE)
    have ent: "concat (map (\<lambda>x. entries (snd x)) L) @ concat (map (\<lambda>x. entries (snd x)) R) =
        concat (map (\<lambda>x. entries (snd x)) ls) @ entries gl @ entries gr @ concat (map (\<lambda>x. entries (snd x)) rs)"
      using arg_cong[OF s(6), of "\<lambda>xs. concat (map (\<lambda>x. entries (snd x)) xs)"] by simp
    have "allocated_pages (fh (bt_hdr t')) + int (length fs) + 1 \<le> 8 * FH_BITMAP_BYTES" using s(4) Cons.prems(4) by simp
    from Cons.IH[OF s(2,3,5) this] obtain t2 m g where
      "insert_entry_into_parent pp r (fst (hd R)) t' = Some (SUCCESS, t2)" "index_ok t2" "key_comparator t2 = cmp" "tree_ok t2 m g"
      "m \<le> Suc (Suc n + length fs)" "entries g = left_entries fs @ entries (GNode pp L) @ entries (GNode r R) @ right_entries fs"
      by auto
    then show ?thesis using s(1) ent f by (intro exI[of _ t2] exI[of _ m] exI[of _ g]) simp
  qed
qed

end

end
