(* ===== verification/Bplus_Tree_Insert.thy ===== *)
theory Bplus_Tree_Insert
  imports Bplus_Tree_Split
begin

text \<open>
  Insertion into a B+ tree: the pages after an insertion represent a tree that is ordered and filled
  again, and whose entries are those of the sorted list with the new one.
\<close>

section \<open>The specification\<close>

definition has_key :: "('k \<Rightarrow> 'k \<Rightarrow> int) \<Rightarrow> 'k \<Rightarrow> ('k \<times> rid) list \<Rightarrow> bool" where
  "has_key cmp key es \<longleftrightarrow> (\<exists>e\<in>set es. cmp (fst e) key = 0)"

text \<open>A sorted list with one more entry.\<close>

fun ins_entry :: "('k \<Rightarrow> 'k \<Rightarrow> int) \<Rightarrow> 'k \<Rightarrow> rid \<Rightarrow> ('k \<times> rid) list \<Rightarrow> ('k \<times> rid) list" where
  "ins_entry cmp key r [] = [(key, r)]"
| "ins_entry cmp key r (e # es) = (if cmp (fst e) key < 0 then e # ins_entry cmp key r es else (key, r) # e # es)"

lemma ins_entry_at:
  assumes "\<forall>e\<in>set xs. cmp (fst e) key < 0" "\<forall>e\<in>set ys. \<not> cmp (fst e) key < 0"
  shows "ins_entry cmp key r (xs @ ys) = xs @ (key, r) # ys"
  using assms by (induction xs) (cases ys; auto)+

section \<open>A leaf\<close>

lemma split_leaf_eq:
  assumes "header_allocate (bt_hdr t) = Some (SUCCESS, Some q, h)" "bt_pages t p = Some (Leaf_Node par nx es)"
    and "q \<noteq> p" "length es \<le> leaf_cap t"
  shows "split_leaf p t = Some (SUCCESS, Some q, t\<lparr>bt_hdr := h, bt_pages := (bt_pages t)
    (p \<mapsto> Leaf_Node par nx (take (length es div 2) es), q \<mapsto> Leaf_Node par BP_INVALID_PAGE_NUM (drop (length es div 2) es))\<rparr>)"
proof -
  have cap: "leaf_cap (t\<lparr>bt_hdr := h, bt_pages := P\<rparr>) = leaf_cap t" for P by (simp add: leaf_cap_def)
  show ?thesis
    using assms
    by (simp add: split_leaf_def allocate_node_def leaf_init_empty_def set_parent_page_num_def put_node_def
        leaf_move_half_to_def leaf_append_def leaf_insert_items_def recover_insert_items_def leaf_remove_items_def
        recover_remove_items_def cap Let_def fun_upd_twist)
qed

lemma leaf_insert_eq:
  assumes "bt_pages t p = Some (Leaf_Node par nx (xs @ ys))" "length (xs @ ys) < leaf_cap t"
  shows "leaf_insert p (length xs) key r t = Some (t\<lparr>bt_pages := (bt_pages t)(p \<mapsto> Leaf_Node par nx (xs @ (key, r) # ys))\<rparr>)"
  using assms by (simp add: leaf_insert_def leaf_insert_items_def recover_insert_items_def put_node_def)

lemma linked_next:
  assumes "linked P ps z"
    and "\<And>x par nx es. x \<in> set ps \<Longrightarrow> P x = Some (Leaf_Node par nx es) \<Longrightarrow> \<exists>par' es'. Q x = Some (Leaf_Node par' nx es')"
  shows "linked Q ps z"
  using assms
proof (induction ps)
  case (Cons p ps)
  obtain par es where p: "P p = Some (Leaf_Node par (hd (ps @ [z])) es)" and l: "linked P ps z" using Cons.prems(1) by auto
  have "\<exists>par' es'. Q p = Some (Leaf_Node par' (hd (ps @ [z])) es')" by (rule Cons.prems(2)[OF _ p]) simp
  moreover have "linked Q ps z" by (rule Cons.IH[OF l]) (rule Cons.prems(2); simp)
  ultimately show ?case by simp
qed simp

lemma linked_cong: "(\<And>x. x \<in> set ps \<Longrightarrow> Q x = P x) \<Longrightarrow> linked Q ps z = linked P ps z"
  by (induction ps) auto

lemma tree_okD:
  assumes "tree_ok t m (plug fs g)"
  shows "root_page t = page_of (plug fs g)" "rep (bt_pages t) (par_of fs) g" "rep_ctx (bt_pages t) fs (page_of g)"
    "fillc (leaf_max_size t) (internal_max_size t) fs"
    "if fs = [] then root_filled (leaf_max_size t) (internal_max_size t) g else filled (leaf_max_size t) (internal_max_size t) g"
    "distinct (pages_of g @ ctx_pages fs)" "set (pages_of g @ ctx_pages fs) \<subseteq> node_area t"
    "linked (bt_pages t) (left_leaves fs @ leaf_pages g @ right_leaves fs) BP_INVALID_PAGE_NUM"
    "set (pages_of g @ ctx_pages fs) = node_area t"
  using assms filled_plug[of "leaf_max_size t" "internal_max_size t" fs g]
  by (simp_all add: tree_ok_def plug_rep plug_distinct plug_set plug_leaf_pages)

text \<open>A tree after a change to one leaf that keeps its links.\<close>

lemma tree_ok_leaf:
  assumes "tree_ok t m (plug fs (GLeaf p es))" "bt_pages t p = Some (Leaf_Node par nx es)"
    and "key_order (key_comparator t)"
    and "ordc (key_comparator t) 0 lo hi fs" "ord (key_comparator t) 0 lo hi (GLeaf p es')"
    and "length es' \<le> leaf_max_size t" "(if fs = [] then 1 else leaf_max_size t div 2) \<le> length es'"
  shows "tree_ok (t\<lparr>bt_pages := (bt_pages t)(p \<mapsto> Leaf_Node par nx es')\<rparr>) (length fs) (plug fs (GLeaf p es'))"
proof -
  note T = tree_okD[OF assms(1)]
  let ?Q = "(bt_pages t)(p \<mapsto> Leaf_Node par nx es')"
  have "rep_ctx ?Q fs p" using T(3,6) by (subst rep_ctx_cong[of fs ?Q "bt_pages t"]) auto
  moreover have "rep ?Q (par_of fs) (GLeaf p es')" using T(2) assms(2) by simp
  moreover have "linked ?Q (left_leaves fs @ p # right_leaves fs) BP_INVALID_PAGE_NUM"
    by (rule linked_next[of "bt_pages t"]) (use T(8) assms(2) in auto)
  moreover have "root_filled (leaf_max_size t) (internal_max_size t) (plug fs (GLeaf p es'))"
    by (rule plug_filled[OF T(4)]) (use assms(6,7) in auto)
  moreover have "ord (key_comparator t) (length fs) None None (plug fs (GLeaf p es'))"
    using key_order.ord_plug[OF assms(3,4,5)] by simp
  moreover have "page_of (plug fs (GLeaf p es)) = page_of (plug fs (GLeaf p es'))"
    using plug_page[of fs "GLeaf p es" "GLeaf p es'"] by (cases "fs = []") auto
  ultimately show ?thesis
    using T(1,6,9) by (simp add: tree_ok_def plug_rep plug_distinct plug_set plug_leaf_pages node_area_def)
qed

lemma index_ok_pages [simp]: "index_ok (t\<lparr>bt_pages := f\<rparr>) = index_ok t"
  by (simp add: index_ok_def leaf_cap_def internal_cap_def)

section \<open>Insertion into a leaf\<close>

lemma insert_leaf_full_run:
  assumes "header_allocate (bt_hdr t) = Some (SUCCESS, Some q, h)" "bt_pages t p = Some (Leaf_Node par nx (xs @ ys))" "q \<noteq> p"
    and "leaf_lookup (key_comparator t) (xs @ ys) key = (length xs, False)" "length (xs @ ys) = leaf_max_size t"
    and "4 \<le> leaf_max_size t" "leaf_max_size t \<le> leaf_cap t"
  obtains L R where "L @ R = xs @ (key, r) # ys" "L \<noteq> []" "R \<noteq> []" "leaf_max_size t div 2 \<le> length L"
    "length L \<le> leaf_max_size t" "leaf_max_size t div 2 \<le> length R" "length R \<le> leaf_max_size t"
    "insert_entry_into_leaf_node p key r t = insert_entry_into_parent p q (fst (hd R))
       (t\<lparr>bt_hdr := h, bt_pages := (bt_pages t)(p \<mapsto> Leaf_Node par q L, q \<mapsto> Leaf_Node par nx R)\<rparr>)"
proof -
  let ?m = "length (xs @ ys) div 2" and ?A = "take (length (xs @ ys) div 2) (xs @ ys)" and ?B = "drop (length (xs @ ys) div 2) (xs @ ys)"
  let ?t4 = "t\<lparr>bt_hdr := h, bt_pages := (bt_pages t)(p \<mapsto> Leaf_Node par q ?A, q \<mapsto> Leaf_Node par nx ?B)\<rparr>"
  have cap: "leaf_cap ?t4 = leaf_cap t" by (simp add: leaf_cap_def)
  have split: "split_leaf p t = Some (SUCCESS, Some q, t\<lparr>bt_hdr := h, bt_pages := (bt_pages t)
      (p \<mapsto> Leaf_Node par nx ?A, q \<mapsto> Leaf_Node par BP_INVALID_PAGE_NUM ?B)\<rparr>)"
    using split_leaf_eq[OF assms(1-3)] assms(5,7) by simp
  have m: "length ?A = ?m" "\<not> length (xs @ ys) < leaf_max_size t" "?m < length (xs @ ys)" "1 \<le> ?m" using assms(5,6) by auto
  have start: "insert_entry_into_leaf_node p key r t = do {
      t5 \<leftarrow> (if length xs < ?m then leaf_insert p (length xs) key r ?t4 else leaf_insert q (length xs - ?m) key r ?t4);
      (_, _, right) \<leftarrow> leaf_at t5 q;
      first_key \<leftarrow> (case right of [] \<Rightarrow> None | e # _ \<Rightarrow> Some (fst e));
      insert_entry_into_parent p q first_key t5 }"
    using assms(2-4) m split
    by (simp add: insert_entry_into_leaf_node_def set_next_page_def set_parent_page_num_def put_node_def leaf_at_def
        fun_upd_twist del: take_append drop_append length_append)
  show thesis
  proof (cases "length xs < ?m")
    case True
    define zs where "zs = take (?m - length xs) ys"
    have A: "?A = xs @ zs" using True by (simp add: zs_def)
    have "?B \<noteq> []" using m(3) by (simp del: drop_append length_append)
    then obtain b R where B: "?B = b # R" by (meson neq_Nil_conv)
    have eq: "xs @ zs @ b # R = xs @ ys" using append_take_drop_id[of ?m "xs @ ys"] unfolding A B by simp
    have lt: "length (xs @ zs) < leaf_cap t" using arg_cong[OF A, of length] m(1,3) assms(5,7) by linarith
    have "leaf_insert p (length xs) key r ?t4 = Some (t\<lparr>bt_hdr := h, bt_pages :=
        (bt_pages t)(p \<mapsto> Leaf_Node par q (xs @ (key, r) # zs), q \<mapsto> Leaf_Node par nx (b # R))\<rparr>)"
      using assms(3) cap lt unfolding A B by (subst leaf_insert_eq[of _ _ par q xs zs]) (auto simp: fun_upd_twist)
    then have "insert_entry_into_leaf_node p key r t = insert_entry_into_parent p q (fst (hd (b # R)))
       (t\<lparr>bt_hdr := h, bt_pages := (bt_pages t)(p \<mapsto> Leaf_Node par q (xs @ (key, r) # zs), q \<mapsto> Leaf_Node par nx (b # R))\<rparr>)"
      using start True by (simp add: leaf_at_def del: take_append drop_append length_append)
    moreover have "length (xs @ (key, r) # zs) = Suc ?m" "length (b # R) = length (xs @ ys) - ?m"
      using arg_cong[OF A, of length] arg_cong[OF B, of length] m by simp_all
    ultimately show ?thesis
      by (intro that[of "xs @ (key, r) # zs" "b # R"]) (use eq assms(5,6) in auto)
  next
    case False
    define zs where "zs = drop ?m xs"
    have A: "?A = take ?m xs" and B: "?B = zs @ ys" using False by (simp_all add: zs_def)
    have lz: "length zs = length xs - ?m" by (simp add: zs_def)
    have "leaf_insert q (length zs) key r ?t4 = Some (t\<lparr>bt_hdr := h, bt_pages :=
        (bt_pages t)(p \<mapsto> Leaf_Node par q ?A, q \<mapsto> Leaf_Node par nx (zs @ (key, r) # ys))\<rparr>)"
      using assms(3,5,7) cap m lz False unfolding B
      by (subst leaf_insert_eq[of _ _ par nx zs ys]) auto
    then have "insert_entry_into_leaf_node p key r t = insert_entry_into_parent p q (fst (hd (zs @ (key, r) # ys)))
       (t\<lparr>bt_hdr := h, bt_pages := (bt_pages t)(p \<mapsto> Leaf_Node par q ?A, q \<mapsto> Leaf_Node par nx (zs @ (key, r) # ys))\<rparr>)"
      using start False lz by (cases zs) (simp_all add: leaf_at_def del: take_append drop_append length_append)
    moreover have "?A @ zs @ (key, r) # ys = xs @ (key, r) # ys"
      unfolding A zs_def by (metis append.assoc append_take_drop_id)
    moreover have "length (zs @ (key, r) # ys) = Suc (length (xs @ ys) - ?m)" using lz False by simp
    ultimately show ?thesis
      by (intro that[of ?A "zs @ (key, r) # ys"]) (use m assms(5,6) in \<open>auto simp del: take_append length_append\<close>)
  qed
qed

text \<open>The position of a key among the entries of a tree.\<close>

context key_order
begin

lemma leaf_lookup_split:
  assumes "increasing cmp (map fst es)" "leaf_lookup cmp es key = (i, found)"
  shows "found \<longleftrightarrow> has_key cmp key es" "i \<le> length es"
    "\<forall>e\<in>set (take i es). cmp (fst e) key < 0" "\<not> found \<Longrightarrow> \<forall>e\<in>set (drop i es). cmp key (fst e) < 0"
proof -
  have s: "splits_at cmp (map fst es) key (i, found)"
    using lower_bound_splits[OF assms(1), of key] assms(2) by (simp add: leaf_lookup_def)
  then have below: "\<forall>e\<in>set (take i es). cmp (fst e) key < 0" and above: "\<forall>e\<in>set (drop i es). 0 \<le> cmp (fst e) key"
    and i: "i \<le> length es" and f: "found \<longleftrightarrow> i < length es \<and> cmp (fst (es ! i)) key = 0"
    by (auto simp: splits_at_def take_map drop_map)
  have inc: "increasing cmp (map fst (drop i es))"
    using increasing_take_drop(2)[OF assms(1), of i] by (simp add: drop_map)
  have hd: "drop i es = es ! i # drop (Suc i) es" if "i < length es" using that by (simp add: Cons_nth_drop_Suc)
  have later: "cmp key (fst e) < 0" if "i < length es" "e \<in> set (drop (Suc i) es)" for e
  proof -
    have "cmp key (fst (es ! i)) \<le> 0" using above hd[OF that(1)] cmp_le_iff[of key "fst (es ! i)"] by simp
    moreover have "cmp (fst (es ! i)) (fst e) < 0" using inc hd[OF that(1)] that(2) by simp
    ultimately show ?thesis by (rule cmp_le_less_trans)
  qed
  have none: "\<forall>e\<in>set (drop i es). cmp key (fst e) < 0" if "\<not> found"
  proof (cases "i < length es")
    case True
    have "cmp key (fst (es ! i)) < 0"
      using that f True above hd[OF True] cmp_le_iff[of key "fst (es ! i)"] cmp_eq_sym[of key "fst (es ! i)"] by fastforce
    then show ?thesis unfolding hd[OF True] using later[OF True] by simp
  qed simp
  have "has_key cmp key es \<longleftrightarrow> (\<exists>e\<in>set (drop i es). cmp (fst e) key = 0)"
  proof -
    have "set es = set (take i es) \<union> set (drop i es)" by (metis append_take_drop_id set_append)
    moreover have "cmp (fst e) key \<noteq> 0" if "e \<in> set (take i es)" for e using below that by fastforce
    ultimately show ?thesis unfolding has_key_def by blast
  qed
  moreover have "(\<exists>e\<in>set (drop i es). cmp (fst e) key = 0) \<longleftrightarrow> found"
  proof (cases found)
    case True
    then show ?thesis using f hd by simp
  next
    case False
    have "cmp (fst e) key \<noteq> 0" if "e \<in> set (drop i es)" for e
      using bspec[OF none[OF False] that] cmp_eq_sym[of key "fst e"] by linarith
    then show ?thesis using False by blast
  qed
  ultimately show "found \<longleftrightarrow> has_key cmp key es" by simp
  show "i \<le> length es" "\<forall>e\<in>set (take i es). cmp (fst e) key < 0" by (fact i below)+
  show "\<not> found \<Longrightarrow> \<forall>e\<in>set (drop i es). cmp key (fst e) < 0" by (rule none)
qed

lemma outside_leaf:
  assumes "ordc cmp n lo hi fs" "lo_le cmp lo key" "hi_gt cmp key hi"
  shows "\<forall>e\<in>set (left_entries fs). cmp (fst e) key < 0" "\<forall>e\<in>set (right_entries fs). cmp key (fst e) < 0"
proof -
  note O = ordc_entries[OF assms(1)]
  show "\<forall>e\<in>set (left_entries fs). cmp (fst e) key < 0"
  proof
    fix e assume "e \<in> set (left_entries fs)"
    from bspec[OF conjunct1[OF O] this] obtain l where "lo = Some l" "cmp (fst e) l < 0" by (elim exE conjE)
    then show "cmp (fst e) key < 0" using assms(2) cmp_less_le_trans[of "fst e" l key] by simp
  qed
  show "\<forall>e\<in>set (right_entries fs). cmp key (fst e) < 0"
  proof
    fix e assume "e \<in> set (right_entries fs)"
    from bspec[OF conjunct2[OF O] this] obtain h where "hi = Some h" "cmp h (fst e) \<le> 0" by (elim exE conjE)
    then show "cmp key (fst e) < 0" using assms(3) cmp_less_le_trans[of key h "fst e"] by simp
  qed
qed

lemma has_key_leaf:
  assumes "ordc cmp n lo hi fs" "lo_le cmp lo key" "hi_gt cmp key hi"
  shows "has_key cmp key (left_entries fs @ es @ right_entries fs) \<longleftrightarrow> has_key cmp key es"
proof -
  note O = outside_leaf[OF assms]
  have "cmp (fst e) key \<noteq> 0" if "e \<in> set (left_entries fs) \<union> set (right_entries fs)" for e
    using that O cmp_eq_sym[of key "fst e"] by fastforce
  then show ?thesis unfolding has_key_def set_append by blast
qed

lemma ins_entry_leaf:
  assumes "ordc cmp n lo hi fs" "lo_le cmp lo key" "hi_gt cmp key hi"
    and "\<forall>e\<in>set xs. cmp (fst e) key < 0" "\<forall>e\<in>set ys. cmp key (fst e) < 0"
  shows "ins_entry cmp key r (left_entries fs @ (xs @ ys) @ right_entries fs) =
    left_entries fs @ (xs @ (key, r) # ys) @ right_entries fs"
proof -
  note O = outside_leaf[OF assms(1-3)]
  have "\<forall>e\<in>set (ys @ right_entries fs). \<not> cmp (fst e) key < 0"
    using O(2) assms(5) cmp_less_not_less by (auto simp: ball_Un)
  moreover have "\<forall>e\<in>set (left_entries fs @ xs). cmp (fst e) key < 0" using O(1) assms(4) by (auto simp: ball_Un)
  ultimately show ?thesis
    using ins_entry_at[of "left_entries fs @ xs" cmp key "ys @ right_entries fs" r] by simp
qed

lemma leaf_split_state:
  assumes "tree_ok t m (plug fs (GLeaf p es))" "key_comparator t = cmp" "bt_pages t p = Some (Leaf_Node par nx es)"
    and "ordc cmp 0 lo hi fs" "ord cmp 0 lo hi (GLeaf p (L @ R))" "L \<noteq> []" "R \<noteq> []" "q \<notin> node_area t"
    and len: "leaf_max_size t div 2 \<le> length L" "length L \<le> leaf_max_size t"
      "leaf_max_size t div 2 \<le> length R" "length R \<le> leaf_max_size t"
    and t5: "bt_pages t5 = (bt_pages t)(p \<mapsto> Leaf_Node par q L, q \<mapsto> Leaf_Node par nx R)"
      "node_area t5 = insert q (node_area t)" "root_page t5 = root_page t" "key_comparator t5 = cmp"
      "leaf_max_size t5 = leaf_max_size t" "internal_max_size t5 = internal_max_size t"
  shows "split_at t5 fs 0 lo hi (GLeaf p L) (fst (hd R)) (GLeaf q R)"
proof -
  note T = tree_okD[OF assms(1)]
  let ?P = "bt_pages t" and ?Q = "bt_pages t5"
  have pq: "p \<noteq> q" "p \<notin> set (ctx_pages fs)" "q \<notin> set (ctx_pages fs)" "p \<in> node_area t" using T(6,7) assms(8) by auto
  have same: "?Q x = ?P x" if "x \<in> set (ctx_pages fs)" for x using that pq t5(1) by auto
  have par: "par = par_of fs" using T(2) assms(3) by auto
  have "rep_ctx ?Q fs p" using T(3) rep_ctx_cong[OF same] by simp
  moreover have "linked ?Q (left_leaves fs @ [p] @ [q] @ right_leaves fs) BP_INVALID_PAGE_NUM"
  proof -
    have "linked ?P (left_leaves fs) p" "linked ?P (right_leaves fs) BP_INVALID_PAGE_NUM"
      and nx: "nx = hd (right_leaves fs @ [BP_INVALID_PAGE_NUM])"
      using T(8) assms(3) by (auto simp: linked_append)
    moreover have "linked ?Q (left_leaves fs) z = linked ?P (left_leaves fs) z"
      "linked ?Q (right_leaves fs) z = linked ?P (right_leaves fs) z" for z
      using same ctx_leaves_sub[of fs] by (auto intro!: linked_cong)
    ultimately show ?thesis using t5(1) pq(1) by (simp add: linked_append)
  qed
  moreover have "ord cmp 0 lo (Some (fst (hd R))) (GLeaf p L)" "ord cmp 0 (Some (fst (hd R))) hi (GLeaf q R)"
    "lo_lt cmp lo (fst (hd R))" "hi_gt cmp (fst (hd R)) hi"
  proof -
    obtain a L' where L: "L = a # L'" using assms(6) by (cases L) auto
    obtain b R' where R: "R = b # R'" using assms(7) by (cases R) auto
    have "lo_le cmp lo (fst a)" "cmp (fst a) (fst b) < 0" using assms(5) L R by auto
    then show "lo_lt cmp lo (fst (hd R))" using R bound_trans(2)[of lo "fst a" "fst b"] by simp
    show "hi_gt cmp (fst (hd R)) hi" "ord cmp 0 lo (Some (fst (hd R))) (GLeaf p L)"
      "ord cmp 0 (Some (fst (hd R))) hi (GLeaf q R)" using assms(5) R by (auto simp: cmp_refl)
  qed
  moreover have "root_page t5 = page_of (plug fs (GLeaf p L))"
    using T(1) t5(3) plug_page[of fs "GLeaf p es" "GLeaf p L"] by (cases "fs = []") auto
  ultimately show ?thesis
    unfolding split_at_def t5(2,4-6) using T(4,6,9) assms(4) len pq t5(1) par by auto
qed

lemma insert_entry_into_leaf_ok:
  assumes "index_ok t" "key_comparator t = cmp" "tree_ok t m (plug fs (GLeaf p es))" "ordc cmp 0 lo hi fs"
    and "ord cmp 0 lo hi (GLeaf p es)" "lo_le cmp lo key" "hi_gt cmp key hi" "\<not> has_key cmp key es"
    and "allocated_pages (fh (bt_hdr t)) + int (length fs) + 2 \<le> 8 * FH_BITMAP_BYTES"
  shows "\<exists>t' m' g. insert_entry_into_leaf_node p key r t = Some (SUCCESS, t') \<and> index_ok t' \<and> key_comparator t' = cmp \<and>
    tree_ok t' m' g \<and> m' \<le> Suc (length fs) \<and> entries g = ins_entry cmp key r (entries (plug fs (GLeaf p es)))"
proof -
  note T = tree_okD[OF assms(3)]
  have sizes: "4 \<le> leaf_max_size t" "leaf_max_size t \<le> leaf_cap t" using assms(1) by (auto simp: index_ok_def)
  obtain par nx where P: "bt_pages t p = Some (Leaf_Node par nx es)" using T(2) by auto
  obtain i found where lk: "leaf_lookup cmp es key = (i, found)" by (cases "leaf_lookup cmp es key")
  have inc: "increasing cmp (map fst es)" and bnd: "\<forall>e\<in>set es. lo_le cmp lo (fst e) \<and> hi_gt cmp (fst e) hi" using assms(5) by auto
  note K = leaf_lookup_split[OF inc lk]
  have nf: "\<not> found" using K(1) assms(8) by simp
  obtain xs ys where xy: "es = xs @ ys" "i = length xs" "\<forall>e\<in>set xs. cmp (fst e) key < 0" "\<forall>e\<in>set ys. cmp key (fst e) < 0"
    using K(2,3) K(4)[OF nf] append_take_drop_id[of i es] by (metis length_take min.absorb2)
  let ?N = "xs @ (key, r) # ys"
  have ordN: "ord cmp 0 lo hi (GLeaf p ?N)"
    using inc bnd xy assms(6,7) by (auto simp: ball_Un)
  have entN: "ins_entry cmp key r (entries (plug fs (GLeaf p es))) = left_entries fs @ ?N @ right_entries fs"
    using ins_entry_leaf[OF assms(4,6,7) xy(3,4)] xy(1) by (simp add: plug_entries)
  show ?thesis
  proof (cases "length es < leaf_max_size t")
    case True
    let ?t = "t\<lparr>bt_pages := (bt_pages t)(p \<mapsto> Leaf_Node par nx ?N)\<rparr>"
    have "insert_entry_into_leaf_node p key r t = Some (SUCCESS, ?t)"
      using P lk nf True assms(2) xy(1,2) sizes
      by (simp add: insert_entry_into_leaf_node_def leaf_insert_eq)
    moreover have "tree_ok ?t (length fs) (plug fs (GLeaf p ?N))"
      by (rule tree_ok_leaf[OF assms(3) P]) (use key_order_axioms assms(2,4) ordN True T(5) xy(1) in \<open>auto split: if_splits\<close>)
    ultimately show ?thesis using assms(1,2) entN
      by (intro exI[of _ ?t] exI[of _ "length fs"] exI[of _ "plug fs (GLeaf p ?N)"]) (simp add: plug_entries)
  next
    case False
    have len: "length es = leaf_max_size t" using False T(5) by (auto split: if_splits)
    have al: "allocated_pages (fh (bt_hdr t)) < 8 * FH_BITMAP_BYTES" using assms(9) by simp
    obtain q h where a: "header_allocate (bt_hdr t) = Some (SUCCESS, Some q, h)"
      "allocate_node t = Some (SUCCESS, Some q, t\<lparr>bt_hdr := h\<rparr>)" "0 < q"
      "q \<notin> node_area t" "\<forall>f. node_area (t\<lparr>bt_hdr := h, bt_pages := f\<rparr>) = insert q (node_area t)"
      "\<forall>f. index_ok (t\<lparr>bt_hdr := h, bt_pages := f\<rparr>)"
      "allocated_pages (fh h) = allocated_pages (fh (bt_hdr t)) + 1"
      by (rule allocate_node_ok[OF assms(1) al])
    have pq: "q \<noteq> p" using T(7) a(4) by auto
    have run: "leaf_lookup (key_comparator t) (xs @ ys) key = (length xs, False)" using lk nf xy assms(2) by simp
    obtain L R where L: "L @ R = ?N" "L \<noteq> []" "R \<noteq> []" "leaf_max_size t div 2 \<le> length L" "length L \<le> leaf_max_size t"
       "leaf_max_size t div 2 \<le> length R" "length R \<le> leaf_max_size t"
       "insert_entry_into_leaf_node p key r t = insert_entry_into_parent p q (fst (hd R))
         (t\<lparr>bt_hdr := h, bt_pages := (bt_pages t)(p \<mapsto> Leaf_Node par q L, q \<mapsto> Leaf_Node par nx R)\<rparr>)"
      by (rule insert_leaf_full_run[OF a(1) P[unfolded xy(1)] pq run _ sizes]) (use len xy(1) in auto)
    let ?t = "t\<lparr>bt_hdr := h, bt_pages := (bt_pages t)(p \<mapsto> Leaf_Node par q L, q \<mapsto> Leaf_Node par nx R)\<rparr>"
    have "split_at ?t fs 0 lo hi (GLeaf p L) (fst (hd R)) (GLeaf q R)"
      by (rule leaf_split_state[OF assms(3,2) P assms(4) _ L(2,3) a(4) L(4-7)]) (use L(1) ordN a(5) assms(2) in simp_all)
    from insert_entry_into_parent_ok[OF _ _ this] a(6,7) assms(2,9) obtain t' m' g where
      "insert_entry_into_parent p q (fst (hd R)) ?t = Some (SUCCESS, t')" "index_ok t'" "key_comparator t' = cmp" "tree_ok t' m' g"
      "m' \<le> Suc (0 + length fs)" "entries g = left_entries fs @ L @ R @ right_entries fs" by auto
    then show ?thesis
      using L(1,8) entN by (intro exI[of _ t'] exI[of _ m'] exI[of _ g]) (metis add_0 append.assoc)
  qed
qed

end

section \<open>Insertion\<close>

lemma create_new_tree_ok:
  assumes "index_ok t" "is_empty t" "allocated_pages (fh (bt_hdr t)) < 8 * FH_BITMAP_BYTES" "node_area t = {}"
  shows "\<exists>t' g. create_new_tree key r t = Some (SUCCESS, t') \<and> index_ok t' \<and> key_comparator t' = key_comparator t \<and>
    tree_ok t' 0 g \<and> entries g = [(key, r)]"
proof -
  obtain p h where a: "header_allocate (bt_hdr t) = Some (SUCCESS, Some p, h)"
    "allocate_node t = Some (SUCCESS, Some p, t\<lparr>bt_hdr := h\<rparr>)" "0 < p"
    "p \<notin> node_area t" "\<forall>f. node_area (t\<lparr>bt_hdr := h, bt_pages := f\<rparr>) = insert p (node_area t)"
    "\<forall>f. index_ok (t\<lparr>bt_hdr := h, bt_pages := f\<rparr>)"
    "allocated_pages (fh h) = allocated_pages (fh (bt_hdr t)) + 1"
    by (rule allocate_node_ok[OF assms(1,3)])
  let ?t = "t\<lparr>bt_hdr := h, bt_pages := (bt_pages t)(p \<mapsto> Leaf_Node BP_INVALID_PAGE_NUM BP_INVALID_PAGE_NUM [(key, r)]), root_page := p\<rparr>"
  have sizes: "4 \<le> leaf_max_size t" "leaf_max_size t \<le> leaf_cap t" using assms(1) by (auto simp: index_ok_def)
  then have "1 \<le> leaf_cap (t\<lparr>bt_hdr := h, bt_pages := f\<rparr>)" for f by (simp add: leaf_cap_def)
  then have "create_new_tree key r t = Some (SUCCESS, ?t)"
    using assms(2) a(2)
    by (simp add: create_new_tree_def leaf_init_empty_def put_node_def leaf_insert_def leaf_insert_items_def
        recover_insert_items_def update_root_page_num_locked_def)
  moreover have "node_area ?t = insert p (node_area t)" using a(5) by (simp add: node_area_def)
  then have "node_area ?t = {p}" using assms(4) by simp
  then have "tree_ok ?t 0 (GLeaf p [(key, r)])" using sizes by (simp add: tree_ok_def increasing_def)
  moreover have "index_ok ?t" using a(6) by (simp add: index_ok_def leaf_cap_def internal_cap_def)
  ultimately show ?thesis by (intro exI[of _ ?t] exI[of _ "GLeaf p [(key, r)]"]) simp
qed

lemma index_holds_tree: "index_ok t \<Longrightarrow> tree_ok t m g \<Longrightarrow> entries g = es \<Longrightarrow> index_holds t m es"
  using tree_ok_not_empty(1) by (auto simp: index_holds_def)

lemma insert_entry_refines:
  assumes "index_holds t m es" "allocated_pages (fh (bt_hdr t)) + int m + 2 \<le> 8 * FH_BITMAP_BYTES"
  shows "if has_key (key_comparator t) key es then insert_entry key r t = Some (RECORD_DUPLICATE_KEY, t)
    else \<exists>t' m'. insert_entry key r t = Some (SUCCESS, t') \<and> key_comparator t' = key_comparator t \<and>
      index_holds t' m' (ins_entry (key_comparator t) key r es) \<and> m' \<le> Suc m"
proof (cases "is_empty t")
  case True
  have "index_ok t" "es = []" "node_area t = {}" using assms(1) True by (auto simp: index_holds_def)
  with create_new_tree_ok[OF this(1) True _ this(3), of key r] assms(2) show ?thesis
    using True by (fastforce simp: has_key_def insert_entry_def intro: index_holds_tree)
next
  case False
  obtain g where ok: "index_ok t" and g: "tree_ok t m g" "entries g = es" using assms(1) False by (auto simp: index_holds_def)
  let ?cmp = "key_comparator t"
  have K: "key_order ?cmp" using ok by (simp add: index_ok_def)
  obtain fs p ls lo hi where f: "find_leaf t key = Some (SUCCESS, Some p)" "g = plug fs (GLeaf p ls)" "length fs = m"
    "ordc ?cmp 0 lo hi fs" "ord ?cmp 0 lo hi (GLeaf p ls)" "lo_le ?cmp lo key" "hi_gt ?cmp key hi"
    by (rule find_leaf_path[OF ok g(1)])
  have run: "insert_entry key r t = insert_entry_into_leaf_node p key r t" using False f(1) by (simp add: insert_entry_def)
  have hk: "has_key ?cmp key es \<longleftrightarrow> has_key ?cmp key ls"
    using key_order.has_key_leaf[OF K f(4,6,7), of ls] g(2) f(2) by (simp add: plug_entries)
  show ?thesis
  proof (cases "has_key ?cmp key ls")
    case True
    obtain par nx where P: "bt_pages t p = Some (Leaf_Node par nx ls)" using tree_okD(2)[OF g(1)[unfolded f(2)]] by auto
    obtain i found where lk: "leaf_lookup ?cmp ls key = (i, found)" by (cases "leaf_lookup ?cmp ls key")
    have "found" using key_order.leaf_lookup_split(1)[OF K _ lk] f(5) True by simp
    then show ?thesis using hk True run P lk by (simp add: insert_entry_into_leaf_node_def)
  next
    case False
    have "allocated_pages (fh (bt_hdr t)) + int (length fs) + 2 \<le> 8 * FH_BITMAP_BYTES" using assms(2) f(3) by simp
    from key_order.insert_entry_into_leaf_ok[OF K ok refl g(1)[unfolded f(2)] f(4-7) False this, of r]
    obtain t' m' g' where "insert_entry_into_leaf_node p key r t = Some (SUCCESS, t')" "index_ok t'" "key_comparator t' = ?cmp"
      "tree_ok t' m' g'" "m' \<le> Suc (length fs)" "entries g' = ins_entry ?cmp key r es" using f(2) g(2) by auto
    then show ?thesis using hk False run f(3) index_holds_tree[of t' m' g'] by auto
  qed
qed

section \<open>Properties\<close>

text \<open>
  C3.  Insertion into the B+ tree refines insertion into a sorted list.  Whenever the pages represent a
  balanced, ordered and filled tree with the entries \<open>es\<close>, an insertion returns: with a key that is already
  there it reports a duplicate and changes nothing; otherwise it succeeds, splitting as many nodes as
  needed, and the pages represent such a tree with the entry at its place in the order, at most one level
  higher.  The file must be able to give one page for every level of the tree and one for a new root.
\<close>

theorem insert_entry_correct:
  assumes "index_holds t m es" "allocated_pages (fh (bt_hdr t)) + int m + 2 \<le> 8 * FH_BITMAP_BYTES"
  shows "if has_key (key_comparator t) key es then insert_entry key r t = Some (RECORD_DUPLICATE_KEY, t)
    else \<exists>t' m'. insert_entry key r t = Some (SUCCESS, t') \<and> key_comparator t' = key_comparator t \<and>
      index_holds t' m' (ins_entry (key_comparator t) key r es) \<and> m' \<le> Suc m"
  by (rule insert_entry_refines[OF assms])

theorem insert_entry_correct_witness:
  "(\<exists>t m. insert_entry 4 \<lparr>page_num = 7, slot_num = 1\<rparr> demo_index = Some (SUCCESS, t) \<and>
     index_holds t m [(3, \<lparr>page_num = 1, slot_num = 0\<rparr>), (4, \<lparr>page_num = 7, slot_num = 1\<rparr>), (5, \<lparr>page_num = 1, slot_num = 1\<rparr>)]) \<and>
   insert_entry 5 \<lparr>page_num = 7, slot_num = 1\<rparr> demo_index = Some (RECORD_DUPLICATE_KEY, demo_index)"
proof -
  have room: "allocated_pages (fh (bt_hdr demo_index)) + int 0 + 2 \<le> 8 * FH_BITMAP_BYTES"
    using demo_index_header(3) by (simp add: layout_simps)
  have c: "key_comparator demo_index = compare_int" by (simp add: demo_index_def)
  show ?thesis
    using insert_entry_correct[OF demo_index_holds room, of 4 "\<lparr>page_num = 7, slot_num = 1\<rparr>"]
      insert_entry_correct[OF demo_index_holds room, of 5 "\<lparr>page_num = 7, slot_num = 1\<rparr>"]
    by (auto simp: c has_key_def compare_int_def)
qed

end
