(* ===== verification/Bplus_Tree_Merge.thy ===== *)
theory Bplus_Tree_Merge
  imports Bplus_Tree_Insert
begin

text \<open>
  Deletion from a B+ tree, inner steps: how items move between neighbours, and what the moves do to the
  pages.
\<close>

section \<open>Moves between two nodes\<close>

lemma leaf_move_first_to_end_eq:
  assumes "bt_pages t q = Some (Leaf_Node par' nx' (e # es'))" "bt_pages t p = Some (Leaf_Node par nx es)"
    and "p \<noteq> q" "length es < leaf_cap t"
  shows "leaf_move_first_to_end q p t =
    Some (t\<lparr>bt_pages := (bt_pages t)(p \<mapsto> Leaf_Node par nx (es @ [e]), q \<mapsto> Leaf_Node par' nx' es')\<rparr>)"
  using assms
  by (simp add: leaf_move_first_to_end_def leaf_append_def leaf_insert_items_def recover_insert_items_def
      leaf_remove_items_def recover_remove_items_def put_node_def)

lemma leaf_move_last_to_front_eq:
  assumes "bt_pages t q = Some (Leaf_Node par' nx' (es' @ [e]))" "bt_pages t p = Some (Leaf_Node par nx es)"
    and "p \<noteq> q" "length es < leaf_cap t"
  shows "leaf_move_last_to_front q p t =
    Some (t\<lparr>bt_pages := (bt_pages t)(p \<mapsto> Leaf_Node par nx (e # es), q \<mapsto> Leaf_Node par' nx' es')\<rparr>)"
  using assms
  by (simp add: leaf_move_last_to_front_def leaf_insert_items_def recover_insert_items_def
      leaf_remove_items_def recover_remove_items_def put_node_def)

lemma leaf_move_to_eq:
  assumes "bt_pages t q = Some (Leaf_Node par' nx' es')" "bt_pages t p = Some (Leaf_Node par nx es)"
    and "p \<noteq> q" "length es + length es' \<le> leaf_cap t"
  shows "leaf_move_to q p t =
    Some (t\<lparr>bt_pages := (bt_pages t)(p \<mapsto> Leaf_Node par nx' (es @ es'), q \<mapsto> Leaf_Node par' nx' [])\<rparr>)"
  using assms
  by (simp add: leaf_move_to_def leaf_append_def leaf_insert_items_def recover_insert_items_def set_next_page_def
      leaf_remove_items_def recover_remove_items_def put_node_def leaf_at_def)

lemma internal_insert_items_eq:
  assumes "bt_pages t p = Some (Internal_Node par (xs @ ys))" "length (xs @ ys) + length new \<le> internal_cap t"
    and "\<forall>c\<in>set new. bt_pages t (snd c) \<noteq> None" "p \<notin> snd ` set new"
  shows "internal_insert_items p (length xs) new t = Some (SUCCESS, t\<lparr>bt_pages :=
    (reparent p (snd ` set new) (bt_pages t))(p \<mapsto> Internal_Node par (xs @ new @ ys))\<rparr>)"
proof -
  let ?P = "(bt_pages t)(p \<mapsto> Internal_Node par (xs @ new @ ys))"
  have "set_parents p (map snd new) (t\<lparr>bt_pages := ?P\<rparr>) = (SUCCESS, t\<lparr>bt_pages := reparent p (snd ` set new) ?P\<rparr>)"
    by (subst set_parents_eq) (use assms(3) in auto)
  moreover have "reparent p (snd ` set new) ?P = (reparent p (snd ` set new) (bt_pages t))(p \<mapsto> Internal_Node par (xs @ new @ ys))"
    using assms(4) by (auto simp: reparent_def fun_eq_iff)
  ultimately show ?thesis
    using assms(1,2) by (simp add: internal_insert_items_def internal_insert_at_def recover_insert_items_def put_node_def)
qed

lemma internal_move_first_to_end_eq:
  assumes "bt_pages t q = Some (Internal_Node par' (c # cs'))" "bt_pages t p = Some (Internal_Node par cs)"
    and "p \<noteq> q" "length cs < internal_cap t" "bt_pages t (snd c) \<noteq> None" "snd c \<noteq> p" "snd c \<noteq> q"
  shows "internal_move_first_to_end q p t = Some (SUCCESS, t\<lparr>bt_pages :=
    (reparent p {snd c} (bt_pages t))(p \<mapsto> Internal_Node par (cs @ [c]), q \<mapsto> Internal_Node par' cs')\<rparr>)"
  using assms internal_insert_items_eq[of t p par cs "[]" "[c]"]
  by (simp add: internal_move_first_to_end_def internal_append_def
      internal_remove_items_def recover_remove_items_def put_node_def)

lemma internal_move_last_to_front_eq:
  assumes "bt_pages t q = Some (Internal_Node par' (cs' @ [c]))" "bt_pages t p = Some (Internal_Node par cs)"
    and "p \<noteq> q" "length cs < internal_cap t" "bt_pages t (snd c) \<noteq> None" "snd c \<noteq> p" "snd c \<noteq> q"
  shows "internal_move_last_to_front q p t = Some (SUCCESS, t\<lparr>bt_pages :=
    (reparent p {snd c} (bt_pages t))(p \<mapsto> Internal_Node par (c # cs), q \<mapsto> Internal_Node par' cs')\<rparr>)"
  using assms internal_insert_items_eq[of t p par "[]" cs "[c]"]
  by (simp add: internal_move_last_to_front_def
      internal_remove_items_def recover_remove_items_def put_node_def)

lemma internal_move_to_eq:
  assumes "bt_pages t q = Some (Internal_Node par' cs')" "bt_pages t p = Some (Internal_Node par cs)"
    and "p \<noteq> q" "length cs + length cs' \<le> internal_cap t" "\<forall>c\<in>set cs'. bt_pages t (snd c) \<noteq> None"
    and "p \<notin> snd ` set cs'" "q \<notin> snd ` set cs'"
  shows "internal_move_to q p t = Some (SUCCESS, t\<lparr>bt_pages :=
    (reparent p (snd ` set cs') (bt_pages t))(p \<mapsto> Internal_Node par (cs @ cs'), q \<mapsto> Internal_Node par' [])\<rparr>)"
  using assms internal_insert_items_eq[of t p par cs "[]" cs']
  by (simp add: internal_move_to_def internal_append_def
      internal_remove_items_def recover_remove_items_def put_node_def)

lemma set_key_at_eq:
  assumes "bt_pages t p = Some (Internal_Node par (xs @ (k, c) # ys))"
  shows "set_key_at p (length xs) key t = Some (t\<lparr>bt_pages := (bt_pages t)(p \<mapsto> Internal_Node par (xs @ (key, c) # ys))\<rparr>)"
  using assms by (simp add: set_key_at_def put_node_def nth_append list_update_append)

lemma internal_remove_item_eq:
  assumes "bt_pages t p = Some (Internal_Node par (xs @ c # ys))"
  shows "internal_remove_items p (length xs) 1 t = Some (t\<lparr>bt_pages := (bt_pages t)(p \<mapsto> Internal_Node par (xs @ ys))\<rparr>)"
  using assms by (simp add: internal_remove_items_def recover_remove_items_def put_node_def)

section \<open>Two neighbours in the order\<close>

context key_order
begin

lemma ords_pair:
  assumes "ords cmp n lo hi (us @ (ka, A) # (kb, B) # vs)"
  shows "frame_ok cmp n lo hi us ka vs" "ord cmp n (lo_of lo us ka) (Some kb) A" "ord cmp n (Some kb) (hi_of hi vs) B"
    "lo_lt cmp (lo_of lo us ka) kb" "hi_gt cmp kb (hi_of hi vs)"
proof -
  have m: "frame_ok cmp n lo hi us ka ((kb, B) # vs)" "ord cmp n (lo_of lo us ka) (Some kb) A"
    using assms ords_mid[of n lo hi us ka A "(kb, B) # vs"] by (auto simp: hi_of_def)
  then have o: "ords cmp n (Some kb) hi ([] @ (kb, B) # vs)" and l: "lo_lt cmp (lo_of lo us ka) kb" and h: "hi_gt cmp kb hi"
    by (auto simp: frame_ok_def)
  have f: "frame_ok cmp n (Some kb) hi [] kb vs" "ord cmp n (Some kb) (hi_of hi vs) B"
    using o ords_mid[of n "Some kb" hi "[]" kb B vs] by (auto simp: lo_of_def)
  have v: "cmp kb (fst (hd vs)) < 0" "hi_gt cmp (fst (hd vs)) hi" "ords cmp n (Some (fst (hd vs))) hi vs" if "vs \<noteq> []"
    using f(1) that by (auto simp: frame_ok_def lo_of_def)
  show "hi_gt cmp kb (hi_of hi vs)" using v h by (simp add: hi_of_def)
  show "frame_ok cmp n lo hi us ka vs"
    using m(1) v bound_trans(1)[OF l] by (fastforce simp: frame_ok_def)
  show "ord cmp n (lo_of lo us ka) (Some kb) A" "ord cmp n (Some kb) (hi_of hi vs) B" "lo_lt cmp (lo_of lo us ka) kb"
    by (fact m(2) f(2) l)+
qed

lemma leaf_join:
  assumes "ord cmp n lo (Some kb) (GLeaf p xs)" "ord cmp n (Some kb) hi (GLeaf q ys)" "lo_lt cmp lo kb" "hi_gt cmp kb hi"
  shows "ord cmp n lo hi (GLeaf r (xs @ ys))"
proof -
  have "within cmp lo hi (xs @ ys)"
    by (rule within_append[OF _ _ assms(3,4)]) (use assms(1,2) in \<open>auto simp: within_def\<close>)
  then show ?thesis using assms(1) by (auto simp: within_def)
qed

lemma leaf_resplit:
  assumes "ord cmp n lo hi (GLeaf r (xs @ y # ys))" "xs \<noteq> []"
  shows "ord cmp n lo (Some (fst y)) (GLeaf p xs)" "ord cmp n (Some (fst y)) hi (GLeaf q (y # ys))"
    "lo_lt cmp lo (fst y)" "hi_gt cmp (fst y) hi"
proof -
  obtain a xs' where a: "xs = a # xs'" using assms(2) by (cases xs) auto
  have "lo_le cmp lo (fst a)" "cmp (fst a) (fst y) < 0" using assms(1) a by auto
  then show "lo_lt cmp lo (fst y)" by (rule bound_trans(2))
  show "hi_gt cmp (fst y) hi" "ord cmp n lo (Some (fst y)) (GLeaf p xs)" "ord cmp n (Some (fst y)) hi (GLeaf q (y # ys))"
    using assms(1) by (auto simp: cmp_refl)
qed

lemma node_join:
  assumes "ord cmp (Suc n) lo (Some kb) (GNode p xs)" "ord cmp (Suc n) (Some kb) hi (GNode q ys)" "lo_lt cmp lo kb" "hi_gt cmp kb hi"
  shows "ords cmp n lo hi (xs @ ys)" "fst (hd ys) = kb" "xs \<noteq> []" "ys \<noteq> []"
proof -
  have x: "ords cmp n lo (Some kb) xs" and y: "ords cmp n (Some kb) hi ys" using assms(1,2) by auto
  then show ne: "xs \<noteq> []" "ys \<noteq> []" by auto
  obtain k c ys' where ys: "ys = (k, c) # ys'" using ne(2) by (cases ys) auto
  have "k = kb" using y ys by (cases ys') auto
  then show "fst (hd ys) = kb" "ords cmp n lo hi (xs @ ys)"
    using ords_append[OF ne(1), of n lo hi kb c ys'] x y assms(3,4) ys by auto
qed

lemma node_resplit:
  assumes "ords cmp n lo hi (xs @ y # ys)" "xs \<noteq> []"
  shows "ord cmp (Suc n) lo (Some (fst y)) (GNode p xs)" "ord cmp (Suc n) (Some (fst y)) hi (GNode q (y # ys))"
    "lo_lt cmp lo (fst y)" "hi_gt cmp (fst y) hi"
  using assms ords_append[OF assms(2), of n lo hi "fst y" "snd y" ys] by simp_all

end

lemma pages_in_list: "x \<in> set cs \<Longrightarrow> set (pages_of (snd x)) \<subseteq> pages_of_list cs"
  unfolding pages_of_list_def by blast

section \<open>A tree around a position\<close>

text \<open>Everything \<open>tree_ok\<close> asks for, except that the size of the node at the position is open.\<close>

definition tree_at :: "'k bplus_tree \<Rightarrow> 'k path_frame list \<Rightarrow> nat \<Rightarrow> 'k option \<Rightarrow> 'k option \<Rightarrow> 'k gtree \<Rightarrow> bool" where
  "tree_at t fs n lo hi g \<longleftrightarrow>
     root_page t = page_of (plug fs g) \<and> rep (bt_pages t) (par_of fs) g \<and> rep_ctx (bt_pages t) fs (page_of g) \<and>
     ordc (key_comparator t) n lo hi fs \<and> ord (key_comparator t) n lo hi g \<and>
     fillc (leaf_max_size t) (internal_max_size t) fs \<and>
     distinct (pages_of g @ ctx_pages fs) \<and> set (pages_of g @ ctx_pages fs) = node_area t \<and>
     linked (bt_pages t) (left_leaves fs @ leaf_pages g @ right_leaves fs) BP_INVALID_PAGE_NUM"

lemma tree_atD:
  assumes "tree_at t fs n lo hi g"
  shows "root_page t = page_of (plug fs g)" "rep (bt_pages t) (par_of fs) g" "rep_ctx (bt_pages t) fs (page_of g)"
    "ordc (key_comparator t) n lo hi fs" "ord (key_comparator t) n lo hi g"
    "fillc (leaf_max_size t) (internal_max_size t) fs"
    "distinct (pages_of g @ ctx_pages fs)" "set (pages_of g @ ctx_pages fs) \<subseteq> node_area t"
    "linked (bt_pages t) (left_leaves fs @ leaf_pages g @ right_leaves fs) BP_INVALID_PAGE_NUM"
    "set (pages_of g @ ctx_pages fs) = node_area t"
  using assms by (auto simp: tree_at_def)

lemma tree_at_pop:
  assumes "tree_at t ((pp, ls, k, rs) # fs) n lo hi g" "key_order (key_comparator t)"
  shows "\<exists>lo' hi'. lo = lo_of lo' ls k \<and> hi = hi_of hi' rs \<and> frame_ok (key_comparator t) n lo' hi' ls k rs \<and>
    tree_at t fs (Suc n) lo' hi' (GNode pp (ls @ (k, g) # rs))"
proof -
  note T = tree_atD[OF assms(1)]
  obtain lo' hi' where b: "lo = lo_of lo' ls k" "hi = hi_of hi' rs" "frame_ok (key_comparator t) n lo' hi' ls k rs"
      "ordc (key_comparator t) (Suc n) lo' hi' fs" using T(4) by auto
  have "ords (key_comparator t) n lo' hi' (ls @ (k, g) # rs)"
    using key_order.ords_mid[OF assms(2)] b T(5) by blast
  then have "tree_at t fs (Suc n) lo' hi' (GNode pp (ls @ (k, g) # rs))"
    using T b(4) by (auto simp: tree_at_def ball_Un)
  then show ?thesis using b by blast
qed

lemma tree_at_ok:
  assumes "tree_at t fs n lo hi g" "key_order (key_comparator t)"
    and "if fs = [] then root_filled (leaf_max_size t) (internal_max_size t) g else filled (leaf_max_size t) (internal_max_size t) g"
  shows "tree_ok t (n + length fs) (plug fs g)"
  using tree_atD[OF assms(1)] key_order.ord_plug[OF assms(2), of n lo hi fs g] plug_filled[OF _ assms(3)]
  by (simp add: tree_ok_def plug_rep plug_distinct plug_set plug_leaf_pages)

text \<open>Replacing the tree at the position.\<close>

lemma tree_at_change:
  assumes "tree_at t fs n lo hi g" "page_of g' = page_of g" "rep (bt_pages t') (par_of fs) g'"
    and "\<And>x. x \<in> set (ctx_pages fs) \<Longrightarrow> bt_pages t' x = bt_pages t x" "ord (key_comparator t) n lo hi g'"
    and "distinct (pages_of g')" "set (pages_of g') \<subseteq> set (pages_of g)" "set (pages_of g' @ ctx_pages fs) = node_area t'"
    and "linked (bt_pages t') (left_leaves fs @ leaf_pages g' @ right_leaves fs) BP_INVALID_PAGE_NUM"
    and "root_page t' = root_page t" "key_comparator t' = key_comparator t" "leaf_max_size t' = leaf_max_size t"
      "internal_max_size t' = internal_max_size t"
  shows "tree_at t' fs n lo hi g'"
proof -
  note T = tree_atD[OF assms(1)]
  have "rep_ctx (bt_pages t') fs (page_of g')" using T(3) rep_ctx_cong[OF assms(4)] assms(2) by simp
  moreover have "page_of (plug fs g') = page_of (plug fs g)" using plug_page[of fs g g'] assms(2) by (cases "fs = []") auto
  moreover have "distinct (pages_of g' @ ctx_pages fs)" using T(7) assms(6,7) by auto
  ultimately show ?thesis using T(1,4,6) assms(3,5,8-13) by (simp add: tree_at_def)
qed

text \<open>What holds of two neighbours and their parent.\<close>

lemma pair_facts:
  assumes "tree_at t fs (Suc n) lo hi (GNode pp (us @ (ka, A) # (kb, B) # vs))" "key_order (key_comparator t)"
  shows "bt_pages t pp = Some (Internal_Node (par_of fs) (items_of us @ (ka, page_of A) # (kb, page_of B) # items_of vs))"
    "rep (bt_pages t) pp A" "rep (bt_pages t) pp B" "\<forall>x\<in>set us. rep (bt_pages t) pp (snd x)" "\<forall>x\<in>set vs. rep (bt_pages t) pp (snd x)"
    "distinct (pages_of A @ pages_of B)" "pp \<notin> set (pages_of A @ pages_of B) \<union> pages_of_list us \<union> pages_of_list vs \<union> set (ctx_pages fs)"
    "set (pages_of A @ pages_of B) \<inter> (pages_of_list us \<union> pages_of_list vs \<union> set (ctx_pages fs)) = {}"
    "frame_ok (key_comparator t) n lo hi us ka vs" "ord (key_comparator t) n (lo_of lo us ka) (Some kb) A"
    "ord (key_comparator t) n (Some kb) (hi_of hi vs) B" "lo_lt (key_comparator t) (lo_of lo us ka) kb"
    "hi_gt (key_comparator t) kb (hi_of hi vs)" "set (pages_of A @ pages_of B) \<subseteq> node_area t" "pp \<in> node_area t"
    "set (ctx_pages fs) \<subseteq> node_area t" "pages_of_list us \<union> pages_of_list vs \<subseteq> node_area t"
    "distinct (concat (map (\<lambda>x. pages_of (snd x)) (us @ vs)))"
proof -
  note T = tree_atD[OF assms(1)]
  show "bt_pages t pp = Some (Internal_Node (par_of fs) (items_of us @ (ka, page_of A) # (kb, page_of B) # items_of vs))"
    "rep (bt_pages t) pp A" "rep (bt_pages t) pp B" "\<forall>x\<in>set us. rep (bt_pages t) pp (snd x)" "\<forall>x\<in>set vs. rep (bt_pages t) pp (snd x)"
    using T(2) by (simp_all add: ball_Un)
  show "distinct (pages_of A @ pages_of B)" "distinct (concat (map (\<lambda>x. pages_of (snd x)) (us @ vs)))" using T(7) by auto
  show "pp \<notin> set (pages_of A @ pages_of B) \<union> pages_of_list us \<union> pages_of_list vs \<union> set (ctx_pages fs)"
    "set (pages_of A @ pages_of B) \<inter> (pages_of_list us \<union> pages_of_list vs \<union> set (ctx_pages fs)) = {}"
    using T(7) by auto
  have "ords (key_comparator t) n lo hi (us @ (ka, A) # (kb, B) # vs)" using T(5) by simp
  from key_order.ords_pair[OF assms(2) this]
  show "frame_ok (key_comparator t) n lo hi us ka vs" "ord (key_comparator t) n (lo_of lo us ka) (Some kb) A"
    "ord (key_comparator t) n (Some kb) (hi_of hi vs) B" "lo_lt (key_comparator t) (lo_of lo us ka) kb"
    "hi_gt (key_comparator t) kb (hi_of hi vs)" .
  show "set (pages_of A @ pages_of B) \<subseteq> node_area t" "pp \<in> node_area t" "set (ctx_pages fs) \<subseteq> node_area t"
    "pages_of_list us \<union> pages_of_list vs \<subseteq> node_area t" using T(8) by auto
qed

text \<open>Moving items from one neighbour to the other.\<close>

lemma pair_update:
  assumes T: "tree_at t fs (Suc n) lo hi (GNode pp (us @ (ka, A) # (kb, B) # vs))" and K: "key_order (key_comparator t)"
    and Q: "Q pp = Some (Internal_Node (par_of fs) (items_of (us @ (ka, A') # (kb', B') # vs)))" "rep Q pp A'" "rep Q pp B'"
      "\<And>x. x \<noteq> pp \<Longrightarrow> x \<notin> set (pages_of A @ pages_of B) \<Longrightarrow> Q x = bt_pages t x"
      "\<And>x par nx es. bt_pages t x = Some (Leaf_Node par nx es) \<Longrightarrow> \<exists>par' es'. Q x = Some (Leaf_Node par' nx es')"
    and G: "mset (pages_of A' @ pages_of B') = mset (pages_of A @ pages_of B)"
      "leaf_pages A' @ leaf_pages B' = leaf_pages A @ leaf_pages B"
    and ord: "ord (key_comparator t) n (lo_of lo us ka) (Some kb') A'" "ord (key_comparator t) n (Some kb') (hi_of hi vs) B'"
      "lo_lt (key_comparator t) (lo_of lo us ka) kb'" "hi_gt (key_comparator t) kb' (hi_of hi vs)"
  shows "tree_at (t\<lparr>bt_pages := Q\<rparr>) fs (Suc n) lo hi (GNode pp (us @ (ka, A') # (kb', B') # vs))"
proof (rule tree_at_change[OF T])
  note F = pair_facts[OF T K]
  note D = tree_atD[OF T]
  have set: "set (pages_of A' @ pages_of B') = set (pages_of A @ pages_of B)" using G(1) by (rule mset_eq_setD)
  have "\<forall>x\<in>set us. rep Q pp (snd x)" by (rule reps_cong[OF F(4)], rule Q(4)) (use F(7,8) in blast)+
  moreover have "\<forall>x\<in>set vs. rep Q pp (snd x)" by (rule reps_cong[OF F(5)], rule Q(4)) (use F(7,8) in blast)+
  ultimately show "rep (bt_pages (t\<lparr>bt_pages := Q\<rparr>)) (par_of fs) (GNode pp (us @ (ka, A') # (kb', B') # vs))"
    using Q(1-3) by (simp add: ball_Un)
  show "bt_pages (t\<lparr>bt_pages := Q\<rparr>) x = bt_pages t x" if "x \<in> set (ctx_pages fs)" for x
    using Q(4)[of x] F(7,8) that by auto
  show "ord (key_comparator t) (Suc n) lo hi (GNode pp (us @ (ka, A') # (kb', B') # vs))"
    using key_order.ords_two[OF K F(9) ord] by simp
  have m: "mset (pages_of (GNode pp (us @ (ka, A') # (kb', B') # vs))) = mset (pages_of (GNode pp (us @ (ka, A) # (kb, B) # vs)))"
    using G(1) by simp
  have "distinct (pages_of (GNode pp (us @ (ka, A) # (kb, B) # vs)))" using D(7) by (simp only: distinct_append)
  then show "distinct (pages_of (GNode pp (us @ (ka, A') # (kb', B') # vs)))" by (simp only: mset_eq_imp_distinct_iff[OF m])
  show sub: "set (pages_of (GNode pp (us @ (ka, A') # (kb', B') # vs))) \<subseteq> set (pages_of (GNode pp (us @ (ka, A) # (kb, B) # vs)))"
    unfolding mset_eq_setD[OF m] by (rule subset_refl)
  show "set (pages_of (GNode pp (us @ (ka, A') # (kb', B') # vs)) @ ctx_pages fs) = node_area (t\<lparr>bt_pages := Q\<rparr>)"
  proof -
    have "node_area (t\<lparr>bt_pages := Q\<rparr>) = node_area t" by (simp add: node_area_def)
    then show ?thesis using D(10) unfolding set_append mset_eq_setD[OF m] by simp
  qed
  have lp: "leaf_pages (GNode pp (us @ (ka, A') # (kb', B') # vs)) = leaf_pages (GNode pp (us @ (ka, A) # (kb, B) # vs))"
    using G(2) by simp
  show "linked (bt_pages (t\<lparr>bt_pages := Q\<rparr>)) (left_leaves fs @ leaf_pages (GNode pp (us @ (ka, A') # (kb', B') # vs)) @ right_leaves fs)
      BP_INVALID_PAGE_NUM"
    unfolding lp using linked_next[OF D(9), of Q] Q(5) by simp
qed (use Q in simp_all)

text \<open>Two leaves with the same entries, divided in another way.\<close>

lemma leaf_pair_update:
  assumes T: "tree_at t fs (Suc n) lo hi (GNode pp (us @ (ka, GLeaf a ea) # (kb, GLeaf b eb) # vs))"
    and K: "key_order (key_comparator t)" and E: "ea' @ y # eb' = ea @ eb" "ea' \<noteq> []"
    and P: "bt_pages t a = Some (Leaf_Node para nxa ea)" "bt_pages t b = Some (Leaf_Node parb nxb eb)"
  shows "tree_at (t\<lparr>bt_pages := (bt_pages t)(a \<mapsto> Leaf_Node para nxa ea', b \<mapsto> Leaf_Node parb nxb (y # eb'),
      pp \<mapsto> Internal_Node (par_of fs) (items_of us @ (ka, a) # (fst y, b) # items_of vs))\<rparr>) fs (Suc n) lo hi
    (GNode pp (us @ (ka, GLeaf a ea') # (fst y, GLeaf b (y # eb')) # vs))"
proof -
  note F = pair_facts[OF T K]
  have ne: "a \<noteq> b" "pp \<noteq> a" "pp \<noteq> b" using F(6,7) by auto
  have par: "para = pp" "parb = pp" using F(2,3) P by auto
  have n: "n = 0" using F(10) by simp
  have "ord (key_comparator t) n (lo_of lo us ka) (hi_of hi vs) (GLeaf a (ea' @ y # eb'))"
    unfolding E(1) by (rule key_order.leaf_join[OF K F(10,11,12,13)])
  note R = key_order.leaf_resplit[OF K this E(2)]
  show ?thesis
    by (rule pair_update[OF T K]) (use ne par P F(1) R in auto)
qed

lemma node_pair_update:
  assumes T: "tree_at t fs (Suc (Suc n)) lo hi (GNode pp (us @ (ka, GNode a ca) # (kb, GNode b cb) # vs))"
    and K: "key_order (key_comparator t)" and E: "ca' @ y # cb' = ca @ cb" "ca' \<noteq> []"
    and M: "(tgt = a \<and> ca' = ca @ [x] \<and> cb = x # y # cb') \<or> (tgt = b \<and> ca = ca' @ [x] \<and> x = y \<and> cb' = cb)"
  shows "tree_at (t\<lparr>bt_pages := (reparent tgt {page_of (snd x)} (bt_pages t))
      (a \<mapsto> Internal_Node pp (items_of ca'), b \<mapsto> Internal_Node pp (items_of (y # cb')),
       pp \<mapsto> Internal_Node (par_of fs) (items_of us @ (ka, a) # (fst y, b) # items_of vs))\<rparr>) fs (Suc (Suc n)) lo hi
    (GNode pp (us @ (ka, GNode a ca') # (fst y, GNode b (y # cb')) # vs))"
proof -
  note F = pair_facts[OF T K]
  let ?P = "bt_pages t"
  let ?Q = "(reparent tgt {page_of (snd x)} ?P)(a \<mapsto> Internal_Node pp (items_of ca'), b \<mapsto> Internal_Node pp (items_of (y # cb')),
       pp \<mapsto> Internal_Node (par_of fs) (items_of us @ (ka, a) # (fst y, b) # items_of vs))"
  have nodes: "?P a = Some (Internal_Node pp (items_of ca))" "?P b = Some (Internal_Node pp (items_of cb))"
    "\<forall>z\<in>set ca. rep ?P a (snd z)" "\<forall>z\<in>set cb. rep ?P b (snd z)" using F(2,3) by auto
  have dis: "distinct (a # b # concat (map (\<lambda>z. pages_of (snd z)) (ca @ cb)))" using F(6) by auto
  have x: "x \<in> set (ca @ cb)" using M by auto
  have xp: "set (pages_of (snd x)) \<subseteq> pages_of_list ca \<union> pages_of_list cb" using x pages_in_list[of x] by fastforce
  have ne: "a \<noteq> b" "pp \<noteq> a" "pp \<noteq> b" "pp \<notin> pages_of_list ca \<union> pages_of_list cb"
    "a \<notin> pages_of_list ca \<union> pages_of_list cb" "b \<notin> pages_of_list ca \<union> pages_of_list cb"
    using F(7) dis by auto
  have same: "?Q z = ?P z" if "z \<in> pages_of_list ca \<union> pages_of_list cb" "z \<noteq> page_of (snd x)" for z
    using that ne by auto
  have moved: "rep ?Q tgt (snd x)"
  proof -
    obtain q where q: "rep ?P q (snd x)" using x nodes(3,4) by (cases "x \<in> set ca") auto
    obtain nx where nx: "?P (page_of (snd x)) = Some nx" using rep_page[OF q] by blast
    have pg: "page_of (snd x) \<in> pages_of_list ca \<union> pages_of_list cb" using xp page_of_in_pages by blast
    show ?thesis
    proof (rule rep_reparent[OF q nx])
      show "distinct (pages_of (snd x))" using dis x by (auto simp: distinct_concat_iff)
      show "?Q (page_of (snd x)) = Some (with_parent tgt nx)" using pg ne nx by auto
      show "?Q z = ?P z" if "z \<in> set (pages_of (snd x))" "z \<noteq> page_of (snd x)" for z
        by (rule same) (use that xp in auto)
    qed
  qed
  have ord: "ords (key_comparator t) n (lo_of lo us ka) (hi_of hi vs) (ca' @ y # cb')"
    unfolding E(1) by (rule key_order.node_join(1)[OF K F(10,11,12,13)])
  note R = key_order.node_resplit[OF K ord E(2)]
  have dl: "distinct (concat (map (\<lambda>z. pages_of (snd z)) (ca' @ y # cb')))" unfolding E(1) using dis by simp
  have reps: "rep ?Q pp (GNode a ca')" "rep ?Q pp (GNode b (y # cb'))"
  proof -
    have stay: "\<forall>z\<in>set zs. rep ?Q q (snd z)"
      if "\<forall>z\<in>set zs. rep ?P q (snd z)" "pages_of_list zs \<subseteq> pages_of_list ca \<union> pages_of_list cb"
        "page_of (snd x) \<notin> pages_of_list zs" for zs q
      by (rule reps_cong[OF that(1)], rule same) (use that(2,3) in auto)
    have px: "page_of (snd x) \<in> set (pages_of (snd x))" by (rule page_of_in_pages)
    from M show "rep ?Q pp (GNode a ca')" "rep ?Q pp (GNode b (y # cb'))"
    proof (atomize (full), elim disjE conjE, goal_cases)
      case 1
      have d: "page_of (snd x) \<notin> pages_of_list ca" "page_of (snd x) \<notin> pages_of_list (y # cb')"
        using dis px 1 by auto
      have "\<forall>z\<in>set ca. rep ?Q a (snd z)" by (rule stay[OF nodes(3) _ d(1)]) simp
      moreover have "\<forall>z\<in>set (y # cb'). rep ?Q b (snd z)" by (rule stay[OF _ _ d(2)]) (use nodes(4) 1 in auto)
      ultimately show ?case using 1 moved ne by simp
    next
      case 2
      have d: "page_of (snd x) \<notin> pages_of_list ca'" "page_of (snd x) \<notin> pages_of_list cb"
        using dis px 2 by auto
      have "\<forall>z\<in>set ca'. rep ?Q a (snd z)" by (rule stay[OF _ _ d(1)]) (use nodes(3) 2 in \<open>auto simp: ball_Un\<close>)
      moreover have "\<forall>z\<in>set cb. rep ?Q b (snd z)" by (rule stay[OF nodes(4) _ d(2)]) simp
      ultimately show ?case using 2 moved ne by simp
    qed
  qed
  show ?thesis
  proof (rule pair_update[OF T K _ reps _ _ _ _ R])
    show "?Q pp = Some (Internal_Node (par_of fs) (items_of (us @ (ka, GNode a ca') # (fst y, GNode b (y # cb')) # vs)))" by simp
    show "?Q z = ?P z" if "z \<noteq> pp" "z \<notin> set (pages_of (GNode a ca) @ pages_of (GNode b cb))" for z
    proof -
      have "z \<noteq> page_of (snd x)" using that xp page_of_in_pages[of "snd x"] by auto
      then show ?thesis using that by simp
    qed
    show "\<exists>par' es'. ?Q z = Some (Leaf_Node par' nx es')" if "?P z = Some (Leaf_Node par nx es)" for z par nx es
      using that nodes(1,2) F(1) by (cases "z = page_of (snd x)") auto
    show "mset (pages_of (GNode a ca') @ pages_of (GNode b (y # cb'))) = mset (pages_of (GNode a ca) @ pages_of (GNode b cb))"
      using arg_cong[OF E(1), of "\<lambda>zs. mset (concat (map (\<lambda>z. pages_of (snd z)) zs))"] by simp
    show "leaf_pages (GNode a ca') @ leaf_pages (GNode b (y # cb')) = leaf_pages (GNode a ca) @ leaf_pages (GNode b cb)"
      using arg_cong[OF E(1), of "\<lambda>zs. concat (map (\<lambda>z. leaf_pages (snd z)) zs)"] by simp
  qed
qed

text \<open>Merging the right neighbour into the left one.\<close>

lemma pair_merge:
  assumes T: "tree_at t fs (Suc n) lo hi (GNode pp (us @ (ka, A) # (kb, B) # vs))" and K: "key_order (key_comparator t)"
    and Q: "Q pp = Some (Internal_Node (par_of fs) (items_of (us @ (ka, AB) # vs)))" "rep Q pp AB"
      "\<And>x. x \<noteq> pp \<Longrightarrow> x \<notin> set (pages_of A @ pages_of B) \<Longrightarrow> Q x = bt_pages t x"
    and G: "mset (pages_of A @ pages_of B) = add_mset (page_of B) (mset (pages_of AB))"
    and ord: "ord (key_comparator t) n (lo_of lo us ka) (hi_of hi vs) AB"
    and link: "linked Q (left_leaves fs @ leaf_pages (GNode pp (us @ (ka, AB) # vs)) @ right_leaves fs) BP_INVALID_PAGE_NUM"
  shows "tree_at (t\<lparr>bt_pages := Q, disposed_pages := disposed_pages t @ [page_of B]\<rparr>) fs (Suc n) lo hi (GNode pp (us @ (ka, AB) # vs))"
    (is "tree_at ?t _ _ _ _ ?g")
proof (rule tree_at_change[OF T])
  note F = pair_facts[OF T K]
  note D = tree_atD[OF T]
  have m: "mset (pages_of (GNode pp (us @ (ka, A) # (kb, B) # vs))) = add_mset (page_of B) (mset (pages_of ?g))"
    using G by (simp add: ac_simps)
  have "distinct (pages_of (GNode pp (us @ (ka, A) # (kb, B) # vs)))" using D(7) by (simp only: distinct_append)
  then have dist: "distinct (page_of B # pages_of ?g)"
    using mset_eq_imp_distinct_iff[of "pages_of (GNode pp (us @ (ka, A) # (kb, B) # vs))" "page_of B # pages_of ?g"] m by simp
  then show "distinct (pages_of ?g)" by simp
  have set: "set (pages_of (GNode pp (us @ (ka, A) # (kb, B) # vs))) = insert (page_of B) (set (pages_of ?g))"
    using mset_eq_setD[of "pages_of (GNode pp (us @ (ka, A) # (kb, B) # vs))" "page_of B # pages_of ?g"] m by simp
  then show "set (pages_of ?g) \<subseteq> set (pages_of (GNode pp (us @ (ka, A) # (kb, B) # vs)))" by blast
  have area: "node_area ?t = node_area t - {page_of B}" by (auto simp: node_area_def)
  have "page_of B \<notin> set (ctx_pages fs)" using F(8) page_of_in_pages[of B] by auto
  then show "set (pages_of ?g @ ctx_pages fs) = node_area ?t"
    using D(10) set dist unfolding set_append area by auto
  have "\<forall>x\<in>set us. rep Q pp (snd x)" by (rule reps_cong[OF F(4)], rule Q(3)) (use F(7,8) in blast)+
  moreover have "\<forall>x\<in>set vs. rep Q pp (snd x)" by (rule reps_cong[OF F(5)], rule Q(3)) (use F(7,8) in blast)+
  ultimately show "rep (bt_pages ?t) (par_of fs) ?g" using Q(1,2) by (simp add: ball_Un)
  show "bt_pages ?t x = bt_pages t x" if "x \<in> set (ctx_pages fs)" for x
    using Q(3)[of x] F(7,8) that by auto
  have "ords (key_comparator t) n lo hi (us @ (ka, AB) # vs)" using key_order.ords_mid[OF K] F(9) ord by blast
  then show "ord (key_comparator t) (Suc n) lo hi ?g" by simp
  show "linked (bt_pages ?t) (left_leaves fs @ leaf_pages ?g @ right_leaves fs) BP_INVALID_PAGE_NUM" using link by simp
qed simp_all

lemma linked_drop:
  assumes "linked P (X @ a # b # Y) z" "P b = Some (Leaf_Node parb nx eb)" "Q a = Some (Leaf_Node para nx es)"
    and "\<And>x. x \<in> set X \<union> set Y \<Longrightarrow> Q x = P x"
  shows "linked Q (X @ a # Y) z"
proof -
  have "linked Q X z' = linked P X z'" "linked Q Y z' = linked P Y z'" for z'
    using assms(4) by (auto intro!: linked_cong)
  then show ?thesis using assms(1-3) by (auto simp: linked_append)
qed

lemma leaf_pair_merge:
  assumes T: "tree_at t fs (Suc n) lo hi (GNode pp (us @ (ka, GLeaf a ea) # (kb, GLeaf b eb) # vs))"
    and K: "key_order (key_comparator t)"
    and P: "bt_pages t a = Some (Leaf_Node para nxa ea)" "bt_pages t b = Some (Leaf_Node parb nxb eb)"
  shows "tree_at (t\<lparr>bt_pages := (bt_pages t)(pp \<mapsto> Internal_Node (par_of fs) (items_of us @ (ka, a) # items_of vs),
      a \<mapsto> Leaf_Node para nxb (ea @ eb), b \<mapsto> Leaf_Node parb nxb []),
      disposed_pages := disposed_pages t @ [b]\<rparr>) fs (Suc n) lo hi (GNode pp (us @ (ka, GLeaf a (ea @ eb)) # vs))"
proof -
  note F = pair_facts[OF T K]
  let ?P = "bt_pages t"
  let ?Q = "?P(pp \<mapsto> Internal_Node (par_of fs) (items_of us @ (ka, a) # items_of vs),
      a \<mapsto> Leaf_Node para nxb (ea @ eb), b \<mapsto> Leaf_Node parb nxb [])"
  have ne: "a \<noteq> b" "pp \<noteq> a" "pp \<noteq> b" using F(6,7) by auto
  have par: "para = pp" using F(2) P by auto
  have out: "?Q x = ?P x" if "x \<in> pages_of_list us \<union> pages_of_list vs \<union> set (ctx_pages fs)" for x
    using that F(7,8) by auto
  let ?X = "left_leaves fs @ concat (map (\<lambda>x. leaf_pages (snd x)) us)" and ?Y = "concat (map (\<lambda>x. leaf_pages (snd x)) vs) @ right_leaves fs"
  have l: "linked ?P (?X @ a # b # ?Y) BP_INVALID_PAGE_NUM" using tree_atD(9)[OF T] by simp
  have leaves: "set (concat (map (\<lambda>x. leaf_pages (snd x)) zs)) \<subseteq> pages_of_list zs" for zs
    using leaf_pages_sub by (force simp: pages_of_list_def simp del: set_concat_pages)
  have sub: "set ?X \<subseteq> pages_of_list us \<union> pages_of_list vs \<union> set (ctx_pages fs)"
    "set ?Y \<subseteq> pages_of_list us \<union> pages_of_list vs \<union> set (ctx_pages fs)"
    using leaves[of us] leaves[of vs] ctx_leaves_sub[of fs] unfolding set_append by blast+
  have "linked ?Q (?X @ a # ?Y) BP_INVALID_PAGE_NUM"
    by (rule linked_drop[OF l P(2)], use ne in simp, rule out) (use sub in blast)
  moreover have "ord (key_comparator t) n (lo_of lo us ka) (hi_of hi vs) (GLeaf a (ea @ eb))"
    by (rule key_order.leaf_join[OF K F(10,11,12,13)])
  ultimately show ?thesis
    using pair_merge[OF T K, of ?Q "GLeaf a (ea @ eb)"] ne par by simp
qed

lemma node_pair_merge:
  assumes T: "tree_at t fs (Suc (Suc n)) lo hi (GNode pp (us @ (ka, GNode a ca) # (kb, GNode b cb) # vs))"
    and K: "key_order (key_comparator t)"
  shows "tree_at (t\<lparr>bt_pages := (reparent a (snd ` set (items_of cb)) (bt_pages t))
      (pp \<mapsto> Internal_Node (par_of fs) (items_of us @ (ka, a) # items_of vs),
       a \<mapsto> Internal_Node pp (items_of (ca @ cb)), b \<mapsto> Internal_Node pp []),
      disposed_pages := disposed_pages t @ [b]\<rparr>) fs (Suc (Suc n)) lo hi (GNode pp (us @ (ka, GNode a (ca @ cb)) # vs))"
proof -
  note F = pair_facts[OF T K]
  let ?P = "bt_pages t"
  let ?Q = "(reparent a (snd ` set (items_of cb)) ?P)(pp \<mapsto> Internal_Node (par_of fs) (items_of us @ (ka, a) # items_of vs),
      a \<mapsto> Internal_Node pp (items_of (ca @ cb)), b \<mapsto> Internal_Node pp [])"
  have nodes: "?P a = Some (Internal_Node pp (items_of ca))" "?P b = Some (Internal_Node pp (items_of cb))"
    "\<forall>z\<in>set ca. rep ?P a (snd z)" "\<forall>z\<in>set cb. rep ?P b (snd z)" using F(2,3) by auto
  have ne: "a \<noteq> b" "pp \<noteq> a" "pp \<noteq> b" "pp \<notin> pages_of_list ca \<union> pages_of_list cb"
    "a \<notin> pages_of_list ca \<union> pages_of_list cb" "b \<notin> pages_of_list ca \<union> pages_of_list cb"
    "pages_of_list ca \<inter> pages_of_list cb = {}" "distinct (concat (map (\<lambda>z. pages_of (snd z)) cb))"
    using F(6,7) by auto
  have "\<forall>z\<in>set ca. rep ?Q a (snd z)"
  proof (rule reps_cong[OF nodes(3)])
    fix y assume y: "y \<in> pages_of_list ca"
    then have "y \<notin> pages_of_list cb" using ne(7) by auto
    then show "?Q y = ?P y" using y ne by (auto simp: reparent_out)
  qed
  moreover have "\<forall>z\<in>set cb. rep ?Q a (snd z)"
    by (rule reps_moved[OF nodes(4) ne(8)]) (use ne in auto)
  ultimately have rep: "rep ?Q pp (GNode a (ca @ cb))" using ne by (auto simp: ball_Un)
  have ord: "ords (key_comparator t) n (lo_of lo us ka) (hi_of hi vs) (ca @ cb)"
    by (rule key_order.node_join(1)[OF K F(10,11,12,13)])
  have out: "?Q x = ?P x" if "x \<noteq> pp" "x \<notin> set (pages_of (GNode a ca) @ pages_of (GNode b cb))" for x
    using that by (auto simp: reparent_out)
  have "linked ?Q (left_leaves fs @ leaf_pages (GNode pp (us @ (ka, GNode a (ca @ cb)) # vs)) @ right_leaves fs) BP_INVALID_PAGE_NUM"
  proof (rule linked_next)
    show "linked ?P (left_leaves fs @ leaf_pages (GNode pp (us @ (ka, GNode a (ca @ cb)) # vs)) @ right_leaves fs) BP_INVALID_PAGE_NUM"
      using tree_atD(9)[OF T] by simp
    show "\<exists>par' es'. ?Q z = Some (Leaf_Node par' nx es')" if "?P z = Some (Leaf_Node par nx es)" for z par nx es
      using that nodes(1,2) F(1) by (auto simp: reparent_def)
  qed
  then show ?thesis
    using pair_merge[OF T K, of ?Q "GNode a (ca @ cb)"] rep ord out ne by simp
qed

end
