(* ===== verification/Bplus_Tree_Delete.thy ===== *)
theory Bplus_Tree_Delete
  imports Bplus_Tree_Merge
begin

text \<open>
  Deletion from a B+ tree: the pages after a deletion, with its redistributions and merges up to the root,
  represent the sorted list without the entry, and the pages that were given up are free.
\<close>

section \<open>Sizes\<close>

fun gsize :: "'k gtree \<Rightarrow> nat" where
  "gsize (GLeaf p es) = length es"
| "gsize (GNode p cs) = length cs"

fun gmax :: "nat \<Rightarrow> nat \<Rightarrow> 'k gtree \<Rightarrow> nat" where
  "gmax l i (GLeaf p es) = l"
| "gmax l i (GNode p cs) = i"

fun kids_ok :: "nat \<Rightarrow> nat \<Rightarrow> 'k gtree \<Rightarrow> bool" where
  "kids_ok l i (GLeaf p es) = True"
| "kids_ok l i (GNode p cs) = (\<forall>x\<in>set cs. filled l i (snd x))"

lemma filled_iff: "filled l i g \<longleftrightarrow> gmax l i g div 2 \<le> gsize g \<and> gsize g \<le> gmax l i g \<and> kids_ok l i g"
  by (cases g) auto

lemma root_filled_iff:
  "root_filled l i g \<longleftrightarrow> (case g of GLeaf _ _ \<Rightarrow> 1 | GNode _ _ \<Rightarrow> 2) \<le> gsize g \<and> gsize g \<le> gmax l i g \<and> kids_ok l i g"
  by (cases g) auto

definition index_conf :: "'k bplus_tree \<Rightarrow> bool" where
  "index_conf t \<longleftrightarrow> index_ok (t\<lparr>disposed_pages := []\<rparr>) \<and> distinct (disposed_pages t) \<and>
     set (disposed_pages t) \<subseteq> live_pages (fh (bt_hdr t)) - {0, FIRST_INDEX_PAGE}"

lemma index_confD:
  assumes "index_conf t"
  shows "key_order (key_comparator t)" "4 \<le> leaf_max_size t" "leaf_max_size t \<le> leaf_cap t"
    "6 \<le> internal_max_size t" "internal_max_size t \<le> internal_cap t"
  using assms by (simp_all add: index_conf_def index_ok_def leaf_cap_def internal_cap_def)

lemma index_conf_step:
  "index_conf (t\<lparr>bt_pages := f\<rparr>) = index_conf t"
  "index_conf t \<Longrightarrow> p \<in> node_area t \<Longrightarrow> index_conf (t\<lparr>bt_pages := f, disposed_pages := disposed_pages t @ [p]\<rparr>)"
  "index_conf t \<Longrightarrow> p \<in> node_area t \<Longrightarrow> index_conf (t\<lparr>root_page := q, bt_pages := f, disposed_pages := disposed_pages t @ [p]\<rparr>)"
  by (auto simp: index_conf_def index_ok_def leaf_cap_def internal_cap_def node_area_def)

lemma node_of_tree:
  assumes "rep P par g"
  obtains nd where "P (page_of g) = Some nd" "node_size nd = gsize g" "nd_parent nd = par"
    "\<forall>t. node_max_size t nd = gmax (leaf_max_size t) (internal_max_size t) g"
  using assms that by (cases g) (auto simp: node_size_def node_max_size_def)

section \<open>Redistribution\<close>

lemma reparent_upd: "p \<notin> S \<Longrightarrow> reparent q S (P(p \<mapsto> n)) = (reparent q S P)(p \<mapsto> n)"
  by (auto simp: reparent_def fun_eq_iff)

text \<open>What a redistribution gives: the neighbours with one item moved.\<close>

definition moved :: "nat \<Rightarrow> nat \<Rightarrow> 'k gtree \<Rightarrow> 'k gtree \<Rightarrow> 'k gtree \<Rightarrow> 'k gtree \<Rightarrow> bool" where
  "moved l i A B A' B' \<longleftrightarrow> entries A' @ entries B' = entries A @ entries B \<and>
     gmax l i A' = gmax l i A \<and> gmax l i B' = gmax l i B \<and> kids_ok l i A' \<and> kids_ok l i B'"

lemma redistribute_right:
  assumes T: "tree_at t fs (Suc n) lo hi (GNode pp ((ka, A) # (kb, B) # vs))" and C: "index_conf t"
    and S: "2 \<le> gsize B" "1 \<le> gsize A" "gsize A < gmax (leaf_max_size t) (internal_max_size t) A"
    and M: "kids_ok (leaf_max_size t) (internal_max_size t) A" "kids_ok (leaf_max_size t) (internal_max_size t) B"
  shows "\<exists>Q A' kb' B'. redistribute (page_of B) (page_of A) pp 0 t = Some (SUCCESS, t\<lparr>bt_pages := Q\<rparr>) \<and>
    tree_at (t\<lparr>bt_pages := Q\<rparr>) fs (Suc n) lo hi (GNode pp ((ka, A') # (kb', B') # vs)) \<and>
    moved (leaf_max_size t) (internal_max_size t) A B A' B' \<and> gsize A' = Suc (gsize A) \<and> Suc (gsize B') = gsize B"
proof -
  note K = index_confD(1)[OF C] and cap = index_confD(2-5)[OF C]
  have T': "tree_at t fs (Suc n) lo hi (GNode pp ([] @ (ka, A) # (kb, B) # vs))" using T by simp
  note F = pair_facts[OF T' K]
  let ?P = "bt_pages t"
  show ?thesis
  proof (cases A)
    case A: (GLeaf a ea)
    have n: "n = 0" using F(10) A by simp
    obtain b eb where B: "B = GLeaf b eb" using F(11) n by (cases B) auto
    obtain x y eb' where eb: "eb = x # y # eb'" using S(1) B by (auto simp: Suc_le_length_iff numeral_2_eq_2)
    obtain nxa nxb where P: "?P a = Some (Leaf_Node pp nxa ea)" "?P b = Some (Leaf_Node pp nxb eb)" using F(2,3) A B by auto
    have ne: "a \<noteq> b" "pp \<noteq> a" "pp \<noteq> b" using F(6,7) A B by auto
    let ?Q = "?P(a \<mapsto> Leaf_Node pp nxa (ea @ [x]), b \<mapsto> Leaf_Node pp nxb (y # eb'),
        pp \<mapsto> Internal_Node (par_of fs) (items_of [] @ (ka, a) # (fst y, b) # items_of vs))"
    have "redistribute b a pp 0 t = Some (SUCCESS, t\<lparr>bt_pages := ?Q\<rparr>)"
      using P ne F(1) A B eb S(3) cap set_key_at_eq[where xs = "[(ka, a)]" and p = pp]
      by (simp add: redistribute_def move_first_to_end_def leaf_move_first_to_end_eq node_key_at_def)
    moreover have "tree_at (t\<lparr>bt_pages := ?Q\<rparr>) fs (Suc n) lo hi (GNode pp ([] @ (ka, GLeaf a (ea @ [x])) # (fst y, GLeaf b (y # eb')) # vs))"
      by (rule leaf_pair_update[OF T'[unfolded A B] K _ _ P]) (simp_all add: eb)
    ultimately show ?thesis unfolding A B
      by (intro exI[of _ ?Q] exI[of _ "GLeaf a (ea @ [x])"] exI[of _ "fst y"] exI[of _ "GLeaf b (y # eb')"])
        (simp add: moved_def eb)
  next
    case A: (GNode a ca)
    obtain m where n: "n = Suc m" using F(10) A by (cases n) auto
    obtain b cb where B: "B = GNode b cb" using F(11) n by (cases B) auto
    obtain x y cb' where cb: "cb = x # y # cb'" using S(1) B by (auto simp: Suc_le_length_iff numeral_2_eq_2)
    have P: "?P a = Some (Internal_Node pp (items_of ca))" "?P b = Some (Internal_Node pp (items_of cb))"
      "rep ?P b (snd x)" using F(2,3) A B cb by auto
    have ne: "a \<noteq> b" "pp \<noteq> a" "pp \<noteq> b" "page_of (snd x) \<noteq> a" "page_of (snd x) \<noteq> b" "page_of (snd x) \<noteq> pp"
      using F(6,7) A B cb page_of_in_pages[of "snd x"] by auto
    obtain nx where nx: "?P (page_of (snd x)) = Some nx" using rep_page[OF P(3)] by blast
    let ?Q = "(reparent a {page_of (snd x)} ?P)(a \<mapsto> Internal_Node pp (items_of (ca @ [x])), b \<mapsto> Internal_Node pp (items_of (y # cb')),
        pp \<mapsto> Internal_Node (par_of fs) (items_of [] @ (ka, a) # (fst y, b) # items_of vs))"
    have "redistribute b a pp 0 t = Some (SUCCESS, t\<lparr>bt_pages := ?Q\<rparr>)"
      using P ne F(1) A B cb S(3) cap nx set_key_at_eq[where xs = "[(ka, a)]" and p = pp]
      by (simp add: redistribute_def move_first_to_end_def internal_move_first_to_end_eq node_key_at_def)
    moreover have "tree_at (t\<lparr>bt_pages := ?Q\<rparr>) fs (Suc (Suc m)) lo hi (GNode pp ([] @ (ka, GNode a (ca @ [x])) # (fst y, GNode b (y # cb')) # vs))"
      by (rule node_pair_update[OF T'[unfolded A B n] K]) (use cb in simp_all)
    ultimately show ?thesis unfolding A B n
      using M A B cb
      by (intro exI[of _ ?Q] exI[of _ "GNode a (ca @ [x])"] exI[of _ "fst y"] exI[of _ "GNode b (y # cb')"])
        (auto simp: moved_def)
  qed
qed

lemma redistribute_left:
  assumes T: "tree_at t fs (Suc n) lo hi (GNode pp (us @ (ka, A) # (kb, B) # vs))" and C: "index_conf t"
    and S: "2 \<le> gsize A" "gsize B < gmax (leaf_max_size t) (internal_max_size t) B"
    and M: "kids_ok (leaf_max_size t) (internal_max_size t) A" "kids_ok (leaf_max_size t) (internal_max_size t) B"
  shows "\<exists>Q A' kb' B'. redistribute (page_of A) (page_of B) pp (Suc (length us)) t = Some (SUCCESS, t\<lparr>bt_pages := Q\<rparr>) \<and>
    tree_at (t\<lparr>bt_pages := Q\<rparr>) fs (Suc n) lo hi (GNode pp (us @ (ka, A') # (kb', B') # vs)) \<and>
    moved (leaf_max_size t) (internal_max_size t) A B A' B' \<and> Suc (gsize A') = gsize A \<and> gsize B' = Suc (gsize B)"
proof -
  note K = index_confD(1)[OF C] and cap = index_confD(2-5)[OF C]
  note F = pair_facts[OF T K]
  let ?P = "bt_pages t"
  show ?thesis
  proof (cases A)
    case A: (GLeaf a ea)
    have n: "n = 0" using F(10) A by simp
    obtain b eb where B: "B = GLeaf b eb" using F(11) n by (cases B) auto
    have "ea \<noteq> []" using S(1) A by auto
    then obtain ea' x where ea: "ea = ea' @ [x]" by (cases ea rule: rev_cases) auto
    have ea': "ea' \<noteq> []" using S(1) A ea by auto
    obtain nxa nxb where P: "?P a = Some (Leaf_Node pp nxa ea)" "?P b = Some (Leaf_Node pp nxb eb)" using F(2,3) A B by auto
    have ne: "a \<noteq> b" "pp \<noteq> a" "pp \<noteq> b" using F(6,7) A B by auto
    let ?Q = "?P(a \<mapsto> Leaf_Node pp nxa ea', b \<mapsto> Leaf_Node pp nxb (x # eb),
        pp \<mapsto> Internal_Node (par_of fs) (items_of us @ (ka, a) # (fst x, b) # items_of vs))"
    have "redistribute a b pp (Suc (length us)) t = Some (SUCCESS, t\<lparr>bt_pages := ?Q\<rparr>)"
      using P ne F(1) A B ea S(2) cap set_key_at_eq[where xs = "items_of us @ [(ka, a)]" and p = pp]
      by (simp add: redistribute_def move_last_to_front_def leaf_move_last_to_front_eq node_key_at_def fun_upd_twist)
    moreover have "tree_at (t\<lparr>bt_pages := ?Q\<rparr>) fs (Suc n) lo hi (GNode pp (us @ (ka, GLeaf a ea') # (fst x, GLeaf b (x # eb)) # vs))"
      by (rule leaf_pair_update[OF T[unfolded A B] K _ ea' P]) (simp add: ea)
    ultimately show ?thesis unfolding A B
      by (intro exI[of _ ?Q] exI[of _ "GLeaf a ea'"] exI[of _ "fst x"] exI[of _ "GLeaf b (x # eb)"])
        (simp add: moved_def ea)
  next
    case A: (GNode a ca)
    obtain m where n: "n = Suc m" using F(10) A by (cases n) auto
    obtain b cb where B: "B = GNode b cb" using F(11) n by (cases B) auto
    have "ca \<noteq> []" using S(1) A by auto
    then obtain ca' x where ca: "ca = ca' @ [x]" by (cases ca rule: rev_cases) auto
    have ca': "ca' \<noteq> []" using S(1) A ca by auto
    have P: "?P a = Some (Internal_Node pp (items_of ca))" "?P b = Some (Internal_Node pp (items_of cb))"
      "rep ?P a (snd x)" using F(2,3) A B ca by auto
    have ne: "a \<noteq> b" "pp \<noteq> a" "pp \<noteq> b" "page_of (snd x) \<noteq> a" "page_of (snd x) \<noteq> b" "page_of (snd x) \<noteq> pp"
      using F(6,7) A B ca page_of_in_pages[of "snd x"] by auto
    obtain nx where nx: "?P (page_of (snd x)) = Some nx" using rep_page[OF P(3)] by blast
    let ?Q = "(reparent b {page_of (snd x)} ?P)(a \<mapsto> Internal_Node pp (items_of ca'), b \<mapsto> Internal_Node pp (items_of (x # cb)),
        pp \<mapsto> Internal_Node (par_of fs) (items_of us @ (ka, a) # (fst x, b) # items_of vs))"
    have "redistribute a b pp (Suc (length us)) t = Some (SUCCESS, t\<lparr>bt_pages := ?Q\<rparr>)"
      using P ne F(1) A B ca S(2) cap nx set_key_at_eq[where xs = "items_of us @ [(ka, a)]" and p = pp]
      by (simp add: redistribute_def move_last_to_front_def internal_move_last_to_front_eq node_key_at_def fun_upd_twist)
    moreover have "tree_at (t\<lparr>bt_pages := ?Q\<rparr>) fs (Suc (Suc m)) lo hi (GNode pp (us @ (ka, GNode a ca') # (fst x, GNode b (x # cb)) # vs))"
      by (rule node_pair_update[OF T[unfolded A B n] K _ ca']) (use ca in simp_all)
    ultimately show ?thesis unfolding A B n
      using M A B ca
      by (intro exI[of _ ?Q] exI[of _ "GNode a ca'"] exI[of _ "fst x"] exI[of _ "GNode b (x # cb)"])
        (auto simp: moved_def)
  qed
qed

section \<open>Merging\<close>

lemma coalesce_step:
  assumes T: "tree_at t fs (Suc n) lo hi (GNode pp (us @ (ka, A) # (kb, B) # vs))" and C: "index_conf t"
    and S: "gsize A + gsize B \<le> gmax (leaf_max_size t) (internal_max_size t) A"
    and M: "kids_ok (leaf_max_size t) (internal_max_size t) A" "kids_ok (leaf_max_size t) (internal_max_size t) B"
    and I: "(if index = 0 then (p, neighbor, 1) else (neighbor, p, index)) = (page_of A, page_of B, Suc (length us))"
  shows "\<exists>t' AB. coalesce_nodes neighbor p pp index t = Some (SUCCESS, t') \<and> index_conf t' \<and>
    key_comparator t' = key_comparator t \<and> leaf_max_size t' = leaf_max_size t \<and> internal_max_size t' = internal_max_size t \<and>
    tree_at t' fs (Suc n) lo hi (GNode pp (us @ (ka, AB) # vs)) \<and> entries AB = entries A @ entries B \<and>
    gsize AB = gsize A + gsize B \<and> kids_ok (leaf_max_size t) (internal_max_size t) AB \<and>
    gmax (leaf_max_size t) (internal_max_size t) AB = gmax (leaf_max_size t) (internal_max_size t) A"
proof -
  note K = index_confD(1)[OF C] and cap = index_confD(2-5)[OF C]
  note F = pair_facts[OF T K]
  let ?P = "bt_pages t" and ?N = "Internal_Node (par_of fs) (items_of us @ (ka, page_of A) # items_of vs)"
  have rm: "internal_remove_items pp (Suc (length us)) 1 t = Some (t\<lparr>bt_pages := ?P(pp \<mapsto> ?N)\<rparr>)"
    using internal_remove_item_eq[where xs = "items_of us @ [(ka, page_of A)]" and p = pp and t = t] F(1) by simp
  have start: "coalesce_nodes neighbor p pp index t = do {
      (r, t2) \<leftarrow> move_to (page_of B) (page_of A) (t\<lparr>bt_pages := ?P(pp \<mapsto> ?N)\<rparr>);
      if OB_FAIL r then Some (r, t2)
      else do { t3 \<leftarrow> link_merged (page_of A) (page_of B) t2; Some (SUCCESS, dispose_page_later (page_of B) t3) } }"
    unfolding coalesce_nodes_def I using rm by simp
  have area: "page_of B \<in> node_area t" using F(14) page_of_in_pages[of B] by auto
  show ?thesis
  proof (cases A)
    case A: (GLeaf a ea)
    have n: "n = 0" using F(10) A by simp
    obtain b eb where B: "B = GLeaf b eb" using F(11) n by (cases B) auto
    obtain nxa nxb where P: "?P a = Some (Leaf_Node pp nxa ea)" "?P b = Some (Leaf_Node pp nxb eb)" using F(2,3) A B by auto
    have ne: "a \<noteq> b" "pp \<noteq> a" "pp \<noteq> b" using F(6,7) A B by auto
    let ?Q = "?P(pp \<mapsto> Internal_Node (par_of fs) (items_of us @ (ka, a) # items_of vs),
      a \<mapsto> Leaf_Node pp nxb (ea @ eb), b \<mapsto> Leaf_Node pp nxb [])"
    let ?t = "t\<lparr>bt_pages := ?Q, disposed_pages := disposed_pages t @ [b]\<rparr>"
    have "leaf_cap (t\<lparr>bt_pages := f\<rparr>) = leaf_cap t" for f by (simp add: leaf_cap_def)
    then have "coalesce_nodes neighbor p pp index t = Some (SUCCESS, ?t)"
      using start P ne A B S cap
      by (simp add: move_to_def leaf_move_to_eq link_merged_def set_next_page_def put_node_def leaf_at_def dispose_page_later_def fun_upd_twist)
    moreover have "tree_at ?t fs (Suc n) lo hi (GNode pp (us @ (ka, GLeaf a (ea @ eb)) # vs))"
      by (rule leaf_pair_merge[OF T[unfolded A B] K P])
    ultimately show ?thesis using index_conf_step(2)[OF C area, of ?Q] A B
      by (intro exI[of _ ?t] exI[of _ "GLeaf a (ea @ eb)"]) simp
  next
    case A: (GNode a ca)
    obtain m where n: "n = Suc m" using F(10) A by (cases n) auto
    obtain b cb where B: "B = GNode b cb" using F(11) n by (cases B) auto
    have P: "?P a = Some (Internal_Node pp (items_of ca))" "?P b = Some (Internal_Node pp (items_of cb))"
      "\<forall>z\<in>set cb. rep ?P b (snd z)" using F(2,3) A B by auto
    have ne: "a \<noteq> b" "pp \<noteq> a" "pp \<noteq> b" "a \<notin> pages_of_list cb" "b \<notin> pages_of_list cb" "pp \<notin> pages_of_list cb"
      using F(6,7) A B by auto
    have out: "a \<notin> snd ` set (items_of cb)" "b \<notin> snd ` set (items_of cb)" "pp \<notin> snd ` set (items_of cb)"
      using ne(4-6) items_in_pages[of cb] by blast+
    have "\<forall>z\<in>set cb. ?P (page_of (snd z)) \<noteq> None" using P(3) rep_page by fast
    then have some: "\<forall>c\<in>set (items_of cb). ?P (snd c) \<noteq> None" unfolding items_of_def set_map ball_simps by simp
    let ?Q = "(reparent a (snd ` set (items_of cb)) ?P)(pp \<mapsto> Internal_Node (par_of fs) (items_of us @ (ka, a) # items_of vs),
      a \<mapsto> Internal_Node pp (items_of (ca @ cb)), b \<mapsto> Internal_Node pp [])"
    let ?t = "t\<lparr>bt_pages := ?Q, disposed_pages := disposed_pages t @ [b]\<rparr>"
    let ?t1 = "t\<lparr>bt_pages := ?P(pp \<mapsto> ?N)\<rparr>"
    have capt: "internal_cap ?t1 = internal_cap t" by (simp add: internal_cap_def)
    have "internal_move_to b a ?t1 = Some (SUCCESS, t\<lparr>bt_pages := ?Q\<rparr>)"
      using internal_move_to_eq[of ?t1 b pp "items_of cb" a pp "items_of ca"] P ne(1-3) out some capt S cap A B
      by (auto simp: reparent_upd)
    then have "coalesce_nodes neighbor p pp index t = Some (SUCCESS, ?t)"
      using start P ne(1-3) A B by (simp add: move_to_def link_merged_def dispose_page_later_def)
    moreover have "tree_at ?t fs (Suc (Suc m)) lo hi (GNode pp (us @ (ka, GNode a (ca @ cb)) # vs))"
      by (rule node_pair_merge[OF T[unfolded A B n] K])
    ultimately show ?thesis using index_conf_step(2)[OF C area, of ?Q] M A B n
      by (intro exI[of _ ?t] exI[of _ "GNode a (ca @ cb)"]) (simp add: ball_Un)
  qed
qed

section \<open>From a short node to the root\<close>

text \<open>The last key of a node lies between its bounds, and leads from the parent to the node.\<close>

lemma last_key:
  assumes "rep P par g" "ord cmp n lo hi g" "key_order cmp" "case g of GLeaf _ _ \<Rightarrow> 1 \<le> gsize g | GNode _ _ \<Rightarrow> 2 \<le> gsize g"
  obtains nd key where "P (page_of g) = Some nd" "node_key_at nd (node_size nd - 1) = Some key" "node_size nd = gsize g"
    "lo_le cmp lo key" "hi_gt cmp key hi"
proof (cases g)
  case (GLeaf p es)
  then have ne: "es \<noteq> []" using assms(4) by auto
  then have "es ! (length es - 1) \<in> set es" by (intro nth_mem) simp
  then have "lo_le cmp lo (fst (es ! (length es - 1)))" "hi_gt cmp (fst (es ! (length es - 1))) hi"
    using assms(2) GLeaf by auto
  then show thesis
    using that[of _ "fst (es ! (length es - 1))"] assms(1) GLeaf ne by (auto simp: node_key_at_def node_size_def)
next
  case (GNode p cs)
  then have len: "2 \<le> length cs" using assms(4) by simp
  have o: "ords cmp (n - 1) lo hi cs" using assms(2) GNode by simp
  have "tl cs ! (length cs - 2) \<in> set (tl cs)" using len by (intro nth_mem) simp
  moreover have "tl cs ! (length cs - 2) = cs ! (length cs - 1)" using len by (simp add: nth_tl numeral_2_eq_2 Suc_diff_Suc)
  ultimately have "lo_lt cmp lo (fst (cs ! (length cs - 1)))" "hi_gt cmp (fst (cs ! (length cs - 1))) hi"
    using key_order.ords_keys[OF assms(3) o] by metis+
  then show thesis
    using that[of _ "fst (cs ! (length cs - 1))"] assms(1) GNode len key_order.bound_trans(4)[OF assms(3)]
    by (auto simp: node_key_at_def node_size_def)
qed

definition nearly :: "bool \<Rightarrow> nat \<Rightarrow> nat \<Rightarrow> 'k gtree \<Rightarrow> bool" where
  "nearly root l i g \<longleftrightarrow> kids_ok l i g \<and> gsize g \<le> gmax l i g \<and>
     (if root then (case g of GLeaf _ _ \<Rightarrow> True | GNode _ _ \<Rightarrow> 1 \<le> gsize g) else gmax l i g div 2 \<le> Suc (gsize g))"

text \<open>The index afterwards: empty, or a tree with the given entries and at most the given height.\<close>

definition tree_or_empty :: "'k bplus_tree \<Rightarrow> nat \<Rightarrow> ('k \<times> rid) list \<Rightarrow> bool" where
  "tree_or_empty t h es \<longleftrightarrow> (is_empty t \<and> es = [] \<and> node_area t = {}) \<or> (\<exists>m g. tree_ok t m g \<and> m \<le> h \<and> entries g = es)"

lemma adjust_root_ok:
  assumes T: "tree_at t [] n lo hi g" and C: "index_conf t" and N: "nearly True (leaf_max_size t) (internal_max_size t) g" "gsize g \<le> 1"
  shows "\<exists>r t'. adjust_root (page_of g) t = Some (r, t') \<and> index_conf t' \<and> key_comparator t' = key_comparator t \<and>
    tree_or_empty t' n (entries g)"
proof (cases g)
  case g: (GLeaf p es)
  note D = tree_atD[OF T]
  obtain nx where P: "bt_pages t p = Some (Leaf_Node BP_INVALID_PAGE_NUM nx es)" using D(2) g by auto
  show ?thesis
  proof (cases "es = []")
    case True
    have area: "node_area t = {p}" using D(10) g by simp
    then have "node_area (t\<lparr>root_page := BP_INVALID_PAGE_NUM, disposed_pages := disposed_pages t @ [p]\<rparr>) = {}"
      by (auto simp: node_area_def)
    then show ?thesis
      using area P True g index_conf_step(3)[OF C, where p = p and q = BP_INVALID_PAGE_NUM and f = "bt_pages t"]
      by (simp add: adjust_root_def tree_or_empty_def is_empty_def dispose_page_later_def update_root_page_num_locked_def)
  next
    case False
    have "tree_ok t (n + length ([] :: 'a path_frame list)) (plug [] g)"
      by (rule tree_at_ok[OF T index_confD(1)[OF C]]) (use N(1) False g in \<open>auto simp: nearly_def Suc_le_eq\<close>)
    then have "tree_or_empty t n (entries g)" unfolding tree_or_empty_def by auto
    then show ?thesis
      using P False g C by (intro exI[of _ SUCCESS] exI[of _ t]) (simp add: adjust_root_def)
  qed
next
  case g: (GNode p cs)
  note D = tree_atD[OF T]
  have "length cs = 1" using N g by (auto simp: nearly_def)
  then obtain k c where cs: "cs = [(k, c)]" by (auto simp: length_Suc_conv)
  have P: "bt_pages t p = Some (Internal_Node BP_INVALID_PAGE_NUM [(k, page_of c)])" "rep (bt_pages t) p c" using D(2) g cs by auto
  obtain nc where nc: "bt_pages t (page_of c) = Some nc" using rep_page[OF P(2)] by blast
  let ?Q = "(bt_pages t)(page_of c \<mapsto> with_parent BP_INVALID_PAGE_NUM nc)"
  let ?t = "t\<lparr>root_page := page_of c, bt_pages := ?Q, disposed_pages := disposed_pages t @ [p]\<rparr>"
  have run: "adjust_root p t = Some (SUCCESS, ?t)"
    using P nc by (simp add: adjust_root_def value_at_def set_parent_page_num_eq update_root_page_num_locked_def dispose_page_later_def)
  have area: "p \<in> node_area t" "set (pages_of c) \<subseteq> node_area t" "p \<notin> set (pages_of c)" "distinct (pages_of c)"
    using D(7,8) g cs by auto
  obtain m where m: "n = Suc m" "ord (key_comparator t) m None None c" using D(4,5) g cs by (cases n) auto
  have "filled (leaf_max_size t) (internal_max_size t) c" using N(1) g cs by (simp add: nearly_def)
  then have "root_filled (leaf_max_size t) (internal_max_size t) c"
    using index_confD[OF C] by (cases c) auto
  moreover have "rep ?Q BP_INVALID_PAGE_NUM c" by (rule rep_reparent[OF P(2) nc area(4)]) auto
  moreover have "linked ?Q (leaf_pages c) BP_INVALID_PAGE_NUM"
    by (rule linked_next[of "bt_pages t"]) (use D(9) g cs nc in auto)
  moreover have "node_area ?t = node_area t - {p}" by (auto simp: node_area_def)
  moreover have "node_area t = insert p (set (pages_of c))" using D(10) g cs by auto
  ultimately have "tree_ok ?t m c" using m area by (auto simp: tree_ok_def)
  then have "tree_or_empty ?t n (entries g)"
    unfolding tree_or_empty_def using g cs m(1) by (intro disjI2 exI[of _ m] exI[of _ c]) simp
  then show ?thesis
    using run index_conf_step(3)[OF C area(1), where q = "page_of c" and f = ?Q] g
    by (intro exI[of _ SUCCESS] exI[of _ ?t]) simp
qed

lemma tree_or_emptyI:
  assumes "tree_at t fs n lo hi g" "index_conf t"
    and "if fs = [] then root_filled (leaf_max_size t) (internal_max_size t) g else filled (leaf_max_size t) (internal_max_size t) g"
  shows "tree_or_empty t (n + length fs) (left_entries fs @ entries g @ right_entries fs)"
  using tree_at_ok[OF assms(1) index_confD(1)[OF assms(2)] assms(3)]
  unfolding tree_or_empty_def by (metis le_refl plug_entries)

text \<open>The neighbour that the code chooses, and the pair in the order of the keys.\<close>

lemma short_node_run:
  assumes T: "tree_at t ((pp, ls, k, rs) # fs) n lo hi g" and C: "index_conf t"
    and N: "nearly False (leaf_max_size t) (internal_max_size t) g"
    and short: "gsize g < gmax (leaf_max_size t) (internal_max_size t) g - gmax (leaf_max_size t) (internal_max_size t) g div 2"
    and nb: "if ls = [] then rs = (kn, nb) # rs' else ls = rs' @ [(kn, nb)]"
  shows "coalesce_or_redistribute (page_of g) t =
    (if gsize g + gsize nb > gmax (leaf_max_size t) (internal_max_size t) g
     then redistribute (page_of nb) (page_of g) pp (length ls) t
     else do { (r, t1) \<leftarrow> coalesce_nodes (page_of nb) (page_of g) pp (length ls) t;
       if OB_FAIL r then Some (r, t1) else coalesce_or_redistribute pp t1 })"
proof -
  note K = index_confD(1)[OF C] and D = tree_atD[OF T]
  obtain lo' hi' where o: "lo = lo_of lo' ls k" "hi = hi_of hi' rs" "frame_ok (key_comparator t) n lo' hi' ls k rs"
    using tree_at_pop[OF T K] by blast
  have P: "bt_pages t pp = Some (Internal_Node (par_of fs) (items_of ls @ (k, page_of g) # items_of rs))"
    "rep (bt_pages t) pp g" using D(2,3) by auto
  have "rep (bt_pages t) pp nb" using D(3) nb by (auto split: if_splits)
  then obtain nbn where nbn: "bt_pages t (page_of nb) = Some nbn" "node_size nbn = gsize nb"
    by (rule node_of_tree)
  have "case g of GLeaf _ _ \<Rightarrow> 1 \<le> gsize g | GNode _ _ \<Rightarrow> 2 \<le> gsize g"
    using N index_confD(2,4)[OF C] by (cases g) (auto simp: nearly_def)
  then obtain nd key where nd: "bt_pages t (page_of g) = Some nd" "node_key_at nd (node_size nd - 1) = Some key"
    "node_size nd = gsize g" "lo_le (key_comparator t) lo key" "hi_gt (key_comparator t) key hi"
    by (rule last_key[OF P(2) D(5) K])
  obtain nd' where "bt_pages t (page_of g) = Some nd'" "nd_parent nd' = pp"
    "\<forall>t. node_max_size t nd' = gmax (leaf_max_size t) (internal_max_size t) g" by (rule node_of_tree[OF P(2)])
  then have par: "nd_parent nd = pp" "node_max_size t nd = gmax (leaf_max_size t) (internal_max_size t) g" using nd(1) by auto
  have look: "fst (internal_lookup (key_comparator t) (items_of ls @ (k, page_of g) # items_of rs) key) = length ls"
    by (rule key_order.lookup_hole[OF K o(3)]) (use nd(4,5) o in auto)
  have "pp \<in> node_area t" using D(8) by simp
  then have pos: "pp \<noteq> BP_INVALID_PAGE_NUM" using node_area_pos[of pp t] by auto
  have val: "value_at (items_of ls @ (k, page_of g) # items_of rs) (length ls) = Some (page_of g)"
    "value_at (items_of ls @ (k, page_of g) # items_of rs) (if length ls = 0 then 1 else length ls - 1) = Some (page_of nb)"
    using nb by (auto simp: value_at_def nth_append split: if_splits)
  have "0 < gsize g" using \<open>case g of GLeaf _ _ \<Rightarrow> 1 \<le> gsize g | GNode _ _ \<Rightarrow> 2 \<le> gsize g\<close> by (cases g) auto
  moreover obtain cs where cs: "cs = items_of ls @ (k, page_of g) # items_of rs" by simp
  ultimately show ?thesis
    using nd(1-3) par pos P(1)[folded cs] look[folded cs] val[folded cs] nbn short
    by (cases "ls = []") (simp_all add: coalesce_or_redistribute.simps[of "page_of g"] node_min_size_def Let_def not_le)
qed

lemma same_height_max:
  "ord cmp n lo hi A \<Longrightarrow> ord cmp n lo' hi' B \<Longrightarrow> gmax l i A = gmax l i B"
  by (cases A; cases B) auto

text \<open>One step up: after it the tree is in order, or the parent may be short.\<close>

lemma short_node_step:
  assumes T: "tree_at t ((pp, ls, k, rs) # fs) n lo hi g" and C: "index_conf t"
    and N: "nearly False (leaf_max_size t) (internal_max_size t) g"
    and short: "gsize g < gmax (leaf_max_size t) (internal_max_size t) g - gmax (leaf_max_size t) (internal_max_size t) g div 2"
  shows "\<exists>t'. index_conf t' \<and> key_comparator t' = key_comparator t \<and>
    (coalesce_or_redistribute (page_of g) t = Some (SUCCESS, t') \<and>
     tree_or_empty t' (n + length ((pp, ls, k, rs) # fs))
       (left_entries ((pp, ls, k, rs) # fs) @ entries g @ right_entries ((pp, ls, k, rs) # fs)) \<or>
     coalesce_or_redistribute (page_of g) t = coalesce_or_redistribute pp t' \<and>
     (\<exists>lo' hi' cs. tree_at t' fs (Suc n) lo' hi' (GNode pp cs) \<and>
        nearly (fs = []) (leaf_max_size t') (internal_max_size t') (GNode pp cs) \<and>
        entries (GNode pp cs) = entries (GNode pp (ls @ (k, g) # rs))))"
proof -
  note K = index_confD(1)[OF C] and D = tree_atD[OF T]
  let ?l = "leaf_max_size t" and ?i = "internal_max_size t"
  have fill: "(if fs = [] then 2 else ?i div 2) \<le> length ls + 1 + length rs" "length ls + 1 + length rs \<le> ?i"
    "\<forall>x\<in>set ls. filled ?l ?i (snd x)" "\<forall>x\<in>set rs. filled ?l ?i (snd x)" "fillc ?l ?i fs"
    using D(6) by (simp_all add: ball_Un)
  have two: "2 \<le> length ls + 1 + length rs" using fill(1) index_confD(4)[OF C] by (auto split: if_splits)
  obtain lo' hi' where W: "tree_at t fs (Suc n) lo' hi' (GNode pp (ls @ (k, g) # rs))" using tree_at_pop[OF T K] by blast
  have shape: "gmax ?l ?i g div 2 \<le> Suc (gsize g)" "kids_ok ?l ?i g" using N by (simp_all add: nearly_def)
  have szg: "1 \<le> gsize g" using shape(1) index_confD(2,4)[OF C] by (cases g) auto
  show ?thesis
  proof (cases "ls = []")
    case True
    then obtain kn nb vs where rs: "rs = (kn, nb) # vs" using two by (cases rs) auto
    have W1: "tree_at t fs (Suc n) lo' hi' (GNode pp ((k, g) # (kn, nb) # vs))" using W True rs by simp
    have W2: "tree_at t fs (Suc n) lo' hi' (GNode pp ([] @ (k, g) # (kn, nb) # vs))" using W1 by simp
    note F = pair_facts[OF W2 K]
    have nbf: "filled ?l ?i nb" using fill(4) rs by simp
    have mx: "gmax ?l ?i nb = gmax ?l ?i g" by (rule same_height_max[OF F(11,10)])
    have run: "coalesce_or_redistribute (page_of g) t = (if gsize g + gsize nb > gmax ?l ?i g
        then redistribute (page_of nb) (page_of g) pp 0 t
        else do { (r, t1) \<leftarrow> coalesce_nodes (page_of nb) (page_of g) pp 0 t;
          if OB_FAIL r then Some (r, t1) else coalesce_or_redistribute pp t1 })"
      using short_node_run[OF T C N short, of kn nb vs] True rs by simp
    show ?thesis
    proof (cases "gsize g + gsize nb > gmax ?l ?i g")
      case big: True
      have sz: "2 \<le> gsize nb" "1 \<le> gsize g" "gsize g < gmax ?l ?i g" "gmax ?l ?i g div 2 < gsize nb - 1"
        using big short nbf mx shape(1) szg by (auto simp: filled_iff)
      from redistribute_right[OF W1 C sz(1-3) shape(2)] nbf obtain Q A' kb' B' where
        r: "redistribute (page_of nb) (page_of g) pp 0 t = Some (SUCCESS, t\<lparr>bt_pages := Q\<rparr>)"
          "tree_at (t\<lparr>bt_pages := Q\<rparr>) fs (Suc n) lo' hi' (GNode pp ((k, A') # (kb', B') # vs))"
          "moved ?l ?i g nb A' B'" "gsize A' = Suc (gsize g)" "Suc (gsize B') = gsize nb"
        by (auto simp: filled_iff)
      have "filled ?l ?i A'" "filled ?l ?i B'" using r(3-5) sz shape nbf mx by (auto simp: filled_iff moved_def)
      then have "\<forall>x\<in>set ((k, A') # (kb', B') # vs). filled ?l ?i (snd x)" using fill(4) rs by simp
      moreover have "length ((k, A') # (kb', B') # vs) = length ls + 1 + length rs" using True rs by simp
      ultimately have "tree_or_empty (t\<lparr>bt_pages := Q\<rparr>) (Suc n + length fs)
          (left_entries fs @ entries (GNode pp ((k, A') # (kb', B') # vs)) @ right_entries fs)"
        using fill(1,2) C by (intro tree_or_emptyI[OF r(2)]) (auto simp: index_conf_step(1))
      moreover have "entries A' @ entries B' @ z = entries g @ entries nb @ z" for z
        using r(3) unfolding moved_def by (metis append.assoc)
      ultimately have "tree_or_empty (t\<lparr>bt_pages := Q\<rparr>) (n + length ((pp, ls, k, rs) # fs))
          (left_entries ((pp, ls, k, rs) # fs) @ entries g @ right_entries ((pp, ls, k, rs) # fs))"
        using True rs by simp
      then show ?thesis
        using run big r(1) C by (intro exI[of _ "t\<lparr>bt_pages := Q\<rparr>"] conjI disjI1) (simp_all add: index_conf_step(1))
    next
      case small: False
      from coalesce_step[OF W2 C _ shape(2), of 0 "page_of g" "page_of nb"] small nbf obtain t' AB where
        c: "coalesce_nodes (page_of nb) (page_of g) pp 0 t = Some (SUCCESS, t')" "index_conf t'"
          "key_comparator t' = key_comparator t" "leaf_max_size t' = ?l" "internal_max_size t' = ?i"
          "tree_at t' fs (Suc n) lo' hi' (GNode pp ([] @ (k, AB) # vs))" "entries AB = entries g @ entries nb"
          "gsize AB = gsize g + gsize nb" "kids_ok ?l ?i AB" "gmax ?l ?i AB = gmax ?l ?i g"
        by (auto simp: filled_iff)
      have "filled ?l ?i AB" using c(8-10) small nbf mx by (auto simp: filled_iff)
      then have "nearly (fs = []) ?l ?i (GNode pp ((k, AB) # vs))"
        using fill True rs by (auto simp: nearly_def)
      then show ?thesis
        using run small c True rs by (intro exI[of _ t'] conjI disjI2 exI[of _ lo'] exI[of _ hi'] exI[of _ "(k, AB) # vs"]) auto
    qed
  next
    case False
    then obtain us kn nb where ls: "ls = us @ [(kn, nb)]" by (cases ls rule: rev_cases) auto
    have W1: "tree_at t fs (Suc n) lo' hi' (GNode pp (us @ (kn, nb) # (k, g) # rs))" using W ls by simp
    note F = pair_facts[OF W1 K]
    have nbf: "filled ?l ?i nb" using fill(3) ls by simp
    have mx: "gmax ?l ?i nb = gmax ?l ?i g" by (rule same_height_max[OF F(10,11)])
    have run: "coalesce_or_redistribute (page_of g) t = (if gsize g + gsize nb > gmax ?l ?i g
        then redistribute (page_of nb) (page_of g) pp (Suc (length us)) t
        else do { (r, t1) \<leftarrow> coalesce_nodes (page_of nb) (page_of g) pp (Suc (length us)) t;
          if OB_FAIL r then Some (r, t1) else coalesce_or_redistribute pp t1 })"
      using short_node_run[OF T C N short, of kn nb us] ls by simp
    show ?thesis
    proof (cases "gsize g + gsize nb > gmax ?l ?i g")
      case big: True
      have sz: "2 \<le> gsize nb" "gsize g < gmax ?l ?i g" "gmax ?l ?i g div 2 < gsize nb - 1"
        using big short nbf mx shape(1) by (auto simp: filled_iff)
      from redistribute_left[OF W1 C sz(1,2) _ shape(2)] nbf obtain Q A' kb' B' where
        r: "redistribute (page_of nb) (page_of g) pp (Suc (length us)) t = Some (SUCCESS, t\<lparr>bt_pages := Q\<rparr>)"
          "tree_at (t\<lparr>bt_pages := Q\<rparr>) fs (Suc n) lo' hi' (GNode pp (us @ (kn, A') # (kb', B') # rs))"
          "moved ?l ?i nb g A' B'" "Suc (gsize A') = gsize nb" "gsize B' = Suc (gsize g)"
        by (auto simp: filled_iff)
      have "filled ?l ?i A'" "filled ?l ?i B'" using r(3-5) sz shape nbf mx by (auto simp: filled_iff moved_def)
      then have "\<forall>x\<in>set (us @ (kn, A') # (kb', B') # rs). filled ?l ?i (snd x)" using fill(3,4) ls by (simp add: ball_Un)
      moreover have "length (us @ (kn, A') # (kb', B') # rs) = length ls + 1 + length rs" using ls by simp
      ultimately have "tree_or_empty (t\<lparr>bt_pages := Q\<rparr>) (Suc n + length fs)
          (left_entries fs @ entries (GNode pp (us @ (kn, A') # (kb', B') # rs)) @ right_entries fs)"
        using fill(1,2) C by (intro tree_or_emptyI[OF r(2)]) (auto simp: index_conf_step(1))
      moreover have "entries A' @ entries B' @ z = entries nb @ entries g @ z" for z
        using r(3) unfolding moved_def by (metis append.assoc)
      ultimately have "tree_or_empty (t\<lparr>bt_pages := Q\<rparr>) (n + length ((pp, ls, k, rs) # fs))
          (left_entries ((pp, ls, k, rs) # fs) @ entries g @ right_entries ((pp, ls, k, rs) # fs))"
        using ls by simp
      then show ?thesis
        using run big r(1) C by (intro exI[of _ "t\<lparr>bt_pages := Q\<rparr>"] conjI disjI1) (simp_all add: index_conf_step(1))
    next
      case small: False
      from coalesce_step[OF W1 C _ _ shape(2), of "Suc (length us)" "page_of g" "page_of nb"] small nbf mx obtain t' AB where
        c: "coalesce_nodes (page_of nb) (page_of g) pp (Suc (length us)) t = Some (SUCCESS, t')" "index_conf t'"
          "key_comparator t' = key_comparator t" "leaf_max_size t' = ?l" "internal_max_size t' = ?i"
          "tree_at t' fs (Suc n) lo' hi' (GNode pp (us @ (kn, AB) # rs))" "entries AB = entries nb @ entries g"
          "gsize AB = gsize nb + gsize g" "kids_ok ?l ?i AB" "gmax ?l ?i AB = gmax ?l ?i nb"
        by (auto simp: filled_iff)
      have "filled ?l ?i AB" using c(8-10) small nbf mx by (auto simp: filled_iff)
      then have "nearly (fs = []) ?l ?i (GNode pp (us @ (kn, AB) # rs))"
        using fill ls by (auto simp: nearly_def ball_Un)
      then show ?thesis
        using run small c ls by (intro exI[of _ t'] conjI disjI2 exI[of _ lo'] exI[of _ hi'] exI[of _ "us @ (kn, AB) # rs"]) auto
    qed
  qed
qed

lemma coalesce_or_redistribute_ok:
  assumes "index_conf t" "tree_at t fs n lo hi g" "nearly (fs = []) (leaf_max_size t) (internal_max_size t) g"
  shows "\<exists>t'. coalesce_or_redistribute (page_of g) t = Some (SUCCESS, t') \<and> index_conf t' \<and>
    key_comparator t' = key_comparator t \<and> tree_or_empty t' (n + length fs) (left_entries fs @ entries g @ right_entries fs)"
  using assms
proof (induction fs arbitrary: t n lo hi g)
  case Nil
  let ?l = "leaf_max_size t" and ?i = "internal_max_size t"
  have "rep (bt_pages t) BP_INVALID_PAGE_NUM g" using tree_atD(2)[OF Nil.prems(2)] by simp
  then obtain nd where nd: "bt_pages t (page_of g) = Some nd" "node_size nd = gsize g" "nd_parent nd = BP_INVALID_PAGE_NUM"
    "\<forall>t. node_max_size t nd = gmax (leaf_max_size t) (internal_max_size t) g"
    by (rule node_of_tree)
  show ?case
  proof (cases "gsize g \<ge> gmax ?l ?i g - gmax ?l ?i g div 2 \<or> 1 < gsize g")
    case True
    have "root_filled ?l ?i g"
      using True Nil.prems(3) index_confD(2,4)[OF Nil.prems(1)] unfolding root_filled_iff nearly_def by (cases g) auto
    then have "tree_or_empty t (n + length ([] :: 'a path_frame list)) (left_entries [] @ entries g @ right_entries [])"
      by (intro tree_or_emptyI[OF Nil.prems(2,1)]) simp
    then show ?thesis
      using True nd Nil.prems(1) by (intro exI[of _ t]) (auto simp: coalesce_or_redistribute.simps node_min_size_def)
  next
    case False
    have "gsize g \<le> 1" using False by simp
    from adjust_root_ok[OF Nil.prems(2,1) _ this] Nil.prems(3) obtain r t' where
      "adjust_root (page_of g) t = Some (r, t')" "index_conf t'" "key_comparator t' = key_comparator t" "tree_or_empty t' n (entries g)"
      by auto
    then show ?thesis using False nd by (intro exI[of _ t']) (auto simp: coalesce_or_redistribute.simps node_min_size_def)
  qed
next
  case (Cons f fs)
  obtain pp ls k rs where f: "f = (pp, ls, k, rs)" by (cases f)
  let ?l = "leaf_max_size t" and ?i = "internal_max_size t"
  note T = Cons.prems(2)[unfolded f]
  obtain nd where nd: "bt_pages t (page_of g) = Some nd" "node_size nd = gsize g" "nd_parent nd = par_of ((pp, ls, k, rs) # fs)"
    "\<forall>t. node_max_size t nd = gmax (leaf_max_size t) (internal_max_size t) g"
    by (rule node_of_tree[OF tree_atD(2)[OF T]])
  show ?case
  proof (cases "gsize g \<ge> gmax ?l ?i g - gmax ?l ?i g div 2")
    case True
    have "filled ?l ?i g" using True Cons.prems(3) unfolding filled_iff nearly_def by auto
    then have "tree_or_empty t (n + length (f # fs)) (left_entries (f # fs) @ entries g @ right_entries (f # fs))"
      by (intro tree_or_emptyI[OF Cons.prems(2,1)]) simp
    then show ?thesis
      using True nd Cons.prems(1) by (intro exI[of _ t]) (auto simp: coalesce_or_redistribute.simps node_min_size_def)
  next
    case False
    then have short: "gsize g < gmax ?l ?i g - gmax ?l ?i g div 2" by simp
    have N: "nearly False ?l ?i g" using Cons.prems(3) by simp
    from short_node_step[OF T Cons.prems(1) N short] obtain t' where t': "index_conf t'" "key_comparator t' = key_comparator t"
      and alt: "(coalesce_or_redistribute (page_of g) t = Some (SUCCESS, t') \<and>
     tree_or_empty t' (n + length ((pp, ls, k, rs) # fs))
       (left_entries ((pp, ls, k, rs) # fs) @ entries g @ right_entries ((pp, ls, k, rs) # fs)) \<or>
     coalesce_or_redistribute (page_of g) t = coalesce_or_redistribute pp t' \<and>
     (\<exists>lo' hi' cs. tree_at t' fs (Suc n) lo' hi' (GNode pp cs) \<and>
        nearly (fs = []) (leaf_max_size t') (internal_max_size t') (GNode pp cs) \<and>
        entries (GNode pp cs) = entries (GNode pp (ls @ (k, g) # rs))))" by (elim exE conjE)
    from alt show ?thesis
    proof (elim disjE exE conjE, goal_cases)
      case 1
      then show ?case using t' f by (intro exI[of _ t']) simp
    next
      case (2 lo' hi' cs)
      from Cons.IH[OF t'(1) 2(2,3)] obtain t2 where "coalesce_or_redistribute pp t' = Some (SUCCESS, t2)" "index_conf t2"
        "key_comparator t2 = key_comparator t'" "tree_or_empty t2 (Suc n + length fs) (left_entries fs @ entries (GNode pp cs) @ right_entries fs)"
        by auto
      then show ?case using 2(1,4) t'(2) f by (intro exI[of _ t2]) simp
    qed
  qed
qed

section \<open>Freeing pages\<close>

lemma dispose_all_ok:
  assumes "hdr_ok (fh (bt_hdr t))" "distinct ps" "set ps \<subseteq> live_pages (fh (bt_hdr t)) - {0}"
  shows "\<exists>h. dispose_all ps t = Some (t\<lparr>bt_hdr := h\<rparr>) \<and> hdr_ok (fh h) \<and> live_pages (fh h) = live_pages (fh (bt_hdr t)) - set ps"
  using assms
proof (induction ps arbitrary: t)
  case Nil
  then show ?case by (intro exI[of _ "bt_hdr t"]) simp
next
  case (Cons p ps)
  have p: "p \<in> live_pages (fh (bt_hdr t))" "p \<noteq> 0" using Cons.prems(3) by auto
  note H = header_dispose_eq[OF Cons.prems(1) p]
  let ?h = "stepped (DEALLOCATE p) (put_page (fh (bt_hdr t)) (nat p) False) (bt_hdr t)"
  have "\<exists>h. dispose_all ps (t\<lparr>bt_hdr := ?h\<rparr>) = Some (t\<lparr>bt_hdr := ?h\<rparr>\<lparr>bt_hdr := h\<rparr>) \<and> hdr_ok (fh h) \<and>
      live_pages (fh h) = live_pages (fh (bt_hdr (t\<lparr>bt_hdr := ?h\<rparr>))) - set ps"
    by (rule Cons.IH) (use H Cons.prems in auto)
  then show ?case using H(1,3) by auto
qed

lemma release_ok:
  assumes "index_conf t"
  shows "\<exists>h. release t = Some (t\<lparr>bt_hdr := h, disposed_pages := []\<rparr>) \<and> index_ok (t\<lparr>bt_hdr := h, disposed_pages := []\<rparr>) \<and>
    node_area (t\<lparr>bt_hdr := h, disposed_pages := []\<rparr>) = node_area t"
proof -
  have c: "hdr_ok (fh (bt_hdr t))" "distinct (disposed_pages t)" "set (disposed_pages t) \<subseteq> live_pages (fh (bt_hdr t)) - {0}"
    "FIRST_INDEX_PAGE \<in> live_pages (fh (bt_hdr t))" "FIRST_INDEX_PAGE \<notin> set (disposed_pages t)"
    using assms by (auto simp: index_conf_def index_ok_def)
  obtain h where h: "dispose_all (disposed_pages t) t = Some (t\<lparr>bt_hdr := h\<rparr>)" "hdr_ok (fh h)"
    "live_pages (fh h) = live_pages (fh (bt_hdr t)) - set (disposed_pages t)" using dispose_all_ok[OF c(1-3)] by blast
  have "index_ok (t\<lparr>bt_hdr := h, disposed_pages := []\<rparr>)"
    using assms h(2,3) c(4,5) by (simp add: index_conf_def index_ok_def leaf_cap_def internal_cap_def)
  moreover have "node_area (t\<lparr>bt_hdr := h, disposed_pages := []\<rparr>) = node_area t" using h(3) by (auto simp: node_area_def)
  ultimately show ?thesis using h(1) by (intro exI[of _ h]) (simp add: release_def)
qed

section \<open>Deletion\<close>

definition del_entry :: "('k \<Rightarrow> 'k \<Rightarrow> int) \<Rightarrow> 'k \<Rightarrow> ('k \<times> rid) list \<Rightarrow> ('k \<times> rid) list" where
  "del_entry cmp key es = filter (\<lambda>e. cmp (fst e) key \<noteq> 0) es"

context key_order
begin

lemma leaf_lookup_found:
  assumes "increasing cmp (map fst es)" "leaf_lookup cmp es key = (i, True)"
  obtains xs e ys where "es = xs @ e # ys" "i = length xs" "del_entry cmp key es = xs @ ys"
proof -
  have s: "splits_at cmp (map fst es) key (i, True)"
    using lower_bound_splits[OF assms(1), of key] assms(2) by (simp add: leaf_lookup_def)
  then have i: "i < length es" "cmp (fst (es ! i)) key = 0" by (auto simp: splits_at_def)
  have below: "\<forall>e\<in>set (take i es). cmp (fst e) key < 0" using leaf_lookup_split(3)[OF assms] .
  have es: "es = take i es @ es ! i # drop (Suc i) es" using i(1) by (rule id_take_nth_drop)
  have "increasing cmp (map fst (take i es @ es ! i # drop (Suc i) es))" using assms(1) es by simp
  then have "\<forall>e\<in>set (drop (Suc i) es). cmp (fst (es ! i)) (fst e) < 0" by simp
  then have above: "cmp key (fst e) < 0" if "e \<in> set (drop (Suc i) es)" for e
    using that i(2) cmp_eq_sym[of key "fst (es ! i)"] cmp_le_less_trans[of key "fst (es ! i)" "fst e"] by simp
  have "filter (\<lambda>e. cmp (fst e) key \<noteq> 0) (take i es) = take i es" using below by (fastforce intro!: filter_True)
  moreover have "cmp (fst e) key \<noteq> 0" if "e \<in> set (drop (Suc i) es)" for e
    using above[OF that] cmp_eq_sym[of key "fst e"] by linarith
  then have "filter (\<lambda>e. cmp (fst e) key \<noteq> 0) (drop (Suc i) es) = drop (Suc i) es" by (intro filter_True) blast
  ultimately have "del_entry cmp key (take i es @ es ! i # drop (Suc i) es) = take i es @ drop (Suc i) es"
    using i(2) by (simp add: del_entry_def)
  then show thesis using that[of "take i es" "es ! i" "drop (Suc i) es"] es i(1) by simp
qed

lemma del_entry_leaf:
  assumes "ordc cmp n lo hi fs" "lo_le cmp lo key" "hi_gt cmp key hi"
  shows "del_entry cmp key (left_entries fs @ es @ right_entries fs) = left_entries fs @ del_entry cmp key es @ right_entries fs"
proof -
  note O = outside_leaf[OF assms]
  have "cmp (fst e) key \<noteq> 0" if "e \<in> set (left_entries fs)" for e using bspec[OF O(1) that] by linarith
  moreover have "cmp (fst e) key \<noteq> 0" if "e \<in> set (right_entries fs)" for e
    using bspec[OF O(2) that] cmp_eq_sym[of key "fst e"] by linarith
  ultimately have "filter (\<lambda>e. cmp (fst e) key \<noteq> 0) (left_entries fs) = left_entries fs"
    "filter (\<lambda>e. cmp (fst e) key \<noteq> 0) (right_entries fs) = right_entries fs" by (intro filter_True; blast)+
  then show ?thesis by (simp add: del_entry_def)
qed

end

lemma tree_ok_at:
  assumes "tree_ok t m (plug fs g)" "ordc (key_comparator t) n lo hi fs" "ord (key_comparator t) n lo hi g"
  shows "tree_at t fs n lo hi g"
  using tree_okD[OF assms(1)] assms(2,3) by (simp add: tree_at_def)

lemma delete_from_leaf:
  assumes "index_ok t" "tree_ok t m (plug fs (GLeaf p es))" "ordc (key_comparator t) 0 lo hi fs"
    and "ord (key_comparator t) 0 lo hi (GLeaf p es)" "has_key (key_comparator t) key es"
  shows "\<exists>t'. delete_entry_internal p key t = Some (SUCCESS, t') \<and> index_conf t' \<and> key_comparator t' = key_comparator t \<and>
    tree_or_empty t' (length fs) (left_entries fs @ del_entry (key_comparator t) key es @ right_entries fs)"
proof -
  have K: "key_order (key_comparator t)" and C: "index_conf t" using assms(1) by (auto simp: index_conf_def index_ok_def leaf_cap_def internal_cap_def)
  note T = tree_okD[OF assms(2)]
  have inc: "increasing (key_comparator t) (map fst es)" using assms(4) by simp
  obtain i found where lk: "leaf_lookup (key_comparator t) es key = (i, found)" by (cases "leaf_lookup (key_comparator t) es key")
  have f: "found" using key_order.leaf_lookup_split(1)[OF K inc lk] assms(5) by simp
  obtain xs e ys where es: "es = xs @ e # ys" "i = length xs" "del_entry (key_comparator t) key es = xs @ ys"
    by (rule key_order.leaf_lookup_found[OF K inc]) (use lk f in simp)
  obtain par nx where P: "bt_pages t p = Some (Leaf_Node par nx es)" using T(2) by auto
  let ?t = "t\<lparr>bt_pages := (bt_pages t)(p \<mapsto> Leaf_Node par nx (xs @ ys))\<rparr>"
  have rm: "leaf_remove p key t = Some (1, ?t)"
    using P lk f es(1,2) by (simp add: leaf_remove_def leaf_remove_items_def recover_remove_items_def put_node_def)
  have run: "delete_entry_internal p key t = coalesce_or_redistribute p ?t"
    using rm by (simp add: delete_entry_internal_def coalesce_or_redistribute.simps[of p] node_min_size_def node_max_size_def)
  have at: "tree_at ?t fs 0 lo hi (GLeaf p (xs @ ys))"
  proof (rule tree_at_change[OF tree_ok_at[OF assms(2-4)]])
    show "bt_pages ?t x = bt_pages t x" if "x \<in> set (ctx_pages fs)" for x using that T(6) by auto
    show "linked (bt_pages ?t) (left_leaves fs @ leaf_pages (GLeaf p (xs @ ys)) @ right_leaves fs) BP_INVALID_PAGE_NUM"
      by (rule linked_next[of "bt_pages t"]) (use T(8) P in auto)
    show "ord (key_comparator t) 0 lo hi (GLeaf p (xs @ ys))" using assms(4) es(1) by (auto simp: increasing_def sorted_wrt_append)
  qed (use T(2,9) P in \<open>auto simp: node_area_def\<close>)
  have "nearly (fs = []) (leaf_max_size t) (internal_max_size t) (GLeaf p (xs @ ys))"
    using T(5) es(1) by (auto simp: nearly_def split: if_splits)
  from coalesce_or_redistribute_ok[OF _ at] this C show ?thesis
    using run es(3) by (auto simp: index_conf_step(1))
qed

lemma delete_entry_refines:
  assumes "index_holds t m es"
  shows "if has_key (key_comparator t) key es
    then \<exists>t' m'. delete_entry key t = Some (SUCCESS, t') \<and> key_comparator t' = key_comparator t \<and>
      index_holds t' m' (del_entry (key_comparator t) key es) \<and> m' \<le> m
    else delete_entry key t = Some (RECORD_NOT_EXIST, t)"
proof (cases "is_empty t")
  case True
  then have "find_leaf t key = Some (EMPTY, None)" by (simp add: find_leaf_def find_leaf_internal_def)
  moreover have "es = []" using assms True by (simp add: index_holds_def)
  ultimately show ?thesis by (simp add: has_key_def delete_entry_def)
next
  case False
  obtain g where ok: "index_ok t" and g: "tree_ok t m g" "entries g = es" using assms False by (auto simp: index_holds_def)
  let ?cmp = "key_comparator t"
  have K: "key_order ?cmp" using ok by (simp add: index_ok_def)
  obtain fs p ls lo hi where f: "find_leaf t key = Some (SUCCESS, Some p)" "g = plug fs (GLeaf p ls)" "length fs = m"
    "ordc ?cmp 0 lo hi fs" "ord ?cmp 0 lo hi (GLeaf p ls)" "lo_le ?cmp lo key" "hi_gt ?cmp key hi"
    by (rule find_leaf_path[OF ok g(1)])
  have es: "es = left_entries fs @ ls @ right_entries fs" using g(2) f(2) by (simp add: plug_entries)
  have hk: "has_key ?cmp key es \<longleftrightarrow> has_key ?cmp key ls" unfolding es by (rule key_order.has_key_leaf[OF K f(4,6,7)])
  show ?thesis
  proof (cases "has_key ?cmp key ls")
    case True
    from delete_from_leaf[OF ok g(1)[unfolded f(2)] f(4,5) True] obtain t1 where
      d: "delete_entry_internal p key t = Some (SUCCESS, t1)" "index_conf t1" "key_comparator t1 = ?cmp"
        "tree_or_empty t1 m (del_entry ?cmp key es)"
      using es key_order.del_entry_leaf[OF K f(4,6,7)] f(3) by auto
    obtain h where h: "release t1 = Some (t1\<lparr>bt_hdr := h, disposed_pages := []\<rparr>)"
      "index_ok (t1\<lparr>bt_hdr := h, disposed_pages := []\<rparr>)" "node_area (t1\<lparr>bt_hdr := h, disposed_pages := []\<rparr>) = node_area t1"
      using release_ok[OF d(2)] by blast
    let ?t2 = "t1\<lparr>bt_hdr := h, disposed_pages := []\<rparr>"
    have "\<exists>m'. index_holds ?t2 m' (del_entry ?cmp key es) \<and> m' \<le> m"
      using d(4) h(2,3) index_holds_tree[of ?t2]
      by (fastforce simp: tree_or_empty_def index_holds_def is_empty_def tree_ok_def)
    then show ?thesis using hk True f(1) d(1,3) h(1) by (simp add: delete_entry_def)
  next
    case no: False
    obtain par nx where P: "bt_pages t p = Some (Leaf_Node par nx ls)" using tree_okD(2)[OF g(1)[unfolded f(2)]] by auto
    obtain i found where lk: "leaf_lookup ?cmp ls key = (i, found)" by (cases "leaf_lookup ?cmp ls key")
    have "\<not> found" using key_order.leaf_lookup_split(1)[OF K _ lk] f(5) no by simp
    then show ?thesis
      using hk no f(1) P lk ok
      by (simp add: delete_entry_def delete_entry_internal_def leaf_remove_def release_def index_ok_def)
  qed
qed

section \<open>Properties\<close>

text \<open>
  C4.  Deletion from the B+ tree refines deletion from a sorted list.  Whenever the pages represent a
  balanced, ordered and filled tree, a deletion returns: a key that is not there is reported and nothing
  changes; otherwise the entry is removed, nodes that have become short borrow from or merge with a
  neighbour up to the root, and the pages represent such a tree again, not higher than before.  The pages of
  merged nodes are freed, so that still every page of the file is a header page or a node.
\<close>

theorem delete_entry_correct:
  assumes "index_holds t m es"
  shows "if has_key (key_comparator t) key es
    then \<exists>t' m'. delete_entry key t = Some (SUCCESS, t') \<and> key_comparator t' = key_comparator t \<and>
      index_holds t' m' (del_entry (key_comparator t) key es) \<and> m' \<le> m
    else delete_entry key t = Some (RECORD_NOT_EXIST, t)"
  by (rule delete_entry_refines[OF assms])

theorem delete_entry_correct_witness:
  "(\<exists>t. delete_entry 3 demo_index = Some (SUCCESS, t) \<and> index_holds t 0 [(5, \<lparr>page_num = 1, slot_num = 1\<rparr>)]) \<and>
   delete_entry 4 demo_index = Some (RECORD_NOT_EXIST, demo_index)"
proof -
  have c: "key_comparator demo_index = compare_int" by (simp add: demo_index_def)
  show ?thesis
    using delete_entry_correct[OF demo_index_holds, of 3] delete_entry_correct[OF demo_index_holds, of 4]
    by (auto simp: c has_key_def compare_int_def del_entry_def)
qed

end
