(* ===== verification/Bplus_Tree_Index.thy ===== *)
theory Bplus_Tree_Index
  imports Bplus_Tree_Delete
begin

text \<open>
  The B+ tree as an index: its height and its pages are bounded by the number of entries, and any sequence
  of insertions and deletions behaves like the same sequence on a sorted list.
\<close>

section \<open>Size of a tree\<close>

lemma sum_list_bound:
  assumes "\<And>x. x \<in> set xs \<Longrightarrow> f x + c \<le> g x"
  shows "sum_list (map f xs) + c * length xs \<le> (sum_list (map g xs) :: nat)"
  using assms
proof (induction xs)
  case (Cons x xs)
  have "f x + c \<le> g x" using Cons.prems by simp
  moreover have "sum_list (map f xs) + c * length xs \<le> sum_list (map g xs)" using Cons by simp
  ultimately show ?case by simp
qed simp

lemma filled_pages:
  assumes "4 \<le> l" "6 \<le> i"
  shows "filled l i g \<Longrightarrow> Suc (length (pages_of g)) \<le> length (entries g)"
proof (induction g rule: gtree_induct)
  case (leaf p es)
  have "2 \<le> l div 2" using assms(1) by simp
  then show ?case using leaf by auto
next
  case (node p cs)
  have "sum_list (map (\<lambda>x. length (pages_of (snd x))) cs) + 1 * length cs \<le> sum_list (map (\<lambda>x. length (entries (snd x))) cs)"
    by (rule sum_list_bound) (use node in auto)
  moreover have "3 \<le> i div 2" using assms(2) by simp
  then have "3 \<le> length cs" using node.prems by auto
  ultimately show ?case by (simp add: length_concat comp_def)
qed

lemma root_filled_pages:
  assumes "4 \<le> l" "6 \<le> i" "root_filled l i g"
  shows "length (pages_of g) \<le> length (entries g)"
proof (cases g)
  case (GNode p cs)
  have "sum_list (map (\<lambda>x. length (pages_of (snd x))) cs) + 1 * length cs \<le> sum_list (map (\<lambda>x. length (entries (snd x))) cs)"
    by (rule sum_list_bound) (use filled_pages[OF assms(1,2)] assms(3) GNode in auto)
  moreover have "2 \<le> length cs" using assms(3) GNode by simp
  ultimately show ?thesis using GNode by (simp add: length_concat comp_def)
qed (use assms(3) in simp)

lemma height_pages: "ord cmp n lo hi g \<Longrightarrow> n < length (pages_of g)"
proof (induction g arbitrary: n lo hi rule: gtree_induct)
  case (node p cs)
  obtain m where m: "n = Suc m" "ords cmp m lo hi cs" using node.prems by (cases n) auto
  obtain k c cs' where cs: "cs = (k, c) # cs'" using m(2) by (cases cs) auto
  have "\<exists>hi'. ord cmp m lo hi' c" using m(2) cs by (cases cs') auto
  then have "m < length (pages_of c)" using node.IH[of "(k, c)"] cs by auto
  then show ?case using m(1) cs by simp
qed simp

text \<open>A tree of height \<open>n\<close> has at least so many leaves, and each of them its share of entries.\<close>

lemma ords_child: "ords cmp m lo hi cs \<Longrightarrow> x \<in> set cs \<Longrightarrow> \<exists>lo' hi'. ord cmp m lo' hi' (snd x)"
proof (induction cs arbitrary: lo)
  case (Cons y ys)
  obtain k c where y: "y = (k, c)" by (cases y)
  show ?case
  proof (cases ys)
    case Nil
    then show ?thesis using Cons.prems y by auto
  next
    case z: (Cons z zs)
    obtain k' c' where k: "z = (k', c')" by (cases z)
    have "\<exists>lo' hi'. ord cmp m lo' hi' c" "ords cmp m (Some k') hi ys" using Cons.prems(1) y z k by auto
    then show ?thesis using Cons.prems(2) Cons.IH[of "Some k'"] y by (metis set_ConsD snd_conv)
  qed
qed simp

lemma filled_height:
  assumes "ord cmp n lo hi g" "filled l i g"
  shows "(i div 2) ^ n * (l div 2) \<le> length (entries g)"
  using assms
proof (induction g arbitrary: n lo hi rule: gtree_induct)
  case (node p cs)
  obtain m where m: "n = Suc m" "ords cmp m lo hi cs" using node.prems by (cases n) auto
  note all = ords_child[OF m(2)]
  have "(i div 2) ^ m * (l div 2) \<le> length (entries (snd x))" if "x \<in> set cs" for x
    using node.IH[OF that] all[OF that] node.prems(2) that by auto
  then have "sum_list (map (\<lambda>x. 0) cs) + (i div 2) ^ m * (l div 2) * length cs \<le> sum_list (map (\<lambda>x. length (entries (snd x))) cs)"
    by (intro sum_list_bound) simp
  then have a: "length cs * ((i div 2) ^ m * (l div 2)) \<le> sum_list (map (\<lambda>x. length (entries (snd x))) cs)"
    by (simp add: mult.commute)
  have "i div 2 * ((i div 2) ^ m * (l div 2)) \<le> length cs * ((i div 2) ^ m * (l div 2))"
    by (rule mult_le_mono1) (use node.prems(2) in simp)
  then have "i div 2 * ((i div 2) ^ m * (l div 2)) \<le> sum_list (map (\<lambda>x. length (entries (snd x))) cs)"
    using a by (rule le_trans)
  then show ?case using m(1) by (simp add: length_concat comp_def ac_simps)
qed simp

section \<open>Pages of an index\<close>

lemma allocated_card:
  assumes "hdr_ok h"
  shows "allocated_pages h = int (card (live_pages h))"
proof -
  note F = hdr_ok_facts[OF assms]
  have "live_pages h = int ` used_below (bm_bit (file_bitmap h)) (nat (page_count h))"
  proof (intro set_eqI iffI)
    fix p assume "p \<in> live_pages h"
    then show "p \<in> int ` used_below (bm_bit (file_bitmap h)) (nat (page_count h))"
      by (intro image_eqI[of _ _ "nat p"]) (auto simp: live_pages_def used_below_def)
  qed (use F(4) in \<open>auto simp: live_pages_def used_below_def\<close>)
  moreover have "card (int ` used_below (bm_bit (file_bitmap h)) (nat (page_count h))) = bm.used (file_bitmap h)"
    by (simp add: card_image bm.used_def F(3))
  ultimately show ?thesis using assms by (simp add: hdr_ok_def)
qed

lemma index_pages:
  assumes "index_ok t" "tree_ok t m g"
  shows "allocated_pages (fh (bt_hdr t)) = int (length (pages_of g)) + 2"
proof -
  have H: "hdr_ok (fh (bt_hdr t))" "FIRST_INDEX_PAGE \<in> live_pages (fh (bt_hdr t))" "disposed_pages t = []"
    using assms(1) by (auto simp: index_ok_def)
  have z: "0 \<in> live_pages (fh (bt_hdr t))"
    using H(1) hdr_ok_facts(4)[OF H(1)] by (auto simp: live_pages_def hdr_ok_def)
  have "live_pages (fh (bt_hdr t)) = insert 0 (insert FIRST_INDEX_PAGE (set (pages_of g)))"
    using assms(2) H(2,3) z by (auto simp: tree_ok_def node_area_def)
  moreover have "0 \<notin> set (pages_of g)" "FIRST_INDEX_PAGE \<notin> set (pages_of g)" "distinct (pages_of g)"
    using assms(2) by (auto simp: tree_ok_def node_area_def)
  ultimately have "card (live_pages (fh (bt_hdr t))) = length (pages_of g) + 2"
    by (simp add: FIRST_INDEX_PAGE_def distinct_card)
  then show ?thesis using allocated_card[OF H(1)] by simp
qed

text \<open>An index with at most this many entries has room for another one.\<close>

definition max_entries :: nat where
  "max_entries = 32654"

lemma index_room:
  assumes "index_holds t m es" "length es \<le> max_entries"
  shows "\<exists>m'. index_holds t m' es \<and> allocated_pages (fh (bt_hdr t)) + int m' + 2 \<le> 8 * FH_BITMAP_BYTES"
proof (cases "is_empty t")
  case True
  then have e: "index_ok t" "es = []" "node_area t = {}" using assms(1) by (auto simp: index_holds_def)
  have "live_pages (fh (bt_hdr t)) \<subseteq> {0, FIRST_INDEX_PAGE}" using e(1,3) by (auto simp: node_area_def index_ok_def)
  then have "card (live_pages (fh (bt_hdr t))) \<le> card {0, FIRST_INDEX_PAGE}" by (intro card_mono) simp_all
  then have "allocated_pages (fh (bt_hdr t)) \<le> 2"
    using allocated_card[of "fh (bt_hdr t)"] e(1) by (simp add: index_ok_def FIRST_INDEX_PAGE_def)
  moreover have "index_holds t 0 es" using e True by (simp add: index_holds_def)
  ultimately show ?thesis by (intro exI[of _ 0]) (simp add: layout_simps)
next
  case False
  obtain g where ok: "index_ok t" and g: "tree_ok t m g" "entries g = es" using assms(1) False by (auto simp: index_holds_def)
  have s: "4 \<le> leaf_max_size t" "6 \<le> internal_max_size t" using ok by (auto simp: index_ok_def)
  have "length (pages_of g) \<le> length es" using root_filled_pages[OF s] g by (auto simp: tree_ok_def)
  moreover have "m < length (pages_of g)" using height_pages g(1) by (auto simp: tree_ok_def)
  ultimately have "allocated_pages (fh (bt_hdr t)) + int m + 2 \<le> 8 * FH_BITMAP_BYTES"
    using index_pages[OF ok g(1)] assms(2) by (simp add: max_entries_def layout_simps)
  then show ?thesis using assms(1) by blast
qed

section \<open>Sequences of operations\<close>

datatype 'k index_op = Insert_Entry 'k rid | Delete_Entry 'k

fun index_step :: "'k index_op \<Rightarrow> 'k bplus_tree \<Rightarrow> (rc \<times> 'k bplus_tree) option" where
  "index_step (Insert_Entry key r) t = insert_entry key r t"
| "index_step (Delete_Entry key) t = delete_entry key t"

text \<open>The same on a sorted list.\<close>

fun list_step :: "('k \<Rightarrow> 'k \<Rightarrow> int) \<Rightarrow> 'k index_op \<Rightarrow> ('k \<times> rid) list \<Rightarrow> rc \<times> ('k \<times> rid) list" where
  "list_step cmp (Insert_Entry key r) es =
     (if has_key cmp key es then (RECORD_DUPLICATE_KEY, es) else (SUCCESS, ins_entry cmp key r es))"
| "list_step cmp (Delete_Entry key) es =
     (if has_key cmp key es then (SUCCESS, del_entry cmp key es) else (RECORD_NOT_EXIST, es))"

text \<open>Running a sequence of operations, with the result code of each.\<close>

fun run_ops :: "('o \<Rightarrow> 's \<Rightarrow> (rc \<times> 's) option) \<Rightarrow> 'o list \<Rightarrow> 's \<Rightarrow> (rc list \<times> 's) option" where
  "run_ops step [] s = Some ([], s)"
| "run_ops step (oper # ops) s = do {
     (r, s1) \<leftarrow> step oper s;
     (rs, s2) \<leftarrow> run_ops step ops s1;
     Some (r # rs, s2)
   }"

text \<open>
  The interface between a data structure and its clients: every operation on the concrete state returns
  and gives the result of the specification, while the abstract state is within the limit.
\<close>

locale op_refinement =
  fixes holds :: "'s \<Rightarrow> 'a \<Rightarrow> bool"
    and cstep :: "'o \<Rightarrow> 's \<Rightarrow> (rc \<times> 's) option"
    and astep :: "'o \<Rightarrow> 'a \<Rightarrow> rc \<times> 'a"
    and weight :: "'a \<Rightarrow> nat"
    and limit :: nat
  assumes step_refines: "holds s a \<Longrightarrow> weight a \<le> limit \<Longrightarrow>
      \<exists>s'. cstep oper s = Some (fst (astep oper a), s') \<and> holds s' (snd (astep oper a))"
    and step_weight: "weight (snd (astep oper a)) \<le> Suc (weight a)"
begin

lemma run_refines:
  assumes "holds s a" "weight a + length ops \<le> Suc limit"
  shows "\<exists>rs s' a'. run_ops cstep ops s = Some (rs, s') \<and> run_ops (\<lambda>oper a. Some (astep oper a)) ops a = Some (rs, a') \<and>
    holds s' a' \<and> weight a' \<le> weight a + length ops"
  using assms
proof (induction ops arbitrary: s a)
  case (Cons oper ops)
  have "weight a \<le> limit" using Cons.prems(2) by simp
  from step_refines[OF Cons.prems(1) this] obtain s1 where
    s1: "cstep oper s = Some (fst (astep oper a), s1)" "holds s1 (snd (astep oper a))" by blast
  have w: "weight (snd (astep oper a)) + length ops \<le> Suc limit" using step_weight[of oper a] Cons.prems(2) by simp
  from Cons.IH[OF s1(2) w] obtain rs s' a' where
    "run_ops cstep ops s1 = Some (rs, s')" "run_ops (\<lambda>oper a. Some (astep oper a)) ops (snd (astep oper a)) = Some (rs, a')"
    "holds s' a'" "weight a' \<le> weight (snd (astep oper a)) + length ops" by blast
  then show ?case using s1(1) step_weight[of oper a] by (cases "astep oper a") auto
qed simp

end

lemma ins_entry_length: "length (ins_entry cmp key r es) = Suc (length es)"
  by (induction es) auto

interpretation index_ops: op_refinement
  "\<lambda>t (cmp, es). key_comparator t = cmp \<and> (\<exists>m. index_holds t m es)" index_step
  "\<lambda>oper (cmp, es). let (r, es') = list_step cmp oper es in (r, (cmp, es'))" "\<lambda>(cmp, es). length es" max_entries
proof (unfold_locales, goal_cases)
  case (1 s a oper)
  obtain cmp es where a: "a = (cmp, es)" by (cases a)
  obtain m where c: "key_comparator s = cmp" and m: "index_holds s m es" using 1(1) a by auto
  have "length es \<le> max_entries" using 1(2) a by simp
  from index_room[OF m this] obtain n where
    n: "index_holds s n es" "allocated_pages (fh (bt_hdr s)) + int n + 2 \<le> 8 * FH_BITMAP_BYTES" by blast
  show ?case
  proof (cases oper)
    case (Insert_Entry key r)
    then show ?thesis using insert_entry_refines[OF n, of key r] a c m by (auto split: if_splits)
  next
    case (Delete_Entry key)
    then show ?thesis using delete_entry_refines[OF m, of key] a c m by (auto split: if_splits)
  qed
next
  case (2 oper a)
  then show ?case by (cases a; cases oper) (auto simp: ins_entry_length del_entry_def intro: le_SucI)
qed

lemma run_ops_list:
  "run_ops (\<lambda>oper a. Some ((\<lambda>oper (cmp, es). let (r, es') = list_step cmp oper es in (r, (cmp, es'))) oper a)) ops (cmp, es) =
   map_option (\<lambda>(rs, es'). (rs, (cmp, es'))) (run_ops (\<lambda>oper es. Some (list_step cmp oper es)) ops es)"
proof (induction ops arbitrary: es)
  case (Cons oper ops)
  then show ?case
    by (cases "list_step cmp oper es"; cases "run_ops (\<lambda>oper es. Some (list_step cmp oper es)) ops (snd (list_step cmp oper es))")
      (auto simp: Let_def)
qed simp

section \<open>A concrete tree\<close>

text \<open>Two leaves, at the pages 2 and 3, below the root at page 4.\<close>

definition two_leaves :: "('k \<Rightarrow> 'k \<Rightarrow> int) \<Rightarrow> 'k \<Rightarrow> ('k \<times> rid) list \<Rightarrow> ('k \<times> rid) list \<Rightarrow> 'k bplus_tree" where
  "two_leaves cmp zero xs ys = \<lparr>key_comparator = cmp, key_zero = zero, attr_length = 4, internal_max_size = 6, leaf_max_size = 4,
     root_page = 4, bt_hdr = demo_header\<lparr>fh := push_page (push_page (fh (bt_hdr demo_index)))\<rparr>,
     bt_pages = [2 \<mapsto> Leaf_Node 4 3 xs, 3 \<mapsto> Leaf_Node 4 BP_INVALID_PAGE_NUM ys,
       4 \<mapsto> Internal_Node BP_INVALID_PAGE_NUM [(zero, 2), (fst (hd ys), 3)]], disposed_pages = []\<rparr>"

lemma two_leaves_header:
  "hdr_ok (fh (bt_hdr (two_leaves cmp zero xs ys)))" "live_pages (fh (bt_hdr (two_leaves cmp zero xs ys))) = {0, 1, 2, 3, 4}"
proof -
  let ?h = "fh (bt_hdr demo_index)"
  have c: "page_count ?h = 3" by (simp add: demo_index_def demo_header_def create_file_header_def push_page_def Let_def)
  have a: "hdr_ok (push_page ?h)" "live_pages (push_page ?h) = {0, 1, 2, 3}" "page_count (push_page ?h) = 4"
    using push_page_ok(1-3)[OF demo_index_header(1)] demo_index_header(2) c by (auto simp: layout_simps)
  show "hdr_ok (fh (bt_hdr (two_leaves cmp zero xs ys)))" "live_pages (fh (bt_hdr (two_leaves cmp zero xs ys))) = {0, 1, 2, 3, 4}"
    using push_page_ok(1,2)[OF a(1)] a(2,3) by (auto simp: two_leaves_def layout_simps)
qed

lemma two_leaves_holds:
  assumes "key_order cmp" "increasing cmp (map fst (xs @ ys))" "2 \<le> length xs" "length xs \<le> 4" "2 \<le> length ys" "length ys \<le> 4"
  shows "index_holds (two_leaves cmp zero xs ys) (Suc 0) (xs @ ys)" "\<not> is_empty (two_leaves cmp zero xs ys)"
proof -
  let ?t = "two_leaves cmp zero xs ys" and ?g = "GNode 4 [(zero, GLeaf 2 xs), (fst (hd ys), GLeaf 3 ys)]"
  have s: "leaf_cap ?t = 408" "internal_cap ?t = 510"
    by (simp_all add: leaf_cap_def internal_cap_def two_leaves_def calc_leaf_page_capacity_def
        calc_internal_page_capacity_def layout_simps)
  obtain y ys' where y: "ys = y # ys'" using assms(5) by (cases ys) auto
  have "ord cmp (Suc 0) None None ?g"
    using assms(2) y key_order.increasing_simps[OF assms(1)] key_order.cmp_refl[OF assms(1)] by (auto simp: less_imp_le)
  then have "tree_ok ?t (Suc 0) ?g"
    using two_leaves_header(2)[of cmp zero xs ys] assms(3-6)
    by (auto simp: tree_ok_def node_area_def FIRST_INDEX_PAGE_def two_leaves_def)
  moreover have "index_ok ?t"
    using two_leaves_header[of cmp zero xs ys] s assms(1) by (simp add: index_ok_def FIRST_INDEX_PAGE_def) (simp add: two_leaves_def)
  moreover have "entries ?g = xs @ ys" by simp
  ultimately show "index_holds ?t (Suc 0) (xs @ ys)" by (intro index_holds_tree)
  show "\<not> is_empty ?t" by (simp add: is_empty_def two_leaves_def)
qed

definition demo_entries :: "(int \<times> rid) list" where
  "demo_entries = map (\<lambda>i. (i, \<lparr>page_num = 1, slot_num = i\<rparr>)) [1, 2, 3, 5, 8]"

definition demo_tree :: "int bplus_tree" where
  "demo_tree = two_leaves compare_int 0 (take 2 demo_entries) (drop 2 demo_entries)"

lemma demo_tree_holds:
  "index_holds demo_tree (Suc 0) demo_entries" "\<not> is_empty demo_tree"
proof -
  have i: "increasing compare_int (map fst (take 2 demo_entries @ drop 2 demo_entries))"
    by (simp add: demo_entries_def increasing_def compare_int_def)
  show "index_holds demo_tree (Suc 0) demo_entries" "\<not> is_empty demo_tree"
    using two_leaves_holds[OF key_order_compare_int i] by (simp_all add: demo_tree_def demo_entries_def)
qed

section \<open>Properties\<close>

text \<open>
  C5.  Any sequence of insertions and deletions on the index runs to its end and returns, operation by
  operation, what the same sequence on a sorted list returns; afterwards the pages represent the resulting
  list.  The only limit is the number of entries: up to 32654 of them the file always has the pages that
  splits may need.
\<close>

theorem index_history:
  assumes "index_holds t m es" "length es + length ops \<le> Suc max_entries"
  shows "\<exists>rs t' m' es'. run_ops index_step ops t = Some (rs, t') \<and>
    run_ops (\<lambda>oper es. Some (list_step (key_comparator t) oper es)) ops es = Some (rs, es') \<and> index_holds t' m' es'"
proof -
  let ?H = "\<lambda>t (cmp, es). key_comparator t = cmp \<and> (\<exists>m. index_holds t m es)"
  have h: "?H t (key_comparator t, es)" using assms(1) by auto
  have w: "(\<lambda>(cmp, es). length es) (key_comparator t, es) + length ops \<le> Suc max_entries" using assms(2) by simp
  from index_ops.run_refines[OF h w] obtain rs t' a' where
    r: "run_ops index_step ops t = Some (rs, t')"
      "run_ops (\<lambda>oper a. Some ((\<lambda>oper (cmp, es). let (r, es') = list_step cmp oper es in (r, (cmp, es'))) oper a)) ops (key_comparator t, es) = Some (rs, a')"
      "?H t' a'" by (elim exE conjE)
  then show ?thesis unfolding run_ops_list by auto
qed

theorem index_history_witness:
  "\<exists>t' m'. run_ops index_step [Insert_Entry 4 \<lparr>page_num = 7, slot_num = 1\<rparr>, Delete_Entry 3, Delete_Entry 9] demo_index =
      Some ([SUCCESS, SUCCESS, RECORD_NOT_EXIST], t') \<and>
    index_holds t' m' [(4, \<lparr>page_num = 7, slot_num = 1\<rparr>), (5, \<lparr>page_num = 1, slot_num = 1\<rparr>)]"
proof -
  have c: "key_comparator demo_index = compare_int" by (simp add: demo_index_def)
  show ?thesis
    using index_history[OF demo_index_holds, of "[Insert_Entry 4 \<lparr>page_num = 7, slot_num = 1\<rparr>, Delete_Entry 3, Delete_Entry 9]"]
    by (simp add: c has_key_def compare_int_def del_entry_def max_entries_def)
qed



end
