(* ===== verification/Bplus_Tree_Scan.thy ===== *)
theory Bplus_Tree_Scan
  imports Bplus_Tree_Index
begin

text \<open>
  Range scans of the index: \<open>BplusTreeScanner\<close> and \<open>BplusTreeHandler::get_entry\<close> of
  src/src/observer/storage/index/bplus_tree.cpp.  A key of the tree is an attribute with a record
  identifier, and a scan returns the identifiers whose attribute lies between two user keys.  The outcome
  of \<open>try_slatch\<close>, which fails while a writer holds the next leaf, is an input of a step.
\<close>

section \<open>Scanner\<close>

text \<open>
  \<open>current_page\<close> is the page of \<open>current_frame_\<close>, \<open>None\<close> for a null pointer.
\<close>

record 'a tree_scanner =
  ts_inited :: bool
  current_page :: "PageNum option"
  right_key :: "'a ikey option"
  iter_index :: int
  first_emitted :: bool

definition new_scanner :: "'a tree_scanner" where
  "new_scanner = \<lparr>ts_inited = False, current_page = None, right_key = None, iter_index = -1, first_emitted = False\<rparr>"

text \<open>
  The bound that replaces a user key of type CHARS, and whether the bound must be included; the bytes
  behind the end of a C string are not looked at.  The source asserts that the string has \<open>key_len\<close>
  characters.
\<close>

definition fix_user_key :: "nat \<Rightarrow> byte list \<Rightarrow> nat \<Rightarrow> bool \<Rightarrow> (byte list \<times> bool) option" where
  "fix_user_key attr_len user_key key_len want_greater =
     (if length (cstring user_key) < key_len then None
      else if key_len \<le> attr_len then Some (take key_len user_key @ replicate (attr_len - key_len) 0, False)
      else let key_buf = take attr_len user_key in
        if char_at user_key attr_len = 0 then Some (key_buf, False)
        else if attr_len = 0 then None
        else Some (if want_greater then key_buf[attr_len - 1 := key_buf ! (attr_len - 1) + 1] else key_buf, True))"

text \<open>Keys of the other types are used as they are.\<close>

definition keep_user_key :: "'a \<Rightarrow> nat \<Rightarrow> bool \<Rightarrow> ('a \<times> bool) option" where
  "keep_user_key user_key key_len want_greater = Some (user_key, False)"

text \<open>The comparison of two attributes of type CHARS looks at \<open>attr_len\<close> bytes.\<close>

definition chars_attr_compare :: "nat \<Rightarrow> byte list \<Rightarrow> byte list \<Rightarrow> int" where
  "chars_attr_compare attr_len v1 v2 = chars_compare (take attr_len v1) (take attr_len v2)"

text \<open>\<open>key_at\<close> and \<open>value_at\<close> of a leaf assert that the index is in range.\<close>

definition current_item :: "'a ikey bplus_tree \<Rightarrow> 'a tree_scanner \<Rightarrow> ('a ikey \<times> rid) option" where
  "current_item t s = do {
     p \<leftarrow> current_page s;
     (_, _, es) \<leftarrow> leaf_at t p;
     if 0 \<le> iter_index s \<and> iter_index s < int (length es) then Some (es ! nat (iter_index s)) else None
   }"

definition fetch_item :: "'a ikey bplus_tree \<Rightarrow> 'a tree_scanner \<Rightarrow> rid option" where
  "fetch_item t s = map_option snd (current_item t s)"

definition touch_end :: "'a ikey bplus_tree \<Rightarrow> 'a tree_scanner \<Rightarrow> bool option" where
  "touch_end t s = (case right_key s of
     None \<Rightarrow> Some False
   | Some k \<Rightarrow> map_option (\<lambda>e. key_comparator t (fst e) k > 0) (current_item t s))"

text \<open>The first half of \<open>open\<close>: the leaf and the position where the scan starts.\<close>

definition seek_left ::
    "('a \<Rightarrow> nat \<Rightarrow> bool \<Rightarrow> ('a \<times> bool) option) \<Rightarrow> 'a ikey bplus_tree \<Rightarrow> 'a option \<Rightarrow> nat \<Rightarrow> bool \<Rightarrow>
     (rc \<times> (PageNum \<times> int) option) option" where
  "seek_left fix_key t left_user_key left_len left_inclusive = (case left_user_key of
     None \<Rightarrow> do {
       (r, found) \<leftarrow> left_most_page t;
       Some (if r = EMPTY then (SUCCESS, None) else (r, map_option (\<lambda>p. (p, 0)) found))
     }
   | Some user_key \<Rightarrow> do {
       (fixed_left_key, should_inclusive) \<leftarrow> fix_key user_key left_len True;
       let left_key = (fixed_left_key, if left_inclusive \<or> should_inclusive then rid_min else rid_max);
       (r, found) \<leftarrow> find_leaf t left_key;
       if r = EMPTY then Some (SUCCESS, None)
       else (case found of
         None \<Rightarrow> Some (r, None)
       | Some p \<Rightarrow> do {
           (_, next_page_num, es) \<leftarrow> leaf_at t p;
           let left_index = fst (leaf_lookup (key_comparator t) es left_key);
           if left_index \<ge> length es then
             if next_page_num = BP_INVALID_PAGE_NUM then Some (SUCCESS, None)
             else (case bt_pages t next_page_num of
               None \<Rightarrow> Some (IOERR_READ, None)
             | Some _ \<Rightarrow> Some (SUCCESS, Some (next_page_num, 0)))
           else Some (SUCCESS, Some (p, int left_index))
         })
     })"

definition right_bound ::
    "('a \<Rightarrow> nat \<Rightarrow> bool \<Rightarrow> ('a \<times> bool) option) \<Rightarrow> 'a option \<Rightarrow> nat \<Rightarrow> bool \<Rightarrow> 'a ikey option option" where
  "right_bound fix_key right_user_key right_len right_inclusive = (case right_user_key of
     None \<Rightarrow> Some None
   | Some user_key \<Rightarrow> do {
       (fixed_right_key, should_include) \<leftarrow> fix_key user_key right_len False;
       Some (Some (fixed_right_key, if right_inclusive \<or> should_include then rid_max else rid_min))
     })"

definition scanner_open ::
    "('a \<Rightarrow> 'a \<Rightarrow> int) \<Rightarrow> ('a \<Rightarrow> nat \<Rightarrow> bool \<Rightarrow> ('a \<times> bool) option) \<Rightarrow> 'a ikey bplus_tree \<Rightarrow>
     'a option \<Rightarrow> nat \<Rightarrow> bool \<Rightarrow> 'a option \<Rightarrow> nat \<Rightarrow> bool \<Rightarrow> 'a tree_scanner \<Rightarrow> (rc \<times> 'a tree_scanner) option" where
  "scanner_open attr_comparator fix_key t left_user_key left_len left_inclusive right_user_key right_len right_inclusive s =
     (if ts_inited s then Some (INTERNAL, s)
      else let s1 = s\<lparr>ts_inited := True, first_emitted := False\<rparr> in
      if (case (left_user_key, right_user_key) of
            (Some l, Some r) \<Rightarrow> attr_comparator l r > 0 \<or>
              attr_comparator l r = 0 \<and> (\<not> left_inclusive \<or> \<not> right_inclusive)
          | _ \<Rightarrow> False)
      then Some (INVALID_ARGUMENT, s1)
      else do {
        (r, start) \<leftarrow> seek_left fix_key t left_user_key left_len left_inclusive;
        case start of
          None \<Rightarrow> Some (r, s1\<lparr>current_page := None\<rparr>)
        | Some (p, i) \<Rightarrow> do {
            rk \<leftarrow> right_bound fix_key right_user_key right_len right_inclusive;
            let s2 = s1\<lparr>current_page := Some p, iter_index := i, right_key := rk\<rparr>;
            at_end \<leftarrow> touch_end t s2;
            Some (SUCCESS, if at_end then s2\<lparr>current_page := None\<rparr> else s2)
          }
      })"

text \<open>
  One step of a scan.  \<open>latched\<close> tells for a page whether \<open>try_slatch\<close> succeeds.  When it fails the scanner
  already points to the next leaf, with the index behind the end of the previous one.
\<close>

partial_function (option) next_entry ::
    "(PageNum \<Rightarrow> bool) \<Rightarrow> 'a ikey bplus_tree \<Rightarrow> 'a tree_scanner \<Rightarrow> (rc \<times> rid option \<times> 'a tree_scanner) option" where
  "next_entry latched t s = (case current_page s of
     None \<Rightarrow> Some (RECORD_EOF, None, s)
   | Some p \<Rightarrow>
       if \<not> first_emitted s then do {
         r \<leftarrow> fetch_item t s;
         Some (SUCCESS, Some r, s\<lparr>first_emitted := True\<rparr>)
       } else do {
         let s1 = s\<lparr>iter_index := iter_index s + 1\<rparr>;
         (_, next_page_num, es) \<leftarrow> leaf_at t p;
         if iter_index s1 < int (length es) then do {
           at_end \<leftarrow> touch_end t s1;
           if at_end then Some (RECORD_EOF, None, s1)
           else do { r \<leftarrow> fetch_item t s1; Some (SUCCESS, Some r, s1) }
         }
         else if next_page_num = BP_INVALID_PAGE_NUM then Some (RECORD_EOF, None, s1)
         else (case bt_pages t next_page_num of
           None \<Rightarrow> Some (IOERR_READ, None, s1\<lparr>current_page := None\<rparr>)
         | Some _ \<Rightarrow>
             if \<not> latched next_page_num then Some (LOCKED_NEED_WAIT, None, s1\<lparr>current_page := Some next_page_num\<rparr>)
             else next_entry latched t (s1\<lparr>current_page := Some next_page_num, iter_index := -1\<rparr>))
       })"

definition scanner_close :: "'a tree_scanner \<Rightarrow> rc \<times> 'a tree_scanner" where
  "scanner_close s = (SUCCESS, s\<lparr>ts_inited := False\<rparr>)"

text \<open>The loop of \<open>get_entry\<close>: the steps of a scanner until one does not return \<open>SUCCESS\<close>.\<close>

partial_function (option) collect_entries ::
    "(PageNum \<Rightarrow> bool) \<Rightarrow> 'a ikey bplus_tree \<Rightarrow> 'a tree_scanner \<Rightarrow> (rc \<times> rid list) option" where
  "collect_entries latched t s = do {
     (r, found, s') \<leftarrow> next_entry latched t s;
     if r = SUCCESS then do {
       x \<leftarrow> found;
       (r', xs) \<leftarrow> collect_entries latched t s';
       Some (r', x # xs)
     } else Some (r, [])
   }"

definition get_entry ::
    "('a \<Rightarrow> 'a \<Rightarrow> int) \<Rightarrow> ('a \<Rightarrow> nat \<Rightarrow> bool \<Rightarrow> ('a \<times> bool) option) \<Rightarrow> (PageNum \<Rightarrow> bool) \<Rightarrow> 'a ikey bplus_tree \<Rightarrow>
     'a \<Rightarrow> nat \<Rightarrow> (rc \<times> rid list) option" where
  "get_entry attr_comparator fix_key latched t user_key key_len = do {
     (r, s) \<leftarrow> scanner_open attr_comparator fix_key t (Some user_key) key_len True (Some user_key) key_len True new_scanner;
     if OB_FAIL r then Some (r, [])
     else do {
       (r', xs) \<leftarrow> collect_entries latched t s;
       Some (if r' = RECORD_EOF then SUCCESS else r', xs)
     }
   }"

section \<open>The chain of leaves\<close>

text \<open>The leaves \<open>ps\<close> are linked, none is empty, and together they have the entries \<open>es\<close>.\<close>

fun chain :: "(PageNum \<rightharpoonup> 'k index_node) \<Rightarrow> PageNum list \<Rightarrow> ('k \<times> rid) list \<Rightarrow> bool" where
  "chain P [] es \<longleftrightarrow> es = []"
| "chain P (p # ps) es \<longleftrightarrow> (\<exists>par es1 es2. P p = Some (Leaf_Node par (hd (ps @ [BP_INVALID_PAGE_NUM])) es1) \<and>
     es1 \<noteq> [] \<and> es = es1 @ es2 \<and> chain P ps es2)"

lemma chain_concat:
  assumes "\<forall>c\<in>set cs. \<forall>ps es. linked P (leaf_pages (snd c) @ ps) BP_INVALID_PAGE_NUM \<longrightarrow> chain P ps es \<longrightarrow>
      chain P (leaf_pages (snd c) @ ps) (entries (snd c) @ es)"
    and "linked P (concat (map (\<lambda>c. leaf_pages (snd c)) cs) @ ps) BP_INVALID_PAGE_NUM" "chain P ps es"
  shows "chain P (concat (map (\<lambda>c. leaf_pages (snd c)) cs) @ ps) (concat (map (\<lambda>c. entries (snd c)) cs) @ es)"
  using assms by (induction cs) (simp_all add: linked_append)

lemma chain_tree:
  assumes "rep P par g" "filled lmax imax g" "2 \<le> lmax" "linked P (leaf_pages g @ ps) BP_INVALID_PAGE_NUM" "chain P ps es"
  shows "chain P (leaf_pages g @ ps) (entries g @ es)"
  using assms
proof (induction g arbitrary: par ps es rule: gtree_induct)
  case (leaf p xs)
  then have "xs \<noteq> []" by auto
  then show ?case using leaf by auto
next
  case (node p cs)
  have "\<forall>c\<in>set cs. \<forall>ps es. linked P (leaf_pages (snd c) @ ps) BP_INVALID_PAGE_NUM \<longrightarrow> chain P ps es \<longrightarrow>
      chain P (leaf_pages (snd c) @ ps) (entries (snd c) @ es)"
    using node by fastforce
  then show ?case using chain_concat node.prems(4,5) by simp
qed

lemma chain_trees:
  assumes "\<forall>c\<in>set cs. rep P par (snd c) \<and> filled lmax imax (snd c)" "2 \<le> lmax"
    and "linked P (concat (map (\<lambda>c. leaf_pages (snd c)) cs) @ ps) BP_INVALID_PAGE_NUM" "chain P ps es"
  shows "chain P (concat (map (\<lambda>c. leaf_pages (snd c)) cs) @ ps) (concat (map (\<lambda>c. entries (snd c)) cs) @ es)"
  using assms chain_tree[of P par _ lmax imax] by (intro chain_concat) auto

lemma chain_right:
  assumes "rep_ctx P fs h" "fillc lmax imax fs" "2 \<le> lmax" "linked P (right_leaves fs) BP_INVALID_PAGE_NUM"
  shows "chain P (right_leaves fs) (right_entries fs)"
  using assms
proof (induction P fs h rule: rep_ctx.induct)
  case (2 P p ls k rs fs h)
  then show ?case using chain_trees[of rs P p lmax imax "right_leaves fs"] by (simp add: linked_append)
qed simp

lemma tree_chain:
  assumes "index_ok t" "tree_ok t m g"
  shows "chain (bt_pages t) (leaf_pages g) (entries g)"
proof (cases g)
  case (GLeaf p es)
  then show ?thesis using assms by (auto simp: tree_ok_def)
next
  case (GNode p cs)
  then show ?thesis
    using assms chain_trees[of cs "bt_pages t" p "leaf_max_size t" "internal_max_size t" "[]" "[]"]
    by (simp add: tree_ok_def index_ok_def)
qed

lemma leaf_chain:
  assumes "index_ok t" "tree_ok t m (plug fs (GLeaf p es))"
  shows "bt_pages t p = Some (Leaf_Node (par_of fs) (hd (right_leaves fs @ [BP_INVALID_PAGE_NUM])) es)" "es \<noteq> []"
    "chain (bt_pages t) (right_leaves fs) (right_entries fs)"
proof -
  have r: "rep (bt_pages t) (par_of fs) (GLeaf p es)" "rep_ctx (bt_pages t) fs p"
    and l: "linked (bt_pages t) (p # right_leaves fs) BP_INVALID_PAGE_NUM"
    and rf: "root_filled (leaf_max_size t) (internal_max_size t) (plug fs (GLeaf p es))"
    using assms(2) by (auto simp: tree_ok_def plug_rep plug_leaf_pages linked_append)
  note f = filled_plug[OF rf]
  have two: "2 \<le> leaf_max_size t" "4 \<le> leaf_max_size t" using assms(1) by (auto simp: index_ok_def)
  show "bt_pages t p = Some (Leaf_Node (par_of fs) (hd (right_leaves fs @ [BP_INVALID_PAGE_NUM])) es)"
    using r l by auto
  show "es \<noteq> []" using f(2) two by (auto split: if_splits)
  show "chain (bt_pages t) (right_leaves fs) (right_entries fs)"
    using chain_right[OF r(2) f(1) two(1)] l by simp
qed

section \<open>The first leaf\<close>

lemma left_most_loop:
  assumes "rep (bt_pages t) par g" "filled lmax imax g \<or> root_filled lmax imax g" "2 \<le> imax"
  shows "find_leaf_loop (\<lambda>cs. value_at cs 0) t (page_of g) = Some (SUCCESS, Some (hd (leaf_pages g))) \<and> leaf_pages g \<noteq> []"
  using assms
proof (induction g arbitrary: par rule: gtree_induct)
  case (leaf p es)
  then show ?case by (auto simp: find_leaf_loop.simps)
next
  case (node p cs)
  obtain c cs' where cs: "cs = c # cs'" using node.prems(2,3) by (cases cs) auto
  have "rep (bt_pages t) p (snd c)" "filled lmax imax (snd c)" using node.prems(1,2) cs by auto
  then show ?case
    using node.IH[of c p] node.prems(1,3) cs by (simp add: find_leaf_loop.simps[of _ _ p] value_at_def)
qed

lemma left_most_page_first:
  assumes "index_ok t" "tree_ok t m g"
  shows "left_most_page t = Some (SUCCESS, Some (hd (leaf_pages g)))" "leaf_pages g \<noteq> []"
proof -
  have "rep (bt_pages t) BP_INVALID_PAGE_NUM g" "root_filled (leaf_max_size t) (internal_max_size t) g" "root_page t = page_of g"
    "2 \<le> internal_max_size t"
    using assms by (auto simp: tree_ok_def index_ok_def)
  then show "left_most_page t = Some (SUCCESS, Some (hd (leaf_pages g)))" "leaf_pages g \<noteq> []"
    using left_most_loop[of t BP_INVALID_PAGE_NUM g "leaf_max_size t" "internal_max_size t"] tree_ok_not_empty[OF assms(2)]
    by (simp_all add: left_most_page_def find_leaf_internal_def)
qed

section \<open>Steps of a scan\<close>

text \<open>The scanner stands at the first of the entries \<open>rest\<close>.\<close>

definition scan_rest :: "'a ikey bplus_tree \<Rightarrow> 'a tree_scanner \<Rightarrow> ('a ikey \<times> rid) list \<Rightarrow> bool" where
  "scan_rest t s rest \<longleftrightarrow> (\<exists>p i par es1 ps es2. current_page s = Some p \<and> iter_index s = int i \<and> i < length es1 \<and>
     bt_pages t p = Some (Leaf_Node par (hd (ps @ [BP_INVALID_PAGE_NUM])) es1) \<and> chain (bt_pages t) ps es2 \<and>
     BP_INVALID_PAGE_NUM \<notin> set ps \<and> rest = drop i es1 @ es2)"

lemma scan_restI:
  assumes "current_page s = Some p" "iter_index s = int i" "i < length es1"
    and "bt_pages t p = Some (Leaf_Node par (hd (ps @ [BP_INVALID_PAGE_NUM])) es1)" "chain (bt_pages t) ps es2"
    and "BP_INVALID_PAGE_NUM \<notin> set ps" "rest = drop i es1 @ es2"
  shows "scan_rest t s rest"
  unfolding scan_rest_def using assms by blast

definition beyond :: "'a ikey bplus_tree \<Rightarrow> 'a tree_scanner \<Rightarrow> 'a ikey \<times> rid \<Rightarrow> bool" where
  "beyond t s e \<longleftrightarrow> (\<exists>k. right_key s = Some k \<and> key_comparator t (fst e) k > 0)"

lemma scan_rest_item:
  "scan_rest t s (e # rest) \<Longrightarrow> current_item t s = Some e"
  "scan_rest t s (e # rest) \<Longrightarrow> touch_end t s = Some (beyond t s e)"
proof -
  show a: "current_item t s = Some e" if "scan_rest t s (e # rest)"
    using that by (auto simp: scan_rest_def current_item_def Cons_eq_append_conv drop_eq_Nil dest: sym simp flip: Cons_nth_drop_Suc)
  show "touch_end t s = Some (beyond t s e)" if "scan_rest t s (e # rest)"
    using a[OF that] by (auto simp: touch_end_def beyond_def split: option.splits)
qed

lemma scan_rest_not_Nil: "\<not> scan_rest t s []"
  by (auto simp: scan_rest_def)

lemma next_entry_first:
  assumes "scan_rest t s (e # rest)" "\<not> first_emitted s"
  shows "next_entry latched t s = Some (SUCCESS, Some (snd e), s\<lparr>first_emitted := True\<rparr>)"
proof -
  obtain p where "current_page s = Some p" using assms(1) by (auto simp: scan_rest_def)
  then show ?thesis using assms scan_rest_item(1)[OF assms(1)] by (simp add: next_entry.simps fetch_item_def)
qed

text \<open>A step inside a leaf.\<close>

lemma next_entry_inside:
  assumes "current_page s = Some p" "first_emitted s" "bt_pages t p = Some (Leaf_Node par nx es)"
    and "iter_index s = int i - 1" "i < length es"
  shows "next_entry latched t s = (let s' = s\<lparr>iter_index := int i\<rparr> in
     Some (if beyond t s (es ! i) then (RECORD_EOF, None, s') else (SUCCESS, Some (snd (es ! i)), s')))"
proof -
  have "current_item t (s\<lparr>iter_index := int i\<rparr>) = Some (es ! i)" using assms by (simp add: current_item_def)
  then show ?thesis using assms
    by (auto simp: next_entry.simps touch_end_def fetch_item_def beyond_def Let_def split: option.splits)
qed

lemma next_entry_step:
  assumes "scan_rest t s (e # rest)" "first_emitted s" "\<forall>p. latched p"
  shows "\<exists>s'. next_entry latched t s = Some (if rest = [] \<or> beyond t s (hd rest) then (RECORD_EOF, None, s')
      else (SUCCESS, Some (snd (hd rest)), s')) \<and>
    (rest \<noteq> [] \<longrightarrow> scan_rest t s' rest) \<and> first_emitted s' \<and> right_key s' = right_key s"
proof -
  obtain p i par es1 ps es2 where s: "current_page s = Some p" "iter_index s = int i" "i < length es1"
    "bt_pages t p = Some (Leaf_Node par (hd (ps @ [BP_INVALID_PAGE_NUM])) es1)" "chain (bt_pages t) ps es2"
    "BP_INVALID_PAGE_NUM \<notin> set ps" "e # rest = drop i es1 @ es2" using assms(1) by (auto simp: scan_rest_def)
  have rest: "rest = drop (Suc i) es1 @ es2" using s(3,7) by (simp flip: Cons_nth_drop_Suc)
  show ?thesis
  proof (cases "Suc i < length es1")
    case True
    let ?s = "s\<lparr>iter_index := int (Suc i)\<rparr>"
    have h: "rest \<noteq> []" "hd rest = es1 ! Suc i" using True rest by (auto simp flip: Cons_nth_drop_Suc)
    have "scan_rest t ?s rest" by (rule scan_restI[OF _ _ True s(4,5,6) rest]) (use s(1) in simp_all)
    then show ?thesis using next_entry_inside[OF s(1) assms(2) s(4), of "Suc i" latched] s(2) True h assms(2)
      by (intro exI[of _ ?s]) (auto simp: Let_def)
  next
    case False
    then have r: "rest = es2" using rest by simp
    show ?thesis
    proof (cases ps)
      case Nil
      then show ?thesis using s assms(2) False r
        by (intro exI[of _ "s\<lparr>iter_index := int (Suc i)\<rparr>"]) (simp add: next_entry.simps)
    next
      case (Cons q qs)
      let ?s1 = "s\<lparr>current_page := Some q, iter_index := -1\<rparr>" and ?s2 = "s\<lparr>current_page := Some q, iter_index := 0\<rparr>"
      obtain par' es3 es4 where q: "bt_pages t q = Some (Leaf_Node par' (hd (qs @ [BP_INVALID_PAGE_NUM])) es3)" "es3 \<noteq> []"
        "es2 = es3 @ es4" "chain (bt_pages t) qs es4" using s(5) Cons by auto
      have "next_entry latched t s = next_entry latched t ?s1"
        using s assms(2,3) False Cons q(1) by (simp add: next_entry.simps[of _ _ s])
      moreover have "next_entry latched t ?s1 = Some (if beyond t s (es3 ! 0) then (RECORD_EOF, None, ?s2) else (SUCCESS, Some (snd (es3 ! 0)), ?s2))"
        using next_entry_inside[of ?s1 q t _ _ es3 0 latched] q(1,2) assms(2) by (simp add: beyond_def Let_def)
      moreover have "scan_rest t ?s2 rest"
        by (rule scan_restI[OF _ _ _ q(1,4), of _ 0]) (use s(6) Cons q(2,3) r in auto)
      ultimately show ?thesis using r q(2,3) assms(2) by (intro exI[of _ ?s2]) (auto simp: hd_conv_nth nth_append)
    qed
  qed
qed

text \<open>
  After a failed latch the scanner is not where it was: the step that is tried again starts behind as many
  entries of the next leaf as the previous leaf had, and one more.
\<close>

lemma next_entry_retry:
  assumes "current_page s = Some p" "first_emitted s" "bt_pages t p = Some (Leaf_Node par q es)" "iter_index s = int (length es) - 1"
    and "q \<noteq> BP_INVALID_PAGE_NUM" "bt_pages t q = Some (Leaf_Node par' nx es')" "\<not> latched q" "Suc (length es) < length es'"
    and "\<not> beyond t s (es' ! Suc (length es))"
  shows "\<exists>s1 s2. next_entry latched t s = Some (LOCKED_NEED_WAIT, None, s1) \<and>
    next_entry latched' t s1 = Some (SUCCESS, Some (snd (es' ! Suc (length es))), s2)"
proof -
  let ?s1 = "s\<lparr>current_page := Some q, iter_index := int (length es)\<rparr>"
  have "next_entry latched t s = Some (LOCKED_NEED_WAIT, None, ?s1)" using assms by (simp add: next_entry.simps[of _ _ s])
  moreover have "next_entry latched' t ?s1 = Some (SUCCESS, Some (snd (es' ! Suc (length es))), ?s1\<lparr>iter_index := int (Suc (length es))\<rparr>)"
    using next_entry_inside[of ?s1 q t par' nx es' "Suc (length es)" latched'] assms by (simp add: beyond_def Let_def)
  ultimately show ?thesis by blast
qed

lemma collect_from:
  assumes "scan_rest t s (e # rest)" "first_emitted s" "\<forall>p. latched p"
  shows "collect_entries latched t s = Some (RECORD_EOF, map snd (takeWhile (\<lambda>x. \<not> beyond t s x) rest))"
  using assms
proof (induction rest arbitrary: s e)
  case Nil
  then show ?case using next_entry_step[OF Nil.prems] by (auto simp: collect_entries.simps[of _ _ s])
next
  case (Cons e' rest)
  obtain s' where s': "next_entry latched t s = Some (if beyond t s e' then (RECORD_EOF, None, s') else (SUCCESS, Some (snd e'), s'))"
    "scan_rest t s' (e' # rest)" "first_emitted s'" "right_key s' = right_key s"
    using next_entry_step[OF Cons.prems] by auto
  have "beyond t s' x = beyond t s x" for x using s'(4) by (simp add: beyond_def)
  then show ?case using s'(1) Cons.IH[OF s'(2,3) Cons.prems(3)] by (simp add: collect_entries.simps[of _ _ s])
qed

lemma collect_all:
  assumes "scan_rest t s (e # rest)" "\<not> first_emitted s" "\<not> beyond t s e" "\<forall>p. latched p"
  shows "collect_entries latched t s = Some (RECORD_EOF, map snd (takeWhile (\<lambda>x. \<not> beyond t s x) (e # rest)))"
proof -
  let ?s = "s\<lparr>first_emitted := True\<rparr>"
  have "scan_rest t ?s (e # rest)" "first_emitted ?s" using assms(1) by (simp_all add: scan_rest_def)
  then have "collect_entries latched t ?s = Some (RECORD_EOF, map snd (takeWhile (\<lambda>x. \<not> beyond t s x) rest))"
    using collect_from[of t ?s e rest latched] assms(4) by (simp add: beyond_def)
  then show ?thesis using next_entry_first[OF assms(1,2)] assms(3) by (simp add: collect_entries.simps[of _ _ s])
qed

section \<open>Opening a scan\<close>

lemma dropWhile_mid:
  assumes "\<forall>x\<in>set xs. P x" "\<forall>z\<in>set zs. \<not> P z"
  shows "dropWhile P (xs @ ys @ zs) = dropWhile P ys @ zs"
proof -
  have a: "dropWhile P (xs @ ys) = dropWhile P ys" for ys using assms(1) by simp
  have "dropWhile P (ys @ zs) = dropWhile P ys @ zs" using assms(2) by (induction ys) (auto simp: dropWhile_eq_self_iff)
  then show "dropWhile P (xs @ ys @ zs) = dropWhile P ys @ zs" using a by simp
qed

context key_order
begin

lemma increasing_dropWhile:
  "increasing cmp (map fst es) \<Longrightarrow> dropWhile (\<lambda>e. cmp (fst e) k < 0) es = filter (\<lambda>e. 0 \<le> cmp (fst e) k) es"
proof (induction es)
  case (Cons e es)
  have "0 \<le> cmp (fst x) k" if "0 \<le> cmp (fst e) k" "x \<in> set es" for x
    using Cons.prems that cmp_less_trans[of "fst e" "fst x" k] by fastforce
  then show ?case using Cons by (auto simp: filter_id_conv not_less)
qed simp

lemma increasing_takeWhile:
  "increasing cmp (map fst es) \<Longrightarrow> takeWhile (\<lambda>e. \<not> 0 < cmp (fst e) k) es = filter (\<lambda>e. \<not> 0 < cmp (fst e) k) es"
proof (induction es)
  case (Cons e es)
  have "0 < cmp (fst x) k" if "0 < cmp (fst e) k" "x \<in> set es" for x
    using Cons.prems that cmp_less_trans[of k "fst e" "fst x"] cmp_swap[of k] by fastforce
  then show ?case using Cons by (auto simp: filter_empty_conv)
qed simp

lemma lower_bound_dropWhile:
  assumes "increasing cmp (map fst es)"
  shows "drop (fst (leaf_lookup cmp es key)) es = dropWhile (\<lambda>e. cmp (fst e) key < 0) es"
proof -
  obtain i found where l: "lower_bound cmp (map fst es) key = (i, found)" by (cases "lower_bound cmp (map fst es) key")
  then have "i \<le> length es" "\<forall>e\<in>set (take i es). cmp (fst e) key < 0" "\<forall>e\<in>set (drop i es). 0 \<le> cmp (fst e) key"
    using lower_bound_splits[OF assms, of key] by (auto simp: splits_at_def take_map drop_map)
  then have "dropWhile (\<lambda>e. cmp (fst e) key < 0) (take i es @ drop i es) = drop i es"
    using dropWhile_mid[of "take i es" "\<lambda>e. cmp (fst e) key < 0" "drop i es" "[]"] by (simp add: not_less)
  then show ?thesis using l by (simp add: leaf_lookup_def)
qed

end

lemma tree_entries_increasing:
  assumes "index_ok t" "tree_ok t m g"
  shows "increasing (key_comparator t) (map fst (entries g))"
proof -
  have "key_order (key_comparator t)" "ord (key_comparator t) m None None g" using assms by (simp_all add: index_ok_def tree_ok_def)
  then show ?thesis using key_order.ord_within by (fastforce simp: within_def)
qed

lemma leaf_pages_valid:
  assumes "tree_ok t m g"
  shows "BP_INVALID_PAGE_NUM \<notin> set (leaf_pages g)"
proof
  assume "BP_INVALID_PAGE_NUM \<in> set (leaf_pages g)"
  then have "BP_INVALID_PAGE_NUM \<in> node_area t" using leaf_pages_sub assms by (auto simp: tree_ok_def)
  from node_area_pos[OF this] show False by simp
qed

text \<open>The start of a scan: the first entry that is not below the left key.\<close>

lemma seek_left_entries:
  assumes "index_ok t" "tree_ok t m g" "left_bound = None \<or> (\<exists>k. left_bound = Some k \<and> fix_key k len True = Some (k', must))"
    and "rest = (if left_bound = None then entries g
      else dropWhile (\<lambda>e. key_comparator t (fst e) (k', if incl \<or> must then rid_min else rid_max) < 0) (entries g))"
  shows "if rest = [] then seek_left fix_key t left_bound len incl = Some (SUCCESS, None)
    else \<exists>p i. seek_left fix_key t left_bound len incl = Some (SUCCESS, Some (p, i)) \<and>
      (\<forall>s. current_page s = Some p \<longrightarrow> iter_index s = i \<longrightarrow> scan_rest t s rest)"
proof (cases left_bound)
  case None
  note f = left_most_page_first[OF assms(1,2)]
  obtain p ps where ps: "leaf_pages g = p # ps" using f(2) by (cases "leaf_pages g") auto
  obtain par es1 es2 where c: "bt_pages t p = Some (Leaf_Node par (hd (ps @ [BP_INVALID_PAGE_NUM])) es1)" "es1 \<noteq> []"
    "entries g = es1 @ es2" "chain (bt_pages t) ps es2"
    using tree_chain[OF assms(1,2)] ps by auto
  have "scan_rest t s rest" if "current_page s = Some p" "iter_index s = 0" for s
    by (rule scan_restI[OF that(1) _ _ c(1,4), of 0]) (use that(2) c(2,3) assms(4) None ps leaf_pages_valid[OF assms(2)] in auto)
  then show ?thesis using f(1) ps c(2,3) None assms(4) by (simp add: seek_left_def)
next
  case (Some k)
  let ?cmp = "key_comparator t" and ?key = "(k', if incl \<or> must then rid_min else rid_max)"
  have K: "key_order ?cmp" using assms(1) by (simp add: index_ok_def)
  obtain fs p es lo hi where l: "find_leaf t ?key = Some (SUCCESS, Some p)" "g = plug fs (GLeaf p es)"
    "ordc ?cmp 0 lo hi fs" "ord ?cmp 0 lo hi (GLeaf p es)" "lo_le ?cmp lo ?key" "hi_gt ?cmp ?key hi"
    using find_leaf_path[OF assms(1,2)] by metis
  note c = leaf_chain[OF assms(1) assms(2)[unfolded l(2)]]
  let ?i = "fst (leaf_lookup ?cmp es ?key)"
  have L: "\<forall>e\<in>set (left_entries fs). ?cmp (fst e) ?key < 0" "\<forall>e\<in>set (right_entries fs). \<not> ?cmp (fst e) ?key < 0"
    using key_order.outside_leaf[OF K l(3,5,6)] key_order.cmp_less_not_less[OF K] by blast+
  have inc: "increasing ?cmp (map fst es)" using l(4) by simp
  have rest: "rest = drop ?i es @ right_entries fs"
    using assms(4) Some l(2) dropWhile_mid[OF L] key_order.lower_bound_dropWhile[OF K inc, of ?key] by (simp add: plug_entries)
  have v: "BP_INVALID_PAGE_NUM \<notin> set (right_leaves fs)"
    using leaf_pages_valid[OF assms(2)] l(2) by (simp add: plug_leaf_pages)
  have fix_k: "fix_key k len True = Some (k', must)" using assms(3) Some by simp
  show ?thesis
  proof (cases "?i < length es")
    case True
    have "scan_rest t s rest" if "current_page s = Some p" "iter_index s = int ?i" for s
      by (rule scan_restI[OF that True c(1,3) v rest])
    then show ?thesis using Some fix_k l(1) c(1) True rest by (simp add: seek_left_def Let_def)
  next
    case False
    show ?thesis
    proof (cases "right_leaves fs")
      case Nil
      then show ?thesis using Some fix_k l(1) c False rest by (simp add: seek_left_def Let_def)
    next
      case (Cons q qs)
      obtain par es1 es2 where q: "bt_pages t q = Some (Leaf_Node par (hd (qs @ [BP_INVALID_PAGE_NUM])) es1)" "es1 \<noteq> []"
        "right_entries fs = es1 @ es2" "chain (bt_pages t) qs es2" using c(3) Cons by auto
      have "scan_rest t s rest" if "current_page s = Some q" "iter_index s = 0" for s
        by (rule scan_restI[OF that(1) _ _ q(1,4), of 0]) (use that(2) q(2,3) False rest v Cons in auto)
      then show ?thesis using Some fix_k l(1) c False rest q v Cons by (simp add: seek_left_def Let_def)
    qed
  qed
qed

section \<open>Bounds of a scan\<close>

text \<open>
  The interface of a key type for scans: \<open>ucmp v k n\<close> compares a stored attribute with the user's key of
  length \<open>n\<close>, and the bound that \<open>fix_key\<close> makes of the user's key selects the same attributes.
\<close>

locale bound_fixing = key_order acmp for acmp :: "'a \<Rightarrow> 'a \<Rightarrow> int" +
  fixes fix_key :: "'a \<Rightarrow> nat \<Rightarrow> bool \<Rightarrow> ('a \<times> bool) option"
    and ucmp :: "'a \<Rightarrow> 'a \<Rightarrow> nat \<Rightarrow> int"
    and stored :: "'a \<Rightarrow> bool"
    and usable :: "'a \<Rightarrow> nat \<Rightarrow> bool"
  assumes fix_left: "usable k n \<Longrightarrow> \<exists>k' must. fix_key k n True = Some (k', must) \<and> (\<forall>v incl. stored v \<longrightarrow>
        (if incl \<or> must then 0 \<le> acmp v k' else 0 < acmp v k') = (if incl then 0 \<le> ucmp v k n else 0 < ucmp v k n))"
    and fix_right: "usable k n \<Longrightarrow> \<exists>k' must. fix_key k n False = Some (k', must) \<and> (\<forall>v incl. stored v \<longrightarrow>
        (if incl \<or> must then acmp v k' \<le> 0 else acmp v k' < 0) = (if incl then ucmp v k n \<le> 0 else ucmp v k n < 0))"

text \<open>The attributes between the two user keys.\<close>

definition in_range ::
    "('a \<Rightarrow> 'a \<Rightarrow> nat \<Rightarrow> int) \<Rightarrow> 'a option \<Rightarrow> nat \<Rightarrow> bool \<Rightarrow> 'a option \<Rightarrow> nat \<Rightarrow> bool \<Rightarrow> 'a \<Rightarrow> bool" where
  "in_range ucmp low left_len left_inclusive high right_len right_inclusive v \<longleftrightarrow>
     (case low of None \<Rightarrow> True | Some k \<Rightarrow> if left_inclusive then 0 \<le> ucmp v k left_len else 0 < ucmp v k left_len) \<and>
     (case high of None \<Rightarrow> True | Some k \<Rightarrow> if right_inclusive then ucmp v k right_len \<le> 0 else ucmp v k right_len < 0)"

text \<open>Record identifiers of a table: the first page of a file holds no records.\<close>

definition proper_rid :: "rid \<Rightarrow> bool" where
  "proper_rid r \<longleftrightarrow> 0 < page_num r \<and> page_num r < 2 ^ 31 - 1"

lemma key_compare_bounds:
  assumes "proper_rid r"
  shows "key_compare acmp (v, r) (k, rid_min) < 0 \<longleftrightarrow> acmp v k < 0" "0 < key_compare acmp (v, r) (k, rid_min) \<longleftrightarrow> 0 \<le> acmp v k"
    "key_compare acmp (v, r) (k, rid_max) < 0 \<longleftrightarrow> acmp v k \<le> 0" "0 < key_compare acmp (v, r) (k, rid_max) \<longleftrightarrow> 0 < acmp v k"
  using assms by (auto simp: key_compare_def rid_compare_def rid_min_def rid_max_def proper_rid_def Let_def)

text \<open>The entries of an index whose keys are attributes with the identifiers they lead to.\<close>

definition index_entries :: "('a \<Rightarrow> bool) \<Rightarrow> ('a ikey \<times> rid) list \<Rightarrow> bool" where
  "index_entries stored es \<longleftrightarrow> (\<forall>e\<in>set es. stored (fst (fst e)) \<and> proper_rid (snd (fst e)))"

lemma index_holds_increasing:
  assumes "index_holds t m es"
  shows "increasing (key_comparator t) (map fst es)"
proof -
  have K: "key_order (key_comparator t)" using assms by (simp add: index_holds_def index_ok_def)
  show ?thesis
    using assms tree_entries_increasing[of t m] key_order.increasing_simps(1)[OF K] by (auto simp: index_holds_def split: if_splits)
qed

lemma collect_nothing:
  "current_page s = None \<Longrightarrow> collect_entries latched t s = Some (RECORD_EOF, [])"
  by (simp add: collect_entries.simps next_entry.simps)

text \<open>What \<open>open\<close> does once its bounds are known, on an index with entries \<open>es\<close>.\<close>

lemma scanner_open_collect:
  assumes "index_holds t m es" "\<not> ts_inited s" "\<forall>p. latched p"
    and "\<not> (case (lk, rk) of (Some l, Some r) \<Rightarrow> acmp l r > 0 \<or> acmp l r = 0 \<and> (\<not> lincl \<or> \<not> rincl) | _ \<Rightarrow> False)"
    and "lk = None \<or> (\<exists>k. lk = Some k \<and> fix_key k llen True = Some (lk', lmust))"
    and "right_bound fix_key rk rlen rincl = Some rb"
  shows "\<exists>s'. scanner_open acmp fix_key t lk llen lincl rk rlen rincl s = Some (SUCCESS, s') \<and>
    collect_entries latched t s' = Some (RECORD_EOF, map snd
      (filter (\<lambda>e. (lk \<noteq> None \<longrightarrow> 0 \<le> key_comparator t (fst e) (lk', if lincl \<or> lmust then rid_min else rid_max)) \<and>
         (\<forall>k. rb = Some k \<longrightarrow> \<not> 0 < key_comparator t (fst e) k)) es))"
proof -
  let ?lkey = "(lk', if lincl \<or> lmust then rid_min else rid_max)"
  have K: "key_order (key_comparator t)" using assms(1) by (simp add: index_holds_def index_ok_def)
  define rest where "rest = (if lk = None then es else dropWhile (\<lambda>e. key_comparator t (fst e) ?lkey < 0) es)"
  have rest: "rest = filter (\<lambda>e. lk \<noteq> None \<longrightarrow> 0 \<le> key_comparator t (fst e) ?lkey) es"
    unfolding rest_def using key_order.increasing_dropWhile[OF K index_holds_increasing[OF assms(1)]] by simp
  have inc: "increasing (key_comparator t) (map fst rest)"
    using index_holds_increasing[OF assms(1)] unfolding rest increasing_def sorted_wrt_map by (rule sorted_wrt_filter)
  have seek: "if rest = [] then seek_left fix_key t lk llen lincl = Some (SUCCESS, None)
    else \<exists>p i. seek_left fix_key t lk llen lincl = Some (SUCCESS, Some (p, i)) \<and>
      (\<forall>s. current_page s = Some p \<longrightarrow> iter_index s = i \<longrightarrow> scan_rest t s rest)"
  proof (cases "is_empty t")
    case True
    then show ?thesis using assms(1,5) unfolding rest_def
      by (auto simp: index_holds_def seek_left_def find_leaf_def left_most_page_def find_leaf_internal_def Let_def)
  next
    case False
    then obtain g where g: "index_ok t" "tree_ok t m g" "entries g = es" using assms(1) by (auto simp: index_holds_def)
    show ?thesis by (rule seek_left_entries[where fix_key=fix_key and k'=lk' and must=lmust, OF g(1,2) assms(5)]) (simp add: rest_def g(3))
  qed
  have all: "map snd (filter (\<lambda>e. (lk \<noteq> None \<longrightarrow> 0 \<le> key_comparator t (fst e) ?lkey) \<and> (\<forall>k. rb = Some k \<longrightarrow> \<not> 0 < key_comparator t (fst e) k)) es)
    = map snd (takeWhile (\<lambda>e. \<not> (\<exists>k. rb = Some k \<and> 0 < key_comparator t (fst e) k)) rest)"
    using key_order.increasing_takeWhile[OF K inc] unfolding rest by (cases rb) (simp_all add: conj_commute takeWhile_eq_all_conv[THEN iffD2])
  show ?thesis
  proof (cases rest)
    case Nil
    then show ?thesis using seek assms(2,4) unfolding all by (simp add: scanner_open_def Let_def collect_nothing)
  next
    case (Cons e rest')
    obtain p i where pi: "seek_left fix_key t lk llen lincl = Some (SUCCESS, Some (p, i))"
      "\<And>s. current_page s = Some p \<Longrightarrow> iter_index s = i \<Longrightarrow> scan_rest t s (e # rest')" using seek Cons by auto
    define s2 where "s2 = s\<lparr>ts_inited := True, first_emitted := False, current_page := Some p, iter_index := i, right_key := rb\<rparr>"
    have r: "scan_rest t s2 (e # rest')" by (rule pi(2)) (simp_all add: s2_def)
    have "scanner_open acmp fix_key t lk llen lincl rk rlen rincl s = Some (SUCCESS, if beyond t s2 e then s2\<lparr>current_page := None\<rparr> else s2)"
      using assms(2,4,6) pi(1) scan_rest_item(2)[OF r] by (simp add: scanner_open_def s2_def Let_def)
    moreover have "collect_entries latched t (if beyond t s2 e then s2\<lparr>current_page := None\<rparr> else s2) =
      Some (RECORD_EOF, map snd (takeWhile (\<lambda>x. \<not> beyond t s2 x) (e # rest')))"
      using collect_all[OF r _ _ assms(3)] by (simp add: collect_nothing s2_def)
    moreover have "beyond t s2 = (\<lambda>e. \<exists>k. rb = Some k \<and> 0 < key_comparator t (fst e) k)" by (simp add: beyond_def s2_def fun_eq_iff)
    ultimately show ?thesis unfolding all Cons by auto
  qed
qed

context bound_fixing
begin

lemma scan_returns_range:
  assumes "index_holds t m es" "key_comparator t = key_compare acmp" "index_entries stored es" "\<forall>p. latched p"
    and "\<forall>k. lk = Some k \<longrightarrow> usable k llen" "\<forall>k. rk = Some k \<longrightarrow> usable k rlen"
    and "\<not> (case (lk, rk) of (Some l, Some r) \<Rightarrow> acmp l r > 0 \<or> acmp l r = 0 \<and> (\<not> lincl \<or> \<not> rincl) | _ \<Rightarrow> False)"
  shows "\<exists>s. scanner_open acmp fix_key t lk llen lincl rk rlen rincl new_scanner = Some (SUCCESS, s) \<and>
    collect_entries latched t s =
      Some (RECORD_EOF, map snd (filter (\<lambda>e. in_range ucmp lk llen lincl rk rlen rincl (fst (fst e))) es))"
proof -
  have st: "stored (fst (fst e))" "proper_rid (snd (fst e))" if "e \<in> set es" for e using assms(3) that by (auto simp: index_entries_def)
  obtain lk' lmust where l: "lk = None \<or> (\<exists>k. lk = Some k \<and> fix_key k llen True = Some (lk', lmust))"
    "\<forall>k v. lk = Some k \<longrightarrow> stored v \<longrightarrow>
        (if lincl \<or> lmust then 0 \<le> acmp v lk' else 0 < acmp v lk') = (if lincl then 0 \<le> ucmp v k llen else 0 < ucmp v k llen)"
  proof (cases lk)
    case (Some k)
    then obtain k' must where "fix_key k llen True = Some (k', must)" "\<forall>v incl. stored v \<longrightarrow>
        (if incl \<or> must then 0 \<le> acmp v k' else 0 < acmp v k') = (if incl then 0 \<le> ucmp v k llen else 0 < ucmp v k llen)"
      using fix_left[of k llen] assms(5) by blast
    then show thesis using that[of k' must] Some by auto
  qed (use that in auto)
  obtain rb where r: "right_bound fix_key rk rlen rincl = Some rb"
    "\<forall>v i. stored v \<longrightarrow> proper_rid i \<longrightarrow> (\<forall>k. rb = Some k \<longrightarrow> \<not> 0 < key_compare acmp (v, i) k) =
      (case rk of None \<Rightarrow> True | Some k \<Rightarrow> if rincl then ucmp v k rlen \<le> 0 else ucmp v k rlen < 0)"
  proof (cases rk)
    case None
    then show thesis using that[of None] by (simp add: right_bound_def)
  next
    case (Some k)
    then obtain k' must where k: "fix_key k rlen False = Some (k', must)" "\<forall>v incl. stored v \<longrightarrow>
        (if incl \<or> must then acmp v k' \<le> 0 else acmp v k' < 0) = (if incl then ucmp v k rlen \<le> 0 else ucmp v k rlen < 0)"
      using fix_right[of k rlen] assms(6) by blast
    let ?k = "(k', if rincl \<or> must then rid_max else rid_min)"
    have "(\<not> 0 < key_compare acmp (v, i) ?k) = (if rincl then ucmp v k rlen \<le> 0 else ucmp v k rlen < 0)"
      if "stored v" "proper_rid i" for v i
      using k(2)[rule_format, OF that(1), of rincl] key_compare_bounds[OF that(2), of acmp v k'] by (auto simp: not_less split: if_splits)
    then show thesis using that[of "Some ?k"] Some k(1) by (simp add: right_bound_def)
  qed
  have eq: "((lk \<noteq> None \<longrightarrow> 0 \<le> key_compare acmp (fst e) (lk', if lincl \<or> lmust then rid_min else rid_max)) \<and>
      (\<forall>k. rb = Some k \<longrightarrow> \<not> 0 < key_compare acmp (fst e) k)) = in_range ucmp lk llen lincl rk rlen rincl (fst (fst e))"
    if "e \<in> set es" for e
  proof -
    obtain v i x where e: "e = ((v, i), x)" by (cases e) auto
    have "lk = Some k \<Longrightarrow> (0 \<le> key_compare acmp (v, i) (lk', if lincl \<or> lmust then rid_min else rid_max)) =
        (if lincl then 0 \<le> ucmp v k llen else 0 < ucmp v k llen)" for k
      using l(2)[rule_format, of k v] st[OF that] key_compare_bounds[of i acmp v lk'] e by (auto simp: not_less[symmetric] split: if_splits)
    then show ?thesis using r(2)[rule_format, of v i] st[OF that] e by (cases lk) (simp_all add: in_range_def)
  qed
  show ?thesis
    using scanner_open_collect[OF assms(1) _ assms(4,7) l(1) r(1), of new_scanner] filter_cong[OF refl eq, of es "\<lambda>e. e"]
    by (simp add: assms(2) new_scanner_def eq cong: filter_cong)
qed

end

section \<open>Integer keys\<close>

interpretation int_bounds: bound_fixing compare_int keep_user_key "\<lambda>v k n. compare_int v k" "\<lambda>_. True" "\<lambda>_ _. True"
  unfolding bound_fixing_def bound_fixing_axioms_def using key_order_compare_int
  by (auto simp: keep_user_key_def intro!: exI[of _ False])

section \<open>String keys\<close>

lemma cstring_no_zero: "0 \<notin> set s \<Longrightarrow> cstring s = s"
  unfolding cstring_def by (subst takeWhile_eq_all_conv) auto

lemma lex3_eq_iff: "lex3 x y = 0 \<longleftrightarrow> x = y"
  by (induction x y rule: lex3.induct) auto

lemma byte_succ:
  assumes "y \<noteq> (255 :: byte)"
  shows "x < y + 1 \<longleftrightarrow> x \<le> y" "y + 1 < x \<longleftrightarrow> y < x \<and> x \<noteq> y + 1" "y + 1 \<noteq> 0"
proof -
  have "(255 :: byte) = -1" by simp
  then show n: "y + 1 \<noteq> 0" using assms by (metis add.commute add_eq_0_iff)
  then have "unat (y + 1) = Suc (unat y)" using unatSuc[of y] by (simp add: add.commute)
  then show "x < y + 1 \<longleftrightarrow> x \<le> y" "y + 1 < x \<longleftrightarrow> y < x \<and> x \<noteq> y + 1"
    by (auto simp: word_less_nat_alt word_le_nat_alt word_unat_eq_iff)
qed

text \<open>A string of at most \<open>n\<close> characters compared with a longer one: only its first \<open>n\<close> characters matter.\<close>

lemma lex3_prefix:
  assumes "length w \<le> n" "n < length s"
  shows "lex3 w s < 0 \<longleftrightarrow> lex3 w (take n s) \<le> 0" "lex3 w s \<noteq> 0"
  using assms
proof (induction w s arbitrary: n rule: lex3.induct)
  case (2 y ys)
  {
    case 1
    then show ?case by (cases n) auto
  next
    case 2
    then show ?case by simp
  }
next
  case (4 x xs y ys)
  {
    case 1
    then show ?case using "4.IH"(1)[of "n - 1"] by (cases n) auto
  next
    case 2
    then show ?case using "4.IH"(2)[of "n - 1"] by (cases n) auto
  }
qed simp_all

text \<open>The successor of a string of \<open>n\<close> characters among the strings of at most \<open>n\<close> characters.\<close>

lemma lex3_successor:
  assumes "length w \<le> n" "length s = n" "0 < n" "last s \<noteq> 255"
  shows "0 \<le> lex3 w (s[n - 1 := s ! (n - 1) + 1]) \<longleftrightarrow> 0 < lex3 w s"
  using assms
proof (induction w s arbitrary: n rule: lex3.induct)
  case (2 y ys)
  then show ?case by (cases ys) auto
next
  case (4 x xs y ys)
  show ?case
  proof (cases ys)
    case Nil
    then have "xs = []" "n = 1" using "4.prems" by auto
    then show ?thesis using Nil "4.prems"(4) by (auto simp: byte_succ)
  next
    case Cons
    obtain m where m: "n = Suc (Suc m)" "length ys = Suc m" using Cons "4.prems"(2) by auto
    have "lex3 (x # xs) ((y # ys)[n - 1 := (y # ys) ! (n - 1) + 1]) =
        (if x < y then -1 else if y < x then 1 else lex3 xs (ys[m := ys ! m + 1]))"
      using m by simp
    moreover have "last ys \<noteq> 255" using "4.prems"(4) Cons by simp
    ultimately show ?thesis using "4.prems"(1) "4.IH"[of "Suc m"] m by simp
  qed
qed simp_all

lemma take_cstring: "n \<le> length (cstring k) \<Longrightarrow> 0 \<notin> set (take n k)" "n < length (cstring k) \<Longrightarrow> char_at k n \<noteq> 0"
  "n \<le> length (cstring k) \<Longrightarrow> n \<le> length k"
proof -
  have t: "take (length (cstring k)) k = cstring k" unfolding cstring_def by (metis takeWhile_eq_take)
  have z: "0 \<notin> set (cstring k)" unfolding cstring_def using set_takeWhileD[of 0 _ k] by blast
  have l: "length (cstring k) \<le> length k" unfolding cstring_def by (rule length_takeWhile_le)
  show "0 \<notin> set (take n k)" if "n \<le> length (cstring k)" using z set_take_subset_set_take[OF that, of k] t by auto
  show "n \<le> length k" if "n \<le> length (cstring k)" using that l by simp
  show "char_at k n \<noteq> 0" if "n < length (cstring k)"
    using that nth_mem[OF that] z t l by (metis char_at_def less_le_trans nth_take)
qed

lemma cstring_append_zeros: "0 \<notin> set s \<Longrightarrow> cstring (s @ replicate n 0) = s"
  by (induction s) (auto simp: cstring_def intro: takeWhile_eq_Nil_iff[THEN iffD2])

text \<open>What the fixed bound is, as a string.\<close>

lemma fix_user_key_bound:
  assumes "n \<le> length (cstring k)" "0 < l" "l < n \<longrightarrow> k ! (l - 1) \<noteq> 255"
  shows "\<exists>k'. fix_user_key l k n want = Some (k', l < n) \<and>
    cstring (take l k') = (if n \<le> l then take n k else if want then (take l k)[l - 1 := take l k ! (l - 1) + 1] else take l k)"
proof (cases "n \<le> l")
  case True
  let ?k = "take n k @ replicate (l - n) 0"
  have "length (take n k) = n" using take_cstring(3)[OF assms(1)] by simp
  then have "take l ?k = ?k" using True by simp
  then show ?thesis using True assms take_cstring(1)[OF assms(1)]
    by (simp add: fix_user_key_def cstring_append_zeros)
next
  case False
  let ?s = "(take l k)[l - 1 := take l k ! (l - 1) + 1]"
  have l: "l < length (cstring k)" "l \<le> length k" using False assms(1) take_cstring(3)[of l k] by auto
  have z: "0 \<notin> set (take l k)" using take_cstring(1)[of l k] l by simp
  have "k ! (l - 1) + 1 \<noteq> 0" using byte_succ(3) assms(3) False by simp
  then have "0 \<notin> set ?s" using z set_update_subset_insert[of "take l k" "l - 1"] assms(2) by fastforce
  then show ?thesis using False assms take_cstring(2)[OF l(1)] z l(2)
    by (auto simp: fix_user_key_def Let_def cstring_no_zero)
qed

lemma length_cstring_take: "length (cstring (take l v)) \<le> l"
  unfolding cstring_def by (metis length_takeWhile_le length_take le_trans min.cobounded2)

lemma key_order_chars_attr_compare: "key_order (chars_attr_compare l)"
  unfolding chars_attr_compare_def using key_order_chars_compare by (simp add: key_order_def)

interpretation chars_bounds: bound_fixing "chars_attr_compare (Suc l)" "fix_user_key (Suc l)"
  "\<lambda>v k n. lex3 (cstring (take (Suc l) v)) (take n k)" "\<lambda>_. True"
  "\<lambda>k n. n \<le> length (cstring k) \<and> (Suc l < n \<longrightarrow> k ! l \<noteq> 255)" for l :: nat
proof (unfold bound_fixing_def bound_fixing_axioms_def, intro conjI allI impI)
  fix k :: "byte list" and n
  assume u: "n \<le> length (cstring k) \<and> (Suc l < n \<longrightarrow> k ! l \<noteq> 255)"
  let ?w = "\<lambda>v. cstring (take (Suc l) v)"
  have len: "length (take n k) = n" "n \<le> length k" using u take_cstring(3)[of n k] by auto
  have long: "lex3 (?w v) (take n k) < 0 \<longleftrightarrow> lex3 (?w v) (take (Suc l) k) \<le> 0" "lex3 (?w v) (take n k) \<le> 0 \<longleftrightarrow> lex3 (?w v) (take (Suc l) k) \<le> 0"
    "0 < lex3 (?w v) (take n k) \<longleftrightarrow> 0 < lex3 (?w v) (take (Suc l) k)" "0 \<le> lex3 (?w v) (take n k) \<longleftrightarrow> 0 < lex3 (?w v) (take (Suc l) k)"
    if "Suc l < n" for v
  proof -
    have t: "take (Suc l) (take n k) = take (Suc l) k" using that by (simp add: min_def)
    have a: "lex3 (?w v) (take n k) < 0 \<longleftrightarrow> lex3 (?w v) (take (Suc l) k) \<le> 0" "lex3 (?w v) (take n k) \<noteq> 0"
      using lex3_prefix[OF length_cstring_take[of "Suc l" v], of "take n k"] that len(1) t by simp_all
    show "lex3 (?w v) (take n k) < 0 \<longleftrightarrow> lex3 (?w v) (take (Suc l) k) \<le> 0" "lex3 (?w v) (take n k) \<le> 0 \<longleftrightarrow> lex3 (?w v) (take (Suc l) k) \<le> 0"
      "0 < lex3 (?w v) (take n k) \<longleftrightarrow> 0 < lex3 (?w v) (take (Suc l) k)" "0 \<le> lex3 (?w v) (take n k) \<longleftrightarrow> 0 < lex3 (?w v) (take (Suc l) k)"
      using a by linarith+
  qed
  have succ: "0 \<le> lex3 (?w v) ((take (Suc l) k)[l := take (Suc l) k ! l + 1]) \<longleftrightarrow> 0 < lex3 (?w v) (take (Suc l) k)"
    if "Suc l < n" for v
    using lex3_successor[OF length_cstring_take[of "Suc l" v], of "take (Suc l) k"] that len(2) u
    by (simp add: take_Suc_conv_app_nth)
  show "\<exists>k' must. fix_user_key (Suc l) k n True = Some (k', must) \<and> (\<forall>v incl. True \<longrightarrow>
      (if incl \<or> must then 0 \<le> chars_attr_compare (Suc l) v k' else 0 < chars_attr_compare (Suc l) v k') =
      (if incl then 0 \<le> lex3 (?w v) (take n k) else 0 < lex3 (?w v) (take n k)))"
    using fix_user_key_bound[of n k "Suc l" True] u long succ
    by (auto simp: chars_attr_compare_def chars_compare_lex3)
  show "\<exists>k' must. fix_user_key (Suc l) k n False = Some (k', must) \<and> (\<forall>v incl. True \<longrightarrow>
      (if incl \<or> must then chars_attr_compare (Suc l) v k' \<le> 0 else chars_attr_compare (Suc l) v k' < 0) =
      (if incl then lex3 (?w v) (take n k) \<le> 0 else lex3 (?w v) (take n k) < 0))"
    using fix_user_key_bound[of n k "Suc l" False] u long
    by (auto simp: chars_attr_compare_def chars_compare_lex3)
qed (rule key_order_chars_attr_compare)

section \<open>A concrete index\<close>

definition demo_rows :: "(int ikey \<times> rid) list" where
  "demo_rows = map (\<lambda>(v, i). ((v, \<lparr>page_num = 1, slot_num = i\<rparr>), \<lparr>page_num = 1, slot_num = i\<rparr>)) [(10, 4), (20, 1), (20, 3), (30, 0), (40, 2)]"

definition demo_rows_tree :: "int ikey bplus_tree" where
  "demo_rows_tree = two_leaves (key_compare compare_int) (0, rid_min) (take 2 demo_rows) (drop 2 demo_rows)"

lemma demo_rows_holds:
  "index_holds demo_rows_tree (Suc 0) demo_rows" "key_comparator demo_rows_tree = key_compare compare_int"
  "index_entries (\<lambda>_. True) demo_rows"
proof -
  have i: "increasing (key_compare compare_int) (map fst (take 2 demo_rows @ drop 2 demo_rows))"
    by (simp add: demo_rows_def increasing_def key_compare_def compare_int_def rid_compare_def)
  show "index_holds demo_rows_tree (Suc 0) demo_rows"
    using two_leaves_holds(1)[OF int_key.key_order_axioms i] by (simp add: demo_rows_tree_def demo_rows_def)
  show "key_comparator demo_rows_tree = key_compare compare_int" by (simp add: demo_rows_tree_def two_leaves_def)
  show "index_entries (\<lambda>_. True) demo_rows" by (simp add: index_entries_def demo_rows_def proper_rid_def)
qed

text \<open>Strings of at most four characters: AB, ABCD, ABCE, B.\<close>

definition demo_names :: "(byte list ikey \<times> rid) list" where
  "demo_names = map (\<lambda>(v, i). ((v, \<lparr>page_num = 1, slot_num = i\<rparr>), \<lparr>page_num = 1, slot_num = i\<rparr>))
     [([65, 66, 0, 0], 1), ([65, 66, 67, 68], 2), ([65, 66, 67, 69], 3), ([66, 0, 0, 0], 4)]"

definition demo_names_tree :: "byte list ikey bplus_tree" where
  "demo_names_tree = two_leaves (key_compare (chars_attr_compare 4)) ([0, 0, 0, 0], rid_min) (take 2 demo_names) (drop 2 demo_names)"

lemma demo_names_holds:
  "index_holds demo_names_tree (Suc 0) demo_names" "key_comparator demo_names_tree = key_compare (chars_attr_compare 4)"
  "index_entries (\<lambda>_. True) demo_names"
proof -
  have i: "increasing (key_compare (chars_attr_compare 4)) (map fst (take 2 demo_names @ drop 2 demo_names))"
    by (simp add: demo_names_def increasing_def key_compare_def chars_attr_compare_def chars_compare_lex3 cstring_def)
  show "index_holds demo_names_tree (Suc 0) demo_names"
    using two_leaves_holds(1)[OF key_order_key_compare[OF key_order_chars_attr_compare] i]
    by (simp add: demo_names_tree_def demo_names_def)
  show "key_comparator demo_names_tree = key_compare (chars_attr_compare 4)" by (simp add: demo_names_tree_def two_leaves_def)
  show "index_entries (\<lambda>_. True) demo_names" by (simp add: index_entries_def demo_names_def proper_rid_def)
qed

section \<open>Properties\<close>

text \<open>
  C21.  A range scan of an integer index ends and returns the record identifiers of exactly the entries
  whose attribute lies between the two bounds, each bound included or not as asked and each optional, in
  key order; a range that cannot contain a value is refused with \<open>INVALID_ARGUMENT\<close>.
\<close>

theorem int_range_scan:
  assumes "index_holds t m es" "key_comparator t = key_compare compare_int" "index_entries (\<lambda>_. True) es" "\<forall>p. latched p"
  shows "if (\<exists>l r. lk = Some l \<and> rk = Some r \<and> (l > r \<or> l = r \<and> (\<not> lincl \<or> \<not> rincl)))
    then \<exists>s. scanner_open compare_int keep_user_key t lk llen lincl rk rlen rincl new_scanner = Some (INVALID_ARGUMENT, s)
    else \<exists>s. scanner_open compare_int keep_user_key t lk llen lincl rk rlen rincl new_scanner = Some (SUCCESS, s) \<and>
      collect_entries latched t s = Some (RECORD_EOF, map snd (filter (\<lambda>e. let v = fst (fst e) in
        (\<forall>l. lk = Some l \<longrightarrow> (if lincl then l \<le> v else l < v)) \<and> (\<forall>r. rk = Some r \<longrightarrow> (if rincl then v \<le> r else v < r))) es))"
proof -
  let ?bad = "case (lk, rk) of (Some l, Some r) \<Rightarrow> compare_int l r > 0 \<or> compare_int l r = 0 \<and> (\<not> lincl \<or> \<not> rincl) | _ \<Rightarrow> False"
  have bad: "(\<exists>l r. lk = Some l \<and> rk = Some r \<and> (l > r \<or> l = r \<and> (\<not> lincl \<or> \<not> rincl))) \<longleftrightarrow> ?bad"
    by (cases lk; cases rk) (auto simp: compare_int_def)
  have rng: "in_range (\<lambda>v k n. compare_int v k) lk llen lincl rk rlen rincl v \<longleftrightarrow>
      (\<forall>l. lk = Some l \<longrightarrow> (if lincl then l \<le> v else l < v)) \<and> (\<forall>r. rk = Some r \<longrightarrow> (if rincl then v \<le> r else v < r))" for v
    by (cases lk; cases rk) (auto simp: in_range_def compare_int_def)
  show ?thesis
  proof (cases ?bad)
    case True
    then show ?thesis unfolding bad by (simp add: scanner_open_def new_scanner_def Let_def)
  next
    case False
    then show ?thesis using int_bounds.scan_returns_range[OF assms _ _ False, of llen rlen] unfolding bad Let_def rng[symmetric] by simp
  qed
qed

theorem int_range_scan_witness:
  "\<exists>s. scanner_open compare_int keep_user_key demo_rows_tree (Some 10) 4 False (Some 30) 4 True new_scanner = Some (SUCCESS, s) \<and>
    collect_entries (\<lambda>p. True) demo_rows_tree s =
      Some (RECORD_EOF, [\<lparr>page_num = 1, slot_num = 1\<rparr>, \<lparr>page_num = 1, slot_num = 3\<rparr>, \<lparr>page_num = 1, slot_num = 0\<rparr>])"
  using int_range_scan[OF demo_rows_holds, of "\<lambda>p. True" "Some 10" "Some 30" False True 4 4] by (simp add: demo_rows_def)

text \<open>
  C22.  A lookup in an index on a string column of \<open>Suc l\<close> bytes returns exactly the record identifiers of
  the rows whose string equals the first \<open>n\<close> characters of the given key, also when the key is longer than
  the column, where no row is returned; it never runs past a leaf or fails an assertion.
\<close>

theorem chars_get_entry:
  assumes "index_holds t m es" "key_comparator t = key_compare (chars_attr_compare (Suc l))"
    "index_entries (\<lambda>_. True) es" "\<forall>p. latched p" "n \<le> length (cstring k)" "Suc l < n \<longrightarrow> k ! l \<noteq> 255"
  shows "get_entry (chars_attr_compare (Suc l)) (fix_user_key (Suc l)) latched t k n =
    Some (SUCCESS, map snd (filter (\<lambda>e. cstring (take (Suc l) (fst (fst e))) = take n k) es))"
proof -
  let ?u = "\<lambda>v k n. lex3 (cstring (take (Suc l) v)) (take n k)"
  have "chars_attr_compare (Suc l) k k = 0" using key_order.cmp_refl[OF key_order_chars_attr_compare] .
  then obtain s where "scanner_open (chars_attr_compare (Suc l)) (fix_user_key (Suc l)) t (Some k) n True (Some k) n True new_scanner = Some (SUCCESS, s)"
    "collect_entries latched t s = Some (RECORD_EOF, map snd (filter (\<lambda>e. in_range ?u (Some k) n True (Some k) n True (fst (fst e))) es))"
    using chars_bounds.scan_returns_range[OF assms(1-4), of "Some k" n "Some k" n True True] assms(5,6) by auto
  moreover have "in_range ?u (Some k) n True (Some k) n True v \<longleftrightarrow> cstring (take (Suc l) v) = take n k" for v
    using lex3_eq_iff[of "cstring (take (Suc l) v)" "take n k"] by (auto simp: in_range_def)
  ultimately show ?thesis by (simp add: get_entry_def)
qed

theorem chars_get_entry_witness:
  "get_entry (chars_attr_compare 4) (fix_user_key 4) (\<lambda>p. True) demo_names_tree [65, 66, 67, 69, 0] 4 =
    Some (SUCCESS, [\<lparr>page_num = 1, slot_num = 3\<rparr>])"
  using chars_get_entry[OF demo_names_holds(1) _ demo_names_holds(3), of 3 "\<lambda>p. True" 4 "[65, 66, 67, 69, 0]"] demo_names_holds(2)
  by (simp add: demo_names_def cstring_def)

end
