(* ===== verification/Bplus_Tree_Validate.thy ===== *)
theory Bplus_Tree_Validate
  imports Bplus_Tree_Scan
begin

text \<open>
  The consistency checks of the index: \<open>validate\<close> of the node handlers, \<open>validate_node_recursive\<close>,
  \<open>validate_leaf_link\<close> and \<open>validate_tree\<close> of src/src/observer/storage/index/bplus_tree.cpp, which the program
  uses to test its own tree.  They accept every tree that satisfies the invariant.
\<close>

section \<open>Checks of a node\<close>

definition node_validate :: "'k index_node \<Rightarrow> bool" where
  "node_validate n \<longleftrightarrow> (nd_parent n = BP_INVALID_PAGE_NUM \<longrightarrow>
     1 \<le> node_size n \<and> (case n of Leaf_Node _ _ _ \<Rightarrow> True | Internal_Node _ _ \<Rightarrow> 2 \<le> node_size n))"

text \<open>The loop over neighbouring keys.\<close>

fun ascending :: "('k \<Rightarrow> 'k \<Rightarrow> int) \<Rightarrow> 'k list \<Rightarrow> bool" where
  "ascending cmp (x # y # ks) \<longleftrightarrow> \<not> cmp x y \<ge> 0 \<and> ascending cmp (y # ks)"
| "ascending cmp _ \<longleftrightarrow> True"

text \<open>The position of a child page among the items.\<close>

fun value_index_from :: "nat \<Rightarrow> ('k \<times> PageNum) list \<Rightarrow> PageNum \<Rightarrow> nat option" where
  "value_index_from i [] p = None"
| "value_index_from i (c # cs) p = (if p = snd c then Some i else value_index_from (Suc i) cs p)"

definition value_index :: "('k \<times> PageNum) list \<Rightarrow> PageNum \<Rightarrow> nat option" where
  "value_index cs p = value_index_from 0 cs p"

text \<open>
  The last part of both \<open>validate\<close>: the keys of the node at page \<open>p\<close> lie between its own and the next key of
  the parent.  The node is compared at the position \<open>first\<close> (0 in a leaf, 1 in an internal node) and at its
  last position; reading behind the items gives \<open>None\<close>.
\<close>

definition validate_in_parent :: "'k bplus_tree \<Rightarrow> PageNum \<Rightarrow> 'k index_node \<Rightarrow> nat \<Rightarrow> bool option" where
  "validate_in_parent t p n first =
     (if nd_parent n = BP_INVALID_PAGE_NUM then Some True
      else case bt_pages t (nd_parent n) of
        None \<Rightarrow> Some False
      | Some _ \<Rightarrow> do {
          (_, cs) \<leftarrow> internal_at t (nd_parent n);
          case value_index cs p of
            None \<Rightarrow> Some False
          | Some index_in_parent \<Rightarrow> do {
              low \<leftarrow> (if index_in_parent \<noteq> 0
                then do { k \<leftarrow> node_key_at n first; Some (\<not> key_comparator t k (fst (cs ! index_in_parent)) < 0) }
                else Some True);
              if \<not> low then Some False
              else if index_in_parent + 1 < length cs
              then do {
                k \<leftarrow> node_key_at n (node_size n - 1);
                Some (\<not> key_comparator t k (fst (cs ! (index_in_parent + 1))) \<ge> 0)
              }
              else Some True
            }
        })"

definition leaf_validate :: "'k bplus_tree \<Rightarrow> PageNum \<Rightarrow> 'k index_node \<Rightarrow> bool option" where
  "leaf_validate t p n =
     (if \<not> node_validate n then Some False
      else if \<not> ascending (key_comparator t) (map fst (leaf_items n)) then Some False
      else validate_in_parent t p n 0)"

text \<open>Children whose page number is negative or cannot be read are only reported.\<close>

definition children_validate :: "'k bplus_tree \<Rightarrow> PageNum \<Rightarrow> ('k \<times> PageNum) list \<Rightarrow> bool" where
  "children_validate t p cs \<longleftrightarrow>
     list_all (\<lambda>c. snd c < 0 \<or> (case bt_pages t (snd c) of None \<Rightarrow> True | Some n \<Rightarrow> nd_parent n = p)) cs"

definition internal_validate :: "'k bplus_tree \<Rightarrow> PageNum \<Rightarrow> 'k index_node \<Rightarrow> bool option" where
  "internal_validate t p n =
     (if \<not> node_validate n then Some False
      else if \<not> ascending (key_comparator t) (map fst (tl (child_items n))) then Some False
      else if \<not> children_validate t p (child_items n) then Some False
      else validate_in_parent t p n 1)"

section \<open>Checks of the tree\<close>

text \<open>\<open>validate_node_recursive\<close> on the children of a node one after the other.\<close>

partial_function (option) validate_nodes :: "'k bplus_tree \<Rightarrow> PageNum list \<Rightarrow> bool option" where
  "validate_nodes t ps = (case ps of
     [] \<Rightarrow> Some True
   | p # ps' \<Rightarrow> (case bt_pages t p of
       None \<Rightarrow> Some False
     | Some n \<Rightarrow> (case n of
         Leaf_Node _ _ _ \<Rightarrow> do {
           result \<leftarrow> leaf_validate t p n;
           if result then validate_nodes t ps' else Some False
         }
       | Internal_Node _ cs \<Rightarrow> do {
           result \<leftarrow> internal_validate t p n;
           if \<not> result then Some False
           else do {
             below \<leftarrow> validate_nodes t (map snd cs);
             if below then validate_nodes t ps' else Some False
           }
         })))"

definition last_key :: "('k \<times> rid) list \<Rightarrow> 'k option" where
  "last_key es = (if es = [] then None else Some (fst (last es)))"

partial_function (option) validate_links :: "'k bplus_tree \<Rightarrow> PageNum \<Rightarrow> 'k \<Rightarrow> bool option" where
  "validate_links t next_page_num prev_key =
     (if next_page_num = BP_INVALID_PAGE_NUM then Some True
      else case bt_pages t next_page_num of
        None \<Rightarrow> Some False
      | Some _ \<Rightarrow> do {
          (_, nx, es) \<leftarrow> leaf_at t next_page_num;
          first \<leftarrow> (case es of [] \<Rightarrow> None | e # _ \<Rightarrow> Some (fst e));
          k \<leftarrow> last_key es;
          if key_comparator t prev_key first \<ge> 0 then Some False else validate_links t nx k
        })"

definition validate_leaf_link :: "'k bplus_tree \<Rightarrow> bool option" where
  "validate_leaf_link t =
     (if is_empty t then Some True
      else do {
        (r, found) \<leftarrow> left_most_page t;
        case found of
          None \<Rightarrow> Some False
        | Some p \<Rightarrow> do {
            (_, nx, es) \<leftarrow> leaf_at t p;
            k \<leftarrow> last_key es;
            validate_links t nx k
          }
      })"

definition validate_tree :: "'k bplus_tree \<Rightarrow> bool option" where
  "validate_tree t =
     (if is_empty t then Some True
      else do {
        nodes \<leftarrow> validate_nodes t [root_page t];
        if nodes then validate_leaf_link t else Some False
      })"

section \<open>Sound trees pass\<close>

lemma increasing_ascending: "increasing cmp ks \<Longrightarrow> ascending cmp ks"
  by (induction cmp ks rule: ascending.induct) (auto simp: increasing_def)

lemma value_index_at: "p \<notin> snd ` set xs \<Longrightarrow> value_index (xs @ (k, p) # ys) p = Some (length xs)"
proof -
  have "p \<notin> snd ` set xs \<Longrightarrow> value_index_from i (xs @ (k, p) # ys) p = Some (i + length xs)" for i
    by (induction xs arbitrary: i) auto
  then show "p \<notin> snd ` set xs \<Longrightarrow> ?thesis" by (simp add: value_index_def)
qed

text \<open>How a node hangs in its parent: at the position between \<open>ls\<close> and \<open>rs\<close>, with its bounds.\<close>

definition hangs :: "'k bplus_tree \<Rightarrow> PageNum \<Rightarrow> PageNum \<Rightarrow> 'k option \<Rightarrow> 'k option \<Rightarrow> bool" where
  "hangs t par p lo hi \<longleftrightarrow> par \<noteq> BP_INVALID_PAGE_NUM \<longrightarrow> (\<exists>par' xs k ys. bt_pages t par = Some (Internal_Node par' (xs @ (k, p) # ys)) \<and>
     p \<notin> snd ` set xs \<and> (xs \<noteq> [] \<longrightarrow> lo = Some k) \<and> (ys \<noteq> [] \<longrightarrow> hi = Some (fst (hd ys))))"

lemma validate_in_parent_ok:
  assumes "hangs t (nd_parent n) p lo hi" "key_order (key_comparator t)"
    and "node_key_at n first = Some a" "lo_le (key_comparator t) lo a"
    and "node_key_at n (node_size n - 1) = Some b" "hi_gt (key_comparator t) b hi"
  shows "validate_in_parent t p n first = Some True"
proof (cases "nd_parent n = BP_INVALID_PAGE_NUM")
  case False
  obtain par' xs k ys where h: "bt_pages t (nd_parent n) = Some (Internal_Node par' (xs @ (k, p) # ys))" "p \<notin> snd ` set xs"
    "xs \<noteq> [] \<longrightarrow> lo = Some k" "ys \<noteq> [] \<longrightarrow> hi = Some (fst (hd ys))" using assms(1) False by (auto simp: hangs_def)
  have low: "xs \<noteq> [] \<Longrightarrow> \<not> key_comparator t a k < 0"
    using assms(4) h(3) key_order.cmp_le_iff[OF assms(2), of k] by auto
  have high: "ys \<noteq> [] \<Longrightarrow> \<not> 0 \<le> key_comparator t b (fst (hd ys))" using assms(6) h(4) by simp
  show ?thesis
    using False h(1) value_index_at[OF h(2), of k ys] low high assms(3,5)
    by (cases "xs = []"; cases "ys = []") (simp_all add: validate_in_parent_def nth_append hd_conv_nth)
qed (simp add: validate_in_parent_def)

lemma leaf_validate_ok:
  assumes "key_order (key_comparator t)" "hangs t par p lo hi" "ord (key_comparator t) n lo hi (GLeaf p es)" "es \<noteq> []"
  shows "leaf_validate t p (Leaf_Node par nx es) = Some True"
proof -
  have "hd es \<in> set es" "last es \<in> set es" using assms(4) by auto
  then have b: "lo_le (key_comparator t) lo (fst (hd es))" "hi_gt (key_comparator t) (fst (last es)) hi" using assms(3) by auto
  have "validate_in_parent t p (Leaf_Node par nx es) 0 = Some True"
    by (rule validate_in_parent_ok[OF _ assms(1) _ b(1) _ b(2)])
      (use assms(2,4) in \<open>simp_all add: node_key_at_def node_size_def hd_conv_nth last_conv_nth\<close>)
  then show ?thesis using assms(3,4)
    by (auto simp: leaf_validate_def node_validate_def node_size_def Suc_le_eq intro!: increasing_ascending)
qed

lemma internal_validate_ok:
  assumes K: "key_order (key_comparator t)" and "hangs t par p lo hi" "ord (key_comparator t) n lo hi (GNode p cs)" "2 \<le> length cs"
    and "\<forall>x\<in>set cs. rep (bt_pages t) p (snd x)"
  shows "internal_validate t p (Internal_Node par (items_of cs)) = Some True"
proof -
  let ?n = "Internal_Node par (items_of cs)"
  obtain x y zs where cs: "cs = x # y # zs" using assms(4) by (cases cs; cases "tl cs") auto
  have o: "increasing (key_comparator t) (map fst (tl cs))"
    "\<forall>x\<in>set (tl cs). lo_lt (key_comparator t) lo (fst x) \<and> hi_gt (key_comparator t) (fst x) hi"
    using key_order.ords_keys[OF K, of "n - 1" lo hi cs] assms(3) by simp_all
  have "lo_le (key_comparator t) lo (fst y)" using o(2) cs by (cases lo) auto
  moreover have "hi_gt (key_comparator t) (fst (last (y # zs))) hi" using o(2) cs by (metis last_in_set list.sel(3) list.simps(3))
  ultimately have "validate_in_parent t p ?n 1 = Some True"
    by (intro validate_in_parent_ok[OF _ K])
      (use assms(2) cs in \<open>auto simp: node_key_at_def node_size_def last_conv_nth items_of_def\<close>)
  moreover have "tl (items_of cs) = items_of (tl cs)" by (cases cs) auto
  moreover have "children_validate t p (items_of cs)"
    using assms(5) rep_page by (fastforce simp: children_validate_def list_all_iff items_of_def split: option.splits)
  ultimately show ?thesis using o(1) assms(4)
    by (simp add: internal_validate_def node_validate_def node_size_def increasing_ascending)
qed

lemma hangs_child:
  assumes "bt_pages t p = Some (Internal_Node par (items_of (ls @ (k, c) # rs)))" "distinct (pages_of (GNode p (ls @ (k, c) # rs)))"
  shows "hangs t p (page_of c) (lo_of lo ls k) (hi_of hi rs)"
proof -
  have d: "set (pages_of c) \<inter> (\<Union>x\<in>set ls. set (pages_of (snd x))) = {}" using assms(2) by auto
  have "page_of c \<notin> snd ` set (items_of ls)"
  proof
    assume "page_of c \<in> snd ` set (items_of ls)"
    then obtain x where "x \<in> set ls" "page_of c = page_of (snd x)" by (auto simp: items_of_def)
    then show False using d page_of_in_pages by (metis UN_I disjoint_iff)
  qed
  then show ?thesis unfolding hangs_def using assms(1)
    by (intro impI exI[of _ par] exI[of _ "items_of ls"] exI[of _ k] exI[of _ "items_of rs"])
      (cases rs; auto simp: lo_of_def hi_of_def)
qed

lemma validate_nodes_tree:
  assumes K: "key_order (key_comparator t)" and "4 \<le> lmax" "6 \<le> imax"
    and "rep (bt_pages t) par g" "ord (key_comparator t) n lo hi g" "filled lmax imax g \<or> root_filled lmax imax g"
    and "hangs t par (page_of g) lo hi" "distinct (pages_of g)"
  shows "validate_nodes t (page_of g # ps) = validate_nodes t ps"
  using assms(4-)
proof (induction g arbitrary: par n lo hi ps rule: gtree_induct)
  case (leaf p es)
  then have "es \<noteq> []" using assms(2) by auto
  then show ?case using leaf.prems(1) leaf_validate_ok[OF K leaf.prems(4)[simplified] leaf.prems(2)]
    by (auto simp: validate_nodes.simps[of t "p # ps"])
next
  case (node p cs)
  have two: "2 \<le> length cs" and f: "\<forall>x\<in>set cs. filled lmax imax (snd x)" using node.prems(3) assms(3) by auto
  have r: "bt_pages t p = Some (Internal_Node par (items_of cs))" "\<forall>x\<in>set cs. rep (bt_pages t) p (snd x)" using node.prems(1) by auto
  have v: "internal_validate t p (Internal_Node par (items_of cs)) = Some True"
    using internal_validate_ok[OF K _ node.prems(2) two r(2)] node.prems(4) by simp
  have o: "ords (key_comparator t) (n - 1) lo hi cs" using node.prems(2) by simp
  have "cs = ls @ rs \<Longrightarrow> validate_nodes t (map (\<lambda>x. page_of (snd x)) rs) = Some True" for ls rs
  proof (induction rs arbitrary: ls)
    case (Cons x rs)
    obtain k c where x: "x = (k, c)" by (cases x)
    have c: "ord (key_comparator t) (n - 1) (lo_of lo ls k) (hi_of hi rs) c" using key_order.ords_mid[OF K] o Cons.prems x by blast
    have h: "hangs t p (page_of c) (lo_of lo ls k) (hi_of hi rs)"
      by (rule hangs_child) (use r(1) node.prems(5) Cons.prems x in simp_all)
    have m: "x \<in> set cs" "distinct (pages_of (snd x))" using Cons.prems node.prems(5) by auto
    have "validate_nodes t (page_of (snd x) # map (\<lambda>x. page_of (snd x)) rs) = validate_nodes t (map (\<lambda>x. page_of (snd x)) rs)"
      by (rule node.IH[OF m(1) bspec[OF r(2) m(1)] _ disjI1[OF bspec[OF f m(1)]] _ m(2)]) (use c h x in simp_all)
    then show ?case using Cons.IH[of "ls @ [x]"] Cons.prems by simp
  qed (simp add: validate_nodes.simps)
  from this[of "[]" cs] have "validate_nodes t (map snd (items_of cs)) = Some True" by (simp add: items_of_def comp_def)
  then show ?case using r(1) v by (simp add: validate_nodes.simps[of t "p # ps"])
qed

lemma validate_links_chain:
  assumes "chain (bt_pages t) ps es" "BP_INVALID_PAGE_NUM \<notin> set ps" "increasing (key_comparator t) (k # map fst es)"
  shows "validate_links t (hd (ps @ [BP_INVALID_PAGE_NUM])) k = Some True"
  using assms
proof (induction ps arbitrary: k es)
  case (Cons p ps)
  obtain par es1 es2 where c: "bt_pages t p = Some (Leaf_Node par (hd (ps @ [BP_INVALID_PAGE_NUM])) es1)" "es1 \<noteq> []"
    "es = es1 @ es2" "chain (bt_pages t) ps es2" using Cons.prems(1) by auto
  have "increasing (key_comparator t) (fst (last es1) # map fst es2)" "key_comparator t k (fst (hd es1)) < 0"
    using Cons.prems(3) c(2,3) by (auto simp: increasing_def sorted_wrt_append last_in_set)
  then show ?case using Cons.IH[OF c(4)] Cons.prems(2) c(1,2)
    by (cases es1) (auto simp: validate_links.simps[of t p] last_key_def)
qed (simp add: validate_links.simps)

section \<open>Property\<close>

text \<open>
  C23.  The consistency check of the program terminates and accepts every index that satisfies the
  invariant, that is every index that insertions and deletions can produce: the recursive check of keys,
  parent links and separators, and the walk along the leaves.
\<close>

theorem validate_tree_accepts:
  assumes "index_holds t m es"
  shows "validate_tree t = Some True"
proof (cases "is_empty t")
  case False
  obtain g where g: "index_ok t" "tree_ok t m g" using assms False by (auto simp: index_holds_def)
  have K: "key_order (key_comparator t)" "4 \<le> leaf_max_size t" "6 \<le> internal_max_size t" using g(1) by (simp_all add: index_ok_def)
  have "validate_nodes t (page_of g # []) = validate_nodes t []"
    by (rule validate_nodes_tree[OF K, of BP_INVALID_PAGE_NUM g m None None])
      (use g(2) in \<open>auto simp: tree_ok_def hangs_def\<close>)
  then have v: "validate_nodes t [root_page t] = Some True" using g(2) by (simp add: validate_nodes.simps[of t "[]"] tree_ok_def)
  obtain p ps where ps: "leaf_pages g = p # ps" using left_most_page_first(2)[OF g] by (cases "leaf_pages g") auto
  obtain par es1 es2 where c: "bt_pages t p = Some (Leaf_Node par (hd (ps @ [BP_INVALID_PAGE_NUM])) es1)" "es1 \<noteq> []"
    "entries g = es1 @ es2" "chain (bt_pages t) ps es2" using tree_chain[OF g] ps by auto
  have "increasing (key_comparator t) (fst (last es1) # map fst es2)"
    using tree_entries_increasing[OF g] c(2,3) by (auto simp: increasing_def sorted_wrt_append last_in_set)
  then have "validate_leaf_link t = Some True"
    using validate_links_chain[OF c(4)] leaf_pages_valid[OF g(2)] left_most_page_first(1)[OF g] ps c(1,2) False
    by (simp add: validate_leaf_link_def last_key_def)
  then show ?thesis using v False by (simp add: validate_tree_def)
qed (simp add: validate_tree_def)

theorem validate_tree_accepts_witness: "validate_tree demo_tree = Some True"
  using validate_tree_accepts[OF demo_tree_holds(1)] .

end
