(* ===== verification/Serializer.thy ===== *)
theory Serializer
  imports MiniOB_Base
begin

text \<open>
  \<open>Serializer\<close> and \<open>Deserializer\<close> of src/deps/common/lang/serializer.cpp.  A serializer is the sequence of
  bytes written so far, a deserializer the bytes that remain; integers are stored in the byte order of the
  machine, least significant byte first.
\<close>

section \<open>Bytes of an integer\<close>

fun le_bytes :: "nat \<Rightarrow> int \<Rightarrow> byte list" where
  "le_bytes 0 v = []"
| "le_bytes (Suc n) v = word_of_int v # le_bytes n (v div 256)"

fun le_value :: "byte list \<Rightarrow> int" where
  "le_value [] = 0"
| "le_value (b # bs) = uint b + 256 * le_value bs"

text \<open>The number that \<open>n\<close> bytes stand for in two's complement.\<close>

definition signed_value :: "nat \<Rightarrow> byte list \<Rightarrow> int" where
  "signed_value n bs = (let u = le_value bs in if u < 2 ^ (8 * n - 1) then u else u - 2 ^ (8 * n))"

section \<open>Writing and reading\<close>

definition write_int32 :: "int \<Rightarrow> byte list" where
  "write_int32 v = le_bytes 4 v"

definition write_int64 :: "int \<Rightarrow> byte list" where
  "write_int64 v = le_bytes 8 v"

definition read_span :: "nat \<Rightarrow> byte list \<Rightarrow> (byte list \<times> byte list) option" where
  "read_span n bs = (if n > length bs then None else Some (take n bs, drop n bs))"

definition read_int32 :: "byte list \<Rightarrow> (int \<times> byte list) option" where
  "read_int32 bs = map_option (\<lambda>(d, rest). (signed_value 4 d, rest)) (read_span 4 bs)"

definition read_int64 :: "byte list \<Rightarrow> (int \<times> byte list) option" where
  "read_int64 bs = map_option (\<lambda>(d, rest). (signed_value 8 d, rest)) (read_span 8 bs)"

section \<open>Reading back\<close>

text \<open>The values of the types int32 and int64.\<close>

definition int32 :: "int \<Rightarrow> bool" where
  "int32 v \<longleftrightarrow> - (2 ^ 31) \<le> v \<and> v < 2 ^ 31"

definition int64 :: "int \<Rightarrow> bool" where
  "int64 v \<longleftrightarrow> - (2 ^ 63) \<le> v \<and> v < 2 ^ 63"

text \<open>Conversion to a 32 bit integer.\<close>

definition int32_cast :: "int \<Rightarrow> int" where
  "int32_cast v = (v + 2 ^ 31) mod 2 ^ 32 - 2 ^ 31"

lemma int32_cast_id [simp]: "int32 v \<Longrightarrow> int32_cast v = v"
  by (simp add: int32_cast_def int32_def)

lemma length_le_bytes [simp]: "length (le_bytes n v) = n"
  by (induction n arbitrary: v) auto

lemma le_value_le_bytes: "le_value (le_bytes n v) = v mod 256 ^ n"
proof (induction n arbitrary: v)
  case (Suc n)
  have "uint (word_of_int v :: byte) = v mod 256" by (simp add: uint_word_of_int)
  moreover have "v mod 256 + 256 * (v div 256 mod 256 ^ n) = v mod (256 * 256 ^ n)" by (simp add: zmod_zmult2_eq)
  ultimately show ?case using Suc by simp
qed simp

lemma signed_value_le_bytes:
  assumes "- (2 ^ (8 * n - 1)) \<le> v" "v < 2 ^ (8 * n - 1)" "0 < n"
  shows "signed_value n (le_bytes n v) = v"
proof -
  have p: "(256 :: int) ^ n = 2 ^ (8 * n)" by (simp add: power_mult)
  have "8 * n = Suc (8 * n - 1)" using assms(3) by simp
  then have d: "(2 :: int) ^ (8 * n) = 2 * 2 ^ (8 * n - 1)" by (metis power_Suc)
  show ?thesis
  proof (cases "0 \<le> v")
    case True
    then have "v mod 2 ^ (8 * n) = v" using assms(2) d by simp
    then show ?thesis using assms(2) by (simp add: signed_value_def le_value_le_bytes p)
  next
    case False
    have "v mod 2 ^ (8 * n) = (v + 2 ^ (8 * n)) mod 2 ^ (8 * n)" by simp
    also have "\<dots> = v + 2 ^ (8 * n)" using False assms(1) d by (intro mod_pos_pos_trivial) auto
    finally show ?thesis using assms(1) d by (simp add: signed_value_def le_value_le_bytes p)
  qed
qed

lemma read_span_append [simp]: "length d = n \<Longrightarrow> read_span n (d @ rest) = Some (d, rest)"
  by (simp add: read_span_def)

lemma read_write_int32 [simp]: "int32 v \<Longrightarrow> read_int32 (write_int32 v @ rest) = Some (v, rest)"
  by (simp add: read_int32_def write_int32_def int32_def signed_value_le_bytes)

lemma read_write_int64 [simp]: "int64 v \<Longrightarrow> read_int64 (write_int64 v @ rest) = Some (v, rest)"
  by (simp add: read_int64_def write_int64_def int64_def signed_value_le_bytes)

lemma length_write_int [simp]: "length (write_int32 v) = 4" "length (write_int64 v) = 8"
  by (simp_all add: write_int32_def write_int64_def)

text \<open>What is read has the range of its type.\<close>

lemma le_value_range: "0 \<le> le_value bs \<and> le_value bs < 256 ^ length bs"
proof (induction bs)
  case (Cons b bs)
  have "0 \<le> uint b" "uint b \<le> 255" using uint_lt2p[of b] by simp_all
  moreover have "256 * le_value bs \<le> 256 * (256 ^ length bs - 1)" using Cons by simp
  ultimately show ?case using Cons by simp
qed simp

lemma read_int32_range: "read_int32 bs = Some (v, rest) \<Longrightarrow> int32 v"
  using le_value_range[of "take 4 bs"]
  by (auto simp: read_int32_def read_span_def signed_value_def int32_def Let_def split: if_splits)

lemma read_int_consumes:
  "read_int32 bs = Some (v, rest) \<Longrightarrow> length rest < length bs" "read_span n bs = Some (d, rest) \<Longrightarrow> length rest \<le> length bs"
  by (auto simp: read_int32_def read_span_def split: if_splits)

end
