(* ===== verification/Bplus_Tree_Log.thy ===== *)
theory Bplus_Tree_Log
  imports Bplus_Tree_Find Serializer
begin

text \<open>
  The log of the B+ tree: the log entries of src/src/observer/storage/index/bplus_tree_log_entry.cpp with
  their binary format, their redo and their rollback, and the replay of the entries of one mini transaction
  (\<open>BplusTreeLogger\<close>, src/src/observer/storage/index/bplus_tree_log.cpp).
\<close>

section \<open>Log entries\<close>

record index_file_header =
  h_root_page :: PageNum
  h_internal_max_size :: int
  h_leaf_max_size :: int
  h_attr_length :: int
  h_key_length :: int
  h_attr_type :: int

text \<open>
  One class of log entry handlers per constructor.  The values of the state before the operation, which
  only a rollback needs, come last.  Keys and items are bytes in the log; the parameters of the type are
  also used for decoded keys and items.
\<close>

datatype ('key, 'items) log_operation =
    INIT_HEADER_PAGE index_file_header
  | UPDATE_ROOT_PAGE PageNum PageNum
  | SET_PARENT_PAGE PageNum PageNum
  | LEAF_INIT_EMPTY
  | LEAF_SET_NEXT_PAGE PageNum PageNum
  | INTERNAL_INIT_EMPTY
  | INTERNAL_CREATE_NEW_ROOT PageNum 'key PageNum
  | INTERNAL_UPDATE_KEY int 'key 'key
  | NODE_INSERT int 'items int
  | NODE_REMOVE int 'items int

text \<open>The page and the operation.\<close>

type_synonym ('key, 'items) bt_entry = "PageNum \<times> ('key, 'items) log_operation"
type_synonym raw_entry = "(byte list, byte list) bt_entry"

definition operation_index :: "('key, 'items) log_operation \<Rightarrow> int" where
  "operation_index oper = (case oper of
     INIT_HEADER_PAGE _ \<Rightarrow> 0 | UPDATE_ROOT_PAGE _ _ \<Rightarrow> 1 | SET_PARENT_PAGE _ _ \<Rightarrow> 2 | LEAF_INIT_EMPTY \<Rightarrow> 3
   | LEAF_SET_NEXT_PAGE _ _ \<Rightarrow> 4 | INTERNAL_INIT_EMPTY \<Rightarrow> 5 | INTERNAL_CREATE_NEW_ROOT _ _ _ \<Rightarrow> 6
   | INTERNAL_UPDATE_KEY _ _ _ \<Rightarrow> 7 | NODE_INSERT _ _ _ \<Rightarrow> 8 | NODE_REMOVE _ _ _ \<Rightarrow> 9)"

section \<open>Binary format\<close>

definition serialize_header :: "raw_entry \<Rightarrow> byte list" where
  "serialize_header e = write_int32 (operation_index (snd e)) @ write_int32 (fst e)"

definition write_file_header :: "index_file_header \<Rightarrow> byte list" where
  "write_file_header h = write_int32 (h_root_page h) @ write_int32 (h_internal_max_size h) @ write_int32 (h_leaf_max_size h) @
     write_int32 (h_attr_length h) @ write_int32 (h_key_length h) @ write_int32 (h_attr_type h)"

definition serialize_new_root :: "PageNum \<Rightarrow> byte list \<Rightarrow> PageNum \<Rightarrow> byte list" where
  "serialize_new_root first_page_num key page =
     write_int32 first_page_num @ write_int32 page @ write_int32 (int (length key)) @ key"

definition serialize_update_key :: "int \<Rightarrow> byte list \<Rightarrow> byte list" where
  "serialize_update_key index key = write_int32 index @ write_int32 (int (length key)) @ key"

definition serialize_normal :: "int \<Rightarrow> byte list \<Rightarrow> int \<Rightarrow> byte list" where
  "serialize_normal index items item_num =
     write_int32 index @ write_int32 item_num @ write_int32 (int (length items)) @ items"

definition serialize_body :: "(byte list, byte list) log_operation \<Rightarrow> byte list" where
  "serialize_body oper = (case oper of
     INIT_HEADER_PAGE h \<Rightarrow> write_file_header h
   | UPDATE_ROOT_PAGE root_page_num _ \<Rightarrow> write_int32 root_page_num
   | SET_PARENT_PAGE parent_page_num _ \<Rightarrow> write_int32 parent_page_num
   | LEAF_INIT_EMPTY \<Rightarrow> []
   | LEAF_SET_NEXT_PAGE new_page_num _ \<Rightarrow> write_int32 new_page_num
   | INTERNAL_INIT_EMPTY \<Rightarrow> []
   | INTERNAL_CREATE_NEW_ROOT first_page_num key page \<Rightarrow> serialize_new_root first_page_num key page
   | INTERNAL_UPDATE_KEY index key _ \<Rightarrow> serialize_update_key index key
   | NODE_INSERT index items item_num \<Rightarrow> serialize_normal index items item_num
   | NODE_REMOVE index items item_num \<Rightarrow> serialize_normal index items item_num)"

lemmas serialize_defs = serialize_new_root_def serialize_update_key_def serialize_normal_def serialize_body_def

definition serialize :: "raw_entry \<Rightarrow> byte list" where
  "serialize e = serialize_header e @ serialize_body (snd e)"

text \<open>
  A vector of a size read from the log: a negative size makes its constructor throw, which is \<open>None\<close>; when
  the buffer is too short the entry is refused with \<open>INTERNAL\<close>.
\<close>

definition read_vector :: "int \<Rightarrow> byte list \<Rightarrow> (byte list \<times> byte list) option option" where
  "read_vector n bs = (if n < 0 then None else Some (read_span (nat n) bs))"

definition read_file_header :: "byte list \<Rightarrow> (index_file_header \<times> byte list) option" where
  "read_file_header bs = do {
     (d, rest) \<leftarrow> read_span 24 bs;
     (a, d1) \<leftarrow> read_int32 d; (b, d2) \<leftarrow> read_int32 d1; (c, d3) \<leftarrow> read_int32 d2;
     (e, d4) \<leftarrow> read_int32 d3; (f, d5) \<leftarrow> read_int32 d4; (g, _) \<leftarrow> read_int32 d5;
     Some (\<lparr>h_root_page = a, h_internal_max_size = b, h_leaf_max_size = c, h_attr_length = e, h_key_length = f, h_attr_type = g\<rparr>, rest)
   }"

type_synonym parsed = "(rc \<times> (byte list, byte list) log_operation option \<times> byte list) option"

definition parse_int32 :: "byte list \<Rightarrow> (int \<Rightarrow> byte list \<Rightarrow> parsed) \<Rightarrow> parsed" where
  "parse_int32 bs f = (case read_int32 bs of None \<Rightarrow> Some (INTERNAL, None, bs) | Some (v, rest) \<Rightarrow> f v rest)"

definition parse_bytes :: "int \<Rightarrow> byte list \<Rightarrow> (byte list \<Rightarrow> (byte list, byte list) log_operation) \<Rightarrow> parsed" where
  "parse_bytes n bs f = do {
     r \<leftarrow> read_vector n bs;
     case r of None \<Rightarrow> Some (INTERNAL, None, bs) | Some (d, rest) \<Rightarrow> Some (SUCCESS, Some (f d), rest)
   }"

text \<open>\<open>deserialize\<close> of the handler classes; the old values are not in the log.\<close>

definition deserialize_init_header :: "byte list \<Rightarrow> parsed" where
  "deserialize_init_header bs = (case read_file_header bs of
     None \<Rightarrow> Some (INTERNAL, None, bs) | Some (h, rest) \<Rightarrow> Some (SUCCESS, Some (INIT_HEADER_PAGE h), rest))"

definition deserialize_update_root :: "byte list \<Rightarrow> parsed" where
  "deserialize_update_root bs = parse_int32 bs (\<lambda>v rest. Some (SUCCESS, Some (UPDATE_ROOT_PAGE v (-1)), rest))"

definition deserialize_set_parent :: "byte list \<Rightarrow> parsed" where
  "deserialize_set_parent bs = parse_int32 bs (\<lambda>v rest. Some (SUCCESS, Some (SET_PARENT_PAGE v (-1)), rest))"

definition deserialize_set_next :: "byte list \<Rightarrow> parsed" where
  "deserialize_set_next bs = parse_int32 bs (\<lambda>v rest. Some (SUCCESS, Some (LEAF_SET_NEXT_PAGE v (-1)), rest))"

definition deserialize_new_root :: "byte list \<Rightarrow> parsed" where
  "deserialize_new_root bs =
     parse_int32 bs (\<lambda>first_page_num bs1. parse_int32 bs1 (\<lambda>page bs2. parse_int32 bs2 (\<lambda>key_size bs3.
       parse_bytes key_size bs3 (\<lambda>key. INTERNAL_CREATE_NEW_ROOT first_page_num key page))))"

definition deserialize_update_key :: "byte list \<Rightarrow> parsed" where
  "deserialize_update_key bs =
     parse_int32 bs (\<lambda>index bs1. parse_int32 bs1 (\<lambda>key_size bs2.
       parse_bytes key_size bs2 (\<lambda>key. INTERNAL_UPDATE_KEY index key [])))"

definition deserialize_normal :: "bool \<Rightarrow> byte list \<Rightarrow> parsed" where
  "deserialize_normal is_insert bs =
     parse_int32 bs (\<lambda>index bs1. parse_int32 bs1 (\<lambda>item_num bs2. parse_int32 bs2 (\<lambda>item_bytes bs3.
       parse_bytes item_bytes bs3 (\<lambda>items.
         if is_insert then NODE_INSERT index items item_num else NODE_REMOVE index items item_num))))"

text \<open>The selection by the type of the operation.\<close>

definition deserialize :: "int \<Rightarrow> byte list \<Rightarrow> parsed" where
  "deserialize type bs =
     (if type = 0 then deserialize_init_header bs
      else if type = 1 then deserialize_update_root bs
      else if type = 2 then deserialize_set_parent bs
      else if type = 3 then Some (SUCCESS, Some LEAF_INIT_EMPTY, bs)
      else if type = 4 then deserialize_set_next bs
      else if type = 5 then Some (SUCCESS, Some INTERNAL_INIT_EMPTY, bs)
      else if type = 6 then deserialize_new_root bs
      else if type = 7 then deserialize_update_key bs
      else deserialize_normal (type = 8) bs)"

lemmas deserialize_defs = deserialize_init_header_def deserialize_update_root_def deserialize_set_parent_def
  deserialize_set_next_def deserialize_new_root_def deserialize_update_key_def deserialize_normal_def deserialize_def

text \<open>
  \<open>from_buffer\<close>: \<open>frame_getter\<close> gives the result of fetching the page of the entry.
\<close>

definition from_buffer :: "(PageNum \<Rightarrow> rc) \<Rightarrow> byte list \<Rightarrow> (rc \<times> raw_entry option \<times> byte list) option" where
  "from_buffer frame_getter bs = (case read_int32 bs of
     None \<Rightarrow> Some (INVALID_ARGUMENT, None, bs)
   | Some (type, bs1) \<Rightarrow>
       if type < 0 \<or> type \<ge> 10 then Some (INVALID_ARGUMENT, None, bs1)
       else (case read_int32 bs1 of
         None \<Rightarrow> Some (INVALID_ARGUMENT, None, bs1)
       | Some (page, bs2) \<Rightarrow>
           let r = frame_getter page in
           if OB_FAIL r then Some (r, None, bs2)
           else do {
             (r', found, rest) \<leftarrow> deserialize type bs2;
             Some (r', map_option (\<lambda>oper. (page, oper)) found, rest)
           }))"

text \<open>What is left of an entry after it has been written and read.\<close>

definition forget_old :: "(byte list, byte list) log_operation \<Rightarrow> (byte list, byte list) log_operation" where
  "forget_old oper = (case oper of
     UPDATE_ROOT_PAGE v _ \<Rightarrow> UPDATE_ROOT_PAGE v (-1)
   | SET_PARENT_PAGE v _ \<Rightarrow> SET_PARENT_PAGE v (-1)
   | LEAF_SET_NEXT_PAGE v _ \<Rightarrow> LEAF_SET_NEXT_PAGE v (-1)
   | INTERNAL_UPDATE_KEY i k _ \<Rightarrow> INTERNAL_UPDATE_KEY i k []
   | _ \<Rightarrow> oper)"

text \<open>Entries whose numbers fit the types of their fields.\<close>

definition op_fits :: "(byte list, byte list) log_operation \<Rightarrow> bool" where
  "op_fits oper = (case oper of
     INIT_HEADER_PAGE h \<Rightarrow> int32 (h_root_page h) \<and> int32 (h_internal_max_size h) \<and> int32 (h_leaf_max_size h) \<and>
       int32 (h_attr_length h) \<and> int32 (h_key_length h) \<and> int32 (h_attr_type h)
   | UPDATE_ROOT_PAGE v _ \<Rightarrow> int32 v
   | SET_PARENT_PAGE v _ \<Rightarrow> int32 v
   | LEAF_INIT_EMPTY \<Rightarrow> True
   | LEAF_SET_NEXT_PAGE v _ \<Rightarrow> int32 v
   | INTERNAL_INIT_EMPTY \<Rightarrow> True
   | INTERNAL_CREATE_NEW_ROOT v k w \<Rightarrow> int32 v \<and> int32 w \<and> int32 (int (length k))
   | INTERNAL_UPDATE_KEY i k _ \<Rightarrow> int32 i \<and> int32 (int (length k))
   | NODE_INSERT i items n \<Rightarrow> int32 i \<and> int32 n \<and> int32 (int (length items))
   | NODE_REMOVE i items n \<Rightarrow> int32 i \<and> int32 n \<and> int32 (int (length items)))"

lemma operation_index_range: "0 \<le> operation_index oper" "operation_index oper < 10" "int32 (operation_index oper)"
  by (cases oper; simp add: operation_index_def int32_def)+

lemma read_write_file_header:
  "op_fits (INIT_HEADER_PAGE h) \<Longrightarrow> read_file_header (write_file_header h @ rest) = Some (h, rest)"
proof -
  have "length (write_file_header h) = 24" by (simp add: write_file_header_def)
  then have s: "read_span 24 (write_file_header h @ rest) = Some (write_file_header h, rest)" by simp
  assume f: "op_fits (INIT_HEADER_PAGE h)"
  then show ?thesis
    using read_write_int32[of "h_attr_type h" "[]"] unfolding read_file_header_def s by (simp add: write_file_header_def op_fits_def)
qed

lemma parse_simps [simp]:
  "int32 v \<Longrightarrow> parse_int32 (write_int32 v @ rest) f = f v rest"
  "parse_bytes (int (length d)) (d @ rest) g = Some (SUCCESS, Some (g d), rest)"
  by (simp_all add: parse_int32_def parse_bytes_def read_vector_def)

lemma deserialize_body:
  "op_fits oper \<Longrightarrow> deserialize (operation_index oper) (serialize_body oper @ rest) = Some (SUCCESS, Some (forget_old oper), rest)"
  by (cases oper)
    (simp_all add: operation_index_def serialize_defs deserialize_defs forget_old_def read_write_file_header,
      simp_all add: op_fits_def)

lemma from_buffer_serialize:
  assumes "op_fits oper" "int32 p" "frame_getter p = SUCCESS"
  shows "from_buffer frame_getter (serialize (p, oper) @ rest) = Some (SUCCESS, Some (p, forget_old oper), rest)"
  using assms deserialize_body[OF assms(1)] operation_index_range[of oper]
  by (simp add: from_buffer_def serialize_def serialize_header_def)

section \<open>Redo\<close>

text \<open>The items of an entry for a leaf or for an internal node.\<close>

datatype 'k node_items = Leaf_Items "('k \<times> rid) list" | Child_Items "('k \<times> PageNum) list"

type_synonym 'k tree_entry = "('k, 'k node_items) bt_entry"

text \<open>
  \<open>redo\<close> of the handler classes on the page of the entry.  The comparator of a tree handler does not change.
\<close>

definition recover_init_header_page :: "index_file_header \<Rightarrow> 'k bplus_tree \<Rightarrow> 'k bplus_tree" where
  "recover_init_header_page h t = t\<lparr>root_page := h_root_page h, internal_max_size := nat (h_internal_max_size h),
     leaf_max_size := nat (h_leaf_max_size h), attr_length := h_attr_length h\<rparr>"

definition redo_insert :: "PageNum \<Rightarrow> int \<Rightarrow> 'k node_items \<Rightarrow> 'k bplus_tree \<Rightarrow> 'k bplus_tree option" where
  "redo_insert p index items t =
     (if index < 0 then None
      else case items of
        Leaf_Items es \<Rightarrow> leaf_insert_items p (nat index) es t
      | Child_Items cs \<Rightarrow> internal_insert_at p (nat index) cs t)"

definition redo_remove :: "PageNum \<Rightarrow> int \<Rightarrow> int \<Rightarrow> 'k bplus_tree \<Rightarrow> 'k bplus_tree option" where
  "redo_remove p index item_num t =
     (if index < 0 \<or> item_num < 0 then None
      else do {
        n \<leftarrow> bt_pages t p;
        case n of
          Leaf_Node _ _ _ \<Rightarrow> leaf_remove_items p (nat index) (nat item_num) t
        | Internal_Node _ _ \<Rightarrow> internal_remove_items p (nat index) (nat item_num) t
      })"

definition redo_entry :: "'k tree_entry \<Rightarrow> 'k bplus_tree \<Rightarrow> 'k bplus_tree option" where
  "redo_entry e t = (let p = fst e in case snd e of
     INIT_HEADER_PAGE h \<Rightarrow> Some (recover_init_header_page h t)
   | UPDATE_ROOT_PAGE root_page_num _ \<Rightarrow> Some (update_root_page_num_locked root_page_num t)
   | SET_PARENT_PAGE parent_page_num _ \<Rightarrow> set_parent_page_num p parent_page_num t
   | LEAF_INIT_EMPTY \<Rightarrow> Some (leaf_init_empty p t)
   | LEAF_SET_NEXT_PAGE new_page_num _ \<Rightarrow> set_next_page p new_page_num t
   | INTERNAL_INIT_EMPTY \<Rightarrow> Some (internal_init_empty p t)
   | INTERNAL_CREATE_NEW_ROOT first_page_num key page \<Rightarrow> create_new_root p first_page_num key page t
   | INTERNAL_UPDATE_KEY index key _ \<Rightarrow> if index < 0 then None else set_key_at p (nat index) key t
   | NODE_INSERT index items item_num \<Rightarrow> redo_insert p index items t
   | NODE_REMOVE index items item_num \<Rightarrow> redo_remove p index item_num t)"

text \<open>
  \<open>rollback\<close> of the handler classes.  The entries that move items go through the base class of the node
  handlers, whose item address is a null pointer: only items at the end can be taken back, every other case
  is undefined behaviour.
\<close>

definition rollback_insert :: "PageNum \<Rightarrow> int \<Rightarrow> int \<Rightarrow> 'k bplus_tree \<Rightarrow> 'k bplus_tree option" where
  "rollback_insert p index item_num t = do {
     n \<leftarrow> bt_pages t p;
     if index < int (node_size n) - item_num \<or> item_num < 0 \<or> int (node_size n) < item_num then None
     else (case n of
       Leaf_Node par nx es \<Rightarrow> Some (put_node p (Leaf_Node par nx (take (length es - nat item_num) es)) t)
     | Internal_Node par cs \<Rightarrow> Some (put_node p (Internal_Node par (take (length cs - nat item_num) cs)) t))
   }"

definition rollback_entry :: "'k tree_entry \<Rightarrow> 'k bplus_tree \<Rightarrow> 'k bplus_tree option" where
  "rollback_entry e t = (let p = fst e in case snd e of
     INIT_HEADER_PAGE h \<Rightarrow> Some t
   | UPDATE_ROOT_PAGE _ old_page_num \<Rightarrow> Some (update_root_page_num_locked old_page_num t)
   | SET_PARENT_PAGE _ old_parent_page_num \<Rightarrow> set_parent_page_num p old_parent_page_num t
   | LEAF_INIT_EMPTY \<Rightarrow> Some t
   | LEAF_SET_NEXT_PAGE _ old_page_num \<Rightarrow> set_next_page p old_page_num t
   | INTERNAL_INIT_EMPTY \<Rightarrow> Some t
   | INTERNAL_CREATE_NEW_ROOT _ _ _ \<Rightarrow> Some t
   | INTERNAL_UPDATE_KEY index _ old_key \<Rightarrow> if index < 0 then None else set_key_at p (nat index) old_key t
   | NODE_INSERT index items item_num \<Rightarrow> rollback_insert p index item_num t
   | NODE_REMOVE index items item_num \<Rightarrow> do {
       n \<leftarrow> bt_pages t p;
       if item_num = 0 \<and> int (node_size n) \<le> index then Some t else None
     })"

text \<open>\<open>BplusTreeLogger::rollback\<close>: the entries of the mini transaction in reverse order.\<close>

fun rollback_entries :: "'k tree_entry list \<Rightarrow> 'k bplus_tree \<Rightarrow> 'k bplus_tree option" where
  "rollback_entries [] t = Some t"
| "rollback_entries (e # es) t = do { t1 \<leftarrow> rollback_entries es t; rollback_entry e t1 }"

section \<open>Items as bytes\<close>

text \<open>
  The items of an index on attributes of \<open>attr_length\<close> bytes: a key is the attribute with a record
  identifier, a value a record identifier or a page number.
\<close>

definition write_rid :: "rid \<Rightarrow> byte list" where
  "write_rid r = write_int32 (page_num r) @ write_int32 (slot_num r)"

definition read_rid :: "byte list \<Rightarrow> (rid \<times> byte list) option" where
  "read_rid bs = do {
     (p, bs1) \<leftarrow> read_int32 bs;
     (s, rest) \<leftarrow> read_int32 bs1;
     Some (\<lparr>page_num = p, slot_num = s\<rparr>, rest)
   }"

definition write_key :: "byte list ikey \<Rightarrow> byte list" where
  "write_key k = fst k @ write_rid (snd k)"

definition read_key :: "nat \<Rightarrow> byte list \<Rightarrow> (byte list ikey \<times> byte list) option" where
  "read_key len bs = do {
     (a, bs1) \<leftarrow> read_span len bs;
     (r, rest) \<leftarrow> read_rid bs1;
     Some ((a, r), rest)
   }"

fun read_leaf_items :: "nat \<Rightarrow> nat \<Rightarrow> byte list \<Rightarrow> (byte list ikey \<times> rid) list option" where
  "read_leaf_items len 0 bs = Some []"
| "read_leaf_items len (Suc n) bs = do {
     (k, bs1) \<leftarrow> read_key len bs;
     (v, bs2) \<leftarrow> read_rid bs1;
     es \<leftarrow> read_leaf_items len n bs2;
     Some ((k, v) # es)
   }"

fun read_child_items :: "nat \<Rightarrow> nat \<Rightarrow> byte list \<Rightarrow> (byte list ikey \<times> PageNum) list option" where
  "read_child_items len 0 bs = Some []"
| "read_child_items len (Suc n) bs = do {
     (k, bs1) \<leftarrow> read_key len bs;
     (v, bs2) \<leftarrow> read_int32 bs1;
     cs \<leftarrow> read_child_items len n bs2;
     Some ((k, v) # cs)
   }"

definition write_items :: "byte list ikey node_items \<Rightarrow> byte list" where
  "write_items items = (case items of
     Leaf_Items es \<Rightarrow> concat (map (\<lambda>(k, v). write_key k @ write_rid v) es)
   | Child_Items cs \<Rightarrow> concat (map (\<lambda>(k, v). write_key k @ write_int32 v) cs))"

text \<open>The bytes of the items are read as the kind of the node demands.\<close>

definition read_items :: "byte list ikey bplus_tree \<Rightarrow> PageNum \<Rightarrow> int \<Rightarrow> byte list \<Rightarrow> byte list ikey node_items option" where
  "read_items t p item_num bs = do {
     n \<leftarrow> bt_pages t p;
     case n of
       Leaf_Node _ _ _ \<Rightarrow> map_option Leaf_Items (read_leaf_items (nat (attr_length t)) (nat item_num) bs)
     | Internal_Node _ _ \<Rightarrow> map_option Child_Items (read_child_items (nat (attr_length t)) (nat item_num) bs)
   }"

text \<open>Redo of an entry as it is in the log.  Only insertions look at the bytes of the items.\<close>

definition redo_raw :: "raw_entry \<Rightarrow> byte list ikey bplus_tree \<Rightarrow> byte list ikey bplus_tree option" where
  "redo_raw e t = (let p = fst e; len = nat (attr_length t) in case snd e of
     INIT_HEADER_PAGE h \<Rightarrow> redo_entry (p, INIT_HEADER_PAGE h) t
   | UPDATE_ROOT_PAGE v w \<Rightarrow> redo_entry (p, UPDATE_ROOT_PAGE v w) t
   | SET_PARENT_PAGE v w \<Rightarrow> redo_entry (p, SET_PARENT_PAGE v w) t
   | LEAF_INIT_EMPTY \<Rightarrow> redo_entry (p, LEAF_INIT_EMPTY) t
   | LEAF_SET_NEXT_PAGE v w \<Rightarrow> redo_entry (p, LEAF_SET_NEXT_PAGE v w) t
   | INTERNAL_INIT_EMPTY \<Rightarrow> redo_entry (p, INTERNAL_INIT_EMPTY) t
   | INTERNAL_CREATE_NEW_ROOT first_page_num key page \<Rightarrow> do {
       (k, _) \<leftarrow> read_key len key;
       redo_entry (p, INTERNAL_CREATE_NEW_ROOT first_page_num k page) t
     }
   | INTERNAL_UPDATE_KEY index key _ \<Rightarrow> do {
       (k, _) \<leftarrow> read_key len key;
       redo_entry (p, INTERNAL_UPDATE_KEY index k k) t
     }
   | NODE_INSERT index items item_num \<Rightarrow> do {
       xs \<leftarrow> read_items t p item_num items;
       redo_entry (p, NODE_INSERT index xs item_num) t
     }
   | NODE_REMOVE index items item_num \<Rightarrow> redo_entry (p, NODE_REMOVE index (Leaf_Items []) item_num) t)"

section \<open>The log record of a mini transaction\<close>

text \<open>\<open>BplusTreeLogger::commit\<close> writes the identifier of the file and all entries into one log record.\<close>

definition commit_payload :: "int \<Rightarrow> raw_entry list \<Rightarrow> byte list" where
  "commit_payload pool_id es = write_int32 pool_id @ concat (map serialize es)"

text \<open>
  The loop of \<open>__redo\<close>: an entry is skipped when its page already has the LSN of the record.  \<open>L\<close> gives the
  LSN of each page; the pages that were changed are collected and stamped after the loop.
\<close>

partial_function (option) redo_loop ::
    "(PageNum \<Rightarrow> rc) \<Rightarrow> LSN \<Rightarrow> (PageNum \<Rightarrow> LSN) \<Rightarrow> byte list \<Rightarrow> byte list ikey bplus_tree \<Rightarrow> PageNum list \<Rightarrow>
     (rc \<times> byte list ikey bplus_tree \<times> PageNum list) option" where
  "redo_loop frame_getter lsn L bs t frames =
     (if bs = [] then Some (SUCCESS, t, frames)
      else do {
        (r, found, rest) \<leftarrow> from_buffer frame_getter bs;
        if OB_FAIL r then Some (r, t, frames)
        else do {
          e \<leftarrow> found;
          if L (fst e) \<ge> lsn then redo_loop frame_getter lsn L rest t frames
          else do {
            t' \<leftarrow> redo_raw e t;
            redo_loop frame_getter lsn L rest t' (frames @ [fst e])
          }
        }
      })"

text \<open>
  \<open>BplusTreeLogger::redo\<close> for one log record; the result of the loop decides about the stamps but is not
  returned.
\<close>

definition redo_record ::
    "(int \<Rightarrow> rc) \<Rightarrow> (PageNum \<Rightarrow> rc) \<Rightarrow> LSN \<times> byte list \<Rightarrow> byte list ikey bplus_tree \<times> (PageNum \<Rightarrow> LSN) \<Rightarrow>
     (rc \<times> byte list ikey bplus_tree \<times> (PageNum \<Rightarrow> LSN)) option" where
  "redo_record get_buffer_pool frame_getter = (\<lambda>(lsn, payload) (t, L). (case read_int32 payload of
     None \<Rightarrow> Some (IOERR_READ, t, L)
   | Some (pool_id, bs) \<Rightarrow>
       if OB_FAIL (get_buffer_pool pool_id) then Some (get_buffer_pool pool_id, t, L)
       else do {
         (r, t', frames) \<leftarrow> redo_loop frame_getter lsn L bs t [];
         Some (SUCCESS, t', if OB_SUCC r then (\<lambda>p. if p \<in> set frames then lsn else L p) else L)
       }))"

section \<open>Reading back what was written\<close>

definition rid_fits :: "rid \<Rightarrow> bool" where
  "rid_fits r \<longleftrightarrow> int32 (page_num r) \<and> int32 (slot_num r)"

definition key_fits :: "nat \<Rightarrow> byte list ikey \<Rightarrow> bool" where
  "key_fits len k \<longleftrightarrow> length (fst k) = len \<and> rid_fits (snd k)"

lemma read_write_rid [simp]: "rid_fits r \<Longrightarrow> read_rid (write_rid r @ rest) = Some (r, rest)"
  by (simp add: read_rid_def write_rid_def rid_fits_def)

lemma read_write_key [simp]: "key_fits len k \<Longrightarrow> read_key len (write_key k @ rest) = Some (k, rest)"
  by (cases k) (simp add: read_key_def write_key_def key_fits_def)

lemma read_leaf_items_write:
  "\<forall>e\<in>set es. key_fits len (fst e) \<and> rid_fits (snd e) \<Longrightarrow>
   read_leaf_items len (length es) (concat (map (\<lambda>(k, v). write_key k @ write_rid v) es) @ rest) = Some es"
  by (induction es) auto

lemma read_child_items_write:
  "\<forall>c\<in>set cs. key_fits len (fst c) \<and> int32 (snd c) \<Longrightarrow>
   read_child_items len (length cs) (concat (map (\<lambda>(k, v). write_key k @ write_int32 v) cs) @ rest) = Some cs"
  by (induction cs) auto

definition items_fit :: "nat \<Rightarrow> byte list ikey node_items \<Rightarrow> int \<Rightarrow> bool" where
  "items_fit len items n = (case items of
     Leaf_Items es \<Rightarrow> n = int (length es) \<and> (\<forall>e\<in>set es. key_fits len (fst e) \<and> rid_fits (snd e))
   | Child_Items cs \<Rightarrow> n = int (length cs) \<and> (\<forall>c\<in>set cs. key_fits len (fst c) \<and> int32 (snd c)))"

text \<open>The bytes of an entry.\<close>

definition encode_entry :: "byte list ikey tree_entry \<Rightarrow> raw_entry" where
  "encode_entry e = (fst e, map_log_operation write_key write_items (snd e))"

definition entry_fits :: "nat \<Rightarrow> byte list ikey tree_entry \<Rightarrow> bool" where
  "entry_fits len e \<longleftrightarrow> int32 (fst e) \<and> op_fits (snd (encode_entry e)) \<and> (case snd e of
     INTERNAL_CREATE_NEW_ROOT _ k _ \<Rightarrow> key_fits len k
   | INTERNAL_UPDATE_KEY _ k _ \<Rightarrow> key_fits len k
   | NODE_INSERT _ items n \<Rightarrow> items_fit len items n
   | _ \<Rightarrow> True)"

text \<open>Redo of the bytes of an entry is redo of the entry, whenever the entry can be redone at all.\<close>

lemma read_items_write:
  assumes "items_fit (nat (attr_length t)) items n" "redo_insert p index items t \<noteq> None"
  shows "read_items t p n (write_items items) = Some items"
proof (cases items)
  case (Leaf_Items es)
  then obtain par nx xs where "bt_pages t p = Some (Leaf_Node par nx xs)"
    using assms(2) by (auto simp: redo_insert_def leaf_insert_items_def leaf_at_def bind_eq_Some_iff split: if_splits option.splits index_node.splits)
  then show ?thesis using assms(1) read_leaf_items_write[of es "nat (attr_length t)" "[]"] Leaf_Items
    by (simp add: read_items_def items_fit_def write_items_def)
next
  case (Child_Items cs)
  then obtain par xs where "bt_pages t p = Some (Internal_Node par xs)"
    using assms(2) by (auto simp: redo_insert_def internal_insert_at_def internal_at_def bind_eq_Some_iff split: if_splits option.splits index_node.splits)
  then show ?thesis using assms(1) read_child_items_write[of cs "nat (attr_length t)" "[]"] Child_Items
    by (simp add: read_items_def items_fit_def write_items_def)
qed

lemma redo_raw_encoded:
  assumes "entry_fits (nat (attr_length t)) e" "redo_entry e t = Some t'"
  shows "redo_raw (fst e, forget_old (snd (encode_entry e))) t = Some t'"
proof -
  obtain p oper where e: "e = (p, oper)" by (cases e)
  show ?thesis
  proof (cases oper)
    case (NODE_INSERT index items n)
    then have "redo_insert p index items t \<noteq> None" "items_fit (nat (attr_length t)) items n"
      using assms e by (auto simp: redo_entry_def entry_fits_def)
    from read_items_write[OF this(2,1)] show ?thesis
      using assms(2) e NODE_INSERT by (simp add: redo_raw_def encode_entry_def forget_old_def)
  next
    case (INTERNAL_CREATE_NEW_ROOT f k q)
    then show ?thesis using assms e read_write_key[of "nat (attr_length t)" k "[]"]
      by (simp add: redo_raw_def encode_entry_def forget_old_def entry_fits_def)
  next
    case (INTERNAL_UPDATE_KEY i k k')
    then show ?thesis using assms e read_write_key[of "nat (attr_length t)" k "[]"]
      by (simp add: redo_raw_def encode_entry_def forget_old_def entry_fits_def redo_entry_def)
  qed (use assms(2) e in \<open>auto simp: redo_raw_def encode_entry_def forget_old_def redo_entry_def\<close>)
qed

end
