(* ===== verification/Bplus_Tree_Recovery.thy ===== *)
theory Bplus_Tree_Recovery
  imports Bplus_Tree_Log Bplus_Tree_Index Redo_Log
begin

text \<open>
  What the operations of the B+ tree write to the log, and recovery of the index from it: whatever pages
  were flushed before a crash, replaying the log records of the completed operations gives the pages of the
  tree back.
\<close>

section \<open>The entries of an operation\<close>

text \<open>
  Every change of a node goes through one of the handlers that log it; each rule is one of these handlers
  with its log entry, the state before and the state after.
\<close>

inductive logs :: "'k bplus_tree \<Rightarrow> 'k tree_entry \<Rightarrow> 'k bplus_tree \<Rightarrow> bool" where
  root: "logs t (FIRST_INDEX_PAGE, UPDATE_ROOT_PAGE p (root_page t)) (update_root_page_num_locked p t)"
| parent: "bt_pages t p = Some n \<Longrightarrow> set_parent_page_num p par t = Some t' \<Longrightarrow>
    logs t (p, SET_PARENT_PAGE par (nd_parent n)) t'"
| leaf_init: "logs t (p, LEAF_INIT_EMPTY) (leaf_init_empty p t)"
| next_page: "leaf_at t p = Some (par, nx, es) \<Longrightarrow> set_next_page p q t = Some t' \<Longrightarrow> logs t (p, LEAF_SET_NEXT_PAGE q nx) t'"
| internal_init: "logs t (p, INTERNAL_INIT_EMPTY) (internal_init_empty p t)"
| new_root: "create_new_root p f k q t = Some t' \<Longrightarrow> logs t (p, INTERNAL_CREATE_NEW_ROOT f k q) t'"
| update_key: "internal_at t p = Some (par, cs) \<Longrightarrow> set_key_at p i k t = Some t' \<Longrightarrow>
    logs t (p, INTERNAL_UPDATE_KEY (int i) k (fst (cs ! i))) t'"
| leaf_insert: "leaf_insert_items p i es t = Some t' \<Longrightarrow> logs t (p, NODE_INSERT (int i) (Leaf_Items es) (int (length es))) t'"
| child_insert: "internal_insert_at p i cs t = Some t' \<Longrightarrow> logs t (p, NODE_INSERT (int i) (Child_Items cs) (int (length cs))) t'"
| leaf_remove: "leaf_at t p = Some (par, nx, es) \<Longrightarrow> leaf_remove_items p i n t = Some t' \<Longrightarrow>
    logs t (p, NODE_REMOVE (int i) (Leaf_Items (take n (drop i es))) (int n)) t'"
| child_remove: "internal_at t p = Some (par, cs) \<Longrightarrow> internal_remove_items p i n t = Some t' \<Longrightarrow>
    logs t (p, NODE_REMOVE (int i) (Child_Items (take n (drop i cs))) (int n)) t'"

text \<open>Allocating and freeing pages is logged by the buffer pool, not by the tree.\<close>

definition same_nodes :: "'k bplus_tree \<Rightarrow> 'k bplus_tree \<Rightarrow> bool" where
  "same_nodes t t' \<longleftrightarrow> t'\<lparr>bt_hdr := bt_hdr t, disposed_pages := disposed_pages t\<rparr> = t"

inductive tree_log :: "'k bplus_tree \<Rightarrow> 'k tree_entry list \<Rightarrow> 'k bplus_tree \<Rightarrow> bool" where
  none: "tree_log t [] t"
| silent: "same_nodes t t1 \<Longrightarrow> tree_log t1 es t2 \<Longrightarrow> tree_log t es t2"
| entry: "logs t e t1 \<Longrightarrow> tree_log t1 es t2 \<Longrightarrow> tree_log t (e # es) t2"

lemma tree_log_append: "tree_log t es t1 \<Longrightarrow> tree_log t1 es' t2 \<Longrightarrow> tree_log t (es @ es') t2"
  by (induction rule: tree_log.induct) (auto intro: tree_log.intros)

definition logged :: "'k bplus_tree \<Rightarrow> 'k bplus_tree \<Rightarrow> bool" where
  "logged t t' \<longleftrightarrow> (\<exists>es. tree_log t es t')"

lemma logged_refl [simp, intro]: "logged t t"
  by (auto simp: logged_def intro: tree_log.none)

lemma logged_trans [trans]: "logged t t1 \<Longrightarrow> logged t1 t2 \<Longrightarrow> logged t t2"
  unfolding logged_def using tree_log_append by blast

lemma logged_entry: "logs t e t' \<Longrightarrow> logged t t'"
  unfolding logged_def by (meson tree_log.none tree_log.entry)

lemma logged_silent: "same_nodes t t' \<Longrightarrow> logged t t'"
  unfolding logged_def by (meson tree_log.none tree_log.silent)

text \<open>
  \<open>gives t m st\<close>: when the step \<open>m\<close> from the state \<open>t\<close> has a result, the change to the state \<open>st\<close> of the result is
  logged.
\<close>

definition gives :: "'k bplus_tree \<Rightarrow> 'a option \<Rightarrow> ('a \<Rightarrow> 'k bplus_tree) \<Rightarrow> bool" where
  "gives t m st \<longleftrightarrow> (\<forall>x. m = Some x \<longrightarrow> logged t (st x))"

lemma gives_bind: "gives t m st1 \<Longrightarrow> (\<And>x. gives (st1 x) (f x) st) \<Longrightarrow> gives t (Option.bind m f) st"
  by (auto simp: gives_def bind_eq_Some_iff intro: logged_trans)

lemma gives_read: "(\<And>x. m = Some x \<Longrightarrow> gives t (f x) st) \<Longrightarrow> gives t (Option.bind m f) st"
  by (auto simp: gives_def bind_eq_Some_iff)

lemma gives_simps [simp]:
  "gives t None st" "gives t (Some x) st \<longleftrightarrow> logged t (st x)"
  by (auto simp: gives_def)

lemma gives_after: "logged t t1 \<Longrightarrow> gives t1 m st \<Longrightarrow> gives t m st"
  by (auto simp: gives_def intro: logged_trans)

lemma gives_entry: "(\<And>x. m = Some x \<Longrightarrow> logs t (e x) (st x)) \<Longrightarrow> gives t m st"
  by (auto simp: gives_def intro: logged_entry)

lemma gives_primitives:
  "gives t (set_parent_page_num p par t) (\<lambda>x. x)" "gives t (set_next_page p q t) (\<lambda>x. x)"
  "gives t (create_new_root p f k q t) (\<lambda>x. x)" "gives t (set_key_at p i k t) (\<lambda>x. x)"
  "gives t (leaf_insert_items p i es t) (\<lambda>x. x)" "gives t (internal_insert_at p i cs t) (\<lambda>x. x)"
  "gives t (leaf_remove_items p i n t) (\<lambda>x. x)" "gives t (internal_remove_items p i n t) (\<lambda>x. x)"
  "gives t (allocate_node t) (\<lambda>x. snd (snd x))"
proof -
  show "gives t (create_new_root p f k q t) (\<lambda>x. x)" "gives t (leaf_insert_items p i es t) (\<lambda>x. x)"
    "gives t (internal_insert_at p i cs t) (\<lambda>x. x)"
    by (rule gives_entry, erule logs.intros)+
  have n: "\<exists>n. bt_pages t p = Some n" if "set_parent_page_num p par t = Some t'" for t'
    using that by (auto simp: set_parent_page_num_def bind_eq_Some_iff)
  have l: "\<exists>par nx es. leaf_at t p = Some (par, nx, es)" if "set_next_page p q t = Some t' \<or> leaf_remove_items p i n t = Some t'" for t'
    using that by (auto simp: set_next_page_def leaf_remove_items_def bind_eq_Some_iff)
  have c: "\<exists>par cs. internal_at t p = Some (par, cs)" if "set_key_at p i k t = Some t' \<or> internal_remove_items p i n t = Some t'" for t'
    using that by (auto simp: set_key_at_def internal_remove_items_def bind_eq_Some_iff)
  show "gives t (set_parent_page_num p par t) (\<lambda>x. x)"
    unfolding gives_def using n logs.parent[THEN logged_entry] by blast
  show "gives t (set_next_page p q t) (\<lambda>x. x)" "gives t (leaf_remove_items p i n t) (\<lambda>x. x)"
    unfolding gives_def using l logs.next_page[THEN logged_entry] logs.leaf_remove[THEN logged_entry] by blast+
  show "gives t (set_key_at p i k t) (\<lambda>x. x)" "gives t (internal_remove_items p i n t) (\<lambda>x. x)"
    unfolding gives_def using c logs.update_key[THEN logged_entry] logs.child_remove[THEN logged_entry] by metis+
  show "gives t (allocate_node t) (\<lambda>x. snd (snd x))"
    by (auto simp: gives_def allocate_node_def same_nodes_def bind_eq_Some_iff intro!: logged_silent)
qed

lemma logged_primitives:
  "logged t (update_root_page_num_locked p t)" "logged t (leaf_init_empty p t)" "logged t (internal_init_empty p t)"
  "logged t (dispose_page_later p t)"
proof -
  show "logged t (update_root_page_num_locked p t)" "logged t (leaf_init_empty p t)" "logged t (internal_init_empty p t)"
    by (rule logged_entry, rule logs.intros)+
  show "logged t (dispose_page_later p t)"
    by (rule logged_silent) (simp add: dispose_page_later_def same_nodes_def)
qed

text \<open>The composed operations log what their parts log: one rule per operation, and one for each of its uses.\<close>

named_theorems gives_op
named_theorems gives_step

lemmas read_steps [gives_step] =
  gives_read[where m="leaf_at t p" for t p] gives_read[where m="internal_at t p" for t p] gives_read[where m="bt_pages t p" for t p]
  gives_read[where m="value_at cs i" for cs i] gives_read[where m="node_key_at n i" for n i] gives_read[where m="find_leaf t k" for t k]
  gives_read[where m="case_list None g xs" for g xs]

lemmas primitive_steps [gives_step] = gives_primitives[THEN gives_bind]
declare gives_primitives [gives_op]

lemma leaf_ops_logged [gives_op]:
  "gives t (leaf_insert p i k r t) (\<lambda>x. x)" "gives t (leaf_append p xs t) (\<lambda>x. x)" "gives t (leaf_remove p k t) snd"
  by (auto simp: leaf_insert_def leaf_append_def leaf_remove_def intro!: gives_step gives_op split: prod.splits)

declare leaf_ops_logged [THEN gives_bind, gives_step]

lemma leaf_moves_logged [gives_op]:
  "gives t (leaf_move_half_to p q t) (\<lambda>x. x)" "gives t (leaf_move_first_to_end p q t) (\<lambda>x. x)"
  "gives t (leaf_move_last_to_front p q t) (\<lambda>x. x)" "gives t (leaf_move_to p q t) (\<lambda>x. x)"
  by (auto simp: leaf_move_half_to_def leaf_move_first_to_end_def leaf_move_last_to_front_def leaf_move_to_def Let_def
      intro!: gives_step gives_op split: prod.splits)

declare leaf_moves_logged [THEN gives_bind, gives_step]

lemma set_parents_logged [simp]: "logged t (snd (set_parents par cs t))"
proof (induction par cs t rule: set_parents.induct)
  case (2 par c cs t)
  show ?case
  proof (cases "bt_pages t c")
    case (Some n)
    then have "logged t (put_node c (with_parent par n) t)"
      using gives_primitives(1)[of t c par] by (simp add: set_parent_page_num_def)
    then show ?thesis using 2[OF Some] Some logged_trans by simp
  qed simp
qed simp

lemma internal_ops_logged [gives_op]:
  "gives t (internal_insert p k q t) (\<lambda>x. x)" "gives t (internal_insert_items p i cs t) snd"
  by (auto simp: internal_insert_def internal_insert_items_def Let_def intro!: gives_step gives_op split: prod.splits)

declare internal_ops_logged [THEN gives_bind, gives_step]

lemma internal_append_logged [gives_op]: "gives t (internal_append p cs t) snd"
  by (auto simp: internal_append_def intro!: gives_step gives_op split: prod.splits)

declare internal_append_logged [THEN gives_bind, gives_step]

lemma internal_moves_logged [gives_op]:
  "gives t (internal_move_half_to p q t) snd" "gives t (internal_move_first_to_end p q t) snd"
  "gives t (internal_move_last_to_front p q t) snd" "gives t (internal_move_to p q t) snd"
  by (auto simp: internal_move_half_to_def internal_move_first_to_end_def internal_move_last_to_front_def internal_move_to_def
      Let_def intro!: gives_step gives_op split: prod.splits)

declare internal_moves_logged [THEN gives_bind, gives_step]

text \<open>Steps on a freshly initialised node.\<close>

lemmas init_steps [gives_step] =
  gives_bind[OF gives_after[OF logged_primitives(2) gives_primitives(1)]]
  gives_bind[OF gives_after[OF logged_primitives(3) gives_primitives(1)]]
  gives_bind[OF gives_after[OF logged_primitives(3) gives_primitives(3)]]
  gives_bind[OF gives_after[OF logged_primitives(2) leaf_ops_logged(1)]]

lemma logged_ends [simp]:
  "logged t (update_root_page_num_locked p t)" "logged t (dispose_page_later p (update_root_page_num_locked q t))"
  "logged t (dispose_page_later p t)"
  using logged_primitives logged_trans by blast+

lemma split_logged [gives_op]:
  "gives t (split_leaf p t) (\<lambda>x. snd (snd x))" "gives t (split_internal p t) (\<lambda>x. snd (snd x))"
  by (auto simp: split_leaf_def split_internal_def intro!: gives_step gives_op split: prod.splits option.splits)

declare split_logged [THEN gives_bind, gives_step]

lemma grow_root_logged [gives_op]: "gives t (grow_root p q k t) snd"
  by (auto simp: grow_root_def intro!: gives_step gives_op split: prod.splits option.splits)

lemma moves_logged [gives_op]:
  "gives t (move_first_to_end p q t) (\<lambda>x. x)" "gives t (move_last_to_front p q t) (\<lambda>x. x)" "gives t (move_to p q t) snd"
  "gives t (link_merged p q t) (\<lambda>x. x)" "gives t (adjust_root p t) snd"
  by (auto simp: move_first_to_end_def move_last_to_front_def move_to_def link_merged_def adjust_root_def
      intro!: gives_step gives_op split: prod.splits option.splits index_node.splits)

declare moves_logged [THEN gives_bind, gives_step]

lemma redistribute_logged [gives_op]: "gives t (redistribute a p b i t) snd"
  by (auto simp: redistribute_def intro!: gives_step gives_op)

lemma coalesce_nodes_logged [gives_op]: "gives t (coalesce_nodes a p b i t) snd"
  by (auto simp: coalesce_nodes_def Let_def intro!: gives_step gives_op split: prod.splits)

declare coalesce_nodes_logged [THEN gives_bind, gives_step]

lemma gives_D: "gives t m st \<Longrightarrow> m = Some y \<Longrightarrow> logged t (st y)"
  by (simp add: gives_def)

lemma insert_entry_into_parent_logged:
  assumes "insert_entry_into_parent p q key t = Some y"
  shows "logged t (snd y)"
  using assms
proof (rule insert_entry_into_parent.raw_induct[where P="\<lambda>p q key t y. logged t (snd y)", rotated], goal_cases)
  case (1 F p q key t y)
  have IH: "gives t (F p q key t) snd" for p q key t using 1(1) by (auto simp: gives_def)
  show ?case
    by (rule gives_D[OF _ 1(2)])
      (auto simp: Let_def intro!: gives_step gives_op IH split: prod.splits option.splits)
qed

lemma insert_parent_gives [gives_op]: "gives t (insert_entry_into_parent p q key t) snd"
  by (auto simp: gives_def dest: insert_entry_into_parent_logged)

lemma insert_entry_logged [gives_op]: "gives t (insert_entry key r t) snd"
proof -
  have a: "gives t (insert_entry_into_leaf_node p key r t) snd" for p
    unfolding insert_entry_into_leaf_node_def Let_def
    by (auto intro!: gives_step gives_op split: prod.splits option.splits)
  have "gives t (create_new_tree key r t) snd"
    by (auto simp: create_new_tree_def intro!: gives_step gives_op split: prod.splits option.splits)
  then show ?thesis using a by (auto simp: insert_entry_def intro!: gives_step split: prod.splits option.splits)
qed

lemma coalesce_or_redistribute_logged:
  assumes "coalesce_or_redistribute p t = Some y"
  shows "logged t (snd y)"
  using assms
proof (rule coalesce_or_redistribute.raw_induct[where P="\<lambda>p t y. logged t (snd y)", rotated], goal_cases)
  case (1 F p t y)
  have IH: "gives t (F p t) snd" for p t using 1(1) by (auto simp: gives_def)
  show ?case
    by (rule gives_D[OF _ 1(2)])
      (auto simp: Let_def intro!: gives_step gives_op IH split: prod.splits option.splits)
qed

lemma dispose_all_silent: "dispose_all ps t = Some t' \<Longrightarrow> same_nodes t t'"
proof (induction ps t arbitrary: t' rule: dispose_all.induct)
  case (2 p ps t)
  obtain r h where h: "header_dispose p (bt_hdr t) = Some (r, h)" "dispose_all ps (t\<lparr>bt_hdr := h\<rparr>) = Some t'"
    using "2.prems" by (auto simp: bind_eq_Some_iff)
  then have "t'\<lparr>bt_hdr := h, disposed_pages := disposed_pages t\<rparr> = t\<lparr>bt_hdr := h\<rparr>" using "2.IH" by (auto simp: same_nodes_def)
  from arg_cong[OF this, of "\<lambda>x. x\<lparr>bt_hdr := bt_hdr t, disposed_pages := disposed_pages t\<rparr>"] show ?case by (simp add: same_nodes_def)
qed (simp add: same_nodes_def)

lemma release_logged [gives_op]: "gives t (release t) (\<lambda>x. x)"
  by (auto simp: gives_def release_def bind_eq_Some_iff same_nodes_def dest!: dispose_all_silent intro!: logged_silent)

declare release_logged [THEN gives_bind, gives_step]

lemma delete_entry_logged [gives_op]: "gives t (delete_entry key t) snd"
proof -
  have c: "gives t (coalesce_or_redistribute p t) snd" for p and t :: "'a bplus_tree"
    by (auto simp: gives_def dest: coalesce_or_redistribute_logged)
  have d: "gives t (delete_entry_internal p key t) snd" for p
    by (auto simp: delete_entry_internal_def intro!: gives_step gives_op c split: prod.splits)
  show ?thesis by (auto simp: delete_entry_def intro!: gives_step d[THEN gives_bind] split: prod.splits option.splits)
qed

section \<open>Pages\<close>

text \<open>What a page holds: a node, and for the header page the root.\<close>

definition page_view :: "'k bplus_tree \<Rightarrow> PageNum \<Rightarrow> 'k index_node option \<times> PageNum option" where
  "page_view t p = (bt_pages t p, if p = FIRST_INDEX_PAGE then Some (root_page t) else None)"

text \<open>The parts of the header that never change.\<close>

definition same_config :: "'k bplus_tree \<Rightarrow> 'k bplus_tree \<Rightarrow> bool" where
  "same_config t u \<longleftrightarrow> key_zero t = key_zero u \<and> attr_length t = attr_length u"

lemma same_config_simps [simp]: "same_config t t" "same_config t (put_node p n t)"
  by (simp_all add: same_config_def put_node_def)

lemma same_config_trans: "same_config t u \<Longrightarrow> same_config u v \<Longrightarrow> same_config t v" "same_config t u \<Longrightarrow> same_config u t"
  by (simp_all add: same_config_def)

lemma page_view_put [simp]: "page_view (put_node p n t) q = (if q = p then (Some n, snd (page_view t p)) else page_view t q)"
  by (simp add: page_view_def put_node_def)

lemma page_view_at:
  assumes "page_view u p = page_view t p"
  shows "bt_pages u p = bt_pages t p" "leaf_at u p = leaf_at t p" "internal_at u p = internal_at t p"
  using assms by (simp_all add: page_view_def leaf_at_def internal_at_def)

text \<open>
  An entry changes only its own page, and redoing it on any state that agrees on this page has the same
  effect there.
\<close>

definition redo_local :: "'k tree_entry \<Rightarrow> 'k bplus_tree \<Rightarrow> 'k bplus_tree \<Rightarrow> bool" where
  "redo_local e t t' \<longleftrightarrow> same_config t t' \<and> (\<forall>p. p \<noteq> fst e \<longrightarrow> page_view t' p = page_view t p) \<and>
     (\<forall>u. same_config t u \<longrightarrow> page_view u (fst e) = page_view t (fst e) \<longrightarrow>
        (\<exists>u'. redo_entry e u = Some u' \<and> same_config u u' \<and> page_view u' (fst e) = page_view t' (fst e) \<and>
           (\<forall>p. p \<noteq> fst e \<longrightarrow> page_view u' p = page_view u p)))"

lemma redo_local_put:
  assumes "t' = put_node p n t"
    and "\<And>u. same_config t u \<Longrightarrow> page_view u p = page_view t p \<Longrightarrow> redo_entry (p, oper) u = Some (put_node p n u)"
  shows "redo_local (p, oper) t t'"
  using assms by (auto simp: redo_local_def)

lemma logs_redo_local: "logs t e t' \<Longrightarrow> redo_local e t t'"
proof (induction rule: logs.induct)
  case (root t p)
  then show ?case
    by (auto simp: redo_local_def redo_entry_def update_root_page_num_locked_def page_view_def same_config_def)
next
  case (parent t p n par t')
  then show ?case by (intro redo_local_put[of _ _ "with_parent par n"])
      (auto simp: set_parent_page_num_def redo_entry_def dest: page_view_at)
next
  case (leaf_init t p)
  then show ?case by (rule redo_local_put) (simp_all add: leaf_init_empty_def redo_entry_def)
next
  case (next_page t p par nx es q t')
  then show ?case by (intro redo_local_put[of _ _ "Leaf_Node par q es"])
      (auto simp: set_next_page_def redo_entry_def dest: page_view_at)
next
  case (internal_init t p)
  then show ?case by (rule redo_local_put) (simp_all add: internal_init_empty_def redo_entry_def)
next
  case (new_root p f k q t t')
  then obtain par where "internal_at t p = Some (par, [])" "2 \<le> internal_cap t"
    "t' = put_node p (Internal_Node par [(key_zero t, f), (k, q)]) t"
    by (auto simp: create_new_root_def bind_eq_Some_iff split: if_splits)
  then show ?case by (intro redo_local_put)
      (auto simp: create_new_root_def redo_entry_def same_config_def internal_cap_def dest: page_view_at)
next
  case (update_key t p par cs i k t')
  then show ?case by (intro redo_local_put[of _ _ "Internal_Node par (cs[i := (k, snd (cs ! i))])"])
      (auto simp: set_key_at_def redo_entry_def dest: page_view_at split: if_splits)
next
  case (leaf_insert p i es t t')
  then obtain par nx xs ys where "leaf_at t p = Some (par, nx, xs)" "recover_insert_items (leaf_cap t) i es xs = Some ys"
    "t' = put_node p (Leaf_Node par nx ys) t" by (auto simp: leaf_insert_items_def bind_eq_Some_iff)
  then show ?case by (intro redo_local_put)
      (auto simp: leaf_insert_items_def redo_entry_def redo_insert_def same_config_def leaf_cap_def dest: page_view_at)
next
  case (child_insert p i cs t t')
  then obtain par xs ys where "internal_at t p = Some (par, xs)" "recover_insert_items (internal_cap t) i cs xs = Some ys"
    "t' = put_node p (Internal_Node par ys) t" by (auto simp: internal_insert_at_def bind_eq_Some_iff)
  then show ?case by (intro redo_local_put)
      (auto simp: internal_insert_at_def redo_entry_def redo_insert_def same_config_def internal_cap_def dest: page_view_at)
next
  case (leaf_remove t p par nx es i n t')
  then obtain ys where "bt_pages t p = Some (Leaf_Node par nx es)" "recover_remove_items i n es = Some ys"
    "t' = put_node p (Leaf_Node par nx ys) t"
    by (auto simp: leaf_remove_items_def bind_eq_Some_iff leaf_at_def split: option.splits index_node.splits)
  then show ?case by (intro redo_local_put)
      (auto simp: leaf_remove_items_def redo_entry_def redo_remove_def dest: page_view_at)
next
  case (child_remove t p par cs i n t')
  then obtain ys where "bt_pages t p = Some (Internal_Node par cs)" "recover_remove_items i n cs = Some ys"
    "t' = put_node p (Internal_Node par ys) t"
    by (auto simp: internal_remove_items_def bind_eq_Some_iff internal_at_def split: option.splits index_node.splits)
  then show ?case by (intro redo_local_put)
      (auto simp: internal_remove_items_def redo_entry_def redo_remove_def dest: page_view_at)
qed

section \<open>Redo of one operation\<close>

text \<open>The entries of one record on a state whose pages have the LSNs \<open>L\<close>.\<close>

fun redo_entries :: "LSN \<Rightarrow> (PageNum \<Rightarrow> LSN) \<Rightarrow> 'k tree_entry list \<Rightarrow> 'k bplus_tree \<Rightarrow> 'k bplus_tree option" where
  "redo_entries lsn L [] t = Some t"
| "redo_entries lsn L (e # es) t =
     (if L (fst e) \<ge> lsn then redo_entries lsn L es t else do { t' \<leftarrow> redo_entry e t; redo_entries lsn L es t' })"

definition touched :: "'k tree_entry list \<Rightarrow> PageNum set" where
  "touched es = fst ` set es"

lemma same_nodes_view: "same_nodes t t' \<Longrightarrow> page_view t' = page_view t \<and> same_config t t'"
proof -
  assume "same_nodes t t'"
  then have e: "t'\<lparr>bt_hdr := bt_hdr t, disposed_pages := disposed_pages t\<rparr> = t" by (simp add: same_nodes_def)
  show ?thesis
    using arg_cong[OF e, of bt_pages] arg_cong[OF e, of root_page] arg_cong[OF e, of key_zero] arg_cong[OF e, of attr_length]
    by (simp add: page_view_def same_config_def fun_eq_iff)
qed

lemma page_view_eq_pages: "bt_pages u = bt_pages t \<and> root_page u = root_page t" if "\<And>p. page_view u p = page_view t p"
  using that that[of FIRST_INDEX_PAGE] by (auto simp: page_view_def fun_eq_iff)

text \<open>
  Pages that are behind the record and agree with the state before the operation afterwards agree with the
  state after it; all other pages are left alone.
\<close>

lemma redo_entries_pages:
  assumes "tree_log t es t'" "same_config t u" "\<forall>p\<in>touched es. L p < lsn \<longrightarrow> page_view u p = page_view t p"
  shows "same_config t t' \<and> (\<forall>p. p \<notin> touched es \<longrightarrow> page_view t' p = page_view t p) \<and>
    (\<exists>u'. redo_entries lsn L es u = Some u' \<and> same_config u u' \<and>
      (\<forall>p. page_view u' p = (if p \<in> touched es \<and> L p < lsn then page_view t' p else page_view u p)))"
  using assms
proof (induction arbitrary: u rule: tree_log.induct)
  case (none t)
  then show ?case by (simp add: touched_def)
next
  case (silent t t1 es t2)
  note v = same_nodes_view[OF silent.hyps(1)]
  have c: "same_config t1 u" using v silent.prems(1) by (simp add: same_config_def)
  have "\<forall>p\<in>touched es. L p < lsn \<longrightarrow> page_view u p = page_view t1 p" using v silent.prems(2) by simp
  from silent.IH[OF c this] show ?case using v by (auto simp: same_config_def)
next
  case (entry t e t1 es t2)
  have loc: "same_config t t1" "\<And>p. p \<noteq> fst e \<Longrightarrow> page_view t1 p = page_view t p"
    using logs_redo_local[OF entry.hyps(1)] by (auto simp: redo_local_def)
  have tch: "touched (e # es) = insert (fst e) (touched es)" by (simp add: touched_def)
  obtain u1 where u1: "(if L (fst e) \<ge> lsn then Some u else redo_entry e u) = Some u1" "same_config u u1"
    "\<And>p. p \<noteq> fst e \<Longrightarrow> page_view u1 p = page_view u p" "L (fst e) < lsn \<Longrightarrow> page_view u1 (fst e) = page_view t1 (fst e)"
    "L (fst e) \<ge> lsn \<Longrightarrow> u1 = u"
  proof (cases "L (fst e) \<ge> lsn")
    case True
    then show thesis using that[of u] by simp
  next
    case False
    then have "page_view u (fst e) = page_view t (fst e)" using entry.prems(2) tch by simp
    then show thesis using that logs_redo_local[OF entry.hyps(1)] entry.prems(1) False by (auto simp: redo_local_def)
  qed
  have c: "same_config t1 u1" using loc(1) u1(2) entry.prems(1) by (simp add: same_config_def)
  have "\<forall>p\<in>touched es. L p < lsn \<longrightarrow> page_view u1 p = page_view t1 p"
    using entry.prems(2) u1(3,4) loc(2) tch by (metis insertCI)
  from entry.IH[OF c this] obtain u' where u': "same_config t1 t2" "\<And>p. p \<notin> touched es \<Longrightarrow> page_view t2 p = page_view t1 p"
    "redo_entries lsn L es u1 = Some u'" "same_config u1 u'"
    "\<And>p. page_view u' p = (if p \<in> touched es \<and> L p < lsn then page_view t2 p else page_view u1 p)" by auto
  have "redo_entries lsn L (e # es) u = Some u'" using u1(1) u'(3) by (auto split: if_splits)
  moreover have "page_view u' p = (if p \<in> touched (e # es) \<and> L p < lsn then page_view t2 p else page_view u p)" for p
    using u'(2,5)[of p] u1(3,4,5) tch by (cases "p = fst e") auto
  moreover have "same_config t t2" "same_config u u'" using loc(1) u'(1,4) u1(2) same_config_trans by blast+
  moreover have "\<forall>p. p \<notin> touched (e # es) \<longrightarrow> page_view t2 p = page_view t p" using u'(2) loc(2) tch by simp
  ultimately show ?case by blast
qed

section \<open>Recovery\<close>

text \<open>
  A history: for each completed operation the LSN of its log record, the entries, and the state of the tree
  afterwards.
\<close>

type_synonym 'k history = "(LSN \<times> 'k tree_entry list \<times> 'k bplus_tree) list"

fun runs :: "'k bplus_tree \<Rightarrow> 'k history \<Rightarrow> bool" where
  "runs t [] \<longleftrightarrow> True"
| "runs t ((lsn, es, t') # h) \<longleftrightarrow> tree_log t es t' \<and> (\<forall>x\<in>set h. lsn < fst x) \<and> runs t' h"

fun state_at :: "'k bplus_tree \<Rightarrow> 'k history \<Rightarrow> nat \<Rightarrow> 'k bplus_tree" where
  "state_at t [] n = t"
| "state_at t (x # h) 0 = t"
| "state_at t (x # h) (Suc n) = state_at (snd (snd x)) h n"

text \<open>
  What is on disk after a crash: each page is as it was at some moment of the history, the page \<open>p\<close> after
  \<open>j p\<close> operations, and its LSN tells which of the records that touch it are in it.
\<close>

definition flushed_image :: "'k bplus_tree \<Rightarrow> 'k history \<Rightarrow> (PageNum \<Rightarrow> nat) \<Rightarrow> 'k bplus_tree \<Rightarrow> (PageNum \<Rightarrow> LSN) \<Rightarrow> bool" where
  "flushed_image t h j u L \<longleftrightarrow> same_config t u \<and> (\<forall>p. page_view u p = page_view (state_at t h (j p)) p) \<and>
     (\<forall>p i. i < length h \<longrightarrow> p \<in> touched (fst (snd (h ! i))) \<longrightarrow> (i < j p \<longleftrightarrow> fst (h ! i) \<le> L p))"

fun redo_history :: "'k history \<Rightarrow> 'k bplus_tree \<times> (PageNum \<Rightarrow> LSN) \<Rightarrow> ('k bplus_tree \<times> (PageNum \<Rightarrow> LSN)) option" where
  "redo_history [] s = Some s"
| "redo_history ((lsn, es, _) # h) (t, L) = do {
     t' \<leftarrow> redo_entries lsn L es t;
     redo_history h (t', \<lambda>p. if p \<in> touched es \<and> L p < lsn then lsn else L p)
   }"

lemma state_at_end: "state_at t h n = state_at t h (length h)" if "length h \<le> n"
  using that by (induction t h n rule: state_at.induct) auto

lemma redo_history_recovers:
  assumes "runs t h" "flushed_image t h j u L"
  shows "\<exists>u' L'. redo_history h (u, L) = Some (u', L') \<and> page_view u' = page_view (state_at t h (length h))"
  using assms
proof (induction h arbitrary: t j u L)
  case Nil
  then show ?case by (auto simp: flushed_image_def fun_eq_iff)
next
  case (Cons x h)
  obtain lsn es t1 where x: "x = (lsn, es, t1)" by (cases x) auto
  have r: "tree_log t es t1" "\<And>y. y \<in> set h \<Longrightarrow> lsn < fst y" "runs t1 h" using Cons.prems(1) x by auto
  have f: "same_config t u" "\<And>p. page_view u p = page_view (state_at t (x # h) (j p)) p"
    "\<And>p i. i < Suc (length h) \<Longrightarrow> p \<in> touched (fst (snd ((x # h) ! i))) \<Longrightarrow> (i < j p \<longleftrightarrow> fst ((x # h) ! i) \<le> L p)"
    using Cons.prems(2) by (auto simp: flushed_image_def)
  have now: "0 < j p \<longleftrightarrow> lsn \<le> L p" if "p \<in> touched es" for p using f(3)[of 0 p] that x by simp
  have "\<forall>p\<in>touched es. L p < lsn \<longrightarrow> page_view u p = page_view t p" using now f(2) by (metis neq0_conv not_less state_at.simps(2))
  from redo_entries_pages[OF r(1) f(1) this] obtain u1 where u1: "same_config t t1" "\<And>p. p \<notin> touched es \<Longrightarrow> page_view t1 p = page_view t p"
    "redo_entries lsn L es u = Some u1" "same_config u u1"
    "\<And>p. page_view u1 p = (if p \<in> touched es \<and> L p < lsn then page_view t1 p else page_view u p)" by auto
  let ?L = "\<lambda>p. if p \<in> touched es \<and> L p < lsn then lsn else L p"
  have "flushed_image t1 h (\<lambda>p. j p - 1) u1 ?L"
    unfolding flushed_image_def
  proof (intro conjI allI impI)
    show "same_config t1 u1" using u1(1,4) f(1) same_config_trans by blast
    show "page_view u1 p = page_view (state_at t1 h (j p - 1)) p" for p
    proof (cases "j p")
      case 0
      have "state_at t1 h 0 = t1" by (cases h) auto
      then show ?thesis using u1(2,5)[of p] f(2)[of p] now[of p] 0 by (cases "p \<in> touched es") auto
    next
      case (Suc k)
      then show ?thesis using u1(5)[of p] f(2)[of p] now[of p] x by auto
    qed
    show "i < j p - 1 \<longleftrightarrow> fst (h ! i) \<le> ?L p" if "i < length h" "p \<in> touched (fst (snd (h ! i)))" for p i
    proof -
      have "Suc i < j p \<longleftrightarrow> fst (h ! i) \<le> L p" using f(3)[of "Suc i" p] that by simp
      moreover have "lsn < fst (h ! i)" using r(2) nth_mem[OF that(1)] by simp
      ultimately show ?thesis using now[of p] by auto
    qed
  qed
  from Cons.IH[OF r(3) this] show ?case using u1(3) x by simp
qed

section \<open>Recovery from the bytes of the log\<close>

lemma tree_log_no_header: "tree_log t es t' \<Longrightarrow> e \<in> set es \<Longrightarrow> snd e \<noteq> INIT_HEADER_PAGE h"
proof (induction rule: tree_log.induct)
  case (entry t e1 t1 es t2)
  then show ?case by (auto elim: logs.cases)
qed auto

lemma redo_remove_attr_length: "redo_remove p i n t = Some t' \<Longrightarrow> attr_length t' = attr_length t"
  by (cases "bt_pages t p"; cases "the (bt_pages t p)")
    (auto simp: redo_remove_def leaf_remove_items_def internal_remove_items_def put_node_def bind_eq_Some_iff split: if_splits)

lemma redo_entry_attr_length:
  "redo_entry e t = Some t' \<Longrightarrow> \<forall>h. snd e \<noteq> INIT_HEADER_PAGE h \<Longrightarrow> attr_length t' = attr_length t"
  by (cases "snd e")
    (auto simp: redo_entry_def redo_insert_def redo_remove_attr_length update_root_page_num_locked_def set_parent_page_num_def
      leaf_init_empty_def set_next_page_def internal_init_empty_def create_new_root_def set_key_at_def leaf_insert_items_def
      internal_insert_at_def put_node_def bind_eq_Some_iff Let_def split: if_splits node_items.splits)

lemma serialize_not_Nil [simp]: "serialize e \<noteq> []"
proof -
  have "length (serialize e) \<ge> 8" by (simp add: serialize_def serialize_header_def)
  then show ?thesis by auto
qed

lemma redo_loop_encoded:
  assumes "\<forall>e\<in>set es. entry_fits (nat (attr_length t)) e \<and> frame_getter (fst e) = SUCCESS \<and> (\<forall>h. snd e \<noteq> INIT_HEADER_PAGE h)"
    and "redo_entries lsn L es t = Some t'"
  shows "redo_loop frame_getter lsn L (concat (map serialize (map encode_entry es))) t frames =
    Some (SUCCESS, t', frames @ map fst (filter (\<lambda>e. L (fst e) < lsn) es))"
  using assms
proof (induction es arbitrary: t frames)
  case Nil
  then show ?case by (simp add: redo_loop.simps)
next
  case (Cons e es)
  let ?rest = "concat (map serialize (map encode_entry es))"
  have e: "entry_fits (nat (attr_length t)) e" "frame_getter (fst e) = SUCCESS" "\<forall>h. snd e \<noteq> INIT_HEADER_PAGE h" using Cons.prems(1) by auto
  have fb: "from_buffer frame_getter (serialize (encode_entry e) @ ?rest) = Some (SUCCESS, Some (fst e, forget_old (snd (encode_entry e))), ?rest)"
    using from_buffer_serialize[of "snd (encode_entry e)" "fst e" frame_getter ?rest] e(1,2)
    by (simp add: entry_fits_def encode_entry_def)
  show ?case
  proof (cases "L (fst e) \<ge> lsn")
    case True
    then show ?thesis
      using Cons.IH[of t frames] Cons.prems fb
      by (simp add: redo_loop.simps[of _ _ _ "serialize (encode_entry e) @ _"])
  next
    case False
    then obtain t1 where t1: "redo_entry e t = Some t1" "redo_entries lsn L es t1 = Some t'" using Cons.prems(2) by (auto simp: bind_eq_Some_iff)
    have "\<forall>e\<in>set es. entry_fits (nat (attr_length t1)) e \<and> frame_getter (fst e) = SUCCESS \<and> (\<forall>h. snd e \<noteq> INIT_HEADER_PAGE h)"
      using Cons.prems(1) redo_entry_attr_length[OF t1(1) e(3)] by simp
    then show ?thesis
      using Cons.IH[OF _ t1(2), of "frames @ [fst e]"] redo_raw_encoded[OF e(1) t1(1)] fb False
      by (simp add: redo_loop.simps[of _ _ _ "serialize (encode_entry e) @ _"])
  qed
qed

text \<open>The log records of a history.\<close>

definition log_of :: "int \<Rightarrow> byte list ikey history \<Rightarrow> (LSN \<times> byte list) list" where
  "log_of pool_id h = map (\<lambda>(lsn, es, _). (lsn, commit_payload pool_id (map encode_entry es))) h"

definition history_fits :: "nat \<Rightarrow> (PageNum \<Rightarrow> rc) \<Rightarrow> byte list ikey history \<Rightarrow> bool" where
  "history_fits len frame_getter h \<longleftrightarrow> (\<forall>x\<in>set h. \<forall>e\<in>set (fst (snd x)). entry_fits len e \<and> frame_getter (fst e) = SUCCESS)"

lemma redo_entries_attr_length:
  "redo_entries lsn L es t = Some t' \<Longrightarrow> \<forall>e\<in>set es. \<forall>h. snd e \<noteq> INIT_HEADER_PAGE h \<Longrightarrow> attr_length t' = attr_length t"
proof (induction es arbitrary: t)
  case (Cons e es)
  then show ?case using redo_entry_attr_length[of e t] by (fastforce simp: bind_eq_Some_iff split: if_splits)
qed simp

lemma redo_records_history:
  assumes "redo_history h (t, L) = Some (t', L')" "runs t0 h" "history_fits (nat (attr_length t)) frame_getter h"
    and "int32 pool_id" "get_buffer_pool pool_id = SUCCESS"
  shows "replay_list (redo_record get_buffer_pool frame_getter) (log_of pool_id h) (t, L) = Some (SUCCESS, t', L')"
  using assms(1-3)
proof (induction h arbitrary: t L t0)
  case (Cons x h)
  obtain lsn es s where x: "x = (lsn, es, s)" by (cases x) auto
  let ?L = "\<lambda>p. if p \<in> touched es \<and> L p < lsn then lsn else L p"
  obtain t1 where t1: "redo_entries lsn L es t = Some t1" "redo_history h (t1, ?L) = Some (t', L')"
    using Cons.prems(1) x by (auto simp: bind_eq_Some_iff)
  have "tree_log t0 es s" and r: "runs s h" using Cons.prems(2) x by simp_all
  then have nh: "\<forall>e\<in>set es. \<forall>h. snd e \<noteq> INIT_HEADER_PAGE h" using tree_log_no_header by blast
  have "replay_list (redo_record get_buffer_pool frame_getter) (log_of pool_id h) (t1, ?L) = Some (SUCCESS, t', L')"
    using Cons.IH[OF t1(2) r] Cons.prems(3) redo_entries_attr_length[OF t1(1) nh] by (simp add: history_fits_def)
  moreover have "redo_loop frame_getter lsn L (concat (map serialize (map encode_entry es))) t [] =
      Some (SUCCESS, t1, map fst (filter (\<lambda>e. L (fst e) < lsn) es))"
    using redo_loop_encoded[OF _ t1(1), of frame_getter "[]"] Cons.prems(3) nh x by (simp add: history_fits_def)
  moreover have "(\<lambda>p. if p \<in> set (map fst (filter (\<lambda>e. L (fst e) < lsn) es)) then lsn else L p) = ?L"
    by (auto simp: fun_eq_iff touched_def)
  ultimately show ?case
    using assms(4,5) x by (simp add: log_of_def redo_record_def commit_payload_def)
qed (simp add: log_of_def)

section \<open>Rollback\<close>

text \<open>
  Taking an entry back restores the node for the entries that do not move items; for the others, unless the
  items are at the end of the node, the program goes through a null pointer.
\<close>

lemma rollback_restores:
  "logs t (p, UPDATE_ROOT_PAGE q old) t' \<Longrightarrow> rollback_entry (p, UPDATE_ROOT_PAGE q old) t' = Some t"
  "logs t (p, SET_PARENT_PAGE q old) t' \<Longrightarrow> rollback_entry (p, SET_PARENT_PAGE q old) t' = Some t"
  "logs t (p, LEAF_SET_NEXT_PAGE q old) t' \<Longrightarrow> rollback_entry (p, LEAF_SET_NEXT_PAGE q old) t' = Some t"
proof -
  show "logs t (p, UPDATE_ROOT_PAGE q old) t' \<Longrightarrow> rollback_entry (p, UPDATE_ROOT_PAGE q old) t' = Some t"
    by (auto simp: rollback_entry_def update_root_page_num_locked_def elim: logs.cases)
  show "rollback_entry (p, SET_PARENT_PAGE q old) t' = Some t" if "logs t (p, SET_PARENT_PAGE q old) t'"
    using that
  proof cases
    case (parent n)
    then have "bt_pages t = (bt_pages t)(p \<mapsto> with_parent (nd_parent n) n)" by (cases n) (auto simp: fun_upd_idem)
    then show ?thesis using parent by (auto simp: rollback_entry_def set_parent_page_num_def put_node_def)
  qed
  show "rollback_entry (p, LEAF_SET_NEXT_PAGE q old) t' = Some t" if "logs t (p, LEAF_SET_NEXT_PAGE q old) t'"
    using that
  proof cases
    case (next_page par es)
    then have "bt_pages t p = Some (Leaf_Node par old es)" by (auto simp: leaf_at_def split: option.splits index_node.splits)
    then have "bt_pages t = (bt_pages t)(p \<mapsto> Leaf_Node par old es)" by (simp add: fun_upd_idem)
    then show ?thesis using next_page by (auto simp: rollback_entry_def set_next_page_def put_node_def leaf_at_def)
  qed
qed

lemma rollback_remove_undefined: "0 < n \<Longrightarrow> rollback_entry (p, NODE_REMOVE i items n) t = None"
  by (cases "bt_pages t p") (auto simp: rollback_entry_def)

lemma rollback_insert_undefined:
  "bt_pages t p = Some m \<Longrightarrow> i < int (node_size m) - n \<Longrightarrow> rollback_entry (p, NODE_INSERT i items n) t = None"
  by (auto simp: rollback_entry_def rollback_insert_def)

section \<open>Properties\<close>

text \<open>
  Every change that an insertion or a deletion makes to the pages of the tree goes through the logging
  handlers: the log entries of the operation lead from the tree before it to the tree after it, and redo of
  the entries on the old pages, all older than the record, gives the new pages and the new root.
\<close>

theorem operations_logged:
  assumes "index_step oper t = Some (r, t')" "\<forall>p. L p < lsn"
  shows "\<exists>es u. tree_log t es t' \<and> redo_entries lsn L es t = Some u \<and> bt_pages u = bt_pages t' \<and> root_page u = root_page t'"
proof -
  have "logged t t'"
    using assms(1) gives_D[OF insert_entry_logged] gives_D[OF delete_entry_logged] by (cases oper) fastforce+
  then obtain es where es: "tree_log t es t'" by (auto simp: logged_def)
  have "\<forall>p\<in>touched es. L p < lsn \<longrightarrow> page_view t p = page_view t p" by simp
  from redo_entries_pages[OF es same_config_simps(1) this]
  obtain u where u: "redo_entries lsn L es t = Some u" "\<forall>p. p \<notin> touched es \<longrightarrow> page_view t' p = page_view t p"
    "\<forall>p. page_view u p = (if p \<in> touched es \<and> L p < lsn then page_view t' p else page_view t p)" by blast
  have "page_view u p = page_view t' p" for p using u(2,3) assms(2) by simp
  from page_view_eq_pages[of u t', OF this] es u(1) show ?thesis by blast
qed

theorem operations_logged_witness:
  "\<exists>t' es u. index_step (Insert_Entry 4 \<lparr>page_num = 7, slot_num = 1\<rparr>) demo_index = Some (SUCCESS, t') \<and> tree_log demo_index es t' \<and>
     redo_entries 1 (\<lambda>_. 0) es demo_index = Some u \<and> bt_pages u = bt_pages t' \<and> root_page u = root_page t'"
proof -
  obtain t' where t': "index_step (Insert_Entry 4 \<lparr>page_num = 7, slot_num = 1\<rparr>) demo_index = Some (SUCCESS, t')"
    using insert_entry_refines[OF demo_index_holds, of 4 "\<lparr>page_num = 7, slot_num = 1\<rparr>"] demo_index_header(3)
    by (auto simp: has_key_def demo_index_def compare_int_def FH_BITMAP_BYTES_def layout_simps)
  then show ?thesis using operations_logged[OF t', of "\<lambda>_. 0" 1] by fastforce
qed


definition demo_item :: "byte list ikey \<times> rid" where
  "demo_item = (([1, 2, 3, 4], \<lparr>page_num = 1, slot_num = 5\<rparr>), \<lparr>page_num = 1, slot_num = 5\<rparr>)"

definition demo_empty_leaf :: "byte list ikey bplus_tree" where
  "demo_empty_leaf = \<lparr>key_comparator = key_compare chars_compare, key_zero = ([0, 0, 0, 0], rid_min), attr_length = 4,
     internal_max_size = 6, leaf_max_size = 4, root_page = 2, bt_hdr = bt_hdr demo_index,
     bt_pages = [2 \<mapsto> Leaf_Node BP_INVALID_PAGE_NUM BP_INVALID_PAGE_NUM []], disposed_pages = []\<rparr>"

definition demo_full_leaf :: "byte list ikey bplus_tree" where
  "demo_full_leaf = put_node 2 (Leaf_Node BP_INVALID_PAGE_NUM BP_INVALID_PAGE_NUM [demo_item]) demo_empty_leaf"

definition demo_history :: "byte list ikey history" where
  "demo_history = [(7, [(2, NODE_INSERT 0 (Leaf_Items [demo_item]) 1)], demo_full_leaf)]"


end
