(* ===== verification/Log_File.thy ===== *)
theory Log_File
  imports Serializer Redo_Log "HOL-Library.Sublist"
begin

text \<open>
  The log files of src/src/observer/storage/clog: entries (log_entry.cpp), the reader and the writer of one
  file and the manager of the files of a directory (log_file.cpp).  A file system is a map from paths to
  bytes; a failing system call is an input of the operation.  An open file of the reader is the bytes that
  are left to read.
\<close>

section \<open>Entries\<close>

datatype log_module = BUFFER_POOL | BPLUS_TREE | RECORD_MANAGER | TRANSACTION

definition module_index :: "log_module \<Rightarrow> int" where
  "module_index m = (case m of BUFFER_POOL \<Rightarrow> 0 | BPLUS_TREE \<Rightarrow> 1 | RECORD_MANAGER \<Rightarrow> 2 | TRANSACTION \<Rightarrow> 3)"

text \<open>The header of an entry: two machine words of 4 bytes behind one of 8, without padding.\<close>

record log_header =
  lh_lsn :: LSN
  lh_size :: int
  lh_module_id :: int

record log_entry =
  le_header :: log_header
  le_data :: "byte list"

abbreviation le_lsn :: "log_entry \<Rightarrow> LSN" where
  "le_lsn e \<equiv> lh_lsn (le_header e)"

abbreviation payload_size :: "log_entry \<Rightarrow> int" where
  "payload_size e \<equiv> lh_size (le_header e)"

definition LOG_HEADER_SIZE :: nat where
  "LOG_HEADER_SIZE = 16"

definition max_payload_size :: int where
  "max_payload_size = 4 * 1024 * 1024 - int LOG_HEADER_SIZE"

definition total_size :: "log_entry \<Rightarrow> int" where
  "total_size e = int LOG_HEADER_SIZE + payload_size e"

definition log_entry_init :: "LSN \<Rightarrow> int \<Rightarrow> byte list \<Rightarrow> rc \<times> log_entry option" where
  "log_entry_init lsn module_id data =
     (if int32_cast (int (length data)) > max_payload_size then (INVALID_ARGUMENT, None)
      else (SUCCESS, Some \<lparr>le_header = \<lparr>lh_lsn = lsn, lh_size = int32_cast (int (length data)), lh_module_id = module_id\<rparr>,
              le_data = data\<rparr>))"

definition set_lsn :: "LSN \<Rightarrow> log_entry \<Rightarrow> log_entry" where
  "set_lsn lsn e = e\<lparr>le_header := (le_header e)\<lparr>lh_lsn := lsn\<rparr>\<rparr>"

section \<open>Reading a file\<close>

definition header_bytes :: "log_header \<Rightarrow> byte list" where
  "header_bytes h = write_int64 (lh_lsn h) @ write_int32 (lh_size h) @ write_int32 (lh_module_id h)"

text \<open>\<open>None\<close> is the end of the file; a file that ends inside a header counts as ended.\<close>

definition read_header :: "byte list \<Rightarrow> (log_header \<times> byte list) option" where
  "read_header bs = do {
     (lsn, bs1) \<leftarrow> read_int64 bs;
     (size, bs2) \<leftarrow> read_int32 bs1;
     (module_id, bs3) \<leftarrow> read_int32 bs2;
     Some (\<lparr>lh_lsn = lsn, lh_size = size, lh_module_id = module_id\<rparr>, bs3)
   }"

lemma read_header_consumes [termination_simp]:
  assumes "read_header bs = Some (h, rest)"
  shows "length rest < length bs"
proof -
  obtain a b bs1 bs2 c where s: "read_int64 bs = Some (a, bs1)" "read_int32 bs1 = Some (b, bs2)" "read_int32 bs2 = Some (c, rest)"
    using assms by (auto simp: read_header_def bind_eq_Some_iff)
  have "length bs1 \<le> length bs" using s(1) by (auto simp: read_int64_def read_span_def split: if_splits)
  then show ?thesis using read_int_consumes(1)[OF s(2)] read_int_consumes(1)[OF s(3)] by simp
qed

text \<open>
  \<open>LogFileReader::skip_to\<close> moves to the first entry that is not below \<open>start_lsn\<close>.  Seeking behind the end of
  the file is allowed and leaves nothing to read.
\<close>

function skip_to :: "LSN \<Rightarrow> byte list \<Rightarrow> rc \<times> byte list" where
  "skip_to start_lsn bs = (case read_header bs of
     None \<Rightarrow> (SUCCESS, [])
   | Some (header, rest) \<Rightarrow>
       if lh_lsn header \<ge> start_lsn then (SUCCESS, bs)
       else if lh_size header < 0 \<or> lh_size header > max_payload_size then (IOERR_READ, rest)
       else skip_to start_lsn (drop (nat (lh_size header)) rest))"
  by pat_completeness auto
termination
  by (relation "measure (\<lambda>(_, bs). length bs)") (auto dest!: read_header_consumes)

declare skip_to.simps [simp del]

function iterate_entries :: "(log_entry \<Rightarrow> 's \<Rightarrow> (rc \<times> 's) option) \<Rightarrow> byte list \<Rightarrow> 's \<Rightarrow> (rc \<times> 's) option" where
  "iterate_entries callback bs s = (case read_header bs of
     None \<Rightarrow> Some (SUCCESS, s)
   | Some (header, rest) \<Rightarrow>
       if lh_size header < 0 \<or> lh_size header > max_payload_size then Some (IOERR_READ, s)
       else (case read_span (nat (lh_size header)) rest of
         None \<Rightarrow> Some (IOERR_READ, s)
       | Some (data, rest') \<Rightarrow> do {
           (r, s') \<leftarrow> callback \<lparr>le_header = header, le_data = data\<rparr> s;
           if OB_FAIL r then Some (r, s') else iterate_entries callback rest' s'
         }))"
  by pat_completeness auto
termination
  by (relation "measure (\<lambda>(_, bs, _). length bs)") (auto dest!: read_header_consumes read_int_consumes(2))

declare iterate_entries.simps [simp del]

type_synonym file_system = "string \<Rightarrow> byte list option"

text \<open>An open file of the reader is its content; \<open>None\<close> is a reader that is not open.\<close>

definition reader_open :: "file_system \<Rightarrow> string \<Rightarrow> rc \<times> byte list option" where
  "reader_open fs filename = (case fs filename of None \<Rightarrow> (FILE_OPEN, None) | Some bs \<Rightarrow> (SUCCESS, Some bs))"

definition reader_close :: "byte list option \<Rightarrow> rc \<times> byte list option" where
  "reader_close fd = (if fd = None then FILE_NOT_OPENED else SUCCESS, None)"

definition reader_iterate ::
    "(log_entry \<Rightarrow> 's \<Rightarrow> (rc \<times> 's) option) \<Rightarrow> LSN \<Rightarrow> byte list option \<Rightarrow> 's \<Rightarrow> (rc \<times> 's) option" where
  "reader_iterate callback start_lsn fd s = (case fd of
     None \<Rightarrow> Some (FILE_NOT_OPENED, s)
   | Some bs \<Rightarrow> (case skip_to start_lsn bs of
       (r, rest) \<Rightarrow> if OB_FAIL r then Some (r, s) else iterate_entries callback rest s))"

section \<open>Writing a file\<close>

text \<open>The fields of \<open>LogFileWriter\<close> for LSNs have the type \<open>int\<close>.\<close>

record log_writer =
  w_filename :: string
  w_valid :: bool
  w_last_lsn :: int
  w_end_lsn :: int

definition new_writer :: log_writer where
  "new_writer = \<lparr>w_filename = [], w_valid = False, w_last_lsn = 0, w_end_lsn = 0\<rparr>"

text \<open>\<open>can_open\<close> tells whether the system call succeeds; the file is created when it does not exist.\<close>

definition writer_open :: "bool \<Rightarrow> string \<Rightarrow> LSN \<Rightarrow> log_writer \<times> file_system \<Rightarrow> rc \<times> log_writer \<times> file_system" where
  "writer_open can_open filename end_lsn = (\<lambda>(w, fs).
     if w_valid w then (FILE_OPEN, w, fs)
     else let w1 = w\<lparr>w_filename := filename, w_end_lsn := int32_cast end_lsn\<rparr> in
       if \<not> can_open then (FILE_OPEN, w1, fs)
       else (SUCCESS, w1\<lparr>w_valid := True\<rparr>, fs(filename \<mapsto> (case fs filename of None \<Rightarrow> [] | Some bs \<Rightarrow> bs))))"

definition writer_close :: "log_writer \<Rightarrow> rc \<times> log_writer" where
  "writer_close w = (if w_valid w then (SUCCESS, w\<lparr>w_valid := False\<rparr>) else (FILE_NOT_OPENED, w))"

definition encode_log_entry :: "log_entry \<Rightarrow> byte list" where
  "encode_log_entry e = header_bytes (le_header e) @ le_data e"

definition append_file :: "string \<Rightarrow> byte list \<Rightarrow> file_system \<Rightarrow> file_system" where
  "append_file f bs fs = fs(f \<mapsto> (case fs f of None \<Rightarrow> [] | Some old \<Rightarrow> old) @ bs)"

text \<open>\<open>fault\<close> is the number of bytes of the entry that reach the file when writing fails.\<close>

definition writer_write :: "nat option \<Rightarrow> log_entry \<Rightarrow> log_writer \<times> file_system \<Rightarrow> rc \<times> log_writer \<times> file_system" where
  "writer_write fault e = (\<lambda>(w, fs).
     if le_lsn e > w_end_lsn w then (LOG_FILE_FULL, w, fs)
     else if \<not> w_valid w then (FILE_NOT_OPENED, w, fs)
     else if le_lsn e \<le> w_last_lsn w then (INVALID_ARGUMENT, w, fs)
     else (case fault of
       Some k \<Rightarrow> (IOERR_WRITE, w, append_file (w_filename w) (take k (encode_log_entry e)) fs)
     | None \<Rightarrow> (SUCCESS, w\<lparr>w_last_lsn := int32_cast (le_lsn e)\<rparr>, append_file (w_filename w) (encode_log_entry e) fs)))"

section \<open>The files of a directory\<close>

text \<open>\<open>std::map\<close> from the first LSN of a file to its path, in the order of the keys.\<close>

record log_files =
  lf_directory :: string
  lf_max_entries :: int
  lf_files :: "(LSN \<times> string) list"

text \<open>\<open>emplace\<close> leaves an existing key alone.\<close>

fun map_emplace :: "'k::linorder \<Rightarrow> 'v \<Rightarrow> ('k \<times> 'v) list \<Rightarrow> ('k \<times> 'v) list" where
  "map_emplace k v [] = [(k, v)]"
| "map_emplace k v ((k', v') # m) =
     (if k < k' then (k, v) # (k', v') # m else if k = k' then (k', v') # m else (k', v') # map_emplace k v m)"

definition clog_prefix :: string where
  "clog_prefix = ''clog_''"

definition clog_suffix :: string where
  "clog_suffix = ''.log''"

text \<open>Decimal numbers: \<open>std::to_string\<close> and \<open>std::from_chars\<close> of 64 bit integers.\<close>

definition digit :: "nat \<Rightarrow> char" where
  "digit d = char_of (48 + d)"

definition is_digit :: "char \<Rightarrow> bool" where
  "is_digit c \<longleftrightarrow> 48 \<le> (of_char c :: nat) \<and> (of_char c :: nat) \<le> 57"

fun digits :: "nat \<Rightarrow> string" where
  "digits n = (if n < 10 then [digit n] else digits (n div 10) @ [digit (n mod 10)])"

declare digits.simps [simp del]

definition decimal :: "int \<Rightarrow> string" where
  "decimal v = (if v < 0 then CHR ''-'' # digits (nat (- v)) else digits (nat v))"

definition digits_value :: "string \<Rightarrow> nat" where
  "digits_value ds = foldl (\<lambda>v c. 10 * v + (of_char c - 48)) 0 ds"

text \<open>Characters behind the number are ignored.\<close>

definition from_chars :: "string \<Rightarrow> int option" where
  "from_chars s = (let neg = (s \<noteq> [] \<and> hd s = CHR ''-'');
       ds = takeWhile is_digit (if neg then tl s else s);
       v = (if neg then - int (digits_value ds) else int (digits_value ds)) in
     if ds = [] \<or> \<not> int64 v then None else Some v)"

definition get_lsn_from_filename :: "string \<Rightarrow> rc \<times> LSN" where
  "get_lsn_from_filename filename =
     (if \<not> prefix clog_prefix filename \<or> \<not> suffix clog_suffix filename then (INVALID_ARGUMENT, 0)
      else (case from_chars (take (length filename - length clog_suffix - length clog_prefix) (drop (length clog_prefix) filename)) of
        None \<Rightarrow> (INVALID_ARGUMENT, 0)
      | Some lsn \<Rightarrow> (SUCCESS, lsn)))"

definition file_path :: "string \<Rightarrow> string \<Rightarrow> string" where
  "file_path directory filename = directory @ ''/'' @ filename"

text \<open>One entry of the directory: its name and whether it is a regular file.\<close>

definition collect_file :: "string \<Rightarrow> string \<times> bool \<Rightarrow> (LSN \<times> string) list \<Rightarrow> (LSN \<times> string) list" where
  "collect_file directory = (\<lambda>(filename, is_regular_file) files.
     if \<not> is_regular_file then files
     else (case get_lsn_from_filename filename of (r, lsn) \<Rightarrow>
       if OB_FAIL r then files
       else if lsn \<in> fst ` set files then files
       else map_emplace lsn (file_path directory filename) files))"

text \<open>
  \<open>LogFileManager::init\<close>: \<open>listing\<close> is the content of the directory, \<open>None\<close> when it does not exist, and
  \<open>can_create\<close> the result of creating it.
\<close>

definition log_files_init :: "(string \<times> bool) list option \<Rightarrow> bool \<Rightarrow> string \<Rightarrow> int \<Rightarrow> rc \<times> log_files" where
  "log_files_init listing can_create directory max_entries =
     (let m = \<lparr>lf_directory = directory, lf_max_entries = max_entries, lf_files = []\<rparr> in
      case listing of
        None \<Rightarrow> (if can_create then SUCCESS else FILE_CREATE, m)
      | Some names \<Rightarrow> (SUCCESS, m\<lparr>lf_files := fold (collect_file directory) names []\<rparr>))"

definition list_files :: "LSN \<Rightarrow> log_files \<Rightarrow> string list" where
  "list_files start_lsn m = map snd (filter (\<lambda>(lsn, _). lsn + lf_max_entries m - 1 \<ge> start_lsn) (lf_files m))"

definition log_filename :: "LSN \<Rightarrow> string" where
  "log_filename lsn = clog_prefix @ decimal lsn @ clog_suffix"

definition next_file :: "bool \<Rightarrow> log_files \<times> log_writer \<times> file_system \<Rightarrow> rc \<times> log_files \<times> log_writer \<times> file_system" where
  "next_file can_open = (\<lambda>(m, w, fs).
     let w1 = snd (writer_close w);
         lsn = (if lf_files m = [] then 0 else fst (last (lf_files m)) + lf_max_entries m);
         path = file_path (lf_directory m) (log_filename lsn);
         (r, w2, fs2) = writer_open can_open path (lsn + lf_max_entries m - 1) (w1, fs) in
     (r, m\<lparr>lf_files := map_emplace lsn path (lf_files m)\<rparr>, w2, fs2))"

definition last_file :: "bool \<Rightarrow> log_files \<times> log_writer \<times> file_system \<Rightarrow> rc \<times> log_files \<times> log_writer \<times> file_system" where
  "last_file can_open = (\<lambda>(m, w, fs).
     if lf_files m = [] then next_file can_open (m, w, fs)
     else let w1 = snd (writer_close w);
         (lsn, path) = last (lf_files m);
         (r, w2, fs2) = writer_open can_open path (lsn + lf_max_entries m - 1) (w1, fs) in
       (r, m, w2, fs2))"

section \<open>Reading back what was written\<close>

definition log_entry_ok :: "log_entry \<Rightarrow> bool" where
  "log_entry_ok e \<longleftrightarrow> int64 (le_lsn e) \<and> int32 (lh_module_id (le_header e)) \<and> payload_size e = int (length (le_data e)) \<and>
     payload_size e \<le> max_payload_size"

lemma payload_int32: "v \<le> max_payload_size \<Longrightarrow> 0 \<le> v \<Longrightarrow> int32 v"
  by (simp add: max_payload_size_def LOG_HEADER_SIZE_def int32_def)

lemma length_header_bytes [simp]: "length (header_bytes h) = LOG_HEADER_SIZE"
  by (simp add: header_bytes_def LOG_HEADER_SIZE_def)

lemma read_header_bytes [simp]:
  "int64 (lh_lsn h) \<Longrightarrow> int32 (lh_size h) \<Longrightarrow> int32 (lh_module_id h) \<Longrightarrow> read_header (header_bytes h @ rest) = Some (h, rest)"
  by (simp add: read_header_def header_bytes_def)

lemma read_header_short: "length bs < LOG_HEADER_SIZE \<Longrightarrow> read_header bs = None"
  by (auto simp: read_header_def LOG_HEADER_SIZE_def read_int64_def read_int32_def read_span_def bind_eq_Some_iff split: if_splits
      simp flip: not_Some_eq)

lemma read_header_entry:
  "log_entry_ok e \<Longrightarrow> read_header (encode_log_entry e @ rest) = Some (le_header e, le_data e @ rest)"
  by (simp add: log_entry_ok_def encode_log_entry_def payload_int32)

lemma iterate_entries_entry:
  assumes "log_entry_ok e"
  shows "iterate_entries callback (encode_log_entry e @ rest) s =
    do { (r, s') \<leftarrow> callback e s; if OB_FAIL r then Some (r, s') else iterate_entries callback rest s' }"
proof -
  have "read_span (nat (payload_size e)) (le_data e @ rest) = Some (le_data e, rest)" "payload_size e \<ge> 0" "payload_size e \<le> max_payload_size"
    using assms by (simp_all add: log_entry_ok_def)
  then show ?thesis using read_header_entry[OF assms]
    by (cases e) (subst iterate_entries.simps, simp)
qed

lemma skip_to_Nil [simp]: "skip_to start [] = (SUCCESS, [])"
  by (subst skip_to.simps) (simp add: read_header_short LOG_HEADER_SIZE_def)

lemma iterate_entries_Nil [simp]: "iterate_entries callback [] s = Some (SUCCESS, s)"
  by (subst iterate_entries.simps) (simp add: read_header_short LOG_HEADER_SIZE_def)

text \<open>A file of complete entries with some bytes behind them.\<close>

lemma iterate_entries_encoded:
  "\<forall>e\<in>set es. log_entry_ok e \<Longrightarrow>
   iterate_entries callback (concat (map encode_log_entry es) @ tail) s =
     do { (r, s') \<leftarrow> replay_list callback es s; if OB_FAIL r then Some (r, s') else iterate_entries callback tail s' }"
  by (induction es arbitrary: s) (auto simp: iterate_entries_entry Option.bind_assoc intro!: Option.bind_cong split: prod.splits)

text \<open>
  The tail that a crash leaves while an entry is written: inside the header it is taken for the end of the
  file, inside the payload it is an error.
\<close>

lemma iterate_entries_torn:
  assumes "log_entry_ok e" "k < length (encode_log_entry e)"
  shows "iterate_entries callback (take k (encode_log_entry e)) s = Some (if k < LOG_HEADER_SIZE then SUCCESS else IOERR_READ, s)"
proof (cases "k < LOG_HEADER_SIZE")
  case True
  then show ?thesis by (subst iterate_entries.simps) (simp add: read_header_short)
next
  case False
  define d where "d = take (k - LOG_HEADER_SIZE) (le_data e)"
  have t: "take k (encode_log_entry e) = header_bytes (le_header e) @ d"
    using False by (simp add: encode_log_entry_def d_def)
  have "int (length d) < payload_size e" using assms False by (simp add: d_def log_entry_ok_def encode_log_entry_def)
  then have "read_span (nat (payload_size e)) d = None" by (simp add: read_span_def)
  moreover have "payload_size e \<ge> 0" "payload_size e \<le> max_payload_size" using assms(1) by (simp_all add: log_entry_ok_def)
  moreover have "read_header (header_bytes (le_header e) @ d) = Some (le_header e, d)"
    using assms(1) by (simp add: log_entry_ok_def payload_int32)
  ultimately show ?thesis using False by (subst iterate_entries.simps) (simp add: t)
qed

lemma skip_to_entry:
  assumes "log_entry_ok e"
  shows "skip_to start (encode_log_entry e @ rest) =
    (if le_lsn e \<ge> start then (SUCCESS, encode_log_entry e @ rest) else skip_to start rest)"
  using assms by (subst skip_to.simps) (auto simp: read_header_entry log_entry_ok_def)

lemma skip_to_encoded:
  "\<forall>e\<in>set es. log_entry_ok e \<Longrightarrow>
   skip_to start (concat (map encode_log_entry es) @ tail) =
     (let ds = dropWhile (\<lambda>e. le_lsn e < start) es in
      if ds = [] then skip_to start tail else (SUCCESS, concat (map encode_log_entry ds) @ tail))"
  by (induction es) (auto simp: skip_to_entry Let_def)

lemma skip_to_torn:
  assumes "log_entry_ok e" "k < length (encode_log_entry e)"
  shows "skip_to start (take k (encode_log_entry e)) =
    (SUCCESS, if k < LOG_HEADER_SIZE \<or> le_lsn e < start then [] else take k (encode_log_entry e))"
proof (cases "k < LOG_HEADER_SIZE")
  case True
  then show ?thesis by (subst skip_to.simps) (simp add: read_header_short)
next
  case False
  define d where "d = take (k - LOG_HEADER_SIZE) (le_data e)"
  have t: "take k (encode_log_entry e) = header_bytes (le_header e) @ d"
    using False by (simp add: encode_log_entry_def d_def)
  have "payload_size e \<ge> 0" "payload_size e \<le> max_payload_size" using assms(1) by (simp_all add: log_entry_ok_def)
  moreover have "read_header (header_bytes (le_header e) @ d) = Some (le_header e, d)"
    using assms(1) by (simp add: log_entry_ok_def payload_int32)
  moreover have "length d \<le> nat (payload_size e)" using assms by (simp add: d_def log_entry_ok_def)
  ultimately show ?thesis using False by (subst skip_to.simps) (simp add: t)
qed

lemma dropWhile_sorted: "sorted (map f xs) \<Longrightarrow> dropWhile (\<lambda>x. f x < a) xs = filter (\<lambda>x. a \<le> f x) xs" for a :: "'a::linorder"
proof (induction xs)
  case (Cons x xs)
  then show ?case
  proof (cases "f x < a")
    case False
    then have "\<forall>y\<in>set xs. a \<le> f y" using Cons.prems by (auto intro: order_trans)
    then show ?thesis using False by simp
  qed auto
qed simp

text \<open>A complete file: exactly the entries from \<open>start\<close> on are handed to the callback, in order.\<close>

lemma reader_iterate_file:
  assumes "\<forall>e\<in>set es. log_entry_ok e" "sorted (map le_lsn es)"
  shows "reader_iterate callback start (Some (concat (map encode_log_entry es))) s =
    replay_list callback (filter (\<lambda>e. start \<le> le_lsn e) es) s"
proof -
  have d: "dropWhile (\<lambda>e. le_lsn e < start) es = filter (\<lambda>e. start \<le> le_lsn e) es" by (rule dropWhile_sorted[OF assms(2)])
  have "iterate_entries callback (concat (map encode_log_entry fs)) s = replay_list callback fs s" if "set fs \<subseteq> set es" for fs
  proof -
    have "\<forall>e\<in>set fs. log_entry_ok e" using assms(1) that by blast
    from iterate_entries_encoded[OF this, of callback "[]" s] show ?thesis
      by (cases "replay_list callback fs s") (auto simp: OB_FAIL_def)
  qed
  from this[of "filter (\<lambda>e. start \<le> le_lsn e) es"] show ?thesis
    using skip_to_encoded[OF assms(1), of start "[]"] by (auto simp: reader_iterate_def d Let_def)
qed

section \<open>File names\<close>

lemma of_char_digit: "d < 10 \<Longrightarrow> of_char (digit d) = 48 + d"
  by (simp add: digit_def)

lemma digits_props: "digits n \<noteq> [] \<and> (\<forall>c\<in>set (digits n). is_digit c) \<and> digits_value (digits n) = n"
proof (induction n rule: digits.induct)
  case (1 n)
  then show ?case
    by (cases "n < 10") (auto simp: digits.simps[of n] digits_value_def is_digit_def of_char_digit)
qed

lemmas digits_Nil [simp] = digits_props[THEN conjunct1]
lemmas digits_are_digits = digits_props[THEN conjunct2, THEN conjunct1]
lemmas digits_value_digits [simp] = digits_props[THEN conjunct2, THEN conjunct2]

lemma hd_digits: "hd (digits n) \<noteq> CHR ''-''"
proof -
  have "is_digit (hd (digits n))" using digits_are_digits[of n] hd_in_set[OF digits_Nil, of n] by blast
  moreover have "\<not> is_digit (CHR ''-'')" by (simp add: is_digit_def)
  ultimately show ?thesis by metis
qed

lemma from_chars_decimal:
  assumes "int64 v" "rest = [] \<or> \<not> is_digit (hd rest)"
  shows "from_chars (decimal v @ rest) = Some v"
proof -
  have t: "takeWhile is_digit (digits n @ rest) = digits n" for n
    using digits_are_digits[of n] assms(2) by (cases rest) (simp_all add: takeWhile_append)
  show ?thesis using assms(1) by (simp add: from_chars_def decimal_def t hd_digits)
qed

lemma get_lsn_log_filename: "int64 lsn \<Longrightarrow> get_lsn_from_filename (log_filename lsn) = (SUCCESS, lsn)"
  using from_chars_decimal[of lsn "[]"] suffixI[of "clog_prefix @ decimal lsn @ clog_suffix" "clog_prefix @ decimal lsn" clog_suffix]
  by (simp add: get_lsn_from_filename_def log_filename_def)

lemma decimal_inj: "decimal a = decimal b \<longleftrightarrow> a = b"
proof
  have d: "n = k" if "digits n = digits k" for n k using that by (metis digits_value_digits)
  have h: "digits n \<noteq> CHR ''-'' # ds" for n ds using hd_digits[of n] by (cases "digits n") auto
  assume e: "decimal a = decimal b"
  consider "a < 0" "b < 0" | "a < 0" "0 \<le> b" | "0 \<le> a" "b < 0" | "0 \<le> a" "0 \<le> b" by linarith
  then show "a = b"
  proof cases
    case 1
    then have "digits (nat (- a)) = digits (nat (- b))" using e by (simp add: decimal_def)
    from d[OF this] 1 show ?thesis by simp
  next
    case 4
    then have "digits (nat a) = digits (nat b)" using e by (simp add: decimal_def)
    from d[OF this] 4 show ?thesis by simp
  qed (use e h in \<open>simp_all add: decimal_def not_less[symmetric]\<close>, metis)
qed simp

lemma log_filename_inj [simp]: "log_filename a = log_filename b \<longleftrightarrow> a = b"
  by (simp add: log_filename_def decimal_inj)

lemma file_path_inj [simp]: "file_path d a = file_path d b \<longleftrightarrow> a = b"
  by (simp add: file_path_def)

section \<open>The manager of the files\<close>

lemma set_map_emplace: "k \<notin> fst ` set m \<Longrightarrow> set (map_emplace k v m) = insert (k, v) (set m)"
  by (induction k v m rule: map_emplace.induct) auto

lemma map_emplace_sorted:
  "sorted_wrt (<) (map fst m) \<Longrightarrow> k \<notin> fst ` set m \<Longrightarrow> sorted_wrt (<) (map fst (map_emplace k v m))"
proof (induction k v m rule: map_emplace.induct)
  case (2 k v k' v' m)
  then have "k \<noteq> k'" "k \<notin> fst ` set m" by auto
  note k = this
  show ?case
  proof (cases "k < k'")
    case True
    then show ?thesis using "2.prems"(1) by (auto dest: less_trans)
  next
    case False
    then have "sorted_wrt (<) (map fst (map_emplace k v m))" using "2.IH" k "2.prems"(1) by simp
    then show ?thesis using False k "2.prems"(1) set_map_emplace[OF k(2), of v] by auto
  qed
qed simp

lemma map_emplace_last: "\<forall>x\<in>set m. fst x < k \<Longrightarrow> map_emplace k v m = m @ [(k, v)]"
  by (induction k v m rule: map_emplace.induct) auto

text \<open>\<open>init\<close> finds the log files in the order of their numbers, whatever the order of the listing.\<close>

definition named_files :: "string \<Rightarrow> (string \<times> bool) list \<Rightarrow> (LSN \<times> string) set" where
  "named_files directory names = {(lsn, file_path directory f) | lsn f. (f, True) \<in> set names \<and> get_lsn_from_filename f = (SUCCESS, lsn)}"

lemma collect_files:
  assumes "\<forall>f g lsn. (f, True) \<in> set names \<longrightarrow> (g, True) \<in> set names \<longrightarrow> get_lsn_from_filename f = (SUCCESS, lsn) \<longrightarrow>
      get_lsn_from_filename g = (SUCCESS, lsn) \<longrightarrow> f = g"
  shows "sorted_wrt (<) (map fst (fold (collect_file d) names [])) \<and> set (fold (collect_file d) names []) = named_files d names"
  using assms
proof (induction names rule: rev_induct)
  case Nil
  then show ?case by (simp add: named_files_def)
next
  case (snoc x names)
  obtain f reg where x: "x = (f, reg)" by (cases x)
  obtain r lsn where g: "get_lsn_from_filename f = (r, lsn)" by (cases "get_lsn_from_filename f")
  let ?m = "fold (collect_file d) names []"
  have IH: "sorted_wrt (<) (map fst ?m)" "set ?m = named_files d names" using snoc by auto
  show ?case
  proof (cases "reg \<and> r = SUCCESS")
    case False
    then show ?thesis using IH by (auto simp: x g collect_file_def OB_FAIL_def named_files_def)
  next
    case True
    have new: "named_files d (names @ [x]) = insert (lsn, file_path d f) (named_files d names)"
      using True by (auto simp: x g named_files_def)
    show ?thesis
    proof (cases "lsn \<in> fst ` set ?m")
      case in_m: True
      then obtain f' where "(f', True) \<in> set names" "get_lsn_from_filename f' = (SUCCESS, lsn)"
        using IH(2) by (auto simp: named_files_def)
      moreover have "f' = f" using snoc.prems calculation g True by (auto simp: x)
      ultimately have "(lsn, file_path d f) \<in> named_files d names" by (auto simp: named_files_def)
      then show ?thesis using in_m True IH new by (auto simp: x g collect_file_def)
    next
      case False
      then show ?thesis using True IH new map_emplace_sorted[OF IH(1) False] set_map_emplace[OF False] by (simp add: x g collect_file_def)
    qed
  qed
qed

lemma sorted_keys_unique:
  assumes "sorted_wrt (<) (map fst xs)" "sorted_wrt (<) (map fst ys)" "set xs = set ys"
  shows "xs = (ys :: ('k::linorder \<times> 'v) list)"
proof -
  have d: "distinct (map fst xs)" "distinct (map fst ys)" using assms(1,2) by (simp_all add: strict_sorted_iff)
  have k: "map fst xs = map fst ys"
    using assms by (intro sorted_distinct_set_unique) (auto simp: strict_sorted_iff)
  have m: "map_of xs = map_of ys" using d assms(3) by (simp add: map_of_inject_set)
  have "map snd zs = map (the \<circ> map_of zs) (map fst zs)" if "distinct (map fst zs)" for zs :: "('k \<times> 'v) list"
    using that by (auto intro!: map_cong simp: map_of_is_SomeI)
  then have "map snd xs = map snd ys" using d k m by metis
  then show ?thesis using k by (metis zip_map_fst_snd)
qed

end
