(* ===== verification/Log_Handler.thy ===== *)
theory Log_Handler
  imports Log_File
begin

text \<open>
  The log handler of src/src/observer/storage/clog: the buffer of entries that wait to be written
  (log_buffer.cpp), the thread that writes them, and the replay of the files (disk_log_handler.cpp).  The
  threads that append entries and the thread that writes them are interleaved at the granularity of one
  entry.
\<close>

section \<open>The buffer\<close>

record log_buffer =
  lb_entries :: "log_entry list"
  lb_bytes :: int
  lb_current_lsn :: LSN
  lb_flushed_lsn :: LSN
  lb_max_bytes :: int

definition new_buffer :: log_buffer where
  "new_buffer = \<lparr>lb_entries = [], lb_bytes = 0, lb_current_lsn = 0, lb_flushed_lsn = 0, lb_max_bytes = 4 * 1024 * 1024\<rparr>"

definition buffer_init :: "LSN \<Rightarrow> int \<Rightarrow> log_buffer \<Rightarrow> log_buffer" where
  "buffer_init lsn max_bytes b =
     (let b1 = b\<lparr>lb_current_lsn := lsn, lb_flushed_lsn := lsn\<rparr> in
      if max_bytes > 0 then b1\<lparr>lb_max_bytes := max_bytes\<rparr> else b1)"

text \<open>What is left of an entry that has been moved away.\<close>

definition moved_entry :: "log_entry \<Rightarrow> log_entry" where
  "moved_entry e = \<lparr>le_header = (le_header e)\<lparr>lh_lsn := 0, lh_size := 0\<rparr>, le_data = []\<rparr>"

text \<open>The buffer makes its callers wait while it is full.\<close>

definition buffer_has_room :: "log_buffer \<Rightarrow> bool" where
  "buffer_has_room b \<longleftrightarrow> lb_bytes b < lb_max_bytes b"

text \<open>The size of the entry is taken after it has been moved into the queue.\<close>

definition buffer_append :: "LSN \<Rightarrow> log_module \<Rightarrow> byte list \<Rightarrow> log_buffer \<Rightarrow> rc \<times> LSN \<times> log_buffer" where
  "buffer_append lsn m data b = (case log_entry_init lsn (module_index m) data of
     (r, None) \<Rightarrow> (r, lsn, b)
   | (r, Some entry) \<Rightarrow>
       let lsn' = lb_current_lsn b + 1;
           entry' = set_lsn lsn' entry in
       (SUCCESS, lsn', b\<lparr>lb_current_lsn := lsn', lb_entries := lb_entries b @ [entry'],
          lb_bytes := lb_bytes b + total_size (moved_entry entry')\<rparr>))"

text \<open>
  One round of \<open>LogEntryBuffer::flush\<close> for the entry at the front; when it cannot be written it goes back to
  the front.
\<close>

definition valid_front :: "log_entry \<Rightarrow> bool" where
  "valid_front e \<longleftrightarrow> le_lsn e > 0 \<and> payload_size e > 0"

definition flush_entry :: "nat option \<Rightarrow> log_entry \<Rightarrow> log_entry list \<Rightarrow> log_buffer \<times> log_writer \<times> file_system \<Rightarrow>
    (rc \<times> log_buffer \<times> log_writer \<times> file_system) option" where
  "flush_entry fault entry rest = (\<lambda>(b, w, fs).
     if \<not> valid_front entry then None
     else let b1 = b\<lparr>lb_entries := rest, lb_bytes := lb_bytes b - total_size entry\<rparr>;
         (r, w', fs') = writer_write fault entry (w, fs) in
       Some (if OB_FAIL r then (r, b1\<lparr>lb_entries := entry # rest\<rparr>, w', fs')
             else (SUCCESS, b1\<lparr>lb_flushed_lsn := le_lsn entry\<rparr>, w', fs')))"

text \<open>The whole loop, when no entry is appended meanwhile; \<open>faults\<close> gives the failing writes by LSN.\<close>

function flush :: "(LSN \<Rightarrow> nat option) \<Rightarrow> int \<Rightarrow> log_buffer \<times> log_writer \<times> file_system \<Rightarrow>
    (rc \<times> int \<times> log_buffer \<times> log_writer \<times> file_system) option" where
  "flush faults count (b, w, fs) = (case lb_entries b of
     [] \<Rightarrow> Some (SUCCESS, count, b, w, fs)
   | entry # rest \<Rightarrow> do {
       (r, b', w', fs') \<leftarrow> flush_entry (faults (le_lsn entry)) entry rest (b, w, fs);
       if OB_FAIL r then Some (r, count, b', w', fs') else flush faults (count + 1) (b', w', fs')
     })"
  by pat_completeness auto
termination
  by (relation "measure (\<lambda>(_, _, b, _). length (lb_entries b))")
    (auto simp: flush_entry_def Let_def OB_FAIL_def split: if_splits prod.splits)

section \<open>The handler\<close>

text \<open>
  The state of \<open>DiskLogHandler\<close> with the local state of its thread: the writer, the last result, and whether
  the thread is inside \<open>flush\<close>.
\<close>

record disk_log =
  dl_files :: log_files
  dl_buffer :: log_buffer
  dl_running :: bool
  dl_thread :: bool
  dl_writer :: log_writer
  dl_rc :: rc
  dl_flushing :: bool
  dl_fs :: file_system

definition handler_init :: "(string \<times> bool) list option \<Rightarrow> bool \<Rightarrow> string \<Rightarrow> file_system \<Rightarrow> rc \<times> disk_log" where
  "handler_init listing can_create path fs =
     (case log_files_init listing can_create path 1000 of (r, files) \<Rightarrow>
       (r, \<lparr>dl_files = files, dl_buffer = new_buffer, dl_running = False, dl_thread = False, dl_writer = new_writer,
            dl_rc = SUCCESS, dl_flushing = False, dl_fs = fs\<rparr>))"

definition handler_start :: "disk_log \<Rightarrow> rc \<times> disk_log" where
  "handler_start s = (if dl_thread s then (INTERNAL, s)
     else (SUCCESS, s\<lparr>dl_running := True, dl_thread := True, dl_writer := new_writer, dl_rc := SUCCESS, dl_flushing := False\<rparr>))"

definition handler_stop :: "disk_log \<Rightarrow> rc \<times> disk_log" where
  "handler_stop s = (if \<not> dl_thread s then (INTERNAL, s) else (SUCCESS, s\<lparr>dl_running := False\<rparr>))"

text \<open>The condition of the loop of \<open>thread_func\<close>; the thread ends when it is false.\<close>

definition thread_runs :: "disk_log \<Rightarrow> bool" where
  "thread_runs s \<longleftrightarrow> dl_running s \<or> lb_entries (dl_buffer s) \<noteq> []"

text \<open>\<open>None\<close> is a call that has to wait for the thread to end.\<close>

definition await_termination :: "disk_log \<Rightarrow> (rc \<times> disk_log) option" where
  "await_termination s =
     (if \<not> dl_thread s \<or> dl_running s then Some (INTERNAL, s)
      else if dl_flushing s \<or> thread_runs s then None
      else Some (SUCCESS, s\<lparr>dl_thread := False\<rparr>))"

text \<open>\<open>_append\<close> asserts that the handler is running.\<close>

definition handler_append :: "LSN \<Rightarrow> log_module \<Rightarrow> byte list \<Rightarrow> disk_log \<Rightarrow> (rc \<times> LSN \<times> disk_log) option" where
  "handler_append lsn m data s =
     (if \<not> dl_running s then None
      else case buffer_append lsn m data (dl_buffer s) of (r, lsn', b) \<Rightarrow> Some (r, lsn', s\<lparr>dl_buffer := b\<rparr>))"

text \<open>\<open>None\<close> is a call that has to wait.\<close>

definition wait_lsn :: "LSN \<Rightarrow> disk_log \<Rightarrow> rc option" where
  "wait_lsn lsn s =
     (if dl_running s \<and> lb_flushed_lsn (dl_buffer s) < lsn then None
      else Some (if lb_flushed_lsn (dl_buffer s) \<ge> lsn then SUCCESS else INTERNAL))"

text \<open>
  One step of \<open>thread_func\<close>: the head of the loop opens a file when there is none or the last one is full,
  and enters \<open>flush\<close>; inside \<open>flush\<close> each step writes one entry.
\<close>

definition thread_open :: "bool \<Rightarrow> disk_log \<Rightarrow> disk_log" where
  "thread_open can_open s =
     (if w_valid (dl_writer s) \<and> dl_rc s \<noteq> LOG_FILE_FULL then s\<lparr>dl_flushing := True\<rparr>
      else let (r, files, w, fs) =
          (if dl_rc s = LOG_FILE_FULL then next_file can_open (dl_files s, dl_writer s, dl_fs s)
           else last_file can_open (dl_files s, dl_writer s, dl_fs s)) in
        s\<lparr>dl_files := files, dl_writer := w, dl_fs := fs, dl_rc := r, dl_flushing := OB_SUCC r\<rparr>)"

definition thread_flush :: "nat option \<Rightarrow> disk_log \<Rightarrow> disk_log option" where
  "thread_flush fault s = (case lb_entries (dl_buffer s) of
     [] \<Rightarrow> Some (s\<lparr>dl_flushing := False, dl_rc := SUCCESS\<rparr>)
   | entry # rest \<Rightarrow> do {
       (r, b, w, fs) \<leftarrow> flush_entry fault entry rest (dl_buffer s, dl_writer s, dl_fs s);
       let s1 = s\<lparr>dl_buffer := b, dl_writer := w, dl_fs := fs\<rparr>;
       Some (if OB_FAIL r then s1\<lparr>dl_flushing := False, dl_rc := r\<rparr> else s1)
     })"

definition thread_step :: "bool \<Rightarrow> nat option \<Rightarrow> disk_log \<Rightarrow> disk_log option" where
  "thread_step can_open fault s =
     (if dl_flushing s then thread_flush fault s
      else if thread_runs s then Some (thread_open can_open s)
      else Some s)"

section \<open>Replay\<close>

fun iterate_files ::
    "(log_entry \<Rightarrow> 's \<Rightarrow> (rc \<times> 's) option) \<Rightarrow> LSN \<Rightarrow> file_system \<Rightarrow> string list \<Rightarrow> 's \<Rightarrow> (rc \<times> 's) option" where
  "iterate_files consumer start_lsn fs [] s = Some (SUCCESS, s)"
| "iterate_files consumer start_lsn fs (file # files) s =
     (case reader_open fs file of (r, fd) \<Rightarrow>
       if OB_FAIL r then Some (r, s)
       else do {
         (r1, s1) \<leftarrow> reader_iterate consumer start_lsn fd s;
         if OB_FAIL r1 then Some (r1, s1)
         else (case reader_close fd of (r2, _) \<Rightarrow>
           if OB_FAIL r2 then Some (r2, s1) else iterate_files consumer start_lsn fs files s1)
       })"

definition handler_iterate :: "(log_entry \<Rightarrow> 's \<Rightarrow> (rc \<times> 's) option) \<Rightarrow> LSN \<Rightarrow> disk_log \<Rightarrow> 's \<Rightarrow> (rc \<times> 's) option" where
  "handler_iterate consumer start_lsn s x =
     iterate_files consumer start_lsn (dl_fs s) (list_files start_lsn (dl_files s)) x"

definition replay_callback :: "(log_entry \<Rightarrow> 's \<Rightarrow> (rc \<times> 's) option) \<Rightarrow> log_entry \<Rightarrow> 's \<times> LSN \<Rightarrow> (rc \<times> 's \<times> LSN) option" where
  "replay_callback replay e = (\<lambda>(x, max_lsn).
     map_option (\<lambda>(r, x'). (r, x', if le_lsn e > max_lsn then le_lsn e else max_lsn)) (replay e x))"

definition handler_replay ::
    "(log_entry \<Rightarrow> 's \<Rightarrow> (rc \<times> 's) option) \<Rightarrow> LSN \<Rightarrow> disk_log \<Rightarrow> 's \<Rightarrow> (rc \<times> 's \<times> disk_log) option" where
  "handler_replay replay start_lsn s x = do {
     (r, x', max_lsn) \<leftarrow> handler_iterate (replay_callback replay) start_lsn s (x, 0);
     Some (if OB_FAIL r then (r, x', s)
           else (SUCCESS, x', s\<lparr>dl_buffer := buffer_init max_lsn 0 (dl_buffer s)\<rparr>))
   }"

end
