(* ===== verification/Log_Handler_Correct.thy ===== *)
theory Log_Handler_Correct
  imports Log_Handler
begin

text \<open>
  Correctness of the log handler: under every interleaving of the appending threads with the writing thread
  the files hold exactly the flushed entries, in order and in the file that their number selects; the
  writing thread empties the buffer; and a restart finds every flushed entry again.
\<close>

section \<open>The entries of a log\<close>

definition entry_of :: "LSN \<Rightarrow> log_module \<Rightarrow> byte list \<Rightarrow> log_entry" where
  "entry_of lsn m data = \<lparr>le_header = \<lparr>lh_lsn = lsn, lh_size = int (length data), lh_module_id = module_index m\<rparr>, le_data = data\<rparr>"

fun numbered :: "nat \<Rightarrow> (log_module \<times> byte list) list \<Rightarrow> log_entry list" where
  "numbered n [] = []"
| "numbered n ((m, d) # xs) = entry_of (int n + 1) m d # numbered (Suc n) xs"

lemma length_numbered [simp]: "length (numbered n xs) = length xs"
  by (induction n xs rule: numbered.induct) auto

lemma numbered_snoc [simp]: "numbered n (xs @ [(m, d)]) = numbered n xs @ [entry_of (int (n + length xs) + 1) m d]"
  by (induction n xs rule: numbered.induct) auto

text \<open>A log: entries numbered from 1 without gaps, none of them empty or too long.\<close>

definition wal_ok :: "log_entry list \<Rightarrow> bool" where
  "wal_ok es \<longleftrightarrow> map le_lsn es = map (\<lambda>i. int i + 1) [0..<length es] \<and> (\<forall>e\<in>set es. log_entry_ok e \<and> payload_size e > 0)"

lemma wal_ok_lsn: "wal_ok es \<Longrightarrow> i < length es \<Longrightarrow> le_lsn (es ! i) = int i + 1"
  unfolding wal_ok_def by (metis (no_types, lifting) add_cancel_left_left length_map nth_map nth_upt diff_zero length_upt)

lemma wal_ok_sorted: "wal_ok es \<Longrightarrow> sorted_wrt (<) (map le_lsn es)"
  by (simp add: wal_ok_def sorted_wrt_iff_nth_less)

lemma wal_ok_take: "wal_ok es \<Longrightarrow> wal_ok (take n es)"
  by (auto simp: wal_ok_def take_map[symmetric] take_upt dest: in_set_takeD) (simp add: take_map min_def)

lemma wal_ok_range: "wal_ok es \<Longrightarrow> e \<in> set es \<Longrightarrow> 1 \<le> le_lsn e \<and> le_lsn e \<le> int (length es)"
  by (auto simp: in_set_conv_nth wal_ok_lsn)

lemma wal_ok_snoc:
  "wal_ok es \<Longrightarrow> log_entry_ok e \<Longrightarrow> payload_size e > 0 \<Longrightarrow> le_lsn e = int (length es) + 1 \<Longrightarrow> wal_ok (es @ [e])"
  by (simp add: wal_ok_def)

section \<open>The files\<close>

definition path_of :: "log_files \<Rightarrow> nat \<Rightarrow> string" where
  "path_of lf j = file_path (lf_directory lf) (log_filename (int j * lf_max_entries lf))"

definition segment :: "int \<Rightarrow> nat \<Rightarrow> log_entry list \<Rightarrow> log_entry list" where
  "segment n j es = filter (\<lambda>e. int j * n \<le> le_lsn e \<and> le_lsn e < int (Suc j) * n) es"

abbreviation file_of :: "log_files \<Rightarrow> nat \<Rightarrow> log_entry list \<Rightarrow> byte list" where
  "file_of lf j es \<equiv> concat (map encode_log_entry (segment (lf_max_entries lf) j es))"

text \<open>
  The first \<open>m\<close> files hold the entries \<open>ds\<close>, each file those whose number falls into it; the last file may
  still have to be created.
\<close>

definition files_hold :: "nat \<Rightarrow> log_entry list \<Rightarrow> log_files \<Rightarrow> file_system \<Rightarrow> bool" where
  "files_hold m ds lf fs \<longleftrightarrow>
     0 < lf_max_entries lf \<and>
     lf_files lf = map (\<lambda>j. (int j * lf_max_entries lf, path_of lf j)) [0..<m] \<and>
     (\<forall>j<m. fs (path_of lf j) = Some (file_of lf j ds) \<or> Suc j = m \<and> fs (path_of lf j) = None \<and> segment (lf_max_entries lf) j ds = []) \<and>
     (\<forall>j\<ge>m. fs (path_of lf j) = None) \<and>
     (if m = 0 then ds = [] else int (length ds) < int m * lf_max_entries lf \<and> int (m - 1) * lf_max_entries lf \<le> int (length ds) + 1)"

lemma path_of_inj: "0 < lf_max_entries lf \<Longrightarrow> path_of lf i = path_of lf j \<longleftrightarrow> i = j"
  by (auto simp: path_of_def)

lemma filter_sorted_split:
  assumes "sorted_wrt (<) (map f xs)" "a \<le> (b :: int)"
  shows "filter (\<lambda>x. f x < a) xs @ filter (\<lambda>x. a \<le> f x \<and> f x < b) xs = filter (\<lambda>x. f x < b) xs"
  using assms
proof (induction xs)
  case (Cons x xs)
  show ?case
  proof (cases "f x < a")
    case False
    then have "\<forall>y\<in>set xs. \<not> f y < a" using Cons.prems(1) by auto
    then have "filter (\<lambda>x. f x < a) xs = []" by (simp add: filter_empty_conv)
    then show ?thesis using Cons False by auto
  qed (use Cons in auto)
qed simp

lemma segments_concat:
  assumes "sorted_wrt (<) (map le_lsn ds)" "0 < n" "\<forall>e\<in>set ds. 0 \<le> le_lsn e"
  shows "concat (map (\<lambda>j. segment n j ds) [0..<m]) = filter (\<lambda>e. le_lsn e < int m * n) ds"
proof (induction m)
  case 0
  have "filter (\<lambda>e. le_lsn e < 0) ds = []" using assms(3) by (auto simp: filter_empty_conv)
  then show ?case by simp
next
  case (Suc m)
  have "int m * n \<le> int (Suc m) * n" using assms(2) by simp
  from filter_sorted_split[OF assms(1) this] Suc show ?case by (simp add: segment_def)
qed

lemma replay_list_bind:
  "replay_list f (xs @ ys) s = (do { (r, s') \<leftarrow> replay_list f xs s; if OB_FAIL r then Some (r, s') else replay_list f ys s' })"
  by (induction xs arbitrary: s) (auto intro!: Option.bind_cong split: prod.splits)

text \<open>Reading all files from a number on gives the entries from that number on.\<close>

lemma iterate_files_segments:
  assumes "\<forall>e\<in>set ds. log_entry_ok e" "sorted_wrt (<) (map le_lsn ds)" "\<forall>j\<in>set js. fs (path_of lf j) = Some (file_of lf j ds)"
  shows "iterate_files callback start fs (map (path_of lf) js) s =
    replay_list callback (concat (map (\<lambda>j. filter (\<lambda>e. start \<le> le_lsn e) (segment (lf_max_entries lf) j ds)) js)) s"
  using assms(3)
proof (induction js arbitrary: s)
  case (Cons j js)
  let ?f = "filter (\<lambda>e. start \<le> le_lsn e) (segment (lf_max_entries lf) j ds)"
  have "sorted (map le_lsn (segment (lf_max_entries lf) j ds))"
    using assms(2) unfolding segment_def by (intro sorted_filter) (auto simp: strict_sorted_iff)
  then have r: "reader_iterate callback start (Some (file_of lf j ds)) s = replay_list callback ?f s"
    using assms(1) by (intro reader_iterate_file) (auto simp: segment_def)
  show ?case using Cons by (auto simp: reader_open_def reader_close_def r replay_list_bind intro!: Option.bind_cong)
qed simp

lemma handler_iterate_files:
  assumes "files_hold m ds (dl_files s) (dl_fs s)" "wal_ok ds" "\<forall>(k, p)\<in>set (lf_files (dl_files s)). dl_fs s p \<noteq> None"
  shows "handler_iterate callback start s x = replay_list callback (filter (\<lambda>e. start \<le> le_lsn e) ds) x"
proof -
  define lf where "lf = dl_files s"
  define n where "n = lf_max_entries lf"
  define js where "js = filter (\<lambda>j. start \<le> int j * n + n - 1) [0..<m]"
  have h: "0 < n" "lf_files lf = map (\<lambda>j. (int j * n, path_of lf j)) [0..<m]" "int (length ds) < max 1 (int m * n)"
    using assms(1) by (auto simp: files_hold_def lf_def n_def split: if_splits)
  have f: "\<forall>j<m. dl_fs s (path_of lf j) = Some (file_of lf j ds)"
  proof (intro allI impI)
    fix j assume j: "j < m"
    then have "(int j * n, path_of lf j) \<in> set (lf_files lf)" by (auto simp: h(2))
    then have "dl_fs s (path_of lf j) \<noteq> None" using assms(3) by (auto simp: lf_def)
    then show "dl_fs s (path_of lf j) = Some (file_of lf j ds)" using assms(1) j by (auto simp: files_hold_def lf_def)
  qed
  have ok: "\<forall>e\<in>set ds. log_entry_ok e" "sorted_wrt (<) (map le_lsn ds)" using assms(2) wal_ok_sorted by (auto simp: wal_ok_def)
  have lsn: "\<forall>e\<in>set ds. 0 \<le> le_lsn e \<and> le_lsn e < int m * n" using wal_ok_range[OF assms(2)] h(3) by fastforce
  have l: "list_files start lf = map (path_of lf) js"
    by (simp add: list_files_def h(2) js_def n_def filter_map comp_def case_prod_unfold)
  have "handler_iterate callback start s x =
      replay_list callback (concat (map (\<lambda>j. filter (\<lambda>e. start \<le> le_lsn e) (segment n j ds)) js)) x"
    using iterate_files_segments[OF ok, of js "dl_fs s" lf callback start x] f l
    by (simp add: handler_iterate_def lf_def[symmetric] n_def js_def)
  also have "concat (map (\<lambda>j. filter (\<lambda>e. start \<le> le_lsn e) (segment n j ds)) js) =
      concat (map (\<lambda>j. filter (\<lambda>e. start \<le> le_lsn e) (segment n j ds)) [0..<m])"
  proof -
    have "filter (\<lambda>e. start \<le> le_lsn e) (segment n j ds) = []" if "\<not> start \<le> int j * n + n - 1" for j
      using that by (auto simp: segment_def filter_empty_conv algebra_simps)
    then show ?thesis unfolding js_def by (induction m) auto
  qed
  also have "\<dots> = filter (\<lambda>e. start \<le> le_lsn e) (concat (map (\<lambda>j. segment n j ds) [0..<m]))"
    by (simp add: filter_concat comp_def)
  also have "\<dots> = filter (\<lambda>e. start \<le> le_lsn e) ds"
    using segments_concat[OF ok(2) h(1)] lsn by (simp add: filter_id_conv)
  finally show ?thesis .
qed

section \<open>Writing and opening keep the files\<close>

lemma segment_snoc: "segment n j (ds @ [e]) = segment n j ds @ (if int j * n \<le> le_lsn e \<and> le_lsn e < int (Suc j) * n then [e] else [])"
  by (simp add: segment_def)

lemma files_hold_last:
  assumes "files_hold m ds lf fs" "0 < m"
  shows "fs (path_of lf (m - 1)) = Some (file_of lf (m - 1) ds) \<or>
    fs (path_of lf (m - 1)) = None \<and> segment (lf_max_entries lf) (m - 1) ds = []"
proof -
  have "m - 1 < m" using assms(2) by simp
  then show ?thesis using assms(1) unfolding files_hold_def by blast
qed

lemma files_hold_write:
  assumes "files_hold m ds lf fs" "0 < m" "le_lsn e = int (length ds) + 1" "int (length ds) + 1 < int m * lf_max_entries lf"
    and "fs (path_of lf (m - 1)) \<noteq> None"
  shows "files_hold m (ds @ [e]) lf (append_file (path_of lf (m - 1)) (encode_log_entry e) fs)"
proof -
  define n where "n = lf_max_entries lf"
  have h: "0 < n" "int (m - 1) * n \<le> int (length ds) + 1" "int (length ds) < int m * n"
    using assms(1,2) by (simp_all add: files_hold_def n_def)
  have sm: "Suc (m - 1) = m" using assms(2) by simp
  have seg: "segment n j (ds @ [e]) = segment n j ds @ (if j = m - 1 then [e] else [])" if "j < m" for j
  proof (cases "j = m - 1")
    case True
    then show ?thesis using h assms(3,4) sm by (simp add: segment_snoc n_def)
  next
    case False
    then have "int (Suc j) \<le> int (m - 1)" using that by simp
    then have "int (Suc j) * n \<le> int (m - 1) * n" using h(1) by (intro mult_right_mono) auto
    then have "\<not> le_lsn e < int (Suc j) * n" using h(2) assms(3) by linarith
    then show ?thesis using False by (simp add: segment_snoc)
  qed
  let ?fs = "append_file (path_of lf (m - 1)) (encode_log_entry e) fs"
  have "fs (path_of lf (m - 1)) = Some (file_of lf (m - 1) ds)" using files_hold_last[OF assms(1,2)] assms(5) by auto
  then have last: "?fs (path_of lf (m - 1)) = Some (file_of lf (m - 1) (ds @ [e]))"
    using seg[of "m - 1"] assms(2) by (simp add: append_file_def n_def)
  have other: "?fs (path_of lf j) = fs (path_of lf j)" if "j \<noteq> m - 1" for j
    using that path_of_inj[of lf j "m - 1"] h(1) by (simp add: append_file_def n_def)
  have "?fs (path_of lf j) = Some (file_of lf j (ds @ [e]))" if "j < m" for j
  proof (cases "j = m - 1")
    case False
    then have "fs (path_of lf j) = Some (file_of lf j ds)" using assms(1) that by (auto simp: files_hold_def)
    then show ?thesis using other[OF False] seg[OF that] False by (simp add: n_def)
  qed (use last in simp)
  moreover have "\<forall>j\<ge>m. ?fs (path_of lf j) = None" using assms(1,2) other by (auto simp: files_hold_def)
  ultimately show ?thesis using assms(1,2,4) h by (simp add: files_hold_def n_def)
qed

lemma files_hold_open:
  assumes "files_hold m ds lf fs" "0 < m"
  shows "files_hold m ds lf (fs(path_of lf (m - 1) \<mapsto> (case fs (path_of lf (m - 1)) of None \<Rightarrow> [] | Some bs \<Rightarrow> bs)))"
proof -
  have n: "0 < lf_max_entries lf" using assms(1) by (simp add: files_hold_def)
  note files_hold_last[OF assms]
  then have "(case fs (path_of lf (m - 1)) of None \<Rightarrow> [] | Some bs \<Rightarrow> bs) = file_of lf (m - 1) ds" by auto
  moreover have "path_of lf j = path_of lf (m - 1) \<longleftrightarrow> j = m - 1" for j by (rule path_of_inj[OF n])
  ultimately show ?thesis using assms unfolding files_hold_def by auto
qed

lemma path_of_files [simp]: "path_of (lf\<lparr>lf_files := xs\<rparr>) j = path_of lf j"
  by (simp add: path_of_def)

lemma files_hold_next:
  assumes "files_hold m ds lf fs" "wal_ok ds" "m = 0 \<or> int m * lf_max_entries lf \<le> int (length ds) + 1 \<and> fs (path_of lf (m - 1)) \<noteq> None"
  shows "files_hold (Suc m) ds (lf\<lparr>lf_files := map_emplace (int m * lf_max_entries lf) (path_of lf m) (lf_files lf)\<rparr>) fs"
proof -
  define n where "n = lf_max_entries lf"
  have h: "0 < n" "lf_files lf = map (\<lambda>j. (int j * n, path_of lf j)) [0..<m]" using assms(1) by (simp_all add: files_hold_def n_def)
  have "map_emplace (int m * n) (path_of lf m) (lf_files lf) = lf_files lf @ [(int m * n, path_of lf m)]"
    using h by (intro map_emplace_last) auto
  moreover have "fs (path_of lf j) = Some (file_of lf j ds)" if "j < m" for j
    using assms that by (cases "j = m - 1") (auto simp: files_hold_def)
  moreover have len: "int (length ds) < int (Suc m) * n"
    using assms(1) h(1) by (cases "m = 0") (simp_all add: files_hold_def n_def algebra_simps)
  moreover have "fs (path_of lf m) = None" using assms(1) by (simp add: files_hold_def)
  moreover have "segment n m ds = []"
  proof -
    have "m = 0 \<and> ds = [] \<or> int (length ds) < int m * n" using assms(1) by (auto simp: files_hold_def n_def split: if_splits)
    then show ?thesis using wal_ok_range[OF assms(2)] by (fastforce simp: segment_def filter_empty_conv)
  qed
  ultimately show ?thesis using assms h by (auto simp: files_hold_def n_def less_Suc_eq)
qed

section \<open>The invariant of a run\<close>

text \<open>
  The log consists of the entries \<open>es\<close>, of which the first \<open>n\<close> are in \<open>m\<close> files and the others in the buffer.
\<close>

definition log_state :: "nat \<Rightarrow> nat \<Rightarrow> log_entry list \<Rightarrow> disk_log \<Rightarrow> bool" where
  "log_state n m es s \<longleftrightarrow> wal_ok es \<and> n \<le> length es \<and>
     lb_current_lsn (dl_buffer s) = int (length es) \<and> lb_flushed_lsn (dl_buffer s) = int n \<and> lb_entries (dl_buffer s) = drop n es \<and>
     files_hold m (take n es) (dl_files s) (dl_fs s)"

text \<open>The writer works on the last file, and a full file has no room for the next entry.\<close>

definition writer_ok :: "nat \<Rightarrow> nat \<Rightarrow> disk_log \<Rightarrow> bool" where
  "writer_ok n m s \<longleftrightarrow> (let w = dl_writer s; lf = dl_files s in
     w_last_lsn w \<le> int n \<and>
     (w_valid w \<longrightarrow> 0 < m \<and> w_filename w = path_of lf (m - 1) \<and> w_end_lsn w = int m * lf_max_entries lf - 1 \<and>
        dl_fs s (path_of lf (m - 1)) \<noteq> None) \<and>
     (dl_flushing s \<longrightarrow> w_valid w) \<and>
     (dl_rc s = LOG_FILE_FULL \<and> \<not> dl_flushing s \<longrightarrow> w_valid w \<and> int m * lf_max_entries lf \<le> int n + 1))"

definition log_holds :: "log_entry list \<Rightarrow> disk_log \<Rightarrow> bool" where
  "log_holds es s \<longleftrightarrow> (\<exists>n m. log_state n m es s \<and> writer_ok n m s)"

text \<open>The numbers and the bounds of the files stay in the range of an \<open>int\<close>.\<close>

definition lsn_room :: "nat \<Rightarrow> disk_log \<Rightarrow> bool" where
  "lsn_room k s \<longleftrightarrow> int k + 2 * lf_max_entries (dl_files s) < 2 ^ 31"

definition payload_ok :: "byte list \<Rightarrow> bool" where
  "payload_ok d \<longleftrightarrow> d \<noteq> [] \<and> int32 (int (length d))"

lemma entry_of_simps [simp]:
  "le_lsn (entry_of lsn m d) = lsn" "payload_size (entry_of lsn m d) = int (length d)" "le_data (entry_of lsn m d) = d"
  by (simp_all add: entry_of_def)

lemma entry_of_ok: "int64 lsn \<Longrightarrow> int (length d) \<le> max_payload_size \<Longrightarrow> log_entry_ok (entry_of lsn m d)"
  by (cases m) (simp_all add: log_entry_ok_def entry_of_def module_index_def int32_def)

lemma buffer_append_result:
  assumes "payload_ok d"
  shows "buffer_append lsn m d b =
    (if int (length d) > max_payload_size then (INVALID_ARGUMENT, lsn, b)
     else (SUCCESS, lb_current_lsn b + 1, b\<lparr>lb_current_lsn := lb_current_lsn b + 1,
        lb_entries := lb_entries b @ [entry_of (lb_current_lsn b + 1) m d], lb_bytes := lb_bytes b + int LOG_HEADER_SIZE\<rparr>))"
  using assms by (simp add: buffer_append_def log_entry_init_def payload_ok_def set_lsn_def entry_of_def moved_entry_def total_size_def Let_def)

lemma append_holds:
  assumes "log_holds es s" "payload_ok d" "lsn_room (length es) s" "handler_append lsn md d s = Some (r, lsn', s')"
  shows "if int (length d) > max_payload_size then r = INVALID_ARGUMENT \<and> s' = s
    else r = SUCCESS \<and> lsn' = int (length es) + 1 \<and> log_holds (es @ [entry_of lsn' md d]) s'"
proof -
  obtain n m where nm: "log_state n m es s" "writer_ok n m s" using assms(1) by (auto simp: log_holds_def)
  have "int64 (int (length es) + 1)" using assms(3) nm(1) by (simp add: lsn_room_def int64_def log_state_def files_hold_def)
  then have ok: "wal_ok (es @ [entry_of (int (length es) + 1) md d])" if "int (length d) \<le> max_payload_size"
    using that nm(1) assms(2) by (intro wal_ok_snoc entry_of_ok) (auto simp: log_state_def payload_ok_def)
  show ?thesis
  proof (cases "int (length d) > max_payload_size")
    case True
    then show ?thesis using assms(4) by (auto simp: handler_append_def buffer_append_result[OF assms(2)] split: if_splits)
  next
    case False
    then have r: "r = SUCCESS" "lsn' = int (length es) + 1" "dl_files s' = dl_files s" "dl_fs s' = dl_fs s" "dl_writer s' = dl_writer s"
      "dl_rc s' = dl_rc s" "dl_flushing s' = dl_flushing s" "lb_current_lsn (dl_buffer s') = int (length es) + 1"
      "lb_flushed_lsn (dl_buffer s') = int n" "lb_entries (dl_buffer s') = drop n es @ [entry_of (int (length es) + 1) md d]"
      using assms(4) nm(1) by (auto simp: handler_append_def buffer_append_result[OF assms(2)] log_state_def split: if_splits)
    have "log_state n m (es @ [entry_of (int (length es) + 1) md d]) s'"
      using nm(1) r ok False by (simp add: log_state_def)
    moreover have "writer_ok n m s'" using nm(2) r by (simp add: writer_ok_def)
    ultimately show ?thesis using False r by (auto simp: log_holds_def)
  qed
qed

lemma flush_holds:
  assumes "log_holds es s" "dl_flushing s" "lsn_room (length es) s"
  shows "\<exists>s'. thread_flush None s = Some s' \<and> log_holds es s' \<and> dl_running s' = dl_running s \<and> dl_thread s' = dl_thread s \<and>
    dl_files s' = dl_files s \<and>
    (if lb_entries (dl_buffer s) = [] then \<not> dl_flushing s'
     else if lb_flushed_lsn (dl_buffer s) + 1 \<le> w_end_lsn (dl_writer s)
     then lb_entries (dl_buffer s') = tl (lb_entries (dl_buffer s)) \<and> dl_flushing s'
     else lb_entries (dl_buffer s') = lb_entries (dl_buffer s) \<and> \<not> dl_flushing s' \<and> dl_rc s' = LOG_FILE_FULL)"
proof -
  obtain n m where nm: "log_state n m es s" "writer_ok n m s" using assms(1) by (auto simp: log_holds_def)
  show ?thesis
  proof (cases "n < length es")
    case False
    then show ?thesis using nm assms(2) by (auto simp: thread_flush_def log_state_def log_holds_def writer_ok_def Let_def)
  next
    case True
    define e where "e = es ! n"
    have e: "drop n es = e # drop (Suc n) es" "take (Suc n) es = take n es @ [e]"
      using True by (simp_all add: e_def Cons_nth_drop_Suc take_Suc_conv_app_nth)
    have lsn: "le_lsn e = int n + 1" and v: "valid_front e"
      using wal_ok_lsn[OF _ True] nm(1) True by (auto simp: e_def log_state_def valid_front_def wal_ok_def)
    have w: "w_valid (dl_writer s)" "0 < m" "w_filename (dl_writer s) = path_of (dl_files s) (m - 1)"
      "w_end_lsn (dl_writer s) = int m * lf_max_entries (dl_files s) - 1" "dl_fs s (path_of (dl_files s) (m - 1)) \<noteq> None"
      "w_last_lsn (dl_writer s) \<le> int n"
      using nm(2) assms(2) by (auto simp: writer_ok_def Let_def)
    have i32: "int32 (int n + 1)" using True assms(3) nm(1) by (simp add: int32_def lsn_room_def log_state_def files_hold_def)
    show ?thesis
    proof (cases "int n + 1 < int m * lf_max_entries (dl_files s)")
      case room: True
      let ?s = "s\<lparr>dl_buffer := (dl_buffer s)\<lparr>lb_entries := drop (Suc n) es, lb_bytes := lb_bytes (dl_buffer s) - total_size e,
          lb_flushed_lsn := int n + 1\<rparr>, dl_writer := (dl_writer s)\<lparr>w_last_lsn := int n + 1\<rparr>,
          dl_fs := append_file (path_of (dl_files s) (m - 1)) (encode_log_entry e) (dl_fs s)\<rparr>"
      have "thread_flush None s = Some ?s"
        using nm(1) e(1) lsn v w room i32 by (simp add: thread_flush_def log_state_def flush_entry_def writer_write_def Let_def)
      moreover have "log_state (Suc n) m es ?s"
        using nm(1) True files_hold_write[of m "take n es" "dl_files s" "dl_fs s" e] w lsn room by (simp add: log_state_def e(2))
      moreover have "writer_ok (Suc n) m ?s" using nm(2) w assms(2) by (auto simp: writer_ok_def Let_def append_file_def)
      moreover have "lb_entries (dl_buffer s) = e # drop (Suc n) es" "lb_flushed_lsn (dl_buffer s) = int n"
        using nm(1) e(1) by (simp_all add: log_state_def)
      ultimately show ?thesis using assms(2) w(4) room by (auto simp: log_holds_def)
    next
      case full: False
      let ?s = "s\<lparr>dl_buffer := (dl_buffer s)\<lparr>lb_bytes := lb_bytes (dl_buffer s) - total_size e\<rparr>, dl_flushing := False, dl_rc := LOG_FILE_FULL\<rparr>"
      have b: "lb_entries (dl_buffer s) = e # drop (Suc n) es" "lb_flushed_lsn (dl_buffer s) = int n"
        using nm(1) e(1) by (simp_all add: log_state_def)
      have "thread_flush None s = Some ?s"
        using b lsn v w full by (simp add: thread_flush_def flush_entry_def writer_write_def Let_def OB_FAIL_def)
      moreover have "log_state n m es ?s" using nm(1) by (simp add: log_state_def)
      moreover have "writer_ok n m ?s" using nm(2) w full by (simp add: writer_ok_def Let_def)
      ultimately show ?thesis using b w(4) full by (auto simp: log_holds_def)
    qed
  qed
qed

lemma next_file_result:
  assumes "files_hold m ds lf fs" "int32 (int (Suc m) * lf_max_entries lf - 1)"
  shows "next_file can_open (lf, w, fs) =
    (if can_open then SUCCESS else FILE_OPEN, lf\<lparr>lf_files := map_emplace (int m * lf_max_entries lf) (path_of lf m) (lf_files lf)\<rparr>,
     w\<lparr>w_filename := path_of lf m, w_end_lsn := int (Suc m) * lf_max_entries lf - 1, w_valid := can_open\<rparr>,
     if can_open then fs(path_of lf m \<mapsto> []) else fs)"
proof -
  have h: "lf_files lf = map (\<lambda>j. (int j * lf_max_entries lf, path_of lf j)) [0..<m]" "fs (path_of lf m) = None"
    using assms(1) by (auto simp: files_hold_def)
  have k: "(if lf_files lf = [] then 0 else fst (last (lf_files lf)) + lf_max_entries lf) = int m * lf_max_entries lf"
    by (cases m) (simp_all add: h(1) algebra_simps)
  have c: "snd (writer_close w) = w\<lparr>w_valid := False\<rparr>" by (simp add: writer_close_def)
  have e: "int m * lf_max_entries lf + lf_max_entries lf - 1 = int (Suc m) * lf_max_entries lf - 1" by (simp add: algebra_simps)
  show ?thesis
    unfolding next_file_def by (simp only: prod.case k c e Let_def) (use h(2) assms(2) in \<open>simp add: writer_open_def path_of_def Let_def\<close>)
qed

lemma last_file_result:
  assumes "files_hold m ds lf fs" "0 < m" "int32 (int m * lf_max_entries lf - 1)"
  shows "last_file can_open (lf, w, fs) =
    (if can_open then SUCCESS else FILE_OPEN, lf,
     w\<lparr>w_filename := path_of lf (m - 1), w_end_lsn := int m * lf_max_entries lf - 1, w_valid := can_open\<rparr>,
     if can_open then fs(path_of lf (m - 1) \<mapsto> (case fs (path_of lf (m - 1)) of None \<Rightarrow> [] | Some bs \<Rightarrow> bs)) else fs)"
proof -
  have h: "lf_files lf = map (\<lambda>j. (int j * lf_max_entries lf, path_of lf j)) [0..<m]" using assms(1) by (auto simp: files_hold_def)
  have l: "last (lf_files lf) = (int (m - 1) * lf_max_entries lf, path_of lf (m - 1))" "lf_files lf \<noteq> []"
    using assms(2) by (cases m, simp_all add: h)
  have c: "snd (writer_close w) = w\<lparr>w_valid := False\<rparr>" by (simp add: writer_close_def)
  have e: "int (m - 1) * lf_max_entries lf + lf_max_entries lf - 1 = int m * lf_max_entries lf - 1"
    using assms(2) by (cases m) (simp_all add: algebra_simps)
  show ?thesis
    unfolding last_file_def by (simp only: prod.case l c e Let_def if_False) (use assms(3) in \<open>simp add: writer_open_def Let_def\<close>)
qed

lemma open_holds:
  assumes "log_holds es s" "\<not> dl_flushing s" "lsn_room (length es) s"
  shows "log_holds es (thread_open can_open s) \<and> (can_open \<longrightarrow> dl_flushing (thread_open can_open s)) \<and>
    dl_buffer (thread_open can_open s) = dl_buffer s \<and> lf_max_entries (dl_files (thread_open can_open s)) = lf_max_entries (dl_files s) \<and>
    dl_running (thread_open can_open s) = dl_running s \<and> dl_thread (thread_open can_open s) = dl_thread s \<and>
    lf_directory (dl_files (thread_open can_open s)) = lf_directory (dl_files s) \<and>
    (dl_rc s = LOG_FILE_FULL \<longrightarrow> can_open \<longrightarrow> lb_flushed_lsn (dl_buffer s) + 1 \<le> w_end_lsn (dl_writer (thread_open can_open s)))"
proof -
  obtain n m where nm: "log_state n m es s" "writer_ok n m s" using assms(1) by (auto simp: log_holds_def)
  let ?lf = "dl_files s" and ?n = "lf_max_entries (dl_files s)"
  have fh: "files_hold m (take n es) ?lf (dl_fs s)" and ok: "wal_ok (take n es)" and len: "length (take n es) = n"
    and fl: "lb_flushed_lsn (dl_buffer s) = int n" using nm(1) wal_ok_take by (auto simp: log_state_def)
  have n: "0 < ?n" using fh by (simp add: files_hold_def)
  have mn: "m = 0 \<or> int (m - 1) * ?n \<le> int n + 1 \<and> int n < int m * ?n" using fh len by (auto simp: files_hold_def split: if_splits)
  have big: "int n + 1 + 2 * ?n \<le> 2 ^ 31" using assms(3) nm(1) by (simp add: lsn_room_def log_state_def)
  consider (ready) "w_valid (dl_writer s)" "dl_rc s \<noteq> LOG_FILE_FULL"
    | (full) "dl_rc s = LOG_FILE_FULL \<or> m = 0 \<and> \<not> w_valid (dl_writer s)"
    | (reopen) "dl_rc s \<noteq> LOG_FILE_FULL" "0 < m" "\<not> w_valid (dl_writer s)" by blast
  then show ?thesis
  proof cases
    case ready
    then show ?thesis using nm by (auto simp: thread_open_def log_holds_def log_state_def writer_ok_def Let_def)
  next
    case full
    define s' where "s' = thread_open can_open s"
    have c: "m = 0 \<or> int m * ?n \<le> int (length (take n es)) + 1 \<and> dl_fs s (path_of ?lf (m - 1)) \<noteq> None"
      using full nm(2) assms(2) len by (auto simp: writer_ok_def Let_def)
    have "0 \<le> int m * ?n" using n by simp
    moreover have "int m * ?n \<le> int n + 1" using c len by auto
    moreover have "int (Suc m) * ?n = int m * ?n + ?n" by (simp add: algebra_simps)
    ultimately have i32: "int32 (int (Suc m) * ?n - 1)" using big n unfolding int32_def by linarith
    note nf = next_file_result[OF fh i32, of can_open "dl_writer s"]
    have "last_file can_open (?lf, dl_writer s, dl_fs s) = next_file can_open (?lf, dl_writer s, dl_fs s)" if "m = 0"
      using that fh by (simp add: last_file_def files_hold_def)
    then have to: "s' = s\<lparr>dl_files := ?lf\<lparr>lf_files := map_emplace (int m * ?n) (path_of ?lf m) (lf_files ?lf)\<rparr>,
        dl_writer := (dl_writer s)\<lparr>w_filename := path_of ?lf m, w_end_lsn := int (Suc m) * ?n - 1, w_valid := can_open\<rparr>,
        dl_fs := if can_open then (dl_fs s)(path_of ?lf m \<mapsto> []) else dl_fs s,
        dl_rc := if can_open then SUCCESS else FILE_OPEN, dl_flushing := can_open\<rparr>"
      using full nf by (auto simp: s'_def thread_open_def OB_SUCC_def)
    have fh': "files_hold (Suc m) (take n es) (dl_files s') (dl_fs s)"
      using files_hold_next[OF fh ok c] by (simp add: to)
    have none: "dl_fs s (path_of ?lf m) = None" using fh by (simp add: files_hold_def)
    have "files_hold (Suc m) (take n es) (dl_files s') (dl_fs s')"
      using fh' files_hold_open[OF fh'] none by (cases can_open) (simp_all add: to)
    then have "log_state n (Suc m) es s'" using nm(1) by (simp add: log_state_def to)
    moreover have "writer_ok n (Suc m) s'" using nm(2) by (auto simp: writer_ok_def to Let_def)
    moreover have "int n + 1 < int (Suc m) * ?n \<or> dl_rc s \<noteq> LOG_FILE_FULL"
    proof (cases "dl_rc s = LOG_FILE_FULL")
      case True
      then have "0 < m" using nm(2) assms(2) by (auto simp: writer_ok_def Let_def)
      then have "int n < int m * ?n" using mn by auto
      then show ?thesis using n by (simp add: algebra_simps)
    qed simp
    ultimately have "log_holds es s'" "int n + 1 < int (Suc m) * ?n \<or> dl_rc s \<noteq> LOG_FILE_FULL" by (auto simp: log_holds_def)
    then show ?thesis using fl unfolding s'_def[symmetric] by (auto simp: to)
  next
    case reopen
    define s' where "s' = thread_open can_open s"
    have "int m * ?n \<le> int n + 1 + ?n" using mn reopen(2) by (cases m) (auto simp: algebra_simps)
    moreover have "0 \<le> int m * ?n" using n by simp
    ultimately have i32: "int32 (int m * ?n - 1)" using big n unfolding int32_def by linarith
    note lf = last_file_result[OF fh reopen(2) i32, of can_open "dl_writer s"]
    have to: "s' = s\<lparr>dl_writer := (dl_writer s)\<lparr>w_filename := path_of ?lf (m - 1), w_end_lsn := int m * ?n - 1, w_valid := can_open\<rparr>,
        dl_fs := if can_open then (dl_fs s)(path_of ?lf (m - 1) \<mapsto> (case dl_fs s (path_of ?lf (m - 1)) of None \<Rightarrow> [] | Some bs \<Rightarrow> bs)) else dl_fs s,
        dl_rc := if can_open then SUCCESS else FILE_OPEN, dl_flushing := can_open\<rparr>"
      using reopen lf by (auto simp: s'_def thread_open_def OB_SUCC_def)
    have "files_hold m (take n es) ?lf (dl_fs s')" using fh files_hold_open[OF fh reopen(2)] by (cases can_open) (simp_all add: to)
    then have "log_state n m es s'" using nm(1) by (simp add: log_state_def to)
    moreover have "writer_ok n m s'" using nm(2) reopen(2) by (auto simp: writer_ok_def to Let_def)
    ultimately have "log_holds es s'" by (auto simp: log_holds_def)
    then show ?thesis using reopen(1) unfolding s'_def[symmetric] by (auto simp: to)
  qed
qed

section \<open>Runs\<close>

text \<open>
  A run of the handler: threads append entries, the thread of the handler takes its steps, opening a file may
  fail at any time, and the handler may be stopped.  \<open>xs\<close> are the modules and payloads of the accepted
  entries; the users of the log never append an empty payload.
\<close>

inductive log_run :: "disk_log \<Rightarrow> (log_module \<times> byte list) list \<Rightarrow> disk_log \<Rightarrow> bool" for s0 where
  started: "log_run s0 [] s0"
| appended: "log_run s0 xs s \<Longrightarrow> buffer_has_room (dl_buffer s) \<Longrightarrow> payload_ok d \<Longrightarrow> handler_append lsn m d s = Some (r, lsn', s') \<Longrightarrow>
    log_run s0 (if OB_SUCC r then xs @ [(m, d)] else xs) s'"
| thread: "log_run s0 xs s \<Longrightarrow> dl_thread s \<Longrightarrow> thread_step can_open None s = Some s' \<Longrightarrow> log_run s0 xs s'"
| stopped: "log_run s0 xs s \<Longrightarrow> handler_stop s = (r, s') \<Longrightarrow> log_run s0 xs s'"

definition same_directory :: "disk_log \<Rightarrow> disk_log \<Rightarrow> bool" where
  "same_directory s s' \<longleftrightarrow> lf_max_entries (dl_files s') = lf_max_entries (dl_files s) \<and> lf_directory (dl_files s') = lf_directory (dl_files s)"

lemma same_directory_trans: "same_directory s s1 \<Longrightarrow> same_directory s1 s2 \<Longrightarrow> same_directory s s2"
  by (simp add: same_directory_def)

lemma thread_step_holds:
  assumes "log_holds es s" "lsn_room (length es) s"
  shows "\<exists>s'. thread_step can_open None s = Some s' \<and> log_holds es s' \<and> same_directory s s' \<and> dl_running s' = dl_running s \<and>
    dl_thread s' = dl_thread s"
  using flush_holds[OF assms(1) _ assms(2)] open_holds[OF assms(1) _ assms(2), of can_open] assms(1)
  by (auto simp: thread_step_def same_directory_def)

lemma append_same_directory: "handler_append lsn m d s = Some (r, lsn', s') \<Longrightarrow> same_directory s s'"
  by (auto simp: handler_append_def same_directory_def split: if_splits prod.splits)

lemma log_run_holds:
  assumes "log_run s0 xs s" "log_holds es s0" "lsn_room (length es + length xs) s0"
  shows "log_holds (es @ numbered (length es) xs) s \<and> same_directory s0 s"
  using assms
proof (induction rule: log_run.induct)
  case started
  then show ?case by (simp add: same_directory_def)
next
  case (appended xs s d lsn m r lsn' s')
  let ?es = "es @ numbered (length es) xs"
  have IH: "log_holds ?es s" "same_directory s0 s"
    using appended.IH appended.prems by (auto simp: lsn_room_def split: if_splits)
  have "lsn_room (length ?es) s" using IH(2) appended.prems(2) by (auto simp: lsn_room_def same_directory_def split: if_splits)
  from append_holds[OF IH(1) appended.hyps(3) this appended.hyps(4)]
  have "if int (length d) > max_payload_size then r = INVALID_ARGUMENT \<and> s' = s
    else r = SUCCESS \<and> log_holds (?es @ [entry_of (int (length ?es) + 1) m d]) s'" by (auto split: if_splits)
  then show ?case using IH append_same_directory[OF appended.hyps(4)] same_directory_trans
    by (auto simp: OB_SUCC_def split: if_splits)
next
  case (thread xs s can_open s')
  have "lsn_room (length es + length xs) s" using thread by (simp add: lsn_room_def same_directory_def)
  then show ?case using thread thread_step_holds[of "es @ numbered (length es) xs" s can_open] same_directory_trans by auto
next
  case (stopped xs s r s')
  then have "dl_running s' = dl_running s \<or> s' = s\<lparr>dl_running := False\<rparr>" "s' = s \<or> s' = s\<lparr>dl_running := False\<rparr>"
    by (auto simp: handler_stop_def split: if_splits)
  then show ?case using stopped by (auto simp: log_holds_def log_state_def writer_ok_def same_directory_def)
qed

section \<open>The thread empties the buffer\<close>

fun thread_steps :: "nat \<Rightarrow> disk_log \<Rightarrow> disk_log option" where
  "thread_steps 0 s = Some s"
| "thread_steps (Suc k) s = thread_step True None s \<bind> thread_steps k"

lemma thread_steps_add: "thread_steps j s = Some s1 \<Longrightarrow> thread_steps k s1 = Some s2 \<Longrightarrow> thread_steps (j + k) s = Some s2"
  by (induction j arbitrary: s) (auto simp: bind_eq_Some_iff)

text \<open>From a state inside \<open>flush\<close> the next entry is written after at most three steps.\<close>

lemma flushing_progress:
  assumes "log_holds es s" "lsn_room (length es) s" "dl_flushing s" "lb_entries (dl_buffer s) \<noteq> []"
  shows "\<exists>k s'. thread_steps k s = Some s' \<and> log_holds es s' \<and> same_directory s s' \<and> dl_flushing s' \<and>
    lb_entries (dl_buffer s') = tl (lb_entries (dl_buffer s))"
proof -
  obtain s1 where s1: "thread_flush None s = Some s1" "log_holds es s1" "dl_files s1 = dl_files s"
    "if lb_flushed_lsn (dl_buffer s) + 1 \<le> w_end_lsn (dl_writer s)
     then lb_entries (dl_buffer s1) = tl (lb_entries (dl_buffer s)) \<and> dl_flushing s1
     else lb_entries (dl_buffer s1) = lb_entries (dl_buffer s) \<and> \<not> dl_flushing s1 \<and> dl_rc s1 = LOG_FILE_FULL"
    using flush_holds[OF assms(1,3,2)] assms(4) by auto
  have t1: "thread_steps 1 s = Some s1" using s1(1) assms(3) by (simp add: thread_step_def)
  have d1: "same_directory s s1" using s1(3) by (simp add: same_directory_def)
  show ?thesis
  proof (cases "lb_flushed_lsn (dl_buffer s) + 1 \<le> w_end_lsn (dl_writer s)")
    case True
    then show ?thesis using s1 t1 d1 by metis
  next
    case False
    then have f: "lb_entries (dl_buffer s1) = lb_entries (dl_buffer s)" "\<not> dl_flushing s1" "dl_rc s1 = LOG_FILE_FULL" using s1(4) by auto
    have r1: "lsn_room (length es) s1" using assms(2) d1 by (simp add: lsn_room_def same_directory_def)
    let ?s2 = "thread_open True s1"
    have s2: "log_holds es ?s2" "dl_flushing ?s2" "dl_buffer ?s2 = dl_buffer s1" "same_directory s1 ?s2"
      "lb_flushed_lsn (dl_buffer s1) + 1 \<le> w_end_lsn (dl_writer ?s2)"
      using open_holds[OF s1(2) f(2) r1, of True] f(3) by (auto simp: same_directory_def)
    have "thread_steps 1 s1 = Some ?s2" using f assms(4) by (simp add: thread_step_def thread_runs_def)
    note t2 = thread_steps_add[OF t1 this]
    have r2: "lsn_room (length es) ?s2" using r1 s2(4) by (simp add: lsn_room_def same_directory_def)
    obtain s3 where s3: "thread_flush None ?s2 = Some s3" "log_holds es s3" "dl_files s3 = dl_files ?s2"
      "lb_entries (dl_buffer s3) = tl (lb_entries (dl_buffer s))" "dl_flushing s3"
      using flush_holds[OF s2(1,2) r2] s2(3,5) f(1) assms(4) by auto
    have "thread_steps 1 ?s2 = Some s3" using s3(1) s2(2) by (simp add: thread_step_def)
    moreover have "same_directory s s3" using s3(3) d1 s2(4) by (simp add: same_directory_def)
    ultimately show ?thesis using thread_steps_add[OF t2] s3 by blast
  qed
qed

lemma flushing_drains:
  assumes "log_holds es s" "lsn_room (length es) s" "dl_flushing s"
  shows "\<exists>k s'. thread_steps k s = Some s' \<and> log_holds es s' \<and> lb_entries (dl_buffer s') = [] \<and> \<not> dl_flushing s'"
  using assms
proof (induction "length (lb_entries (dl_buffer s))" arbitrary: s)
  case 0
  then obtain s' where "thread_flush None s = Some s'" "log_holds es s'" "\<not> dl_flushing s'"
    using flush_holds[OF 0(2,4,3)] by auto
  moreover have "lb_entries (dl_buffer s') = []" using calculation(1) 0 by (auto simp: thread_flush_def)
  ultimately show ?case using 0 by (intro exI[of _ 1] exI[of _ s']) (simp add: thread_step_def)
next
  case (Suc l)
  then have "lb_entries (dl_buffer s) \<noteq> []" by auto
  from flushing_progress[OF Suc(3,4,5) this] obtain k s1 where s1: "thread_steps k s = Some s1" "log_holds es s1" "same_directory s s1"
    "dl_flushing s1" "lb_entries (dl_buffer s1) = tl (lb_entries (dl_buffer s))" by auto
  have "lsn_room (length es) s1" using Suc(4) s1(3) by (simp add: lsn_room_def same_directory_def)
  from Suc(1)[OF _ s1(2) this s1(4)] show ?case using Suc(2) s1(1,5) thread_steps_add by (metis diff_Suc_1 length_tl)
qed

lemma log_holds_flushed: "log_holds es s \<Longrightarrow> lb_entries (dl_buffer s) = [] \<Longrightarrow> lb_flushed_lsn (dl_buffer s) = int (length es)"
  by (auto simp: log_holds_def log_state_def)

lemma thread_drains:
  assumes "log_holds es s" "lsn_room (length es) s"
  shows "\<exists>k s'. thread_steps k s = Some s' \<and> log_holds es s' \<and> lb_entries (dl_buffer s') = [] \<and> \<not> dl_flushing s'"
proof (cases "dl_flushing s \<or> \<not> thread_runs s")
  case True
  then show ?thesis using flushing_drains[OF assms] assms(1) by (cases "dl_flushing s") (force simp: thread_runs_def intro: exI[of _ 0])+
next
  case False
  let ?s = "thread_open True s"
  have s1: "log_holds es ?s" "dl_flushing ?s" "lsn_room (length es) ?s"
    using open_holds[OF assms(1) _ assms(2), of True] False assms(2) by (auto simp: lsn_room_def)
  have "thread_steps 1 s = Some ?s" using False by (simp add: thread_step_def)
  then show ?thesis using flushing_drains[OF s1(1,3,2)] thread_steps_add by metis
qed

section \<open>Restart\<close>

text \<open>
  The listing of the directory after a crash shows the log files that exist, in any order and beside files
  with other names.
\<close>

definition listing_of :: "disk_log \<Rightarrow> (string \<times> bool) list \<Rightarrow> bool" where
  "listing_of s names \<longleftrightarrow>
     named_files (lf_directory (dl_files s)) names = {(k, p). (k, p) \<in> set (lf_files (dl_files s)) \<and> dl_fs s p \<noteq> None} \<and>
     (\<forall>f g lsn. (f, True) \<in> set names \<longrightarrow> (g, True) \<in> set names \<longrightarrow> get_lsn_from_filename f = (SUCCESS, lsn) \<longrightarrow>
        get_lsn_from_filename g = (SUCCESS, lsn) \<longrightarrow> f = g)"

lemma files_hold_existing:
  assumes "files_hold m ds lf fs" "wal_ok ds"
  shows "\<exists>m'. files_hold m' ds (lf\<lparr>lf_files := filter (\<lambda>(k, p). fs p \<noteq> None) (lf_files lf)\<rparr>) fs"
proof -
  define n where "n = lf_max_entries lf"
  have h: "0 < n" "lf_files lf = map (\<lambda>j. (int j * n, path_of lf j)) [0..<m]"
    "\<forall>j<m. fs (path_of lf j) = Some (file_of lf j ds) \<or> Suc j = m \<and> fs (path_of lf j) = None \<and> segment n j ds = []"
    using assms(1) by (auto simp: files_hold_def n_def)
  show ?thesis
  proof (cases "0 < m \<and> fs (path_of lf (m - 1)) = None")
    case False
    then have "\<forall>j<m. fs (path_of lf j) \<noteq> None" using h(3) by (metis diff_Suc_1 option.distinct(1) zero_less_Suc)
    then have "filter (\<lambda>(k, p). fs p \<noteq> None) (lf_files lf) = lf_files lf" by (auto simp: h(2) filter_id_conv)
    then show ?thesis using assms(1) by auto
  next
    case True
    then obtain i where m: "m = Suc i" by (cases m) auto
    have f: "\<forall>j<i. fs (path_of lf j) = Some (file_of lf j ds)" using h(3) m by (metis Suc_inject less_SucI less_irrefl)
    have none: "fs (path_of lf i) = None" "segment n i ds = []" using True h(3) m by auto
    have l: "filter (\<lambda>(k, p). fs p \<noteq> None) (lf_files lf) = map (\<lambda>j. (int j * n, path_of lf j)) [0..<i]"
      using f none(1) by (simp add: h(2) m filter_id_conv)
    have len: "int (length ds) < int m * n" "int i * n \<le> int (length ds) + 1" using assms(1) m by (simp_all add: files_hold_def n_def)
    have "int (length ds) < int i * n \<or> ds = []"
    proof (rule ccontr)
      assume c: "\<not> (int (length ds) < int i * n \<or> ds = [])"
      then have "last ds \<in> set ds" "le_lsn (last ds) = int (length ds)"
        using wal_ok_lsn[OF assms(2), of "length ds - 1"] by (auto simp: last_conv_nth of_nat_diff Suc_leI)
      then have "last ds \<in> set (segment n i ds)" using c len(1) m by (simp add: segment_def)
      then show False using none(2) by simp
    qed
    moreover have "0 < int i * n" if "0 < i" using that h(1) by simp
    moreover have "int (i - 1) * n \<le> int (length ds) + 1" using len(2) h(1) by (cases i) (simp_all add: algebra_simps)
    ultimately have "if i = 0 then ds = [] else int (length ds) < int i * n \<and> int (i - 1) * n \<le> int (length ds) + 1"
      using len h(1) by auto
    moreover have "\<forall>j\<ge>i. fs (path_of lf j) = None"
    proof (intro allI impI)
      fix j assume "i \<le> j"
      then show "fs (path_of lf j) = None" using assms(1) none(1) m by (cases "j = i") (auto simp: files_hold_def)
    qed
    ultimately show ?thesis using f h(1) l by (intro exI[of _ i]) (auto simp: files_hold_def n_def)
  qed
qed

text \<open>The callback of \<open>replay\<close> collects the largest number.\<close>

lemma replay_callback_list:
  "replay_list f es x = None \<Longrightarrow> replay_list (replay_callback f) es (x, a) = None"
  "replay_list f es x = Some (r, x') \<Longrightarrow>
     \<exists>a'. replay_list (replay_callback f) es (x, a) = Some (r, x', a') \<and> (r = SUCCESS \<longrightarrow> a' = foldl max a (map le_lsn es))"
proof (induction es arbitrary: x a)
  case (Cons e es)
  have m: "(if le_lsn e > a then le_lsn e else a) = max a (le_lsn e)" for a by simp
  {
    case 1
    then show ?case using Cons.IH(1) by (cases "f e x") (auto simp: replay_callback_def split: if_splits)
  next
    case 2
    then show ?case using Cons.IH(2) by (cases "f e x") (auto simp: replay_callback_def m OB_FAIL_def split: if_splits)
  }
qed auto

lemma foldl_max_stays: "\<forall>x\<in>set xs. x \<le> (b :: int) \<Longrightarrow> foldl max b xs = b"
  by (induction xs) (auto simp: max_def)

lemma foldl_max_eq: "(b :: int) \<in> set xs \<Longrightarrow> \<forall>x\<in>set xs. x \<le> b \<Longrightarrow> a \<le> b \<Longrightarrow> foldl max a xs = b"
proof (induction xs arbitrary: a)
  case (Cons x xs)
  show ?case
  proof (cases "x = b")
    case True
    then have "max a x = b" using Cons.prems by simp
    then show ?thesis using Cons.prems foldl_max_stays[of xs b] by simp
  next
    case False
    then show ?thesis using Cons by simp
  qed
qed simp

lemma replayed_max:
  assumes "wal_ok ds" "start \<le> int (length ds) \<or> ds = []"
  shows "foldl max 0 (map le_lsn (filter (\<lambda>e. start \<le> le_lsn e) ds)) = int (length ds)"
proof (cases "ds = []")
  case False
  then have "last ds \<in> set ds" "le_lsn (last ds) = int (length ds)"
    using wal_ok_lsn[OF assms(1), of "length ds - 1"] by (auto simp: last_conv_nth of_nat_diff Suc_leI)
  then have "int (length ds) \<in> le_lsn ` set (filter (\<lambda>e. start \<le> le_lsn e) ds)" using assms(2) False by (intro image_eqI[of _ _ "last ds"]) auto
  then show ?thesis using wal_ok_range[OF assms(1)] by (intro foldl_max_eq) auto
qed simp

text \<open>What a new process does with the directory: \<open>init\<close>, \<open>replay\<close>, \<open>start\<close>.\<close>

definition restart :: "(log_entry \<Rightarrow> 's \<Rightarrow> (rc \<times> 's) option) \<Rightarrow> (string \<times> bool) list \<Rightarrow> LSN \<Rightarrow> string \<Rightarrow> file_system \<Rightarrow> 's \<Rightarrow>
    (rc \<times> 's \<times> disk_log) option" where
  "restart replay names start_lsn path fs x = (case handler_init (Some names) False path fs of (r, s) \<Rightarrow>
     if OB_FAIL r then Some (r, x, s)
     else do {
       (r1, x1, s1) \<leftarrow> handler_replay replay start_lsn s x;
       if OB_FAIL r1 then Some (r1, x1, s1)
       else (case handler_start s1 of (r2, s2) \<Rightarrow> Some (r2, x1, s2))
     })"

lemma init_files:
  assumes "log_state n m es s" "lf_max_entries (dl_files s) = 1000" "listing_of s names"
  obtains m' s1 where "handler_init (Some names) False (lf_directory (dl_files s)) (dl_fs s) = (SUCCESS, s1)"
    "files_hold m' (take n es) (dl_files s1) (dl_fs s1)" "\<forall>(k, p)\<in>set (lf_files (dl_files s1)). dl_fs s1 p \<noteq> None"
    "dl_buffer s1 = new_buffer" "dl_thread s1 = False" "dl_files s1 = (dl_files s)\<lparr>lf_files := lf_files (dl_files s1)\<rparr>"
proof -
  let ?lf = "dl_files s" and ?d = "lf_directory (dl_files s)"
  define found where "found = fold (collect_file ?d) names []"
  define old where "old = filter (\<lambda>(k, p). dl_fs s p \<noteq> None) (lf_files ?lf)"
  have c: "sorted_wrt (<) (map fst found)" "set found = named_files ?d names"
    using collect_files[of names ?d] assms(3) by (auto simp: listing_of_def found_def)
  have fh: "files_hold m (take n es) ?lf (dl_fs s)" and ok: "wal_ok (take n es)"
    using assms(1) wal_ok_take by (auto simp: log_state_def)
  then have "sorted_wrt (<) (map fst (lf_files ?lf))" by (simp add: files_hold_def sorted_wrt_iff_nth_less)
  then have "sorted_wrt (<) (map fst old)" by (simp add: old_def sorted_wrt_map sorted_wrt_filter)
  moreover have "set found = set old" using c(2) assms(3) by (auto simp: listing_of_def old_def)
  ultimately have found: "found = old" using sorted_keys_unique[OF c(1)] by blast
  define s1 where "s1 = snd (handler_init (Some names) False ?d (dl_fs s))"
  have i: "handler_init (Some names) False ?d (dl_fs s) = (SUCCESS, s1)" "dl_files s1 = ?lf\<lparr>lf_files := old\<rparr>" "dl_fs s1 = dl_fs s"
    "dl_buffer s1 = new_buffer" "dl_thread s1 = False"
    using assms(2) by (simp_all add: s1_def handler_init_def log_files_init_def found[symmetric] found_def Let_def)
  obtain m' where "files_hold m' (take n es) (?lf\<lparr>lf_files := old\<rparr>) (dl_fs s)"
    using files_hold_existing[OF fh ok] by (auto simp: old_def)
  then show thesis using that[OF i(1)] i by (auto simp: old_def)
qed

lemma restart_result:
  assumes "log_holds es s" "lf_max_entries (dl_files s) = 1000" "listing_of s names" "lb_flushed_lsn (dl_buffer s) = int n"
    and "start \<le> int n \<or> n = 0"
  shows "\<exists>s1 s2. restart replay names start (lf_directory (dl_files s)) (dl_fs s) x =
      map_option (\<lambda>(r, x'). (r, x', if OB_FAIL r then s1 else s2)) (replay_list replay (filter (\<lambda>e. start \<le> le_lsn e) (take n es)) x) \<and>
    log_holds (take n es) s2 \<and> dl_running s2 \<and> same_directory s s2"
proof -
  let ?ds = "take n es"
  obtain m where m: "log_state n m es s" using assms(1,4) by (auto simp: log_holds_def log_state_def)
  then have ok: "wal_ok ?ds" and len: "length ?ds = n" using wal_ok_take by (auto simp: log_state_def)
  obtain m' s1 where s1: "handler_init (Some names) False (lf_directory (dl_files s)) (dl_fs s) = (SUCCESS, s1)"
    "files_hold m' ?ds (dl_files s1) (dl_fs s1)" "\<forall>(k, p)\<in>set (lf_files (dl_files s1)). dl_fs s1 p \<noteq> None"
    "dl_buffer s1 = new_buffer" "dl_thread s1 = False" "dl_files s1 = (dl_files s)\<lparr>lf_files := lf_files (dl_files s1)\<rparr>"
    using init_files[OF m assms(2,3)] by blast
  define s2 where "s2 = snd (handler_start (s1\<lparr>dl_buffer := buffer_init (int n) 0 new_buffer\<rparr>))"
  let ?fs = "filter (\<lambda>e. start \<le> le_lsn e) ?ds"
  have it: "handler_iterate (replay_callback replay) start s1 (x, 0) = replay_list (replay_callback replay) ?fs (x, 0)"
    by (rule handler_iterate_files[OF s1(2) ok s1(3)])
  have mx: "foldl max 0 (map le_lsn ?fs) = int n" using replayed_max[OF ok] assms(5) len by auto
  have st: "handler_start (s1\<lparr>dl_buffer := buffer_init (int n) 0 new_buffer\<rparr>) = (SUCCESS, s2)"
    using s1(5) by (simp add: s2_def handler_start_def)
  have "restart replay names start (lf_directory (dl_files s)) (dl_fs s) x =
      map_option (\<lambda>(r, x'). (r, x', if OB_FAIL r then s1 else s2)) (replay_list replay ?fs x)"
  proof (cases "replay_list replay ?fs x")
    case None
    then show ?thesis using replay_callback_list(1)[OF None, of 0] by (simp add: restart_def s1(1) handler_replay_def it)
  next
    case (Some y)
    obtain r x' where y: "y = (r, x')" by (cases y)
    obtain a' where "replay_list (replay_callback replay) ?fs (x, 0) = Some (r, x', a')" "r = SUCCESS \<longrightarrow> a' = int n"
      using replay_callback_list(2)[OF Some[unfolded y], of 0] mx by auto
    then show ?thesis using st s1(4) by (auto simp: restart_def s1(1) handler_replay_def it Some y OB_FAIL_def)
  qed
  moreover have "log_holds ?ds s2"
  proof -
    have f: "dl_files s2 = dl_files s1" "dl_fs s2 = dl_fs s1" "dl_buffer s2 = buffer_init (int n) 0 new_buffer" "dl_writer s2 = new_writer"
      "dl_rc s2 = SUCCESS" "\<not> dl_flushing s2" using s1(5) by (simp_all add: s2_def handler_start_def)
    have "log_state n m' ?ds s2" using s1(2) ok len by (simp add: log_state_def f buffer_init_def new_buffer_def)
    moreover have "writer_ok n m' s2" by (simp add: writer_ok_def f new_writer_def)
    ultimately show ?thesis by (auto simp: log_holds_def)
  qed
  moreover have "dl_running s2" "same_directory s s2"
    using s1(5) arg_cong[OF s1(6), of lf_max_entries] arg_cong[OF s1(6), of lf_directory]
    by (simp_all add: s2_def handler_start_def same_directory_def)
  ultimately show ?thesis by blast
qed

section \<open>A crash while an entry is written\<close>

lemma reader_iterate_torn:
  assumes "\<forall>e\<in>set es. log_entry_ok e" "sorted (map le_lsn es)" "log_entry_ok e" "k < length (encode_log_entry e)" "\<forall>d\<in>set es. le_lsn d \<le> le_lsn e"
  shows "reader_iterate callback start (Some (concat (map encode_log_entry es) @ take k (encode_log_entry e))) s =
    (do { (r, s') \<leftarrow> replay_list callback (filter (\<lambda>e. start \<le> le_lsn e) es) s;
          Some (if OB_FAIL r then r else if k < LOG_HEADER_SIZE \<or> le_lsn e < start then SUCCESS else IOERR_READ, s') })"
proof -
  let ?t = "take k (encode_log_entry e)"
  have d: "dropWhile (\<lambda>e. le_lsn e < start) es = filter (\<lambda>e. start \<le> le_lsn e) es" by (rule dropWhile_sorted[OF assms(2)])
  have t: "iterate_entries callback ?t s = Some (if k < LOG_HEADER_SIZE then SUCCESS else IOERR_READ, s)" for s
    by (rule iterate_entries_torn[OF assms(3,4)])
  show ?thesis
  proof (cases "filter (\<lambda>e. start \<le> le_lsn e) es = []")
    case True
    then show ?thesis
      using skip_to_encoded[OF assms(1), of start ?t] skip_to_torn[OF assms(3,4), of start] t by (auto simp: reader_iterate_def d OB_FAIL_def)
  next
    case False
    then have "\<not> le_lsn e < start" using assms(5) by (force simp: filter_empty_conv)
    moreover have "\<forall>e\<in>set (filter (\<lambda>e. start \<le> le_lsn e) es). log_entry_ok e" using assms(1) by simp
    ultimately show ?thesis
      using False skip_to_encoded[OF assms(1), of start ?t] iterate_entries_encoded[of "filter (\<lambda>e. start \<le> le_lsn e) es" callback ?t s]
      by (auto simp: reader_iterate_def d t intro!: Option.bind_cong)
  qed
qed

lemma iterate_files_append:
  "iterate_files f start fs (xs @ ys) s =
     (do { (r, s') \<leftarrow> iterate_files f start fs xs s; if OB_FAIL r then Some (r, s') else iterate_files f start fs ys s' })"
  by (induction xs arbitrary: s) (auto simp: Let_def intro!: Option.bind_cong split: prod.splits)

lemma segment_last_entries:
  assumes "files_hold m ds lf fs" "wal_ok ds" "0 < m"
  shows "concat (map (\<lambda>j. segment (lf_max_entries lf) j ds) [0..<m - 1]) @ segment (lf_max_entries lf) (m - 1) ds = ds"
proof -
  have n: "0 < lf_max_entries lf" "int (length ds) < int m * lf_max_entries lf" using assms(1,3) by (auto simp: files_hold_def)
  have "\<forall>e\<in>set ds. 0 \<le> le_lsn e" "\<forall>e\<in>set ds. le_lsn e < int m * lf_max_entries lf"
    using wal_ok_range[OF assms(2)] n(2) by force+
  then have "concat (map (\<lambda>j. segment (lf_max_entries lf) j ds) [0..<m]) = ds"
    using segments_concat[OF wal_ok_sorted[OF assms(2)] n(1), of m] by (simp add: filter_id_conv)
  moreover have "[0..<m] = [0..<m - 1] @ [m - 1]" using assms(3) by (cases m) auto
  ultimately show ?thesis by simp
qed

lemma iterate_torn_file:
  assumes "files_hold m ds lf fs" "wal_ok ds" "0 < m" "fs (path_of lf (m - 1)) \<noteq> None"
    and "log_entry_ok e" "le_lsn e = int (length ds) + 1" "le_lsn e < int m * lf_max_entries lf" "k < length (encode_log_entry e)"
  shows "iterate_files callback start (append_file (path_of lf (m - 1)) (take k (encode_log_entry e)) fs) (list_files start lf) x =
    (do { (r, x') \<leftarrow> replay_list callback (filter (\<lambda>e. start \<le> le_lsn e) ds) x;
          Some (if OB_FAIL r then r else if k < LOG_HEADER_SIZE \<or> le_lsn e < start then SUCCESS else IOERR_READ, x') })"
proof -
  define n where "n = lf_max_entries lf"
  define P where "P = (\<lambda>j. start \<le> int j * n + n - 1)"
  define F where "F = filter (\<lambda>e. start \<le> le_lsn e)"
  let ?fs = "append_file (path_of lf (m - 1)) (take k (encode_log_entry e)) fs"
  have h: "0 < n" "lf_files lf = map (\<lambda>j. (int j * n, path_of lf j)) [0..<m]" using assms(1) by (simp_all add: files_hold_def n_def)
  have ok: "\<forall>e\<in>set ds. log_entry_ok e" "sorted_wrt (<) (map le_lsn ds)" using assms(2) wal_ok_sorted by (auto simp: wal_ok_def)
  have up: "[0..<m] = [0..<m - 1] @ [m - 1]" using assms(3) by (cases m) auto
  have l: "list_files start lf = map (path_of lf) (filter P [0..<m - 1]) @ (if P (m - 1) then [path_of lf (m - 1)] else [])"
    by (simp add: list_files_def h(2) up n_def[symmetric] P_def filter_map comp_def case_prod_unfold)
  have front: "\<forall>j\<in>set (filter P [0..<m - 1]). ?fs (path_of lf j) = Some (file_of lf j ds)"
  proof
    fix j assume "j \<in> set (filter P [0..<m - 1])"
    then have j: "j < m" "Suc j \<noteq> m" "j \<noteq> m - 1" by auto
    then show "?fs (path_of lf j) = Some (file_of lf j ds)"
      using assms(1) path_of_inj[of lf j "m - 1"] h(1) by (auto simp: files_hold_def append_file_def n_def)
  qed
  have skip: "F (segment n j ds) = []" if "\<not> P j" for j
    using that by (auto simp: F_def P_def segment_def filter_empty_conv algebra_simps)
  have it: "iterate_files callback start ?fs (map (path_of lf) (filter P [0..<m - 1])) x =
      replay_list callback (F (concat (map (\<lambda>j. segment n j ds) [0..<m - 1]))) x"
  proof -
    have "concat (map (\<lambda>j. F (segment n j ds)) (filter P js)) = F (concat (map (\<lambda>j. segment n j ds) js))" for js
      using skip by (induction js) (auto simp: F_def)
    then show ?thesis using iterate_files_segments[OF ok front, of callback start x] by (simp add: F_def n_def)
  qed
  have split: "F ds = F (concat (map (\<lambda>j. segment n j ds) [0..<m - 1])) @ F (segment n (m - 1) ds)"
    using arg_cong[OF segment_last_entries[OF assms(1-3)], of F] by (simp add: F_def n_def)
  have last: "?fs (path_of lf (m - 1)) = Some (file_of lf (m - 1) ds @ take k (encode_log_entry e))"
    using files_hold_last[OF assms(1,3)] assms(4) by (auto simp: append_file_def)
  have seg: "\<forall>d\<in>set (segment n (m - 1) ds). log_entry_ok d \<and> le_lsn d \<le> le_lsn e" "sorted (map le_lsn (segment n (m - 1) ds))"
    using ok(1) wal_ok_range[OF assms(2)] assms(6) ok(2)
    by (auto simp: segment_def strict_sorted_iff sorted_map_same intro!: sorted_filter) force+
  have rd: "reader_iterate callback start (Some (file_of lf (m - 1) ds @ take k (encode_log_entry e))) y =
      (do { (r, x') \<leftarrow> replay_list callback (F (segment n (m - 1) ds)) y;
            Some (if OB_FAIL r then r else if k < LOG_HEADER_SIZE \<or> le_lsn e < start then SUCCESS else IOERR_READ, x') })" for y
    using reader_iterate_torn[of "segment n (m - 1) ds" e k callback start y] seg assms(5,8) by (simp add: F_def n_def)
  show ?thesis
  proof (cases "P (m - 1)")
    case True
    then show ?thesis unfolding F_def[symmetric] split replay_list_bind l
      by (auto simp del: One_nat_def simp: iterate_files_append it reader_open_def last rd reader_close_def Option.bind_assoc OB_FAIL_def
          intro!: Option.bind_cong split: if_splits)
  next
    case False
    have "int (m - 1) * n + n = int m * n" using assms(3) by (cases m) (simp_all add: algebra_simps)
    then have "le_lsn e < start" using False assms(7) by (simp add: P_def n_def)
    then show ?thesis unfolding F_def[symmetric] split skip[OF False] l using False
      by (cases "replay_list callback (F (concat (map (\<lambda>j. segment n j ds) [0..<m - 1]))) x")
        (auto simp del: One_nat_def simp: it OB_FAIL_def)
  qed
qed

section \<open>A small log\<close>

definition demo_log :: disk_log where
  "demo_log = snd (handler_start (snd (handler_init None True ''d'' Map.empty)))"

definition demo_path :: string where
  "demo_path = file_path ''d'' (log_filename 0)"

definition demo_entry :: "byte list \<Rightarrow> log_entry" where
  "demo_entry d = entry_of 1 BPLUS_TREE d"

text \<open>After appending one entry, after opening the first file, and after writing the entry.\<close>

definition demo_appended :: "byte list \<Rightarrow> disk_log" where
  "demo_appended d = demo_log\<lparr>dl_buffer := new_buffer\<lparr>lb_current_lsn := 1, lb_entries := [demo_entry d], lb_bytes := 16\<rparr>\<rparr>"

definition demo_opened :: "byte list \<Rightarrow> disk_log" where
  "demo_opened d = (demo_appended d)\<lparr>dl_files := \<lparr>lf_directory = ''d'', lf_max_entries = 1000, lf_files = [(0, demo_path)]\<rparr>,
     dl_writer := \<lparr>w_filename = demo_path, w_valid = True, w_last_lsn = 0, w_end_lsn = 999\<rparr>, dl_flushing := True,
     dl_fs := [demo_path \<mapsto> []]\<rparr>"

definition demo_written :: "byte list \<Rightarrow> disk_log" where
  "demo_written d = (demo_opened d)\<lparr>dl_buffer := new_buffer\<lparr>lb_current_lsn := 1, lb_flushed_lsn := 1, lb_bytes := - int (length d)\<rparr>,
     dl_writer := \<lparr>w_filename = demo_path, w_valid = True, w_last_lsn = 1, w_end_lsn = 999\<rparr>,
     dl_fs := [demo_path \<mapsto> encode_log_entry (demo_entry d)]\<rparr>"

definition demo_names :: "(string \<times> bool) list" where
  "demo_names = [(log_filename 0, True), (''README'', True)]"

lemma demo_log_eq:
  "demo_log = \<lparr>dl_files = \<lparr>lf_directory = ''d'', lf_max_entries = 1000, lf_files = []\<rparr>, dl_buffer = new_buffer, dl_running = True,
     dl_thread = True, dl_writer = new_writer, dl_rc = SUCCESS, dl_flushing = False, dl_fs = Map.empty\<rparr>"
  by (simp add: demo_log_def handler_init_def log_files_init_def handler_start_def)

lemma demo_log_holds: "log_holds [] demo_log"
proof -
  have "log_state 0 0 [] demo_log" by (simp add: log_state_def demo_log_eq new_buffer_def wal_ok_def files_hold_def)
  moreover have "writer_ok 0 0 demo_log" by (simp add: writer_ok_def demo_log_eq new_writer_def)
  ultimately show ?thesis by (auto simp: log_holds_def)
qed

lemma demo_append:
  "payload_ok d \<Longrightarrow> int (length d) \<le> max_payload_size \<Longrightarrow> handler_append 0 BPLUS_TREE d demo_log = Some (SUCCESS, 1, demo_appended d)"
  by (simp add: handler_append_def demo_log_eq buffer_append_result LOG_HEADER_SIZE_def demo_appended_def demo_entry_def new_buffer_def)

lemma demo_open: "thread_step True None (demo_appended d) = Some (demo_opened d)"
  by (simp add: thread_step_def thread_runs_def demo_appended_def demo_log_eq demo_opened_def thread_open_def new_writer_def
      last_file_def next_file_def writer_close_def writer_open_def demo_path_def Let_def int32_cast_def)

lemma demo_write: "payload_ok d \<Longrightarrow> thread_step True None (demo_opened d) = Some (demo_written d)"
  by (simp add: thread_step_def demo_opened_def demo_written_def demo_appended_def demo_log_eq thread_flush_def flush_entry_def payload_ok_def
      valid_front_def writer_write_def append_file_def demo_entry_def total_size_def LOG_HEADER_SIZE_def new_buffer_def Let_def int32_cast_def)

lemma demo_log_run:
  assumes "payload_ok d" "int (length d) \<le> max_payload_size"
  shows "log_run demo_log [(BPLUS_TREE, d)] (demo_appended d)" "log_run demo_log [(BPLUS_TREE, d)] (demo_opened d)"
    "log_run demo_log [(BPLUS_TREE, d)] (demo_written d)"
proof -
  show 1: "log_run demo_log [(BPLUS_TREE, d)] (demo_appended d)"
    using log_run.appended[OF log_run.started _ assms(1) demo_append[OF assms]] by (simp add: buffer_has_room_def demo_log_eq new_buffer_def)
  show 2: "log_run demo_log [(BPLUS_TREE, d)] (demo_opened d)"
    using log_run.thread[OF 1 _ demo_open] by (simp add: demo_appended_def demo_log_eq)
  show "log_run demo_log [(BPLUS_TREE, d)] (demo_written d)"
    using log_run.thread[OF 2 _ demo_write[OF assms(1)]] by (simp add: demo_opened_def demo_appended_def demo_log_eq)
qed

lemma demo_payload: "payload_ok [7, 8]" "int (length ([7, 8] :: byte list)) \<le> max_payload_size"
  by (simp_all add: payload_ok_def int32_def max_payload_size_def LOG_HEADER_SIZE_def)

lemma demo_state:
  "lf_directory (dl_files (demo_written d)) = ''d''" "wait_lsn 1 (demo_written d) = Some SUCCESS" "lf_max_entries (dl_files demo_log) = 1000"
  by (simp_all add: demo_written_def demo_opened_def wait_lsn_def demo_log_eq)

lemma demo_listing: "listing_of (demo_written d) demo_names"
proof -
  have g: "get_lsn_from_filename (log_filename 0) = (SUCCESS, 0)" by (simp add: get_lsn_log_filename int64_def)
  have r: "get_lsn_from_filename ''README'' = (INVALID_ARGUMENT, 0)" by (simp add: get_lsn_from_filename_def clog_prefix_def)
  show ?thesis using g r
    by (auto simp: listing_of_def named_files_def demo_written_def demo_opened_def demo_path_def demo_names_def)
qed

section \<open>Limits\<close>

text \<open>The count of bytes loses the payload of every entry that passes through the buffer.\<close>

lemma buffer_bytes_drift:
  assumes "buffer_append lsn m d b = (SUCCESS, lsn', b1)" "payload_ok d" "lb_entries b = []"
    and "flush_entry None (hd (lb_entries b1)) [] (b1, w, fs) = Some (SUCCESS, b2, w', fs')"
  shows "lb_bytes b2 = lb_bytes b - int (length d)"
  using assms by (auto simp: buffer_append_result flush_entry_def total_size_def Let_def OB_FAIL_def split: if_splits prod.splits)

text \<open>An empty payload is accepted and fails an assertion when it is written.\<close>

lemma empty_payload_aborts:
  assumes "buffer_append lsn m [] b = (r, lsn', b1)" "lb_entries b = []"
  shows "r = SUCCESS \<and> flush_entry fault (hd (lb_entries b1)) [] (b1, w, fs) = None"
  using assms by (auto simp: buffer_append_def log_entry_init_def int32_cast_def max_payload_size_def LOG_HEADER_SIZE_def set_lsn_def
      flush_entry_def valid_front_def Let_def)

text \<open>Behind the range of \<open>int\<close> every file is full from the start.\<close>

lemma lsn_beyond_int:
  assumes "writer_open True f end_lsn (w, fs) = (SUCCESS, w', fs')" "2 ^ 31 \<le> end_lsn" "end_lsn < 2 ^ 32" "0 < le_lsn e"
  shows "fst (writer_write fault e (w', fs')) = LOG_FILE_FULL"
proof -
  have "(end_lsn + 2 ^ 31) mod 2 ^ 32 = (end_lsn + 2 ^ 31 - 2 ^ 32) mod 2 ^ 32" by (simp only: minus_mod_self2)
  also have "\<dots> = end_lsn + 2 ^ 31 - 2 ^ 32" using assms(2,3) by (intro mod_pos_pos_trivial) auto
  finally have "int32_cast end_lsn < 0" using assms(3) by (simp add: int32_cast_def)
  then show ?thesis using assms(1,4) by (auto simp: writer_open_def writer_write_def Let_def split: if_splits)
qed

text \<open>
  A partial header counts as the end of the file for the reader, but the writer of the next process appends
  behind it: the entry it writes is not found again, and entries that were never written are.
\<close>

lemma torn_header_corrupts:
  "iterate_entries (\<lambda>e es. Some (SUCCESS, es @ [e])) (take 8 (encode_log_entry (demo_entry [7, 8])) @ encode_log_entry (demo_entry [7, 8])) [] =
     Some (SUCCESS, [\<lparr>le_header = \<lparr>lh_lsn = 1, lh_size = 1, lh_module_id = module_index BUFFER_POOL\<rparr>, le_data = [2]\<rparr>])"
  by code_simp

section \<open>Properties\<close>



text \<open>
  C18.  Waiting ends: after every run the thread of the handler, when its file operations succeed, writes all
  entries of the buffer and starts new files as needed, so that waiting for any number that was given out
  returns SUCCESS, and a stopped handler can be joined.
\<close>

theorem log_wait_returns:
  assumes "log_holds es s0" "lsn_room (length es + length xs) s0" "log_run s0 xs s" "lsn \<le> lb_current_lsn (dl_buffer s)"
  shows "\<exists>k s'. thread_steps k s = Some s' \<and> wait_lsn lsn s' = Some SUCCESS \<and> (\<not> dl_running s' \<longrightarrow> await_termination s' \<noteq> None)"
proof -
  have h: "log_holds (es @ numbered (length es) xs) s" "same_directory s0 s" using log_run_holds[OF assms(3,1,2)] by auto
  then have "lsn_room (length (es @ numbered (length es) xs)) s" using assms(2) by (simp add: lsn_room_def same_directory_def)
  from thread_drains[OF h(1) this] obtain k s' where s': "thread_steps k s = Some s'" "log_holds (es @ numbered (length es) xs) s'"
    "lb_entries (dl_buffer s') = []" "\<not> dl_flushing s'" by blast
  have "lb_current_lsn (dl_buffer s) = int (length es + length xs)" using h(1) by (auto simp: log_holds_def log_state_def)
  then have "wait_lsn lsn s' = Some SUCCESS" using log_holds_flushed[OF s'(2,3)] assms(4) by (simp add: wait_lsn_def)
  then show ?thesis using s' by (auto simp: await_termination_def thread_runs_def)
qed

theorem log_wait_returns_witness:
  "\<exists>k s'. thread_steps k (demo_appended [7, 8]) = Some s' \<and> wait_lsn 1 s' = Some SUCCESS"
  using log_wait_returns[OF demo_log_holds _ demo_log_run(1)[OF demo_payload], of 1] by (auto simp: demo_log_eq lsn_room_def demo_appended_def)

text \<open>
  C19.  A crash while an entry is written leaves part of it in the file.  Reading the log then still hands over
  every complete entry; if the crash hit the header the partial entry is ignored, if it hit the payload the
  reading ends with IOERR_READ (unless the reader skips entries of that number anyway).
\<close>

theorem torn_entry_detected:
  assumes "log_holds es s" "dl_flushing s" "lb_entries (dl_buffer s) = e # rest" "le_lsn e \<le> w_end_lsn (dl_writer s)"
    and "k < length (encode_log_entry e)" "thread_flush (Some k) s = Some s'"
  shows "handler_iterate callback start s' x =
    (do { (r, x') \<leftarrow> replay_list callback (filter (\<lambda>e. start \<le> le_lsn e) (take (nat (lb_flushed_lsn (dl_buffer s))) es)) x;
          Some (if OB_FAIL r then r else if k < LOG_HEADER_SIZE \<or> le_lsn e < start then SUCCESS else IOERR_READ, x') })"
proof -
  obtain n m where nm: "log_state n m es s" "writer_ok n m s" using assms(1) by (auto simp: log_holds_def)
  have w: "w_valid (dl_writer s)" "0 < m" "w_filename (dl_writer s) = path_of (dl_files s) (m - 1)"
    "w_end_lsn (dl_writer s) = int m * lf_max_entries (dl_files s) - 1" "dl_fs s (path_of (dl_files s) (m - 1)) \<noteq> None"
    "w_last_lsn (dl_writer s) \<le> int n"
    using nm(2) assms(2) by (auto simp: writer_ok_def Let_def)
  have d: "drop n es = e # rest" "wal_ok es" "lb_flushed_lsn (dl_buffer s) = int n" using nm(1) assms(3) by (auto simp: log_state_def)
  then have "n < length es" "e = es ! n" by (metis drop_eq_Nil leI list.distinct(1)) (metis d(1) nth_via_drop)
  then have e: "le_lsn e = int n + 1" "log_entry_ok e" "valid_front e"
    using wal_ok_lsn[OF d(2)] d(2) by (auto simp: wal_ok_def valid_front_def)
  have s': "dl_files s' = dl_files s" "dl_fs s' = append_file (path_of (dl_files s) (m - 1)) (take k (encode_log_entry e)) (dl_fs s)"
    using assms(3,4,6) w e by (auto simp: thread_flush_def flush_entry_def writer_write_def Let_def OB_FAIL_def)
  have "length (take n es) = n" using \<open>n < length es\<close> by simp
  then show ?thesis
    using iterate_torn_file[of m "take n es" "dl_files s" "dl_fs s" e k callback start x] nm(1) w e assms(4,5) wal_ok_take[OF d(2), of n]
    by (simp add: handler_iterate_def s' d(3) log_state_def)
qed

theorem torn_entry_detected_witness:
  "\<exists>s'. thread_flush (Some 17) (demo_opened [7, 8]) = Some s' \<and> handler_iterate (\<lambda>e ps. Some (SUCCESS, ps @ [le_data e])) 0 s' [] = Some (IOERR_READ, [])"
proof -
  from log_run_holds[OF demo_log_run(2)[OF demo_payload] demo_log_holds] have h: "log_holds [(demo_entry [7, 8])] (demo_opened [7, 8])"
    by (simp add: lsn_room_def demo_log_eq demo_entry_def)
  have b: "dl_flushing (demo_opened [7, 8])" "lb_entries (dl_buffer (demo_opened [7, 8])) = [(demo_entry [7, 8])]" "w_end_lsn (dl_writer (demo_opened [7, 8])) = 999"
    "lb_flushed_lsn (dl_buffer (demo_opened [7, 8])) = 0" "le_lsn (demo_entry [7, 8]) = 1" "length (encode_log_entry (demo_entry [7, 8])) = 18"
    by (simp_all add: demo_opened_def demo_appended_def demo_entry_def new_buffer_def encode_log_entry_def LOG_HEADER_SIZE_def)
  have "thread_flush (Some 17) (demo_opened [7, 8]) \<noteq> None"
    by (cases "writer_write (Some 17) (demo_entry [7, 8]) (dl_writer (demo_opened [7, 8]), dl_fs (demo_opened [7, 8]))", cases "OB_FAIL (fst (writer_write (Some 17) (demo_entry [7, 8]) (dl_writer (demo_opened [7, 8]), dl_fs (demo_opened [7, 8]))))")
      (simp_all add: thread_flush_def b(2,5) flush_entry_def valid_front_def demo_entry_def Let_def)
  then obtain s' where s': "thread_flush (Some 17) (demo_opened [7, 8]) = Some s'" by blast
  from torn_entry_detected[OF h b(1,2) _ _ s', of "\<lambda>e ps. Some (SUCCESS, ps @ [le_data e])" 0 "[]"] s' show ?thesis
    by (simp add: b(3-6) LOG_HEADER_SIZE_def)
qed

end
