(* ===== verification/Log_Recovery.thy ===== *)
theory Log_Recovery
  imports Log_Handler_Correct Bplus_Tree_Recovery
begin

text \<open>
  The replay of the whole log (src/src/observer/storage/clog/integrated_log_replayer.cpp): each entry goes to
  the replayer of its module.  Together with the log files and the redo of the index this gives the recovery
  of an index from the bytes on disk.
\<close>

section \<open>The integrated replayer\<close>

text \<open>
  The members of \<open>IntegratedLogReplayer\<close> are arguments and act on their own part of the state; \<open>None\<close> for the
  replayer of the transactions is the null pointer that the first constructor leaves.
\<close>

type_synonym 's replayer_fun = "log_entry \<Rightarrow> 's \<Rightarrow> (rc \<times> 's) option"

definition integrated_replay ::
    "'a replayer_fun \<Rightarrow> 'b replayer_fun \<Rightarrow> 'c replayer_fun \<Rightarrow> 'd replayer_fun option \<Rightarrow> ('a \<times> 'b \<times> 'c \<times> 'd) replayer_fun" where
  "integrated_replay buffer_pool_replay record_replay bplus_tree_replay trx_replay e = (\<lambda>(a, b, c, d).
     let module_id = lh_module_id (le_header e) in
     if module_id = module_index BUFFER_POOL then map_option (\<lambda>(r, a'). (r, a', b, c, d)) (buffer_pool_replay e a)
     else if module_id = module_index RECORD_MANAGER then map_option (\<lambda>(r, b'). (r, a, b', c, d)) (record_replay e b)
     else if module_id = module_index BPLUS_TREE then map_option (\<lambda>(r, c'). (r, a, b, c', d)) (bplus_tree_replay e c)
     else if module_id = module_index TRANSACTION then do {
       replay \<leftarrow> trx_replay;
       map_option (\<lambda>(r, d'). (r, a, b, c, d')) (replay e d)
     }
     else Some (INVALID_ARGUMENT, a, b, c, d))"

definition integrated_on_done ::
    "('a \<Rightarrow> rc \<times> 'a) \<Rightarrow> ('b \<Rightarrow> rc \<times> 'b) \<Rightarrow> ('c \<Rightarrow> rc \<times> 'c) \<Rightarrow> ('d \<Rightarrow> (rc \<times> 'd) option) option \<Rightarrow> 'a \<times> 'b \<times> 'c \<times> 'd \<Rightarrow>
     (rc \<times> 'a \<times> 'b \<times> 'c \<times> 'd) option" where
  "integrated_on_done buffer_pool_done record_done bplus_tree_done trx_done = (\<lambda>(a, b, c, d).
     case buffer_pool_done a of (r, a') \<Rightarrow> if OB_FAIL r then Some (r, a', b, c, d)
     else case record_done b of (r, b') \<Rightarrow> if OB_FAIL r then Some (r, a', b', c, d)
     else case bplus_tree_done c of (r, c') \<Rightarrow> if OB_FAIL r then Some (r, a', b', c', d)
     else do {
       on_done \<leftarrow> trx_done;
       map_option (\<lambda>(r, d'). (r, a', b', c', d')) (on_done d)
     })"

definition of_module :: "log_module \<Rightarrow> log_entry list \<Rightarrow> log_entry list" where
  "of_module m es = filter (\<lambda>e. lh_module_id (le_header e) = module_index m) es"

definition known_module :: "log_entry \<Rightarrow> bool" where
  "known_module e \<longleftrightarrow> (\<exists>m. lh_module_id (le_header e) = module_index m)"

lemma module_index_inj [simp]: "module_index m = module_index m' \<longleftrightarrow> m = m'"
  by (cases m; cases m') (simp_all add: module_index_def)

lemma of_module_Cons:
  "lh_module_id (le_header e) = module_index m \<Longrightarrow> of_module m' (e # es) = (if m = m' then e # of_module m' es else of_module m' es)"
  by (simp add: of_module_def)

lemma replay_list_Cons_SUCCESS:
  "replay_list f (e # es) s = Some (SUCCESS, s') \<longleftrightarrow> (\<exists>s1. f e s = Some (SUCCESS, s1) \<and> replay_list f es s1 = Some (SUCCESS, s'))"
  by (auto simp: bind_eq_Some_iff OB_FAIL_def split: if_splits)

text \<open>The replayers do not disturb each other: each sees the entries of its module in the order of the log.\<close>

lemma integrated_replay_list:
  assumes "\<forall>e\<in>set es. known_module e"
    and "replay_list fa (of_module BUFFER_POOL es) a = Some (SUCCESS, a')" "replay_list fb (of_module RECORD_MANAGER es) b = Some (SUCCESS, b')"
    and "replay_list fc (of_module BPLUS_TREE es) c = Some (SUCCESS, c')" "replay_list fd (of_module TRANSACTION es) d = Some (SUCCESS, d')"
  shows "replay_list (integrated_replay fa fb fc (Some fd)) es (a, b, c, d) = Some (SUCCESS, a', b', c', d')"
  using assms
proof (induction es arbitrary: a b c d)
  case Nil
  then show ?case by (simp add: of_module_def)
next
  case (Cons e es)
  then obtain m where m: "lh_module_id (le_header e) = module_index m" by (auto simp: known_module_def)
  note m' = of_module_Cons[OF m]
  have known: "\<forall>e\<in>set es. known_module e" using Cons.prems(1) by simp
  show ?case
  proof (cases m)
    case BUFFER_POOL
    then obtain a1 where "fa e a = Some (SUCCESS, a1)" "replay_list fa (of_module BUFFER_POOL es) a1 = Some (SUCCESS, a')"
      using Cons.prems(2) by (auto simp: m' replay_list_Cons_SUCCESS simp del: replay_list.simps(2))
    then show ?thesis using Cons.IH[OF known] Cons.prems(3-5) m BUFFER_POOL by (simp add: m' integrated_replay_def)
  next
    case BPLUS_TREE
    then obtain c1 where "fc e c = Some (SUCCESS, c1)" "replay_list fc (of_module BPLUS_TREE es) c1 = Some (SUCCESS, c')"
      using Cons.prems(4) by (auto simp: m' replay_list_Cons_SUCCESS simp del: replay_list.simps(2))
    then show ?thesis using Cons.IH[OF known] Cons.prems(2,3,5) m BPLUS_TREE by (simp add: m' integrated_replay_def)
  next
    case RECORD_MANAGER
    then obtain b1 where "fb e b = Some (SUCCESS, b1)" "replay_list fb (of_module RECORD_MANAGER es) b1 = Some (SUCCESS, b')"
      using Cons.prems(3) by (auto simp: m' replay_list_Cons_SUCCESS simp del: replay_list.simps(2))
    then show ?thesis using Cons.IH[OF known] Cons.prems(2,4,5) m RECORD_MANAGER by (simp add: m' integrated_replay_def)
  next
    case TRANSACTION
    then obtain d1 where "fd e d = Some (SUCCESS, d1)" "replay_list fd (of_module TRANSACTION es) d1 = Some (SUCCESS, d')"
      using Cons.prems(5) by (auto simp: m' replay_list_Cons_SUCCESS simp del: replay_list.simps(2))
    then show ?thesis using Cons.IH[OF known] Cons.prems(2-4) m TRANSACTION by (simp add: m' integrated_replay_def)
  qed
qed

text \<open>Without a replayer for the transactions the replay of one of their entries, and the final step, are undefined.\<close>

lemma missing_trx_replayer:
  "lh_module_id (le_header e) = module_index TRANSACTION \<Longrightarrow> integrated_replay fa fb fc None e s = None"
  "fa' a = (SUCCESS, a') \<Longrightarrow> fb' b = (SUCCESS, b') \<Longrightarrow> fc' c = (SUCCESS, c') \<Longrightarrow> integrated_on_done fa' fb' fc' None (a, b, c, d) = None"
  by (simp_all add: integrated_replay_def integrated_on_done_def split: prod.splits)

section \<open>The entries of the index in the log\<close>

lemma replay_list_map: "replay_list (\<lambda>e. f (g e)) es s = replay_list f (map g es) s"
  by (induction es arbitrary: s) (auto intro!: Option.bind_cong)

lemma take_keeps_early:
  assumes "wal_ok es" "\<forall>e\<in>set es. P e \<longrightarrow> le_lsn e \<le> int n"
  shows "filter P (take n es) = filter P es"
proof -
  have "filter P (drop n es) = []"
  proof (rule ccontr)
    assume "filter P (drop n es) \<noteq> []"
    then obtain e where e: "e \<in> set (drop n es)" "P e" by (auto simp: filter_empty_conv)
    then obtain k where "k < length (drop n es)" "e = drop n es ! k" by (auto simp: in_set_conv_nth)
    then obtain i where i: "n + i < length es" "e = es ! (n + i)" by (intro that[of k]) auto
    then have "le_lsn e \<le> int n" using assms(2) e(2) by simp
    then show False using wal_ok_lsn[OF assms(1) i(1)] i(2) by simp
  qed
  then show ?thesis by (metis append_take_drop_id append_Nil2 filter_append)
qed

lemma numbered_known: "\<forall>e\<in>set (numbered n xs). known_module e"
  by (induction n xs rule: numbered.induct) (auto simp: known_module_def entry_of_def)

lemma log_holds_wal: "log_holds es s \<Longrightarrow> wal_ok es"
  by (auto simp: log_holds_def log_state_def)

section \<open>Properties\<close>


definition demo_index_history :: "byte list ikey history" where
  "demo_index_history = [(1, [(2, NODE_INSERT 0 (Leaf_Items [demo_item]) 1)], demo_full_leaf)]"

definition demo_record :: "byte list" where
  "demo_record = snd (hd (log_of 3 demo_index_history))"

lemma demo_index_run:
  "runs demo_empty_leaf demo_index_history" "flushed_image demo_empty_leaf demo_index_history (\<lambda>_. 0) demo_empty_leaf (\<lambda>_. 0)"
  "history_fits (nat (attr_length demo_empty_leaf)) (\<lambda>_. SUCCESS) demo_index_history"
proof -
  have "leaf_cap demo_empty_leaf = 408" by (simp add: leaf_cap_def demo_empty_leaf_def calc_leaf_page_capacity_def layout_simps)
  then have "leaf_insert_items 2 0 [demo_item] demo_empty_leaf = Some demo_full_leaf"
    by (simp add: leaf_insert_items_def recover_insert_items_def demo_full_leaf_def) (simp add: demo_empty_leaf_def leaf_at_def)
  from logs.leaf_insert[OF this] show "runs demo_empty_leaf demo_index_history"
    by (auto simp: demo_index_history_def intro: tree_log.intros)
  show "flushed_image demo_empty_leaf demo_index_history (\<lambda>_. 0) demo_empty_leaf (\<lambda>_. 0)"
    by (simp add: flushed_image_def demo_index_history_def)
  show "history_fits (nat (attr_length demo_empty_leaf)) (\<lambda>_. SUCCESS) demo_index_history"
    by (simp add: history_fits_def demo_index_history_def demo_empty_leaf_def entry_fits_def encode_entry_def op_fits_def items_fit_def
        key_fits_def rid_fits_def int32_def demo_item_def write_items_def write_key_def write_rid_def)
qed

lemma demo_record_ok: "payload_ok demo_record" "int (length demo_record) \<le> max_payload_size"
  "log_of 3 demo_index_history = [(1, demo_record)]"
proof -
  have "length demo_record = 44"
    by (simp add: demo_record_def log_of_def demo_index_history_def commit_payload_def encode_entry_def serialize_def
        serialize_header_def serialize_body_def serialize_normal_def write_items_def demo_item_def write_key_def write_rid_def)
  then show "payload_ok demo_record" "int (length demo_record) \<le> max_payload_size"
    by (auto simp: payload_ok_def int32_def max_payload_size_def LOG_HEADER_SIZE_def)
  show "log_of 3 demo_index_history = [(1, demo_record)]" by (simp add: demo_record_def log_of_def demo_index_history_def)
qed


end
