(* ===== verification/Sql_Value.thy ===== *)
theory Sql_Value
  imports Key_Order Serializer
begin

text \<open>
  Values and their types: \<open>Value\<close> of src/src/observer/common/value.cpp and
  value.h and the data types of src/src/observer/common/type (CHARS, INTS,
  FLOATS, and the base type that serves UNDEFINED and BOOLEANS).  A value is
  the object of the program: a type tag, a length, a union and an ownership
  flag.  Reading a member of the union that was not written last, releasing an
  owned pointer that is not there and the overflow of a signed addition are
  undefined, so they are \<open>None\<close>.

  The arithmetic of single precision numbers is a record of operations
  (\<open>float_ops\<close>) that every definition takes as an argument: all theorems hold
  for every such arithmetic.
\<close>

section \<open>Types\<close>

datatype attr_type = UNDEFINED | CHARS | INTS | FLOATS | BOOLEANS

definition attr_type_to_string :: "attr_type \<Rightarrow> string" where
  "attr_type_to_string t =
     (case t of UNDEFINED \<Rightarrow> ''undefined'' | CHARS \<Rightarrow> ''chars'' | INTS \<Rightarrow> ''ints''
      | FLOATS \<Rightarrow> ''floats'' | BOOLEANS \<Rightarrow> ''booleans'')"

text \<open>
  Single precision numbers.  The comparisons with \<open>EPSILON\<close> and \<open>-EPSILON\<close> are
  separate operations, because the source compares with a constant of type
  \<open>double\<close> and because a comparison and its negation are both false on a NaN.
  \<open>f_of_bits\<close> and \<open>f_to_bits\<close> reinterpret the four bytes, read as an integer;
  \<open>f_to_int\<close> is \<open>None\<close> where the conversion to \<open>int\<close> is undefined, \<open>f_stof\<close>
  is \<open>None\<close> where \<open>std::stof\<close> throws and \<open>f_str\<close> is the formatted number.
\<close>

record 'f float_ops =
  f_of_int :: "int \<Rightarrow> 'f"
  f_of_bits :: "int \<Rightarrow> 'f"
  f_to_bits :: "'f \<Rightarrow> int"
  f_to_int :: "'f \<Rightarrow> int option"
  f_stof :: "byte list \<Rightarrow> 'f option"
  f_str :: "'f \<Rightarrow> byte list"
  f_add :: "'f \<Rightarrow> 'f \<Rightarrow> 'f"
  f_sub :: "'f \<Rightarrow> 'f \<Rightarrow> 'f"
  f_mul :: "'f \<Rightarrow> 'f \<Rightarrow> 'f"
  f_div :: "'f \<Rightarrow> 'f \<Rightarrow> 'f"
  f_neg :: "'f \<Rightarrow> 'f"
  f_max :: 'f
  f_gt_eps :: "'f \<Rightarrow> bool"
  f_ge_eps :: "'f \<Rightarrow> bool"
  f_lt_eps :: "'f \<Rightarrow> bool"
  f_gt_meps :: "'f \<Rightarrow> bool"
  f_le_meps :: "'f \<Rightarrow> bool"
  f_lt_meps :: "'f \<Rightarrow> bool"

definition compare_float :: "'f float_ops \<Rightarrow> 'f \<Rightarrow> 'f \<Rightarrow> int" where
  "compare_float F v1 v2 =
     (let c = f_sub F v1 v2
      in if f_gt_eps F c then 1 else if f_lt_meps F c then -1 else 0)"

section \<open>Numbers in text\<close>

text \<open>
  \<open>std::stol\<close> and the extraction of an \<open>int\<close> from a stream: white space, an
  optional sign and at least one digit; \<open>scan_int\<close> returns the number and the
  rest of the text.
\<close>

definition is_space :: "byte \<Rightarrow> bool" where
  "is_space c \<longleftrightarrow> c = 32 \<or> (9 \<le> c \<and> c \<le> 13)"

definition is_digit :: "byte \<Rightarrow> bool" where
  "is_digit c \<longleftrightarrow> 48 \<le> c \<and> c \<le> 57"

definition digits_value :: "byte list \<Rightarrow> int" where
  "digits_value ds = foldl (\<lambda>n d. 10 * n + (uint d - 48)) 0 ds"

definition scan_digits :: "byte list \<Rightarrow> (int \<times> byte list) option" where
  "scan_digits s =
     (if takeWhile is_digit s = [] then None
      else Some (digits_value (takeWhile is_digit s), dropWhile is_digit s))"

definition scan_int :: "byte list \<Rightarrow> (int \<times> byte list) option" where
  "scan_int s =
     (case dropWhile is_space s of
        [] \<Rightarrow> None
      | c # cs \<Rightarrow>
          if c = 45 then map_option (\<lambda>(n, r). (- n, r)) (scan_digits cs)
          else if c = 43 then scan_digits cs
          else scan_digits (c # cs))"

definition stol :: "byte list \<Rightarrow> int option" where
  "stol s =
     (case scan_int s of
        None \<Rightarrow> None
      | Some (n, r) \<Rightarrow> if int64 n then Some n else None)"

function nat_digits :: "nat \<Rightarrow> byte list" where
  "nat_digits n =
     (if n < 10 then [word_of_nat (48 + n)]
      else nat_digits (n div 10) @ [word_of_nat (48 + n mod 10)])"
  by pat_completeness auto
termination
  by (relation "measure id") auto

declare nat_digits.simps [simp del]

definition int_str :: "int \<Rightarrow> byte list" where
  "int_str i = (if i < 0 then 45 # nat_digits (nat (- i)) else nat_digits (nat i))"

section \<open>Values\<close>

text \<open>
  The union of a value: the member that was written last.  A pointer is null or
  refers to an owned buffer that holds the given bytes and a terminator.
\<close>

datatype 'f val_union =
    Int_value int
  | Float_value 'f
  | Bool_value bool
  | Pointer_value "byte list option"

record 'f sql_value =
  attr_type :: attr_type
  val_length :: int
  val :: "'f val_union"
  own_data :: bool

definition Value_default :: "'f sql_value" where
  "Value_default = \<lparr>attr_type = UNDEFINED, val_length = 0, val = Int_value 0, own_data = False\<rparr>"

definition pointer_member :: "'f sql_value \<Rightarrow> byte list option option" where
  "pointer_member v = (case val v of Pointer_value p \<Rightarrow> Some p | _ \<Rightarrow> None)"

definition value_reset :: "'f sql_value \<Rightarrow> 'f sql_value option" where
  "value_reset v =
     (let cleared = v\<lparr>attr_type := UNDEFINED, val_length := 0, own_data := False\<rparr>
      in if attr_type v = CHARS \<and> own_data v
         then do {
           p \<leftarrow> pointer_member v;
           Some (cleared\<lparr>val := Pointer_value None\<rparr>)
         }
         else Some cleared)"

definition set_int :: "'f sql_value \<Rightarrow> int \<Rightarrow> 'f sql_value option" where
  "set_int v i = do {
     v \<leftarrow> value_reset v;
     Some (v\<lparr>attr_type := INTS, val := Int_value i, val_length := 4\<rparr>)
   }"

definition set_float :: "'f sql_value \<Rightarrow> 'f \<Rightarrow> 'f sql_value option" where
  "set_float v x = do {
     v \<leftarrow> value_reset v;
     Some (v\<lparr>attr_type := FLOATS, val := Float_value x, val_length := 4\<rparr>)
   }"

definition set_boolean :: "'f sql_value \<Rightarrow> bool \<Rightarrow> 'f sql_value option" where
  "set_boolean v b = do {
     v \<leftarrow> value_reset v;
     Some (v\<lparr>attr_type := BOOLEANS, val := Bool_value b, val_length := 1\<rparr>)
   }"

text \<open>
  \<open>strnlen\<close> and \<open>strlen\<close> on the bytes that can be read at the pointer: running
  past them without a terminator is undefined.
\<close>

definition c_strnlen :: "byte list \<Rightarrow> nat \<Rightarrow> nat option" where
  "c_strnlen s n =
     (let k = length (takeWhile (\<lambda>c. c \<noteq> 0) (take n s))
      in if k = length s \<and> k < n then None else Some k)"

definition c_strlen :: "byte list \<Rightarrow> nat option" where
  "c_strlen s =
     (let k = length (takeWhile (\<lambda>c. c \<noteq> 0) s) in if k = length s then None else Some k)"

definition set_string :: "'f sql_value \<Rightarrow> byte list option \<Rightarrow> int \<Rightarrow> 'f sql_value option" where
  "set_string v s len = do {
     v \<leftarrow> value_reset v;
     let v = v\<lparr>attr_type := CHARS\<rparr>;
     case s of
       None \<Rightarrow> Some (v\<lparr>val := Pointer_value None, val_length := 0\<rparr>)
     | Some s \<Rightarrow> do {
         n \<leftarrow> (if len > 0 then c_strnlen s (nat len) else c_strlen s);
         Some (v\<lparr>own_data := True, val := Pointer_value (Some (take n s)), val_length := int n\<rparr>)
       }
   }"

definition set_type :: "'f sql_value \<Rightarrow> attr_type \<Rightarrow> 'f sql_value" where
  "set_type v t = v\<lparr>attr_type := t\<rparr>"

definition set_data :: "'f float_ops \<Rightarrow> 'f sql_value \<Rightarrow> byte list \<Rightarrow> int \<Rightarrow> 'f sql_value option" where
  "set_data F v data len =
     (case attr_type v of
        CHARS \<Rightarrow> set_string v (Some data) len
      | INTS \<Rightarrow> do {
          (i, r) \<leftarrow> read_int32 data;
          Some (v\<lparr>val := Int_value i, val_length := len\<rparr>)
        }
      | FLOATS \<Rightarrow> do {
          (i, r) \<leftarrow> read_int32 data;
          Some (v\<lparr>val := Float_value (f_of_bits F i), val_length := len\<rparr>)
        }
      | BOOLEANS \<Rightarrow> do {
          (i, r) \<leftarrow> read_int32 data;
          Some (v\<lparr>val := Bool_value (i \<noteq> 0), val_length := len\<rparr>)
        }
      | UNDEFINED \<Rightarrow> Some v)"

definition set_string_from_other :: "'f sql_value \<Rightarrow> 'f sql_value \<Rightarrow> 'f sql_value option" where
  "set_string_from_other this other =
     (if attr_type this \<noteq> CHARS then None
      else if own_data this then do {
        p \<leftarrow> pointer_member other;
        case p of
          None \<Rightarrow> Some this
        | Some s \<Rightarrow>
            if val_length this \<noteq> 0
            then Some (this\<lparr>val := Pointer_value (Some (take (nat (val_length this)) s))\<rparr>)
            else Some this
      }
      else Some this)"

text \<open>The common part of the copy constructor and of the copy assignment.\<close>

definition copy_members :: "'f sql_value \<Rightarrow> 'f sql_value \<Rightarrow> 'f sql_value option" where
  "copy_members this other =
     (let this = this\<lparr>attr_type := attr_type other, val_length := val_length other, own_data := own_data other\<rparr>
      in case attr_type this of
           CHARS \<Rightarrow> set_string_from_other this other
         | _ \<Rightarrow> Some (this\<lparr>val := val other\<rparr>))"

definition copy_value :: "'f sql_value \<Rightarrow> 'f sql_value option" where
  "copy_value other = copy_members Value_default other"

definition assign_value :: "'f sql_value \<Rightarrow> 'f sql_value \<Rightarrow> 'f sql_value option" where
  "assign_value this other = do {
     this \<leftarrow> value_reset this;
     copy_members this other
   }"

text \<open>The move assignment returns the new value and what is left of the source.\<close>

definition move_value :: "'f sql_value \<Rightarrow> 'f sql_value \<Rightarrow> ('f sql_value \<times> 'f sql_value) option" where
  "move_value this other = do {
     this \<leftarrow> value_reset this;
     Some (this\<lparr>attr_type := attr_type other, val_length := val_length other,
                own_data := own_data other, val := val other\<rparr>,
           other\<lparr>own_data := False, val_length := 0\<rparr>)
   }"

section \<open>Reading values\<close>

definition get_int :: "'f float_ops \<Rightarrow> 'f sql_value \<Rightarrow> int option" where
  "get_int F v =
     (case attr_type v of
        CHARS \<Rightarrow> do {
          p \<leftarrow> pointer_member v;
          Some (case p of None \<Rightarrow> 0 | Some s \<Rightarrow> (case stol s of None \<Rightarrow> 0 | Some n \<Rightarrow> int32_cast n))
        }
      | INTS \<Rightarrow> (case val v of Int_value i \<Rightarrow> Some i | _ \<Rightarrow> None)
      | FLOATS \<Rightarrow> (case val v of Float_value x \<Rightarrow> f_to_int F x | _ \<Rightarrow> None)
      | BOOLEANS \<Rightarrow> (case val v of Bool_value b \<Rightarrow> Some (if b then 1 else 0) | _ \<Rightarrow> None)
      | UNDEFINED \<Rightarrow> Some 0)"

definition get_float :: "'f float_ops \<Rightarrow> 'f sql_value \<Rightarrow> 'f option" where
  "get_float F v =
     (case attr_type v of
        CHARS \<Rightarrow> do {
          p \<leftarrow> pointer_member v;
          Some (case p of
                  None \<Rightarrow> f_of_int F 0
                | Some s \<Rightarrow> (case f_stof F s of None \<Rightarrow> f_of_int F 0 | Some x \<Rightarrow> x))
        }
      | INTS \<Rightarrow> (case val v of Int_value i \<Rightarrow> Some (f_of_int F i) | _ \<Rightarrow> None)
      | FLOATS \<Rightarrow> (case val v of Float_value x \<Rightarrow> Some x | _ \<Rightarrow> None)
      | BOOLEANS \<Rightarrow> (case val v of Bool_value b \<Rightarrow> Some (f_of_int F (if b then 1 else 0)) | _ \<Rightarrow> None)
      | UNDEFINED \<Rightarrow> Some (f_of_int F 0))"

definition get_boolean :: "'f float_ops \<Rightarrow> 'f sql_value \<Rightarrow> bool option" where
  "get_boolean F v =
     (case attr_type v of
        CHARS \<Rightarrow> do {
          p \<leftarrow> pointer_member v;
          Some (case p of
                  None \<Rightarrow> False
                | Some s \<Rightarrow>
                    (case f_stof F s of
                       None \<Rightarrow> True
                     | Some x \<Rightarrow>
                         if f_ge_eps F x \<or> f_le_meps F x then True
                         else (case stol s of
                                 None \<Rightarrow> True
                               | Some n \<Rightarrow> if int32_cast n \<noteq> 0 then True else True)))
        }
      | INTS \<Rightarrow> (case val v of Int_value i \<Rightarrow> Some (i \<noteq> 0) | _ \<Rightarrow> None)
      | FLOATS \<Rightarrow> (case val v of Float_value x \<Rightarrow> Some (f_ge_eps F x \<or> f_le_meps F x) | _ \<Rightarrow> None)
      | BOOLEANS \<Rightarrow> (case val v of Bool_value b \<Rightarrow> Some b | _ \<Rightarrow> None)
      | UNDEFINED \<Rightarrow> Some False)"

text \<open>\<open>Value::to_string\<close>: the types without a conversion give the empty string.\<close>

definition value_to_string :: "'f float_ops \<Rightarrow> 'f sql_value \<Rightarrow> byte list option" where
  "value_to_string F v =
     (case attr_type v of
        CHARS \<Rightarrow> do { p \<leftarrow> pointer_member v; p }
      | INTS \<Rightarrow> (case val v of Int_value i \<Rightarrow> Some (int_str i) | _ \<Rightarrow> None)
      | FLOATS \<Rightarrow> (case val v of Float_value x \<Rightarrow> Some (f_str F x) | _ \<Rightarrow> None)
      | BOOLEANS \<Rightarrow> Some []
      | UNDEFINED \<Rightarrow> Some [])"

definition set_value :: "'f float_ops \<Rightarrow> 'f sql_value \<Rightarrow> 'f sql_value \<Rightarrow> 'f sql_value option" where
  "set_value F this v =
     (case attr_type v of
        INTS \<Rightarrow> do { i \<leftarrow> get_int F v; set_int this i }
      | FLOATS \<Rightarrow> do { x \<leftarrow> get_float F v; set_float this x }
      | CHARS \<Rightarrow> do { s \<leftarrow> value_to_string F v; set_string this (Some (s @ [0])) 0 }
      | BOOLEANS \<Rightarrow> do { b \<leftarrow> get_boolean F v; set_boolean this b }
      | UNDEFINED \<Rightarrow> None)"

section \<open>Operations of the data types\<close>

definition INT32_MAX :: int where
  "INT32_MAX = 2147483647"

text \<open>
  The comparison of a type, with its assertions on the types of the operands.
  \<open>IntegerType::compare\<close> hands the bytes of an \<open>int\<close> to \<open>compare_float\<close> when the
  right operand is a float.
\<close>

definition integer_compare :: "'f float_ops \<Rightarrow> 'f sql_value \<Rightarrow> 'f sql_value \<Rightarrow> int option" where
  "integer_compare F l r =
     (case attr_type r of
        INTS \<Rightarrow> (case (val l, val r) of (Int_value i, Int_value j) \<Rightarrow> Some (compare_int i j) | _ \<Rightarrow> None)
      | FLOATS \<Rightarrow>
          (case (val l, val r) of
             (Int_value i, Float_value x) \<Rightarrow> Some (compare_float F (f_of_bits F i) x)
           | _ \<Rightarrow> None)
      | _ \<Rightarrow> None)"

definition float_compare :: "'f float_ops \<Rightarrow> 'f sql_value \<Rightarrow> 'f sql_value \<Rightarrow> int option" where
  "float_compare F l r =
     (if attr_type r = INTS \<or> attr_type r = FLOATS
      then do { x \<leftarrow> get_float F l; y \<leftarrow> get_float F r; Some (compare_float F x y) }
      else None)"

definition char_compare :: "'f sql_value \<Rightarrow> 'f sql_value \<Rightarrow> int option" where
  "char_compare l r =
     (if attr_type r = CHARS
      then do {
        p \<leftarrow> pointer_member l;
        q \<leftarrow> pointer_member r;
        Some (compare_string (case_option [] id p) (val_length l) (case_option [] id q) (val_length r))
      }
      else None)"

definition value_compare :: "'f float_ops \<Rightarrow> 'f sql_value \<Rightarrow> 'f sql_value \<Rightarrow> int option" where
  "value_compare F l r =
     (case attr_type l of
        INTS \<Rightarrow> integer_compare F l r
      | FLOATS \<Rightarrow> float_compare F l r
      | CHARS \<Rightarrow> char_compare l r
      | BOOLEANS \<Rightarrow> Some INT32_MAX
      | UNDEFINED \<Rightarrow> Some INT32_MAX)"

lemmas compare_defs = integer_compare_def float_compare_def char_compare_def

text \<open>The result of an \<open>int\<close> operation: a result outside the type is a signed overflow.\<close>

definition int_result :: "int \<Rightarrow> int option" where
  "int_result i = (if int32 i then Some i else None)"

definition integer_add :: "'f float_ops \<Rightarrow> 'f sql_value \<Rightarrow> 'f sql_value \<Rightarrow> 'f sql_value \<Rightarrow> (rc \<times> 'f sql_value) option" where
  "integer_add F l r result = do {
     i \<leftarrow> get_int F l;
     j \<leftarrow> get_int F r;
     k \<leftarrow> int_result (i + j);
     v \<leftarrow> set_int result k;
     Some (SUCCESS, v)
   }"

definition float_add :: "'f float_ops \<Rightarrow> 'f sql_value \<Rightarrow> 'f sql_value \<Rightarrow> 'f sql_value \<Rightarrow> (rc \<times> 'f sql_value) option" where
  "float_add F l r result = do {
     x \<leftarrow> get_float F l;
     y \<leftarrow> get_float F r;
     v \<leftarrow> set_float result (f_add F x y);
     Some (SUCCESS, v)
   }"

definition integer_subtract :: "'f float_ops \<Rightarrow> 'f sql_value \<Rightarrow> 'f sql_value \<Rightarrow> 'f sql_value \<Rightarrow> (rc \<times> 'f sql_value) option" where
  "integer_subtract F l r result = do {
     i \<leftarrow> get_int F l;
     j \<leftarrow> get_int F r;
     k \<leftarrow> int_result (i - j);
     v \<leftarrow> set_int result k;
     Some (SUCCESS, v)
   }"

definition float_subtract :: "'f float_ops \<Rightarrow> 'f sql_value \<Rightarrow> 'f sql_value \<Rightarrow> 'f sql_value \<Rightarrow> (rc \<times> 'f sql_value) option" where
  "float_subtract F l r result = do {
     x \<leftarrow> get_float F l;
     y \<leftarrow> get_float F r;
     v \<leftarrow> set_float result (f_sub F x y);
     Some (SUCCESS, v)
   }"

definition integer_multiply :: "'f float_ops \<Rightarrow> 'f sql_value \<Rightarrow> 'f sql_value \<Rightarrow> 'f sql_value \<Rightarrow> (rc \<times> 'f sql_value) option" where
  "integer_multiply F l r result = do {
     i \<leftarrow> get_int F l;
     j \<leftarrow> get_int F r;
     k \<leftarrow> int_result (i * j);
     v \<leftarrow> set_int result k;
     Some (SUCCESS, v)
   }"

definition float_multiply :: "'f float_ops \<Rightarrow> 'f sql_value \<Rightarrow> 'f sql_value \<Rightarrow> 'f sql_value \<Rightarrow> (rc \<times> 'f sql_value) option" where
  "float_multiply F l r result = do {
     x \<leftarrow> get_float F l;
     y \<leftarrow> get_float F r;
     v \<leftarrow> set_float result (f_mul F x y);
     Some (SUCCESS, v)
   }"

definition float_divide :: "'f float_ops \<Rightarrow> 'f sql_value \<Rightarrow> 'f sql_value \<Rightarrow> 'f sql_value \<Rightarrow> (rc \<times> 'f sql_value) option" where
  "float_divide F l r result = do {
     y \<leftarrow> get_float F r;
     if f_gt_meps F y \<and> f_lt_eps F y
     then do { v \<leftarrow> set_float result (f_max F); Some (SUCCESS, v) }
     else do {
       x \<leftarrow> get_float F l;
       v \<leftarrow> set_float result (f_div F x y);
       Some (SUCCESS, v)
     }
   }"

definition integer_negative :: "'f float_ops \<Rightarrow> 'f sql_value \<Rightarrow> 'f sql_value \<Rightarrow> (rc \<times> 'f sql_value) option" where
  "integer_negative F v result = do {
     i \<leftarrow> get_int F v;
     k \<leftarrow> int_result (- i);
     u \<leftarrow> set_int result k;
     Some (SUCCESS, u)
   }"

definition float_negative :: "'f float_ops \<Rightarrow> 'f sql_value \<Rightarrow> 'f sql_value \<Rightarrow> (rc \<times> 'f sql_value) option" where
  "float_negative F v result = do {
     x \<leftarrow> get_float F v;
     u \<leftarrow> set_float result (f_neg F x);
     Some (SUCCESS, u)
   }"

text \<open>
  The operations of \<open>Value\<close> dispatch on the type of the result; types without the
  operation leave it as it is and return UNSUPPORTED.
\<close>

definition value_add :: "'f float_ops \<Rightarrow> 'f sql_value \<Rightarrow> 'f sql_value \<Rightarrow> 'f sql_value \<Rightarrow> (rc \<times> 'f sql_value) option" where
  "value_add F l r result =
     (case attr_type result of
        INTS \<Rightarrow> integer_add F l r result
      | FLOATS \<Rightarrow> float_add F l r result
      | _ \<Rightarrow> Some (UNSUPPORTED, result))"

definition value_subtract :: "'f float_ops \<Rightarrow> 'f sql_value \<Rightarrow> 'f sql_value \<Rightarrow> 'f sql_value \<Rightarrow> (rc \<times> 'f sql_value) option" where
  "value_subtract F l r result =
     (case attr_type result of
        INTS \<Rightarrow> integer_subtract F l r result
      | FLOATS \<Rightarrow> float_subtract F l r result
      | _ \<Rightarrow> Some (UNSUPPORTED, result))"

definition value_multiply :: "'f float_ops \<Rightarrow> 'f sql_value \<Rightarrow> 'f sql_value \<Rightarrow> 'f sql_value \<Rightarrow> (rc \<times> 'f sql_value) option" where
  "value_multiply F l r result =
     (case attr_type result of
        INTS \<Rightarrow> integer_multiply F l r result
      | FLOATS \<Rightarrow> float_multiply F l r result
      | _ \<Rightarrow> Some (UNSUPPORTED, result))"

definition value_divide :: "'f float_ops \<Rightarrow> 'f sql_value \<Rightarrow> 'f sql_value \<Rightarrow> 'f sql_value \<Rightarrow> (rc \<times> 'f sql_value) option" where
  "value_divide F l r result =
     (case attr_type result of
        FLOATS \<Rightarrow> float_divide F l r result
      | _ \<Rightarrow> Some (UNSUPPORTED, result))"

definition value_negative :: "'f float_ops \<Rightarrow> 'f sql_value \<Rightarrow> 'f sql_value \<Rightarrow> (rc \<times> 'f sql_value) option" where
  "value_negative F v result =
     (case attr_type result of
        INTS \<Rightarrow> integer_negative F v result
      | FLOATS \<Rightarrow> float_negative F v result
      | _ \<Rightarrow> Some (UNSUPPORTED, result))"

lemmas arithmetic_defs =
  integer_add_def integer_subtract_def integer_multiply_def integer_negative_def
  float_add_def float_subtract_def float_multiply_def float_divide_def float_negative_def
  value_add_def value_subtract_def value_multiply_def value_divide_def value_negative_def

definition value_cast_to :: "'f sql_value \<Rightarrow> attr_type \<Rightarrow> 'f sql_value \<Rightarrow> rc \<times> 'f sql_value" where
  "value_cast_to v t result = (case attr_type v of CHARS \<Rightarrow> (UNIMPLEMENTED, result) | _ \<Rightarrow> (UNSUPPORTED, result))"

definition cast_cost :: "attr_type \<Rightarrow> attr_type \<Rightarrow> int" where
  "cast_cost this t =
     (case this of
        CHARS \<Rightarrow> if t = CHARS then 0 else INT32_MAX
      | _ \<Rightarrow> if t = this then 0 else INT32_MAX)"

text \<open>
  \<open>set_value_from_str\<close>: the whole text has to be a number of the type.  The
  extraction of a float from a stream is the argument \<open>float_in\<close>.
\<close>

definition integer_from_str :: "'f sql_value \<Rightarrow> byte list \<Rightarrow> (rc \<times> 'f sql_value) option" where
  "integer_from_str v data =
     (case scan_int data of
        Some (n, []) \<Rightarrow>
          if int32 n then do { v \<leftarrow> set_int v n; Some (SUCCESS, v) }
          else Some (SCHEMA_FIELD_TYPE_MISMATCH, v)
      | _ \<Rightarrow> Some (SCHEMA_FIELD_TYPE_MISMATCH, v))"

definition float_from_str ::
  "(byte list \<Rightarrow> ('f \<times> byte list) option) \<Rightarrow> 'f sql_value \<Rightarrow> byte list \<Rightarrow> (rc \<times> 'f sql_value) option" where
  "float_from_str float_in v data =
     (case float_in data of
        Some (x, []) \<Rightarrow> do { v \<leftarrow> set_float v x; Some (SUCCESS, v) }
      | _ \<Rightarrow> Some (SCHEMA_FIELD_TYPE_MISMATCH, v))"

definition char_from_str :: "'f sql_value \<Rightarrow> byte list \<Rightarrow> (rc \<times> 'f sql_value) option" where
  "char_from_str v data = do { v \<leftarrow> set_string v (Some (data @ [0])) 0; Some (SUCCESS, v) }"

definition set_value_from_str ::
  "(byte list \<Rightarrow> ('f \<times> byte list) option) \<Rightarrow> attr_type \<Rightarrow> 'f sql_value \<Rightarrow> byte list \<Rightarrow> (rc \<times> 'f sql_value) option" where
  "set_value_from_str float_in t v data =
     (case t of
        CHARS \<Rightarrow> char_from_str v data
      | INTS \<Rightarrow> integer_from_str v data
      | FLOATS \<Rightarrow> float_from_str float_in v data
      | _ \<Rightarrow> Some (UNSUPPORTED, v))"

section \<open>Well-formed values\<close>

text \<open>
  The member of the union agrees with the type tag, the bytes of a string have
  no terminator inside and \<open>length\<close> counts them, and only strings own memory.
\<close>

definition value_wf :: "'f sql_value \<Rightarrow> bool" where
  "value_wf v =
     (case (attr_type v, val v) of
        (CHARS, Pointer_value (Some s)) \<Rightarrow> 0 \<notin> set s \<and> val_length v = int (length s) \<and> own_data v
      | (CHARS, Pointer_value None) \<Rightarrow> val_length v = 0 \<and> \<not> own_data v
      | (INTS, Int_value i) \<Rightarrow> int32 i \<and> \<not> own_data v
      | (FLOATS, Float_value x) \<Rightarrow> \<not> own_data v
      | (BOOLEANS, Bool_value b) \<Rightarrow> \<not> own_data v
      | (UNDEFINED, u) \<Rightarrow> \<not> own_data v
      | _ \<Rightarrow> False)"

text \<open>The values whose copy is the value itself: every value but the empty string.\<close>

definition value_copyable :: "'f sql_value \<Rightarrow> bool" where
  "value_copyable v \<longleftrightarrow> value_wf v \<and> (attr_type v = CHARS \<longrightarrow> val_length v \<noteq> 0)"

definition bool_value :: "bool \<Rightarrow> 'f sql_value" where
  "bool_value b = \<lparr>attr_type = BOOLEANS, val_length = 1, val = Bool_value b, own_data = False\<rparr>"

lemma value_wf_cases:
  assumes "value_wf v"
  obtains (chars) s where "attr_type v = CHARS" "val v = Pointer_value (Some s)" "0 \<notin> set s"
      "val_length v = int (length s)" "own_data v"
    | (null) "attr_type v = CHARS" "val v = Pointer_value None" "val_length v = 0" "\<not> own_data v"
    | (ints) i where "attr_type v = INTS" "val v = Int_value i" "int32 i" "\<not> own_data v"
    | (floats) x where "attr_type v = FLOATS" "val v = Float_value x" "\<not> own_data v"
    | (booleans) b where "attr_type v = BOOLEANS" "val v = Bool_value b" "\<not> own_data v"
    | (undefined) "attr_type v = UNDEFINED" "\<not> own_data v"
  using assms
  by (cases "attr_type v"; cases "val v") (auto simp: value_wf_def split: option.splits)

lemma value_wf_own: "value_wf v \<Longrightarrow> own_data v \<Longrightarrow> attr_type v = CHARS"
  by (erule value_wf_cases) auto

lemma value_wf_default [simp]: "value_wf Value_default" "value_wf (bool_value b)" "value_copyable (bool_value b)"
  by (simp_all add: value_wf_def Value_default_def bool_value_def value_copyable_def)

lemma value_reset_wf:
  assumes "value_wf v"
  obtains u where "value_reset v = Some \<lparr>attr_type = UNDEFINED, val_length = 0, val = u, own_data = False\<rparr>"
  using assms
  by (cases v, elim value_wf_cases) (auto simp: value_reset_def pointer_member_def Let_def)

text \<open>A value that owns no memory can be written whatever its union holds.\<close>

lemma value_reset_free:
  "\<not> own_data v \<Longrightarrow> value_reset v = Some (v\<lparr>attr_type := UNDEFINED, val_length := 0, own_data := False\<rparr>)"
  by (simp add: value_reset_def Let_def)

lemma set_boolean_wf: "value_wf v \<Longrightarrow> set_boolean v b = Some (bool_value b)"
  by (erule value_reset_wf) (simp add: set_boolean_def bool_value_def)

lemma set_int_wf:
  "value_wf v \<Longrightarrow> set_int v i = Some \<lparr>attr_type = INTS, val_length = 4, val = Int_value i, own_data = False\<rparr>"
  by (erule value_reset_wf) (simp add: set_int_def)

lemma set_float_wf:
  "value_wf v \<Longrightarrow> set_float v x = Some \<lparr>attr_type = FLOATS, val_length = 4, val = Float_value x, own_data = False\<rparr>"
  by (erule value_reset_wf) (simp add: set_float_def)

lemma takeWhile_all: "x \<notin> set s \<Longrightarrow> takeWhile (\<lambda>c. c \<noteq> x) s = s"
  by (induction s) auto

lemma c_strlen_terminated:
  "c_strlen (s @ 0 # r) = Some (length (cstring s))"
proof -
  have "takeWhile (\<lambda>c. c \<noteq> 0) (s @ 0 # r) = cstring s"
    unfolding cstring_def by (induction s) auto
  moreover have "length (cstring s) \<le> length s" unfolding cstring_def by (rule length_takeWhile_le)
  ultimately show ?thesis by (simp add: c_strlen_def)
qed

lemma take_length_cstring: "take (length (cstring s)) (s @ r) = cstring s"
  unfolding cstring_def by (metis append.assoc append_eq_conv_conj takeWhile_dropWhile_id)

lemma set_string_terminated:
  assumes "value_wf v"
  shows "set_string v (Some (s @ 0 # r)) 0 =
    Some \<lparr>attr_type = CHARS, val_length = int (length (cstring s)), val = Pointer_value (Some (cstring s)), own_data = True\<rparr>"
  using assms by (elim value_reset_wf) (simp add: set_string_def c_strlen_terminated take_length_cstring del: take_append)

lemma zero_notin_cstring [simp]: "0 \<notin> set (cstring s)"
  unfolding cstring_def by (auto dest: set_takeWhileD)

lemma cstring_id [simp]: "0 \<notin> set s \<Longrightarrow> cstring s = s"
  unfolding cstring_def by (rule takeWhile_all)

lemma copy_members_copyable:
  assumes "value_copyable other"
  shows "copy_members this other = Some other"
proof -
  have "value_wf other" and ne: "attr_type other = CHARS \<longrightarrow> val_length other \<noteq> 0"
    using assms by (auto simp: value_copyable_def)
  from this(1) show ?thesis
    by (cases rule: value_wf_cases; cases other)
      (use ne in \<open>auto simp: copy_members_def set_string_from_other_def pointer_member_def Let_def\<close>)
qed

lemma assign_value_copyable: "value_wf this \<Longrightarrow> value_copyable other \<Longrightarrow> assign_value this other = Some other"
  by (erule value_reset_wf) (simp add: assign_value_def copy_members_copyable)

lemma copy_value_copyable: "value_copyable other \<Longrightarrow> copy_value other = Some other"
  by (simp add: copy_value_def copy_members_copyable)

text \<open>
  The copy of an empty string is an owning value whose pointer was never
  written: nothing can be read from it and it cannot be released.
\<close>

lemma copy_of_empty_string:
  assumes "value_wf v" "attr_type v = CHARS" "val_length v = 0" "own_data v"
  shows "copy_value v = Some v'
    \<Longrightarrow> value_compare F v' w = None \<and> get_boolean F v' = None \<and> value_reset v' = None \<or> attr_type w \<noteq> CHARS"
  using assms
  by (elim value_wf_cases)
    (auto simp: copy_value_def copy_members_def set_string_from_other_def pointer_member_def Let_def Value_default_def
      value_compare_def compare_defs get_boolean_def value_reset_def)

lemma get_defined:
  assumes "value_wf v"
  shows "\<exists>x. get_float F v = Some x" "\<exists>b. get_boolean F v = Some b"
    "attr_type v \<noteq> FLOATS \<Longrightarrow> \<exists>i. get_int F v = Some i \<and> int32 i"
proof -
  have range: "int32 (int32_cast n)" for n
    unfolding int32_def int32_cast_def
    using pos_mod_bound [of "2 ^ 32" "n + 2 ^ 31"] pos_mod_sign [of "2 ^ 32" "n + 2 ^ 31"] by simp
  show "\<exists>x. get_float F v = Some x"
    using assms by (cases rule: value_wf_cases) (auto simp: get_float_def pointer_member_def)
  show "\<exists>b. get_boolean F v = Some b"
    using assms by (cases rule: value_wf_cases) (auto simp: get_boolean_def pointer_member_def)
  show "attr_type v \<noteq> FLOATS \<Longrightarrow> \<exists>i. get_int F v = Some i \<and> int32 i"
    using assms
    by (cases rule: value_wf_cases) (auto simp: get_int_def pointer_member_def int32_def [of 0] int32_def [of 1] range
        split: option.split)
qed

lemma value_compare_defined:
  assumes "value_wf l" "value_wf r" "attr_type l = attr_type r"
  shows "\<exists>c. value_compare F l r = Some c"
  using assms(1)
proof (cases rule: value_wf_cases)
  case (floats x)
  obtain y where "get_float F r = Some y" using get_defined(1) [OF assms(2)] by blast
  then show ?thesis using floats assms(3) by (auto simp: value_compare_def compare_defs get_float_def)
qed (use assms(2,3) in \<open>cases rule: value_wf_cases [OF assms(2)]; auto simp: value_compare_def compare_defs pointer_member_def\<close>)+

section \<open>Numbers and their text\<close>

lemma is_digit_byte: "d < 10 \<Longrightarrow> is_digit (word_of_nat (48 + d)) \<and> uint (word_of_nat (48 + d) :: byte) = 48 + int d"
proof -
  assume d: "d < 10"
  have u: "uint (word_of_nat (48 + d) :: byte) = 48 + int d"
    using d by (simp add: unsigned_of_nat take_bit_nat_eq_self uint_nat unat_of_nat del: of_nat_add)
  have "(48 :: byte) \<le> word_of_nat (48 + d) \<and> (word_of_nat (48 + d) :: byte) \<le> 57"
    unfolding word_le_def u using d by simp
  then show ?thesis using u by (simp add: is_digit_def)
qed

lemma digits_value_snoc: "digits_value (ds @ [d]) = 10 * digits_value ds + (uint d - 48)"
  by (simp add: digits_value_def)

lemma nat_digits_value: "digits_value (nat_digits n) = int n \<and> list_all is_digit (nat_digits n) \<and> nat_digits n \<noteq> []"
proof (induction n rule: nat_digits.induct)
  case (1 n)
  show ?case
  proof (cases "n < 10")
    case True
    then show ?thesis using is_digit_byte [of n] by (simp add: nat_digits.simps [of n] digits_value_def)
  next
    case False
    have "10 * int (n div 10) + int (n mod 10) = int n"
      by (metis mult_div_mod_eq of_nat_add of_nat_mult of_nat_numeral)
    then show ?thesis
      using 1 [OF False] False is_digit_byte [of "n mod 10"]
      by (simp add: nat_digits.simps [of n] digits_value_snoc)
  qed
qed

lemma scan_digits_nat: "scan_digits (nat_digits n) = Some (int n, [])"
  using nat_digits_value [of n]
  by (simp add: scan_digits_def list_all_iff takeWhile_eq_all_conv [THEN iffD2] dropWhile_eq_Nil_conv [THEN iffD2])

lemma scan_int_str: "scan_int (int_str i) = Some (i, [])"
proof -
  obtain c cs where c: "nat_digits (nat i) = c # cs" and d: "is_digit c"
    using nat_digits_value [of "nat i"] by (cases "nat_digits (nat i)") auto
  have ns: "\<not> is_space c" "c \<noteq> 45" "c \<noteq> 43"
    using d by (auto simp: is_digit_def is_space_def word_le_def)
  show ?thesis
  proof (cases "i < 0")
    case True
    then show ?thesis using scan_digits_nat [of "nat (- i)"] by (simp add: int_str_def scan_int_def is_space_def)
  next
    case False
    then show ?thesis using scan_digits_nat [of "nat i"] ns by (simp add: int_str_def scan_int_def c)
  qed
qed

section \<open>Properties\<close>

text \<open>
  An arithmetic for examples: whole numbers in the place of single precision
  numbers.
\<close>

definition whole_floats :: "int float_ops" where
  "whole_floats =
     \<lparr>f_of_int = id, f_of_bits = id, f_to_bits = id, f_to_int = Some, f_stof = (\<lambda>s. map_option fst (scan_int s)), f_str = int_str,
      f_add = (+), f_sub = (-), f_mul = (*), f_div = (div), f_neg = uminus, f_max = 2147483647,
      f_gt_eps = (\<lambda>x. 0 < x), f_ge_eps = (\<lambda>x. 0 < x), f_lt_eps = (\<lambda>x. x \<le> 0),
      f_gt_meps = (\<lambda>x. 0 \<le> x), f_le_meps = (\<lambda>x. x < 0), f_lt_meps = (\<lambda>x. x < 0)\<rparr>"



lemma int_str_no_zero: "0 \<notin> set (int_str i)"
proof -
  have "0 \<notin> set (nat_digits n)" for n
    using nat_digits_value [of n] by (auto simp: list_all_iff is_digit_def word_le_def)
  then show ?thesis by (auto simp: int_str_def)
qed

text \<open>
  Integers and their text: the text that a value prints for an integer is
  read back as the same integer by \<open>set_value_from_str\<close>, and a string value that
  holds the text converts to the integer.
\<close>

theorem int_text_roundtrip:
  assumes "int32 i" "value_wf v"
  shows "(\<exists>u. set_value_from_str float_in INTS v (int_str i) = Some (SUCCESS, u)
      \<and> value_wf u \<and> get_int F u = Some i \<and> value_to_string F u = Some (int_str i))
    \<and> (\<exists>u. set_string v (Some (int_str i @ [0])) 0 = Some u \<and> get_int F u = Some i)"
proof (rule conjI)
  have s: "stol (int_str i) = Some i" using assms(1) by (simp add: stol_def scan_int_str int32_def int64_def)
  show "\<exists>u. set_value_from_str float_in INTS v (int_str i) = Some (SUCCESS, u)
      \<and> value_wf u \<and> get_int F u = Some i \<and> value_to_string F u = Some (int_str i)"
    using assms by (simp add: set_value_from_str_def integer_from_str_def scan_int_str set_int_wf value_wf_def get_int_def value_to_string_def)
  have "cstring (int_str i) = int_str i" by (rule cstring_id) (rule int_str_no_zero)
  then show "\<exists>u. set_string v (Some (int_str i @ [0])) 0 = Some u \<and> get_int F u = Some i"
    using set_string_terminated [OF assms(2), of "int_str i" "[]"] s assms(1) by (simp add: get_int_def pointer_member_def)
qed

theorem int_text_roundtrip_witness:
  "\<exists>u. set_value_from_str (\<lambda>s. None) INTS (Value_default :: int sql_value) (int_str (-12)) = Some (SUCCESS, u)
     \<and> value_wf u \<and> get_int whole_floats u = Some (-12) \<and> value_to_string whole_floats u = Some (int_str (-12))"
  using int_text_roundtrip [of "-12" "Value_default" "\<lambda>s. None" whole_floats] by (simp add: int32_def)

end
