(* ===== verification/Sql_Tuple.thy ===== *)
theory Sql_Tuple
  imports Sql_Value
begin

text \<open>
  Tuples: the rows that expressions read (src/src/observer/sql/expr/tuple.h,
  tuple_cell.h and tuple_cell.cpp) and the description of a column
  (src/src/observer/storage/field/field_meta.cpp).  A row tuple reads the bytes
  of a record at the offset of a column, a joined tuple looks into its two
  sides in order, a value list holds computed values.

  The locale \<open>tuple_source\<close> states what an expression relies on when it asks a
  tuple for a column; it is interpreted on the tuples of the program.
\<close>

section \<open>Columns\<close>

record field_meta =
  fname :: string
  ftype :: attr_type
  foffset :: int
  flen :: int
  fvisible :: bool
  ffield_id :: int

definition is_blank :: "string \<Rightarrow> bool" where
  "is_blank s = list_all (\<lambda>c. is_space (of_char c)) s"

definition field_meta_init :: "string \<Rightarrow> attr_type \<Rightarrow> int \<Rightarrow> int \<Rightarrow> bool \<Rightarrow> int \<Rightarrow> rc \<times> field_meta option" where
  "field_meta_init name t offset len visible field_id =
     (if is_blank name then (INVALID_ARGUMENT, None)
      else if t = UNDEFINED \<or> offset < 0 \<or> len \<le> 0 then (INVALID_ARGUMENT, None)
      else (SUCCESS, Some \<lparr>fname = name, ftype = t, foffset = offset, flen = len,
                           fvisible = visible, ffield_id = field_id\<rparr>))"

text \<open>A field: a table, by its name, and a column of it.\<close>

record field =
  ftable :: string
  fmeta :: field_meta

record cell_spec =
  spec_table :: string
  spec_field :: string
  spec_alias :: string

definition TupleCellSpec :: "string \<Rightarrow> string \<Rightarrow> string option \<Rightarrow> cell_spec" where
  "TupleCellSpec table_name field_name alias =
     \<lparr>spec_table = table_name, spec_field = field_name,
      spec_alias =
        (case alias of
           Some a \<Rightarrow> a
         | None \<Rightarrow> if table_name = [] then field_name else table_name @ ''.'' @ field_name)\<rparr>"

definition TupleCellSpec_alias :: "string \<Rightarrow> cell_spec" where
  "TupleCellSpec_alias alias = \<lparr>spec_table = [], spec_field = [], spec_alias = alias\<rparr>"

section \<open>Tuples\<close>

datatype 'f tuple =
    RowTuple string "field_meta list" "byte list"
  | JoinedTuple "'f tuple" "'f tuple"
  | ValueListTuple "'f sql_value list" "cell_spec list"

fun cell_num :: "'f tuple \<Rightarrow> int" where
  "cell_num (RowTuple table speces record) = int (length speces)"
| "cell_num (JoinedTuple l r) = cell_num l + cell_num r"
| "cell_num (ValueListTuple cells specs) = int (length cells)"

text \<open>
  The column of a record: the type of the out-parameter is overwritten, then the
  bytes at the offset of the column are read.
\<close>

definition row_cell ::
  "'f float_ops \<Rightarrow> byte list \<Rightarrow> field_meta \<Rightarrow> 'f sql_value \<Rightarrow> 'f sql_value option" where
  "row_cell F record m cell = set_data F (set_type cell (ftype m)) (drop (nat (foffset m)) record) (flen m)"

fun cell_at :: "'f float_ops \<Rightarrow> 'f tuple \<Rightarrow> int \<Rightarrow> 'f sql_value \<Rightarrow> (rc \<times> 'f sql_value) option" where
  "cell_at F (RowTuple table speces record) index cell =
     (if index < 0 \<or> index \<ge> int (length speces) then Some (INVALID_ARGUMENT, cell)
      else do {
        v \<leftarrow> row_cell F record (speces ! nat index) cell;
        Some (SUCCESS, v)
      })"
| "cell_at F (JoinedTuple l r) index cell =
     (let left_cell_num = cell_num l
      in if 0 \<le> index \<and> index < left_cell_num then cell_at F l index cell
         else if left_cell_num \<le> index \<and> index < left_cell_num + cell_num r
              then cell_at F r (index - left_cell_num) cell
         else Some (NOTFOUND, cell))"
| "cell_at F (ValueListTuple cells specs) index cell =
     (if index < 0 \<or> index \<ge> int (length cells) then Some (NOTFOUND, cell)
      else do {
        v \<leftarrow> assign_value cell (cells ! nat index);
        Some (SUCCESS, v)
      })"

text \<open>The first column of the given name.\<close>

fun find_field :: "string \<Rightarrow> field_meta list \<Rightarrow> field_meta option" where
  "find_field name [] = None"
| "find_field name (m # ms) = (if name = fname m then Some m else find_field name ms)"

fun find_spec :: "cell_spec \<Rightarrow> 'f sql_value list \<Rightarrow> cell_spec list \<Rightarrow> 'f sql_value option" where
  "find_spec spec (c # cs) (s # ss) = (if s = spec then Some c else find_spec spec cs ss)"
| "find_spec spec _ _ = None"

fun find_cell :: "'f float_ops \<Rightarrow> 'f tuple \<Rightarrow> cell_spec \<Rightarrow> 'f sql_value \<Rightarrow> (rc \<times> 'f sql_value) option" where
  "find_cell F (RowTuple table speces record) spec cell =
     (if spec_table spec \<noteq> table then Some (NOTFOUND, cell)
      else (case find_field (spec_field spec) speces of
              None \<Rightarrow> Some (NOTFOUND, cell)
            | Some m \<Rightarrow> do {
                v \<leftarrow> row_cell F record m cell;
                Some (SUCCESS, v)
              }))"
| "find_cell F (JoinedTuple l r) spec cell = do {
     (rc, cell) \<leftarrow> find_cell F l spec cell;
     if rc = SUCCESS \<or> rc \<noteq> NOTFOUND then Some (rc, cell) else find_cell F r spec cell
   }"
| "find_cell F (ValueListTuple cells specs) spec cell =
     (if length cells \<noteq> length specs then None
      else (case find_spec spec cells specs of
              None \<Rightarrow> Some (NOTFOUND, cell)
            | Some c \<Rightarrow> do {
                v \<leftarrow> assign_value cell c;
                Some (SUCCESS, v)
              }))"

text \<open>
  \<open>Tuple::compare\<close>: first the numbers of cells, then the cells in order; the two
  values that receive the cells are reused from cell to cell.
\<close>

function tuple_compare_from ::
  "'f float_ops \<Rightarrow> 'f tuple \<Rightarrow> 'f tuple \<Rightarrow> int \<Rightarrow> 'f sql_value \<Rightarrow> 'f sql_value \<Rightarrow> (rc \<times> int) option" where
  "tuple_compare_from F this other i this_value other_value =
     (if i \<ge> cell_num this then Some (SUCCESS, 0)
      else do {
        (rc, this_value) \<leftarrow> cell_at F this i this_value;
        if rc \<noteq> SUCCESS then Some (rc, 0)
        else do {
          (rc, other_value) \<leftarrow> cell_at F other i other_value;
          if rc \<noteq> SUCCESS then Some (rc, 0)
          else do {
            result \<leftarrow> value_compare F this_value other_value;
            if result \<noteq> 0 then Some (SUCCESS, result)
            else tuple_compare_from F this other (i + 1) this_value other_value
          }
        }
      })"
  by pat_completeness auto
termination
  by (relation "measure (\<lambda>(F, this, other, i, tv, ov). nat (cell_num this - i))") auto

declare tuple_compare_from.simps [simp del]

definition tuple_compare :: "'f float_ops \<Rightarrow> 'f tuple \<Rightarrow> 'f tuple \<Rightarrow> (rc \<times> int) option" where
  "tuple_compare F this other =
     (if cell_num this < cell_num other then Some (SUCCESS, -1)
      else if cell_num this > cell_num other then Some (SUCCESS, 1)
      else tuple_compare_from F this other 0 Value_default Value_default)"

section \<open>What a tuple promises\<close>

text \<open>
  The interface between expressions and tuples, over the type of the cell that
  the search finds: asked with an out-parameter that owns no memory, a tuple
  answers with a well-formed value of that type, and with NOTFOUND when it has
  no such cell.
\<close>

definition fresh_value :: "'f sql_value \<Rightarrow> bool" where
  "fresh_value v \<longleftrightarrow> value_wf v \<and> \<not> own_data v"

locale tuple_source =
  fixes find :: "'t \<Rightarrow> cell_spec \<Rightarrow> 'f sql_value \<Rightarrow> (rc \<times> 'f sql_value) option"
    and type_of :: "'t \<Rightarrow> cell_spec \<Rightarrow> attr_type option"
    and ok :: "'t \<Rightarrow> bool"
  assumes find_known:
      "ok t \<Longrightarrow> fresh_value v \<Longrightarrow> type_of t spec = Some a
        \<Longrightarrow> \<exists>v'. find t spec v = Some (SUCCESS, v') \<and> value_wf v' \<and> attr_type v' = a"
    and find_unknown: "ok t \<Longrightarrow> fresh_value v \<Longrightarrow> type_of t spec = None \<Longrightarrow> find t spec v = Some (NOTFOUND, v)"

text \<open>
  A column lies inside the record, and a column of a numeric type has at least
  four bytes.
\<close>

definition column_ok :: "byte list \<Rightarrow> field_meta \<Rightarrow> bool" where
  "column_ok record m \<longleftrightarrow>
     ftype m \<noteq> UNDEFINED \<and> 0 \<le> foffset m \<and> 0 < flen m \<and> foffset m + flen m \<le> int (length record)
     \<and> (ftype m \<noteq> CHARS \<longrightarrow> 4 \<le> flen m)"

fun tuple_ok :: "'f tuple \<Rightarrow> bool" where
  "tuple_ok (RowTuple table speces record) \<longleftrightarrow> list_all (column_ok record) speces"
| "tuple_ok (JoinedTuple l r) \<longleftrightarrow> tuple_ok l \<and> tuple_ok r"
| "tuple_ok (ValueListTuple cells specs) \<longleftrightarrow> length cells = length specs \<and> list_all value_copyable cells"

fun cell_type :: "'f tuple \<Rightarrow> cell_spec \<Rightarrow> attr_type option" where
  "cell_type (RowTuple table speces record) spec =
     (if spec_table spec \<noteq> table then None else map_option ftype (find_field (spec_field spec) speces))"
| "cell_type (JoinedTuple l r) spec =
     (case cell_type l spec of Some t \<Rightarrow> Some t | None \<Rightarrow> cell_type r spec)"
| "cell_type (ValueListTuple cells specs) spec = map_option attr_type (find_spec spec cells specs)"

lemma fresh_value_default [simp]: "fresh_value Value_default" "fresh_value (bool_value b)"
  by (simp_all add: fresh_value_def Value_default_def bool_value_def value_wf_def)

lemma fresh_value_wf: "fresh_value v \<Longrightarrow> value_wf v"
  by (simp add: fresh_value_def)

lemma fresh_value_type: "value_wf v \<Longrightarrow> attr_type v \<noteq> CHARS \<Longrightarrow> fresh_value v"
  using value_wf_own by (auto simp: fresh_value_def)

text \<open>A string column is cut at its first terminator or at the length of the column.\<close>

lemma c_strnlen_bounded: "n \<le> length s \<Longrightarrow> c_strnlen s n = Some (length (cstring (take n s)))"
  using length_takeWhile_le [of "\<lambda>c. c \<noteq> 0" "take n s"]
  by (auto simp: c_strnlen_def cstring_def Let_def)

lemma take_cstring_take: "take (length (cstring (take n s))) s = cstring (take n s)"
  using take_length_cstring [of "take n s" "drop n s"] by simp

lemma set_string_bounded:
  assumes "\<not> own_data v" "0 < n" "nat n \<le> length s"
  shows "set_string v (Some s) n =
    Some (v\<lparr>attr_type := CHARS, val_length := int (length (cstring (take (nat n) s))),
            val := Pointer_value (Some (cstring (take (nat n) s))), own_data := True\<rparr>)"
  using assms by (simp add: set_string_def value_reset_free c_strnlen_bounded take_cstring_take)

lemma read_int32_defined: "4 \<le> length bs \<Longrightarrow> \<exists>i r. read_int32 bs = Some (i, r) \<and> int32 i"
proof -
  assume "4 \<le> length bs"
  then obtain i r where "read_int32 bs = Some (i, r)" by (auto simp: read_int32_def read_span_def)
  then show ?thesis using read_int32_range by blast
qed

lemma row_cell_ok:
  assumes "column_ok record m" "fresh_value v"
  obtains v' where "row_cell F record m v = Some v'" "value_wf v'" "attr_type v' = ftype m"
proof -
  let ?d = "drop (nat (foffset m)) record"
  have len: "nat (flen m) \<le> length ?d" "0 < flen m" and own: "\<not> own_data v" and t: "ftype m \<noteq> UNDEFINED"
    using assms by (auto simp: column_ok_def fresh_value_def)
  show ?thesis
  proof (cases "ftype m = CHARS")
    case True
    then show ?thesis
      using that set_string_bounded [of "set_type v CHARS" "flen m" ?d] len own
      by (simp add: row_cell_def set_data_def set_type_def value_wf_def)
  next
    case False
    then have "4 \<le> length ?d" using assms(1) len by (simp add: column_ok_def) linarith
    then obtain i r where "read_int32 ?d = Some (i, r)" "int32 i" using read_int32_defined by blast
    then show ?thesis
      using that False t own
      by (cases "ftype m") (simp_all add: row_cell_def set_data_def set_type_def value_wf_def)
  qed
qed

lemma find_field_in: "find_field name ms = Some m \<Longrightarrow> m \<in> set ms \<and> fname m = name"
  by (induction ms) (auto split: if_splits)

lemma find_spec_in: "find_spec spec cells specs = Some c \<Longrightarrow> c \<in> set cells"
  by (induction spec cells specs rule: find_spec.induct) (auto split: if_splits)

lemma find_cell_unknown:
  "tuple_ok t \<Longrightarrow> cell_type t spec = None \<Longrightarrow> find_cell F t spec v = Some (NOTFOUND, v)"
  by (induction t) (auto split: option.splits if_splits)

lemma find_cell_known:
  assumes "tuple_ok t" "fresh_value v" "cell_type t spec = Some a"
  shows "\<exists>v'. find_cell F t spec v = Some (SUCCESS, v') \<and> value_wf v' \<and> attr_type v' = a"
  using assms
proof (induction t)
  case (RowTuple table speces data)
  then obtain m where m: "find_field (spec_field spec) speces = Some m" "ftype m = a" "spec_table spec = table"
    by (auto split: if_splits)
  then have "column_ok data m" using RowTuple.prems(1) find_field_in by (fastforce simp: list_all_iff)
  then obtain v' where "row_cell F data m v = Some v'" "value_wf v'" "attr_type v' = ftype m"
    using row_cell_ok RowTuple.prems(2) by blast
  then show ?case using m by simp
next
  case (JoinedTuple l r)
  then show ?case by (auto simp: find_cell_unknown split: option.splits)
next
  case (ValueListTuple cells specs)
  then obtain c where c: "find_spec spec cells specs = Some c" "attr_type c = a" by auto
  then have "value_copyable c" using ValueListTuple.prems(1) find_spec_in by (fastforce simp: list_all_iff)
  then show ?case
    using c ValueListTuple.prems(1,2)
    by (simp add: assign_value_copyable fresh_value_wf) (simp add: value_copyable_def)
qed

interpretation row: tuple_source "find_cell F" cell_type tuple_ok for F
  by unfold_locales (simp_all add: find_cell_known find_cell_unknown)

end
