(* ===== verification/Expression.thy ===== *)
theory Expression
  imports Sql_Tuple
begin

text \<open>
  Expressions: src/src/observer/sql/expr/expression.cpp and expression.h.  The
  classes of expressions are the constructors of a datatype; an expression is
  evaluated on a tuple into an out-parameter (\<open>get_value\<close>) or without a tuple
  (\<open>try_get_value\<close>).  The tuple is the function that finds a cell.
\<close>

section \<open>Expressions\<close>

datatype comp_op = EQUAL_TO | LESS_EQUAL | NOT_EQUAL | LESS_THAN | GREAT_EQUAL | GREAT_THAN | NO_OP

datatype conj_type = CONJ_AND | CONJ_OR

datatype arith_type = ADD | SUB | MUL | DIV | NEGATIVE

datatype aggr_type = AGGR_COUNT | AGGR_SUM | AGGR_AVG | AGGR_MAX | AGGR_MIN

text \<open>An aggregate carries its name, under which its value is found in a tuple.\<close>

datatype 'f expr =
    STAR string
  | UNBOUND_FIELD string string
  | UNBOUND_AGGREGATION string "'f expr"
  | FIELD field
  | VALUE "'f sql_value"
  | CAST "'f expr" attr_type
  | COMPARISON comp_op "'f expr" "'f expr"
  | CONJUNCTION conj_type "'f expr list"
  | ARITHMETIC arith_type "'f expr" "'f expr option"
  | AGGREGATION aggr_type string "'f expr"

primrec value_type :: "'f expr \<Rightarrow> attr_type" where
  "value_type (STAR t) = UNDEFINED"
| "value_type (UNBOUND_FIELD t f) = UNDEFINED"
| "value_type (UNBOUND_AGGREGATION n child) = value_type child"
| "value_type (FIELD f) = ftype (fmeta f)"
| "value_type (VALUE v) = attr_type v"
| "value_type (CAST child t) = t"
| "value_type (COMPARISON c l r) = BOOLEANS"
| "value_type (CONJUNCTION t children) = BOOLEANS"
| "value_type (ARITHMETIC a l r) =
     (case map_option value_type r of
        None \<Rightarrow> value_type l
      | Some rt \<Rightarrow> if value_type l = INTS \<and> rt = INTS \<and> a \<noteq> DIV then INTS else FLOATS)"
| "value_type (AGGREGATION a n child) = value_type child"

section \<open>Evaluation of single nodes\<close>

definition cast_value :: "attr_type \<Rightarrow> 'f sql_value \<Rightarrow> 'f sql_value \<Rightarrow> (rc \<times> 'f sql_value) option" where
  "cast_value cast_type v result =
     (if cast_type = attr_type v then do { u \<leftarrow> assign_value result v; Some (SUCCESS, u) }
      else Some (value_cast_to v cast_type result))"

definition compare_value ::
  "'f float_ops \<Rightarrow> comp_op \<Rightarrow> 'f sql_value \<Rightarrow> 'f sql_value \<Rightarrow> (rc \<times> bool) option" where
  "compare_value F c l r = do {
     cmp_result \<leftarrow> value_compare F l r;
     Some (case c of
             EQUAL_TO \<Rightarrow> (SUCCESS, cmp_result = 0)
           | LESS_EQUAL \<Rightarrow> (SUCCESS, cmp_result \<le> 0)
           | NOT_EQUAL \<Rightarrow> (SUCCESS, cmp_result \<noteq> 0)
           | LESS_THAN \<Rightarrow> (SUCCESS, cmp_result < 0)
           | GREAT_EQUAL \<Rightarrow> (SUCCESS, cmp_result \<ge> 0)
           | GREAT_THAN \<Rightarrow> (SUCCESS, cmp_result > 0)
           | NO_OP \<Rightarrow> (INTERNAL, False))
   }"

text \<open>Comparing two computed values and storing the result.\<close>

definition store_comparison ::
  "'f float_ops \<Rightarrow> comp_op \<Rightarrow> 'f sql_value \<Rightarrow> 'f sql_value \<Rightarrow> 'f sql_value \<Rightarrow> (rc \<times> 'f sql_value) option" where
  "store_comparison F c l r result = do {
     (rc, b) \<leftarrow> compare_value F c l r;
     if rc = SUCCESS then do { v \<leftarrow> set_boolean result b; Some (rc, v) } else Some (rc, result)
   }"

text \<open>The return code of the operation on the values is dropped.\<close>

definition calc_value ::
  "'f float_ops \<Rightarrow> arith_type \<Rightarrow> attr_type \<Rightarrow> 'f sql_value \<Rightarrow> 'f sql_value \<Rightarrow> 'f sql_value
    \<Rightarrow> (rc \<times> 'f sql_value) option" where
  "calc_value F a target_type l r result =
     (let result = set_type result target_type
      in do {
        (rc, v) \<leftarrow> (case a of
                       ADD \<Rightarrow> value_add F l r result
                     | SUB \<Rightarrow> value_subtract F l r result
                     | MUL \<Rightarrow> value_multiply F l r result
                     | DIV \<Rightarrow> value_divide F l r result
                     | NEGATIVE \<Rightarrow> value_negative F l result);
        Some (SUCCESS, v)
      })"

text \<open>
  The loop of a conjunction over the evaluations of its children; \<open>tmp\<close> is the
  value that receives the result of every child.
\<close>

fun conjunction_loop ::
  "'f float_ops \<Rightarrow> conj_type \<Rightarrow> ('f sql_value \<Rightarrow> (rc \<times> 'f sql_value) option) list
    \<Rightarrow> 'f sql_value \<Rightarrow> 'f sql_value \<Rightarrow> (rc \<times> 'f sql_value) option" where
  "conjunction_loop F t [] tmp result = do {
     v \<leftarrow> set_boolean result (t = CONJ_AND);
     Some (SUCCESS, v)
   }"
| "conjunction_loop F t (child # children) tmp result = do {
     (rc, tmp) \<leftarrow> child tmp;
     if rc \<noteq> SUCCESS then Some (rc, result)
     else do {
       b \<leftarrow> get_boolean F tmp;
       if t = CONJ_AND \<and> \<not> b \<or> t = CONJ_OR \<and> b
       then do { v \<leftarrow> set_boolean result b; Some (SUCCESS, v) }
       else conjunction_loop F t children tmp result
     }
   }"

section \<open>Evaluation on a tuple\<close>

type_synonym 'f cell_finder = "cell_spec \<Rightarrow> 'f sql_value \<Rightarrow> (rc \<times> 'f sql_value) option"

type_synonym 'f evaluation = "'f sql_value \<Rightarrow> (rc \<times> 'f sql_value) option"

text \<open>
  One definition per class, over the evaluations of the operands.  The right
  operand of an arithmetic expression is dereferenced without a test: for a unary
  minus it is null.
\<close>

definition field_get_value :: "'f cell_finder \<Rightarrow> field \<Rightarrow> 'f evaluation" where
  "field_get_value finder f = finder (TupleCellSpec (ftable f) (fname (fmeta f)) None)"

definition constant_get_value :: "'f sql_value \<Rightarrow> 'f evaluation" where
  "constant_get_value v result = do { u \<leftarrow> assign_value result v; Some (SUCCESS, u) }"

definition cast_get_value :: "attr_type \<Rightarrow> 'f evaluation \<Rightarrow> 'f evaluation" where
  "cast_get_value t get_child result = do {
     (rc, v) \<leftarrow> get_child Value_default;
     if rc \<noteq> SUCCESS then Some (rc, result) else cast_value t v result
   }"

definition comparison_get_value :: "'f float_ops \<Rightarrow> comp_op \<Rightarrow> 'f evaluation \<Rightarrow> 'f evaluation \<Rightarrow> 'f evaluation" where
  "comparison_get_value F c get_left get_right result = do {
     (rc, lv) \<leftarrow> get_left Value_default;
     if rc \<noteq> SUCCESS then Some (rc, result)
     else do {
       (rc, rv) \<leftarrow> get_right Value_default;
       if rc \<noteq> SUCCESS then Some (rc, result) else store_comparison F c lv rv result
     }
   }"

definition conjunction_get_value :: "'f float_ops \<Rightarrow> conj_type \<Rightarrow> 'f evaluation list \<Rightarrow> 'f evaluation" where
  "conjunction_get_value F t get_children result =
     (if get_children = [] then do { v \<leftarrow> set_boolean result True; Some (SUCCESS, v) }
      else conjunction_loop F t get_children Value_default result)"

definition arithmetic_get_value ::
  "'f float_ops \<Rightarrow> arith_type \<Rightarrow> attr_type \<Rightarrow> 'f evaluation \<Rightarrow> 'f evaluation option \<Rightarrow> 'f evaluation" where
  "arithmetic_get_value F a target_type get_left get_right result = do {
     (rc, lv) \<leftarrow> get_left Value_default;
     if rc \<noteq> SUCCESS then Some (rc, result)
     else (case get_right of
             None \<Rightarrow> None
           | Some right \<Rightarrow> do {
               (rc, rv) \<leftarrow> right Value_default;
               if rc \<noteq> SUCCESS then Some (rc, result) else calc_value F a target_type lv rv result
             })
   }"

definition aggregate_get_value :: "'f cell_finder \<Rightarrow> string \<Rightarrow> 'f evaluation" where
  "aggregate_get_value finder name = finder (TupleCellSpec_alias name)"

primrec get_value :: "'f float_ops \<Rightarrow> 'f cell_finder \<Rightarrow> 'f expr \<Rightarrow> 'f evaluation" where
  "get_value F finder (STAR t) = (\<lambda>result. Some (UNIMPLEMENTED, result))"
| "get_value F finder (UNBOUND_FIELD t f) = (\<lambda>result. Some (INTERNAL, result))"
| "get_value F finder (UNBOUND_AGGREGATION n child) = (\<lambda>result. Some (INTERNAL, result))"
| "get_value F finder (FIELD f) = field_get_value finder f"
| "get_value F finder (VALUE v) = constant_get_value v"
| "get_value F finder (CAST child t) = cast_get_value t (get_value F finder child)"
| "get_value F finder (COMPARISON c l r) = comparison_get_value F c (get_value F finder l) (get_value F finder r)"
| "get_value F finder (CONJUNCTION t children) = conjunction_get_value F t (map (get_value F finder) children)"
| "get_value F finder (ARITHMETIC a l r) =
     arithmetic_get_value F a (value_type (ARITHMETIC a l r)) (get_value F finder l) (map_option (get_value F finder) r)"
| "get_value F finder (AGGREGATION a n child) = aggregate_get_value finder n"

section \<open>Evaluation without a tuple\<close>

definition comparison_try_get_value :: "'f float_ops \<Rightarrow> comp_op \<Rightarrow> 'f expr \<Rightarrow> 'f expr \<Rightarrow> 'f evaluation" where
  "comparison_try_get_value F c l r result =
     (case (l, r) of
        (VALUE lv, VALUE rv) \<Rightarrow> store_comparison F c lv rv result
      | _ \<Rightarrow> Some (INVALID_ARGUMENT, result))"

definition arithmetic_try_get_value ::
  "'f float_ops \<Rightarrow> arith_type \<Rightarrow> attr_type \<Rightarrow> 'f evaluation \<Rightarrow> 'f evaluation option \<Rightarrow> 'f evaluation" where
  "arithmetic_try_get_value F a target_type try_left try_right result = do {
     (rc, lv) \<leftarrow> try_left Value_default;
     if rc \<noteq> SUCCESS then Some (rc, result)
     else do {
       (rc, rv) \<leftarrow> (case try_right of
                       None \<Rightarrow> Some (SUCCESS, Value_default)
                     | Some right \<Rightarrow> right Value_default);
       if rc \<noteq> SUCCESS then Some (rc, result) else calc_value F a target_type lv rv result
     }
   }"

primrec try_get_value :: "'f float_ops \<Rightarrow> 'f expr \<Rightarrow> 'f evaluation" where
  "try_get_value F (STAR t) = (\<lambda>result. Some (UNIMPLEMENTED, result))"
| "try_get_value F (UNBOUND_FIELD t f) = (\<lambda>result. Some (UNIMPLEMENTED, result))"
| "try_get_value F (UNBOUND_AGGREGATION n child) = (\<lambda>result. Some (UNIMPLEMENTED, result))"
| "try_get_value F (FIELD f) = (\<lambda>result. Some (UNIMPLEMENTED, result))"
| "try_get_value F (VALUE v) = constant_get_value v"
| "try_get_value F (CAST child t) = cast_get_value t (try_get_value F child)"
| "try_get_value F (COMPARISON c l r) = comparison_try_get_value F c l r"
| "try_get_value F (CONJUNCTION t children) = (\<lambda>result. Some (UNIMPLEMENTED, result))"
| "try_get_value F (ARITHMETIC a l r) =
     arithmetic_try_get_value F a (value_type (ARITHMETIC a l r)) (try_get_value F l) (map_option (try_get_value F) r)"
| "try_get_value F (AGGREGATION a n child) = (\<lambda>result. Some (UNIMPLEMENTED, result))"

declare field_get_value_def [simp] constant_get_value_def [simp] cast_get_value_def [simp] comparison_get_value_def [simp]
  conjunction_get_value_def [simp] arithmetic_get_value_def [simp] aggregate_get_value_def [simp]
  comparison_try_get_value_def [simp] arithmetic_try_get_value_def [simp]

section \<open>Well-typed expressions\<close>

text \<open>
  The expressions that the planner builds over known columns: the two sides of a
  comparison have the same type, the children of a conjunction are conditions,
  constants are values that can be copied.  Excluded are a unary minus, an
  integer sum, difference or product (it can overflow) and the cast of a string.
\<close>

primrec expr_ok :: "(cell_spec \<Rightarrow> attr_type option) \<Rightarrow> 'f expr \<Rightarrow> bool" where
  "expr_ok ct (STAR t) = True"
| "expr_ok ct (UNBOUND_FIELD t f) = True"
| "expr_ok ct (UNBOUND_AGGREGATION n child) = True"
| "expr_ok ct (FIELD f) =
     (case ct (TupleCellSpec (ftable f) (fname (fmeta f)) None) of None \<Rightarrow> True | Some t \<Rightarrow> t = ftype (fmeta f))"
| "expr_ok ct (VALUE v) = value_copyable v"
| "expr_ok ct (CAST child t) = (expr_ok ct child \<and> value_type child \<noteq> CHARS)"
| "expr_ok ct (COMPARISON c l r) = (expr_ok ct l \<and> expr_ok ct r \<and> value_type l = value_type r)"
| "expr_ok ct (CONJUNCTION t children) =
     (list_all (\<lambda>e. value_type e = BOOLEANS) children \<and> list_all id (map (expr_ok ct) children))"
| "expr_ok ct (ARITHMETIC a l r) =
     (value_type (ARITHMETIC a l r) = FLOATS \<and> expr_ok ct l
      \<and> (case map_option (expr_ok ct) r of None \<Rightarrow> False | Some b \<Rightarrow> b))"
| "expr_ok ct (AGGREGATION a n child) =
     (case ct (TupleCellSpec_alias n) of None \<Rightarrow> True | Some t \<Rightarrow> t = value_type child)"

text \<open>A defined outcome: a return code and a well-formed value, of the type \<open>t\<close> on success.\<close>

definition typed_result :: "attr_type \<Rightarrow> (rc \<times> 'f sql_value) option \<Rightarrow> bool" where
  "typed_result t r =
     (case r of None \<Rightarrow> False | Some (rc, v) \<Rightarrow> value_wf v \<and> (rc = SUCCESS \<longrightarrow> attr_type v = t))"

lemma typed_resultE:
  assumes "typed_result t r"
  obtains rc v where "r = Some (rc, v)" "value_wf v" "rc = SUCCESS \<Longrightarrow> attr_type v = t"
  using assms by (auto simp: typed_result_def split: option.splits)

lemma typed_result_fail: "value_wf v \<Longrightarrow> rc \<noteq> SUCCESS \<Longrightarrow> typed_result t (Some (rc, v))"
  by (simp add: typed_result_def)

lemma set_float_free:
  "\<not> own_data v \<Longrightarrow> set_float v x = Some (v\<lparr>attr_type := FLOATS, val_length := 4, val := Float_value x, own_data := False\<rparr>)"
  by (simp add: set_float_def value_reset_free)

lemma cast_value_typed:
  assumes "value_wf v" "attr_type v \<noteq> CHARS" "value_wf result"
  shows "typed_result t (cast_value t v result)"
proof -
  have "value_copyable v" using assms by (simp add: value_copyable_def)
  then have "assign_value result v = Some v" by (rule assign_value_copyable [OF assms(3)])
  then show ?thesis
    using assms by (auto simp: cast_value_def value_cast_to_def typed_result_def split: attr_type.splits)
qed

lemma store_comparison_typed:
  assumes "value_wf l" "value_wf r" "attr_type l = attr_type r" "value_wf result"
  shows "typed_result BOOLEANS (store_comparison F c l r result)"
proof -
  obtain k where "value_compare F l r = Some k" using value_compare_defined [OF assms(1-3)] by blast
  then show ?thesis
    using assms(4)
    by (cases c) (simp_all add: store_comparison_def compare_value_def set_boolean_wf typed_result_def bool_value_def value_wf_def)
qed

lemma calc_value_typed:
  assumes "value_wf l" "value_wf r" "fresh_value result"
  shows "typed_result FLOATS (calc_value F a FLOATS l r result)"
proof -
  obtain x where x: "get_float F l = Some x" using get_defined(1) [OF assms(1)] by blast
  obtain y where y: "get_float F r = Some y" using get_defined(1) [OF assms(2)] by blast
  have own: "\<not> own_data (set_type result FLOATS)" using assms(3) by (simp add: set_type_def fresh_value_def)
  show ?thesis
    using set_float_free [OF own] x y
    by (cases a) (simp_all add: calc_value_def Let_def arithmetic_defs typed_result_def value_wf_def set_type_def)
qed

lemma conjunction_loop_typed:
  assumes "\<forall>g\<in>set gs. \<forall>v. fresh_value v \<longrightarrow> typed_result BOOLEANS (g v)" "fresh_value tmp" "value_wf result"
  shows "typed_result BOOLEANS (conjunction_loop F t gs tmp result)"
  using assms
proof (induction gs arbitrary: tmp)
  case Nil
  then show ?case by (simp add: set_boolean_wf typed_result_def bool_value_def value_wf_def)
next
  case (Cons g gs)
  then have "typed_result BOOLEANS (g tmp)" by simp
  then obtain rc v where g: "g tmp = Some (rc, v)" "value_wf v" "rc = SUCCESS \<longrightarrow> attr_type v = BOOLEANS"
    by (auto elim: typed_resultE)
  show ?case
  proof (cases "rc = SUCCESS")
    case False
    then show ?thesis using g Cons.prems(3) by (simp add: typed_result_fail)
  next
    case True
    obtain b where b: "get_boolean F v = Some b" using get_defined(2) [OF g(2)] by blast
    have "typed_result BOOLEANS (conjunction_loop F t gs v result)"
      using Cons.prems g True by (intro Cons.IH) (auto intro: fresh_value_type)
    then show ?thesis
      using g True b Cons.prems(3) by (simp add: set_boolean_wf typed_result_def bool_value_def value_wf_def)
  qed
qed

text \<open>
  The client of the interface: on every tuple source the evaluation of a
  well-typed expression is defined and gives a value of the type of the expression.
\<close>

context tuple_source
begin

lemma find_typed:
  assumes "ok t" "fresh_value v" "case type_of t spec of None \<Rightarrow> True | Some a' \<Rightarrow> a' = a"
  shows "typed_result a (find t spec v)"
proof (cases "type_of t spec")
  case None
  then show ?thesis using assms find_unknown by (simp add: typed_result_fail fresh_value_wf)
next
  case (Some a')
  then show ?thesis using assms find_known [OF assms(1,2) Some] by (auto simp: typed_result_def)
qed

lemma get_value_well_typed:
  assumes "ok t"
  shows "expr_ok (type_of t) e \<Longrightarrow> fresh_value v \<Longrightarrow> typed_result (value_type e) (get_value F (find t) e v)"
proof (induction e arbitrary: v)
  case (VALUE w)
  then show ?case
    by (simp add: assign_value_copyable fresh_value_wf typed_result_def) (simp add: value_copyable_def)
next
  case (CAST child a)
  then have "typed_result (value_type child) (get_value F (find t) child Value_default)" by simp
  then show ?case
    using CAST.prems cast_value_typed [of _ v a]
    by (elim typed_resultE) (auto simp: typed_result_fail fresh_value_wf)
next
  case (COMPARISON c l r)
  then have "typed_result (value_type l) (get_value F (find t) l Value_default)"
    "typed_result (value_type r) (get_value F (find t) r Value_default)" by simp_all
  then show ?case
    using COMPARISON.prems store_comparison_typed [of _ _ v F c]
    by (elim typed_resultE) (auto simp: typed_result_fail fresh_value_wf)
next
  case (CONJUNCTION c children)
  have "\<forall>g\<in>set (map (get_value F (find t)) children). \<forall>w. fresh_value w \<longrightarrow> typed_result BOOLEANS (g w)"
    using CONJUNCTION by (fastforce simp: list_all_iff)
  then have "typed_result BOOLEANS (conjunction_loop F c (map (get_value F (find t)) children) Value_default v)"
    using CONJUNCTION.prems(2) by (intro conjunction_loop_typed) (auto simp: fresh_value_wf)
  then show ?case
    using CONJUNCTION.prems(2)
    by (simp add: set_boolean_wf fresh_value_wf) (simp add: typed_result_def bool_value_def value_wf_def)
next
  case (ARITHMETIC a l r)
  then obtain r' where r: "r = Some r'" "expr_ok (type_of t) r'" by (cases r) auto
  have "typed_result (value_type l) (get_value F (find t) l Value_default)"
    "typed_result (value_type r') (get_value F (find t) r' Value_default)"
    using ARITHMETIC r by simp_all
  moreover have "value_type (ARITHMETIC a l r) = FLOATS" using ARITHMETIC.prems(1) by simp
  ultimately show ?case
    using r ARITHMETIC.prems(2) calc_value_typed [of _ _ v F a]
    by (elim typed_resultE) (auto simp: typed_result_fail fresh_value_wf simp del: value_type.simps)
qed (auto simp: typed_result_fail fresh_value_wf intro: find_typed [OF assms])

end



end
