(* ===== verification/Expr_Rewriter.thy ===== *)
theory Expr_Rewriter
  imports Expression
begin

text \<open>
  Simplification of expressions: the rules of
  src/src/observer/sql/optimizer/comparison_simplification_rule.cpp and
  conjunction_simplification_rule.cpp and the recursion of
  expression_rewriter.cpp that applies them.  A routine returns the return code,
  the new expression and \<open>change_made\<close>.
\<close>

section \<open>The rules\<close>

definition comparison_rule :: "'f float_ops \<Rightarrow> 'f expr \<Rightarrow> (rc \<times> 'f expr \<times> bool) option" where
  "comparison_rule F e =
     (case e of
        COMPARISON c l r \<Rightarrow> do {
          (sub_rc, v) \<leftarrow> try_get_value F e Value_default;
          if sub_rc = SUCCESS then do { u \<leftarrow> copy_value v; Some (SUCCESS, VALUE u, True) }
          else Some (SUCCESS, e, False)
        }
      | _ \<Rightarrow> Some (SUCCESS, e, False))"

text \<open>The inner option is \<open>None\<close> where the source returns INTERNAL: not a boolean constant.\<close>

definition try_to_get_bool_constant :: "'f float_ops \<Rightarrow> 'f expr \<Rightarrow> bool option option" where
  "try_to_get_bool_constant F e =
     (case e of
        VALUE v \<Rightarrow> if attr_type v = BOOLEANS then map_option Some (get_boolean F v) else Some None
      | _ \<Rightarrow> Some None)"

text \<open>
  The scan over the children: \<open>kept\<close> are the children before the iterator.  A
  constant that decides the conjunction ends the scan with the first child of
  the list, the result of the source; \<open>Inr\<close> are the children that are left.
\<close>

fun conjunction_scan ::
  "'f float_ops \<Rightarrow> conj_type \<Rightarrow> 'f expr list \<Rightarrow> 'f expr list \<Rightarrow> ('f expr + 'f expr list) option" where
  "conjunction_scan F t kept [] = Some (Inr kept)"
| "conjunction_scan F t kept (c # cs) = do {
     k \<leftarrow> try_to_get_bool_constant F c;
     case k of
       None \<Rightarrow> conjunction_scan F t (kept @ [c]) cs
     | Some constant_value \<Rightarrow>
         if t = CONJ_AND
         then if constant_value then conjunction_scan F t kept cs else Some (Inl (hd (kept @ c # cs)))
         else if constant_value then Some (Inl (hd (kept @ c # cs))) else conjunction_scan F t kept cs
   }"

definition conjunction_rule :: "'f float_ops \<Rightarrow> 'f expr \<Rightarrow> (rc \<times> 'f expr \<times> bool) option" where
  "conjunction_rule F e =
     (case e of
        CONJUNCTION t children \<Rightarrow> do {
          s \<leftarrow> conjunction_scan F t [] children;
          Some (case s of
                  Inl child \<Rightarrow> (SUCCESS, child, False)
                | Inr [child] \<Rightarrow> (SUCCESS, child, True)
                | Inr left \<Rightarrow> (SUCCESS, CONJUNCTION t left, False))
        }
      | _ \<Rightarrow> Some (SUCCESS, e, False))"

section \<open>The recursion\<close>

text \<open>
  A rewriting of every element of a list, as the rewriters do for expressions
  and operators: it ends at the first failure and joins the change flags.
\<close>

fun rewrite_all :: "('a \<Rightarrow> (rc \<times> 'a \<times> bool) option) \<Rightarrow> 'a list \<Rightarrow> (rc \<times> 'a list \<times> bool) option" where
  "rewrite_all f [] = Some (SUCCESS, [], False)"
| "rewrite_all f (x # xs) = do {
     (rc, y, c) \<leftarrow> f x;
     if rc \<noteq> SUCCESS then Some (rc, y # xs, c)
     else do {
       (rc, ys, d) \<leftarrow> rewrite_all f xs;
       Some (rc, y # ys, c \<or> d)
     }
   }"

lemma rewrite_all_cong [fundef_cong]:
  "xs = ys \<Longrightarrow> (\<And>x. x \<in> set ys \<Longrightarrow> f x = g x) \<Longrightarrow> rewrite_all f xs = rewrite_all g ys"
proof (induction xs arbitrary: ys)
  case (Cons x xs)
  then have "rewrite_all f xs = rewrite_all g xs" "f x = g x" "ys = x # xs" by auto
  then show ?case by (simp only: rewrite_all.simps)
qed auto

text \<open>The size of an expression, which no rule increases.\<close>

primrec esize :: "'f expr \<Rightarrow> nat" where
  "esize (STAR t) = 1"
| "esize (UNBOUND_FIELD t f) = 1"
| "esize (UNBOUND_AGGREGATION n child) = 1"
| "esize (FIELD f) = 1"
| "esize (VALUE v) = 1"
| "esize (CAST child t) = 1 + esize child"
| "esize (COMPARISON c l r) = 1 + esize l + esize r"
| "esize (CONJUNCTION t children) = 1 + sum_list (map esize children)"
| "esize (ARITHMETIC a l r) = 1"
| "esize (AGGREGATION a n child) = 1"

lemma esize_pos [simp]: "0 < esize e"
  by (cases e) auto

lemma esize_member: "e \<in> set es \<Longrightarrow> esize e \<le> sum_list (map esize es)"
  by (simp add: member_le_sum_list)

lemma comparison_rule_size:
  "comparison_rule F e = Some (rc, e', ch) \<Longrightarrow> esize e' \<le> esize e \<and> (ch \<longrightarrow> esize e' < esize e)"
  by (cases e) (auto simp: comparison_rule_def bind_eq_Some_iff split: if_splits expr.splits)

lemma conjunction_scan_Cons:
  "conjunction_scan F t kept (c # cs) =
     (case try_to_get_bool_constant F c of
        None \<Rightarrow> None
      | Some None \<Rightarrow> conjunction_scan F t (kept @ [c]) cs
      | Some (Some b) \<Rightarrow>
          if (t = CONJ_AND) = b then conjunction_scan F t kept cs else Some (Inl (hd (kept @ c # cs))))"
  by (cases "try_to_get_bool_constant F c") (auto split: option.split)

declare conjunction_scan.simps(2) [simp del]

lemma conjunction_scan_size:
  "conjunction_scan F t kept cs = Some s \<Longrightarrow>
     (case s of Inl e \<Rightarrow> e \<in> set (kept @ cs)
      | Inr left \<Rightarrow> sum_list (map esize left) \<le> sum_list (map esize (kept @ cs)))"
proof (induction cs arbitrary: kept)
  case (Cons c cs)
  from Cons.prems have "Inl (hd (kept @ c # cs)) = s \<or> conjunction_scan F t (kept @ [c]) cs = Some s
      \<or> conjunction_scan F t kept cs = Some s"
    by (simp add: conjunction_scan_Cons split: option.splits if_splits)
  then consider "s = Inl (hd (kept @ c # cs))"
    | "conjunction_scan F t (kept @ [c]) cs = Some s" | "conjunction_scan F t kept cs = Some s"
    by blast
  then show ?case
  proof cases
    case 1
    then show ?thesis by (cases kept) auto
  next
    case 2
    then show ?thesis using Cons.IH [of "kept @ [c]"] by (auto split: sum.splits)
  next
    case 3
    then show ?thesis using Cons.IH [of kept] by (auto split: sum.splits)
  qed
qed auto

lemma conjunction_rule_size:
  assumes "conjunction_rule F e = Some (rc, e', ch)"
  shows "esize e' \<le> esize e \<and> (ch \<longrightarrow> esize e' < esize e)"
proof (cases e)
  case (CONJUNCTION t children)
  then obtain s where s: "conjunction_scan F t [] children = Some s"
    and e': "(rc, e', ch) = (case s of Inl child \<Rightarrow> (SUCCESS, child, False) | Inr [child] \<Rightarrow> (SUCCESS, child, True)
                | Inr left \<Rightarrow> (SUCCESS, CONJUNCTION t left, False))"
    using assms by (auto simp: conjunction_rule_def bind_eq_Some_iff)
  show ?thesis
  proof (cases s)
    case (Inl child)
    then have "child \<in> set children" using conjunction_scan_size [OF s] by simp
    then have "esize child \<le> sum_list (map esize children)" by (simp add: member_le_sum_list)
    then show ?thesis using e' Inl CONJUNCTION by simp
  next
    case (Inr left)
    then have "sum_list (map esize left) \<le> sum_list (map esize children)" using conjunction_scan_size [OF s] by simp
    then show ?thesis using e' Inr CONJUNCTION by (auto split: list.splits)
  qed
qed (use assms in \<open>auto simp: conjunction_rule_def\<close>)

text \<open>
  \<open>rewrite_expression\<close>: the rules in order, and the children only when no rule
  reports a change.  The decisive constant of a conjunction is no reported
  change, so the recursion goes on with the child that replaced it.
\<close>

function rewrite_expression :: "'f float_ops \<Rightarrow> 'f expr \<Rightarrow> (rc \<times> 'f expr \<times> bool) option" where
  "rewrite_expression F e = do {
     (rc, e1, c1) \<leftarrow> comparison_rule F e;
     if rc \<noteq> SUCCESS then Some (rc, e1, c1)
     else do {
       (rc, e2, c2) \<leftarrow> conjunction_rule F e1;
       if c1 \<or> c2 \<or> rc \<noteq> SUCCESS then Some (rc, e2, c1 \<or> c2)
       else (case e2 of
          CAST child t \<Rightarrow> do {
            (rc, child', ch) \<leftarrow> rewrite_expression F child;
            Some (rc, CAST child' t, ch)
          }
        | COMPARISON c l r \<Rightarrow> do {
            (rc, l', left_change_made) \<leftarrow> rewrite_expression F l;
            if rc \<noteq> SUCCESS then Some (rc, COMPARISON c l' r, False)
            else do {
              (rc, r', right_change_made) \<leftarrow> rewrite_expression F r;
              if rc \<noteq> SUCCESS then Some (rc, COMPARISON c l' r', False)
              else Some (SUCCESS, COMPARISON c l' r', left_change_made \<or> right_change_made)
            }
          }
        | CONJUNCTION t children \<Rightarrow> do {
            (rc, children', ch) \<leftarrow> rewrite_all (rewrite_expression F) children;
            Some (rc, CONJUNCTION t children', ch)
          }
        | _ \<Rightarrow> Some (SUCCESS, e2, False))
     }
   }"
  by pat_completeness auto
termination
proof (relation "measure (\<lambda>(F, e). esize e)", goal_cases)
  case 1
  show ?case by simp
qed (auto dest!: comparison_rule_size conjunction_rule_size esize_member)

declare rewrite_expression.simps [simp del]

section \<open>Rewriting never grows an expression\<close>

lemma rewrite_all_size:
  fixes m :: "'a \<Rightarrow> nat"
  assumes "\<forall>x\<in>set xs. \<forall>rc y c. f x = Some (rc, y, c) \<longrightarrow> m y \<le> m x \<and> (c \<longrightarrow> m y < m x)"
    "rewrite_all f xs = Some (rc, ys, ch)"
  shows "sum_list (map m ys) \<le> sum_list (map m xs) \<and> (ch \<longrightarrow> sum_list (map m ys) < sum_list (map m xs))"
  using assms
proof (induction xs arbitrary: rc ys ch)
  case (Cons x xs)
  obtain rc1 y c where f: "f x = Some (rc1, y, c)" using Cons.prems(2) by (auto simp: bind_eq_Some_iff)
  then have y: "m y \<le> m x \<and> (c \<longrightarrow> m y < m x)" using Cons.prems(1) by simp
  show ?case
  proof (cases "rc1 = SUCCESS")
    case True
    then obtain zs d where z: "rewrite_all f xs = Some (rc, zs, d)" "ys = y # zs" "ch = (c \<or> d)"
      using Cons.prems(2) f by (auto simp: bind_eq_Some_iff)
    then show ?thesis using Cons.IH [OF _ z(1)] Cons.prems(1) y by auto
  qed (use Cons.prems(2) f y in auto)
qed simp

text \<open>The intermediate results of a rewriting.\<close>

lemma rewrite_expressionE:
  assumes "rewrite_expression F e = Some (rc, e', ch)"
  obtains rc1 e1 c1 where "comparison_rule F e = Some (rc1, e1, c1)" "rc1 \<noteq> SUCCESS" "e' = e1" "ch = c1"
    | e1 c1 rc2 e2 c2 where "comparison_rule F e = Some (SUCCESS, e1, c1)" "conjunction_rule F e1 = Some (rc2, e2, c2)"
      "c1 \<or> c2 \<or> rc2 \<noteq> SUCCESS" "e' = e2" "ch = (c1 \<or> c2)" "rc = rc2"
    | e1 e2 where "comparison_rule F e = Some (SUCCESS, e1, False)" "conjunction_rule F e1 = Some (SUCCESS, e2, False)"
      "(case e2 of
          CAST child t \<Rightarrow> do {
            (rc, child', ch) \<leftarrow> rewrite_expression F child;
            Some (rc, CAST child' t, ch)
          }
        | COMPARISON c l r \<Rightarrow> do {
            (rc, l', left_change_made) \<leftarrow> rewrite_expression F l;
            if rc \<noteq> SUCCESS then Some (rc, COMPARISON c l' r, False)
            else do {
              (rc, r', right_change_made) \<leftarrow> rewrite_expression F r;
              if rc \<noteq> SUCCESS then Some (rc, COMPARISON c l' r', False)
              else Some (SUCCESS, COMPARISON c l' r', left_change_made \<or> right_change_made)
            }
          }
        | CONJUNCTION t children \<Rightarrow> do {
            (rc, children', ch) \<leftarrow> rewrite_all (rewrite_expression F) children;
            Some (rc, CONJUNCTION t children', ch)
          }
        | _ \<Rightarrow> Some (SUCCESS, e2, False)) = Some (rc, e', ch)"
proof -
  obtain rc1 e1 c1 where 1: "comparison_rule F e = Some (rc1, e1, c1)"
    using assms by (subst (asm) rewrite_expression.simps) (auto simp: bind_eq_Some_iff)
  show ?thesis
  proof (cases "rc1 = SUCCESS")
    case False
    then show ?thesis using assms 1 that(1) by (subst (asm) rewrite_expression.simps) auto
  next
    case True
    then obtain rc2 e2 c2 where 2: "conjunction_rule F e1 = Some (rc2, e2, c2)"
      using assms 1 by (subst (asm) rewrite_expression.simps) (auto simp: bind_eq_Some_iff)
    show ?thesis
    proof (cases "c1 \<or> c2 \<or> rc2 \<noteq> SUCCESS")
      case True
      then show ?thesis
        using assms 1 2 \<open>rc1 = SUCCESS\<close> that(2) by (subst (asm) rewrite_expression.simps) simp
    next
      case False
      then show ?thesis
        using assms 1 2 \<open>rc1 = SUCCESS\<close> that(3) by (subst (asm) rewrite_expression.simps) simp
    qed
  qed
qed

lemma rewrite_expression_size:
  "rewrite_expression F e = Some (rc, e', ch) \<Longrightarrow> esize e' \<le> esize e \<and> (ch \<longrightarrow> esize e' < esize e)"
proof (induction "esize e" arbitrary: e rc e' ch rule: less_induct)
  case less
  note IH = less.hyps
  from less.prems show ?case
  proof (cases rule: rewrite_expressionE)
    case 1
    then show ?thesis using comparison_rule_size by blast
  next
    case 2
    then show ?thesis using comparison_rule_size [OF 2(1)] conjunction_rule_size [OF 2(2)] by auto
  next
    case (3 e1 e2)
    have s: "esize e2 \<le> esize e" using comparison_rule_size [OF 3(1)] conjunction_rule_size [OF 3(2)] by simp
    show ?thesis
    proof (cases e2)
      case (CAST child t)
      then obtain child' where c: "rewrite_expression F child = Some (rc, child', ch)" "e' = CAST child' t"
        using 3(3) by (auto simp: bind_eq_Some_iff)
      then show ?thesis using IH [of child] s CAST by fastforce
    next
      case (COMPARISON c l r)
      then obtain rc1 l' c1 where l: "rewrite_expression F l = Some (rc1, l', c1)"
        using 3(3) by (auto simp: bind_eq_Some_iff)
      then have l': "esize l' \<le> esize l \<and> (c1 \<longrightarrow> esize l' < esize l)" using IH [of l] s COMPARISON by simp
      show ?thesis
      proof (cases "rc1 = SUCCESS")
        case True
        then obtain rc2 r' c2 where r: "rewrite_expression F r = Some (rc2, r', c2)"
          using 3(3) l COMPARISON by (auto simp: bind_eq_Some_iff)
        then have "esize r' \<le> esize r \<and> (c2 \<longrightarrow> esize r' < esize r)" using IH [of r] s COMPARISON by simp
        then show ?thesis using 3(3) l l' r s COMPARISON True by (auto split: if_splits)
      qed (use 3(3) l l' s COMPARISON in auto)
    next
      case (CONJUNCTION t children)
      then obtain cs where c: "rewrite_all (rewrite_expression F) children = Some (rc, cs, ch)" "e' = CONJUNCTION t cs"
        using 3(3) by (auto simp: bind_eq_Some_iff)
      have "\<forall>x\<in>set children. esize x < esize e"
        using s CONJUNCTION esize_member [of _ children] by fastforce
      then have "\<forall>x\<in>set children. \<forall>rc y c. rewrite_expression F x = Some (rc, y, c)
          \<longrightarrow> esize y \<le> esize x \<and> (c \<longrightarrow> esize y < esize x)"
        using IH by blast
      then show ?thesis using rewrite_all_size [OF _ c(1), of esize] s CONJUNCTION c(2) by auto
    qed (use 3(3) s in auto)
  qed
qed

end
