(* ===== verification/Optimizer.thy ===== *)
theory Optimizer
  imports Expr_Rewriter
begin

text \<open>
  Logical plans and their rewriting: the planner of
  src/src/observer/sql/optimizer/logical_plan_generator.cpp, the rules of
  expression_rewriter.cpp, predicate_rewrite.cpp and
  predicate_pushdown_rewriter.cpp, their driver rewriter.cpp and the loop of
  optimize_stage.cpp.
\<close>

section \<open>Logical operators\<close>

text \<open>
  The operator types with the data of their classes; every operator has a list of
  expressions and a list of children.  The predicates of a table scan are kept
  apart from the expressions.
\<close>

datatype 'f lop_kind =
    CALC
  | TABLE_GET string "'f expr list"
  | PREDICATE
  | PROJECTION
  | JOIN
  | INSERT string "'f sql_value list"
  | DELETE string
  | EXPLAIN
  | GROUP_BY "'f expr list" "'f expr list"

datatype 'f lop = Oper (lkind: "'f lop_kind") (lexprs: "'f expr list") (lchildren: "'f lop list")

section \<open>The planner\<close>

text \<open>One side of a condition: a column or a constant.\<close>

datatype 'f filter_obj = Attr field | Val "'f sql_value"

record 'f filter_unit =
  fcomp :: comp_op
  fleft :: "'f filter_obj"
  fright :: "'f filter_obj"

definition filter_expr :: "'f filter_obj \<Rightarrow> 'f expr option" where
  "filter_expr obj = (case obj of Attr f \<Rightarrow> Some (FIELD f) | Val v \<Rightarrow> map_option VALUE (copy_value v))"

definition implicit_cast_cost :: "attr_type \<Rightarrow> attr_type \<Rightarrow> int" where
  "implicit_cast_cost from_t to_t = (if from_t = to_t then 0 else cast_cost from_t to_t)"

text \<open>A side that is cast: a constant is folded, a column gets a cast expression.\<close>

definition cast_side :: "'f float_ops \<Rightarrow> 'f expr \<Rightarrow> attr_type \<Rightarrow> (rc \<times> 'f expr) option" where
  "cast_side F e t =
     (case e of
        VALUE v \<Rightarrow> do {
          (rc, w) \<leftarrow> try_get_value F (CAST e t) Value_default;
          if rc \<noteq> SUCCESS then Some (rc, e)
          else do { w' \<leftarrow> copy_value w; Some (SUCCESS, VALUE w') }
        }
      | _ \<Rightarrow> Some (SUCCESS, CAST e t))"

definition plan_unit :: "'f float_ops \<Rightarrow> 'f filter_unit \<Rightarrow> (rc \<times> 'f expr option) option" where
  "plan_unit F u = do {
     l \<leftarrow> filter_expr (fleft u);
     r \<leftarrow> filter_expr (fright u);
     if value_type l \<noteq> value_type r
     then (let left_to_right_cost = implicit_cast_cost (value_type l) (value_type r);
               right_to_left_cost = implicit_cast_cost (value_type r) (value_type l)
           in if left_to_right_cost \<le> right_to_left_cost \<and> left_to_right_cost \<noteq> INT32_MAX
              then do {
                (rc, l') \<leftarrow> cast_side F l (value_type r);
                if rc \<noteq> SUCCESS then Some (rc, None) else Some (SUCCESS, Some (COMPARISON (fcomp u) l' r))
              }
              else if right_to_left_cost < left_to_right_cost \<and> right_to_left_cost \<noteq> INT32_MAX
              then do {
                (rc, r') \<leftarrow> cast_side F r (value_type l);
                if rc \<noteq> SUCCESS then Some (rc, None) else Some (SUCCESS, Some (COMPARISON (fcomp u) l r'))
              }
              else Some (UNSUPPORTED, None))
     else Some (SUCCESS, Some (COMPARISON (fcomp u) l r))
   }"

fun plan_units :: "'f float_ops \<Rightarrow> 'f filter_unit list \<Rightarrow> (rc \<times> 'f expr list) option" where
  "plan_units F [] = Some (SUCCESS, [])"
| "plan_units F (u # us) = do {
     (rc, e) \<leftarrow> plan_unit F u;
     case e of
       None \<Rightarrow> Some (rc, [])
     | Some e \<Rightarrow> do {
         (rc, es) \<leftarrow> plan_units F us;
         Some (rc, e # es)
       }
   }"

text \<open>\<open>create_plan(FilterStmt)\<close>: no operator for an empty filter.\<close>

definition create_filter_plan :: "'f float_ops \<Rightarrow> 'f filter_unit list \<Rightarrow> (rc \<times> 'f lop option) option" where
  "create_filter_plan F units = do {
     (rc, cmp_exprs) \<leftarrow> plan_units F units;
     if rc \<noteq> SUCCESS then Some (rc, None)
     else if cmp_exprs \<noteq> [] then Some (rc, Some (Oper PREDICATE [CONJUNCTION CONJ_AND cmp_exprs] []))
     else Some (rc, None)
   }"

definition add_child :: "'f lop \<Rightarrow> 'f lop \<Rightarrow> 'f lop" where
  "add_child oper child = Oper (lkind oper) (lexprs oper) (lchildren oper @ [child])"

text \<open>The left-deep join of the tables of a query.\<close>

fun table_plan :: "'f lop option \<Rightarrow> string list \<Rightarrow> 'f lop option" where
  "table_plan oper [] = oper"
| "table_plan oper (t # ts) =
     (let table_get = Oper (TABLE_GET t []) [] []
      in table_plan (case oper of None \<Rightarrow> Some table_get | Some o' \<Rightarrow> Some (Oper JOIN [] [o', table_get])) ts)"

definition add_last :: "'f lop \<Rightarrow> 'f lop option \<Rightarrow> 'f lop" where
  "add_last oper last_oper = (case last_oper of None \<Rightarrow> oper | Some o' \<Rightarrow> add_child oper o')"

text \<open>
  \<open>create_plan(SelectStmt)\<close>; the operator that \<open>create_group_by_plan\<close> returns for
  the statement (none without grouping and aggregates) is an argument.
\<close>

definition create_select_plan ::
  "'f float_ops \<Rightarrow> string list \<Rightarrow> 'f filter_unit list \<Rightarrow> (rc \<times> 'f lop option) \<Rightarrow> 'f expr list
    \<Rightarrow> (rc \<times> 'f lop option) option" where
  "create_select_plan F tables units group_by query = do {
     (rc, predicate_oper) \<leftarrow> create_filter_plan F units;
     if rc \<noteq> SUCCESS then Some (rc, None)
     else
       let table_oper = table_plan None tables;
           last_oper = (case predicate_oper of None \<Rightarrow> table_oper | Some p \<Rightarrow> Some (add_last p table_oper));
           (rc, group_by_oper) = group_by
       in if rc \<noteq> SUCCESS then Some (rc, None)
          else
            let last_oper = (case group_by_oper of None \<Rightarrow> last_oper | Some g \<Rightarrow> Some (add_last g last_oper))
            in Some (SUCCESS, Some (add_last (Oper PROJECTION query []) last_oper))
   }"

definition create_delete_plan ::
  "'f float_ops \<Rightarrow> string \<Rightarrow> 'f filter_unit list \<Rightarrow> (rc \<times> 'f lop option) option" where
  "create_delete_plan F table units = do {
     (rc, predicate_oper) \<leftarrow> create_filter_plan F units;
     if rc \<noteq> SUCCESS then Some (rc, None)
     else
       let table_get = Oper (TABLE_GET table []) [] []
       in case predicate_oper of
            None \<Rightarrow> Some (SUCCESS, Some (add_child (Oper (DELETE table) [] []) table_get))
          | Some p \<Rightarrow> Some (SUCCESS, Some (add_child (Oper (DELETE table) [] []) (add_child p table_get)))
   }"

section \<open>The rules\<close>

function expression_rewriter :: "'f float_ops \<Rightarrow> 'f lop \<Rightarrow> (rc \<times> 'f lop \<times> bool) option" where
  "expression_rewriter F (Oper k exprs children) = do {
     (rc, exprs', c1) \<leftarrow> rewrite_all (rewrite_expression F) exprs;
     if rc \<noteq> SUCCESS then Some (rc, Oper k exprs' children, c1)
     else do {
       (rc, children', c2) \<leftarrow> rewrite_all (expression_rewriter F) children;
       Some (rc, Oper k exprs' children', c1 \<or> c2)
     }
   }"
  by pat_completeness auto
termination
  by (relation "measure (\<lambda>(F, l). size l)") (auto dest: size_list_estimation' [of _ _ _ size])

definition predicate_rewrite :: "'f float_ops \<Rightarrow> 'f lop \<Rightarrow> (rc \<times> 'f lop \<times> bool) option" where
  "predicate_rewrite F oper =
     (case oper of
        Oper k exprs [Oper PREDICATE [VALUE v] grand_children] \<Rightarrow> do {
          b \<leftarrow> get_boolean F v;
          Some (SUCCESS, Oper k exprs (if b then grand_children else []), True)
        }
      | _ \<Rightarrow> Some (SUCCESS, oper, False))"

text \<open>
  \<open>get_exprs_can_pushdown\<close>: the return code, what is left of the expression
  (\<open>None\<close> when it moved) and the collected expressions.
\<close>

definition is_field :: "'f expr \<Rightarrow> bool" where
  "is_field e = (case e of FIELD f \<Rightarrow> True | _ \<Rightarrow> False)"

definition is_value :: "'f expr \<Rightarrow> bool" where
  "is_value e = (case e of VALUE v \<Rightarrow> True | _ \<Rightarrow> False)"

fun get_exprs_can_pushdown :: "'f expr \<Rightarrow> 'f expr list \<Rightarrow> rc \<times> 'f expr option \<times> 'f expr list"
and pushdown_children :: "'f expr list \<Rightarrow> 'f expr list \<Rightarrow> rc \<times> 'f expr list \<times> 'f expr list" where
  "get_exprs_can_pushdown (CONJUNCTION t children) pushdown_exprs =
     (if t = CONJ_OR then (UNIMPLEMENTED, Some (CONJUNCTION t children), pushdown_exprs)
      else (case pushdown_children children pushdown_exprs of
              (rc, children', pushdown_exprs') \<Rightarrow> (rc, Some (CONJUNCTION t children'), pushdown_exprs')))"
| "get_exprs_can_pushdown (COMPARISON c l r) pushdown_exprs =
     (if \<not> is_field l \<and> \<not> is_field r then (SUCCESS, Some (COMPARISON c l r), pushdown_exprs)
      else if \<not> is_field l \<and> \<not> is_value l \<and> \<not> is_field r \<and> \<not> is_value r
           then (SUCCESS, Some (COMPARISON c l r), pushdown_exprs)
      else (SUCCESS, None, pushdown_exprs @ [COMPARISON c l r]))"
| "get_exprs_can_pushdown e pushdown_exprs = (SUCCESS, Some e, pushdown_exprs)"
| "pushdown_children [] pushdown_exprs = (SUCCESS, [], pushdown_exprs)"
| "pushdown_children (c # cs) pushdown_exprs =
     (case get_exprs_can_pushdown c pushdown_exprs of
        (rc, c', pushdown_exprs') \<Rightarrow>
          if rc \<noteq> SUCCESS then (rc, case_option [] (\<lambda>e. [e]) c' @ cs, pushdown_exprs')
          else (case pushdown_children cs pushdown_exprs' of
                  (rc, cs', pushdown_exprs'') \<Rightarrow>
                    (rc, (case c' of None \<Rightarrow> cs' | Some e \<Rightarrow> e # cs'), pushdown_exprs'')))"

definition is_empty_predicate :: "'f expr option \<Rightarrow> bool" where
  "is_empty_predicate e =
     (case e of None \<Rightarrow> True | Some (CONJUNCTION t children) \<Rightarrow> children = [] | Some _ \<Rightarrow> False)"

definition predicate_pushdown :: "'f lop \<Rightarrow> rc \<times> 'f lop \<times> bool" where
  "predicate_pushdown oper =
     (case oper of
        Oper PREDICATE [e] [Oper (TABLE_GET t predicates) texprs tchildren] \<Rightarrow>
          (case get_exprs_can_pushdown e [] of
             (rc, e', pushdown_exprs) \<Rightarrow>
               if rc \<noteq> SUCCESS then (rc, oper, False)
               else
                 let e'' = (case e' of
                              None \<Rightarrow> VALUE (bool_value True)
                            | Some x \<Rightarrow> if is_empty_predicate e' then VALUE (bool_value True) else x)
                 in if pushdown_exprs \<noteq> []
                    then (rc, Oper PREDICATE [e''] [Oper (TABLE_GET t pushdown_exprs) texprs tchildren], True)
                    else (rc, Oper PREDICATE [e''] [Oper (TABLE_GET t predicates) texprs tchildren], False))
      | _ \<Rightarrow> (SUCCESS, oper, False))"

section \<open>No rule grows a plan\<close>

fun psize :: "'f lop \<Rightarrow> nat" where
  "psize (Oper k exprs children) = 1 + sum_list (map esize exprs) + sum_list (map psize children)"

lemma psize_member: "l \<in> set ls \<Longrightarrow> psize l \<le> sum_list (map psize ls)"
  by (simp add: member_le_sum_list)

lemma expression_rewriter_size:
  "expression_rewriter F l = Some (rc, l', ch) \<Longrightarrow> psize l' \<le> psize l \<and> (ch \<longrightarrow> psize l' < psize l)"
proof (induction "size l" arbitrary: l rc l' ch rule: less_induct)
  case less
  obtain k exprs children where l: "l = Oper k exprs children" by (cases l)
  obtain rc1 es c1 where e: "rewrite_all (rewrite_expression F) exprs = Some (rc1, es, c1)"
    using less.prems l by (auto simp: bind_eq_Some_iff)
  have es: "sum_list (map esize es) \<le> sum_list (map esize exprs)
      \<and> (c1 \<longrightarrow> sum_list (map esize es) < sum_list (map esize exprs))"
    using rewrite_expression_size by (intro rewrite_all_size [OF _ e]) blast
  show ?case
  proof (cases "rc1 = SUCCESS")
    case True
    then obtain cs c2 where c: "rewrite_all (expression_rewriter F) children = Some (rc, cs, c2)"
      "l' = Oper k es cs" "ch = (c1 \<or> c2)"
      using less.prems l e by (auto simp: bind_eq_Some_iff)
    have "\<forall>x\<in>set children. size x < size l" using l by (auto dest: size_list_estimation' [of _ _ _ size])
    then have "\<forall>x\<in>set children. \<forall>rc y c. expression_rewriter F x = Some (rc, y, c)
        \<longrightarrow> psize y \<le> psize x \<and> (c \<longrightarrow> psize y < psize x)"
      using less.hyps by blast
    then show ?thesis using rewrite_all_size [OF _ c(1), of psize] es l c(2,3) by auto
  qed (use less.prems l e es in auto)
qed

lemma predicate_rewrite_size:
  "predicate_rewrite F l = Some (rc, l', ch) \<Longrightarrow> psize l' \<le> psize l \<and> (ch \<longrightarrow> psize l' < psize l)"
  by (auto simp: predicate_rewrite_def bind_eq_Some_iff
      split: lop.splits list.splits lop_kind.splits expr.splits if_splits)

definition opt_esize :: "'f expr option \<Rightarrow> nat" where
  "opt_esize e = (case e of None \<Rightarrow> 0 | Some x \<Rightarrow> esize x)"

text \<open>An expression that gives up a comparison shrinks by at least three.\<close>

lemma pushdown_size:
  "get_exprs_can_pushdown e pd = (rc, e', pd') \<Longrightarrow>
     opt_esize e' \<le> esize e \<and> (pd' = pd \<and> e' \<noteq> None \<or> opt_esize e' + 3 \<le> esize e)"
  "pushdown_children es pd = (rc, es', pd') \<Longrightarrow>
     sum_list (map esize es') \<le> sum_list (map esize es)
     \<and> (pd' = pd \<or> sum_list (map esize es') + 3 \<le> sum_list (map esize es))"
proof (induction e pd and es pd arbitrary: rc e' pd' and rc es' pd' rule: get_exprs_can_pushdown_pushdown_children.induct)
  case (2 c l r pd)
  have "2 \<le> esize l + esize r" using esize_pos [of l] esize_pos [of r] by linarith
  then show ?case using 2 by (auto simp: opt_esize_def split: if_splits)
next
  case (5 c cs pd)
  obtain rc1 c' pd1 where c: "get_exprs_can_pushdown c pd = (rc1, c', pd1)" by (metis prod_cases3)
  have c': "opt_esize c' \<le> esize c" "pd1 = pd \<and> c' \<noteq> None \<or> opt_esize c' + 3 \<le> esize c"
    using 5(1) [OF c] by auto
  show ?case
  proof (cases "rc1 = SUCCESS")
    case False
    then show ?thesis using 5(3) c c' by (cases c') (auto simp: opt_esize_def)
  next
    case True
    obtain rc2 cs' pd2 where cs: "pushdown_children cs pd1 = (rc2, cs', pd2)" by (metis prod_cases3)
    then show ?thesis
      using 5(2) [OF c [symmetric] refl _ cs] True 5(3) c c' by (cases c') (auto simp: opt_esize_def)
  qed
qed (auto simp: opt_esize_def split: if_splits prod.splits)

lemma predicate_pushdown_size:
  assumes "predicate_pushdown l = (rc, l', ch)"
  shows "psize l' \<le> psize l \<and> (ch \<longrightarrow> psize l' < psize l)"
proof (cases "\<exists>e t predicates texprs tchildren. l = Oper PREDICATE [e] [Oper (TABLE_GET t predicates) texprs tchildren]")
  case True
  then obtain e t predicates texprs tchildren
    where l: "l = Oper PREDICATE [e] [Oper (TABLE_GET t predicates) texprs tchildren]" by blast
  obtain rc1 e' pd where e: "get_exprs_can_pushdown e [] = (rc1, e', pd)" by (metis prod_cases3)
  show ?thesis
    using assms l e pushdown_size(1) [OF e] esize_pos [of e]
    by (cases e') (auto simp: predicate_pushdown_def opt_esize_def Let_def Suc_le_eq split: if_splits)
next
  case False
  then have "predicate_pushdown l = (SUCCESS, l, False)"
    by (auto simp: predicate_pushdown_def split: lop.splits list.splits lop_kind.splits)
  then show ?thesis using assms by simp
qed

section \<open>The driver\<close>

text \<open>The three rules on an operator, then the children of the result.\<close>

definition apply_rules :: "'f float_ops \<Rightarrow> 'f lop \<Rightarrow> (rc \<times> 'f lop \<times> bool) option" where
  "apply_rules F oper = do {
     (rc, o1, c1) \<leftarrow> expression_rewriter F oper;
     if rc \<noteq> SUCCESS then Some (rc, o1, False)
     else do {
       (rc, o2, c2) \<leftarrow> predicate_rewrite F o1;
       if rc \<noteq> SUCCESS then Some (rc, o2, c1)
       else (case predicate_pushdown o2 of
               (rc, o3, c3) \<Rightarrow> if rc \<noteq> SUCCESS then Some (rc, o3, c1 \<or> c2) else Some (SUCCESS, o3, c1 \<or> c2 \<or> c3))
     }
   }"

lemma apply_rules_size:
  assumes "apply_rules F l = Some (rc, l', ch)"
  shows "psize l' \<le> psize l \<and> (ch \<longrightarrow> psize l' < psize l)"
proof -
  obtain rc1 o1 c1 where 1: "expression_rewriter F l = Some (rc1, o1, c1)"
    using assms by (auto simp: apply_rules_def bind_eq_Some_iff)
  show ?thesis
  proof (cases "rc1 = SUCCESS")
    case True
    then obtain rc2 o2 c2 where 2: "predicate_rewrite F o1 = Some (rc2, o2, c2)"
      using assms 1 by (auto simp: apply_rules_def bind_eq_Some_iff)
    obtain rc3 o3 c3 where 3: "predicate_pushdown o2 = (rc3, o3, c3)" by (metis prod_cases3)
    show ?thesis
      using assms 1 2 3 True expression_rewriter_size [OF 1] predicate_rewrite_size [OF 2] predicate_pushdown_size [OF 3]
      by (auto simp: apply_rules_def split: if_splits)
  qed (use assms 1 expression_rewriter_size [OF 1] in \<open>auto simp: apply_rules_def\<close>)
qed

function rewriter :: "'f float_ops \<Rightarrow> 'f lop \<Rightarrow> (rc \<times> 'f lop \<times> bool) option" where
  "rewriter F oper = do {
     (rc, oper', c1) \<leftarrow> apply_rules F oper;
     if rc \<noteq> SUCCESS then Some (rc, oper', c1)
     else do {
       (rc, children, c2) \<leftarrow> rewrite_all (rewriter F) (lchildren oper');
       Some (rc, Oper (lkind oper') (lexprs oper') children, c1 \<or> c2)
     }
   }"
  by pat_completeness auto
termination
proof (relation "measure (\<lambda>(F, l). psize l)", goal_cases)
  case (2 F oper x rc y oper' c1 z)
  then have "psize z \<le> sum_list (map psize (lchildren oper'))" by (simp add: psize_member)
  then have "psize z < psize oper'" by (cases oper') simp
  then show ?case using apply_rules_size 2 by fastforce
qed simp

declare rewriter.simps [simp del]

lemma rewriter_size:
  "rewriter F l = Some (rc, l', ch) \<Longrightarrow> psize l' \<le> psize l \<and> (ch \<longrightarrow> psize l' < psize l)"
proof (induction "psize l" arbitrary: l rc l' ch rule: less_induct)
  case less
  obtain rc1 o1 c1 where 1: "apply_rules F l = Some (rc1, o1, c1)"
    using less.prems by (subst (asm) rewriter.simps) (auto simp: bind_eq_Some_iff)
  have s: "psize o1 \<le> psize l \<and> (c1 \<longrightarrow> psize o1 < psize l)" by (rule apply_rules_size [OF 1])
  show ?case
  proof (cases "rc1 = SUCCESS")
    case True
    then obtain cs c2 where c: "rewrite_all (rewriter F) (lchildren o1) = Some (rc, cs, c2)"
      "l' = Oper (lkind o1) (lexprs o1) cs" "ch = (c1 \<or> c2)"
      using less.prems 1 by (subst (asm) rewriter.simps) (auto simp: bind_eq_Some_iff)
    have "\<forall>x\<in>set (lchildren o1). psize x < psize l"
      using s psize_member [of _ "lchildren o1"] by (cases o1) fastforce
    then have "\<forall>x\<in>set (lchildren o1). \<forall>rc y c. rewriter F x = Some (rc, y, c)
        \<longrightarrow> psize y \<le> psize x \<and> (c \<longrightarrow> psize y < psize x)"
      using less.hyps by blast
    then show ?thesis using rewrite_all_size [OF _ c(1), of psize] s c(2,3) by (cases o1) auto
  next
    case False
    then show ?thesis using less.prems 1 s by (subst (asm) rewriter.simps) auto
  qed
qed

text \<open>
  \<open>OptimizeStage::rewrite\<close>: the driver again and again while it reports a change;
  every change makes the plan smaller.
\<close>

function optimize_rewrite :: "'f float_ops \<Rightarrow> 'f lop \<Rightarrow> (rc \<times> 'f lop) option" where
  "optimize_rewrite F oper = do {
     (rc, oper', change_made) \<leftarrow> rewriter F oper;
     if rc \<noteq> SUCCESS then Some (rc, oper')
     else if change_made then optimize_rewrite F oper'
     else Some (SUCCESS, oper')
   }"
  by pat_completeness auto
termination
  by (relation "measure (\<lambda>(F, l). psize l)") (auto dest: rewriter_size)

declare optimize_rewrite.simps [simp del]

section \<open>The loop ends\<close>

text \<open>The loop with a bound on the number of passes.\<close>

fun rewrite_passes :: "nat \<Rightarrow> 'f float_ops \<Rightarrow> 'f lop \<Rightarrow> (rc \<times> 'f lop) option option" where
  "rewrite_passes 0 F oper = None"
| "rewrite_passes (Suc n) F oper =
     (case rewriter F oper of
        None \<Rightarrow> Some None
      | Some (rc, oper', change_made) \<Rightarrow>
          if rc \<noteq> SUCCESS then Some (Some (rc, oper'))
          else if change_made then rewrite_passes n F oper'
          else Some (Some (SUCCESS, oper')))"

text \<open>
  C14.  Rewriting ends: for every plan, of any shape, the loop of the optimizer
  stops after at most as many passes as the plan has operators and nodes of
  expressions, and every pass that reports a change leaves a smaller plan.
\<close>

theorem optimizer_terminates:
  "(psize oper \<le> n \<longrightarrow> rewrite_passes n F oper = Some (optimize_rewrite F oper))
   \<and> (rewriter F oper = Some (rc, oper', True) \<longrightarrow> psize oper' < psize oper)"
proof -
  have "psize oper \<le> n \<Longrightarrow> rewrite_passes n F oper = Some (optimize_rewrite F oper)"
  proof (induction n arbitrary: oper)
    case 0
    then show ?case by (cases oper) simp
  next
    case (Suc n)
    show ?case
    proof (cases "rewriter F oper")
      case None
      then show ?thesis by (subst optimize_rewrite.simps) simp
    next
      case (Some r)
      obtain rc l ch where r: "r = (rc, l, ch)" by (cases r)
      have "ch \<Longrightarrow> psize l \<le> n" using rewriter_size [of F oper rc l ch] Some r Suc.prems by simp
      then show ?thesis using Some r Suc.IH [of l] by (subst optimize_rewrite.simps) simp
    qed
  qed
  then show ?thesis using rewriter_size by blast
qed

theorem optimizer_terminates_witness:
  "rewrite_passes 3 whole_floats (Oper PREDICATE [VALUE (bool_value True)] [Oper (TABLE_GET ''t'' []) [] []])
     = Some (optimize_rewrite whole_floats (Oper PREDICATE [VALUE (bool_value True)] [Oper (TABLE_GET ''t'' []) [] []]))"
  using optimizer_terminates
    [of "Oper PREDICATE [VALUE (bool_value True)] [Oper (TABLE_GET ''t'' []) [] []]" 3 whole_floats] by simp

end
