(* ===== verification/Physical_Operators.thy ===== *)
theory Physical_Operators
  imports Expression
begin

text \<open>
  The tuple-at-a-time operators of src/src/observer/sql/operator: table scan,
  predicate, projection, nested loop join and the collecting phase of delete.
  An operator is driven by calls of \<open>next\<close>; what its child delivers is a
  \<open>feed\<close>: the tuples of the successive successful calls and the code with which
  the first unsuccessful call ends them.  \<open>drain\<close> calls \<open>next\<close> until it fails, as
  the caller of the topmost operator does, and gives the feed of an operator.
\<close>

section \<open>Feeds\<close>

type_synonym 'a feed = "'a list \<times> rc"

text \<open>One call of \<open>next\<close> on a child.\<close>

fun feed_next :: "'a feed \<Rightarrow> rc \<times> 'a option \<times> 'a feed" where
  "feed_next ([], rc) = (rc, None, ([], rc))"
| "feed_next (x # xs, rc) = (SUCCESS, Some x, (xs, rc))"

section \<open>Predicate\<close>

text \<open>The test of one tuple: the value of the expression in a fresh \<open>Value\<close>, read as a boolean.\<close>

definition predicate_test :: "'f float_ops \<Rightarrow> 'f expr \<Rightarrow> 'f tuple \<Rightarrow> (rc \<times> bool) option" where
  "predicate_test F e tuple = do {
     (rc, v) \<leftarrow> get_value F (find_cell F tuple) e Value_default;
     if rc \<noteq> SUCCESS then Some (rc, False)
     else do { b \<leftarrow> get_boolean F v; Some (SUCCESS, b) }
   }"

fun predicate_next ::
  "'f float_ops \<Rightarrow> 'f expr \<Rightarrow> 'f tuple feed \<Rightarrow> (rc \<times> 'f tuple option \<times> 'f tuple feed) option" where
  "predicate_next F e ([], rc) = Some (rc, None, ([], rc))"
| "predicate_next F e (tuple # tuples, rc_end) = do {
     (rc, b) \<leftarrow> predicate_test F e tuple;
     if rc \<noteq> SUCCESS then Some (rc, None, (tuples, rc_end))
     else if b then Some (SUCCESS, Some tuple, (tuples, rc_end))
     else predicate_next F e (tuples, rc_end)
   }"

section \<open>Table scan\<close>

text \<open>
  \<open>filter\<close>: all pushed down predicates, with one value that receives the result
  of each of them.
\<close>

fun scan_filter_from ::
  "'f float_ops \<Rightarrow> 'f expr list \<Rightarrow> 'f tuple \<Rightarrow> 'f sql_value \<Rightarrow> (rc \<times> bool) option" where
  "scan_filter_from F [] tuple value = Some (SUCCESS, True)"
| "scan_filter_from F (e # es) tuple value = do {
     (rc, value) \<leftarrow> get_value F (find_cell F tuple) e value;
     if rc \<noteq> SUCCESS then Some (rc, False)
     else do {
       tmp_result \<leftarrow> get_boolean F value;
       if \<not> tmp_result then Some (SUCCESS, False) else scan_filter_from F es tuple value
     }
   }"

definition scan_filter :: "'f float_ops \<Rightarrow> 'f expr list \<Rightarrow> 'f tuple \<Rightarrow> (rc \<times> bool) option" where
  "scan_filter F predicates tuple = scan_filter_from F predicates tuple Value_default"

text \<open>The records come from the record scanner; a record is read as a row of the table.\<close>

fun table_scan_next ::
  "'f float_ops \<Rightarrow> string \<Rightarrow> field_meta list \<Rightarrow> 'f expr list \<Rightarrow> byte list feed
    \<Rightarrow> (rc \<times> 'f tuple option \<times> byte list feed) option" where
  "table_scan_next F table metas predicates ([], rc) = Some (rc, None, ([], rc))"
| "table_scan_next F table metas predicates (record # records, rc_end) = do {
     (rc, filter_result) \<leftarrow> scan_filter F predicates (RowTuple table metas record);
     if rc \<noteq> SUCCESS then Some (rc, None, (records, rc_end))
     else if filter_result then Some (SUCCESS, Some (RowTuple table metas record), (records, rc_end))
     else table_scan_next F table metas predicates (records, rc_end)
   }"

section \<open>Nested loop join\<close>

text \<open>
  The state of the join: what is left of the left feed, the current left tuple,
  what is left of the right feed in this round and whether the round is done.
  Opening the right operator starts its feed again.
\<close>

record 'f join_state =
  left_feed :: "'f tuple feed"
  left_tuple :: "'f tuple option"
  right_feed :: "'f tuple feed"
  round_done :: bool

definition join_open :: "'f tuple feed \<Rightarrow> 'f tuple feed \<Rightarrow> 'f join_state" where
  "join_open l r = \<lparr>left_feed = l, left_tuple = None, right_feed = r, round_done = True\<rparr>"

definition join_left_next :: "'f join_state \<Rightarrow> rc \<times> 'f join_state" where
  "join_left_next s =
     (case feed_next (left_feed s) of
        (rc, t, l) \<Rightarrow>
          if rc \<noteq> SUCCESS then (rc, s\<lparr>left_feed := l\<rparr>) else (rc, s\<lparr>left_feed := l, left_tuple := t\<rparr>))"

definition join_right_next :: "'f tuple feed \<Rightarrow> 'f join_state \<Rightarrow> rc \<times> 'f tuple option \<times> 'f join_state" where
  "join_right_next right s =
     (let s = (if round_done s then s\<lparr>right_feed := right, round_done := False\<rparr> else s)
      in case feed_next (right_feed s) of
           (rc, t, r) \<Rightarrow>
             if rc \<noteq> SUCCESS then (rc, None, s\<lparr>right_feed := r, round_done := (if rc = RECORD_EOF then True else round_done s)\<rparr>)
             else (rc, (case (left_tuple s, t) of (Some a, Some b) \<Rightarrow> Some (JoinedTuple a b) | _ \<Rightarrow> None),
                   s\<lparr>right_feed := r\<rparr>))"

definition join_next :: "'f tuple feed \<Rightarrow> 'f join_state \<Rightarrow> rc \<times> 'f tuple option \<times> 'f join_state" where
  "join_next right s =
     (let step_left = (\<lambda>s. case join_left_next s of
                              (rc, s) \<Rightarrow> if rc \<noteq> SUCCESS then (rc, None, s) else join_right_next right s)
      in if round_done s then step_left s
         else (case join_right_next right s of
                 (rc, t, s') \<Rightarrow>
                   if rc \<noteq> SUCCESS then if rc = RECORD_EOF then step_left s' else (rc, None, s')
                   else (rc, t, s')))"

section \<open>Drivers\<close>

text \<open>Repeated calls of \<open>next\<close>; \<open>fuel\<close> bounds the number of calls.\<close>

fun drain :: "nat \<Rightarrow> ('s \<Rightarrow> (rc \<times> 'a option \<times> 's) option) \<Rightarrow> 's \<Rightarrow> 'a feed option" where
  "drain 0 nxt s = None"
| "drain (Suc n) nxt s = do {
     (rc, t, s) \<leftarrow> nxt s;
     if rc \<noteq> SUCCESS then Some ([], rc)
     else case t of
       None \<Rightarrow> None
     | Some x \<Rightarrow> do { (xs, rc) \<leftarrow> drain n nxt s; Some (x # xs, rc) }
   }"

text \<open>
  The collecting phase of \<open>DeletePhysicalOperator::open\<close>: the records of the rows
  of the child; the code that ends the feed is not looked at.
\<close>

definition delete_collect :: "'f tuple feed option \<Rightarrow> 'f tuple list" where
  "delete_collect child = (case child of None \<Rightarrow> [] | Some (rows, rc) \<Rightarrow> rows)"

text \<open>A projection without a child ends at once.\<close>

definition project_next :: "'a feed option \<Rightarrow> rc \<times> 'a option \<times> 'a feed option" where
  "project_next child =
     (case child of
        None \<Rightarrow> (RECORD_EOF, None, None)
      | Some f \<Rightarrow> (case feed_next f of (rc, t, f') \<Rightarrow> (rc, t, Some f')))"

section \<open>Operators that filter\<close>

text \<open>
  The reference for a scan and a predicate: test every row in order, keep the
  rows that pass, end at the first failing test.
\<close>

fun filtered_feed :: "('a \<Rightarrow> (rc \<times> bool) option) \<Rightarrow> ('a \<Rightarrow> 'b) \<Rightarrow> 'a list \<Rightarrow> rc \<Rightarrow> 'b feed option" where
  "filtered_feed test out [] rc = Some ([], rc)"
| "filtered_feed test out (x # xs) rc = do {
     (r, b) \<leftarrow> test x;
     if r \<noteq> SUCCESS then Some ([], r)
     else do {
       (ys, r) \<leftarrow> filtered_feed test out xs rc;
       Some (if b then out x # ys else ys, r)
     }
   }"

locale filtering_operator =
  fixes nxt :: "'a feed \<Rightarrow> (rc \<times> 'b option \<times> 'a feed) option"
    and test :: "'a \<Rightarrow> (rc \<times> bool) option"
    and out :: "'a \<Rightarrow> 'b"
  assumes nxt_end: "nxt ([], rc) = Some (rc, None, ([], rc))"
    and nxt_step: "nxt (x # xs, rc) = do {
      (r, b) \<leftarrow> test x;
      if r \<noteq> SUCCESS then Some (r, None, (xs, rc))
      else if b then Some (SUCCESS, Some (out x), (xs, rc))
      else nxt (xs, rc)
    }"
begin

lemma drain_filtered:
  "rc \<noteq> SUCCESS \<Longrightarrow> length xs < n \<Longrightarrow> drain n nxt (xs, rc) = filtered_feed test out xs rc"
proof (induction xs arbitrary: n)
  case Nil
  then show ?case by (cases n) (simp_all add: nxt_end)
next
  case (Cons x xs)
  then obtain m where n: "n = Suc m" "length xs < m" by (cases n) auto
  show ?case
  proof (cases "test x = Some (SUCCESS, False)")
    case True
    then have "drain n nxt (x # xs, rc) = drain n nxt (xs, rc)" using n by (simp add: nxt_step)
    then show ?thesis using Cons.IH [of n] Cons.prems n True by (auto split: option.split)
  next
    case False
    then show ?thesis
      using Cons.IH [of m] Cons.prems n
      by (cases "test x") (auto simp: nxt_step split: prod.splits)
  qed
qed

end

interpretation predicate_op: filtering_operator "predicate_next F e" "predicate_test F e" "\<lambda>t. t" for F e
  by unfold_locales simp_all

interpretation scan_op: filtering_operator "table_scan_next F table metas predicates"
  "\<lambda>r. scan_filter F predicates (RowTuple table metas r)" "\<lambda>r. RowTuple table metas r" for F table metas predicates
  by unfold_locales simp_all

lemma filtered_feed_total:
  "\<forall>x\<in>set xs. test x = Some (SUCCESS, P x) \<Longrightarrow> filtered_feed test out xs rc = Some (map out (filter P xs), rc)"
  by (induction xs) auto

section \<open>The nested loop join\<close>

definition join_rows :: "'f tuple list \<Rightarrow> 'f tuple list \<Rightarrow> 'f tuple list" where
  "join_rows ls rs = concat (map (\<lambda>a. map (JoinedTuple a) rs) ls)"

text \<open>A state inside a round: the rest of the round and then the rest of the left side.\<close>

lemma join_next_in_round:
  "join_next right \<lparr>left_feed = l, left_tuple = Some a, right_feed = (b # bs, rc), round_done = False\<rparr> =
     (SUCCESS, Some (JoinedTuple a b), \<lparr>left_feed = l, left_tuple = Some a, right_feed = (bs, rc), round_done = False\<rparr>)"
  by (simp add: join_next_def join_right_next_def Let_def)

lemma join_next_new_round:
  "join_next (b # bs, rc) \<lparr>left_feed = (a # ls, rc'), left_tuple = t, right_feed = ([], RECORD_EOF), round_done = False\<rparr> =
     (SUCCESS, Some (JoinedTuple a b), \<lparr>left_feed = (ls, rc'), left_tuple = Some a, right_feed = (bs, rc), round_done = False\<rparr>)"
  "join_next (b # bs, rc) \<lparr>left_feed = (a # ls, rc'), left_tuple = t, right_feed = r, round_done = True\<rparr> =
     (SUCCESS, Some (JoinedTuple a b), \<lparr>left_feed = (ls, rc'), left_tuple = Some a, right_feed = (bs, rc), round_done = False\<rparr>)"
  by (simp_all add: join_next_def join_right_next_def join_left_next_def Let_def)

lemma join_drain_round:
  assumes "rs \<noteq> []"
  shows "length (map (JoinedTuple a) bs @ join_rows ls rs) < n \<Longrightarrow>
    drain n (\<lambda>s. Some (join_next (rs, RECORD_EOF) s))
      \<lparr>left_feed = (ls, RECORD_EOF), left_tuple = Some a, right_feed = (bs, RECORD_EOF), round_done = False\<rparr> =
    Some (map (JoinedTuple a) bs @ join_rows ls rs, RECORD_EOF)"
proof (induction n arbitrary: bs ls a)
  case (Suc n)
  obtain r rs' where rs: "rs = r # rs'" using assms by (cases rs) auto
  show ?case
  proof (cases bs)
    case (Cons b bs')
    then show ?thesis using Suc by (simp add: join_next_in_round)
  next
    case Nil
    show ?thesis
    proof (cases ls)
      case Nil
      then show ?thesis
        using \<open>bs = []\<close> by (simp add: join_next_def join_right_next_def join_left_next_def join_rows_def)
    next
      case (Cons l ls')
      then show ?thesis
        using \<open>bs = []\<close> Suc.IH [of l rs' ls'] Suc.prems rs
        by (simp add: join_next_new_round join_rows_def)
    qed
  qed
qed simp

lemma join_drain:
  assumes "length (join_rows ls rs) < n"
  shows "drain n (\<lambda>s. Some (join_next (rs, RECORD_EOF) s)) (join_open (ls, RECORD_EOF) (rs, RECORD_EOF)) =
    Some (join_rows ls rs, RECORD_EOF)"
proof -
  obtain m where n: "n = Suc m" using assms by (cases n) auto
  show ?thesis
  proof (cases "ls = [] \<or> rs = []")
    case True
    then show ?thesis
      using n
      by (cases ls) (auto simp: join_open_def join_next_def join_left_next_def join_right_next_def join_rows_def)
  next
    case False
    then obtain l ls' r rs' where l: "ls = l # ls'" "rs = r # rs'" by (cases ls; cases rs) auto
    have len: "length (map (JoinedTuple l) rs' @ join_rows ls' rs) < m"
      using assms n l by (simp add: join_rows_def)
    have "rs \<noteq> []" using l by simp
    from join_drain_round [OF this len] show ?thesis
      using n l by (simp add: join_open_def join_next_new_round join_rows_def)
  qed
qed

text \<open>
  The nested loop join is the cross product: repeated calls of \<open>next\<close> on two
  inputs that end regularly return every pair of a left and a right row exactly
  once, for each left row in the order of the right rows, and then the end code;
  an empty side gives no row.
\<close>

theorem join_is_product:
  "drain (Suc (length ls * length rs)) (\<lambda>s. Some (join_next (rs, RECORD_EOF) s))
     (join_open (ls, RECORD_EOF) (rs, RECORD_EOF)) =
   Some (concat (map (\<lambda>a. map (\<lambda>b. JoinedTuple a b) rs) ls), RECORD_EOF)"
proof -
  have "length (join_rows ls rs) = length ls * length rs" by (induction ls) (simp_all add: join_rows_def)
  then have "length (join_rows ls rs) < Suc (length ls * length rs)" by simp
  from join_drain [OF this] show ?thesis by (simp add: join_rows_def)
qed

end
