(* ===== verification/Optimizer_Correct.thy ===== *)
theory Optimizer_Correct
  imports Optimizer Physical_Operators
begin

text \<open>
  What rewriting a plan does to the rows of a query.  The conditions of a query
  are a list of comparisons of columns and constants joined by AND; the rewriter
  folds constant comparisons, drops constants and moves comparisons to the table
  scan.  A false constant that stands behind a comparison of columns is lost
  by the rule for conjunctions, so the theorems ask for conditions in which it
  does not (\<open>orderly\<close>).
\<close>

section \<open>Conditions\<close>

text \<open>The operands and the comparisons that the planner builds, over known columns.\<close>

definition operand :: "(cell_spec \<Rightarrow> attr_type option) \<Rightarrow> 'f expr \<Rightarrow> bool" where
  "operand ct e =
     (case e of
        FIELD f \<Rightarrow> ct (TupleCellSpec (ftable f) (fname (fmeta f)) None) = Some (ftype (fmeta f))
      | VALUE v \<Rightarrow> value_copyable v
      | _ \<Rightarrow> False)"

definition atom :: "(cell_spec \<Rightarrow> attr_type option) \<Rightarrow> 'f expr \<Rightarrow> bool" where
  "atom ct e =
     (case e of
        COMPARISON c l r \<Rightarrow> c \<noteq> NO_OP \<and> operand ct l \<and> operand ct r \<and> value_type l = value_type r
      | VALUE v \<Rightarrow> v = bool_value True \<or> v = bool_value False
      | _ \<Rightarrow> False)"

definition holds :: "'f float_ops \<Rightarrow> 'f tuple \<Rightarrow> 'f expr \<Rightarrow> bool" where
  "holds F t e \<longleftrightarrow> predicate_test F e t = Some (SUCCESS, True)"

lemma get_boolean_bool [simp]: "get_boolean F (bool_value b) = Some b"
  by (simp add: get_boolean_def bool_value_def)

lemma attr_type_bool [simp]: "attr_type (bool_value b) = BOOLEANS"
  by (simp add: bool_value_def)

lemma operand_value:
  assumes "operand (cell_type t) e" "tuple_ok t"
  obtains w where "get_value F (find_cell F t) e Value_default = Some (SUCCESS, w)" "value_wf w"
    "attr_type w = value_type e"
proof (cases e)
  case (FIELD f)
  then have "cell_type t (TupleCellSpec (ftable f) (fname (fmeta f)) None) = Some (ftype (fmeta f))"
    using assms(1) by (simp add: operand_def)
  from row.find_known [OF assms(2) fresh_value_default(1) this, of F] show ?thesis using that FIELD by auto
next
  case (VALUE v)
  then have "value_copyable v" using assms(1) by (simp add: operand_def)
  then show ?thesis
    using that [of v] VALUE by (simp add: assign_value_copyable) (simp add: value_copyable_def)
qed (use assms(1) in \<open>simp_all add: operand_def\<close>)

lemma atom_value:
  assumes "atom (cell_type t) e" "tuple_ok t" "fresh_value v"
  shows "get_value F (find_cell F t) e v = Some (SUCCESS, bool_value (holds F t e))"
proof (cases e)
  case (COMPARISON c l r)
  then have a: "c \<noteq> NO_OP" "operand (cell_type t) l" "operand (cell_type t) r" "value_type l = value_type r"
    using assms(1) by (simp_all add: atom_def)
  obtain x where x: "get_value F (find_cell F t) l Value_default = Some (SUCCESS, x)" "value_wf x" "attr_type x = value_type l"
    by (rule operand_value [OF a(2) assms(2)])
  obtain y where y: "get_value F (find_cell F t) r Value_default = Some (SUCCESS, y)" "value_wf y" "attr_type y = value_type r"
    by (rule operand_value [OF a(3) assms(2)])
  obtain k where k: "value_compare F x y = Some k" using value_compare_defined x y a(4) by metis
  obtain b where b: "compare_value F c x y = Some (SUCCESS, b)"
    using a(1) k by (cases c) (simp_all add: compare_value_def)
  have "get_value F (find_cell F t) e w = Some (SUCCESS, bool_value b)" if "fresh_value w" for w
    using x y b that COMPARISON by (simp add: store_comparison_def set_boolean_wf fresh_value_wf)
  then show ?thesis using assms(3) by (simp add: holds_def predicate_test_def)
next
  case (VALUE w)
  then obtain b where "w = bool_value b" using assms(1) by (auto simp: atom_def)
  then have "get_value F (find_cell F t) e u = Some (SUCCESS, bool_value b)" if "fresh_value u" for u
    using that VALUE by (simp add: assign_value_copyable fresh_value_wf)
  then show ?thesis using assms(3) by (simp add: holds_def predicate_test_def)
qed (use assms(1) in \<open>simp_all add: atom_def\<close>)

lemma conjunction_loop_atoms:
  assumes "list_all (atom (cell_type t)) es" "tuple_ok t" "fresh_value v" "value_wf result"
  shows "conjunction_loop F CONJ_AND (map (get_value F (find_cell F t)) es) v result =
    Some (SUCCESS, bool_value (list_all (holds F t) es))"
  using assms
  by (induction es arbitrary: v) (simp_all add: set_boolean_wf atom_value)

lemma conjunction_value:
  assumes "list_all (atom (cell_type t)) es" "tuple_ok t"
  shows "holds F t (CONJUNCTION CONJ_AND es) = list_all (holds F t) es"
    "predicate_test F (CONJUNCTION CONJ_AND es) t = Some (SUCCESS, list_all (holds F t) es)"
  using conjunction_loop_atoms [OF assms, of Value_default Value_default F]
  by (auto simp: holds_def predicate_test_def set_boolean_wf)

lemma scan_filter_atoms:
  assumes "list_all (atom (cell_type t)) es" "tuple_ok t" "fresh_value v"
  shows "scan_filter_from F es t v = Some (SUCCESS, list_all (holds F t) es)"
  using assms by (induction es arbitrary: v) (simp_all add: atom_value)

lemma holds_bool [simp]: "holds F t (VALUE (bool_value b)) = b"
  by (simp add: holds_def predicate_test_def assign_value_copyable)

lemma atom_bool [simp]: "atom ct (VALUE (bool_value b))"
  by (cases b) (simp_all add: atom_def)

section \<open>Folding\<close>

text \<open>The truth of a constant condition.\<close>

definition const_truth :: "'f float_ops \<Rightarrow> 'f expr \<Rightarrow> bool option" where
  "const_truth F e =
     (case e of
        VALUE v \<Rightarrow> get_boolean F v
      | COMPARISON c (VALUE a) (VALUE b) \<Rightarrow> map_option snd (compare_value F c a b)
      | _ \<Rightarrow> None)"

definition foldable :: "'f expr \<Rightarrow> bool" where
  "foldable e = (case e of COMPARISON c (VALUE a) (VALUE b) \<Rightarrow> True | _ \<Rightarrow> False)"

definition fold_atom :: "'f float_ops \<Rightarrow> 'f expr \<Rightarrow> 'f expr" where
  "fold_atom F e = (if foldable e then VALUE (bool_value (const_truth F e = Some True)) else e)"

text \<open>
  The conditions whose meaning the rule for conjunctions keeps: the first
  condition that is not constantly true is constantly false, or no constantly
  false condition follows it.
\<close>

definition orderly :: "'f float_ops \<Rightarrow> 'f expr list \<Rightarrow> bool" where
  "orderly F es =
     (case dropWhile (\<lambda>e. const_truth F e = Some True) es of
        [] \<Rightarrow> True
      | e # es' \<Rightarrow> const_truth F e = Some False \<or> list_all (\<lambda>x. const_truth F x \<noteq> Some False) es')"

lemma const_truth_defined:
  assumes "atom ct e" "foldable e"
  obtains c a b k where "e = COMPARISON c (VALUE a) (VALUE b)" "compare_value F c a b = Some (SUCCESS, k)"
    "const_truth F e = Some k" "value_copyable a" "value_copyable b"
proof -
  obtain c a b where e: "e = COMPARISON c (VALUE a) (VALUE b)"
    using assms(2) by (auto simp: foldable_def split: expr.splits)
  then have v: "value_copyable a" "value_copyable b" "attr_type a = attr_type b" "c \<noteq> NO_OP"
    using assms(1) by (auto simp: atom_def operand_def)
  then obtain j where j: "value_compare F a b = Some j"
    using value_compare_defined [of a b F] by (auto simp: value_copyable_def)
  then obtain k where "compare_value F c a b = Some (SUCCESS, k)"
    using v(4) by (cases c) (simp_all add: compare_value_def)
  then show ?thesis using that e v by (simp add: const_truth_def)
qed

lemma fold_atom_truth: "atom ct e \<Longrightarrow> const_truth F (fold_atom F e) = const_truth F e"
  by (cases "foldable e") (auto simp: fold_atom_def const_truth_def elim: const_truth_defined [of ct e F])

lemma atom_fold: "atom ct e \<Longrightarrow> atom ct (fold_atom F e)"
  by (simp add: fold_atom_def)

lemma holds_const:
  assumes "atom (cell_type t) e" "const_truth F e = Some b" "tuple_ok t"
  shows "holds F t e = b"
proof (cases "foldable e")
  case True
  from const_truth_defined [OF assms(1) True, of F] obtain c x y k
    where e: "e = COMPARISON c (VALUE x) (VALUE y)" "compare_value F c x y = Some (SUCCESS, k)"
    "const_truth F e = Some k" "value_copyable x" "value_copyable y" by blast
  then show ?thesis
    using assms(2) by (simp add: holds_def predicate_test_def assign_value_copyable store_comparison_def set_boolean_wf)
next
  case False
  then show ?thesis
    using assms by (cases e) (auto simp: atom_def const_truth_def foldable_def split: expr.splits)
qed

lemma holds_fold:
  assumes "atom (cell_type t) e" "tuple_ok t"
  shows "holds F t (fold_atom F e) = holds F t e"
proof (cases "foldable e")
  case True
  obtain k where "const_truth F e = Some k" by (rule const_truth_defined [OF assms(1) True, of F])
  then show ?thesis using True holds_const [OF assms(1) _ assms(2)] by (simp add: fold_atom_def)
qed (simp add: fold_atom_def)


section \<open>Rewriting a condition\<close>

definition is_const :: "'f expr \<Rightarrow> bool" where
  "is_const e \<longleftrightarrow> is_value e \<or> foldable e"

text \<open>
  The conditions that occur while a plan is rewritten: a single comparison or
  constant, or an AND of them that is orderly and in which the constants are
  either all folded or all still comparisons.
\<close>

definition cond_inv :: "'f float_ops \<Rightarrow> (cell_spec \<Rightarrow> attr_type option) \<Rightarrow> 'f expr \<Rightarrow> bool" where
  "cond_inv F ct e \<longleftrightarrow>
     atom ct e
     \<or> (case e of
          CONJUNCTION t es \<Rightarrow>
            t = CONJ_AND \<and> list_all (atom ct) es \<and> orderly F es
            \<and> (list_all (\<lambda>e. \<not> is_value e) es \<or> list_all (\<lambda>e. \<not> foldable e) es)
        | _ \<Rightarrow> False)"

text \<open>A condition without columns.\<close>

definition const_only :: "'f expr \<Rightarrow> bool" where
  "const_only e = (case e of CONJUNCTION t es \<Rightarrow> list_all is_const es | _ \<Rightarrow> is_const e)"

lemma rewrite_operand:
  "operand ct e \<Longrightarrow> rewrite_expression F e = Some (SUCCESS, e, False)"
  by (subst rewrite_expression.simps)
    (auto simp: operand_def comparison_rule_def conjunction_rule_def split: expr.splits)

lemma rewrite_atom:
  assumes "atom ct e"
  shows "rewrite_expression F e = Some (SUCCESS, fold_atom F e, foldable e)"
proof (cases "foldable e")
  case True
  from const_truth_defined [OF assms True, of F] obtain c x y k
    where e: "e = COMPARISON c (VALUE x) (VALUE y)" "compare_value F c x y = Some (SUCCESS, k)"
    "const_truth F e = Some k" "value_copyable x" "value_copyable y" by blast
  then have "try_get_value F e Value_default = Some (SUCCESS, bool_value k)"
    by (simp add: store_comparison_def set_boolean_wf)
  then have "comparison_rule F e = Some (SUCCESS, VALUE (bool_value k), True)"
    using e(1) by (simp add: comparison_rule_def copy_value_copyable del: try_get_value.simps)
  then show ?thesis
    using True e(3) by (subst rewrite_expression.simps) (simp add: conjunction_rule_def fold_atom_def)
next
  case False
  show ?thesis
  proof (cases e)
    case (COMPARISON c l r)
    then have o: "operand ct l" "operand ct r" using assms by (simp_all add: atom_def)
    have "try_get_value F e Value_default = Some (INVALID_ARGUMENT, Value_default)"
      using False COMPARISON o by (auto simp: foldable_def operand_def split: expr.splits)
    then have "comparison_rule F e = Some (SUCCESS, e, False)"
      using COMPARISON by (simp add: comparison_rule_def del: try_get_value.simps)
    then show ?thesis
      using False COMPARISON o
      by (subst rewrite_expression.simps) (simp add: conjunction_rule_def fold_atom_def rewrite_operand)
  next
    case (VALUE v)
    then show ?thesis
      using False by (subst rewrite_expression.simps) (simp add: comparison_rule_def conjunction_rule_def fold_atom_def)
  qed (use assms in \<open>simp_all add: atom_def\<close>)
qed

lemma rewrite_atoms:
  "list_all (atom ct) es \<Longrightarrow>
     rewrite_all (rewrite_expression F) es = Some (SUCCESS, map (fold_atom F) es, list_ex foldable es)"
  by (induction es) (auto simp: rewrite_atom)

lemma constant_of_atom:
  "atom ct e \<Longrightarrow> try_to_get_bool_constant F e = Some (if is_value e then const_truth F e else None)"
  by (auto simp: atom_def try_to_get_bool_constant_def const_truth_def is_value_def split: expr.splits)

text \<open>The scan leaves conditions without folded constants as they are.\<close>

lemma scan_no_constants:
  "list_all (atom ct) es \<Longrightarrow> list_all (\<lambda>e. \<not> is_value e) es \<Longrightarrow> conjunction_scan F t kept es = Some (Inr (kept @ es))"
  by (induction es arbitrary: kept) (simp_all add: conjunction_scan_Cons constant_of_atom [of ct])

text \<open>Folded conditions without a false constant lose their constants.\<close>

lemma scan_no_false:
  assumes "list_all (atom ct) es" "list_all (\<lambda>e. \<not> foldable e) es" "list_all (\<lambda>e. const_truth F e \<noteq> Some False) es"
  shows "conjunction_scan F CONJ_AND kept es = Some (Inr (kept @ filter (\<lambda>e. \<not> is_value e) es))"
  using assms
proof (induction es arbitrary: kept)
  case (Cons e es)
  have "is_value e \<Longrightarrow> const_truth F e = Some True"
    using Cons.prems by (auto simp: is_value_def atom_def const_truth_def split: expr.splits)
  then show ?case using Cons by (simp add: conjunction_scan_Cons constant_of_atom [of ct])
qed simp

lemma const_truth_value:
  "atom ct e \<Longrightarrow> \<not> foldable e \<Longrightarrow> (\<exists>b. const_truth F e = Some b) = is_value e"
  by (auto simp: atom_def const_truth_def foldable_def is_value_def split: expr.splits)

lemma scan_skip_true:
  assumes "list_all (atom ct) es" "list_all (\<lambda>e. \<not> foldable e) es"
  shows "conjunction_scan F CONJ_AND [] es = conjunction_scan F CONJ_AND [] (dropWhile (\<lambda>e. const_truth F e = Some True) es)"
  using assms
proof (induction es)
  case (Cons e es)
  have "const_truth F e = Some True \<Longrightarrow> is_value e" using const_truth_value [of ct e F] Cons.prems by auto
  then show ?case using Cons by (simp add: conjunction_scan_Cons constant_of_atom [of ct])
qed simp

lemma orderly_no_false:
  "list_all (\<lambda>e. const_truth F e \<noteq> Some False) es \<Longrightarrow> orderly F es"
proof -
  assume a: "list_all (\<lambda>e. const_truth F e \<noteq> Some False) es"
  have "list_all (\<lambda>e. const_truth F e \<noteq> Some False) (dropWhile (\<lambda>e. const_truth F e = Some True) es)"
    using a by (auto simp: list_all_iff dest: set_dropWhileD)
  then show ?thesis by (auto simp: orderly_def split: list.splits)
qed

lemma holds_dropWhile:
  "list_all (atom (cell_type t)) es \<Longrightarrow> tuple_ok t \<Longrightarrow>
     list_all (holds F t) (dropWhile (\<lambda>e. const_truth F e = Some True) es) = list_all (holds F t) es"
  by (induction es) (auto simp: holds_const)

lemma foldable_fold: "\<not> foldable (fold_atom F e)"
  by (simp add: fold_atom_def) (simp add: foldable_def)

lemma is_const_fold: "is_const e \<Longrightarrow> is_const (fold_atom F e)"
  by (auto simp: fold_atom_def is_const_def is_value_def)

lemma orderly_fold:
  assumes "list_all (atom ct) es"
  shows "orderly F (map (fold_atom F) es) = orderly F es"
proof -
  have eq: "e \<in> set es \<Longrightarrow> const_truth F (fold_atom F e) = const_truth F e" for e
    using assms fold_atom_truth by (fastforce simp: list_all_iff)
  have "dropWhile (\<lambda>e. const_truth F e = Some True) (map (fold_atom F) es)
      = map (fold_atom F) (dropWhile (\<lambda>e. const_truth F (fold_atom F e) = Some True) es)"
    by (simp add: dropWhile_map comp_def)
  also have "dropWhile (\<lambda>e. const_truth F (fold_atom F e) = Some True) es = dropWhile (\<lambda>e. const_truth F e = Some True) es"
    by (rule dropWhile_cong) (simp_all add: eq)
  finally show ?thesis
    using eq set_dropWhileD [of _ "\<lambda>e. const_truth F e = Some True" es]
    by (auto simp: orderly_def list_all_iff split: list.split)
qed

text \<open>The result of rewriting a conjunction whose scan leaves the conditions \<open>ks\<close>.\<close>

definition settle :: "'f float_ops \<Rightarrow> 'f expr list \<Rightarrow> 'f expr" where
  "settle F ks = (case ks of [c] \<Rightarrow> c | _ \<Rightarrow> CONJUNCTION CONJ_AND (map (fold_atom F) ks))"

lemma rewrite_after_scan:
  assumes "conjunction_scan F CONJ_AND [] es = Some (Inr ks)" "list_all (atom ct) ks"
  shows "rewrite_expression F (CONJUNCTION CONJ_AND es) =
    Some (SUCCESS, settle F ks, if length ks = 1 then True else list_ex foldable ks)"
  using assms(1) rewrite_atoms [OF assms(2), of F]
  by (subst rewrite_expression.simps)
    (cases ks rule: remdups_adj.cases;
     simp add: comparison_rule_def conjunction_rule_def settle_def del: rewrite_all.simps(2))

lemma settle_inv:
  assumes "list_all (atom ct) ks" "orderly F ks"
  shows "cond_inv F ct (settle F ks)" "list_all is_const ks \<Longrightarrow> const_only (settle F ks)"
  using assms atom_fold [of ct _ F] is_const_fold [of _ F] orderly_fold [OF assms(1), of F]
  by (cases ks rule: remdups_adj.cases;
      auto simp: settle_def cond_inv_def const_only_def list_all_iff foldable_fold atom_def split: expr.splits)+

lemma settle_holds:
  assumes "list_all (atom (cell_type t)) ks" "tuple_ok t"
  shows "holds F t (settle F ks) = list_all (holds F t) ks"
proof (cases "\<exists>c. ks = [c]")
  case False
  have "list_all (atom (cell_type t)) (map (fold_atom F) ks)"
    using assms(1) atom_fold by (auto simp: list_all_iff)
  then have "holds F t (CONJUNCTION CONJ_AND (map (fold_atom F) ks)) = list_all (holds F t) (map (fold_atom F) ks)"
    by (rule conjunction_value(1) [OF _ assms(2)])
  also have "\<dots> = list_all (holds F t) ks"
    using assms by (induction ks) (simp_all add: holds_fold)
  finally show ?thesis using False by (auto simp: settle_def split: list.split)
qed (auto simp: settle_def)

text \<open>
  The scan of the conditions: either it ends at a false constant that makes the
  conjunction false, or it leaves conditions with the same meaning.
\<close>

lemma scan_cond:
  assumes "list_all (atom ct) es" "orderly F es" "list_all (\<lambda>e. \<not> is_value e) es \<or> list_all (\<lambda>e. \<not> foldable e) es"
  obtains (false) "conjunction_scan F CONJ_AND [] es = Some (Inl (VALUE (bool_value False)))"
      "VALUE (bool_value False) \<in> set es"
    | (rest) ks where "conjunction_scan F CONJ_AND [] es = Some (Inr ks)" "set ks \<subseteq> set es" "orderly F ks"
      "\<forall>t. cell_type t = ct \<and> tuple_ok t \<longrightarrow> list_all (holds F t) ks = list_all (holds F t) es"
proof (cases "list_all (\<lambda>e. \<not> is_value e) es")
  case True
  then show ?thesis using that(2) [of es] scan_no_constants [OF assms(1) True, of F CONJ_AND "[]"] assms(2) by simp
next
  case False
  then have nf: "list_all (\<lambda>e. \<not> foldable e) es" using assms(3) by simp
  let ?ds = "dropWhile (\<lambda>e. const_truth F e = Some True) es"
  have scan: "conjunction_scan F CONJ_AND [] es = conjunction_scan F CONJ_AND [] ?ds"
    by (rule scan_skip_true [OF assms(1) nf])
  have ds: "list_all (atom ct) ?ds" "list_all (\<lambda>e. \<not> foldable e) ?ds" "set ?ds \<subseteq> set es"
    using assms(1) nf by (auto simp: list_all_iff dest: set_dropWhileD)
  show ?thesis
  proof (cases "\<exists>d ds. ?ds = d # ds \<and> const_truth F d = Some False")
    case True
    then obtain d ds' where d: "?ds = d # ds'" "const_truth F d = Some False" by blast
    then have a: "atom ct d" "\<not> foldable d" using ds by auto
    then have v: "d = VALUE (bool_value False)"
      using d(2) by (auto simp: atom_def const_truth_def foldable_def split: expr.splits)
    have "conjunction_scan F CONJ_AND [] (d # ds') = Some (Inl d)"
      using a(1) d(2) v by (simp add: conjunction_scan_Cons constant_of_atom [of ct] is_value_def)
    then show ?thesis using that(1) scan d v ds(3) by auto
  next
    case False
    then have "list_all (\<lambda>e. const_truth F e \<noteq> Some False) ?ds"
      using assms(2) by (cases ?ds) (fastforce simp: orderly_def list_all_iff dest: set_dropWhileD)+
    then have *: "conjunction_scan F CONJ_AND [] ?ds = Some (Inr (filter (\<lambda>e. \<not> is_value e) ?ds))"
      "orderly F (filter (\<lambda>e. \<not> is_value e) ?ds)"
      using scan_no_false [OF ds(1,2), of F "[]"] by (auto simp: list_all_iff intro!: orderly_no_false)
    have "list_all (holds F t) (filter (\<lambda>e. \<not> is_value e) ?ds) = list_all (holds F t) es"
      if t: "cell_type t = ct" "tuple_ok t" for t
    proof -
      have "is_value e \<Longrightarrow> holds F t e" if "e \<in> set ?ds" for e
      proof -
        assume v: "is_value e"
        have "atom ct e" using that ds(1) by (simp add: list_all_iff)
        then obtain b where b: "e = VALUE (bool_value b)"
          using v by (auto simp: is_value_def atom_def split: expr.splits)
        then show "holds F t e"
          using \<open>list_all (\<lambda>e. const_truth F e \<noteq> Some False) ?ds\<close> that by (auto simp: list_all_iff const_truth_def)
      qed
      then have "list_all (holds F t) (filter (\<lambda>e. \<not> is_value e) ?ds) = list_all (holds F t) ?ds"
        by (auto simp: list_all_iff)
      then show ?thesis using holds_dropWhile [of t es F] assms(1) t by simp
    qed
    then show ?thesis using that(2) [of "filter (\<lambda>e. \<not> is_value e) ?ds"] scan * ds(3) by auto
  qed
qed

lemma rewrite_cond:
  assumes "cond_inv F ct e"
  obtains e' ch where "rewrite_expression F e = Some (SUCCESS, e', ch)" "cond_inv F ct e'"
    "const_only e \<longrightarrow> const_only e'" "\<forall>t. cell_type t = ct \<and> tuple_ok t \<longrightarrow> holds F t e' = holds F t e"
proof (cases "atom ct e")
  case True
  then have "const_only e \<longrightarrow> const_only (fold_atom F e)"
    using is_const_fold [of e F] atom_fold [OF True, of F] by (auto simp: const_only_def atom_def split: expr.splits)
  then show ?thesis
    using that rewrite_atom [OF True, of F] atom_fold [OF True, of F] holds_fold True by (auto simp: cond_inv_def)
next
  case False
  then obtain es where e: "e = CONJUNCTION CONJ_AND es" "list_all (atom ct) es" "orderly F es"
    "list_all (\<lambda>e. \<not> is_value e) es \<or> list_all (\<lambda>e. \<not> foldable e) es"
    using assms by (auto simp: cond_inv_def split: expr.splits)
  from e(2-4) show ?thesis
  proof (cases rule: scan_cond)
    case false
    then have "rewrite_expression F e = Some (SUCCESS, VALUE (bool_value False), False)"
      using e(1) by (subst rewrite_expression.simps) (simp add: comparison_rule_def conjunction_rule_def)
    moreover have "holds F t e = False" if "cell_type t = ct" "tuple_ok t" for t
      using conjunction_value(1) [of t es F] that e(1,2) false(2) by (force simp: list_all_iff)
    ultimately show ?thesis using that by (auto simp: cond_inv_def const_only_def is_const_def is_value_def)
  next
    case (rest ks)
    then have ks: "list_all (atom ct) ks" using e(2) by (auto simp: list_all_iff)
    obtain ch where "rewrite_expression F e = Some (SUCCESS, settle F ks, ch)"
      using rewrite_after_scan [OF rest(1) ks] e(1) by blast
    moreover have "holds F t (settle F ks) = holds F t e" if t: "cell_type t = ct" "tuple_ok t" for t
      using settle_holds [of t ks F] conjunction_value(1) [of t es F] ks e(1,2) rest(4) t by simp
    moreover have "const_only e \<longrightarrow> const_only (settle F ks)"
      using settle_inv(2) [OF ks rest(3)] e(1) rest(2) by (auto simp: const_only_def list_all_iff)
    ultimately show ?thesis
      using that settle_inv(1) [OF ks rest(3)] by blast
  qed
qed

end
