(* ===== verification/Query_Correct.thy ===== *)
theory Query_Correct
  imports Optimizer_Correct
begin

text \<open>
  From a query to its rows: the execution of a plan by the operators, the
  invariant of the plans that the rewriter goes through, and the theorem that
  planning and rewriting a query gives the rows that satisfy its conditions.
\<close>

section \<open>Execution of a plan\<close>

text \<open>
  A database: the columns and the stored records of every table.  The physical
  operators that \<open>PhysicalPlanGenerator\<close> builds for a plan, on tables without an
  index; the result is the feed of the rows, for a projection before the select
  list is evaluated and for a deletion the rows it collects.
\<close>

type_synonym db = "string \<Rightarrow> field_meta list \<times> byte list list"

definition exec_node ::
  "'f float_ops \<Rightarrow> db \<Rightarrow> 'f lop_kind \<Rightarrow> 'f expr list \<Rightarrow> 'f tuple feed option list \<Rightarrow> 'f tuple feed option" where
  "exec_node F db k exprs feeds =
     (case k of
        TABLE_GET t predicates \<Rightarrow>
          (case db t of (metas, records) \<Rightarrow>
             drain (Suc (length records)) (table_scan_next F t metas predicates) (records, RECORD_EOF))
      | PREDICATE \<Rightarrow>
          (case feeds of
             [feed] \<Rightarrow> do {
               (rows, rc) \<leftarrow> feed;
               case exprs of
                 [e] \<Rightarrow> if value_type e \<noteq> BOOLEANS then None
                        else drain (Suc (length rows)) (predicate_next F e) (rows, rc)
               | _ \<Rightarrow> None
             }
           | _ \<Rightarrow> None)
      | JOIN \<Rightarrow>
          (case feeds of
             [left, right] \<Rightarrow> do {
               (ls, rc1) \<leftarrow> left;
               (rs, rc2) \<leftarrow> right;
               drain (Suc (length ls * length rs)) (\<lambda>s. Some (join_next (rs, rc2) s)) (join_open (ls, rc1) (rs, rc2))
             }
           | _ \<Rightarrow> Some ([], INTERNAL))
      | PROJECTION \<Rightarrow> (case feeds of [] \<Rightarrow> Some ([], RECORD_EOF) | feed # _ \<Rightarrow> feed)
      | DELETE t \<Rightarrow> (case feeds of [] \<Rightarrow> Some ([], RECORD_EOF) | feed # _ \<Rightarrow> feed)
      | _ \<Rightarrow> None)"

primrec exec_plan :: "'f float_ops \<Rightarrow> db \<Rightarrow> 'f lop \<Rightarrow> 'f tuple feed option" where
  "exec_plan F db (Oper k exprs children) = exec_node F db k exprs (map (exec_plan F db) children)"

section \<open>Moving comparisons to the scan\<close>

definition pushed :: "'f expr \<Rightarrow> 'f expr list" where
  "pushed e =
     (case e of
        CONJUNCTION t es \<Rightarrow> filter (\<lambda>x. \<not> is_const x) es
      | _ \<Rightarrow> if is_const e then [] else [e])"

definition remaining :: "'f expr \<Rightarrow> 'f expr" where
  "remaining e =
     (case e of
        CONJUNCTION t es \<Rightarrow>
          if filter is_const es = [] then VALUE (bool_value True) else CONJUNCTION t (filter is_const es)
      | _ \<Rightarrow> if is_const e then e else VALUE (bool_value True))"

lemma push_atom:
  assumes "atom ct e"
  shows "get_exprs_can_pushdown e pd = (SUCCESS, if is_const e then Some e else None, if is_const e then pd else pd @ [e])"
  using assms
  by (cases e) (auto simp: atom_def operand_def is_const_def is_value_def is_field_def foldable_def split: expr.splits)

lemma push_atoms:
  "list_all (atom ct) es \<Longrightarrow>
     pushdown_children es pd = (SUCCESS, filter is_const es, pd @ filter (\<lambda>x. \<not> is_const x) es)"
  by (induction es arbitrary: pd) (simp_all add: push_atom [of ct])

lemma pushdown_cond:
  assumes "cond_inv F ct e"
  shows "predicate_pushdown (Oper PREDICATE [e] [Oper (TABLE_GET t ps) xs cs]) =
    (SUCCESS, Oper PREDICATE [remaining e] [Oper (TABLE_GET t (if pushed e = [] then ps else pushed e)) xs cs], pushed e \<noteq> [])"
proof (cases "atom ct e")
  case True
  then have "pushed e = (if is_const e then [] else [e])"
    "remaining e = (if is_const e then e else VALUE (bool_value True))" "\<not> is_empty_predicate (Some e)"
    by (auto simp: pushed_def remaining_def is_empty_predicate_def atom_def split: expr.splits)
  then show ?thesis using push_atom [OF True, of "[]"] by (simp add: predicate_pushdown_def Let_def)
next
  case False
  then obtain es where e: "e = CONJUNCTION CONJ_AND es" "list_all (atom ct) es"
    using assms by (auto simp: cond_inv_def split: expr.splits)
  show ?thesis
    using push_atoms [OF e(2), of "[]"] e(1)
    by (simp add: predicate_pushdown_def pushed_def remaining_def is_empty_predicate_def Let_def)
qed

lemma const_truth_const: "const_truth F e = Some b \<Longrightarrow> is_const e"
  by (auto simp: const_truth_def is_const_def is_value_def foldable_def split: expr.splits)

lemma orderly_filter_const:
  assumes "orderly F es"
  shows "orderly F (filter is_const es)"
  using assms
proof (induction es)
  case (Cons e es)
  show ?case
  proof (cases "const_truth F e = Some True")
    case True
    then show ?thesis using Cons const_truth_const [OF True] by (simp add: orderly_def)
  next
    case nt: False
    show ?thesis
    proof (cases "const_truth F e = Some False")
      case True
      then show ?thesis using const_truth_const [OF True] by (simp add: orderly_def)
    next
      case False
      then have "list_all (\<lambda>x. const_truth F x \<noteq> Some False) (e # es)" using Cons.prems nt by (simp add: orderly_def)
      then have "list_all (\<lambda>x. const_truth F x \<noteq> Some False) (filter is_const (e # es))" by (auto simp: list_all_iff)
      then show ?thesis by (rule orderly_no_false)
    qed
  qed
qed simp

lemma remaining_inv:
  assumes "cond_inv F ct e"
  shows "cond_inv F ct (remaining e)" "const_only (remaining e)" "list_all (atom ct) (pushed e)"
    "list_all (\<lambda>x. \<not> is_const x) (pushed e)" "const_only e \<Longrightarrow> pushed e = []"
proof -
  have bool: "is_const (VALUE (bool_value True))" by (simp add: is_const_def is_value_def)
  consider "atom ct e" "\<forall>t es. e \<noteq> CONJUNCTION t es"
    | es where "e = CONJUNCTION CONJ_AND es" "list_all (atom ct) es" "orderly F es"
      "list_all (\<lambda>e. \<not> is_value e) es \<or> list_all (\<lambda>e. \<not> foldable e) es"
    using assms by (auto simp: cond_inv_def atom_def split: expr.splits)
  then have "cond_inv F ct (remaining e) \<and> const_only (remaining e) \<and> list_all (atom ct) (pushed e)
      \<and> list_all (\<lambda>x. \<not> is_const x) (pushed e) \<and> (const_only e \<longrightarrow> pushed e = [])"
  proof cases
    case 1
    then show ?thesis
      using bool by (cases e) (auto simp: remaining_def pushed_def cond_inv_def const_only_def atom_def)
  next
    case (2 es)
    then show ?thesis
      using bool orderly_filter_const [OF 2(3)]
      by (auto simp: remaining_def pushed_def cond_inv_def const_only_def list_all_iff atom_def)
  qed
  then show "cond_inv F ct (remaining e)" "const_only (remaining e)" "list_all (atom ct) (pushed e)"
    "list_all (\<lambda>x. \<not> is_const x) (pushed e)" "const_only e \<Longrightarrow> pushed e = []" by simp_all
qed

lemma remaining_holds:
  assumes "cond_inv F (cell_type t) e" "tuple_ok t"
  shows "(holds F t (remaining e) \<and> list_all (holds F t) (pushed e)) = holds F t e"
proof (cases "atom (cell_type t) e")
  case True
  then show ?thesis by (cases e) (auto simp: remaining_def pushed_def atom_def)
next
  case False
  then obtain es where e: "e = CONJUNCTION CONJ_AND es" "list_all (atom (cell_type t)) es"
    using assms by (auto simp: cond_inv_def split: expr.splits)
  have "list_all (atom (cell_type t)) (filter is_const es)" using e(2) by (auto simp: list_all_iff)
  then have "holds F t (remaining e) = list_all (holds F t) (filter is_const es)"
    using conjunction_value(1) [OF _ assms(2), of "filter is_const es" F] e(1) by (auto simp: remaining_def)
  moreover have "holds F t e = list_all (holds F t) es" using conjunction_value(1) [OF e(2) assms(2)] e(1) by simp
  ultimately show ?thesis using e(1) by (auto simp: pushed_def list_all_iff)
qed

section \<open>The rows of the operators\<close>

text \<open>Rows that agree on the types of their columns.\<close>

definition typed_rows :: "(cell_spec \<Rightarrow> attr_type option) \<Rightarrow> 'f tuple list \<Rightarrow> bool" where
  "typed_rows ct rows \<longleftrightarrow> (\<forall>t\<in>set rows. tuple_ok t \<and> cell_type t = ct)"

lemma cond_test:
  assumes "cond_inv F (cell_type t) e" "tuple_ok t"
  shows "predicate_test F e t = Some (SUCCESS, holds F t e)" "value_type e = BOOLEANS"
proof -
  have "predicate_test F e t = Some (SUCCESS, holds F t e) \<and> value_type e = BOOLEANS"
  proof (cases "atom (cell_type t) e")
    case True
    then show ?thesis
      using atom_value [OF True assms(2) fresh_value_default(1), of F]
      by (auto simp: predicate_test_def atom_def split: expr.splits)
  next
    case False
    then obtain es where e: "e = CONJUNCTION CONJ_AND es" "list_all (atom (cell_type t)) es"
      using assms by (auto simp: cond_inv_def split: expr.splits)
    then show ?thesis using conjunction_value [OF e(2) assms(2), of F] by simp
  qed
  then show "predicate_test F e t = Some (SUCCESS, holds F t e)" "value_type e = BOOLEANS" by simp_all
qed

lemma exec_predicate:
  assumes "exec_plan F db c = Some (rows, RECORD_EOF)" "typed_rows ct rows" "cond_inv F ct e" "value_type e = BOOLEANS"
  shows "exec_plan F db (Oper PREDICATE [e] [c]) = Some (filter (\<lambda>t. holds F t e) rows, RECORD_EOF)"
proof -
  have "\<forall>t\<in>set rows. predicate_test F e t = Some (SUCCESS, holds F t e)"
    using assms(2,3) by (auto simp: typed_rows_def intro!: cond_test(1))
  from filtered_feed_total [OF this, of "\<lambda>t. t" RECORD_EOF] show ?thesis
    using assms(1,4) predicate_op.drain_filtered [of RECORD_EOF rows "Suc (length rows)" F e]
    by (simp add: exec_node_def)
qed

definition table_rows :: "db \<Rightarrow> string \<Rightarrow> 'f tuple list" where
  "table_rows db t = map (\<lambda>r. RowTuple t (fst (db t)) r) (snd (db t))"

definition table_types :: "db \<Rightarrow> string \<Rightarrow> cell_spec \<Rightarrow> attr_type option" where
  "table_types db t spec =
     (if spec_table spec \<noteq> t then None else map_option ftype (find_field (spec_field spec) (fst (db t))))"

definition table_ok :: "db \<Rightarrow> string \<Rightarrow> bool" where
  "table_ok db t \<longleftrightarrow> (\<forall>r\<in>set (snd (db t)). list_all (column_ok r) (fst (db t)))"

lemma table_rows_typed: "table_ok db t \<Longrightarrow> typed_rows (table_types db t) (table_rows db t)"
  by (auto simp: typed_rows_def table_rows_def table_ok_def table_types_def fun_eq_iff)

lemma exec_table_get:
  fixes F :: "'f float_ops"
  assumes "table_ok db t" "list_all (atom (table_types db t)) ps"
  shows "exec_plan F db (Oper (TABLE_GET t ps) xs cs) =
    Some (filter (\<lambda>r. list_all (holds F r) ps) (table_rows db t), RECORD_EOF)"
proof -
  obtain metas recs where d: "db t = (metas, recs)" by (cases "db t")
  have "\<forall>r\<in>set recs. scan_filter F ps (RowTuple t metas r) = Some (SUCCESS, list_all (holds F (RowTuple t metas r)) ps)"
  proof
    fix r assume "r \<in> set recs"
    then have "(RowTuple t metas r :: 'f tuple) \<in> set (table_rows db t)" using d by (simp add: table_rows_def)
    then have "tuple_ok (RowTuple t metas r :: 'f tuple) \<and> cell_type (RowTuple t metas r :: 'f tuple) = table_types db t"
      using table_rows_typed [OF assms(1)] unfolding typed_rows_def by blast
    then show "scan_filter F ps (RowTuple t metas r) = Some (SUCCESS, list_all (holds F (RowTuple t metas r)) ps)"
      unfolding scan_filter_def using assms(2) by (intro scan_filter_atoms) simp_all
  qed
  from filtered_feed_total [OF this, of "RowTuple t metas" RECORD_EOF] show ?thesis
    using scan_op.drain_filtered [of RECORD_EOF recs "Suc (length recs)" F t metas ps] d
    by (simp add: exec_node_def table_rows_def filter_map comp_def)
qed

section \<open>Operators that no rule touches\<close>

text \<open>Table scans and joins carry no expressions.\<close>

fun inert :: "'f lop \<Rightarrow> bool" where
  "inert (Oper k exprs children) \<longleftrightarrow>
     exprs = [] \<and> (case k of JOIN \<Rightarrow> True | TABLE_GET t ps \<Rightarrow> True | _ \<Rightarrow> False) \<and> list_all inert children"

lemma inert_kind: "inert c \<Longrightarrow> lkind c \<noteq> PREDICATE"
  by (cases c) auto

lemma rewrite_all_id: "\<forall>x\<in>set xs. f x = Some (SUCCESS, x, False) \<Longrightarrow> rewrite_all f xs = Some (SUCCESS, xs, False)"
  by (induction xs) auto

lemma inert_expression_rewriter: "inert c \<Longrightarrow> expression_rewriter F c = Some (SUCCESS, c, False)"
proof (induction c)
  case (Oper k exprs children)
  then have "rewrite_all (expression_rewriter F) children = Some (SUCCESS, children, False)"
    by (intro rewrite_all_id) (auto simp: list_all_iff)
  then show ?case using Oper.prems by simp
qed

lemma predicate_rewrite_other:
  "\<forall>c\<in>set (lchildren l). lkind c \<noteq> PREDICATE \<Longrightarrow> predicate_rewrite F l = Some (SUCCESS, l, False)"
  by (cases l) (auto simp: predicate_rewrite_def split: list.splits lop.splits lop_kind.splits)

lemma predicate_pushdown_other: "lkind l \<noteq> PREDICATE \<Longrightarrow> predicate_pushdown l = (SUCCESS, l, False)"
  by (cases l) (auto simp: predicate_pushdown_def split: lop_kind.splits)

lemma inert_rewriter: "inert c \<Longrightarrow> rewriter F c = Some (SUCCESS, c, False)"
proof (induction c)
  case (Oper k exprs children)
  let ?c = "Oper k exprs children"
  have "\<forall>c\<in>set children. lkind c \<noteq> PREDICATE" using Oper.prems inert_kind by (auto simp: list_all_iff)
  then have "apply_rules F ?c = Some (SUCCESS, ?c, False)"
    using inert_expression_rewriter [OF Oper.prems, of F] inert_kind [OF Oper.prems]
    by (simp add: apply_rules_def predicate_rewrite_other predicate_pushdown_other del: expression_rewriter.simps)
  moreover have "rewrite_all (rewriter F) children = Some (SUCCESS, children, False)"
    using Oper by (intro rewrite_all_id) (auto simp: list_all_iff)
  ultimately show ?case by (subst rewriter.simps) simp
qed

section \<open>The plans of a query\<close>

text \<open>
  The expressions of a select list, which are left alone: constants, columns,
  arithmetic and aggregates.
\<close>

definition plain :: "'f expr \<Rightarrow> bool" where
  "plain e = (case e of CAST a t \<Rightarrow> False | COMPARISON c l r \<Rightarrow> False | CONJUNCTION t es \<Rightarrow> False | _ \<Rightarrow> True)"

lemma rewrite_plain: "plain e \<Longrightarrow> rewrite_expression F e = Some (SUCCESS, e, False)"
  by (subst rewrite_expression.simps) (cases e; simp add: plain_def comparison_rule_def conjunction_rule_def)

lemma rewrite_plains: "list_all plain es \<Longrightarrow> rewrite_all (rewrite_expression F) es = Some (SUCCESS, es, False)"
  by (intro rewrite_all_id) (auto simp: list_all_iff rewrite_plain)

definition plan_top :: "'f lop_kind \<Rightarrow> bool" where
  "plan_top k = (case k of PROJECTION \<Rightarrow> True | DELETE t \<Rightarrow> True | _ \<Rightarrow> False)"

text \<open>
  The source below a filter: a scan that has no predicates yet, a scan that got
  all comparisons with columns, or a join.
\<close>

definition source_ok :: "db \<Rightarrow> (cell_spec \<Rightarrow> attr_type option) \<Rightarrow> 'f lop \<Rightarrow> 'f expr \<Rightarrow> bool" where
  "source_ok db ct c e =
     (case c of
        Oper (TABLE_GET t ps) xs cs \<Rightarrow>
          cs = [] \<and> table_ok db t \<and> ct = table_types db t \<and> (ps = [] \<or> const_only e)
      | _ \<Rightarrow> True)"

inductive plan_inv :: "'f float_ops \<Rightarrow> db \<Rightarrow> (cell_spec \<Rightarrow> attr_type option) \<Rightarrow> 'f lop \<Rightarrow> bool" for F db ct where
  filtered: "plan_top k \<Longrightarrow> list_all plain es \<Longrightarrow> inert c \<Longrightarrow> exec_plan F db c = Some (rows, RECORD_EOF)
    \<Longrightarrow> typed_rows ct rows \<Longrightarrow> cond_inv F ct e \<Longrightarrow> source_ok db ct c e
    \<Longrightarrow> plan_inv F db ct (Oper k es [Oper PREDICATE [e] [c]])"
| bare: "plan_top k \<Longrightarrow> list_all plain es \<Longrightarrow> inert c \<Longrightarrow> plan_inv F db ct (Oper k es [c])"
| empty: "plan_top k \<Longrightarrow> list_all plain es \<Longrightarrow> plan_inv F db ct (Oper k es [])"

lemma cond_inv_type: "cond_inv F ct e \<Longrightarrow> value_type e = BOOLEANS"
  by (auto simp: cond_inv_def atom_def split: expr.splits)

lemma exec_top: "plan_top k \<Longrightarrow> exec_plan F db (Oper k es [c]) = exec_plan F db c"
  "plan_top k \<Longrightarrow> exec_plan F db (Oper k es []) = Some ([], RECORD_EOF)"
  by (auto simp: plan_top_def exec_node_def split: lop_kind.splits)

declare exec_plan.simps [simp del]

text \<open>The driver on a topmost operator after the rules.\<close>

lemma rewriter_top:
  assumes "plan_top k" "list_all plain es" "rewrite_all (expression_rewriter F) cs = Some (SUCCESS, cs1, c1)"
    "predicate_rewrite F (Oper k es cs1) = Some (SUCCESS, Oper k es cs2, c2)"
    "rewrite_all (rewriter F) cs2 = Some (SUCCESS, cs3, c3)"
  shows "rewriter F (Oper k es cs) = Some (SUCCESS, Oper k es cs3, c1 \<or> c2 \<or> c3)"
proof -
  have "lkind (Oper k es cs2) \<noteq> PREDICATE" using assms(1) by (auto simp: plan_top_def)
  then have "apply_rules F (Oper k es cs) = Some (SUCCESS, Oper k es cs2, c1 \<or> c2)"
    using assms(3,4) rewrite_plains [OF assms(2), of F] by (simp add: apply_rules_def predicate_pushdown_other)
  then show ?thesis using assms(5) by (subst rewriter.simps) auto
qed

text \<open>The driver on a filter and its source.\<close>

lemma rewriter_filter:
  assumes "inert c" "exec_plan F db c = Some (rows, RECORD_EOF)" "typed_rows ct rows" "cond_inv F ct e" "source_ok db ct c e"
  obtains e' c' rows' ch where "rewriter F (Oper PREDICATE [e] [c]) = Some (SUCCESS, Oper PREDICATE [e'] [c'], ch)"
    "inert c'" "exec_plan F db c' = Some (rows', RECORD_EOF)" "typed_rows ct rows'" "cond_inv F ct e'" "source_ok db ct c' e'"
    "filter (\<lambda>t. holds F t e') rows' = filter (\<lambda>t. holds F t e) rows"
proof -
  obtain e2 c2 where e2: "rewrite_expression F e = Some (SUCCESS, e2, c2)" "cond_inv F ct e2"
    "const_only e \<longrightarrow> const_only e2" "\<forall>t. cell_type t = ct \<and> tuple_ok t \<longrightarrow> holds F t e2 = holds F t e"
    by (rule rewrite_cond [OF assms(4)])
  have keep: "filter (\<lambda>t. holds F t e2) rows = filter (\<lambda>t. holds F t e) rows"
    using e2(4) assms(3) by (intro filter_cong) (auto simp: typed_rows_def)
  have "expression_rewriter F (Oper PREDICATE [e] [c]) = Some (SUCCESS, Oper PREDICATE [e2] [c], c2)"
    using e2(1) inert_expression_rewriter [OF assms(1), of F] by simp
  then have rules: "apply_rules F (Oper PREDICATE [e] [c]) =
      (case predicate_pushdown (Oper PREDICATE [e2] [c]) of
         (rc, o3, c3) \<Rightarrow> if rc \<noteq> SUCCESS then Some (rc, o3, c2) else Some (SUCCESS, o3, c2 \<or> c3))"
    using inert_kind [OF assms(1)]
    by (simp add: apply_rules_def predicate_rewrite_other del: expression_rewriter.simps split: prod.split)
  have rewr: "rewriter F (Oper PREDICATE [e] [c]) = Some (SUCCESS, Oper PREDICATE [e3] [c3], c2 \<or> ch3)"
    if "predicate_pushdown (Oper PREDICATE [e2] [c]) = (SUCCESS, Oper PREDICATE [e3] [c3], ch3)" "inert c3" for e3 c3 ch3
    using rules that inert_rewriter [OF that(2), of F] by (subst rewriter.simps) auto
  show ?thesis
  proof (cases "\<exists>t ps xs cs. c = Oper (TABLE_GET t ps) xs cs")
    case False
    then have "predicate_pushdown (Oper PREDICATE [e2] [c]) = (SUCCESS, Oper PREDICATE [e2] [c], False)"
      and src: "source_ok db ct c e2"
      by (cases c; auto simp: predicate_pushdown_def source_ok_def split: lop_kind.splits)+
    from rewr [OF this(1) assms(1)] show ?thesis using that assms(1-3) e2(2) src keep by blast
  next
    case True
    then obtain t ps where c: "c = Oper (TABLE_GET t ps) [] []" "table_ok db t" "ct = table_types db t"
      "ps = [] \<or> const_only e"
      using assms(1,5) by (auto simp: source_ok_def)
    note r = remaining_inv [OF e2(2)]
    let ?c = "Oper (TABLE_GET t (if pushed e2 = [] then ps else pushed e2)) [] []"
    have step: "rewriter F (Oper PREDICATE [e] [c]) = Some (SUCCESS, Oper PREDICATE [remaining e2] [?c], c2 \<or> pushed e2 \<noteq> [])"
      using rewr [OF pushdown_cond [OF e2(2), of t ps "[]" "[]", folded c(1)]] by simp
    have src: "source_ok db ct ?c (remaining e2)" using c r(2) by (simp add: source_ok_def)
    have sem: "(holds F u (remaining e2) \<and> list_all (holds F u) (pushed e2)) = holds F u e2"
      if "cell_type u = ct" "tuple_ok u" for u
      using remaining_holds [of F u e2] e2(2) that by simp
    show ?thesis
    proof (cases "pushed e2 = []")
      case True
      have "filter (\<lambda>t. holds F t (remaining e2)) rows = filter (\<lambda>t. holds F t e2) rows"
        using sem True assms(3) by (intro filter_cong) (auto simp: typed_rows_def)
      then show ?thesis using that [of "remaining e2" ?c _ rows] step assms(2,3) c(1) r(1) src keep True by simp
    next
      case False
      then have "ps = []" using c(4) e2(3) r(5) by blast
      then have rows: "rows = table_rows db t" using assms(2) exec_table_get [OF c(2), of "[]" F "[]" "[]"] c(1) by simp
      let ?rows = "filter (\<lambda>r. list_all (holds F r) (pushed e2)) (table_rows db t)"
      have "exec_plan F db ?c = Some (?rows, RECORD_EOF)"
        using exec_table_get [OF c(2), of "pushed e2" F "[]" "[]"] r(3) c(3) False by simp
      moreover have "typed_rows ct ?rows" using assms(3) rows by (auto simp: typed_rows_def)
      moreover have "filter (\<lambda>t. holds F t (remaining e2)) ?rows = filter (\<lambda>t. holds F t e) rows"
      proof -
        have "filter (\<lambda>t. holds F t (remaining e2)) ?rows = filter (\<lambda>t. holds F t e2) rows"
          using sem assms(3) unfolding rows by (subst filter_filter, intro filter_cong) (auto simp: typed_rows_def)
        then show ?thesis using keep by simp
      qed
      ultimately show ?thesis using that [of "remaining e2" ?c _ ?rows] step r(1) src by simp
    qed
  qed
qed

text \<open>One pass of the driver keeps the invariant and the rows.\<close>

lemma rewriter_pass:
  assumes "plan_inv F db ct l"
  obtains l' ch where "rewriter F l = Some (SUCCESS, l', ch)" "plan_inv F db ct l'" "exec_plan F db l' = exec_plan F db l"
  using assms
proof (cases rule: plan_inv.cases)
  case (empty k es)
  have "predicate_rewrite F (Oper k es []) = Some (SUCCESS, Oper k es [], False)" by (simp add: predicate_rewrite_def)
  from rewriter_top [OF empty(2,3) _ this, of "[]" False "[]" False] show ?thesis using that [of l False] empty(1) assms by simp
next
  case (bare k es c)
  have "predicate_rewrite F (Oper k es [c]) = Some (SUCCESS, Oper k es [c], False)"
    using inert_kind [OF bare(4)] by (simp add: predicate_rewrite_other)
  from rewriter_top [OF bare(2,3) _ this, of "[c]" False "[c]" False] show ?thesis
    using that [of l False] bare(1) assms inert_expression_rewriter [OF bare(4), of F] inert_rewriter [OF bare(4), of F] by simp
next
  case (filtered k es c rows e)
  obtain e1 c1 where e1: "rewrite_expression F e = Some (SUCCESS, e1, c1)" "cond_inv F ct e1"
    "const_only e \<longrightarrow> const_only e1" "\<forall>t. cell_type t = ct \<and> tuple_ok t \<longrightarrow> holds F t e1 = holds F t e"
    by (rule rewrite_cond [OF filtered(7)])
  have keep: "filter (\<lambda>t. holds F t e1) rows = filter (\<lambda>t. holds F t e) rows"
    using e1(4) filtered(6) by (intro filter_cong) (auto simp: typed_rows_def)
  have exec: "exec_plan F db l = Some (filter (\<lambda>t. holds F t e1) rows, RECORD_EOF)"
    using exec_predicate [OF filtered(5-7) cond_inv_type [OF filtered(7)]] exec_top(1) [OF filtered(2)] filtered(1) keep
    by simp
  let ?p = "Oper PREDICATE [e1] [c]"
  have er: "rewrite_all (expression_rewriter F) [Oper PREDICATE [e] [c]] = Some (SUCCESS, [?p], c1)"
    using e1(1) inert_expression_rewriter [OF filtered(4), of F] by simp
  show ?thesis
  proof (cases "\<exists>v. e1 = VALUE v")
    case True
    then obtain b where b: "e1 = VALUE (bool_value b)" using e1(2) by (auto simp: cond_inv_def atom_def)
    let ?cs = "if b then [c] else []"
    have pr: "predicate_rewrite F (Oper k es [?p]) = Some (SUCCESS, Oper k es ?cs, True)"
      using b by (simp add: predicate_rewrite_def)
    have rr: "rewrite_all (rewriter F) ?cs = Some (SUCCESS, ?cs, False)" using inert_rewriter [OF filtered(4)] by simp
    have "exec_plan F db (Oper k es ?cs) = exec_plan F db l"
      using exec b filtered(5) exec_top [OF filtered(2)] by simp
    moreover have "plan_inv F db ct (Oper k es ?cs)" using filtered(2-4) by (simp add: plan_inv.bare plan_inv.empty)
    ultimately show ?thesis using that rewriter_top [OF filtered(2,3) er pr rr] filtered(1) by blast
  next
    case False
    then have pr: "predicate_rewrite F (Oper k es [?p]) = Some (SUCCESS, Oper k es [?p], False)"
      by (cases e1) (simp_all add: predicate_rewrite_def)
    have src: "source_ok db ct c e1"
      using filtered(8) e1(3) by (auto simp: source_ok_def split: lop.splits lop_kind.splits)
    obtain e' c' rows' ch
      where r: "rewriter F ?p = Some (SUCCESS, Oper PREDICATE [e'] [c'], ch)" "inert c'"
        "exec_plan F db c' = Some (rows', RECORD_EOF)" "typed_rows ct rows'" "cond_inv F ct e'" "source_ok db ct c' e'"
        "filter (\<lambda>t. holds F t e') rows' = filter (\<lambda>t. holds F t e1) rows"
      by (rule rewriter_filter [OF filtered(4-6) e1(2) src])
    let ?l = "Oper k es [Oper PREDICATE [e'] [c']]"
    have rr: "rewrite_all (rewriter F) [?p] = Some (SUCCESS, [Oper PREDICATE [e'] [c']], ch)" using r(1) by simp
    have "exec_plan F db ?l = exec_plan F db l"
      using exec exec_predicate [OF r(3-5) cond_inv_type [OF r(5)]] exec_top(1) [OF filtered(2)] r(7) by simp
    moreover have "plan_inv F db ct ?l" using plan_inv.filtered filtered(2,3) r(2-6) by blast
    ultimately show ?thesis using that rewriter_top [OF filtered(2,3) er pr rr] filtered(1) by blast
  qed
qed

lemma optimize_rewrite_rows:
  "plan_inv F db ct l \<Longrightarrow> \<exists>l'. optimize_rewrite F l = Some (SUCCESS, l') \<and> exec_plan F db l' = exec_plan F db l"
proof (induction "psize l" arbitrary: l rule: less_induct)
  case less
  obtain l1 ch where l1: "rewriter F l = Some (SUCCESS, l1, ch)" "plan_inv F db ct l1" "exec_plan F db l1 = exec_plan F db l"
    by (rule rewriter_pass [OF less.prems])
  show ?case
  proof (cases ch)
    case True
    then have "psize l1 < psize l" using rewriter_size [OF l1(1)] by simp
    from less.hyps [OF this l1(2)] show ?thesis using l1 True by (subst optimize_rewrite.simps) simp
  qed (use l1 in \<open>subst optimize_rewrite.simps, simp\<close>)
qed

section \<open>From a statement to its rows\<close>

text \<open>The rows of the tables of a query, and the types of their columns.\<close>

fun from_rows :: "db \<Rightarrow> 'f tuple list \<Rightarrow> string list \<Rightarrow> 'f tuple list" where
  "from_rows db rows [] = rows"
| "from_rows db rows (t # ts) = from_rows db (join_rows rows (table_rows db t)) ts"

fun from_types :: "db \<Rightarrow> (cell_spec \<Rightarrow> attr_type option) \<Rightarrow> string list \<Rightarrow> cell_spec \<Rightarrow> attr_type option" where
  "from_types db ct [] = ct"
| "from_types db ct (t # ts) =
     from_types db (\<lambda>spec. case ct spec of Some a \<Rightarrow> Some a | None \<Rightarrow> table_types db t spec) ts"

lemma join_rows_typed:
  assumes "typed_rows ct rows" "typed_rows ct' rows'"
  shows "typed_rows (\<lambda>spec. case ct spec of Some a \<Rightarrow> Some a | None \<Rightarrow> ct' spec) (join_rows rows rows')"
  using assms by (auto simp: typed_rows_def join_rows_def fun_eq_iff split: option.split)

lemma length_join_rows: "length (join_rows ls rs) = length ls * length rs"
  by (induction ls) (simp_all add: join_rows_def)

lemma exec_join:
  assumes "exec_plan F db a = Some (ls, RECORD_EOF)" "exec_plan F db b = Some (rs, RECORD_EOF)"
  shows "exec_plan F db (Oper JOIN [] [a, b]) = Some (join_rows ls rs, RECORD_EOF)"
  using assms join_drain [of ls rs "Suc (length ls * length rs)"]
  by (simp add: exec_plan.simps exec_node_def length_join_rows del: drain.simps)

lemma table_plan_rows:
  assumes "exec_plan F db a = Some (rows, RECORD_EOF)" "typed_rows ct rows" "inert a" "list_all (table_ok db) ts"
  obtains c where "table_plan (Some a) ts = Some c" "exec_plan F db c = Some (from_rows db rows ts, RECORD_EOF)"
    "typed_rows (from_types db ct ts) (from_rows db rows ts)" "inert c" "ts \<noteq> [] \<longrightarrow> lkind c = JOIN" "ts = [] \<longrightarrow> c = a"
  using assms
proof (induction ts arbitrary: a rows ct thesis)
  case (Cons t ts)
  let ?g = "Oper (TABLE_GET t []) [] []"
  have g: "exec_plan F db ?g = Some (table_rows db t, RECORD_EOF)" "typed_rows (table_types db t) (table_rows db t)"
    using exec_table_get [of db t "[]" F "[]" "[]"] table_rows_typed [of db t] Cons.prems by simp_all
  note j = exec_join [OF Cons.prems(2) g(1)] join_rows_typed [OF Cons.prems(3) g(2)]
  obtain c where c: "table_plan (Some (Oper JOIN [] [a, ?g])) ts = Some c"
    "exec_plan F db c = Some (from_rows db rows (t # ts), RECORD_EOF)"
    "typed_rows (from_types db ct (t # ts)) (from_rows db rows (t # ts))" "inert c"
    "ts \<noteq> [] \<longrightarrow> lkind c = JOIN" "ts = [] \<longrightarrow> c = Oper JOIN [] [a, ?g]"
    using Cons.IH [OF _ j, of thesis] Cons.prems by auto
  then show ?case using Cons.prems(1) [of c] by (cases ts) (auto simp: Let_def)
qed auto

text \<open>
  The reference meaning of a condition on a row: the values of the two sides,
  compared with the operator of the condition.
\<close>

definition obj_value :: "'f float_ops \<Rightarrow> 'f tuple \<Rightarrow> 'f filter_obj \<Rightarrow> 'f sql_value option" where
  "obj_value F t obj =
     (case obj of
        Attr f \<Rightarrow> map_option snd (find_cell F t (TupleCellSpec (ftable f) (fname (fmeta f)) None) Value_default)
      | Val v \<Rightarrow> Some v)"

definition unit_holds :: "'f float_ops \<Rightarrow> 'f tuple \<Rightarrow> 'f filter_unit \<Rightarrow> bool" where
  "unit_holds F t u =
     (case (obj_value F t (fleft u), obj_value F t (fright u)) of
        (Some a, Some b) \<Rightarrow> compare_value F (fcomp u) a b = Some (SUCCESS, True)
      | _ \<Rightarrow> False)"

text \<open>The conditions over known columns and constants that can be copied.\<close>

definition obj_ok :: "(cell_spec \<Rightarrow> attr_type option) \<Rightarrow> 'f filter_obj \<Rightarrow> bool" where
  "obj_ok ct obj =
     (case obj of
        Attr f \<Rightarrow> ct (TupleCellSpec (ftable f) (fname (fmeta f)) None) = Some (ftype (fmeta f))
      | Val v \<Rightarrow> value_copyable v)"

definition unit_ok :: "(cell_spec \<Rightarrow> attr_type option) \<Rightarrow> 'f filter_unit \<Rightarrow> bool" where
  "unit_ok ct u \<longleftrightarrow> fcomp u \<noteq> NO_OP \<and> obj_ok ct (fleft u) \<and> obj_ok ct (fright u)"

definition obj_expr :: "'f filter_obj \<Rightarrow> 'f expr" where
  "obj_expr obj = (case obj of Attr f \<Rightarrow> FIELD f | Val v \<Rightarrow> VALUE v)"

definition unit_expr :: "'f filter_unit \<Rightarrow> 'f expr" where
  "unit_expr u = COMPARISON (fcomp u) (obj_expr (fleft u)) (obj_expr (fright u))"

definition same_types :: "'f filter_unit \<Rightarrow> bool" where
  "same_types u \<longleftrightarrow> value_type (obj_expr (fleft u)) = value_type (obj_expr (fright u))"

lemma filter_expr_ok: "obj_ok ct obj \<Longrightarrow> filter_expr obj = Some (obj_expr obj)"
  by (cases obj) (simp_all add: obj_ok_def filter_expr_def obj_expr_def copy_value_copyable)

text \<open>The planner accepts exactly the conditions whose two sides have the same type.\<close>

lemma plan_unit_ok:
  assumes "unit_ok ct u"
  shows "plan_unit F u = Some (if same_types u then (SUCCESS, Some (unit_expr u)) else (UNSUPPORTED, None))"
proof -
  have c: "implicit_cast_cost a b = (if a = b then 0 else INT32_MAX)" for a b
    by (cases a) (auto simp: implicit_cast_cost_def cast_cost_def)
  have "filter_expr (fleft u) = Some (obj_expr (fleft u))" "filter_expr (fright u) = Some (obj_expr (fright u))"
    using assms filter_expr_ok by (auto simp: unit_ok_def)
  then show ?thesis by (auto simp: plan_unit_def same_types_def unit_expr_def c Let_def)
qed

lemma plan_units_ok:
  "list_all (unit_ok ct) us \<Longrightarrow>
     plan_units F us =
       Some (if list_all same_types us then (SUCCESS, map unit_expr us)
             else (UNSUPPORTED, map unit_expr (takeWhile same_types us)))"
  by (induction us) (auto simp: plan_unit_ok [of ct])

lemma create_filter_plan_ok:
  assumes "list_all (unit_ok ct) us"
  shows "create_filter_plan F us =
    Some (if \<not> list_all same_types us then (UNSUPPORTED, None)
          else if us = [] then (SUCCESS, None)
          else (SUCCESS, Some (Oper PREDICATE [CONJUNCTION CONJ_AND (map unit_expr us)] [])))"
  using plan_units_ok [OF assms, of F] by (auto simp: create_filter_plan_def)

lemma unit_expr_atom: "unit_ok ct u \<Longrightarrow> same_types u \<Longrightarrow> atom ct (unit_expr u) \<and> \<not> is_value (unit_expr u)"
  by (auto simp: unit_ok_def same_types_def unit_expr_def atom_def operand_def obj_ok_def obj_expr_def is_value_def
      split: filter_obj.splits)

lemma obj_value_expr:
  assumes "obj_ok (cell_type t) obj" "tuple_ok t"
  obtains w where "obj_value F t obj = Some w" "get_value F (find_cell F t) (obj_expr obj) Value_default = Some (SUCCESS, w)"
proof (cases obj)
  case (Attr f)
  then have "cell_type t (TupleCellSpec (ftable f) (fname (fmeta f)) None) = Some (ftype (fmeta f))"
    using assms(1) by (simp add: obj_ok_def)
  from row.find_known [OF assms(2) fresh_value_default(1) this, of F] show ?thesis
    using that Attr by (auto simp: obj_value_def obj_expr_def)
next
  case (Val v)
  then show ?thesis using that assms(1) by (simp add: obj_value_def obj_expr_def obj_ok_def assign_value_copyable)
qed

lemma holds_unit:
  assumes "unit_ok (cell_type t) u" "tuple_ok t"
  shows "holds F t (unit_expr u) = unit_holds F t u"
proof -
  obtain a where a: "obj_value F t (fleft u) = Some a"
      "get_value F (find_cell F t) (obj_expr (fleft u)) Value_default = Some (SUCCESS, a)"
    using obj_value_expr assms by (metis unit_ok_def)
  obtain b where b: "obj_value F t (fright u) = Some b"
      "get_value F (find_cell F t) (obj_expr (fright u)) Value_default = Some (SUCCESS, b)"
    using obj_value_expr assms by (metis unit_ok_def)
  show ?thesis
    using a b by (cases "compare_value F (fcomp u) a b")
      (auto simp: holds_def predicate_test_def unit_expr_def unit_holds_def store_comparison_def set_boolean_wf
        split: if_splits)
qed

text \<open>A plan with a filter over a source, rewritten and executed.\<close>

lemma filter_query_rows:
  assumes "plan_top k" "list_all plain es" "inert c" "exec_plan F db c = Some (rows, RECORD_EOF)" "typed_rows ct rows"
    "list_all (unit_ok ct) us" "list_all same_types us" "orderly F (map unit_expr us)"
    "\<forall>e. source_ok db ct c e"
    "l = Oper k es [if us = [] then c else Oper PREDICATE [CONJUNCTION CONJ_AND (map unit_expr us)] [c]]"
  shows "\<exists>l'. optimize_rewrite F l = Some (SUCCESS, l')
    \<and> exec_plan F db l' = Some (filter (\<lambda>r. list_all (unit_holds F r) us) rows, RECORD_EOF)"
proof (cases "us = []")
  case True
  then have "plan_inv F db ct l" using assms(1-3,10) by (simp add: plan_inv.bare)
  from optimize_rewrite_rows [OF this] show ?thesis
    using assms(4,10) exec_top(1) [OF assms(1), of F db es c] True by simp
next
  case False
  let ?e = "CONJUNCTION CONJ_AND (map unit_expr us)"
  have atoms: "list_all (atom ct) (map unit_expr us)" "list_all (\<lambda>e. \<not> is_value e) (map unit_expr us)"
    using assms(6,7) unit_expr_atom by (auto simp: list_all_iff)
  have inv: "cond_inv F ct ?e" using atoms assms(8) by (simp add: cond_inv_def)
  have "plan_inv F db ct l" using plan_inv.filtered [OF assms(1-5) inv] assms(9,10) False by simp
  then obtain l' where "optimize_rewrite F l = Some (SUCCESS, l')" "exec_plan F db l' = exec_plan F db l"
    using optimize_rewrite_rows by blast
  moreover have "exec_plan F db l = Some (filter (\<lambda>t. holds F t ?e) rows, RECORD_EOF)"
    using exec_predicate [OF assms(4,5) inv] exec_top(1) [OF assms(1)] assms(10) False by simp
  moreover have "filter (\<lambda>t. holds F t ?e) rows = filter (\<lambda>r. list_all (unit_holds F r) us) rows"
  proof (rule filter_cong [OF refl])
    fix t assume "t \<in> set rows"
    then have t: "cell_type t = ct" "tuple_ok t" using assms(5) by (auto simp: typed_rows_def)
    have "holds F t ?e = list_all (holds F t) (map unit_expr us)" using conjunction_value(1) t atoms(1) by metis
    then show "holds F t ?e = list_all (unit_holds F t) us"
      using holds_unit [of t _ F] t assms(6) by (auto simp: list_all_iff)
  qed
  ultimately show ?thesis by simp
qed

section \<open>Properties\<close>

text \<open>A table for examples: one integer column and the rows 1 and 2.\<close>

definition column_a :: field_meta where
  "column_a = \<lparr>fname = ''a'', ftype = INTS, foffset = 0, flen = 4, fvisible = True, ffield_id = 0\<rparr>"

definition small_db :: db where
  "small_db = (\<lambda>t. ([column_a], [[1, 0, 0, 0], [2, 0, 0, 0]]))"

definition int_value :: "int \<Rightarrow> 'f sql_value" where
  "int_value i = \<lparr>attr_type = INTS, val_length = 4, val = Int_value i, own_data = False\<rparr>"

definition a_equals_1 :: "int filter_unit" where
  "a_equals_1 = \<lparr>fcomp = EQUAL_TO, fleft = Attr \<lparr>ftable = ''t'', fmeta = column_a\<rparr>, fright = Val (int_value 1)\<rparr>"

definition compares :: "int \<Rightarrow> int \<Rightarrow> int filter_unit" where
  "compares i j = \<lparr>fcomp = EQUAL_TO, fleft = Val (int_value i), fright = Val (int_value j)\<rparr>"

lemmas example_defs = small_db_def column_a_def int_value_def a_equals_1_def compares_def





text \<open>
  C15.  The planner checks types: conditions of which one compares two different
  types are rejected with UNSUPPORTED, and for all others the predicate of the
  plan is evaluated on every row without a failed assertion of the comparison,
  and tells whether all conditions hold.
\<close>

theorem planner_checks_types:
  assumes "list_all (unit_ok ct) us" "us \<noteq> []"
  shows "if list_all same_types us
    then \<exists>e. create_filter_plan F us = Some (SUCCESS, Some (Oper PREDICATE [e] []))
      \<and> (\<forall>t. tuple_ok t \<and> cell_type t = ct \<longrightarrow> predicate_test F e t = Some (SUCCESS, list_all (unit_holds F t) us))
    else create_filter_plan F us = Some (UNSUPPORTED, None)"
proof (cases "list_all same_types us")
  case True
  let ?e = "CONJUNCTION CONJ_AND (map unit_expr us)"
  have atoms: "list_all (atom ct) (map unit_expr us)"
    using assms(1) True unit_expr_atom by (auto simp: list_all_iff)
  have "predicate_test F ?e t = Some (SUCCESS, list_all (unit_holds F t) us)" if t: "tuple_ok t" "cell_type t = ct" for t
  proof -
    have "list_all (holds F t) (map unit_expr us) = list_all (unit_holds F t) us"
      using holds_unit [of t _ F] t assms(1) by (auto simp: list_all_iff)
    then show ?thesis using conjunction_value(2) [of t "map unit_expr us" F] atoms t by simp
  qed
  then show ?thesis using create_filter_plan_ok [OF assms(1), of F] True assms(2) by simp
next
  case False
  then show ?thesis using create_filter_plan_ok [OF assms(1), of F] by simp
qed

theorem planner_checks_types_witness:
  "create_filter_plan whole_floats
     [\<lparr>fcomp = EQUAL_TO, fleft = Val (int_value 1), fright = Val (bool_value True)\<rparr>] = Some (UNSUPPORTED, None)"
  using planner_checks_types
    [of "\<lambda>s. None" "[\<lparr>fcomp = EQUAL_TO, fleft = Val (int_value 1), fright = Val (bool_value True)\<rparr>]" whole_floats]
  by (simp add: example_defs unit_ok_def obj_ok_def value_copyable_def value_wf_def int32_def same_types_def obj_expr_def
      bool_value_def)

text \<open>
  The limit of the rule for conjunctions: a false constant behind another
  condition is dropped together with everything but the first condition.
\<close>

lemma late_false_constant_lost:
  "\<not> is_value a \<Longrightarrow>
     conjunction_rule F (CONJUNCTION CONJ_AND (a # es @ [VALUE (bool_value False)])) = Some (SUCCESS, a, False)
     \<or> conjunction_rule F (CONJUNCTION CONJ_AND (a # es @ [VALUE (bool_value False)])) = None"
proof -
  assume a: "\<not> is_value a"
  have "conjunction_scan F CONJ_AND (a # ks) (es @ [VALUE (bool_value False)]) \<in> {Some (Inl a), None}" for ks
    by (induction es arbitrary: ks)
      (auto simp: conjunction_scan_Cons try_to_get_bool_constant_def split: expr.split option.split)
  then have "conjunction_scan F CONJ_AND [a] (es @ [VALUE (bool_value False)]) \<in> {Some (Inl a), None}" by blast
  then show ?thesis
    using a by (auto simp: conjunction_rule_def conjunction_scan_Cons try_to_get_bool_constant_def is_value_def
        split: expr.splits)
qed

end
