(* ===== verification/Table_Record.thy ===== *)
theory Table_Record
  imports Sql_Tuple
begin

text \<open>
  The columns of a table and the bytes of its rows: \<open>TableMeta::init\<close> of
  src/src/observer/storage/table/table_meta.cpp lays the columns out one after
  the other, \<open>Table::make_record\<close> and \<open>Table::set_value_to_record\<close> of
  src/src/observer/storage/table/table.cpp turn the values of an INSERT into the
  bytes of a record.  The lemmas show that the layout is free of gaps and overlaps and
  that a row tuple reads back what was written.
\<close>

section \<open>The schema of a table\<close>

record attr_info =
  attr_kind :: attr_type
  attr_name :: string
  attr_len :: int

record table_meta =
  tm_name :: string
  tm_fields :: "field_meta list"
  tm_trx_fields :: "field_meta list"
  tm_indexes :: "(string \<times> string) list"
  tm_record_size :: int

text \<open>
  The columns of the transactions come first.  The constructor of a column asserts
  that its arguments are accepted, and the offset is an \<open>int\<close>.
\<close>

fun place_trx_fields :: "field_meta list \<Rightarrow> int \<Rightarrow> (field_meta list \<times> int) option" where
  "place_trx_fields [] offset = Some ([], offset)"
| "place_trx_fields (m # ms) offset = do {
     f \<leftarrow> snd (field_meta_init (fname m) (ftype m) offset (flen m) False (ffield_id m));
     offset' \<leftarrow> int_result (offset + flen m);
     (fs, sz) \<leftarrow> place_trx_fields ms offset';
     Some (f # fs, sz)
   }"

text \<open>
  The declared columns; a length is a \<open>size_t\<close> that becomes an \<open>int\<close>.  The first
  column that is not accepted ends the loop with its code.
\<close>

fun place_attributes :: "attr_info list \<Rightarrow> int \<Rightarrow> int \<Rightarrow> rc \<times> (field_meta list \<times> int) option" where
  "place_attributes [] i offset = (SUCCESS, Some ([], offset))"
| "place_attributes (a # as) i offset =
     (case field_meta_init (attr_name a) (attr_kind a) offset (int32_cast (attr_len a)) True i of
        (rc, None) \<Rightarrow> (rc, None)
      | (rc, Some f) \<Rightarrow>
          (case place_attributes as (i + 1) (int32_cast (offset + attr_len a)) of
             (rc', None) \<Rightarrow> (rc', None)
           | (rc', Some (fs, sz)) \<Rightarrow> (rc', Some (f # fs, sz))))"

definition table_meta_init ::
  "string \<Rightarrow> field_meta list option \<Rightarrow> attr_info list \<Rightarrow> (rc \<times> table_meta option) option" where
  "table_meta_init name trx_fields attributes =
     (if is_blank name then Some (INVALID_ARGUMENT, None)
      else if attributes = [] then Some (INVALID_ARGUMENT, None)
      else do {
        let trx = (case trx_fields of None \<Rightarrow> [] | Some ms \<Rightarrow> ms);
        (sys, offset) \<leftarrow> place_trx_fields trx 0;
        case place_attributes attributes 0 offset of
          (rc, None) \<Rightarrow> Some (rc, None)
        | (rc, Some (fs, sz)) \<Rightarrow>
            Some (rc, Some \<lparr>tm_name = name, tm_fields = sys @ fs, tm_trx_fields = trx, tm_indexes = [],
                            tm_record_size = sz\<rparr>)
      })"

definition sys_field_num :: "table_meta \<Rightarrow> nat" where
  "sys_field_num tm = length (tm_trx_fields tm)"

section \<open>Writing a row\<close>

text \<open>
  The bytes that can be read at \<open>Value::data\<close>: the buffer of a string with its
  terminator, or the member of the union that was written.
\<close>

definition value_data :: "'f float_ops \<Rightarrow> 'f sql_value \<Rightarrow> byte list option" where
  "value_data F v =
     (case attr_type v of
        CHARS \<Rightarrow> do {
          p \<leftarrow> pointer_member v;
          map_option (\<lambda>s. s @ [0]) p
        }
      | _ \<Rightarrow>
          (case val v of
             Int_value i \<Rightarrow> Some (write_int32 i)
           | Float_value x \<Rightarrow> Some (write_int32 (f_to_bits F x))
           | Bool_value b \<Rightarrow> Some [if b then 1 else 0]
           | Pointer_value p \<Rightarrow> None))"

text \<open>\<open>memcpy\<close>, \<open>None\<close> where it reads or writes outside of its buffers.\<close>

definition copy_bytes :: "byte list \<Rightarrow> nat \<Rightarrow> byte list \<Rightarrow> nat \<Rightarrow> byte list option" where
  "copy_bytes dst pos src n =
     (if length src < n \<or> length dst < pos + n then None
      else Some (take pos dst @ take n src @ drop (pos + n) dst))"

definition set_value_to_record ::
  "'f float_ops \<Rightarrow> byte list \<Rightarrow> 'f sql_value \<Rightarrow> field_meta \<Rightarrow> (rc \<times> byte list) option" where
  "set_value_to_record F record_data v m =
     (let data_len = nat (val_length v);
          copy_len = (if ftype m = CHARS \<and> nat (flen m) > data_len then data_len + 1 else nat (flen m))
      in do {
        src \<leftarrow> value_data F v;
        d \<leftarrow> copy_bytes record_data (nat (foffset m)) src copy_len;
        Some (SUCCESS, d)
      })"

fun fill_record ::
  "'f float_ops \<Rightarrow> field_meta list \<Rightarrow> 'f sql_value list \<Rightarrow> byte list \<Rightarrow> (rc \<times> byte list) option" where
  "fill_record F (m # ms) (v # vs) record_data =
     (if ftype m \<noteq> attr_type v
      then (case value_cast_to v (ftype m) Value_default of
              (rc, real_value) \<Rightarrow>
                if OB_FAIL rc then Some (rc, record_data)
                else do {
                  (rc, d) \<leftarrow> set_value_to_record F record_data real_value m;
                  if OB_FAIL rc then Some (rc, d) else fill_record F ms vs d
                })
      else do {
        (rc, d) \<leftarrow> set_value_to_record F record_data v m;
        if OB_FAIL rc then Some (rc, d) else fill_record F ms vs d
      })"
| "fill_record F _ _ record_data = Some (SUCCESS, record_data)"

definition make_record ::
  "'f float_ops \<Rightarrow> table_meta \<Rightarrow> 'f sql_value list \<Rightarrow> (rc \<times> byte list option) option" where
  "make_record F tm values =
     (if length values + sys_field_num tm \<noteq> length (tm_fields tm) then Some (SCHEMA_FIELD_MISSING, None)
      else do {
        (rc, d) \<leftarrow> fill_record F (drop (sys_field_num tm) (tm_fields tm)) values
                      (replicate (nat (tm_record_size tm)) 0);
        Some (if OB_FAIL rc then (rc, None) else (SUCCESS, Some d))
      })"

section \<open>The layout\<close>

text \<open>Columns that fill the bytes from \<open>a\<close> up to \<open>b\<close> one after the other.\<close>

fun laid_out :: "field_meta list \<Rightarrow> int \<Rightarrow> int \<Rightarrow> bool" where
  "laid_out [] a b \<longleftrightarrow> a = b"
| "laid_out (m # ms) a b \<longleftrightarrow>
     foffset m = a \<and> 0 < flen m \<and> ftype m \<noteq> UNDEFINED \<and> laid_out ms (a + flen m) b"

lemma field_meta_init_Some:
  "field_meta_init n t off len vis i = (rc, Some m) \<Longrightarrow>
     rc = SUCCESS \<and> fname m = n \<and> ftype m = t \<and> foffset m = off \<and> flen m = len \<and> 0 \<le> off \<and> 0 < len \<and> t \<noteq> UNDEFINED"
  by (auto simp: field_meta_init_def split: if_splits)

lemma laid_out_append: "laid_out (xs @ ys) a b \<longleftrightarrow> (\<exists>c. laid_out xs a c \<and> laid_out ys c b)"
  by (induction xs arbitrary: a) auto

lemma laid_out_mono: "laid_out ms a b \<Longrightarrow> a \<le> b"
  by (induction ms arbitrary: a) force+

lemma laid_out_nth:
  assumes "laid_out ms a b" "i < length ms"
  shows "laid_out (take i ms) a (foffset (ms ! i))" "0 < flen (ms ! i)" "ftype (ms ! i) \<noteq> UNDEFINED"
    "laid_out (drop (Suc i) ms) (foffset (ms ! i) + flen (ms ! i)) b"
proof -
  have "laid_out (take i ms @ ms ! i # drop (Suc i) ms) a b" using assms by (simp add: Cons_nth_drop_Suc)
  then show "laid_out (take i ms) a (foffset (ms ! i))" "0 < flen (ms ! i)" "ftype (ms ! i) \<noteq> UNDEFINED"
    "laid_out (drop (Suc i) ms) (foffset (ms ! i) + flen (ms ! i)) b"
    by (auto simp: laid_out_append)
qed

lemma place_trx_fields_laid_out:
  "place_trx_fields ms a = Some (fs, b) \<Longrightarrow> laid_out fs a b \<and> length fs = length ms"
proof (induction ms arbitrary: a fs)
  case (Cons m ms)
  obtain f offset' fs' where f: "snd (field_meta_init (fname m) (ftype m) a (flen m) False (ffield_id m)) = Some f"
      "int_result (a + flen m) = Some offset'" "place_trx_fields ms offset' = Some (fs', b)" "fs = f # fs'"
    using Cons.prems by (auto split: Option.bind_splits)
  then have "offset' = a + flen m" by (simp add: int_result_def split: if_splits)
  then show ?case
    using Cons.IH[OF f(3)] f field_meta_init_Some[of "fname m" "ftype m" a "flen m" False "ffield_id m" _ f]
    by (cases "field_meta_init (fname m) (ftype m) a (flen m) False (ffield_id m)") auto
qed simp

lemma place_attributes_laid_out:
  assumes "place_attributes as i a = (rc, Some (fs, b))" "list_all (\<lambda>x. 0 \<le> attr_len x) as"
    and "0 \<le> a" "a + sum_list (map attr_len as) < 2 ^ 31"
  shows "rc = SUCCESS \<and> laid_out fs a b \<and> map ftype fs = map attr_kind as \<and> map flen fs = map attr_len as
    \<and> map fname fs = map attr_name as"
  using assms
proof (induction as arbitrary: i a fs rc)
  case (Cons x as)
  have nn: "0 \<le> sum_list (map attr_len as)" using Cons.prems(2) by (auto simp: list_all_iff intro!: sum_list_nonneg)
  have c: "int32_cast (attr_len x) = attr_len x" "int32_cast (a + attr_len x) = a + attr_len x"
    using Cons.prems(2-4) nn by (auto simp: int32_def intro!: int32_cast_id)
  obtain f fs' where f: "field_meta_init (attr_name x) (attr_kind x) a (attr_len x) True i = (SUCCESS, Some f)"
      "place_attributes as (i + 1) (a + attr_len x) = (rc, Some (fs', b))" "fs = f # fs'"
    using Cons.prems(1) c field_meta_init_Some by (fastforce split: prod.splits option.splits)
  show ?case
    using Cons.IH[OF f(2)] Cons.prems(2-4) f(3) field_meta_init_Some[OF f(1)] by (simp add: algebra_simps)
qed simp

lemma table_meta_init_laid_out:
  assumes "table_meta_init name trx attributes = Some (rc, Some tm)" "list_all (\<lambda>x. 0 \<le> attr_len x) attributes"
    and "sum_list (map flen (case trx of None \<Rightarrow> [] | Some ms \<Rightarrow> ms)) + sum_list (map attr_len attributes) < 2 ^ 31"
  shows "laid_out (tm_fields tm) 0 (tm_record_size tm)" "length (tm_fields tm) = sys_field_num tm + length attributes"
    "map ftype (drop (sys_field_num tm) (tm_fields tm)) = map attr_kind attributes"
    "map flen (drop (sys_field_num tm) (tm_fields tm)) = map attr_len attributes"
    "rc = SUCCESS" "tm_name tm = name"
proof -
  let ?trx = "case trx of None \<Rightarrow> [] | Some ms \<Rightarrow> ms"
  obtain sys off fs b where p: "place_trx_fields ?trx 0 = Some (sys, off)"
      "place_attributes attributes 0 off = (rc, Some (fs, b))"
      "tm = \<lparr>tm_name = name, tm_fields = sys @ fs, tm_trx_fields = ?trx, tm_indexes = [], tm_record_size = b\<rparr>"
    using assms(1)
    by (auto simp: table_meta_init_def Let_def split: Option.bind_splits if_splits option.splits prod.splits)
  note S = place_trx_fields_laid_out[OF p(1)]
  have sum: "laid_out ms a c \<Longrightarrow> c = a + sum_list (map flen ms)" for ms a c
    by (induction ms arbitrary: a) (simp, force)
  have lens: "place_trx_fields ms a = Some (gs, c) \<Longrightarrow> map flen gs = map flen ms" for ms a gs c
  proof (induction ms arbitrary: a gs)
    case (Cons m ms)
    then show ?case
      by (auto simp: field_meta_init_def split: Option.bind_splits if_splits)
  qed simp
  have off: "off = sum_list (map flen ?trx)" using sum[of sys 0 off] S lens[OF p(1)] by simp
  have "0 \<le> off" using S laid_out_mono by blast
  then have A: "rc = SUCCESS" "laid_out fs off b" "map ftype fs = map attr_kind attributes" "map flen fs = map attr_len attributes"
    using place_attributes_laid_out[OF p(2) assms(2)] assms(3) off by simp_all
  then have "length fs = length attributes" using map_eq_imp_length_eq by blast
  then show "laid_out (tm_fields tm) 0 (tm_record_size tm)" "length (tm_fields tm) = sys_field_num tm + length attributes"
    "map ftype (drop (sys_field_num tm) (tm_fields tm)) = map attr_kind attributes"
    "map flen (drop (sys_field_num tm) (tm_fields tm)) = map attr_len attributes"
    "rc = SUCCESS" "tm_name tm = name"
    using A S p(3) by (auto simp: laid_out_append sys_field_num_def)
qed

section \<open>Writing and reading a column\<close>

text \<open>The bytes of a column after a value has been written into zeroed memory.\<close>

definition field_image :: "'f float_ops \<Rightarrow> field_meta \<Rightarrow> 'f sql_value \<Rightarrow> byte list" where
  "field_image F m v =
     (case val v of
        Pointer_value p \<Rightarrow> take (nat (flen m)) (case_option [] id p @ replicate (nat (flen m)) 0)
      | Int_value i \<Rightarrow> write_int32 i
      | Float_value x \<Rightarrow> write_int32 (f_to_bits F x)
      | Bool_value b \<Rightarrow> [])"

text \<open>The value that is read back: a string is cut at the length of the column.\<close>

definition column_value :: "field_meta \<Rightarrow> 'f sql_value \<Rightarrow> 'f sql_value" where
  "column_value m v =
     (case val v of
        Pointer_value p \<Rightarrow>
          (let s = take (nat (flen m)) (case_option [] id p)
           in v\<lparr>val_length := int (length s), val := Pointer_value (Some s)\<rparr>)
      | _ \<Rightarrow> v\<lparr>val_length := flen m\<rparr>)"

text \<open>
  The values that a column takes: of its type, a string that is not a null pointer,
  a number for a column of four bytes; the bytes of a float stand for the float.
\<close>

definition insertable :: "'f float_ops \<Rightarrow> field_meta \<Rightarrow> 'f sql_value \<Rightarrow> bool" where
  "insertable F m v \<longleftrightarrow> attr_type v = ftype m \<and> value_wf v \<and>
     (case val v of
        Pointer_value p \<Rightarrow> ftype m = CHARS \<and> p \<noteq> None
      | Int_value i \<Rightarrow> ftype m = INTS \<and> flen m = 4
      | Float_value x \<Rightarrow> ftype m = FLOATS \<and> flen m = 4 \<and> int32 (f_to_bits F x) \<and> f_of_bits F (f_to_bits F x) = x
      | Bool_value b \<Rightarrow> False)"

lemma insertable_cases:
  assumes "insertable F m v"
  obtains (chars) s where "ftype m = CHARS" "attr_type v = CHARS" "val v = Pointer_value (Some s)" "0 \<notin> set s"
      "val_length v = int (length s)" "own_data v"
    | (ints) i where "ftype m = INTS" "attr_type v = INTS" "val v = Int_value i" "int32 i" "flen m = 4" "\<not> own_data v"
    | (floats) x where "ftype m = FLOATS" "attr_type v = FLOATS" "val v = Float_value x" "flen m = 4" "\<not> own_data v"
        "int32 (f_to_bits F x)" "f_of_bits F (f_to_bits F x) = x"
  using assms by (cases "val v") (auto simp: insertable_def value_wf_def split: attr_type.splits option.splits)

lemma length_field_image: "insertable F m v \<Longrightarrow> length (field_image F m v) = nat (flen m)"
  by (erule insertable_cases) (auto simp: field_image_def)

lemma copy_bytes_middle:
  "length P = pos \<Longrightarrow> length A = n \<Longrightarrow> n \<le> length src \<Longrightarrow>
     copy_bytes (P @ A @ R) pos src n = Some (P @ take n src @ R)"
  by (simp add: copy_bytes_def)

lemma set_value_to_record_image:
  assumes "insertable F m v" "0 < flen m" "length P = nat (foffset m)"
  shows "set_value_to_record F (P @ replicate (nat (flen m)) 0 @ R) v m = Some (SUCCESS, P @ field_image F m v @ R)"
  using assms(1)
proof (cases rule: insertable_cases)
  case (chars s)
  let ?n = "nat (flen m)" and ?k = "Suc (length s)"
  have src: "value_data F v = Some (s @ [0])" "nat (val_length v) = length s"
    using chars by (simp_all add: value_data_def pointer_member_def)
  show ?thesis
  proof (cases "length s < ?n")
    case True
    have z: "replicate ?n (0 :: byte) = replicate ?k 0 @ replicate (?n - ?k) 0"
      using True by (simp flip: replicate_add replicate_Suc)
    have image: "field_image F m v = (s @ [0]) @ replicate (?n - ?k) 0"
      using chars True by (simp add: field_image_def flip: replicate_Suc)
    have "copy_bytes (P @ replicate ?k 0 @ replicate (?n - ?k) 0 @ R) (nat (foffset m)) (s @ [0]) ?k =
        Some (P @ take ?k (s @ [0]) @ replicate (?n - ?k) 0 @ R)"
      using assms(3) by (intro copy_bytes_middle) simp_all
    then show ?thesis using chars(1) True src unfolding z image set_value_to_record_def by (simp add: Let_def)
  next
    case False
    then show ?thesis
      using chars(1,3) src copy_bytes_middle[OF assms(3), of "replicate ?n 0" ?n "s @ [0]" R]
      by (simp add: set_value_to_record_def field_image_def Let_def)
  qed
next
  case (ints i)
  then show ?thesis using copy_bytes_middle[OF assms(3), of "replicate 4 0" 4 "write_int32 i" R]
    by (simp add: set_value_to_record_def value_data_def field_image_def)
next
  case (floats x)
  then show ?thesis using copy_bytes_middle[OF assms(3), of "replicate 4 0" 4 "write_int32 (f_to_bits F x)" R]
    by (simp add: set_value_to_record_def value_data_def field_image_def)
qed

lemma cstring_padded: "0 \<notin> set s \<Longrightarrow> cstring (s @ replicate n 0) = s"
  unfolding cstring_def by (subst takeWhile_append2) (cases n; auto)+

lemma row_cell_image:
  assumes "insertable F m v" "0 < flen m" "length P = nat (foffset m)"
  shows "row_cell F (P @ field_image F m v @ R) m Value_default = Some (column_value m v)"
  using assms(1)
proof (cases rule: insertable_cases)
  case (chars s)
  let ?n = "nat (flen m)"
  have "cstring (take ?n (field_image F m v @ R)) = take ?n s"
  proof -
    have "take ?n (field_image F m v @ R) = take ?n s @ replicate (?n - length s) 0"
      using chars by (simp add: field_image_def)
    moreover have "0 \<notin> set (take ?n s)" using chars(4) by (meson in_set_takeD)
    then have "cstring (take ?n s @ replicate (?n - length s) 0) = take ?n s" by (rule cstring_padded)
    ultimately show ?thesis by simp
  qed
  moreover have "set_string (Value_default\<lparr>attr_type := CHARS\<rparr>) (Some (field_image F m v @ R)) (flen m) =
      Some (Value_default\<lparr>attr_type := CHARS, val_length := int (length (cstring (take ?n (field_image F m v @ R)))),
        val := Pointer_value (Some (cstring (take ?n (field_image F m v @ R)))), own_data := True\<rparr>)"
    using length_field_image[OF assms(1)] assms(2)
      set_string_bounded[of "Value_default\<lparr>attr_type := CHARS\<rparr>" "flen m" "field_image F m v @ R"]
    by (simp add: Value_default_def)
  ultimately show ?thesis
    using chars assms(3)
    by (cases v) (simp add: row_cell_def set_data_def set_type_def column_value_def Value_default_def Let_def)
qed (use assms(3) in \<open>cases v; simp add: row_cell_def set_data_def set_type_def field_image_def column_value_def Value_default_def\<close>)+

section \<open>Rows\<close>

lemma fill_record_step:
  assumes "insertable F m v" "laid_out (m # ms) a b" "0 \<le> a" "length P = nat a"
  shows "fill_record F (m # ms) (v # vs) (P @ replicate (nat (b - a)) 0)
      = fill_record F ms vs ((P @ field_image F m v) @ replicate (nat (b - (a + flen m))) 0)"
    "length (P @ field_image F m v) = nat (a + flen m)" "laid_out ms (a + flen m) b" "0 \<le> a + flen m"
proof -
  have m: "foffset m = a" "0 < flen m" "laid_out ms (a + flen m) b" "ftype m = attr_type v"
    using assms(1,2) by (auto simp: insertable_def)
  have n: "nat (b - a) = nat (flen m) + nat (b - (a + flen m))"
    using laid_out_mono[OF m(3)] m(2) by simp
  have "length P = nat (foffset m)" using assms(4) m(1) by simp
  from set_value_to_record_image[OF assms(1) m(2) this, of "replicate (nat (b - (a + flen m))) 0"]
  show "fill_record F (m # ms) (v # vs) (P @ replicate (nat (b - a)) 0)
      = fill_record F ms vs ((P @ field_image F m v) @ replicate (nat (b - (a + flen m))) 0)"
    using m(4) by (simp add: n replicate_add)
  show "length (P @ field_image F m v) = nat (a + flen m)" "laid_out ms (a + flen m) b" "0 \<le> a + flen m"
    using assms(3,4) m length_field_image[OF assms(1)] by simp_all
qed

lemma fill_record_image:
  assumes "list_all2 (insertable F) ms vs" "laid_out ms a b" "0 \<le> a" "length P = nat a"
  shows "fill_record F ms vs (P @ replicate (nat (b - a)) 0) = Some (SUCCESS, P @ concat (map2 (field_image F) ms vs))"
  using assms
proof (induction arbitrary: a P rule: list_all2_induct)
  case (Cons m ms v vs)
  note S = fill_record_step[OF Cons.hyps(1) Cons.prems]
  show ?case using Cons.IH[OF S(3,4,2)] by (simp only: S(1)) simp
qed simp

lemma concat_map2_nth:
  "length xs = length ys \<Longrightarrow> i < length xs \<Longrightarrow>
     concat (map2 f xs ys) = concat (map2 f (take i xs) (take i ys)) @ f (xs ! i) (ys ! i) @ concat (map2 f (drop (Suc i) xs) (drop (Suc i) ys))"
proof (induction xs arbitrary: ys i)
  case (Cons x xs)
  then show ?case by (cases ys; cases i) auto
qed simp

lemma length_images:
  "list_all2 (insertable F) ms vs \<Longrightarrow> laid_out ms a b \<Longrightarrow> length (concat (map2 (field_image F) ms vs)) = nat (b - a)"
proof (induction arbitrary: a rule: list_all2_induct)
  case (Cons m ms v vs)
  then show ?case using laid_out_mono[of ms "a + flen m" b] length_field_image[OF Cons.hyps(1)] by fastforce
qed simp

text \<open>What an INSERT stores: zeroed columns of the transaction, then the values.\<close>

definition row_image :: "'f float_ops \<Rightarrow> table_meta \<Rightarrow> 'f sql_value list \<Rightarrow> byte list" where
  "row_image F tm values =
     (let ms = drop (sys_field_num tm) (tm_fields tm)
      in replicate (nat (tm_record_size tm) - length (concat (map2 (field_image F) ms values))) 0
           @ concat (map2 (field_image F) ms values))"

lemma make_record_image:
  assumes "laid_out (tm_fields tm) 0 (tm_record_size tm)" "sys_field_num tm \<le> length (tm_fields tm)"
    and "list_all2 (insertable F) (drop (sys_field_num tm) (tm_fields tm)) values"
  shows "make_record F tm values = Some (SUCCESS, Some (row_image F tm values))"
    "int (length (row_image F tm values)) = tm_record_size tm"
    "i < length values \<Longrightarrow>
      row_cell F (row_image F tm values) (tm_fields tm ! (sys_field_num tm + i)) Value_default
        = Some (column_value (tm_fields tm ! (sys_field_num tm + i)) (values ! i))"
proof -
  let ?s = "sys_field_num tm" and ?ms = "drop (sys_field_num tm) (tm_fields tm)" and ?n = "tm_record_size tm"
  let ?I = "concat (map2 (field_image F) ?ms values)"
  obtain c where c: "laid_out (take ?s (tm_fields tm)) 0 c" "laid_out ?ms c ?n"
    using assms(1) laid_out_append[of "take ?s (tm_fields tm)" ?ms 0 ?n] by auto
  have nn: "0 \<le> c" "c \<le> ?n" using c laid_out_mono by blast+
  have len: "length values + ?s = length (tm_fields tm)" using assms(2,3) list_all2_lengthD by fastforce
  have I: "length ?I = nat (?n - c)" by (rule length_images[OF assms(3) c(2)])
  have image: "row_image F tm values = replicate (nat c) 0 @ ?I" using I nn by (simp add: row_image_def Let_def)
  have z: "replicate (nat ?n) (0 :: byte) = replicate (nat c) 0 @ replicate (nat (?n - c)) 0"
    using nn by (simp flip: replicate_add add: nat_add_distrib[symmetric])
  show "make_record F tm values = Some (SUCCESS, Some (row_image F tm values))"
    using fill_record_image[OF assms(3) c(2) nn(1), of "replicate (nat c) 0"] len
    by (simp add: make_record_def z image)
  show "int (length (row_image F tm values)) = ?n" using I nn by (simp add: image)
  assume i: "i < length values"
  have lm: "length ?ms = length values" using len by simp
  let ?m = "?ms ! i"
  have m: "?m = tm_fields tm ! (?s + i)" using i len by simp
  have L: "laid_out (take i ?ms) c (foffset ?m)" "0 < flen ?m"
    using laid_out_nth[OF c(2), of i] i lm by simp_all
  let ?P = "replicate (nat c) 0 @ concat (map2 (field_image F) (take i ?ms) (take i values))"
  have "list_all2 (insertable F) (take i ?ms) (take i values)" using assms(3) by (simp add: list_all2_takeI)
  then have "length ?P = nat (foffset ?m)"
    using length_images[OF _ L(1), of F "take i values"] laid_out_mono[OF L(1)] nn(1) by simp
  moreover have "insertable F ?m (values ! i)" using list_all2_nthD2[OF assms(3) i] .
  ultimately show "row_cell F (row_image F tm values) (tm_fields tm ! (?s + i)) Value_default
      = Some (column_value (tm_fields tm ! (?s + i)) (values ! i))"
    using row_cell_image[OF _ L(2), of F "values ! i" ?P] concat_map2_nth[OF lm, of i "field_image F"] i lm
    unfolding image m[symmetric] by simp
qed

lemma make_record_rejects:
  assumes "list_all2 (insertable F) ms vs" "ftype m \<noteq> attr_type v" "laid_out (ms @ m # ms') a b" "0 \<le> a" "length P = nat a"
  shows "\<exists>d. fill_record F (ms @ m # ms') (vs @ v # vs') (P @ replicate (nat (b - a)) 0)
    = Some (if attr_type v = CHARS then UNIMPLEMENTED else UNSUPPORTED, d)"
  using assms
proof (induction arbitrary: a P rule: list_all2_induct)
  case Nil
  then show ?case by (cases "attr_type v") (simp_all add: value_cast_to_def OB_FAIL_def)
next
  case (Cons m1 ms v1 vs)
  have "laid_out (m1 # ms @ m # ms') a b" using Cons.prems(2) by simp
  note S = fill_record_step[OF Cons.hyps(1) this Cons.prems(3,4)]
  show ?case using Cons.IH[OF Cons.prems(1) S(3,4,2)] by (simp only: append_Cons S(1))
qed

section \<open>Properties\<close>

text \<open>
  C12.  Inserted values are read back.  For a table whose columns \<open>TableMeta::init\<close> has laid out
  (behind the columns of the transactions, if there are any), \<open>make_record\<close> turns one value per
  column into a record of exactly the record size, and a row tuple over that record returns every
  value again; a string that is longer than its column is cut at the length of the column.
\<close>

theorem insert_reads_back:
  fixes F :: "'f float_ops"
  assumes "table_meta_init name trx attributes = Some (rc, Some tm)" "list_all (\<lambda>x. 0 \<le> attr_len x) attributes"
    and "sum_list (map flen (case trx of None \<Rightarrow> [] | Some ms \<Rightarrow> ms)) + sum_list (map attr_len attributes) < 2 ^ 31"
    and "list_all2 (insertable F) (drop (sys_field_num tm) (tm_fields tm)) values"
  shows "\<exists>d. make_record F tm values = Some (SUCCESS, Some d) \<and> int (length d) = tm_record_size tm \<and>
    (\<forall>i<length values.
       cell_at F (RowTuple name (tm_fields tm) d) (int (sys_field_num tm + i)) Value_default
         = Some (SUCCESS, column_value (tm_fields tm ! (sys_field_num tm + i)) (values ! i)))"
proof -
  note T = table_meta_init_laid_out[OF assms(1-3)]
  have le: "sys_field_num tm \<le> length (tm_fields tm)" using T(2) by simp
  note M = make_record_image[OF T(1) le assms(4)]
  have "length values = length attributes" using T(2) list_all2_lengthD[OF assms(4)] by simp
  then have "cell_at F (RowTuple name (tm_fields tm) (row_image F tm values)) (int (sys_field_num tm + i)) Value_default
      = Some (SUCCESS, column_value (tm_fields tm ! (sys_field_num tm + i)) (values ! i))" if "i < length values" for i
    using M(3)[OF that] T(2) that by (simp add: nat_int_add)
  then show ?thesis using M(1,2) by blast
qed

definition demo_values :: "int sql_value list" where
  "demo_values =
     [\<lparr>attr_type = INTS, val_length = 4, val = Int_value (-7), own_data = False\<rparr>,
      \<lparr>attr_type = CHARS, val_length = 3, val = Pointer_value (Some [65, 66, 67]), own_data = True\<rparr>]"

definition demo_attributes :: "attr_info list" where
  "demo_attributes = [\<lparr>attr_kind = INTS, attr_name = ''id'', attr_len = 4\<rparr>, \<lparr>attr_kind = CHARS, attr_name = ''n'', attr_len = 2\<rparr>]"

definition demo_columns :: "field_meta list" where
  "demo_columns =
     [\<lparr>fname = ''id'', ftype = INTS, foffset = 0, flen = 4, fvisible = True, ffield_id = 0\<rparr>,
      \<lparr>fname = ''n'', ftype = CHARS, foffset = 4, flen = 2, fvisible = True, ffield_id = 1\<rparr>]"

lemma demo_table_meta:
  "table_meta_init ''t'' None demo_attributes =
     Some (SUCCESS, Some \<lparr>tm_name = ''t'', tm_fields = demo_columns, tm_trx_fields = [], tm_indexes = [], tm_record_size = 6\<rparr>)"
  by (simp add: table_meta_init_def demo_attributes_def demo_columns_def field_meta_init_def is_blank_def is_space_def
      int32_cast_def)

theorem insert_reads_back_witness:
  "\<exists>d. make_record whole_floats
      \<lparr>tm_name = ''t'', tm_fields = demo_columns, tm_trx_fields = [], tm_indexes = [], tm_record_size = 6\<rparr> demo_values
        = Some (SUCCESS, Some d) \<and>
    cell_at whole_floats (RowTuple ''t'' demo_columns d) 1 Value_default =
      Some (SUCCESS, \<lparr>attr_type = CHARS, val_length = 2, val = Pointer_value (Some [65, 66]), own_data = True\<rparr>)"
proof -
  let ?tm = "\<lparr>tm_name = ''t'', tm_fields = demo_columns, tm_trx_fields = [], tm_indexes = [], tm_record_size = 6\<rparr>"
  have "list_all2 (insertable whole_floats) (drop (sys_field_num ?tm) (tm_fields ?tm)) demo_values"
    by (simp add: demo_columns_def demo_values_def insertable_def value_wf_def int32_def sys_field_num_def)
  from insert_reads_back[OF demo_table_meta _ _ this] obtain d where
    d: "make_record whole_floats ?tm demo_values = Some (SUCCESS, Some d)"
      "\<forall>i<length demo_values. cell_at whole_floats (RowTuple ''t'' demo_columns d) (int i) Value_default
         = Some (SUCCESS, column_value (demo_columns ! i) (demo_values ! i))"
    by (auto simp: demo_attributes_def sys_field_num_def)
  from d(2) have "cell_at whole_floats (RowTuple ''t'' demo_columns d) (int 1) Value_default
         = Some (SUCCESS, column_value (demo_columns ! 1) (demo_values ! 1))"
    by (rule allE[of _ 1]) (simp add: demo_values_def)
  then show ?thesis using d(1) by (simp add: column_value_def demo_columns_def demo_values_def Let_def)
qed

end
