(* ===== verification/Table_Store.thy ===== *)
theory Table_Store
  imports Table_Record Record_File_Correct Bplus_Tree_Scan Bplus_Tree_Recovery
begin

text \<open>
  A table: its record file and its indexes, kept in step by \<open>Table\<close> of
  src/src/observer/storage/table/table.cpp through the index wrapper
  src/src/observer/storage/index/bplus_tree_index.cpp.  The record file is that of
  \<open>Record_File\<close>, an index is a B+ tree of \<open>Bplus_Tree\<close> whose keys are the bytes of
  a column with the identifier of the row.

  The locale \<open>row_index\<close> is the contract of the class \<open>Index\<close>: after an insertion
  and after a deletion the index agrees with the rows again.  It is interpreted on the B+ tree.
\<close>

section \<open>Keys\<close>

text \<open>
  \<open>AttrComparator\<close>: both keys become values of the type of the column, which are
  compared by the type.
\<close>

definition attr_comparator :: "'f float_ops \<Rightarrow> attr_type \<Rightarrow> int \<Rightarrow> byte list \<Rightarrow> byte list \<Rightarrow> int option" where
  "attr_comparator F t len v1 v2 = do {
     l \<leftarrow> set_data F (set_type Value_default t) v1 len;
     r \<leftarrow> set_data F (set_type Value_default t) v2 len;
     value_compare F l r
   }"

text \<open>The same as a function on all byte strings, which the tree is built with.\<close>

definition attr_compare :: "'f float_ops \<Rightarrow> attr_type \<Rightarrow> int \<Rightarrow> byte list \<Rightarrow> byte list \<Rightarrow> int" where
  "attr_compare F t len v1 v2 =
     (case t of
        CHARS \<Rightarrow> chars_attr_compare (nat len) v1 v2
      | INTS \<Rightarrow> compare_int (signed_value 4 (take 4 v1)) (signed_value 4 (take 4 v2))
      | FLOATS \<Rightarrow> compare_float F (f_of_bits F (signed_value 4 (take 4 v1))) (f_of_bits F (signed_value 4 (take 4 v2)))
      | _ \<Rightarrow> INT32_MAX)"

definition make_key :: "byte list ikey bplus_tree \<Rightarrow> byte list \<Rightarrow> rid \<Rightarrow> byte list ikey option" where
  "make_key t user_key r =
     (if length user_key < nat (attr_length t) then None else Some (take (nat (attr_length t)) user_key, r))"

section \<open>The index of a table\<close>

record table_index =
  ix_name :: string
  ix_field :: field_meta
  ix_tree :: "byte list ikey bplus_tree"

text \<open>
  \<open>BplusTreeHandler::create\<close> on the header of a new file.  The header page of the
  index is written to disk at once; it takes the first page of the file.
\<close>

definition bplus_tree_create ::
  "'f float_ops \<Rightarrow> pool_header \<Rightarrow> attr_type \<Rightarrow> int \<Rightarrow> int \<Rightarrow> int \<Rightarrow> (rc \<times> byte list ikey bplus_tree option) option" where
  "bplus_tree_create F h t len internal_max leaf_max =
     (let internal_max = (if internal_max < 0 then calc_internal_page_capacity len else internal_max);
          leaf_max = (if leaf_max < 0 then calc_leaf_page_capacity len else leaf_max)
      in do {
        (rc, p, h1) \<leftarrow> header_allocate h;
        case p of
          None \<Rightarrow> Some (rc, None)
        | Some p \<Rightarrow>
            if p \<noteq> FIRST_INDEX_PAGE then Some (INTERNAL, None)
            else Some (SUCCESS, Some
              \<lparr>key_comparator = key_compare (attr_compare F t len), key_zero = (replicate (nat len) 0, rid_min),
               attr_length = len, internal_max_size = nat internal_max, leaf_max_size = nat leaf_max,
               root_page = BP_INVALID_PAGE_NUM, bt_hdr = h1, bt_pages = Map.empty, disposed_pages = []\<rparr>)
      })"

text \<open>
  \<open>BplusTreeIndex::create\<close>; the file is what the buffer pool manager creates, or its
  error.
\<close>

definition index_create ::
  "'f float_ops \<Rightarrow> rc + pool_header \<Rightarrow> string \<Rightarrow> field_meta \<Rightarrow> (rc \<times> table_index option) option" where
  "index_create F file name m =
     (case file of
        Inl rc \<Rightarrow> Some (rc, None)
      | Inr h \<Rightarrow> do {
          (rc, t) \<leftarrow> bplus_tree_create F h (ftype m) (flen m) (-1) (-1);
          Some (rc, map_option (\<lambda>t. \<lparr>ix_name = name, ix_field = m, ix_tree = t\<rparr>) t)
        })"

definition index_insert_entry :: "table_index \<Rightarrow> byte list \<Rightarrow> rid \<Rightarrow> (rc \<times> table_index) option" where
  "index_insert_entry ix record r = do {
     key \<leftarrow> make_key (ix_tree ix) (drop (nat (foffset (ix_field ix))) record) r;
     (rc, t) \<leftarrow> insert_entry key r (ix_tree ix);
     Some (rc, ix\<lparr>ix_tree := t\<rparr>)
   }"

definition index_delete_entry :: "table_index \<Rightarrow> byte list \<Rightarrow> rid \<Rightarrow> (rc \<times> table_index) option" where
  "index_delete_entry ix record r = do {
     key \<leftarrow> make_key (ix_tree ix) (drop (nat (foffset (ix_field ix))) record) r;
     (rc, t) \<leftarrow> delete_entry key (ix_tree ix);
     Some (rc, ix\<lparr>ix_tree := t\<rparr>)
   }"

section \<open>All indexes of a row\<close>

text \<open>
  The loops over the indexes take the virtual method of \<open>Index\<close> that they call.
\<close>

fun insert_entry_of_indexes ::
  "('i \<Rightarrow> byte list \<Rightarrow> rid \<Rightarrow> (rc \<times> 'i) option) \<Rightarrow> byte list \<Rightarrow> rid \<Rightarrow> 'i list \<Rightarrow> (rc \<times> 'i list) option" where
  "insert_entry_of_indexes ins record r [] = Some (SUCCESS, [])"
| "insert_entry_of_indexes ins record r (ix # ixs) = do {
     (rc, ix1) \<leftarrow> ins ix record r;
     if rc \<noteq> SUCCESS then Some (rc, ix1 # ixs)
     else do {
       (rc2, ixs1) \<leftarrow> insert_entry_of_indexes ins record r ixs;
       Some (rc2, ix1 # ixs1)
     }
   }"

text \<open>
  The code of the last index decides; an error ends the loop unless it is
  RECORD_INVALID_KEY and \<open>error_on_not_exists\<close> is set.
\<close>

fun delete_entry_of_indexes ::
  "('i \<Rightarrow> byte list \<Rightarrow> rid \<Rightarrow> (rc \<times> 'i) option) \<Rightarrow> byte list \<Rightarrow> rid \<Rightarrow> bool \<Rightarrow> rc \<Rightarrow> 'i list \<Rightarrow> (rc \<times> 'i list) option" where
  "delete_entry_of_indexes del record r error_on_not_exists rc0 [] = Some (rc0, [])"
| "delete_entry_of_indexes del record r error_on_not_exists rc0 (ix # ixs) = do {
     (rc, ix1) \<leftarrow> del ix record r;
     if rc \<noteq> SUCCESS \<and> (rc \<noteq> RECORD_INVALID_KEY \<or> \<not> error_on_not_exists) then Some (rc, ix1 # ixs)
     else do {
       (rc2, ixs1) \<leftarrow> delete_entry_of_indexes del record r error_on_not_exists rc ixs;
       Some (rc2, ix1 # ixs1)
     }
   }"

text \<open>The loop of \<open>delete_record\<close>, which asserts that every index has the entry.\<close>

fun delete_from_indexes ::
  "('i \<Rightarrow> byte list \<Rightarrow> rid \<Rightarrow> (rc \<times> 'i) option) \<Rightarrow> byte list \<Rightarrow> rid \<Rightarrow> 'i list \<Rightarrow> 'i list option" where
  "delete_from_indexes del record r [] = Some []"
| "delete_from_indexes del record r (ix # ixs) = do {
     (rc, ix1) \<leftarrow> del ix record r;
     if rc \<noteq> SUCCESS then None
     else do { ixs1 \<leftarrow> delete_from_indexes del record r ixs; Some (ix1 # ixs1) }
   }"

section \<open>The table\<close>

record table =
  t_meta :: table_meta
  t_file :: rec_file
  t_indexes :: "table_index list"

definition table_insert_record :: "table \<Rightarrow> byte list \<Rightarrow> (rc \<times> rid option \<times> table) option" where
  "table_insert_record t record = do {
     (rc, rid, f) \<leftarrow> file_insert_record (t_file t) record;
     if rc \<noteq> SUCCESS then Some (rc, rid, t\<lparr>t_file := f\<rparr>)
     else do {
       r \<leftarrow> rid;
       (rc, ixs) \<leftarrow> insert_entry_of_indexes index_insert_entry record r (t_indexes t);
       if rc \<noteq> SUCCESS
       then do {
         (rc2, ixs) \<leftarrow> delete_entry_of_indexes index_delete_entry record r False SUCCESS ixs;
         (rc2, f) \<leftarrow> file_delete_record f r;
         Some (rc, Some r, t\<lparr>t_file := f, t_indexes := ixs\<rparr>)
       }
       else Some (rc, Some r, t\<lparr>t_file := f, t_indexes := ixs\<rparr>)
     }
   }"

definition table_recover_insert_record :: "table \<Rightarrow> byte list \<Rightarrow> rid \<Rightarrow> (rc \<times> table) option" where
  "table_recover_insert_record t record r = do {
     (rc, f) \<leftarrow> file_recover_insert_record (t_file t) record r;
     if rc \<noteq> SUCCESS then Some (rc, t\<lparr>t_file := f\<rparr>)
     else do {
       (rc, ixs) \<leftarrow> insert_entry_of_indexes index_insert_entry record r (t_indexes t);
       if rc \<noteq> SUCCESS
       then do {
         (rc2, ixs) \<leftarrow> delete_entry_of_indexes index_delete_entry record r False SUCCESS ixs;
         (rc2, f) \<leftarrow> file_delete_record f r;
         Some (rc, t\<lparr>t_file := f, t_indexes := ixs\<rparr>)
       }
       else Some (rc, t\<lparr>t_file := f, t_indexes := ixs\<rparr>)
     }
   }"

definition table_visit_record ::
  "table \<Rightarrow> rid \<Rightarrow> (rid \<times> byte list \<Rightarrow> bool \<times> byte list) \<Rightarrow> (rc \<times> table) option" where
  "table_visit_record t r visitor = do {
     (rc, f) \<leftarrow> file_visit_record (t_file t) r visitor;
     Some (rc, t\<lparr>t_file := f\<rparr>)
   }"

definition table_get_record :: "table \<Rightarrow> rid \<Rightarrow> (rc \<times> (rid \<times> byte list) option) option" where
  "table_get_record t r = file_get_record (t_file t) r"

text \<open>\<open>Table::delete_record\<close> for a record, and for an identifier, which is read first.\<close>

definition table_remove :: "table \<Rightarrow> byte list \<Rightarrow> rid \<Rightarrow> (rc \<times> table) option" where
  "table_remove t record r = do {
     ixs \<leftarrow> delete_from_indexes index_delete_entry record r (t_indexes t);
     (rc, f) \<leftarrow> file_delete_record (t_file t) r;
     Some (rc, t\<lparr>t_file := f, t_indexes := ixs\<rparr>)
   }"

definition table_delete_record :: "table \<Rightarrow> rid \<Rightarrow> (rc \<times> table) option" where
  "table_delete_record t r = do {
     (rc, got) \<leftarrow> table_get_record t r;
     if OB_FAIL rc then Some (rc, t)
     else do {
       (r', d) \<leftarrow> got;
       table_remove t d r'
     }
   }"

text \<open>
  \<open>find_index\<close> compares the names of the indexes, \<open>find_index_by_field\<close> looks for an
  index of the column in the schema first.
\<close>

definition find_index :: "table \<Rightarrow> string \<Rightarrow> table_index option" where
  "find_index t name = List.find (\<lambda>ix. ix_name ix = name) (t_indexes t)"

definition find_index_by_field :: "table \<Rightarrow> string \<Rightarrow> table_index option" where
  "find_index_by_field t field_name =
     (case List.find (\<lambda>(n, f). f = field_name) (tm_indexes (t_meta t)) of
        None \<Rightarrow> None
      | Some (n, f) \<Rightarrow> find_index t n)"

section \<open>Creating an index\<close>

text \<open>The loop over the rows of the table that the transaction sees, with fuel for the rows.\<close>

fun fill_index :: "nat \<Rightarrow> rec_file \<Rightarrow> scanner \<Rightarrow> table_index \<Rightarrow> (rc \<times> table_index) option" where
  "fill_index n f sc ix = do {
     (rc, got, sc1) \<leftarrow> scan_next f sc;
     case got of
       None \<Rightarrow> Some (rc, ix)
     | Some (r, d) \<Rightarrow>
         (case n of
            0 \<Rightarrow> None
          | Suc n \<Rightarrow> do {
              (rc, ix) \<leftarrow> index_insert_entry ix d r;
              if rc \<noteq> SUCCESS then Some (rc, ix) else fill_index n f sc1 ix
            })
   }"

declare fill_index.simps [simp del]

text \<open>
  \<open>Table::create_index\<close>: \<open>file\<close> is the new file of the index, \<open>trx\<close> the visibility of
  rows for the transaction and \<open>written\<close> the outcome of writing the new schema to disk.
\<close>

definition create_index ::
  "'f float_ops \<Rightarrow> nat \<Rightarrow> rc + pool_header \<Rightarrow> (rid \<times> byte list \<Rightarrow> rc) option \<Rightarrow> rc \<Rightarrow> table \<Rightarrow>
   field_meta option \<Rightarrow> string \<Rightarrow> (rc \<times> table) option" where
  "create_index F n file trx written t field_meta index_name =
     (case field_meta of
        None \<Rightarrow> Some (INVALID_ARGUMENT, t)
      | Some m \<Rightarrow>
          if is_blank index_name then Some (INVALID_ARGUMENT, t)
          else do {
            (rc, made) \<leftarrow> index_create F file index_name m;
            case made of
              None \<Rightarrow> Some (rc, t)
            | Some ix \<Rightarrow> do {
                (rc, ix) \<leftarrow> fill_index n (t_file t) (open_scan READ_ONLY None trx) ix;
                if rc \<noteq> RECORD_EOF then Some (rc, t)
                else if OB_FAIL written then Some (written, t\<lparr>t_indexes := t_indexes t @ [ix]\<rparr>)
                else Some (SUCCESS,
                  t\<lparr>t_indexes := t_indexes t @ [ix],
                    t_meta := (t_meta t)\<lparr>tm_indexes := tm_indexes (t_meta t) @ [(index_name, fname m)]\<rparr>\<rparr>)
              }
          })"

section \<open>The comparison of keys\<close>

lemma attr_comparator_eq:
  fixes F :: "'f float_ops"
  assumes "t \<noteq> UNDEFINED" "0 < len" "nat len \<le> length v1" "nat len \<le> length v2" "t = CHARS \<or> 4 \<le> len"
  shows "attr_comparator F t len v1 v2 = Some (attr_compare F t len v1 v2)"
proof (cases "t = CHARS")
  case True
  have "\<not> own_data (set_type Value_default CHARS :: 'f sql_value)" by (simp add: set_type_def Value_default_def)
  note S = set_string_bounded[OF this assms(2)]
  show ?thesis
    using True S[OF assms(3)] S[OF assms(4)]
    by (simp add: attr_comparator_def attr_compare_def set_data_def set_type_def value_compare_def char_compare_def
        pointer_member_def chars_attr_compare_def chars_compare_def)
next
  case False
  then have "4 \<le> length v1" "4 \<le> length v2" using assms by auto
  then have r: "read_int32 v1 = Some (signed_value 4 (take 4 v1), drop 4 v1)"
      "read_int32 v2 = Some (signed_value 4 (take 4 v2), drop 4 v2)"
    by (simp_all add: read_int32_def read_span_def)
  show ?thesis
    using False assms(1) r
    by (cases t) (simp_all add: attr_comparator_def attr_compare_def set_data_def set_type_def value_compare_def
        compare_defs get_float_def)
qed

lemma key_order_attr_compare:
  assumes "t = CHARS \<or> t = INTS"
  shows "key_order (attr_compare F t len)"
proof (cases "t = CHARS")
  case True
  then show ?thesis using key_order_chars_attr_compare by (simp add: attr_compare_def [abs_def])
next
  case False
  then show ?thesis
    using assms key_order_compare_int by (simp add: attr_compare_def [abs_def] key_order_def)
qed

lemma key_compare_same_rid: "key_compare acmp (v, r) (w, r') = 0 \<Longrightarrow> r = r'"
  by (cases r; cases r') (auto simp: key_compare_def rid_compare_def Let_def split: if_splits)

section \<open>An operation keeps the configuration of the tree\<close>

lemma entry_operations_config:
  "insert_entry key r t = Some (rc, t') \<Longrightarrow> attr_length t' = attr_length t"
  "delete_entry key t = Some (rc, t') \<Longrightarrow> attr_length t' = attr_length t"
proof -
  have c: "attr_length t' = attr_length t" if l: "logged t t'" for t'
  proof -
    obtain es where es: "tree_log t es t'" using l by (auto simp: logged_def)
    have "\<forall>p\<in>touched es. (\<lambda>_. 0) p < (1 :: int) \<longrightarrow> page_view t p = page_view t p" by simp
    from redo_entries_pages[OF es same_config_simps(1) this] show ?thesis by (simp add: same_config_def)
  qed
  show "insert_entry key r t = Some (rc, t') \<Longrightarrow> attr_length t' = attr_length t"
    using gives_D[OF insert_entry_logged, of key r t "(rc, t')"] c[of t'] by simp
  show "delete_entry key t = Some (rc, t') \<Longrightarrow> attr_length t' = attr_length t"
    using gives_D[OF delete_entry_logged, of key t "(rc, t')"] c[of t'] by simp
qed

section \<open>What an index promises\<close>

text \<open>
  The contract of the class \<open>Index\<close>: \<open>agrees rows ix\<close> says that the index has one entry for every
  row, \<open>fits\<close> that a row has the indexed column.
\<close>

locale row_index =
  fixes ins :: "'i \<Rightarrow> byte list \<Rightarrow> rid \<Rightarrow> (rc \<times> 'i) option"
    and del :: "'i \<Rightarrow> byte list \<Rightarrow> rid \<Rightarrow> (rc \<times> 'i) option"
    and agrees :: "(rid \<rightharpoonup> byte list) \<Rightarrow> 'i \<Rightarrow> bool"
    and fits :: "'i \<Rightarrow> byte list \<Rightarrow> bool"
    and limit :: nat
  assumes ins_law: "agrees rows ix \<Longrightarrow> rows r = None \<Longrightarrow> fits ix d \<Longrightarrow> card (dom rows) \<le> limit \<Longrightarrow>
      \<exists>ix'. ins ix d r = Some (SUCCESS, ix') \<and> agrees (rows(r \<mapsto> d)) ix' \<and> fits ix' = fits ix"
    and del_law: "agrees rows ix \<Longrightarrow> rows r = Some d \<Longrightarrow>
      \<exists>ix'. del ix d r = Some (SUCCESS, ix') \<and> agrees (rows(r := None)) ix' \<and> fits ix' = fits ix"
begin

lemma insert_all:
  assumes "list_all (agrees rows) ixs" "rows r = None" "list_all (\<lambda>ix. fits ix d) ixs" "card (dom rows) \<le> limit"
  shows "\<exists>ixs'. insert_entry_of_indexes ins d r ixs = Some (SUCCESS, ixs') \<and>
    list_all (agrees (rows(r \<mapsto> d))) ixs' \<and> map fits ixs' = map fits ixs"
  using assms
proof (induction ixs)
  case (Cons ix ixs)
  obtain ix' where "ins ix d r = Some (SUCCESS, ix')" "agrees (rows(r \<mapsto> d)) ix'" "fits ix' = fits ix"
    using ins_law[of rows ix r d] Cons.prems by auto
  moreover obtain ixs' where "insert_entry_of_indexes ins d r ixs = Some (SUCCESS, ixs')"
      "list_all (agrees (rows(r \<mapsto> d))) ixs'" "map fits ixs' = map fits ixs"
    using Cons.IH Cons.prems unfolding list.pred_inject by blast
  ultimately show ?case by (intro exI[of _ "ix' # ixs'"]) (simp del: fun_upd_apply)
qed simp

lemma delete_all:
  assumes "list_all (agrees rows) ixs" "rows r = Some d"
  shows "\<exists>ixs'. delete_from_indexes del d r ixs = Some ixs' \<and>
    list_all (agrees (rows(r := None))) ixs' \<and> map fits ixs' = map fits ixs"
  using assms
proof (induction ixs)
  case (Cons ix ixs)
  obtain ix' where "del ix d r = Some (SUCCESS, ix')" "agrees (rows(r := None)) ix'" "fits ix' = fits ix"
    using del_law[of rows ix r d] Cons.prems by auto
  moreover obtain ixs' where "delete_from_indexes del d r ixs = Some ixs'"
      "list_all (agrees (rows(r := None))) ixs'" "map fits ixs' = map fits ixs"
    using Cons.IH Cons.prems unfolding list.pred_inject by blast
  ultimately show ?case by (intro exI[of _ "ix' # ixs'"]) (simp del: fun_upd_apply)
qed simp

text \<open>The rollback of an insertion takes the entries out again.\<close>

lemma insert_all_undo:
  assumes "list_all (agrees rows) ixs" "rows r = Some d"
  shows "\<exists>ixs'. delete_entry_of_indexes del d r e SUCCESS ixs = Some (SUCCESS, ixs') \<and>
    list_all (agrees (rows(r := None))) ixs'"
  using assms
proof (induction ixs)
  case (Cons ix ixs)
  obtain ix' where "del ix d r = Some (SUCCESS, ix')" "agrees (rows(r := None)) ix'"
    using del_law[of rows ix r d] Cons.prems by auto
  moreover obtain ixs' where "delete_entry_of_indexes del d r e SUCCESS ixs = Some (SUCCESS, ixs')"
      "list_all (agrees (rows(r := None))) ixs'"
    using Cons.IH Cons.prems unfolding list.pred_inject by blast
  ultimately show ?case by (intro exI[of _ "ix' # ixs'"]) (simp del: fun_upd_apply)
qed simp

end

section \<open>The B+ tree keeps the contract\<close>

definition row_key :: "table_index \<Rightarrow> byte list \<Rightarrow> byte list" where
  "row_key ix d = take (nat (flen (ix_field ix))) (drop (nat (foffset (ix_field ix))) d)"

definition index_fits :: "table_index \<Rightarrow> byte list \<Rightarrow> bool" where
  "index_fits ix d \<longleftrightarrow> column_ok d (ix_field ix)"

text \<open>The entry of a row.\<close>

definition row_entry :: "table_index \<Rightarrow> rid \<times> byte list \<Rightarrow> byte list ikey \<times> rid" where
  "row_entry ix x = ((row_key ix (snd x), fst x), fst x)"

definition index_agrees :: "'f float_ops \<Rightarrow> (rid \<rightharpoonup> byte list) \<Rightarrow> table_index \<Rightarrow> bool" where
  "index_agrees F rows ix \<longleftrightarrow>
     finite (dom rows) \<and> attr_length (ix_tree ix) = flen (ix_field ix) \<and>
     key_comparator (ix_tree ix) = key_compare (attr_compare F (ftype (ix_field ix)) (flen (ix_field ix))) \<and>
     (\<forall>r d. rows r = Some d \<longrightarrow> index_fits ix d) \<and>
     (\<exists>m es. index_holds (ix_tree ix) m es \<and> set es = row_entry ix ` {(r, d). rows r = Some d})"

lemma row_entry_tree [simp]: "row_entry (ix\<lparr>ix_tree := t\<rparr>) = row_entry ix" "index_fits (ix\<lparr>ix_tree := t\<rparr>) = index_fits ix"
  by (simp_all add: fun_eq_iff row_entry_def row_key_def index_fits_def)

lemma make_key_row:
  assumes "index_fits ix d" "attr_length (ix_tree ix) = flen (ix_field ix)"
  shows "make_key (ix_tree ix) (drop (nat (foffset (ix_field ix))) d) r = Some (row_key ix d, r)"
  using assms by (auto simp: make_key_def row_key_def index_fits_def column_ok_def)

lemma entries_distinct:
  assumes "index_holds t m (es :: (byte list ikey \<times> rid) list)"
  shows "distinct es"
proof -
  have K: "key_order (key_comparator t)" using assms by (simp add: index_holds_def index_ok_def)
  have "sorted_wrt P xs \<Longrightarrow> (\<And>x. \<not> P x x) \<Longrightarrow> distinct xs" for P and xs :: "byte list ikey list" by (induction xs) auto
  from this[OF index_holds_increasing[OF assms, unfolded increasing_def]] show ?thesis
    using key_order.cmp_refl[OF K] by (auto simp: distinct_map)
qed

lemma entries_count:
  assumes "index_holds t m es" "set es = row_entry ix ` {(r, d). rows r = Some d}" "finite (dom rows)"
  shows "length es = card (dom rows)"
proof -
  have "length es = card (set es)" using entries_distinct[OF assms(1)] by (simp add: distinct_card)
  also have "\<dots> = card {(r, d). rows r = Some d}"
    unfolding assms(2) by (intro card_image) (auto simp: inj_on_def row_entry_def)
  also have "\<dots> = card (dom rows)"
    by (intro bij_betw_same_card[of fst]) (auto simp: bij_betw_def inj_on_def image_def)
  finally show ?thesis .
qed

lemma index_entry_inserted:
  assumes "index_agrees F rows ix" "rows r = None" "index_fits ix d" "card (dom rows) \<le> max_entries"
  shows "\<exists>ix'. index_insert_entry ix d r = Some (SUCCESS, ix') \<and> index_agrees F (rows(r \<mapsto> d)) ix' \<and>
    ix_field ix' = ix_field ix \<and> ix_name ix' = ix_name ix"
proof -
  let ?t = "ix_tree ix"
  obtain m es where A: "finite (dom rows)" "attr_length ?t = flen (ix_field ix)"
      "key_comparator ?t = key_compare (attr_compare F (ftype (ix_field ix)) (flen (ix_field ix)))"
      "\<forall>r d. rows r = Some d \<longrightarrow> index_fits ix d"
      "index_holds ?t m es" "set es = row_entry ix ` {(r, d). rows r = Some d}"
    using assms(1) unfolding index_agrees_def by blast
  have "length es \<le> max_entries" using entries_count[OF A(5,6,1)] assms(4) by simp
  from index_room[OF A(5) this] obtain n where
    n: "index_holds ?t n es" "allocated_pages (fh (bt_hdr ?t)) + int n + 2 \<le> 8 * FH_BITMAP_BYTES" by blast
  have "\<not> has_key (key_comparator ?t) (row_key ix d, r) es"
    unfolding has_key_def A(3,6) using key_compare_same_rid assms(2) by (fastforce simp: row_entry_def)
  with insert_entry_refines[OF n, of "(row_key ix d, r)" r] obtain t' m' where
    t': "insert_entry (row_key ix d, r) r ?t = Some (SUCCESS, t')" "key_comparator t' = key_comparator ?t"
      "index_holds t' m' (ins_entry (key_comparator ?t) (row_key ix d, r) r es)" by auto
  have "set (ins_entry c k r es) = insert (k, r) (set es)" for c k by (induction es) auto
  moreover have "{(x, e). (rows(r \<mapsto> d)) x = Some e} = insert (r, d) {(r, d). rows r = Some d}"
    using assms(2) by (auto split: if_splits)
  ultimately have "set (ins_entry (key_comparator ?t) (row_key ix d, r) r es) =
      row_entry (ix\<lparr>ix_tree := t'\<rparr>) ` {(x, e). (rows(r \<mapsto> d)) x = Some e}"
    using A(6) by (simp add: row_entry_def)
  then have "index_agrees F (rows(r \<mapsto> d)) (ix\<lparr>ix_tree := t'\<rparr>)"
    using A(1-4) t'(2,3) entry_operations_config(1)[OF t'(1)] assms(3)
    by (auto simp: index_agrees_def index_fits_def)
  then show ?thesis using t'(1) make_key_row[OF assms(3) A(2), of r] by (simp add: index_insert_entry_def)
qed

lemma index_entry_deleted:
  assumes "index_agrees F rows ix" "rows r = Some d"
  shows "\<exists>ix'. index_delete_entry ix d r = Some (SUCCESS, ix') \<and> index_agrees F (rows(r := None)) ix' \<and>
    ix_field ix' = ix_field ix \<and> ix_name ix' = ix_name ix"
proof -
  let ?t = "ix_tree ix" and ?k = "(row_key ix d, r)"
  obtain m es where A: "finite (dom rows)" "attr_length ?t = flen (ix_field ix)"
      "key_comparator ?t = key_compare (attr_compare F (ftype (ix_field ix)) (flen (ix_field ix)))"
      "\<forall>r d. rows r = Some d \<longrightarrow> index_fits ix d"
      "index_holds ?t m es" "set es = row_entry ix ` {(r, d). rows r = Some d}"
    using assms(1) unfolding index_agrees_def by blast
  have K: "key_order (key_comparator ?t)" using A(5) by (simp add: index_holds_def index_ok_def)
  have e: "(?k, r) \<in> set es" unfolding A(6) using assms(2) by (force simp: row_entry_def)
  then have "has_key (key_comparator ?t) ?k es" unfolding has_key_def using key_order.cmp_refl[OF K] by force
  with delete_entry_refines[OF A(5), of ?k] obtain t' m' where
    t': "delete_entry ?k ?t = Some (SUCCESS, t')" "key_comparator t' = key_comparator ?t"
      "index_holds t' m' (del_entry (key_comparator ?t) ?k es)" by auto
  have same: "key_comparator ?t (fst x) ?k = 0 \<longleftrightarrow> snd x = r" if "x \<in> set es" for x
    using that key_compare_same_rid[of _ _ "snd x" _ r] key_order.cmp_refl[OF K, of ?k] assms(2)
    unfolding A(3,6) by (auto simp: row_entry_def)
  have "set (del_entry (key_comparator ?t) ?k es) = row_entry (ix\<lparr>ix_tree := t'\<rparr>) ` {(x, c). (rows(r := None)) x = Some c}"
    (is "?L = ?R")
  proof -
    have "?L = {x \<in> set es. snd x \<noteq> r}" using same by (auto simp: del_entry_def)
    also have "\<dots> = ?R" unfolding A(6) row_entry_tree by (auto simp: row_entry_def split: if_splits)
    finally show ?thesis .
  qed
  then have "index_agrees F (rows(r := None)) (ix\<lparr>ix_tree := t'\<rparr>)"
    using A(1-4) t'(2,3) entry_operations_config(2)[OF t'(1)]
    by (auto simp: index_agrees_def index_fits_def split: if_splits)
  then show ?thesis
    using t'(1) make_key_row[OF _ A(2), of d r] A(4) assms(2) by (simp add: index_delete_entry_def)
qed

interpretation btree: row_index index_insert_entry index_delete_entry "index_agrees F" index_fits max_entries for F
proof (unfold_locales, goal_cases)
  case (1 rows ix r d)
  then show ?case using index_entry_inserted[OF 1] by (auto simp: index_fits_def fun_eq_iff)
next
  case (2 rows ix r d)
  then show ?case using index_entry_deleted[OF 2] by (auto simp: index_fits_def fun_eq_iff)
qed

end
