(* ===== verification/Table_Correct.thy ===== *)
theory Table_Correct
  imports Table_Store
begin

text \<open>
  A table keeps its record file and its indexes in step: under any sequence of
  insertions, deletions and updates that leave the indexed columns alone, no
  operation fails an assertion and every index has exactly one entry per row.  Creating an
  index fills it with the rows that the transaction sees.
\<close>

section \<open>The invariant\<close>

definition table_rows_map :: "table \<Rightarrow> rid \<rightharpoonup> byte list" where
  "table_rows_map t = rf_records (t_file t)"

text \<open>
  The record file is well-formed and every index agrees with its rows; the indexed
  columns lie inside the records.
\<close>

definition table_consistent :: "'f float_ops \<Rightarrow> table \<Rightarrow> bool" where
  "table_consistent F t \<longleftrightarrow> rf_inv (t_file t) \<and> rf_size (t_file t) \<le> 8144 \<and>
     list_all (index_agrees F (table_rows_map t)) (t_indexes t) \<and>
     list_all (\<lambda>ix. \<forall>d. rf_fits (t_file t) d \<longrightarrow> index_fits ix d) (t_indexes t)"

definition table_pages :: "table \<Rightarrow> int" where
  "table_pages t = allocated_pages (fh (rf_hdr (t_file t)))"

lemma finite_rows: "rf_ok f \<Longrightarrow> finite (dom (rf_records f))"
proof -
  assume "rf_ok f"
  note S = set_file_rows[OF this]
  have "dom (rf_records f) = fst ` set (file_rows f)" unfolding S by force
  then show ?thesis by simp
qed

lemma records_length:
  assumes "page_ok pg" "records pg i = Some d"
  shows "int (length d) = record_real_size (hdr pg)"
proof -
  have i: "i < pg_cap pg" "d = slot_bytes pg i" using assms(2) by (auto simp: records_def split: if_splits)
  show ?thesis using slot_range[OF assms(1) i(1)] page_layout(1)[OF assms(1)] by (simp add: i(2) slot_bytes_def)
qed

lemma row_fits:
  assumes "rf_ok f" "rf_records f r = Some d"
  shows "rf_fits f d"
proof -
  have "rf_page_ok f (page_num r)"
    using rf_okD(5)[OF assms(1)] assms(2) by (simp add: rf_records_def split: if_splits)
  then obtain pg where "rf_pages f (page_num r) = Some pg" "page_ok pg" "record_real_size (hdr pg) = rf_size f"
    by (auto simp: rf_page_ok_def)
  then show ?thesis
    using assms(2) records_length[of pg "nat (slot_num r)" d] by (simp add: rf_records_def rf_fits_def split: if_splits)
qed

section \<open>Insertion\<close>

lemma file_insert_inserted:
  assumes "rf_inv f" "rf_fits f d" "rf_size f \<le> 8144" "allocated_pages (fh (rf_hdr f)) < 8 * FH_BITMAP_BYTES"
  shows "\<exists>r f'. inserted f d r f' \<and> (\<exists>p. data_pages f' \<subseteq> insert p (data_pages f))"
proof (cases "has_free_slot f")
  case True
  obtain r f' where "inserted f d r f'" "data_pages f' = data_pages f" by (rule file_insert_reuse[OF assms(1,2) True])
  then show ?thesis by blast
next
  case False
  have *: "hdr_room (rf_hdr f)" "0 < file_page_capacity f"
    using assms file_page_capacity_pos[of f] by (simp_all add: hdr_room_def rf_inv_def)
  from assms(1,2) False *(1) show ?thesis
    by (cases rule: file_insert_grow) (use *(2) in \<open>auto simp: inserted_def\<close>)
qed

lemma allocated_data_pages:
  assumes "rf_inv f"
  shows "allocated_pages (fh (rf_hdr f)) = int (card (data_pages f)) + 1" "finite (data_pages f)"
proof -
  have h: "hdr_ok (fh (rf_hdr f))" using assms by (simp add: rf_inv_def rf_ok_def)
  then have z: "0 \<in> live_pages (fh (rf_hdr f))"
    using hdr_ok_facts(4)[OF h] by (auto simp: live_pages_def hdr_ok_def)
  have fin: "finite (live_pages (fh (rf_hdr f)))"
    by (rule finite_subset[of _ "{0..<page_count (fh (rf_hdr f))}"]) (auto simp: live_pages_def)
  then show "finite (data_pages f)" by (simp add: data_pages_def)
  show "allocated_pages (fh (rf_hdr f)) = int (card (data_pages f)) + 1"
    using allocated_card[OF h] card.remove[OF fin z] by (simp add: data_pages_def)
qed

lemma table_insert_ok:
  assumes "table_consistent F t" "rf_fits (t_file t) d" "table_pages t < 8 * FH_BITMAP_BYTES"
    and "card (dom (table_rows_map t)) \<le> max_entries"
  shows "\<exists>r t'. table_insert_record t d = Some (SUCCESS, Some r, t') \<and> table_consistent F t' \<and> table_rows_map t r = None \<and>
    table_rows_map t' = (table_rows_map t)(r \<mapsto> d) \<and> rf_size (t_file t') = rf_size (t_file t) \<and>
    table_pages t' \<le> table_pages t + 1 \<and> t_meta t' = t_meta t"
proof -
  have T: "rf_inv (t_file t)" "rf_size (t_file t) \<le> 8144"
      "list_all (index_agrees F (table_rows_map t)) (t_indexes t)"
      "list_all (\<lambda>ix. \<forall>d. rf_fits (t_file t) d \<longrightarrow> index_fits ix d) (t_indexes t)"
    using assms(1) by (simp_all add: table_consistent_def)
  from file_insert_inserted[OF T(1) assms(2) T(2)] assms(3) obtain r f' p where
    f': "inserted (t_file t) d r f'" "data_pages f' \<subseteq> insert p (data_pages (t_file t))" by (auto simp: table_pages_def)
  have I: "file_insert_record (t_file t) d = Some (SUCCESS, Some r, f')" "rf_inv f'" "rf_size f' = rf_size (t_file t)"
      "table_rows_map t r = None" "rf_records f' = (table_rows_map t)(r \<mapsto> d)"
    using f'(1) by (simp_all add: inserted_def table_rows_map_def)
  have "list_all (\<lambda>ix. index_fits ix d) (t_indexes t)" using T(4) assms(2) by (auto simp: list_all_iff)
  from btree.insert_all[OF T(3) I(4) this assms(4)] obtain ixs where
    ixs: "insert_entry_of_indexes index_insert_entry d r (t_indexes t) = Some (SUCCESS, ixs)"
      "list_all (index_agrees F ((table_rows_map t)(r \<mapsto> d))) ixs" "map index_fits ixs = map index_fits (t_indexes t)"
    by blast
  let ?t = "t\<lparr>t_file := f', t_indexes := ixs\<rparr>"
  have "list_all (\<lambda>ix. \<forall>d. rf_fits f' d \<longrightarrow> index_fits ix d) ixs"
  proof -
    have "list_all (\<lambda>g. \<forall>d. rf_fits f' d \<longrightarrow> g d) (map index_fits ixs)"
      unfolding ixs(3) using T(4) I(3) by (simp add: list.pred_map comp_def rf_fits_def)
    then show ?thesis by (simp add: list.pred_map comp_def)
  qed
  then have "table_consistent F ?t" using I T(2) ixs(2) by (simp add: table_consistent_def table_rows_map_def)
  moreover have "table_pages ?t \<le> table_pages t + 1"
    using card_mono[OF _ f'(2)] allocated_data_pages[OF I(2)] allocated_data_pages[OF T(1)]
      card_insert_le_m1[of "Suc (card (data_pages (t_file t)))" "data_pages (t_file t)" p]
    by (simp add: table_pages_def)
  ultimately show ?thesis
    using I ixs(1) by (intro exI[of _ r] exI[of _ ?t]) (simp add: table_insert_record_def table_rows_map_def)
qed

text \<open>An insertion leaves the schema alone.\<close>

lemma insert_entry_of_indexes_schema:
  "insert_entry_of_indexes index_insert_entry d r ixs = Some (rc, ixs') \<Longrightarrow>
     map ix_name ixs' = map ix_name ixs \<and> map ix_field ixs' = map ix_field ixs"
proof (induction ixs arbitrary: ixs')
  case (Cons ix ixs)
  obtain rc1 ix1 where ix1: "index_insert_entry ix d r = Some (rc1, ix1)"
    using Cons.prems by (auto split: Option.bind_splits)
  then have "ix_name ix1 = ix_name ix" "ix_field ix1 = ix_field ix"
    by (auto simp: index_insert_entry_def split: Option.bind_splits)
  then show ?case using Cons.prems ix1 Cons.IH by (auto split: Option.bind_splits if_splits)
qed simp

lemma table_insert_schema:
  assumes "table_insert_record t d = Some (SUCCESS, Some r, v)"
  shows "map ix_name (t_indexes v) = map ix_name (t_indexes t)" "map ix_field (t_indexes v) = map ix_field (t_indexes t)"
proof -
  obtain ixs where "insert_entry_of_indexes index_insert_entry d r (t_indexes t) = Some (SUCCESS, ixs)" "t_indexes v = ixs"
    using assms by (auto simp: table_insert_record_def split: Option.bind_splits if_splits)
  from insert_entry_of_indexes_schema[OF this(1)] this(2)
  show "map ix_name (t_indexes v) = map ix_name (t_indexes t)" "map ix_field (t_indexes v) = map ix_field (t_indexes t)"
    by simp_all
qed

section \<open>Deletion and update\<close>

lemma file_operations_header:
  "file_delete_record f r = Some (c, f') \<Longrightarrow> fh (rf_hdr f') = fh (rf_hdr f)"
  "file_visit_record f r u = Some (c, f') \<Longrightarrow> fh (rf_hdr f') = fh (rf_hdr f)"
  by (auto simp: file_delete_record_def file_visit_record_def store_page_def add_free_page_def Let_def
      split: Option.bind_splits option.splits if_splits prod.splits)

lemma table_delete_ok:
  assumes "table_consistent F t" "rf_valid (t_file t) r"
  shows "\<exists>t'. table_delete_record t r = Some (if table_rows_map t r = None then RECORD_NOT_EXIST else SUCCESS, t') \<and>
    table_consistent F t' \<and> table_rows_map t' = (table_rows_map t)(r := None) \<and> rf_size (t_file t') = rf_size (t_file t) \<and>
    table_pages t' = table_pages t \<and> t_meta t' = t_meta t"
proof -
  have T: "rf_inv (t_file t)" "rf_ok (t_file t)" "rf_size (t_file t) \<le> 8144"
      "list_all (index_agrees F (table_rows_map t)) (t_indexes t)"
      "list_all (\<lambda>ix. \<forall>d. rf_fits (t_file t) d \<longrightarrow> index_fits ix d) (t_indexes t)"
    using assms(1) by (simp_all add: table_consistent_def rf_inv_def)
  note G = file_get_eq[OF T(2) assms(2)]
  show ?thesis
  proof (cases "table_rows_map t r")
    case None
    then show ?thesis
      using G assms(1)
      by (intro exI[of _ t]) (simp add: table_delete_record_def table_get_record_def table_rows_map_def OB_FAIL_def fun_upd_idem)
  next
    case (Some d)
    from btree.delete_all[OF T(4) Some] obtain ixs where
      ixs: "delete_from_indexes index_delete_entry d r (t_indexes t) = Some ixs"
        "list_all (index_agrees F ((table_rows_map t)(r := None))) ixs" "map index_fits ixs = map index_fits (t_indexes t)"
      by blast
    from T(1) assms(2) obtain f' where f': "file_delete_record (t_file t) r = Some (SUCCESS, f')" "rf_inv f'"
        "rf_records f' = (table_rows_map t)(r := None)" "rf_size f' = rf_size (t_file t)"
      by (cases rule: file_delete_cases) (use Some in \<open>auto simp: table_rows_map_def\<close>)
    let ?t = "t\<lparr>t_file := f', t_indexes := ixs\<rparr>"
    have "list_all (\<lambda>g. \<forall>d. rf_fits f' d \<longrightarrow> g d) (map index_fits ixs)"
      unfolding ixs(3) using T(5) f'(4) by (simp add: list.pred_map comp_def rf_fits_def)
    then have "table_consistent F ?t" using f' T(3) ixs(2) by (simp add: table_consistent_def table_rows_map_def list.pred_map comp_def)
    then show ?thesis
      using G Some f' ixs(1) file_operations_header(1)[OF f'(1)]
      by (intro exI[of _ ?t])
        (simp add: table_delete_record_def table_get_record_def table_remove_def table_rows_map_def table_pages_def)
  qed
qed

text \<open>
  An update does not touch the indexes, so the visitor has to leave the indexed
  columns alone; the transactions change only their own columns.
\<close>

definition keeps_keys :: "table \<Rightarrow> rid \<Rightarrow> (rid \<times> byte list \<Rightarrow> bool \<times> byte list) \<Rightarrow> bool" where
  "keeps_keys t r u \<longleftrightarrow>
     (\<forall>d. rf_fits (t_file t) d \<longrightarrow> rf_fits (t_file t) (snd (u (r, d))) \<and>
        (\<forall>ix\<in>set (t_indexes t). row_key ix (snd (u (r, d))) = row_key ix d))"

lemma index_agrees_update:
  assumes "index_agrees F rows ix" "rows r = Some d" "row_key ix d' = row_key ix d" "index_fits ix d'"
  shows "index_agrees F (rows(r \<mapsto> d')) ix"
proof -
  have e: "row_entry ix (r, d') = row_entry ix (r, d)" using assms(3) by (simp add: row_entry_def)
  have "{(x, c). (rows(r \<mapsto> d')) x = Some c} = insert (r, d') {(x, c). rows x = Some c \<and> x \<noteq> r}"
    by (auto split: if_splits)
  moreover have "{(x, c). rows x = Some c} = insert (r, d) {(x, c). rows x = Some c \<and> x \<noteq> r}"
    using assms(2) by auto
  ultimately have "row_entry ix ` {(x, c). (rows(r \<mapsto> d')) x = Some c} = row_entry ix ` {(x, c). rows x = Some c}"
    using e by simp
  then show ?thesis using assms(1,4) unfolding index_agrees_def by auto
qed

lemma table_visit_ok:
  assumes "table_consistent F t" "rf_valid (t_file t) r" "keeps_keys t r u"
  shows "\<exists>rc t'. table_visit_record t r u = Some (rc, t') \<and> table_consistent F t' \<and>
    (case table_rows_map t r of
       None \<Rightarrow> rc = RECORD_NOT_EXIST \<and> t' = t
     | Some d \<Rightarrow> rc = SUCCESS \<and> table_rows_map t' =
         (if fst (u (r, d)) then (table_rows_map t)(r \<mapsto> snd (u (r, d))) else table_rows_map t)) \<and>
    rf_size (t_file t') = rf_size (t_file t) \<and> table_pages t' = table_pages t"
proof -
  have T: "rf_inv (t_file t)" "rf_ok (t_file t)" "rf_size (t_file t) \<le> 8144"
      "list_all (index_agrees F (table_rows_map t)) (t_indexes t)"
      "list_all (\<lambda>ix. \<forall>d. rf_fits (t_file t) d \<longrightarrow> index_fits ix d) (t_indexes t)"
    using assms(1) by (simp_all add: table_consistent_def rf_inv_def)
  have len: "table_rows_map t r = Some d \<Longrightarrow> rf_fits (t_file t) d" for d
    using row_fits[OF T(2)] by (simp add: table_rows_map_def)
  have v: "\<And>d. rf_records (t_file t) r = Some d \<Longrightarrow> fst (u (r, d)) \<Longrightarrow> rf_fits (t_file t) (snd (u (r, d)))"
    using assms(3) len by (simp add: keeps_keys_def table_rows_map_def)
  show ?thesis
  proof (rule file_visit_cases[where u = u, OF T(1) assms(2)], goal_cases visitor absent_row kept updated)
    case (visitor d)
    then show ?case by (rule v)
  next
    case absent_row
    then show ?case using assms(1)
      by (intro exI[of _ RECORD_NOT_EXIST] exI[of _ t]) (simp add: table_visit_record_def table_rows_map_def)
  next
    case (kept d)
    then show ?case using assms(1)
      by (intro exI[of _ SUCCESS] exI[of _ t]) (simp add: table_visit_record_def table_rows_map_def)
  next
    case (updated d f')
    let ?d = "snd (u (r, d))" and ?t = "t\<lparr>t_file := f'\<rparr>"
    have row: "table_rows_map t r = Some d" using updated(1) by (simp add: table_rows_map_def)
    have k: "rf_fits (t_file t) ?d" "\<forall>ix\<in>set (t_indexes t). row_key ix ?d = row_key ix d"
      using assms(3) len[OF row] by (auto simp: keeps_keys_def)
    have "list_all (index_agrees F ((table_rows_map t)(r \<mapsto> ?d))) (t_indexes t)"
      using T(4,5) k index_agrees_update[of F "table_rows_map t" _ r d, OF _ row] unfolding list_all_iff by blast
    then have "table_consistent F ?t"
      using updated T(3,5) by (simp add: table_consistent_def table_rows_map_def rf_fits_def)
    then show ?case
      using updated row file_operations_header(2)[OF updated(3)]
      by (intro exI[of _ SUCCESS] exI[of _ ?t]) (simp add: table_visit_record_def table_rows_map_def table_pages_def)
  qed
qed

section \<open>Creating an index\<close>

lemma new_index_agrees:
  fixes F :: "'f float_ops"
  assumes "fh h = create_file_header n" "ftype m = CHARS \<or> ftype m = INTS" "0 < flen m" "flen m \<le> 1348"
  shows "\<exists>ix. index_create F (Inr h) name m = Some (SUCCESS, Some ix) \<and> index_agrees F Map.empty ix \<and>
    ix_name ix = name \<and> ix_field ix = m"
proof -
  have h: "hdr_ok (fh h)" "live_pages (fh h) = {0}" "page_count (fh h) = 1" "allocated_pages (fh h) < 8 * FH_BITMAP_BYTES"
    using assms(1) create_file_header_ok[of n] by (simp_all add: create_file_header_def layout_simps)
  obtain h1 where h1: "header_allocate h = Some (SUCCESS, Some 1, h1)" "live_pages (fh h1) = {0, 1}" "hdr_ok (fh h1)"
  proof (rule header_allocate_cases[OF h(1,4)])
    show thesis if "int i < page_count (fh h)" "i \<noteq> 0" for i using that h(3) by simp
  next
    assume f: "header_allocate h =
      Some (SUCCESS, Some (page_count (fh h)), stepped (ALLOCATE (page_count (fh h))) (push_page (fh h)) h)"
    obtain p s' where s: "header_allocate h = Some (SUCCESS, Some p, s')" "live_pages (fh s') = insert p (live_pages (fh h))"
        "hdr_ok (fh s')" by (rule header_allocate_live[OF h(1,4)])
    then have "p = 1" using f h(3) by simp
    then show thesis using that[of s'] s h(2) by (simp add: insert_commute)
  qed
  let ?t = "\<lparr>key_comparator = key_compare (attr_compare F (ftype m) (flen m)), key_zero = (replicate (nat (flen m)) 0, rid_min),
      attr_length = flen m, internal_max_size = nat (calc_internal_page_capacity (flen m)),
      leaf_max_size = nat (calc_leaf_page_capacity (flen m)),
      root_page = BP_INVALID_PAGE_NUM, bt_hdr = h1, bt_pages = Map.empty, disposed_pages = []\<rparr>"
  have c: "index_create F (Inr h) name m = Some (SUCCESS, Some \<lparr>ix_name = name, ix_field = m, ix_tree = ?t\<rparr>)"
    using h1(1) by (simp add: index_create_def bplus_tree_create_def FIRST_INDEX_PAGE_def)
  have "k * x \<le> b \<Longrightarrow> 0 < x \<Longrightarrow> k \<le> b div x" for k x b :: int using zdiv_mono1[of "k * x" b x] by simp
  from this[of 6 "flen m + 12" 8164] this[of 4 "flen m + 16" 8160]
  have "6 \<le> 8164 div (flen m + 12)" "4 \<le> 8160 div (flen m + 16)" using assms(3,4) by simp_all
  then have s: "6 \<le> nat (calc_internal_page_capacity (flen m))" "4 \<le> nat (calc_leaf_page_capacity (flen m))"
    by (simp_all add: calc_internal_page_capacity_def calc_leaf_page_capacity_def layout_simps add.commute)
  have "index_ok ?t"
    using h1(2,3) s key_order_key_compare[OF key_order_attr_compare[OF assms(2), of F "flen m"]]
    by (simp add: index_ok_def leaf_cap_def internal_cap_def FIRST_INDEX_PAGE_def)
  then have "index_holds ?t 0 []"
    using h1(2) by (simp add: index_holds_def is_empty_def node_area_def FIRST_INDEX_PAGE_def)
  then have "index_agrees F Map.empty \<lparr>ix_name = name, ix_field = m, ix_tree = ?t\<rparr>"
    by (auto simp: index_agrees_def intro!: exI[of _ 0] exI[of _ "[]"])
  then show ?thesis using c by (intro exI[of _ "\<lparr>ix_name = name, ix_field = m, ix_tree = ?t\<rparr>"]) simp
qed

lemma fill_index_ok:
  assumes "scan_all n f sc = Some (RECORD_EOF, xs)" "index_agrees F rows ix" "distinct (map fst xs)"
    and "\<forall>x\<in>set xs. rows (fst x) = None \<and> index_fits ix (snd x)" "card (dom rows) + length xs \<le> Suc max_entries"
  shows "\<exists>ix'. fill_index n f sc ix = Some (RECORD_EOF, ix') \<and> index_agrees F (rows ++ map_of xs) ix' \<and>
    ix_field ix' = ix_field ix \<and> ix_name ix' = ix_name ix"
  using assms
proof (induction n arbitrary: sc xs rows ix)
  case 0
  then show ?case
    by (auto simp: scan_all.simps[of 0] fill_index.simps[of 0] split: Option.bind_splits option.splits)
next
  case (Suc n)
  obtain r got sc1 where s: "scan_next f sc = Some (r, got, sc1)"
    using Suc.prems(1) by (auto simp: scan_all.simps[of "Suc n"] split: Option.bind_splits)
  show ?case
  proof (cases got)
    case None
    then show ?thesis using Suc.prems(1,2) s by (simp add: scan_all.simps[of "Suc n"] fill_index.simps[of "Suc n"])
  next
    case (Some x)
    obtain xr d where x: "x = (xr, d)" by (cases x)
    obtain ys where ys: "scan_all n f sc1 = Some (RECORD_EOF, ys)" "xs = x # ys"
      using Suc.prems(1) s Some by (auto simp: scan_all.simps[of "Suc n"] split: Option.bind_splits)
    have fin: "finite (dom rows)" using Suc.prems(2) by (simp add: index_agrees_def)
    have new: "rows xr = None" "index_fits ix d" "card (dom rows) \<le> max_entries"
      using Suc.prems(4,5) ys(2) x by auto
    from index_entry_inserted[OF Suc.prems(2) new] obtain ix1 where
      ix1: "index_insert_entry ix d xr = Some (SUCCESS, ix1)" "index_agrees F (rows(xr \<mapsto> d)) ix1"
        "ix_field ix1 = ix_field ix" "ix_name ix1 = ix_name ix" by blast
    have d: "distinct (map fst ys)" "\<forall>y\<in>set ys. (rows(xr \<mapsto> d)) (fst y) = None \<and> index_fits ix1 (snd y)"
      using Suc.prems(3,4) ys(2) x ix1(3) by (force simp: index_fits_def)+
    have c: "card (dom (rows(xr \<mapsto> d))) + length ys \<le> Suc max_entries"
      using Suc.prems(5) ys(2) fin card_insert_le_m1[of "Suc (card (dom rows))" "dom rows" xr]
      by (simp add: card_insert_if)
    have "rows ++ map_of xs = (rows(xr \<mapsto> d)) ++ map_of ys"
      using d(1) Suc.prems(3) ys(2) x by (simp add: map_add_upd_left dom_map_of_conv_image_fst)
    then show ?thesis
      using Suc.IH[OF ys(1) ix1(2) d c] s Some x ix1
      by (simp add: fill_index.simps[of "Suc n"] del: fun_upd_apply)
  qed
qed

lemma scan_rows:
  assumes "rf_inv f" "\<forall>v x. trx = Some v \<longrightarrow> v x \<in> {SUCCESS, RECORD_INVISIBLE}" "card (dom (rf_records f)) \<le> n"
  obtains xs where "scan_all n f (open_scan mode None trx) = Some (RECORD_EOF, xs)" "distinct (map fst xs)"
    "set xs = {(r, d). rf_records f r = Some d \<and> (case trx of None \<Rightarrow> True | Some v \<Rightarrow> v (r, d) = SUCCESS)}"
proof -
  let ?sc = "open_scan mode None trx"
  have ok: "rf_ok f" using assms(1) by (simp add: rf_inv_def)
  have sc: "sc_filter ?sc = None" "sc_trx ?sc = trx" by (simp_all add: open_scan_def)
  have codes: "visit_code ?sc x \<noteq> RECORD_EOF \<and> (wanted ?sc x \<longrightarrow> visit_code ?sc x = SUCCESS)" for x
    using assms(2)[rule_format, of _ x] by (cases trx) (auto simp: visit_code_def wanted_def open_scan_def)
  have "scans f ?sc (file_rows f)"
    by (simp add: scans_def open_scan_def bp_iter_init_def file_rows_def)
  then have "scan_all n f ?sc = Some (RECORD_EOF, filter (wanted ?sc) (file_rows f))"
    using scan_all_eq[OF ok, of ?sc "file_rows f" n] codes length_file_rows[OF ok] assms(3) by simp
  moreover have "distinct (map fst (filter (wanted ?sc) (file_rows f)))"
    using distinct_file_rows[OF ok] distinct_map_filter by blast
  moreover have "wanted ?sc x \<longleftrightarrow> (case trx of None \<Rightarrow> True | Some v \<Rightarrow> v x = SUCCESS)" for x
    using assms(2) by (cases x) (auto simp: wanted_def sc split: option.splits)
  then have "set (filter (wanted ?sc) (file_rows f)) =
      {(r, d). rf_records f r = Some d \<and> (case trx of None \<Rightarrow> True | Some v \<Rightarrow> v (r, d) = SUCCESS)}"
    using set_file_rows[OF ok] by auto
  ultimately show thesis by (rule that)
qed

text \<open>The rows that a transaction sees.\<close>

definition visible_rows :: "(rid \<times> byte list \<Rightarrow> rc) option \<Rightarrow> (rid \<rightharpoonup> byte list) \<Rightarrow> rid \<rightharpoonup> byte list" where
  "visible_rows trx rows r =
     (case rows r of
        None \<Rightarrow> None
      | Some d \<Rightarrow> if (case trx of None \<Rightarrow> True | Some v \<Rightarrow> v (r, d) = SUCCESS) then Some d else None)"

lemma create_index_ok:
  fixes F :: "'f float_ops"
  assumes "table_consistent F t" "fh h = create_file_header k" "ftype m = CHARS \<or> ftype m = INTS \<and> 4 \<le> flen m"
    and "0 \<le> foffset m" "0 < flen m" "flen m \<le> 1348" "foffset m + flen m \<le> rf_size (t_file t)" "\<not> is_blank name"
    and "\<forall>v x. trx = Some v \<longrightarrow> v x \<in> {SUCCESS, RECORD_INVISIBLE}"
    and "card (dom (table_rows_map t)) \<le> n" "card (dom (table_rows_map t)) \<le> max_entries"
  shows "\<exists>ix t'. create_index F n (Inr h) trx SUCCESS t (Some m) name = Some (SUCCESS, t') \<and>
    t' = t\<lparr>t_indexes := t_indexes t @ [ix],
           t_meta := (t_meta t)\<lparr>tm_indexes := tm_indexes (t_meta t) @ [(name, fname m)]\<rparr>\<rparr> \<and>
    ix_name ix = name \<and> ix_field ix = m \<and> index_agrees F (visible_rows trx (table_rows_map t)) ix"
proof -
  have T: "rf_inv (t_file t)" "rf_ok (t_file t)" using assms(1) by (simp_all add: table_consistent_def rf_inv_def)
  obtain ix where ix: "index_create F (Inr h) name m = Some (SUCCESS, Some ix)" "index_agrees F Map.empty ix"
      "ix_name ix = name" "ix_field ix = m"
    using new_index_agrees[OF assms(2) _ assms(5,6), of F name] assms(3) by auto
  obtain xs where xs: "scan_all n (t_file t) (open_scan READ_ONLY None trx) = Some (RECORD_EOF, xs)" "distinct (map fst xs)"
      "set xs = {(r, d). rf_records (t_file t) r = Some d \<and> (case trx of None \<Rightarrow> True | Some v \<Rightarrow> v (r, d) = SUCCESS)}"
    by (rule scan_rows[OF T(1) assms(9), where mode = READ_ONLY]) (use assms(10) in \<open>auto simp: table_rows_map_def\<close>)
  have fits: "index_fits ix d" if "rf_records (t_file t) r = Some d" for r d
    using row_fits[OF T(2) that] assms(3-7) ix(4) by (auto simp: index_fits_def column_ok_def rf_fits_def)
  have "length xs \<le> card (dom (table_rows_map t))"
  proof -
    have "set (map fst xs) \<subseteq> dom (table_rows_map t)" using xs(3) by (auto simp: table_rows_map_def)
    then have "card (set (map fst xs)) \<le> card (dom (table_rows_map t))"
      using finite_rows[OF T(2)] by (intro card_mono) (simp_all add: table_rows_map_def)
    then show ?thesis using distinct_card[OF xs(2)] by simp
  qed
  then have c: "card (dom (Map.empty :: rid \<rightharpoonup> byte list)) + length xs \<le> Suc max_entries" using assms(11) by simp
  have "\<forall>x\<in>set xs. Map.empty (fst x) = None \<and> index_fits ix (snd x)" using xs(3) fits by auto
  from fill_index_ok[OF xs(1) ix(2) xs(2) this c] obtain ix' where
    ix': "fill_index n (t_file t) (open_scan READ_ONLY None trx) ix = Some (RECORD_EOF, ix')"
      "index_agrees F (map_of xs) ix'" "ix_field ix' = m" "ix_name ix' = name"
    using ix(3,4) by auto
  have "map_of xs = visible_rows trx (table_rows_map t)"
  proof (rule ext)
    fix r
    show "map_of xs r = visible_rows trx (table_rows_map t) r"
    proof (cases "visible_rows trx (table_rows_map t) r")
      case None
      then have "r \<notin> fst ` set xs" using xs(3) by (auto simp: visible_rows_def table_rows_map_def split: option.splits if_splits)
      then show ?thesis using None by (simp add: map_of_eq_None_iff)
    next
      case (Some d)
      then have "(r, d) \<in> set xs" using xs(3) by (auto simp: visible_rows_def table_rows_map_def split: option.splits if_splits)
      then show ?thesis using Some xs(2) by simp
    qed
  qed
  then show ?thesis
    using ix(1) ix' assms(8) by (intro exI[of _ ix']) (simp add: create_index_def)
qed

text \<open>
  A row that the transaction does not see is missing in the new index: removing it from the
  table afterwards, as the rollback of its insertion does, fails the assertion of \<open>delete_record\<close>.
\<close>

lemma index_entry_missing:
  assumes "index_agrees F rows ix" "rows r = None" "index_fits ix d"
  shows "index_delete_entry ix d r = Some (RECORD_NOT_EXIST, ix)"
proof -
  let ?t = "ix_tree ix"
  obtain m es where A: "attr_length ?t = flen (ix_field ix)"
      "key_comparator ?t = key_compare (attr_compare F (ftype (ix_field ix)) (flen (ix_field ix)))"
      "index_holds ?t m es" "set es = row_entry ix ` {(r, d). rows r = Some d}"
    using assms(1) unfolding index_agrees_def by blast
  have "\<not> has_key (key_comparator ?t) (row_key ix d, r) es"
    unfolding has_key_def A(2,4) using key_compare_same_rid assms(2) by (fastforce simp: row_entry_def)
  then show ?thesis
    using delete_entry_refines[OF A(3), of "(row_key ix d, r)"] make_key_row[OF assms(3) A(1), of r]
    by (simp add: index_delete_entry_def)
qed

lemma delete_from_indexes_missing:
  "index_delete_entry ix d r = Some (RECORD_NOT_EXIST, ix) \<Longrightarrow> ix \<in> set ixs \<Longrightarrow>
     delete_from_indexes index_delete_entry d r ixs = None"
  by (induction ixs) (auto split: Option.bind_splits)

lemma invisible_row_breaks_delete:
  assumes "rf_ok (t_file t)" "table_rows_map t r = Some d" "ix \<in> set (t_indexes t)"
    and "index_agrees F (visible_rows trx (table_rows_map t)) ix" "visible_rows trx (table_rows_map t) r = None" "index_fits ix d"
  shows "table_delete_record t r = None"
proof -
  have "file_get_record (t_file t) r = Some (SUCCESS, Some (r, d))"
    using file_get_eq[OF assms(1) rf_records_valid[of "t_file t" r d]] assms(2) by (simp add: table_rows_map_def)
  then show ?thesis
    using delete_from_indexes_missing[OF index_entry_missing[OF assms(4-6)] assms(3)]
    by (simp add: table_delete_record_def table_get_record_def table_remove_def)
qed

section \<open>Sequences of operations\<close>

datatype table_op =
    Insert_Row "byte list"
  | Delete_Row rid
  | Visit_Row rid "rid \<times> byte list \<Rightarrow> bool \<times> byte list"

fun table_step :: "table_op \<Rightarrow> table \<Rightarrow> (rc \<times> table) option" where
  "table_step (Insert_Row d) t = map_option (\<lambda>(rc, r, t'). (rc, t')) (table_insert_record t d)"
| "table_step (Delete_Row r) t = table_delete_record t r"
| "table_step (Visit_Row r u) t = table_visit_record t r u"

text \<open>
  What the callers of a table keep to: records have the length of the table's records,
  identifiers are those of a page of the file, updates leave indexed columns alone.
\<close>

fun op_allowed :: "table_op \<Rightarrow> table \<Rightarrow> bool" where
  "op_allowed (Insert_Row d) t \<longleftrightarrow> rf_fits (t_file t) d"
| "op_allowed (Delete_Row r) t \<longleftrightarrow> rf_valid (t_file t) r"
| "op_allowed (Visit_Row r u) t \<longleftrightarrow> rf_valid (t_file t) r \<and> keeps_keys t r u"

text \<open>The operations on a map from identifiers to rows.\<close>

fun row_spec :: "table_op \<Rightarrow> (rid \<rightharpoonup> byte list) \<Rightarrow> rc \<Rightarrow> (rid \<rightharpoonup> byte list) \<Rightarrow> bool" where
  "row_spec (Insert_Row d) rows rc rows' \<longleftrightarrow> rc = SUCCESS \<and> (\<exists>r. rows r = None \<and> rows' = rows(r \<mapsto> d))"
| "row_spec (Delete_Row r) rows rc rows' \<longleftrightarrow>
     rc = (if rows r = None then RECORD_NOT_EXIST else SUCCESS) \<and> rows' = rows(r := None)"
| "row_spec (Visit_Row r u) rows rc rows' \<longleftrightarrow>
     (case rows r of
        None \<Rightarrow> rc = RECORD_NOT_EXIST \<and> rows' = rows
      | Some d \<Rightarrow> rc = SUCCESS \<and> rows' = (if fst (u (r, d)) then rows(r \<mapsto> snd (u (r, d))) else rows))"

lemma table_step_consistent:
  assumes "table_consistent F t" "op_allowed oper t" "table_pages t < 8 * FH_BITMAP_BYTES"
    and "card (dom (table_rows_map t)) \<le> max_entries"
  shows "\<exists>rc t'. table_step oper t = Some (rc, t') \<and> table_consistent F t' \<and>
    row_spec oper (table_rows_map t) rc (table_rows_map t') \<and> table_pages t' \<le> table_pages t + 1"
proof (cases oper)
  case (Insert_Row d)
  obtain r t' where "table_insert_record t d = Some (SUCCESS, Some r, t')" "table_consistent F t'" "table_rows_map t r = None"
      "table_rows_map t' = (table_rows_map t)(r \<mapsto> d)" "table_pages t' \<le> table_pages t + 1"
    using table_insert_ok[OF assms(1) _ assms(3,4), of d] assms(2) Insert_Row by auto
  then show ?thesis using Insert_Row by auto
next
  case (Delete_Row r)
  then show ?thesis using table_delete_ok[OF assms(1), of r] assms(2) by auto
next
  case (Visit_Row r u)
  then obtain rc t' where "table_visit_record t r u = Some (rc, t')" "table_consistent F t'" "table_pages t' = table_pages t"
      "case table_rows_map t r of
         None \<Rightarrow> rc = RECORD_NOT_EXIST \<and> t' = t
       | Some d \<Rightarrow> rc = SUCCESS \<and> table_rows_map t' =
           (if fst (u (r, d)) then (table_rows_map t)(r \<mapsto> snd (u (r, d))) else table_rows_map t)"
    using table_visit_ok[OF assms(1), of r u] assms(2) by auto
  then show ?thesis using Visit_Row by (auto split: option.splits)
qed

lemma row_spec_card:
  assumes "row_spec oper rows rc rows'" "finite (dom rows)"
  shows "card (dom rows') \<le> Suc (card (dom rows))"
proof (cases oper)
  case (Insert_Row d)
  then obtain r where "rows' = rows(r \<mapsto> d)" using assms(1) by auto
  then show ?thesis using assms(2) by (simp add: card_insert_if)
next
  case (Delete_Row r)
  then have "dom rows' = dom rows - {r}" using assms(1) by auto
  then show ?thesis using card_Diff1_le[of "dom rows" r] by simp
next
  case (Visit_Row r u)
  then have "dom rows' = dom rows" using assms(1) by (auto split: option.splits if_splits)
  then show ?thesis by simp
qed

text \<open>The tables that \<open>n\<close> operations lead to.\<close>

inductive table_reach :: "table \<Rightarrow> nat \<Rightarrow> table \<Rightarrow> bool" for t where
  start: "table_reach t 0 t"
| step: "table_reach t n u \<Longrightarrow> op_allowed oper u \<Longrightarrow> table_step oper u = Some (rc, v) \<Longrightarrow> table_reach t (Suc n) v"

lemma table_reach_ok:
  assumes "table_reach t n u" "table_consistent F t" "table_pages t + int n < 8 * FH_BITMAP_BYTES"
    and "card (dom (table_rows_map t)) + n \<le> max_entries"
  shows "table_consistent F u \<and> table_pages u \<le> table_pages t + int n \<and>
    card (dom (table_rows_map u)) \<le> card (dom (table_rows_map t)) + n"
  using assms
proof (induction rule: table_reach.induct)
  case (step n u oper rc v)
  have I: "table_consistent F u" "table_pages u \<le> table_pages t + int n"
      "card (dom (table_rows_map u)) \<le> card (dom (table_rows_map t)) + n"
    using step.IH step.prems by simp_all
  have room: "table_pages u < 8 * FH_BITMAP_BYTES" "card (dom (table_rows_map u)) \<le> max_entries"
    using I(2,3) step.prems(2,3) by simp_all
  from table_step_consistent[OF I(1) step.hyps(2) room] step.hyps(3)
  have S: "table_consistent F v" "row_spec oper (table_rows_map u) rc (table_rows_map v)" "table_pages v \<le> table_pages u + 1"
    by auto
  have "finite (dom (table_rows_map u))"
    using I(1) finite_rows by (simp add: table_consistent_def table_rows_map_def rf_inv_def)
  from row_spec_card[OF S(2) this] show ?case using S(1,3) I(2,3) by simp
qed simp

section \<open>Properties\<close>

text \<open>
  C10.  The record file and the indexes of a table stay in step.  Whatever insertions, deletions and
  updates (that leave the indexed columns alone) have led to a table, the next operation returns without
  a failed assertion and without a rollback, changes the rows as the operation on a map of rows does, and afterwards
  every index again has exactly one entry for every row, under the key of the row's column.
  The limits are the number of entries of an index and the pages of the file.
\<close>

theorem table_history:
  fixes F :: "'f float_ops"
  assumes "table_consistent F t" "table_reach t n u" "op_allowed oper u"
    and "table_pages t + int n < 8 * FH_BITMAP_BYTES" "card (dom (table_rows_map t)) + n \<le> max_entries"
  shows "\<exists>rc v. table_step oper u = Some (rc, v) \<and> row_spec oper (table_rows_map u) rc (table_rows_map v) \<and>
    (\<forall>ix\<in>set (t_indexes v). \<exists>m es. index_holds (ix_tree ix) m es \<and>
       set es = row_entry ix ` {(r, d). table_rows_map v r = Some d})"
proof -
  have U: "table_consistent F u" "table_pages u < 8 * FH_BITMAP_BYTES" "card (dom (table_rows_map u)) \<le> max_entries"
    using table_reach_ok[OF assms(2,1,4,5)] assms(4,5) by simp_all
  from table_step_consistent[OF U(1) assms(3) U(2,3)] obtain rc v where
    v: "table_step oper u = Some (rc, v)" "table_consistent F v" "row_spec oper (table_rows_map u) rc (table_rows_map v)"
    by blast
  from v(2) have "\<forall>ix\<in>set (t_indexes v). index_agrees F (table_rows_map v) ix" by (simp add: table_consistent_def list_all_iff)
  then show ?thesis using v(1,3) unfolding index_agrees_def by blast
qed

text \<open>A table of one integer column with an index, before its first row.\<close>

definition demo_column :: field_meta where
  "demo_column = \<lparr>fname = ''id'', ftype = INTS, foffset = 0, flen = 4, fvisible = True, ffield_id = 0\<rparr>"

definition bare_table :: table where
  "bare_table =
     \<lparr>t_meta = \<lparr>tm_name = ''t'', tm_fields = [demo_column], tm_trx_fields = [], tm_indexes = [], tm_record_size = 4\<rparr>,
      t_file = demo_file, t_indexes = []\<rparr>"

lemma bare_table_ok: "table_consistent F bare_table" "table_rows_map bare_table = Map.empty"
  "table_pages bare_table = 1" "rf_size (t_file bare_table) = 4" "t_indexes bare_table = []"
  using demo_file_facts demo_header_ok
  by (simp_all add: table_consistent_def bare_table_def table_rows_map_def table_pages_def demo_file_def demo_header_def
      create_file_header_def)

lemma demo_column_facts:
  "ftype demo_column = INTS" "foffset demo_column = 0" "flen demo_column = 4" "fname demo_column = ''id''" "\<not> is_blank ''i''"
  by (simp_all add: demo_column_def is_blank_def is_space_def)

lemma demo_table_index:
  obtains t where "create_index whole_floats 0 (Inr demo_header) None SUCCESS bare_table (Some demo_column) ''i'' = Some (SUCCESS, t)"
    "table_consistent whole_floats t" "table_rows_map t = Map.empty" "table_pages t = 1" "length (t_indexes t) = 1"
    "t_file t = demo_file" "map ix_name (t_indexes t) = [''i'']" "map ix_field (t_indexes t) = [demo_column]"
    "t_meta t = (t_meta bare_table)\<lparr>tm_indexes := [(''i'', ''id'')]\<rparr>"
proof -
  have "fh demo_header = create_file_header 7" by (simp add: demo_header_def)
  from create_index_ok[OF bare_table_ok(1)[of whole_floats] this, of demo_column "''i''" None 0] obtain ix t where
    t: "create_index whole_floats 0 (Inr demo_header) None SUCCESS bare_table (Some demo_column) ''i'' = Some (SUCCESS, t)"
      "t = bare_table\<lparr>t_indexes := t_indexes bare_table @ [ix],
           t_meta := (t_meta bare_table)\<lparr>tm_indexes := tm_indexes (t_meta bare_table) @ [(''i'', fname demo_column)]\<rparr>\<rparr>"
      "ix_field ix = demo_column" "ix_name ix = ''i''" "index_agrees whole_floats (visible_rows None (table_rows_map bare_table)) ix"
    unfolding bare_table_ok(2,4) demo_column_facts using demo_column_facts(5) by auto
  have "visible_rows None (table_rows_map bare_table) = Map.empty" using bare_table_ok(2) by (simp add: visible_rows_def fun_eq_iff)
  then have "table_consistent whole_floats t"
    using t(2-5) bare_table_ok(1)[of whole_floats] bare_table_ok(2,4,5)
    by (simp add: table_consistent_def table_rows_map_def index_fits_def column_ok_def rf_fits_def demo_column_facts)
  then show thesis
    using that[OF t(1)] t(2-4) bare_table_ok(2,3,5)
    by (simp add: table_rows_map_def table_pages_def bare_table_def demo_column_facts)
qed

theorem table_history_witness:
  "\<exists>t rc v r. table_step (Insert_Row [1, 2, 3, 4]) t = Some (rc, v) \<and> rc = SUCCESS \<and> length (t_indexes t) = 1 \<and>
     table_rows_map v = [r \<mapsto> [1, 2, 3, 4]]"
proof (rule demo_table_index)
  fix t
  assume t: "table_consistent whole_floats t" "table_rows_map t = Map.empty" "table_pages t = 1" "length (t_indexes t) = 1" "t_file t = demo_file"
  have "op_allowed (Insert_Row [1, 2, 3, 4]) t" using t(5) demo_file_facts(3) by simp
  from table_history[OF t(1) table_reach.start this] show ?thesis
    using t(2-4) by (auto simp: FH_BITMAP_BYTES_def layout_simps max_entries_def)
qed

text \<open>
  C11.  Creating an index on a table of integers or strings (columns of at most 1348 bytes) scans the whole
  table and gives an index that has exactly one entry for every row the transaction sees, under the key of its column;
  the index is found under its name and its column.  When the transaction sees every row, the table with its
  new index is consistent again.
\<close>

theorem create_index_correct:
  fixes F :: "'f float_ops"
  assumes "table_consistent F t" "fh h = create_file_header k" "ftype m = CHARS \<or> ftype m = INTS \<and> 4 \<le> flen m"
    and "0 \<le> foffset m" "0 < flen m" "flen m \<le> 1348" "foffset m + flen m \<le> rf_size (t_file t)" "\<not> is_blank name"
    and "\<forall>v x. trx = Some v \<longrightarrow> v x \<in> {SUCCESS, RECORD_INVISIBLE}"
    and "card (dom (table_rows_map t)) \<le> n" "card (dom (table_rows_map t)) \<le> max_entries"
    and "find_index t name = None" "fname m \<notin> snd ` set (tm_indexes (t_meta t))"
  shows "\<exists>ix t'. create_index F n (Inr h) trx SUCCESS t (Some m) name = Some (SUCCESS, t') \<and>
    index_agrees F (visible_rows trx (table_rows_map t)) ix \<and> find_index t' name = Some ix \<and>
    find_index_by_field t' (fname m) = Some ix \<and> table_rows_map t' = table_rows_map t \<and>
    (visible_rows trx (table_rows_map t) = table_rows_map t \<longrightarrow> table_consistent F t')"
proof -
  from create_index_ok[OF assms(1-11)] obtain ix t' where
    t': "create_index F n (Inr h) trx SUCCESS t (Some m) name = Some (SUCCESS, t')"
      "t' = t\<lparr>t_indexes := t_indexes t @ [ix],
           t_meta := (t_meta t)\<lparr>tm_indexes := tm_indexes (t_meta t) @ [(name, fname m)]\<rparr>\<rparr>"
      "ix_name ix = name" "ix_field ix = m" "index_agrees F (visible_rows trx (table_rows_map t)) ix"
    by blast
  have app: "List.find P (xs @ [x]) = (case List.find P xs of None \<Rightarrow> if P x then Some x else None | Some y \<Rightarrow> Some y)"
    for P xs and x :: 'z by (induction xs) auto
  have f: "find_index t' name = Some ix"
    using assms(12) t'(2,3) by (simp add: find_index_def app)
  have "List.find (\<lambda>(n, f). f = fname m) (tm_indexes (t_meta t)) = None"
    using assms(13) by (auto simp: find_None_iff image_def)
  then have "find_index_by_field t' (fname m) = Some ix"
    using f t'(2) by (simp add: find_index_by_field_def app)
  moreover have "table_consistent F t'" if "visible_rows trx (table_rows_map t) = table_rows_map t"
    using assms(1,3-7) that t'(2,4,5)
    by (auto simp: table_consistent_def table_rows_map_def index_fits_def column_ok_def rf_fits_def)
  ultimately show ?thesis using t' f by (intro exI[of _ ix] exI[of _ t']) (simp add: table_rows_map_def)
qed

theorem create_index_correct_witness:
  "\<exists>ix t'. create_index whole_floats 0 (Inr demo_header) None SUCCESS bare_table (Some demo_column) ''i'' = Some (SUCCESS, t') \<and>
    find_index_by_field t' ''id'' = Some ix \<and> table_consistent whole_floats t'"
proof -
  have "fh demo_header = create_file_header 7" by (simp add: demo_header_def)
  moreover have "find_index bare_table ''i'' = None"
    "''id'' \<notin> snd ` set (tm_indexes (t_meta bare_table))"
    by (simp_all add: find_index_def find_index_by_field_def bare_table_def)
  moreover have "visible_rows None (table_rows_map bare_table) = table_rows_map bare_table"
    by (simp add: visible_rows_def fun_eq_iff bare_table_ok(2))
  ultimately show ?thesis
    using create_index_correct[OF bare_table_ok(1)[of whole_floats], of demo_header 7 demo_column "''i''" None 0]
    unfolding bare_table_ok(2,4) demo_column_facts using demo_column_facts(5) by auto
qed

end
