(* ===== verification/Index_Scan.thy ===== *)
theory Index_Scan
  imports Table_Correct Query_Correct
begin

text \<open>
  The choice between a table scan and an index scan
  (\<open>PhysicalPlanGenerator::create_plan\<close> for a table in
  src/src/observer/sql/optimizer/physical_plan_generator.cpp) and the index scan
  (src/src/observer/sql/operator/index_scan_physical_operator.cpp) on the tables of
  \<open>Table_Store\<close>.  The theorem says that the choice has no influence on the rows.
\<close>

section \<open>Choosing an index\<close>

text \<open>The column and the constant of an equality; the other comparisons are passed over.\<close>

definition equality_operands :: "'f expr \<Rightarrow> (field \<times> 'f sql_value) option" where
  "equality_operands e =
     (case e of
        COMPARISON c l r \<Rightarrow>
          if c \<noteq> EQUAL_TO then None
          else (case (l, r) of
                  (FIELD f, VALUE v) \<Rightarrow> Some (f, v)
                | (VALUE v, FIELD f) \<Rightarrow> Some (f, v)
                | _ \<Rightarrow> None)
      | _ \<Rightarrow> None)"

fun index_choice :: "table \<Rightarrow> 'f expr list \<Rightarrow> (table_index \<times> 'f sql_value) option" where
  "index_choice t [] = None"
| "index_choice t (e # es) =
     (case equality_operands e of
        None \<Rightarrow> index_choice t es
      | Some (f, v) \<Rightarrow>
          (case find_index_by_field t (fname (fmeta f)) of
             None \<Rightarrow> index_choice t es
           | Some ix \<Rightarrow> Some (ix, v)))"

section \<open>The index scan\<close>

text \<open>
  The pointer that the scan hands to the index: null for a string without a buffer,
  which the index takes as a missing bound.
\<close>

definition key_pointer :: "'f float_ops \<Rightarrow> 'f sql_value \<Rightarrow> byte list option option" where
  "key_pointer F v =
     (if attr_type v = CHARS then do { p \<leftarrow> pointer_member v; Some (map_option (\<lambda>s. s @ [0]) p) }
      else map_option Some (value_data F v))"

definition index_fix_key :: "table_index \<Rightarrow> byte list \<Rightarrow> nat \<Rightarrow> bool \<Rightarrow> (byte list \<times> bool) option" where
  "index_fix_key ix =
     (if ftype (ix_field ix) = CHARS then fix_user_key (nat (attr_length (ix_tree ix))) else keep_user_key)"

text \<open>\<open>BplusTreeIndex::create_scanner\<close>: the scanner, or none when it cannot be opened.\<close>

definition create_scanner ::
  "'f float_ops \<Rightarrow> table_index \<Rightarrow> byte list option \<Rightarrow> int \<Rightarrow> bool \<Rightarrow> byte list option \<Rightarrow> int \<Rightarrow> bool
    \<Rightarrow> byte list tree_scanner option option" where
  "create_scanner F ix left_user_key left_len left_inclusive right_user_key right_len right_inclusive = do {
     (rc, s) \<leftarrow> scanner_open (attr_compare F (ftype (ix_field ix)) (attr_length (ix_tree ix))) (index_fix_key ix) (ix_tree ix)
        left_user_key (nat left_len) left_inclusive right_user_key (nat right_len) right_inclusive new_scanner;
     Some (if rc \<noteq> SUCCESS then None else Some s)
   }"

text \<open>
  Opening the operator: the bounds are copies of the constant.  The result is the feed of
  the identifiers that the index scanner delivers.
\<close>

definition index_scan_open ::
  "'f float_ops \<Rightarrow> (PageNum \<Rightarrow> bool) \<Rightarrow> table_index \<Rightarrow> 'f sql_value \<Rightarrow> (rc \<times> rid feed) option" where
  "index_scan_open F latched ix v = do {
     left_value \<leftarrow> assign_value Value_default v;
     right_value \<leftarrow> assign_value Value_default v;
     left_user_key \<leftarrow> key_pointer F left_value;
     right_user_key \<leftarrow> key_pointer F right_value;
     scanner \<leftarrow> create_scanner F ix left_user_key (val_length left_value) True right_user_key (val_length right_value) True;
     case scanner of
       None \<Rightarrow> Some (INTERNAL, ([], INTERNAL))
     | Some s \<Rightarrow> do {
         (rc, rids) \<leftarrow> collect_entries latched (ix_tree ix) s;
         Some (SUCCESS, (rids, rc))
       }
   }"

text \<open>One call of \<open>next\<close>: read the row, filter it, ask the transaction.\<close>

fun index_scan_next ::
  "'f float_ops \<Rightarrow> rec_file \<Rightarrow> (rid \<times> byte list \<Rightarrow> rc) \<Rightarrow> string \<Rightarrow> field_meta list \<Rightarrow> 'f expr list \<Rightarrow> rid feed
    \<Rightarrow> (rc \<times> 'f tuple option \<times> rid feed) option" where
  "index_scan_next F file trx table metas predicates ([], rc) = Some (rc, None, ([], rc))"
| "index_scan_next F file trx table metas predicates (rid # rids, rc_end) = do {
     (rc, current_record) \<leftarrow> file_get_record file rid;
     if OB_FAIL rc then Some (rc, None, (rids, rc_end))
     else do {
       (r, d) \<leftarrow> current_record;
       (rc, filter_result) \<leftarrow> scan_filter F predicates (RowTuple table metas d);
       if OB_FAIL rc then Some (rc, None, (rids, rc_end))
       else if \<not> filter_result then index_scan_next F file trx table metas predicates (rids, rc_end)
       else let rc = trx (r, d)
            in if rc = RECORD_INVISIBLE then index_scan_next F file trx table metas predicates (rids, rc_end)
               else Some (rc, if rc = SUCCESS then Some (RowTuple table metas d) else None, (rids, rc_end))
     }
   }"

section \<open>Reading a table\<close>

text \<open>
  The physical operator for a table, run to its end: an index scan if there is an index for one of the
  equalities, and a table scan otherwise.  The fuel counts the rows of the table.
\<close>

definition table_get_rows ::
  "'f float_ops \<Rightarrow> nat \<Rightarrow> (PageNum \<Rightarrow> bool) \<Rightarrow> (rid \<times> byte list \<Rightarrow> rc) \<Rightarrow> table \<Rightarrow> 'f expr list \<Rightarrow> 'f tuple feed option" where
  "table_get_rows F n latched trx t predicates =
     (let table = tm_name (t_meta t); metas = tm_fields (t_meta t)
      in case index_choice t predicates of
           Some (ix, v) \<Rightarrow> do {
             (rc, rids) \<leftarrow> index_scan_open F latched ix v;
             if OB_FAIL rc then Some ([], rc)
             else drain (Suc (length (fst rids))) (index_scan_next F (t_file t) trx table metas predicates) rids
           }
         | None \<Rightarrow> do {
             (rc, records) \<leftarrow> scan_all n (t_file t) (open_scan READ_ONLY None (Some trx));
             drain (Suc (length records)) (table_scan_next F table metas predicates) (map snd records, rc)
           })"

section \<open>What the index delivers\<close>

text \<open>The column of the row equals the constant.\<close>

definition key_matches :: "table_index \<Rightarrow> 'f sql_value \<Rightarrow> byte list \<Rightarrow> bool" where
  "key_matches ix v d =
     (case val v of
        Int_value j \<Rightarrow> signed_value 4 (take 4 (row_key ix d)) = j
      | Pointer_value (Some s) \<Rightarrow> cstring (row_key ix d) = s
      | _ \<Rightarrow> False)"

text \<open>
  The columns that an index can serve: integers of four bytes, and strings.  A constant that is longer
  than the column must not have the byte 255 at the end of the column, which the index cannot increment.
\<close>

definition key_usable :: "table_index \<Rightarrow> 'f sql_value \<Rightarrow> bool" where
  "key_usable ix v \<longleftrightarrow> value_copyable v \<and> attr_type v = ftype (ix_field ix) \<and>
     (case val v of
        Int_value j \<Rightarrow> ftype (ix_field ix) = INTS \<and> flen (ix_field ix) = 4
      | Pointer_value (Some s) \<Rightarrow>
          ftype (ix_field ix) = CHARS \<and> (flen (ix_field ix) < int (length s) \<longrightarrow> s ! (nat (flen (ix_field ix)) - 1) \<noteq> 255)
      | _ \<Rightarrow> False)"

interpretation int_bytes: bound_fixing "attr_compare F INTS len" keep_user_key "\<lambda>v k n. attr_compare F INTS len v k"
  "\<lambda>_. True" "\<lambda>_ _. True" for F :: "'f float_ops" and len
  unfolding bound_fixing_def bound_fixing_axioms_def using key_order_attr_compare[of INTS F len]
  by (auto simp: keep_user_key_def intro!: exI[of _ False])

lemma key_range_int:
  assumes "int32 j"
  shows "in_range (\<lambda>v k n. attr_compare F INTS len v k) (Some (write_int32 j)) n True (Some (write_int32 j)) n True w
    \<longleftrightarrow> signed_value 4 (take 4 w) = j"
proof -
  have "signed_value 4 (take 4 (write_int32 j)) = j"
    using read_write_int32[OF assms, of "[]"] by (simp add: read_int32_def read_span_def)
  then show ?thesis by (auto simp: in_range_def attr_compare_def compare_int_def)
qed

lemma key_range_chars:
  assumes "0 \<notin> set s"
  shows "in_range (\<lambda>v k n. lex3 (cstring (take l v)) (take n k)) (Some (s @ [0])) (length s) True
      (Some (s @ [0])) (length s) True w \<longleftrightarrow> cstring (take l w) = s"
  using lex3_eq_iff[of "cstring (take l w)" s] by (auto simp: in_range_def)

lemma index_scan_open_ok:
  fixes F :: "'f float_ops"
  assumes "index_agrees F rows ix" "key_usable ix v" "\<forall>r\<in>dom rows. proper_rid r" "\<forall>p. latched p" "0 < flen (ix_field ix)"
  shows "\<exists>rids. index_scan_open F latched ix v = Some (SUCCESS, (rids, RECORD_EOF)) \<and> distinct rids \<and>
    set rids = {r. \<exists>d. rows r = Some d \<and> key_matches ix v d}"
proof -
  let ?t = "ix_tree ix" and ?m = "ix_field ix"
  obtain m es where A: "attr_length ?t = flen ?m" "key_comparator ?t = key_compare (attr_compare F (ftype ?m) (flen ?m))"
      "index_holds ?t m es" "set es = row_entry ix ` {(r, d). rows r = Some d}"
    using assms(1) unfolding index_agrees_def by blast
  have wf: "value_copyable v" "value_wf v" "attr_type v = ftype ?m"
    using assms(2) by (auto simp: key_usable_def value_copyable_def)
  have E: "index_entries (\<lambda>_. True) es" unfolding index_entries_def A(4) using assms(3) by (auto simp: row_entry_def)
  have copy: "assign_value Value_default v = Some v" by (rule assign_value_copyable) (use wf in simp_all)
  have dist: "distinct (map snd (filter P es))" for P
  proof -
    have "inj_on snd (set es)" unfolding A(4) by (auto simp: inj_on_def row_entry_def)
    then have "distinct (map snd es)" using entries_distinct[OF A(3)] by (simp add: distinct_map)
    then show ?thesis by (rule distinct_map_filter)
  qed
  have rids: "set (map snd (filter P es)) = {r. \<exists>d. rows r = Some d \<and> P (row_entry ix (r, d))}" for P
    using A(4) by (auto simp: row_entry_def image_iff)
  from assms(2) consider (int) j where "val v = Int_value j" "ftype ?m = INTS" "flen ?m = 4"
    | (chars) s where "val v = Pointer_value (Some s)" "ftype ?m = CHARS"
        "flen ?m < int (length s) \<longrightarrow> s ! (nat (flen ?m) - 1) \<noteq> 255"
    unfolding key_usable_def by (cases "val v") (auto split: option.splits)
  then show ?thesis
  proof cases
    case int
    have j: "int32 j" using wf(2,3) int by (auto simp: value_wf_def)
    have k: "key_pointer F v = Some (Some (write_int32 j))"
      using wf(3) int by (simp add: key_pointer_def value_data_def)
    let ?k = "Some (write_int32 j)" and ?n = "nat (val_length v)"
    have c: "key_comparator ?t = key_compare (attr_compare F INTS (flen ?m))" using A(2) int(2) by simp
    have "\<not> (case (?k, ?k) of (Some l, Some r) \<Rightarrow> attr_compare F INTS (flen ?m) l r > 0 \<or>
        attr_compare F INTS (flen ?m) l r = 0 \<and> (\<not> True \<or> \<not> True) | _ \<Rightarrow> False)" by (simp add: attr_compare_def compare_int_def)
    from int_bytes.scan_returns_range[OF A(3) c E assms(4) _ _ this, of ?n ?n] obtain s where
      s: "scanner_open (attr_compare F INTS (flen ?m)) keep_user_key ?t ?k ?n True ?k ?n True new_scanner = Some (SUCCESS, s)"
        "collect_entries latched ?t s = Some (RECORD_EOF, map snd (filter (\<lambda>e. in_range (\<lambda>v k n. attr_compare F INTS (flen ?m) v k)
           ?k ?n True ?k ?n True (fst (fst e))) es))" by auto
    have "index_scan_open F latched ix v = Some (SUCCESS, (map snd (filter (\<lambda>e. signed_value 4 (take 4 (fst (fst e))) = j) es), RECORD_EOF))"
      using s copy k int A(1) key_range_int[OF j, of F]
      by (simp add: index_scan_open_def create_scanner_def index_fix_key_def)
    then show ?thesis using dist rids int(1) by (auto simp: key_matches_def row_entry_def)
  next
    case (chars s)
    have z: "0 \<notin> set s" "val_length v = int (length s)" using wf(2,3) chars by (auto simp: value_wf_def)
    have k: "key_pointer F v = Some (Some (s @ [0]))"
      using wf(3) chars by (simp add: key_pointer_def pointer_member_def)
    obtain l where l: "nat (flen ?m) = Suc l" using assms(5) by (cases "nat (flen ?m)") auto
    let ?k = "Some (s @ [0])" and ?n = "length s"
    have ac: "attr_compare F CHARS (flen ?m) = chars_attr_compare (Suc l)" by (simp add: fun_eq_iff attr_compare_def l)
    have c: "key_comparator ?t = key_compare (chars_attr_compare (Suc l))" using A(2) chars(2) ac by simp
    have "cstring (s @ [0]) = s" using cstring_padded[OF z(1), of 1] by simp
    then have u: "?n \<le> length (cstring (s @ [0])) \<and> (Suc l < ?n \<longrightarrow> (s @ [0]) ! l \<noteq> 255)"
      using chars(3) l by (auto simp: nth_append)
    have "\<not> (case (?k, ?k) of (Some a, Some b) \<Rightarrow> chars_attr_compare (Suc l) a b > 0 \<or>
        chars_attr_compare (Suc l) a b = 0 \<and> (\<not> True \<or> \<not> True) | _ \<Rightarrow> False)"
      using key_order.cmp_refl[OF key_order_chars_attr_compare] by simp
    from chars_bounds.scan_returns_range[OF A(3) c E assms(4) _ _ this, of ?n ?n] u obtain sc where
      sc: "scanner_open (chars_attr_compare (Suc l)) (fix_user_key (Suc l)) ?t ?k ?n True ?k ?n True new_scanner = Some (SUCCESS, sc)"
        "collect_entries latched ?t sc = Some (RECORD_EOF, map snd (filter (\<lambda>e. in_range (\<lambda>v k n. lex3 (cstring (take (Suc l) v)) (take n k))
           ?k ?n True ?k ?n True (fst (fst e))) es))" by auto
    have "index_scan_open F latched ix v = Some (SUCCESS, (map snd (filter (\<lambda>e. cstring (take (Suc l) (fst (fst e))) = s) es), RECORD_EOF))"
      using sc copy k chars(2) A(1) key_range_chars[OF z(1)] z(2) l ac
      by (simp add: index_scan_open_def create_scanner_def index_fix_key_def)
    then show ?thesis using dist rids chars(1) l by (auto simp: key_matches_def row_entry_def row_key_def)
  qed
qed

section \<open>The equality and the key\<close>

definition row_of :: "table \<Rightarrow> byte list \<Rightarrow> 'f tuple" where
  "row_of t d = RowTuple (tm_name (t_meta t)) (tm_fields (t_meta t)) d"

text \<open>
  The schema of the table: an index that is found under the name of a column is an index on that column, and the
  columns lie inside the rows.
\<close>

definition schema_ok :: "table \<Rightarrow> bool" where
  "schema_ok t \<longleftrightarrow>
     (\<forall>n ix. find_index_by_field t n = Some ix \<longrightarrow> find_field n (tm_fields (t_meta t)) = Some (ix_field ix)) \<and>
     (\<forall>r d. table_rows_map t r = Some d \<longrightarrow> list_all (column_ok d) (tm_fields (t_meta t)))"

lemma row_cell_key:
  fixes F :: "'f float_ops"
  assumes "column_ok d (ix_field ix)" "ftype (ix_field ix) = INTS \<and> flen (ix_field ix) = 4 \<or> ftype (ix_field ix) = CHARS"
  shows "\<exists>c. row_cell F d (ix_field ix) Value_default = Some c \<and> attr_type c = ftype (ix_field ix) \<and>
    (if ftype (ix_field ix) = INTS then val c = Int_value (signed_value 4 (take 4 (row_key ix d)))
     else val c = Pointer_value (Some (cstring (row_key ix d))) \<and> val_length c = int (length (cstring (row_key ix d))))"
proof -
  let ?m = "ix_field ix" and ?d = "drop (nat (foffset (ix_field ix))) d"
  have len: "nat (flen ?m) \<le> length ?d" "0 < flen ?m" using assms(1) by (auto simp: column_ok_def)
  show ?thesis
  proof (cases "ftype ?m = INTS")
    case True
    then have "4 \<le> length ?d" using len assms(2) by auto
    then have "read_int32 ?d = Some (signed_value 4 (take 4 (row_key ix d)), drop 4 ?d)"
      using True assms(2) by (auto simp: read_int32_def read_span_def row_key_def)
    then show ?thesis using True by (simp add: row_cell_def set_data_def set_type_def)
  next
    case False
    have "\<not> own_data (set_type Value_default CHARS :: 'f sql_value)" by (simp add: set_type_def Value_default_def)
    from set_string_bounded[OF this len(2,1)] show ?thesis
      using False assms(2) by (simp add: row_cell_def set_data_def set_type_def row_key_def)
  qed
qed

lemma equality_key:
  fixes F :: "'f float_ops"
  assumes "equality_operands e = Some (f, v)" "holds F (row_of t d) e"
    and "find_field (fname (fmeta f)) (tm_fields (t_meta t)) = Some (ix_field ix)" "column_ok d (ix_field ix)" "key_usable ix v"
  shows "key_matches ix v d"
proof -
  let ?m = "ix_field ix"
  have wf: "value_copyable v" "value_wf v" "attr_type v = ftype ?m"
    using assms(5) by (auto simp: key_usable_def value_copyable_def)
  have ty: "ftype ?m = INTS \<and> flen ?m = 4 \<or> ftype ?m = CHARS"
    using assms(5) by (auto simp: key_usable_def split: val_union.splits option.splits)
  obtain c where c: "row_cell F d ?m Value_default = Some c" "attr_type c = ftype ?m"
      "if ftype ?m = INTS then val c = Int_value (signed_value 4 (take 4 (row_key ix d)))
       else val c = Pointer_value (Some (cstring (row_key ix d))) \<and> val_length c = int (length (cstring (row_key ix d)))"
    using row_cell_key[OF assms(4) ty, of F] by blast
  have copy: "assign_value Value_default v = Some v" by (rule assign_value_copyable) (use wf in simp_all)
  have field: "get_value F (find_cell F (row_of t d)) (FIELD f) Value_default = Some (SUCCESS, c)"
    if "get_value F (find_cell F (row_of t d)) (FIELD f) Value_default \<noteq> Some (NOTFOUND, Value_default)"
    using that c(1) assms(3)
    by (auto simp: row_of_def field_get_value_def TupleCellSpec_def split: if_splits)
  have eq: "value_compare F c v = Some 0 \<or> value_compare F v c = Some 0"
  proof -
    from assms(1) consider (l) "e = COMPARISON EQUAL_TO (FIELD f) (VALUE v)" | (r) "e = COMPARISON EQUAL_TO (VALUE v) (FIELD f)"
      by (auto simp: equality_operands_def split: expr.splits if_splits)
    then show ?thesis
    proof cases
      case l
      then show ?thesis
        using assms(2) field copy
        by (auto simp: holds_def predicate_test_def comparison_get_value_def constant_get_value_def
            store_comparison_def compare_value_def get_boolean_def set_boolean_def value_reset_def Value_default_def
            split: Option.bind_splits if_splits)
    next
      case r
      then show ?thesis
        using assms(2) field copy
        by (auto simp: holds_def predicate_test_def comparison_get_value_def constant_get_value_def
            store_comparison_def compare_value_def get_boolean_def set_boolean_def value_reset_def Value_default_def
            split: Option.bind_splits if_splits)
    qed
  qed
  show ?thesis
  proof (cases "ftype ?m = INTS")
    case True
    then obtain j where "val v = Int_value j" using wf(2,3) by (cases "val v") (auto simp: value_wf_def)
    then show ?thesis
      using eq c True wf(3)
      by (auto simp: value_compare_def integer_compare_def compare_int_def key_matches_def split: if_splits)
  next
    case False
    then have T: "ftype ?m = CHARS" using ty by simp
    obtain s where s: "val v = Pointer_value (Some s)" "0 \<notin> set s" "val_length v = int (length s)"
      using wf T by (auto simp: value_copyable_def value_wf_def split: val_union.splits option.splits)
    have "lex3 (cstring (row_key ix d)) s = 0 \<or> lex3 s (cstring (row_key ix d)) = 0"
      using eq c T wf(3) s compare_string_lex3[OF zero_notin_cstring s(2)] compare_string_lex3[OF s(2) zero_notin_cstring]
      by (auto simp: value_compare_def char_compare_def pointer_member_def)
    then show ?thesis using s(1) lex3_eq_iff by (auto simp: key_matches_def)
  qed
qed

section \<open>Both access paths\<close>

text \<open>What the index scan does with one identifier.\<close>

definition index_row_test ::
  "'f float_ops \<Rightarrow> rec_file \<Rightarrow> (rid \<times> byte list \<Rightarrow> rc) \<Rightarrow> string \<Rightarrow> field_meta list \<Rightarrow> 'f expr list \<Rightarrow> rid \<Rightarrow> (rc \<times> bool) option" where
  "index_row_test F file trx table metas predicates rid = do {
     (rc, current_record) \<leftarrow> file_get_record file rid;
     if OB_FAIL rc then Some (rc, False)
     else do {
       (r, d) \<leftarrow> current_record;
       (rc, filter_result) \<leftarrow> scan_filter F predicates (RowTuple table metas d);
       if OB_FAIL rc then Some (rc, False)
       else if \<not> filter_result \<or> trx (r, d) = RECORD_INVISIBLE then Some (SUCCESS, False)
       else Some (trx (r, d), True)
     }
   }"

interpretation index_op: filtering_operator "index_scan_next F rf trx table metas predicates"
  "index_row_test F rf trx table metas predicates"
  "\<lambda>rid. RowTuple table metas (snd (the (snd (the (file_get_record rf rid)))))" for F rf trx table metas predicates
proof (unfold_locales, goal_cases)
  case (2 x xs rc)
  show ?case
    by (cases "file_get_record rf x")
      (auto simp: index_row_test_def OB_FAIL_def Let_def split: Option.bind_splits option.splits if_splits)
qed simp

lemma index_choice_in:
  "index_choice t ps = Some (ix, v) \<Longrightarrow>
     \<exists>e\<in>set ps. \<exists>f. equality_operands e = Some (f, v) \<and> find_index_by_field t (fname (fmeta f)) = Some ix"
  by (induction ps) (auto split: option.splits prod.splits)

lemma find_index_in: "find_index_by_field t n = Some ix \<Longrightarrow> ix \<in> set (t_indexes t)"
  by (auto simp: find_index_by_field_def find_index_def find_Some_iff split: option.splits prod.splits)

lemma row_rid_proper:
  assumes "rf_inv f" "rf_records f r = Some d"
  shows "proper_rid r"
proof -
  have h: "hdr_ok (fh (rf_hdr f))" using assms(1) by (simp add: rf_inv_def rf_ok_def)
  have "page_num r \<in> data_pages f" using assms(2) by (simp add: rf_records_def split: if_splits)
  then have "0 < page_num r" "page_num r < page_count (fh (rf_hdr f))" by (auto simp: data_pages_def live_pages_def)
  then show ?thesis using h hdr_ok_facts[OF h] by (simp add: proper_rid_def)
qed

lemma row_filter:
  fixes F :: "'f float_ops"
  assumes "schema_ok t" "list_all (atom (cell_type (row_of t [] :: 'f tuple))) ps" "table_rows_map t r = Some d"
  shows "scan_filter F ps (row_of t d) = Some (SUCCESS, list_all (holds F (row_of t d)) ps)"
proof -
  have "cell_type (row_of t d :: 'f tuple) = cell_type (row_of t [] :: 'f tuple)" by (simp add: row_of_def fun_eq_iff)
  moreover have "tuple_ok (row_of t d :: 'f tuple)" using assms(1,3) by (simp add: schema_ok_def row_of_def)
  ultimately show ?thesis using assms(2) unfolding scan_filter_def by (intro scan_filter_atoms) simp_all
qed

lemma table_scan_rows:
  fixes F :: "'f float_ops"
  assumes "table_consistent F t" "schema_ok t" "list_all (atom (cell_type (row_of t [] :: 'f tuple))) ps"
    and "\<forall>x. trx x \<in> {SUCCESS, RECORD_INVISIBLE}" "card (dom (table_rows_map t)) \<le> n" "index_choice t ps = None"
  shows "\<exists>rs. table_get_rows F n latched trx t ps = Some (map (\<lambda>x. row_of t (snd x)) rs, RECORD_EOF) \<and> distinct (map fst rs) \<and>
    set rs = {(r, d). table_rows_map t r = Some d \<and> trx (r, d) = SUCCESS \<and> list_all (holds F (row_of t d)) ps}"
proof -
  have inv: "rf_inv (t_file t)" using assms(1) by (simp add: table_consistent_def)
  obtain xs where xs: "scan_all n (t_file t) (open_scan READ_ONLY None (Some trx)) = Some (RECORD_EOF, xs)" "distinct (map fst xs)"
      "set xs = {(r, d). rf_records (t_file t) r = Some d \<and> (case Some trx of None \<Rightarrow> True | Some v \<Rightarrow> v (r, d) = SUCCESS)}"
    by (rule scan_rows[OF inv, of "Some trx" n READ_ONLY]) (use assms(4,5) in \<open>auto simp: table_rows_map_def\<close>)
  let ?P = "\<lambda>d. list_all (holds F (row_of t d)) ps"
  have "\<forall>d\<in>set (map snd xs). scan_filter F ps (RowTuple (tm_name (t_meta t)) (tm_fields (t_meta t)) d) = Some (SUCCESS, ?P d)"
    using row_filter[OF assms(2,3)] xs(3) by (auto simp: table_rows_map_def row_of_def)
  from filtered_feed_total[OF this] have
    "drain (Suc (length xs)) (table_scan_next F (tm_name (t_meta t)) (tm_fields (t_meta t)) ps) (map snd xs, RECORD_EOF)
       = Some (map (row_of t) (filter ?P (map snd xs)), RECORD_EOF)"
    using scan_op.drain_filtered[of RECORD_EOF "map snd xs" "Suc (length xs)" F "tm_name (t_meta t)" "tm_fields (t_meta t)" ps]
    by (simp add: row_of_def [abs_def] del: drain.simps)
  then have "table_get_rows F n latched trx t ps = Some (map (\<lambda>x. row_of t (snd x)) (filter (\<lambda>x. ?P (snd x)) xs), RECORD_EOF)"
    using xs(1) assms(6) by (simp add: table_get_rows_def filter_map comp_def del: drain.simps)
  then show ?thesis
    using xs(2,3) distinct_map_filter[OF xs(2)]
    by (intro exI[of _ "filter (\<lambda>x. ?P (snd x)) xs"]) (auto simp: table_rows_map_def)
qed

lemma index_scan_rows:
  fixes F :: "'f float_ops"
  assumes "table_consistent F t" "schema_ok t" "list_all (atom (cell_type (row_of t [] :: 'f tuple))) ps"
    and "\<forall>x. trx x \<in> {SUCCESS, RECORD_INVISIBLE}" "\<forall>p. latched p" "index_choice t ps = Some (ix, v)" "key_usable ix v"
  shows "\<exists>rs. table_get_rows F n latched trx t ps = Some (map (\<lambda>x. row_of t (snd x)) rs, RECORD_EOF) \<and> distinct (map fst rs) \<and>
    set rs = {(r, d). table_rows_map t r = Some d \<and> trx (r, d) = SUCCESS \<and> list_all (holds F (row_of t d)) ps}"
proof -
  let ?rows = "table_rows_map t" and ?P = "\<lambda>d. list_all (holds F (row_of t d)) ps"
  have T: "rf_inv (t_file t)" "rf_ok (t_file t)" using assms(1) by (simp_all add: table_consistent_def rf_inv_def)
  obtain e f where e: "e \<in> set ps" "equality_operands e = Some (f, v)" "find_index_by_field t (fname (fmeta f)) = Some ix"
    using index_choice_in[OF assms(6)] by blast
  have ix: "index_agrees F ?rows ix" "\<forall>d. rf_fits (t_file t) d \<longrightarrow> index_fits ix d"
    using assms(1) find_index_in[OF e(3)] by (auto simp: table_consistent_def list_all_iff)
  have "rf_fits (t_file t) (replicate (nat (rf_size (t_file t))) 0)" using rf_okD(2)[OF T(2)] by (simp add: rf_fits_def)
  then have len: "0 < flen (ix_field ix)" using ix(2) by (auto simp: index_fits_def column_ok_def)
  have "\<forall>r\<in>dom ?rows. proper_rid r" using row_rid_proper[OF T(1)] by (auto simp: table_rows_map_def)
  from index_scan_open_ok[OF ix(1) assms(7) this assms(5) len] obtain rids where
    rids: "index_scan_open F latched ix v = Some (SUCCESS, (rids, RECORD_EOF))" "distinct rids"
      "set rids = {r. \<exists>d. ?rows r = Some d \<and> key_matches ix v d}" by blast
  have get: "file_get_record (t_file t) r = Some (SUCCESS, Some (r, d))" if "?rows r = Some d" for r d
    using file_get_eq[OF T(2) rf_records_valid[of "t_file t" r d]] that by (simp add: table_rows_map_def)
  have keep: "key_matches ix v d" if row: "?rows r = Some d" and P: "?P d" for r d
  proof -
    have "find_field (fname (fmeta f)) (tm_fields (t_meta t)) = Some (ix_field ix)"
      using assms(2) e(3) by (simp add: schema_ok_def)
    moreover have "column_ok d (ix_field ix)"
      using ix(2) row_fits[OF T(2)] row by (simp add: table_rows_map_def index_fits_def)
    moreover have "holds F (row_of t d) e" using P e(1) by (simp add: list_all_iff)
    ultimately show ?thesis using equality_key[OF e(2)] assms(7) by blast
  qed
  let ?ok = "\<lambda>r. ?P (the (?rows r)) \<and> trx (r, the (?rows r)) = SUCCESS"
  have test: "\<forall>r\<in>set rids. index_row_test F (t_file t) trx (tm_name (t_meta t)) (tm_fields (t_meta t)) ps r = Some (SUCCESS, ?ok r)"
  proof
    fix r assume "r \<in> set rids"
    then obtain d where d: "?rows r = Some d" using rids(3) by blast
    have "trx (r, d) \<in> {SUCCESS, RECORD_INVISIBLE}" using assms(4) by blast
    then show "index_row_test F (t_file t) trx (tm_name (t_meta t)) (tm_fields (t_meta t)) ps r = Some (SUCCESS, ?ok r)"
      using get[OF d] row_filter[OF assms(2,3) d, of F] d by (auto simp: index_row_test_def row_of_def)
  qed
  from filtered_feed_total[OF this] index_op.drain_filtered[of RECORD_EOF rids "Suc (length rids)" F "t_file t" trx "tm_name (t_meta t)" "tm_fields (t_meta t)" ps]
  have "drain (Suc (length rids)) (index_scan_next F (t_file t) trx (tm_name (t_meta t)) (tm_fields (t_meta t)) ps) (rids, RECORD_EOF)
      = Some (map (\<lambda>r. RowTuple (tm_name (t_meta t)) (tm_fields (t_meta t)) (snd (the (snd (the (file_get_record (t_file t) r))))))
          (filter ?ok rids), RECORD_EOF)" by (simp del: drain.simps)
  also have "map (\<lambda>r. RowTuple (tm_name (t_meta t)) (tm_fields (t_meta t)) (snd (the (snd (the (file_get_record (t_file t) r))))) :: 'f tuple)
      (filter ?ok rids) = map (\<lambda>x. row_of t (snd x)) (map (\<lambda>r. (r, the (?rows r))) (filter ?ok rids))"
    using rids(3) get by (auto simp: row_of_def)
  finally have "table_get_rows F n latched trx t ps =
      Some (map (\<lambda>x. row_of t (snd x)) (map (\<lambda>r. (r, the (?rows r))) (filter ?ok rids)), RECORD_EOF)"
    using rids(1) assms(6) by (simp add: table_get_rows_def del: drain.simps)
  moreover have "distinct (map fst (map (\<lambda>r. (r, the (?rows r))) (filter ?ok rids)))" using rids(2) by (simp add: comp_def)
  moreover have "set (map (\<lambda>r. (r, the (?rows r))) (filter ?ok rids)) =
      {(r, d). ?rows r = Some d \<and> trx (r, d) = SUCCESS \<and> ?P d}"
    using rids(3) keep by (auto simp: image_iff)
  ultimately show ?thesis by blast
qed

section \<open>Properties\<close>

text \<open>
  C9.  The access path has no influence on the result.  Reading a table whose indexes agree with its rows under
  comparisons of columns and constants returns exactly the rows that the transaction sees and that satisfy all
  comparisons, each row once, and ends regularly, whether the planner chooses a table scan or a scan of an index on
  integers or strings for one of the equalities.
\<close>

theorem access_path_correct:
  fixes F :: "'f float_ops"
  assumes "table_consistent F t" "schema_ok t" "list_all (atom (cell_type (row_of t [] :: 'f tuple))) ps"
    and "\<forall>x. trx x \<in> {SUCCESS, RECORD_INVISIBLE}" "\<forall>p. latched p" "card (dom (table_rows_map t)) \<le> n"
    and "\<forall>ix v. index_choice t ps = Some (ix, v) \<longrightarrow> key_usable ix v"
  shows "\<exists>rs. table_get_rows F n latched trx t ps = Some (map (\<lambda>x. row_of t (snd x)) rs, RECORD_EOF) \<and> distinct (map fst rs) \<and>
    set rs = {(r, d). table_rows_map t r = Some d \<and> trx (r, d) = SUCCESS \<and> list_all (holds F (row_of t d)) ps}"
proof (cases "index_choice t ps")
  case None
  then show ?thesis using table_scan_rows[OF assms(1-4,6)] by blast
next
  case (Some x)
  then show ?thesis using index_scan_rows[OF assms(1-5)] assms(7) by (cases x) blast
qed

definition id_is_5 :: "int expr" where
  "id_is_5 = COMPARISON EQUAL_TO (FIELD \<lparr>ftable = ''t'', fmeta = demo_column\<rparr>)
     (VALUE \<lparr>attr_type = INTS, val_length = 4, val = Int_value 5, own_data = False\<rparr>)"

lemma indexed_row:
  obtains t r ix where "table_consistent whole_floats t" "table_rows_map t = [r \<mapsto> [5, 0, 0, 0]]" "t_indexes t = [ix]"
    "ix_name ix = ''i''" "ix_field ix = demo_column" "tm_name (t_meta t) = ''t''" "tm_fields (t_meta t) = [demo_column]"
    "tm_indexes (t_meta t) = [(''i'', ''id'')]"
proof (rule demo_table_index)
  fix t
  assume t: "table_consistent whole_floats t" "table_rows_map t = Map.empty" "table_pages t = 1" "t_file t = demo_file"
    "map ix_name (t_indexes t) = [''i'']" "map ix_field (t_indexes t) = [demo_column]"
    "t_meta t = (t_meta bare_table)\<lparr>tm_indexes := [(''i'', ''id'')]\<rparr>"
  have "rf_fits (t_file t) [5, 0, 0, 0]" using t(4) by (simp add: rf_fits_def demo_file_def)
  from table_insert_ok[OF t(1) this] obtain r v where
    v: "table_insert_record t [5, 0, 0, 0] = Some (SUCCESS, Some r, v)" "table_consistent whole_floats v"
      "table_rows_map v = [r \<mapsto> [5, 0, 0, 0]]" "t_meta v = t_meta t"
    using t(2,3) by (auto simp: FH_BITMAP_BYTES_def layout_simps)
  have "map ix_name (t_indexes v) = [''i'']" "map ix_field (t_indexes v) = [demo_column]"
    using table_insert_schema[OF v(1)] t(5,6) by simp_all
  then obtain ix where "t_indexes v = [ix]" "ix_name ix = ''i''" "ix_field ix = demo_column" by auto
  then show thesis using that[OF v(2,3)] v(4) t(7) by (simp add: bare_table_def)
qed

theorem access_path_correct_witness:
  "\<exists>t ix. index_choice t [id_is_5] = Some (ix, \<lparr>attr_type = INTS, val_length = 4, val = Int_value 5, own_data = False\<rparr>) \<and>
     table_get_rows whole_floats 1 (\<lambda>p. True) (\<lambda>x. SUCCESS) t [id_is_5] = Some ([row_of t [5, 0, 0, 0]], RECORD_EOF)"
proof (rule indexed_row)
  fix t :: table and r ix
  assume t: "table_consistent whole_floats t" "table_rows_map t = [r \<mapsto> [5, 0, 0, 0]]" "t_indexes t = [ix]"
    "ix_name ix = ''i''" "ix_field ix = demo_column" "tm_name (t_meta t) = ''t''" "tm_fields (t_meta t) = [demo_column]"
    "tm_indexes (t_meta t) = [(''i'', ''id'')]"
  let ?v = "\<lparr>attr_type = INTS, val_length = 4, val = Int_value 5, own_data = False\<rparr> :: int sql_value"
  have find: "find_index_by_field t n = (if n = ''id'' then Some ix else None)" for n
    using t(3,4,8) by (simp add: find_index_by_field_def find_index_def)
  then have choice: "index_choice t [id_is_5] = Some (ix, ?v)"
    by (simp add: id_is_5_def equality_operands_def demo_column_facts)
  have "schema_ok t"
    using t(2,5,7) find by (auto simp: schema_ok_def demo_column_facts column_ok_def split: if_splits)
  moreover have "list_all (atom (cell_type (row_of t [] :: int tuple))) [id_is_5]"
    using t(6,7)
    by (simp add: atom_def operand_def id_is_5_def row_of_def TupleCellSpec_def demo_column_facts value_copyable_def
        value_wf_def int32_def)
  moreover have "key_usable ix ?v"
    using t(5) by (simp add: key_usable_def value_copyable_def value_wf_def demo_column_facts int32_def)
  ultimately obtain rs where
    rs: "table_get_rows whole_floats 1 (\<lambda>p. True) (\<lambda>x. SUCCESS) t [id_is_5] = Some (map (\<lambda>x. row_of t (snd x)) rs, RECORD_EOF)"
      "distinct (map fst rs)"
      "set rs = {(r, d). table_rows_map t r = Some d \<and> SUCCESS = SUCCESS \<and> list_all (holds whole_floats (row_of t d)) [id_is_5]}"
    using access_path_correct[OF t(1), of "[id_is_5]" "\<lambda>x. SUCCESS" "\<lambda>p. True" 1] choice t(2) by auto
  have "holds whole_floats (row_of t [5, 0, 0, 0]) id_is_5"
    using t(6,7)
    by (simp add: holds_def predicate_test_def id_is_5_def row_of_def TupleCellSpec_def demo_column_facts row_cell_def set_data_def
        set_type_def read_int32_def read_span_def signed_value_def assign_value_def copy_members_def value_reset_def
        Value_default_def store_comparison_def compare_value_def value_compare_def integer_compare_def compare_int_def
        set_boolean_def get_boolean_def Let_def)
  then have "set rs = {(r, [5, 0, 0, 0])}" using rs(3) t(2) by (auto split: if_splits)
  then have "rs = [(r, [5, 0, 0, 0])]" using rs(2) by (cases rs; cases "tl rs") auto
  then show ?thesis using rs(1) choice by (intro exI[of _ t] exI[of _ ix]) simp
qed

end
