(* ===== verification/Spec2Isabelle.thy ===== *)
theory Spec2Isabelle
  imports Record_Recovery Record_File_Correct Key_Order Buffer_Pool_Correct Mvcc_Correct Bplus_Tree_Validate
    Bplus_Tree_Recovery Log_Recovery Query_Correct Index_Scan
begin

text \<open>
  A verification library for the storage engine and the query processing of MiniOB, the teaching database under src/.

  \<^bold>\<open>The program.\<close>  A server (src/src/observer) parses SQL, plans and executes it on a storage engine.
  The engine keeps each table in a file of 8 KiB pages.  Pages are cached by the buffer pool
  (storage/buffer), which writes them through a double-write buffer; the records of a table live in
  slotted pages (storage/record) and secondary keys in a B+ tree (storage/index); transactions
  (storage/trx) give every row a begin and an end mark; all of them write redo records to one log
  (storage/clog).  A query is planned as a tree of logical
  operators, rewritten by the optimizer (sql/optimizer) and executed by operators that pull tuples from each
  other (sql/operator), which evaluate expressions (sql/expr) on values (common/value.cpp).
  The common library (src/deps/common) has the bitmap, the comparators, the checksum and
  the LRU cache they use.

  \<^bold>\<open>Conventions.\<close>  An operation that can run into undefined behaviour or a failed assertion returns an
  option, and \<open>None\<close> is that case; the result codes of the program are the constructors of \<open>rc\<close>.  State is
  passed explicitly.  Integers of the source are unbounded where their range is bounded by the page size
  or the file size, and words where the width matters (bytes, checksums, bit masks).  Loops are recursive
  functions with a termination proof, or have fuel; the properties give the fuel that suffices (one unit
  per slot, page or record visited).  Latches and reference counting by other threads are not modelled: an
  operation is one step, and concurrency is the interleaving of steps (explicit for transactions).

  \<^bold>\<open>The theories, from the bottom.\<close>
  \<^item> \<open>MiniOB_Base\<close>: result codes (common/rc.h), scalar types, first-match searches.
  \<^item> \<open>Bitmap\<close>: common/lang/bitmap.cpp; the byte-wise searches return the first matching position.
  \<^item> \<open>Key_Order\<close>: comparators, record identifiers, index keys and \<open>lower_bound\<close>; the interface \<open>key_order\<close>
    is interpreted on the integer and the string key comparators.
  \<^item> \<open>Crc32\<close>: the table-driven checksum equals the bit-serial one and detects any change of one byte.
  \<^item> \<open>Lru_Cache\<close>: the doubly linked list of common/lang/lru_cache.h at pointer level, refined to a list
    ordered by recency.
  \<^item> \<open>Redo_Log\<close>: the interface of a component that recovers from its log, with the recovery theorem once
    for all its users.
  \<^item> \<open>Record_Page\<close>, \<open>Record_Page_Correct\<close>: one page of records (record_manager.cpp): layout, row operations,
    iteration, PAX column index, on the bytes of the page; the interface \<open>slotted_store\<close>.
  \<^item> \<open>Record_Recovery\<close>: redo of the page log (record_log.cpp) rebuilds a page from any flushed image.
  \<^item> \<open>Page_Alloc\<close>: the header page of a file with its allocation bitmap (disk_buffer_pool.cpp): allocation,
    disposal, iteration, redo; the interface \<open>page_allocator\<close>.
  \<^item> \<open>Record_File\<close>, \<open>Record_File_Correct\<close>: \<open>RecordFileHandler\<close> and \<open>RecordFileScanner\<close>: a heap of record
    pages as a map from identifiers to records, with the set of pages that have room; the interface
    \<open>record_store\<close>, which a single page provides too.
  \<^item> \<open>Double_Write\<close>: the double-write buffer (double_write_buffer.cpp) and recovery from torn pages.
  \<^item> \<open>Buffer_Pool\<close>, \<open>Buffer_Pool_Correct\<close>: frames, eviction and flushing (disk_buffer_pool.cpp, frame.cpp) on
    top of \<open>Lru_Cache\<close>, \<open>Page_Alloc\<close>, \<open>Crc32\<close> and \<open>Double_Write\<close>: what a reader sees, what survives eviction,
    and what is durable.
  \<^item> \<open>Mvcc\<close>, \<open>Mvcc_Correct\<close>: transactions (mvcc_trx.cpp, mvcc_trx_log.cpp): visibility, commit, rollback and
    replay under every interleaving, as a step relation with its invariant.
  \<^item> \<open>Bplus_Tree\<close>: the nodes of the index and the operations of \<open>BplusTreeHandler\<close> (bplus_tree.cpp) on the pages
    of its file: descent, insertion with splits up to a new root, deletion with borrowing and merging, and
    the release of emptied pages at the end of an operation (latch_memo.cpp).
  \<^item> \<open>Bplus_Tree_Rep\<close>, \<open>Bplus_Tree_Order\<close>, \<open>Bplus_Tree_Find\<close>: the tree that the pages represent: parent and
    sibling links, key order, balance, occupancy, and the descent to a leaf.
  \<^item> \<open>Bplus_Tree_Split\<close>, \<open>Bplus_Tree_Insert\<close>, \<open>Bplus_Tree_Merge\<close>, \<open>Bplus_Tree_Delete\<close>: insertion and deletion refine
    the operations of a sorted list, and the pages of the tree stay exactly the allocated pages of the file.
  \<^item> \<open>Bplus_Tree_Index\<close>: sequences of operations, with the interface \<open>op_refinement\<close> interpreted on the tree; the
    number of pages and the height are bounded by the number of entries.
  \<^item> \<open>Bplus_Tree_Scan\<close>: \<open>BplusTreeScanner\<close> and \<open>get_entry\<close>: a range scan returns the entries of the range in order;
    the interface \<open>bound_fixing\<close> of a key type is interpreted on integer and on string keys.
  \<^item> \<open>Bplus_Tree_Validate\<close>: the consistency checks of the program accept every tree that satisfies the invariant.
  \<^item> \<open>Serializer\<close>: common/lang/serializer.cpp, with the round trips of integers and spans.
  \<^item> \<open>Bplus_Tree_Log\<close>: the log of the index (bplus_tree_log.cpp, bplus_tree_log_entry.cpp): entries, binary format, redo and
    rollback; what is written is what is read.
  \<^item> \<open>Bplus_Tree_Recovery\<close>: the entries that an operation writes account for every change of its pages, and the replay
    of the records of a history rebuilds the index from pages flushed at any moment.
  \<^item> \<open>Log_File\<close>: log entries and log files (storage/clog/log_entry.cpp, log_file.cpp): the reader, the writer, and the
    manager that names and rotates the files; a file system is a map from paths to bytes.
  \<^item> \<open>Log_Handler\<close>, \<open>Log_Handler_Correct\<close>: the buffer and the thread of \<open>DiskLogHandler\<close> (log_buffer.cpp,
    disk_log_handler.cpp) as a step relation that interleaves appending threads with the writing thread, entry by
    entry: what is on disk at every moment, that waiting ends, what a restart finds, and a crash in the middle of a write.
  \<^item> \<open>Log_Recovery\<close>: the dispatch of entries to the modules (integrated_log_replayer.cpp), and recovery of an index from
    the bytes of the log files.

  \<^item> \<open>Sql_Value\<close>: values and their types (common/value.cpp, common/type): a tagged union that can own a string;
    setters, copies, conversions, comparison and arithmetic.  Single precision arithmetic is a record of
    operations that every definition takes as an argument.
  \<^item> \<open>Sql_Tuple\<close>: rows (sql/expr/tuple.h) and columns; the interface \<open>tuple_source\<close>, what an expression relies on when it
    asks a row for a column, is interpreted on the tuples of the program.
  \<^item> \<open>Expression\<close>: the classes of expressions and their evaluation (expression.cpp); evaluation of well-typed
    expressions is defined and has the announced type, on every \<open>tuple_source\<close>.
  \<^item> \<open>Physical_Operators\<close>: scan, predicate, join, projection and the collecting phase of a deletion as iterators; the interface
    \<open>filtering_operator\<close> covers the scan and the predicate, the join is the cross product.
  \<^item> \<open>Expr_Rewriter\<close>, \<open>Optimizer\<close>: the simplification rules, the planner and the rewriting of plans, with the size that
    every reported change decreases.
  \<^item> \<open>Optimizer_Correct\<close>, \<open>Query_Correct\<close>: what rewriting does to a condition and to a plan, the execution of a plan, and
    the rows of a query.  The conditions are those without a false constant behind a condition on
    columns, which the rule for conjunctions loses.

  \<^item> \<open>Table_Record\<close>: the layout of a row (table_meta.cpp) and its construction from values (\<open>Table::make_record\<close>): the row
    that a statement inserts is read back, column by column, as the values of the statement.
  \<^item> \<open>Table_Store\<close>, \<open>Table_Correct\<close>: a table (table.cpp) as its record file with its indexes (bplus_tree_index.cpp): insertion
    with its compensation, deletion, reading, and the creation of an index on existing rows.  The interface
    \<open>row_index\<close>, what a table relies on in an index, is interpreted on the B+ tree; every history of operations keeps each
    index equal to the rows of the file.
  \<^item> \<open>Index_Scan\<close>: the choice of an index for a table access (physical_plan_generator.cpp) and the index scan operator; both
    access paths return the same rows.

  \<^bold>\<open>Not modelled.\<close>  The SQL parser (generated by flex and bison) and the binding of names, grouping and aggregation, the
  evaluation on chunks of columns and the vectorised operators, the catalogue of
  databases and the files of table metadata, the network layer, the latches of the B+ tree, failing
  reads of log files, and the wrappers of the operating system in the common library.
  The chunk operations of the PAX format are unimplemented stubs in the source.
\<close>

end
